(* ===== verification/Opal_Prelude.thy ===== *)
theory Opal_Prelude
  imports Main "HOL-Library.Word" "HOL-Library.Monad_Syntax" "HOL-Library.Signed_Division"
begin

text \<open>
  The shared layer of the development: how the C of Open MPI's OPAL and OMPI layers is read
  in HOL.

  \<^item> A C \<open>int\<close> is a HOL \<open>int\<close>; where an operation can leave the range the model
    says so with \<open>cint\<close>, whose \<open>None\<close> is undefined behaviour (signed overflow). The
    conversions to \<open>size_t\<close> and back to \<open>int\<close> are \<open>size_t_of\<close> and
    \<open>int_of_size_t\<close>, on the 64-bit data model (LP64).
  \<^item> A pointer argument that the code compares with NULL is an \<open>'a ptr\<close>.
  \<^item> An array is a list of exactly the allocated cells; \<open>aget\<close> and \<open>aset\<close> are the
    only ways to touch a cell, and \<open>None\<close> is an access outside the block.
  \<^item> The outcome of an allocation is an argument of the operation: \<open>Null\<close> when
    \<open>malloc\<close> or \<open>realloc\<close> fails, \<open>Ptr j\<close> when it succeeds and the fresh cells
    hold the indeterminate value \<open>j\<close>.

  So an operation that returns \<open>Some\<close> has no undefined behaviour, and the theorems that
  say so are memory-safety theorems.
\<close>

named_theorems opal_rc \<open>return codes and integer limits, unfolded for evaluation\<close>
named_theorems cmem \<open>array and pointer access lemmas\<close>

section \<open>Return codes and integer ranges\<close>

definition OPAL_SUCCESS :: int where [opal_rc]: "OPAL_SUCCESS = 0"
definition OPAL_ERROR :: int where [opal_rc]: "OPAL_ERROR = - 1"
definition OPAL_ERR_OUT_OF_RESOURCE :: int where [opal_rc]: "OPAL_ERR_OUT_OF_RESOURCE = - 2"
definition OPAL_ERR_TEMP_OUT_OF_RESOURCE :: int where
  [opal_rc]: "OPAL_ERR_TEMP_OUT_OF_RESOURCE = - 3"
definition OPAL_ERR_BAD_PARAM :: int where [opal_rc]: "OPAL_ERR_BAD_PARAM = - 5"
definition OPAL_ERR_NOT_FOUND :: int where [opal_rc]: "OPAL_ERR_NOT_FOUND = - 13"

definition MPI_SUCCESS :: int where [opal_rc]: "MPI_SUCCESS = 0"
definition MPI_ERR_DIMS :: int where [opal_rc]: "MPI_ERR_DIMS = 12"

definition INT_MAX :: int where [opal_rc]: "INT_MAX = 2147483647"
definition INT_MIN :: int where [opal_rc]: "INT_MIN = - 2147483648"

definition is_cint :: "int \<Rightarrow> bool" where
  "is_cint x \<longleftrightarrow> INT_MIN \<le> x \<and> x \<le> INT_MAX"

definition cint :: "int \<Rightarrow> int option" where
  "cint x = (if is_cint x then Some x else None)"

definition size_t_of :: "int \<Rightarrow> int" where
  "size_t_of x = x mod 2 ^ 64"

definition int_of_size_t :: "int \<Rightarrow> int" where
  "int_of_size_t x = (x + 2 ^ 31) mod 2 ^ 32 - 2 ^ 31"

text \<open>C division and remainder round towards zero; division by zero is undefined.\<close>

definition cdiv :: "int \<Rightarrow> int \<Rightarrow> int option" where
  "cdiv a b = (if b = 0 then None else Some (a sdiv b))"

definition cmod :: "int \<Rightarrow> int \<Rightarrow> int option" where
  "cmod a b = (if b = 0 then None else Some (a smod b))"

section \<open>Pointers and arrays\<close>

datatype 'a ptr = Null | Ptr 'a

definition aget :: "'a list \<Rightarrow> int \<Rightarrow> 'a option" where
  "aget xs i = (if 0 \<le> i \<and> i < int (length xs) then Some (xs ! nat i) else None)"

definition aset :: "'a list \<Rightarrow> int \<Rightarrow> 'a \<Rightarrow> 'a list option" where
  "aset xs i v = (if 0 \<le> i \<and> i < int (length xs) then Some (xs[nat i := v]) else None)"

text \<open>The cells behind a block pointer: NULL owns none.\<close>

definition cells :: "'a list ptr \<Rightarrow> 'a list" where
  "cells p = (case p of Null \<Rightarrow> [] | Ptr xs \<Rightarrow> xs)"

text \<open>\<open>realloc\<close> keeps the common prefix; the cells it adds hold \<open>j\<close>.\<close>

definition realloc_cells :: "'a \<Rightarrow> int \<Rightarrow> 'a list \<Rightarrow> 'a list" where
  "realloc_cells j n xs = take (nat n) xs @ replicate (nat n - length xs) j"

text \<open>\<open>memset(&a[from], v, count)\<close> on whole cells; undefined outside the block.\<close>

definition afill :: "'a list \<Rightarrow> int \<Rightarrow> int \<Rightarrow> 'a \<Rightarrow> 'a list option" where
  "afill xs from cnt v =
     (if 0 \<le> from \<and> 0 \<le> cnt \<and> from + cnt \<le> int (length xs)
      then Some (take (nat from) xs @ replicate (nat cnt) v @ drop (nat (from + cnt)) xs)
      else None)"

text \<open>Writing back into the block a pointer owns.\<close>

definition put_cells :: "'a list ptr \<Rightarrow> 'a list \<Rightarrow> 'a list ptr" where
  "put_cells p xs = (case p of Null \<Rightarrow> Null | Ptr _ \<Rightarrow> Ptr xs)"

section \<open>Counting loops\<close>

text \<open>
  \<open>for (k = i; k < n; ++k) body\<close>: the body may fail with undefined behaviour, which ends
  the loop. \<open>find_loop\<close> is the loop that stops at the first index whose test holds and
  returns the bound otherwise.
\<close>

function for_loop :: "int \<Rightarrow> int \<Rightarrow> (int \<Rightarrow> 's \<Rightarrow> 's option) \<Rightarrow> 's \<Rightarrow> 's option" where
  "for_loop i n f s = (if i < n then Option.bind (f i s) (for_loop (i + 1) n f) else Some s)"
  by pat_completeness auto
termination
  by (relation "measure (\<lambda>(i, n, f, s). nat (n - i))") auto

function find_loop :: "int \<Rightarrow> int \<Rightarrow> (int \<Rightarrow> bool option) \<Rightarrow> int option" where
  "find_loop i n t =
     (if i < n then Option.bind (t i) (\<lambda>b. if b then Some i else find_loop (i + 1) n t) else Some i)"
  by pat_completeness auto
termination
  by (relation "measure (\<lambda>(i, n, t). nat (n - i))") auto

declare for_loop.simps [simp del]
declare find_loop.simps [simp del]

lemma for_loop_step: "i < n \<Longrightarrow> for_loop i n f s = Option.bind (f i s) (for_loop (i + 1) n f)"
  by (simp add: for_loop.simps [of i n f s])

lemma for_loop_done [simp]: "n \<le> i \<Longrightarrow> for_loop i n f s = Some s"
  by (simp add: for_loop.simps)

text \<open>Total correctness of a counting loop from an invariant on index and state.\<close>

lemma for_loop_rule:
  assumes "i \<le> n" and "P i s"
    and "\<And>k s. i \<le> k \<Longrightarrow> k < n \<Longrightarrow> P k s \<Longrightarrow> \<exists>s'. f k s = Some s' \<and> P (k + 1) s'"
  shows "\<exists>s'. for_loop i n f s = Some s' \<and> P n s'"
  using assms
proof (induction i n f s rule: for_loop.induct)
  case (1 i n f s)
  show ?case
  proof (cases "i < n")
    case True
    then obtain s' where s': "f i s = Some s'" "P (i + 1) s'"
      using "1.prems"(2,3) by blast
    have "\<exists>s''. for_loop (i + 1) n f s' = Some s'' \<and> P n s''"
      using True s' by (intro "1.IH") (auto intro: "1.prems"(3))
    with True s' show ?thesis by (simp add: for_loop_step)
  next
    case False
    with "1.prems" show ?thesis by simp
  qed
qed

text \<open>The same with the number of passes as a natural number.\<close>

lemma for_loop_nat:
  assumes "P 0 s" and "\<And>k s. k < n \<Longrightarrow> P k s \<Longrightarrow> \<exists>s'. f (int a + int k) s = Some s' \<and> P (Suc k) s'"
  shows "\<exists>s'. for_loop (int a) (int a + int n) f s = Some s' \<and> P n s'"
proof -
  have "\<exists>s'. for_loop (int a) (int a + int n) f s = Some s' \<and> P (nat (int a + int n - int a)) s'"
  proof (rule for_loop_rule [where P = "\<lambda>i s. P (nat (i - int a)) s"])
    fix i s assume i: "int a \<le> i" "i < int a + int n" and P: "P (nat (i - int a)) s"
    define k where "k = nat (i - int a)"
    have k: "i = int a + int k" "k < n" "nat (i + 1 - int a) = Suc k" using i by (auto simp: k_def)
    show "\<exists>s'. f i s = Some s' \<and> P (nat (i + 1 - int a)) s'" using assms(2) [of k s] k P by simp
  qed (use assms(1) in simp_all)
  then show ?thesis by simp
qed

lemma for_loop_nat0:
  assumes "P 0 s" and "\<And>k s. k < n \<Longrightarrow> P k s \<Longrightarrow> \<exists>s'. f (int k) s = Some s' \<and> P (Suc k) s'"
  shows "\<exists>s'. for_loop 0 (int n) f s = Some s' \<and> P n s'"
proof -
  have "\<exists>s'. for_loop (int 0) (int 0 + int n) f s = Some s' \<and> P n s'" by (rule for_loop_nat [where P = P]) (use assms in simp_all)
  then show ?thesis by simp
qed

lemma find_loop_cong:
  "(\<And>k. i \<le> k \<Longrightarrow> k < n \<Longrightarrow> f k = g k) \<Longrightarrow> find_loop i n f = find_loop i n g"
proof (induction "nat (n - i)" arbitrary: i)
  case 0
  then show ?case by (simp add: find_loop.simps)
next
  case (Suc m)
  then have "i < n" by simp
  have "find_loop (i + 1) n f = find_loop (i + 1) n g"
    using Suc.hyps(2) Suc.prems by (intro Suc.hyps(1)) auto
  with \<open>i < n\<close> Suc.prems [of i] show ?case
    by (simp add: find_loop.simps [of i n f] find_loop.simps [of i n g] cong: if_cong)
qed

text \<open>What a search loop returns, when every test it makes is defined.\<close>

lemma find_loop_spec:
  assumes "i \<le> n" and "\<And>k. i \<le> k \<Longrightarrow> k < n \<Longrightarrow> t k = Some (T k)"
  shows "\<exists>r. find_loop i n t = Some r \<and> i \<le> r \<and> r \<le> n \<and>
             (\<forall>k. i \<le> k \<and> k < r \<longrightarrow> \<not> T k) \<and> (r < n \<longrightarrow> T r)"
  using assms
proof (induction i n t rule: find_loop.induct)
  case (1 i n t)
  show ?case
  proof (cases "i < n")
    case False
    with "1.prems"(1) show ?thesis by (intro exI [of _ n]) (auto simp: find_loop.simps)
  next
    case True
    then have ti: "t i = Some (T i)" using "1.prems"(2) by simp
    show ?thesis
    proof (cases "T i")
      case True
      with \<open>i < n\<close> ti show ?thesis by (auto simp: find_loop.simps [of i n t])
    next
      case False
      have "\<exists>r. find_loop (i + 1) n t = Some r \<and> i + 1 \<le> r \<and> r \<le> n \<and>
             (\<forall>k. i + 1 \<le> k \<and> k < r \<longrightarrow> \<not> T k) \<and> (r < n \<longrightarrow> T r)"
        using \<open>i < n\<close> ti False by (intro "1.IH") (auto intro: "1.prems"(2))
      then obtain r where r: "find_loop (i + 1) n t = Some r" "i + 1 \<le> r" "r \<le> n"
        "\<forall>k. i + 1 \<le> k \<and> k < r \<longrightarrow> \<not> T k" "r < n \<longrightarrow> T r" by blast
      have "\<forall>k. i \<le> k \<and> k < r \<longrightarrow> \<not> T k"
        using r(4) False by (metis add1_zle_eq order_le_less)
      with r \<open>i < n\<close> ti False show ?thesis by (auto simp: find_loop.simps [of i n t])
    qed
  qed
qed

section \<open>Lemmas on the access primitives\<close>

lemma put_cells_simps [simp]: "put_cells Null xs = Null" "put_cells (Ptr ys) xs = Ptr xs"
  by (simp_all add: put_cells_def)

lemma cint_Some [simp]: "is_cint x \<Longrightarrow> cint x = Some x"
  by (simp add: cint_def)

lemma cint_eq_Some_iff: "cint x = Some y \<longleftrightarrow> is_cint x \<and> y = x"
  by (auto simp: cint_def)

lemma is_cintI: "0 \<le> x \<Longrightarrow> x \<le> INT_MAX \<Longrightarrow> is_cint x"
  by (simp add: is_cint_def opal_rc)

lemma size_t_of_nonneg [simp]: "0 \<le> x \<Longrightarrow> x < 2 ^ 64 \<Longrightarrow> size_t_of x = x"
  by (simp add: size_t_of_def)

lemma int_of_size_t_small [simp]: "0 \<le> x \<Longrightarrow> x \<le> INT_MAX \<Longrightarrow> int_of_size_t x = x"
  by (simp add: int_of_size_t_def opal_rc)

lemma sdiv_nonneg [simp]: "0 \<le> (a::int) \<Longrightarrow> 0 \<le> b \<Longrightarrow> a sdiv b = a div b"
  by (cases "a = 0"; cases "b = 0") (simp_all add: signed_divide_int_def sgn_if)

lemma smod_nonneg [simp]: "0 \<le> (a::int) \<Longrightarrow> 0 \<le> b \<Longrightarrow> a smod b = a mod b"
  by (cases "a = 0") (simp_all add: signed_modulo_int_def sgn_if minus_div_mult_eq_mod)

lemma aget_Some [cmem]: "0 \<le> i \<Longrightarrow> i < int (length xs) \<Longrightarrow> aget xs i = Some (xs ! nat i)"
  by (simp add: aget_def)

lemma aget_eq_Some_iff:
  "aget xs i = Some v \<longleftrightarrow> 0 \<le> i \<and> i < int (length xs) \<and> v = xs ! nat i"
  by (auto simp: aget_def)

lemma aset_Some [cmem]: "0 \<le> i \<Longrightarrow> i < int (length xs) \<Longrightarrow> aset xs i v = Some (xs[nat i := v])"
  by (simp add: aset_def)

lemma aset_eq_Some_iff:
  "aset xs i v = Some ys \<longleftrightarrow> 0 \<le> i \<and> i < int (length xs) \<and> ys = xs[nat i := v]"
  by (auto simp: aset_def)

lemma cells_simps [simp]: "cells Null = []" "cells (Ptr xs) = xs"
  by (simp_all add: cells_def)

lemma length_realloc_cells [simp]: "length (realloc_cells j n xs) = nat n"
  by (simp add: realloc_cells_def)

lemma realloc_cells_grow:
  "int (length xs) \<le> n \<Longrightarrow> realloc_cells j n xs = xs @ replicate (nat n - length xs) j"
  by (simp add: realloc_cells_def)

lemma afill_all [simp]: "n = int (length xs) \<Longrightarrow> afill xs 0 n v = Some (replicate (length xs) v)"
  by (simp add: afill_def)

text \<open>Growing a block and clearing what was added: the common pattern of the containers.\<close>

lemma afill_realloc_grow:
  assumes "int (length xs) \<le> n"
  shows "afill (realloc_cells j n xs) (int (length xs)) (n - int (length xs)) v =
         Some (xs @ replicate (nat n - length xs) v)"
  using assms by (simp add: afill_def realloc_cells_grow nat_diff_distrib)

text \<open>The same clearing written as a counting loop.\<close>

lemma for_loop_fill:
  assumes "int (length xs) \<le> n"
  shows "for_loop (int (length xs)) n (\<lambda>i a. aset a i v) (realloc_cells j n xs) =
         Some (xs @ replicate (nat n - length xs) v)"
proof -
  let ?L = "length xs"
  let ?P = "\<lambda>k a. a = xs @ replicate (nat k - ?L) v @ replicate (nat n - nat k) j"
  have "\<exists>a. for_loop (int ?L) n (\<lambda>i a. aset a i v) (realloc_cells j n xs) = Some a \<and> ?P n a"
  proof (rule for_loop_rule [where P = ?P])
    fix k a assume k: "int ?L \<le> k" "k < n" and a: "?P k a"
    have eq: "nat n - nat k = Suc (nat n - nat (k + 1))" "nat (k + 1) - ?L = Suc (nat k - ?L)"
      using k by auto
    have "aset a k v = Some (a[nat k := v])" using k a by (simp add: aset_def)
    moreover have "a[nat k := v] = xs @ replicate (nat (k + 1) - ?L) v @ replicate (nat n - nat (k + 1)) j"
    proof -
      let ?ys = "xs @ replicate (nat k - ?L) v"
      have "a = ?ys @ j # replicate (nat n - nat (k + 1)) j" using a eq(1) by simp
      moreover have "length ?ys = nat k" using k by simp
      ultimately have "a[nat k := v] = ?ys @ v # replicate (nat n - nat (k + 1)) j"
        by (metis list_update_length)
      then show ?thesis by (simp add: eq(2) replicate_app_Cons_same)
    qed
    ultimately show "\<exists>a'. aset a k v = Some a' \<and> ?P (k + 1) a'" by blast
  qed (use assms in \<open>simp_all add: realloc_cells_grow\<close>)
  then show ?thesis by simp
qed

text \<open>A counting loop whose body is defined at every index is a fold over the indices.\<close>

lemma for_loop_fold:
  assumes "\<And>k s. k < n \<Longrightarrow> f (int k) s = Some (g k s)"
  shows "for_loop 0 (int n) f s = Some (fold g [0..<n] s)"
proof -
  have "\<exists>s'. for_loop 0 (int n) f s = Some s' \<and> s' = fold g [0..<nat (int n)] s"
  proof (rule for_loop_rule [where P = "\<lambda>i s'. s' = fold g [0..<nat i] s"])
    fix k s' assume k: "0 \<le> k" "k < int n" and s': "s' = fold g [0..<nat k] s"
    then have "f k s' = Some (g (nat k) s')" using assms [of "nat k" s'] by simp
    moreover have "nat (k + 1) = Suc (nat k)" using k by simp
    ultimately show "\<exists>s''. f k s' = Some s'' \<and> s'' = fold g [0..<nat (k + 1)] s" using s' by simp
  qed simp_all
  then show ?thesis by simp
qed

lemma fold_upt_nth: "fold (\<lambda>k. h (xs ! k)) [0..<length xs] s = fold h xs s"
proof -
  have "fold h (map ((!) xs) [0..<length xs]) s = fold (\<lambda>k. h (xs ! k)) [0..<length xs] s"
    by (simp add: fold_map comp_def)
  then show ?thesis by (simp add: map_nth)
qed

lemma take_Suc_update: "k < length a \<Longrightarrow> take (Suc k) (a[k := v]) = take k a @ [v]"
  by (simp add: take_Suc_conv_app_nth)

text \<open>The loop that fills the first cells of an array.\<close>

lemma for_loop_array_fill:
  assumes "\<And>i. i < length xs \<Longrightarrow> v (int i) = Some (xs ! i)" and "length xs \<le> length a"
  shows "for_loop 0 (int (length xs)) (\<lambda>i a. do { x \<leftarrow> v i; aset a i x }) a = Some (xs @ drop (length xs) a)"
proof -
  let ?n = "length xs"
  let ?P = "\<lambda>i a'. a' = take (nat i) xs @ drop (nat i) a"
  have "\<exists>a'. for_loop 0 (int ?n) (\<lambda>i a. do { x \<leftarrow> v i; aset a i x }) a = Some a' \<and> ?P (int ?n) a'"
  proof (rule for_loop_rule [where P = ?P])
    fix k a' assume k: "0 \<le> k" "k < int ?n" and a': "?P k a'"
    define i where "i = nat k"
    have i: "k = int i" "i < ?n" "nat (k + 1) = Suc i" "i < length a" using k assms(2) by (auto simp: i_def)
    have "a'[i := xs ! i] = take (Suc i) xs @ drop (Suc i) a"
      using a' i by (simp add: list_update_append take_Suc_conv_app_nth Cons_nth_drop_Suc [symmetric])
    then show "\<exists>a''. (do { x \<leftarrow> v k; aset a' k x }) = Some a'' \<and> ?P (k + 1) a''"
      using a' i assms(1) by (simp add: aset_def)
  qed simp_all
  then show ?thesis by simp
qed

text \<open>A loop over the elements of a list.\<close>

primrec mfold :: "('a \<Rightarrow> 's \<Rightarrow> 's option) \<Rightarrow> 'a list \<Rightarrow> 's \<Rightarrow> 's option" where
  "mfold f [] s = Some s"
| "mfold f (x # xs) s = Option.bind (f x s) (mfold f xs)"

lemma mfold_Nil_fun [simp]: "mfold f [] = Some"
  by (rule ext) simp

lemma mfold_append [simp]: "mfold f (xs @ ys) s = Option.bind (mfold f xs s) (mfold f ys)"
  by (induction xs arbitrary: s) (auto split: bind_split)

lemma for_loop_mfold: "for_loop 0 (int n) f s = mfold f (map int [0..<n]) s"
proof -
  have "for_loop (int i) (int n) f s = mfold f (map int [i..<n]) s" if "i \<le> n" for i s
    using that
  proof (induction "n - i" arbitrary: i s)
    case (Suc m)
    then have "i < n" "m = n - Suc i" by auto
    moreover have "for_loop (int i + 1) (int n) f = mfold f (map int [Suc i..<n])"
      using Suc.hyps(1) [of "Suc i"] calculation by (intro ext) (simp add: add.commute)
    ultimately show ?case by (simp add: for_loop_step upt_conv_Cons)
  qed simp
  from this [of 0 s] show ?thesis by simp
qed

end
