(* ===== verification/Bitmap.thy ===== *)
theory Bitmap
  imports Opal_Prelude
begin

text \<open>
  \<^verbatim>\<open>opal/class/opal_bitmap.c\<close>: a growable bitmap kept in 64-bit words. The record is
  \<open>opal_bitmap_t\<close>; every operation takes the bitmap pointer (NULL included) and returns the
  return code with the updated bitmap, or \<open>None\<close> where the C has undefined behaviour.
  The abstraction \<open>bm_bits\<close> is the set of positions for which
  \<open>opal_bitmap_is_set_bit\<close> answers true.
\<close>

unbundle bit_operations_syntax

section \<open>Data and operations\<close>

record opal_bitmap =
  bm_bitmap :: "64 word list ptr"
  bm_array_size :: int
  bm_max_size :: int

definition SIZE_OF_BASE_TYPE :: int where "SIZE_OF_BASE_TYPE = 64"

definition opal_bitmap_construct :: opal_bitmap where
  "opal_bitmap_construct = \<lparr>bm_bitmap = Null, bm_array_size = 0, bm_max_size = INT_MAX\<rparr>"

definition opal_bitmap_destruct :: "opal_bitmap \<Rightarrow> opal_bitmap" where
  "opal_bitmap_destruct bm = (if bm_bitmap bm \<noteq> Null then bm\<lparr>bm_bitmap := Null\<rparr> else bm)"

definition opal_bitmap_set_max_size :: "opal_bitmap ptr \<Rightarrow> int \<Rightarrow> int \<times> opal_bitmap ptr" where
  "opal_bitmap_set_max_size bm max_size =
     (case bm of
        Null \<Rightarrow> (OPAL_ERR_BAD_PARAM, bm)
      | Ptr b \<Rightarrow>
          (OPAL_SUCCESS,
           Ptr (b\<lparr>bm_max_size :=
                    int_of_size_t (((size_t_of max_size + SIZE_OF_BASE_TYPE - 1) mod 2 ^ 64)
                                   div SIZE_OF_BASE_TYPE)\<rparr>)))"

definition opal_bitmap_clear_all_bits :: "opal_bitmap ptr \<Rightarrow> (int \<times> opal_bitmap ptr) option" where
  "opal_bitmap_clear_all_bits bm =
     (case bm of
        Null \<Rightarrow> Some (OPAL_ERR_BAD_PARAM, bm)
      | Ptr b \<Rightarrow> do {
          ws \<leftarrow> afill (cells (bm_bitmap b)) 0 (bm_array_size b) 0;
          Some (OPAL_SUCCESS, Ptr (b\<lparr>bm_bitmap := put_cells (bm_bitmap b) ws\<rparr>)) })"

definition opal_bitmap_set_all_bits :: "opal_bitmap ptr \<Rightarrow> (int \<times> opal_bitmap ptr) option" where
  "opal_bitmap_set_all_bits bm =
     (case bm of
        Null \<Rightarrow> Some (OPAL_ERR_BAD_PARAM, bm)
      | Ptr b \<Rightarrow> do {
          ws \<leftarrow> afill (cells (bm_bitmap b)) 0 (bm_array_size b) (- 1);
          Some (OPAL_SUCCESS, Ptr (b\<lparr>bm_bitmap := put_cells (bm_bitmap b) ws\<rparr>)) })"

definition opal_bitmap_init ::
    "64 word ptr \<Rightarrow> opal_bitmap ptr \<Rightarrow> int \<Rightarrow> (int \<times> opal_bitmap ptr) option" where
  "opal_bitmap_init m bm sz =
     (case bm of
        Null \<Rightarrow> Some (OPAL_ERR_BAD_PARAM, bm)
      | Ptr b \<Rightarrow>
          if sz \<le> 0 \<or> sz > bm_max_size b then Some (OPAL_ERR_BAD_PARAM, bm)
          else
            let n = int_of_size_t ((size_t_of sz + SIZE_OF_BASE_TYPE - 1) div SIZE_OF_BASE_TYPE);
                b1 = b\<lparr>bm_array_size := n\<rparr>;
                b2 = (if bm_bitmap b \<noteq> Null \<and> bm_max_size b1 < n
                      then b1\<lparr>bm_max_size := n\<rparr> else b1)
            in (case m of
                  Null \<Rightarrow> Some (OPAL_ERR_OUT_OF_RESOURCE, Ptr (b2\<lparr>bm_bitmap := Null\<rparr>))
                | Ptr j \<Rightarrow> do {
                    (_, bm') \<leftarrow> opal_bitmap_clear_all_bits
                                   (Ptr (b2\<lparr>bm_bitmap := Ptr (replicate (nat n) j)\<rparr>));
                    Some (OPAL_SUCCESS, bm') }))"

text \<open>The growth step of \<open>opal_bitmap_set_bit\<close>: \<open>realloc\<close>, then clear the new words.\<close>

definition bm_grow :: "64 word ptr \<Rightarrow> opal_bitmap \<Rightarrow> int \<Rightarrow> (int \<times> opal_bitmap) option" where
  "bm_grow m b index =
     (if bm_array_size b = 0 then None
      else
        let n0 = int_of_size_t
                   (((size_t_of index div size_t_of (bm_array_size b) + 1)
                     * size_t_of (bm_array_size b)) mod 2 ^ 64);
            n = (if n0 > bm_max_size b then bm_max_size b else n0)
        in (case m of
              Null \<Rightarrow> Some (OPAL_ERR_OUT_OF_RESOURCE, b\<lparr>bm_bitmap := Null\<rparr>)
            | Ptr j \<Rightarrow> do {
                ws \<leftarrow> afill (realloc_cells j n (cells (bm_bitmap b)))
                           (bm_array_size b) (n - bm_array_size b) 0;
                Some (OPAL_SUCCESS, b\<lparr>bm_bitmap := Ptr ws, bm_array_size := n\<rparr>) }))"

definition opal_bitmap_set_bit ::
    "64 word ptr \<Rightarrow> opal_bitmap ptr \<Rightarrow> int \<Rightarrow> (int \<times> opal_bitmap ptr) option" where
  "opal_bitmap_set_bit m bm bi =
     (case bm of
        Null \<Rightarrow> Some (OPAL_ERR_BAD_PARAM, bm)
      | Ptr b \<Rightarrow>
          if bi < 0 \<or> bi > bm_max_size b then Some (OPAL_ERR_BAD_PARAM, bm)
          else
            let index = bi sdiv SIZE_OF_BASE_TYPE; offset = bi smod SIZE_OF_BASE_TYPE
            in do {
              (rc, b1) \<leftarrow> (if index \<ge> bm_array_size b then bm_grow m b index
                             else Some (OPAL_SUCCESS, b));
              if rc \<noteq> OPAL_SUCCESS then Some (rc, Ptr b1)
              else do {
                w \<leftarrow> aget (cells (bm_bitmap b1)) index;
                ws \<leftarrow> aset (cells (bm_bitmap b1)) index (w OR push_bit (nat offset) 1);
                Some (OPAL_SUCCESS, Ptr (b1\<lparr>bm_bitmap := put_cells (bm_bitmap b1) ws\<rparr>)) } })"

definition opal_bitmap_clear_bit ::
    "opal_bitmap ptr \<Rightarrow> int \<Rightarrow> (int \<times> opal_bitmap ptr) option" where
  "opal_bitmap_clear_bit bm bi =
     (case bm of
        Null \<Rightarrow> Some (OPAL_ERR_BAD_PARAM, bm)
      | Ptr b \<Rightarrow>
          if bi < 0 then Some (OPAL_ERR_BAD_PARAM, bm)
          else do {
            nbits \<leftarrow> cint (bm_array_size b * SIZE_OF_BASE_TYPE);
            if bi \<ge> nbits then Some (OPAL_ERR_BAD_PARAM, bm)
            else
              let index = bi sdiv SIZE_OF_BASE_TYPE; offset = bi smod SIZE_OF_BASE_TYPE
              in do {
                w \<leftarrow> aget (cells (bm_bitmap b)) index;
                ws \<leftarrow> aset (cells (bm_bitmap b)) index (w AND NOT (push_bit (nat offset) 1));
                Some (OPAL_SUCCESS, Ptr (b\<lparr>bm_bitmap := put_cells (bm_bitmap b) ws\<rparr>)) } })"

definition opal_bitmap_is_set_bit :: "opal_bitmap ptr \<Rightarrow> int \<Rightarrow> bool option" where
  "opal_bitmap_is_set_bit bm bi =
     (case bm of
        Null \<Rightarrow> Some False
      | Ptr b \<Rightarrow>
          if bi < 0 then Some False
          else do {
            nbits \<leftarrow> cint (bm_array_size b * SIZE_OF_BASE_TYPE);
            if bi \<ge> nbits then Some False
            else
              let index = bi sdiv SIZE_OF_BASE_TYPE; offset = bi smod SIZE_OF_BASE_TYPE
              in do {
                w \<leftarrow> aget (cells (bm_bitmap b)) index;
                Some (0 \<noteq> w AND push_bit (nat offset) 1) } })"

text \<open>
  \<open>while (!(temp & 0x1)) { ++(*position); temp >>= 1; }\<close> runs forever on 0, so the loop is a
  partial function and \<open>None\<close> is divergence.
\<close>

partial_function (option) bm_count_zeros :: "64 word \<Rightarrow> int \<Rightarrow> int option" where
  "bm_count_zeros temp position =
     (if temp AND 1 = 0 then bm_count_zeros (drop_bit 1 temp) (position + 1) else Some position)"

definition opal_bitmap_find_and_set_first_unset_bit ::
    "64 word ptr \<Rightarrow> opal_bitmap ptr \<Rightarrow> int \<Rightarrow> (int \<times> opal_bitmap ptr \<times> int) option" where
  "opal_bitmap_find_and_set_first_unset_bit m bm position0 =
     (case bm of
        Null \<Rightarrow> Some (OPAL_ERR_BAD_PARAM, bm, position0)
      | Ptr b \<Rightarrow> do {
          i \<leftarrow> find_loop 0 (bm_array_size b)
                 (\<lambda>k. map_option (\<lambda>w. w \<noteq> 0xffffffffffffffff) (aget (cells (bm_bitmap b)) k));
          if i = bm_array_size b then do {
            position \<leftarrow> cint (bm_array_size b * SIZE_OF_BASE_TYPE);
            (rc, bm') \<leftarrow> opal_bitmap_set_bit m bm position;
            Some (rc, bm', position) }
          else do {
            w \<leftarrow> aget (cells (bm_bitmap b)) i;
            let w' = w OR (w + 1);
            ws \<leftarrow> aset (cells (bm_bitmap b)) i w';
            position \<leftarrow> bm_count_zeros (w XOR w') 0;
            Some (OPAL_SUCCESS, Ptr (b\<lparr>bm_bitmap := put_cells (bm_bitmap b) ws\<rparr>),
                  position + i * SIZE_OF_BASE_TYPE) } })"

text \<open>The three in-place operators share their checks and their loop over the words.\<close>

definition bm_word_loop ::
    "(64 word \<Rightarrow> 64 word \<Rightarrow> 64 word) \<Rightarrow> int \<Rightarrow> 64 word list \<Rightarrow> 64 word list \<Rightarrow> 64 word list option" where
  "bm_word_loop f n right dest =
     for_loop 0 n
       (\<lambda>i d. do { x \<leftarrow> aget d i; y \<leftarrow> aget right i; aset d i (f x y) }) dest"

definition opal_bitmap_bitwise_and_inplace ::
    "opal_bitmap ptr \<Rightarrow> opal_bitmap ptr \<Rightarrow> (int \<times> opal_bitmap ptr) option" where
  "opal_bitmap_bitwise_and_inplace dest right =
     (case (dest, right) of
        (Ptr d, Ptr r) \<Rightarrow>
          if bm_array_size d \<noteq> bm_array_size r then Some (OPAL_ERR_BAD_PARAM, dest)
          else do {
            ws \<leftarrow> bm_word_loop (AND) (bm_array_size d) (cells (bm_bitmap r)) (cells (bm_bitmap d));
            Some (OPAL_SUCCESS, Ptr (d\<lparr>bm_bitmap := put_cells (bm_bitmap d) ws\<rparr>)) }
      | _ \<Rightarrow> Some (OPAL_ERR_BAD_PARAM, dest))"

definition opal_bitmap_bitwise_or_inplace ::
    "opal_bitmap ptr \<Rightarrow> opal_bitmap ptr \<Rightarrow> (int \<times> opal_bitmap ptr) option" where
  "opal_bitmap_bitwise_or_inplace dest right =
     (case (dest, right) of
        (Ptr d, Ptr r) \<Rightarrow>
          if bm_array_size d \<noteq> bm_array_size r then Some (OPAL_ERR_BAD_PARAM, dest)
          else do {
            ws \<leftarrow> bm_word_loop (OR) (bm_array_size d) (cells (bm_bitmap r)) (cells (bm_bitmap d));
            Some (OPAL_SUCCESS, Ptr (d\<lparr>bm_bitmap := put_cells (bm_bitmap d) ws\<rparr>)) }
      | _ \<Rightarrow> Some (OPAL_ERR_BAD_PARAM, dest))"

definition opal_bitmap_bitwise_xor_inplace ::
    "opal_bitmap ptr \<Rightarrow> opal_bitmap ptr \<Rightarrow> (int \<times> opal_bitmap ptr) option" where
  "opal_bitmap_bitwise_xor_inplace dest right =
     (case (dest, right) of
        (Ptr d, Ptr r) \<Rightarrow>
          if bm_array_size d \<noteq> bm_array_size r then Some (OPAL_ERR_BAD_PARAM, dest)
          else do {
            ws \<leftarrow> bm_word_loop (XOR) (bm_array_size d) (cells (bm_bitmap r)) (cells (bm_bitmap d));
            Some (OPAL_SUCCESS, Ptr (d\<lparr>bm_bitmap := put_cells (bm_bitmap d) ws\<rparr>)) }
      | _ \<Rightarrow> Some (OPAL_ERR_BAD_PARAM, dest))"

definition opal_bitmap_size :: "opal_bitmap ptr \<Rightarrow> int option" where
  "opal_bitmap_size bm =
     (case bm of Null \<Rightarrow> Some 0 | Ptr b \<Rightarrow> cint (bm_array_size b * SIZE_OF_BASE_TYPE))"

text \<open>
  On a NULL argument the C returns the error code through a \<open>bool\<close>, which is true.
\<close>

definition opal_bitmap_are_different :: "opal_bitmap ptr \<Rightarrow> opal_bitmap ptr \<Rightarrow> bool option" where
  "opal_bitmap_are_different left right =
     (case (left, right) of
        (Ptr l, Ptr r) \<Rightarrow> do {
          sl \<leftarrow> opal_bitmap_size left;
          sr \<leftarrow> opal_bitmap_size right;
          if sl \<noteq> sr then Some True
          else do {
            i \<leftarrow> find_loop 0 (bm_array_size l)
                   (\<lambda>k. do { x \<leftarrow> aget (cells (bm_bitmap l)) k;
                              y \<leftarrow> aget (cells (bm_bitmap r)) k; Some (x \<noteq> y) });
            Some (i < bm_array_size l) } }
      | _ \<Rightarrow> Some (OPAL_ERR_BAD_PARAM \<noteq> 0))"

definition opal_bitmap_get_string :: "opal_bitmap ptr \<Rightarrow> string ptr option" where
  "opal_bitmap_get_string bm =
     (case bm of
        Null \<Rightarrow> Some Null
      | Ptr b \<Rightarrow> do {
          nbits \<leftarrow> cint (bm_array_size b * SIZE_OF_BASE_TYPE);
          for_loop 0 nbits
            (\<lambda>i s. do {
               on \<leftarrow> opal_bitmap_is_set_bit bm i;
               Some (Ptr (cells s @ [if on then CHR ''X'' else CHR ''_''])) }) Null })"

text \<open>
  The population count of one word: \<open>for ( ; val; cnt++) val &= val - 1;\<close>. It ends because
  \<open>val & (val - 1)\<close> is below \<open>val\<close>.
\<close>

function bm_wegner :: "64 word \<Rightarrow> int \<Rightarrow> int" where
  "bm_wegner v cnt = (if v = 0 then cnt else bm_wegner (v AND (v - 1)) (cnt + 1))"
  by pat_completeness auto
termination
proof (relation "measure (\<lambda>(v, cnt). unat v)")
  fix v :: "64 word" and cnt :: int
  assume "v \<noteq> 0"
  then have "v - 1 < v" by (simp add: word_less_nat_alt unat_minus_one unat_gt_0)
  moreover have "v AND (v - 1) \<le> v - 1" by (rule word_and_le1)
  ultimately have "v AND (v - 1) < v" by simp
  then show "((v AND (v - 1), cnt + 1), v, cnt) \<in> measure (\<lambda>(v, cnt). unat v)"
    by (simp add: word_less_nat_alt)
qed simp

definition opal_bitmap_num_set_bits :: "opal_bitmap \<Rightarrow> int \<Rightarrow> int option" where
  "opal_bitmap_num_set_bits bm len =
     for_loop 0 len
       (\<lambda>i cnt. do {
          val \<leftarrow> aget (cells (bm_bitmap bm)) i;
          if 0 = val then Some cnt else Some (bm_wegner val cnt) }) 0"

definition opal_bitmap_num_unset_bits :: "opal_bitmap \<Rightarrow> int \<Rightarrow> int option" where
  "opal_bitmap_num_unset_bits bm len =
     map_option (\<lambda>c. len - c) (opal_bitmap_num_set_bits bm len)"

definition opal_bitmap_is_clear :: "opal_bitmap \<Rightarrow> bool option" where
  "opal_bitmap_is_clear bm =
     map_option (\<lambda>i. \<not> i < bm_array_size bm)
       (find_loop 0 (bm_array_size bm)
          (\<lambda>k. map_option (\<lambda>w. 0 \<noteq> w) (aget (cells (bm_bitmap bm)) k)))"

section \<open>Words: the lowest set and the lowest clear bit\<close>

lemma word_minus_one_lowest:
  fixes w :: "'a::len word"
  assumes "bit w t" and "\<And>k. k < t \<Longrightarrow> \<not> bit w k"
  shows "w - 1 = unset_bit t w OR mask t"
proof -
  have t: "t < LENGTH('a)" using assms(1) by (rule bit_imp_le_length)
  have "w = unset_bit t w OR push_bit t 1"
    using assms(1) by (auto intro!: bit_word_eqI simp: bit_simps)
  also have "\<dots> = unset_bit t w + push_bit t 1"
    by (rule disjunctive_add [symmetric]) (auto simp: bit_simps)
  finally have "w - 1 = unset_bit t w + mask t"
    by (simp add: mask_eq_exp_minus_1 push_bit_eq_mult algebra_simps)
  also have "\<dots> = unset_bit t w OR mask t"
    using assms(2) by (intro disjunctive_add) (auto simp: bit_simps)
  finally show ?thesis .
qed

lemma word_clear_lowest:
  fixes w :: "'a::len word"
  assumes "bit w t" and "\<And>k. k < t \<Longrightarrow> \<not> bit w k"
  shows "w AND (w - 1) = unset_bit t w"
  using assms(2) by (auto intro!: bit_word_eqI
      simp: word_minus_one_lowest [OF assms] bit_simps)

lemma word_set_lowest_clear:
  fixes w :: "'a::len word"
  assumes "\<not> bit w t" and "t < LENGTH('a)" and "\<And>k. k < t \<Longrightarrow> bit w k"
  shows "w OR (w + 1) = set_bit t w"
proof -
  have *: "NOT w AND (NOT w - 1) = unset_bit t (NOT w)"
    using assms by (intro word_clear_lowest) (auto simp: bit_simps)
  have "NOT w - 1 = NOT (w + 1)" by (simp add: not_eq_complement)
  with * have "NOT (w OR (w + 1)) = unset_bit t (NOT w)" by simp
  then have "w OR (w + 1) = NOT (unset_bit t (NOT w))"
    by (metis bit.double_compl)
  also have "\<dots> = set_bit t w"
    by (auto intro!: bit_word_eqI simp: bit_simps)
  finally show ?thesis .
qed

lemma word_lowest_exists:
  fixes w :: "'a::len word"
  assumes "w \<noteq> 0"
  shows "\<exists>t. bit w t \<and> (\<forall>k < t. \<not> bit w k)"
proof -
  from assms have "\<exists>t. bit w t" by (metis bit_0_eq bit_word_eqI bot_apply bot_bool_def)
  then show ?thesis by (metis LeastI_ex not_less_Least)
qed

text \<open>Wegner's loop counts the set bits.\<close>

definition word_bits :: "64 word \<Rightarrow> nat set" where
  "word_bits w = {k. bit w k}"

lemma finite_word_bits [simp]: "finite (word_bits w)"
  by (rule finite_subset [of _ "{..<64}"]) (auto simp: word_bits_def dest: bit_imp_le_length)

lemma word_bits_0 [simp]: "word_bits 0 = {}"
  by (auto simp: word_bits_def)

declare bm_wegner.simps [simp del]

lemma bm_wegner_card: "bm_wegner v cnt = cnt + int (card (word_bits v))"
proof (induction v cnt rule: bm_wegner.induct)
  case (1 v cnt)
  show ?case
  proof (cases "v = 0")
    case True
    then show ?thesis by (simp add: bm_wegner.simps)
  next
    case False
    obtain t where t: "bit v t" "\<And>k. k < t \<Longrightarrow> \<not> bit v k"
      using word_lowest_exists [OF False] by blast
    have "word_bits (v AND (v - 1)) = word_bits v - {t}"
      by (auto simp: word_clear_lowest [OF t] word_bits_def bit_simps)
    moreover have "t \<in> word_bits v" using t by (simp add: word_bits_def)
    ultimately have "card (word_bits v) = Suc (card (word_bits (v AND (v - 1))))"
      by (simp only: card.remove [OF finite_word_bits])
    with "1.IH" [OF False] show ?thesis
      by (subst bm_wegner.simps) (simp add: False)
  qed
qed

lemma bm_count_zeros_exp: "t < 64 \<Longrightarrow> bm_count_zeros (2 ^ t) p = Some (p + int t)"
proof (induction t arbitrary: p)
  case 0
  then show ?case by (simp add: bm_count_zeros.simps)
next
  case (Suc t)
  have "2 ^ Suc t AND (1 :: 64 word) = 0"
    by (auto intro!: bit_word_eqI simp: bit_simps)
  moreover have "drop_bit 1 (2 ^ Suc t :: 64 word) = 2 ^ t"
    using Suc.prems by (auto intro!: bit_word_eqI simp: bit_simps)
  ultimately have "bm_count_zeros (2 ^ Suc t) p = bm_count_zeros (2 ^ t) (p + 1)"
    by (simp only: bm_count_zeros.simps [of "2 ^ Suc t"] if_True simp_thms)
  with Suc show ?case by simp
qed

section \<open>The set of positions a word list stands for\<close>

definition words_bits :: "64 word list \<Rightarrow> int set" where
  "words_bits ws =
     {i. 0 \<le> i \<and> i < 64 * int (length ws) \<and> bit (ws ! nat (i div 64)) (nat (i mod 64))}"

lemma div64_lt: "0 \<le> i \<Longrightarrow> i < 64 * int n \<Longrightarrow> nat (i div 64) < n"
  by auto

lemma mod64_lt [simp]: "nat (i mod 64) < 64"
  using pos_mod_bound [of 64 i] pos_mod_sign [of 64 i] by linarith

lemma div_mod_64_eq: "0 \<le> i \<Longrightarrow> 0 \<le> k \<Longrightarrow>
    nat (k div 64) = nat (i div 64) \<and> nat (k mod 64) = nat (i mod 64) \<longleftrightarrow> k = (i :: int)"
  by (simp add: eq_nat_nat_iff) (metis div_mult_mod_eq)

lemma words_bits_update:
  assumes "0 \<le> i" "i < 64 * int (length ws)"
    and "\<And>n. n < 64 \<Longrightarrow>
           bit w' n = (if n = nat (i mod 64) then v else bit (ws ! nat (i div 64)) n)"
  shows "words_bits (ws[nat (i div 64) := w']) =
         (if v then insert i (words_bits ws) else words_bits ws - {i})"
proof -
  have "k \<in> words_bits (ws[nat (i div 64) := w']) \<longleftrightarrow>
        0 \<le> k \<and> k < 64 * int (length ws) \<and>
        (if k = i then v else bit (ws ! nat (k div 64)) (nat (k mod 64)))" for k
  proof (cases "0 \<le> k \<and> k < 64 * int (length ws)")
    case True
    then have "nat (k div 64) < length ws" by (simp add: div64_lt)
    moreover have "nat (k div 64) = nat (i div 64) \<and> nat (k mod 64) = nat (i mod 64) \<longleftrightarrow> k = i"
      using True assms(1) by (intro div_mod_64_eq) auto
    ultimately show ?thesis
      using True assms(3) [OF mod64_lt, of k]
      by (cases "nat (k div 64) = nat (i div 64)") (auto simp: words_bits_def simp del: nat_eq_iff)
  qed (auto simp: words_bits_def)
  with assms(1,2) show ?thesis by (auto simp: words_bits_def)
qed

lemma words_bits_append_zero [simp]: "words_bits (ws @ replicate n 0) = words_bits ws"
proof -
  have "bit ((ws @ replicate n 0) ! nat (i div 64)) (nat (i mod 64)) \<longleftrightarrow>
        i < 64 * int (length ws) \<and> bit (ws ! nat (i div 64)) (nat (i mod 64))"
    if "0 \<le> i" "i < 64 * int (length ws + n)" for i
  proof (cases "i < 64 * int (length ws)")
    case True
    with that show ?thesis by (simp add: nth_append div64_lt)
  next
    case False
    then have "length ws \<le> nat (i div 64)" using that by (simp add: nat_le_iff le_nat_iff zdiv_mono1)
    moreover have "nat (i div 64) < length ws + n" using that by (rule div64_lt)
    ultimately show ?thesis using False by (simp add: nth_append)
  qed
  then show ?thesis by (auto simp: words_bits_def)
qed

lemma words_bits_replicate_zero [simp]: "words_bits (replicate n 0) = {}"
  using words_bits_append_zero [of "[]" n] by (simp add: words_bits_def)

lemma words_bits_map2:
  assumes "length ys = length xs"
    and "\<And>x y n. n < 64 \<Longrightarrow> bit (f x y) n = g (bit x n) (bit y n)"
  shows "words_bits (map2 f xs ys) =
         {i. 0 \<le> i \<and> i < 64 * int (length xs) \<and> g (i \<in> words_bits xs) (i \<in> words_bits ys)}"
  using assms by (auto simp: words_bits_def div64_lt)

section \<open>Invariant and abstraction\<close>

definition bm_wf :: "opal_bitmap \<Rightarrow> bool" where
  "bm_wf b \<longleftrightarrow> bm_bitmap b \<noteq> Null \<and> int (length (cells (bm_bitmap b))) = bm_array_size b \<and>
     0 < bm_array_size b \<and> bm_array_size b * 64 \<le> INT_MAX \<and> bm_max_size b \<le> INT_MAX"

definition bm_bits :: "opal_bitmap \<Rightarrow> int set" where
  "bm_bits b = {i. opal_bitmap_is_set_bit (Ptr b) i = Some True}"

lemmas bm_defs = SIZE_OF_BASE_TYPE_def Let_def

lemma bm_wfE:
  assumes "bm_wf b"
  obtains ws where "bm_bitmap b = Ptr ws" "bm_array_size b = int (length ws)" "ws \<noteq> []"
    "64 * int (length ws) \<le> INT_MAX" "bm_max_size b \<le> INT_MAX"
  using assms by (cases "bm_bitmap b") (fastforce simp: bm_wf_def)+

lemma is_set_bit_words:
  assumes "bm_bitmap b = Ptr ws" "bm_array_size b = int (length ws)" "64 * int (length ws) \<le> INT_MAX"
  shows "opal_bitmap_is_set_bit (Ptr b) i = Some (i \<in> words_bits ws)"
proof -
  have "is_cint (bm_array_size b * 64)" using assms by (simp add: is_cint_def opal_rc)
  with assms show ?thesis
    by (auto simp: opal_bitmap_is_set_bit_def bm_defs words_bits_def cmem
        bit_iff_and_push_bit_not_eq_0 push_bit_of_1)
qed

lemma bm_bits_words:
  assumes "bm_bitmap b = Ptr ws" "bm_array_size b = int (length ws)" "64 * int (length ws) \<le> INT_MAX"
  shows "bm_bits b = words_bits ws"
  by (simp add: bm_bits_def is_set_bit_words [OF assms])

text \<open>The test never has undefined behaviour on a well-formed bitmap, whatever the position.\<close>

lemma is_set_bit_wf: "bm_wf b \<Longrightarrow> opal_bitmap_is_set_bit (Ptr b) i = Some (i \<in> bm_bits b)"
  by (erule bm_wfE) (simp add: is_set_bit_words bm_bits_words)

section \<open>What each operation does\<close>

text \<open>Growing: on success the block has room for the index, and no position changes.\<close>

lemma bm_grow_ok:
  assumes wf: "bm_wf b" and ix: "bm_array_size b \<le> ix" "ix < 2 ^ 24" and mx: "ix < bm_max_size b"
  shows "\<exists>b'. bm_grow (Ptr j) b ix = Some (OPAL_SUCCESS, b') \<and> bm_wf b' \<and>
           ix < bm_array_size b' \<and> bm_max_size b' = bm_max_size b \<and> bm_bits b' = bm_bits b"
proof -
  from wf obtain ws where ws: "bm_bitmap b = Ptr ws" "bm_array_size b = int (length ws)" "ws \<noteq> []"
    "64 * int (length ws) \<le> INT_MAX" "bm_max_size b \<le> INT_MAX" by (rule bm_wfE)
  let ?a = "int (length ws)"
  let ?m = "(ix div ?a + 1) * ?a"
  define n where "n = min ?m (bm_max_size b)"
  have a: "0 < ?a" using ws(3) by simp
  have m: "?m = ix - ix mod ?a + ?a"
    using minus_mod_eq_div_mult [of ix ?a] by (simp add: algebra_simps)
  have m_bounds: "ix < ?m" "?m \<le> ix + ?a"
    using pos_mod_sign [OF a, of ix] pos_mod_bound [OF a, of ix] unfolding m by linarith+
  have n: "?a \<le> n" "ix < n" "n < 33554432" using m_bounds ix mx ws(2) by (auto simp: n_def)
  have "size_t_of ix = ix" "size_t_of ?a = ?a" using ix ws(2) a by simp_all
  moreover have "0 \<le> ?m" "?m < 33554432" using m_bounds ix ws(2) a by auto
  ultimately have conv:
    "int_of_size_t (((size_t_of ix div size_t_of ?a + 1) * size_t_of ?a) mod 2 ^ 64) = ?m"
    by (simp add: INT_MAX_def)
  let ?ws = "ws @ replicate (nat n - length ws) 0"
  let ?b = "b\<lparr>bm_bitmap := Ptr ?ws, bm_array_size := n\<rparr>"
  have "bm_grow (Ptr j) b ix = Some (OPAL_SUCCESS, ?b)"
    using a ws(1,2) conv afill_realloc_grow [OF n(1), of j 0]
    by (auto simp: bm_grow_def Let_def n_def min_def)
  moreover have len: "int (length ?ws) = n" using n(1) by simp
  moreover have "bm_bits ?b = words_bits ?ws"
    using n len by (intro bm_bits_words) (auto simp: INT_MAX_def)
  then have "bm_bits ?b = bm_bits b" using ws by (simp add: bm_bits_words)
  moreover have "0 < n" using a n(1) by linarith
  then have "bm_wf ?b" using n len ws(5) by (auto simp: bm_wf_def INT_MAX_def)
  ultimately show ?thesis using n by auto
qed

lemma set_bit_in_range:
  assumes wf: "bm_wf b" and i: "0 \<le> i" "i < bm_array_size b * 64" "i \<le> bm_max_size b"
  shows "\<exists>b'. opal_bitmap_set_bit m (Ptr b) i = Some (OPAL_SUCCESS, Ptr b') \<and> bm_wf b' \<and>
           bm_array_size b' = bm_array_size b \<and> bm_max_size b' = bm_max_size b \<and>
           bm_bits b' = insert i (bm_bits b)"
proof -
  from wf obtain ws where ws: "bm_bitmap b = Ptr ws" "bm_array_size b = int (length ws)" "ws \<noteq> []"
    "64 * int (length ws) \<le> INT_MAX" "bm_max_size b \<le> INT_MAX" by (rule bm_wfE)
  let ?w = "ws ! nat (i div 64) OR push_bit (nat (i mod 64)) 1"
  let ?ws = "ws[nat (i div 64) := ?w]"
  have bits: "words_bits ?ws = insert i (words_bits ws)"
    using i ws words_bits_update [of i ws ?w True] by (auto simp: bit_simps)
  have "i div 64 < int (length ws)" using i ws by simp
  have "opal_bitmap_set_bit m (Ptr b) i = Some (OPAL_SUCCESS, Ptr (b\<lparr>bm_bitmap := Ptr ?ws\<rparr>))"
    using i ws \<open>i div 64 < int (length ws)\<close>
    by (auto simp: opal_bitmap_set_bit_def bm_defs cmem)
  moreover have "bm_bits (b\<lparr>bm_bitmap := Ptr ?ws\<rparr>) = insert i (bm_bits b)"
    using ws bits by (simp add: bm_bits_words [where ws = ws] bm_bits_words [where ws = ?ws])
  ultimately show ?thesis using wf ws by (auto simp: bm_wf_def)
qed

lemma set_bit_ok:
  assumes wf: "bm_wf b" and i: "0 \<le> i" "i < 2 ^ 30" "i \<le> bm_max_size b"
  shows "\<exists>b'. opal_bitmap_set_bit (Ptr j) (Ptr b) i = Some (OPAL_SUCCESS, Ptr b') \<and> bm_wf b' \<and>
           bm_max_size b' = bm_max_size b \<and> bm_bits b' = insert i (bm_bits b)"
proof (cases "i < bm_array_size b * 64")
  case True
  then show ?thesis using set_bit_in_range [OF wf i(1) _ i(3), of "Ptr j"] by blast
next
  case False
  have "bm_array_size b > 0" using wf by (simp add: bm_wf_def)
  with False i have ix: "bm_array_size b \<le> i div 64" "i div 64 < 2 ^ 24" "i div 64 < bm_max_size b"
    by auto
  obtain b1 where b1: "bm_grow (Ptr j) b (i div 64) = Some (OPAL_SUCCESS, b1)" "bm_wf b1"
    "i div 64 < bm_array_size b1" "bm_max_size b1 = bm_max_size b" "bm_bits b1 = bm_bits b"
    using bm_grow_ok [OF wf ix] by blast
  have "opal_bitmap_set_bit (Ptr j) (Ptr b) i = opal_bitmap_set_bit (Ptr j) (Ptr b1) i"
    using i ix b1 by (auto simp: opal_bitmap_set_bit_def bm_defs)
  moreover have "i < bm_array_size b1 * 64" using b1(3) by linarith
  ultimately show ?thesis
    using set_bit_in_range [OF b1(2) i(1), of "Ptr j"] b1(4,5) i(3) by auto
qed

text \<open>Out of range, or no memory: the error codes, and what they leave behind.\<close>

lemma set_bit_bad_param:
  "i < 0 \<or> i > bm_max_size b \<Longrightarrow> opal_bitmap_set_bit m (Ptr b) i = Some (OPAL_ERR_BAD_PARAM, Ptr b)"
  by (auto simp: opal_bitmap_set_bit_def)

lemma clear_bit_ok:
  assumes wf: "bm_wf b"
  shows "\<exists>b'. opal_bitmap_clear_bit (Ptr b) i =
             Some (if 0 \<le> i \<and> i < bm_array_size b * 64 then OPAL_SUCCESS else OPAL_ERR_BAD_PARAM, Ptr b') \<and>
           bm_wf b' \<and> bm_array_size b' = bm_array_size b \<and> bm_max_size b' = bm_max_size b \<and>
           bm_bits b' = bm_bits b - {i}"
proof -
  from wf obtain ws where ws: "bm_bitmap b = Ptr ws" "bm_array_size b = int (length ws)" "ws \<noteq> []"
    "64 * int (length ws) \<le> INT_MAX" "bm_max_size b \<le> INT_MAX" by (rule bm_wfE)
  have ci: "is_cint (int (length ws) * 64)" using ws by (simp add: is_cint_def opal_rc)
  have bits: "bm_bits b = words_bits ws" using ws by (simp add: bm_bits_words)
  show ?thesis
  proof (cases "0 \<le> i \<and> i < int (length ws) * 64")
    case False
    then have "i \<notin> bm_bits b" by (auto simp: bits words_bits_def)
    with False ws ci wf show ?thesis by (auto simp: opal_bitmap_clear_bit_def bm_defs)
  next
    case True
    let ?w = "ws ! nat (i div 64) AND NOT (push_bit (nat (i mod 64)) 1)"
    let ?ws = "ws[nat (i div 64) := ?w]"
    have "words_bits ?ws = words_bits ws - {i}"
      using True words_bits_update [of i ws ?w False] by (auto simp: bit_simps)
    then have "bm_bits (b\<lparr>bm_bitmap := Ptr ?ws\<rparr>) = bm_bits b - {i}"
      using ws by (simp add: bits bm_bits_words [where ws = ?ws])
    moreover have "i div 64 < int (length ws)" using True by auto
    then have "opal_bitmap_clear_bit (Ptr b) i = Some (OPAL_SUCCESS, Ptr (b\<lparr>bm_bitmap := Ptr ?ws\<rparr>))"
      using True ws ci by (auto simp: opal_bitmap_clear_bit_def bm_defs cmem)
    ultimately show ?thesis using True wf ws by (auto simp: bm_wf_def)
  qed
qed

lemma init_ok:
  assumes "0 < n" "n \<le> bm_max_size b" "n \<le> INT_MAX - 63" "bm_max_size b \<le> INT_MAX"
  shows "\<exists>b'. opal_bitmap_init (Ptr j) (Ptr b) n = Some (OPAL_SUCCESS, Ptr b') \<and> bm_wf b' \<and>
           n \<le> bm_array_size b' * 64 \<and> bm_array_size b' * 64 < n + 64 \<and> bm_bits b' = {}"
proof -
  define k where "k = (n + 63) div 64"
  have k: "0 < k" "k * 64 \<le> INT_MAX" "n \<le> k * 64" "k * 64 < n + 64" "k \<le> INT_MAX"
    using assms by (auto simp: k_def INT_MAX_def)
  have "size_t_of n = n" using assms by (simp add: INT_MAX_def)
  then have conv: "int_of_size_t ((size_t_of n + 64 - 1) div 64) = k"
    using k by (simp add: k_def add.commute)
  define c where "c = b\<lparr>bm_array_size := k, bm_max_size :=
      (if bm_bitmap b \<noteq> Null \<and> bm_max_size b < k then k else bm_max_size b),
      bm_bitmap := Ptr (replicate (nat k) 0)\<rparr>"
  have "opal_bitmap_init (Ptr j) (Ptr b) n = Some (OPAL_SUCCESS, Ptr c)"
    using assms k(1) conv
    by (auto simp: opal_bitmap_init_def bm_defs opal_bitmap_clear_all_bits_def c_def)
  moreover have "bm_bits c = {}"
    using k by (subst bm_bits_words [where ws = "replicate (nat k) 0"]) (auto simp: c_def)
  moreover have "bm_wf c" "bm_array_size c = k" using k assms by (auto simp: bm_wf_def c_def)
  ultimately show ?thesis using k by auto
qed

text \<open>The first word that is not all ones, and its lowest clear bit.\<close>

lemma full_word_bits: "w = 0xffffffffffffffff \<longleftrightarrow> (\<forall>n < 64. bit (w :: 64 word) n)"
proof -
  have "(0xffffffffffffffff :: 64 word) = - 1" by simp
  then show ?thesis by (auto simp: bit_eq_iff)
qed

lemma find_in_words:
  assumes wf: "bm_wf b" and ws: "bm_bitmap b = Ptr ws" and i: "0 \<le> i" "i < int (length ws)"
    and full: "\<And>k. 0 \<le> k \<Longrightarrow> k < i \<Longrightarrow> ws ! nat k = 0xffffffffffffffff"
    and t: "\<not> bit (ws ! nat i) t" "t < 64" "\<forall>k < t. bit (ws ! nat i) k"
  defines "p \<equiv> int t + i * 64" and "b' \<equiv> b\<lparr>bm_bitmap := Ptr (ws[nat i := set_bit t (ws ! nat i)])\<rparr>"
  shows "bm_wf b' \<and> p \<notin> bm_bits b \<and> (\<forall>k. 0 \<le> k \<and> k < p \<longrightarrow> k \<in> bm_bits b) \<and>
         bm_bits b' = insert p (bm_bits b)"
proof -
  have as: "bm_array_size b = int (length ws)" "64 * int (length ws) \<le> INT_MAX"
    using wf ws by (auto simp: bm_wf_def)
  then have bits: "bm_bits b = words_bits ws" using ws by (simp add: bm_bits_words)
  have p: "0 \<le> p" "p < 64 * int (length ws)" "p div 64 = i" "p mod 64 = int t"
    using i t(2) by (auto simp: p_def)
  have "words_bits (ws[nat i := set_bit t (ws ! nat i)]) = insert p (words_bits ws)"
    using words_bits_update [OF p(1,2), of "set_bit t (ws ! nat i)" True] p(3,4)
    by (auto simp: bit_simps)
  then have "bm_bits b' = insert p (bm_bits b)"
    using as by (simp add: bits b'_def bm_bits_words
        [where ws = "ws[nat i := set_bit t (ws ! nat i)]"])
  moreover have "k \<in> words_bits ws" if k: "0 \<le> k" "k < p" for k
  proof (cases "k div 64 = i")
    case True
    then have "k mod 64 < int t"
      using k(2) div_mult_mod_eq [of k 64] by (simp add: p_def)
    then have "nat (k mod 64) < t" by linarith
    with True k p(2) t(3) show ?thesis by (auto simp: words_bits_def)
  next
    case False
    have "k div 64 \<le> p div 64" using k(2) by (intro zdiv_mono1) auto
    with False p(3) have "k div 64 < i" by simp
    moreover have "0 \<le> k div 64" using k by simp
    ultimately have "ws ! nat (k div 64) = 0xffffffffffffffff" by (rule full [rotated])
    with k p(2) show ?thesis by (simp add: words_bits_def full_word_bits)
  qed
  moreover have "p \<notin> words_bits ws" using p t by (simp add: words_bits_def)
  moreover have "bm_wf b'" using wf ws by (auto simp: bm_wf_def b'_def)
  ultimately show ?thesis by (simp add: bits)
qed

lemma find_and_set_ok:
  assumes wf: "bm_wf b" and room: "bm_array_size b * 64 \<le> bm_max_size b" "bm_array_size b < 2 ^ 24"
  shows "\<exists>b' p. opal_bitmap_find_and_set_first_unset_bit (Ptr j) (Ptr b) p0 =
                  Some (OPAL_SUCCESS, Ptr b', p) \<and> bm_wf b' \<and> p \<notin> bm_bits b \<and>
                (\<forall>k. 0 \<le> k \<and> k < p \<longrightarrow> k \<in> bm_bits b) \<and> bm_bits b' = insert p (bm_bits b)"
proof -
  from wf obtain ws where ws: "bm_bitmap b = Ptr ws" "bm_array_size b = int (length ws)" "ws \<noteq> []"
    "64 * int (length ws) \<le> INT_MAX" "bm_max_size b \<le> INT_MAX" by (rule bm_wfE)
  define full where "full = (\<lambda>k. ws ! nat k \<noteq> 0xffffffffffffffff)"
  let ?t = "\<lambda>k. map_option (\<lambda>w. w \<noteq> 0xffffffffffffffff) (aget ws k)"
  have "?t k = Some (full k)" if "0 \<le> k" "k < int (length ws)" for k
    using that by (simp add: cmem full_def)
  then obtain i where i: "find_loop 0 (int (length ws)) ?t = Some i" "0 \<le> i" "i \<le> int (length ws)"
    "\<And>k. 0 \<le> k \<Longrightarrow> k < i \<Longrightarrow> \<not> full k" "i < int (length ws) \<Longrightarrow> full i"
    using find_loop_spec [of 0 "int (length ws)" ?t full] by auto
  show ?thesis
  proof (cases "i = int (length ws)")
    case True
    have ci: "is_cint (int (length ws) * 64)" using ws by (simp add: is_cint_def opal_rc)
    let ?p = "int (length ws) * 64"
    obtain b' where b': "opal_bitmap_set_bit (Ptr j) (Ptr b) ?p = Some (OPAL_SUCCESS, Ptr b')"
      "bm_wf b'" "bm_bits b' = insert ?p (bm_bits b)"
      using set_bit_ok [OF wf, of ?p j] room ws(2) by auto
    have "ws ! nat (k div 64) = 0xffffffffffffffff" if "0 \<le> k" "k < ?p" for k
      using that i(4) [of "k div 64"] True by (auto simp: full_def)
    then have "\<forall>k. 0 \<le> k \<and> k < ?p \<longrightarrow> k \<in> bm_bits b" "?p \<notin> bm_bits b"
      using ws by (auto simp: bm_bits_words words_bits_def full_word_bits)
    with b' i(1) True ws ci show ?thesis
      by (auto simp: opal_bitmap_find_and_set_first_unset_bit_def bm_defs)
  next
    case False
    with i have lt: "i < int (length ws)" by simp
    let ?w = "ws ! nat i"
    obtain n where "n < 64" "\<not> bit ?w n"
      using i(5) [OF lt] unfolding full_def full_word_bits by blast
    then have "bit (NOT ?w) n" by (simp add: bit_simps)
    then have "NOT ?w \<noteq> 0" by (metis bit_0_eq bot_apply bot_bool_def)
    then obtain t where t: "bit (NOT ?w) t" "\<forall>k < t. \<not> bit (NOT ?w) k"
      using word_lowest_exists by blast
    then have t': "\<not> bit ?w t" "t < 64" "\<forall>k < t. bit ?w k"
      by (auto simp: bit_simps)
    have set: "?w OR (?w + 1) = set_bit t ?w" using t' by (intro word_set_lowest_clear) auto
    have "?w XOR set_bit t ?w = 2 ^ t"
      using t' by (auto intro!: bit_word_eqI simp: bit_simps)
    then have cz: "bm_count_zeros (?w XOR set_bit t ?w) 0 = Some (int t)"
      using t'(2) by (simp add: bm_count_zeros_exp)
    have "opal_bitmap_find_and_set_first_unset_bit (Ptr j) (Ptr b) p0 =
        Some (OPAL_SUCCESS, Ptr (b\<lparr>bm_bitmap := Ptr (ws[nat i := set_bit t ?w])\<rparr>), int t + i * 64)"
      using i(1,2) lt ws set cz
      by (simp add: opal_bitmap_find_and_set_first_unset_bit_def bm_defs cmem)
    moreover have "\<And>k. 0 \<le> k \<Longrightarrow> k < i \<Longrightarrow> ws ! nat k = 0xffffffffffffffff"
      using i(4) by (simp add: full_def)
    ultimately show ?thesis
      using find_in_words [OF wf ws(1) i(2) lt _ t'] by auto
  qed
qed

text \<open>The in-place operators work word by word.\<close>

lemma bm_word_loop_map2:
  assumes "length r = length d"
  shows "bm_word_loop f (int (length d)) r d = Some (map2 f d r)"
proof -
  let ?body = "\<lambda>i e. do { x \<leftarrow> aget e i; y \<leftarrow> aget r i; aset e i (f x y) }"
  let ?P = "\<lambda>k e. e = map2 f (take (nat k) d) (take (nat k) r) @ drop (nat k) d"
  have "\<exists>e. for_loop 0 (int (length d)) ?body d = Some e \<and> ?P (int (length d)) e"
  proof (rule for_loop_rule)
    fix k e assume k: "0 \<le> k" "k < int (length d)" and e: "?P k e"
    define n where "n = nat k"
    have n: "k = int n" "n < length d" using k by (auto simp: n_def)
    have e': "e = map2 f (take n d) (take n r) @ d ! n # drop (Suc n) d"
      using e n by (simp add: Cons_nth_drop_Suc)
    then have "?body k e = Some (e[n := f (d ! n) (r ! n)])"
      using n assms by (simp add: cmem nth_append)
    moreover have "e[n := f (d ! n) (r ! n)] = map2 f (take (Suc n) d) (take (Suc n) r) @ drop (Suc n) d"
      using n assms e' by (simp add: list_update_append take_Suc_conv_app_nth zip_append)
    ultimately show "\<exists>e'. ?body k e = Some e' \<and> ?P (k + 1) e'"
      using n by (simp add: nat_add_distrib)
  qed simp_all
  then show ?thesis using assms by (simp add: bm_word_loop_def)
qed

lemma combine_ok:
  assumes "bm_wf d" "bm_wf r" "bm_array_size d = bm_array_size r"
    and g: "\<And>x y n. n < 64 \<Longrightarrow> bit (f x y) n = g (bit x n) (bit y n)" and g0: "\<not> g False False"
  shows "\<exists>ws. bm_word_loop f (bm_array_size d) (cells (bm_bitmap r)) (cells (bm_bitmap d)) = Some ws \<and>
           bm_wf (d\<lparr>bm_bitmap := put_cells (bm_bitmap d) ws\<rparr>) \<and>
           bm_bits (d\<lparr>bm_bitmap := put_cells (bm_bitmap d) ws\<rparr>) =
             {i. g (i \<in> bm_bits d) (i \<in> bm_bits r)}"
proof -
  from assms(1) obtain ws where ws: "bm_bitmap d = Ptr ws" "bm_array_size d = int (length ws)"
    "ws \<noteq> []" "64 * int (length ws) \<le> INT_MAX" "bm_max_size d \<le> INT_MAX" by (rule bm_wfE)
  from assms(2) obtain rs where rs: "bm_bitmap r = Ptr rs" "bm_array_size r = int (length rs)"
    "rs \<noteq> []" "64 * int (length rs) \<le> INT_MAX" "bm_max_size r \<le> INT_MAX" by (rule bm_wfE)
  have len: "length rs = length ws" using assms(3) ws(2) rs(2) by simp
  let ?d = "d\<lparr>bm_bitmap := Ptr (map2 f ws rs)\<rparr>"
  have "bm_bits ?d = words_bits (map2 f ws rs)" using ws len by (intro bm_bits_words) auto
  also have "\<dots> = {i. 0 \<le> i \<and> i < 64 * int (length ws) \<and> g (i \<in> words_bits ws) (i \<in> words_bits rs)}"
    using len g by (rule words_bits_map2)
  also have "\<dots> = {i. g (i \<in> words_bits ws) (i \<in> words_bits rs)}"
  proof -
    have "0 \<le> i \<and> i < 64 * int (length ws)" if "g (i \<in> words_bits ws) (i \<in> words_bits rs)" for i
      using that g0 len by (cases "i \<in> words_bits ws \<or> i \<in> words_bits rs") (auto simp: words_bits_def)
    then show ?thesis by blast
  qed
  also have "\<dots> = {i. g (i \<in> bm_bits d) (i \<in> bm_bits r)}"
    using ws rs len by (simp add: bm_bits_words)
  finally show ?thesis
    using assms(1) ws rs len by (auto simp: bm_word_loop_map2 bm_wf_def)
qed

lemma num_set_bits_ok:
  assumes "bm_bitmap b = Ptr ws" "0 \<le> len" "len \<le> int (length ws)"
  shows "opal_bitmap_num_set_bits b len = Some (int (card {i \<in> words_bits ws. i < 64 * len}))"
proof -
  let ?body = "\<lambda>i cnt. do { v \<leftarrow> aget ws i; if 0 = v then Some cnt else Some (bm_wegner v cnt) }"
  let ?A = "\<lambda>k. {i \<in> words_bits ws. i < 64 * k}"
  have fin: "finite (?A k)" for k
    by (rule finite_subset [of _ "{0..64 * k}"]) (auto simp: words_bits_def)
  have "\<exists>c. for_loop 0 len ?body 0 = Some c \<and> c = int (card (?A len))"
  proof (rule for_loop_rule)
    have "?A 0 = {}" by (auto simp: words_bits_def)
    then show "0 = int (card (?A 0))" by (simp only: card.empty of_nat_0)
  next
    fix k cnt assume k: "0 \<le> k" "k < len" and cnt: "cnt = int (card (?A k))"
    let ?w = "ws ! nat k"
    have "?A (k + 1) = ?A k \<union> (\<lambda>n. 64 * k + int n) ` word_bits ?w"
    proof (intro set_eqI iffI)
      fix i assume i: "i \<in> ?A (k + 1)"
      show "i \<in> ?A k \<union> (\<lambda>n. 64 * k + int n) ` word_bits ?w"
      proof (cases "i < 64 * k")
        case False
        with i have ik: "i div 64 = k" by auto
        with i have "nat (i mod 64) \<in> word_bits ?w" by (auto simp: words_bits_def word_bits_def)
        then have "64 * k + int (nat (i mod 64)) \<in> (\<lambda>n. 64 * k + int n) ` word_bits ?w"
          by (rule imageI)
        moreover have "64 * k + int (nat (i mod 64)) = i" using ik by auto
        ultimately show ?thesis by simp
      qed (use i in auto)
    next
      fix i assume "i \<in> ?A k \<union> (\<lambda>n. 64 * k + int n) ` word_bits ?w"
      then show "i \<in> ?A (k + 1)"
        using k assms bit_imp_le_length [of ?w] by (fastforce simp: words_bits_def word_bits_def)
    qed
    moreover have "?A k \<inter> (\<lambda>n. 64 * k + int n) ` word_bits ?w = {}" by auto
    ultimately have "card (?A (k + 1)) = card (?A k) + card (word_bits ?w)"
      using fin by (simp add: card_Un_disjoint card_image inj_on_def)
    then show "\<exists>c. ?body k cnt = Some c \<and> c = int (card (?A (k + 1)))"
      using k assms cnt by (auto simp: cmem bm_wegner_card)
  qed (use assms in simp)
  then show ?thesis using assms by (simp add: opal_bitmap_num_set_bits_def)
qed

lemma are_different_ok:
  assumes "bm_wf l" "bm_wf r" "bm_array_size l = bm_array_size r"
  shows "opal_bitmap_are_different (Ptr l) (Ptr r) = Some (bm_bits l \<noteq> bm_bits r)"
proof -
  from assms(1) obtain ws where ws: "bm_bitmap l = Ptr ws" "bm_array_size l = int (length ws)"
    "ws \<noteq> []" "64 * int (length ws) \<le> INT_MAX" "bm_max_size l \<le> INT_MAX" by (rule bm_wfE)
  from assms(2) obtain rs where rs: "bm_bitmap r = Ptr rs" "bm_array_size r = int (length rs)"
    "rs \<noteq> []" "64 * int (length rs) \<le> INT_MAX" "bm_max_size r \<le> INT_MAX" by (rule bm_wfE)
  have len: "length rs = length ws" using assms(3) ws(2) rs(2) by simp
  have ci: "is_cint (int (length ws) * 64)" using ws by (simp add: is_cint_def opal_rc)
  let ?t = "\<lambda>k. do { x \<leftarrow> aget ws k; y \<leftarrow> aget rs k; Some (x \<noteq> y) }"
  have "?t k = Some (ws ! nat k \<noteq> rs ! nat k)" if "0 \<le> k" "k < int (length ws)" for k
    using that len by (simp add: cmem)
  then obtain i where i: "find_loop 0 (int (length ws)) ?t = Some i" "0 \<le> i" "i \<le> int (length ws)"
    "\<And>k. 0 \<le> k \<Longrightarrow> k < i \<Longrightarrow> ws ! nat k = rs ! nat k"
    "i < int (length ws) \<Longrightarrow> ws ! nat i \<noteq> rs ! nat i"
    using find_loop_spec [of 0 "int (length ws)" ?t "\<lambda>k. ws ! nat k \<noteq> rs ! nat k"] by auto
  have "opal_bitmap_are_different (Ptr l) (Ptr r) = Some (i < int (length ws))"
    using i(1) ws rs len ci by (simp add: opal_bitmap_are_different_def opal_bitmap_size_def bm_defs)
  moreover have "i < int (length ws) \<longleftrightarrow> words_bits ws \<noteq> words_bits rs"
  proof (cases "i < int (length ws)")
    case True
    then obtain n where n: "n < 64" "bit (ws ! nat i) n \<noteq> bit (rs ! nat i) n"
      using i(5) by (auto simp: bit_eq_iff)
    then have "64 * i + int n \<in> words_bits ws \<longleftrightarrow> 64 * i + int n \<notin> words_bits rs"
      using True i(2) len by (auto simp: words_bits_def)
    with True show ?thesis by blast
  next
    case False
    then have "ws ! n = rs ! n" if "n < length ws" for n
      using that i(4) [of "int n"] by simp
    then have "ws = rs" using len by (simp add: nth_equalityI)
    with False show ?thesis by simp
  qed
  ultimately show ?thesis using ws rs len by (simp add: bm_bits_words)
qed

section \<open>The interface clients rely on\<close>

text \<open>
  A bit table: bits can be set one at a time, a set bit stays set, and nothing else changes.
  What a client learns is the effect of marking a whole list of positions.
\<close>

locale bit_table =
  fixes inv :: "'b \<Rightarrow> bool" and adm :: "'b \<Rightarrow> int \<Rightarrow> bool"
    and bits :: "'b \<Rightarrow> int set" and mark :: "'b \<Rightarrow> int \<Rightarrow> 'b option"
  assumes mark_ok: "inv b \<Longrightarrow> adm b i \<Longrightarrow>
      \<exists>b'. mark b i = Some b' \<and> inv b' \<and> (\<forall>k. adm b' k = adm b k) \<and> bits b' = insert i (bits b)"
begin

fun mark_all :: "'b \<Rightarrow> int list \<Rightarrow> 'b option" where
  "mark_all b [] = Some b"
| "mark_all b (i # is) = Option.bind (mark b i) (\<lambda>b'. mark_all b' is)"

lemma mark_all_bits:
  "inv b \<Longrightarrow> list_all (adm b) is \<Longrightarrow>
     \<exists>b'. mark_all b is = Some b' \<and> inv b' \<and> bits b' = set is \<union> bits b"
proof (induction "is" arbitrary: b)
  case Nil
  then show ?case by simp
next
  case (Cons i "is")
  from Cons.prems obtain b1 where b1: "mark b i = Some b1" "inv b1" "\<forall>k. adm b1 k = adm b k"
    "bits b1 = insert i (bits b)" using mark_ok by fastforce
  have "list_all (adm b1) is" using Cons.prems b1(3) by (simp add: list_all_iff)
  from Cons.IH [OF b1(2) this] b1(1,4) show ?case by auto
qed

end

definition bm_mark :: "64 word \<Rightarrow> opal_bitmap \<Rightarrow> int \<Rightarrow> opal_bitmap option" where
  "bm_mark j b i =
     (case opal_bitmap_set_bit (Ptr j) (Ptr b) i of
        Some (rc, Ptr b') \<Rightarrow> if rc = OPAL_SUCCESS then Some b' else None | _ \<Rightarrow> None)"

interpretation bmt: bit_table bm_wf "\<lambda>b i. 0 \<le> i \<and> i < 2 ^ 30 \<and> i \<le> bm_max_size b" bm_bits "bm_mark j"
  for j
proof unfold_locales
  fix b i assume "bm_wf b" "0 \<le> i \<and> i < 2 ^ 30 \<and> i \<le> bm_max_size b"
  then obtain b' where "opal_bitmap_set_bit (Ptr j) (Ptr b) i = Some (OPAL_SUCCESS, Ptr b')" "bm_wf b'"
    "bm_max_size b' = bm_max_size b" "bm_bits b' = insert i (bm_bits b)"
    using set_bit_ok [of b i j] by blast
  then show "\<exists>b'. bm_mark j b i = Some b' \<and> bm_wf b' \<and>
      (\<forall>k. (0 \<le> k \<and> k < 2 ^ 30 \<and> k \<le> bm_max_size b') = (0 \<le> k \<and> k < 2 ^ 30 \<and> k \<le> bm_max_size b)) \<and>
      bm_bits b' = insert i (bm_bits b)"
    by (simp add: bm_mark_def)
qed

section \<open>Properties\<close>

text \<open>On a well-formed bitmap, opal_bitmap_set_bit accepts exactly the positions from 0 to
  max_size: there (below 2^30, when the allocation succeeds) it returns OPAL_SUCCESS, grows the
  word array if the position is beyond it, keeps the invariant and turns the set of positions
  into insert i of it; every other position is OPAL_ERR_BAD_PARAM with the bitmap unchanged.\<close>

theorem opal_bitmap_set_bit_refines:
  assumes "bm_wf b" and "i < 2 ^ 30"
  shows "if 0 \<le> i \<and> i \<le> bm_max_size b
         then \<exists>b'. opal_bitmap_set_bit (Ptr j) (Ptr b) i = Some (OPAL_SUCCESS, Ptr b') \<and> bm_wf b' \<and>
                bm_max_size b' = bm_max_size b \<and> bm_bits b' = insert i (bm_bits b)
         else opal_bitmap_set_bit (Ptr j) (Ptr b) i = Some (OPAL_ERR_BAD_PARAM, Ptr b)"
  using assms by (simp add: set_bit_ok set_bit_bad_param not_le)

theorem opal_bitmap_set_bit_refines_witness:
  "bm_wf \<lparr>bm_bitmap = Ptr [5], bm_array_size = 1, bm_max_size = 1000\<rparr> \<and>
   (\<exists>b'. opal_bitmap_set_bit (Ptr 7) (Ptr \<lparr>bm_bitmap = Ptr [5], bm_array_size = 1, bm_max_size = 1000\<rparr>) 200 =
           Some (OPAL_SUCCESS, Ptr b') \<and> bm_wf b')"
proof -
  let ?b = "\<lparr>bm_bitmap = Ptr [5], bm_array_size = 1, bm_max_size = 1000\<rparr>"
  have wf: "bm_wf ?b" by (simp add: bm_wf_def INT_MAX_def)
  show ?thesis using wf opal_bitmap_set_bit_refines [OF wf, of 200 7] by auto
qed

text \<open>opal_bitmap_find_and_set_first_unset_bit returns the least position that was not set
  (growing the bitmap when every bit is set) and sets exactly that position; both of its loops
  end.\<close>

theorem find_and_set_first_unset_least:
  assumes "bm_wf b" and "bm_array_size b * 64 \<le> bm_max_size b" and "bm_array_size b < 2 ^ 24"
  shows "\<exists>b' p. opal_bitmap_find_and_set_first_unset_bit (Ptr j) (Ptr b) p0 =
                  Some (OPAL_SUCCESS, Ptr b', p) \<and> bm_wf b' \<and> 0 \<le> p \<and> p \<notin> bm_bits b \<and>
                {0..<p} \<subseteq> bm_bits b \<and> bm_bits b' = insert p (bm_bits b)"
proof -
  obtain b' p where *: "opal_bitmap_find_and_set_first_unset_bit (Ptr j) (Ptr b) p0 =
      Some (OPAL_SUCCESS, Ptr b', p)" "bm_wf b'" "p \<notin> bm_bits b"
    "\<forall>k. 0 \<le> k \<and> k < p \<longrightarrow> k \<in> bm_bits b" "bm_bits b' = insert p (bm_bits b)"
    using find_and_set_ok [OF assms] by blast
  have "p \<in> bm_bits b'" using *(5) by simp
  then have "0 \<le> p" using *(2) by (auto elim!: bm_wfE simp: bm_bits_words words_bits_def)
  with * show ?thesis by auto
qed

theorem find_and_set_first_unset_least_witness:
  "\<exists>b' p. opal_bitmap_find_and_set_first_unset_bit (Ptr 0)
            (Ptr \<lparr>bm_bitmap = Ptr [- 1, 11], bm_array_size = 2, bm_max_size = 200\<rparr>) 9 =
          Some (OPAL_SUCCESS, Ptr b', p) \<and> bm_wf b'"
  using find_and_set_first_unset_least
    [of "\<lparr>bm_bitmap = Ptr [- 1, 11], bm_array_size = 2, bm_max_size = 200\<rparr>" 0 9]
  by (auto simp: bm_wf_def INT_MAX_def)

text \<open>opal_bitmap_num_set_bits, Wegner's count of each of the first len words, is the number
  of set positions below 64 * len: its length argument counts words, not bits.\<close>

theorem num_set_bits_counts_words:
  assumes "bm_wf b" and "0 \<le> len" and "len \<le> bm_array_size b"
  shows "opal_bitmap_num_set_bits b len = Some (int (card (bm_bits b \<inter> {0..<64 * len})))"
proof -
  from assms(1) obtain ws where ws: "bm_bitmap b = Ptr ws" "bm_array_size b = int (length ws)"
    "64 * int (length ws) \<le> INT_MAX" by (rule bm_wfE)
  have "{i \<in> words_bits ws. i < 64 * len} = bm_bits b \<inter> {0..<64 * len}"
    using ws by (auto simp: bm_bits_words words_bits_def)
  with num_set_bits_ok [OF ws(1) assms(2)] assms(3) ws(2) show ?thesis by simp
qed

theorem num_set_bits_counts_words_witness:
  "opal_bitmap_num_set_bits \<lparr>bm_bitmap = Ptr [7, 1], bm_array_size = 2, bm_max_size = 200\<rparr> 1 =
   Some (int (card (bm_bits \<lparr>bm_bitmap = Ptr [7, 1], bm_array_size = 2, bm_max_size = 200\<rparr> \<inter> {0..<64 * 1})))"
  by (rule num_set_bits_counts_words) (simp_all add: bm_wf_def INT_MAX_def)

text \<open>On well-formed bitmaps of the same size the in-place operators are intersection, union
  and symmetric difference of the position sets, never touch memory outside the blocks, and
  opal_bitmap_are_different afterwards compares the position sets.\<close>

theorem bitwise_ops_set_algebra:
  assumes "bm_wf d" and "bm_wf r" and "bm_array_size d = bm_array_size r"
  shows "(\<exists>d'. opal_bitmap_bitwise_and_inplace (Ptr d) (Ptr r) = Some (OPAL_SUCCESS, Ptr d') \<and>
               bm_wf d' \<and> bm_bits d' = bm_bits d \<inter> bm_bits r) \<and>
         (\<exists>d'. opal_bitmap_bitwise_or_inplace (Ptr d) (Ptr r) = Some (OPAL_SUCCESS, Ptr d') \<and>
               bm_wf d' \<and> bm_bits d' = bm_bits d \<union> bm_bits r) \<and>
         (\<exists>d'. opal_bitmap_bitwise_xor_inplace (Ptr d) (Ptr r) = Some (OPAL_SUCCESS, Ptr d') \<and>
               bm_wf d' \<and> bm_bits d' = (bm_bits d - bm_bits r) \<union> (bm_bits r - bm_bits d)) \<and>
         opal_bitmap_are_different (Ptr d) (Ptr r) = Some (bm_bits d \<noteq> bm_bits r)"
proof (intro conjI)
  show "\<exists>d'. opal_bitmap_bitwise_and_inplace (Ptr d) (Ptr r) = Some (OPAL_SUCCESS, Ptr d') \<and>
         bm_wf d' \<and> bm_bits d' = bm_bits d \<inter> bm_bits r"
    using combine_ok [OF assms, of "(AND)" "(\<and>)"] assms(3)
    by (auto simp: opal_bitmap_bitwise_and_inplace_def bit_simps)
  show "\<exists>d'. opal_bitmap_bitwise_or_inplace (Ptr d) (Ptr r) = Some (OPAL_SUCCESS, Ptr d') \<and>
         bm_wf d' \<and> bm_bits d' = bm_bits d \<union> bm_bits r"
    using combine_ok [OF assms, of "(OR)" "(\<or>)"] assms(3)
    by (auto simp: opal_bitmap_bitwise_or_inplace_def bit_simps)
  show "\<exists>d'. opal_bitmap_bitwise_xor_inplace (Ptr d) (Ptr r) = Some (OPAL_SUCCESS, Ptr d') \<and>
         bm_wf d' \<and> bm_bits d' = (bm_bits d - bm_bits r) \<union> (bm_bits r - bm_bits d)"
    using combine_ok [OF assms, of "(XOR)" "(\<noteq>)"] assms(3)
    by (auto simp: opal_bitmap_bitwise_xor_inplace_def bit_simps)
  show "opal_bitmap_are_different (Ptr d) (Ptr r) = Some (bm_bits d \<noteq> bm_bits r)"
    by (rule are_different_ok [OF assms])
qed

theorem bitwise_ops_set_algebra_witness:
  "\<exists>d'. opal_bitmap_bitwise_and_inplace
          (Ptr \<lparr>bm_bitmap = Ptr [6], bm_array_size = 1, bm_max_size = 64\<rparr>)
          (Ptr \<lparr>bm_bitmap = Ptr [3], bm_array_size = 1, bm_max_size = 64\<rparr>) =
        Some (OPAL_SUCCESS, Ptr d') \<and> bm_wf d'"
  using bitwise_ops_set_algebra [of "\<lparr>bm_bitmap = Ptr [6], bm_array_size = 1, bm_max_size = 64\<rparr>"
      "\<lparr>bm_bitmap = Ptr [3], bm_array_size = 1, bm_max_size = 64\<rparr>"]
  by (auto simp: bm_wf_def INT_MAX_def)

text \<open>opal_bitmap_set_max_size stores a number of words in the field that opal_bitmap_init
  compares with a number of bits: a bitmap limited to n bits (n at least 2) rejects being
  initialised with n bits.\<close>

theorem set_max_size_rejects_own_limit:
  assumes "2 \<le> n" and "n \<le> INT_MAX"
  shows "opal_bitmap_init m (snd (opal_bitmap_set_max_size (Ptr b) n)) n =
         Some (OPAL_ERR_BAD_PARAM, snd (opal_bitmap_set_max_size (Ptr b) n))"
proof -
  have "size_t_of n = n" using assms by (simp add: INT_MAX_def)
  moreover have "(n + 63) div 64 < n" "0 \<le> (n + 63) div 64" using assms by auto
  ultimately show ?thesis
    using assms by (simp add: opal_bitmap_init_def opal_bitmap_set_max_size_def bm_defs INT_MAX_def
        add.commute [of 63])
qed

theorem set_max_size_rejects_own_limit_witness:
  "opal_bitmap_init (Ptr 0) (snd (opal_bitmap_set_max_size (Ptr opal_bitmap_construct) 128)) 128 =
   Some (OPAL_ERR_BAD_PARAM, snd (opal_bitmap_set_max_size (Ptr opal_bitmap_construct) 128))"
  by (rule set_max_size_rejects_own_limit) (simp_all add: INT_MAX_def)

end
