(* ===== verification/Slot_Table.thy ===== *)
theory Slot_Table
  imports Opal_Prelude
begin

text \<open>
  The interface shared by the containers that hand out integer handles: a table gives a free
  slot to a value, the slot holds the value until it is released, and nothing else moves.
  Open MPI uses such tables for its Fortran handle translation, for communicator ids and for
  in-flight messages; what those clients rely on is proved here once.
\<close>

locale slot_table =
  fixes inv :: "'t \<Rightarrow> bool" and item :: "'t \<Rightarrow> int \<Rightarrow> 'v ptr"
    and acquire :: "'t \<Rightarrow> 'v \<Rightarrow> ('t \<times> int) option"
  assumes acquire_inv: "inv t \<Longrightarrow> acquire t v = Some (t', i) \<Longrightarrow> inv t'"
    and acquire_free: "inv t \<Longrightarrow> acquire t v = Some (t', i) \<Longrightarrow> item t i = Null"
    and acquire_item: "inv t \<Longrightarrow> acquire t v = Some (t', i) \<Longrightarrow> item t' = (item t)(i := Ptr v)"
begin

fun acquire_all :: "'t \<Rightarrow> 'v list \<Rightarrow> ('t \<times> int list) option" where
  "acquire_all t [] = Some (t, [])"
| "acquire_all t (v # vs) =
     (case acquire t v of
        None \<Rightarrow> None
      | Some (t1, i) \<Rightarrow> map_option (\<lambda>(t2, is). (t2, i # is)) (acquire_all t1 vs))"

text \<open>Handles given out one after the other are distinct, new, and each finds its value.\<close>

lemma acquire_all_spec:
  assumes "inv t" and "acquire_all t vs = Some (t', is)"
  shows "inv t' \<and> distinct is \<and> length is = length vs \<and>
         (\<forall>i \<in> set is. item t i = Null) \<and>
         (\<forall>k < length vs. item t' (is ! k) = Ptr (vs ! k)) \<and>
         (\<forall>i. i \<notin> set is \<longrightarrow> item t' i = item t i)"
  using assms
proof (induction vs arbitrary: t "is")
  case Nil
  then show ?case by simp
next
  case (Cons v vs)
  from Cons.prems(2) obtain t1 i js where
    t1: "acquire t v = Some (t1, i)" "acquire_all t1 vs = Some (t', js)" "is = i # js"
    by (auto split: option.splits)
  have inv1: "inv t1" and free: "item t i = Null" and it1: "item t1 = (item t)(i := Ptr v)"
    using acquire_inv acquire_free acquire_item Cons.prems(1) t1(1) by blast+
  have IH: "inv t' \<and> distinct js \<and> length js = length vs \<and>
         (\<forall>i \<in> set js. item t1 i = Null) \<and>
         (\<forall>k < length vs. item t' (js ! k) = Ptr (vs ! k)) \<and>
         (\<forall>i. i \<notin> set js \<longrightarrow> item t' i = item t1 i)"
    using inv1 t1(2) by (rule Cons.IH)
  then have "i \<notin> set js" using it1 by auto
  then have "item t' i = Ptr v" using IH it1 by simp
  moreover have "item t k = Null" if "k \<in> set js" for k
    using IH it1 that \<open>i \<notin> set js\<close> by (metis fun_upd_apply)
  ultimately show ?case
    using IH it1 free t1(3) \<open>i \<notin> set js\<close> by (auto simp: nth_Cons less_Suc_eq_0_disj split: nat.splits)
qed

end

text \<open>A table that also takes slots back: a released slot is free again.\<close>

locale slot_table_release = slot_table inv item acquire
  for inv :: "'t \<Rightarrow> bool" and item :: "'t \<Rightarrow> int \<Rightarrow> 'v ptr"
    and acquire :: "'t \<Rightarrow> 'v \<Rightarrow> ('t \<times> int) option" +
  fixes release :: "'t \<Rightarrow> int \<Rightarrow> 't option"
  assumes release_ok: "inv t \<Longrightarrow> item t i \<noteq> Null \<Longrightarrow>
      \<exists>t'. release t i = Some t' \<and> inv t' \<and> item t' = (item t)(i := Null)"
begin

text \<open>Taking a slot and giving it back restores the contents.\<close>

lemma acquire_release:
  assumes "inv t" and "acquire t v = Some (t1, i)"
  shows "\<exists>t2. release t1 i = Some t2 \<and> inv t2 \<and> item t2 = item t"
proof -
  have "inv t1" "item t1 = (item t)(i := Ptr v)" "item t i = Null"
    using acquire_inv acquire_item acquire_free assms by blast+
  then obtain t2 where "release t1 i = Some t2" "inv t2" "item t2 = (item t1)(i := Null)"
    using release_ok [of t1 i] by auto
  then show ?thesis
    using \<open>item t1 = (item t)(i := Ptr v)\<close> \<open>item t i = Null\<close> by (metis fun_upd_triv fun_upd_upd)
qed

end

end
