(* ===== verification/Pointer_Array.thy ===== *)
theory Pointer_Array
  imports Slot_Table
begin

text \<open>
  \<^verbatim>\<open>opal/class/opal_pointer_array.c\<close>: a growable array of pointers in which NULL marks a
  free element. The record is \<open>opal_pointer_array_t\<close> without its lock: every operation
  holds the lock from its first access to its last, so it is one atomic step here. The
  first argument of an operation that may grow the table is the outcome of \<open>realloc\<close>.
  The assertions of the C (compiled out in production builds) are not checks of the model;
  the invariant \<open>pa_wf\<close> implies them.
\<close>

section \<open>Data and operations\<close>

record 'v opal_pointer_array =
  pa_lowest_free :: int
  pa_number_free :: int
  pa_size :: int
  pa_max_size :: int
  pa_block_size :: int
  pa_addr :: "'v ptr list ptr"

definition TABLE_INIT :: int where "TABLE_INIT = 1"
definition TABLE_GROW :: int where "TABLE_GROW = 2"

definition opal_pointer_array_construct :: "'v opal_pointer_array" where
  "opal_pointer_array_construct =
     \<lparr>pa_lowest_free = 0, pa_number_free = 0, pa_size = 0, pa_max_size = INT_MAX,
      pa_block_size = 0, pa_addr = Null\<rparr>"

definition opal_pointer_array_destruct :: "'v opal_pointer_array \<Rightarrow> 'v opal_pointer_array" where
  "opal_pointer_array_destruct a =
     (let a1 = (if pa_addr a \<noteq> Null then a\<lparr>pa_addr := Null\<rparr> else a) in a1\<lparr>pa_size := 0\<rparr>)"

text \<open>
  The two counts go through a \<open>size_t\<close>; \<open>calloc\<close> succeeds only for a count that is not
  negative. \<open>calloc_ok\<close> is its outcome.
\<close>

definition opal_pointer_array_init ::
    "bool \<Rightarrow> 'v opal_pointer_array ptr \<Rightarrow> int \<Rightarrow> int \<Rightarrow> int \<Rightarrow> int \<times> 'v opal_pointer_array ptr" where
  "opal_pointer_array_init calloc_ok arr initial_allocation max_size block_size =
     (case arr of
        Null \<Rightarrow> (OPAL_ERR_BAD_PARAM, arr)
      | Ptr a \<Rightarrow>
          if max_size < block_size then (OPAL_ERR_BAD_PARAM, arr)
          else
            let n = (if 0 < initial_allocation then initial_allocation else block_size);
                a1 = a\<lparr>pa_max_size := max_size, pa_block_size := block_size,
                       pa_number_free := n, pa_size := n\<rparr>
            in if calloc_ok \<and> 0 \<le> n
               then (OPAL_SUCCESS, Ptr (a1\<lparr>pa_addr := Ptr (replicate (nat n) Null)\<rparr>))
               else (OPAL_ERR_OUT_OF_RESOURCE, Ptr (a1\<lparr>pa_addr := Null\<rparr>)))"

definition grow_table ::
    "'v ptr ptr \<Rightarrow> 'v opal_pointer_array \<Rightarrow> int \<Rightarrow> int \<Rightarrow> (bool \<times> 'v opal_pointer_array) option" where
  "grow_table m table soft hard =
     (if soft > pa_max_size table \<and> hard > pa_max_size table then Some (False, table)
      else
        let new_size = (if soft > pa_max_size table then hard else soft)
        in if new_size \<ge> pa_max_size table then Some (False, table)
           else (case m of
                   Null \<Rightarrow> Some (False, table)
                 | Ptr j \<Rightarrow> do {
                     addr \<leftarrow> for_loop (pa_size table) new_size (\<lambda>i a. aset a i Null)
                               (realloc_cells j new_size (cells (pa_addr table)));
                     Some (True, table\<lparr>
                       pa_number_free := pa_number_free table + (new_size - pa_size table),
                       pa_addr := Ptr addr, pa_size := new_size\<rparr>) }))"

text \<open>The search for the next free element: the first NULL from \<open>from\<close> on.\<close>

definition pa_search :: "'v ptr list \<Rightarrow> int \<Rightarrow> int \<Rightarrow> int option" where
  "pa_search addr from n = find_loop from n (\<lambda>k. map_option (\<lambda>p. p = Null) (aget addr k))"

definition opal_pointer_array_add ::
    "'v ptr ptr \<Rightarrow> 'v opal_pointer_array \<Rightarrow> 'v ptr \<Rightarrow> (int \<times> 'v opal_pointer_array) option" where
  "opal_pointer_array_add m table ptr = do {
     (ok, t) \<leftarrow>
       (if pa_number_free table = 0 then do {
          soft \<leftarrow> (if pa_addr table = Null then Some TABLE_INIT else cint (pa_size table * TABLE_GROW));
          grow_table m table soft INT_MAX }
        else Some (True, table));
     if \<not> ok then Some (OPAL_ERR_OUT_OF_RESOURCE, t)
     else do {
       let index = pa_lowest_free t;
       addr \<leftarrow> aset (cells (pa_addr t)) index ptr;
       let t1 = t\<lparr>pa_addr := put_cells (pa_addr t) addr, pa_number_free := pa_number_free t - 1\<rparr>;
       t2 \<leftarrow>
         (if pa_number_free t1 > 0 then do {
            i \<leftarrow> pa_search addr (pa_lowest_free t1 + 1) (pa_size t1);
            Some (if i < pa_size t1 then t1\<lparr>pa_lowest_free := i\<rparr> else t1) }
          else Some (t1\<lparr>pa_lowest_free := pa_size t1\<rparr>));
       Some (index, t2) } }"

definition opal_pointer_array_set_item ::
    "'v ptr ptr \<Rightarrow> 'v opal_pointer_array \<Rightarrow> int \<Rightarrow> 'v ptr \<Rightarrow> (int \<times> 'v opal_pointer_array) option" where
  "opal_pointer_array_set_item m table index val = do {
     (ok, t) \<leftarrow>
       (if pa_size table \<le> index then do {
          soft \<leftarrow> cint ((index sdiv TABLE_GROW + 1) * TABLE_GROW);
          grow_table m table soft index }
        else Some (True, table));
     if \<not> ok then Some (OPAL_ERROR, t)
     else do {
       old \<leftarrow> aget (cells (pa_addr t)) index;
       t1 \<leftarrow>
         (if val = Null then
            let t0 = (if index < pa_lowest_free t then t\<lparr>pa_lowest_free := index\<rparr> else t)
            in Some (if old \<noteq> Null then t0\<lparr>pa_number_free := pa_number_free t0 + 1\<rparr> else t0)
          else
            let t0 = (if old = Null then t\<lparr>pa_number_free := pa_number_free t - 1\<rparr> else t)
            in if index = pa_lowest_free t0 then do {
                 i \<leftarrow> pa_search (cells (pa_addr t0)) (index + 1) (pa_size t0);
                 Some (t0\<lparr>pa_lowest_free := (if i < pa_size t0 then i else pa_size t0)\<rparr>) }
               else Some t0);
       addr \<leftarrow> aset (cells (pa_addr t1)) index val;
       Some (OPAL_SUCCESS, t1\<lparr>pa_addr := put_cells (pa_addr t1) addr\<rparr>) } }"

definition opal_pointer_array_test_and_set_item ::
    "'v ptr ptr \<Rightarrow> 'v opal_pointer_array \<Rightarrow> int \<Rightarrow> 'v ptr \<Rightarrow> (bool \<times> 'v opal_pointer_array) option" where
  "opal_pointer_array_test_and_set_item m table index val = do {
     used \<leftarrow> (if index < pa_size table
              then map_option (\<lambda>p. p \<noteq> Null) (aget (cells (pa_addr table)) index) else Some False);
     if used then Some (False, table)
     else do {
       (ok, t) \<leftarrow>
         (if pa_size table \<le> index then do {
            soft \<leftarrow> cint ((index sdiv TABLE_GROW + 1) * TABLE_GROW);
            grow_table m table soft index }
          else Some (True, table));
       if \<not> ok then Some (False, t)
       else do {
         addr \<leftarrow> aset (cells (pa_addr t)) index val;
         let t1 = t\<lparr>pa_addr := put_cells (pa_addr t) addr, pa_number_free := pa_number_free t - 1\<rparr>;
         if index = pa_lowest_free t1 then do {
           i \<leftarrow> pa_search addr index (pa_size t1);
           Some (True, t1\<lparr>pa_lowest_free := (if i < pa_size t1 then i else pa_size t1)\<rparr>) }
         else Some (True, t1) } } }"

definition opal_pointer_array_set_size ::
    "'v ptr ptr \<Rightarrow> 'v opal_pointer_array \<Rightarrow> int \<Rightarrow> (int \<times> 'v opal_pointer_array) option" where
  "opal_pointer_array_set_size m arr new_size =
     (if new_size > pa_size arr then do {
        (ok, a) \<leftarrow> grow_table m arr new_size new_size;
        Some (if ok then OPAL_SUCCESS else OPAL_ERROR, a) }
      else Some (OPAL_SUCCESS, arr))"

definition opal_pointer_array_get_item :: "'v opal_pointer_array \<Rightarrow> int \<Rightarrow> 'v ptr option" where
  "opal_pointer_array_get_item table element_index =
     (if pa_size table \<le> element_index then Some Null
      else aget (cells (pa_addr table)) element_index)"

definition opal_pointer_array_get_size :: "'v opal_pointer_array \<Rightarrow> int" where
  "opal_pointer_array_get_size arr = pa_size arr"

definition opal_pointer_array_remove_all ::
    "'v opal_pointer_array \<Rightarrow> 'v opal_pointer_array option" where
  "opal_pointer_array_remove_all arr =
     (if pa_number_free arr = pa_size arr then Some arr
      else do {
        addr \<leftarrow> for_loop 0 (pa_size arr) (\<lambda>i a. aset a i Null) (cells (pa_addr arr));
        Some (arr\<lparr>pa_lowest_free := 0, pa_number_free := pa_size arr,
                   pa_addr := put_cells (pa_addr arr) addr\<rparr>) })"

section \<open>Invariant\<close>

definition first_free :: "'v ptr list \<Rightarrow> nat" where
  "first_free xs = length (takeWhile (\<lambda>p. p \<noteq> Null) xs)"

definition num_free :: "'v ptr list \<Rightarrow> nat" where
  "num_free xs = length (filter (\<lambda>p. p = Null) xs)"

definition pa_wf :: "'v opal_pointer_array \<Rightarrow> bool" where
  "pa_wf t \<longleftrightarrow> pa_size t = int (length (cells (pa_addr t))) \<and>
     pa_number_free t = int (num_free (cells (pa_addr t))) \<and>
     pa_lowest_free t = int (first_free (cells (pa_addr t))) \<and>
     pa_size t \<le> INT_MAX \<and> pa_max_size t \<le> INT_MAX"

definition pa_item :: "'v opal_pointer_array \<Rightarrow> int \<Rightarrow> 'v ptr" where
  "pa_item t i = (if 0 \<le> i \<and> i < pa_size t then cells (pa_addr t) ! nat i else Null)"

section \<open>Lemmas on free slots\<close>

lemma first_free_le: "first_free xs \<le> length xs"
  by (simp add: first_free_def length_takeWhile_le)

lemma first_free_eqI:
  assumes "r \<le> length xs" "\<And>j. j < r \<Longrightarrow> xs ! j \<noteq> Null" "r < length xs \<Longrightarrow> xs ! r = Null"
  shows "first_free xs = r"
proof -
  have "takeWhile (\<lambda>p. p \<noteq> Null) xs = take r xs"
    using assms by (intro takeWhile_eq_take_P_nth) auto
  then show ?thesis using assms(1) by (simp add: first_free_def)
qed

lemma first_free_before:
  assumes "j < first_free xs"
  shows "xs ! j \<noteq> Null"
proof -
  let ?t = "takeWhile (\<lambda>p. p \<noteq> Null) xs"
  have "?t ! j \<in> set ?t" using assms by (simp add: first_free_def)
  moreover have "?t ! j = xs ! j" using assms by (simp add: first_free_def takeWhile_nth)
  ultimately show ?thesis using set_takeWhileD by metis
qed

lemma first_free_at: "first_free xs < length xs \<Longrightarrow> xs ! first_free xs = Null"
  unfolding first_free_def using nth_length_takeWhile [of "\<lambda>p. p \<noteq> Null" xs] by blast

lemma num_free_zero_iff: "num_free xs = 0 \<longleftrightarrow> first_free xs = length xs"
proof
  assume "num_free xs = 0"
  then have "\<forall>p \<in> set xs. p \<noteq> Null" by (auto simp: num_free_def filter_empty_conv)
  then have "takeWhile (\<lambda>p. p \<noteq> Null) xs = xs" by (simp add: takeWhile_eq_all_conv)
  then show "first_free xs = length xs" by (simp only: first_free_def)
next
  assume "first_free xs = length xs"
  then have "\<forall>j < length xs. xs ! j \<noteq> Null" by (metis first_free_before)
  then show "num_free xs = 0" by (simp add: num_free_def filter_empty_conv all_set_conv_all_nth)
qed

lemma num_free_update:
  "k < length xs \<Longrightarrow> num_free (xs[k := v]) + (if xs ! k = Null then 1 else 0) =
     num_free xs + (if v = Null then 1 else 0)"
proof (induction xs arbitrary: k)
  case Nil
  then show ?case by simp
next
  case (Cons x xs)
  show ?case
  proof (cases k)
    case (Suc n)
    then show ?thesis using Cons.IH [of n] Cons.prems by (simp add: num_free_def split: if_splits)
  qed (simp add: num_free_def)
qed

lemma num_free_grow [simp]: "num_free (xs @ replicate n Null) = num_free xs + n"
  by (simp add: num_free_def)

lemma first_free_grow [simp]: "first_free (xs @ replicate n Null) = first_free xs"
proof (rule first_free_eqI)
  show "first_free xs \<le> length (xs @ replicate n Null)"
    using first_free_le [of xs] by simp
  show "(xs @ replicate n Null) ! j \<noteq> Null" if "j < first_free xs" for j
    using that first_free_le [of xs] first_free_before [OF that] by (simp add: nth_append)
  show "(xs @ replicate n Null) ! first_free xs = Null"
    if "first_free xs < length (xs @ replicate n Null)"
    using that first_free_at [of xs] by (auto simp: nth_append)
qed

lemma pa_search_spec:
  assumes "0 \<le> from" "from \<le> int (length xs)"
  shows "\<exists>r. pa_search xs from (int (length xs)) = Some r \<and> from \<le> r \<and> r \<le> int (length xs) \<and>
           (\<forall>k. from \<le> k \<and> k < r \<longrightarrow> xs ! nat k \<noteq> Null) \<and>
           (r < int (length xs) \<longrightarrow> xs ! nat r = Null)"
  unfolding pa_search_def using assms
  by (intro find_loop_spec) (auto simp: cmem)

text \<open>Filling the lowest free slot, and searching on from it, gives the new lowest free slot.\<close>

lemma pa_search_first_free:
  assumes "f = first_free xs" "f < length xs" "v \<noteq> Null"
    and "i = int f \<or> i = int f + 1"
  shows "pa_search (xs[f := v]) i (int (length xs)) = Some (int (first_free (xs[f := v])))"
proof -
  let ?ys = "xs[f := v]"
  have "0 \<le> i" "i \<le> int (length ?ys)" using assms by auto
  then obtain r where r: "pa_search ?ys i (int (length ?ys)) = Some r" "i \<le> r" "r \<le> int (length ?ys)"
    "\<And>k. i \<le> k \<Longrightarrow> k < r \<Longrightarrow> ?ys ! nat k \<noteq> Null" "r < int (length ?ys) \<Longrightarrow> ?ys ! nat r = Null"
    using pa_search_spec [of i ?ys] by blast
  have "first_free ?ys = nat r"
  proof (rule first_free_eqI)
    show "nat r \<le> length ?ys" using r(3) by simp
    show "?ys ! j \<noteq> Null" if j: "j < nat r" for j
    proof (cases "i \<le> int j")
      case True
      then show ?thesis using r(4) [of "int j"] j by simp
    next
      case False
      then have "j < f \<or> j = f" using assms(4) by auto
      then show ?thesis using assms(1-3) first_free_before by (auto simp: nth_list_update)
    qed
    show "?ys ! nat r = Null" if "nat r < length ?ys" using that r(2,5) \<open>0 \<le> i\<close> by auto
  qed
  then show ?thesis using r(1,2) \<open>0 \<le> i\<close> by simp
qed

lemma pa_search_ext:
  assumes "0 \<le> i" "\<And>k. i \<le> k \<Longrightarrow> k < n \<Longrightarrow>
      k < int (length xs) \<and> k < int (length ys) \<and> xs ! nat k = ys ! nat k"
  shows "pa_search xs i n = pa_search ys i n"
  unfolding pa_search_def using assms by (intro find_loop_cong) (auto simp: aget_def)

lemma first_free_release:
  assumes "i < length xs"
  shows "first_free (xs[i := Null]) = min i (first_free xs)"
proof (rule first_free_eqI)
  show "min i (first_free xs) \<le> length (xs[i := Null])" using assms by simp
  show "xs[i := Null] ! j \<noteq> Null" if "j < min i (first_free xs)" for j
    using that first_free_before [of j xs] by simp
  show "xs[i := Null] ! min i (first_free xs) = Null"
    if "min i (first_free xs) < length (xs[i := Null])"
    using that assms first_free_at [of xs] by (auto simp: min_def nth_list_update)
qed

lemma first_free_fill_other:
  assumes "i \<noteq> first_free xs" "v \<noteq> Null"
  shows "first_free (xs[i := v]) = first_free xs"
proof (rule first_free_eqI)
  show "first_free xs \<le> length (xs[i := v])" by (simp add: first_free_le)
  show "xs[i := v] ! j \<noteq> Null" if "j < first_free xs" for j
    using that assms(2) first_free_before [OF that] first_free_le [of xs]
    by (cases "j = i") auto
  show "xs[i := v] ! first_free xs = Null" if "first_free xs < length (xs[i := v])"
    using that assms(1) first_free_at [of xs] by simp
qed

section \<open>Every operation, as an update of the cells\<close>

text \<open>\<open>pa_with t ys\<close> is \<open>t\<close> holding the cells \<open>ys\<close> with its counters recomputed.\<close>

definition pa_with :: "'v opal_pointer_array \<Rightarrow> 'v ptr list \<Rightarrow> 'v opal_pointer_array" where
  "pa_with t ys = t\<lparr>pa_lowest_free := int (first_free ys), pa_number_free := int (num_free ys),
                    pa_size := int (length ys), pa_addr := Ptr ys\<rparr>"

lemma pa_with_wf:
  "int (length ys) \<le> INT_MAX \<Longrightarrow> pa_max_size t \<le> INT_MAX \<Longrightarrow> pa_wf (pa_with t ys)"
  by (simp add: pa_with_def pa_wf_def)

lemma pa_with_simps [simp]:
  "cells (pa_addr (pa_with t ys)) = ys" "pa_size (pa_with t ys) = int (length ys)"
  "pa_max_size (pa_with t ys) = pa_max_size t"
  "pa_item (pa_with t ys) = (\<lambda>i. if 0 \<le> i \<and> i < int (length ys) then ys ! nat i else Null)"
  by (auto simp: pa_with_def pa_item_def)

lemma pa_with_with [simp]: "pa_with (pa_with t xs) ys = pa_with t ys"
  by (simp add: pa_with_def)

lemma pa_wfD:
  assumes "pa_wf t"
  shows "pa_size t = int (length (cells (pa_addr t)))"
    "pa_number_free t = int (num_free (cells (pa_addr t)))"
    "pa_lowest_free t = int (first_free (cells (pa_addr t)))"
    "pa_size t \<le> INT_MAX" "pa_max_size t \<le> INT_MAX"
  using assms by (simp_all add: pa_wf_def)

lemma pa_addr_Ptr: "cells (pa_addr t) = xs \<Longrightarrow> xs \<noteq> [] \<Longrightarrow> pa_addr t = Ptr xs"
  by (cases "pa_addr t") auto

lemma grow_table_ok:
  assumes wf: "pa_wf t" and "cells (pa_addr t) = xs" and "pa_size t \<le> soft" "soft < pa_max_size t"
  shows "grow_table (Ptr j) t soft hard =
         Some (True, pa_with t (xs @ replicate (nat soft - length xs) Null))"
proof -
  have "int (length xs) \<le> soft" using assms pa_wfD(1) [OF wf] by simp
  with assms pa_wfD [OF wf] show ?thesis
    by (simp add: grow_table_def Let_def for_loop_fill pa_with_def)
qed

lemma grow_table_refused:
  "m = Null \<or> soft \<ge> pa_max_size t \<and> hard \<ge> pa_max_size t \<Longrightarrow> grow_table m t soft hard = Some (False, t)"
  by (auto simp: grow_table_def Let_def)

lemma pa_item_grow:
  "pa_wf t \<Longrightarrow> cells (pa_addr t) = xs \<Longrightarrow> pa_item (pa_with t (xs @ replicate n Null)) = pa_item t"
  by (auto simp: pa_wfD(1) pa_item_def nth_append fun_eq_iff)

lemma pa_item_update:
  assumes "pa_wf t" "cells (pa_addr t) = xs" "i < length xs"
  shows "pa_item (pa_with t (xs[i := v])) = (pa_item t)(int i := v)"
  using assms by (auto simp: pa_wfD(1) pa_item_def fun_eq_iff nth_list_update)

text \<open>Adding with a free slot at hand.\<close>

lemma add_in_place:
  assumes wf: "pa_wf t" and xs: "cells (pa_addr t) = xs" and free: "0 < num_free xs" and v: "v \<noteq> Null"
  shows "opal_pointer_array_add m t v = Some (int (first_free xs), pa_with t (xs[first_free xs := v]))"
proof -
  let ?f = "first_free xs"
  let ?ys = "xs[?f := v]"
  have f: "?f < length xs"
    using free num_free_zero_iff [of xs] first_free_le [of xs] by linarith
  have addr: "pa_addr t = Ptr xs" using xs f by (intro pa_addr_Ptr) auto
  have nf: "num_free ?ys + 1 = num_free xs"
    using num_free_update [OF f, of v] first_free_at [OF f] v by simp
  have srch: "pa_search ?ys (int ?f + 1) (int (length xs)) = Some (int (first_free ?ys))"
    using f v by (intro pa_search_first_free) auto
  have lt: "num_free ?ys > 0 \<Longrightarrow> first_free ?ys < length xs"
    and eq: "num_free ?ys = 0 \<Longrightarrow> first_free ?ys = length xs"
    using num_free_zero_iff [of ?ys] first_free_le [of ?ys] by auto
  show ?thesis
  proof (cases "num_free ?ys = 0")
    case True
    then show ?thesis using nf f addr eq wf
      by (simp add: opal_pointer_array_add_def Let_def pa_wfD [OF wf] cmem pa_with_def)
  next
    case False
    then show ?thesis using nf f addr srch lt wf
      by (simp add: opal_pointer_array_add_def Let_def pa_wfD [OF wf] cmem pa_with_def)
  qed
qed

lemma set_item_in_range:
  assumes wf: "pa_wf t" and xs: "cells (pa_addr t) = xs" and i: "i < length xs"
  shows "opal_pointer_array_set_item m t (int i) v = Some (OPAL_SUCCESS, pa_with t (xs[i := v]))"
proof -
  let ?ys = "xs[i := v]"
  have addr: "pa_addr t = Ptr xs" using xs i by (intro pa_addr_Ptr) auto
  have nf: "num_free ?ys + (if xs ! i = Null then 1 else 0) = num_free xs + (if v = Null then 1 else 0)"
    by (rule num_free_update [OF i])
  have srch: "pa_search xs (int i + 1) (int (length xs)) = Some (int (first_free ?ys))"
    if "v \<noteq> Null" "i = first_free xs"
  proof -
    have "pa_search xs (int i + 1) (int (length xs)) = pa_search ?ys (int i + 1) (int (length xs))"
      by (rule pa_search_ext) auto
    with that i show ?thesis by (simp add: pa_search_first_free)
  qed
  show ?thesis
  proof (cases "v = Null")
    case True
    then show ?thesis
      using nf i addr first_free_release [OF i]
      by (auto simp: opal_pointer_array_set_item_def Let_def pa_wfD [OF wf] cmem pa_with_def)
  next
    case False
    then show ?thesis
      using nf i addr srch first_free_fill_other [of i xs v] first_free_le [of ?ys]
      by (auto simp: opal_pointer_array_set_item_def Let_def pa_wfD [OF wf] cmem pa_with_def
          split: if_splits)
  qed
qed

lemma test_and_set_in_range:
  assumes wf: "pa_wf t" and xs: "cells (pa_addr t) = xs" and i: "i < length xs" and v: "v \<noteq> Null"
  shows "opal_pointer_array_test_and_set_item m t (int i) v =
         Some (if xs ! i = Null then (True, pa_with t (xs[i := v])) else (False, t))"
proof -
  let ?ys = "xs[i := v]"
  have addr: "pa_addr t = Ptr xs" using xs i by (intro pa_addr_Ptr) auto
  have nf: "xs ! i = Null \<Longrightarrow> num_free ?ys + 1 = num_free xs"
    using num_free_update [OF i, of v] v by simp
  have srch: "pa_search ?ys (int i) (int (length xs)) = Some (int (first_free ?ys))"
    if "i = first_free xs" using that i v by (intro pa_search_first_free) auto
  show ?thesis
    using nf i v addr srch first_free_fill_other [of i xs v] first_free_le [of ?ys]
    by (auto simp: opal_pointer_array_test_and_set_item_def Let_def pa_wfD [OF wf] cmem pa_with_def
        split: if_splits)
qed

text \<open>With growth: the same updates on the enlarged table.\<close>

definition pa_soft :: "'v opal_pointer_array \<Rightarrow> int" where
  "pa_soft t = (if pa_addr t = Null then 1 else pa_size t * 2)"

definition pa_usable :: "'v opal_pointer_array \<Rightarrow> bool" where
  "pa_usable t \<longleftrightarrow> pa_wf t \<and> (pa_addr t = Null \<or> 0 < pa_size t)"

lemma pa_with_usable:
  "pa_wf t \<Longrightarrow> ys \<noteq> [] \<Longrightarrow> int (length ys) \<le> INT_MAX \<Longrightarrow> pa_usable (pa_with t ys)"
  by (auto simp: pa_usable_def intro!: pa_with_wf dest: pa_wfD)

lemma add_grows:
  assumes us: "pa_usable t" and xs: "cells (pa_addr t) = xs" and full: "num_free xs = 0"
    and v: "v \<noteq> Null" and room: "pa_soft t < pa_max_size t"
  defines "ys \<equiv> xs @ replicate (nat (pa_soft t) - length xs) Null"
  shows "opal_pointer_array_add (Ptr j) t v = Some (int (length xs), pa_with t (ys[length xs := v]))"
proof -
  have wf: "pa_wf t" using us by (simp add: pa_usable_def)
  have sz: "pa_size t = int (length xs)" using pa_wfD(1) [OF wf] xs by simp
  have soft: "int (length xs) < pa_soft t" "pa_size t \<le> pa_soft t"
    using us xs sz by (auto simp: pa_usable_def pa_soft_def)
  have cs: "pa_addr t \<noteq> Null \<Longrightarrow> cint (pa_size t * 2) = Some (pa_soft t)"
    using soft room pa_wfD(5) [OF wf] by (auto simp: pa_soft_def intro!: cint_Some is_cintI)
  have g: "grow_table (Ptr j) t (pa_soft t) INT_MAX = Some (True, pa_with t ys)"
    unfolding ys_def by (rule grow_table_ok [OF wf xs soft(2) room])
  have wf': "pa_wf (pa_with t ys)"
    using soft room pa_wfD(5) [OF wf] by (intro pa_with_wf) (auto simp: ys_def)
  have ff: "first_free ys = length xs" using full num_free_zero_iff [of xs] by (simp add: ys_def)
  have nf: "0 < num_free ys" using soft by (simp add: ys_def)
  have "opal_pointer_array_add (Ptr j) t v = opal_pointer_array_add (Ptr j) (pa_with t ys) v"
    using g cs full nf xs pa_wfD(2) [OF wf]
    by (auto simp: opal_pointer_array_add_def TABLE_INIT_def TABLE_GROW_def pa_with_def pa_soft_def)
  also have "\<dots> = Some (int (length xs), pa_with t (ys[length xs := v]))"
    using add_in_place [OF wf' _ nf v] ff by simp
  finally show ?thesis .
qed

lemma add_no_room:
  assumes wf: "pa_wf t" and full: "pa_number_free t = 0" and no: "pa_max_size t \<le> pa_soft t"
    and ovf: "pa_size t * 2 \<le> INT_MAX"
  shows "opal_pointer_array_add m t v = Some (OPAL_ERR_OUT_OF_RESOURCE, t)"
proof -
  have "cint (pa_size t * 2) = Some (pa_size t * 2)"
    using ovf pa_wfD(1) [OF wf] by (intro cint_Some is_cintI) auto
  moreover have "grow_table m t (pa_soft t) INT_MAX = Some (False, t)"
    using no pa_wfD(5) [OF wf] by (intro grow_table_refused) auto
  ultimately show ?thesis
    using full by (auto simp: opal_pointer_array_add_def TABLE_INIT_def TABLE_GROW_def pa_soft_def)
qed

lemma add_ok:
  assumes us: "pa_usable t" and v: "v \<noteq> Null"
    and room: "0 < pa_number_free t \<or> pa_soft t < pa_max_size t"
  shows "\<exists>t' i. opal_pointer_array_add (Ptr j) t v = Some (i, t') \<and> pa_usable t' \<and> 0 \<le> i \<and>
           pa_item t i = Null \<and> (\<forall>k. 0 \<le> k \<and> k < i \<longrightarrow> pa_item t k \<noteq> Null) \<and>
           pa_item t' = (pa_item t)(i := v)"
proof -
  define xs where "xs = cells (pa_addr t)"
  have wf: "pa_wf t" using us by (simp add: pa_usable_def)
  note d = pa_wfD [OF wf, folded xs_def]
  have pre: "\<forall>k. 0 \<le> k \<and> k < int (first_free xs) \<longrightarrow> pa_item t k \<noteq> Null"
    using d(1) first_free_before [of _ xs] first_free_le [of xs]
    by (auto simp: pa_item_def xs_def [symmetric])
  show ?thesis
  proof (cases "0 < num_free xs")
    case True
    then have f: "first_free xs < length xs"
      using num_free_zero_iff [of xs] first_free_le [of xs] by linarith
    have "opal_pointer_array_add (Ptr j) t v =
        Some (int (first_free xs), pa_with t (xs[first_free xs := v]))"
      using True v by (intro add_in_place [OF wf]) (simp_all add: xs_def)
    moreover have "pa_usable (pa_with t (xs[first_free xs := v]))"
      using d f by (intro pa_with_usable [OF wf]) auto
    moreover have "pa_item t (int (first_free xs)) = Null"
      using d(1) f first_free_at [OF f] by (simp add: pa_item_def xs_def [symmetric])
    moreover have "pa_item (pa_with t (xs[first_free xs := v])) = (pa_item t)(int (first_free xs) := v)"
      using f by (intro pa_item_update [OF wf]) (simp_all add: xs_def)
    ultimately show ?thesis using pre by fastforce
  next
    case False
    let ?ys = "xs @ replicate (nat (pa_soft t) - length xs) Null"
    have full: "num_free xs = 0" "pa_soft t < pa_max_size t" using False room d(2) by auto
    have "int (length xs) < pa_soft t"
      using us d(1) by (auto simp: pa_usable_def pa_soft_def xs_def)
    then have len: "length xs < length ?ys" "int (length ?ys) \<le> INT_MAX"
      using d(5) full(2) by auto
    have "opal_pointer_array_add (Ptr j) t v = Some (int (length xs), pa_with t (?ys[length xs := v]))"
      using full v by (intro add_grows [OF us]) (simp_all add: xs_def)
    moreover have "pa_usable (pa_with t (?ys[length xs := v]))"
      using len by (intro pa_with_usable [OF wf]) auto
    moreover have wf': "pa_wf (pa_with t ?ys)" using len d by (intro pa_with_wf) auto
    then have "pa_item (pa_with t (?ys[length xs := v])) = (pa_item t)(int (length xs) := v)"
      using pa_item_update [OF wf' _ len(1), of v] pa_item_grow [OF wf, of xs] by (simp add: xs_def)
    moreover have "first_free xs = length xs" using full(1) num_free_zero_iff by blast
    moreover have "pa_item t (int (length xs)) = Null" using d(1) by (simp add: pa_item_def)
    ultimately show ?thesis using pre by fastforce
  qed
qed

lemma set_item_grows:
  assumes wf: "pa_wf t" and i: "pa_size t \<le> i" "(i div 2 + 1) * 2 < pa_max_size t"
  shows "\<exists>t'. opal_pointer_array_set_item (Ptr j) t i v = Some (OPAL_SUCCESS, t') \<and> pa_usable t' \<and>
           pa_item t' = (pa_item t)(i := v)"
proof -
  define xs where "xs = cells (pa_addr t)"
  let ?soft = "(i div 2 + 1) * 2"
  let ?ys = "xs @ replicate (nat ?soft - length xs) Null"
  note d = pa_wfD [OF wf, folded xs_def]
  have i0: "0 \<le> i" "i < ?soft" using i d(1) by auto
  have g: "grow_table (Ptr j) t ?soft i = Some (True, pa_with t ?ys)"
    using i i0 by (intro grow_table_ok [OF wf]) (auto simp: xs_def)
  have len: "int (length ?ys) = ?soft" "nat i < length ?ys" using i i0 d(1) by auto
  then have wf': "pa_wf (pa_with t ?ys)" using i d by (intro pa_with_wf) auto
  have "cint ?soft = Some ?soft" using i i0 d(5) by (intro cint_Some is_cintI) auto
  then have "opal_pointer_array_set_item (Ptr j) t i v = opal_pointer_array_set_item (Ptr j) (pa_with t ?ys) i v"
    using g i i0 len by (simp add: opal_pointer_array_set_item_def TABLE_GROW_def)
  also have "\<dots> = Some (OPAL_SUCCESS, pa_with t (?ys[nat i := v]))"
    using set_item_in_range [OF wf' _ len(2), of "Ptr j" v] i0 by simp
  finally have "opal_pointer_array_set_item (Ptr j) t i v = \<dots>" .
  moreover have "pa_item (pa_with t (?ys[nat i := v])) = (pa_item t)(i := v)"
    using pa_item_update [OF wf' _ len(2), of v] pa_item_grow [OF wf, of xs] i0 by (simp add: xs_def)
  moreover have "pa_usable (pa_with t (?ys[nat i := v]))"
    using len i d(5) by (intro pa_with_usable [OF wf]) auto
  ultimately show ?thesis by blast
qed

section \<open>The handle-table interface\<close>

definition pa_acquire ::
    "'v ptr \<Rightarrow> 'v opal_pointer_array \<Rightarrow> 'v \<Rightarrow> ('v opal_pointer_array \<times> int) option" where
  "pa_acquire j t v =
     (case opal_pointer_array_add (Ptr j) t (Ptr v) of
        Some (i, t') \<Rightarrow> if 0 \<le> i then Some (t', i) else None
      | None \<Rightarrow> None)"

definition pa_release :: "'v opal_pointer_array \<Rightarrow> int \<Rightarrow> 'v opal_pointer_array option" where
  "pa_release t i = map_option snd (opal_pointer_array_set_item Null t i Null)"

lemma pa_acquire_cases:
  assumes us: "pa_usable t" and acq: "pa_acquire j t v = Some (t', i)"
  shows "pa_usable t' \<and> pa_item t i = Null \<and> pa_item t' = (pa_item t)(i := Ptr v)"
proof -
  have add: "opal_pointer_array_add (Ptr j) t (Ptr v) = Some (i, t')" and "0 \<le> i"
    using acq by (auto simp: pa_acquire_def split: option.splits if_splits)
  have wf: "pa_wf t" using us by (simp add: pa_usable_def)
  show ?thesis
  proof (cases "0 < pa_number_free t \<or> pa_soft t < pa_max_size t")
    case True
    then show ?thesis using add_ok [OF us _ True, of "Ptr v" j] add by auto
  next
    case False
    then have full: "pa_number_free t = 0" using pa_wfD(2) [OF wf] by simp
    have no: "grow_table (Ptr j) t (pa_soft t) INT_MAX = Some (False, t)"
      using False pa_wfD(5) [OF wf] by (intro grow_table_refused) auto
    have "opal_pointer_array_add (Ptr j) t (Ptr v) = None \<or>
          opal_pointer_array_add (Ptr j) t (Ptr v) = Some (OPAL_ERR_OUT_OF_RESOURCE, t)"
      using full no by (auto simp: opal_pointer_array_add_def TABLE_INIT_def TABLE_GROW_def pa_soft_def
          cint_def)
    with add \<open>0 \<le> i\<close> show ?thesis by (auto simp: opal_rc)
  qed
qed

interpretation pah: slot_table_release pa_usable pa_item "pa_acquire j" pa_release
  for j :: "'v ptr"
proof unfold_locales
  fix t t' :: "'v opal_pointer_array" and v i
  assume "pa_usable t" "pa_acquire j t v = Some (t', i)"
  then show "pa_usable t'" "pa_item t i = Null" "pa_item t' = (pa_item t)(i := Ptr v)"
    using pa_acquire_cases [of t j v t' i] by simp_all
next
  fix t :: "'v opal_pointer_array" and i
  assume us: "pa_usable t" and used: "pa_item t i \<noteq> Null"
  define xs where "xs = cells (pa_addr t)"
  have wf: "pa_wf t" using us by (simp add: pa_usable_def)
  have i: "0 \<le> i" "nat i < length xs" using used pa_wfD(1) [OF wf]
    by (auto simp: pa_item_def xs_def split: if_splits)
  have "pa_release t i = Some (pa_with t (xs[nat i := Null]))"
    using set_item_in_range [OF wf xs_def [symmetric] i(2), of Null Null] i(1)
    by (simp add: pa_release_def)
  moreover have "pa_usable (pa_with t (xs[nat i := Null]))"
    using i pa_wfD [OF wf] by (intro pa_with_usable [OF wf]) (auto simp: xs_def)
  moreover have "pa_item (pa_with t (xs[nat i := Null])) = (pa_item t)(i := Null)"
    using pa_item_update [OF wf xs_def [symmetric] i(2), of Null] i(1) by simp
  ultimately show "\<exists>t'. pa_release t i = Some t' \<and> pa_usable t' \<and> pa_item t' = (pa_item t)(i := Null)"
    by blast
qed

fun pa_add_all ::
    "'v ptr \<Rightarrow> 'v opal_pointer_array \<Rightarrow> 'v list \<Rightarrow> ('v opal_pointer_array \<times> int list) option" where
  "pa_add_all j t [] = Some (t, [])"
| "pa_add_all j t (v # vs) =
     (case pa_acquire j t v of
        None \<Rightarrow> None
      | Some (t1, i) \<Rightarrow> map_option (\<lambda>(t2, is). (t2, i # is)) (pa_add_all j t1 vs))"

lemma pa_add_all_eq: "pa_add_all j t vs = pah.acquire_all j t vs"
  by (induction vs arbitrary: t) (auto split: option.splits)

section \<open>Properties\<close>

text \<open>C11: On a usable table opal_pointer_array_add of a non-NULL pointer returns the lowest free
  index (every smaller element is in use), grows the table when it is full and may grow, keeps
  the counters consistent, and changes no other element; when the table is full and may not
  grow it returns OPAL_ERR_OUT_OF_RESOURCE and leaves the table as it was (the header and the comment
  of the function announce -1, OPAL_ERROR). A usable table is well-formed and, once allocated, not of size
  zero; its size doubled must fit an int, and the reallocation succeeds.\<close>

theorem opal_pointer_array_add_lowest:
  assumes "pa_usable t" and "v \<noteq> Null" and "pa_size t * 2 \<le> INT_MAX"
  shows "if 0 < pa_number_free t \<or> pa_soft t < pa_max_size t
         then \<exists>t' i. opal_pointer_array_add (Ptr j) t v = Some (i, t') \<and> pa_usable t' \<and> 0 \<le> i \<and>
                pa_item t i = Null \<and> (\<forall>k. 0 \<le> k \<and> k < i \<longrightarrow> pa_item t k \<noteq> Null) \<and>
                pa_item t' = (pa_item t)(i := v)
         else opal_pointer_array_add (Ptr j) t v = Some (OPAL_ERR_OUT_OF_RESOURCE, t)"
proof (cases "0 < pa_number_free t \<or> pa_soft t < pa_max_size t")
  case True
  then show ?thesis using add_ok [OF assms(1,2) True, of j] by simp
next
  case False
  have wf: "pa_wf t" using assms(1) by (simp add: pa_usable_def)
  have "pa_number_free t = 0" using False pa_wfD(2) [OF wf] by simp
  then show ?thesis using False add_no_room [OF wf _ _ assms(3)] by simp
qed

theorem opal_pointer_array_add_lowest_witness:
  "\<exists>t' i. opal_pointer_array_add (Ptr Null)
            \<lparr>pa_lowest_free = 2, pa_number_free = 0, pa_size = 2, pa_max_size = 100,
             pa_block_size = 1, pa_addr = Ptr [Ptr ''a'', Ptr ''b'']\<rparr> (Ptr ''c'') = Some (i, t') \<and> pa_usable t'"
  using opal_pointer_array_add_lowest [of
      "\<lparr>pa_lowest_free = 2, pa_number_free = 0, pa_size = 2, pa_max_size = 100,
        pa_block_size = 1, pa_addr = Ptr [Ptr ''a'', Ptr ''b'']\<rparr>" "Ptr ''c''" Null]
  by (auto simp: pa_usable_def pa_wf_def first_free_def num_free_def INT_MAX_def pa_soft_def)

text \<open>Handles given out by a sequence of opal_pointer_array_add calls are pairwise distinct and
  were free before; afterwards each handle reads back its own pointer and every other element is
  what it was.\<close>

theorem pointer_array_handles_distinct:
  assumes "pa_usable t" and "pa_add_all j t vs = Some (t', hs)"
  shows "pa_usable t' \<and> distinct hs \<and> length hs = length vs \<and>
         (\<forall>h \<in> set hs. pa_item t h = Null) \<and>
         (\<forall>k < length vs. pa_item t' (hs ! k) = Ptr (vs ! k)) \<and>
         (\<forall>h. h \<notin> set hs \<longrightarrow> pa_item t' h = pa_item t h)"
  using pah.acquire_all_spec [OF assms(1)] assms(2) unfolding pa_add_all_eq by blast

theorem pointer_array_handles_distinct_witness:
  "\<exists>t' hs. pa_add_all Null (opal_pointer_array_construct :: nat opal_pointer_array) [5, 7, 9] = Some (t', hs) \<and>
     distinct hs \<and> length hs = 3"
proof -
  have us: "pa_usable (opal_pointer_array_construct :: nat opal_pointer_array)"
    by (simp add: pa_usable_def pa_wf_def opal_pointer_array_construct_def first_free_def num_free_def
        INT_MAX_def)
  have "pa_add_all Null (opal_pointer_array_construct :: nat opal_pointer_array) [5, 7, 9] \<noteq> None"
    by code_simp
  then obtain t' hs where "pa_add_all Null (opal_pointer_array_construct :: nat opal_pointer_array) [5, 7, 9] =
      Some (t', hs)" by auto
  with pointer_array_handles_distinct [OF us this] show ?thesis by simp
qed

text \<open>opal_pointer_array_set_item, on any index inside the table and on any larger index whose
  rounded-up size stays below max_size, stores the value and keeps the free count and the lowest
  free index right, also when the value is NULL (the element becomes free again).\<close>

theorem opal_pointer_array_set_item_update:
  assumes "pa_usable t" and "0 \<le> i" and "i < pa_size t \<or> (i div 2 + 1) * 2 < pa_max_size t"
  shows "\<exists>t'. opal_pointer_array_set_item (Ptr j) t i v = Some (OPAL_SUCCESS, t') \<and> pa_usable t' \<and>
           pa_item t' = (pa_item t)(i := v)"
proof (cases "i < pa_size t")
  case False
  then show ?thesis using assms set_item_grows [of t i j v] by (auto simp: pa_usable_def)
next
  case True
  define xs where "xs = cells (pa_addr t)"
  have wf: "pa_wf t" using assms(1) by (simp add: pa_usable_def)
  have i: "nat i < length xs" using True assms(2) pa_wfD(1) [OF wf] by (simp add: xs_def)
  have "opal_pointer_array_set_item (Ptr j) t i v = Some (OPAL_SUCCESS, pa_with t (xs[nat i := v]))"
    using set_item_in_range [OF wf xs_def [symmetric] i, of "Ptr j" v] assms(2) by simp
  moreover have "pa_item (pa_with t (xs[nat i := v])) = (pa_item t)(i := v)"
    using pa_item_update [OF wf xs_def [symmetric] i, of v] assms(2) by simp
  moreover have "pa_usable (pa_with t (xs[nat i := v]))"
    using i pa_wfD [OF wf] by (intro pa_with_usable [OF wf]) (auto simp: xs_def)
  ultimately show ?thesis by blast
qed

theorem opal_pointer_array_set_item_update_witness:
  "\<exists>t'. opal_pointer_array_set_item (Ptr Null)
          \<lparr>pa_lowest_free = 0, pa_number_free = 1, pa_size = 1, pa_max_size = 100,
           pa_block_size = 1, pa_addr = Ptr [Null]\<rparr> 4 (Ptr ''x'') = Some (OPAL_SUCCESS, t') \<and> pa_usable t'"
  using opal_pointer_array_set_item_update [of
      "\<lparr>pa_lowest_free = 0, pa_number_free = 1, pa_size = 1, pa_max_size = 100,
        pa_block_size = 1, pa_addr = Ptr [Null]\<rparr>" 4 Null "Ptr ''x''"]
  by (auto simp: pa_usable_def pa_wf_def first_free_def num_free_def INT_MAX_def)

text \<open>A store through the array's end. With an odd max_size 2k+1, opal_pointer_array_set_item
  on index 2k (below max_size) of a table that is not that long makes grow_table take its hard
  limit, the index itself, as the new size: the table is reallocated to 2k elements and the store
  to element 2k is outside it. opal_pointer_array_test_and_set_item does the same.\<close>

theorem set_item_last_index_overruns:
  assumes "pa_usable t" and "pa_max_size t = 2 * k + 1" and "pa_size t \<le> 2 * k" and "0 \<le> k"
  shows "opal_pointer_array_set_item (Ptr j) t (2 * k) v = None \<and>
         opal_pointer_array_test_and_set_item (Ptr j) t (2 * k) v = None"
proof -
  define xs where "xs = cells (pa_addr t)"
  have wf: "pa_wf t" using assms(1) by (simp add: pa_usable_def)
  note d = pa_wfD [OF wf, folded xs_def]
  have g: "grow_table (Ptr j) t (2 * k + 2) (2 * k) =
      Some (True, pa_with t (xs @ replicate (nat (2 * k) - length xs) Null))"
  proof -
    have "grow_table (Ptr j) t (2 * k + 2) (2 * k) = grow_table (Ptr j) t (2 * k) (2 * k)"
      using assms by (simp add: grow_table_def)
    also have "\<dots> = Some (True, pa_with t (xs @ replicate (nat (2 * k) - length xs) Null))"
      using assms by (intro grow_table_ok [OF wf]) (auto simp: xs_def)
    finally show ?thesis .
  qed
  have eq: "k * 2 + 2 = 2 * k + 2" by simp
  show ?thesis
    using assms d(1) g
    by (cases "is_cint (2 * k + 2)")
       (simp_all add: opal_pointer_array_set_item_def opal_pointer_array_test_and_set_item_def
          TABLE_GROW_def aget_def aset_def cint_def eq)
qed

theorem set_item_last_index_overruns_witness:
  "opal_pointer_array_set_item (Ptr Null)
     \<lparr>pa_lowest_free = 1, pa_number_free = 0, pa_size = 1, pa_max_size = 2 * 2 + 1,
      pa_block_size = 1, pa_addr = Ptr [Ptr ''a'']\<rparr> (2 * 2) (Ptr ''b'') = None"
  using set_item_last_index_overruns [of
      "\<lparr>pa_lowest_free = 1, pa_number_free = 0, pa_size = 1, pa_max_size = 2 * 2 + 1,
        pa_block_size = 1, pa_addr = Ptr [Ptr ''a'']\<rparr>" 2 Null "Ptr ''b''"]
  by (simp add: pa_usable_def pa_wf_def first_free_def num_free_def INT_MAX_def)

end
