(* ===== verification/Hotel.thy ===== *)
theory Hotel
  imports Slot_Table
begin

text \<open>
  \<^verbatim>\<open>opal/class/opal_hotel.c\<close> and the inline operations of its header: a fixed number
  of rooms, a stack of the unoccupied room numbers, and a timer per occupied room that evicts
  the occupant. Of the event library only whether a room's timer is pending is kept:
  \<open>opal_event_set\<close> leaves it idle, \<open>opal_event_add\<close> makes it pending,
  \<open>opal_event_del\<close> and its own expiry make it idle again.
\<close>

section \<open>Data and operations\<close>

record 'v opal_hotel_room =
  rm_occupant :: "'v ptr"
  rm_pending :: bool

record 'v opal_hotel =
  ht_num_rooms :: int
  ht_tv_sec :: int
  ht_tv_usec :: int
  ht_has_callback :: bool
  ht_rooms :: "'v opal_hotel_room list ptr"
  ht_eviction_args :: "int list ptr"
  ht_unoccupied_rooms :: "int list ptr"
  ht_last_unoccupied_room :: int

definition opal_hotel_constructor :: "'v opal_hotel" where
  "opal_hotel_constructor =
     \<lparr>ht_num_rooms = 0, ht_tv_sec = 0, ht_tv_usec = 0, ht_has_callback = False, ht_rooms = Null,
      ht_eviction_args = Null, ht_unoccupied_rooms = Null, ht_last_unoccupied_room = - 1\<rparr>"

text \<open>
  The three allocations of \<open>opal_hotel_init\<close> are not checked by the C: when one fails, the
  first write through the NULL pointer is the undefined behaviour \<open>None\<close>. The
  eviction arguments hold the room number (their other field is the hotel itself).
\<close>

definition ht_alloc :: "'a ptr \<Rightarrow> int \<Rightarrow> 'a list ptr" where
  "ht_alloc m n = (case m of Null \<Rightarrow> Null | Ptr j \<Rightarrow> Ptr (replicate (nat n) j))"

definition opal_hotel_init ::
    "'v opal_hotel_room ptr \<Rightarrow> int ptr \<Rightarrow> int ptr \<Rightarrow> 'v opal_hotel \<Rightarrow> int \<Rightarrow> 32 word \<Rightarrow> bool \<Rightarrow>
     (int \<times> 'v opal_hotel) option" where
  "opal_hotel_init mr me mu h num_rooms eviction_timeout has_callback =
     (if num_rooms \<le> 0 \<or> \<not> has_callback then Some (OPAL_ERR_BAD_PARAM, h)
      else
        let h1 = h\<lparr>ht_num_rooms := num_rooms,
                   ht_tv_usec := uint eviction_timeout mod 1000000,
                   ht_tv_sec := uint eviction_timeout div 1000000,
                   ht_has_callback := has_callback,
                   ht_rooms := ht_alloc mr num_rooms,
                   ht_eviction_args := ht_alloc me num_rooms,
                   ht_unoccupied_rooms := ht_alloc mu num_rooms,
                   ht_last_unoccupied_room := num_rooms - 1\<rparr>
        in do {
          (rooms, unocc, args) \<leftarrow>
            for_loop 0 num_rooms
              (\<lambda>i (rooms, unocc, args). do {
                 rooms' \<leftarrow> aset rooms i \<lparr>rm_occupant = Null, rm_pending = False\<rparr>;
                 unocc' \<leftarrow> aset unocc i i;
                 args' \<leftarrow> aset args i i;
                 Some (rooms', unocc', args') })
              (cells (ht_rooms h1), cells (ht_unoccupied_rooms h1), cells (ht_eviction_args h1));
          Some (OPAL_SUCCESS,
                h1\<lparr>ht_rooms := put_cells (ht_rooms h1) rooms,
                   ht_unoccupied_rooms := put_cells (ht_unoccupied_rooms h1) unocc,
                   ht_eviction_args := put_cells (ht_eviction_args h1) args\<rparr>) })"

definition opal_hotel_checkin_with_res ::
    "'v opal_hotel \<Rightarrow> 'v ptr \<Rightarrow> ('v opal_hotel \<times> int) option" where
  "opal_hotel_checkin_with_res hotel occupant = do {
     room_num \<leftarrow> aget (cells (ht_unoccupied_rooms hotel)) (ht_last_unoccupied_room hotel);
     rooms \<leftarrow> aset (cells (ht_rooms hotel)) room_num \<lparr>rm_occupant = occupant, rm_pending = True\<rparr>;
     Some (hotel\<lparr>ht_last_unoccupied_room := ht_last_unoccupied_room hotel - 1,
                 ht_rooms := put_cells (ht_rooms hotel) rooms\<rparr>, room_num) }"

definition opal_hotel_checkin ::
    "'v opal_hotel \<Rightarrow> 'v ptr \<Rightarrow> int \<Rightarrow> (int \<times> 'v opal_hotel \<times> int) option" where
  "opal_hotel_checkin hotel occupant room_num0 =
     (if ht_last_unoccupied_room hotel < 0 then Some (OPAL_ERR_TEMP_OUT_OF_RESOURCE, hotel, room_num0)
      else do {
        room_num \<leftarrow> aget (cells (ht_unoccupied_rooms hotel)) (ht_last_unoccupied_room hotel);
        rooms \<leftarrow> aset (cells (ht_rooms hotel)) room_num \<lparr>rm_occupant = occupant, rm_pending = True\<rparr>;
        Some (OPAL_SUCCESS,
              hotel\<lparr>ht_last_unoccupied_room := ht_last_unoccupied_room hotel - 1,
                    ht_rooms := put_cells (ht_rooms hotel) rooms\<rparr>, room_num) })"

definition opal_hotel_checkout :: "'v opal_hotel \<Rightarrow> int \<Rightarrow> 'v opal_hotel option" where
  "opal_hotel_checkout hotel room_num = do {
     room \<leftarrow> aget (cells (ht_rooms hotel)) room_num;
     if rm_occupant room \<noteq> Null then do {
       rooms \<leftarrow> aset (cells (ht_rooms hotel)) room_num \<lparr>rm_occupant = Null, rm_pending = False\<rparr>;
       let lst = ht_last_unoccupied_room hotel + 1;
       unocc \<leftarrow> aset (cells (ht_unoccupied_rooms hotel)) lst room_num;
       Some (hotel\<lparr>ht_rooms := put_cells (ht_rooms hotel) rooms,
                   ht_last_unoccupied_room := lst,
                   ht_unoccupied_rooms := put_cells (ht_unoccupied_rooms hotel) unocc\<rparr>) }
     else Some hotel }"

text \<open>
  The timer callback: it returns the arguments with which the user's callback is invoked,
  the room and its former occupant.
\<close>

definition local_eviction_callback ::
    "'v opal_hotel \<Rightarrow> int \<Rightarrow> ('v opal_hotel \<times> int \<times> 'v ptr) option" where
  "local_eviction_callback hotel arg = do {
     room_num \<leftarrow> aget (cells (ht_eviction_args hotel)) arg;
     room \<leftarrow> aget (cells (ht_rooms hotel)) room_num;
     hotel' \<leftarrow> opal_hotel_checkout hotel room_num;
     Some (hotel', room_num, rm_occupant room) }"

definition opal_hotel_destructor :: "'v opal_hotel \<Rightarrow> 'v opal_hotel option" where
  "opal_hotel_destructor h = do {
     rooms \<leftarrow> for_loop 0 (ht_num_rooms h)
       (\<lambda>i rooms. do {
          room \<leftarrow> aget rooms i;
          if rm_occupant room \<noteq> Null then aset rooms i (room\<lparr>rm_pending := False\<rparr>) else Some rooms })
       (cells (ht_rooms h));
     Some (h\<lparr>ht_rooms := put_cells (ht_rooms h) rooms\<rparr>) }"

section \<open>The life of a hotel\<close>

text \<open>
  A step is a check-in of an occupant other than NULL, a check-out of any room number in range,
  or the expiry of a pending timer. The eviction callback runs with the timer no longer pending.
  A NULL occupant is not a step: the hotel takes its room for empty and never gives it back,
  \<open>checkin_null_lost\<close> below.
\<close>

definition ht_item :: "'v opal_hotel \<Rightarrow> int \<Rightarrow> 'v ptr" where
  "ht_item h i = (if 0 \<le> i \<and> i < ht_num_rooms h then rm_occupant (cells (ht_rooms h) ! nat i) else Null)"

inductive hotel_step :: "'v opal_hotel \<Rightarrow> 'v opal_hotel \<Rightarrow> bool" where
  checkin: "opal_hotel_checkin h (Ptr v) r0 = Some (rc, h', r) \<Longrightarrow> hotel_step h h'"
| checkout: "0 \<le> r \<Longrightarrow> r < ht_num_rooms h \<Longrightarrow> opal_hotel_checkout h r = Some h' \<Longrightarrow> hotel_step h h'"
| evict: "ht_item h r \<noteq> Null \<Longrightarrow> local_eviction_callback h r = Some (h', n, v) \<Longrightarrow> hotel_step h h'"

inductive hotel_reach :: "'v opal_hotel \<Rightarrow> 'v opal_hotel \<Rightarrow> bool" for h0 where
  here: "hotel_reach h0 h0"
| step: "hotel_reach h0 h \<Longrightarrow> hotel_step h h' \<Longrightarrow> hotel_reach h0 h'"

inductive_cases hotel_stepE: "hotel_step h h'"

section \<open>Invariant\<close>

definition ht_free :: "'v opal_hotel \<Rightarrow> int list" where
  "ht_free h = take (nat (ht_last_unoccupied_room h + 1)) (cells (ht_unoccupied_rooms h))"

definition ht_wf :: "'v opal_hotel \<Rightarrow> bool" where
  "ht_wf h \<longleftrightarrow>
     0 < ht_num_rooms h \<and> ht_rooms h \<noteq> Null \<and> ht_unoccupied_rooms h \<noteq> Null \<and>
     int (length (cells (ht_rooms h))) = ht_num_rooms h \<and>
     int (length (cells (ht_unoccupied_rooms h))) = ht_num_rooms h \<and>
     cells (ht_eviction_args h) = map int [0..<length (cells (ht_rooms h))] \<and>
     - 1 \<le> ht_last_unoccupied_room h \<and> ht_last_unoccupied_room h < ht_num_rooms h \<and>
     distinct (ht_free h) \<and>
     set (ht_free h) = {i. 0 \<le> i \<and> i < ht_num_rooms h \<and> ht_item h i = Null} \<and>
     (\<forall>r \<in> set (cells (ht_rooms h)). rm_pending r = (rm_occupant r \<noteq> Null))"

lemma ht_wfD:
  assumes "ht_wf h"
  shows "0 < ht_num_rooms h" "int (length (cells (ht_rooms h))) = ht_num_rooms h"
    "int (length (cells (ht_unoccupied_rooms h))) = ht_num_rooms h"
    "- 1 \<le> ht_last_unoccupied_room h" "ht_last_unoccupied_room h < ht_num_rooms h"
    "distinct (ht_free h)"
    "set (ht_free h) = {i. 0 \<le> i \<and> i < ht_num_rooms h \<and> ht_item h i = Null}"
    "cells (ht_eviction_args h) = map int [0..<length (cells (ht_rooms h))]"
    "ht_rooms h \<noteq> Null" "ht_unoccupied_rooms h \<noteq> Null"
    "\<forall>r \<in> set (cells (ht_rooms h)). rm_pending r = (rm_occupant r \<noteq> Null)"
  using assms unfolding ht_wf_def by blast+

lemma put_cells_notNull [simp]: "p \<noteq> Null \<Longrightarrow> put_cells p xs = Ptr xs"
  by (cases p) auto

text \<open>Checking in pops the last free room and fills it.\<close>

lemma checkin_ok:
  assumes wf: "ht_wf h" and room: "0 \<le> ht_last_unoccupied_room h"
  shows "\<exists>h' r. opal_hotel_checkin h (Ptr v) r0 = Some (OPAL_SUCCESS, h', r) \<and> ht_wf h' \<and>
           0 \<le> r \<and> r < ht_num_rooms h \<and> ht_item h r = Null \<and> ht_item h' = (ht_item h)(r := Ptr v) \<and>
           ht_num_rooms h' = ht_num_rooms h \<and> ht_free h = ht_free h' @ [r]"
proof -
  note d = ht_wfD [OF wf]
  define l where "l = nat (ht_last_unoccupied_room h)"
  define us where "us = cells (ht_unoccupied_rooms h)"
  define rs where "rs = cells (ht_rooms h)"
  have l: "ht_last_unoccupied_room h = int l" "l < length us" using room d(3,5) by (auto simp: l_def us_def)
  define r where "r = us ! l"
  have free: "ht_free h = take l us @ [r]"
    using l by (simp add: ht_free_def us_def [symmetric] r_def nat_add_distrib take_Suc_conv_app_nth)
  have r: "0 \<le> r" "r < ht_num_rooms h" "ht_item h r = Null" using d(7) free by auto
  have rlen: "nat r < length rs" "r < int (length rs)" using r d(2) by (auto simp: rs_def)
  let ?room = "\<lparr>rm_occupant = Ptr v, rm_pending = True\<rparr>"
  define h' where "h' = h\<lparr>ht_last_unoccupied_room := int l - 1, ht_rooms := Ptr (rs[nat r := ?room])\<rparr>"
  have eq: "opal_hotel_checkin h (Ptr v) r0 = Some (OPAL_SUCCESS, h', r)"
    using l r rlen d(9)
    by (simp add: opal_hotel_checkin_def cmem us_def [symmetric] rs_def [symmetric] r_def h'_def)
  have item: "ht_item h' = (ht_item h)(r := Ptr v)"
    using r rlen d(2) by (auto simp: ht_item_def h'_def fun_eq_iff rs_def [symmetric] nth_list_update)
  have free': "ht_free h' = take l us" by (simp add: ht_free_def h'_def us_def)
  have "set (ht_free h') = set (ht_free h) - {r}" using free free' d(6) by auto
  then have "set (ht_free h') = {i. 0 \<le> i \<and> i < ht_num_rooms h' \<and> ht_item h' i = Null}"
    using d(7) item by (auto simp: h'_def)
  moreover have "\<forall>x \<in> set (rs[nat r := ?room]). rm_pending x = (rm_occupant x \<noteq> Null)"
    using d(11) by (auto simp: rs_def dest!: subsetD [OF set_update_subset_insert])
  ultimately have "ht_wf h'"
    using d l free free' unfolding ht_wf_def by (auto simp: h'_def rs_def us_def)
  with eq r item free free' show ?thesis by (auto simp: h'_def)
qed

text \<open>A NULL occupant takes a room that a check-out does not return.\<close>

lemma checkin_null_lost:
  assumes wf: "ht_wf h" and room: "0 \<le> ht_last_unoccupied_room h"
  shows "\<exists>h' r. opal_hotel_checkin h Null r0 = Some (OPAL_SUCCESS, h', r) \<and> ht_item h' = ht_item h \<and> ht_item h' r = Null \<and>
           r \<notin> set (ht_free h') \<and> opal_hotel_checkout h' r = Some h'"
proof -
  note d = ht_wfD [OF wf]
  define l where "l = nat (ht_last_unoccupied_room h)"
  define us where "us = cells (ht_unoccupied_rooms h)"
  define rs where "rs = cells (ht_rooms h)"
  have l: "ht_last_unoccupied_room h = int l" "l < length us" using room d(3,5) by (auto simp: l_def us_def)
  define r where "r = us ! l"
  have free: "ht_free h = take l us @ [r]"
    using l by (simp add: ht_free_def us_def [symmetric] r_def nat_add_distrib take_Suc_conv_app_nth)
  have r: "0 \<le> r" "r < ht_num_rooms h" "ht_item h r = Null" using d(7) free by auto
  have rlen: "nat r < length rs" "r < int (length rs)" using r d(2) by (auto simp: rs_def)
  let ?room = "\<lparr>rm_occupant = Null, rm_pending = True\<rparr>"
  define h' where "h' = h\<lparr>ht_last_unoccupied_room := int l - 1, ht_rooms := Ptr (rs[nat r := ?room])\<rparr>"
  have "opal_hotel_checkin h Null r0 = Some (OPAL_SUCCESS, h', r)"
    using l r rlen d(9)
    by (simp add: opal_hotel_checkin_def cmem us_def [symmetric] rs_def [symmetric] r_def h'_def)
  moreover have "ht_item h' = ht_item h"
    using r rlen d(2) by (auto simp: ht_item_def h'_def fun_eq_iff rs_def [symmetric] nth_list_update)
  moreover have "r \<notin> set (ht_free h')" using d(6) free by (simp add: ht_free_def h'_def us_def)
  moreover have "opal_hotel_checkout h' r = Some h'" using r rlen by (simp add: opal_hotel_checkout_def cmem h'_def)
  ultimately show ?thesis using r(3) by auto
qed

lemma checkin_full:
  "ht_last_unoccupied_room h < 0 \<Longrightarrow>
   opal_hotel_checkin h v r0 = Some (OPAL_ERR_TEMP_OUT_OF_RESOURCE, h, r0)"
  by (simp add: opal_hotel_checkin_def)

text \<open>Checking out pushes the room back; an empty room is left alone.\<close>

lemma checkout_empty:
  assumes wf: "ht_wf h" and r: "0 \<le> r" "r < ht_num_rooms h" "ht_item h r = Null"
  shows "opal_hotel_checkout h r = Some h"
  using r ht_wfD(2) [OF wf] by (simp add: opal_hotel_checkout_def cmem ht_item_def)

lemma checkout_ok:
  assumes wf: "ht_wf h" and used: "ht_item h r \<noteq> Null"
  shows "\<exists>h'. opal_hotel_checkout h r = Some h' \<and> ht_wf h' \<and> ht_item h' = (ht_item h)(r := Null) \<and>
           ht_num_rooms h' = ht_num_rooms h \<and> ht_free h' = ht_free h @ [r] \<and>
           ht_eviction_args h' = ht_eviction_args h"
proof -
  note d = ht_wfD [OF wf]
  define l where "l = nat (ht_last_unoccupied_room h + 1)"
  define us where "us = cells (ht_unoccupied_rooms h)"
  define rs where "rs = cells (ht_rooms h)"
  have r: "0 \<le> r" "r < ht_num_rooms h" using used by (auto simp: ht_item_def split: if_splits)
  have rlen: "nat r < length rs" "r < int (length rs)" using r d(2) by (auto simp: rs_def)
  have free: "ht_free h = take l us" by (simp add: ht_free_def l_def us_def)
  have "r \<notin> set (ht_free h)" using used d(7) by auto
  moreover have "set (ht_free h) \<subseteq> {0..<ht_num_rooms h}" unfolding d(7) by auto
  ultimately have "set (ht_free h) \<subset> {0..<ht_num_rooms h}" using r by force
  then have "card (set (ht_free h)) < card {0..<ht_num_rooms h}"
    by (rule psubset_card_mono [rotated]) simp
  then have "length (take l us) < nat (ht_num_rooms h)" using d(6) free by (simp add: distinct_card)
  moreover have "length us = nat (ht_num_rooms h)" using d(3) by (simp add: us_def)
  ultimately have "l < length us" by auto
  moreover have "ht_last_unoccupied_room h + 1 = int l" using d(4) by (simp add: l_def)
  ultimately have l: "l < length us" "ht_last_unoccupied_room h + 1 = int l" by blast+
  let ?room = "\<lparr>rm_occupant = Null, rm_pending = False\<rparr>"
  define h' where "h' = h\<lparr>ht_rooms := Ptr (rs[nat r := ?room]), ht_last_unoccupied_room := int l,
                         ht_unoccupied_rooms := Ptr (us[l := r])\<rparr>"
  have occ: "rm_occupant (rs ! nat r) \<noteq> Null" using used r by (simp add: ht_item_def rs_def)
  have eq: "opal_hotel_checkout h r = Some h'"
    using r rlen l occ d(9,10)
    by (simp add: opal_hotel_checkout_def cmem rs_def [symmetric] us_def [symmetric] h'_def)
  have item: "ht_item h' = (ht_item h)(r := Null)"
    using r rlen d(2) by (auto simp: ht_item_def h'_def fun_eq_iff rs_def [symmetric] nth_list_update)
  have free': "ht_free h' = take l us @ [r]"
    using l by (simp add: ht_free_def h'_def nat_add_distrib take_Suc_conv_app_nth)
  have "set (ht_free h') = {i. 0 \<le> i \<and> i < ht_num_rooms h' \<and> ht_item h' i = Null}"
    using d(7) item free free' r by (auto simp: h'_def)
  moreover have "\<forall>x \<in> set (rs[nat r := ?room]). rm_pending x = (rm_occupant x \<noteq> Null)"
    using d(11) by (auto simp: rs_def dest!: subsetD [OF set_update_subset_insert])
  moreover have "distinct (ht_free h')" using free free' d(6) \<open>r \<notin> set (ht_free h)\<close> by simp
  ultimately have "ht_wf h'"
    using d l unfolding ht_wf_def by (auto simp: h'_def rs_def us_def)
  with eq item free free' show ?thesis by (auto simp: h'_def)
qed

lemma eviction_ok:
  assumes wf: "ht_wf h" and used: "ht_item h r \<noteq> Null"
  shows "\<exists>h'. local_eviction_callback h r = Some (h', r, ht_item h r) \<and> ht_wf h' \<and>
           ht_item h' = (ht_item h)(r := Null) \<and> ht_num_rooms h' = ht_num_rooms h"
proof -
  note d = ht_wfD [OF wf]
  have r: "0 \<le> r" "r < ht_num_rooms h" using used by (auto simp: ht_item_def split: if_splits)
  then have "nat r < length (cells (ht_rooms h))" using d(2) by simp
  then have "aget (cells (ht_eviction_args h)) r = Some r" using r d(2,8) by (simp add: cmem)
  moreover have "aget (cells (ht_rooms h)) r = Some (cells (ht_rooms h) ! nat r)"
    using r d(2) by (simp add: cmem)
  ultimately show ?thesis
    using checkout_ok [OF wf used] r by (auto simp: local_eviction_callback_def ht_item_def)
qed

lemma hotel_init_ok:
  assumes "0 < n"
  shows "\<exists>h'. opal_hotel_init (Ptr a) (Ptr b) (Ptr c) h n timeout True = Some (OPAL_SUCCESS, h') \<and>
           ht_wf h' \<and> ht_num_rooms h' = n \<and> ht_item h' = (\<lambda>_. Null)"
proof -
  let ?e = "\<lparr>rm_occupant = Null, rm_pending = False\<rparr>"
  let ?body = "\<lambda>i (rooms, unocc, args). do {
      rooms' \<leftarrow> aset rooms i ?e; unocc' \<leftarrow> aset unocc i i; args' \<leftarrow> aset args i i;
      Some (rooms', unocc', args') }"
  let ?N = "nat n"
  let ?P = "\<lambda>k (rooms, unocc, args). length rooms = ?N \<and> length unocc = ?N \<and> length args = ?N \<and>
      (\<forall>i < nat k. rooms ! i = ?e \<and> unocc ! i = int i \<and> args ! i = int i)"
  have "\<exists>s. for_loop 0 n ?body (replicate ?N a, replicate ?N c, replicate ?N b) = Some s \<and> ?P n s"
  proof (rule for_loop_rule [where P = ?P])
    fix k s assume k: "0 \<le> k" "k < n" and P: "?P k s"
    obtain rooms unocc args where s: "s = (rooms, unocc, args)" by (cases s)
    have "?body k s = Some (rooms[nat k := ?e], unocc[nat k := k], args[nat k := k])"
      using k P s by (simp add: cmem)
    moreover have "?P (k + 1) (rooms[nat k := ?e], unocc[nat k := k], args[nat k := k])"
      using k P s by (auto simp: nth_list_update nat_add_distrib less_Suc_eq)
    ultimately show "\<exists>s'. ?body k s = Some s' \<and> ?P (k + 1) s'" by blast
  qed (use assms in auto)
  then obtain rooms unocc args where
    loop: "for_loop 0 n ?body (replicate ?N a, replicate ?N c, replicate ?N b) = Some (rooms, unocc, args)"
    and P: "?P n (rooms, unocc, args)" by (auto simp: split_paired_all)
  have eqs: "rooms = replicate ?N ?e" "unocc = map int [0..<?N]" "args = map int [0..<?N]"
    using P by (auto intro: nth_equalityI)
  define h' where "h' = h\<lparr>ht_num_rooms := n, ht_tv_usec := uint timeout mod 1000000,
      ht_tv_sec := uint timeout div 1000000, ht_has_callback := True, ht_rooms := Ptr rooms,
      ht_eviction_args := Ptr args, ht_unoccupied_rooms := Ptr unocc, ht_last_unoccupied_room := n - 1\<rparr>"
  have "opal_hotel_init (Ptr a) (Ptr b) (Ptr c) h n timeout True = Some (OPAL_SUCCESS, h')"
    using assms loop by (simp add: opal_hotel_init_def ht_alloc_def Let_def h'_def)
  moreover have item: "ht_item h' = (\<lambda>_. Null)"
    using assms by (auto simp: ht_item_def h'_def eqs)
  moreover have "set (ht_free h') = {0..<n}"
    using assms by (simp add: ht_free_def h'_def eqs image_int_atLeastLessThan)
  then have "ht_wf h'" unfolding ht_wf_def
    using assms item by (auto simp: h'_def eqs ht_free_def distinct_map inj_on_def)
  ultimately show ?thesis by (auto simp: h'_def)
qed

lemma hotel_step_wf: "hotel_step h h' \<Longrightarrow> ht_wf h \<Longrightarrow> ht_wf h' \<and> ht_num_rooms h' = ht_num_rooms h"
proof (erule hotel_stepE)
  fix v r0 rc r assume wf: "ht_wf h" and c: "opal_hotel_checkin h (Ptr v) r0 = Some (rc, h', r)"
  show ?thesis
  proof (cases "0 \<le> ht_last_unoccupied_room h")
    case True
    then show ?thesis using checkin_ok [OF wf True, of v r0] c by auto
  next
    case False
    then show ?thesis using checkin_full [of h "Ptr v" r0] c wf by simp
  qed
next
  fix r assume "ht_wf h" "0 \<le> r" "r < ht_num_rooms h" "opal_hotel_checkout h r = Some h'"
  then show ?thesis using checkout_ok [of h r] checkout_empty [of h r] by (cases "ht_item h r = Null") auto
next
  fix r n v assume "ht_wf h" "ht_item h r \<noteq> Null" "local_eviction_callback h r = Some (h', n, v)"
  then show ?thesis using eviction_ok [of h r] by auto
qed

lemma hotel_reach_wf:
  "hotel_reach h0 h \<Longrightarrow> ht_wf h0 \<Longrightarrow> ht_wf h \<and> ht_num_rooms h = ht_num_rooms h0"
  by (induction rule: hotel_reach.induct) (auto dest: hotel_step_wf)

section \<open>The handle-table interface\<close>

definition ht_acquire :: "'v opal_hotel \<Rightarrow> 'v \<Rightarrow> ('v opal_hotel \<times> int) option" where
  "ht_acquire h v =
     (case opal_hotel_checkin h (Ptr v) 0 of
        Some (rc, h', r) \<Rightarrow> if rc = OPAL_SUCCESS then Some (h', r) else None
      | None \<Rightarrow> None)"

lemma ht_acquire_cases:
  assumes wf: "ht_wf h" and acq: "ht_acquire h v = Some (h', r)"
  shows "ht_wf h' \<and> ht_item h r = Null \<and> ht_item h' = (ht_item h)(r := Ptr v)"
proof -
  have c: "opal_hotel_checkin h (Ptr v) 0 = Some (OPAL_SUCCESS, h', r)"
    using acq by (auto simp: ht_acquire_def split: option.splits if_splits)
  then have "0 \<le> ht_last_unoccupied_room h"
    using checkin_full [of h "Ptr v" 0] by (cases "ht_last_unoccupied_room h < 0") (auto simp: opal_rc)
  with checkin_ok [OF wf this, of v 0] c show ?thesis by auto
qed

interpretation hts: slot_table_release ht_wf ht_item ht_acquire opal_hotel_checkout
proof unfold_locales
  fix h h' :: "'a opal_hotel" and v r
  assume "ht_wf h" "ht_acquire h v = Some (h', r)"
  then show "ht_wf h'" "ht_item h r = Null" "ht_item h' = (ht_item h)(r := Ptr v)"
    using ht_acquire_cases [of h v h' r] by simp_all
next
  fix h :: "'a opal_hotel" and r
  assume "ht_wf h" "ht_item h r \<noteq> Null"
  then show "\<exists>h'. opal_hotel_checkout h r = Some h' \<and> ht_wf h' \<and> ht_item h' = (ht_item h)(r := Null)"
    using checkout_ok [of h r] by blast
qed

section \<open>Properties\<close>

text \<open>C25: From a freshly initialised hotel, whatever check-ins, check-outs and timer evictions
  of occupants other than NULL follow, the stack of unoccupied rooms lists every empty room
  exactly once and a room's eviction timer is pending exactly while it is occupied; and the next
  operation, a check-in, the check-out of any room number in range or the eviction of any occupied
  room, stays inside the arrays and returns, the eviction with the occupant of the room. The
  header calls the occupant opaque, but a NULL occupant takes a room that checking out never
  returns.\<close>

theorem hotel_reachable_invariant:
  assumes "opal_hotel_init (Ptr a) (Ptr b) (Ptr c) h n timeout True = Some (OPAL_SUCCESS, h0)"
    and "hotel_reach h0 h1"
  shows "ht_wf h1 \<and> ht_num_rooms h1 = n \<and> distinct (ht_free h1) \<and>
         set (ht_free h1) = {r. 0 \<le> r \<and> r < n \<and> ht_item h1 r = Null} \<and>
         (\<forall>r. 0 \<le> r \<and> r < n \<longrightarrow> rm_pending (cells (ht_rooms h1) ! nat r) = (ht_item h1 r \<noteq> Null)) \<and>
         (\<exists>rc h2 r. opal_hotel_checkin h1 (Ptr v) r0 = Some (rc, h2, r) \<and> hotel_step h1 h2) \<and>
         (\<forall>r. 0 \<le> r \<and> r < n \<longrightarrow> (\<exists>h2. opal_hotel_checkout h1 r = Some h2 \<and> hotel_step h1 h2)) \<and>
         (\<forall>r. ht_item h1 r \<noteq> Null \<longrightarrow> (\<exists>h2. local_eviction_callback h1 r = Some (h2, r, ht_item h1 r) \<and> hotel_step h1 h2)) \<and>
         (ht_free h1 \<noteq> [] \<longrightarrow> (\<exists>h2 r. opal_hotel_checkin h1 Null r0 = Some (OPAL_SUCCESS, h2, r) \<and> ht_item h2 r = Null \<and>
            r \<notin> set (ht_free h2) \<and> opal_hotel_checkout h2 r = Some h2))"
proof -
  have "0 < n" using assms(1) by (auto simp: opal_hotel_init_def opal_rc split: if_splits)
  then have "ht_wf h0" "ht_num_rooms h0 = n"
    using hotel_init_ok [of n a b c h timeout] assms(1) by auto
  then have wf: "ht_wf h1" "ht_num_rooms h1 = n" using hotel_reach_wf [OF assms(2)] by auto
  moreover have "rm_pending (cells (ht_rooms h1) ! nat r) = (ht_item h1 r \<noteq> Null)" if "0 \<le> r \<and> r < n" for r
    using that wf ht_wfD(2,11) [OF wf(1)] by (simp add: ht_item_def nat_less_iff)
  moreover have "\<exists>rc h2 r. opal_hotel_checkin h1 (Ptr v) r0 = Some (rc, h2, r) \<and> hotel_step h1 h2"
  proof -
    have "\<exists>rc h2 r. opal_hotel_checkin h1 (Ptr v) r0 = Some (rc, h2, r)"
      using checkin_ok [OF wf(1), of v r0] checkin_full [of h1 "Ptr v" r0] by (cases "0 \<le> ht_last_unoccupied_room h1") auto
    then show ?thesis by (blast intro: hotel_step.checkin)
  qed
  moreover have "\<exists>h2. opal_hotel_checkout h1 r = Some h2 \<and> hotel_step h1 h2" if r: "0 \<le> r \<and> r < n" for r
  proof -
    have "\<exists>h2. opal_hotel_checkout h1 r = Some h2"
      using r wf checkout_ok [OF wf(1), of r] checkout_empty [OF wf(1), of r] by (cases "ht_item h1 r = Null") auto
    then show ?thesis using r wf(2) hotel_step.checkout [of r h1] by blast
  qed
  moreover have "\<exists>h2. local_eviction_callback h1 r = Some (h2, r, ht_item h1 r) \<and> hotel_step h1 h2" if "ht_item h1 r \<noteq> Null" for r
    using eviction_ok [OF wf(1) that] hotel_step.evict [OF that] by blast
  moreover have "\<exists>h2 r. opal_hotel_checkin h1 Null r0 = Some (OPAL_SUCCESS, h2, r) \<and> ht_item h2 r = Null \<and>
      r \<notin> set (ht_free h2) \<and> opal_hotel_checkout h2 r = Some h2" if "ht_free h1 \<noteq> []"
  proof -
    have "0 \<le> ht_last_unoccupied_room h1" using that by (auto simp: ht_free_def split: if_splits intro: ccontr)
    then show ?thesis using checkin_null_lost [OF wf(1), of r0] by blast
  qed
  ultimately show ?thesis using ht_wfD(6,7) [OF wf(1)] by simp
qed

theorem hotel_reachable_invariant_witness:
  "\<exists>h0 h1. opal_hotel_init (Ptr \<lparr>rm_occupant = Null, rm_pending = True\<rparr>) (Ptr 9) (Ptr 9)
             (opal_hotel_constructor :: nat opal_hotel) 2 5 True = Some (OPAL_SUCCESS, h0) \<and>
           hotel_reach h0 h1 \<and> ht_item h1 1 = Ptr 7 \<and> ht_wf h1"
proof -
  let ?m = "Ptr \<lparr>rm_occupant = Null, rm_pending = True\<rparr>"
  obtain h0 where h0: "opal_hotel_init ?m (Ptr 9) (Ptr 9) (opal_hotel_constructor :: nat opal_hotel) 2 5 True =
      Some (OPAL_SUCCESS, h0)" "ht_wf h0" using hotel_init_ok [of 2] by fastforce
  have "map_option (\<lambda>(rc, h). opal_hotel_checkin h (Ptr 7) 0)
      (opal_hotel_init ?m (Ptr 9) (Ptr 9) (opal_hotel_constructor :: nat opal_hotel) 2 5 True) =
      Some (Some (OPAL_SUCCESS, \<lparr>ht_num_rooms = 2, ht_tv_sec = 0, ht_tv_usec = 5, ht_has_callback = True,
        ht_rooms = Ptr [\<lparr>rm_occupant = Null, rm_pending = False\<rparr>, \<lparr>rm_occupant = Ptr 7, rm_pending = True\<rparr>],
        ht_eviction_args = Ptr [0, 1], ht_unoccupied_rooms = Ptr [0, 1], ht_last_unoccupied_room = 0\<rparr>, 1))"
    by code_simp
  with h0(1) obtain h1 where h1: "opal_hotel_checkin h0 (Ptr 7) 0 = Some (OPAL_SUCCESS, h1, 1)"
    "ht_item h1 1 = Ptr 7" by (auto simp: ht_item_def)
  have "hotel_reach h0 h1" using h1(1) hotel_reach.intros hotel_step.checkin by metis
  with hotel_reachable_invariant [OF h0(1) this] h0 h1 show ?thesis by blast
qed

text \<open>When a room's timer expires, local_eviction_callback hands the user's callback that room
  and its occupant, empties the room and makes it available again; the other rooms are
  unchanged.\<close>

theorem eviction_frees_the_room:
  assumes "ht_wf h" and "ht_item h r = Ptr v"
  shows "\<exists>h'. local_eviction_callback h r = Some (h', r, Ptr v) \<and> ht_wf h' \<and>
           ht_item h' = (ht_item h)(r := Null) \<and> r \<in> set (ht_free h')"
proof -
  have r: "0 \<le> r" "r < ht_num_rooms h" using assms(2) by (auto simp: ht_item_def split: if_splits)
  obtain h' where "local_eviction_callback h r = Some (h', r, Ptr v)" "ht_wf h'"
    "ht_item h' = (ht_item h)(r := Null)" "ht_num_rooms h' = ht_num_rooms h"
    using eviction_ok [OF assms(1), of r] assms(2) by auto
  with r ht_wfD(7) show ?thesis by fastforce
qed

theorem eviction_frees_the_room_witness:
  "\<exists>h'. local_eviction_callback \<lparr>ht_num_rooms = 1, ht_tv_sec = 0, ht_tv_usec = 5, ht_has_callback = True,
      ht_rooms = Ptr [\<lparr>rm_occupant = Ptr ''x'', rm_pending = True\<rparr>],
      ht_eviction_args = Ptr [0], ht_unoccupied_rooms = Ptr [0], ht_last_unoccupied_room = - 1\<rparr> 0 =
      Some (h', 0, Ptr ''x'') \<and> ht_wf h'"
proof -
  let ?h = "\<lparr>ht_num_rooms = 1, ht_tv_sec = 0, ht_tv_usec = 5, ht_has_callback = True,
      ht_rooms = Ptr [\<lparr>rm_occupant = Ptr ''x'', rm_pending = True\<rparr>],
      ht_eviction_args = Ptr [0], ht_unoccupied_rooms = Ptr [0], ht_last_unoccupied_room = - 1\<rparr>"
  have "ht_wf ?h" by (auto simp: ht_wf_def ht_free_def ht_item_def)
  moreover have "ht_item ?h 0 = Ptr ''x''" by (simp add: ht_item_def)
  ultimately show ?thesis using eviction_frees_the_room [of ?h 0 "''x''"] by blast
qed

end
