(* ===== verification/Ring_Buffer.thy ===== *)
theory Ring_Buffer
  imports Opal_Prelude
begin

text \<open>
  \<^verbatim>\<open>opal/class/opal_ring_buffer.c\<close>: a ring of pointers with a head (the next cell to
  write) and a tail (the oldest entry, or -1 when the ring is empty). Each operation holds the
  ring's lock, so it is one atomic step. The abstraction \<open>rb_list\<close> lists the entries from the
  oldest to the newest.
\<close>

section \<open>Data and operations\<close>

record 'v opal_ring_buffer =
  rb_head :: int
  rb_tail :: int
  rb_size :: int
  rb_addr :: "'v ptr list ptr"

definition opal_ring_buffer_construct :: "'v opal_ring_buffer" where
  "opal_ring_buffer_construct = \<lparr>rb_head = 0, rb_tail = - 1, rb_size = 0, rb_addr = Null\<rparr>"

definition opal_ring_buffer_destruct :: "'v opal_ring_buffer \<Rightarrow> 'v opal_ring_buffer" where
  "opal_ring_buffer_destruct ring =
     (let r1 = (if rb_addr ring \<noteq> Null then ring\<lparr>rb_addr := Null\<rparr> else ring) in r1\<lparr>rb_size := 0\<rparr>)"

definition opal_ring_buffer_init ::
    "bool \<Rightarrow> 'v opal_ring_buffer ptr \<Rightarrow> int \<Rightarrow> int \<times> 'v opal_ring_buffer ptr" where
  "opal_ring_buffer_init calloc_ok ring sz =
     (case ring of
        Null \<Rightarrow> (OPAL_ERR_BAD_PARAM, ring)
      | Ptr r \<Rightarrow>
          if calloc_ok \<and> 0 \<le> sz
          then (OPAL_SUCCESS, Ptr (r\<lparr>rb_addr := Ptr (replicate (nat sz) Null), rb_size := sz\<rparr>))
          else (OPAL_ERR_OUT_OF_RESOURCE, Ptr (r\<lparr>rb_addr := Null\<rparr>)))"

definition opal_ring_buffer_push ::
    "'v opal_ring_buffer \<Rightarrow> 'v ptr \<Rightarrow> ('v ptr \<times> 'v opal_ring_buffer) option" where
  "opal_ring_buffer_push ring ptr = do {
     p \<leftarrow> aget (cells (rb_addr ring)) (rb_head ring);
     let r1 = (if p \<noteq> Null
               then ring\<lparr>rb_tail := (if rb_tail ring = rb_size ring - 1 then 0 else rb_head ring + 1)\<rparr>
               else ring);
     addr \<leftarrow> aset (cells (rb_addr r1)) (rb_head r1) ptr;
     let r2 = r1\<lparr>rb_addr := put_cells (rb_addr r1) addr\<rparr>;
     let r3 = (if rb_tail r2 < 0 then r2\<lparr>rb_tail := rb_head r2\<rparr> else r2);
     Some (p, r3\<lparr>rb_head := (if rb_head r3 = rb_size r3 - 1 then 0 else rb_head r3 + 1)\<rparr>) }"

definition opal_ring_buffer_pop ::
    "'v opal_ring_buffer \<Rightarrow> ('v ptr \<times> 'v opal_ring_buffer) option" where
  "opal_ring_buffer_pop ring =
     (if - 1 = rb_tail ring then Some (Null, ring)
      else do {
        p \<leftarrow> aget (cells (rb_addr ring)) (rb_tail ring);
        addr \<leftarrow> aset (cells (rb_addr ring)) (rb_tail ring) Null;
        let r1 = ring\<lparr>rb_addr := put_cells (rb_addr ring) addr,
                      rb_tail := (if rb_tail ring = rb_size ring - 1 then 0 else rb_tail ring + 1)\<rparr>;
        Some (p, if rb_tail r1 = rb_head r1 then r1\<lparr>rb_tail := - 1\<rparr> else r1) })"

definition opal_ring_buffer_poke :: "'v opal_ring_buffer \<Rightarrow> int \<Rightarrow> 'v ptr option" where
  "opal_ring_buffer_poke ring i =
     (if rb_size ring \<le> i \<or> - 1 = rb_tail ring then Some Null
      else if i < 0 then
        (if rb_head ring = 0 then aget (cells (rb_addr ring)) (rb_size ring - 1)
         else aget (cells (rb_addr ring)) (rb_head ring - 1))
      else do {
        offset \<leftarrow> cint (rb_tail ring + i);
        aget (cells (rb_addr ring)) (if rb_size ring \<le> offset then offset - rb_size ring else offset) })"

section \<open>Invariant and abstraction\<close>

text \<open>Position \<open>k\<close> cells after cell \<open>t\<close> in a ring of \<open>s\<close> cells.\<close>

definition rb_pos :: "int \<Rightarrow> int \<Rightarrow> int \<Rightarrow> int" where
  "rb_pos s t k = (if t + k < s then t + k else t + k - s)"

definition rb_start :: "'v opal_ring_buffer \<Rightarrow> int" where
  "rb_start r = (if rb_tail r = - 1 then rb_head r else rb_tail r)"

definition rb_count :: "'v opal_ring_buffer \<Rightarrow> int" where
  "rb_count r =
     (if rb_tail r = - 1 then 0
      else if rb_tail r < rb_head r then rb_head r - rb_tail r
      else rb_head r - rb_tail r + rb_size r)"

definition rb_list :: "'v opal_ring_buffer \<Rightarrow> 'v ptr list" where
  "rb_list r =
     map (\<lambda>k. cells (rb_addr r) ! nat (rb_pos (rb_size r) (rb_start r) (int k))) [0..<nat (rb_count r)]"

text \<open>The ring holds \<open>xs\<close> from cell \<open>t\<close> on, and NULL everywhere else.\<close>

definition rb_rep :: "'v opal_ring_buffer \<Rightarrow> int \<Rightarrow> 'v ptr list \<Rightarrow> bool" where
  "rb_rep r t xs \<longleftrightarrow>
     rb_addr r \<noteq> Null \<and> int (length (cells (rb_addr r))) = rb_size r \<and> rb_size r * 2 \<le> INT_MAX \<and>
     0 \<le> t \<and> t < rb_size r \<and> int (length xs) \<le> rb_size r \<and> Null \<notin> set xs \<and>
     rb_head r = rb_pos (rb_size r) t (int (length xs)) \<and>
     rb_tail r = (if xs = [] then - 1 else t) \<and>
     (\<forall>k < nat (rb_size r). cells (rb_addr r) ! nat (rb_pos (rb_size r) t (int k)) =
                            (if k < length xs then xs ! k else Null))"

definition rb_wf :: "'v opal_ring_buffer \<Rightarrow> bool" where
  "rb_wf r \<longleftrightarrow> rb_rep r (rb_start r) (rb_list r)"

section \<open>Lemmas\<close>

lemma rb_pos_range: "0 \<le> t \<Longrightarrow> t < s \<Longrightarrow> 0 \<le> k \<Longrightarrow> k \<le> s \<Longrightarrow> 0 \<le> rb_pos s t k \<and> rb_pos s t k < s"
  by (auto simp: rb_pos_def)

lemma rb_pos_inj:
  "0 \<le> t \<Longrightarrow> t < s \<Longrightarrow> 0 \<le> k \<Longrightarrow> k < s \<Longrightarrow> 0 \<le> l \<Longrightarrow> l < s \<Longrightarrow>
   (nat (rb_pos s t k) = nat (rb_pos s t l)) = (k = l)"
  by (auto simp: rb_pos_def)

lemma rb_rep_abs:
  assumes "rb_rep r t xs"
  shows "rb_start r = t" and "rb_count r = int (length xs)" and "rb_list r = xs"
proof -
  show start: "rb_start r = t" using assms by (auto simp: rb_rep_def rb_start_def rb_pos_def)
  show cnt: "rb_count r = int (length xs)"
    using assms by (auto simp: rb_rep_def rb_count_def rb_pos_def)
  have "k < nat (rb_size r)" if "k < length xs" for k using that assms by (auto simp: rb_rep_def)
  then show "rb_list r = xs"
    unfolding rb_list_def start cnt using assms by (auto simp: rb_rep_def intro!: nth_equalityI)
qed

lemma rb_rep_wf: "rb_rep r t xs \<Longrightarrow> rb_wf r"
  by (simp add: rb_wf_def rb_rep_abs)

lemma rb_wfE:
  assumes "rb_wf r"
  obtains t cs where "rb_rep r t (rb_list r)" "rb_addr r = Ptr cs" "int (length cs) = rb_size r"
    "0 \<le> t" "t < rb_size r"
  using assms by (cases "rb_addr r") (auto simp: rb_wf_def rb_rep_def)

text \<open>
  One cell further round the ring. Moving the start of a full ring of which the oldest entry is
  dropped re-indexes every cell.
\<close>

lemma rb_pos_Suc: "0 \<le> t \<Longrightarrow> t < s \<Longrightarrow> 0 \<le> k \<Longrightarrow> k < s \<Longrightarrow>
    rb_pos s t (k + 1) = (if rb_pos s t k = s - 1 then 0 else rb_pos s t k + 1)"
  by (auto simp: rb_pos_def)

lemma rb_pos_shift: "0 \<le> t \<Longrightarrow> t < s \<Longrightarrow> 0 \<le> k \<Longrightarrow> k < s \<Longrightarrow>
    rb_pos s (rb_pos s t 1) k = (if k = s - 1 then t else rb_pos s t (k + 1))"
  by (auto simp: rb_pos_def)

lemma push_not_full:
  assumes rep: "rb_rep r t xs" and room: "int (length xs) < rb_size r"
  shows "\<exists>r'. opal_ring_buffer_push r (Ptr v) = Some (Null, r') \<and> rb_rep r' t (xs @ [Ptr v]) \<and>
           rb_size r' = rb_size r"
proof -
  let ?s = "rb_size r"
  let ?h = "rb_pos ?s t (int (length xs))"
  from rep obtain cs where cs: "rb_addr r = Ptr cs" "int (length cs) = ?s"
    by (cases "rb_addr r") (auto simp: rb_rep_def)
  have t: "0 \<le> t" "t < ?s" using rep by (auto simp: rb_rep_def)
  have at: "cs ! nat (rb_pos ?s t (int k)) = (if k < length xs then xs ! k else Null)"
    if "k < nat ?s" for k using rep cs that by (auto simp: rb_rep_def)
  have h: "rb_head r = ?h" "0 \<le> ?h" "?h < ?s"
    using rep rb_pos_range [OF t, of "int (length xs)"] room by (auto simp: rb_rep_def)
  have free: "cs ! nat ?h = Null" using at [of "length xs"] room by simp
  let ?r = "r\<lparr>rb_addr := Ptr (cs[nat ?h := Ptr v]), rb_tail := t,
              rb_head := rb_pos ?s t (int (length xs) + 1)\<rparr>"
  have "opal_ring_buffer_push r (Ptr v) = Some (Null, ?r)"
    using h cs free rep room t rb_pos_Suc [OF t, of "int (length xs)"]
    by (auto simp: opal_ring_buffer_push_def cmem rb_rep_def rb_pos_def split: if_splits)
  moreover have "cs[nat ?h := Ptr v] ! nat (rb_pos ?s t (int k)) =
      (if k < Suc (length xs) then (xs @ [Ptr v]) ! k else Null)" if k: "k < nat ?s" for k
    using at [OF k] rb_pos_inj [OF t, of "int k" "int (length xs)"] rb_pos_range [OF t, of "int k"] k room cs h
    by (auto simp: nth_list_update nth_append)
  then have "rb_rep ?r t (xs @ [Ptr v])"
    using rep room cs by (auto simp: rb_rep_def add.commute)
  ultimately show ?thesis by auto
qed

lemma push_full:
  assumes rep: "rb_rep r t (x # xs)" and full: "int (length (x # xs)) = rb_size r"
  shows "\<exists>r'. opal_ring_buffer_push r (Ptr v) = Some (x, r') \<and>
           rb_rep r' (rb_pos (rb_size r) t 1) (xs @ [Ptr v]) \<and> rb_size r' = rb_size r"
proof -
  let ?s = "rb_size r"
  from rep obtain cs where cs: "rb_addr r = Ptr cs" "int (length cs) = ?s"
    by (cases "rb_addr r") (auto simp: rb_rep_def)
  have t: "0 \<le> t" "t < ?s" using rep by (auto simp: rb_rep_def)
  have at: "cs ! nat (rb_pos ?s t (int k)) = (x # xs) ! k"
    if "k < nat ?s" for k using rep cs that full by (auto simp: rb_rep_def)
  have h: "rb_head r = t" "rb_tail r = t" using rep full by (auto simp: rb_rep_def rb_pos_def)
  have first: "cs ! nat t = x" using at [of 0] t by (simp add: rb_pos_def)
  have xn: "x \<noteq> Null" using rep by (auto simp: rb_rep_def)
  let ?t = "rb_pos ?s t 1"
  let ?r = "r\<lparr>rb_addr := Ptr (cs[nat t := Ptr v]), rb_tail := ?t, rb_head := ?t\<rparr>"
  have "opal_ring_buffer_push r (Ptr v) = Some (x, ?r)"
    using h cs first xn t
    by (auto simp: opal_ring_buffer_push_def cmem rb_pos_def split: if_splits)
  moreover have "cs[nat t := Ptr v] ! nat (rb_pos ?s ?t (int k)) = (xs @ [Ptr v]) ! k"
    if k: "k < nat ?s" for k
  proof (cases "int k = ?s - 1")
    case True
    then show ?thesis using rb_pos_shift [OF t, of "int k"] full cs t by (auto simp: nth_append)
  next
    case False
    then have "rb_pos ?s ?t (int k) = rb_pos ?s t (int (Suc k))" "Suc k < nat ?s"
      using rb_pos_shift [OF t, of "int k"] k by (auto simp: add.commute)
    moreover have "nat (rb_pos ?s t (int (Suc k))) \<noteq> nat t"
      using rb_pos_inj [OF t, of "int (Suc k)" 0] \<open>Suc k < nat ?s\<close> t by (simp add: rb_pos_def)
    ultimately show ?thesis using at [of "Suc k"] full k False by (auto simp: nth_append)
  qed
  then have "rb_rep ?r ?t (xs @ [Ptr v])"
    using rep full cs rb_pos_range [OF t, of 1] t by (auto simp: rb_rep_def rb_pos_def)
  ultimately show ?thesis by auto
qed

lemma pop_ok:
  assumes rep: "rb_rep r t (x # xs)"
  shows "\<exists>r'. opal_ring_buffer_pop r = Some (x, r') \<and> rb_rep r' (rb_pos (rb_size r) t 1) xs \<and>
           rb_size r' = rb_size r"
proof -
  let ?s = "rb_size r"
  let ?t = "rb_pos ?s t 1"
  let ?n = "int (length (x # xs))"
  from rep obtain cs where cs: "rb_addr r = Ptr cs" "int (length cs) = ?s"
    by (cases "rb_addr r") (auto simp: rb_rep_def)
  have t: "0 \<le> t" "t < ?s" and n: "?n \<le> ?s" using rep by (auto simp: rb_rep_def)
  have at: "cs ! nat (rb_pos ?s t (int k)) = (if k < length (x # xs) then (x # xs) ! k else Null)"
    if "k < nat ?s" for k using rep cs that by (auto simp: rb_rep_def)
  have first: "cs ! nat t = x" using at [of 0] t by (simp add: rb_pos_def)
  have h: "rb_head r = rb_pos ?s t ?n" "rb_tail r = t" using rep by (auto simp: rb_rep_def)
  have t_eq: "?t = (if t = ?s - 1 then 0 else t + 1)" using t by (auto simp: rb_pos_def)
  have hd: "(?t = rb_head r) = (xs = [])" using t n h(1) by (auto simp: rb_pos_def)
  let ?r = "r\<lparr>rb_addr := Ptr (cs[nat t := Null]), rb_tail := (if xs = [] then - 1 else ?t)\<rparr>"
  have "opal_ring_buffer_pop r = Some (x, ?r)"
    using h(2) cs first t t_eq hd
    by (cases "t = ?s - 1"; cases "xs = []") (simp_all add: opal_ring_buffer_pop_def cmem)
  moreover have "cs[nat t := Null] ! nat (rb_pos ?s ?t (int k)) = (if k < length xs then xs ! k else Null)"
    if k: "k < nat ?s" for k
  proof (cases "int k = ?s - 1")
    case True
    then show ?thesis using rb_pos_shift [OF t, of "int k"] cs t n by auto
  next
    case False
    then have "rb_pos ?s ?t (int k) = rb_pos ?s t (int (Suc k))" "Suc k < nat ?s"
      using rb_pos_shift [OF t, of "int k"] k by (auto simp: add.commute)
    moreover have "nat (rb_pos ?s t (int (Suc k))) \<noteq> nat t"
      using rb_pos_inj [OF t, of "int (Suc k)" 0] \<open>Suc k < nat ?s\<close> t by (simp add: rb_pos_def)
    ultimately show ?thesis using at [of "Suc k"] by auto
  qed
  then have "rb_rep ?r ?t xs"
    using rep cs rb_pos_range [OF t, of 1] t n h(1) by (auto simp: rb_rep_def rb_pos_def)
  ultimately show ?thesis by auto
qed

lemma poke_ok:
  assumes rep: "rb_rep r t xs" and i: "0 \<le> i"
  shows "opal_ring_buffer_poke r i = Some (if i < int (length xs) then xs ! nat i else Null)"
proof -
  let ?s = "rb_size r"
  from rep obtain cs where cs: "rb_addr r = Ptr cs" "int (length cs) = ?s"
    by (cases "rb_addr r") (auto simp: rb_rep_def)
  have t: "0 \<le> t" "t < ?s" "int (length xs) \<le> ?s" "?s * 2 \<le> INT_MAX"
    and tl: "rb_tail r = (if xs = [] then - 1 else t)" using rep by (auto simp: rb_rep_def)
  show ?thesis
  proof (cases "?s \<le> i \<or> xs = []")
    case True
    then show ?thesis using t tl i by (auto simp: opal_ring_buffer_poke_def)
  next
    case False
    obtain k where k: "i = int k" using i nonneg_int_cases by blast
    have "cs ! nat (rb_pos ?s t (int k)) = (if k < length xs then xs ! k else Null)"
      using rep cs False k by (auto simp: rb_rep_def)
    then have "cs ! nat (rb_pos ?s t i) = (if i < int (length xs) then xs ! nat i else Null)"
      using k by simp
    moreover have "is_cint (t + i)" using t i False by (intro is_cintI) auto
    ultimately show ?thesis
      using False tl t i cs by (auto simp: opal_ring_buffer_poke_def cmem rb_pos_def)
  qed
qed

lemma poke_newest:
  assumes rep: "rb_rep r t xs" and "xs \<noteq> []" and i: "i < 0"
  shows "opal_ring_buffer_poke r i = Some (last xs)"
proof -
  let ?s = "rb_size r"
  from rep obtain cs where cs: "rb_addr r = Ptr cs" "int (length cs) = ?s"
    by (cases "rb_addr r") (auto simp: rb_rep_def)
  have t: "0 \<le> t" "t < ?s" "int (length xs) \<le> ?s" "rb_tail r = t"
    and h: "rb_head r = rb_pos ?s t (int (length xs))" using rep assms(2) by (auto simp: rb_rep_def)
  let ?k = "length xs - 1"
  have "cs ! nat (rb_pos ?s t (int ?k)) = last xs"
    using rep cs assms(2) t by (auto simp: rb_rep_def last_conv_nth dest: spec [of _ ?k])
  moreover have "rb_pos ?s t (int ?k) = (if rb_head r = 0 then ?s - 1 else rb_head r - 1)"
    using t h assms(2) by (cases xs) (auto simp: rb_pos_def)
  ultimately show ?thesis
    using t i cs h rb_pos_range [of t ?s "int (length xs)"]
    by (auto simp: opal_ring_buffer_poke_def cmem split: if_splits)
qed

section \<open>The interface: a queue that forgets its oldest entries\<close>

locale forgetful_queue =
  fixes inv :: "'q \<Rightarrow> bool" and cap :: "'q \<Rightarrow> nat" and entries :: "'q \<Rightarrow> 'a list"
    and push :: "'q \<Rightarrow> 'a \<Rightarrow> 'q option"
  assumes cap_pos: "inv q \<Longrightarrow> 0 < cap q"
    and bounded: "inv q \<Longrightarrow> length (entries q) \<le> cap q"
    and push_ok: "inv q \<Longrightarrow> \<exists>q'. push q x = Some q' \<and> inv q' \<and> cap q' = cap q \<and>
          entries q' = drop (Suc (length (entries q)) - cap q) (entries q @ [x])"
begin

fun push_all :: "'q \<Rightarrow> 'a list \<Rightarrow> 'q option" where
  "push_all q [] = Some q"
| "push_all q (x # xs) = Option.bind (push q x) (\<lambda>q'. push_all q' xs)"

text \<open>After any sequence of pushes the queue holds the most recent entries, in order.\<close>

lemma push_all_recent:
  "inv q \<Longrightarrow> \<exists>q'. push_all q xs = Some q' \<and> inv q' \<and> cap q' = cap q \<and>
     entries q' = drop (length (entries q @ xs) - cap q) (entries q @ xs)"
proof (induction xs arbitrary: q)
  case Nil
  then show ?case using bounded [of q] by simp
next
  case (Cons x xs)
  then obtain q1 where q1: "push q x = Some q1" "inv q1" "cap q1 = cap q"
    "entries q1 = drop (Suc (length (entries q)) - cap q) (entries q @ [x])" using push_ok by blast
  obtain q2 where q2: "push_all q1 xs = Some q2" "inv q2" "cap q2 = cap q1"
    "entries q2 = drop (length (entries q1 @ xs) - cap q1) (entries q1 @ xs)"
    using Cons.IH [OF q1(2)] by blast
  let ?d = "Suc (length (entries q)) - cap q"
  have "Suc 0 - cap q = 0" using cap_pos [OF Cons.prems] by simp
  then have "entries q1 @ xs = drop ?d (entries q @ x # xs)"
    using q1(4) bounded [OF Cons.prems] by simp
  moreover have "length (entries q1 @ xs) - cap q + ?d = length (entries q @ x # xs) - cap q"
    using q1(4) bounded [OF Cons.prems] by auto
  ultimately have "entries q2 = drop (length (entries q @ x # xs) - cap q) (entries q @ x # xs)"
    unfolding q2(4) q1(3) by (simp only: drop_drop add.commute)
  with q1 q2 show ?case by auto
qed

end

definition rb_push :: "'v opal_ring_buffer \<Rightarrow> 'v \<Rightarrow> 'v opal_ring_buffer option" where
  "rb_push r v = map_option snd (opal_ring_buffer_push r (Ptr v))"

definition rb_values :: "'v opal_ring_buffer \<Rightarrow> 'v list" where
  "rb_values r = map (\<lambda>p. case p of Ptr v \<Rightarrow> v) (rb_list r)"

lemma push_cases:
  assumes "rb_wf r"
  shows "\<exists>p r'. opal_ring_buffer_push r (Ptr v) = Some (p, r') \<and> rb_wf r' \<and> rb_size r' = rb_size r \<and>
           (if int (length (rb_list r)) < rb_size r then p = Null \<and> rb_list r' = rb_list r @ [Ptr v]
            else p = hd (rb_list r) \<and> rb_list r' = tl (rb_list r) @ [Ptr v])"
proof -
  from assms have rep: "rb_rep r (rb_start r) (rb_list r)" by (simp add: rb_wf_def)
  show ?thesis
  proof (cases "int (length (rb_list r)) < rb_size r")
    case True
    then show ?thesis using push_not_full [OF rep True, of v] rb_rep_abs(3) rb_rep_wf by fastforce
  next
    case False
    then have full: "int (length (rb_list r)) = rb_size r" "rb_list r \<noteq> []"
      using rep by (auto simp: rb_rep_def)
    then obtain x xs where xs: "rb_list r = x # xs" by (cases "rb_list r") auto
    then show ?thesis
      using push_full [of r "rb_start r" x xs v] rep full rb_rep_abs(3) rb_rep_wf False by fastforce
  qed
qed

interpretation rbq: forgetful_queue rb_wf "\<lambda>r. nat (rb_size r)" rb_values rb_push
proof unfold_locales
  fix r :: "'a opal_ring_buffer" and v
  assume wf: "rb_wf r"
  then have len: "int (length (rb_list r)) \<le> rb_size r" by (simp add: rb_wf_def rb_rep_def)
  then show "length (rb_values r) \<le> nat (rb_size r)" by (simp add: rb_values_def)
  show "0 < nat (rb_size r)" using wf by (simp add: rb_wf_def rb_rep_def)
  obtain p r' where r': "opal_ring_buffer_push r (Ptr v) = Some (p, r')" "rb_wf r'" "rb_size r' = rb_size r"
    and l: "if int (length (rb_list r)) < rb_size r then p = Null \<and> rb_list r' = rb_list r @ [Ptr v]
            else p = hd (rb_list r) \<and> rb_list r' = tl (rb_list r) @ [Ptr v]"
    using push_cases [OF wf] by blast
  have "rb_values r' = drop (Suc (length (rb_values r)) - nat (rb_size r)) (rb_values r @ [v])"
  proof (cases "int (length (rb_list r)) < rb_size r")
    case True
    with l show ?thesis by (simp add: rb_values_def)
  next
    case False
    with len have "nat (rb_size r) = length (rb_list r)" by simp
    moreover have "0 < rb_size r" using wf by (simp add: rb_wf_def rb_rep_def)
    ultimately have "rb_list r \<noteq> []" by auto
    with False l \<open>nat (rb_size r) = length (rb_list r)\<close> show ?thesis
      by (cases "rb_list r") (simp_all add: rb_values_def)
  qed
  with r' show "\<exists>r'. rb_push r v = Some r' \<and> rb_wf r' \<and> nat (rb_size r') = nat (rb_size r) \<and>
      rb_values r' = drop (Suc (length (rb_values r)) - nat (rb_size r)) (rb_values r @ [v])"
    by (simp add: rb_push_def)
qed

fun rb_push_all :: "'v opal_ring_buffer \<Rightarrow> 'v list \<Rightarrow> 'v opal_ring_buffer option" where
  "rb_push_all r [] = Some r"
| "rb_push_all r (v # vs) = Option.bind (rb_push r v) (\<lambda>r'. rb_push_all r' vs)"

lemma rb_push_all_eq: "rb_push_all r vs = rbq.push_all r vs"
  by (induction vs arbitrary: r) (auto split: bind_splits)

section \<open>Properties\<close>

text \<open>opal_ring_buffer_push appends its entry and returns NULL while the ring has room; on a
  full ring it overwrites and returns the oldest entry. opal_ring_buffer_pop removes and returns
  the oldest entry, or returns NULL on an empty ring. Both keep the ring's invariant and stay
  inside its array.\<close>

theorem ring_push_pop_fifo:
  assumes "rb_wf r"
  shows "(\<exists>p r'. opal_ring_buffer_push r (Ptr v) = Some (p, r') \<and> rb_wf r' \<and> rb_size r' = rb_size r \<and>
            (if int (length (rb_list r)) < rb_size r then p = Null \<and> rb_list r' = rb_list r @ [Ptr v]
             else p = hd (rb_list r) \<and> rb_list r' = tl (rb_list r) @ [Ptr v])) \<and>
         (\<exists>p r'. opal_ring_buffer_pop r = Some (p, r') \<and> rb_wf r' \<and> rb_size r' = rb_size r \<and>
            rb_list r' = tl (rb_list r) \<and> p = (case rb_list r of [] \<Rightarrow> Null | x # _ \<Rightarrow> x))"
proof (intro conjI)
  from assms have rep: "rb_rep r (rb_start r) (rb_list r)" by (simp add: rb_wf_def)
  show "\<exists>p r'. opal_ring_buffer_pop r = Some (p, r') \<and> rb_wf r' \<and> rb_size r' = rb_size r \<and>
          rb_list r' = tl (rb_list r) \<and> p = (case rb_list r of [] \<Rightarrow> Null | x # _ \<Rightarrow> x)"
  proof (cases "rb_list r")
    case Nil
    then have "opal_ring_buffer_pop r = Some (Null, r)"
      using rep by (simp add: opal_ring_buffer_pop_def rb_rep_def)
    then show ?thesis using assms Nil by auto
  next
    case (Cons x xs)
    then show ?thesis using pop_ok [of r "rb_start r" x xs] rep rb_rep_abs(3) rb_rep_wf by fastforce
  qed
qed (rule push_cases [OF assms])

theorem ring_push_pop_fifo_witness:
  "\<exists>p r'. opal_ring_buffer_push
      \<lparr>rb_head = 1, rb_tail = 1, rb_size = 2, rb_addr = Ptr [Ptr ''b'', Ptr ''a'']\<rparr> (Ptr ''c'') = Some (p, r') \<and> rb_wf r'"
proof -
  let ?r = "\<lparr>rb_head = 1, rb_tail = 1, rb_size = 2, rb_addr = Ptr [Ptr ''b'', Ptr ''a'']\<rparr>"
  have "rb_rep ?r 1 [Ptr ''a'', Ptr ''b'']"
    by (auto simp: rb_rep_def rb_pos_def INT_MAX_def less_Suc_eq numeral_2_eq_2)
  then have "rb_wf ?r" by (rule rb_rep_wf)
  from ring_push_pop_fifo [OF this, of "''c''"] show ?thesis by blast
qed

text \<open>After any sequence of pushes the ring holds exactly its size's worth of the most recent
  entries, oldest first.\<close>

theorem ring_keeps_most_recent:
  assumes "rb_wf r"
  shows "\<exists>r'. rb_push_all r vs = Some r' \<and> rb_wf r' \<and>
           rb_values r' = drop (length (rb_values r @ vs) - nat (rb_size r)) (rb_values r @ vs)"
  using rbq.push_all_recent [OF assms, of vs] unfolding rb_push_all_eq by blast

theorem ring_keeps_most_recent_witness:
  "\<exists>r'. rb_push_all \<lparr>rb_head = 0, rb_tail = - 1, rb_size = 2, rb_addr = Ptr [Null, Null]\<rparr> [1, 2, 3 :: nat] = Some r' \<and>
     rb_values r' = drop (length ([] @ [1, 2, 3 :: nat]) - 2) ([] @ [1, 2, 3])"
proof -
  let ?r = "\<lparr>rb_head = 0, rb_tail = - 1, rb_size = 2, rb_addr = Ptr [Null, Null :: nat ptr]\<rparr>"
  have "rb_rep ?r 0 []" by (auto simp: rb_rep_def rb_pos_def INT_MAX_def less_Suc_eq numeral_2_eq_2)
  then have "rb_wf ?r" "rb_values ?r = []" by (simp_all add: rb_rep_wf rb_values_def rb_rep_abs)
  with ring_keeps_most_recent [of ?r "[1, 2, 3]"] show ?thesis by auto
qed

text \<open>opal_ring_buffer_poke with a non-negative index reads the entry at that distance from the
  oldest one (NULL beyond the entries), and with a negative index the newest entry; it never
  reads outside the array.\<close>

theorem ring_poke_reads:
  assumes "rb_wf r"
  shows "opal_ring_buffer_poke r i =
         Some (if rb_list r = [] then Null
               else if i < 0 then last (rb_list r)
               else if i < int (length (rb_list r)) then rb_list r ! nat i else Null)"
proof -
  from assms have rep: "rb_rep r (rb_start r) (rb_list r)" by (simp add: rb_wf_def)
  show ?thesis
  proof (cases "rb_list r = []")
    case True
    then have "rb_tail r = - 1" using rep by (simp add: rb_rep_def)
    then show ?thesis using True by (simp add: opal_ring_buffer_poke_def)
  next
    case False
    then show ?thesis
      using poke_ok [OF rep, of i] poke_newest [OF rep False, of i] by (cases "i < 0") auto
  qed
qed

theorem ring_poke_reads_witness:
  "opal_ring_buffer_poke \<lparr>rb_head = 1, rb_tail = 1, rb_size = 2, rb_addr = Ptr [Ptr ''b'', Ptr ''a'']\<rparr> 1 =
   Some (Ptr ''b'')"
proof -
  let ?r = "\<lparr>rb_head = 1, rb_tail = 1, rb_size = 2, rb_addr = Ptr [Ptr ''b'', Ptr ''a'']\<rparr>"
  have "rb_rep ?r 1 [Ptr ''a'', Ptr ''b'']"
    by (auto simp: rb_rep_def rb_pos_def INT_MAX_def less_Suc_eq numeral_2_eq_2)
  then have "rb_wf ?r" "rb_list ?r = [Ptr ''a'', Ptr ''b'']" by (simp_all add: rb_rep_wf rb_rep_abs)
  with ring_poke_reads [of ?r 1] show ?thesis by simp
qed

end
