(* ===== verification/Bit_Ops.thy ===== *)
theory Bit_Ops
  imports Opal_Prelude
begin

unbundle bit_operations_syntax

text \<open>
  \<^verbatim>\<open>opal/util/bit_ops.h\<close>. Each function has two bodies, chosen when Open MPI is configured: one
  on the compiler's count-leading-zeros builtin, one a loop. The argument \<open>have_clz\<close> is
  \<^verbatim>\<open>OPAL_C_HAVE_BUILTIN_CLZ\<close>, so one definition holds both and the properties compare
  them. A shift of 1 that leaves the range of \<^verbatim>\<open>int\<close> is undefined behaviour.
\<close>

section \<open>The builtin and shifts\<close>

text \<open>The number of significant bits of a number.\<close>

fun nbits :: "nat \<Rightarrow> nat" where
  "nbits n = (if n = 0 then 0 else Suc (nbits (n div 2)))"

declare nbits.simps [simp del]

definition builtin_clz :: "int \<Rightarrow> int option" where
  "builtin_clz x = (let u = x mod 2 ^ 32 in if u = 0 then None else Some (32 - int (nbits (nat u))))"

definition shl1 :: "int \<Rightarrow> int option" where
  "shl1 k = (if 0 \<le> k \<and> k < 32 then cint (2 ^ nat k) else None)"

section \<open>The functions\<close>

text \<open>\<open>for (; start >= 0; --start, mask >>= 1) if (value & mask) break;\<close> with \<open>mask\<close>
  an unsigned word.\<close>

function hibit_loop :: "int \<Rightarrow> int \<Rightarrow> int \<Rightarrow> int" where
  "hibit_loop value start msk =
     (if start \<ge> 0 then
        (if value AND msk \<noteq> 0 then start else hibit_loop value (start - 1) (drop_bit 1 msk))
      else start)"
  by pat_completeness auto
termination by (relation "measure (\<lambda>(v, s, m). nat (s + 1))") auto

definition opal_hibit :: "bool \<Rightarrow> int \<Rightarrow> int \<Rightarrow> int option" where
  "opal_hibit have_clz value start =
     (if have_clz then do {
        m \<leftarrow> shl1 start;
        let msk = value AND (m - 1);
        if msk = 0 then Some (- 1)
        else do { c \<leftarrow> builtin_clz msk; Some (31 - c) } }
      else do {
        msk \<leftarrow> shl1 (start - 1);
        Some (hibit_loop value (start - 1) msk) })"

function cube_dim_loop :: "int \<Rightarrow> int \<Rightarrow> int \<Rightarrow> int option" where
  "cube_dim_loop value dim sz =
     (if 0 < sz \<and> sz < value then do { sz' \<leftarrow> cint (sz * 2); cube_dim_loop value (dim + 1) sz' }
      else Some dim)"
  by pat_completeness auto
termination
  by (relation "measure (\<lambda>(v, d, s). nat (v - s))") (auto simp: cint_eq_Some_iff)

definition opal_cube_dim :: "bool \<Rightarrow> int \<Rightarrow> int option" where
  "opal_cube_dim have_clz value =
     (if have_clz then
        (if 1 \<ge> value then Some 0 else do { c \<leftarrow> builtin_clz (value - 1); Some (32 - c) })
      else cube_dim_loop value 0 1)"

function poweroftwo_loop :: "int \<Rightarrow> int \<Rightarrow> int option" where
  "poweroftwo_loop value pow2 =
     (if value > 0 then do { p \<leftarrow> cint (pow2 * 2); poweroftwo_loop (value div 2) p } else Some pow2)"
  by pat_completeness auto
termination by (relation "measure (\<lambda>(v, p). nat v)") auto

definition opal_next_poweroftwo :: "bool \<Rightarrow> int \<Rightarrow> int option" where
  "opal_next_poweroftwo have_clz value =
     (if have_clz then
        (if 0 = value then Some 1 else do { c \<leftarrow> builtin_clz value; shl1 (32 - c) })
      else poweroftwo_loop value 1)"

function poweroftwo_incl_loop :: "int \<Rightarrow> int \<Rightarrow> int option" where
  "poweroftwo_incl_loop value pow2 =
     (if 0 < pow2 \<and> pow2 < value then do { p \<leftarrow> cint (pow2 * 2); poweroftwo_incl_loop value p }
      else Some pow2)"
  by pat_completeness auto
termination
  by (relation "measure (\<lambda>(v, p). nat (v - p))") (auto simp: cint_eq_Some_iff)

definition opal_next_poweroftwo_inclusive :: "bool \<Rightarrow> int \<Rightarrow> int option" where
  "opal_next_poweroftwo_inclusive have_clz value =
     (if have_clz then
        (if 1 \<ge> value then Some 1 else do { c \<leftarrow> builtin_clz (value - 1); shl1 (32 - c) })
      else poweroftwo_incl_loop value 1)"

declare hibit_loop.simps [simp del] cube_dim_loop.simps [simp del]
  poweroftwo_loop.simps [simp del] poweroftwo_incl_loop.simps [simp del]

section \<open>Significant bits\<close>

lemma nbits_0 [simp]: "nbits 0 = 0"
  by (simp add: nbits.simps)

lemma nbits_step: "0 < n \<Longrightarrow> nbits n = Suc (nbits (n div 2))"
  by (subst nbits.simps) simp

lemma nbits_upper: "n < 2 ^ nbits n"
proof (induction n rule: nbits.induct)
  case (1 n)
  show ?case
  proof (cases "n = 0")
    case False
    then have "n div 2 < 2 ^ nbits (n div 2)" using 1 by simp
    with False show ?thesis by (simp add: nbits_step)
  qed simp
qed

lemma nbits_lower: "0 < n \<Longrightarrow> 2 ^ (nbits n - 1) \<le> n"
proof (induction n rule: nbits.induct)
  case (1 n)
  show ?case
  proof (cases "n div 2 = 0")
    case True
    then have "n = 1" using "1.prems" by linarith
    then show ?thesis by (simp add: nbits_step)
  next
    case False
    then have "2 ^ (nbits (n div 2) - 1) \<le> n div 2" "0 < nbits (n div 2)"
      using 1 by (auto simp: nbits_step)
    then have "2 * 2 ^ (nbits (n div 2) - 1) \<le> n" by linarith
    then have "2 ^ nbits (n div 2) \<le> n" using \<open>0 < nbits (n div 2)\<close>
      by (metis Suc_pred' power_Suc)
    with False "1.prems" show ?thesis by (simp add: nbits_step)
  qed
qed

lemma nbits_unique:
  assumes "2 ^ k \<le> n" and "n < 2 ^ Suc k"
  shows "nbits n = Suc k"
proof -
  have n: "0 < n" using assms(1) by (metis gr0I less_le_not_le zero_less_numeral zero_less_power)
  have "2 ^ (nbits n - 1) < (2 :: nat) ^ Suc k" using nbits_lower [OF n] assms(2) by linarith
  then have "nbits n - 1 < Suc k" by (rule power_less_imp_less_exp [rotated]) simp
  moreover have "(2 :: nat) ^ k < 2 ^ nbits n" using nbits_upper [of n] assms(1) by linarith
  then have "k < nbits n" by (rule power_less_imp_less_exp [rotated]) simp
  ultimately show ?thesis by linarith
qed

lemma nbits_le: "n < 2 ^ k \<Longrightarrow> nbits n \<le> k"
proof (rule ccontr)
  assume n: "n < 2 ^ k" and "\<not> nbits n \<le> k"
  then have "k \<le> nbits n - 1" "0 < n" by (auto intro: gr0I)
  then have "(2 :: nat) ^ k \<le> 2 ^ (nbits n - 1)" by (intro power_increasing) auto
  then show False using nbits_lower [OF \<open>0 < n\<close>] n by linarith
qed

lemma builtin_clz_pos: "0 < x \<Longrightarrow> x < 2 ^ 32 \<Longrightarrow> builtin_clz x = Some (32 - int (nbits (nat x)))"
  by (simp add: builtin_clz_def Let_def)

lemma shl1_ok: "0 \<le> k \<Longrightarrow> k \<le> 30 \<Longrightarrow> shl1 k = Some (2 ^ nat k)"
proof -
  assume k: "0 \<le> k" "k \<le> 30"
  then have "(2 :: int) ^ nat k \<le> 2 ^ 30" by (intro power_increasing) auto
  then have "is_cint (2 ^ nat k)" by (intro is_cintI) (auto simp: INT_MAX_def)
  then show ?thesis using k by (simp add: shl1_def)
qed

section \<open>The bodies agree\<close>

lemma poweroftwo_loop_ok:
  "0 \<le> v \<Longrightarrow> 0 < p \<Longrightarrow> p * 2 ^ nbits (nat v) \<le> INT_MAX \<Longrightarrow>
   poweroftwo_loop v p = Some (p * 2 ^ nbits (nat v))"
proof (induction v p rule: poweroftwo_loop.induct)
  case (1 v p)
  show ?case
  proof (cases "v > 0")
    case True
    let ?m = "nbits (nat (v div 2))"
    have nb: "nbits (nat v) = Suc ?m" using True by (simp add: nbits_step nat_div_distrib)
    then have fin: "p * 2 * 2 ^ ?m \<le> INT_MAX" using "1.prems"(3) by simp
    have "p * 2 * 1 \<le> p * 2 * 2 ^ ?m" using "1.prems"(2) by (intro mult_left_mono) auto
    then have "cint (p * 2) = Some (p * 2)" using fin "1.prems"(2) by (intro cint_Some is_cintI) linarith+
    with True "1.IH" [OF True this] "1.prems" fin nb show ?thesis
      by (simp add: poweroftwo_loop.simps [of v p])
  next
    case False
    then show ?thesis using "1.prems" by (simp add: poweroftwo_loop.simps)
  qed
qed

lemma next_poweroftwo_ok:
  assumes "0 \<le> v" and "v < 2 ^ 30"
  shows "opal_next_poweroftwo have_clz v = Some (2 ^ nbits (nat v))"
proof -
  have "nat v < nat (2 ^ 30)" using assms by (intro zless_nat_conj [THEN iffD2]) auto
  then have nb: "nbits (nat v) \<le> 30" by (intro nbits_le) simp
  then have "(2 :: int) ^ nbits (nat v) \<le> 2 ^ 30" by (intro power_increasing) auto
  then show ?thesis
    using assms nb builtin_clz_pos [of v] shl1_ok [of "int (nbits (nat v))"] poweroftwo_loop_ok [of v 1]
    by (auto simp: opal_next_poweroftwo_def INT_MAX_def)
qed

lemma next_poweroftwo_bounds:
  assumes "0 \<le> v"
  shows "v < 2 ^ nbits (nat v)" and "2 ^ nbits (nat v) \<le> max 1 (2 * v)"
proof -
  have "int (nat v) < int (2 ^ nbits (nat v))" using nbits_upper [of "nat v"] by (simp only: of_nat_less_iff)
  then show "v < 2 ^ nbits (nat v)" using assms by simp
  show "2 ^ nbits (nat v) \<le> max 1 (2 * v)"
  proof (cases "v = 0")
    case False
    then have "int (2 ^ (nbits (nat v) - 1)) \<le> int (nat v)" "0 < nbits (nat v)"
      using nbits_lower [of "nat v"] assms by (simp_all only: of_nat_le_iff, auto simp: nbits_step)
    then have "2 * 2 ^ (nbits (nat v) - 1) \<le> 2 * v" using assms by simp
    then have "2 ^ nbits (nat v) \<le> 2 * v" using \<open>0 < nbits (nat v)\<close> by (metis Suc_pred' power_Suc)
    then show ?thesis by simp
  qed simp
qed

lemma cube_dim_loop_ok:
  "0 < sz \<Longrightarrow> sz < val \<Longrightarrow> val \<le> 2 ^ 30 \<Longrightarrow> sz = 2 ^ k \<Longrightarrow>
   cube_dim_loop val d sz = Some (d + int (nbits (nat (val - 1))) - int k)"
proof (induction val d sz arbitrary: k rule: cube_dim_loop.induct)
  case (1 val d sz)
  have c: "cint (sz * 2) = Some (sz * 2)"
    using "1.prems" by (intro cint_Some is_cintI) (auto simp: INT_MAX_def)
  have step: "cube_dim_loop val d sz = cube_dim_loop val (d + 1) (sz * 2)"
    using "1.prems"(1,2) c by (subst cube_dim_loop.simps) simp
  show ?case
  proof (cases "sz * 2 < val")
    case True
    then show ?thesis
      using "1.prems" c step "1.IH" [of "sz * 2" "Suc k"] by simp
  next
    case False
    have "nbits (nat (val - 1)) = Suc k"
    proof (rule nbits_unique)
      show "2 ^ k \<le> nat (val - 1)" using "1.prems" by (simp add: le_nat_iff)
      show "nat (val - 1) < 2 ^ Suc k" using False "1.prems" by (simp add: nat_less_iff)
    qed
    moreover have "cube_dim_loop val (d + 1) (sz * 2) = Some (d + 1)"
      using False by (simp add: cube_dim_loop.simps)
    ultimately show ?thesis
      using step by simp
  qed
qed

lemma cube_dim_ok:
  assumes "val \<le> 2 ^ 30"
  shows "opal_cube_dim have_clz val = Some (int (nbits (nat (val - 1))))"
proof (cases "val \<le> 1")
  case True
  then have "nat (val - 1) = 0" by simp
  with True show ?thesis by (simp add: opal_cube_dim_def cube_dim_loop.simps)
next
  case False
  then show ?thesis
    using assms builtin_clz_pos [of "val - 1"] cube_dim_loop_ok [of 1 val 0 0]
    by (simp add: opal_cube_dim_def)
qed

section \<open>Properties\<close>

text \<open>For every non-negative value below 2^30 both bodies of opal_next_poweroftwo return the
  least power of two strictly above the value, and for every value up to 2^30 both bodies of
  opal_cube_dim return the least d with value at most 2^d.\<close>

theorem poweroftwo_and_cube_dim_least:
  assumes "v < 2 ^ 30"
  shows "(0 \<le> v \<longrightarrow> (\<exists>k. opal_next_poweroftwo have_clz v = Some (2 ^ k) \<and> v < 2 ^ k \<and>
                         (\<forall>j. v < 2 ^ j \<longrightarrow> k \<le> j))) \<and>
         (\<exists>d. opal_cube_dim have_clz v = Some (int d) \<and> v \<le> 2 ^ d \<and> (\<forall>j. v \<le> 2 ^ j \<longrightarrow> d \<le> j))"
proof -
  have "nbits (nat (v - 1)) \<le> j" if "v \<le> 2 ^ j" for j
    using that by (intro nbits_le) (simp add: nat_less_iff)
  moreover have "v \<le> 2 ^ nbits (nat (v - 1))"
  proof (cases "v \<le> 1")
    case False
    then show ?thesis using next_poweroftwo_bounds(1) [of "v - 1"] by simp
  qed simp
  moreover have "nbits (nat v) \<le> j" if "0 \<le> v" "v < 2 ^ j" for j
    using that by (intro nbits_le) (simp add: nat_less_iff)
  ultimately show ?thesis
    using assms next_poweroftwo_ok [of v have_clz] next_poweroftwo_bounds(1) [of v] cube_dim_ok [of v have_clz]
    by fastforce
qed

theorem poweroftwo_and_cube_dim_least_witness:
  "\<exists>k. opal_next_poweroftwo False 20 = Some (2 ^ k) \<and> 20 < (2 :: int) ^ k \<and>
       (\<forall>j. 20 < (2 :: int) ^ j \<longrightarrow> k \<le> j)"
  using poweroftwo_and_cube_dim_least [of 20 False] by simp

end
