(* ===== verification/Byte_Memory.thy ===== *)
theory Byte_Memory
  imports Opal_Prelude
begin

unbundle bit_operations_syntax

text \<open>
  Raw memory, as the components that copy bytes see it: a block is a list of bytes, \<open>mem_get\<close>
  and \<open>mem_put\<close> are \<^verbatim>\<open>memcpy\<close> out of and into a block (\<open>None\<close> outside it),
  and an unsigned integer of \<open>w\<close> bytes is its little-endian object representation
  (\<open>le_bytes\<close>, \<open>le_word\<close>). A \<^verbatim>\<open>size_t\<close> is a \<open>nat\<close>;
  \<open>szsub\<close> is its subtraction, which wraps at 64 bits.
\<close>

type_synonym byte = "8 word"

definition szsub :: "nat \<Rightarrow> nat \<Rightarrow> nat" where
  "szsub a b = (if b \<le> a then a - b else 2 ^ 64 + a - b)"

definition mem_get :: "byte list \<Rightarrow> nat \<Rightarrow> nat \<Rightarrow> byte list option" where
  "mem_get s p n = (if p + n \<le> length s then Some (take n (drop p s)) else None)"

definition mem_put :: "byte list \<Rightarrow> nat \<Rightarrow> byte list \<Rightarrow> byte list option" where
  "mem_put s p bs =
     (if p + length bs \<le> length s then Some (take p s @ bs @ drop (p + length bs) s) else None)"

primrec le_word :: "byte list \<Rightarrow> 'a::len word" where
  "le_word [] = 0"
| "le_word (b # bs) = ucast b OR push_bit 8 (le_word bs)"

definition le_bytes :: "nat \<Rightarrow> 'a::len word \<Rightarrow> byte list" where
  "le_bytes w x = map (\<lambda>i. ucast (drop_bit (8 * i) x)) [0..<w]"

section \<open>Lemmas\<close>

lemma szsub_le [simp]: "b \<le> a \<Longrightarrow> szsub a b = a - b"
  by (simp add: szsub_def)

lemma mem_get_Some [cmem]: "p + n \<le> length s \<Longrightarrow> mem_get s p n = Some (take n (drop p s))"
  by (simp add: mem_get_def)

lemma mem_put_Some [cmem]:
  "p + length bs \<le> length s \<Longrightarrow> mem_put s p bs = Some (take p s @ bs @ drop (p + length bs) s)"
  by (simp add: mem_put_def)

lemma mem_put_whole [simp]: "length bs = length s \<Longrightarrow> mem_put s 0 bs = Some bs"
  by (simp add: mem_put_def)

lemma mem_put_Nil [simp]: "p \<le> length s \<Longrightarrow> mem_put s p [] = Some s"
  by (simp add: mem_put_def)

lemma mem_put_length: "mem_put s p bs = Some s' \<Longrightarrow> length s' = length s"
  by (auto simp: mem_put_def split: if_splits)

text \<open>Two adjacent stores are one.\<close>

lemma mem_put_append:
  "mem_put s p xs = Some s1 \<Longrightarrow> mem_put s1 (p + length xs) ys = mem_put s p (xs @ ys)"
proof (cases "p + length (xs @ ys) \<le> length s")
  case True
  then show "mem_put s p xs = Some s1 \<Longrightarrow> ?thesis" by (auto simp: mem_put_def min_absorb2 ac_simps)
next
  case False
  then show "mem_put s p xs = Some s1 \<Longrightarrow> ?thesis" by (auto simp: mem_put_def split: if_splits)
qed

lemma length_le_bytes [simp]: "length (le_bytes w x) = w"
  by (simp add: le_bytes_def)

lemma nth_le_bytes: "i < w \<Longrightarrow> le_bytes w x ! i = ucast (drop_bit (8 * i) x)"
  by (simp add: le_bytes_def)

lemma bit_le_word:
  "bit (le_word bs :: 'a::len word) n \<longleftrightarrow>
     n < LENGTH('a) \<and> n div 8 < length bs \<and> bit (bs ! (n div 8)) (n mod 8)"
proof (induction bs arbitrary: n)
  case Nil
  then show ?case by simp
next
  case (Cons b bs)
  show ?case
  proof (cases "n < 8")
    case True
    then show ?thesis by (auto simp: bit_simps not_le)
  next
    case False
    then obtain m where m: "n = 8 + m" using le_Suc_ex not_less by blast
    have "\<not> bit b n" "(8 + m) div 8 = Suc (m div 8)" using m bit_imp_le_length [of b n] by auto
    then show ?thesis using m by (auto simp: bit_simps Cons.IH)
  qed
qed

lemma le_bytes_le_word:
  assumes "length bs = w" and "8 * w \<le> LENGTH('a)"
  shows "le_bytes w (le_word bs :: 'a::len word) = bs"
proof (rule nth_equalityI)
  fix i assume "i < length (le_bytes w (le_word bs :: 'a word))"
  then have i: "i < w" by simp
  show "le_bytes w (le_word bs :: 'a word) ! i = bs ! i"
  proof (rule bit_word_eqI)
    fix n assume "n < LENGTH(8)"
    then have n: "n < 8" by simp
    have "8 * i + n < 8 * w" using i n by simp
    then have "8 * i + n < LENGTH('a)" "(8 * i + n) div 8 = i" "(8 * i + n) mod 8 = n"
      using assms(2) n by auto
    then show "bit (le_bytes w (le_word bs :: 'a word) ! i) n = bit (bs ! i) n"
      using i n assms(1) by (simp add: nth_le_bytes bit_simps bit_le_word)
  qed
qed (use assms in simp)

lemma le_word_le_bytes:
  assumes "8 * w = LENGTH('a)"
  shows "le_word (le_bytes w x) = (x :: 'a::len word)"
proof (rule bit_word_eqI)
  fix n assume n: "n < LENGTH('a)"
  then have "n div 8 < w" using assms by linarith
  then show "bit (le_word (le_bytes w x) :: 'a word) n = bit x n"
    using n by (simp add: bit_le_word nth_le_bytes bit_simps mult.commute)
qed

lemma le_word_append_zeros [simp]: "le_word (bs @ replicate k 0) = le_word bs"
proof (induction bs)
  case Nil
  show ?case by (induction k) simp_all
qed simp

end
