(* ===== verification/Stream_Digest.thy ===== *)
theory Stream_Digest
  imports Main
begin

text \<open>
  The contract of a digest that is computed piece by piece: \<open>upd\<close> takes the state after some
  prefix of the stream to the state after a longer prefix, whatever the circumstances \<open>'e\<close> of
  the call (an address, an alignment). The client's lemma: feeding the pieces of any cut of a
  stream gives the digest of the stream.
\<close>

locale stream_digest =
  fixes upd :: "'e \<Rightarrow> 'b list \<Rightarrow> 'st \<Rightarrow> 'st option" and rep :: "'b list \<Rightarrow> 'st"
  assumes upd_rep: "upd e c (rep xs) = Some (rep (xs @ c))"
begin

fun upd_all :: "('e \<times> 'b list) list \<Rightarrow> 'st \<Rightarrow> 'st option" where
  "upd_all [] st = Some st"
| "upd_all ((e, c) # cs) st = Option.bind (upd e c st) (upd_all cs)"

lemma upd_all_rep: "upd_all cs (rep xs) = Some (rep (xs @ concat (map snd cs)))"
  by (induction cs arbitrary: xs) (auto simp: upd_rep)

lemma upd_all_cut: "concat (map snd cs) = concat (map snd ds) \<Longrightarrow> upd_all cs (rep []) = upd_all ds (rep [])"
  by (simp add: upd_all_rep)

end

end
