(* ===== verification/Checksum.thy ===== *)
theory Checksum
  imports Byte_Memory Stream_Digest
begin

text \<open>
  The additive checksums of \<^verbatim>\<open>opal/util/crc.c\<close>: \<open>opal_csum_partial\<close>,
  \<open>opal_uicsum_partial\<close> and their copying variants \<open>opal_bcopy_csum_partial\<close>,
  \<open>opal_bcopy_uicsum_partial\<close>. The \<^verbatim>\<open>long\<close> and the \<^verbatim>\<open>int\<close> versions are
  the same text over another word type, so the bodies are written once over the width \<open>w\<close>
  in bytes and instantiated at 8 and 4.

  The source and destination are separate blocks at the addresses \<open>sa\<close> and \<open>da\<close>. A
  direct dereference of a word pointer (\<open>rd_deref\<close>, \<open>wr_deref\<close>) is undefined at an
  address that is not a multiple of \<open>w\<close>, a \<^verbatim>\<open>memcpy\<close> (\<open>rd_memcpy\<close>,
  \<open>wr_memcpy\<close>) is not; so a result \<open>Some\<close> also says that every dereference was aligned.
\<close>

section \<open>Word accesses\<close>

definition rd_memcpy :: "nat \<Rightarrow> byte list \<Rightarrow> nat \<Rightarrow> 'a::len word option" where
  "rd_memcpy w s p = map_option le_word (mem_get s p w)"

definition rd_deref :: "nat \<Rightarrow> nat \<Rightarrow> byte list \<Rightarrow> nat \<Rightarrow> 'a::len word option" where
  "rd_deref w sa s p = (if (sa + p) mod w = 0 then map_option le_word (mem_get s p w) else None)"

definition wr_memcpy :: "nat \<Rightarrow> byte list \<Rightarrow> nat \<Rightarrow> 'a::len word \<Rightarrow> byte list option" where
  "wr_memcpy w d q t = mem_put d q (le_bytes w t)"

definition wr_deref :: "nat \<Rightarrow> nat \<Rightarrow> byte list \<Rightarrow> nat \<Rightarrow> 'a::len word \<Rightarrow> byte list option" where
  "wr_deref w da d q t = (if (da + q) mod w = 0 then mem_put d q (le_bytes w t) else None)"

text \<open>\<open>WORDALIGNED\<close> and \<open>INTALIGNED\<close>; \<open>memcpy((char * )&temp + off, ...)\<close>.\<close>

definition ALIGNED :: "nat \<Rightarrow> nat \<Rightarrow> bool" where
  "ALIGNED w v \<longleftrightarrow> v mod w = 0"

definition memcpy_temp :: "nat \<Rightarrow> 'a::len word \<Rightarrow> nat \<Rightarrow> byte list \<Rightarrow> 'a word option" where
  "memcpy_temp w temp off bs = map_option le_word (mem_put (le_bytes w temp) off bs)"

section \<open>Checksum without copy\<close>

record 'c csum_state =
  cs_src :: nat
  cs_len :: nat
  cs_csum :: 'c
  cs_part :: 'c
  cs_plen :: nat

text \<open>The counting loop \<open>for(i = 0; i < n; i++)\<close> and the draining loop
  \<open>for( ; csumlen >= sizeof( *src); csumlen -= sizeof( *src))\<close> over words.\<close>

fun csum_count :: "(nat \<Rightarrow> 'a::len word option) \<Rightarrow> nat \<Rightarrow> nat \<Rightarrow> nat \<times> 'a word \<Rightarrow> (nat \<times> 'a word) option" where
  "csum_count rd w 0 (p, c) = Some (p, c)"
| "csum_count rd w (Suc n) (p, c) = do { t \<leftarrow> rd p; csum_count rd w n (p + w, c + t) }"

function csum_drain ::
    "(nat \<Rightarrow> 'a::len word option) \<Rightarrow> nat \<Rightarrow> nat \<Rightarrow> nat \<times> 'a word \<Rightarrow> (nat \<times> nat \<times> 'a word) option" where
  "csum_drain rd w len (p, c) =
     (if 0 < w \<and> w \<le> len then do { t \<leftarrow> rd p; csum_drain rd w (len - w) (p + w, c + t) }
      else Some (len, p, c))"
  by pat_completeness auto
termination by (relation "measure (\<lambda>(rd, w, len, _). len)") auto

declare csum_drain.simps [simp del]

text \<open>Filling out the partial word, when the data suffices and when it does not.\<close>

definition csum_fill_yes :: "nat \<Rightarrow> byte list \<Rightarrow> 'a::len word csum_state \<Rightarrow> 'a word csum_state option" where
  "csum_fill_yes w s st =
     (let n = szsub w (cs_plen st) in do {
        bs \<leftarrow> mem_get s (cs_src st) n;
        temp \<leftarrow> memcpy_temp w (cs_part st) (cs_plen st) bs;
        Some (st\<lparr>cs_src := cs_src st + n,
                 cs_csum := cs_csum st + (temp - cs_part st),
                 cs_len := szsub (cs_len st) n\<rparr>) })"

definition csum_fill_no :: "nat \<Rightarrow> byte list \<Rightarrow> 'a::len word csum_state \<Rightarrow> 'a word csum_state option" where
  "csum_fill_no w s st = do {
     bs \<leftarrow> mem_get s (cs_src st) (cs_len st);
     temp \<leftarrow> memcpy_temp w (cs_part st) (cs_plen st) bs;
     Some (st\<lparr>cs_src := cs_src st + cs_len st,
              cs_csum := cs_csum st + (temp - cs_part st),
              cs_part := temp,
              cs_plen := cs_plen st + cs_len st,
              cs_len := 0\<rparr>) }"

text \<open>The two loops with their bookkeeping, ending with no partial word.\<close>

definition csum_by_count ::
    "(nat \<Rightarrow> 'a::len word option) \<Rightarrow> nat \<Rightarrow> 'a word csum_state \<Rightarrow> 'a word csum_state option" where
  "csum_by_count rd w st = do {
     (p, c) \<leftarrow> csum_count rd w (cs_len st div w) (cs_src st, cs_csum st);
     Some (st\<lparr>cs_src := p, cs_csum := c, cs_len := szsub (cs_len st) ((cs_len st div w) * w),
              cs_part := 0, cs_plen := 0\<rparr>) }"

definition csum_by_drain ::
    "(nat \<Rightarrow> 'a::len word option) \<Rightarrow> nat \<Rightarrow> 'a word csum_state \<Rightarrow> 'a word csum_state option" where
  "csum_by_drain rd w st = do {
     (len, p, c) \<leftarrow> csum_drain rd w (cs_len st) (cs_src st, cs_csum st);
     Some (st\<lparr>cs_src := p, cs_csum := c, cs_len := len, cs_part := 0, cs_plen := 0\<rparr>) }"

text \<open>The branch on the alignment of the source. The flag is the early return of the fast path.\<close>

definition csum_head_aligned ::
    "nat \<Rightarrow> nat \<Rightarrow> byte list \<Rightarrow> 'a::len word csum_state \<Rightarrow> (bool \<times> 'a word csum_state) option" where
  "csum_head_aligned w sa s st =
     (if cs_plen st \<noteq> 0 then
        (if cs_len st \<ge> szsub w (cs_plen st) then do {
           st1 \<leftarrow> csum_fill_yes w s st;
           st2 \<leftarrow> csum_by_count (rd_memcpy w s) w st1;
           Some (False, st2) }
         else map_option (Pair False) (csum_fill_no w s st))
      else do {
        st1 \<leftarrow> csum_by_count (rd_deref w sa s) w st;
        Some (ALIGNED w (cs_len st), st1) })"

definition csum_head_unaligned ::
    "nat \<Rightarrow> nat \<Rightarrow> byte list \<Rightarrow> 'a::len word csum_state \<Rightarrow> (bool \<times> 'a word csum_state) option" where
  "csum_head_unaligned w sa s st =
     (if cs_plen st \<noteq> 0 then
        (if cs_len st \<ge> szsub w (cs_plen st) then do {
           st1 \<leftarrow> csum_fill_yes w s st;
           st2 \<leftarrow> (if ALIGNED w (sa + cs_src st1) then csum_by_count (rd_deref w sa s) w st1
                   else csum_by_count (rd_memcpy w s) w st1);
           Some (False, st2) }
         else map_option (Pair False) (csum_fill_no w s st))
      else map_option (Pair False) (csum_by_drain (rd_memcpy w s) w st))"

text \<open>What is left is less than a word.\<close>

definition csum_tail :: "nat \<Rightarrow> byte list \<Rightarrow> 'a::len word csum_state \<Rightarrow> 'a word csum_state option" where
  "csum_tail w s st =
     (if cs_len st \<noteq> 0 then
        (if cs_plen st \<noteq> 0 then
           (if cs_len st \<ge> szsub w (cs_plen st) then do {
              st1 \<leftarrow> csum_fill_yes w s st;
              bs \<leftarrow> mem_get s (cs_src st1) (cs_len st1);
              temp \<leftarrow> (if cs_len st1 \<noteq> 0 then memcpy_temp w 0 0 bs else Some 0);
              Some (st1\<lparr>cs_plen := cs_len st1, cs_csum := cs_csum st1 + temp, cs_part := temp\<rparr>) }
            else do {
              bs \<leftarrow> mem_get s (cs_src st) (cs_len st);
              temp \<leftarrow> memcpy_temp w (cs_part st) (cs_plen st) bs;
              Some (st\<lparr>cs_csum := cs_csum st + (temp - cs_part st), cs_part := temp,
                       cs_plen := cs_plen st + cs_len st\<rparr>) })
         else do {
           bs \<leftarrow> mem_get s (cs_src st) (cs_len st);
           temp \<leftarrow> memcpy_temp w (cs_part st) 0 bs;
           Some (st\<lparr>cs_csum := cs_csum st + temp, cs_part := temp, cs_plen := cs_len st\<rparr>) })
      else Some st)"

definition csum_partial ::
    "nat \<Rightarrow> nat \<Rightarrow> byte list \<Rightarrow> nat \<Rightarrow> 'a::len word \<Rightarrow> nat \<Rightarrow> ('a word \<times> 'a word \<times> nat) option" where
  "csum_partial w sa s csumlen part plen =
     (let st = \<lparr>cs_src = 0, cs_len = csumlen, cs_csum = 0, cs_part = part, cs_plen = plen\<rparr> in do {
        (ret, st1) \<leftarrow> (if ALIGNED w sa then csum_head_aligned w sa s st else csum_head_unaligned w sa s st);
        st2 \<leftarrow> (if ret then Some st1 else csum_tail w s st1);
        Some (cs_csum st2, cs_part st2, cs_plen st2) })"

definition opal_csum_partial ::
    "nat \<Rightarrow> byte list \<Rightarrow> nat \<Rightarrow> 64 word \<Rightarrow> nat \<Rightarrow> (64 word \<times> 64 word \<times> nat) option" where
  "opal_csum_partial = csum_partial 8"

definition opal_uicsum_partial ::
    "nat \<Rightarrow> byte list \<Rightarrow> nat \<Rightarrow> 32 word \<Rightarrow> nat \<Rightarrow> (32 word \<times> 32 word \<times> nat) option" where
  "opal_uicsum_partial = csum_partial 4"

section \<open>Checksum with copy\<close>

record 'c bcopy_state = "'c csum_state" +
  bc_dest :: nat
  bc_mem :: "byte list"

fun bcopy_count ::
    "(nat \<Rightarrow> 'a::len word option) \<Rightarrow> (byte list \<Rightarrow> nat \<Rightarrow> 'a word \<Rightarrow> byte list option) \<Rightarrow> nat \<Rightarrow> nat \<Rightarrow>
     nat \<times> nat \<times> byte list \<times> 'a word \<Rightarrow> (nat \<times> nat \<times> byte list \<times> 'a word) option" where
  "bcopy_count rd wr w 0 (p, q, d, c) = Some (p, q, d, c)"
| "bcopy_count rd wr w (Suc n) (p, q, d, c) = do {
     t \<leftarrow> rd p; d' \<leftarrow> wr d q t; bcopy_count rd wr w n (p + w, q + w, d', c + t) }"

function bcopy_drain ::
    "(nat \<Rightarrow> 'a::len word option) \<Rightarrow> (byte list \<Rightarrow> nat \<Rightarrow> 'a word \<Rightarrow> byte list option) \<Rightarrow> nat \<Rightarrow> nat \<Rightarrow>
     nat \<times> nat \<times> byte list \<times> 'a word \<Rightarrow> (nat \<times> nat \<times> nat \<times> byte list \<times> 'a word) option" where
  "bcopy_drain rd wr w len (p, q, d, c) =
     (if 0 < w \<and> w \<le> len then do {
        t \<leftarrow> rd p; d' \<leftarrow> wr d q t; bcopy_drain rd wr w (len - w) (p + w, q + w, d', c + t) }
      else Some (len, p, q, d, c))"
  by pat_completeness auto
termination by (relation "measure (\<lambda>(rd, wr, w, len, _). len)") auto

declare bcopy_drain.simps [simp del]

definition bcopy_fill_yes :: "nat \<Rightarrow> byte list \<Rightarrow> 'a::len word bcopy_state \<Rightarrow> 'a word bcopy_state option" where
  "bcopy_fill_yes w s st =
     (let n = szsub w (cs_plen st) in do {
        bs \<leftarrow> mem_get s (cs_src st) n;
        temp \<leftarrow> memcpy_temp w (cs_part st) (cs_plen st) bs;
        d \<leftarrow> mem_put (bc_mem st) (bc_dest st) (take n (drop (cs_plen st) (le_bytes w temp)));
        Some (st\<lparr>cs_src := cs_src st + n, bc_dest := bc_dest st + n, bc_mem := d,
                 cs_csum := cs_csum st + (temp - cs_part st),
                 cs_len := szsub (cs_len st) n\<rparr>) })"

definition bcopy_fill_no :: "nat \<Rightarrow> byte list \<Rightarrow> 'a::len word bcopy_state \<Rightarrow> 'a word bcopy_state option" where
  "bcopy_fill_no w s st = do {
     bs \<leftarrow> mem_get s (cs_src st) (cs_len st);
     temp \<leftarrow> memcpy_temp w (cs_part st) (cs_plen st) bs;
     d \<leftarrow> mem_put (bc_mem st) (bc_dest st) (take (cs_len st) (drop (cs_plen st) (le_bytes w temp)));
     Some (st\<lparr>cs_src := cs_src st + cs_len st, bc_dest := bc_dest st + cs_len st, bc_mem := d,
              cs_csum := cs_csum st + (temp - cs_part st),
              cs_part := temp,
              cs_plen := cs_plen st + cs_len st,
              cs_len := 0\<rparr>) }"

definition bcopy_by_count ::
    "(nat \<Rightarrow> 'a::len word option) \<Rightarrow> (byte list \<Rightarrow> nat \<Rightarrow> 'a word \<Rightarrow> byte list option) \<Rightarrow> nat \<Rightarrow>
     'a word bcopy_state \<Rightarrow> 'a word bcopy_state option" where
  "bcopy_by_count rd wr w st = do {
     (p, q, d, c) \<leftarrow> bcopy_count rd wr w (cs_len st div w) (cs_src st, bc_dest st, bc_mem st, cs_csum st);
     Some (st\<lparr>cs_src := p, bc_dest := q, bc_mem := d, cs_csum := c,
              cs_len := szsub (cs_len st) ((cs_len st div w) * w), cs_part := 0, cs_plen := 0\<rparr>) }"

definition bcopy_by_drain ::
    "(nat \<Rightarrow> 'a::len word option) \<Rightarrow> (byte list \<Rightarrow> nat \<Rightarrow> 'a word \<Rightarrow> byte list option) \<Rightarrow> nat \<Rightarrow>
     'a word bcopy_state \<Rightarrow> 'a word bcopy_state option" where
  "bcopy_by_drain rd wr w st = do {
     (len, p, q, d, c) \<leftarrow> bcopy_drain rd wr w (cs_len st) (cs_src st, bc_dest st, bc_mem st, cs_csum st);
     Some (st\<lparr>cs_src := p, bc_dest := q, bc_mem := d, cs_csum := c, cs_len := len,
              cs_part := 0, cs_plen := 0\<rparr>) }"

text \<open>The four branches on the alignment of source and destination.\<close>

definition bcopy_head_both ::
    "nat \<Rightarrow> nat \<Rightarrow> nat \<Rightarrow> byte list \<Rightarrow> nat \<Rightarrow> 'a::len word bcopy_state \<Rightarrow> (bool \<times> 'a word bcopy_state) option" where
  "bcopy_head_both w sa da s residue st =
     (if cs_plen st \<noteq> 0 then
        (if cs_len st \<ge> szsub w (cs_plen st) then do {
           st1 \<leftarrow> bcopy_fill_yes w s st;
           st2 \<leftarrow> bcopy_by_drain (rd_memcpy w s) (wr_memcpy w) w st1;
           Some (False, st2) }
         else map_option (Pair False) (bcopy_fill_no w s st))
      else do {
        st1 \<leftarrow> bcopy_by_count (rd_deref w sa s) (wr_deref w da) w st;
        Some (ALIGNED w (cs_len st) \<and> residue = 0, st1) })"

definition bcopy_head_source ::
    "nat \<Rightarrow> nat \<Rightarrow> nat \<Rightarrow> byte list \<Rightarrow> 'a::len word bcopy_state \<Rightarrow> 'a word bcopy_state option" where
  "bcopy_head_source w sa da s st =
     (if cs_plen st \<noteq> 0 then
        (if cs_len st \<ge> szsub w (cs_plen st) then do {
           st1 \<leftarrow> bcopy_fill_yes w s st;
           if ALIGNED w (da + bc_dest st1) then bcopy_by_count (rd_memcpy w s) (wr_deref w da) w st1
           else bcopy_by_drain (rd_memcpy w s) (wr_memcpy w) w st1 }
         else bcopy_fill_no w s st)
      else bcopy_by_drain (rd_deref w sa s) (wr_memcpy w) w st)"

definition bcopy_head_dest ::
    "nat \<Rightarrow> nat \<Rightarrow> nat \<Rightarrow> byte list \<Rightarrow> 'a::len word bcopy_state \<Rightarrow> 'a word bcopy_state option" where
  "bcopy_head_dest w sa da s st =
     (if cs_plen st \<noteq> 0 then
        (if cs_len st \<ge> szsub w (cs_plen st) then do {
           st1 \<leftarrow> bcopy_fill_yes w s st;
           if ALIGNED w (sa + cs_src st1) then bcopy_by_drain (rd_deref w sa s) (wr_memcpy w) w st1
           else bcopy_by_drain (rd_memcpy w s) (wr_memcpy w) w st1 }
         else bcopy_fill_no w s st)
      else bcopy_by_drain (rd_memcpy w s) (wr_deref w da) w st)"

definition bcopy_head_neither ::
    "nat \<Rightarrow> nat \<Rightarrow> nat \<Rightarrow> byte list \<Rightarrow> 'a::len word bcopy_state \<Rightarrow> 'a word bcopy_state option" where
  "bcopy_head_neither w sa da s st =
     (if cs_plen st \<noteq> 0 then
        (if cs_len st \<ge> szsub w (cs_plen st) then do {
           st1 \<leftarrow> bcopy_fill_yes w s st;
           if ALIGNED w (sa + cs_src st1) \<and> ALIGNED w (da + bc_dest st1)
           then bcopy_by_count (rd_deref w sa s) (wr_deref w da) w st1
           else bcopy_by_drain (rd_memcpy w s) (wr_memcpy w) w st1 }
         else bcopy_fill_no w s st)
      else bcopy_by_drain (rd_memcpy w s) (wr_memcpy w) w st)"

text \<open>\<open>memcpy(&copytemp, src, copylen); memcpy(dest, &copytemp, copylen)\<close>.\<close>

definition bcopy_last :: "nat \<Rightarrow> byte list \<Rightarrow> 'a::len word bcopy_state \<Rightarrow> 'a word bcopy_state option" where
  "bcopy_last w s st = do {
     bs \<leftarrow> mem_get s (cs_src st) (cs_len st);
     temp \<leftarrow> memcpy_temp w (0 :: 'a word) 0 bs;
     d \<leftarrow> mem_put (bc_mem st) (bc_dest st) (take (cs_len st) (le_bytes w temp));
     Some (st\<lparr>bc_mem := d\<rparr>) }"

text \<open>The last, partial word, when the checksum ends where the copy ends.\<close>

definition bcopy_tail :: "nat \<Rightarrow> byte list \<Rightarrow> 'a::len word bcopy_state \<Rightarrow> 'a word bcopy_state option" where
  "bcopy_tail w s st =
     (if cs_plen st \<noteq> 0 then
        (if cs_len st \<ge> szsub w (cs_plen st) then do {
           st1 \<leftarrow> bcopy_last w s st;
           let n = szsub w (cs_plen st1);
           bs \<leftarrow> mem_get s (cs_src st1) n;
           temp \<leftarrow> memcpy_temp w (cs_part st1) (cs_plen st1) bs;
           let st2 = st1\<lparr>cs_csum := cs_csum st1 + (temp - cs_part st1), cs_len := szsub (cs_len st1) n,
                         cs_src := cs_src st1 + n, cs_plen := szsub (cs_len st1) n\<rparr>;
           bs2 \<leftarrow> mem_get s (cs_src st2) (cs_len st2);
           temp2 \<leftarrow> (if cs_len st2 \<noteq> 0 then memcpy_temp w 0 0 bs2 else Some 0);
           Some (st2\<lparr>cs_csum := cs_csum st2 + temp2, cs_part := temp2\<rparr>) }
         else do {
           st1 \<leftarrow> bcopy_last w s st;
           bs \<leftarrow> mem_get s (cs_src st1) (cs_len st1);
           temp \<leftarrow> memcpy_temp w (cs_part st1) (cs_plen st1) bs;
           Some (st1\<lparr>cs_csum := cs_csum st1 + (temp - cs_part st1), cs_part := temp,
                     cs_plen := cs_plen st1 + cs_len st1\<rparr>) })
      else do {
        bs \<leftarrow> mem_get s (cs_src st) (cs_len st);
        temp \<leftarrow> memcpy_temp w (cs_part st) 0 bs;
        d \<leftarrow> mem_put (bc_mem st) (bc_dest st) (take (cs_len st) (le_bytes w temp));
        Some (st\<lparr>bc_mem := d, cs_csum := cs_csum st + temp, cs_part := temp, cs_plen := cs_len st\<rparr>) })"

text \<open>The checksum of the \<open>residue\<close> bytes of the source after the copied ones.\<close>

definition bcopy_residue_fill ::
    "nat \<Rightarrow> byte list \<Rightarrow> nat \<Rightarrow> 'a::len word bcopy_state \<Rightarrow> (nat \<times> 'a word bcopy_state) option" where
  "bcopy_residue_fill w s residue st =
     (if residue < szsub (szsub w (cs_len st)) (cs_plen st) then do {
        bs \<leftarrow> mem_get s (cs_src st) (cs_len st + residue);
        temp \<leftarrow> memcpy_temp w (cs_part st) (cs_plen st) bs;
        Some (0, st\<lparr>cs_csum := cs_csum st + (temp - cs_part st), cs_src := cs_src st + w,
                    cs_part := temp, cs_plen := cs_plen st + (cs_len st + residue)\<rparr>) }
      else do {
        let n = szsub w (cs_plen st);
        bs \<leftarrow> mem_get s (cs_src st) n;
        temp \<leftarrow> memcpy_temp w (cs_part st) (cs_plen st) bs;
        Some (szsub residue (szsub n (cs_len st)),
              st\<lparr>cs_csum := cs_csum st + (temp - cs_part st), cs_src := cs_src st + n,
                 cs_plen := 0, cs_part := 0\<rparr>) })"

definition bcopy_residue_words ::
    "nat \<Rightarrow> nat \<Rightarrow> byte list \<Rightarrow> nat \<Rightarrow> 'a::len word bcopy_state \<Rightarrow> 'a word bcopy_state option" where
  "bcopy_residue_words w sa s residue st = do {
     (p, c) \<leftarrow> (if ALIGNED w (sa + cs_src st)
                then csum_count (rd_deref w sa s) w (residue div w) (cs_src st, cs_csum st)
                else csum_count (rd_memcpy w s) w (residue div w) (cs_src st, cs_csum st));
     let rest = szsub residue ((residue div w) * w);
     let st1 = st\<lparr>cs_src := p, cs_csum := c\<rparr>;
     if rest \<noteq> 0 then do {
       bs \<leftarrow> mem_get s (cs_src st1) rest;
       temp \<leftarrow> memcpy_temp w 0 0 bs;
       Some (st1\<lparr>cs_csum := cs_csum st1 + temp, cs_part := temp, cs_plen := rest\<rparr>) }
     else Some st1 }"

definition bcopy_residue :: "nat \<Rightarrow> nat \<Rightarrow> byte list \<Rightarrow> nat \<Rightarrow> 'a::len word bcopy_state \<Rightarrow> 'a word bcopy_state option" where
  "bcopy_residue w sa s residue st = do {
     st1 \<leftarrow> (if cs_len st \<noteq> 0 then bcopy_last w s st else Some st);
     (res, st2) \<leftarrow> bcopy_residue_fill w s residue st1;
     bcopy_residue_words w sa s res st2 }"

definition bcopy_csum_partial ::
    "nat \<Rightarrow> nat \<Rightarrow> byte list \<Rightarrow> nat \<Rightarrow> byte list \<Rightarrow> nat \<Rightarrow> nat \<Rightarrow> 'a::len word \<Rightarrow> nat \<Rightarrow>
     ('a word \<times> byte list \<times> 'a word \<times> nat) option" where
  "bcopy_csum_partial w sa s da d copylen csumlen part plen =
     (let residue = (if csumlen > copylen then csumlen - copylen else 0);
          st = \<lparr>cs_src = 0, cs_len = copylen, cs_csum = 0, cs_part = part, cs_plen = plen,
                bc_dest = 0, bc_mem = d\<rparr>
      in do {
        (ret, st1) \<leftarrow>
          (if ALIGNED w sa \<and> ALIGNED w da then bcopy_head_both w sa da s residue st
           else if ALIGNED w sa then map_option (Pair False) (bcopy_head_source w sa da s st)
           else if ALIGNED w da then map_option (Pair False) (bcopy_head_dest w sa da s st)
           else map_option (Pair False) (bcopy_head_neither w sa da s st));
        st2 \<leftarrow>
          (if ret then Some st1
           else if cs_len st1 \<noteq> 0 \<and> residue = 0 then bcopy_tail w s st1
           else if residue \<noteq> 0 then bcopy_residue w sa s residue st1
           else Some st1);
        Some (cs_csum st2, bc_mem st2, cs_part st2, cs_plen st2) })"

definition opal_bcopy_csum_partial ::
    "nat \<Rightarrow> byte list \<Rightarrow> nat \<Rightarrow> byte list \<Rightarrow> nat \<Rightarrow> nat \<Rightarrow> 64 word \<Rightarrow> nat \<Rightarrow>
     (64 word \<times> byte list \<times> 64 word \<times> nat) option" where
  "opal_bcopy_csum_partial = bcopy_csum_partial 8"

definition opal_bcopy_uicsum_partial ::
    "nat \<Rightarrow> byte list \<Rightarrow> nat \<Rightarrow> byte list \<Rightarrow> nat \<Rightarrow> nat \<Rightarrow> 32 word \<Rightarrow> nat \<Rightarrow>
     (32 word \<times> byte list \<times> 32 word \<times> nat) option" where
  "opal_bcopy_uicsum_partial = bcopy_csum_partial 4"

section \<open>Reference checksum\<close>

text \<open>The sum of the words of a byte stream, the last one padded with zero bytes, and the bytes
  of its last, incomplete word.\<close>

function chk :: "nat \<Rightarrow> byte list \<Rightarrow> 'a::len word" where
  "chk w bs = (if bs = [] \<or> w = 0 then 0 else le_word (take w bs) + chk w (drop w bs))"
  by pat_completeness auto
termination by (relation "measure (\<lambda>(w, bs). length bs)") auto

declare chk.simps [simp del]

definition resid :: "nat \<Rightarrow> byte list \<Rightarrow> byte list" where
  "resid w bs = drop (length bs - length bs mod w) bs"

lemma chk_Nil [simp]: "chk w [] = 0"
  by (simp add: chk.simps)

lemma chk_word: "0 < w \<Longrightarrow> length bs = w \<Longrightarrow> chk w (bs @ cs) = le_word bs + chk w cs"
  by (subst chk.simps) auto

lemma chk_short: "length bs \<le> w \<Longrightarrow> chk w bs = le_word bs"
  by (subst chk.simps) auto

lemma chk_append: "w dvd length xs \<Longrightarrow> chk w (xs @ ys) = chk w xs + chk w ys"
proof (induction w xs rule: chk.induct)
  case (1 w xs)
  show ?case
  proof (cases "xs = [] \<or> w = 0")
    case True
    then show ?thesis using "1.prems" by auto
  next
    case False
    then have "w \<le> length xs" using "1.prems" dvd_imp_le by blast
    with False "1.prems" "1.IH" show ?thesis by (simp add: chk.simps [of w "xs @ ys"] chk.simps [of w xs])
  qed
qed

lemma length_resid [simp]: "length (resid w bs) = length bs mod w"
  by (simp add: resid_def)

lemma resid_split:
  obtains us where "bs = us @ resid w bs" and "w dvd length us"
proof
  let ?us = "take (length bs - length bs mod w) bs"
  show "bs = ?us @ resid w bs" by (simp add: resid_def)
  show "w dvd length ?us" by (simp add: minus_mod_eq_div_mult min_absorb2 div_times_less_eq_dividend)
qed

lemma resid_unique:
  assumes "bs = us @ vs" and "w dvd length us" and "length vs < w"
  shows "resid w bs = vs"
  using assms by (auto simp: resid_def mod_add_eq elim!: dvdE)

lemma resid_append: "0 < w \<Longrightarrow> resid w (bs @ cs) = resid w (resid w bs @ cs)"
proof -
  assume w: "0 < w"
  obtain us where us: "bs = us @ resid w bs" "w dvd length us" by (rule resid_split)
  obtain vs where vs: "resid w bs @ cs = vs @ resid w (resid w bs @ cs)" "w dvd length vs"
    by (rule resid_split)
  show ?thesis
  proof (rule resid_unique [of _ "us @ vs"])
    show "bs @ cs = (us @ vs) @ resid w (resid w bs @ cs)" using us(1) vs(1) by (metis append.assoc)
    show "w dvd length (us @ vs)" using us(2) vs(2) by simp
  qed (use w in simp)
qed

lemma resid_word: "0 < w \<Longrightarrow> length bs = w \<Longrightarrow> resid w (bs @ cs) = resid w cs"
  using resid_append [of w bs cs] by (simp add: resid_def [of w bs])

lemma chk_resid: "0 < w \<Longrightarrow> (chk w (bs @ cs) :: 'a::len word) = chk w bs + (chk w (resid w bs @ cs) - le_word (resid w bs))"
proof -
  assume w: "0 < w"
  obtain us where us: "bs = us @ resid w bs" "w dvd length us" by (rule resid_split)
  have "(chk w (bs @ cs) :: 'a word) = chk w us + chk w (resid w bs @ cs)"
    using us chk_append [OF us(2), of "resid w bs @ cs"] by (metis append.assoc)
  moreover have "(chk w bs :: 'a word) = chk w us + le_word (resid w bs)"
    using chk_append [OF us(2), of "resid w bs"] us(1) chk_short [of "resid w bs" w] w
    by (metis length_resid less_imp_le mod_less_divisor)
  ultimately show ?thesis by simp
qed

section \<open>The loops\<close>

definition reads :: "(nat \<Rightarrow> 'a::len word option) \<Rightarrow> nat \<Rightarrow> byte list \<Rightarrow> nat \<Rightarrow> bool" where
  "reads rd w s p \<longleftrightarrow> (\<forall>n. p + n * w + w \<le> length s \<longrightarrow> rd (p + n * w) = Some (le_word (take w (drop (p + n * w) s))))"

definition writes :: "(byte list \<Rightarrow> nat \<Rightarrow> 'a::len word \<Rightarrow> byte list option) \<Rightarrow> nat \<Rightarrow> nat \<Rightarrow> bool" where
  "writes wr w q \<longleftrightarrow> (\<forall>n d t. wr d (q + n * w) t = mem_put d (q + n * w) (le_bytes w t))"

lemma reads_memcpy [simp]: "reads (rd_memcpy w s) w s p"
  by (simp add: reads_def rd_memcpy_def mem_get_def)

lemma reads_deref: "ALIGNED w (sa + p) \<Longrightarrow> reads (rd_deref w sa s) w s p"
  by (auto simp: reads_def rd_deref_def mem_get_def ALIGNED_def add.assoc [symmetric])

lemma writes_memcpy [simp]: "writes (wr_memcpy w) w q"
  by (simp add: writes_def wr_memcpy_def)

lemma writes_deref: "ALIGNED w (da + q) \<Longrightarrow> writes (wr_deref w da) w q"
  by (auto simp: writes_def wr_deref_def ALIGNED_def add.assoc [symmetric])

lemma reads_step:
  assumes "reads rd w s p"
  shows "p + w \<le> length s \<Longrightarrow> rd p = Some (le_word (take w (drop p s)))" and "reads rd w s (p + w)"
proof -
  show "p + w \<le> length s \<Longrightarrow> rd p = Some (le_word (take w (drop p s)))"
    using assms by (auto simp: reads_def dest: spec [of _ 0])
  have "p + w + n * w = p + Suc n * w" for n by simp
  then show "reads rd w s (p + w)" using assms unfolding reads_def by metis
qed

lemma writes_step:
  assumes "writes wr w q"
  shows "wr d q t = mem_put d q (le_bytes w t)" and "writes wr w (q + w)"
proof -
  show "wr d q t = mem_put d q (le_bytes w t)"
    using assms by (auto simp: writes_def dest: spec [of _ 0])
  have "q + w + n * w = q + Suc n * w" for n by simp
  then show "writes wr w (q + w)" using assms unfolding writes_def by metis
qed

lemma take_Suc_words: "take (Suc n * w) (drop p s) = take w (drop p s) @ take (n * w) (drop (p + w) s)"
  by (simp add: take_add add.commute)

lemma csum_count_ok:
  "reads rd w s p \<Longrightarrow> 0 < w \<Longrightarrow> p + n * w \<le> length s \<Longrightarrow>
   csum_count rd w n (p, c :: 'a::len word) = Some (p + n * w, c + chk w (take (n * w) (drop p s)))"
proof (induction n arbitrary: p c)
  case (Suc n)
  have "length (take w (drop p s)) = w" using Suc.prems by simp
  then have "(chk w (take (Suc n * w) (drop p s)) :: 'a word) = le_word (take w (drop p s)) + chk w (take (n * w) (drop (p + w) s))"
    unfolding take_Suc_words using Suc.prems by (simp only: chk_word)
  with Suc reads_step [OF Suc.prems(1)] show ?case by (simp add: add.assoc)
qed simp

lemma csum_drain_count:
  assumes "0 < w"
  shows "csum_drain rd w len (p, c) =
         map_option (\<lambda>(p, c). (len mod w, p, c)) (csum_count rd w (len div w) (p, c))"
proof (induction len arbitrary: p c rule: less_induct)
  case (less len)
  show ?case
  proof (cases "w \<le> len")
    case False
    then show ?thesis by (simp add: csum_drain.simps)
  next
    case True
    then have "len div w = Suc ((len - w) div w)" "len mod w = (len - w) mod w"
      using assms by (simp_all add: le_div_geq le_mod_geq)
    with True assms less [of "len - w"] show ?thesis
      by (cases "rd p") (simp_all add: csum_drain.simps [of rd w len])
  qed
qed

lemma bcopy_count_ok:
  assumes "8 * w \<le> LENGTH('a)"
  shows "reads rd w s p \<Longrightarrow> writes wr w q \<Longrightarrow> 0 < w \<Longrightarrow> p + n * w \<le> length s \<Longrightarrow> q + n * w \<le> length d \<Longrightarrow>
   bcopy_count rd wr w n (p, q, d, c :: 'a::len word) =
     map_option (\<lambda>d'. (p + n * w, q + n * w, d', c + chk w (take (n * w) (drop p s))))
       (mem_put d q (take (n * w) (drop p s)))"
proof (induction n arbitrary: p q d c)
  case (Suc n)
  let ?b = "take w (drop p s)"
  have len: "length ?b = w" using Suc.prems by simp
  then have le: "le_bytes w (le_word ?b :: 'a word) = ?b" using le_bytes_le_word assms by blast
  have "q + length ?b \<le> length d" unfolding len using Suc.prems(5) by simp
  then obtain d1 where d1: "mem_put d q ?b = Some d1" by (simp add: mem_put_def)
  then have d1_len: "length d1 = length d" by (rule mem_put_length)
  have "mem_put d1 (q + w) (take (n * w) (drop (p + w) s)) = mem_put d q (take (Suc n * w) (drop p s))"
    using mem_put_append [OF d1] len unfolding take_Suc_words by simp
  moreover have "(chk w (take (Suc n * w) (drop p s)) :: 'a word) = le_word ?b + chk w (take (n * w) (drop (p + w) s))"
    unfolding take_Suc_words using Suc.prems len by (simp only: chk_word)
  ultimately show ?case
    using Suc d1 d1_len le reads_step [OF Suc.prems(1)] writes_step [OF Suc.prems(2)] by (simp add: add.assoc)
qed simp

lemma bcopy_drain_count:
  assumes "0 < w"
  shows "bcopy_drain rd wr w len (p, q, d, c) =
         map_option (\<lambda>(p, q, d, c). (len mod w, p, q, d, c)) (bcopy_count rd wr w (len div w) (p, q, d, c))"
proof (induction len arbitrary: p q d c rule: less_induct)
  case (less len)
  show ?case
  proof (cases "w \<le> len")
    case False
    then show ?thesis by (simp add: bcopy_drain.simps)
  next
    case True
    then have "len div w = Suc ((len - w) div w)" "len mod w = (len - w) mod w"
      using assms by (simp_all add: le_div_geq le_mod_geq)
    with True assms less [of "len - w"] show ?thesis
      by (cases "rd p") (auto simp: bcopy_drain.simps [of rd wr w len] split: bind_split)
  qed
qed

section \<open>Partial words\<close>

lemma le_bytes_pad:
  assumes "length pre \<le> w" and "8 * w \<le> LENGTH('a)"
  shows "le_bytes w (le_word pre :: 'a::len word) = pre @ replicate (w - length pre) 0"
  using le_bytes_le_word [of "pre @ replicate (w - length pre) 0" w, where 'a = 'a] assms by simp

lemma memcpy_temp_ok:
  assumes "length pre + length bs \<le> w" and "8 * w \<le> LENGTH('a)"
  shows "memcpy_temp w (le_word pre :: 'a::len word) (length pre) bs = Some (le_word (pre @ bs))"
proof -
  have "mem_put (pre @ replicate (w - length pre) 0) (length pre) bs =
        Some ((pre @ bs) @ replicate (w - length pre - length bs) 0)"
    using assms(1) by (simp add: mem_put_def)
  moreover have "le_bytes w (le_word pre :: 'a word) = pre @ replicate (w - length pre) 0"
    using assms by (intro le_bytes_pad) auto
  ultimately show ?thesis unfolding memcpy_temp_def by (simp only: option.map le_word_append_zeros)
qed

lemma memcpy_temp_zero:
  "length bs \<le> w \<Longrightarrow> 8 * w \<le> LENGTH('a) \<Longrightarrow> memcpy_temp w (0 :: 'a::len word) 0 bs = Some (le_word bs)"
  using memcpy_temp_ok [of "[]" bs w, where 'a = 'a] by simp

text \<open>The bytes of a patched temporary, read back.\<close>

lemma temp_bytes:
  assumes "length pre + length bs \<le> w" and "8 * w \<le> LENGTH('a)"
  shows "take (length bs) (drop (length pre) (le_bytes w (le_word (pre @ bs) :: 'a::len word))) = bs"
proof -
  have "le_bytes w (le_word (pre @ bs) :: 'a word) = (pre @ bs) @ replicate (w - length (pre @ bs)) 0"
    using assms by (intro le_bytes_pad) auto
  then show ?thesis by simp
qed

lemma csum_by_count_ok:
  assumes "reads rd w s (cs_src st)" and "0 < w" and "cs_src st + cs_len st \<le> length s"
  shows "csum_by_count rd w st =
     (let m = cs_len st div w * w in
      Some (st\<lparr>cs_src := cs_src st + m, cs_csum := cs_csum st + chk w (take m (drop (cs_src st) s)),
               cs_len := cs_len st mod w, cs_part := 0, cs_plen := 0\<rparr>))"
proof -
  let ?m = "cs_len st div w * w"
  have m: "?m \<le> cs_len st" by simp
  then have "cs_src st + ?m \<le> length s" using assms(3) by linarith
  then show ?thesis
    using csum_count_ok [OF assms(1,2), of "cs_len st div w"] m
    by (simp add: csum_by_count_def Let_def minus_div_mult_eq_mod)
qed

lemma csum_by_drain_ok:
  assumes "0 < w" and "cs_src st + cs_len st \<le> length s"
  shows "csum_by_drain rd w st = csum_by_count rd w st"
proof -
  have "cs_len st div w * w \<le> cs_len st" by simp
  then show ?thesis
    using assms by (simp add: csum_by_drain_def csum_by_count_def csum_drain_count
        map_option_case minus_div_mult_eq_mod split: option.split)
qed

text \<open>
  The state after the alignment-dependent part, for a partial word \<open>pre\<close>: whole words are
  consumed, or everything went into the partial word.
\<close>

definition csum_mid :: "nat \<Rightarrow> byte list \<Rightarrow> byte list \<Rightarrow> nat \<Rightarrow> 'a::len word csum_state" where
  "csum_mid w pre s len =
     (if pre = [] \<or> w \<le> length pre + len then
        (let n = (length pre + len) div w * w - length pre
         in \<lparr>cs_src = n, cs_len = (length pre + len) mod w,
             cs_csum = chk w (pre @ take n s) - le_word pre, cs_part = 0, cs_plen = 0\<rparr>)
      else \<lparr>cs_src = len, cs_len = 0, cs_csum = le_word (pre @ take len s) - le_word pre,
            cs_part = le_word (pre @ take len s), cs_plen = length pre + len\<rparr>)"

definition csum_start :: "byte list \<Rightarrow> nat \<Rightarrow> 'a::len word csum_state" where
  "csum_start pre len = \<lparr>cs_src = 0, cs_len = len, cs_csum = 0, cs_part = le_word pre, cs_plen = length pre\<rparr>"

text \<open>Arithmetic of a filled partial word.\<close>

lemma fill_arith:
  assumes "pre \<noteq> []" and "length pre < w" and "w \<le> length pre + len"
  shows "(length pre + len) div w * w - length pre = w - length pre + (len - (w - length pre)) div w * w"
    and "(length pre + len) mod w = (len - (w - length pre)) mod w"
proof -
  obtain k where k: "length pre + len = w + k" using assms(3) le_Suc_ex by blast
  have "0 < w" using assms(2) by simp
  then have "(length pre + len) div w = Suc (k div w)" "(length pre + len) mod w = k mod w"
    by (simp_all add: k div_add_self1)
  moreover have "len - (w - length pre) = k" using k assms(2) by linarith
  ultimately show "(length pre + len) div w * w - length pre = w - length pre + (len - (w - length pre)) div w * w"
    and "(length pre + len) mod w = (len - (w - length pre)) mod w"
    using assms(2) by simp_all
qed

lemma csum_fill_yes_mid:
  assumes "pre \<noteq> []" and "length pre < w" and "w \<le> length pre + len" and "len \<le> length s"
    and "8 * w \<le> LENGTH('a)" and "\<And>p. reads (rd p) w s p"
  shows "do { st1 \<leftarrow> csum_fill_yes w s (csum_start pre len); csum_by_count (rd (cs_src st1)) w st1 } =
         Some (csum_mid w pre s len :: 'a::len word csum_state)"
proof -
  define n where "n = w - length pre"
  let ?bs = "take n s"
  let ?m = "(len - n) div w * w"
  have n: "n \<le> len" "n \<le> length s" "0 < w" "szsub w (length pre) = n" "length pre + n = w"
    using assms by (simp_all add: n_def)
  have lbs: "length (pre @ ?bs) = w" using n by simp
  have fill: "csum_fill_yes w s (csum_start pre len) =
      Some (\<lparr>cs_src = n, cs_len = len - n, cs_csum = le_word (pre @ ?bs) - le_word pre,
             cs_part = le_word pre, cs_plen = length pre\<rparr> :: 'a word csum_state)"
    using n assms(5) memcpy_temp_ok [of pre ?bs w, where 'a = 'a]
    by (simp add: csum_fill_yes_def csum_start_def Let_def mem_get_def)
  have "take (n + ?m) s = ?bs @ take ?m (drop n s)" by (simp add: take_add)
  then have "(chk w (pre @ take (n + ?m) s) :: 'a word) = le_word (pre @ ?bs) + chk w (take ?m (drop n s))"
    using chk_word [OF n(3) lbs, of "take ?m (drop n s)", where 'a = 'a] by simp
  then show ?thesis
    unfolding fill csum_mid_def
    using assms(3,4,6) n fill_arith [OF assms(1-3), folded n_def] by (simp add: csum_by_count_ok [where s = s] Let_def)
qed

lemma csum_fill_no_mid:
  assumes "pre \<noteq> []" and "length pre + len < w" and "len \<le> length s" and "8 * w \<le> LENGTH('a)"
  shows "csum_fill_no w s (csum_start pre len) = Some (csum_mid w pre s len :: 'a::len word csum_state)"
  using assms memcpy_temp_ok [of pre "take len s" w, where 'a = 'a]
  by (simp add: csum_fill_no_def csum_start_def csum_mid_def mem_get_def)

lemma csum_count_mid:
  assumes "reads rd w s 0" and "0 < w" and "len \<le> length s"
  shows "csum_by_count rd w (csum_start [] len) = Some (csum_mid w [] s len :: 'a::len word csum_state)"
  using assms by (simp add: csum_by_count_ok [where s = s] csum_start_def csum_mid_def Let_def)

lemma csum_head_aligned_ok:
  assumes "length pre < w" and "len \<le> length s" and "8 * w \<le> LENGTH('a)" and "ALIGNED w sa"
  shows "csum_head_aligned w sa s (csum_start pre len) =
         Some (pre = [] \<and> w dvd len, csum_mid w pre s len :: 'a::len word csum_state)"
proof (cases "pre = []")
  case True
  have "csum_by_count (rd_deref w sa s) w (csum_start [] len) = Some (csum_mid w [] s len :: 'a word csum_state)"
    using assms by (intro csum_count_mid reads_deref) auto
  with True show ?thesis
    by (simp add: csum_head_aligned_def csum_start_def ALIGNED_def mod_eq_0_iff_dvd)
next
  case pre: False
  show ?thesis
  proof (cases "w \<le> length pre + len")
    case True
    then have "\<not> len < w - length pre" by linarith
    with pre True show ?thesis
      using csum_fill_yes_mid [OF pre assms(1) True assms(2,3), of "\<lambda>_. rd_memcpy w s"] assms(1)
      by (simp add: csum_head_aligned_def csum_start_def bind_eq_Some_conv)
  next
    case False
    then have "len < w - length pre" by linarith
    with False pre show ?thesis
      using csum_fill_no_mid [OF pre _ assms(2,3)] assms(1)
      by (simp add: csum_head_aligned_def csum_start_def)
  qed
qed

lemma csum_head_unaligned_ok:
  assumes "length pre < w" and "len \<le> length s" and "8 * w \<le> LENGTH('a)"
  shows "csum_head_unaligned w sa s (csum_start pre len) =
         Some (False, csum_mid w pre s len :: 'a::len word csum_state)"
proof (cases "pre = []")
  case True
  have "csum_by_count (rd_memcpy w s) w (csum_start [] len) = Some (csum_mid w [] s len :: 'a word csum_state)"
    using assms by (intro csum_count_mid) auto
  with True show ?thesis
    using assms csum_by_drain_ok [of w "csum_start [] len :: 'a word csum_state" s "rd_memcpy w s"]
    by (simp add: csum_head_unaligned_def csum_start_def)
next
  case pre: False
  show ?thesis
  proof (cases "w \<le> length pre + len")
    case True
    let ?rd = "\<lambda>p. if ALIGNED w (sa + p) then rd_deref w sa s else rd_memcpy w s :: nat \<Rightarrow> 'a word option"
    have "\<not> len < w - length pre" using True by linarith
    moreover have "reads (?rd p) w s p" for p by (simp add: reads_deref)
    ultimately show ?thesis using pre True
      using csum_fill_yes_mid [OF pre assms(1) True assms(2,3), of ?rd] assms(1)
      by (simp add: csum_head_unaligned_def csum_start_def bind_eq_Some_conv if_distrib) (fastforce split: if_splits)
  next
    case False
    then have "len < w - length pre" by linarith
    with False pre show ?thesis
      using csum_fill_no_mid [OF pre _ assms(2,3)] assms(1)
      by (simp add: csum_head_unaligned_def csum_start_def)
  qed
qed

text \<open>The words consumed by the first part end where the last, incomplete word starts.\<close>

lemma mid_split:
  assumes "length pre < w" and "len \<le> length s" and "pre = [] \<or> w \<le> length pre + len"
  defines "n \<equiv> (length pre + len) div w * w - length pre"
  shows "n + (length pre + len) mod w = len" and "w dvd length (pre @ take n s)"
    and "pre @ take len s = (pre @ take n s) @ take ((length pre + len) mod w) (drop n s)"
    and "resid w (pre @ take len s) = take ((length pre + len) mod w) (drop n s)"
proof -
  have w: "0 < w" using assms(1) by simp
  have le: "length pre \<le> (length pre + len) div w * w"
  proof (cases "pre = []")
    case False
    then have "1 \<le> (length pre + len) div w" using assms(3) w by (simp add: Suc_le_eq div_greater_zero_iff)
    then have "1 * w \<le> (length pre + len) div w * w" by (rule mult_le_mono1)
    then show ?thesis using assms(1) by linarith
  qed simp
  have "(length pre + len) div w * w + (length pre + len) mod w = length pre + len" by simp
  with le show n: "n + (length pre + len) mod w = len" unfolding n_def by linarith
  then have "n \<le> length s" using assms(2) by linarith
  then have "length (pre @ take n s) = (length pre + len) div w * w"
    using le by (simp add: n_def)
  then show dv: "w dvd length (pre @ take n s)" by simp
  have "take len s = take n s @ take ((length pre + len) mod w) (drop n s)"
    using n by (metis take_add)
  then show split: "pre @ take len s = (pre @ take n s) @ take ((length pre + len) mod w) (drop n s)" by simp
  show "resid w (pre @ take len s) = take ((length pre + len) mod w) (drop n s)"
    by (rule resid_unique [OF split dv]) (use w in \<open>simp add: min_less_iff_disj\<close>)
qed

lemma csum_tail_ok:
  assumes "length pre < w" and "len \<le> length s" and "8 * w \<le> LENGTH('a)"
  shows "\<exists>st. csum_tail w s (csum_mid w pre s len) = Some st \<and>
           cs_csum st = (chk w (pre @ take len s) - le_word pre :: 'a::len word) \<and>
           cs_part st = le_word (resid w (pre @ take len s)) \<and> cs_plen st = (length pre + len) mod w"
proof (cases "pre = [] \<or> w \<le> length pre + len")
  case True
  let ?n = "(length pre + len) div w * w - length pre" and ?r = "(length pre + len) mod w"
  note mid = mid_split [OF assms(1,2) True]
  have "(chk w (pre @ take len s) :: 'a word) = chk w (pre @ take ?n s) + le_word (take ?r (drop ?n s))"
    unfolding mid(3) chk_append [OF mid(2)]
    using assms(1) by (simp add: chk_short min_le_iff_disj less_imp_le)
  moreover have "memcpy_temp w (0 :: 'a word) 0 (take ?r (drop ?n s)) = Some (le_word (take ?r (drop ?n s)))"
    using assms(1,3) by (intro memcpy_temp_zero) (simp_all add: min_le_iff_disj less_imp_le)
  ultimately show ?thesis
    using True mid(1,4) assms(2) by (auto simp: csum_tail_def csum_mid_def Let_def mem_get_def)
next
  case False
  have "resid w (pre @ take len s) = pre @ take len s"
    using False by (intro resid_unique [where us = "[]"]) auto
  with False assms show ?thesis by (simp add: csum_tail_def csum_mid_def chk_short)
qed

lemma csum_partial_ok:
  assumes "length pre < w" and "len \<le> length s" and "8 * w \<le> LENGTH('a)"
  shows "csum_partial w sa s len (le_word pre) (length pre) =
         Some (chk w (pre @ take len s) - le_word pre :: 'a::len word,
               le_word (resid w (pre @ take len s)), (length pre + len) mod w)"
proof -
  obtain st where st: "csum_tail w s (csum_mid w pre s len) = Some st"
    "cs_csum st = (chk w (pre @ take len s) - le_word pre :: 'a word)"
    "cs_part st = le_word (resid w (pre @ take len s))" "cs_plen st = (length pre + len) mod w"
    using csum_tail_ok [OF assms] by blast
  have "csum_tail w s (csum_mid w pre s len) = Some (csum_mid w pre s len :: 'a word csum_state)"
    if "pre = []" "w dvd len" using that by (simp add: csum_tail_def csum_mid_def)
  then have "(if pre = [] \<and> w dvd len then Some (csum_mid w pre s len) else csum_tail w s (csum_mid w pre s len)) = Some st"
    using st(1) by auto
  then show ?thesis
    using csum_head_aligned_ok [OF assms, of sa] csum_head_unaligned_ok [OF assms, of sa] st
    by (cases "ALIGNED w sa") (simp_all add: csum_partial_def csum_start_def del: if_split)
qed

section \<open>The copying variant simulates the plain one\<close>

text \<open>The copying state that goes with a plain one: what has been read has been copied.\<close>

definition bc_ext :: "byte list \<Rightarrow> byte list \<Rightarrow> 'a::len word csum_state \<Rightarrow> 'a word bcopy_state" where
  "bc_ext s d st =
     \<lparr>cs_src = cs_src st, cs_len = cs_len st, cs_csum = cs_csum st, cs_part = cs_part st,
      cs_plen = cs_plen st, bc_dest = cs_src st, bc_mem = take (cs_src st) s @ drop (cs_src st) d\<rparr>"

lemma bc_ext_simps [simp]:
  "cs_src (bc_ext s d st) = cs_src st" "cs_len (bc_ext s d st) = cs_len st"
  "cs_csum (bc_ext s d st) = cs_csum st" "cs_part (bc_ext s d st) = cs_part st"
  "cs_plen (bc_ext s d st) = cs_plen st" "bc_dest (bc_ext s d st) = cs_src st"
  "bc_mem (bc_ext s d st) = take (cs_src st) s @ drop (cs_src st) d"
  by (simp_all add: bc_ext_def)

lemma csum_start_simps [simp]:
  "cs_src (csum_start pre len) = 0" "cs_len (csum_start pre len) = len" "cs_csum (csum_start pre len) = 0"
  "cs_part (csum_start pre len) = le_word pre" "cs_plen (csum_start pre len) = length pre"
  by (simp_all add: csum_start_def)

lemma copy_step:
  assumes "p + n \<le> length s" and "p + n \<le> length d"
  shows "mem_put (take p s @ drop p d) p (take n (drop p s)) = Some (take (p + n) s @ drop (p + n) d)"
  using assms by (simp add: mem_put_def take_add add.commute [of n p])

lemma bcopy_by_count_sim:
  assumes "reads rd w s (cs_src st)" and "writes wr w (cs_src st)" and "0 < w" and "8 * w \<le> LENGTH('a)"
    and "cs_src st + cs_len st \<le> length s" and "cs_src st + cs_len st \<le> length d"
  shows "bcopy_by_count rd wr w (bc_ext s d st) =
         map_option (bc_ext s d) (csum_by_count rd w (st :: 'a::len word csum_state))"
proof -
  let ?m = "cs_len st div w * w"
  have m: "?m \<le> cs_len st" by simp
  then have le: "cs_src st + ?m \<le> length s" "cs_src st + ?m \<le> length d" using assms(5,6) by linarith+
  have "length (take (cs_src st) s @ drop (cs_src st) d) = length d" using le by simp
  then show ?thesis
    using bcopy_count_ok [OF assms(4,1,2,3) le(1)] copy_step [OF le] csum_by_count_ok [OF assms(1,3,5)] le m
    by (simp add: bcopy_by_count_def bc_ext_def Let_def minus_div_mult_eq_mod)
qed

lemma bcopy_by_drain_sim:
  assumes "0 < w"
  shows "bcopy_by_drain rd wr w st = bcopy_by_count rd wr w st"
proof -
  have "cs_len st div w * w \<le> cs_len st" by simp
  then show ?thesis
    using assms by (simp add: bcopy_by_drain_def bcopy_by_count_def bcopy_drain_count
        map_option_case minus_div_mult_eq_mod split: option.split)
qed

lemma bcopy_fill_yes_sim:
  assumes "length pre < w" and "w \<le> length pre + len" and "len \<le> length s" and "len \<le> length d"
    and "8 * w \<le> LENGTH('a)"
  shows "bcopy_fill_yes w s (bc_ext s d (csum_start pre len)) =
         map_option (bc_ext s d) (csum_fill_yes w s (csum_start pre len :: 'a::len word csum_state))"
proof -
  define n where "n = w - length pre"
  have n: "n \<le> length s" "n \<le> length d" "szsub w (length pre) = n" "length pre + n = w"
    using assms by (simp_all add: n_def)
  then have "take n (drop (length pre) (le_bytes w (le_word (pre @ take n s) :: 'a word))) = take n s"
    using temp_bytes [of pre "take n s" w, where 'a = 'a] assms(5) by simp
  moreover have "mem_put d 0 (take n s) = Some (take n s @ drop n d)"
    using copy_step [of 0 n s d] n by simp
  ultimately show ?thesis
    using n assms(5) memcpy_temp_ok [of pre "take n s" w, where 'a = 'a]
    by (simp add: bcopy_fill_yes_def csum_fill_yes_def csum_start_def bc_ext_def Let_def mem_get_def)
qed

lemma bcopy_fill_no_sim:
  assumes "length pre + len < w" and "len \<le> length s" and "len \<le> length d" and "8 * w \<le> LENGTH('a)"
  shows "bcopy_fill_no w s (bc_ext s d (csum_start pre len)) =
         map_option (bc_ext s d) (csum_fill_no w s (csum_start pre len :: 'a::len word csum_state))"
proof -
  have "take len (drop (length pre) (le_bytes w (le_word (pre @ take len s) :: 'a word))) = take len s"
    using temp_bytes [of pre "take len s" w, where 'a = 'a] assms by simp
  moreover have "mem_put d 0 (take len s) = Some (take len s @ drop len d)"
    using copy_step [of 0 len s d] assms by simp
  ultimately show ?thesis
    using assms memcpy_temp_ok [of pre "take len s" w, where 'a = 'a]
    by (simp add: bcopy_fill_no_def csum_fill_no_def csum_start_def bc_ext_def mem_get_def)
qed

text \<open>Filling the partial word and then copying whole words, whatever accesses the branch uses.\<close>

lemma bcopy_yes_mid:
  assumes "pre \<noteq> []" and "length pre < w" and "w \<le> length pre + len" and "len \<le> length s" and "len \<le> length d"
    and "8 * w \<le> LENGTH('a)" and "\<And>p. reads (rd p) w s p" and "\<And>p. writes (wr p) w p"
  shows "\<exists>st1. bcopy_fill_yes w s (bc_ext s d (csum_start pre len)) = Some st1 \<and> bc_dest st1 = cs_src st1 \<and>
           bcopy_by_count (rd (cs_src st1)) (wr (cs_src st1)) w st1 =
             Some (bc_ext s d (csum_mid w pre s len :: 'a::len word csum_state))"
proof -
  obtain st1 :: "'a word csum_state" where st1: "csum_fill_yes w s (csum_start pre len) = Some st1"
    "csum_by_count (rd (cs_src st1)) w st1 = Some (csum_mid w pre s len)"
    using csum_fill_yes_mid [OF assms(1-4,6), of rd] assms(7) by (auto simp: bind_eq_Some_conv)
  have "cs_src st1 + cs_len st1 = len"
    using st1(1) assms(2,3) by (auto simp: csum_fill_yes_def csum_start_def Let_def bind_eq_Some_conv)
  then have "bcopy_by_count (rd (cs_src st1)) (wr (cs_src st1)) w (bc_ext s d st1) =
      map_option (bc_ext s d) (csum_by_count (rd (cs_src st1)) w st1)"
    using assms by (intro bcopy_by_count_sim) auto
  moreover have "bcopy_fill_yes w s (bc_ext s d (csum_start pre len)) = Some (bc_ext s d st1)"
    using bcopy_fill_yes_sim [OF assms(2-6)] st1(1) by simp
  ultimately show ?thesis using st1(2) by (auto simp: bc_ext_def)
qed

lemma bcopy_count_mid:
  assumes "reads rd w s 0" and "writes wr w 0" and "0 < w" and "len \<le> length s" and "len \<le> length d"
    and "8 * w \<le> LENGTH('a)"
  shows "bcopy_by_count rd wr w (bc_ext s d (csum_start [] len)) =
         Some (bc_ext s d (csum_mid w [] s len :: 'a::len word csum_state))"
proof -
  have "bcopy_by_count rd wr w (bc_ext s d (csum_start [] len)) =
        map_option (bc_ext s d) (csum_by_count rd w (csum_start [] len :: 'a word csum_state))"
    using assms by (intro bcopy_by_count_sim) (auto simp: csum_start_def)
  then show ?thesis using csum_count_mid [OF assms(1,3,4)] by simp
qed

lemma bcopy_no_mid:
  assumes "pre \<noteq> []" and "length pre + len < w" and "len \<le> length s" and "len \<le> length d" and "8 * w \<le> LENGTH('a)"
  shows "bcopy_fill_no w s (bc_ext s d (csum_start pre len)) =
         Some (bc_ext s d (csum_mid w pre s len :: 'a::len word csum_state))"
  using bcopy_fill_no_sim [OF assms(2-5)] csum_fill_no_mid [OF assms(1-3,5)] by simp

lemma bcopy_head_both_ok:
  assumes "length pre < w" and "len \<le> length s" and "len \<le> length d" and "8 * w \<le> LENGTH('a)"
    and "ALIGNED w sa" and "ALIGNED w da"
  shows "bcopy_head_both w sa da s residue (bc_ext s d (csum_start pre len)) =
         Some (pre = [] \<and> w dvd len \<and> residue = 0, bc_ext s d (csum_mid w pre s len :: 'a::len word csum_state))"
proof (cases "pre = []")
  case True
  have "bcopy_by_count (rd_deref w sa s) (wr_deref w da) w (bc_ext s d (csum_start [] len)) =
      Some (bc_ext s d (csum_mid w [] s len :: 'a word csum_state))"
    using assms by (intro bcopy_count_mid reads_deref writes_deref) auto
  with True show ?thesis
    by (simp add: bcopy_head_both_def ALIGNED_def mod_eq_0_iff_dvd)
next
  case pre: False
  show ?thesis
  proof (cases "w \<le> length pre + len")
    case True
    then have "\<not> len < w - length pre" by linarith
    with pre True show ?thesis
      using bcopy_yes_mid [OF pre assms(1) True assms(2-4), of "\<lambda>_. rd_memcpy w s" "\<lambda>_. wr_memcpy w"] assms(1)
      by (auto simp: bcopy_head_both_def bcopy_by_drain_sim)
  next
    case False
    then have "len < w - length pre" by linarith
    with False pre show ?thesis
      using bcopy_no_mid [OF pre _ assms(2-4)] assms(1)
      by (simp add: bcopy_head_both_def)
  qed
qed

text \<open>The other three branches differ only in the accesses of their loops.\<close>

lemma bcopy_head_cases:
  assumes "length pre < w" and "len \<le> length s" and "len \<le> length d" and "8 * w \<le> LENGTH('a)"
    and "\<And>p. reads (rd p) w s p" and "\<And>p. writes (wr p) w p" and "reads rd0 w s 0" and "writes wr0 w 0"
  shows "(if pre \<noteq> [] then
            (if len \<ge> szsub w (length pre) then do {
               st1 \<leftarrow> bcopy_fill_yes w s (bc_ext s d (csum_start pre len));
               bcopy_by_count (rd (cs_src st1)) (wr (bc_dest st1)) w st1 }
             else bcopy_fill_no w s (bc_ext s d (csum_start pre len)))
          else bcopy_by_count rd0 wr0 w (bc_ext s d (csum_start pre len))) =
         Some (bc_ext s d (csum_mid w pre s len :: 'a::len word csum_state))"
proof (cases "pre = []")
  case True
  with assms show ?thesis using bcopy_count_mid [OF assms(7,8) _ assms(2-4)] by simp
next
  case pre: False
  show ?thesis
  proof (cases "w \<le> length pre + len")
    case True
    then have "\<not> len < w - length pre" by linarith
    with pre True show ?thesis
      using bcopy_yes_mid [OF pre assms(1) True assms(2-4), of rd wr] assms(1,5,6) by auto
  next
    case False
    then have "len < w - length pre" by linarith
    with False pre show ?thesis using bcopy_no_mid [OF pre _ assms(2-4)] assms(1) by simp
  qed
qed

lemma bcopy_heads_ok:
  assumes "length pre < w" and "len \<le> length s" and "len \<le> length d" and "8 * w \<le> LENGTH('a)"
  shows "ALIGNED w sa \<Longrightarrow> bcopy_head_source w sa da s (bc_ext s d (csum_start pre len)) =
           Some (bc_ext s d (csum_mid w pre s len :: 'a::len word csum_state))"
    and "ALIGNED w da \<Longrightarrow> bcopy_head_dest w sa da s (bc_ext s d (csum_start pre len)) =
           Some (bc_ext s d (csum_mid w pre s len :: 'a::len word csum_state))"
proof -
  let ?st = "bc_ext s d (csum_start pre len) :: 'a word bcopy_state"
  have w: "0 < w" using assms(1) by simp
  note body = bcopy_by_drain_sim [OF w] reads_deref writes_deref
  show "bcopy_head_source w sa da s ?st = Some (bc_ext s d (csum_mid w pre s len))" if "ALIGNED w sa"
    by (rule trans [OF _ bcopy_head_cases [OF assms, of "\<lambda>_. rd_memcpy w s"
        "\<lambda>q. if ALIGNED w (da + q) then wr_deref w da else wr_memcpy w" "rd_deref w sa s" "wr_memcpy w"]])
      (use that in \<open>auto simp: bcopy_head_source_def body intro!: Option.bind_cong\<close>)
  show "bcopy_head_dest w sa da s ?st = Some (bc_ext s d (csum_mid w pre s len))" if "ALIGNED w da"
    by (rule trans [OF _ bcopy_head_cases [OF assms, of
        "\<lambda>p. if ALIGNED w (sa + p) then rd_deref w sa s else rd_memcpy w s"
        "\<lambda>_. wr_memcpy w" "rd_memcpy w s" "wr_deref w da"]])
      (use that in \<open>auto simp: bcopy_head_dest_def body intro!: Option.bind_cong\<close>)
qed

lemma bcopy_head_neither_ok:
  assumes "length pre < w" and "len \<le> length s" and "len \<le> length d" and "8 * w \<le> LENGTH('a)"
  shows "bcopy_head_neither w sa da s (bc_ext s d (csum_start pre len)) =
           Some (bc_ext s d (csum_mid w pre s len :: 'a::len word csum_state))"
proof -
  let ?al = "\<lambda>p. ALIGNED w (sa + p) \<and> ALIGNED w (da + p)"
  let ?rd = "\<lambda>p. if ?al p then rd_deref w sa s else rd_memcpy w s :: nat \<Rightarrow> 'a word option"
  let ?wr = "\<lambda>p. if ?al p then wr_deref w da else wr_memcpy w :: byte list \<Rightarrow> nat \<Rightarrow> 'a word \<Rightarrow> byte list option"
  have w: "0 < w" using assms(1) by simp
  have dst: "bc_dest st1 = cs_src st1"
    if "bcopy_fill_yes w s (bc_ext s d (csum_start pre len)) = Some st1" for st1 :: "'a word bcopy_state"
    using that by (auto simp: bcopy_fill_yes_def Let_def bind_eq_Some_conv)
  show ?thesis
    by (rule trans [OF _ bcopy_head_cases [OF assms, of ?rd ?wr "rd_memcpy w s" "wr_memcpy w"]])
      (auto simp: bcopy_head_neither_def bcopy_by_drain_sim [OF w] reads_deref writes_deref dst
        intro!: Option.bind_cong)
qed

section \<open>The end of a copy\<close>

lemma bcopy_last_ok:
  assumes "p + r \<le> length s" and "p + r \<le> length d" and "r \<le> w" and "8 * w \<le> LENGTH('a)"
    and "cs_src st = p" and "bc_dest st = p" and "bc_mem st = take p s @ drop p d" and "cs_len st = r"
  shows "bcopy_last w s (st :: 'a::len word bcopy_state) = Some (st\<lparr>bc_mem := take (p + r) s @ drop (p + r) d\<rparr>)"
proof -
  let ?b = "take r (drop p s)"
  have "length ?b = r" using assms(1) by simp
  then have "memcpy_temp w (0 :: 'a word) 0 ?b = Some (le_word ?b)"
    "take r (le_bytes w (le_word ?b :: 'a word)) = ?b"
    using assms(3,4) memcpy_temp_zero [of ?b w] temp_bytes [of "[]" ?b w, where 'a = 'a] by simp_all
  with assms copy_step [OF assms(1,2)] show ?thesis by (simp add: bcopy_last_def mem_get_def)
qed

text \<open>Whole words and what is left, in the checksum of the bytes after a copy.\<close>

lemma chk_words_rest:
  assumes "0 < w" and "m \<le> length xs"
  shows "(chk w (take m xs) :: 'a::len word) =
         chk w (take (m div w * w) xs) + le_word (take (m mod w) (drop (m div w * w) xs))"
    and "resid w (take m xs) = take (m mod w) (drop (m div w * w) xs)"
proof -
  let ?k = "m div w * w"
  have k: "?k + m mod w = m" "?k \<le> length xs" using assms(2) by (simp, meson div_times_less_eq_dividend le_trans)
  then have split: "take m xs = take ?k xs @ take (m mod w) (drop ?k xs)" by (metis take_add)
  have dv: "w dvd length (take ?k xs)" using k(2) by simp
  show "(chk w (take m xs) :: 'a word) = chk w (take ?k xs) + le_word (take (m mod w) (drop ?k xs))"
    unfolding split chk_append [OF dv] using assms(1) by (simp add: chk_short min_le_iff_disj less_imp_le)
  show "resid w (take m xs) = take (m mod w) (drop ?k xs)"
    by (rule resid_unique [OF split dv]) (use assms(1) in \<open>simp add: min_less_iff_disj\<close>)
qed

lemma bcopy_residue_words_ok:
  fixes st :: "'a::len word bcopy_state"
  assumes "0 < w" and "p + res \<le> length s" and "8 * w \<le> LENGTH('a)" and "cs_src st = p"
    and "cs_part st = 0" and "cs_plen st = 0"
  shows "\<exists>st'. bcopy_residue_words w sa s res st = Some st' \<and>
           cs_csum st' = cs_csum st + chk w (take res (drop p s)) \<and>
           cs_part st' = le_word (resid w (take res (drop p s))) \<and>
           cs_plen st' = res mod w \<and> bc_mem st' = bc_mem st"
proof -
  let ?k = "res div w * w" and ?r = "res mod w"
  let ?b = "take ?r (drop ?k (drop p s))"
  have k: "?k \<le> res" "?k + ?r = res" by simp_all
  then have le: "p + ?k \<le> length s" "p + ?k + ?r \<le> length s" using assms(2) by linarith+
  have cnt: "(if ALIGNED w (sa + cs_src st)
         then csum_count (rd_deref w sa s) w (res div w) (cs_src st, cs_csum st)
         else csum_count (rd_memcpy w s) w (res div w) (cs_src st, cs_csum st)) =
        Some (p + ?k, cs_csum st + chk w (take ?k (drop p s)))"
    using assms(1,4) le(1) by (simp add: csum_count_ok [where s = s] reads_deref)
  have tmp: "memcpy_temp w (0 :: 'a word) 0 ?b = Some (le_word ?b)"
    using assms(1,3) by (intro memcpy_temp_zero) (simp_all add: min_le_iff_disj less_imp_le)
  have get: "mem_get s (p + ?k) ?r = Some ?b" using le(2) by (simp add: mem_get_def add.commute)
  have rest: "szsub res ?k = ?r" by (simp add: minus_div_mult_eq_mod)
  have chk: "(chk w (take res (drop p s)) :: 'a word) = chk w (take ?k (drop p s)) + le_word ?b"
    "resid w (take res (drop p s)) = ?b"
    using assms(2) by (auto intro!: chk_words_rest [OF assms(1)] simp del: drop_drop)
  show ?thesis
  proof (cases "?r = 0")
    case True
    then show ?thesis
      unfolding bcopy_residue_words_def cnt chk using rest assms(5,6) by (simp del: szsub_le)
  next
    case False
    then show ?thesis
      unfolding bcopy_residue_words_def cnt chk using rest get tmp by (simp add: Let_def add.assoc del: szsub_le)
  qed
qed

lemma bcopy_residue_ok:
  fixes st :: "'a::len word bcopy_state"
  assumes "length pre + r < w" and "p + r + residue \<le> length s" and "p + r \<le> length d" and "8 * w \<le> LENGTH('a)"
    and st: "cs_src st = p" "bc_dest st = p" "bc_mem st = take p s @ drop p d" "cs_len st = r"
      "cs_part st = le_word pre" "cs_plen st = length pre"
  defines "bs \<equiv> pre @ take (r + residue) (drop p s)"
  shows "\<exists>st'. bcopy_residue w sa s residue st = Some st' \<and>
           cs_csum st' = cs_csum st + (chk w bs - le_word pre) \<and> cs_part st' = le_word (resid w bs) \<and>
           cs_plen st' = length bs mod w \<and> bc_mem st' = take (p + r) s @ drop (p + r) d"
proof -
  have w: "0 < w" using assms(1) by simp
  let ?st1 = "st\<lparr>bc_mem := take (p + r) s @ drop (p + r) d\<rparr>"
  have last: "(if cs_len st \<noteq> 0 then bcopy_last w s st else Some st) = Some ?st1"
    using bcopy_last_ok [of p r s d w st] assms by auto
  define n where "n = w - length pre"
  have n: "szsub w (length pre) = n" "szsub (szsub w r) (length pre) = n - r" "r \<le> n" "length pre + n = w"
    using assms(1) by (simp_all add: n_def)
  show ?thesis
  proof (cases "residue < n - r")
    case True
    then have short: "length bs < w" using n assms(2) by (simp add: bs_def)
    then have "resid w bs = bs" by (intro resid_unique [where us = "[]"]) auto
    moreover have "memcpy_temp w (le_word pre :: 'a word) (length pre) (take (r + residue) (drop p s)) = Some (le_word bs)"
      unfolding bs_def using short assms(2,4) by (intro memcpy_temp_ok) (auto simp: bs_def)
    moreover have "length bs = length pre + (r + residue)" using assms(2) by (simp add: bs_def)
    ultimately show ?thesis
      unfolding bcopy_residue_def last bcopy_residue_fill_def bcopy_residue_words_def
      using True n st short assms(2) by (simp add: mem_get_def chk_short Let_def)
  next
    case False
    define res where "res = residue - (n - r)"
    have res: "r + residue = n + res" "szsub residue (szsub n r) = res" using False n(3) by (simp_all add: res_def)
    then have pn: "p + n + res \<le> length s" using assms(2) by simp
    let ?b = "pre @ take n (drop p s)" and ?x = "drop (p + n) s"
    let ?st2 = "?st1\<lparr>cs_csum := cs_csum st + (le_word ?b - le_word pre), cs_src := p + n, cs_plen := 0, cs_part := 0\<rparr>"
    have b: "length ?b = w" using n pn by simp
    have bs: "bs = ?b @ take res ?x" unfolding bs_def res(1) by (simp add: take_add add.commute)
    have "memcpy_temp w (le_word pre :: 'a word) (length pre) (take n (drop p s)) = Some (le_word ?b)"
      using n pn assms(4) by (intro memcpy_temp_ok) auto
    then have fill: "bcopy_residue_fill w s residue ?st1 = Some (res, ?st2)"
      unfolding bcopy_residue_fill_def using False n st res pn by (simp add: mem_get_def del: szsub_le)
    have "(chk w bs :: 'a word) = le_word ?b + chk w (take res ?x)"
      unfolding bs by (rule chk_word [OF w b])
    moreover have "resid w bs = resid w (take res ?x)"
      unfolding bs by (rule resid_word [OF w b])
    moreover have "length bs mod w = res mod w" unfolding bs using b pn by (simp only: length_append) (simp add: min_absorb2)
    ultimately show ?thesis
      unfolding bcopy_residue_def last
      using fill bcopy_residue_words_ok [OF w pn assms(4), of ?st2 sa] by auto
  qed
qed

lemma bcopy_tail_ok:
  fixes st :: "'a::len word bcopy_state"
  assumes "r < w" and "p + r \<le> length s" and "p + r \<le> length d" and "8 * w \<le> LENGTH('a)"
    and "cs_src st = p" and "bc_dest st = p" and "bc_mem st = take p s @ drop p d" and "cs_len st = r"
    and "cs_part st = 0" and "cs_plen st = 0"
  shows "bcopy_tail w s st =
         Some (st\<lparr>bc_mem := take (p + r) s @ drop (p + r) d, cs_csum := cs_csum st + le_word (take r (drop p s)),
                  cs_part := le_word (take r (drop p s)), cs_plen := r\<rparr>)"
proof -
  let ?b = "take r (drop p s)"
  have "length ?b = r" using assms(2) by simp
  then have "memcpy_temp w (0 :: 'a word) 0 ?b = Some (le_word ?b)"
    "take r (le_bytes w (le_word ?b :: 'a word)) = ?b"
    using assms(1,4) memcpy_temp_zero [of ?b w] temp_bytes [of "[]" ?b w, where 'a = 'a] by simp_all
  with assms copy_step [OF assms(2,3)] show ?thesis by (simp add: bcopy_tail_def mem_get_def)
qed

text \<open>The part after the alignment-dependent one, on the state it leaves.\<close>

lemma bcopy_finish_ok:
  fixes pre s d :: "byte list"
  assumes "length pre < w" and "len + residue \<le> length s" and "len \<le> length d" and "8 * w \<le> LENGTH('a)"
  defines "st \<equiv> bc_ext s d (csum_mid w pre s len :: 'a::len word csum_state)"
    and "bs \<equiv> pre @ take (len + residue) s"
  shows "\<exists>st'. (if cs_len st \<noteq> 0 \<and> residue = 0 then bcopy_tail w s st
                else if residue \<noteq> 0 then bcopy_residue w sa s residue st else Some st) = Some st' \<and>
           cs_csum st' = chk w bs - le_word pre \<and> bc_mem st' = take len s @ drop len d \<and>
           cs_part st' = le_word (resid w bs) \<and> cs_plen st' = length bs mod w"
proof (cases "pre = [] \<or> w \<le> length pre + len")
  case True
  let ?n = "(length pre + len) div w * w - length pre" and ?r = "(length pre + len) mod w"
  have len: "len \<le> length s" using assms(2) by simp
  note mid = mid_split [OF assms(1) len True]
  have st: "cs_src st = ?n" "bc_dest st = ?n" "bc_mem st = take ?n s @ drop ?n d" "cs_len st = ?r"
    "cs_part st = 0" "cs_plen st = 0" "cs_csum st = chk w (pre @ take ?n s) - le_word pre"
    using True by (simp_all add: st_def csum_mid_def Let_def)
  have r: "?r < w" using assms(1) by simp
  have bs: "bs = (pre @ take ?n s) @ take (?r + residue) (drop ?n s)"
    using mid(1) unfolding bs_def by (metis add.assoc append.assoc take_add)
  have chk: "(chk w bs :: 'a word) = chk w (pre @ take ?n s) + chk w (take (?r + residue) (drop ?n s))"
    unfolding bs by (rule chk_append [OF mid(2)])
  have res: "resid w bs = resid w (take (?r + residue) (drop ?n s))"
    unfolding bs using resid_append [of w "pre @ take ?n s" "take (?r + residue) (drop ?n s)"] r mid(2)
    by (simp add: resid_def [of w "pre @ take ?n s"])
  have plen: "length bs mod w = (?r + residue) mod w"
    using assms(2) by (simp add: bs_def mod_simps add.assoc [symmetric])
  have nr: "?n + ?r \<le> length s" "?n + ?r \<le> length d" "?n + ?r + residue \<le> length s"
    using mid(1) assms(2,3) len by linarith+
  show ?thesis
  proof (cases "residue = 0")
    case False
    then show ?thesis
      using bcopy_residue_ok [of "[]" ?r w ?n residue s d st sa] st nr r assms(4) chk res plen mid(1)
      by (auto simp: min_absorb2)
  next
    case True
    let ?b = "take ?r (drop ?n s)"
    have b: "length ?b < w" using r by (simp add: min_less_iff_disj)
    then have b2: "resid w ?b = ?b" "(chk w ?b :: 'a word) = le_word ?b"
      using chk_short [of ?b w] by (auto intro!: resid_unique [where us = "[]"])
    show ?thesis
      using True bcopy_tail_ok [OF r nr(1,2) assms(4), of st] st chk res plen b2 mid(1) by (cases "?r = 0") auto
  qed
next
  case False
  let ?b = "pre @ take len s"
  have len: "length ?b = length pre + len" "length pre + len < w" using assms(2) False by auto
  have st: "cs_src st = len" "bc_dest st = len" "bc_mem st = take len s @ drop len d" "cs_len st = 0"
    "cs_part st = le_word ?b" "cs_plen st = length ?b" "cs_csum st = le_word ?b - le_word pre"
    using False len by (simp_all add: st_def csum_mid_def Let_def)
  have bs: "bs = ?b @ take residue (drop len s)" by (simp add: bs_def take_add)
  show ?thesis
  proof (cases "residue = 0")
    case False
    then show ?thesis
      using bcopy_residue_ok [of ?b 0 w len residue s d st sa] st len assms(2-4) bs by auto
  next
    case True
    then have "resid w bs = bs" "(chk w bs :: 'a word) = le_word bs"
      using bs len chk_short [of bs w] by (auto intro!: resid_unique [where us = "[]"])
    then show ?thesis using True st bs len by simp
  qed
qed

lemma bcopy_csum_partial_ok:
  assumes "length pre < w" and "copylen \<le> length d" and "max copylen csumlen \<le> length s" and "8 * w \<le> LENGTH('a)"
  defines "bs \<equiv> pre @ take (max copylen csumlen) s"
  shows "bcopy_csum_partial w sa s da d copylen csumlen (le_word pre) (length pre) =
         Some (chk w bs - le_word pre :: 'a::len word, take copylen s @ drop copylen d,
               le_word (resid w bs), length bs mod w)"
proof -
  let ?res = "if csumlen > copylen then csumlen - copylen else 0"
  let ?mid = "bc_ext s d (csum_mid w pre s copylen :: 'a word csum_state)"
  have M: "copylen + ?res = max copylen csumlen" by simp
  then have len: "copylen + ?res \<le> length s" "copylen \<le> length s" using assms(3) by linarith+
  obtain st where st: "(if cs_len ?mid \<noteq> 0 \<and> ?res = 0 then bcopy_tail w s ?mid
        else if ?res \<noteq> 0 then bcopy_residue w sa s ?res ?mid else Some ?mid) = Some st"
    "cs_csum st = chk w bs - le_word pre" "bc_mem st = take copylen s @ drop copylen d"
    "cs_part st = le_word (resid w bs)" "cs_plen st = length bs mod w"
    using bcopy_finish_ok [OF assms(1) len(1) assms(2,4), of sa] unfolding M bs_def by blast
  have early: "cs_len ?mid = 0" if "pre = []" "w dvd copylen" using that by (simp add: csum_mid_def)
  have start: "\<lparr>cs_src = 0, cs_len = copylen, cs_csum = 0, cs_part = le_word pre, cs_plen = length pre,
      bc_dest = 0, bc_mem = d\<rparr> = (bc_ext s d (csum_start pre copylen) :: 'a word bcopy_state)"
    by (simp add: bc_ext_def csum_start_def)
  have head: "(if ALIGNED w sa \<and> ALIGNED w da then bcopy_head_both w sa da s ?res (bc_ext s d (csum_start pre copylen))
      else if ALIGNED w sa then map_option (Pair False) (bcopy_head_source w sa da s (bc_ext s d (csum_start pre copylen)))
      else if ALIGNED w da then map_option (Pair False) (bcopy_head_dest w sa da s (bc_ext s d (csum_start pre copylen)))
      else map_option (Pair False) (bcopy_head_neither w sa da s (bc_ext s d (csum_start pre copylen)))) =
      Some (ALIGNED w sa \<and> ALIGNED w da \<and> pre = [] \<and> w dvd copylen \<and> ?res = 0, ?mid)"
    using bcopy_head_both_ok [OF assms(1) len(2) assms(2,4)] bcopy_heads_ok [OF assms(1) len(2) assms(2,4)]
      bcopy_head_neither_ok [OF assms(1) len(2) assms(2,4)] by auto
  show ?thesis
    unfolding bcopy_csum_partial_def Let_def start head
    using st early by (auto split: if_splits)
qed

section \<open>The interface: a streaming digest\<close>

text \<open>
  The callers' protocol: the running total and the partial word are kept between calls and the
  total grows by what the call returns. \<open>csum_after\<close> is that state after a stream.
\<close>

definition csum_after :: "nat \<Rightarrow> byte list \<Rightarrow> 'a::len word \<times> 'a word \<times> nat" where
  "csum_after w bs = (chk w bs, le_word (resid w bs), length bs mod w)"

definition csum_feed ::
    "(nat \<Rightarrow> byte list \<Rightarrow> nat \<Rightarrow> 'a::len word \<Rightarrow> nat \<Rightarrow> ('a word \<times> 'a word \<times> nat) option) \<Rightarrow> nat \<Rightarrow> byte list \<Rightarrow>
     'a word \<times> 'a word \<times> nat \<Rightarrow> ('a word \<times> 'a word \<times> nat) option" where
  "csum_feed f sa bs st = (case st of (tot, part, plen) \<Rightarrow>
     do { (c, part', plen') \<leftarrow> f sa bs (length bs) part plen; Some (tot + c, part', plen') })"

lemma csum_feed_after:
  assumes "0 < w" and "8 * w \<le> LENGTH('a)"
  shows "csum_feed (csum_partial w) sa bs (csum_after w xs :: 'a::len word \<times> 'a word \<times> nat) =
         Some (csum_after w (xs @ bs))"
proof -
  have "csum_partial w sa bs (length bs) (le_word (resid w xs)) (length (resid w xs)) =
      Some (chk w (resid w xs @ bs) - le_word (resid w xs) :: 'a word,
            le_word (resid w (resid w xs @ bs)), (length (resid w xs) + length bs) mod w)"
    using csum_partial_ok [of "resid w xs" w "length bs" bs, where 'a = 'a] assms by simp
  then show ?thesis
    using chk_resid [OF assms(1), of xs bs, where 'a = 'a] resid_append [OF assms(1), of xs bs]
    by (simp add: csum_feed_def csum_after_def mod_simps)
qed

interpretation csl: stream_digest "csum_feed opal_csum_partial" "csum_after 8"
  by unfold_locales (simp add: opal_csum_partial_def csum_feed_after)

interpretation csi: stream_digest "csum_feed opal_uicsum_partial" "csum_after 4"
  by unfold_locales (simp add: opal_uicsum_partial_def csum_feed_after)

fun csum_feed_all ::
    "(nat \<Rightarrow> byte list \<Rightarrow> nat \<Rightarrow> 'a::len word \<Rightarrow> nat \<Rightarrow> ('a word \<times> 'a word \<times> nat) option) \<Rightarrow>
     (nat \<times> byte list) list \<Rightarrow> 'a word \<times> 'a word \<times> nat \<Rightarrow> ('a word \<times> 'a word \<times> nat) option" where
  "csum_feed_all f [] st = Some st"
| "csum_feed_all f ((a, bs) # cs) st = Option.bind (csum_feed f a bs st) (csum_feed_all f cs)"

lemma csum_feed_all_upd:
  "csum_feed_all opal_csum_partial cs = csl.upd_all cs" "csum_feed_all opal_uicsum_partial cs = csi.upd_all cs"
proof -
  show "csum_feed_all opal_csum_partial cs = csl.upd_all cs"
    by (induction cs) (rule ext, auto)
  show "csum_feed_all opal_uicsum_partial cs = csi.upd_all cs"
    by (induction cs) (rule ext, auto)
qed

section \<open>Properties\<close>

text \<open>C18: Checksumming a byte stream piece by piece with opal_csum_partial (and, over 4-byte words,
  with opal_uicsum_partial), the pieces cut anywhere and stored at any addresses, never makes a
  misaligned dereference or reads outside a piece, and its running total is the sum of the
  little-endian words of the whole stream, the last one padded with zeros; the partial word and
  its length are those of the stream's end.\<close>

theorem csum_stream_any_cut:
  "csum_feed_all opal_csum_partial pieces (0, 0, 0) =
     Some (chk 8 (concat (map snd pieces)), le_word (resid 8 (concat (map snd pieces))),
           length (concat (map snd pieces)) mod 8) \<and>
   csum_feed_all opal_uicsum_partial pieces (0, 0, 0) =
     Some (chk 4 (concat (map snd pieces)), le_word (resid 4 (concat (map snd pieces))),
           length (concat (map snd pieces)) mod 4)"
  using csl.upd_all_rep [of pieces "[]"] csi.upd_all_rep [of pieces "[]"]
  by (simp add: csum_feed_all_upd csum_after_def resid_def)

text \<open>opal_bcopy_csum_partial, for any alignment of source and destination, copies exactly the
  first copylen bytes, leaves the rest of the destination alone, and continues the stream's
  checksum by the first max(copylen, csumlen) bytes of the source, as opal_csum_partial would.\<close>

theorem opal_bcopy_csum_partial_copies:
  assumes "copylen \<le> length d" and "copylen \<le> csumlen" and "csumlen \<le> length s"
  shows "\<exists>c part plen.
           opal_bcopy_csum_partial sa s da d copylen csumlen (le_word (resid 8 xs)) (length xs mod 8) =
             Some (c, take copylen s @ drop copylen d, part, plen) \<and>
           opal_csum_partial sa' (take csumlen s) csumlen (le_word (resid 8 xs)) (length xs mod 8) = Some (c, part, plen) \<and>
           chk 8 xs + c = chk 8 (xs @ take csumlen s)"
proof -
  let ?r = "resid 8 xs"
  have r: "length ?r < 8" "length ?r = length xs mod 8" "max copylen csumlen = csumlen" using assms by auto
  have "bcopy_csum_partial 8 sa s da d copylen csumlen (le_word ?r) (length ?r) =
      Some (chk 8 (?r @ take csumlen s) - le_word ?r :: 64 word, take copylen s @ drop copylen d,
            le_word (resid 8 (?r @ take csumlen s)), length (?r @ take csumlen s) mod 8)"
    using bcopy_csum_partial_ok [of ?r 8 copylen d csumlen s, where 'a = 64] r assms by simp
  moreover have "csum_partial 8 sa' (take csumlen s) csumlen (le_word ?r) (length ?r) =
      Some (chk 8 (?r @ take csumlen s) - le_word ?r :: 64 word,
            le_word (resid 8 (?r @ take csumlen s)), (length ?r + csumlen) mod 8)"
    using csum_partial_ok [of ?r 8 csumlen "take csumlen s", where 'a = 64] r assms by simp
  ultimately show ?thesis
    using assms r(2) chk_resid [of 8 xs "take csumlen s", where 'a = 64]
    by (simp add: opal_bcopy_csum_partial_def opal_csum_partial_def)
qed

theorem opal_bcopy_csum_partial_copies_witness:
  "\<exists>c part plen.
     opal_bcopy_csum_partial 3 [1, 2, 3, 4, 5, 6, 7, 8, 9] 8 [0, 0, 0, 0] 3 9 (le_word (resid 8 [7, 7])) (length [7, 7 :: byte] mod 8) =
       Some (c, take 3 [1, 2, 3, 4, 5, 6, 7, 8, 9] @ drop 3 [0, 0, 0, 0], part, plen) \<and>
     opal_csum_partial 0 (take 9 [1, 2, 3, 4, 5, 6, 7, 8, 9]) 9 (le_word (resid 8 [7, 7])) (length [7, 7 :: byte] mod 8) =
       Some (c, part, plen) \<and>
     chk 8 [7, 7] + c = chk 8 ([7, 7] @ take 9 [1, 2, 3, 4, 5, 6, 7, 8, 9])"
  by (rule opal_bcopy_csum_partial_copies) simp_all

end
