(* ===== verification/Crc.thy ===== *)
theory Crc
  imports Checksum
begin

unbundle bit_operations_syntax

text \<open>
  The CRC-32 of \<^verbatim>\<open>opal/util/crc.c\<close>: the table built by
  \<open>opal_initialize_crc_table\<close> and the table-driven \<open>opal_uicrc_partial\<close> and
  \<open>opal_bcopy_uicrc_partial\<close>. The two file-scope variables are the record \<open>crc_globals\<close>.
  Memory accesses are those of the checksums. In \<open>crc_accum = (i << 24)\<close> the shift of the
  \<^verbatim>\<open>int\<close> is read as the two's complement shift every supported compiler makes of it.
  The reference is polynomial division bit by bit.
\<close>

section \<open>Table and update\<close>

definition CRC_POLYNOMIAL :: "32 word" where "CRC_POLYNOMIAL = 0x04c11db7"

definition CRC_INITIAL_REGISTER :: "32 word" where "CRC_INITIAL_REGISTER = 0xffffffff"

record crc_globals =
  opal_crc_table_initialized :: bool
  opal_crc_table :: "32 word list"

definition crc_shift :: "32 word \<Rightarrow> 32 word" where
  "crc_shift crc_accum =
     (if crc_accum AND 0x80000000 \<noteq> 0 then push_bit 1 crc_accum XOR CRC_POLYNOMIAL else push_bit 1 crc_accum)"

definition crc_table_entry :: "nat \<Rightarrow> 32 word" where
  "crc_table_entry i = (crc_shift ^^ 8) (push_bit 24 (of_nat i))"

definition opal_initialize_crc_table :: "crc_globals \<Rightarrow> crc_globals" where
  "opal_initialize_crc_table g =
     g\<lparr>opal_crc_table := map crc_table_entry [0..<256], opal_crc_table_initialized := True\<rparr>"

text \<open>\<open>if (!_opal_crc_table_initialized) opal_initialize_crc_table()\<close>.\<close>

definition crc_ensure :: "crc_globals \<Rightarrow> crc_globals" where
  "crc_ensure g = (if \<not> opal_crc_table_initialized g then opal_initialize_crc_table g else g)"

definition crc_update :: "32 word list \<Rightarrow> 32 word \<Rightarrow> byte \<Rightarrow> 32 word" where
  "crc_update table partial_crc t =
     (let i = (drop_bit 24 partial_crc XOR ucast t) AND 0xff
      in push_bit 8 partial_crc XOR table ! unat i)"

section \<open>CRC of a block\<close>

definition rd_byte :: "byte list \<Rightarrow> nat \<Rightarrow> byte option" where
  "rd_byte s p = (if p < length s then Some (s ! p) else None)"

text \<open>\<open>while (crclen--)\<close> over bytes and \<open>while (crclen >= sizeof(unsigned int))\<close> over
  aligned words, whose bytes are taken from the temporary.\<close>

fun crc_bytes :: "32 word list \<Rightarrow> byte list \<Rightarrow> nat \<Rightarrow> nat \<times> 32 word \<Rightarrow> (nat \<times> 32 word) option" where
  "crc_bytes table s 0 (p, crc) = Some (p, crc)"
| "crc_bytes table s (Suc n) (p, crc) = do {
     t \<leftarrow> rd_byte s p; crc_bytes table s n (p + 1, crc_update table crc t) }"

function crc_ints ::
    "32 word list \<Rightarrow> nat \<Rightarrow> byte list \<Rightarrow> nat \<Rightarrow> nat \<times> 32 word \<Rightarrow> (nat \<times> nat \<times> 32 word) option" where
  "crc_ints table sa s crclen (p, crc) =
     (if 4 \<le> crclen then do {
        tmp \<leftarrow> rd_deref 4 sa s p :: 32 word option;
        crc_ints table sa s (crclen - 4) (p + 4, foldl (crc_update table) crc (le_bytes 4 tmp)) }
      else Some (crclen, p, crc))"
  by pat_completeness auto
termination by (relation "measure (\<lambda>(table, sa, s, crclen, _). crclen)") auto

definition opal_uicrc_partial ::
    "crc_globals \<Rightarrow> nat \<Rightarrow> byte list \<Rightarrow> nat \<Rightarrow> 32 word \<Rightarrow> (32 word \<times> crc_globals) option" where
  "opal_uicrc_partial g sa source crclen partial_crc =
     (let g1 = crc_ensure g;
          table = opal_crc_table g1
      in if ALIGNED 4 sa then do {
           (crclen', p, crc) \<leftarrow> crc_ints table sa source crclen (0, partial_crc);
           (p', crc') \<leftarrow> crc_bytes table source crclen' (p, crc);
           Some (crc', g1) }
         else do {
           (p', crc') \<leftarrow> crc_bytes table source crclen (0, partial_crc);
           Some (crc', g1) })"

section \<open>CRC with copy\<close>

fun bcopy_crc_bytes ::
    "32 word list \<Rightarrow> byte list \<Rightarrow> nat \<Rightarrow> nat \<times> nat \<times> byte list \<times> 32 word \<Rightarrow>
     (nat \<times> nat \<times> byte list \<times> 32 word) option" where
  "bcopy_crc_bytes table s 0 (p, q, d, crc) = Some (p, q, d, crc)"
| "bcopy_crc_bytes table s (Suc n) (p, q, d, crc) = do {
     t \<leftarrow> rd_byte s p;
     d' \<leftarrow> mem_put d q [t];
     bcopy_crc_bytes table s n (p + 1, q + 1, d', crc_update table crc t) }"

function bcopy_crc_ints ::
    "32 word list \<Rightarrow> nat \<Rightarrow> byte list \<Rightarrow> nat \<Rightarrow> nat \<Rightarrow> nat \<times> nat \<times> byte list \<times> 32 word \<Rightarrow>
     (nat \<times> nat \<times> nat \<times> byte list \<times> 32 word) option" where
  "bcopy_crc_ints table sa s da copylen (p, q, d, crc) =
     (if 4 \<le> copylen then do {
        tmp \<leftarrow> rd_deref 4 sa s p :: 32 word option;
        d' \<leftarrow> wr_deref 4 da d q tmp;
        bcopy_crc_ints table sa s da (copylen - 4)
          (p + 4, q + 4, d', foldl (crc_update table) crc (le_bytes 4 tmp)) }
      else Some (copylen, p, q, d, crc))"
  by pat_completeness auto
termination by (relation "measure (\<lambda>(table, sa, s, da, copylen, _). copylen)") auto

declare crc_ints.simps [simp del] bcopy_crc_ints.simps [simp del]

definition opal_bcopy_uicrc_partial ::
    "crc_globals \<Rightarrow> nat \<Rightarrow> byte list \<Rightarrow> nat \<Rightarrow> byte list \<Rightarrow> nat \<Rightarrow> nat \<Rightarrow> 32 word \<Rightarrow>
     (32 word \<times> byte list \<times> crc_globals) option" where
  "opal_bcopy_uicrc_partial g sa source da destination copylen crclen partial_crc =
     (let crclenresidue = (if crclen > copylen then crclen - copylen else 0);
          g1 = crc_ensure g;
          table = opal_crc_table g1
      in if ALIGNED 4 sa \<and> ALIGNED 4 da then do {
           (copylen', p, q, d, crc) \<leftarrow> bcopy_crc_ints table sa source da copylen (0, 0, destination, partial_crc);
           (p', q', d', crc') \<leftarrow> bcopy_crc_bytes table source copylen' (p, q, d, crc);
           (p'', crc'') \<leftarrow> crc_bytes table source crclenresidue (p', crc');
           Some (crc'', d', g1) }
         else do {
           (p', q', d', crc') \<leftarrow> bcopy_crc_bytes table source copylen (0, 0, destination, partial_crc);
           (p'', crc'') \<leftarrow> crc_bytes table source crclenresidue (p', crc');
           Some (crc'', d', g1) })"

section \<open>Reference: division by the generator, bit by bit\<close>

text \<open>One bit of the message, most significant first, against the register's top bit.\<close>

definition crc_bit :: "32 word \<Rightarrow> bool \<Rightarrow> 32 word" where
  "crc_bit reg b = (if bit reg 31 \<noteq> b then push_bit 1 reg XOR CRC_POLYNOMIAL else push_bit 1 reg)"

definition crc_byte :: "32 word \<Rightarrow> byte \<Rightarrow> 32 word" where
  "crc_byte reg t = foldl crc_bit reg (map (bit t) (rev [0..<8]))"

definition crc_wf :: "crc_globals \<Rightarrow> bool" where
  "crc_wf g \<longleftrightarrow> (opal_crc_table_initialized g \<longrightarrow> opal_crc_table g = map crc_table_entry [0..<256])"

section \<open>The table is right\<close>

lemma crc_shift_bit: "crc_shift x = (if bit x 31 then push_bit 1 x XOR CRC_POLYNOMIAL else push_bit 1 x)"
proof -
  have "x AND 0x80000000 = 0 \<longleftrightarrow> \<not> bit x 31"
    using and_exp_eq_0_iff_not_bit [of x 31] by simp
  then show ?thesis by (simp add: crc_shift_def)
qed

lemma crc_shift_xor: "crc_shift (x XOR y) = crc_shift x XOR crc_shift y"
  by (auto simp: crc_shift_bit bit_simps push_bit_xor ac_simps)

lemma crc_shift_pow_xor: "(crc_shift ^^ n) (x XOR y) = (crc_shift ^^ n) x XOR (crc_shift ^^ n) y"
  by (induction n) (simp_all add: crc_shift_xor)

lemma crc_shift_pow_low:
  assumes "\<And>i. 32 - n \<le> i \<Longrightarrow> \<not> bit x i"
  shows "n \<le> 32 \<Longrightarrow> (crc_shift ^^ n) x = push_bit n x"
  using assms
proof (induction n)
  case (Suc n)
  then have "(crc_shift ^^ n) x = push_bit n x" by simp
  moreover have "\<not> bit (push_bit n x) 31" using Suc.prems by (simp add: bit_simps)
  ultimately show ?case by (simp add: crc_shift_bit [of "push_bit n x"])
qed simp

text \<open>Feeding the message bits one by one is shifting after adding the byte at the top.\<close>

lemma crc_bit_shift: "crc_bit reg b = crc_shift (reg XOR push_bit 31 (of_bool b))"
proof -
  have "push_bit 1 (reg XOR push_bit 31 (of_bool b)) = push_bit 1 reg"
    by (rule bit_word_eqI) (auto simp: bit_simps)
  moreover have "bit (reg XOR push_bit 31 (of_bool b)) 31 = (bit reg 31 \<noteq> b)"
    by (cases b) (simp_all only: bit_simps, simp_all)
  ultimately show ?thesis by (simp only: crc_bit_def crc_shift_bit)
qed

lemma crc_bit_pow:
  assumes "k \<le> 31"
  shows "crc_bit ((crc_shift ^^ k) z) b = (crc_shift ^^ Suc k) (z XOR push_bit (31 - k) (of_bool b))"
proof -
  have "(crc_shift ^^ k) (push_bit (31 - k) (of_bool b)) = push_bit k (push_bit (31 - k) (of_bool b))"
    using assms by (intro crc_shift_pow_low) (auto simp: bit_simps)
  then show ?thesis using assms by (simp add: crc_bit_shift crc_shift_pow_xor push_bit_push_bit)
qed

lemma crc_bits_shift:
  assumes "length bs \<le> 32" and "\<And>i. i < 32 \<Longrightarrow> bit z i = (31 - i < length bs \<and> bs ! (31 - i))"
  shows "foldl crc_bit reg bs = (crc_shift ^^ length bs) (reg XOR z)"
  using assms
proof (induction bs arbitrary: z rule: rev_induct)
  case Nil
  then have "z = 0" by (intro bit_word_eqI) auto
  then show ?case by simp
next
  case (snoc b bs)
  let ?n = "length bs"
  let ?y = "z XOR push_bit (31 - ?n) (of_bool b)"
  have "foldl crc_bit reg bs = (crc_shift ^^ ?n) (reg XOR ?y)"
  proof (rule snoc.IH)
    fix i :: nat assume i: "i < 32"
    have "bit (push_bit (31 - ?n) (of_bool b) :: 32 word) i = (b \<and> i = 31 - ?n)"
      using i by (auto simp: bit_simps)
    moreover have "(i = 31 - ?n) = (31 - i = ?n)" using i snoc.prems(1) by auto
    ultimately show "bit ?y i = (31 - i < ?n \<and> bs ! (31 - i))"
      using snoc.prems(2) [OF i] by (auto simp: bit_xor_iff nth_append less_Suc_eq)
  qed (use snoc.prems(1) in simp)
  then have "foldl crc_bit reg (bs @ [b]) = crc_bit ((crc_shift ^^ ?n) (reg XOR ?y)) b" by simp
  also have "\<dots> = (crc_shift ^^ Suc ?n) ((reg XOR ?y) XOR push_bit (31 - ?n) (of_bool b))"
    using snoc.prems(1) by (intro crc_bit_pow) simp
  also have "(reg XOR ?y) XOR push_bit (31 - ?n) (of_bool b) = reg XOR z"
    by (simp add: xor.assoc)
  finally show ?case by simp
qed

lemma crc_byte_shift: "crc_byte reg t = (crc_shift ^^ 8) (reg XOR push_bit 24 (ucast t))"
proof -
  have "foldl crc_bit reg (map (bit t) (rev [0..<8])) =
      (crc_shift ^^ length (map (bit t) (rev [0..<8]))) (reg XOR push_bit 24 (ucast t))"
  proof (rule crc_bits_shift)
    fix i :: nat assume i: "i < 32"
    show "bit (push_bit 24 (ucast t) :: 32 word) i =
        (31 - i < length (map (bit t) (rev [0..<8])) \<and> map (bit t) (rev [0..<8]) ! (31 - i))"
    proof (cases "24 \<le> i")
      case True
      then have "rev [0..<8] ! (31 - i) = i - 24" using i by (subst rev_nth) auto
      moreover have "31 - i < 8" "i - 24 < 32" using i True by auto
      ultimately show ?thesis using i True by (simp add: bit_simps)
    next
      case False
      then have "\<not> 31 - i < 8" using i by auto
      with False show ?thesis by (simp add: bit_simps)
    qed
  qed simp
  then show ?thesis by (simp add: crc_byte_def)
qed

text \<open>Splitting the register in the byte that leaves it and the rest.\<close>

lemma crc_update_correct: "crc_update (map crc_table_entry [0..<256]) crc t = crc_byte crc t"
proof -
  let ?i = "(drop_bit 24 crc XOR ucast t) AND 0xff :: 32 word"
  let ?low = "crc AND mask 24"
  have ff: "(0xff :: 32 word) = mask 8" by (simp add: mask_eq_exp_minus_1)
  have "?i = take_bit 8 (drop_bit 24 crc XOR ucast t)" unfolding ff by (simp add: take_bit_eq_mask)
  then have "unat ?i = take_bit 8 (unat (drop_bit 24 crc XOR ucast t :: 32 word))"
    by (simp only: unsigned_take_bit_eq)
  then have small: "unat ?i < 256"
    using take_bit_nat_less_exp [of 8 "unat (drop_bit 24 crc XOR ucast t :: 32 word)"] by simp
  have "crc XOR push_bit 24 (ucast t) = push_bit 24 ?i XOR ?low"
    unfolding ff by (rule bit_word_eqI) (auto simp: bit_simps)
  moreover have "(crc_shift ^^ 8) ?low = push_bit 8 ?low"
    by (intro crc_shift_pow_low) (auto simp: bit_simps)
  moreover have "push_bit 8 ?low = push_bit 8 crc"
    by (rule bit_word_eqI) (auto simp: bit_simps)
  moreover have "map crc_table_entry [0..<256] ! unat ?i = (crc_shift ^^ 8) (push_bit 24 ?i)"
    using small by (simp add: crc_table_entry_def)
  ultimately show ?thesis
    by (simp add: crc_update_def crc_byte_shift crc_shift_pow_xor Let_def xor.commute)
qed

section \<open>The loops\<close>

lemma crc_bytes_ok:
  "p + n \<le> length s \<Longrightarrow> crc_bytes table s n (p, crc) = Some (p + n, foldl (crc_update table) crc (take n (drop p s)))"
proof (induction n arbitrary: p crc)
  case (Suc n)
  then have "drop p s = s ! p # drop (p + 1) s" by (simp add: Cons_nth_drop_Suc)
  with Suc show ?case by (simp add: rd_byte_def)
qed simp

lemma rd_deref_ok: "ALIGNED w (sa + p) \<Longrightarrow> p + w \<le> length s \<Longrightarrow> rd_deref w sa s p = Some (le_word (take w (drop p s)))"
  by (simp add: rd_deref_def ALIGNED_def mem_get_def)

lemma ALIGNED_step: "ALIGNED w (sa + (p + w)) = ALIGNED w (sa + p)"
  by (simp add: ALIGNED_def add.assoc [symmetric])

lemma take_word: "take n (drop p s) = take 4 (drop p s) @ take (n - 4) (drop (p + 4) s)" if "4 \<le> n"
  using take_add [of 4 "n - 4" "drop p s"] that by (simp add: add.commute)

lemma crc_ints_ok:
  "ALIGNED 4 (sa + p) \<Longrightarrow> p + n \<le> length s \<Longrightarrow>
   crc_ints table sa s n (p, crc) =
     Some (n mod 4, p + n div 4 * 4, foldl (crc_update table) crc (take (n div 4 * 4) (drop p s)))"
proof (induction n arbitrary: p crc rule: less_induct)
  case (less n)
  show ?case
  proof (cases "4 \<le> n")
    case False
    then show ?thesis by (simp add: crc_ints.simps)
  next
    case True
    let ?b = "take 4 (drop p s)"
    have m: "n div 4 = Suc ((n - 4) div 4)" "n mod 4 = (n - 4) mod 4"
      using True by (simp_all add: le_div_geq le_mod_geq)
    have "le_bytes 4 (le_word ?b :: 32 word) = ?b" using less.prems True by (intro le_bytes_le_word) auto
    moreover have "take (n div 4 * 4) (drop p s) = ?b @ take ((n - 4) div 4 * 4) (drop (p + 4) s)"
      unfolding m using take_word [of "Suc ((n - 4) div 4) * 4" p s] by simp
    ultimately show ?thesis
      using True less.prems less.IH [of "n - 4" "p + 4"] m
      by (simp add: crc_ints.simps [of table sa s n] rd_deref_ok ALIGNED_step)
  qed
qed

lemma bcopy_crc_bytes_ok:
  "p + n \<le> length s \<Longrightarrow> q + n \<le> length d \<Longrightarrow>
   bcopy_crc_bytes table s n (p, q, d, crc) =
     map_option (\<lambda>d'. (p + n, q + n, d', foldl (crc_update table) crc (take n (drop p s))))
       (mem_put d q (take n (drop p s)))"
proof (induction n arbitrary: p q d crc)
  case (Suc n)
  then have dr: "drop p s = s ! p # drop (p + 1) s" by (simp add: Cons_nth_drop_Suc)
  obtain d1 where d1: "mem_put d q [s ! p] = Some d1" using Suc.prems by (simp add: mem_put_def)
  then have len: "length d1 = length d" by (rule mem_put_length)
  have "mem_put d1 (q + 1) (take n (drop (p + 1) s)) = mem_put d q (take (Suc n) (drop p s))"
    using mem_put_append [OF d1] dr by simp
  with Suc d1 dr len show ?case by (simp add: rd_byte_def)
qed simp

lemma bcopy_crc_ints_ok:
  "ALIGNED 4 (sa + p) \<Longrightarrow> ALIGNED 4 (da + q) \<Longrightarrow> p + n \<le> length s \<Longrightarrow> q + n \<le> length d \<Longrightarrow>
   bcopy_crc_ints table sa s da n (p, q, d, crc) =
     map_option (\<lambda>d'. (n mod 4, p + n div 4 * 4, q + n div 4 * 4, d',
                       foldl (crc_update table) crc (take (n div 4 * 4) (drop p s))))
       (mem_put d q (take (n div 4 * 4) (drop p s)))"
proof (induction n arbitrary: p q d crc rule: less_induct)
  case (less n)
  show ?case
  proof (cases "4 \<le> n")
    case False
    then show ?thesis using less.prems by (simp add: bcopy_crc_ints.simps)
  next
    case True
    let ?b = "take 4 (drop p s)"
    have m: "n div 4 = Suc ((n - 4) div 4)" "n mod 4 = (n - 4) mod 4"
      using True by (simp_all add: le_div_geq le_mod_geq)
    have b: "length ?b = 4" using less.prems True by simp
    then have le: "le_bytes 4 (le_word ?b :: 32 word) = ?b" by (intro le_bytes_le_word) auto
    have "q + length ?b \<le> length d" unfolding b using less.prems(4) True by linarith
    then obtain d1 where d1: "mem_put d q ?b = Some d1" by (simp add: mem_put_def)
    then have len: "length d1 = length d" by (rule mem_put_length)
    have tk: "take (n div 4 * 4) (drop p s) = ?b @ take ((n - 4) div 4 * 4) (drop (p + 4) s)"
      unfolding m using take_word [of "Suc ((n - 4) div 4) * 4" p s] by simp
    have "mem_put d1 (q + 4) (take ((n - 4) div 4 * 4) (drop (p + 4) s)) = mem_put d q (take (n div 4 * 4) (drop p s))"
      using mem_put_append [OF d1] tk b by simp
    moreover have "wr_deref 4 da d q (le_word ?b :: 32 word) = Some d1"
      using less.prems(2) d1 le by (simp add: wr_deref_def ALIGNED_def)
    ultimately show ?thesis
      using True less.prems less.IH [of "n - 4" "p + 4" "q + 4" d1] m le len tk
      by (simp add: bcopy_crc_ints.simps [of table sa s da n] rd_deref_ok ALIGNED_step add.assoc)
  qed
qed

section \<open>The CRC functions against the reference\<close>

lemma crc_wf_table:
  assumes "crc_wf g"
  shows "crc_wf (crc_ensure g)" and "crc_update (opal_crc_table (crc_ensure g)) = crc_byte"
proof -
  define T where "T = map crc_table_entry [0..<256]"
  have "opal_crc_table (crc_ensure g) = T"
    using assms unfolding crc_wf_def crc_ensure_def opal_initialize_crc_table_def T_def [symmetric] by simp
  then have "opal_crc_table (crc_ensure g) = map crc_table_entry [0..<256]" unfolding T_def .
  then show "crc_wf (crc_ensure g)" and "crc_update (opal_crc_table (crc_ensure g)) = crc_byte"
    unfolding crc_wf_def by (simp_all only: crc_update_correct fun_eq_iff simp_thms)
qed

lemma foldl_take_drop: "foldl f (foldl f c (take m s)) (take n (drop m s)) = foldl f c (take (m + n) s)"
  by (simp add: take_add)

lemma uicrc_ok:
  assumes "crc_wf g" and "n \<le> length s"
  shows "\<exists>g'. opal_uicrc_partial g sa s n crc = Some (foldl crc_byte crc (take n s), g') \<and> crc_wf g'"
proof -
  let ?g = "crc_ensure g"
  note g = crc_wf_table [OF assms(1)]
  let ?k = "n div 4 * 4"
  have k: "?k + n mod 4 = n" "?k + n mod 4 \<le> length s" using assms(2) by simp_all
  have "opal_uicrc_partial g sa s n crc = Some (foldl crc_byte crc (take n s), ?g)"
  proof (cases "ALIGNED 4 sa")
    case True
    then have "opal_uicrc_partial g sa s n crc =
        Some (foldl crc_byte (foldl crc_byte crc (take ?k s)) (take (n mod 4) (drop ?k s)), ?g)"
      unfolding opal_uicrc_partial_def Let_def
      using crc_ints_ok [of sa 0 n s] crc_bytes_ok [OF k(2)] g assms(2) by (simp del: take_drop drop_take)
    then show ?thesis unfolding foldl_take_drop k .
  next
    case False
    then show ?thesis
      unfolding opal_uicrc_partial_def Let_def using crc_bytes_ok [of 0 n s] g assms(2) by simp
  qed
  with g(1) show ?thesis by blast
qed

lemma bcopy_uicrc_ok:
  assumes "crc_wf g" and "copylen \<le> length d" and "max copylen crclen \<le> length s"
  shows "\<exists>g'. opal_bcopy_uicrc_partial g sa s da d copylen crclen crc =
           Some (foldl crc_byte crc (take (max copylen crclen) s), take copylen s @ drop copylen d, g') \<and> crc_wf g'"
proof -
  let ?g = "crc_ensure g"
  note g = crc_wf_table [OF assms(1)]
  define r where "r = (if crclen > copylen then crclen - copylen else 0)"
  let ?k = "copylen div 4 * 4" and ?m = "copylen mod 4"
  have r: "copylen + r = max copylen crclen" by (simp add: r_def)
  have k: "?k + ?m = copylen" "?k + ?m \<le> length s" "?k + ?m \<le> length d" "copylen + r \<le> length s"
    using assms r by simp_all
  have le: "?k \<le> copylen" "copylen \<le> length s" using assms(3) by simp_all
  have res: "crc_bytes (opal_crc_table ?g) s r (copylen, foldl crc_byte crc (take copylen s)) =
      Some (copylen + r, foldl crc_byte crc (take (max copylen crclen) s))"
    using crc_bytes_ok [OF k(4)] g(2) foldl_take_drop [of crc_byte crc copylen s r] r by simp
  have put: "mem_put d 0 (take copylen s) = Some (take copylen s @ drop copylen d)"
    using copy_step [of 0 copylen s d] assms(2) le by simp
  have "opal_bcopy_uicrc_partial g sa s da d copylen crclen crc =
      Some (foldl crc_byte crc (take (max copylen crclen) s), take copylen s @ drop copylen d, ?g)"
  proof (cases "ALIGNED 4 sa \<and> ALIGNED 4 da")
    case False
    then show ?thesis
      unfolding opal_bcopy_uicrc_partial_def Let_def r_def [symmetric]
      using bcopy_crc_bytes_ok [of 0 copylen s 0 d] g assms(2) le res put by auto
  next
    case True
    obtain d1 where d1: "mem_put d 0 (take ?k s) = Some d1" using le assms(2) by (simp add: mem_put_def)
    have len: "length d1 = length d" using mem_put_length [OF d1] .
    have "mem_put d1 ?k (take ?m (drop ?k s)) = mem_put d 0 (take copylen s)"
      using mem_put_append [OF d1, of "take ?m (drop ?k s)"] le take_add [of ?k ?m s] k(1) by simp
    then have "bcopy_crc_bytes (opal_crc_table ?g) s ?m (?k, ?k, d1, foldl crc_byte crc (take ?k s)) =
        Some (copylen, copylen, take copylen s @ drop copylen d, foldl crc_byte crc (take copylen s))"
      using bcopy_crc_bytes_ok [OF k(2), of ?k d1] k len put g(2) foldl_take_drop [of crc_byte crc ?k s ?m] by simp
    moreover have "bcopy_crc_ints (opal_crc_table ?g) sa s da copylen (0, 0, d, crc) =
        Some (?m, ?k, ?k, d1, foldl crc_byte crc (take ?k s))"
      using bcopy_crc_ints_ok [of sa 0 da 0 copylen s d] True assms(2) le d1 g(2) by simp
    ultimately show ?thesis
      unfolding opal_bcopy_uicrc_partial_def Let_def r_def [symmetric] using True res by simp
  qed
  with g(1) show ?thesis by blast
qed

section \<open>The interface: a streaming digest\<close>

definition crc_ready :: crc_globals where
  "crc_ready = opal_initialize_crc_table \<lparr>opal_crc_table_initialized = False, opal_crc_table = []\<rparr>"

lemma crc_wf_fresh: "\<not> opal_crc_table_initialized g \<Longrightarrow> crc_wf g"
  by (simp add: crc_wf_def)

lemma crc_wf_ready: "crc_wf crc_ready"
  using crc_wf_table(1) [OF crc_wf_fresh [of "\<lparr>opal_crc_table_initialized = False, opal_crc_table = []\<rparr>"]]
  by (simp add: crc_ready_def crc_ensure_def)

definition crc_feed :: "nat \<Rightarrow> byte list \<Rightarrow> 32 word \<Rightarrow> 32 word option" where
  "crc_feed sa bs crc = map_option fst (opal_uicrc_partial crc_ready sa bs (length bs) crc)"

lemma crc_feed_ok: "crc_feed sa bs crc = Some (foldl crc_byte crc bs)"
  using uicrc_ok [OF crc_wf_ready, of "length bs" bs sa crc] by (auto simp: crc_feed_def)

interpretation crcd: stream_digest crc_feed "foldl crc_byte CRC_INITIAL_REGISTER"
  by unfold_locales (simp add: crc_feed_ok)

fun crc_feed_all :: "(nat \<times> byte list) list \<Rightarrow> 32 word \<Rightarrow> 32 word option" where
  "crc_feed_all [] crc = Some crc"
| "crc_feed_all ((sa, bs) # cs) crc = Option.bind (crc_feed sa bs crc) (crc_feed_all cs)"

lemma crc_feed_all_upd: "crc_feed_all cs = crcd.upd_all cs"
  by (induction cs) (rule ext, auto)

section \<open>Properties\<close>

text \<open>C19: opal_uicrc_partial, whether the table is already built or not and whatever the alignment
  of the buffer, computes the division of the message by the CRC-32 generator bit by bit (most
  significant bit first), reads only the first crclen bytes and leaves a correct table.\<close>

theorem opal_uicrc_partial_divides:
  assumes "crc_wf g" and "crclen \<le> length s"
  shows "\<exists>g'. opal_uicrc_partial g sa s crclen crc = Some (foldl crc_byte crc (take crclen s), g') \<and> crc_wf g'"
  by (rule uicrc_ok [OF assms])

theorem opal_uicrc_partial_divides_witness:
  "\<exists>g'. opal_uicrc_partial \<lparr>opal_crc_table_initialized = False, opal_crc_table = []\<rparr> 1 [7, 8, 9] 2 0 =
     Some (foldl crc_byte 0 (take 2 [7, 8, 9]), g') \<and> crc_wf g'"
  by (rule opal_uicrc_partial_divides) (simp_all add: crc_wf_def)

text \<open>The CRC of a message computed over any cut into pieces, stored at any addresses, is the
  CRC of the whole message.\<close>

theorem crc_stream_any_cut:
  "crc_feed_all pieces CRC_INITIAL_REGISTER =
   Some (foldl crc_byte CRC_INITIAL_REGISTER (concat (map snd pieces)))"
  using crcd.upd_all_rep [of pieces "[]"] by (simp add: crc_feed_all_upd)

text \<open>opal_bcopy_uicrc_partial copies exactly the first copylen bytes and returns the CRC that
  opal_uicrc_partial computes over the first max(copylen, crclen) bytes of the source.\<close>

theorem opal_bcopy_uicrc_partial_copies:
  assumes "crc_wf g" and "copylen \<le> length d" and "max copylen crclen \<le> length s"
  shows "\<exists>crc' g1 g2. opal_bcopy_uicrc_partial g sa s da d copylen crclen crc =
           Some (crc', take copylen s @ drop copylen d, g1) \<and>
         opal_uicrc_partial g sa' s (max copylen crclen) crc = Some (crc', g2)"
  using bcopy_uicrc_ok [OF assms, of sa da crc] uicrc_ok [OF assms(1,3), of sa' crc] by blast

theorem opal_bcopy_uicrc_partial_copies_witness:
  "\<exists>crc' g1 g2. opal_bcopy_uicrc_partial \<lparr>opal_crc_table_initialized = False, opal_crc_table = []\<rparr>
       0 [1, 2, 3, 4, 5] 2 [0, 0, 0] 3 5 9 = Some (crc', take 3 [1, 2, 3, 4, 5] @ drop 3 [0, 0, 0], g1) \<and>
     opal_uicrc_partial \<lparr>opal_crc_table_initialized = False, opal_crc_table = []\<rparr>
       0 [1, 2, 3, 4, 5] (max 3 5) 9 = Some (crc', g2)"
  by (rule opal_bcopy_uicrc_partial_copies) (simp_all add: crc_wf_def)

end
