(* ===== verification/Keyed_Store.thy ===== *)
theory Keyed_Store
  imports Main
begin

text \<open>
  The contract of a table from keys to values, as the clients of \<open>opal_hash_table_t\<close> see it:
  \<open>lookup\<close> is the map a table stands for, and each operation either changes it as the
  mathematical map changes or, on failure, is undefined. The client's lemma: a whole sequence
  of operations runs and computes the map one gets by folding the updates.
\<close>

datatype ('k, 'v) store_op = Put 'k 'v | Del 'k

primrec op_map :: "('k, 'v) store_op \<Rightarrow> ('k \<rightharpoonup> 'v) \<Rightarrow> ('k \<rightharpoonup> 'v)" where
  "op_map (Put k v) m = m(k \<mapsto> v)"
| "op_map (Del k) m = m(k := None)"

fun run_store ::
    "('t \<Rightarrow> 'k \<Rightarrow> 'v \<Rightarrow> 't option) \<Rightarrow> ('t \<Rightarrow> 'k \<Rightarrow> 't option) \<Rightarrow> ('k, 'v) store_op list \<Rightarrow> 't \<Rightarrow> 't option" where
  "run_store put del [] t = Some t"
| "run_store put del (Put k v # ops) t = Option.bind (put t k v) (run_store put del ops)"
| "run_store put del (Del k # ops) t = Option.bind (del t k) (run_store put del ops)"

locale keyed_store =
  fixes inv :: "'t \<Rightarrow> bool" and lookup :: "'t \<Rightarrow> 'k \<rightharpoonup> 'v"
    and put :: "'t \<Rightarrow> 'k \<Rightarrow> 'v \<Rightarrow> 't option" and del :: "'t \<Rightarrow> 'k \<Rightarrow> 't option"
  assumes put_law: "inv t \<Longrightarrow> \<exists>t'. put t k v = Some t' \<and> inv t' \<and> lookup t' = (lookup t)(k \<mapsto> v)"
    and del_law: "inv t \<Longrightarrow> \<exists>t'. del t k = Some t' \<and> inv t' \<and> lookup t' = (lookup t)(k := None)"
begin

lemma run_ops_map:
  "inv t \<Longrightarrow> \<exists>t'. run_store put del ops t = Some t' \<and> inv t' \<and> lookup t' = fold op_map ops (lookup t)"
proof (induction ops arbitrary: t)
  case (Cons oper ops)
  show ?case
  proof (cases oper)
    case (Put k v)
    obtain t1 where "put t k v = Some t1" "inv t1" "lookup t1 = (lookup t)(k \<mapsto> v)"
      using put_law [OF Cons.prems] by blast
    with Cons.IH [of t1] Put show ?thesis by (auto simp: fun_upd_def)
  next
    case (Del k)
    obtain t1 where "del t k = Some t1" "inv t1" "lookup t1 = (lookup t)(k := None)"
      using del_law [OF Cons.prems] by blast
    with Cons.IH [of t1] Del show ?thesis by (auto simp: fun_upd_def)
  qed
qed simp

end

end
