(* ===== verification/Hash_Table.thy ===== *)
theory Hash_Table
  imports Bit_Ops Crc Keyed_Store
begin

unbundle bit_operations_syntax

text \<open>
  \<^verbatim>\<open>opal/class/opal_hash_table.c\<close>: an array of a power of two of lists of nodes, with a
  free list of nodes for reuse. The three families of operations (32-bit, 64-bit and byte-block
  keys) are the same code over another node type; the bodies they share are \<open>ht_get_value\<close>,
  \<open>ht_set_value\<close> and \<open>ht_remove_value\<close>, with the test, the update and the fresh node as
  arguments. A node pointer handed to an iterating client is the place of the node, its list
  and its position there. The argument \<open>dbg\<close> is \<^verbatim>\<open>OPAL_ENABLE_DEBUG\<close>; a key block with
  its size is a byte list.
\<close>

section \<open>Nodes and tables\<close>

record ('k, 'v) hash_node =
  hn_key :: 'k
  hn_value :: 'v

type_synonym 'v opal_uint32_hash_node = "(32 word, 'v) hash_node"
type_synonym 'v opal_uint64_hash_node = "(64 word, 'v) hash_node"

record 'v opal_ptr_hash_node =
  pn_key :: "byte list ptr"
  pn_key_size :: nat
  pn_value :: "'v ptr"

record 'n opal_hash_table =
  ht_nodes :: "'n list"
  ht_table :: "'n list list ptr"
  ht_table_size :: int
  ht_size :: int
  ht_mask :: "64 word"

section \<open>Construction, initialisation, clearing\<close>

definition opal_hash_table_construct :: "64 word \<Rightarrow> 'n opal_hash_table" where
  "opal_hash_table_construct junk =
     \<lparr>ht_nodes = [], ht_table = Null, ht_table_size = 0, ht_size = 0, ht_mask = junk\<rparr>"

definition opal_hash_table_init ::
    "bool \<Rightarrow> 'n list ptr \<Rightarrow> 'n opal_hash_table \<Rightarrow> int \<Rightarrow> (int \<times> 'n opal_hash_table) option" where
  "opal_hash_table_init have_clz m ht table_size = do {
     p \<leftarrow> opal_next_poweroftwo have_clz (int_of_size_t table_size);
     let pow2 = size_t_of p;
     let ht1 = ht\<lparr>ht_mask := word_of_int (pow2 - 1)\<rparr>;
     case m of
       Null \<Rightarrow> Some (OPAL_ERR_OUT_OF_RESOURCE, ht1\<lparr>ht_table := Null\<rparr>)
     | Ptr j \<Rightarrow> do {
         tab \<leftarrow> for_loop (ht_table_size ht1) pow2 (\<lambda>i a. aset a i []) (replicate (nat pow2) j);
         Some (OPAL_SUCCESS, ht1\<lparr>ht_table := Ptr tab, ht_table_size := pow2\<rparr>) } }"

definition opal_hash_table_remove_all :: "'n opal_hash_table \<Rightarrow> (int \<times> 'n opal_hash_table) option" where
  "opal_hash_table_remove_all ht = do {
     tab \<leftarrow> for_loop 0 (ht_table_size ht)
              (\<lambda>i a. do { list \<leftarrow> aget a i; aset a i (drop (length list) list) }) (cells (ht_table ht));
     let ht1 = ht\<lparr>ht_table := put_cells (ht_table ht) tab, ht_nodes := [], ht_size := 0\<rparr>;
     Some (OPAL_SUCCESS, ht1\<lparr>ht_size := size_t_of (ht_size ht1 - 1)\<rparr>) }"

definition opal_hash_table_destruct :: "'n opal_hash_table \<Rightarrow> 'n opal_hash_table option" where
  "opal_hash_table_destruct ht = do {
     (rc, ht1) \<leftarrow> opal_hash_table_remove_all ht;
     Some (ht1\<lparr>ht_nodes := []\<rparr>) }"

definition opal_hash_table_get_size :: "'n opal_hash_table \<Rightarrow> int" where
  "opal_hash_table_get_size ht = ht_size ht"

section \<open>The bodies shared by the three families\<close>

primrec chain_update :: "('n \<Rightarrow> bool) \<Rightarrow> ('n \<Rightarrow> 'n) \<Rightarrow> 'n list \<Rightarrow> 'n list" where
  "chain_update P f [] = []"
| "chain_update P f (n # ns) = (if P n then f n # ns else n # chain_update P f ns)"

primrec chain_remove :: "('n \<Rightarrow> bool) \<Rightarrow> 'n list \<Rightarrow> 'n list" where
  "chain_remove P [] = []"
| "chain_remove P (n # ns) = (if P n then ns else n # chain_remove P ns)"

definition ht_get_value ::
    "bool \<Rightarrow> 'n opal_hash_table \<Rightarrow> int \<Rightarrow> ('n \<Rightarrow> bool) \<Rightarrow> ('n \<Rightarrow> 'v) \<Rightarrow> 'v \<Rightarrow> (int \<times> 'v) option" where
  "ht_get_value dbg ht idx found val ptr =
     (if dbg \<and> ht_table_size ht = 0 then Some (OPAL_ERROR, ptr)
      else do {
        list \<leftarrow> aget (cells (ht_table ht)) idx;
        case List.find found list of
          Some node \<Rightarrow> Some (OPAL_SUCCESS, val node)
        | None \<Rightarrow> Some (OPAL_ERR_NOT_FOUND, ptr) })"

definition ht_set_value ::
    "bool \<Rightarrow> bool \<Rightarrow> 'n opal_hash_table \<Rightarrow> int \<Rightarrow> ('n \<Rightarrow> bool) \<Rightarrow> ('n \<Rightarrow> 'n) \<Rightarrow> 'n option \<Rightarrow>
     (int \<times> 'n opal_hash_table) option" where
  "ht_set_value dbg new_ok ht idx found upd fresh =
     (if dbg \<and> ht_table_size ht = 0 then Some (OPAL_ERR_BAD_PARAM, ht)
      else do {
        list \<leftarrow> aget (cells (ht_table ht)) idx;
        if List.find found list \<noteq> None then do {
          tab \<leftarrow> aset (cells (ht_table ht)) idx (chain_update found upd list);
          Some (OPAL_SUCCESS, ht\<lparr>ht_table := put_cells (ht_table ht) tab\<rparr>) }
        else if ht_nodes ht = [] \<and> \<not> new_ok then Some (OPAL_ERR_OUT_OF_RESOURCE, ht)
        else do {
          node \<leftarrow> fresh;
          tab \<leftarrow> aset (cells (ht_table ht)) idx (list @ [node]);
          Some (OPAL_SUCCESS,
                ht\<lparr>ht_nodes := tl (ht_nodes ht), ht_table := put_cells (ht_table ht) tab,
                   ht_size := size_t_of (ht_size ht + 1)\<rparr>) } })"

definition ht_remove_value ::
    "bool \<Rightarrow> 'n opal_hash_table \<Rightarrow> int \<Rightarrow> ('n \<Rightarrow> bool) \<Rightarrow> ('n \<Rightarrow> 'n) \<Rightarrow> (int \<times> 'n opal_hash_table) option" where
  "ht_remove_value dbg ht idx found clear =
     (if dbg \<and> ht_table_size ht = 0 then Some (OPAL_ERR_BAD_PARAM, ht)
      else do {
        list \<leftarrow> aget (cells (ht_table ht)) idx;
        case List.find found list of
          Some node \<Rightarrow> do {
            tab \<leftarrow> aset (cells (ht_table ht)) idx (chain_remove found list);
            Some (OPAL_SUCCESS,
                  ht\<lparr>ht_table := put_cells (ht_table ht) tab, ht_nodes := ht_nodes ht @ [clear node],
                     ht_size := size_t_of (ht_size ht - 1)\<rparr>) }
        | None \<Rightarrow> Some (OPAL_ERR_NOT_FOUND, ht) })"

section \<open>32-bit keys\<close>

definition opal_hash_table_get_value_uint32 ::
    "bool \<Rightarrow> 'v opal_uint32_hash_node opal_hash_table \<Rightarrow> 32 word \<Rightarrow> 'v \<Rightarrow> (int \<times> 'v) option" where
  "opal_hash_table_get_value_uint32 dbg ht key ptr =
     ht_get_value dbg ht (uint (ucast key AND ht_mask ht)) (\<lambda>node. hn_key node = key) hn_value ptr"

definition opal_hash_table_set_value_uint32 ::
    "bool \<Rightarrow> bool \<Rightarrow> 'v opal_uint32_hash_node opal_hash_table \<Rightarrow> 32 word \<Rightarrow> 'v \<Rightarrow>
     (int \<times> 'v opal_uint32_hash_node opal_hash_table) option" where
  "opal_hash_table_set_value_uint32 dbg new_ok ht key val =
     ht_set_value dbg new_ok ht (uint (ucast key AND ht_mask ht)) (\<lambda>node. hn_key node = key)
       (\<lambda>node. node\<lparr>hn_value := val\<rparr>) (Some \<lparr>hn_key = key, hn_value = val\<rparr>)"

definition opal_hash_table_remove_value_uint32 ::
    "bool \<Rightarrow> 'v opal_uint32_hash_node opal_hash_table \<Rightarrow> 32 word \<Rightarrow>
     (int \<times> 'v opal_uint32_hash_node opal_hash_table) option" where
  "opal_hash_table_remove_value_uint32 dbg ht key =
     ht_remove_value dbg ht (uint (ucast key AND ht_mask ht)) (\<lambda>node. hn_key node = key) (\<lambda>node. node)"

section \<open>64-bit keys\<close>

definition opal_hash_table_get_value_uint64 ::
    "bool \<Rightarrow> 'v opal_uint64_hash_node opal_hash_table \<Rightarrow> 64 word \<Rightarrow> 'v \<Rightarrow> (int \<times> 'v) option" where
  "opal_hash_table_get_value_uint64 dbg ht key ptr =
     ht_get_value dbg ht (uint (key AND ht_mask ht)) (\<lambda>node. hn_key node = key) hn_value ptr"

definition opal_hash_table_set_value_uint64 ::
    "bool \<Rightarrow> bool \<Rightarrow> 'v opal_uint64_hash_node opal_hash_table \<Rightarrow> 64 word \<Rightarrow> 'v \<Rightarrow>
     (int \<times> 'v opal_uint64_hash_node opal_hash_table) option" where
  "opal_hash_table_set_value_uint64 dbg new_ok ht key val =
     ht_set_value dbg new_ok ht (uint (key AND ht_mask ht)) (\<lambda>node. hn_key node = key)
       (\<lambda>node. node\<lparr>hn_value := val\<rparr>) (Some \<lparr>hn_key = key, hn_value = val\<rparr>)"

definition opal_hash_table_remove_value_uint64 ::
    "bool \<Rightarrow> 'v opal_uint64_hash_node opal_hash_table \<Rightarrow> 64 word \<Rightarrow>
     (int \<times> 'v opal_uint64_hash_node opal_hash_table) option" where
  "opal_hash_table_remove_value_uint64 dbg ht key =
     ht_remove_value dbg ht (uint (key AND ht_mask ht)) (\<lambda>node. hn_key node = key) (\<lambda>node. node)"

section \<open>Byte-block keys\<close>

definition opal_ptr_hash_node_construct :: "'v opal_ptr_hash_node" where
  "opal_ptr_hash_node_construct = \<lparr>pn_key = Null, pn_key_size = 0, pn_value = Null\<rparr>"

text \<open>The hash is the CRC of the key, with the CRC's file-scope table; \<open>ka\<close> is the address of
  the key.\<close>

definition opal_hash_value :: "crc_globals \<Rightarrow> nat \<Rightarrow> 64 word \<Rightarrow> byte list \<Rightarrow> (32 word \<times> crc_globals) option" where
  "opal_hash_value g ka msk key = do {
     (crc, g') \<leftarrow> opal_uicrc_partial g ka key (length key) 0;
     Some (ucast ((ucast crc :: 64 word) AND msk), g') }"

definition ptr_node_matches :: "byte list \<Rightarrow> 'v opal_ptr_hash_node \<Rightarrow> bool" where
  "ptr_node_matches key node \<longleftrightarrow>
     pn_key_size node = length key \<and> take (length key) (cells (pn_key node)) = key"

definition opal_hash_table_get_value_ptr ::
    "bool \<Rightarrow> crc_globals \<Rightarrow> nat \<Rightarrow> 'v opal_ptr_hash_node opal_hash_table \<Rightarrow> byte list \<Rightarrow> 'v ptr \<Rightarrow>
     (int \<times> 'v ptr \<times> crc_globals) option" where
  "opal_hash_table_get_value_ptr dbg g ka ht key ptr = do {
     (h, g') \<leftarrow> opal_hash_value g ka (ht_mask ht) key;
     (rc, val) \<leftarrow> ht_get_value dbg ht (uint h) (ptr_node_matches key) pn_value ptr;
     Some (rc, val, g') }"

text \<open>\<open>key_ok\<close>: the outcome of \<open>malloc(key_size)\<close>, which is not checked before the copy.\<close>

definition opal_hash_table_set_value_ptr ::
    "bool \<Rightarrow> bool \<Rightarrow> bool \<Rightarrow> crc_globals \<Rightarrow> nat \<Rightarrow> 'v opal_ptr_hash_node opal_hash_table \<Rightarrow> byte list \<Rightarrow> 'v ptr \<Rightarrow>
     (int \<times> 'v opal_ptr_hash_node opal_hash_table \<times> crc_globals) option" where
  "opal_hash_table_set_value_ptr dbg new_ok key_ok g ka ht key val = do {
     (h, g') \<leftarrow> opal_hash_value g ka (ht_mask ht) key;
     (rc, ht') \<leftarrow> ht_set_value dbg new_ok ht (uint h) (ptr_node_matches key) (\<lambda>node. node\<lparr>pn_value := val\<rparr>)
                   (if key_ok then Some \<lparr>pn_key = Ptr key, pn_key_size = length key, pn_value = val\<rparr> else None);
     Some (rc, ht', g') }"

definition opal_hash_table_remove_value_ptr ::
    "bool \<Rightarrow> crc_globals \<Rightarrow> nat \<Rightarrow> 'v opal_ptr_hash_node opal_hash_table \<Rightarrow> byte list \<Rightarrow>
     (int \<times> 'v opal_ptr_hash_node opal_hash_table \<times> crc_globals) option" where
  "opal_hash_table_remove_value_ptr dbg g ka ht key = do {
     (h, g') \<leftarrow> opal_hash_value g ka (ht_mask ht) key;
     (rc, ht') \<leftarrow> ht_remove_value dbg ht (uint h) (ptr_node_matches key)
                   (\<lambda>node. node\<lparr>pn_key := Null, pn_key_size := 0\<rparr>);
     Some (rc, ht', g') }"

section \<open>Iteration\<close>

text \<open>The first list from index \<open>i\<close> on that is not empty.\<close>

definition ht_nonempty_from :: "'n opal_hash_table \<Rightarrow> int \<Rightarrow> int option" where
  "ht_nonempty_from ht i =
     find_loop i (ht_table_size ht) (\<lambda>k. map_option (\<lambda>list. length list > 0) (aget (cells (ht_table ht)) k))"

definition ht_node_at :: "'n opal_hash_table \<Rightarrow> int \<times> int \<Rightarrow> 'n option" where
  "ht_node_at ht pos = do { list \<leftarrow> aget (cells (ht_table ht)) (fst pos); aget list (snd pos) }"

definition ht_get_first_key ::
    "('k, 'v) hash_node opal_hash_table \<Rightarrow> 'k \<Rightarrow> 'v \<Rightarrow> int \<times> int \<Rightarrow> (int \<times> 'k \<times> 'v \<times> (int \<times> int)) option" where
  "ht_get_first_key ht key val node = do {
     i \<leftarrow> ht_nonempty_from ht 0;
     if i < ht_table_size ht then do {
       list_node \<leftarrow> ht_node_at ht (i, 0);
       Some (OPAL_SUCCESS, hn_key list_node, hn_value list_node, (i, 0)) }
     else Some (OPAL_ERROR, key, val, node) }"

text \<open>
  The next node. \<open>opal_list_get_next\<close> of a list's last node is the end of the list that holds
  it, and it is compared with the end of the list the node's key hashes to: a node that is not in
  the list of its key is outside the contract.
\<close>

definition ht_get_next_key ::
    "('k \<Rightarrow> int) \<Rightarrow> ('k, 'v) hash_node opal_hash_table \<Rightarrow> 'k \<Rightarrow> 'v \<Rightarrow> int \<times> int \<Rightarrow> int \<times> int \<Rightarrow>
     (int \<times> 'k \<times> 'v \<times> (int \<times> int)) option" where
  "ht_get_next_key idx ht key val in_node out_node = do {
     node \<leftarrow> ht_node_at ht in_node;
     list \<leftarrow> aget (cells (ht_table ht)) (fst in_node);
     let li = idx (hn_key node);
     item \<leftarrow> (if snd in_node + 1 < int (length list) then Some (Ptr (fst in_node, snd in_node + 1))
              else if li \<noteq> fst in_node then None
              else do {
                i \<leftarrow> ht_nonempty_from ht (li + 1);
                Some (if i < ht_table_size ht then Ptr (i, 0) else Null) });
     case item of
       Null \<Rightarrow> Some (OPAL_ERROR, key, val, out_node)
     | Ptr pos \<Rightarrow> do {
         n \<leftarrow> ht_node_at ht pos;
         Some (OPAL_SUCCESS, hn_key n, hn_value n, pos) } }"

definition opal_hash_table_get_first_key_uint32 ::
    "'v opal_uint32_hash_node opal_hash_table \<Rightarrow> 32 word \<Rightarrow> 'v \<Rightarrow> int \<times> int \<Rightarrow>
     (int \<times> 32 word \<times> 'v \<times> (int \<times> int)) option" where
  "opal_hash_table_get_first_key_uint32 = ht_get_first_key"

definition opal_hash_table_get_next_key_uint32 ::
    "'v opal_uint32_hash_node opal_hash_table \<Rightarrow> 32 word \<Rightarrow> 'v \<Rightarrow> int \<times> int \<Rightarrow> int \<times> int \<Rightarrow>
     (int \<times> 32 word \<times> 'v \<times> (int \<times> int)) option" where
  "opal_hash_table_get_next_key_uint32 ht =
     ht_get_next_key (\<lambda>key. uint ((ucast key :: 64 word) AND ht_mask ht)) ht"

definition opal_hash_table_get_first_key_uint64 ::
    "'v opal_uint64_hash_node opal_hash_table \<Rightarrow> 64 word \<Rightarrow> 'v \<Rightarrow> int \<times> int \<Rightarrow>
     (int \<times> 64 word \<times> 'v \<times> (int \<times> int)) option" where
  "opal_hash_table_get_first_key_uint64 = ht_get_first_key"

definition opal_hash_table_get_next_key_uint64 ::
    "'v opal_uint64_hash_node opal_hash_table \<Rightarrow> 64 word \<Rightarrow> 'v \<Rightarrow> int \<times> int \<Rightarrow> int \<times> int \<Rightarrow>
     (int \<times> 64 word \<times> 'v \<times> (int \<times> int)) option" where
  "opal_hash_table_get_next_key_uint64 ht = ht_get_next_key (\<lambda>key. uint (key AND ht_mask ht)) ht"

section \<open>Invariant and abstraction\<close>

text \<open>
  The lists are as many as the mask says, every node is in the list of its key and no list holds a
  key twice. The map of a table, and the number of its nodes.
\<close>

definition ht_wf :: "('n \<Rightarrow> bool) \<Rightarrow> ('n \<Rightarrow> 'k) \<Rightarrow> (64 word \<Rightarrow> 'k \<Rightarrow> int) \<Rightarrow> 'n opal_hash_table \<Rightarrow> bool" where
  "ht_wf good keyf bucket ht \<longleftrightarrow>
     (case ht_table ht of
        Null \<Rightarrow> False
      | Ptr tab \<Rightarrow>
          int (length tab) = ht_table_size ht \<and> ht_table_size ht = uint (ht_mask ht) + 1 \<and>
          (\<forall>i < length tab.
             (\<forall>n \<in> set (tab ! i). good n \<and> bucket (ht_mask ht) (keyf n) = int i) \<and>
             distinct (map keyf (tab ! i))))"

definition chain_map :: "('n \<Rightarrow> 'k) \<Rightarrow> ('n \<Rightarrow> 'v) \<Rightarrow> 'n list \<Rightarrow> ('k \<rightharpoonup> 'v)" where
  "chain_map keyf valf l = map_of (map (\<lambda>n. (keyf n, valf n)) l)"

definition ht_map :: "('n \<Rightarrow> 'k) \<Rightarrow> ('n \<Rightarrow> 'v) \<Rightarrow> (64 word \<Rightarrow> 'k \<Rightarrow> int) \<Rightarrow> 'n opal_hash_table \<Rightarrow> ('k \<rightharpoonup> 'v)" where
  "ht_map keyf valf bucket ht k =
     chain_map keyf valf (cells (ht_table ht) ! nat (bucket (ht_mask ht) k)) k"

definition ht_count :: "'n opal_hash_table \<Rightarrow> nat" where
  "ht_count ht = length (concat (cells (ht_table ht)))"

lemma chain_map_find: "chain_map keyf valf l k = map_option valf (List.find (\<lambda>n. keyf n = k) l)"
  by (induction l) (auto simp: chain_map_def)

lemma find_None_keys: "List.find (\<lambda>n. keyf n = k) l = None \<longleftrightarrow> k \<notin> keyf ` set l"
  by (auto simp: find_None_iff)

lemma chain_update_keys: "(\<And>n. keyf (f n) = keyf n) \<Longrightarrow> map keyf (chain_update P f l) = map keyf l"
  by (induction l) auto

lemma chain_update_set: "n \<in> set (chain_update P f l) \<Longrightarrow> n \<in> set l \<or> (\<exists>m \<in> set l. n = f m)"
  by (induction l) (auto split: if_splits)

lemma chain_remove_set: "set (chain_remove P l) \<subseteq> set l"
  by (induction l) auto

lemma chain_remove_length: "List.find P l = Some n \<Longrightarrow> Suc (length (chain_remove P l)) = length l"
  by (induction l) (auto split: if_splits)

lemma chain_remove_distinct: "distinct (map keyf l) \<Longrightarrow> distinct (map keyf (chain_remove P l))"
proof (induction l)
  case (Cons n l)
  then show ?case using chain_remove_set [of P l] by auto
qed simp

lemma chain_update_length [simp]: "length (chain_update P f l) = length l"
  by (induction l) auto

lemma chain_update_map:
  "(\<And>n. keyf (f n) = keyf n) \<Longrightarrow> (\<And>n. valf (f n) = v) \<Longrightarrow> k \<in> keyf ` set l \<Longrightarrow>
   chain_map keyf valf (chain_update (\<lambda>n. keyf n = k) f l) = (chain_map keyf valf l)(k \<mapsto> v)"
  by (induction l) (auto simp: chain_map_def fun_eq_iff)

lemma chain_remove_map:
  "distinct (map keyf l) \<Longrightarrow>
   chain_map keyf valf (chain_remove (\<lambda>n. keyf n = k) l) = (chain_map keyf valf l)(k := None)"
proof (induction l)
  case (Cons n l)
  show ?case
  proof (cases "keyf n = k")
    case True
    then have "k \<notin> keyf ` set l" using Cons.prems by auto
    then have "map_of (map (\<lambda>n. (keyf n, valf n)) l) k = None" by (force simp: map_of_eq_None_iff)
    with True show ?thesis by (auto simp: chain_map_def fun_eq_iff)
  next
    case False
    with Cons show ?thesis by (auto simp: chain_map_def fun_eq_iff)
  qed
qed (simp add: chain_map_def)

lemma chain_append_map:
  "keyf n \<notin> keyf ` set l \<Longrightarrow> chain_map keyf valf (l @ [n]) = (chain_map keyf valf l)(keyf n \<mapsto> valf n)"
  by (induction l) (auto simp: chain_map_def fun_eq_iff)

lemma length_concat_update:
  "i < length tab \<Longrightarrow> length (concat (tab[i := l])) + length (tab ! i) = length (concat tab) + length l"
  by (induction tab arbitrary: i) (auto simp: less_Suc_eq_0_disj nth_Cons' split: nat.splits)

section \<open>The three families at once\<close>

locale hash_keys =
  fixes keyf :: "'n \<Rightarrow> 'k" and valf :: "'n \<Rightarrow> 'v" and good :: "'n \<Rightarrow> bool"
    and bucket :: "64 word \<Rightarrow> 'k \<Rightarrow> int" and found :: "'k \<Rightarrow> 'n \<Rightarrow> bool"
    and upd :: "'v \<Rightarrow> 'n \<Rightarrow> 'n" and fresh :: "'k \<Rightarrow> 'v \<Rightarrow> 'n"
  assumes bucket_range: "0 \<le> bucket m k \<and> bucket m k \<le> uint m"
    and found_key: "good n \<Longrightarrow> found k n = (keyf n = k)"
    and upd_key: "keyf (upd v n) = keyf n" and upd_val: "valf (upd v n) = v"
    and upd_good: "good n \<Longrightarrow> good (upd v n)"
    and fresh_key: "keyf (fresh k v) = k" and fresh_val: "valf (fresh k v) = v" and fresh_good: "good (fresh k v)"
begin

abbreviation wf :: "'n opal_hash_table \<Rightarrow> bool" where "wf \<equiv> ht_wf good keyf bucket"

abbreviation mp :: "'n opal_hash_table \<Rightarrow> 'k \<rightharpoonup> 'v" where "mp \<equiv> ht_map keyf valf bucket"

lemma wf_chain:
  assumes "wf ht"
  obtains tab l where "ht_table ht = Ptr tab" and "nat (bucket (ht_mask ht) k) < length tab"
    and "aget tab (bucket (ht_mask ht) k) = Some l" and "l = tab ! nat (bucket (ht_mask ht) k)"
    and "\<And>n. n \<in> set l \<Longrightarrow> good n \<and> bucket (ht_mask ht) (keyf n) = bucket (ht_mask ht) k"
    and "distinct (map keyf l)" and "mp ht k = chain_map keyf valf l k"
    and "List.find (found k) l = List.find (\<lambda>n. keyf n = k) l"
    and "chain_update (found k) f l = chain_update (\<lambda>n. keyf n = k) f l"
    and "chain_remove (found k) l = chain_remove (\<lambda>n. keyf n = k) l"
    and "0 < ht_table_size ht"
proof (cases "ht_table ht")
  case Null
  then show ?thesis using assms by (simp add: ht_wf_def)
next
  case (Ptr tab)
  let ?b = "bucket (ht_mask ht) k"
  let ?l = "tab ! nat ?b"
  have len: "int (length tab) = uint (ht_mask ht) + 1" "ht_table_size ht = uint (ht_mask ht) + 1"
    using assms Ptr by (auto simp: ht_wf_def)
  then have b: "0 \<le> ?b" "?b < int (length tab)" "nat ?b < length tab" using bucket_range [of "ht_mask ht" k] by auto
  have l: "n \<in> set ?l \<Longrightarrow> good n \<and> bucket (ht_mask ht) (keyf n) = ?b" for n
    using assms Ptr b by (auto simp: ht_wf_def)
  have fk: "n \<in> set ?l \<Longrightarrow> found k n = (keyf n = k)" for n using l found_key by blast
  have cu: "chain_update (found k) f xs = chain_update (\<lambda>n. keyf n = k) f xs"
    "chain_remove (found k) xs = chain_remove (\<lambda>n. keyf n = k) xs" if "set xs \<subseteq> set ?l" for xs
    using that fk by (induction xs) auto
  have "0 < ht_table_size ht" unfolding len(2) using uint_ge_0 [of "ht_mask ht"] by linarith
  moreover have "distinct (map keyf ?l)" using assms Ptr b by (auto simp: ht_wf_def)
  moreover have "List.find (found k) ?l = List.find (\<lambda>n. keyf n = k) ?l"
    using fk by (intro find_cong) auto
  ultimately show ?thesis
    using that [of tab ?l] Ptr b l cu by (auto simp: aget_def ht_map_def)
qed

text \<open>Replacing the list of a key.\<close>

lemma replace_chain:
  assumes "wf ht" and "ht_table ht = Ptr tab" and "l = tab ! nat (bucket (ht_mask ht) k)"
    and "\<And>n. n \<in> set l' \<Longrightarrow> good n \<and> bucket (ht_mask ht) (keyf n) = bucket (ht_mask ht) k"
    and "distinct (map keyf l')" and "chain_map keyf valf l' = (chain_map keyf valf l)(k := x)"
    and "ht_table ht' = Ptr (tab[nat (bucket (ht_mask ht) k) := l'])" and "ht_mask ht' = ht_mask ht"
    and "ht_table_size ht' = ht_table_size ht"
  shows "wf ht'" and "mp ht' = (mp ht)(k := x)" and "ht_count ht' + length l = ht_count ht + length l'"
proof -
  let ?b = "bucket (ht_mask ht) k"
  have b: "0 \<le> ?b" "nat ?b < length tab"
    using assms(1,2) bucket_range [of "ht_mask ht" k] by (auto simp: ht_wf_def)
  have sep: "nat (bucket (ht_mask ht) k') = nat ?b \<longleftrightarrow> bucket (ht_mask ht) k' = ?b" for k'
    using bucket_range [of "ht_mask ht" k'] b by auto
  show "wf ht'" using assms b by (auto simp: ht_wf_def nth_list_update)
  show "mp ht' = (mp ht)(k := x)"
    using assms b sep by (auto simp: ht_map_def fun_eq_iff nth_list_update)
  show "ht_count ht' + length l = ht_count ht + length l'"
    using length_concat_update [OF b(2), of l'] assms by (simp add: ht_count_def)
qed

lemma get_ok:
  assumes "wf ht"
  shows "ht_get_value dbg ht (bucket (ht_mask ht) k) (found k) valf p =
         Some (case mp ht k of Some v \<Rightarrow> (OPAL_SUCCESS, v) | None \<Rightarrow> (OPAL_ERR_NOT_FOUND, p))"
  by (rule wf_chain [OF assms, of k id]) (auto simp: ht_get_value_def chain_map_find split: option.split)

lemma set_ok:
  assumes "wf ht"
  shows "\<exists>ht'. ht_set_value dbg True ht (bucket (ht_mask ht) k) (found k) (upd v) (Some (fresh k v)) =
           Some (OPAL_SUCCESS, ht') \<and> wf ht' \<and> mp ht' = (mp ht)(k \<mapsto> v) \<and> ht_mask ht' = ht_mask ht \<and>
           (if k \<in> dom (mp ht) then ht_count ht' = ht_count ht \<and> ht_size ht' = ht_size ht
            else ht_count ht' = ht_count ht + 1 \<and> ht_size ht' = size_t_of (ht_size ht + 1))"
proof (rule wf_chain [OF assms, of k "upd v"])
  fix tab l
  assume tab: "ht_table ht = Ptr tab" "nat (bucket (ht_mask ht) k) < length tab"
    and l: "aget tab (bucket (ht_mask ht) k) = Some l" "l = tab ! nat (bucket (ht_mask ht) k)"
      "\<And>n. n \<in> set l \<Longrightarrow> good n \<and> bucket (ht_mask ht) (keyf n) = bucket (ht_mask ht) k"
      "distinct (map keyf l)" "mp ht k = chain_map keyf valf l k"
    and f: "List.find (found k) l = List.find (\<lambda>n. keyf n = k) l"
      "chain_update (found k) (upd v) l = chain_update (\<lambda>n. keyf n = k) (upd v) l"
    and sz: "0 < ht_table_size ht"
  let ?b = "bucket (ht_mask ht) k"
  have ns: "aset tab ?b x = Some (tab[nat ?b := x])" for x using l(1) by (auto simp: aset_def aget_def split: if_splits)
  show ?thesis
  proof (cases "k \<in> keyf ` set l")
    case True
    let ?l = "chain_update (\<lambda>n. keyf n = k) (upd v) l"
    let ?ht = "ht\<lparr>ht_table := Ptr (tab[nat ?b := ?l])\<rparr>"
    have "List.find (\<lambda>n. keyf n = k) l \<noteq> None" using True by (simp add: find_None_keys)
    moreover have "n \<in> set ?l \<Longrightarrow> good n \<and> bucket (ht_mask ht) (keyf n) = ?b" for n
      using chain_update_set [of n "\<lambda>n. keyf n = k" "upd v" l] l(3) upd_good upd_key by force
    then have "wf ?ht" "mp ?ht = (mp ht)(k \<mapsto> v)" "ht_count ?ht + length l = ht_count ht + length ?l"
      using replace_chain [OF assms tab(1) l(2), of ?l "Some v" ?ht] l(4)
        chain_update_map [of keyf "upd v" valf v k l, OF _ _ True] upd_val chain_update_keys [of keyf "upd v"] upd_key by auto
    ultimately show ?thesis
      using True tab l f sz ns by (auto simp: ht_set_value_def chain_map_find dom_def)
  next
    case False
    let ?l = "l @ [fresh k v]"
    let ?ht = "ht\<lparr>ht_nodes := tl (ht_nodes ht), ht_table := Ptr (tab[nat ?b := ?l]), ht_size := size_t_of (ht_size ht + 1)\<rparr>"
    have fn: "List.find (\<lambda>n. keyf n = k) l = None" using False by (simp add: find_None_keys)
    have "n \<in> set ?l \<Longrightarrow> good n \<and> bucket (ht_mask ht) (keyf n) = ?b" for n
      using l(3) fresh_key fresh_good by auto
    then have "wf ?ht" "mp ?ht = (mp ht)(k \<mapsto> v)" "ht_count ?ht + length l = ht_count ht + length ?l"
      using replace_chain [OF assms tab(1) l(2), of ?l "Some v" ?ht] l(4) False
        chain_append_map [of keyf "fresh k v" l valf] fresh_key fresh_val fresh_good by auto
    then show ?thesis
      using False tab l f fn sz ns by (auto simp: ht_set_value_def chain_map_find dom_def)
  qed
qed

lemma remove_ok:
  assumes "wf ht"
  shows "\<exists>rc ht'. ht_remove_value dbg ht (bucket (ht_mask ht) k) (found k) clear = Some (rc, ht') \<and>
           wf ht' \<and> mp ht' = (mp ht)(k := None) \<and> ht_mask ht' = ht_mask ht \<and>
           (if k \<in> dom (mp ht)
            then rc = OPAL_SUCCESS \<and> ht_count ht = ht_count ht' + 1 \<and> ht_size ht' = size_t_of (ht_size ht - 1)
            else rc = OPAL_ERR_NOT_FOUND \<and> ht' = ht)"
proof (rule wf_chain [OF assms, of k id])
  fix tab l
  assume tab: "ht_table ht = Ptr tab" "nat (bucket (ht_mask ht) k) < length tab"
    and l: "aget tab (bucket (ht_mask ht) k) = Some l" "l = tab ! nat (bucket (ht_mask ht) k)"
      "\<And>n. n \<in> set l \<Longrightarrow> good n \<and> bucket (ht_mask ht) (keyf n) = bucket (ht_mask ht) k"
      "distinct (map keyf l)" "mp ht k = chain_map keyf valf l k"
    and f: "List.find (found k) l = List.find (\<lambda>n. keyf n = k) l"
      "chain_remove (found k) l = chain_remove (\<lambda>n. keyf n = k) l"
    and sz: "0 < ht_table_size ht"
  let ?b = "bucket (ht_mask ht) k"
  have ns: "aset tab ?b x = Some (tab[nat ?b := x])" for x using l(1) by (auto simp: aset_def aget_def split: if_splits)
  show ?thesis
  proof (cases "List.find (\<lambda>n. keyf n = k) l")
    case None
    then have "mp ht k = None" using l(5) by (simp add: chain_map_find)
    then have "(mp ht)(k := None) = mp ht" "k \<notin> dom (mp ht)" by auto
    then show ?thesis using None tab l f sz assms by (simp add: ht_remove_value_def)
  next
    case (Some n)
    let ?l = "chain_remove (\<lambda>n. keyf n = k) l"
    let ?ht = "ht\<lparr>ht_table := Ptr (tab[nat ?b := ?l]), ht_nodes := ht_nodes ht @ [clear n],
                  ht_size := size_t_of (ht_size ht - 1)\<rparr>"
    have "n \<in> set ?l \<Longrightarrow> good n \<and> bucket (ht_mask ht) (keyf n) = ?b" for n
      using l(3) chain_remove_set [of "\<lambda>n. keyf n = k" l] by auto
    then have "wf ?ht" "mp ?ht = (mp ht)(k := None)" "ht_count ?ht + length l = ht_count ht + length ?l"
      using replace_chain [OF assms tab(1) l(2), of ?l None ?ht]
        chain_remove_distinct [OF l(4)] chain_remove_map [OF l(4), of valf k] by auto
    moreover have "Suc (length ?l) = length l" using chain_remove_length [OF Some] .
    ultimately show ?thesis
      using Some tab l f sz ns by (auto simp: ht_remove_value_def chain_map_find dom_def)
  qed
qed

end

section \<open>The interface: a map from keys to values\<close>

definition u32_bucket :: "64 word \<Rightarrow> 32 word \<Rightarrow> int" where
  "u32_bucket m k = uint ((ucast k :: 64 word) AND m)"

definition u64_bucket :: "64 word \<Rightarrow> 64 word \<Rightarrow> int" where
  "u64_bucket m k = uint (k AND m)"

definition ptr_bucket :: "64 word \<Rightarrow> byte list \<Rightarrow> int" where
  "ptr_bucket m k = uint (ucast ((ucast (foldl crc_byte 0 k) :: 64 word) AND m) :: 32 word)"

definition ptr_good :: "'v opal_ptr_hash_node \<Rightarrow> bool" where
  "ptr_good n \<longleftrightarrow> pn_key n \<noteq> Null \<and> pn_key_size n = length (cells (pn_key n))"

lemma uint_and_le: "uint (x AND m) \<le> uint (m :: 'a::len word)"
  using word_and_le1 [of x m] by (simp add: word_le_def)

lemma uint_ucast_le: "uint (ucast (x :: 'a::len word) :: 'b::len word) \<le> uint x"
  by (simp add: unsigned_ucast_eq take_bit_int_less_eq_self_iff)

interpretation hk32: hash_keys hn_key hn_value "\<lambda>_. True" u32_bucket "\<lambda>k n. hn_key n = k"
    "\<lambda>v n. n\<lparr>hn_value := v\<rparr>" "\<lambda>k v. \<lparr>hn_key = k, hn_value = v\<rparr>"
  by unfold_locales (simp_all add: u32_bucket_def uint_and_le)

interpretation hk64: hash_keys hn_key hn_value "\<lambda>_. True" u64_bucket "\<lambda>k n. hn_key n = k"
    "\<lambda>v n. n\<lparr>hn_value := v\<rparr>" "\<lambda>k v. \<lparr>hn_key = k, hn_value = v\<rparr>"
  by unfold_locales (simp_all add: u64_bucket_def uint_and_le)

interpretation hkp: hash_keys "\<lambda>n. cells (pn_key n)" pn_value ptr_good ptr_bucket ptr_node_matches
    "\<lambda>v n. n\<lparr>pn_value := v\<rparr>" "\<lambda>k v. \<lparr>pn_key = Ptr k, pn_key_size = length k, pn_value = v\<rparr>"
proof unfold_locales
  fix m :: "64 word" and k :: "byte list"
  let ?x = "(ucast (foldl crc_byte 0 k) :: 64 word) AND m"
  have "ptr_bucket m k \<le> uint ?x" unfolding ptr_bucket_def by (rule uint_ucast_le)
  also have "\<dots> \<le> uint m" by (rule uint_and_le)
  finally show "0 \<le> ptr_bucket m k \<and> ptr_bucket m k \<le> uint m" by (simp add: ptr_bucket_def)
qed (auto simp: ptr_node_matches_def ptr_good_def)

text \<open>The operations of a client that only looks at the new table.\<close>

definition put32 :: "'v opal_uint32_hash_node opal_hash_table \<Rightarrow> 32 word \<Rightarrow> 'v \<Rightarrow> 'v opal_uint32_hash_node opal_hash_table option" where
  "put32 ht k v = map_option snd (opal_hash_table_set_value_uint32 False True ht k v)"

definition del32 :: "'v opal_uint32_hash_node opal_hash_table \<Rightarrow> 32 word \<Rightarrow> 'v opal_uint32_hash_node opal_hash_table option" where
  "del32 ht k = map_option snd (opal_hash_table_remove_value_uint32 False ht k)"

definition put64 :: "'v opal_uint64_hash_node opal_hash_table \<Rightarrow> 64 word \<Rightarrow> 'v \<Rightarrow> 'v opal_uint64_hash_node opal_hash_table option" where
  "put64 ht k v = map_option snd (opal_hash_table_set_value_uint64 False True ht k v)"

definition del64 :: "'v opal_uint64_hash_node opal_hash_table \<Rightarrow> 64 word \<Rightarrow> 'v opal_uint64_hash_node opal_hash_table option" where
  "del64 ht k = map_option snd (opal_hash_table_remove_value_uint64 False ht k)"

definition putp :: "crc_globals \<Rightarrow> nat \<Rightarrow> 'v opal_ptr_hash_node opal_hash_table \<Rightarrow> byte list \<Rightarrow> 'v ptr \<Rightarrow> 'v opal_ptr_hash_node opal_hash_table option" where
  "putp g ka ht k v = map_option (fst \<circ> snd) (opal_hash_table_set_value_ptr False True True g ka ht k v)"

definition delp :: "crc_globals \<Rightarrow> nat \<Rightarrow> 'v opal_ptr_hash_node opal_hash_table \<Rightarrow> byte list \<Rightarrow> 'v opal_ptr_hash_node opal_hash_table option" where
  "delp g ka ht k = map_option (fst \<circ> snd) (opal_hash_table_remove_value_ptr False g ka ht k)"

abbreviation wf32 :: "'v opal_uint32_hash_node opal_hash_table \<Rightarrow> bool" where
  "wf32 \<equiv> ht_wf (\<lambda>_. True) hn_key u32_bucket"

abbreviation map32 :: "'v opal_uint32_hash_node opal_hash_table \<Rightarrow> 32 word \<rightharpoonup> 'v" where
  "map32 \<equiv> ht_map hn_key hn_value u32_bucket"

abbreviation wf64 :: "'v opal_uint64_hash_node opal_hash_table \<Rightarrow> bool" where
  "wf64 \<equiv> ht_wf (\<lambda>_. True) hn_key u64_bucket"

abbreviation map64 :: "'v opal_uint64_hash_node opal_hash_table \<Rightarrow> 64 word \<rightharpoonup> 'v" where
  "map64 \<equiv> ht_map hn_key hn_value u64_bucket"

abbreviation wfp :: "'v opal_ptr_hash_node opal_hash_table \<Rightarrow> bool" where
  "wfp \<equiv> ht_wf ptr_good (\<lambda>n. cells (pn_key n)) ptr_bucket"

abbreviation mapp :: "'v opal_ptr_hash_node opal_hash_table \<Rightarrow> byte list \<rightharpoonup> 'v ptr" where
  "mapp \<equiv> ht_map (\<lambda>n. cells (pn_key n)) pn_value ptr_bucket"

lemma hash_value_ok:
  "crc_wf g \<Longrightarrow> \<exists>h g'. opal_hash_value g ka m key = Some (h, g') \<and> crc_wf g' \<and> uint h = ptr_bucket m key"
  using uicrc_ok [of g "length key" key ka 0] by (auto simp: opal_hash_value_def ptr_bucket_def)

interpretation ks32: keyed_store wf32 map32 put32 del32
proof unfold_locales
  fix t :: "'v opal_uint32_hash_node opal_hash_table" and k v assume t: "wf32 t"
  show "\<exists>t'. put32 t k v = Some t' \<and> wf32 t' \<and> map32 t' = (map32 t)(k \<mapsto> v)"
    using hk32.set_ok [OF t, of False k v]
    by (auto simp: put32_def opal_hash_table_set_value_uint32_def u32_bucket_def)
  show "\<exists>t'. del32 t k = Some t' \<and> wf32 t' \<and> map32 t' = (map32 t)(k := None)"
    using hk32.remove_ok [OF t, of False k "\<lambda>n. n"]
    by (auto simp: del32_def opal_hash_table_remove_value_uint32_def u32_bucket_def)
qed

interpretation ks64: keyed_store wf64 map64 put64 del64
proof unfold_locales
  fix t :: "'v opal_uint64_hash_node opal_hash_table" and k v assume t: "wf64 t"
  show "\<exists>t'. put64 t k v = Some t' \<and> wf64 t' \<and> map64 t' = (map64 t)(k \<mapsto> v)"
    using hk64.set_ok [OF t, of False k v]
    by (auto simp: put64_def opal_hash_table_set_value_uint64_def u64_bucket_def)
  show "\<exists>t'. del64 t k = Some t' \<and> wf64 t' \<and> map64 t' = (map64 t)(k := None)"
    using hk64.remove_ok [OF t, of False k "\<lambda>n. n"]
    by (auto simp: del64_def opal_hash_table_remove_value_uint64_def u64_bucket_def)
qed

lemma putp_ok:
  assumes "crc_wf g" and "wfp t"
  shows "\<exists>t'. putp g ka t k v = Some t' \<and> wfp t' \<and> mapp t' = (mapp t)(k \<mapsto> v)"
  using hkp.set_ok [OF assms(2), of False k v] hash_value_ok [OF assms(1), of ka "ht_mask t" k]
  by (auto simp: putp_def opal_hash_table_set_value_ptr_def)

lemma delp_ok:
  assumes "crc_wf g" and "wfp t"
  shows "\<exists>t'. delp g ka t k = Some t' \<and> wfp t' \<and> mapp t' = (mapp t)(k := None)"
  using hkp.remove_ok [OF assms(2), of False k "\<lambda>n. n\<lparr>pn_key := Null, pn_key_size := 0\<rparr>"]
    hash_value_ok [OF assms(1), of ka "ht_mask t" k]
  by (auto simp: delp_def opal_hash_table_remove_value_ptr_def)

interpretation ksp: keyed_store wfp mapp "putp crc_ready ka" "delp crc_ready ka" for ka
  by unfold_locales (auto intro: putp_ok delp_ok crc_wf_ready)

section \<open>Fresh and cleared tables\<close>

lemma ht_init_ok:
  assumes "0 \<le> n" and "n < 2 ^ 30"
  shows "\<exists>ht. opal_hash_table_init have_clz (Ptr j) (opal_hash_table_construct junk) n = Some (OPAL_SUCCESS, ht) \<and>
           ht_wf good keyf bucket ht \<and> n < ht_table_size ht \<and> ht_count ht = 0 \<and> ht_size ht = 0 \<and>
           (\<forall>i < length (cells (ht_table ht)). cells (ht_table ht) ! i = [])"
proof -
  let ?p = "2 ^ nbits (nat n) :: int"
  have p: "n < ?p" "?p \<le> max 1 (2 * n)" using next_poweroftwo_bounds [OF assms(1)] by auto
  then have bnd: "0 < ?p" "?p \<le> 2 ^ 31" using assms by auto
  have "for_loop 0 ?p (\<lambda>i a. aset a i []) (replicate (nat ?p) j) = Some (replicate (nat ?p) [])"
    using for_loop_fill [of "[] :: 'a list list" ?p "[]" j] bnd by (simp add: realloc_cells_def)
  moreover have "uint (word_of_int (?p - 1) :: 64 word) = ?p - 1"
    unfolding uint_word_of_int using bnd by (intro mod_pos_pos_trivial) auto
  moreover have "size_t_of ?p = ?p" using bnd by (intro size_t_of_nonneg) auto
  moreover have "opal_next_poweroftwo have_clz n = Some ?p" by (rule next_poweroftwo_ok [OF assms])
  moreover have "int_of_size_t n = n" using assms by (simp add: INT_MAX_def)
  ultimately show ?thesis
    using p bnd by (simp add: opal_hash_table_init_def opal_hash_table_construct_def ht_wf_def ht_count_def Let_def)
qed

lemma empty_table_map:
  assumes "ht_wf good keyf bucket ht" and "\<forall>i < length (cells (ht_table ht)). cells (ht_table ht) ! i = []"
    and "\<And>k. 0 \<le> bucket (ht_mask ht) k \<and> bucket (ht_mask ht) k \<le> uint (ht_mask ht)"
  shows "ht_map keyf valf bucket ht = Map.empty"
proof
  fix k
  have "nat (bucket (ht_mask ht) k) < length (cells (ht_table ht))"
    using assms(1) assms(3) [of k] by (auto simp: ht_wf_def split: ptr.splits)
  then show "ht_map keyf valf bucket ht k = None" using assms(2) by (simp add: ht_map_def chain_map_def)
qed

section \<open>Iteration visits every node once\<close>

text \<open>The client's loop: from the result of \<open>get_first_key\<close>, call \<open>get_next_key\<close> until it
  does not return success.\<close>

fun ht_iterate ::
    "(int \<times> int \<Rightarrow> (int \<times> 'k \<times> 'v \<times> (int \<times> int)) option) \<Rightarrow> nat \<Rightarrow> int \<times> 'k \<times> 'v \<times> (int \<times> int) \<Rightarrow> ('k \<times> 'v) list option" where
  "ht_iterate next_key 0 r = None"
| "ht_iterate next_key (Suc fuel) (rc, k, v, pos) =
     (if rc \<noteq> OPAL_SUCCESS then Some []
      else do { r \<leftarrow> next_key pos; rest \<leftarrow> ht_iterate next_key fuel r; Some ((k, v) # rest) })"

definition suffix_from :: "'n list list \<Rightarrow> nat \<Rightarrow> nat \<Rightarrow> 'n list" where
  "suffix_from tab b p = drop p (tab ! b) @ concat (drop (Suc b) tab)"

lemma nonempty_from_ok:
  assumes "ht_table ht = Ptr tab" and "int (length tab) = ht_table_size ht" and "i \<le> length tab"
  shows "\<exists>j. ht_nonempty_from ht (int i) = Some (int j) \<and> j \<le> length tab \<and>
           concat (drop i tab) = (if j < length tab then suffix_from tab j 0 else []) \<and>
           (j < length tab \<longrightarrow> tab ! j \<noteq> [])"
proof -
  obtain r where r: "ht_nonempty_from ht (int i) = Some r" "int i \<le> r" "r \<le> int (length tab)"
    "\<forall>k. int i \<le> k \<and> k < r \<longrightarrow> \<not> 0 < length (tab ! nat k)" "r < int (length tab) \<longrightarrow> 0 < length (tab ! nat r)"
    using find_loop_spec [of "int i" "ht_table_size ht"
        "\<lambda>k. map_option (\<lambda>list. length list > 0) (aget tab k)" "\<lambda>k. 0 < length (tab ! nat k)"] assms
    by (auto simp: ht_nonempty_from_def aget_def)
  define j where "j = nat r"
  have j: "r = int j" "i \<le> j" "j \<le> length tab" using r by (auto simp: j_def)
  have "tab ! k = []" if "i \<le> k" "k < j" for k using r(4) j that by (auto dest: spec [of _ "int k"])
  then have "concat (take (j - i) (drop i tab)) = []" using j by (auto simp: in_set_conv_nth)
  moreover have "drop i tab = take (j - i) (drop i tab) @ drop j tab"
    using append_take_drop_id [of "j - i" "drop i tab"] j by simp
  ultimately have "concat (drop i tab) = concat (drop j tab)" by (metis append_Nil concat_append)
  then have "concat (drop i tab) = (if j < length tab then suffix_from tab j 0 else [])"
    using j by (auto simp: suffix_from_def Cons_nth_drop_Suc [symmetric])
  with r j show ?thesis by (auto simp: j(1))
qed

lemma next_key_ok:
  assumes wf: "ht_wf (\<lambda>_. True) hn_key bucket ht" and tab: "ht_table ht = Ptr tab"
    and pos: "b < length tab" "p < length (tab ! b)" "suffix_from tab b p = n # rest"
  shows "\<exists>rc k v q. ht_get_next_key (bucket (ht_mask ht)) ht k0 v0 (int b, int p) q0 = Some (rc, k, v, q) \<and>
           (case rest of
              [] \<Rightarrow> rc = OPAL_ERROR
            | m # _ \<Rightarrow> rc = OPAL_SUCCESS \<and> k = hn_key m \<and> v = hn_value m \<and>
                (\<exists>b' p'. q = (int b', int p') \<and> b' < length tab \<and> p' < length (tab ! b') \<and> suffix_from tab b' p' = rest))"
proof -
  have n: "n = tab ! b ! p" "rest = drop (Suc p) (tab ! b) @ concat (drop (Suc b) tab)"
    using pos by (auto simp: suffix_from_def Cons_nth_drop_Suc [symmetric])
  have at: "ht_node_at ht (int b', int p') = Some (tab ! b' ! p')" if "b' < length tab" "p' < length (tab ! b')" for b' p'
    using that tab by (simp add: ht_node_at_def aget_def)
  have size: "int (length tab) = ht_table_size ht" using wf tab by (simp add: ht_wf_def)
  have bk: "bucket (ht_mask ht) (hn_key (tab ! b ! p)) = int b" using wf tab pos by (auto simp: ht_wf_def)
  have hd: "tab ! b' ! p' = m" if "suffix_from tab b' p' = m # ms" "p' < length (tab ! b')" for b' p' m ms
    using that by (auto simp: suffix_from_def Cons_nth_drop_Suc [symmetric])
  show ?thesis
  proof (cases "Suc p < length (tab ! b)")
    case True
    then have sfx: "suffix_from tab b (Suc p) = rest" "rest = tab ! b ! Suc p # tl rest"
      using n by (simp_all add: suffix_from_def Cons_nth_drop_Suc [symmetric])
    have "ht_get_next_key (bucket (ht_mask ht)) ht k0 v0 (int b, int p) q0 =
        Some (OPAL_SUCCESS, hn_key (tab ! b ! Suc p), hn_value (tab ! b ! Suc p), (int b, int (Suc p)))"
      using True pos at [of b p] at [of b "Suc p"] tab
      by (simp add: ht_get_next_key_def aget_def Let_def add.commute)
    moreover have "\<exists>b' p'. (int b, int (Suc p)) = (int b', int p') \<and> b' < length tab \<and> p' < length (tab ! b') \<and>
        suffix_from tab b' p' = rest"
      using True pos(1) sfx(1) by (intro exI [of _ b] exI [of _ "Suc p"]) auto
    ultimately show ?thesis using sfx(2) by (cases rest) auto
  next
    case False
    then have rest: "rest = concat (drop (Suc b) tab)" using n pos by simp
    obtain j where j: "ht_nonempty_from ht (int (Suc b)) = Some (int j)" "j \<le> length tab"
      "rest = (if j < length tab then suffix_from tab j 0 else [])" "j < length tab \<longrightarrow> tab ! j \<noteq> []"
      using nonempty_from_ok [OF tab size, of "Suc b"] pos rest by auto
    have call: "ht_get_next_key (bucket (ht_mask ht)) ht k0 v0 (int b, int p) q0 =
        (if j < length tab then Some (OPAL_SUCCESS, hn_key (tab ! j ! 0), hn_value (tab ! j ! 0), (int j, 0))
         else Some (OPAL_ERROR, k0, v0, q0))"
      using False pos at [of b p] at [of j 0] tab bk j size
      by (auto simp: ht_get_next_key_def aget_def Let_def add.commute)
    show ?thesis
    proof (cases "j < length tab")
      case True
      then obtain ms where ms: "rest = tab ! j ! 0 # ms"
        using j by (cases "tab ! j") (auto simp: suffix_from_def)
      then have "\<exists>b' p'. (int j, 0 :: int) = (int b', int p') \<and> b' < length tab \<and> p' < length (tab ! b') \<and> suffix_from tab b' p' = rest"
        using True j by (intro exI [of _ j] exI [of _ 0]) auto
      with True ms call show ?thesis by auto
    next
      case False
      with j call show ?thesis by simp
    qed
  qed
qed

lemma iterate_from:
  assumes "ht_wf (\<lambda>_. True) hn_key bucket ht" and "ht_table ht = Ptr tab"
  shows "b < length tab \<Longrightarrow> p < length (tab ! b) \<Longrightarrow> suffix_from tab b p = n # rest \<Longrightarrow> length rest + 2 \<le> fuel \<Longrightarrow>
   ht_iterate (\<lambda>pos. ht_get_next_key (bucket (ht_mask ht)) ht k0 v0 pos q0) fuel
     (OPAL_SUCCESS, hn_key n, hn_value n, (int b, int p)) =
   Some (map (\<lambda>n. (hn_key n, hn_value n)) (n # rest))"
proof (induction rest arbitrary: b p n fuel)
  case Nil
  then obtain f where "fuel = Suc (Suc f)" using le_Suc_ex [of 2 fuel] by auto
  then show ?case
    using next_key_ok [OF assms Nil.prems(1-3), of k0 v0 q0] by (auto simp: opal_rc)
next
  case (Cons m rest)
  then obtain f where f: "fuel = Suc f" by (cases fuel) auto
  obtain b' p' where nxt: "ht_get_next_key (bucket (ht_mask ht)) ht k0 v0 (int b, int p) q0 =
      Some (OPAL_SUCCESS, hn_key m, hn_value m, (int b', int p'))"
    "b' < length tab" "p' < length (tab ! b')" "suffix_from tab b' p' = m # rest"
    using next_key_ok [OF assms Cons.prems(1-3), of k0 v0 q0] by auto
  show ?case using Cons.IH [OF nxt(2-4), of f] Cons.prems f nxt(1) by simp
qed

lemma iterate_all:
  assumes "ht_wf (\<lambda>_. True) hn_key bucket ht" and "ht_count ht < fuel"
  shows "do { r \<leftarrow> ht_get_first_key ht k0 v0 q0;
              ht_iterate (\<lambda>pos. ht_get_next_key (bucket (ht_mask ht)) ht k0 v0 pos q0) fuel r } =
         Some (map (\<lambda>n. (hn_key n, hn_value n)) (concat (cells (ht_table ht))))"
proof -
  obtain tab where tab: "ht_table ht = Ptr tab" "int (length tab) = ht_table_size ht"
    using assms(1) by (cases "ht_table ht") (auto simp: ht_wf_def)
  obtain f where f: "fuel = Suc f" using assms(2) by (cases fuel) auto
  obtain j where j: "ht_nonempty_from ht 0 = Some (int j)" "j \<le> length tab"
    "concat tab = (if j < length tab then suffix_from tab j 0 else [])" "j < length tab \<longrightarrow> tab ! j \<noteq> []"
    using nonempty_from_ok [OF tab, of 0] by auto
  show ?thesis
  proof (cases "j < length tab")
    case True
    then obtain n rest where n: "suffix_from tab j 0 = n # rest" "tab ! j ! 0 = n" "0 < length (tab ! j)"
      using j(4) by (cases "tab ! j") (auto simp: suffix_from_def)
    have "ht_node_at ht (int j, 0) = Some n" using True n tab by (simp add: ht_node_at_def aget_def)
    moreover have "length rest + 2 \<le> fuel" using assms(2) True j(3) n(1) tab by (simp add: ht_count_def)
    ultimately show ?thesis
      using iterate_from [OF assms(1) tab(1) True n(3,1), of fuel k0 v0 q0] True j n tab
      by (simp add: ht_get_first_key_def)
  next
    case False
    then show ?thesis using j f tab by (simp add: ht_get_first_key_def opal_rc)
  qed
qed

section \<open>Lookups\<close>

lemma get32_ok:
  "wf32 ht \<Longrightarrow> opal_hash_table_get_value_uint32 dbg ht key ptr =
     Some (case map32 ht key of Some v \<Rightarrow> (OPAL_SUCCESS, v) | None \<Rightarrow> (OPAL_ERR_NOT_FOUND, ptr))"
  unfolding opal_hash_table_get_value_uint32_def u32_bucket_def [symmetric] by (rule hk32.get_ok)

lemma get64_ok:
  "wf64 ht \<Longrightarrow> opal_hash_table_get_value_uint64 dbg ht key ptr =
     Some (case map64 ht key of Some v \<Rightarrow> (OPAL_SUCCESS, v) | None \<Rightarrow> (OPAL_ERR_NOT_FOUND, ptr))"
  unfolding opal_hash_table_get_value_uint64_def u64_bucket_def [symmetric] by (rule hk64.get_ok)

lemma getp_ok:
  assumes "crc_wf g" and "wfp ht"
  shows "\<exists>g'. opal_hash_table_get_value_ptr dbg g ka ht key ptr =
     Some (fst (case mapp ht key of Some v \<Rightarrow> (OPAL_SUCCESS, v) | None \<Rightarrow> (OPAL_ERR_NOT_FOUND, ptr)),
           snd (case mapp ht key of Some v \<Rightarrow> (OPAL_SUCCESS, v) | None \<Rightarrow> (OPAL_ERR_NOT_FOUND, ptr)), g') \<and> crc_wf g'"
  using hash_value_ok [OF assms(1), of ka "ht_mask ht" key] hkp.get_ok [OF assms(2), of dbg key ptr]
  by (auto simp: opal_hash_table_get_value_ptr_def split: option.split)

lemma next_key_bucket:
  "opal_hash_table_get_next_key_uint32 ht = ht_get_next_key (u32_bucket (ht_mask ht)) ht"
  "opal_hash_table_get_next_key_uint64 ht' = ht_get_next_key (u64_bucket (ht_mask ht')) ht'"
  by (simp_all add: opal_hash_table_get_next_key_uint32_def opal_hash_table_get_next_key_uint64_def
      u32_bucket_def [abs_def] u64_bucket_def [abs_def])

section \<open>Properties\<close>

text \<open>C9: A hash table with 32-bit keys (and one with 64-bit keys) is a map: from a freshly initialised
  table, any sequence of set_value and remove_value calls runs without touching memory outside the
  array of lists, and afterwards get_value of any key returns exactly the value that the sequence
  left there, or OPAL_ERR_NOT_FOUND.\<close>

theorem hash_table_uint_is_map:
  assumes "0 \<le> n" and "n < 2 ^ 30"
    and "opal_hash_table_init have_clz (Ptr j) (opal_hash_table_construct junk) n = Some (rc, ht)"
    and "opal_hash_table_init have_clz (Ptr j') (opal_hash_table_construct junk) n = Some (rc, ht'')"
  shows "(\<exists>ht'. run_store put32 del32 ops ht = Some ht' \<and>
            (\<forall>key. opal_hash_table_get_value_uint32 dbg ht' key ptr =
               Some (case fold op_map ops Map.empty key of
                       Some v \<Rightarrow> (OPAL_SUCCESS, v) | None \<Rightarrow> (OPAL_ERR_NOT_FOUND, ptr)))) \<and>
         (\<exists>ht'. run_store put64 del64 ops' ht'' = Some ht' \<and>
            (\<forall>key. opal_hash_table_get_value_uint64 dbg ht' key ptr =
               Some (case fold op_map ops' Map.empty key of
                       Some v \<Rightarrow> (OPAL_SUCCESS, v) | None \<Rightarrow> (OPAL_ERR_NOT_FOUND, ptr))))"
proof
  have a: "wf32 ht" "map32 ht = Map.empty"
    using ht_init_ok [OF assms(1,2), of have_clz j junk "\<lambda>_. True" hn_key u32_bucket] assms(3)
    by (auto intro!: empty_table_map simp: u32_bucket_def uint_and_le)
  have b: "wf64 ht''" "map64 ht'' = Map.empty"
    using ht_init_ok [OF assms(1,2), of have_clz j' junk "\<lambda>_. True" hn_key u64_bucket] assms(4)
    by (auto intro!: empty_table_map simp: u64_bucket_def uint_and_le)
  show "\<exists>ht'. run_store put32 del32 ops ht = Some ht' \<and>
            (\<forall>key. opal_hash_table_get_value_uint32 dbg ht' key ptr =
               Some (case fold op_map ops Map.empty key of
                       Some v \<Rightarrow> (OPAL_SUCCESS, v) | None \<Rightarrow> (OPAL_ERR_NOT_FOUND, ptr)))"
    using ks32.run_ops_map [OF a(1), of ops] a(2) by (auto simp: get32_ok)
  show "\<exists>ht'. run_store put64 del64 ops' ht'' = Some ht' \<and>
            (\<forall>key. opal_hash_table_get_value_uint64 dbg ht' key ptr =
               Some (case fold op_map ops' Map.empty key of
                       Some v \<Rightarrow> (OPAL_SUCCESS, v) | None \<Rightarrow> (OPAL_ERR_NOT_FOUND, ptr)))"
    using ks64.run_ops_map [OF b(1), of ops'] b(2) by (auto simp: get64_ok)
qed

theorem hash_table_uint_is_map_witness:
  "\<exists>ht ht' :: nat opal_uint32_hash_node opal_hash_table.
     opal_hash_table_init True (Ptr []) (opal_hash_table_construct 7) 5 = Some (OPAL_SUCCESS, ht) \<and>
     run_store put32 del32 [Put 3 1, Put 11 2, Del 3] ht = Some ht' \<and>
     opal_hash_table_get_value_uint32 True ht' 11 0 = Some (OPAL_SUCCESS, 2) \<and>
     opal_hash_table_get_value_uint32 True ht' 3 0 = Some (OPAL_ERR_NOT_FOUND, 0)"
proof -
  have n: "(0 :: int) \<le> 5" "(5 :: int) < 2 ^ 30" by simp_all
  obtain ht :: "nat opal_uint32_hash_node opal_hash_table" where ht:
    "opal_hash_table_init True (Ptr []) (opal_hash_table_construct 7) 5 = Some (OPAL_SUCCESS, ht)"
    using ht_init_ok [OF n] by blast
  obtain ht2 :: "nat opal_uint64_hash_node opal_hash_table" where ht2:
    "opal_hash_table_init True (Ptr []) (opal_hash_table_construct 7) 5 = Some (OPAL_SUCCESS, ht2)"
    using ht_init_ok [OF n] by blast
  obtain ht' where "run_store put32 del32 [Put 3 1, Put 11 2, Del 3] ht = Some ht'"
    "\<forall>key. opal_hash_table_get_value_uint32 True ht' key 0 =
       Some (case fold op_map [Put 3 1, Put 11 2, Del 3] Map.empty key of
               Some v \<Rightarrow> (OPAL_SUCCESS, v) | None \<Rightarrow> (OPAL_ERR_NOT_FOUND, 0))"
    using hash_table_uint_is_map [OF n ht ht2, of "[Put 3 1, Put 11 2, Del 3]" True 0 "[]"] by blast
  with ht show ?thesis by (intro exI [of _ ht] exI [of _ ht']) simp
qed

text \<open>The same for byte-block keys, hashed with the CRC: whatever the address of the key and
  whether or not the CRC table was already built, keys are compared by length and content, and any
  sequence of operations from an initialised table leaves the map that the sequence describes.\<close>

theorem hash_table_ptr_is_map:
  assumes "0 \<le> n" and "n < 2 ^ 30" and "crc_wf g"
    and "opal_hash_table_init have_clz (Ptr j) (opal_hash_table_construct junk) n = Some (rc, ht)"
  shows "\<exists>ht'. run_store (putp crc_ready ka) (delp crc_ready ka) ops ht = Some ht' \<and>
           (\<forall>key. \<exists>g'. opal_hash_table_get_value_ptr dbg g ka' ht' key ptr =
              Some (case fold op_map ops Map.empty key of
                      Some v \<Rightarrow> (OPAL_SUCCESS, v, g') | None \<Rightarrow> (OPAL_ERR_NOT_FOUND, ptr, g')))"
proof -
  have a: "wfp ht" "mapp ht = Map.empty"
    using ht_init_ok [OF assms(1,2), of have_clz j junk ptr_good "\<lambda>n. cells (pn_key n)" ptr_bucket] assms(4)
    by (auto intro!: empty_table_map simp: hkp.bucket_range)
  obtain ht' where ht': "run_store (putp crc_ready ka) (delp crc_ready ka) ops ht = Some ht'" "wfp ht'"
    "mapp ht' = fold op_map ops Map.empty"
    using ksp.run_ops_map [OF a(1), of ka ops] a(2) by auto
  have "\<exists>g'. opal_hash_table_get_value_ptr dbg g ka' ht' key ptr =
      Some (case fold op_map ops Map.empty key of
              Some v \<Rightarrow> (OPAL_SUCCESS, v, g') | None \<Rightarrow> (OPAL_ERR_NOT_FOUND, ptr, g'))" for key
    using getp_ok [OF assms(3) ht'(2), of dbg ka' key ptr] ht'(3)
    by (cases "fold op_map ops Map.empty key") auto
  with ht'(1) show ?thesis by blast
qed

theorem hash_table_ptr_is_map_witness:
  "\<exists>ht ht' :: nat opal_ptr_hash_node opal_hash_table.
     opal_hash_table_init False (Ptr []) (opal_hash_table_construct 0) 4 = Some (OPAL_SUCCESS, ht) \<and>
     run_store (putp crc_ready 1) (delp crc_ready 1) [Put [1, 2] (Ptr 8)] ht = Some ht' \<and>
     (\<exists>g'. opal_hash_table_get_value_ptr False crc_ready 4 ht' [1, 2] Null = Some (OPAL_SUCCESS, Ptr 8, g'))"
proof -
  have n: "(0 :: int) \<le> 4" "(4 :: int) < 2 ^ 30" by simp_all
  obtain ht :: "nat opal_ptr_hash_node opal_hash_table" where ht:
    "opal_hash_table_init False (Ptr []) (opal_hash_table_construct 0) 4 = Some (OPAL_SUCCESS, ht)"
    using ht_init_ok [OF n] by blast
  obtain ht' where "run_store (putp crc_ready 1) (delp crc_ready 1) [Put [1, 2] (Ptr 8)] ht = Some ht'"
    "\<forall>key. \<exists>g'. opal_hash_table_get_value_ptr False crc_ready 4 ht' key Null =
       Some (case fold op_map [Put [1, 2] (Ptr 8)] Map.empty key of
               Some v \<Rightarrow> (OPAL_SUCCESS, v, g') | None \<Rightarrow> (OPAL_ERR_NOT_FOUND, Null, g'))"
    using hash_table_ptr_is_map [OF n crc_wf_ready ht, of 1 "[Put [1, 2] (Ptr 8)]" False 4 Null] by blast
  with ht show ?thesis by (intro exI [of _ ht] exI [of _ ht']) (auto dest: spec [of _ "[1, 2]"])
qed

text \<open>Iterating a well-formed table with get_first_key and get_next_key visits every node exactly
  once and ends: the pairs handed out are those of the lists, in the order of the lists.\<close>

theorem hash_table_iteration_complete:
  assumes "wf32 ht" and "wf64 ht'" and "ht_count ht < fuel" and "ht_count ht' < fuel"
  shows "do { r \<leftarrow> opal_hash_table_get_first_key_uint32 ht k v q;
              ht_iterate (\<lambda>pos. opal_hash_table_get_next_key_uint32 ht k v pos q) fuel r } =
           Some (map (\<lambda>n. (hn_key n, hn_value n)) (concat (cells (ht_table ht)))) \<and>
         do { r \<leftarrow> opal_hash_table_get_first_key_uint64 ht' k' v' q;
              ht_iterate (\<lambda>pos. opal_hash_table_get_next_key_uint64 ht' k' v' pos q) fuel r } =
           Some (map (\<lambda>n. (hn_key n, hn_value n)) (concat (cells (ht_table ht'))))"
  unfolding opal_hash_table_get_first_key_uint32_def opal_hash_table_get_first_key_uint64_def next_key_bucket
  using iterate_all [OF assms(1,3)] iterate_all [OF assms(2,4)] by blast

theorem hash_table_iteration_complete_witness:
  "\<exists>ht ht' :: (32 word, nat) hash_node opal_hash_table.
     opal_hash_table_set_value_uint32 False True ht 5 1 = Some (OPAL_SUCCESS, ht') \<and>
     do { r \<leftarrow> opal_hash_table_get_first_key_uint32 ht' 0 0 (0, 0);
          ht_iterate (\<lambda>pos. opal_hash_table_get_next_key_uint32 ht' 0 0 pos (0, 0)) (Suc (ht_count ht')) r } =
       Some (map (\<lambda>n. (hn_key n, hn_value n)) (concat (cells (ht_table ht'))))"
proof -
  have n: "(0 :: int) \<le> 4" "(4 :: int) < 2 ^ 30" by simp_all
  obtain ht :: "nat opal_uint32_hash_node opal_hash_table" where ht: "wf32 ht"
    using ht_init_ok [OF n] by blast
  obtain h64 :: "nat opal_uint64_hash_node opal_hash_table" where h64: "wf64 h64" "ht_count h64 = 0"
    using ht_init_ok [OF n] by blast
  obtain ht' where ht': "opal_hash_table_set_value_uint32 False True ht 5 1 = Some (OPAL_SUCCESS, ht')" "wf32 ht'"
    using hk32.set_ok [OF ht, of False 5 1] by (auto simp: opal_hash_table_set_value_uint32_def u32_bucket_def)
  show ?thesis
    using hash_table_iteration_complete [OF ht'(2) h64(1), of "Suc (ht_count ht')" 0 0 "(0, 0)" 0 0] h64(2) ht'(1)
    by (intro exI [of _ ht] exI [of _ ht']) simp
qed

text \<open>The element count. set_value and remove_value keep ht_size equal to the number of nodes, but
  opal_hash_table_remove_all leaves it at SIZE_MAX (it stores 0 and then subtracts 1), so an emptied
  table reports SIZE_MAX elements, and 0 after one insertion.\<close>

theorem hash_table_size_after_remove_all:
  assumes "wf32 ht" and "ht_size ht = int (ht_count ht)" and "ht_count ht < 2 ^ 64 - 1"
  shows "(\<exists>ht'. opal_hash_table_set_value_uint32 dbg True ht k v = Some (OPAL_SUCCESS, ht') \<and>
            opal_hash_table_get_size ht' = int (ht_count ht')) \<and>
         (\<exists>rc ht'. opal_hash_table_remove_value_uint32 dbg ht k = Some (rc, ht') \<and>
            opal_hash_table_get_size ht' = int (ht_count ht')) \<and>
         (\<exists>ht'. opal_hash_table_remove_all ht = Some (OPAL_SUCCESS, ht') \<and> ht_count ht' = 0 \<and>
            opal_hash_table_get_size ht' = 2 ^ 64 - 1)"
proof (intro conjI)
  have lt: "int (ht_count ht) + 1 < 2 ^ 64" using assms(3) by simp
  then have st: "size_t_of (int (ht_count ht) + 1) = int (ht_count ht + 1)" by simp
  show "\<exists>ht'. opal_hash_table_set_value_uint32 dbg True ht k v = Some (OPAL_SUCCESS, ht') \<and>
            opal_hash_table_get_size ht' = int (ht_count ht')"
    using hk32.set_ok [OF assms(1), of dbg k v] assms(2) st
    by (auto simp: opal_hash_table_set_value_uint32_def u32_bucket_def opal_hash_table_get_size_def split: if_splits)
  show "\<exists>rc ht'. opal_hash_table_remove_value_uint32 dbg ht k = Some (rc, ht') \<and>
            opal_hash_table_get_size ht' = int (ht_count ht')"
    using hk32.remove_ok [OF assms(1), of dbg k "\<lambda>n. n"] assms(2) lt
    by (auto simp: opal_hash_table_remove_value_uint32_def u32_bucket_def opal_hash_table_get_size_def split: if_splits)
  obtain tab where tab: "ht_table ht = Ptr tab" "int (length tab) = ht_table_size ht"
    using assms(1) by (cases "ht_table ht") (auto simp: ht_wf_def)
  let ?P = "\<lambda>i a. length a = length tab \<and> (\<forall>k < nat i. a ! k = [])"
  have "\<exists>a. for_loop 0 (ht_table_size ht) (\<lambda>i a. do { list \<leftarrow> aget a i; aset a i (drop (length list) list) }) tab = Some a \<and>
      ?P (ht_table_size ht) a"
  proof (rule for_loop_rule [where P = ?P])
    fix k a assume k: "0 \<le> k" "k < ht_table_size ht" and a: "?P k a"
    then have "nat (k + 1) = Suc (nat k)" "k < int (length a)" using tab(2) by auto
    with k a show "\<exists>a'. (do { list \<leftarrow> aget a k; aset a k (drop (length list) list) }) = Some a' \<and> ?P (k + 1) a'"
      by (auto simp: aget_def aset_def nth_list_update less_Suc_eq)
  qed (use tab in auto)
  then obtain a where a: "for_loop 0 (ht_table_size ht) (\<lambda>i a. do { list \<leftarrow> aget a i; aset a i (drop (length list) list) }) tab = Some a"
    "length a = length tab" "\<forall>k < length tab. a ! k = []" using tab(2) by fastforce
  then have "concat a = []" by (auto simp: in_set_conv_nth)
  with a(1) tab(1) show "\<exists>ht'. opal_hash_table_remove_all ht = Some (OPAL_SUCCESS, ht') \<and> ht_count ht' = 0 \<and>
            opal_hash_table_get_size ht' = 2 ^ 64 - 1"
    by (simp add: opal_hash_table_remove_all_def ht_count_def opal_hash_table_get_size_def size_t_of_def)
qed

theorem hash_table_size_after_remove_all_witness:
  "\<exists>ht ht' :: nat opal_uint32_hash_node opal_hash_table.
     opal_hash_table_init True (Ptr []) (opal_hash_table_construct 7) 5 = Some (OPAL_SUCCESS, ht) \<and>
     opal_hash_table_remove_all ht = Some (OPAL_SUCCESS, ht') \<and> opal_hash_table_get_size ht' = 2 ^ 64 - 1"
proof -
  have n: "(0 :: int) \<le> 5" "(5 :: int) < 2 ^ 30" by simp_all
  obtain ht :: "nat opal_uint32_hash_node opal_hash_table" where ht: "wf32 ht" "ht_count ht = 0" "ht_size ht = 0"
    "opal_hash_table_init True (Ptr []) (opal_hash_table_construct 7) 5 = Some (OPAL_SUCCESS, ht)"
    using ht_init_ok [OF n] by blast
  then show ?thesis using hash_table_size_after_remove_all [OF ht(1), of True 0 0] by auto
qed

end
