(* ===== verification/Seen_Set.thy ===== *)
theory Seen_Set
  imports Main
begin

text \<open>
  The contract of a record of numbers already seen, as a receiver uses it to drop duplicates:
  \<open>seen\<close> is the set a tracker stands for, \<open>check\<close> answers membership and may move the
  tracker's cursor, \<open>add\<close> adds one number. \<open>compat\<close> says which numbers one tracker can
  hold together; a tracker over a wrapping counter cannot promise the laws for all pairs. The
  client's lemma: in any interleaving of tests and additions, every test answers whether its number
  was added before.
\<close>

datatype 'x seen_op = Test 'x | Add 'x

primrec op_added :: "'x seen_op \<Rightarrow> 'x set" where
  "op_added (Test x) = {}"
| "op_added (Add x) = {x}"

definition ops_added :: "'x seen_op list \<Rightarrow> 'x set" where
  "ops_added ops = (\<Union>oper \<in> set ops. op_added oper)"

text \<open>What the tests of a sequence must answer, from the set seen so far.\<close>

fun seen_answers :: "'x set \<Rightarrow> 'x seen_op list \<Rightarrow> bool list" where
  "seen_answers S [] = []"
| "seen_answers S (Test x # ops) = (x \<in> S) # seen_answers S ops"
| "seen_answers S (Add x # ops) = seen_answers (insert x S) ops"

fun run_seen ::
    "('t \<Rightarrow> 'x \<Rightarrow> (bool \<times> 't) option) \<Rightarrow> ('t \<Rightarrow> 'x \<Rightarrow> 't option) \<Rightarrow> 'x seen_op list \<Rightarrow> 't \<Rightarrow> (bool list \<times> 't) option" where
  "run_seen check add [] t = Some ([], t)"
| "run_seen check add (Test x # ops) t =
     Option.bind (check t x) (\<lambda>(b, t). map_option (\<lambda>(bs, t). (b # bs, t)) (run_seen check add ops t))"
| "run_seen check add (Add x # ops) t = Option.bind (add t x) (run_seen check add ops)"

lemma ops_added_simps [simp]:
  "ops_added [] = {}" "ops_added (Test x # ops) = ops_added ops" "ops_added (Add x # ops) = insert x (ops_added ops)"
  by (simp_all add: ops_added_def)

locale seen_set =
  fixes inv :: "'t \<Rightarrow> bool" and seen :: "'t \<Rightarrow> 'x set" and compat :: "'x \<Rightarrow> 'x \<Rightarrow> bool"
    and check :: "'t \<Rightarrow> 'x \<Rightarrow> (bool \<times> 't) option" and add :: "'t \<Rightarrow> 'x \<Rightarrow> 't option"
  assumes check_law: "inv t \<Longrightarrow> \<exists>t'. check t x = Some (x \<in> seen t, t') \<and> inv t' \<and> seen t' = seen t"
    and add_law: "inv t \<Longrightarrow> \<forall>y \<in> seen t. compat x y \<Longrightarrow> \<exists>t'. add t x = Some t' \<and> inv t' \<and> seen t' = insert x (seen t)"
begin

lemma run_ops_seen:
  assumes "inv t" and "\<forall>x \<in> seen t \<union> ops_added ops. \<forall>y \<in> seen t \<union> ops_added ops. compat x y"
  shows "\<exists>t'. run_seen check add ops t = Some (seen_answers (seen t) ops, t') \<and> inv t' \<and> seen t' = seen t \<union> ops_added ops"
  using assms
proof (induction ops arbitrary: t)
  case (Cons oper ops)
  show ?case
  proof (cases oper)
    case (Test x)
    obtain t1 where "check t x = Some (x \<in> seen t, t1)" "inv t1" "seen t1 = seen t"
      using check_law [OF Cons.prems(1)] by blast
    with Cons.IH [of t1] Cons.prems Test show ?thesis by auto
  next
    case (Add x)
    obtain t1 where "add t x = Some t1" "inv t1" "seen t1 = insert x (seen t)"
      using add_law [OF Cons.prems(1), of x] Cons.prems(2) Add by auto
    with Cons.IH [of t1] Cons.prems Add show ?thesis by auto
  qed
qed simp

end

end
