(* ===== verification/Seq_Tracker.thy ===== *)
theory Seq_Tracker
  imports Opal_Prelude Seen_Set
begin

text \<open>
  \<^verbatim>\<open>ompi/class/ompi_seq_tracker.c\<close>: the sequence numbers received so far, kept as a
  list of ranges with a cursor at the range touched last. Both operations search from the cursor in
  one direction; insertion joins ranges that become adjacent.

  The list is the list of its ranges; a pointer into it is the position of the range, with
  \<open>None\<close> for the sentinel of the circular list, and a position beyond the list is a dangling
  pointer, whose use is undefined. Sequence numbers are \<open>uint32_t\<close> and wrap around. The code
  does not test whether a new range could be allocated: it writes through NULL where that fails.

  The tracker is shown to be the set of the numbers inserted, as an interpretation of the contract in
  \<^verbatim>\<open>Seen_Set\<close>, as long as it never holds both 0 and the largest number; and what
  happens when it meets both is shown too.
\<close>

section \<open>Data\<close>

record seq_tracker_range =
  seq_id_high :: "32 word"
  seq_id_low :: "32 word"

record seq_tracker =
  seq_ids :: "seq_tracker_range list"
  seq_ids_current :: "nat option"

definition ompi_seq_tracker_construct :: seq_tracker where
  "ompi_seq_tracker_construct = \<lparr>seq_ids = [], seq_ids_current = None\<rparr>"

text \<open>The operations of \<open>opal_list_t\<close> the tracker uses, on positions.\<close>

definition list_get_next :: "'a list \<Rightarrow> nat \<Rightarrow> nat option" where
  "list_get_next xs i = (if Suc i < length xs then Some (Suc i) else None)"

definition list_get_prev :: "nat \<Rightarrow> nat option" where
  "list_get_prev i = (if i = 0 then None else Some (i - 1))"

definition list_insert_pos :: "nat \<Rightarrow> 'a \<Rightarrow> 'a list \<Rightarrow> 'a list" where
  "list_insert_pos i x xs = take i xs @ x # drop i xs"

definition list_remove_item :: "nat \<Rightarrow> 'a list \<Rightarrow> 'a list" where
  "list_remove_item i xs = take i xs @ drop (Suc i) xs"

definition ompi_seq_tracker_destruct :: "seq_tracker \<Rightarrow> seq_tracker" where
  "ompi_seq_tracker_destruct t = t\<lparr>seq_ids := []\<rparr>"

section \<open>Operations\<close>

definition in_range :: "32 word \<Rightarrow> seq_tracker_range \<Rightarrow> bool" where
  "in_range seq_id r \<longleftrightarrow> seq_id_high r \<ge> seq_id \<and> seq_id_low r \<le> seq_id"

text \<open>The search of \<open>check_duplicate\<close>: the position of the range that holds the number.\<close>

function check_loop :: "seq_tracker_range list \<Rightarrow> 32 word \<Rightarrow> nat option \<Rightarrow> int \<Rightarrow> nat option option" where
  "check_loop ids seq_id None direction = Some None"
| "check_loop ids seq_id (Some i) direction =
     (if i < length ids then
        if in_range seq_id (ids ! i) then Some (Some i)
        else if seq_id > seq_id_high (ids ! i) \<and> direction \<noteq> - 1 then check_loop ids seq_id (list_get_next ids i) 1
        else if seq_id < seq_id_low (ids ! i) \<and> direction \<noteq> 1 then check_loop ids seq_id (list_get_prev i) (- 1)
        else Some None
      else None)"
  by pat_completeness auto

fun steps_left :: "'a list \<Rightarrow> nat option \<Rightarrow> int \<Rightarrow> nat" where
  "steps_left ids None direction = 0"
| "steps_left ids (Some i) direction =
     (if direction = 1 then length ids - i else if direction = - 1 then Suc i else Suc (length ids))"

termination check_loop
  by (relation "measure (\<lambda>(ids, seq_id, item, direction). steps_left ids item direction)")
    (auto simp: list_get_next_def list_get_prev_def)

definition ompi_seq_tracker_check_duplicate :: "seq_tracker \<Rightarrow> 32 word \<Rightarrow> (bool \<times> seq_tracker) option" where
  "ompi_seq_tracker_check_duplicate seq_tracker seq_id =
     (case check_loop (seq_ids seq_tracker) seq_id (seq_ids_current seq_tracker) 0 of
        None \<Rightarrow> None
      | Some None \<Rightarrow> Some (False, seq_tracker)
      | Some (Some i) \<Rightarrow> Some (True, seq_tracker\<lparr>seq_ids_current := Some i\<rparr>))"

definition single_range :: "32 word \<Rightarrow> seq_tracker_range" where
  "single_range seq_id = \<lparr>seq_id_high = seq_id, seq_id_low = seq_id\<rparr>"

text \<open>The two branches that extend a range by one number, with the consolidation of neighbours.\<close>

definition extend_high :: "seq_tracker_range list \<Rightarrow> nat \<Rightarrow> 32 word \<Rightarrow> seq_tracker" where
  "extend_high ids i seq_id =
     (case list_get_next ids i of
        Some j \<Rightarrow>
          if seq_id_low (ids ! j) = seq_id + 1
          then \<lparr>seq_ids = list_remove_item j (ids[i := (ids ! i)\<lparr>seq_id_high := seq_id_high (ids ! j)\<rparr>]), seq_ids_current = Some i\<rparr>
          else \<lparr>seq_ids = ids[i := (ids ! i)\<lparr>seq_id_high := seq_id\<rparr>], seq_ids_current = Some i\<rparr>
      | None \<Rightarrow> \<lparr>seq_ids = ids[i := (ids ! i)\<lparr>seq_id_high := seq_id\<rparr>], seq_ids_current = Some i\<rparr>)"

definition extend_low :: "seq_tracker_range list \<Rightarrow> nat \<Rightarrow> 32 word \<Rightarrow> seq_tracker" where
  "extend_low ids i seq_id =
     (case list_get_prev i of
        Some j \<Rightarrow>
          if seq_id_high (ids ! j) = seq_id - 1
          then \<lparr>seq_ids = list_remove_item j (ids[i := (ids ! i)\<lparr>seq_id_low := seq_id_low (ids ! j)\<rparr>]), seq_ids_current = Some j\<rparr>
          else \<lparr>seq_ids = ids[i := (ids ! i)\<lparr>seq_id_low := seq_id\<rparr>], seq_ids_current = Some i\<rparr>
      | None \<Rightarrow> \<lparr>seq_ids = ids[i := (ids ! i)\<lparr>seq_id_low := seq_id\<rparr>], seq_ids_current = Some i\<rparr>)"

text \<open>
  The loop of \<open>insert\<close>; the last argument of the code's state, the cursor, only changes on return.
  \<open>new_ok\<close> is the outcome of the allocation of a new range, which the code does not test.
\<close>

function insert_loop :: "bool \<Rightarrow> seq_tracker \<Rightarrow> 32 word \<Rightarrow> nat option \<Rightarrow> int \<Rightarrow> seq_tracker option" where
  "insert_loop new_ok t seq_id None direction =
     (if \<not> new_ok then None
      else if direction = - 1
      then Some \<lparr>seq_ids = single_range seq_id # seq_ids t, seq_ids_current = Some 0\<rparr>
      else Some \<lparr>seq_ids = seq_ids t @ [single_range seq_id], seq_ids_current = Some (length (seq_ids t))\<rparr>)"
| "insert_loop new_ok t seq_id (Some i) direction =
     (let ids = seq_ids t; item = ids ! i in
      if i < length ids then
        if in_range seq_id item then Some (t\<lparr>seq_ids_current := Some i\<rparr>)
        else if seq_id_high item + 1 = seq_id then Some (extend_high ids i seq_id)
        else if seq_id_low item - 1 = seq_id then Some (extend_low ids i seq_id)
        else if seq_id > seq_id_high item then
          if direction = - 1
          then if \<not> new_ok then None
            else Some \<lparr>seq_ids = list_insert_pos (Suc i) (single_range seq_id) ids, seq_ids_current = Some (Suc i)\<rparr>
          else insert_loop new_ok t seq_id (list_get_next ids i) 1
        else if seq_id < seq_id_low item then
          if direction = 1
          then if \<not> new_ok then None
            else Some \<lparr>seq_ids = list_insert_pos i (single_range seq_id) ids, seq_ids_current = Some i\<rparr>
          else insert_loop new_ok t seq_id (list_get_prev i) (- 1)
        else Some t
      else None)"
  by pat_completeness auto
termination insert_loop
  by (relation "measure (\<lambda>(new_ok, t, seq_id, item, direction). steps_left (seq_ids t) item direction)")
    (auto simp: list_get_next_def list_get_prev_def)

definition ompi_seq_tracker_insert :: "bool \<Rightarrow> seq_tracker \<Rightarrow> 32 word \<Rightarrow> seq_tracker option" where
  "ompi_seq_tracker_insert new_ok seq_tracker seq_id = insert_loop new_ok seq_tracker seq_id (seq_ids_current seq_tracker) 0"

text \<open>Copying appends to what the destination holds.\<close>

definition copy_item :: "seq_tracker \<Rightarrow> nat \<Rightarrow> seq_tracker \<Rightarrow> seq_tracker" where
  "copy_item src k dst =
     (let src_item = seq_ids src ! k;
          dst_item = \<lparr>seq_id_high = seq_id_high src_item, seq_id_low = seq_id_low src_item\<rparr>
      in \<lparr>seq_ids = seq_ids dst @ [dst_item],
          seq_ids_current = (if seq_ids_current src = Some k then Some (length (seq_ids dst)) else seq_ids_current dst)\<rparr>)"

definition ompi_seq_tracker_copy :: "bool \<Rightarrow> seq_tracker \<Rightarrow> seq_tracker \<Rightarrow> seq_tracker option" where
  "ompi_seq_tracker_copy new_ok dst src =
     (if seq_ids src \<noteq> [] \<and> \<not> new_ok then None else Some (fold (copy_item src) [0..<length (seq_ids src)] dst))"

declare check_loop.simps(2) [simp del] insert_loop.simps(2) [simp del]

section \<open>The set a tracker stands for\<close>

definition seen_ids :: "seq_tracker \<Rightarrow> 32 word set" where
  "seen_ids t = {x. \<exists>r \<in> set (seq_ids t). in_range x r}"

definition range_gap :: "seq_tracker_range \<Rightarrow> seq_tracker_range \<Rightarrow> bool" where
  "range_gap a b \<longleftrightarrow> unat (seq_id_high a) + 1 < unat (seq_id_low b)"

text \<open>Ranges are non-empty, sorted and separated by at least one missing number; the cursor is at a range.\<close>

definition ranges_ok :: "seq_tracker_range list \<Rightarrow> bool" where
  "ranges_ok ids \<longleftrightarrow> sorted_wrt range_gap ids \<and> (\<forall>r \<in> set ids. unat (seq_id_low r) \<le> unat (seq_id_high r))"

definition tracker_ok :: "seq_tracker \<Rightarrow> bool" where
  "tracker_ok t \<longleftrightarrow> ranges_ok (seq_ids t) \<and>
     (case seq_ids_current t of None \<Rightarrow> seq_ids t = [] | Some i \<Rightarrow> i < length (seq_ids t))"

text \<open>The numbers one tracker can hold together: not the two ends of the counter.\<close>

definition seq_compat :: "32 word \<Rightarrow> 32 word \<Rightarrow> bool" where
  "seq_compat x y \<longleftrightarrow> \<not> (x = 0 \<and> y = - 1) \<and> \<not> (x = - 1 \<and> y = 0)"

lemma in_range_unat: "in_range x r \<longleftrightarrow> unat (seq_id_low r) \<le> unat x \<and> unat x \<le> unat (seq_id_high r)"
  by (auto simp: in_range_def word_le_nat_alt)

lemma unat_plus_1:
  assumes "(h :: 32 word) \<noteq> - 1"
  shows "unat (h + 1) = unat h + 1"
proof -
  have "1 + h \<noteq> 0" using assms by (simp add: eq_neg_iff_add_eq_0 add.commute)
  then show ?thesis using unatSuc [of h] by (simp add: add.commute)
qed

lemma unat_minus_1:
  assumes "(l :: 32 word) \<noteq> 0"
  shows "unat l = unat (l - 1) + 1"
proof -
  have "l - 1 \<noteq> - 1" using assms by (simp add: eq_neg_iff_add_eq_0)
  then show ?thesis using unat_plus_1 [of "l - 1"] by simp
qed

lemma unat_less_max: "unat (a :: 32 word) < unat (b :: 32 word) \<Longrightarrow> a \<noteq> - 1"
  by (metis leD word_le_nat_alt word_n1_ge)

lemma single_range_sel [simp]: "seq_id_low (single_range s) = s" "seq_id_high (single_range s) = s"
  by (simp_all add: single_range_def)

lemmas range_simps = ranges_ok_def sorted_wrt_append range_gap_def

text \<open>The list edits of insertion, on a list cut at the place of the new number.\<close>

lemma ranges_insert:
  assumes "ranges_ok (xs @ ys)" and "\<forall>x \<in> set xs. unat (seq_id_high x) + 1 < unat s" and "\<forall>y \<in> set ys. unat s + 1 < unat (seq_id_low y)"
  shows "ranges_ok (xs @ single_range s # ys)"
  using assms by (auto simp: range_simps)

lemma ranges_extend_high:
  assumes "ranges_ok (xs @ r # ys)" and "unat s = unat (seq_id_high r) + 1" and "\<forall>y \<in> set ys. unat s + 1 < unat (seq_id_low y)"
  shows "ranges_ok (xs @ r\<lparr>seq_id_high := s\<rparr> # ys)"
  using assms by (auto simp: range_simps)

lemma ranges_extend_low:
  assumes "ranges_ok (xs @ r # ys)" and "unat (seq_id_low r) = unat s + 1" and "\<forall>x \<in> set xs. unat (seq_id_high x) + 1 < unat s"
  shows "ranges_ok (xs @ r\<lparr>seq_id_low := s\<rparr> # ys)"
  using assms by (auto simp: range_simps)

lemma ranges_join_high:
  assumes "ranges_ok (xs @ r # n # ys)"
  shows "ranges_ok (xs @ r\<lparr>seq_id_high := seq_id_high n\<rparr> # ys)"
  using assms by (auto simp: range_simps)

lemma ranges_join_low:
  assumes "ranges_ok (xs @ p # r # ys)"
  shows "ranges_ok (xs @ r\<lparr>seq_id_low := seq_id_low p\<rparr> # ys)"
  using assms by (fastforce simp: range_simps)

section \<open>The search from the cursor\<close>

definition range_below :: "nat \<Rightarrow> 32 word \<Rightarrow> seq_tracker_range \<Rightarrow> bool" where
  "range_below k s r \<longleftrightarrow> unat (seq_id_high r) + k < unat s"

definition range_above :: "nat \<Rightarrow> 32 word \<Rightarrow> seq_tracker_range \<Rightarrow> bool" where
  "range_above k s r \<longleftrightarrow> unat s + k < unat (seq_id_low r)"

text \<open>
  The ranges already passed lie on one side of the number, with a gap of \<open>k\<close>: the test needs
  \<open>k = 0\<close>, the insertion, which also stops at a neighbouring range, keeps \<open>k = 1\<close>.
\<close>

definition search_inv :: "nat \<Rightarrow> seq_tracker_range list \<Rightarrow> 32 word \<Rightarrow> nat option \<Rightarrow> int \<Rightarrow> bool" where
  "search_inv k ids s item direction \<longleftrightarrow>
     (case item of
        None \<Rightarrow> (if direction = - 1 then \<forall>r \<in> set ids. range_above k s r else \<forall>r \<in> set ids. range_below k s r)
      | Some i \<Rightarrow> i < length ids \<and> (direction = 1 \<longrightarrow> (\<forall>r \<in> set (take i ids). range_below k s r)) \<and>
          (direction = - 1 \<longrightarrow> (\<forall>r \<in> set (drop (Suc i) ids). range_above k s r)))"

lemma ranges_split:
  assumes "ranges_ok ids" and "i < length ids"
  obtains xs r ys where "ids = xs @ r # ys" "length xs = i" "ids ! i = r" "take i ids = xs" "drop (Suc i) ids = ys"
  using assms(2) id_take_nth_drop [OF assms(2)] by (metis length_take min.absorb4)

lemma below_earlier:
  "ranges_ok (xs @ r # ys) \<Longrightarrow> k \<le> 1 \<Longrightarrow> range_below k s r \<Longrightarrow> x \<in> set xs \<Longrightarrow> range_below k s x"
  by (force simp: range_simps range_below_def)

lemma above_later:
  "ranges_ok (xs @ r # ys) \<Longrightarrow> k \<le> 1 \<Longrightarrow> range_above k s r \<Longrightarrow> y \<in> set ys \<Longrightarrow> range_above k s y"
  by (force simp: range_simps range_above_def)

lemma search_next:
  assumes "ranges_ok ids" and "i < length ids" and "k \<le> 1" and "range_below k s (ids ! i)"
  shows "search_inv k ids s (list_get_next ids i) 1"
proof -
  obtain xs r ys where c: "ids = xs @ r # ys" "length xs = i" "ids ! i = r" by (rule ranges_split [OF assms(1,2)])
  have "ranges_ok (xs @ r # ys)" "range_below k s r" using assms(1,4) c(1,3) by simp_all
  then have "\<forall>x \<in> set (xs @ [r]). range_below k s x" using below_earlier [OF _ assms(3)] by force
  moreover have "take (Suc i) ids = xs @ [r]" using c(1,2) by simp
  moreover have "ids = xs @ [r]" if "\<not> Suc i < length ids" using that c(1,2) by (cases ys) auto
  ultimately show ?thesis by (cases "Suc i < length ids") (simp_all add: search_inv_def list_get_next_def)
qed

lemma search_prev:
  assumes "ranges_ok ids" and "i < length ids" and "k \<le> 1" and "range_above k s (ids ! i)"
  shows "search_inv k ids s (list_get_prev i) (- 1)"
proof -
  obtain xs r ys where c: "ids = xs @ r # ys" "length xs = i" "ids ! i = r" by (rule ranges_split [OF assms(1,2)])
  have "ranges_ok (xs @ r # ys)" "range_above k s r" using assms(1,4) c(1,3) by simp_all
  then have "\<forall>y \<in> set (r # ys). range_above k s y" using above_later [OF _ assms(3)] by force
  moreover have "drop i ids = r # ys" using c(1,2) by simp
  moreover have "ids = r # ys" if "i = 0" using that c(1,2) by simp
  ultimately show ?thesis using assms(2) by (cases i) (simp_all add: search_inv_def list_get_prev_def)
qed

lemma check_loop_correct:
  assumes "ranges_ok ids" and "search_inv 0 ids s item direction"
  shows "\<exists>res. check_loop ids s item direction = Some res \<and>
    (case res of None \<Rightarrow> \<forall>r \<in> set ids. \<not> in_range s r | Some j \<Rightarrow> j < length ids \<and> in_range s (ids ! j))"
  using assms
proof (induction ids s item direction rule: check_loop.induct)
  case (1 ids s direction)
  then show ?case by (fastforce simp: search_inv_def in_range_unat range_below_def range_above_def split: if_splits)
next
  case (2 ids s i direction)
  have i: "i < length ids" using "2.prems"(2) by (simp add: search_inv_def)
  obtain xs r ys where c: "ids = xs @ r # ys" "length xs = i" "ids ! i = r" "take i ids = xs" "drop (Suc i) ids = ys"
    by (rule ranges_split [OF "2.prems"(1) i])
  have le: "unat (seq_id_low r) \<le> unat (seq_id_high r)" using "2.prems"(1) c by (simp add: ranges_ok_def)
  consider (hit) "in_range s r" | (up) "range_below 0 s r" "direction \<noteq> - 1" | (down) "range_above 0 s r" "direction \<noteq> 1"
    | (up_stop) "range_below 0 s r" "direction = - 1" | (down_stop) "range_above 0 s r" "direction = 1"
    by (fastforce simp: in_range_unat range_below_def range_above_def)
  then show ?case
  proof cases
    case hit
    then show ?thesis using i c by (simp add: check_loop.simps)
  next
    case up
    moreover have "search_inv 0 ids s (list_get_next ids i) 1"
      by (rule search_next [OF "2.prems"(1) i]) (use up c in simp_all)
    ultimately show ?thesis using "2.IH"(1) "2.prems"(1) i c le
      by (simp add: check_loop.simps in_range_unat range_below_def word_less_nat_alt)
  next
    case down
    moreover have "search_inv 0 ids s (list_get_prev i) (- 1)"
      by (rule search_prev [OF "2.prems"(1) i]) (use down c in simp_all)
    ultimately show ?thesis using "2.IH"(2) "2.prems"(1) i c le
      by (simp add: check_loop.simps in_range_unat range_above_def word_less_nat_alt)
  next
    case up_stop
    then have "\<forall>x \<in> set ids. range_below 0 s x \<or> range_above 0 s x"
      using "2.prems" c below_earlier [of xs r ys 0 s] by (auto simp: search_inv_def)
    then have "\<forall>x \<in> set ids. \<not> in_range s x" by (fastforce simp: in_range_unat range_below_def range_above_def)
    moreover from this have "check_loop ids s (Some i) direction = Some None"
      using up_stop i c(1,3) le by (simp add: check_loop.simps range_below_def range_above_def word_less_nat_alt)
    ultimately show ?thesis by simp
  next
    case down_stop
    then have "\<forall>x \<in> set ids. range_below 0 s x \<or> range_above 0 s x"
      using "2.prems" c above_later [of xs r ys 0 s] by (auto simp: search_inv_def)
    then have "\<forall>x \<in> set ids. \<not> in_range s x" by (fastforce simp: in_range_unat range_below_def range_above_def)
    moreover from this have "check_loop ids s (Some i) direction = Some None"
      using down_stop i c(1,3) le by (simp add: check_loop.simps range_below_def range_above_def word_less_nat_alt)
    ultimately show ?thesis by simp
  qed
qed

lemma tracker_search_inv: "tracker_ok t \<Longrightarrow> search_inv k (seq_ids t) s (seq_ids_current t) 0"
  by (auto simp: tracker_ok_def search_inv_def split: option.splits)

lemma check_duplicate_law:
  assumes "tracker_ok t"
  shows "\<exists>t'. ompi_seq_tracker_check_duplicate t x = Some (x \<in> seen_ids t, t') \<and> tracker_ok t' \<and> seen_ids t' = seen_ids t"
proof -
  obtain res where "check_loop (seq_ids t) x (seq_ids_current t) 0 = Some res"
    and "case res of None \<Rightarrow> \<forall>r \<in> set (seq_ids t). \<not> in_range x r | Some j \<Rightarrow> j < length (seq_ids t) \<and> in_range x (seq_ids t ! j)"
    using check_loop_correct [OF _ tracker_search_inv [OF assms]] assms by (auto simp: tracker_ok_def)
  then show ?thesis using assms
    by (cases res) (auto simp: ompi_seq_tracker_check_duplicate_def tracker_ok_def seen_ids_def)
qed

section \<open>Insertion\<close>

text \<open>What every branch of the insertion has to establish.\<close>

definition inserted :: "32 word \<Rightarrow> seq_tracker_range list \<Rightarrow> seq_tracker \<Rightarrow> bool" where
  "inserted s ids t' \<longleftrightarrow> tracker_ok t' \<and>
     (\<forall>x. (\<exists>r \<in> set (seq_ids t'). in_range x r) \<longleftrightarrow> x = s \<or> (\<exists>r \<in> set ids. in_range x r))"

lemma inserted_single:
  assumes "ranges_ok (xs @ ys)" and "\<forall>x \<in> set xs. range_below 1 s x" and "\<forall>y \<in> set ys. range_above 1 s y"
  shows "inserted s (xs @ ys) \<lparr>seq_ids = xs @ single_range s # ys, seq_ids_current = Some (length xs)\<rparr>"
proof -
  have "ranges_ok (xs @ single_range s # ys)"
    using assms by (intro ranges_insert) (auto simp: range_below_def range_above_def)
  moreover have "in_range x (single_range s) \<longleftrightarrow> x = s" for x by (auto simp: in_range_def)
  ultimately show ?thesis by (auto simp: inserted_def tracker_ok_def)
qed

lemma extend_high_inserted:
  assumes ok: "ranges_ok (xs @ r # ys)" and s: "seq_id_high r + 1 = s" "seq_id_high r \<noteq> - 1"
  shows "inserted s (xs @ r # ys) (extend_high (xs @ r # ys) (length xs) s)"
proof -
  have u: "unat s = unat (seq_id_high r) + 1" using s unat_plus_1 by blast
  have le: "unat (seq_id_low r) \<le> unat (seq_id_high r)" using ok by (simp add: ranges_ok_def)
  have grown: "in_range x (r\<lparr>seq_id_high := s\<rparr>) \<longleftrightarrow> x = s \<or> in_range x r" for x
    using u le by (auto simp: in_range_unat word_unat_eq_iff)
  show ?thesis
  proof (cases ys)
    case Nil
    then have "ranges_ok (xs @ r\<lparr>seq_id_high := s\<rparr> # ys)" using ranges_extend_high [OF ok u] by simp
    with Nil grown show ?thesis
      by (auto simp: extend_high_def list_get_next_def inserted_def tracker_ok_def list_update_append)
  next
    case (Cons n zs)
    have gap: "unat s < unat (seq_id_low n)" using ok u Cons by (simp add: range_simps)
    then have s1: "unat (s + 1) = unat s + 1" using unat_less_max unat_plus_1 by blast
    show ?thesis
    proof (cases "seq_id_low n = s + 1")
      case True
      have len: "unat (seq_id_low n) \<le> unat (seq_id_high n)" using ok Cons by (simp add: ranges_ok_def)
      have "in_range x (r\<lparr>seq_id_high := seq_id_high n\<rparr>) \<longleftrightarrow> x = s \<or> in_range x r \<or> in_range x n" for x
        using u le len s1 True by (auto simp: in_range_unat word_unat_eq_iff)
      moreover have "ranges_ok (xs @ r\<lparr>seq_id_high := seq_id_high n\<rparr> # zs)" using ranges_join_high ok Cons by blast
      ultimately show ?thesis using Cons True
        by (auto simp: extend_high_def list_get_next_def inserted_def tracker_ok_def list_update_append
            nth_append list_remove_item_def)
    next
      case False
      then have far: "unat s + 1 < unat (seq_id_low n)"
        using gap s1 by (metis Suc_eq_plus1 Suc_lessI word_unat_eq_iff)
      have "\<forall>y \<in> set ys. unat s + 1 < unat (seq_id_low y)"
        using ok Cons far by (force simp: range_simps)
      then have "ranges_ok (xs @ r\<lparr>seq_id_high := s\<rparr> # ys)" using ranges_extend_high [OF ok u] by simp
      with Cons False grown show ?thesis
        by (auto simp: extend_high_def list_get_next_def inserted_def tracker_ok_def list_update_append nth_append)
    qed
  qed
qed

lemma extend_low_inserted:
  assumes ok: "ranges_ok (xs @ r # ys)" and s: "seq_id_low r - 1 = s" "seq_id_low r \<noteq> 0"
  shows "inserted s (xs @ r # ys) (extend_low (xs @ r # ys) (length xs) s)"
proof -
  have u: "unat (seq_id_low r) = unat s + 1" using s unat_minus_1 by blast
  have le: "unat (seq_id_low r) \<le> unat (seq_id_high r)" using ok by (simp add: ranges_ok_def)
  have grown: "in_range x (r\<lparr>seq_id_low := s\<rparr>) \<longleftrightarrow> x = s \<or> in_range x r" for x
    using u le by (auto simp: in_range_unat word_unat_eq_iff)
  show ?thesis
  proof (cases xs rule: rev_cases)
    case Nil
    then have "ranges_ok (xs @ r\<lparr>seq_id_low := s\<rparr> # ys)" using ranges_extend_low [OF ok u] by simp
    with Nil grown show ?thesis
      by (auto simp: extend_low_def list_get_prev_def inserted_def tracker_ok_def)
  next
    case (snoc ws p)
    have gap: "unat (seq_id_high p) < unat s" using ok u snoc by (simp add: range_simps)
    then have s1: "unat s = unat (s - 1) + 1" using unat_minus_1 [of s] by fastforce
    show ?thesis
    proof (cases "seq_id_high p = s - 1")
      case True
      have len: "unat (seq_id_low p) \<le> unat (seq_id_high p)" using ok snoc by (simp add: ranges_ok_def)
      have "in_range x (r\<lparr>seq_id_low := seq_id_low p\<rparr>) \<longleftrightarrow> x = s \<or> in_range x r \<or> in_range x p" for x
        using u le len s1 True by (auto simp: in_range_unat word_unat_eq_iff)
      moreover have "ranges_ok (ws @ r\<lparr>seq_id_low := seq_id_low p\<rparr> # ys)" using ranges_join_low [of ws p r ys] ok snoc by simp
      ultimately show ?thesis using snoc True
        by (auto simp: extend_low_def list_get_prev_def inserted_def tracker_ok_def list_update_append
            nth_append list_remove_item_def)
    next
      case False
      then have far: "unat (seq_id_high p) + 1 < unat s"
        using gap s1 by (metis Suc_eq_plus1 Suc_lessI Suc_inject word_unat_eq_iff)
      have "\<forall>x \<in> set xs. unat (seq_id_high x) + 1 < unat s"
        using ok snoc far by (force simp: range_simps)
      then have "ranges_ok (xs @ r\<lparr>seq_id_low := s\<rparr> # ys)" using ranges_extend_low [OF ok u] by simp
      with snoc False grown show ?thesis
        by (auto simp: extend_low_def list_get_prev_def inserted_def tracker_ok_def list_update_append nth_append)
    qed
  qed
qed

lemma insert_after_inserted:
  assumes "ranges_ok (xs @ r # ys)" and "range_below 1 s r" and "\<forall>y \<in> set ys. range_above 1 s y"
  shows "inserted s (xs @ r # ys)
    \<lparr>seq_ids = list_insert_pos (Suc (length xs)) (single_range s) (xs @ r # ys), seq_ids_current = Some (Suc (length xs))\<rparr>"
proof -
  have "\<forall>x \<in> set (xs @ [r]). range_below 1 s x" using below_earlier [OF assms(1) _ assms(2)] assms(2) by force
  then show ?thesis using inserted_single [of "xs @ [r]" ys s] assms(1,3) by (simp add: list_insert_pos_def)
qed

lemma insert_before_inserted:
  assumes "ranges_ok (xs @ r # ys)" and "range_above 1 s r" and "\<forall>x \<in> set xs. range_below 1 s x"
  shows "inserted s (xs @ r # ys)
    \<lparr>seq_ids = list_insert_pos (length xs) (single_range s) (xs @ r # ys), seq_ids_current = Some (length xs)\<rparr>"
proof -
  have "\<forall>y \<in> set (r # ys). range_above 1 s y" using above_later [OF assms(1) _ assms(2)] assms(2) by force
  then show ?thesis using inserted_single [of xs "r # ys" s] assms(1,3) by (simp add: list_insert_pos_def)
qed

text \<open>Where the neighbour test fails, the number is at least two away from the range.\<close>

lemma range_below_1: "unat (seq_id_high r) < unat s \<Longrightarrow> seq_id_high r + 1 \<noteq> s \<Longrightarrow> range_below 1 s r"
  using unat_less_max unat_plus_1 [of "seq_id_high r"]
  by (metis Suc_eq_plus1 Suc_lessI range_below_def word_unat_eq_iff)

lemma range_above_1: "unat s < unat (seq_id_low r) \<Longrightarrow> seq_id_low r - 1 \<noteq> s \<Longrightarrow> range_above 1 s r"
  using unat_minus_1 [of "seq_id_low r"]
  by (metis Suc_eq_plus1 Suc_lessI Suc_inject not_less_zero range_above_def unat_0 word_unat_eq_iff)

lemma insert_loop_correct:
  assumes "ranges_ok (seq_ids t)" and "search_inv 1 (seq_ids t) s item direction"
    and "\<forall>r \<in> set (seq_ids t). \<forall>y. in_range y r \<longrightarrow> seq_compat s y"
  shows "\<exists>t'. insert_loop True t s item direction = Some t' \<and> inserted s (seq_ids t) t'"
  using assms
proof (induction True t s item direction rule: insert_loop.induct)
  case (1 t s direction)
  then show ?case
    using inserted_single [of "[]" "seq_ids t" s] inserted_single [of "seq_ids t" "[]" s]
    by (auto simp: search_inv_def split: if_splits)
next
  case (2 t s i direction)
  let ?ids = "seq_ids t"
  have i: "i < length ?ids" using "2.prems"(2) by (simp add: search_inv_def)
  obtain xs r ys where c: "?ids = xs @ r # ys" "length xs = i" "?ids ! i = r" "take i ?ids = xs" "drop (Suc i) ?ids = ys"
    by (rule ranges_split [OF "2.prems"(1) i])
  have ok: "ranges_ok (xs @ r # ys)" using "2.prems"(1) c(1) by simp
  then have le: "unat (seq_id_low r) \<le> unat (seq_id_high r)" by (simp add: ranges_ok_def)
  have ends: "seq_compat s (seq_id_high r)" "seq_compat s (seq_id_low r)"
    using "2.prems"(3) c(1) le by (auto simp: in_range_unat)
  note step = insert_loop.simps(2) [of True t s i direction]
  consider (hit) "in_range s r" | (high) "\<not> in_range s r" "seq_id_high r + 1 = s"
    | (low) "\<not> in_range s r" "seq_id_high r + 1 \<noteq> s" "seq_id_low r - 1 = s"
    | (up) "unat (seq_id_high r) < unat s" "seq_id_high r + 1 \<noteq> s" "seq_id_low r - 1 \<noteq> s"
    | (down) "unat s < unat (seq_id_low r)" "seq_id_high r + 1 \<noteq> s" "seq_id_low r - 1 \<noteq> s"
    by (fastforce simp: in_range_unat)
  then show ?case
  proof cases
    case hit
    then show ?thesis using "2.prems"(1) i c(1,3) step by (auto simp: inserted_def tracker_ok_def)
  next
    case high
    then have "seq_id_high r \<noteq> - 1" using ends(1) by (auto simp: seq_compat_def)
    with high show ?thesis using extend_high_inserted [OF ok] i c(1-3) step by simp
  next
    case low
    then have "seq_id_low r \<noteq> 0" using ends(2) by (auto simp: seq_compat_def)
    with low show ?thesis using extend_low_inserted [OF ok] i c(1-3) step by simp
  next
    case up
    note far = range_below_1 [OF up(1,2)]
    have nr: "\<not> in_range s r" "seq_id_high r < s" using up(1) by (auto simp: in_range_unat word_less_nat_alt)
    show ?thesis
    proof (cases "direction = - 1")
      case True
      with "2.prems"(2) c(5) have "\<forall>y \<in> set ys. range_above 1 s y" by (simp add: search_inv_def)
      from insert_after_inserted [OF ok far this] show ?thesis using True up(2,3) nr i c(1-3) step by simp
    next
      case False
      have "search_inv 1 ?ids s (list_get_next ?ids i) 1" using search_next [OF "2.prems"(1) i] far c(3) by simp
      then show ?thesis using "2.hyps"(1) "2.prems"(1,3) False up(2,3) nr i c(3) step by simp
    qed
  next
    case down
    note far = range_above_1 [OF down(1,3)]
    have nr: "\<not> in_range s r" "s < seq_id_low r" "\<not> seq_id_high r < s"
      using down(1) le by (auto simp: in_range_unat word_less_nat_alt)
    show ?thesis
    proof (cases "direction = 1")
      case True
      with "2.prems"(2) c(4) have "\<forall>x \<in> set xs. range_below 1 s x" by (simp add: search_inv_def)
      from insert_before_inserted [OF ok far this] show ?thesis using True down(2,3) nr i c(1-3) step by simp
    next
      case False
      have "search_inv 1 ?ids s (list_get_prev i) (- 1)" using search_prev [OF "2.prems"(1) i] far c(3) by simp
      then show ?thesis using "2.hyps"(2) "2.prems"(1,3) False down(2,3) nr i c(3) step by simp
    qed
  qed
qed

lemma insert_law:
  assumes "tracker_ok t" and "\<forall>y \<in> seen_ids t. seq_compat x y"
  shows "\<exists>t'. ompi_seq_tracker_insert True t x = Some t' \<and> tracker_ok t' \<and> seen_ids t' = insert x (seen_ids t)"
proof -
  have "ranges_ok (seq_ids t)" using assms(1) by (simp add: tracker_ok_def)
  moreover have "\<forall>r \<in> set (seq_ids t). \<forall>y. in_range y r \<longrightarrow> seq_compat x y" using assms(2) by (auto simp: seen_ids_def)
  ultimately obtain t' where "ompi_seq_tracker_insert True t x = Some t'" "inserted x (seq_ids t) t'"
    using insert_loop_correct [OF _ tracker_search_inv [OF assms(1)], of x] by (auto simp: ompi_seq_tracker_insert_def)
  then show ?thesis by (auto simp: inserted_def seen_ids_def)
qed

interpretation sq: seen_set tracker_ok seen_ids seq_compat ompi_seq_tracker_check_duplicate "ompi_seq_tracker_insert True"
  by unfold_locales (fact check_duplicate_law, fact insert_law)

lemma construct_ok: "tracker_ok ompi_seq_tracker_construct" "seen_ids ompi_seq_tracker_construct = {}"
  by (simp_all add: ompi_seq_tracker_construct_def tracker_ok_def ranges_ok_def seen_ids_def)

section \<open>Properties\<close>

lemma copy_item_eq:
  "copy_item src k dst = \<lparr>seq_ids = seq_ids dst @ [seq_ids src ! k],
     seq_ids_current = (if seq_ids_current src = Some k then Some (length (seq_ids dst)) else seq_ids_current dst)\<rparr>"
  by (simp add: copy_item_def Let_def)

lemma copy_items:
  "n \<le> length (seq_ids src) \<Longrightarrow>
   fold (copy_item src) [0..<n] ompi_seq_tracker_construct =
     \<lparr>seq_ids = take n (seq_ids src),
      seq_ids_current = (case seq_ids_current src of Some i \<Rightarrow> if i < n then Some i else None | None \<Rightarrow> None)\<rparr>"
proof (induction n)
  case 0
  then show ?case by (simp add: ompi_seq_tracker_construct_def split: option.splits)
next
  case (Suc n)
  define dst where "dst = fold (copy_item src) [0..<n] ompi_seq_tracker_construct"
  from Suc have "dst = \<lparr>seq_ids = take n (seq_ids src),
      seq_ids_current = (case seq_ids_current src of Some i \<Rightarrow> if i < n then Some i else None | None \<Rightarrow> None)\<rparr>"
    by (simp add: dst_def)
  then have "copy_item src n dst = \<lparr>seq_ids = take (Suc n) (seq_ids src),
      seq_ids_current = (case seq_ids_current src of Some i \<Rightarrow> if i < Suc n then Some i else None | None \<Rightarrow> None)\<rparr>"
    using Suc.prems by (simp add: copy_item_eq take_Suc_conv_app_nth less_Suc_eq split: option.splits)
  then show ?case by (simp add: dst_def)
qed

text \<open>C26: The sequence tracker is the set of the numbers inserted: in any interleaving of
  ompi_seq_tracker_insert and ompi_seq_tracker_check_duplicate on a new tracker, every call returns without
  following a dangling pointer, every check answers whether its number was inserted before, the ranges stay
  sorted, disjoint and maximal, and a copy into a new tracker has the same ranges and the same cursor. The
  numbers inserted must not include both 0 and 2^32 - 1, and every new range is allocated.\<close>

theorem seq_tracker_is_set:
  assumes "\<forall>x \<in> ops_added ops. \<forall>y \<in> ops_added ops. seq_compat x y"
  shows "\<exists>t. run_seen ompi_seq_tracker_check_duplicate (ompi_seq_tracker_insert True) ops ompi_seq_tracker_construct =
           Some (seen_answers {} ops, t) \<and> tracker_ok t \<and> seen_ids t = ops_added ops \<and>
           ompi_seq_tracker_copy True ompi_seq_tracker_construct t = Some t"
proof -
  obtain t where t: "run_seen ompi_seq_tracker_check_duplicate (ompi_seq_tracker_insert True) ops ompi_seq_tracker_construct =
      Some (seen_answers {} ops, t)" "tracker_ok t" "seen_ids t = ops_added ops"
    using sq.run_ops_seen [OF construct_ok(1), of ops] assms construct_ok(2) by auto
  moreover have "ompi_seq_tracker_copy True ompi_seq_tracker_construct t = Some t"
    using t(2) copy_items [of "length (seq_ids t)" t]
    by (auto simp: ompi_seq_tracker_copy_def tracker_ok_def split: option.splits)
  ultimately show ?thesis by blast
qed

theorem seq_tracker_is_set_witness:
  "\<exists>t. run_seen ompi_seq_tracker_check_duplicate (ompi_seq_tracker_insert True) [Add 5, Add 7, Test 6, Add 6, Test 6] ompi_seq_tracker_construct =
     Some ([False, True], t) \<and> tracker_ok t"
  using seq_tracker_is_set [of "[Add 5, Add 7, Test 6, Add 6, Test 6]"] by (auto simp: seq_compat_def)

text \<open>The tracker does not survive the wrap-around of its counter: when the range at the cursor ends with
  2^32 - 1, inserting 0 takes it for the successor and sets the upper end of the range to 0, after which every
  number of that range is reported as not seen.\<close>

theorem seq_tracker_wrap_forgets:
  assumes "seq_ids t = xs @ [r]" and "seq_ids_current t = Some (length xs)"
    and "seq_id_high r = - 1" and "seq_id_low r \<noteq> 0" and "in_range x r"
  shows "\<exists>t'. ompi_seq_tracker_check_duplicate t x = Some (True, t) \<and> ompi_seq_tracker_insert True t 0 = Some t' \<and>
           ompi_seq_tracker_check_duplicate t' x = Some (False, t')"
proof -
  let ?t' = "\<lparr>seq_ids = xs @ [r\<lparr>seq_id_high := 0\<rparr>], seq_ids_current = Some (length xs)\<rparr>"
  have "ompi_seq_tracker_check_duplicate t x = Some (True, t)"
    using assms(1,2,5) by (simp add: ompi_seq_tracker_check_duplicate_def check_loop.simps)
  moreover have "\<not> in_range 0 r" using assms(4) by (simp add: in_range_def word_le_0_iff)
  then have "ompi_seq_tracker_insert True t 0 = Some ?t'"
    using assms(1-4) by (simp add: ompi_seq_tracker_insert_def insert_loop.simps extend_high_def list_get_next_def)
  moreover have "x \<noteq> 0" using assms(4,5) by (auto simp: in_range_def)
  then have "ompi_seq_tracker_check_duplicate ?t' x = Some (False, ?t')"
    by (simp add: ompi_seq_tracker_check_duplicate_def check_loop.simps in_range_def list_get_next_def word_gt_0)
  ultimately show ?thesis by blast
qed

theorem seq_tracker_wrap_forgets_witness:
  "\<exists>t'. ompi_seq_tracker_insert True \<lparr>seq_ids = [\<lparr>seq_id_high = - 1, seq_id_low = 3\<rparr>], seq_ids_current = Some 0\<rparr> 0 = Some t' \<and>
     ompi_seq_tracker_check_duplicate t' 9 = Some (False, t')"
  using seq_tracker_wrap_forgets [of "\<lparr>seq_ids = [\<lparr>seq_id_high = - 1, seq_id_low = 3\<rparr>], seq_ids_current = Some 0\<rparr>" "[]"
      "\<lparr>seq_id_high = - 1, seq_id_low = 3\<rparr>" 9]
  by (auto simp: in_range_def)

end
