(* ===== verification/Rank_Translation.thy ===== *)
theory Rank_Translation
  imports Main
begin

text \<open>
  The contract of a sparse group format: \<open>ranks\<close> lists, in order, the parent ranks that a
  child group consists of, \<open>up\<close> translates a rank of the child to the parent and \<open>down\<close>
  a rank of the parent to the child, with \<open>undef\<close> for a parent rank that is not in the child;
  \<open>limit\<close> is the size of the parent.
  The client's lemmas: the two are inverse to each other, \<open>up\<close> is injective and \<open>down\<close> is
  defined exactly on the members.
\<close>

locale rank_translation =
  fixes wf :: "'g \<Rightarrow> bool" and ranks :: "'g \<Rightarrow> int list" and limit :: "'g \<Rightarrow> int"
    and up :: "'g \<Rightarrow> int \<Rightarrow> int option" and down :: "'g \<Rightarrow> int \<Rightarrow> int option" and undef :: int
  assumes undef_neg: "undef < 0"
    and ranks_range: "wf g \<Longrightarrow> r \<in> set (ranks g) \<Longrightarrow> 0 \<le> r \<and> r < limit g"
    and ranks_distinct: "wf g \<Longrightarrow> distinct (ranks g)"
    and up_nth: "wf g \<Longrightarrow> i < length (ranks g) \<Longrightarrow> up g (int i) = Some (ranks g ! i)"
    and down_nth: "wf g \<Longrightarrow> i < length (ranks g) \<Longrightarrow> down g (ranks g ! i) = Some (int i)"
    and down_other: "wf g \<Longrightarrow> 0 \<le> r \<Longrightarrow> r < limit g \<Longrightarrow> r \<notin> set (ranks g) \<Longrightarrow> down g r = Some undef"
begin

lemma down_up:
  assumes "wf g" and "i < length (ranks g)"
  shows "\<exists>r. up g (int i) = Some r \<and> down g r = Some (int i)"
  using assms up_nth down_nth by blast

lemma up_down:
  assumes "wf g" and "0 \<le> r" and "r < limit g" and "down g r = Some c" and "c \<noteq> undef"
  shows "up g c = Some r \<and> 0 \<le> c \<and> c < int (length (ranks g))"
proof -
  have "r \<in> set (ranks g)" using down_other [OF assms(1-3)] assms(4,5) by auto
  then obtain i where "i < length (ranks g)" "ranks g ! i = r" by (auto simp: in_set_conv_nth)
  then show ?thesis using up_nth [OF assms(1)] down_nth [OF assms(1)] assms(4) by auto
qed

lemma up_inj:
  assumes "wf g" and "i < length (ranks g)" and "j < length (ranks g)" and "up g (int i) = up g (int j)"
  shows "i = j"
  using assms up_nth [OF assms(1)] ranks_distinct [OF assms(1)] by (simp add: nth_eq_iff_index_eq)

end

end
