(* ===== verification/Group.thy ===== *)
theory Group
  imports Opal_Prelude Rank_Translation
begin

unbundle bit_operations_syntax

text \<open>
  Process groups (\<^verbatim>\<open>ompi/group\<close>): a group stores its processes densely, as an array of
  process pointers, or sparsely, as a description of which ranks of a parent group it consists of:
  a stride (\<^verbatim>\<open>group_strided.c\<close>), a list of ranges (\<^verbatim>\<open>group_sporadic.c\<close>) or a
  bitmap (\<^verbatim>\<open>group_bitmap.c\<close>). \<open>grp_addr\<close> is the address of the structure, which the
  code compares. Reference counts and the Fortran handle table are not part of the model. This theory
  holds the data, the translation of ranks between a group and its parent in every format, and the
  lookup of a process; \<^verbatim>\<open>Group_Ops\<close> holds the operations that build groups.

  Rank arithmetic is on HOL integers: every value is a rank or a count of a group.
\<close>

section \<open>Groups\<close>

definition MPI_PROC_NULL :: int where [opal_rc]: "MPI_PROC_NULL = - 2"
definition MPI_UNDEFINED :: int where [opal_rc]: "MPI_UNDEFINED = - 32766"
definition BSIZE :: int where "BSIZE = 8"

datatype 'p ompi_group =
    Group (grp_addr: nat) (grp_proc_count: int) (grp_my_rank: int) (grp_storage: "'p group_storage")
and 'p group_storage =
    Dense "'p list"
  | Sporadic "'p ompi_group" "(int \<times> int) list" int
  | Strided "'p ompi_group" int int int
  | Bitmap "'p ompi_group" "8 word list" int

definition MPI_GROUP_EMPTY :: "'p ompi_group" where
  "MPI_GROUP_EMPTY = Group 0 0 MPI_UNDEFINED (Dense [])"

definition is_group_empty :: "'p ompi_group \<Rightarrow> bool" where
  "is_group_empty g \<longleftrightarrow> grp_addr g = grp_addr (MPI_GROUP_EMPTY :: 'p ompi_group)"

definition grp_parent_group_ptr :: "'p ompi_group \<Rightarrow> 'p ompi_group ptr" where
  "grp_parent_group_ptr g =
     (case grp_storage g of
        Dense _ \<Rightarrow> Null | Sporadic p _ _ \<Rightarrow> Ptr p | Strided p _ _ _ \<Rightarrow> Ptr p | Bitmap p _ _ \<Rightarrow> Ptr p)"

definition same_group :: "'p ompi_group ptr \<Rightarrow> 'p ompi_group \<Rightarrow> bool" where
  "same_group p g = (case p of Null \<Rightarrow> False | Ptr h \<Rightarrow> grp_addr h = grp_addr g)"

section \<open>Translation of one rank\<close>

text \<open>Strided: \<open>s\<close> the stride, \<open>ofs\<close> the offset, \<open>l\<close> the last element. The remainder by a
  zero stride is undefined.\<close>

definition strided_down :: "int \<Rightarrow> int \<Rightarrow> int \<Rightarrow> int \<Rightarrow> int option" where
  "strided_down s ofs l r =
     (if r - ofs \<ge> 0 then
        (if s = 0 then None
         else if (r - ofs) smod s = 0 \<and> r \<le> l then Some ((r - ofs) sdiv s)
         else Some MPI_UNDEFINED)
      else Some MPI_UNDEFINED)"

definition strided_up :: "int \<Rightarrow> int \<Rightarrow> int \<Rightarrow> int option" where
  "strided_up s ofs r = Some (s * r + ofs)"

text \<open>Sporadic: the ranges are walked with the number of ranks passed in \<open>count\<close>.\<close>

definition spor_entries :: "(int \<times> int) list \<Rightarrow> int \<Rightarrow> (int \<times> int) list option" where
  "spor_entries arr len = (if len \<le> int (length arr) then Some (take (nat len) arr) else None)"

fun spor_down_loop :: "(int \<times> int) list \<Rightarrow> int \<Rightarrow> int \<Rightarrow> int" where
  "spor_down_loop [] count r = MPI_UNDEFINED"
| "spor_down_loop ((rank_first, len) # es) count r =
     (if rank_first \<le> r \<and> r \<le> rank_first + len - 1 then r - rank_first + count
      else spor_down_loop es (count + len) r)"

fun spor_up_loop :: "(int \<times> int) list \<Rightarrow> int \<Rightarrow> int \<Rightarrow> int \<Rightarrow> int" where
  "spor_up_loop [] count r old = old"
| "spor_up_loop ((rank_first, len) # es) count r old =
     (if r > count + len - 1 then spor_up_loop es (count + len) r old else rank_first + (r - count))"

text \<open>
  Bitmap: the two nested loops over the bytes \<open>i\<close> and the bits \<open>k\<close> run through the
  positions \<open>q = i * BSIZE + k\<close> in order, and end where the code leaves both of them.
\<close>

definition bmap_test :: "8 word list \<Rightarrow> int \<Rightarrow> bool option" where
  "bmap_test arr q =
     (if q smod BSIZE < 0 then None
      else map_option (\<lambda>b. bit b (nat (q smod BSIZE))) (aget arr (q sdiv BSIZE)))"

definition bmap_down :: "8 word list \<Rightarrow> int \<Rightarrow> int option" where
  "bmap_down arr m = do {
     b \<leftarrow> bmap_test arr m;
     if b then do {
       count \<leftarrow> for_loop 0 (m + 1)
                  (\<lambda>q count. do { set_bit \<leftarrow> bmap_test arr q; Some (if set_bit then count + 1 else count) }) 0;
       Some (count - 1) }
     else Some MPI_UNDEFINED }"

function bmap_up_loop :: "8 word list \<Rightarrow> int \<Rightarrow> int \<Rightarrow> int \<Rightarrow> int \<Rightarrow> int \<Rightarrow> int option" where
  "bmap_up_loop arr len q count m old =
     (if q < len * BSIZE then do {
        set_bit \<leftarrow> bmap_test arr q;
        let count' = (if set_bit then count + 1 else count);
        if m = count' - 1 then Some q else bmap_up_loop arr len (q + 1) count' m old }
      else Some old)"
  by pat_completeness auto
termination by (relation "measure (\<lambda>(arr, len, q, _). nat (len * BSIZE - q))") auto

declare bmap_up_loop.simps [simp del]

section \<open>Translation of arrays of ranks\<close>

text \<open>The loop all six functions share: \<open>MPI_PROC_NULL\<close> stays what it is. The result is the array
  \<open>ranks2\<close>; \<open>old\<close> is what was in it.\<close>

definition translate_loop ::
    "(int \<Rightarrow> int \<Rightarrow> int option) \<Rightarrow> int \<Rightarrow> int list \<Rightarrow> int list \<Rightarrow> int list option" where
  "translate_loop f n_ranks ranks1 ranks2 =
     for_loop 0 n_ranks
       (\<lambda>i r2. do {
          r \<leftarrow> aget ranks1 i;
          old \<leftarrow> aget r2 i;
          v \<leftarrow> (if MPI_PROC_NULL = r then Some MPI_PROC_NULL else f r old);
          aset r2 i v }) ranks2"

definition ompi_group_translate_ranks_strided ::
    "int \<Rightarrow> int list \<Rightarrow> 'p ompi_group \<Rightarrow> int list \<Rightarrow> int list option" where
  "ompi_group_translate_ranks_strided n_ranks ranks1 child_group ranks2 =
     (case grp_storage child_group of
        Strided _ s ofs l \<Rightarrow> translate_loop (\<lambda>r old. strided_down s ofs l r) n_ranks ranks1 ranks2
      | _ \<Rightarrow> None)"

definition ompi_group_translate_ranks_strided_reverse ::
    "'p ompi_group \<Rightarrow> int \<Rightarrow> int list \<Rightarrow> int list \<Rightarrow> int list option" where
  "ompi_group_translate_ranks_strided_reverse child_group n_ranks ranks1 ranks2 =
     (case grp_storage child_group of
        Strided _ s ofs l \<Rightarrow> translate_loop (\<lambda>r old. strided_up s ofs r) n_ranks ranks1 ranks2
      | _ \<Rightarrow> None)"

definition ompi_group_translate_ranks_sporadic ::
    "int \<Rightarrow> int list \<Rightarrow> 'p ompi_group \<Rightarrow> int list \<Rightarrow> int list option" where
  "ompi_group_translate_ranks_sporadic n_ranks ranks1 child_group ranks2 =
     (case grp_storage child_group of
        Sporadic _ arr len \<Rightarrow>
          translate_loop (\<lambda>r old. map_option (\<lambda>es. spor_down_loop es 0 r) (spor_entries arr len)) n_ranks ranks1 ranks2
      | _ \<Rightarrow> None)"

definition ompi_group_translate_ranks_sporadic_reverse ::
    "'p ompi_group \<Rightarrow> int \<Rightarrow> int list \<Rightarrow> int list \<Rightarrow> int list option" where
  "ompi_group_translate_ranks_sporadic_reverse child_group n_ranks ranks1 ranks2 =
     (case grp_storage child_group of
        Sporadic _ arr len \<Rightarrow>
          translate_loop (\<lambda>r old. map_option (\<lambda>es. spor_up_loop es 0 r old) (spor_entries arr len)) n_ranks ranks1 ranks2
      | _ \<Rightarrow> None)"

definition ompi_group_translate_ranks_bmap ::
    "int \<Rightarrow> int list \<Rightarrow> 'p ompi_group \<Rightarrow> int list \<Rightarrow> int list option" where
  "ompi_group_translate_ranks_bmap n_ranks ranks1 child_group ranks2 =
     (case grp_storage child_group of
        Bitmap _ arr len \<Rightarrow> translate_loop (\<lambda>r old. bmap_down arr r) n_ranks ranks1 ranks2
      | _ \<Rightarrow> None)"

definition ompi_group_translate_ranks_bmap_reverse ::
    "'p ompi_group \<Rightarrow> int \<Rightarrow> int list \<Rightarrow> int list \<Rightarrow> int list option" where
  "ompi_group_translate_ranks_bmap_reverse child_group n_ranks ranks1 ranks2 =
     (case grp_storage child_group of
        Bitmap _ arr len \<Rightarrow> translate_loop (\<lambda>r old. bmap_up_loop arr len 0 0 r old) n_ranks ranks1 ranks2
      | _ \<Rightarrow> None)"

section \<open>Looking up a process\<close>

text \<open>The branches of \<open>ompi_group_translate_ranks\<close> from a child to its parent and back.\<close>

definition translate_to_parent :: "'p ompi_group \<Rightarrow> int \<Rightarrow> int list \<Rightarrow> int list \<Rightarrow> int list option" where
  "translate_to_parent g n_ranks ranks1 ranks2 =
     (case grp_storage g of
        Sporadic _ _ _ \<Rightarrow> ompi_group_translate_ranks_sporadic_reverse g n_ranks ranks1 ranks2
      | Strided _ _ _ _ \<Rightarrow> ompi_group_translate_ranks_strided_reverse g n_ranks ranks1 ranks2
      | Bitmap _ _ _ \<Rightarrow> ompi_group_translate_ranks_bmap_reverse g n_ranks ranks1 ranks2
      | Dense _ \<Rightarrow> Some ranks2)"

definition translate_to_child :: "int \<Rightarrow> int list \<Rightarrow> 'p ompi_group \<Rightarrow> int list \<Rightarrow> int list option" where
  "translate_to_child n_ranks ranks1 g ranks2 =
     (case grp_storage g of
        Sporadic _ _ _ \<Rightarrow> ompi_group_translate_ranks_sporadic n_ranks ranks1 g ranks2
      | Strided _ _ _ _ \<Rightarrow> ompi_group_translate_ranks_strided n_ranks ranks1 g ranks2
      | Bitmap _ _ _ \<Rightarrow> ompi_group_translate_ranks_bmap n_ranks ranks1 g ranks2
      | Dense _ \<Rightarrow> Some ranks2)"

text \<open>
  \<open>ompi_group_get_proc_ptr\<close> walks up to the dense group. Its call of
  \<open>ompi_group_translate_ranks\<close> is always from a group to its parent; \<open>junk\<close> is the
  uninitialised \<open>ranks2\<close>.
\<close>

fun ompi_group_get_proc_ptr :: "int \<Rightarrow> 'p ompi_group \<Rightarrow> int \<Rightarrow> 'p option"
  and get_proc_ptr_in :: "int \<Rightarrow> 'p ompi_group \<Rightarrow> 'p group_storage \<Rightarrow> int \<Rightarrow> 'p option" where
  "ompi_group_get_proc_ptr junk (Group a n r st) rank = get_proc_ptr_in junk (Group a n r st) st rank"
| "get_proc_ptr_in junk g (Dense procs) rank = aget procs rank"
| "get_proc_ptr_in junk g (Sporadic p arr len) rank = do {
     rs \<leftarrow> (if is_group_empty g \<or> is_group_empty p then Some [MPI_UNDEFINED] else translate_to_parent g 1 [rank] [junk]);
     rank' \<leftarrow> aget rs 0;
     ompi_group_get_proc_ptr junk p rank' }"
| "get_proc_ptr_in junk g (Strided p s ofs l) rank = do {
     rs \<leftarrow> (if is_group_empty g \<or> is_group_empty p then Some [MPI_UNDEFINED] else translate_to_parent g 1 [rank] [junk]);
     rank' \<leftarrow> aget rs 0;
     ompi_group_get_proc_ptr junk p rank' }"
| "get_proc_ptr_in junk g (Bitmap p arr len) rank = do {
     rs \<leftarrow> (if is_group_empty g \<or> is_group_empty p then Some [MPI_UNDEFINED] else translate_to_parent g 1 [rank] [junk]);
     rank' \<leftarrow> aget rs 0;
     ompi_group_get_proc_ptr junk p rank' }"

definition ompi_group_peer_lookup :: "int \<Rightarrow> 'p ompi_group \<Rightarrow> int \<Rightarrow> 'p option" where
  "ompi_group_peer_lookup = ompi_group_get_proc_ptr"

text \<open>The general case: for each rank of the first group, the first position in the second group that
  holds the same process.\<close>

definition lookup_in :: "int \<Rightarrow> 'p ompi_group \<Rightarrow> 'p \<Rightarrow> int option" where
  "lookup_in junk g proc =
     find_loop 0 (grp_proc_count g) (\<lambda>k. map_option (\<lambda>q. proc = q) (ompi_group_peer_lookup junk g k))"

definition ompi_group_translate_ranks ::
    "int \<Rightarrow> 'p ompi_group \<Rightarrow> int \<Rightarrow> int list \<Rightarrow> 'p ompi_group \<Rightarrow> int list \<Rightarrow> int list option" where
  "ompi_group_translate_ranks junk group1 n_ranks ranks1 group2 ranks2 =
     (if is_group_empty group1 \<or> is_group_empty group2 then
        for_loop 0 n_ranks (\<lambda>i r2. aset r2 i MPI_UNDEFINED) ranks2
      else if same_group (grp_parent_group_ptr group1) group2 then
        translate_to_parent group1 n_ranks ranks1 ranks2
      else if same_group (grp_parent_group_ptr group2) group1 then
        translate_to_child n_ranks ranks1 group2 ranks2
      else
        translate_loop
          (\<lambda>rank old. do {
             proc1 \<leftarrow> ompi_group_peer_lookup junk group1 rank;
             proc2 \<leftarrow> lookup_in junk group2 proc1;
             Some (if proc2 < grp_proc_count group2 then proc2 else MPI_UNDEFINED) }) n_ranks ranks1 ranks2)"

section \<open>What a sparse group stands for\<close>

definition strided_ranks :: "int \<Rightarrow> int \<Rightarrow> int \<Rightarrow> int list" where
  "strided_ranks s ofs n = map (\<lambda>i. ofs + s * int i) [0..<nat n]"

definition spor_ranks :: "(int \<times> int) list \<Rightarrow> int list" where
  "spor_ranks es = concat (map (\<lambda>(f, len). [f..f + len - 1]) es)"

definition bmap_set :: "8 word list \<Rightarrow> nat \<Rightarrow> bool" where
  "bmap_set arr q \<longleftrightarrow> bit (arr ! (q div 8)) (q mod 8)"

definition bmap_ranks :: "8 word list \<Rightarrow> int list" where
  "bmap_ranks arr = map int (filter (bmap_set arr) [0..<8 * length arr])"

text \<open>The parent ranks of a sparse group, in the order of its own ranks.\<close>

definition child_ranks :: "'p ompi_group \<Rightarrow> int list" where
  "child_ranks g =
     (case grp_storage g of
        Dense _ \<Rightarrow> []
      | Strided p s ofs l \<Rightarrow> strided_ranks s ofs (grp_proc_count g)
      | Sporadic p arr len \<Rightarrow> spor_ranks (take (nat len) arr)
      | Bitmap p arr len \<Rightarrow> bmap_ranks arr)"

definition parent_size :: "'p ompi_group \<Rightarrow> int" where
  "parent_size g = (case grp_parent_group_ptr g of Null \<Rightarrow> 0 | Ptr p \<Rightarrow> grp_proc_count p)"

text \<open>A well-formed sparse storage of \<open>n\<close> processes, over a parent of \<open>m\<close>.\<close>

definition sparse_wf :: "int \<Rightarrow> int \<Rightarrow> 'p group_storage \<Rightarrow> bool" where
  "sparse_wf n m st \<longleftrightarrow>
     (case st of
        Dense procs \<Rightarrow> False
      | Strided p s ofs l \<Rightarrow> 0 < s \<and> 0 \<le> ofs \<and> 1 \<le> n \<and> l = ofs + s * (n - 1) \<and> l < m
      | Sporadic p arr len \<Rightarrow>
          0 \<le> len \<and> len \<le> int (length arr) \<and> n = int (length (spor_ranks (take (nat len) arr))) \<and>
          (\<forall>(f, k) \<in> set (take (nat len) arr). 0 \<le> f \<and> 1 \<le> k \<and> f + k \<le> m) \<and>
          distinct (spor_ranks (take (nat len) arr))
      | Bitmap p arr len \<Rightarrow>
          len = int (length arr) \<and> n = int (length (bmap_ranks arr)) \<and> m \<le> 8 * len \<and>
          (\<forall>r \<in> set (bmap_ranks arr). r < m))"

primrec grp_wf :: "'p ompi_group \<Rightarrow> bool" and storage_wf :: "int \<Rightarrow> 'p group_storage \<Rightarrow> bool" where
  "grp_wf (Group a n r st) \<longleftrightarrow> storage_wf n st \<and> (a = 0 \<longrightarrow> n = 0)"
| "storage_wf n (Dense procs) \<longleftrightarrow> n = int (length procs)"
| "storage_wf n (Strided p s ofs l) \<longleftrightarrow> grp_wf p \<and> grp_addr p \<noteq> 0 \<and> sparse_wf n (grp_proc_count p) (Strided p s ofs l)"
| "storage_wf n (Sporadic p arr len) \<longleftrightarrow> grp_wf p \<and> grp_addr p \<noteq> 0 \<and> sparse_wf n (grp_proc_count p) (Sporadic p arr len)"
| "storage_wf n (Bitmap p arr len) \<longleftrightarrow> grp_wf p \<and> grp_addr p \<noteq> 0 \<and> sparse_wf n (grp_proc_count p) (Bitmap p arr len)"

text \<open>The processes of a group, in rank order.\<close>

primrec grp_procs :: "'p ompi_group \<Rightarrow> 'p list" and storage_procs :: "int \<Rightarrow> 'p group_storage \<Rightarrow> 'p list" where
  "grp_procs (Group a n r st) = storage_procs n st"
| "storage_procs n (Dense procs) = procs"
| "storage_procs n (Strided p s ofs l) = map (\<lambda>r. grp_procs p ! nat r) (strided_ranks s ofs n)"
| "storage_procs n (Sporadic p arr len) = map (\<lambda>r. grp_procs p ! nat r) (spor_ranks (take (nat len) arr))"
| "storage_procs n (Bitmap p arr len) = map (\<lambda>r. grp_procs p ! nat r) (bmap_ranks arr)"

definition sparse_group :: "'p ompi_group \<Rightarrow> bool" where
  "sparse_group g \<longleftrightarrow> grp_wf g \<and> grp_parent_group_ptr g \<noteq> Null"

section \<open>The formats\<close>

lemma translate_loop_one:
  "translate_loop f 1 [r] [old] = map_option (\<lambda>v. [v]) (if MPI_PROC_NULL = r then Some MPI_PROC_NULL else f r old)"
  by (cases "f r old") (auto simp: translate_loop_def for_loop_step aget_def aset_def)

lemma strided_down_nth:
  assumes "0 < s" and "i < nat n" and "l = ofs + s * (n - 1)"
  shows "strided_down s ofs l (strided_ranks s ofs n ! i) = Some (int i)"
proof -
  have "s * int i \<le> s * (n - 1)" using assms by (intro mult_left_mono) auto
  then show ?thesis using assms by (simp add: strided_down_def strided_ranks_def)
qed

lemma strided_down_other:
  assumes "0 < s" and "l = ofs + s * (n - 1)" and "r \<notin> set (strided_ranks s ofs n)"
  shows "strided_down s ofs l r = Some MPI_UNDEFINED"
proof (rule ccontr)
  assume "strided_down s ofs l r \<noteq> Some MPI_UNDEFINED"
  then have r: "0 \<le> r - ofs" "(r - ofs) mod s = 0" "r \<le> l"
    using assms(1) by (auto simp: strided_down_def split: if_splits)
  then obtain k where k: "r - ofs = s * k" by (auto elim!: dvdE simp: mod_eq_0_iff_dvd)
  have "0 \<le> k" using r(1) k assms(1) by (simp add: zero_le_mult_iff)
  moreover have "s * k \<le> s * (n - 1)" using r(3) k assms(2) by linarith
  then have "k \<le> n - 1" using assms(1) by simp
  ultimately have "r \<in> set (strided_ranks s ofs n)"
    using k by (auto simp: strided_ranks_def intro!: image_eqI [of _ _ "nat k"])
  then show False using assms(3) by contradiction
qed

lemma spor_ranks_simps [simp]:
  "spor_ranks [] = []" "spor_ranks ((f, len) # es) = [f..f + len - 1] @ spor_ranks es"
  by (simp_all add: spor_ranks_def)

lemma spor_up_nth:
  "(\<forall>(f, k) \<in> set es. 1 \<le> k) \<Longrightarrow> i < length (spor_ranks es) \<Longrightarrow> spor_up_loop es c (c + int i) old = spor_ranks es ! i"
proof (induction es arbitrary: c i)
  case (Cons e es)
  obtain f k where e: "e = (f, k)" by (cases e)
  show ?case
  proof (cases "i < nat k")
    case True
    then have "\<not> k - 1 < int i" by linarith
    with True show ?thesis using e Cons.prems by (simp add: nth_append)
  next
    case False
    then have i: "i - nat k < length (spor_ranks es)" and eq: "c + k + int (i - nat k) = c + int i"
      using Cons.prems e by auto
    have "spor_up_loop es (c + k) (c + int i) old = spor_ranks es ! (i - nat k)"
      using Cons.IH [OF _ i, of "c + k"] Cons.prems(1) unfolding eq by simp
    moreover have "k - 1 < int i" using False by linarith
    ultimately show ?thesis using False e Cons.prems by (simp add: nth_append)
  qed
qed simp

lemma spor_down_other: "r \<notin> set (spor_ranks es) \<Longrightarrow> spor_down_loop es c r = MPI_UNDEFINED"
  by (induction es arbitrary: c) auto

lemma spor_down_nth:
  "(\<forall>(f, k) \<in> set es. 1 \<le> k) \<Longrightarrow> distinct (spor_ranks es) \<Longrightarrow> i < length (spor_ranks es) \<Longrightarrow>
   spor_down_loop es c (spor_ranks es ! i) = c + int i"
proof (induction es arbitrary: c i)
  case (Cons e es)
  obtain f k where e: "e = (f, k)" by (cases e)
  show ?case
  proof (cases "i < nat k")
    case True
    then show ?thesis using e Cons.prems by (auto simp: nth_append)
  next
    case False
    let ?r = "spor_ranks es ! (i - nat k)"
    have i: "i - nat k < length (spor_ranks es)" using False e Cons.prems by auto
    then have "?r \<in> set (spor_ranks es)" by simp
    then have "\<not> (f \<le> ?r \<and> ?r \<le> f + k - 1)" using Cons.prems e by auto
    moreover have "spor_down_loop es (c + k) ?r = c + k + int (i - nat k)" using Cons i e by auto
    ultimately show ?thesis using False e Cons.prems by (auto simp: nth_append)
  qed
qed simp

lemma bmap_test_ok: "q < 8 * length arr \<Longrightarrow> bmap_test arr (int q) = Some (bmap_set arr q)"
proof -
  assume "q < 8 * length arr"
  then have "q div 8 < length arr" by linarith
  moreover have "int q div 8 = int (q div 8)" "int q mod 8 = int (q mod 8)" by (simp_all add: zdiv_int zmod_int)
  ultimately show ?thesis by (simp add: bmap_test_def BSIZE_def aget_def bmap_set_def)
qed

lemma filter_upt_nth:
  "i < length (filter P [0..<N]) \<Longrightarrow> filter P [0..<N] ! i = r \<Longrightarrow> P r \<and> r < N \<and> length (filter P [0..<r]) = i"
proof (induction N)
  case (Suc N)
  then show ?case by (cases "i < length (filter P [0..<N])") (auto simp: nth_append split: if_splits)
qed simp

lemma bmap_count:
  assumes "m \<le> 8 * length arr"
  shows "for_loop 0 (int m) (\<lambda>q count. do { b \<leftarrow> bmap_test arr q; Some (if b then count + 1 else count) }) 0 =
         Some (int (length (filter (bmap_set arr) [0..<m])))"
proof -
  let ?P = "\<lambda>q c. c = int (length (filter (bmap_set arr) [0..<nat q]))"
  have "\<exists>c. for_loop 0 (int m) (\<lambda>q count. do { b \<leftarrow> bmap_test arr q; Some (if b then count + 1 else count) }) 0 = Some c \<and> ?P (int m) c"
  proof (rule for_loop_rule [where P = ?P])
    fix k c assume k: "0 \<le> k" "k < int m" and c: "?P k c"
    obtain q where q: "k = int q" "q < m" using k nonneg_int_cases [of k] by auto
    then have "nat (k + 1) = Suc q" by simp
    with q c assms show "\<exists>c'. (do { b \<leftarrow> bmap_test arr k; Some (if b then c + 1 else c) }) = Some c' \<and> ?P (k + 1) c'"
      by (simp add: bmap_test_ok)
  qed simp_all
  then show ?thesis by simp
qed

lemma bmap_down_ok:
  assumes "q < 8 * length arr"
  shows "bmap_down arr (int q) =
         Some (if bmap_set arr q then int (length (filter (bmap_set arr) [0..<q])) else MPI_UNDEFINED)"
proof -
  have "int q + 1 = int (Suc q)" by simp
  then show ?thesis
    unfolding bmap_down_def using bmap_count [of "Suc q" arr] bmap_test_ok [OF assms] assms
    by (simp only: bind.simps) simp
qed

lemma bmap_up_ok:
  assumes "q \<le> r" and "r < 8 * length arr" and "bmap_set arr r" and "len = int (length arr)"
  shows "bmap_up_loop arr len (int q) (int (length (filter (bmap_set arr) [0..<q])))
           (int (length (filter (bmap_set arr) [0..<r]))) old = Some (int r)"
  using assms(1)
proof (induction "r - q" arbitrary: q)
  case 0
  then have "q = r" by simp
  then show ?case
    using assms by (subst bmap_up_loop.simps) (simp add: bmap_test_ok BSIZE_def)
next
  case (Suc d)
  then have q: "q < r" by simp
  let ?c = "\<lambda>q. int (length (filter (bmap_set arr) [0..<q]))"
  have "filter (bmap_set arr) [0..<r] = filter (bmap_set arr) [0..<Suc q] @ filter (bmap_set arr) [Suc q..<r]"
    using q upt_add_eq_append [of 0 "Suc q" "r - Suc q"] by (simp flip: filter_append)
  then have "?c (Suc q) \<le> ?c r" by simp
  then have ne: "?c r \<noteq> ?c (Suc q) - 1" by simp
  have step: "?c (Suc q) = (if bmap_set arr q then ?c q + 1 else ?c q)" by simp
  have "bmap_up_loop arr len (int q) (?c q) (?c r) old = bmap_up_loop arr len (int (Suc q)) (?c (Suc q)) (?c r) old"
    using q assms ne unfolding step
    by (subst bmap_up_loop.simps) (auto simp: bmap_test_ok BSIZE_def Let_def add.commute simp del: upt_Suc split: if_splits)
  also have "\<dots> = Some (int r)" by (rule Suc.hyps(1)) (use Suc q in auto)
  finally show ?case .
qed

section \<open>The interface: ranks of a child and of its parent\<close>

definition one_rank :: "int list option \<Rightarrow> int option" where
  "one_rank rs = (case rs of Some [r] \<Rightarrow> Some r | _ \<Rightarrow> None)"

abbreviation rank_up :: "int \<Rightarrow> 'p ompi_group \<Rightarrow> int \<Rightarrow> int option" where
  "rank_up old g r \<equiv> one_rank (translate_to_parent g 1 [r] [old])"

abbreviation rank_down :: "int \<Rightarrow> 'p ompi_group \<Rightarrow> int \<Rightarrow> int option" where
  "rank_down old g r \<equiv> one_rank (translate_to_child 1 [r] g [old])"

lemma one_rank_Some [simp]: "one_rank rs = Some r \<longleftrightarrow> rs = Some [r]"
  by (auto simp: one_rank_def split: option.splits list.splits)

lemma sparse_groupE:
  assumes "sparse_group g"
  obtains p where "grp_parent_group_ptr g = Ptr p" and "grp_wf p" and "grp_addr p \<noteq> 0"
    and "parent_size g = grp_proc_count p"
    and "sparse_wf (grp_proc_count g) (grp_proc_count p) (grp_storage g)"
proof (cases g)
  case (Group a n r st)
  show ?thesis
    by (rule that [of "case grp_parent_group_ptr g of Ptr p \<Rightarrow> p"])
      (use assms Group in \<open>cases st; auto simp: sparse_group_def grp_parent_group_ptr_def parent_size_def\<close>)+
qed

lemma child_ranks_wf:
  assumes "sparse_wf (grp_proc_count g) m (grp_storage g)"
  shows "distinct (child_ranks g)" and "int (length (child_ranks g)) = grp_proc_count g"
    and "r \<in> set (child_ranks g) \<Longrightarrow> 0 \<le> r \<and> r < m"
proof -
  have strided: "0 \<le> x \<and> x < m" if x: "x \<in> set (strided_ranks s ofs n)" "0 < s" "0 \<le> ofs" "ofs + s * (n - 1) < m"
    for s ofs n x
  proof -
    obtain i where i: "x = ofs + s * int i" "i < nat n" using x(1) unfolding strided_ranks_def set_map set_upt by force
    then have "s * int i \<le> s * (n - 1)" "0 \<le> s * int i" using x(2) by (auto intro!: mult_left_mono)
    then show ?thesis using i x by linarith
  qed
  show "distinct (child_ranks g)" and "int (length (child_ranks g)) = grp_proc_count g"
    using assms by (cases "grp_storage g"; auto simp: sparse_wf_def child_ranks_def strided_ranks_def bmap_ranks_def distinct_map inj_on_def)+
  show "r \<in> set (child_ranks g) \<Longrightarrow> 0 \<le> r \<and> r < m"
    using assms strided
    by (cases "grp_storage g") (fastforce simp: sparse_wf_def child_ranks_def bmap_ranks_def spor_ranks_def)+
qed

lemma translate_up_nth:
  assumes "sparse_wf (grp_proc_count g) m (grp_storage g)" and "i < length (child_ranks g)"
  shows "translate_to_parent g 1 [int i] [old] = Some [child_ranks g ! i]"
proof (cases "grp_storage g")
  case (Dense procs)
  then show ?thesis using assms by (simp add: sparse_wf_def)
next
  case (Strided p s ofs l)
  then show ?thesis using assms
    by (simp add: translate_to_parent_def ompi_group_translate_ranks_strided_reverse_def translate_loop_one
        strided_up_def child_ranks_def strided_ranks_def MPI_PROC_NULL_def)
next
  case (Sporadic p arr len)
  let ?es = "take (nat len) arr"
  have "spor_up_loop ?es 0 (int i) old = spor_ranks ?es ! i"
    using assms Sporadic spor_up_nth [of ?es i 0 old] by (fastforce simp: sparse_wf_def child_ranks_def)
  then show ?thesis using assms Sporadic
    by (simp add: translate_to_parent_def ompi_group_translate_ranks_sporadic_reverse_def translate_loop_one
        spor_entries_def child_ranks_def sparse_wf_def MPI_PROC_NULL_def)
next
  case (Bitmap p arr len)
  let ?f = "filter (bmap_set arr) [0..<8 * length arr]"
  have i: "i < length ?f" using assms(2) Bitmap by (simp add: child_ranks_def bmap_ranks_def)
  have f: "bmap_set arr (?f ! i)" "?f ! i < 8 * length arr" "length (filter (bmap_set arr) [0..<?f ! i]) = i"
    using filter_upt_nth [OF i refl] by auto
  have "bmap_up_loop arr len 0 0 (int i) old = Some (int (?f ! i))"
    using bmap_up_ok [of 0 "?f ! i" arr len old] f assms Bitmap by (simp add: sparse_wf_def)
  then show ?thesis using i Bitmap
    by (simp add: translate_to_parent_def ompi_group_translate_ranks_bmap_reverse_def translate_loop_one
        child_ranks_def bmap_ranks_def MPI_PROC_NULL_def)
qed

lemma translate_down_nth:
  assumes "sparse_wf (grp_proc_count g) m (grp_storage g)" and "i < length (child_ranks g)"
  shows "translate_to_child 1 [child_ranks g ! i] g [old] = Some [int i]"
proof -
  have "child_ranks g ! i \<in> set (child_ranks g)" using assms(2) by simp
  then have nn: "MPI_PROC_NULL \<noteq> child_ranks g ! i" using child_ranks_wf(3) [OF assms(1), of "child_ranks g ! i"] by (auto simp: MPI_PROC_NULL_def)
  show ?thesis
  proof (cases "grp_storage g")
    case (Dense procs)
    then show ?thesis using assms by (simp add: sparse_wf_def)
  next
    case (Strided p s ofs l)
    then show ?thesis using assms nn strided_down_nth [of s i "grp_proc_count g" l ofs]
      by (simp add: translate_to_child_def ompi_group_translate_ranks_strided_def translate_loop_one
          child_ranks_def sparse_wf_def strided_ranks_def)
  next
    case (Sporadic p arr len)
    let ?es = "take (nat len) arr"
    have "spor_down_loop ?es 0 (spor_ranks ?es ! i) = int i"
      using assms Sporadic spor_down_nth [of ?es i 0] by (fastforce simp: sparse_wf_def child_ranks_def)
    then show ?thesis using assms Sporadic nn
      by (simp add: translate_to_child_def ompi_group_translate_ranks_sporadic_def translate_loop_one
          spor_entries_def child_ranks_def sparse_wf_def)
  next
    case (Bitmap p arr len)
    let ?f = "filter (bmap_set arr) [0..<8 * length arr]"
    have i: "i < length ?f" using assms(2) Bitmap by (simp add: child_ranks_def bmap_ranks_def)
    have f: "bmap_set arr (?f ! i)" "?f ! i < 8 * length arr" "length (filter (bmap_set arr) [0..<?f ! i]) = i"
      using filter_upt_nth [OF i refl] by auto
    then have "bmap_down arr (int (?f ! i)) = Some (int i)" using bmap_down_ok by simp
    then show ?thesis using i Bitmap nn
      by (simp add: translate_to_child_def ompi_group_translate_ranks_bmap_def translate_loop_one
          child_ranks_def bmap_ranks_def)
  qed
qed

lemma translate_down_other:
  assumes "sparse_wf (grp_proc_count g) m (grp_storage g)" and "0 \<le> r" and "r < m" and "r \<notin> set (child_ranks g)"
  shows "translate_to_child 1 [r] g [old] = Some [MPI_UNDEFINED]"
proof -
  have nn: "MPI_PROC_NULL \<noteq> r" using assms(2) by (simp add: MPI_PROC_NULL_def)
  show ?thesis
  proof (cases "grp_storage g")
    case (Dense procs)
    then show ?thesis using assms by (simp add: sparse_wf_def)
  next
    case (Strided p s ofs l)
    then show ?thesis using assms nn strided_down_other [of s l ofs "grp_proc_count g" r]
      by (simp add: translate_to_child_def ompi_group_translate_ranks_strided_def translate_loop_one
          child_ranks_def sparse_wf_def)
  next
    case (Sporadic p arr len)
    then show ?thesis using assms nn
      by (simp add: translate_to_child_def ompi_group_translate_ranks_sporadic_def translate_loop_one
          spor_entries_def child_ranks_def sparse_wf_def spor_down_other)
  next
    case (Bitmap p arr len)
    obtain q where q: "r = int q" using assms(2) nonneg_int_cases by blast
    then have "q < 8 * length arr" using assms(1,3) Bitmap by (simp add: sparse_wf_def)
    moreover from this have "\<not> bmap_set arr q" using assms(4) q Bitmap by (auto simp: child_ranks_def bmap_ranks_def)
    ultimately have "bmap_down arr r = Some MPI_UNDEFINED" using bmap_down_ok q by simp
    then show ?thesis using Bitmap nn
      by (simp add: translate_to_child_def ompi_group_translate_ranks_bmap_def translate_loop_one)
  qed
qed

interpretation grt: rank_translation sparse_group child_ranks parent_size "rank_up old" "rank_down old'" MPI_UNDEFINED
  for old old'
proof unfold_locales
  fix g :: "'p ompi_group" assume g: "sparse_group g"
  then obtain p :: "'p ompi_group" where p: "parent_size g = grp_proc_count p"
    "sparse_wf (grp_proc_count g) (grp_proc_count p) (grp_storage g)" by (rule sparse_groupE) blast
  show "distinct (child_ranks g)" by (rule child_ranks_wf(1) [OF p(2)])
  show "r \<in> set (child_ranks g) \<Longrightarrow> 0 \<le> r \<and> r < parent_size g" for r
    using child_ranks_wf(3) [OF p(2)] p(1) by simp
  show "i < length (child_ranks g) \<Longrightarrow> rank_up old g (int i) = Some (child_ranks g ! i)" for i
    using translate_up_nth [OF p(2)] by simp
  show "i < length (child_ranks g) \<Longrightarrow> rank_down old' g (child_ranks g ! i) = Some (int i)" for i
    using translate_down_nth [OF p(2)] by simp
  show "0 \<le> r \<Longrightarrow> r < parent_size g \<Longrightarrow> r \<notin> set (child_ranks g) \<Longrightarrow> rank_down old' g r = Some MPI_UNDEFINED" for r
    using translate_down_other [OF p(2)] p(1) by simp
qed (simp add: MPI_UNDEFINED_def)

section \<open>Lookups reach the dense ancestor\<close>

lemma sparse_group_cases:
  assumes "grp_wf g"
  shows "(\<exists>procs. grp_storage g = Dense procs \<and> grp_procs g = procs \<and> grp_proc_count g = int (length procs)) \<or> sparse_group g"
  using assms by (cases g; cases "grp_storage g") (auto simp: sparse_group_def grp_parent_group_ptr_def)

lemma sparse_step:
  assumes "sparse_group g" and "grp_parent_group_ptr g = Ptr p"
  shows "grp_procs g = map (\<lambda>r. grp_procs p ! nat r) (child_ranks g)" and "size p < size g"
    and "grp_addr g \<noteq> 0 \<Longrightarrow> grp_addr p \<noteq> 0 \<Longrightarrow>
         ompi_group_get_proc_ptr junk g rank =
         do { rs \<leftarrow> translate_to_parent g 1 [rank] [junk]; rank' \<leftarrow> aget rs 0; ompi_group_get_proc_ptr junk p rank' }"
  using assms
  by (cases g; cases "grp_storage g"; auto simp: sparse_group_def grp_parent_group_ptr_def child_ranks_def
      is_group_empty_def MPI_GROUP_EMPTY_def)+

lemma sparse_addr: "sparse_group g \<Longrightarrow> 0 < grp_proc_count g \<Longrightarrow> grp_addr g \<noteq> 0"
  by (cases g) (auto simp: sparse_group_def)

lemma length_grp_procs: "grp_wf g \<Longrightarrow> int (length (grp_procs g)) = grp_proc_count g"
proof -
  assume g: "grp_wf g"
  show ?thesis
  proof (cases "sparse_group g")
    case True
    then obtain p where p: "grp_parent_group_ptr g = Ptr p"
      "sparse_wf (grp_proc_count g) (grp_proc_count p) (grp_storage g)" by (rule sparse_groupE) blast
    show ?thesis using sparse_step(1) [OF True p(1)] child_ranks_wf(2) [OF p(2)] by simp
  next
    case False
    then show ?thesis using sparse_group_cases [OF g] by auto
  qed
qed

lemma peer_lookup_ok:
  "grp_wf g \<Longrightarrow> 0 \<le> i \<Longrightarrow> i < grp_proc_count g \<Longrightarrow> ompi_group_peer_lookup junk g i = Some (grp_procs g ! nat i)"
  unfolding ompi_group_peer_lookup_def
proof (induction g arbitrary: i rule: measure_induct_rule [of size])
  case (less g)
  show ?case
  proof (cases "sparse_group g")
    case False
    then obtain procs where "grp_storage g = Dense procs" "grp_procs g = procs" "grp_proc_count g = int (length procs)"
      using sparse_group_cases [OF less.prems(1)] by blast
    then show ?thesis using less.prems by (cases g) (simp add: aget_def)
  next
    case True
    then obtain p where p: "grp_parent_group_ptr g = Ptr p" "grp_wf p" "grp_addr p \<noteq> 0"
      "sparse_wf (grp_proc_count g) (grp_proc_count p) (grp_storage g)" by (rule sparse_groupE) blast
    let ?r = "child_ranks g ! nat i"
    have len: "nat i < length (child_ranks g)" using child_ranks_wf(2) [OF p(4)] less.prems by simp
    then have r: "0 \<le> ?r" "?r < grp_proc_count p" using child_ranks_wf(3) [OF p(4), of ?r] by auto
    have "translate_to_parent g 1 [i] [junk] = Some [?r]"
      using translate_up_nth [OF p(4) len, of junk] less.prems by simp
    moreover have "ompi_group_get_proc_ptr junk p ?r = Some (grp_procs p ! nat ?r)"
      using less.IH [OF sparse_step(2) [OF True p(1)] p(2) r] .
    ultimately show ?thesis
      using sparse_step(3) [OF True p(1) sparse_addr [OF True] p(3), of junk i] sparse_step(1) [OF True p(1)] len less.prems
      by (simp add: aget_def)
  qed
qed

lemma lookup_in_ok:
  assumes "grp_wf g"
  shows "\<exists>k. lookup_in junk g proc = Some k \<and> 0 \<le> k \<and> k \<le> grp_proc_count g \<and>
           (\<forall>j < nat k. grp_procs g ! j \<noteq> proc) \<and> (k < grp_proc_count g \<longrightarrow> grp_procs g ! nat k = proc)"
proof -
  have n: "0 \<le> grp_proc_count g" using length_grp_procs [OF assms] by simp
  obtain k where k: "lookup_in junk g proc = Some k" "0 \<le> k" "k \<le> grp_proc_count g"
    "\<forall>j. 0 \<le> j \<and> j < k \<longrightarrow> proc \<noteq> grp_procs g ! nat j" "k < grp_proc_count g \<longrightarrow> proc = grp_procs g ! nat k"
    using find_loop_spec [of 0 "grp_proc_count g" "\<lambda>k. map_option (\<lambda>q. proc = q) (ompi_group_peer_lookup junk g k)"
        "\<lambda>k. proc = grp_procs g ! nat k"] n peer_lookup_ok [OF assms]
    by (auto simp: lookup_in_def)
  have "grp_procs g ! j \<noteq> proc" if "j < nat k" for j using k(4) that by (auto dest: spec [of _ "int j"])
  with k show ?thesis by auto
qed

section \<open>Properties\<close>

text \<open>C13: In every sparse format, translating a rank of the child to the parent and back gives the rank
  again; a parent rank that is not a member translates to MPI_UNDEFINED; and a translation of a parent rank
  to the child that is not MPI_UNDEFINED is a rank of the child and translates back to that parent rank.\<close>

theorem group_translation_roundtrip:
  assumes "sparse_group g"
  shows "(\<forall>i. 0 \<le> i \<and> i < grp_proc_count g \<longrightarrow>
            (\<exists>r. translate_to_parent g 1 [i] [old] = Some [r] \<and> 0 \<le> r \<and> r < parent_size g \<and>
                 translate_to_child 1 [r] g [old'] = Some [i])) \<and>
         (\<forall>r. 0 \<le> r \<and> r < parent_size g \<longrightarrow>
            (\<exists>c. translate_to_child 1 [r] g [old'] = Some [c] \<and>
                 (if r \<in> set (child_ranks g)
                  then 0 \<le> c \<and> c < grp_proc_count g \<and> translate_to_parent g 1 [c] [old] = Some [r]
                  else c = MPI_UNDEFINED)))"
proof -
  note rt = grt.up_nth [OF assms] grt.down_nth [OF assms] grt.down_other [OF assms]
  have len: "int (length (child_ranks g)) = grp_proc_count g"
    using assms by (rule sparse_groupE) (rule child_ranks_wf(2))
  have "\<exists>r. translate_to_parent g 1 [i] [old] = Some [r] \<and> 0 \<le> r \<and> r < parent_size g \<and> translate_to_child 1 [r] g [old'] = Some [i]"
    if i: "0 \<le> i" "i < grp_proc_count g" for i
    using grt.down_up [OF assms, of "nat i" old old'] grt.ranks_range [OF assms, of "child_ranks g ! nat i"] rt(1) [of "nat i" old]
      i len by auto
  moreover have "\<exists>c. translate_to_child 1 [r] g [old'] = Some [c] \<and>
      (if r \<in> set (child_ranks g) then 0 \<le> c \<and> c < grp_proc_count g \<and> translate_to_parent g 1 [c] [old] = Some [r]
       else c = MPI_UNDEFINED)" if r: "0 \<le> r" "r < parent_size g" for r
  proof (cases "r \<in> set (child_ranks g)")
    case True
    then obtain i where i: "i < length (child_ranks g)" "child_ranks g ! i = r" by (auto simp: in_set_conv_nth)
    then show ?thesis using rt(1) [OF i(1), of old] rt(2) [OF i(1), of old'] len True by (intro exI [of _ "int i"]) auto
  next
    case False
    then show ?thesis using rt(3) [OF r, of old'] by simp
  qed
  ultimately show ?thesis by blast
qed

theorem group_translation_roundtrip_witness:
  "sparse_group (Group 2 3 0 (Strided (Group 1 7 0 (Dense [10, 11, 12, 13, 14, 15, 16 :: nat])) 2 1 5)) \<and>
   (\<exists>r. translate_to_parent (Group 2 3 0 (Strided (Group 1 7 0 (Dense [10, 11, 12, 13, 14, 15, 16 :: nat])) 2 1 5)) 1 [2] [0] = Some [r] \<and>
        translate_to_child 1 [r] (Group 2 3 0 (Strided (Group 1 7 0 (Dense [10, 11, 12, 13, 14, 15, 16 :: nat])) 2 1 5)) [0] = Some [2])"
proof -
  let ?g = "Group 2 3 0 (Strided (Group 1 7 0 (Dense [10, 11, 12, 13, 14, 15, 16 :: nat])) 2 1 5)"
  have "sparse_group ?g" by (simp add: sparse_group_def sparse_wf_def grp_parent_group_ptr_def)
  moreover from group_translation_roundtrip [OF this, of 0 0]
  have "\<exists>r. translate_to_parent ?g 1 [2] [0] = Some [r] \<and> 0 \<le> r \<and> r < parent_size ?g \<and> translate_to_child 1 [r] ?g [0] = Some [2]"
    by (elim conjE allE [of _ 2]) simp
  ultimately show ?thesis by blast
qed

end
