(* ===== verification/Group_Incl.thy ===== *)
theory Group_Incl
  imports Group
begin

unbundle bit_operations_syntax

text \<open>
  Building a group from ranks of another one (\<^verbatim>\<open>ompi_group_incl\<close>): the space each storage
  format needs, the choice of the smallest, and the four constructors. Reference counts of the processes
  are the state \<open>rc\<close>, which the constructors thread; \<open>addr\<close> is where the new structure is
  allocated, \<open>Null\<close> when \<^verbatim>\<open>OBJ_NEW\<close> or the allocation behind it fails. \<open>junk\<close> is the
  value of uninitialised integers, \<open>junkp\<close> of uninitialised process pointers and \<open>before\<close> what
  stands in front of the array of ranks, which two of the loops read: \<open>None\<close> where the read has no
  result, \<open>Some v\<close> where the memory is readable and \<open>v\<close> can be incremented. C leaves the read
  undefined; the theorems assume it readable and hold for every value. A result \<open>Inl\<close> is the error code
  returned, \<open>Inr\<close> the new group of a call that returns success; the outer \<open>None\<close> is undefined
  behaviour.

  The theorems say that all four formats describe the same group: the processes of the new group are those
  of the ranks, in order, and the rank of the calling process in it is right.
\<close>

type_synonym 'p refcounts = "'p \<Rightarrow> nat"
type_synonym 'p new_group = "('p refcounts \<times> (int + 'p ompi_group)) option"

definition MPI_ERR_GROUP :: int where [opal_rc]: "MPI_ERR_GROUP = 9"

section \<open>Sizes of the formats\<close>

definition ompi_group_calc_plist :: "int \<Rightarrow> int" where
  "ompi_group_calc_plist n = int_of_size_t (size_t_of (8 * n))"

definition check_stride :: "int list \<Rightarrow> int \<Rightarrow> int option" where
  "check_stride incl incllen = do {
     s \<leftarrow> (if incllen > 1 then do { a \<leftarrow> aget incl 1; b \<leftarrow> aget incl 0; Some (a - b) } else Some 1);
     if s < 0 then Some (- 1)
     else do {
       i \<leftarrow> find_loop 0 (incllen - 1) (\<lambda>i. do { a \<leftarrow> aget incl (i + 1); b \<leftarrow> aget incl i; Some (a - b \<noteq> s) });
       Some (if i < incllen - 1 then - 1 else s) } }"

definition ompi_group_calc_strided :: "int \<Rightarrow> int list \<Rightarrow> int option" where
  "ompi_group_calc_strided n ranks = do {
     s \<leftarrow> check_stride ranks n;
     Some (if - 1 = s then - 1 else 12) }"

definition ranks_at :: "int option \<Rightarrow> int list \<Rightarrow> int \<Rightarrow> int option" where
  "ranks_at before ranks i = (if i = - 1 then before else aget ranks i)"

definition count_ranges :: "int option \<Rightarrow> int \<Rightarrow> int list \<Rightarrow> int option" where
  "count_ranges before n ranks =
     for_loop 0 n
       (\<lambda>i l. do {
          r \<leftarrow> aget ranks i;
          q \<leftarrow> ranks_at before ranks (i - 1);
          Some (if r = q + 1 then (if l = 0 then l + 1 else l) else l + 1) }) 0"

definition ompi_group_calc_sporadic :: "int option \<Rightarrow> int \<Rightarrow> int list \<Rightarrow> int option" where
  "ompi_group_calc_sporadic before n ranks = do {
     l \<leftarrow> count_ranges before n ranks;
     Some (int_of_size_t (size_t_of (8 * l))) }"

definition ompi_group_div_ceil :: "int \<Rightarrow> int \<Rightarrow> int" where
  "ompi_group_div_ceil num den = (if 0 = num smod den then num sdiv den else num sdiv den + 1)"

definition check_ranks :: "int \<Rightarrow> int list \<Rightarrow> bool option" where
  "check_ranks n ranks = do {
     i \<leftarrow> find_loop 1 n (\<lambda>i. do { a \<leftarrow> aget ranks (i - 1); b \<leftarrow> aget ranks i; Some (a > b) });
     Some (\<not> i < n) }"

definition ompi_group_calc_bmap :: "int \<Rightarrow> int \<Rightarrow> int list \<Rightarrow> int option" where
  "ompi_group_calc_bmap n orig_size ranks = do {
     b \<leftarrow> check_ranks n ranks;
     Some (if b then ompi_group_div_ceil orig_size BSIZE else - 1) }"

text \<open>The smallest entry that is not \<open>-1\<close>, and the first one of these; entry 0 is taken as it is.\<close>

definition ompi_group_minloc :: "int list \<Rightarrow> int \<Rightarrow> int option" where
  "ompi_group_minloc list len = do {
     m \<leftarrow> aget list 0;
     (mn, index) \<leftarrow> for_loop 0 len
       (\<lambda>i (mn, index). do {
          v \<leftarrow> aget list i;
          Some (if mn > v \<and> v \<noteq> - 1 then (v, i) else (mn, index)) }) (m, 0);
     Some index }"

section \<open>Allocation, reference counts and the calling process\<close>

definition ompi_group_allocate :: "nat ptr \<Rightarrow> 'p \<Rightarrow> int \<Rightarrow> 'p ompi_group ptr" where
  "ompi_group_allocate addr junkp group_size =
     (case addr of
        Null \<Rightarrow> Null
      | Ptr a \<Rightarrow> Ptr (Group a group_size MPI_UNDEFINED (Dense (replicate (nat group_size) junkp))))"

text \<open>The sparse formats get their parent and their content from the caller: what is allocated here is the
  address and the array.\<close>

definition ompi_group_allocate_sporadic :: "nat ptr \<Rightarrow> int \<Rightarrow> int \<Rightarrow> (nat \<times> (int \<times> int) list) ptr" where
  "ompi_group_allocate_sporadic addr junk group_size =
     (case addr of Null \<Rightarrow> Null | Ptr a \<Rightarrow> Ptr (a, replicate (nat group_size) (junk, junk)))"

definition ompi_group_allocate_strided :: "nat ptr \<Rightarrow> nat ptr" where
  "ompi_group_allocate_strided addr = addr"

definition ompi_group_allocate_bmap :: "nat ptr \<Rightarrow> 8 word \<Rightarrow> int \<Rightarrow> (nat \<times> 8 word list \<times> int) ptr" where
  "ompi_group_allocate_bmap addr junkb orig_group_size =
     (case addr of
        Null \<Rightarrow> Null
      | Ptr a \<Rightarrow> Ptr (a, replicate (nat (ompi_group_div_ceil orig_group_size BSIZE)) junkb,
                     ompi_group_div_ceil orig_group_size BSIZE))"

definition ompi_group_increment_proc_count :: "int \<Rightarrow> 'p ompi_group \<Rightarrow> 'p refcounts \<Rightarrow> 'p refcounts option" where
  "ompi_group_increment_proc_count junk g rc =
     for_loop 0 (grp_proc_count g)
       (\<lambda>proc rc. do { p \<leftarrow> ompi_group_peer_lookup junk g proc; Some (rc(p := rc p + 1)) }) rc"

definition ompi_group_decrement_proc_count :: "int \<Rightarrow> 'p ompi_group \<Rightarrow> 'p refcounts \<Rightarrow> 'p refcounts option" where
  "ompi_group_decrement_proc_count junk g rc =
     for_loop 0 (grp_proc_count g)
       (\<lambda>proc rc. do { p \<leftarrow> ompi_group_peer_lookup junk g proc; Some (rc(p := rc p - 1)) }) rc"

definition set_my_rank :: "'p ompi_group \<Rightarrow> int \<Rightarrow> 'p ompi_group" where
  "set_my_rank g r = Group (grp_addr g) (grp_proc_count g) r (grp_storage g)"

definition ompi_set_group_rank :: "int \<Rightarrow> 'p ompi_group \<Rightarrow> 'p \<Rightarrow> 'p ompi_group option" where
  "ompi_set_group_rank junk g proc_pointer = do {
     r \<leftarrow> for_loop 0 (grp_proc_count g)
            (\<lambda>proc r. do { p \<leftarrow> ompi_group_peer_lookup junk g proc; Some (if p = proc_pointer then proc else r) })
            MPI_UNDEFINED;
     Some (set_my_rank g r) }"

text \<open>The last step of the sparse constructors: \<open>grp_my_rank\<close> of the new group is the translation of
  the rank in the old one.\<close>

definition translate_my_rank :: "int \<Rightarrow> 'p ompi_group \<Rightarrow> 'p ompi_group \<Rightarrow> 'p ompi_group option" where
  "translate_my_rank junk group_pointer new_group_pointer = do {
     rs \<leftarrow> ompi_group_translate_ranks junk group_pointer 1 [grp_my_rank group_pointer] new_group_pointer
             [grp_my_rank new_group_pointer];
     r \<leftarrow> aget rs 0;
     Some (set_my_rank new_group_pointer r) }"

definition retain_sparse :: "int \<Rightarrow> 'p ompi_group \<Rightarrow> 'p ompi_group \<Rightarrow> 'p refcounts \<Rightarrow> 'p new_group" where
  "retain_sparse junk group_pointer new_group_pointer rc = do {
     rc \<leftarrow> ompi_group_increment_proc_count junk group_pointer rc;
     rc \<leftarrow> ompi_group_increment_proc_count junk new_group_pointer rc;
     g \<leftarrow> translate_my_rank junk group_pointer new_group_pointer;
     Some (rc, Inr g) }"

section \<open>The constructors\<close>

definition ompi_group_incl_plist ::
    "int \<Rightarrow> 'p \<Rightarrow> nat ptr \<Rightarrow> 'p ompi_group \<Rightarrow> int \<Rightarrow> int list \<Rightarrow> 'p refcounts \<Rightarrow> 'p new_group" where
  "ompi_group_incl_plist junk junkp addr grp n ranks rc =
     (if 0 = n then Some (rc, Inr MPI_GROUP_EMPTY)
      else case ompi_group_allocate addr junkp n of
        Null \<Rightarrow> Some (rc, Inl MPI_ERR_GROUP)
      | Ptr new \<Rightarrow> do {
          procs \<leftarrow> for_loop 0 n
            (\<lambda>proc a. do { r \<leftarrow> aget ranks proc; p \<leftarrow> ompi_group_peer_lookup junk grp r; aset a proc p })
            (case grp_storage new of Dense a \<Rightarrow> a | _ \<Rightarrow> []);
          new \<leftarrow> Some (Group (grp_addr new) (grp_proc_count new) (grp_my_rank new) (Dense procs));
          rc \<leftarrow> ompi_group_increment_proc_count junk new rc;
          new \<leftarrow> (if MPI_UNDEFINED \<noteq> grp_my_rank grp then do {
                   p \<leftarrow> ompi_group_peer_lookup junk grp (grp_my_rank grp);
                   ompi_set_group_rank junk new p }
                 else Some (set_my_rank new MPI_UNDEFINED));
          Some (rc, Inr new) })"

definition ompi_group_incl_strided ::
    "int \<Rightarrow> nat ptr \<Rightarrow> 'p ompi_group \<Rightarrow> int \<Rightarrow> int list \<Rightarrow> 'p refcounts \<Rightarrow> 'p new_group" where
  "ompi_group_incl_strided junk addr grp n ranks rc =
     (if 0 = n then Some (rc, Inr MPI_GROUP_EMPTY)
      else do {
        stride \<leftarrow> check_stride ranks n;
        case ompi_group_allocate_strided addr of
          Null \<Rightarrow> Some (rc, Inl MPI_ERR_GROUP)
        | Ptr a \<Rightarrow> do {
            ofs \<leftarrow> aget ranks 0;
            l \<leftarrow> aget ranks (n - 1);
            retain_sparse junk grp (Group a n MPI_UNDEFINED (Strided grp stride ofs l)) rc } })"

definition fill_ranges :: "int \<Rightarrow> int list \<Rightarrow> (int \<times> int) list \<Rightarrow> ((int \<times> int) list \<times> int) option" where
  "fill_ranges n ranks es = do {
     r0 \<leftarrow> aget ranks 0;
     es \<leftarrow> aset es 0 (r0, 1);
     for_loop 1 n
       (\<lambda>i (es, j). do {
          r \<leftarrow> aget ranks i;
          q \<leftarrow> aget ranks (i - 1);
          if r = q + 1 then do {
            (f, len) \<leftarrow> aget es j;
            es \<leftarrow> aset es j (f, len + 1);
            Some (es, j) }
          else do {
            es \<leftarrow> aset es (j + 1) (r, 1);
            Some (es, j + 1) } }) (es, 0) }"

definition ompi_group_incl_spor ::
    "int option \<Rightarrow> int \<Rightarrow> nat ptr \<Rightarrow> 'p ompi_group \<Rightarrow> int \<Rightarrow> int list \<Rightarrow> 'p refcounts \<Rightarrow> 'p new_group" where
  "ompi_group_incl_spor before junk addr grp n ranks rc =
     (if 0 = n then Some (rc, Inr MPI_GROUP_EMPTY)
      else do {
        l \<leftarrow> count_ranges before n ranks;
        case ompi_group_allocate_sporadic addr junk l of
          Null \<Rightarrow> Some (rc, Inl MPI_ERR_GROUP)
        | Ptr (a, es) \<Rightarrow> do {
            (es, j) \<leftarrow> fill_ranges n ranks es;
            proc_count \<leftarrow> for_loop 0 (j + 1) (\<lambda>i c. do { (f, len) \<leftarrow> aget es i; Some (c + len) }) 0;
            retain_sparse junk grp (Group a proc_count MPI_UNDEFINED (Sporadic grp es (j + 1))) rc } })"

definition bmap_set_bits :: "int \<Rightarrow> int list \<Rightarrow> 8 word list \<Rightarrow> 8 word list option" where
  "bmap_set_bits n ranks arr =
     for_loop 0 n
       (\<lambda>i arr. do {
          r \<leftarrow> aget ranks i;
          if r smod BSIZE < 0 then None
          else do {
            b \<leftarrow> aget arr (r sdiv BSIZE);
            aset arr (r sdiv BSIZE) (b OR push_bit (nat (r smod BSIZE)) 1) } }) arr"

definition ompi_group_incl_bmap ::
    "int \<Rightarrow> 8 word \<Rightarrow> nat ptr \<Rightarrow> 'p ompi_group \<Rightarrow> int \<Rightarrow> int list \<Rightarrow> 'p refcounts \<Rightarrow> 'p new_group" where
  "ompi_group_incl_bmap junk junkb addr grp n ranks rc =
     (if 0 = n then Some (rc, Inr MPI_GROUP_EMPTY)
      else case ompi_group_allocate_bmap addr junkb (grp_proc_count grp) of
        Null \<Rightarrow> Some (rc, Inl MPI_ERR_GROUP)
      | Ptr (a, arr, len) \<Rightarrow> do {
          arr \<leftarrow> for_loop 0 len (\<lambda>i arr. aset arr i 0) arr;
          arr \<leftarrow> bmap_set_bits n ranks arr;
          retain_sparse junk grp (Group a n MPI_UNDEFINED (Bitmap grp arr len)) rc })"

text \<open>\<open>sparse\<close> is \<^verbatim>\<open>ompi_use_sparse_group_storage\<close>.\<close>

definition ompi_group_incl ::
    "bool \<Rightarrow> int option \<Rightarrow> int \<Rightarrow> 'p \<Rightarrow> 8 word \<Rightarrow> nat ptr \<Rightarrow> 'p ompi_group \<Rightarrow> int \<Rightarrow> int list \<Rightarrow> 'p refcounts \<Rightarrow> 'p new_group" where
  "ompi_group_incl sparse before junk junkp junkb addr grp n ranks rc = do {
     method \<leftarrow> (if sparse then do {
                  len1 \<leftarrow> ompi_group_calc_strided n ranks;
                  len2 \<leftarrow> ompi_group_calc_sporadic before n ranks;
                  len3 \<leftarrow> ompi_group_calc_bmap n (grp_proc_count grp) ranks;
                  ompi_group_minloc [ompi_group_calc_plist n, len1, len2, len3] 4 }
                else Some 0);
     if method = 0 then ompi_group_incl_plist junk junkp addr grp n ranks rc
     else if method = 1 then ompi_group_incl_strided junk addr grp n ranks rc
     else if method = 2 then ompi_group_incl_spor before junk addr grp n ranks rc
     else ompi_group_incl_bmap junk junkb addr grp n ranks rc }"

section \<open>Groups of a process\<close>

text \<open>
  \<open>grp_ok me g\<close>: a well-formed group of distinct processes in which \<open>grp_my_rank\<close> is the rank of
  the calling process \<open>me\<close>, and whose structure is the predefined empty one when it has no process.
\<close>

definition my_rank_ok :: "'p \<Rightarrow> 'p ompi_group \<Rightarrow> bool" where
  "my_rank_ok me g \<longleftrightarrow>
     (if me \<in> set (grp_procs g)
      then 0 \<le> grp_my_rank g \<and> grp_my_rank g < grp_proc_count g \<and> grp_procs g ! nat (grp_my_rank g) = me
      else grp_my_rank g = MPI_UNDEFINED)"

definition grp_ok :: "'p \<Rightarrow> 'p ompi_group \<Rightarrow> bool" where
  "grp_ok me g \<longleftrightarrow>
     grp_wf g \<and> distinct (grp_procs g) \<and> my_rank_ok me g \<and> (grp_proc_count g = 0 \<longrightarrow> grp_addr g = 0)"

text \<open>A fresh structure is none of those the groups live in.\<close>

definition fresh_addr :: "nat \<Rightarrow> 'p ompi_group \<Rightarrow> bool" where
  "fresh_addr a g \<longleftrightarrow>
     a \<noteq> 0 \<and> a \<noteq> grp_addr g \<and> (case grp_parent_group_ptr g of Null \<Rightarrow> True | Ptr p \<Rightarrow> a \<noteq> grp_addr p)"

definition retain_all :: "'p list \<Rightarrow> 'p refcounts \<Rightarrow> 'p refcounts" where
  "retain_all ps rc = (\<lambda>p. rc p + count_list ps p)"

lemma grp_ok_empty: "grp_ok me MPI_GROUP_EMPTY"
  by (simp add: grp_ok_def my_rank_ok_def MPI_GROUP_EMPTY_def)

lemma grp_procs_empty [simp]: "grp_procs MPI_GROUP_EMPTY = []"
  by (simp add: MPI_GROUP_EMPTY_def)

lemma set_my_rank_simps [simp]:
  "grp_my_rank (set_my_rank g r) = r" "grp_procs (set_my_rank g r) = grp_procs g"
  "grp_proc_count (set_my_rank g r) = grp_proc_count g" "grp_addr (set_my_rank g r) = grp_addr g"
  "grp_storage (set_my_rank g r) = grp_storage g" "grp_wf (set_my_rank g r) = grp_wf g"
  by (cases g; simp add: set_my_rank_def)+

lemma retain_all_fold: "fold (\<lambda>p rc. rc(p := Suc (rc p))) ps rc = retain_all ps rc"
  by (induction ps arbitrary: rc) (auto simp: retain_all_def)

lemma increment_ok:
  assumes "grp_wf g"
  shows "ompi_group_increment_proc_count junk g rc = Some (retain_all (grp_procs g) rc)"
proof -
  let ?n = "length (grp_procs g)"
  have n: "grp_proc_count g = int ?n" using length_grp_procs [OF assms] by simp
  have "ompi_group_increment_proc_count junk g rc =
        Some (fold (\<lambda>k rc. rc(grp_procs g ! k := rc (grp_procs g ! k) + 1)) [0..<?n] rc)"
    unfolding ompi_group_increment_proc_count_def n
    by (rule for_loop_fold) (use peer_lookup_ok [OF assms] n in simp)
  then show ?thesis
    using fold_upt_nth [of "\<lambda>p rc. rc(p := rc p + 1)" "grp_procs g" rc] by (simp add: retain_all_fold)
qed

lemma fold_last_index:
  "let r = fold (\<lambda>k r. if xs ! k = p then int k else r) [0..<n] u in
   if \<exists>j<n. xs ! j = p then 0 \<le> r \<and> r < int n \<and> xs ! nat r = p else r = u"
  by (induction n) (auto simp: Let_def less_Suc_eq split: if_splits)

lemma set_group_rank_ok:
  assumes "grp_wf g"
  shows "\<exists>r. ompi_set_group_rank junk g me = Some (set_my_rank g r) \<and> my_rank_ok me (set_my_rank g r)"
proof -
  let ?n = "length (grp_procs g)"
  let ?r = "fold (\<lambda>k r. if grp_procs g ! k = me then int k else r) [0..<?n] MPI_UNDEFINED"
  have n: "grp_proc_count g = int ?n" using length_grp_procs [OF assms] by simp
  have "ompi_set_group_rank junk g me = Some (set_my_rank g ?r)"
    unfolding ompi_set_group_rank_def n
    by (subst for_loop_fold [where g = "\<lambda>k r. if grp_procs g ! k = me then int k else r"])
      (use peer_lookup_ok [OF assms] n in auto)
  moreover have "my_rank_ok me (set_my_rank g ?r)"
    using fold_last_index [of "grp_procs g" me ?n MPI_UNDEFINED] n
    by (auto simp: my_rank_ok_def Let_def in_set_conv_nth split: if_splits)
  ultimately show ?thesis by blast
qed


section \<open>The last step of the sparse constructors\<close>

lemma rank_down_undefined:
  assumes "sparse_group new" and "\<And>p arr len. grp_storage new \<noteq> Bitmap p arr len"
  shows "translate_to_child 1 [MPI_UNDEFINED] new [old] = Some [MPI_UNDEFINED]"
proof (cases "grp_storage new")
  case (Strided p s ofs l)
  have "0 \<le> ofs" using assms(1) Strided by (cases new) (simp add: sparse_group_def sparse_wf_def)
  then show ?thesis using Strided
    by (simp add: translate_to_child_def ompi_group_translate_ranks_strided_def translate_loop_one strided_down_def opal_rc)
next
  case (Sporadic p arr len)
  have "MPI_UNDEFINED \<notin> set (child_ranks new)" using grt.ranks_range [OF assms(1)] by (force simp: opal_rc)
  moreover have "len \<le> int (length arr)" using assms(1) Sporadic by (cases new) (simp add: sparse_group_def sparse_wf_def)
  ultimately show ?thesis using Sporadic
    by (simp add: translate_to_child_def ompi_group_translate_ranks_sporadic_def translate_loop_one spor_entries_def
        child_ranks_def spor_down_other MPI_UNDEFINED_def MPI_PROC_NULL_def)
qed (use assms in \<open>auto simp: sparse_group_def grp_parent_group_ptr_def\<close>)

lemma translate_my_rank_ok:
  assumes new: "sparse_group new" "grp_parent_group_ptr new = Ptr g" "0 < grp_proc_count new"
    and g: "grp_ok me g" and fresh: "fresh_addr (grp_addr new) g"
    and bm: "me \<in> set (grp_procs g) \<or> (\<forall>p arr len. grp_storage new \<noteq> Bitmap p arr len)"
  shows "\<exists>r. translate_my_rank junk g new = Some (set_my_rank new r) \<and> my_rank_ok me (set_my_rank new r)"
proof -
  obtain p :: "'a ompi_group" where p: "parent_size new = grp_proc_count g" "grp_addr g \<noteq> 0"
    "sparse_wf (grp_proc_count new) (grp_proc_count g) (grp_storage new)"
    using new(1) by (rule sparse_groupE) (use new(2) in simp)
  note step = sparse_step(1) [OF new(1,2)] and len = child_ranks_wf(2) [OF p(3)]
  have g': "grp_wf g" "distinct (grp_procs g)" "my_rank_ok me g" using g by (simp_all add: grp_ok_def)
  have lg: "int (length (grp_procs g)) = grp_proc_count g" using length_grp_procs [OF g'(1)] .
  have tr: "ompi_group_translate_ranks junk g 1 [grp_my_rank g] new [grp_my_rank new] =
            translate_to_child 1 [grp_my_rank g] new [grp_my_rank new]"
    using fresh new(2) p(2)
    by (auto simp: ompi_group_translate_ranks_def is_group_empty_def MPI_GROUP_EMPTY_def same_group_def fresh_addr_def split: ptr.splits)
  have mem: "grp_procs g ! nat r = me \<longleftrightarrow> r = grp_my_rank g" if "r \<in> set (child_ranks new)" "me \<in> set (grp_procs g)" for r
    using that g'(2,3) lg grt.ranks_range [OF new(1) that(1)] p(1)
    by (auto simp: my_rank_ok_def nth_eq_iff_index_eq)
  have "\<exists>r. translate_to_child 1 [grp_my_rank g] new [grp_my_rank new] = Some [r] \<and> my_rank_ok me (set_my_rank new r)"
  proof (cases "me \<in> set (grp_procs g)")
    case False
    then have "grp_my_rank g = MPI_UNDEFINED" "me \<notin> set (grp_procs new)"
      using g'(3) grt.ranks_range [OF new(1)] p(1) lg step by (force simp: my_rank_ok_def)+
    then show ?thesis using rank_down_undefined [OF new(1)] bm False by (simp add: my_rank_ok_def)
  next
    case True
    then have my: "0 \<le> grp_my_rank g" "grp_my_rank g < parent_size new" using g'(3) p(1) by (auto simp: my_rank_ok_def)
    show ?thesis
    proof (cases "grp_my_rank g \<in> set (child_ranks new)")
      case False
      then have "me \<notin> set (grp_procs new)" using step mem True by auto
      then show ?thesis using grt.down_other [OF new(1) my False] by (simp add: my_rank_ok_def)
    next
      case inn: True
      then obtain i where i: "i < length (child_ranks new)" "child_ranks new ! i = grp_my_rank g" by (auto simp: in_set_conv_nth)
      then have "grp_procs new ! i = me" "i < length (grp_procs new)" using step mem [OF inn True] by auto
      then have "my_rank_ok me (set_my_rank new (int i))" using i len by (auto simp: my_rank_ok_def in_set_conv_nth)
      then show ?thesis using grt.down_nth [OF new(1) i(1)] i(2) by auto
    qed
  qed
  then show ?thesis by (auto simp: translate_my_rank_def tr aget_def)
qed


text \<open>What a constructor owes: the processes of the listed ranks, in order.\<close>

definition incl_post :: "'p \<Rightarrow> 'p ompi_group \<Rightarrow> int list \<Rightarrow> 'p new_group \<Rightarrow> bool" where
  "incl_post me g ranks result \<longleftrightarrow>
     (case result of
        Some (rc, Inr new) \<Rightarrow> grp_ok me new \<and> grp_procs new = map (\<lambda>r. grp_procs g ! nat r) ranks
      | _ \<Rightarrow> False)"

definition incl_pre :: "'p \<Rightarrow> nat \<Rightarrow> 'p ompi_group \<Rightarrow> int list \<Rightarrow> bool" where
  "incl_pre me a g ranks \<longleftrightarrow>
     grp_ok me g \<and> fresh_addr a g \<and> distinct ranks \<and> (\<forall>r \<in> set ranks. 0 \<le> r \<and> r < grp_proc_count g)"

lemma incl_post_iff:
  "incl_post me g ranks result \<longleftrightarrow>
   (\<exists>rc new. result = Some (rc, Inr new) \<and> grp_ok me new \<and> grp_procs new = map (\<lambda>r. grp_procs g ! nat r) ranks)"
  by (auto simp: incl_post_def split: option.splits sum.splits)

lemma incl_post_empty [simp]: "incl_post me g [] (Some (rc, Inr MPI_GROUP_EMPTY))"
  by (simp add: incl_post_def grp_ok_empty)

lemma distinct_incl_procs:
  assumes "incl_pre me a g ranks"
  shows "distinct (map (\<lambda>r. grp_procs g ! nat r) ranks)"
proof -
  have g: "grp_wf g" "distinct (grp_procs g)" and r: "distinct ranks" "\<forall>r \<in> set ranks. 0 \<le> r \<and> r < grp_proc_count g"
    using assms by (simp_all add: incl_pre_def grp_ok_def)
  have "inj_on (\<lambda>r. grp_procs g ! nat r) (set ranks)"
  proof (rule inj_onI)
    fix x y assume xy: "x \<in> set ranks" "y \<in> set ranks" "grp_procs g ! nat x = grp_procs g ! nat y"
    then have b: "0 \<le> x" "0 \<le> y" "x < grp_proc_count g" "y < grp_proc_count g" using r(2) by simp_all
    then have "nat x < length (grp_procs g)" "nat y < length (grp_procs g)" using length_grp_procs [OF g(1)] by linarith+
    then show "x = y" using xy(3) b nth_eq_iff_index_eq [OF g(2)] by simp
  qed
  with r(1) show ?thesis by (simp add: distinct_map)
qed

lemma incl_pre_addr:
  assumes "incl_pre me a g ranks" and "ranks \<noteq> []"
  shows "grp_addr g \<noteq> 0"
proof -
  obtain r where "r \<in> set ranks" using assms(2) by (cases ranks) auto
  then have "0 < grp_proc_count g" using assms(1) by (fastforce simp: incl_pre_def)
  moreover have "grp_wf g" using assms(1) by (simp add: incl_pre_def grp_ok_def)
  ultimately show ?thesis by (cases g) auto
qed

lemma retain_sparse_ok:
  assumes pre: "incl_pre me a g ranks" and ne: "ranks \<noteq> []"
    and st: "sparse_wf n (grp_proc_count g) st" "grp_parent_group_ptr (Group a n MPI_UNDEFINED st) = Ptr g"
      "child_ranks (Group a n MPI_UNDEFINED st) = ranks"
    and bm: "me \<in> set (grp_procs g) \<or> (\<forall>p arr len. st \<noteq> Bitmap p arr len)"
  shows "incl_post me g ranks (retain_sparse junk g (Group a n MPI_UNDEFINED st) rc)"
proof -
  let ?new = "Group a n MPI_UNDEFINED st"
  have g: "grp_ok me g" "grp_wf g" "fresh_addr a g" using pre by (simp_all add: incl_pre_def grp_ok_def)
  have a: "a \<noteq> 0" using g(3) by (simp add: fresh_addr_def)
  have wf: "grp_wf ?new" using st(1,2) g(2) incl_pre_addr [OF pre ne] a by (cases st) (auto simp: grp_parent_group_ptr_def)
  then have new: "sparse_group ?new" using st(2) by (simp add: sparse_group_def)
  have n: "0 < n" using child_ranks_wf(2) [of ?new "grp_proc_count g"] st(1,3) ne by (auto dest: sym)
  note procs = sparse_step(1) [OF new st(2), unfolded st(3)]
  obtain r where r: "translate_my_rank junk g ?new = Some (set_my_rank ?new r)" "my_rank_ok me (set_my_rank ?new r)"
    using translate_my_rank_ok [OF new st(2) _ g(1), of junk] n g(3) bm by auto
  have "grp_ok me (set_my_rank ?new r)"
    using wf r(2) n distinct_incl_procs [OF pre] procs unfolding grp_ok_def by simp
  then show ?thesis
    using r procs by (simp add: retain_sparse_def increment_ok [OF g(2)] increment_ok [OF wf] incl_post_def)
qed

section \<open>Strided\<close>

lemma check_stride_spec:
  "\<exists>s. check_stride ranks (int (length ranks)) = Some s \<and>
       (s \<noteq> - 1 \<longrightarrow> 0 \<le> s \<and> (\<forall>i. Suc i < length ranks \<longrightarrow> ranks ! Suc i - ranks ! i = s))"
proof -
  let ?n = "length ranks"
  define s where "s = (if int ?n > 1 then ranks ! 1 - ranks ! 0 else 1)"
  have first: "(if int ?n > 1 then do { a \<leftarrow> aget ranks 1; b \<leftarrow> aget ranks 0; Some (a - b) } else Some 1) = Some s"
    by (simp add: s_def aget_def)
  show ?thesis
  proof (cases "s < 0 \<or> ?n = 0")
    case True
    then show ?thesis unfolding check_stride_def first by (auto simp: s_def find_loop.simps)
  next
    case False
    then have "0 \<le> int ?n - 1" by auto
    then obtain i where i: "find_loop 0 (int ?n - 1)
        (\<lambda>i. do { a \<leftarrow> aget ranks (i + 1); b \<leftarrow> aget ranks i; Some (a - b \<noteq> s) }) = Some i" "i \<le> int ?n - 1"
      "\<forall>k. 0 \<le> k \<and> k < i \<longrightarrow> ranks ! nat (k + 1) - ranks ! nat k = s"
      using find_loop_spec [of 0 "int ?n - 1" "\<lambda>i. do { a \<leftarrow> aget ranks (i + 1); b \<leftarrow> aget ranks i; Some (a - b \<noteq> s) }"
          "\<lambda>k. ranks ! nat (k + 1) - ranks ! nat k \<noteq> s"] by (auto simp: aget_def)
    have "ranks ! Suc k - ranks ! k = s" if "\<not> i < int ?n - 1" "Suc k < ?n" for k
      using i(3) [rule_format, of "int k"] that by (simp add: nat_add_distrib)
    then show ?thesis unfolding check_stride_def first using False i(1) by simp
  qed
qed

lemma strided_ranks_eq:
  assumes "\<forall>i. Suc i < length ranks \<longrightarrow> ranks ! Suc i - ranks ! i = s" and "ranks \<noteq> []"
  shows "strided_ranks s (ranks ! 0) (int (length ranks)) = ranks"
proof -
  have "i < length ranks \<Longrightarrow> ranks ! i = ranks ! 0 + s * int i" for i
  proof (induction i)
    case (Suc i)
    then have "ranks ! Suc i = ranks ! i + s" using assms(1) by (metis diff_add_cancel add.commute)
    then show ?case using Suc by (simp add: algebra_simps)
  qed simp
  then show ?thesis by (intro nth_equalityI) (simp_all add: strided_ranks_def)
qed

lemma incl_strided_ok:
  assumes pre: "incl_pre me a g ranks" and s: "ompi_group_calc_strided (int (length ranks)) ranks \<noteq> Some (- 1)"
  shows "incl_post me g ranks (ompi_group_incl_strided junk (Ptr a) g (int (length ranks)) ranks rc)"
proof (cases "ranks = []")
  case False
  let ?n = "int (length ranks)"
  obtain s where st: "check_stride ranks ?n = Some s" "0 \<le> s" "\<forall>i. Suc i < length ranks \<longrightarrow> ranks ! Suc i - ranks ! i = s"
    using check_stride_spec [of ranks] s by (auto simp: ompi_group_calc_strided_def)
  note ranks = strided_ranks_eq [OF st(3) False]
  have rng: "r \<in> set ranks \<Longrightarrow> 0 \<le> r \<and> r < grp_proc_count g" for r using pre by (simp add: incl_pre_def)
  have last: "ranks ! (length ranks - 1) = ranks ! 0 + s * (?n - 1)"
    using arg_cong [OF ranks, of "\<lambda>xs. xs ! (length ranks - 1)"] False
    by (cases ranks) (simp_all add: strided_ranks_def)
  have "s \<noteq> 0"
  proof
    assume "s = 0"
    then have "length ranks = 1"
      using st(1,3) pre False nth_eq_iff_index_eq [of ranks 1 0] by (cases "length ranks") (auto simp: incl_pre_def check_stride_def find_loop.simps split: if_splits nat.splits)
    then show False using \<open>s = 0\<close> st(1) by (simp add: check_stride_def find_loop.simps)
  qed
  then have wf: "sparse_wf ?n (grp_proc_count g) (Strided g s (ranks ! 0) (ranks ! (length ranks - 1)))"
    using st(2) last rng [OF nth_mem, of 0] rng [OF nth_mem, of "length ranks - 1"] False
    by (cases ranks) (simp_all add: sparse_wf_def)
  have "incl_post me g ranks
      (retain_sparse junk g (Group a ?n MPI_UNDEFINED (Strided g s (ranks ! 0) (ranks ! (length ranks - 1)))) rc)"
    by (rule retain_sparse_ok [OF pre False wf]) (simp_all add: grp_parent_group_ptr_def child_ranks_def ranks)
  moreover have "aget ranks (?n - 1) = Some (ranks ! (length ranks - 1))" using False by (cases ranks) (simp_all add: aget_def)
  ultimately show ?thesis using False st(1)
    by (simp add: ompi_group_incl_strided_def ompi_group_allocate_strided_def aget_def)
qed (simp add: ompi_group_incl_strided_def)


section \<open>Sporadic\<close>

definition breaks :: "int list \<Rightarrow> nat \<Rightarrow> nat" where
  "breaks ranks i = length (filter (\<lambda>k. ranks ! k \<noteq> ranks ! (k - 1) + 1) [1..<i])"

lemma breaks_Suc: "1 \<le> i \<Longrightarrow> breaks ranks (Suc i) = breaks ranks i + (if ranks ! i = ranks ! (i - 1) + 1 then 0 else 1)"
  by (simp add: breaks_def)

lemma breaks_mono: "i \<le> j \<Longrightarrow> breaks ranks i \<le> breaks ranks j"
  by (induction j rule: dec_induct) (auto simp: breaks_def)

lemma count_ranges_ok:
  assumes "ranks \<noteq> []"
  shows "count_ranges (Some before) (int (length ranks)) ranks = Some (int (breaks ranks (length ranks)) + 1)"
proof -
  let ?P = "\<lambda>i l. l = (if i = 0 then 0 else int (breaks ranks (nat i)) + 1)"
  have "\<exists>l. count_ranges (Some before) (int (length ranks)) ranks = Some l \<and> ?P (int (length ranks)) l"
    unfolding count_ranges_def
  proof (rule for_loop_rule [where P = ?P])
    fix i l assume i: "0 \<le> i" "i < int (length ranks)" and l: "?P i l"
    show "\<exists>l'. (do { r \<leftarrow> aget ranks i; q \<leftarrow> ranks_at (Some before) ranks (i - 1);
                    Some (if r = q + 1 then (if l = 0 then l + 1 else l) else l + 1) }) = Some l' \<and> ?P (i + 1) l'"
    proof (cases "i = 0")
      case True
      then show ?thesis using i l by (simp add: aget_def ranks_at_def breaks_def)
    next
      case False
      define k where "k = nat i"
      have k: "i = int k" "1 \<le> k" "k < length ranks" using i False by (auto simp: k_def)
      then have "nat (i - 1) = k - 1" "nat (i + 1) = Suc k" by auto
      then show ?thesis using k l breaks_Suc [OF k(2), of ranks] by (simp add: aget_def ranks_at_def)
    qed
  qed simp_all
  then show ?thesis using assms by simp
qed

text \<open>The state after the ranks before \<open>i\<close>: the ranges up to the current one list exactly them.\<close>

definition ranges_inv :: "int list \<Rightarrow> int \<Rightarrow> (int \<times> int) list \<times> int \<Rightarrow> bool" where
  "ranges_inv ranks i = (\<lambda>(es, j).
     j = int (breaks ranks (nat i)) \<and> length es = Suc (breaks ranks (length ranks)) \<and>
     spor_ranks (take (Suc (nat j)) es) = take (nat i) ranks \<and>
     (\<forall>(f, k) \<in> set (take (Suc (nat j)) es). 1 \<le> k) \<and>
     fst (es ! nat j) + snd (es ! nat j) - 1 = ranks ! nat (i - 1))"

lemma spor_ranks_append: "spor_ranks (xs @ ys) = spor_ranks xs @ spor_ranks ys"
  by (simp add: spor_ranks_def)

lemma ranges_inv_extend:
  assumes "ranges_inv ranks (int i) (es, j)" and "1 \<le> i" and "i < length ranks" and "ranks ! i = ranks ! (i - 1) + 1"
  shows "ranges_inv ranks (int i + 1) (es[nat j := (fst (es ! nat j), snd (es ! nat j) + 1)], j)"
proof -
  define b where "b = nat j"
  obtain f k where fk: "es ! b = (f, k)" by (cases "es ! b")
  have h: "j = int b" "b = breaks ranks i" "length es = Suc (breaks ranks (length ranks))"
    "spor_ranks (take (Suc b) es) = take i ranks" "\<forall>(f, k) \<in> set (take (Suc b) es). 1 \<le> k" "f + k - 1 = ranks ! (i - 1)"
    using assms(1,2) fk by (auto simp: ranges_inv_def b_def nat_diff_distrib)
  have b: "b < length es" using h(2,3) breaks_mono [of i "length ranks" ranks] assms(3) by simp
  have n: "nat (int i + 1) = Suc i" "nat (int i + 1 - 1) = i" by simp_all
  have tk: "take (Suc b) es = take b es @ [(f, k)]" using b fk by (simp add: take_Suc_conv_app_nth)
  have k: "1 \<le> k" using h(5) tk by auto
  have "spor_ranks (take b es) @ [f..f + k] = take i ranks @ [f + k]"
    using h(4) tk k by (simp add: spor_ranks_append upto_rec2)
  moreover have "take (Suc i) ranks = take i ranks @ [f + k]"
    using assms(3,4) h(6) by (simp add: take_Suc_conv_app_nth)
  moreover have "take (Suc b) (es[b := (f, k + 1)]) = take b es @ [(f, k + 1)]"
    using b by (simp add: take_Suc_conv_app_nth)
  ultimately show ?thesis
    using h b n k tk fk assms(2,4) breaks_Suc [OF assms(2), of ranks]
    by (auto simp: ranges_inv_def spor_ranks_append)
qed

lemma ranges_inv_next:
  assumes "ranges_inv ranks (int i) (es, j)" and "1 \<le> i" and "i < length ranks" and "ranks ! i \<noteq> ranks ! (i - 1) + 1"
  shows "ranges_inv ranks (int i + 1) (es[nat (j + 1) := (ranks ! i, 1)], j + 1)" and "j + 1 < int (length es)"
proof -
  define b where "b = nat j"
  have h: "j = int b" "b = breaks ranks i" "length es = Suc (breaks ranks (length ranks))"
    "spor_ranks (take (Suc b) es) = take i ranks" "\<forall>(f, k) \<in> set (take (Suc b) es). 1 \<le> k"
    using assms(1,2) by (auto simp: ranges_inv_def b_def)
  have b': "breaks ranks (Suc i) = Suc b" using breaks_Suc [OF assms(2), of ranks] assms(4) h(2) by simp
  then have b: "Suc b < length es" using h(3) breaks_mono [of "Suc i" "length ranks" ranks] assms(3) by simp
  then show "j + 1 < int (length es)" using h(1) by simp
  have n: "nat (int i + 1) = Suc i" "nat (int i + 1 - 1) = i" "nat (j + 1) = Suc b" using h(1) by simp_all
  have "take (Suc (Suc b)) (es[Suc b := (ranks ! i, 1)]) = take (Suc b) es @ [(ranks ! i, 1)]"
    using b by (simp add: take_Suc_conv_app_nth [of "Suc b"])
  then show "ranges_inv ranks (int i + 1) (es[nat (j + 1) := (ranks ! i, 1)], j + 1)"
    using h b b' n assms(3) by (auto simp: ranges_inv_def spor_ranks_append take_Suc_conv_app_nth [of i ranks])
qed

lemma fill_ranges_ok:
  assumes "ranks \<noteq> []" and "length es = Suc (breaks ranks (length ranks))"
  shows "\<exists>s. fill_ranges (int (length ranks)) ranks es = Some s \<and> ranges_inv ranks (int (length ranks)) s"
proof -
  obtain e es' where es: "es = e # es'" using assms(2) by (cases es) auto
  let ?body = "\<lambda>i (es, j). do {
          r \<leftarrow> aget ranks i;
          q \<leftarrow> aget ranks (i - 1);
          if r = q + 1 then do { (f, len) \<leftarrow> aget es j; es \<leftarrow> aset es j (f, len + 1); Some (es, j) }
          else do { es \<leftarrow> aset es (j + 1) (r, 1); Some (es, j + 1) } }"
  have "\<exists>s. for_loop 1 (int (length ranks)) ?body (es[0 := (ranks ! 0, 1)], 0) = Some s \<and> ranges_inv ranks (int (length ranks)) s"
  proof (rule for_loop_rule)
    show "1 \<le> int (length ranks)" using assms(1) by (cases ranks) auto
    show "ranges_inv ranks 1 (es[0 := (ranks ! 0, 1)], 0)"
      using assms es by (cases ranks) (auto simp: ranges_inv_def breaks_def)
  next
    fix k s assume k: "1 \<le> k" "k < int (length ranks)" and inv: "ranges_inv ranks k s"
    obtain es j where s: "s = (es, j)" by (cases s)
    define i where "i = nat k"
    have i: "k = int i" "1 \<le> i" "i < length ranks" "nat (int i - 1) = i - 1" using k by (auto simp: i_def)
    have j: "0 \<le> j" "j < int (length es)"
      using inv s i breaks_mono [of i "length ranks" ranks] by (auto simp: ranges_inv_def)
    show "\<exists>s'. ?body k s = Some s' \<and> ranges_inv ranks (k + 1) s'"
    proof (cases "ranks ! i = ranks ! (i - 1) + 1")
      case True
      then show ?thesis using ranges_inv_extend [of ranks i es j] inv s i j
        by (cases "es ! nat j") (simp add: aget_def aset_def)
    next
      case False
      then show ?thesis using ranges_inv_next [of ranks i es j] inv s i j by (simp add: aget_def aset_def)
    qed
  qed
  then show ?thesis using assms(1) es by (simp add: fill_ranges_def aget_def aset_def)
qed

lemma spor_ranks_length: "(\<forall>(f, k) \<in> set es. 1 \<le> k) \<Longrightarrow> int (length (spor_ranks es)) = sum_list (map snd es)"
  by (induction es) auto

lemma fold_add_snd: "fold (\<lambda>e c. c + snd e) es c = c + (sum_list (map snd es) :: int)"
  by (induction es arbitrary: c) auto

lemma incl_spor_ok:
  assumes pre: "incl_pre me a g ranks"
  shows "incl_post me g ranks (ompi_group_incl_spor (Some before) junk (Ptr a) g (int (length ranks)) ranks rc)"
proof (cases "ranks = []")
  case False
  let ?n = "length ranks"
  let ?es0 = "replicate (nat (int (breaks ranks ?n) + 1)) (junk, junk)"
  obtain es j where f: "fill_ranges (int ?n) ranks ?es0 = Some (es, j)" and inv: "ranges_inv ranks (int ?n) (es, j)"
    using fill_ranges_ok [OF False, of ?es0] by (auto simp: nat_add_distrib)
  define b where "b = nat j"
  have h: "j = int b" "length es = Suc b" "spor_ranks es = ranks" "\<forall>(f, k) \<in> set es. 1 \<le> k"
    using inv by (auto simp: ranges_inv_def b_def)
  have cnt: "for_loop 0 (j + 1) (\<lambda>i c. do { (f, len) \<leftarrow> aget es i; Some (c + len) }) 0 = Some (int ?n)"
  proof -
    have "for_loop 0 (int (length es)) (\<lambda>i c. do { (f, len) \<leftarrow> aget es i; Some (c + len) }) 0 =
          Some (fold (\<lambda>k c. c + snd (es ! k)) [0..<length es] 0)"
      by (rule for_loop_fold) (simp add: aget_def split: prod.split)
    also have "fold (\<lambda>k c. c + snd (es ! k)) [0..<length es] 0 = sum_list (map snd es)"
      using fold_upt_nth [of "\<lambda>e c. c + snd e" es "0 :: int"] by (simp add: fold_add_snd)
    finally show ?thesis using h spor_ranks_length [OF h(4)] by (simp add: add.commute)
  qed
  have mem: "0 \<le> f \<and> 1 \<le> k \<and> f + k \<le> grp_proc_count g" if fk: "(f, k) \<in> set es" for f k
  proof -
    have k: "1 \<le> k" using h(4) fk by auto
    then have "set [f..f + k - 1] \<subseteq> set ranks" using fk h(3) by (force simp: spor_ranks_def)
    then have "f \<in> set ranks" "f + k - 1 \<in> set ranks" using k by auto
    then show ?thesis using pre k by (fastforce simp: incl_pre_def)
  qed
  have wf: "sparse_wf (int ?n) (grp_proc_count g) (Sporadic g es (j + 1))"
    using h mem pre by (auto simp: sparse_wf_def incl_pre_def nat_add_distrib)
  have "incl_post me g ranks (retain_sparse junk g (Group a (int ?n) MPI_UNDEFINED (Sporadic g es (j + 1))) rc)"
    by (rule retain_sparse_ok [OF pre False wf]) (simp_all add: grp_parent_group_ptr_def child_ranks_def h nat_add_distrib)
  then show ?thesis using False f cnt
    by (simp add: ompi_group_incl_spor_def count_ranges_ok [OF False] ompi_group_allocate_sporadic_def)
qed (simp add: ompi_group_incl_spor_def)


section \<open>Bitmap\<close>

lemma check_ranks_ok: "check_ranks (int (length ranks)) ranks = Some (sorted ranks)"
proof (cases "ranks = []")
  case False
  let ?t = "\<lambda>i. do { a \<leftarrow> aget ranks (i - 1); b \<leftarrow> aget ranks i; Some (a > b) }"
  let ?n = "int (length ranks)"
  have "1 \<le> ?n" using False by (cases ranks) auto
  then obtain i where i: "find_loop 1 ?n ?t = Some i" "1 \<le> i" "i \<le> ?n"
    "\<forall>k. 1 \<le> k \<and> k < i \<longrightarrow> \<not> ranks ! nat (k - 1) > ranks ! nat k" "i < ?n \<longrightarrow> ranks ! nat (i - 1) > ranks ! nat i"
    using find_loop_spec [of 1 ?n ?t "\<lambda>k. ranks ! nat (k - 1) > ranks ! nat k"] by (auto simp: aget_def)
  have "sorted ranks \<longleftrightarrow> \<not> i < ?n"
  proof
    show "\<not> i < ?n \<Longrightarrow> sorted ranks"
      unfolding sorted_iff_nth_Suc
    proof (intro allI impI)
      fix k assume "\<not> i < ?n" "Suc k < length ranks"
      then show "ranks ! k \<le> ranks ! Suc k" using i(4) [rule_format, of "int (Suc k)"] by (simp add: nat_add_distrib)
    qed
    show "sorted ranks \<Longrightarrow> \<not> i < ?n"
    proof
      assume s: "sorted ranks" "i < ?n"
      then have "ranks ! nat (i - 1) \<le> ranks ! nat i" using i(2) by (intro sorted_nth_mono) auto
      with i(5) s show False by simp
    qed
  qed
  then show ?thesis using i(1) by (simp add: check_ranks_def)
qed (simp add: check_ranks_def find_loop.simps)

lemma div_ceil_bsize: "0 \<le> m \<Longrightarrow> 0 \<le> ompi_group_div_ceil m BSIZE \<and> m \<le> 8 * ompi_group_div_ceil m BSIZE"
  by (auto simp: ompi_group_div_ceil_def BSIZE_def)

lemma bmap_set_bits_ok:
  assumes "\<forall>r \<in> set ranks. 0 \<le> r \<and> r < 8 * int N"
  shows "\<exists>arr. bmap_set_bits (int (length ranks)) ranks (replicate N 0) = Some arr \<and> length arr = N \<and>
           (\<forall>q < 8 * N. bmap_set arr q \<longleftrightarrow> int q \<in> set ranks)"
proof -
  let ?P = "\<lambda>i arr. length arr = N \<and> (\<forall>q < 8 * N. bmap_set arr q \<longleftrightarrow> int q \<in> set (take (nat i) ranks))"
  have "\<exists>arr. bmap_set_bits (int (length ranks)) ranks (replicate N 0) = Some arr \<and> ?P (int (length ranks)) arr"
    unfolding bmap_set_bits_def
  proof (rule for_loop_rule [where P = ?P])
    show "?P 0 (replicate N 0)" by (auto simp: bmap_set_def)
  next
    fix k and arr :: "8 word list" assume k: "0 \<le> k" "k < int (length ranks)" and P: "?P k arr"
    define i where "i = nat k"
    have i: "k = int i" "i < length ranks" using k by (auto simp: i_def)
    then have rr: "0 \<le> ranks ! i" "ranks ! i < 8 * int N" using assms by (auto dest: nth_mem)
    define r where "r = nat (ranks ! i)"
    have r: "ranks ! i = int r" "r < 8 * N" using rr by (auto simp: r_def)
    have dm: "int r div 8 = int (r div 8)" "int r mod 8 = int (r mod 8)" by (simp_all add: zdiv_int zmod_int)
    let ?arr = "arr[r div 8 := arr ! (r div 8) OR push_bit (r mod 8) 1]"
    have d: "r div 8 < N" using r(2) by linarith
    have "bmap_set ?arr q \<longleftrightarrow> bmap_set arr q \<or> q = r" if "q < 8 * N" for q
    proof (cases "q div 8 = r div 8")
      case True
      then have "q mod 8 = r mod 8 \<longleftrightarrow> q = r" by (metis div_mult_mod_eq)
      then show ?thesis using d P True by (auto simp: bmap_set_def bit_simps)
    next
      case False
      then show ?thesis using d P by (auto simp: bmap_set_def)
    qed
    moreover have "nat (k + 1) = Suc i" using i by simp
    ultimately have "?P (k + 1) ?arr" using P i r by (auto simp: take_Suc_conv_app_nth)
    moreover have "(do { r \<leftarrow> aget ranks k; if r smod BSIZE < 0 then None
        else do { b \<leftarrow> aget arr (r sdiv BSIZE); aset arr (r sdiv BSIZE) (b OR push_bit (nat (r smod BSIZE)) 1) } }) = Some ?arr"
      using i r d P dm by (simp add: aget_def aset_def BSIZE_def)
    ultimately show "\<exists>arr'. (do { r \<leftarrow> aget ranks k; if r smod BSIZE < 0 then None
        else do { b \<leftarrow> aget arr (r sdiv BSIZE); aset arr (r sdiv BSIZE) (b OR push_bit (nat (r smod BSIZE)) 1) } }) = Some arr' \<and>
          ?P (k + 1) arr'" by blast
  qed simp_all
  then show ?thesis by simp
qed

lemma bmap_ranks_eq:
  assumes "sorted ranks" and "distinct ranks" and "\<forall>r \<in> set ranks. 0 \<le> r \<and> r < 8 * int (length arr)"
    and "\<forall>q < 8 * length arr. bmap_set arr q \<longleftrightarrow> int q \<in> set ranks"
  shows "bmap_ranks arr = ranks"
proof (rule sorted_distinct_set_unique)
  let ?f = "filter (bmap_set arr) [0..<8 * length arr]"
  have "sorted ?f" by (rule sorted_wrt_filter) simp
  then show "sorted (bmap_ranks arr)" by (simp add: bmap_ranks_def sorted_map)
  show "distinct (bmap_ranks arr)" by (simp add: bmap_ranks_def distinct_map)
  have "r \<in> set (bmap_ranks arr)" if "r \<in> set ranks" for r
  proof -
    have "nat r < 8 * length arr" "int (nat r) = r" using that assms(3) by (auto simp: nat_less_iff)
    then have "nat r \<in> set ?f" using assms(4) that by simp
    then show ?thesis using \<open>int (nat r) = r\<close> unfolding bmap_ranks_def set_map by (metis image_eqI)
  qed
  then show "set (bmap_ranks arr) = set ranks" using assms(4) by (auto simp: bmap_ranks_def)
qed (use assms in auto)

lemma incl_bmap_ok:
  assumes pre: "incl_pre me a g ranks" and s: "sorted ranks" and me: "me \<in> set (grp_procs g)"
  shows "incl_post me g ranks (ompi_group_incl_bmap junk junkb (Ptr a) g (int (length ranks)) ranks rc)"
proof (cases "ranks = []")
  case False
  define m where "m = grp_proc_count g"
  define N where "N = nat (ompi_group_div_ceil m BSIZE)"
  have "0 \<le> m" using length_grp_procs [of g] pre by (auto simp: m_def incl_pre_def grp_ok_def)
  then have N: "ompi_group_div_ceil m BSIZE = int N" "m \<le> 8 * int N" using div_ceil_bsize [of m] by (auto simp: N_def)
  have rng: "\<forall>r \<in> set ranks. 0 \<le> r \<and> r < 8 * int N" using pre N(2) by (auto simp: incl_pre_def m_def)
  have z: "for_loop 0 (int N) (\<lambda>i arr. aset arr i 0) (replicate N junkb) = Some (replicate N 0)"
    using for_loop_fill [of "[] :: 8 word list" "int N" 0 junkb] by (simp add: realloc_cells_def)
  obtain arr where arr: "bmap_set_bits (int (length ranks)) ranks (replicate N 0) = Some arr" "length arr = N"
    "\<forall>q < 8 * N. bmap_set arr q \<longleftrightarrow> int q \<in> set ranks" using bmap_set_bits_ok [OF rng] by blast
  have ranks: "bmap_ranks arr = ranks"
    using bmap_ranks_eq [OF s] pre rng arr by (simp add: incl_pre_def)
  have wf: "sparse_wf (int (length ranks)) m (Bitmap g arr (int N))"
    using arr(2) ranks N pre by (auto simp: sparse_wf_def incl_pre_def m_def)
  have "incl_post me g ranks (retain_sparse junk g (Group a (int (length ranks)) MPI_UNDEFINED (Bitmap g arr (int N))) rc)"
    by (rule retain_sparse_ok [OF pre False wf [unfolded m_def]]) (simp_all add: grp_parent_group_ptr_def child_ranks_def ranks me)
  then show ?thesis using False arr z N(1)
    by (simp add: ompi_group_incl_bmap_def ompi_group_allocate_bmap_def flip: m_def)
qed (simp add: ompi_group_incl_bmap_def)


section \<open>Dense, and the choice\<close>

lemma incl_plist_ok:
  assumes pre: "incl_pre me a g ranks"
  shows "incl_post me g ranks (ompi_group_incl_plist junk junkp (Ptr a) g (int (length ranks)) ranks rc)"
proof (cases "ranks = []")
  case False
  let ?n = "length ranks"
  let ?procs = "map (\<lambda>r. grp_procs g ! nat r) ranks"
  let ?new = "Group a (int ?n) MPI_UNDEFINED (Dense ?procs)"
  have g: "grp_wf g" "my_rank_ok me g" "a \<noteq> 0" using pre by (simp_all add: incl_pre_def grp_ok_def fresh_addr_def)
  have "ompi_group_peer_lookup junk g (ranks ! i) = Some (?procs ! i)" if "i < ?n" for i
    using peer_lookup_ok [OF g(1)] pre that by (auto simp: incl_pre_def)
  then have fill: "for_loop 0 (int ?n) (\<lambda>proc arr. do { r \<leftarrow> aget ranks proc; p \<leftarrow> ompi_group_peer_lookup junk g r; aset arr proc p })
      (replicate ?n junkp) = Some ?procs"
    using for_loop_array_fill [of ?procs "\<lambda>i. do { r \<leftarrow> aget ranks i; ompi_group_peer_lookup junk g r }" "replicate ?n junkp"]
    by (simp add: aget_def)
  have wf: "grp_wf ?new" using g(3) by simp
  have me: "grp_my_rank g = MPI_UNDEFINED \<longleftrightarrow> me \<notin> set (grp_procs g)" using g(2) by (auto simp: my_rank_ok_def MPI_UNDEFINED_def split: if_splits)
  have "\<exists>r. (if MPI_UNDEFINED \<noteq> grp_my_rank g
             then do { p \<leftarrow> ompi_group_peer_lookup junk g (grp_my_rank g); ompi_set_group_rank junk ?new p }
             else Some (set_my_rank ?new MPI_UNDEFINED)) = Some (set_my_rank ?new r) \<and> my_rank_ok me (set_my_rank ?new r)"
  proof (cases "me \<in> set (grp_procs g)")
    case True
    then have "ompi_group_peer_lookup junk g (grp_my_rank g) = Some me"
      using peer_lookup_ok [OF g(1), of "grp_my_rank g" junk] g(2) by (simp add: my_rank_ok_def)
    then show ?thesis using True me set_group_rank_ok [OF wf, of junk me] by auto
  next
    case False
    have "set ?procs \<subseteq> set (grp_procs g)"
      using pre length_grp_procs [OF g(1)] by (force simp: incl_pre_def intro!: nth_mem)
    then show ?thesis using False me by (auto simp: my_rank_ok_def)
  qed
  then obtain r where r: "(if MPI_UNDEFINED \<noteq> grp_my_rank g
             then do { p \<leftarrow> ompi_group_peer_lookup junk g (grp_my_rank g); ompi_set_group_rank junk ?new p }
             else Some (set_my_rank ?new MPI_UNDEFINED)) = Some (set_my_rank ?new r)" "my_rank_ok me (set_my_rank ?new r)"
    by blast
  have "grp_ok me (set_my_rank ?new r)"
    using r(2) wf g(3) False distinct_incl_procs [OF pre] by (simp add: grp_ok_def)
  then show ?thesis
    using False fill r(1) by (simp add: ompi_group_incl_plist_def ompi_group_allocate_def increment_ok [OF wf] incl_post_def)
qed (simp add: ompi_group_incl_plist_def)

lemma minloc_four:
  "\<exists>m. ompi_group_minloc [a, b, c, d] 4 = Some m \<and> (m = 0 \<or> m = 1 \<and> b \<noteq> - 1 \<or> m = 2 \<or> m = 3 \<and> d \<noteq> - 1)"
  by (simp add: ompi_group_minloc_def aget_def for_loop_step)

lemma incl_ok:
  assumes pre: "incl_pre me a g ranks" and me: "sparse \<longrightarrow> me \<in> set (grp_procs g)"
  shows "incl_post me g ranks (ompi_group_incl sparse (Some before) junk junkp junkb (Ptr a) g (int (length ranks)) ranks rc)"
proof (cases sparse)
  case True
  let ?n = "int (length ranks)"
  obtain s where s: "ompi_group_calc_strided ?n ranks = Some s"
    using check_stride_spec [of ranks] by (auto simp: ompi_group_calc_strided_def)
  obtain l where l: "ompi_group_calc_sporadic (Some before) ?n ranks = Some l"
    using count_ranges_ok [of ranks before] by (cases "ranks = []") (auto simp: ompi_group_calc_sporadic_def count_ranges_def)
  define d where "d = (if sorted ranks then ompi_group_div_ceil (grp_proc_count g) BSIZE else - 1)"
  have d: "ompi_group_calc_bmap ?n (grp_proc_count g) ranks = Some d"
    by (simp add: ompi_group_calc_bmap_def check_ranks_ok d_def)
  obtain m where m: "ompi_group_minloc [ompi_group_calc_plist ?n, s, l, d] 4 = Some m"
    "m = 0 \<or> m = 1 \<and> s \<noteq> - 1 \<or> m = 2 \<or> m = 3 \<and> d \<noteq> - 1" using minloc_four by blast
  from m(2) show ?thesis
    using True s l d m(1) incl_plist_ok [OF pre] incl_strided_ok [OF pre] incl_spor_ok [OF pre] incl_bmap_ok [OF pre _ mp [OF me]]
    by (auto simp: ompi_group_incl_def d_def split: if_splits)
next
  case False
  then show ?thesis using incl_plist_ok [OF pre] by (simp add: ompi_group_incl_def)
qed


section \<open>Properties\<close>

text \<open>C8: Creating a group from a list of distinct ranks of a group succeeds whichever storage format the size
  comparison picks (dense, strided, sporadic or bitmap), and the result is the same group: its processes are
  those of the listed ranks in order, it is again well-formed with distinct processes, and its own rank is
  that of the calling process, or MPI_UNDEFINED when that is not a member of the result. With the sparse formats
  switched on the calling process must be a member of the old group: for a process that is not, the bitmap
  format translates MPI_UNDEFINED and reads before its array. They also need the word in front of the list of
  ranks to be readable, whatever it holds.\<close>

theorem group_incl_correct:
  assumes "grp_ok me g" and "fresh_addr a g" and "distinct ranks"
    and "\<forall>r \<in> set ranks. 0 \<le> r \<and> r < grp_proc_count g"
    and "sparse \<longrightarrow> me \<in> set (grp_procs g)"
  shows "\<exists>rc' new. ompi_group_incl sparse (Some before) junk junkp junkb (Ptr a) g (int (length ranks)) ranks rc = Some (rc', Inr new) \<and>
           grp_ok me new \<and> grp_procs new = map (\<lambda>r. grp_procs g ! nat r) ranks"
proof -
  have "incl_pre me a g ranks" using assms by (simp add: incl_pre_def)
  from incl_ok [OF this assms(5), of before junk junkp junkb rc] show ?thesis
    by (simp only: incl_post_iff)
qed

theorem group_incl_correct_witness:
  "\<exists>rc' new. ompi_group_incl True (Some 0) 0 9 0 (Ptr 2) (Group 1 5 2 (Dense [3, 4, 5, 6, 7 :: nat])) 3 [0, 2, 4] (\<lambda>_. 1) = Some (rc', Inr new) \<and>
     grp_ok 5 new \<and> grp_procs new = [3, 5, 7]"
proof -
  let ?g = "Group 1 5 2 (Dense [3, 4, 5, 6, 7 :: nat])"
  have "grp_ok 5 ?g" "fresh_addr 2 ?g" by (simp_all add: grp_ok_def my_rank_ok_def fresh_addr_def grp_parent_group_ptr_def)
  from group_incl_correct [OF this, of "[0, 2, 4]" True 0 0 9 0 "\<lambda>_. 1"] show ?thesis by simp
qed

text \<open>With the bitmap format, creating a group in a process that is not a member of the parent group has
  undefined behaviour: the own rank MPI_UNDEFINED is translated like a rank, which shifts by a negative
  amount.\<close>

theorem group_incl_bmap_foreign_process:
  assumes "grp_my_rank g = MPI_UNDEFINED" and "fresh_addr a g" and "grp_addr g \<noteq> 0" and "n \<noteq> 0"
  shows "ompi_group_incl_bmap junk junkb (Ptr a) g n ranks rc = None"
proof -
  have "bmap_down arr MPI_UNDEFINED = None" for arr
    by (simp add: bmap_down_def bmap_test_def MPI_UNDEFINED_def BSIZE_def signed_modulo_int_def)
  then have "translate_my_rank junk g (Group a n MPI_UNDEFINED (Bitmap g arr len)) = None" for arr len
    using assms
    by (auto simp: translate_my_rank_def ompi_group_translate_ranks_def is_group_empty_def MPI_GROUP_EMPTY_def same_group_def
        grp_parent_group_ptr_def fresh_addr_def translate_to_child_def ompi_group_translate_ranks_bmap_def
        translate_loop_one MPI_UNDEFINED_def MPI_PROC_NULL_def split: ptr.splits group_storage.splits)
  then have "retain_sparse junk g (Group a n MPI_UNDEFINED (Bitmap g arr len)) rc = None" for arr len
    by (auto simp: retain_sparse_def split: bind_split)
  then show ?thesis
    using assms(4) by (auto simp: ompi_group_incl_bmap_def ompi_group_allocate_bmap_def split: bind_split)
qed

theorem group_incl_bmap_foreign_process_witness:
  "ompi_group_incl_bmap 0 0 (Ptr 2) (Group 1 3 MPI_UNDEFINED (Dense [3, 4, 5 :: nat])) 1 [1] (\<lambda>_. 1) = None"
  by (rule group_incl_bmap_foreign_process) (simp_all add: fresh_addr_def grp_parent_group_ptr_def)


end
