(* ===== verification/Group_Ops.thy ===== *)
theory Group_Ops
  imports Group_Incl
begin

text \<open>
  The group operations above \<open>ompi_group_incl\<close>: exclusion, ranges of ranks, union, difference,
  intersection and comparison (\<^verbatim>\<open>group.c\<close>, \<^verbatim>\<open>group_plist.c\<close>). The arguments that stand for
  uninitialised memory, the fresh address and the reference counts are those of
  \<^verbatim>\<open>Group_Incl\<close>; the arrays of ranks the code allocates itself are not checked for NULL by it
  and are taken to be allocated.

  The theorems compare each operation with the operation on lists of processes it stands for.
\<close>

section \<open>Loops\<close>

text \<open>Counting and collecting the indices below \<open>n\<close> that pass a test.\<close>

definition count_loop :: "int \<Rightarrow> (int \<Rightarrow> bool option) \<Rightarrow> int \<Rightarrow> int option" where
  "count_loop n test c = for_loop 0 n (\<lambda>i c. do { b \<leftarrow> test i; Some (if b then c + 1 else c) }) c"

definition collect_loop ::
    "int \<Rightarrow> (int \<Rightarrow> bool option) \<Rightarrow> (int \<Rightarrow> 'a option) \<Rightarrow> 'a list \<times> int \<Rightarrow> ('a list \<times> int) option" where
  "collect_loop n test val s =
     for_loop 0 n
       (\<lambda>i (a, k). do {
          b \<leftarrow> test i;
          if b then do { v \<leftarrow> val i; a \<leftarrow> aset a k v; Some (a, k + 1) } else Some (a, k) }) s"

text \<open>\<open>while (index <= last) \<dots> index += stride\<close> and its counterpart for negative strides. It does not
  return when the stride is zero, and overflows when the stride points away from \<open>last\<close>.\<close>

partial_function (option) stride_loop ::
    "bool \<Rightarrow> int \<Rightarrow> int \<Rightarrow> int \<Rightarrow> (int \<Rightarrow> 's \<Rightarrow> 's option) \<Rightarrow> 's \<Rightarrow> 's option" where
  "stride_loop up index last_rank stride f s =
     (if (if up then index \<le> last_rank else index \<ge> last_rank) then do {
        s \<leftarrow> f index s;
        index \<leftarrow> cint (index + stride);
        stride_loop up index last_rank stride f s }
      else Some s)"

definition range_walk :: "(int \<Rightarrow> 's \<Rightarrow> 's option) \<Rightarrow> int \<Rightarrow> (int \<times> int \<times> int) list \<Rightarrow> 's \<Rightarrow> 's option" where
  "range_walk f n_triplets ranges s =
     for_loop 0 n_triplets
       (\<lambda>j s. do {
          (first_rank, last_rank, stride) \<leftarrow> aget ranges j;
          if first_rank < last_rank then stride_loop True first_rank last_rank stride f s
          else if first_rank > last_rank then stride_loop False first_rank last_rank stride f s
          else f first_rank s }) s"

definition append_rank :: "int \<Rightarrow> int list \<times> int \<Rightarrow> (int list \<times> int) option" where
  "append_rank index s = (case s of (a, k) \<Rightarrow> do { a \<leftarrow> aset a k index; Some (a, k + 1) })"

definition expand_ranges :: "int \<Rightarrow> int \<Rightarrow> (int \<times> int \<times> int) list \<Rightarrow> (int list \<times> int) option" where
  "expand_ranges junk n_triplets ranges = do {
     count \<leftarrow> range_walk (\<lambda>_ c. Some (c + 1)) n_triplets ranges 0;
     range_walk append_rank n_triplets ranges (replicate (nat count) junk, 0) }"

definition not_listed :: "int list \<Rightarrow> int \<Rightarrow> int \<Rightarrow> bool option" where
  "not_listed ranks n i = do {
     j \<leftarrow> find_loop 0 n (\<lambda>j. map_option (\<lambda>r. r = i) (aget ranks j));
     Some (j = n) }"

definition found_in :: "int \<Rightarrow> 'p ompi_group \<Rightarrow> 'p \<Rightarrow> bool option" where
  "found_in junk g proc = do {
     k \<leftarrow> lookup_in junk g proc;
     Some (k < grp_proc_count g) }"

section \<open>Operations by ranks\<close>

definition ompi_group_excl ::
    "bool \<Rightarrow> int option \<Rightarrow> int \<Rightarrow> 'p \<Rightarrow> 8 word \<Rightarrow> nat ptr \<Rightarrow> 'p ompi_group \<Rightarrow> int \<Rightarrow> int list \<Rightarrow> 'p refcounts \<Rightarrow> 'p new_group" where
  "ompi_group_excl sparse before junk junkp junkb addr grp n ranks rc = do {
     (ranks_included, k) \<leftarrow>
       (if 0 < grp_proc_count grp - n then
          collect_loop (grp_proc_count grp) (not_listed ranks n) Some (replicate (nat (grp_proc_count grp - n)) junk, 0)
        else Some ([], 0));
     ompi_group_incl sparse before junk junkp junkb addr grp k ranks_included rc }"

definition ompi_group_range_incl ::
    "bool \<Rightarrow> int option \<Rightarrow> int \<Rightarrow> 'p \<Rightarrow> 8 word \<Rightarrow> nat ptr \<Rightarrow> 'p ompi_group \<Rightarrow> int \<Rightarrow> (int \<times> int \<times> int) list \<Rightarrow> 'p refcounts \<Rightarrow> 'p new_group" where
  "ompi_group_range_incl sparse before junk junkp junkb addr grp n_triplets ranges rc = do {
     (ranks_included, k) \<leftarrow> expand_ranges junk n_triplets ranges;
     ompi_group_incl sparse before junk junkp junkb addr grp k ranks_included rc }"

definition ompi_group_range_excl ::
    "bool \<Rightarrow> int option \<Rightarrow> int \<Rightarrow> 'p \<Rightarrow> 8 word \<Rightarrow> nat ptr \<Rightarrow> 'p ompi_group \<Rightarrow> int \<Rightarrow> (int \<times> int \<times> int) list \<Rightarrow> 'p refcounts \<Rightarrow> 'p new_group" where
  "ompi_group_range_excl sparse before junk junkp junkb addr grp n_triplets ranges rc = do {
     (ranks_excluded, i) \<leftarrow> expand_ranges junk n_triplets ranges;
     (ranks_included, k) \<leftarrow>
        collect_loop (grp_proc_count grp) (not_listed ranks_excluded i) Some
          (replicate (nat (grp_proc_count grp - i)) junk, 0);
     ompi_group_incl sparse before junk junkp junkb addr grp k ranks_included rc }"

section \<open>Operations on two groups\<close>

definition ompi_group_intersection ::
    "bool \<Rightarrow> int option \<Rightarrow> int \<Rightarrow> 'p \<Rightarrow> 8 word \<Rightarrow> nat ptr \<Rightarrow> 'p ompi_group \<Rightarrow> 'p ompi_group \<Rightarrow> 'p refcounts \<Rightarrow> 'p new_group" where
  "ompi_group_intersection sparse before junk junkp junkb addr group1 group2 rc = do {
     let in2 = (\<lambda>proc1. do { p \<leftarrow> ompi_group_peer_lookup junk group1 proc1; found_in junk group2 p });
     k \<leftarrow> count_loop (grp_proc_count group1) in2 0;
     (ranks_included, k) \<leftarrow> collect_loop (grp_proc_count group1) in2 Some (replicate (nat k) junk, 0);
     ompi_group_incl sparse before junk junkp junkb addr group1 k ranks_included rc }"

text \<open>The end of union and difference: the own rank from the first group in which the process is.\<close>

definition find_my_rank :: "int \<Rightarrow> 'p ompi_group \<Rightarrow> 'p ompi_group \<Rightarrow> 'p ompi_group \<Rightarrow> 'p ompi_group option" where
  "find_my_rank junk group1 group2 new =
     (if MPI_UNDEFINED \<noteq> grp_my_rank group1 then do {
        p \<leftarrow> ompi_group_peer_lookup junk group1 (grp_my_rank group1);
        ompi_set_group_rank junk new p }
      else if MPI_UNDEFINED \<noteq> grp_my_rank group2 then do {
        p \<leftarrow> ompi_group_peer_lookup junk group2 (grp_my_rank group2);
        ompi_set_group_rank junk new p }
      else Some (set_my_rank new MPI_UNDEFINED))"

definition ompi_group_union ::
    "int \<Rightarrow> 'p \<Rightarrow> nat ptr \<Rightarrow> 'p ompi_group \<Rightarrow> 'p ompi_group \<Rightarrow> 'p refcounts \<Rightarrow> 'p new_group" where
  "ompi_group_union junk junkp addr group1 group2 rc = do {
     let out1 = (\<lambda>proc2. do { p \<leftarrow> ompi_group_peer_lookup junk group2 proc2; b \<leftarrow> found_in junk group1 p; Some (\<not> b) });
     new_group_size \<leftarrow> count_loop (grp_proc_count group2) out1 (grp_proc_count group1);
     if 0 = new_group_size then Some (rc, Inr MPI_GROUP_EMPTY)
     else case ompi_group_allocate addr junkp new_group_size of
       Null \<Rightarrow> Some (rc, Inl MPI_ERR_GROUP)
     | Ptr new \<Rightarrow> do {
         a \<leftarrow> for_loop 0 (grp_proc_count group1)
                (\<lambda>proc1 a. do { p \<leftarrow> ompi_group_peer_lookup junk group1 proc1; aset a proc1 p })
                (case grp_storage new of Dense a \<Rightarrow> a | _ \<Rightarrow> []);
         (a, cnt) \<leftarrow> collect_loop (grp_proc_count group2) out1 (ompi_group_peer_lookup junk group2) (a, grp_proc_count group1);
         new \<leftarrow> Some (Group (grp_addr new) (grp_proc_count new) (grp_my_rank new) (Dense a));
         rc \<leftarrow> ompi_group_increment_proc_count junk new rc;
         new \<leftarrow> find_my_rank junk group1 group2 new;
         Some (rc, Inr new) } }"

definition ompi_group_difference ::
    "int \<Rightarrow> 'p \<Rightarrow> nat ptr \<Rightarrow> 'p ompi_group \<Rightarrow> 'p ompi_group \<Rightarrow> 'p refcounts \<Rightarrow> 'p new_group" where
  "ompi_group_difference junk junkp addr group1 group2 rc = do {
     let out2 = (\<lambda>proc1. do { p \<leftarrow> ompi_group_peer_lookup junk group1 proc1; b \<leftarrow> found_in junk group2 p; Some (\<not> b) });
     new_group_size \<leftarrow> count_loop (grp_proc_count group1) out2 0;
     if 0 = new_group_size then Some (rc, Inr MPI_GROUP_EMPTY)
     else case ompi_group_allocate addr junkp new_group_size of
       Null \<Rightarrow> Some (rc, Inl MPI_ERR_GROUP)
     | Ptr new \<Rightarrow> do {
         (a, cnt) \<leftarrow> collect_loop (grp_proc_count group1) out2 (ompi_group_peer_lookup junk group1)
                       (case grp_storage new of Dense a \<Rightarrow> a | _ \<Rightarrow> [], 0);
         new \<leftarrow> Some (Group (grp_addr new) (grp_proc_count new) (grp_my_rank new) (Dense a));
         rc \<leftarrow> ompi_group_increment_proc_count junk new rc;
         new \<leftarrow> find_my_rank junk group1 group2 new;
         Some (rc, Inr new) } }"

definition MPI_IDENT :: int where [opal_rc]: "MPI_IDENT = 0"
definition MPI_SIMILAR :: int where [opal_rc]: "MPI_SIMILAR = 2"
definition MPI_UNEQUAL :: int where [opal_rc]: "MPI_UNEQUAL = 3"

text \<open>The outer loop of the comparison leaves with \<open>similar\<close> false at the first process of the first
  group that is not in the second.\<close>

function compare_loop :: "int \<Rightarrow> 'p ompi_group \<Rightarrow> 'p ompi_group \<Rightarrow> int \<Rightarrow> bool \<Rightarrow> (bool \<times> bool) option" where
  "compare_loop junk group1 group2 proc1 identical =
     (if proc1 < grp_proc_count group1 then do {
        p \<leftarrow> ompi_group_peer_lookup junk group1 proc1;
        proc2 \<leftarrow> lookup_in junk group2 p;
        if proc2 < grp_proc_count group2
        then compare_loop junk group1 group2 (proc1 + 1) (if proc1 \<noteq> proc2 then False else identical)
        else Some (False, False) }
      else Some (True, identical))"
  by pat_completeness auto
termination by (relation "measure (\<lambda>(junk, group1, group2, proc1, _). nat (grp_proc_count group1 - proc1))") auto

declare compare_loop.simps [simp del]

definition ompi_group_compare :: "int \<Rightarrow> 'p ompi_group \<Rightarrow> 'p ompi_group \<Rightarrow> int option" where
  "ompi_group_compare junk group1 group2 =
     (if grp_addr group1 = grp_addr group2 then Some MPI_IDENT
      else if is_group_empty group1 \<or> is_group_empty group2 then Some MPI_UNEQUAL
      else if grp_proc_count group1 \<noteq> grp_proc_count group2 then Some MPI_UNEQUAL
      else do {
        (similar, identical) \<leftarrow> compare_loop junk group1 group2 0 True;
        Some (if identical then MPI_IDENT else if similar then MPI_SIMILAR else MPI_UNEQUAL) })"

section \<open>What the loops compute\<close>

lemma count_loop_ok:
  assumes "\<And>i. i < n \<Longrightarrow> test (int i) = Some (T i)"
  shows "count_loop (int n) test c = Some (c + int (length (filter T [0..<n])))"
proof -
  have "count_loop (int n) test c = Some (fold (\<lambda>i c. if T i then c + 1 else c) [0..<n] c)"
    unfolding count_loop_def by (rule for_loop_fold) (simp add: assms)
  moreover have "fold (\<lambda>i c. if T i then c + 1 else c) xs c = c + int (length (filter T xs))" for xs
    by (induction xs arbitrary: c) auto
  ultimately show ?thesis by simp
qed

lemma collect_mfold:
  assumes "\<And>i. i \<in> set xs \<Longrightarrow> test (int i) = Some (T i) \<and> val (int i) = Some (V i)"
    and "k + length (filter T xs) \<le> length a"
  shows "mfold (\<lambda>i (a, k). do { b \<leftarrow> test i; if b then do { v \<leftarrow> val i; a \<leftarrow> aset a k v; Some (a, k + 1) } else Some (a, k) })
           (map int xs) (a, int k) =
         Some (take k a @ map V (filter T xs) @ drop (k + length (filter T xs)) a, int (k + length (filter T xs)))"
  using assms
proof (induction xs arbitrary: a k)
  case (Cons x xs)
  show ?case
  proof (cases "T x")
    case True
    then have k: "k < length a" using Cons.prems(2) by simp
    have "k + 1 + length (filter T xs) \<le> length (a[k := V x])" using Cons.prems(2) True by simp
    note IH = Cons.IH [OF _ this, unfolded of_nat_add of_nat_1]
    show ?thesis
      using True k Cons.prems(1) IH by (simp add: aset_def take_Suc_update)
  next
    case False
    then show ?thesis using Cons by simp
  qed
qed simp

lemma collect_loop_ok:
  assumes "\<And>i. i < n \<Longrightarrow> test (int i) = Some (T i) \<and> val (int i) = Some (V i)"
    and "k + length (filter T [0..<n]) = length a"
  shows "collect_loop (int n) test val (a, int k) = Some (take k a @ map V (filter T [0..<n]), int (length a))"
  unfolding collect_loop_def for_loop_mfold
  using collect_mfold [of "[0..<n]" test T val V k a] assms by simp

text \<open>The ranks of one triplet: first, first + stride, \<open>\<dots>\<close> up to last.\<close>

definition triplet_ranks :: "int \<times> int \<times> int \<Rightarrow> int list" where
  "triplet_ranks = (\<lambda>(f, l, s). map (\<lambda>i. f + s * int i) [0..<nat ((l - f) div s + 1)])"

definition valid_triplet :: "int \<times> int \<times> int \<Rightarrow> bool" where
  "valid_triplet = (\<lambda>(f, l, s). is_cint f \<and> is_cint l \<and> is_cint (l + s) \<and> (f < l \<longrightarrow> 0 < s) \<and> (l < f \<longrightarrow> s < 0))"

lemma stride_loop_ok:
  assumes "if up then 0 < s else s < 0" and "is_cint l" and "is_cint (l + s)" and "is_cint i"
  shows "stride_loop up i l s f st = mfold f (triplet_ranks (i, l, s)) st"
  using assms(4)
proof (induction "nat ((l - i) div s + 1)" arbitrary: i st)
  case 0
  then have "(l - i) div s < 0" by simp
  then have "\<not> (if up then i \<le> l else i \<ge> l)"
    using assms(1) by (auto simp: pos_imp_zdiv_neg_iff neg_imp_zdiv_neg_iff split: if_splits)
  then show ?case using 0 by (simp add: triplet_ranks_def stride_loop.simps)
next
  case (Suc m)
  have q: "0 \<le> (l - i) div s" using Suc.hyps(2) by simp
  then have c: "if up then i \<le> l else i \<ge> l"
    using assms(1) by (auto simp: pos_imp_zdiv_nonneg_iff neg_imp_zdiv_nonneg_iff split: if_splits)
  have i': "is_cint (i + s)" using c assms Suc.prems by (auto simp: is_cint_def split: if_splits)
  have d: "(l - (i + s)) div s = (l - i) div s - 1"
    using div_add_self1 [of s "l - (i + s)"] assms(1) by (simp split: if_splits)
  then have m: "m = nat ((l - (i + s)) div s + 1)" using Suc.hyps(2) q by simp
  have "triplet_ranks (i, l, s) = i # triplet_ranks (i + s, l, s)"
    using Suc.hyps(2) [symmetric] m [symmetric]
    by (simp add: triplet_ranks_def upt_conv_Cons map_Suc_upt [symmetric] algebra_simps del: upt_Suc)
  moreover have "stride_loop up (i + s) l s f = mfold f (triplet_ranks (i + s, l, s))"
    using Suc.hyps(1) [OF m i'] by (intro ext) simp
  ultimately show ?case
    using c i' by (simp add: stride_loop.simps [of up i])
qed

lemma range_walk_ok:
  assumes "\<forall>t \<in> set ranges. valid_triplet t"
  shows "range_walk f (int (length ranges)) ranges s = mfold f (concat (map triplet_ranks ranges)) s"
proof -
  let ?body = "\<lambda>(first_rank, last_rank, stride) s. if first_rank < last_rank then stride_loop True first_rank last_rank stride f s
          else if first_rank > last_rank then stride_loop False first_rank last_rank stride f s
          else f first_rank s"
  have one: "?body t s = mfold f (triplet_ranks t) s" if "valid_triplet t" for t s
  proof -
    obtain a b c where t: "t = (a, b, c)" by (cases t)
    have "a = b \<Longrightarrow> triplet_ranks t = [a]" by (simp add: t triplet_ranks_def)
    then show ?thesis using that by (auto simp: t valid_triplet_def stride_loop_ok)
  qed
  have "range_walk f (int (length ranges)) ranges s = mfold (\<lambda>j s. do { t \<leftarrow> aget ranges j; ?body t s }) (map int [0..<length ranges]) s"
    unfolding range_walk_def for_loop_mfold by (simp add: case_prod_unfold)
  also have "mfold (\<lambda>j s. do { t \<leftarrow> aget ranges j; ?body t s }) (map int xs) s = mfold f (concat (map (\<lambda>j. triplet_ranks (ranges ! j)) xs)) s"
    if "set xs \<subseteq> {..<length ranges}" for xs
    using that
  proof (induction xs arbitrary: s)
    case (Cons x xs)
    then have "x < length ranges" by simp
    then have "?body (ranges ! x) = mfold f (triplet_ranks (ranges ! x))" using one assms by (intro ext) (simp del: split_paired_All)
    then show ?case using Cons \<open>x < length ranges\<close> by (simp add: aget_def cong: Option.bind_cong)
  qed simp
  then have "mfold (\<lambda>j s. do { t \<leftarrow> aget ranges j; ?body t s }) (map int [0..<length ranges]) s =
      mfold f (concat (map (\<lambda>j. triplet_ranks (ranges ! j)) [0..<length ranges])) s" by (simp add: lessThan_atLeast0)
  also have "map (\<lambda>j. triplet_ranks (ranges ! j)) [0..<length ranges] = map triplet_ranks ranges"
    by (rule nth_equalityI) simp_all
  finally show ?thesis .
qed

lemma expand_ranges_ok:
  assumes "\<forall>t \<in> set ranges. valid_triplet t"
  shows "expand_ranges junk (int (length ranges)) ranges =
         Some (concat (map triplet_ranks ranges), int (length (concat (map triplet_ranks ranges))))"
proof -
  let ?xs = "concat (map triplet_ranks ranges)"
  have cnt: "mfold (\<lambda>_ c. Some (c + 1)) xs c = Some (c + int (length xs))" for xs :: "int list" and c
    by (induction xs arbitrary: c) auto
  have app: "k + length xs \<le> length a \<Longrightarrow>
      mfold append_rank xs (a, int k) = Some (take k a @ xs @ drop (k + length xs) a, int (k + length xs))" for xs k a
  proof (induction xs arbitrary: k a)
    case (Cons x xs)
    show ?case using Cons.prems Cons.IH [of "k + 1" "a[k := x]", unfolded of_nat_add of_nat_1]
      by (simp add: append_rank_def [of x] aset_def take_Suc_update)
  qed simp
  show ?thesis
    using cnt [of ?xs 0] app [of 0 ?xs "replicate (length ?xs) junk"]
    by (simp add: expand_ranges_def range_walk_ok [OF assms])
qed


lemma mfold_None: "x \<in> set xs \<Longrightarrow> (\<And>s. f x s = None) \<Longrightarrow> mfold f xs s = None"
  by (induction xs arbitrary: s) (auto split: bind_split)

lemma stride_loop_diverges:
  assumes "stride_loop up i l s f st = Some st'"
  shows "\<not> (if up then i \<le> l \<and> s \<le> 0 else l \<le> i \<and> 0 \<le> s)"
proof (rule stride_loop.raw_induct [OF _ assms, where P = "\<lambda>up i l s f st y. \<not> (if up then i \<le> l \<and> s \<le> 0 else l \<le> i \<and> 0 \<le> s)"])
  fix loop and up :: bool and i l s :: int and f :: "int \<Rightarrow> 'b \<Rightarrow> 'b option" and st y
  assume IH: "\<And>up i l s f st y. loop up i l s f st = Some y \<Longrightarrow> \<not> (if up then i \<le> l \<and> s \<le> 0 else l \<le> i \<and> 0 \<le> s)"
    and step: "(if if up then i \<le> l else i \<ge> l then do { st \<leftarrow> f i st; i \<leftarrow> cint (i + s); loop up i l s f st } else Some st) = Some y"
  show "\<not> (if up then i \<le> l \<and> s \<le> 0 else l \<le> i \<and> 0 \<le> s)"
  proof
    assume d: "if up then i \<le> l \<and> s \<le> 0 else l \<le> i \<and> 0 \<le> s"
    then obtain st' where "loop up (i + s) l s f st' = Some y"
      using step by (auto simp: bind_eq_Some_conv cint_eq_Some_iff split: if_splits)
    from IH [OF this] d show False by (auto split: if_splits)
  qed
qed

lemma not_listed_ok: "not_listed ranks (int (length ranks)) i = Some (i \<notin> set ranks)"
proof -
  obtain j where j: "find_loop 0 (int (length ranks)) (\<lambda>j. map_option (\<lambda>r. r = i) (aget ranks j)) = Some j" "0 \<le> j"
    "j \<le> int (length ranks)" "\<forall>k. 0 \<le> k \<and> k < j \<longrightarrow> ranks ! nat k \<noteq> i" "j < int (length ranks) \<longrightarrow> ranks ! nat j = i"
    using find_loop_spec [of 0 "int (length ranks)" "\<lambda>j. map_option (\<lambda>r. r = i) (aget ranks j)" "\<lambda>k. ranks ! nat k = i"]
    by (auto simp: aget_def)
  have "i \<in> set ranks \<longleftrightarrow> j < int (length ranks)"
  proof
    assume "i \<in> set ranks"
    then obtain m where "m < length ranks" "ranks ! m = i" by (auto simp: in_set_conv_nth)
    then show "j < int (length ranks)" using j(4) [rule_format, of "int m"] by (cases "j < int (length ranks)") auto
  next
    assume "j < int (length ranks)"
    moreover from this j(2) have "nat j < length ranks" by linarith
    ultimately show "i \<in> set ranks" using j(5) by (metis nth_mem)
  qed
  then show ?thesis using j(1,3) by (auto simp: not_listed_def)
qed

lemma found_in_ok:
  assumes "grp_wf g"
  shows "found_in junk g p = Some (p \<in> set (grp_procs g))"
proof -
  have len: "int (length (grp_procs g)) = grp_proc_count g" using length_grp_procs [OF assms] .
  obtain k where k: "lookup_in junk g p = Some k" "0 \<le> k" "k \<le> grp_proc_count g"
    "\<forall>j < nat k. grp_procs g ! j \<noteq> p" "k < grp_proc_count g \<longrightarrow> grp_procs g ! nat k = p"
    using lookup_in_ok [OF assms, of junk p] by blast
  have "p \<in> set (grp_procs g) \<longleftrightarrow> k < grp_proc_count g"
  proof
    assume "p \<in> set (grp_procs g)"
    then obtain m where "m < length (grp_procs g)" "grp_procs g ! m = p" by (auto simp: in_set_conv_nth)
    then show "k < grp_proc_count g" using k(4) len by (cases "m < nat k") auto
  next
    assume l: "k < grp_proc_count g"
    then have "nat k < length (grp_procs g)" using len k(2) by linarith
    with l k(5) show "p \<in> set (grp_procs g)" by (metis nth_mem)
  qed
  then show ?thesis using k(1) by (simp add: found_in_def)
qed

section \<open>Operations by ranks\<close>

lemma filter_not_listed_length:
  assumes "distinct ranks" and "\<forall>r \<in> set ranks. 0 \<le> r \<and> r < int N"
  shows "length (filter (\<lambda>i. int i \<notin> set ranks) [0..<N]) = N - length ranks" and "length ranks \<le> N"
proof -
  have eq: "int ` {i. i < N \<and> int i \<in> set ranks} = set ranks"
    using assms(2) by (auto simp: image_iff) (metis nat_less_iff int_nat_eq nonneg_int_cases of_nat_less_iff)
  have "card {i. i < N \<and> int i \<in> set ranks} = card (int ` {i. i < N \<and> int i \<in> set ranks})"
    by (rule card_image [symmetric]) simp
  then have c: "card {i. i < N \<and> int i \<in> set ranks} = length ranks"
    using eq assms(1) by (simp add: distinct_card)
  have "length (filter (\<lambda>i. int i \<in> set ranks) [0..<N]) = card {i. i < N \<and> int i \<in> set ranks}"
    by (subst distinct_card [symmetric]) (auto intro: arg_cong [where f = card])
  then have l: "length (filter (\<lambda>i. int i \<in> set ranks) [0..<N]) = length ranks" using c by simp
  then show "length (filter (\<lambda>i. int i \<notin> set ranks) [0..<N]) = N - length ranks"
    using sum_length_filter_compl [of "\<lambda>i. int i \<in> set ranks" "[0..<N]"] by simp
  show "length ranks \<le> N" using length_filter_le [of "\<lambda>i. int i \<in> set ranks" "[0..<N]"] l by simp
qed

definition excl_ranks :: "'p ompi_group \<Rightarrow> int list \<Rightarrow> int list" where
  "excl_ranks g ranks = map int (filter (\<lambda>i. int i \<notin> set ranks) [0..<nat (grp_proc_count g)])"

lemma excl_collect_ok:
  assumes "incl_pre me a g ranks"
  shows "collect_loop (grp_proc_count g) (not_listed ranks (int (length ranks))) Some
           (replicate (nat (grp_proc_count g - int (length ranks))) junk, 0) =
         Some (excl_ranks g ranks, int (length (excl_ranks g ranks)))"
    and "int (length (excl_ranks g ranks)) = grp_proc_count g - int (length ranks)"
proof -
  define N where "N = length (grp_procs g)"
  have n: "grp_proc_count g = int N"
    using assms length_grp_procs [of g] by (simp add: incl_pre_def grp_ok_def N_def)
  note l = filter_not_listed_length [of ranks N]
  have pre: "distinct ranks" "\<forall>r \<in> set ranks. 0 \<le> r \<and> r < int N" using assms n by (auto simp: incl_pre_def)
  show "int (length (excl_ranks g ranks)) = grp_proc_count g - int (length ranks)"
    using l [OF pre] by (simp add: excl_ranks_def n of_nat_diff)
  have k: "nat (int N - int (length ranks)) = N - length ranks" by simp
  show "collect_loop (grp_proc_count g) (not_listed ranks (int (length ranks))) Some
           (replicate (nat (grp_proc_count g - int (length ranks))) junk, 0) =
         Some (excl_ranks g ranks, int (length (excl_ranks g ranks)))"
    using collect_loop_ok [of N "not_listed ranks (int (length ranks))" "\<lambda>i. int i \<notin> set ranks" Some int 0
        "replicate (N - length ranks) junk"] l [OF pre]
    by (simp add: not_listed_ok n excl_ranks_def k)
qed

lemma incl_pre_excl: "incl_pre me a g ranks \<Longrightarrow> incl_pre me a g (excl_ranks g ranks)"
  by (auto simp: incl_pre_def excl_ranks_def distinct_map)

lemma excl_ok:
  assumes pre: "incl_pre me a g ranks" and me: "sparse \<longrightarrow> me \<in> set (grp_procs g)"
  shows "incl_post me g (excl_ranks g ranks)
           (ompi_group_excl sparse (Some before) junk junkp junkb (Ptr a) g (int (length ranks)) ranks rc)"
proof -
  note post = incl_ok [OF incl_pre_excl [OF pre] me, of before junk junkp junkb rc]
  show ?thesis
  proof (cases "0 < grp_proc_count g - int (length ranks)")
    case True
    then show ?thesis using post excl_collect_ok(1) [OF pre, of junk] by (simp add: ompi_group_excl_def)
  next
    case False
    then have "int (length (excl_ranks g ranks)) \<le> 0" using excl_collect_ok(2) [OF pre] by linarith
    then have "excl_ranks g ranks = []" by simp
    then show ?thesis using post False by (simp add: ompi_group_excl_def)
  qed
qed


lemma range_incl_ok:
  assumes "incl_pre me a g (concat (map triplet_ranks ranges))" and "sparse \<longrightarrow> me \<in> set (grp_procs g)"
    and "\<forall>t \<in> set ranges. valid_triplet t"
  shows "incl_post me g (concat (map triplet_ranks ranges))
           (ompi_group_range_incl sparse (Some before) junk junkp junkb (Ptr a) g (int (length ranges)) ranges rc)"
  using incl_ok [OF assms(1,2)] by (simp add: ompi_group_range_incl_def expand_ranges_ok [OF assms(3)])

lemma range_excl_ok:
  assumes "incl_pre me a g (concat (map triplet_ranks ranges))" and "sparse \<longrightarrow> me \<in> set (grp_procs g)"
    and "\<forall>t \<in> set ranges. valid_triplet t"
  shows "incl_post me g (excl_ranks g (concat (map triplet_ranks ranges)))
           (ompi_group_range_excl sparse (Some before) junk junkp junkb (Ptr a) g (int (length ranges)) ranges rc)"
  using incl_ok [OF incl_pre_excl [OF assms(1)] assms(2)] excl_collect_ok(1) [OF assms(1), of junk]
  by (simp add: ompi_group_range_excl_def expand_ranges_ok [OF assms(3)])

section \<open>Operations on two groups\<close>

lemma test_member:
  assumes "grp_wf g1" and "grp_wf g2" and "i < length (grp_procs g1)"
  shows "ompi_group_peer_lookup junk g1 (int i) = Some (grp_procs g1 ! i)"
    and "(do { p \<leftarrow> ompi_group_peer_lookup junk g1 (int i); found_in junk g2 p }) = Some (grp_procs g1 ! i \<in> set (grp_procs g2))"
    and "(do { p \<leftarrow> ompi_group_peer_lookup junk g1 (int i); b \<leftarrow> found_in junk g2 p; Some (\<not> b) }) =
         Some (grp_procs g1 ! i \<notin> set (grp_procs g2))"
  using peer_lookup_ok [OF assms(1), of "int i" junk] assms length_grp_procs [OF assms(1)] by (simp_all add: found_in_ok)

lemma filter_nth: "map ((!) xs) (filter (\<lambda>i. P (xs ! i)) [0..<length xs]) = filter P xs"
  using filter_map [of P "(!) xs" "[0..<length xs]"] by (simp add: map_nth comp_def)

lemma filter_nth_length: "length (filter (\<lambda>i. P (xs ! i)) [0..<length xs]) = length (filter P xs)"
  using arg_cong [OF filter_nth [of xs P], of length] by simp

lemma find_my_rank_ok:
  assumes g1: "grp_ok me g1" and g2: "grp_ok me g2" and new: "grp_wf new"
    and sub: "set (grp_procs new) \<subseteq> set (grp_procs g1) \<union> set (grp_procs g2)"
  shows "\<exists>r. find_my_rank junk g1 g2 new = Some (set_my_rank new r) \<and> my_rank_ok me (set_my_rank new r)"
proof -
  have look: "me \<in> set (grp_procs g) \<and> ompi_group_peer_lookup junk g (grp_my_rank g) = Some me"
    if "grp_ok me g" "MPI_UNDEFINED \<noteq> grp_my_rank g" for g
    using that peer_lookup_ok [of g "grp_my_rank g" junk] by (auto simp: grp_ok_def my_rank_ok_def split: if_splits)
  have un: "me \<notin> set (grp_procs g)" if "grp_ok me g" "grp_my_rank g = MPI_UNDEFINED" for g
    using that by (auto simp: grp_ok_def my_rank_ok_def MPI_UNDEFINED_def split: if_splits)
  show ?thesis
  proof (cases "MPI_UNDEFINED \<noteq> grp_my_rank g1 \<or> MPI_UNDEFINED \<noteq> grp_my_rank g2")
    case True
    then have "find_my_rank junk g1 g2 new = ompi_set_group_rank junk new me"
      using look [OF g1] look [OF g2] by (auto simp: find_my_rank_def)
    then show ?thesis using set_group_rank_ok [OF new, of junk me] by simp
  next
    case False
    then have "me \<notin> set (grp_procs new)" using un [OF g1] un [OF g2] sub by auto
    then show ?thesis using False by (simp add: find_my_rank_def my_rank_ok_def)
  qed
qed

lemma dense_result_ok:
  assumes "grp_ok me g1" and "grp_ok me g2" and "a \<noteq> 0" and "procs \<noteq> []" and "distinct procs"
    and "set procs \<subseteq> set (grp_procs g1) \<union> set (grp_procs g2)"
  shows "\<exists>rc' new. (do {
           rc \<leftarrow> ompi_group_increment_proc_count junk (Group a (int (length procs)) MPI_UNDEFINED (Dense procs)) rc;
           new \<leftarrow> find_my_rank junk g1 g2 (Group a (int (length procs)) MPI_UNDEFINED (Dense procs));
           Some (rc, Inr new :: int + 'p ompi_group) }) = Some (rc', Inr new) \<and> grp_ok me new \<and> grp_procs new = (procs :: 'p list)"
proof -
  let ?new = "Group a (int (length procs)) MPI_UNDEFINED (Dense procs)"
  have wf: "grp_wf ?new" using assms(3) by simp
  obtain r where "find_my_rank junk g1 g2 ?new = Some (set_my_rank ?new r)" "my_rank_ok me (set_my_rank ?new r)"
    using find_my_rank_ok [OF assms(1,2) wf, of junk] assms(6) by auto
  then show ?thesis
    using wf assms(3,4,5) by (simp add: increment_ok [OF wf] grp_ok_def)
qed

lemma union_ok:
  assumes g1: "grp_ok me g1" and g2: "grp_ok me g2" and a: "a \<noteq> 0"
  shows "\<exists>rc' new. ompi_group_union junk junkp (Ptr a) g1 g2 rc = Some (rc', Inr new) \<and> grp_ok me new \<and>
           grp_procs new = grp_procs g1 @ filter (\<lambda>p. p \<notin> set (grp_procs g1)) (grp_procs g2)"
proof -
  define p1 p2 where "p1 = grp_procs g1" and "p2 = grp_procs g2"
  define d where "d = filter (\<lambda>p. p \<notin> set p1) p2"
  define u where "u = p1 @ d"
  have wf: "grp_wf g1" "grp_wf g2" using g1 g2 by (simp_all add: grp_ok_def)
  have n: "grp_proc_count g1 = int (length p1)" "grp_proc_count g2 = int (length p2)"
    using length_grp_procs [OF wf(1)] length_grp_procs [OF wf(2)] by (simp_all add: p1_def p2_def)
  let ?t = "\<lambda>proc2. do { p \<leftarrow> ompi_group_peer_lookup junk g2 proc2; b \<leftarrow> found_in junk g1 p; Some (\<not> b) }"
  note t = test_member [OF wf(2,1), folded p1_def p2_def, of _ junk]
  note nth = filter_nth [of p2 "\<lambda>p. p \<notin> set p1", folded d_def] filter_nth_length [of "\<lambda>p. p \<notin> set p1" p2, folded d_def]
  have cnt: "count_loop (int (length p2)) ?t (int (length p1)) = Some (int (length u))"
    using count_loop_ok [of "length p2" ?t "\<lambda>i. p2 ! i \<notin> set p1" "int (length p1)"] t(3) nth(2) by (simp add: u_def)
  have fill: "for_loop 0 (int (length p1)) (\<lambda>proc1 arr. do { p \<leftarrow> ompi_group_peer_lookup junk g1 proc1; aset arr proc1 p })
      (replicate (length u) junkp) = Some (p1 @ replicate (length d) junkp)"
    using for_loop_array_fill [of p1 "ompi_group_peer_lookup junk g1" "replicate (length u) junkp"]
      test_member(1) [OF wf(1) wf(1), folded p1_def, of _ junk] by (simp add: u_def)
  have col: "collect_loop (int (length p2)) ?t (ompi_group_peer_lookup junk g2) (p1 @ replicate (length d) junkp, int (length p1)) =
      Some (u, int (length u))"
    using collect_loop_ok [of "length p2" ?t "\<lambda>i. p2 ! i \<notin> set p1" "ompi_group_peer_lookup junk g2" "(!) p2"
        "length p1" "p1 @ replicate (length d) junkp"] t(1,3) nth by (simp add: u_def)
  have res: "distinct u" "set u \<subseteq> set (grp_procs g1) \<union> set (grp_procs g2)"
    using g1 g2 by (auto simp: u_def d_def p1_def p2_def grp_ok_def)
  have goal: "grp_procs g1 @ filter (\<lambda>p. p \<notin> set (grp_procs g1)) (grp_procs g2) = u"
    by (simp add: u_def d_def p1_def p2_def)
  show ?thesis
  proof (cases "u = []")
    case True
    then show ?thesis unfolding goal using cnt by (simp add: ompi_group_union_def n Let_def grp_ok_empty)
  next
    case False
    from dense_result_ok [OF g1 g2 a False res, of junk rc] show ?thesis
      unfolding goal using False cnt fill col by (simp add: ompi_group_union_def n Let_def ompi_group_allocate_def)
  qed
qed

lemma difference_ok:
  assumes g1: "grp_ok me g1" and g2: "grp_ok me g2" and a: "a \<noteq> 0"
  shows "\<exists>rc' new. ompi_group_difference junk junkp (Ptr a) g1 g2 rc = Some (rc', Inr new) \<and> grp_ok me new \<and>
           grp_procs new = filter (\<lambda>p. p \<notin> set (grp_procs g2)) (grp_procs g1)"
proof -
  define p1 p2 where "p1 = grp_procs g1" and "p2 = grp_procs g2"
  define d where "d = filter (\<lambda>p. p \<notin> set p2) p1"
  have wf: "grp_wf g1" "grp_wf g2" using g1 g2 by (simp_all add: grp_ok_def)
  have n: "grp_proc_count g1 = int (length p1)" using length_grp_procs [OF wf(1)] by (simp add: p1_def)
  let ?t = "\<lambda>proc1. do { p \<leftarrow> ompi_group_peer_lookup junk g1 proc1; b \<leftarrow> found_in junk g2 p; Some (\<not> b) }"
  note t = test_member [OF wf, folded p1_def p2_def, of _ junk]
  note nth = filter_nth [of p1 "\<lambda>p. p \<notin> set p2", folded d_def] filter_nth_length [of "\<lambda>p. p \<notin> set p2" p1, folded d_def]
  have cnt: "count_loop (int (length p1)) ?t 0 = Some (int (length d))"
    using count_loop_ok [of "length p1" ?t "\<lambda>i. p1 ! i \<notin> set p2" 0] t(3) nth(2) by simp
  have col: "collect_loop (int (length p1)) ?t (ompi_group_peer_lookup junk g1) (replicate (length d) junkp, 0) =
      Some (d, int (length d))"
    using collect_loop_ok [of "length p1" ?t "\<lambda>i. p1 ! i \<notin> set p2" "ompi_group_peer_lookup junk g1" "(!) p1"
        0 "replicate (length d) junkp"] t(1,3) nth by simp
  have res: "distinct d" "set d \<subseteq> set (grp_procs g1) \<union> set (grp_procs g2)"
    using g1 by (auto simp: d_def p1_def grp_ok_def)
  show ?thesis
  proof (cases "d = []")
    case True
    then show ?thesis using cnt by (simp add: ompi_group_difference_def n Let_def grp_ok_empty flip: p1_def p2_def d_def)
  next
    case False
    from dense_result_ok [OF g1 g2 a False res, of junk rc] show ?thesis
      using False cnt col
      by (simp add: ompi_group_difference_def n Let_def ompi_group_allocate_def flip: p1_def p2_def d_def)
  qed
qed

lemma intersection_ok:
  assumes g1: "grp_ok me g1" and g2: "grp_ok me g2" and a: "fresh_addr a g1" and me: "sparse \<longrightarrow> me \<in> set (grp_procs g1)"
  shows "\<exists>rc' new. ompi_group_intersection sparse (Some before) junk junkp junkb (Ptr a) g1 g2 rc = Some (rc', Inr new) \<and> grp_ok me new \<and>
           grp_procs new = filter (\<lambda>p. p \<in> set (grp_procs g2)) (grp_procs g1)"
proof -
  define p1 p2 where "p1 = grp_procs g1" and "p2 = grp_procs g2"
  define idx where "idx = filter (\<lambda>i. p1 ! i \<in> set p2) [0..<length p1]"
  have wf: "grp_wf g1" "grp_wf g2" using g1 g2 by (simp_all add: grp_ok_def)
  have n: "grp_proc_count g1 = int (length p1)" using length_grp_procs [OF wf(1)] by (simp add: p1_def)
  let ?t = "\<lambda>proc1. do { p \<leftarrow> ompi_group_peer_lookup junk g1 proc1; found_in junk g2 p }"
  note t = test_member [OF wf, folded p1_def p2_def, of _ junk]
  have cnt: "count_loop (int (length p1)) ?t 0 = Some (int (length idx))"
    using count_loop_ok [of "length p1" ?t "\<lambda>i. p1 ! i \<in> set p2" 0] t(2) by (simp add: idx_def)
  have col: "collect_loop (int (length p1)) ?t Some (replicate (length idx) junk, 0) = Some (map int idx, int (length (map int idx)))"
    using collect_loop_ok [of "length p1" ?t "\<lambda>i. p1 ! i \<in> set p2" Some int 0 "replicate (length idx) junk"] t(2)
    by (simp add: idx_def)
  have pre: "incl_pre me a g1 (map int idx)"
    using g1 a n by (auto simp: incl_pre_def idx_def distinct_map)
  have "map (\<lambda>r. p1 ! nat r) (map int idx) = filter (\<lambda>p. p \<in> set p2) p1"
    using filter_nth [of p1 "\<lambda>p. p \<in> set p2"] by (simp add: idx_def comp_def)
  with incl_ok [OF pre me, of before junk junkp junkb rc] cnt col show ?thesis
    by (auto simp: ompi_group_intersection_def n Let_def incl_post_iff p1_def p2_def)
qed

section \<open>Comparison\<close>

lemma compare_loop_ok:
  assumes wf: "grp_wf g1" "grp_wf g2" and p2: "distinct (grp_procs g2)" and eq: "grp_proc_count g1 = grp_proc_count g2"
    and i: "i \<le> length (grp_procs g1)"
  shows "compare_loop junk g1 g2 (int i) ident =
         Some (let sim = (\<forall>k. i \<le> k \<and> k < length (grp_procs g1) \<longrightarrow> grp_procs g1 ! k \<in> set (grp_procs g2)) in
               (sim, sim \<and> ident \<and> (\<forall>k. i \<le> k \<and> k < length (grp_procs g1) \<longrightarrow> grp_procs g1 ! k = grp_procs g2 ! k)))"
  using i
proof (induction "length (grp_procs g1) - i" arbitrary: i ident)
  case 0
  then show ?case using length_grp_procs [OF wf(1)] by (auto simp: compare_loop.simps Let_def)
next
  case (Suc m)
  define n where "n = length (grp_procs g1)"
  have n: "grp_proc_count g1 = int n" "length (grp_procs g2) = n" "i < n" "m = n - Suc i"
    using length_grp_procs [OF wf(1)] length_grp_procs [OF wf(2)] eq Suc.hyps(2) by (auto simp: n_def)
  let ?p = "grp_procs g1 ! i"
  obtain k where k: "lookup_in junk g2 ?p = Some k" "0 \<le> k" "k \<le> int n"
    "\<forall>j < nat k. grp_procs g2 ! j \<noteq> ?p" "k < int n \<longrightarrow> grp_procs g2 ! nat k = ?p"
    using lookup_in_ok [OF wf(2), of junk ?p] n(1) eq by auto
  have mem: "?p \<in> set (grp_procs g2) \<longleftrightarrow> k < int n"
    using found_in_ok [OF wf(2), of junk ?p] k(1) n(1) eq by (simp add: found_in_def)
  have pos: "int i = k \<longleftrightarrow> ?p = grp_procs g2 ! i" if "k < int n"
  proof -
    have "nat k < n" using that k(2) by linarith
    then have "grp_procs g2 ! nat k = grp_procs g2 ! i \<longleftrightarrow> nat k = i" using n nth_eq_iff_index_eq [OF p2] by simp
    then show ?thesis using k(2,5) that by auto
  qed
  have split: "(\<forall>k. i \<le> k \<and> k < n \<longrightarrow> Q k) \<longleftrightarrow> Q i \<and> (\<forall>k. Suc i \<le> k \<and> k < n \<longrightarrow> Q k)" for Q
    using n(3) by (metis Suc_leD Suc_leI le_neq_implies_less order_refl)
  have step: "compare_loop junk g1 g2 (int i) ident =
      (if k < int n then compare_loop junk g1 g2 (int (Suc i)) (if int i \<noteq> k then False else ident) else Some (False, False))"
    using n peer_lookup_ok [OF wf(1), of "int i" junk] k(1) eq
    by (subst compare_loop.simps) (simp add: add.commute)
  show ?case
  proof (cases "k < int n")
    case True
    note IH = Suc.hyps(1) [of "Suc i" "if int i \<noteq> k then False else ident", folded n_def, OF n(4)]
    show ?thesis using n(3) IH mem pos [OF True] True unfolding step n_def [symmetric]
      by (subst (1 2) split) (auto simp: Let_def)
  next
    case False
    then show ?thesis using mem unfolding step n_def [symmetric] by (subst (1 2) split) (simp add: Let_def)
  qed
qed


section \<open>Properties\<close>



text \<open>Excluding ranks keeps the other processes in their order, and the range forms do the same with the
  ranks the triplets stand for; every result is a well-formed group with the right rank of the calling
  process.\<close>

theorem group_excl_and_ranges_correct:
  assumes "grp_ok me g" and "fresh_addr a g" and "sparse \<longrightarrow> me \<in> set (grp_procs g)"
    and "distinct ranks" and "\<forall>r \<in> set ranks. 0 \<le> r \<and> r < grp_proc_count g"
    and "\<forall>t \<in> set ranges. valid_triplet t" and "ranks = concat (map triplet_ranks ranges)"
  shows "(\<exists>rc' new. ompi_group_excl sparse (Some before) junk junkp junkb (Ptr a) g (int (length ranks)) ranks rc = Some (rc', Inr new) \<and>
            grp_ok me new \<and> grp_procs new = map (\<lambda>r. grp_procs g ! nat r) (excl_ranks g ranks)) \<and>
         (\<exists>rc' new. ompi_group_range_excl sparse (Some before) junk junkp junkb (Ptr a) g (int (length ranges)) ranges rc = Some (rc', Inr new) \<and>
            grp_ok me new \<and> grp_procs new = map (\<lambda>r. grp_procs g ! nat r) (excl_ranks g ranks)) \<and>
         (\<exists>rc' new. ompi_group_range_incl sparse (Some before) junk junkp junkb (Ptr a) g (int (length ranges)) ranges rc = Some (rc', Inr new) \<and>
            grp_ok me new \<and> grp_procs new = map (\<lambda>r. grp_procs g ! nat r) ranks)"
proof -
  have pre: "incl_pre me a g (concat (map triplet_ranks ranges))" using assms by (simp add: incl_pre_def)
  from excl_ok [OF pre assms(3), of before junk junkp junkb rc] range_excl_ok [OF pre assms(3,6), of before junk junkp junkb rc]
    range_incl_ok [OF pre assms(3,6), of before junk junkp junkb rc]
  show ?thesis unfolding incl_post_iff assms(7) by (intro conjI)
qed

theorem group_excl_and_ranges_correct_witness:
  "\<exists>rc' new. ompi_group_range_excl True (Some 0) 0 9 0 (Ptr 2) (Group 1 5 2 (Dense [3, 4, 5, 6, 7 :: nat])) 1 [(0, 4, 2)] (\<lambda>_. 1) = Some (rc', Inr new) \<and>
     grp_ok 5 new \<and> grp_procs new = [4, 6]"
proof -
  let ?g = "Group 1 5 2 (Dense [3, 4, 5, 6, 7 :: nat])"
  have ok: "grp_ok 5 ?g" "fresh_addr 2 ?g" by (simp_all add: grp_ok_def my_rank_ok_def fresh_addr_def grp_parent_group_ptr_def)
  have "True \<longrightarrow> (5 :: nat) \<in> set (grp_procs ?g)" "distinct [0, 2, 4 :: int]" "\<forall>r \<in> set [0, 2, 4]. 0 \<le> r \<and> r < grp_proc_count ?g"
    "\<forall>t \<in> set [(0, 4, 2)]. valid_triplet t" "[0, 2, 4] = concat (map triplet_ranks [(0, 4, 2)])"
    by (simp_all add: triplet_ranks_def valid_triplet_def is_cint_def opal_rc upt_rec)
  note result = group_excl_and_ranges_correct [OF ok this, of 0 0 9 0 "\<lambda>_. 1", THEN conjunct2, THEN conjunct1]
  have "map (\<lambda>r. grp_procs ?g ! nat r) (excl_ranks ?g [0, 2, 4]) = [4, 6]" by (simp add: excl_ranks_def upt_rec)
  with result show ?thesis by simp
qed

text \<open>C12: Union, intersection and difference of groups are those of their process lists: the union lists the
  first group and then the processes only the second has, the intersection and the difference keep the order
  of the first group. Each succeeds and gives a well-formed group with the right rank of the calling
  process. For the intersection with the sparse formats switched on, the calling process must be a member of
  the first group (the bitmap format fails for others) and the word in front of the list of ranks
  readable.\<close>

theorem group_set_operations_correct:
  assumes "grp_ok me g1" and "grp_ok me g2" and "fresh_addr a g1" and "sparse \<longrightarrow> me \<in> set (grp_procs g1)"
  shows "(\<exists>rc' new. ompi_group_union junk junkp (Ptr a) g1 g2 rc = Some (rc', Inr new) \<and> grp_ok me new \<and>
            grp_procs new = grp_procs g1 @ filter (\<lambda>p. p \<notin> set (grp_procs g1)) (grp_procs g2)) \<and>
         (\<exists>rc' new. ompi_group_intersection sparse (Some before) junk junkp junkb (Ptr a) g1 g2 rc = Some (rc', Inr new) \<and> grp_ok me new \<and>
            grp_procs new = filter (\<lambda>p. p \<in> set (grp_procs g2)) (grp_procs g1)) \<and>
         (\<exists>rc' new. ompi_group_difference junk junkp (Ptr a) g1 g2 rc = Some (rc', Inr new) \<and> grp_ok me new \<and>
            grp_procs new = filter (\<lambda>p. p \<notin> set (grp_procs g2)) (grp_procs g1))"
proof -
  have "a \<noteq> 0" using assms(3) by (simp add: fresh_addr_def)
  with union_ok [OF assms(1,2)] intersection_ok [OF assms] difference_ok [OF assms(1,2)] show ?thesis by simp
qed

theorem group_set_operations_correct_witness:
  "\<exists>rc' new. ompi_group_union 0 9 (Ptr 3) (Group 1 2 1 (Dense [3, 4 :: nat])) (Group 2 2 0 (Dense [4, 5])) (\<lambda>_. 1) = Some (rc', Inr new) \<and>
     grp_ok 4 new \<and> grp_procs new = [3, 4, 5]"
proof -
  let ?g1 = "Group 1 2 1 (Dense [3, 4 :: nat])" and ?g2 = "Group 2 2 0 (Dense [4, 5 :: nat])"
  have "grp_ok 4 ?g1" "grp_ok 4 ?g2" "fresh_addr 3 ?g1"
    by (simp_all add: grp_ok_def my_rank_ok_def fresh_addr_def grp_parent_group_ptr_def)
  from group_set_operations_correct [OF this, of False 0 9 "\<lambda>_. 1" 0 0] show ?thesis by simp
qed

text \<open>The comparison of two groups answers MPI_IDENT when they list the same processes in the same
  order, MPI_SIMILAR when they have the same processes in another order and MPI_UNEQUAL otherwise, whatever
  storage formats they use.\<close>

theorem group_compare_correct:
  assumes "grp_ok me g1" and "grp_ok me g2" and "grp_addr g1 = grp_addr g2 \<longrightarrow> g1 = g2"
  shows "ompi_group_compare junk g1 g2 =
         Some (if grp_procs g1 = grp_procs g2 then MPI_IDENT
               else if set (grp_procs g1) = set (grp_procs g2) then MPI_SIMILAR else MPI_UNEQUAL)"
proof -
  let ?p1 = "grp_procs g1" and ?p2 = "grp_procs g2"
  have wf: "grp_wf g1" "grp_wf g2" and d: "distinct ?p1" "distinct ?p2" using assms by (simp_all add: grp_ok_def)
  have n: "grp_proc_count g1 = int (length ?p1)" "grp_proc_count g2 = int (length ?p2)"
    using length_grp_procs [OF wf(1)] length_grp_procs [OF wf(2)] by simp_all
  have e: "grp_addr g = 0 \<longleftrightarrow> grp_procs g = []" if "grp_ok me g" for g
    using that length_grp_procs [of g] by (cases g) (auto simp: grp_ok_def)
  have card: "card (set ?p1) = length ?p1" "card (set ?p2) = length ?p2" using d by (simp_all add: distinct_card)
  consider (same) "grp_addr g1 = grp_addr g2" | (empty) "grp_addr g1 \<noteq> grp_addr g2" "grp_addr g1 = 0 \<or> grp_addr g2 = 0"
    | (sizes) "grp_addr g1 \<noteq> grp_addr g2" "grp_addr g1 \<noteq> 0" "grp_addr g2 \<noteq> 0" "length ?p1 \<noteq> length ?p2"
    | (loop) "grp_addr g1 \<noteq> grp_addr g2" "grp_addr g1 \<noteq> 0" "grp_addr g2 \<noteq> 0" "length ?p1 = length ?p2" by blast
  then show ?thesis
  proof cases
    case same
    with assms(3) have "g1 = g2" by blast
    then show ?thesis by (simp add: ompi_group_compare_def)
  next
    case empty
    then have "set ?p1 \<noteq> set ?p2" using e [OF assms(1)] e [OF assms(2)] by auto
    then show ?thesis using empty by (auto simp: ompi_group_compare_def is_group_empty_def MPI_GROUP_EMPTY_def)
  next
    case sizes
    then have "set ?p1 \<noteq> set ?p2" using card by metis
    then show ?thesis using sizes n by (auto simp: ompi_group_compare_def is_group_empty_def MPI_GROUP_EMPTY_def)
  next
    case loop
    have sim: "(\<forall>k. k < length ?p1 \<longrightarrow> ?p1 ! k \<in> set ?p2) \<longleftrightarrow> set ?p1 = set ?p2"
    proof
      assume "\<forall>k. k < length ?p1 \<longrightarrow> ?p1 ! k \<in> set ?p2"
      then have "set ?p1 \<subseteq> set ?p2" by (auto simp: in_set_conv_nth)
      then show "set ?p1 = set ?p2" using card loop(4) by (intro card_subset_eq) auto
    next
      assume "set ?p1 = set ?p2"
      then show "\<forall>k. k < length ?p1 \<longrightarrow> ?p1 ! k \<in> set ?p2" by (metis nth_mem)
    qed
    have idn: "(\<forall>k. k < length ?p1 \<longrightarrow> ?p1 ! k = ?p2 ! k) \<longleftrightarrow> ?p1 = ?p2" using loop(4) by (auto intro: nth_equalityI)
    show ?thesis
      using compare_loop_ok [OF wf d(2), of 0 junk True] loop n sim idn
      by (auto simp: ompi_group_compare_def is_group_empty_def MPI_GROUP_EMPTY_def Let_def)
  qed
qed

theorem group_compare_correct_witness:
  "ompi_group_compare 0 (Group 1 2 1 (Dense [3, 4 :: nat])) (Group 2 2 0 (Dense [4, 3])) = Some MPI_SIMILAR"
proof -
  let ?g1 = "Group 1 2 1 (Dense [3, 4 :: nat])" and ?g2 = "Group 2 2 0 (Dense [4, 3 :: nat])"
  have "grp_ok 4 ?g1" "grp_ok 4 ?g2" by (simp_all add: grp_ok_def my_rank_ok_def)
  from group_compare_correct [OF this, of 0] show ?thesis by auto
qed


end
