(* ===== verification/Cart_Topology.thy ===== *)
theory Cart_Topology
  imports Group
begin

text \<open>
  Cartesian topologies (\<^verbatim>\<open>ompi/mca/topo/base/topo_base_cart_*.c\<close>): the dimensions, periods and own
  coordinates a communicator carries, and the operations between ranks and coordinates. The model of a
  communicator is its size, the rank of the calling process and the topology. Division and remainder truncate
  as in C and are undefined for a zero divisor; the products of dimensions that the code forms before it has
  compared them with the size are checked for overflow.

  The theorems relate the loops to mixed-radix numbers: \<open>cart_value\<close> and \<open>cart_digits\<close>.
\<close>

section \<open>Data\<close>

definition MPI_ERR_INTERN :: int where [opal_rc]: "MPI_ERR_INTERN = 17"

record cart_topo =
  ndims :: int
  dims :: "int list"
  periods :: "int list"
  coords :: "int list"

record cart_comm =
  comm_size :: int
  comm_rank :: int
  cart :: cart_topo

section \<open>Coordinates and ranks\<close>

text \<open>The loop that \<open>cart_coords\<close>, \<open>cart_create\<close> and \<open>cart_sub\<close> share.\<close>

definition coords_step :: "int list \<Rightarrow> int \<Rightarrow> int \<times> int \<times> int list \<Rightarrow> (int \<times> int \<times> int list) option" where
  "coords_step ds i = (\<lambda>(remprocs, rank, cs). do {
     dim \<leftarrow> aget ds i;
     remprocs \<leftarrow> cdiv remprocs dim;
     c \<leftarrow> cdiv rank remprocs;
     cs \<leftarrow> aset cs i c;
     rank \<leftarrow> cmod rank remprocs;
     Some (remprocs, rank, cs) })"

definition mca_topo_base_cart_coords :: "cart_comm \<Rightarrow> int \<Rightarrow> int \<Rightarrow> int list \<Rightarrow> int list option" where
  "mca_topo_base_cart_coords comm rank maxdims cs = do {
     (remprocs, rank, cs) \<leftarrow>
       for_loop 0 (min (ndims (cart comm)) maxdims) (coords_step (dims (cart comm))) (comm_size comm, rank, cs);
     Some cs }"

text \<open>The loop runs from the last dimension to the first: \<open>i = ndims - 1 - j\<close>.\<close>

definition normalize_ord :: "int \<Rightarrow> int \<Rightarrow> int option" where
  "normalize_ord ord dim =
     (if ord < 0 \<or> ord \<ge> dim then do {
        ord \<leftarrow> cmod ord dim;
        Some (if ord < 0 then ord + dim else ord) }
      else Some ord)"

definition mca_topo_base_cart_rank :: "cart_comm \<Rightarrow> int list \<Rightarrow> int option" where
  "mca_topo_base_cart_rank comm cs = do {
     (factor, prank) \<leftarrow>
       for_loop 0 (ndims (cart comm))
         (\<lambda>j (factor, prank). do {
            dim \<leftarrow> aget (dims (cart comm)) (ndims (cart comm) - 1 - j);
            c \<leftarrow> aget cs (ndims (cart comm) - 1 - j);
            ord \<leftarrow> normalize_ord c dim;
            Some (factor * dim, prank + factor * ord) }) (1, 0);
     Some prank }"

definition shifted_rank :: "int \<Rightarrow> int \<Rightarrow> int \<Rightarrow> int \<Rightarrow> int \<Rightarrow> int \<Rightarrow> int option" where
  "shifted_rank rank thisdirection thisperiod factor ord neword =
     (if (neword < 0 \<or> neword \<ge> thisdirection) \<and> thisperiod = 0 then Some MPI_PROC_NULL
      else do {
        o' \<leftarrow> cmod neword thisdirection;
        Some (rank + ((if o' < 0 then o' + thisdirection else o') - ord) * factor) })"

text \<open>The pair is \<open>(*rank_source, *rank_dest)\<close>.\<close>

definition mca_topo_base_cart_shift :: "cart_comm \<Rightarrow> int \<Rightarrow> int \<Rightarrow> (int \<times> int) option" where
  "mca_topo_base_cart_shift comm direction disp =
     (if disp = 0 then Some (comm_rank comm, comm_rank comm)
      else do {
        (ord, factor, thisdirection, thisperiod) \<leftarrow>
          for_loop 0 (min (ndims (cart comm)) (direction + 1))
            (\<lambda>i (ord, factor, _, _). do {
               d \<leftarrow> aget (dims (cart comm)) i;
               q \<leftarrow> aget (periods (cart comm)) i;
               ord \<leftarrow> cmod ord factor;
               factor \<leftarrow> cdiv factor d;
               Some (ord, factor, d, q) }) (comm_rank comm, comm_size comm, 0, 0);
        ord \<leftarrow> cdiv ord factor;
        srcord \<leftarrow> cint (ord - disp);
        destord \<leftarrow> cint (ord + disp);
        dest \<leftarrow> shifted_rank (comm_rank comm) thisdirection thisperiod factor ord destord;
        src \<leftarrow> shifted_rank (comm_rank comm) thisdirection thisperiod factor ord srcord;
        Some (src, dest) })"

section \<open>Queries, map, create\<close>

definition mca_topo_base_cartdim_get :: "cart_comm \<Rightarrow> int" where
  "mca_topo_base_cartdim_get comm = ndims (cart comm)"

text \<open>\<open>memcpy(dst, src, m * sizeof(int))\<close>.\<close>

definition copy_ints :: "int list \<Rightarrow> int list \<Rightarrow> int \<Rightarrow> int list option" where
  "copy_ints dst src m =
     (if 0 \<le> m \<and> m \<le> int (length src) \<and> m \<le> int (length dst)
      then Some (take (nat m) src @ drop (nat m) dst) else None)"

definition mca_topo_base_cart_get ::
    "cart_comm \<Rightarrow> int \<Rightarrow> int list \<Rightarrow> int list \<Rightarrow> int list \<Rightarrow> (int list \<times> int list \<times> int list) option" where
  "mca_topo_base_cart_get comm maxdims ds ps cs = do {
     let m = (if maxdims \<le> ndims (cart comm) then maxdims else ndims (cart comm));
     ds \<leftarrow> copy_ints ds (dims (cart comm)) m;
     ps \<leftarrow> copy_ints ps (periods (cart comm)) m;
     cs \<leftarrow> copy_ints cs (coords (cart comm)) m;
     Some (ds, ps, cs) }"

text \<open>The number of processes of a grid; \<open>Inl\<close> when a dimension is not positive.\<close>

fun grid_size :: "int list \<Rightarrow> int \<Rightarrow> (unit + int) option" where
  "grid_size [] nprocs = Some (Inr nprocs)"
| "grid_size (p # ps) nprocs =
     (if p \<le> 0 then Some (Inl ()) else do { nprocs \<leftarrow> cint (nprocs * p); grid_size ps nprocs })"

definition mca_topo_base_cart_map :: "int \<Rightarrow> int \<Rightarrow> int list \<Rightarrow> int \<Rightarrow> (int \<times> int) option" where
  "mca_topo_base_cart_map comm_sz rank ds newrank = do {
     r \<leftarrow> grid_size ds 1;
     case r of
       Inl _ \<Rightarrow> Some (MPI_ERR_DIMS, newrank)
     | Inr nprocs \<Rightarrow>
         Some (if nprocs > comm_sz then (MPI_ERR_DIMS, newrank)
               else (MPI_SUCCESS, if rank < 0 \<or> rank \<ge> nprocs then MPI_UNDEFINED else rank)) }"

text \<open>
  Creation: \<open>al\<close> says which allocations of the topology and the process array succeed,
  \<open>allocate\<close> whether \<^verbatim>\<open>ompi_comm_allocate\<close> does and \<open>enable\<close> is the return code
  of \<^verbatim>\<open>ompi_comm_enable\<close>. When the topology structure itself cannot be allocated the code frees
  a communicator variable it has not set. The result is an error code or \<open>*comm_topo\<close>, where
  \<open>Null\<close> is MPI_COMM_NULL. \<open>ds\<close> and \<open>ps\<close> are the arrays of \<open>ndims\<close> entries.
\<close>

record cart_alloc =
  al_cart :: bool
  al_dims :: bool
  al_periods :: bool
  al_coords :: bool
  al_procs :: bool

definition cart_fill :: "cart_alloc \<Rightarrow> int list \<Rightarrow> int list \<Rightarrow> int \<Rightarrow> int \<Rightarrow> int \<Rightarrow> (int + cart_topo) option" where
  "cart_fill al ds ps n num_procs new_rank =
     (if n > 0 then
        if \<not> al_dims al then Some (Inl OPAL_ERROR)
        else if \<not> al_periods al then Some (Inl OPAL_ERR_OUT_OF_RESOURCE)
        else if \<not> al_coords al then Some (Inl OPAL_ERR_OUT_OF_RESOURCE)
        else do {
          (_, _, cs) \<leftarrow> for_loop 0 n (coords_step ds) (num_procs, new_rank, replicate (nat n) 0);
          Some (Inr \<lparr>ndims = n, dims = ds, periods = ps, coords = cs\<rparr>) }
      else Some (Inr \<lparr>ndims = n, dims = [], periods = [], coords = []\<rparr>))"

definition mca_topo_base_cart_create ::
    "cart_alloc \<Rightarrow> bool \<Rightarrow> int \<Rightarrow> int \<Rightarrow> int \<Rightarrow> int list \<Rightarrow> int list \<Rightarrow> (int + cart_comm ptr) option" where
  "mca_topo_base_cart_create al allocate enable num_procs new_rank ds ps = do {
     r \<leftarrow> grid_size ds 1;
     case r of
       Inl _ \<Rightarrow> Some (Inl OPAL_ERROR)
     | Inr nprocs \<Rightarrow>
         if num_procs < nprocs then Some (Inl MPI_ERR_DIMS)
         else do {
           let (n, new_rank, num_procs) =
                 (if new_rank > nprocs - 1 then (0, MPI_UNDEFINED, 0) else (int (length ds), new_rank, nprocs));
           if \<not> al_cart al then None
           else do {
             f \<leftarrow> cart_fill al ds ps n num_procs new_rank;
             case f of
               Inl e \<Rightarrow> Some (Inl e)
             | Inr c \<Rightarrow>
                 if num_procs > 0 \<and> \<not> al_procs al then Some (Inl OPAL_ERR_OUT_OF_RESOURCE)
                 else if \<not> allocate then Some (Inl MPI_ERR_INTERN)
                 else if enable \<noteq> OPAL_SUCCESS then Some (Inl enable)
                 else if MPI_UNDEFINED = new_rank then Some (Inr Null)
                 else Some (Inr (Ptr \<lparr>comm_size = num_procs, comm_rank = new_rank, cart = c\<rparr>)) } } }"

section \<open>Sub-grids\<close>

text \<open>Colour and key of the split, from the last dimension to the first.\<close>

definition sub_colour_key :: "cart_comm \<Rightarrow> int list \<Rightarrow> (int \<times> int \<times> int) option" where
  "sub_colour_key comm remain_dims = do {
     let t = cart comm;
     (colour, colfactor, key, keyfactor, ndim) \<leftarrow>
       for_loop 0 (ndims t)
         (\<lambda>j (colour, colfactor, key, keyfactor, ndim). do {
            dim \<leftarrow> aget (dims t) (ndims t - 1 - j);
            r \<leftarrow> aget remain_dims (ndims t - 1 - j);
            c \<leftarrow> aget (coords t) (ndims t - 1 - j);
            Some (if r = 0 then (colour + colfactor * c, colfactor * dim, key, keyfactor, ndim)
                  else (colour, colfactor, key + keyfactor * c, keyfactor * dim, ndim + 1)) }) (0, 1, 0, 1, 0);
     Some (if 0 = ndim then comm_rank comm else colour, key, ndim) }"

definition kept :: "int list \<Rightarrow> 'a list \<Rightarrow> 'a list" where
  "kept remain_dims xs = map snd (filter (\<lambda>(r, _). r \<noteq> 0) (zip remain_dims xs))"

text \<open>
  \<open>split colour key\<close> is the outcome of \<^verbatim>\<open>ompi_comm_split\<close>, if it has one: an error code, or the
  new communicator, of which the topology uses the size and the own rank. \<open>select\<close> is the return code of
  \<^verbatim>\<open>mca_topo_base_comm_select\<close>. The arrays of dimensions and periods are written without a test of
  their allocation, and after a failed allocation of the coordinates both are freed twice, by the function
  and by the destructor of the topology.
\<close>

definition mca_topo_base_cart_sub ::
    "cart_alloc \<Rightarrow> (int \<Rightarrow> int \<Rightarrow> (int + (int \<times> int)) option) \<Rightarrow> int \<Rightarrow> cart_comm \<Rightarrow> int list \<Rightarrow> (int + cart_comm) option" where
  "mca_topo_base_cart_sub al split select comm remain_dims = do {
     (colour, key, ndim) \<leftarrow> sub_colour_key comm remain_dims;
     result \<leftarrow> split colour key;
     case result of
       Inl errcode \<Rightarrow> Some (Inl errcode)
     | Inr (nprocs, rank) \<Rightarrow>
         if select \<noteq> OPAL_SUCCESS then Some (Inl OPAL_ERR_OUT_OF_RESOURCE)
         else if ndim \<ge> 1 \<and> (\<not> al_dims al \<or> \<not> al_periods al) then None
         else do {
           let ds = kept remain_dims (dims (cart comm));
           let ps = kept remain_dims (periods (cart comm));
           if \<not> al_cart al then Some (Inl OPAL_ERR_OUT_OF_RESOURCE)
           else if ndim > 0 \<and> \<not> al_coords al then None
           else do {
             (_, _, cs) \<leftarrow> for_loop 0 ndim (coords_step ds) (nprocs, rank, replicate (nat ndim) 0);
             Some (Inr \<lparr>comm_size = nprocs, comm_rank = rank,
                        cart = \<lparr>ndims = ndim, dims = ds, periods = ps, coords = cs\<rparr>\<rparr>) } } }"

section \<open>Mixed-radix numbers\<close>

fun cart_value :: "int list \<Rightarrow> int list \<Rightarrow> int" where
  "cart_value (d # ds) (c # cs) = c * prod_list ds + cart_value ds cs"
| "cart_value _ _ = 0"

fun cart_digits :: "int list \<Rightarrow> int \<Rightarrow> int list" where
  "cart_digits [] r = []"
| "cart_digits (d # ds) r = r div prod_list ds # cart_digits ds (r mod prod_list ds)"

definition in_grid :: "int list \<Rightarrow> int list \<Rightarrow> bool" where
  "in_grid ds cs \<longleftrightarrow> list_all2 (\<lambda>d c. 0 \<le> c \<and> c < d) ds cs"

definition pos_dims :: "int list \<Rightarrow> bool" where
  "pos_dims ds \<longleftrightarrow> (\<forall>d \<in> set ds. 0 < d)"

lemma pos_dims_simps [simp]: "pos_dims []" "pos_dims (d # ds) \<longleftrightarrow> 0 < d \<and> pos_dims ds"
  by (auto simp: pos_dims_def)

lemma in_grid_simps [simp]:
  "in_grid [] cs \<longleftrightarrow> cs = []" "in_grid (d # ds) (c # cs) \<longleftrightarrow> 0 \<le> c \<and> c < d \<and> in_grid ds cs"
  "in_grid ds [] \<longleftrightarrow> ds = []"
  by (auto simp: in_grid_def)

lemma prod_list_pos: "pos_dims ds \<Longrightarrow> 0 < prod_list ds"
  by (induction ds) auto

lemma length_cart_digits [simp]: "length (cart_digits ds r) = length ds"
  by (induction ds arbitrary: r) auto

lemma cart_value_bounds: "in_grid ds cs \<Longrightarrow> 0 \<le> cart_value ds cs \<and> cart_value ds cs < prod_list ds"
proof (induction ds cs rule: cart_value.induct)
  case (1 d ds c cs)
  then have IH: "0 \<le> cart_value ds cs" "cart_value ds cs < prod_list ds" and c: "0 \<le> c" "c + 1 \<le> d" by auto
  have "0 \<le> c * prod_list ds" "(c + 1) * prod_list ds \<le> d * prod_list ds"
    using IH c by (auto intro!: mult_right_mono)
  then show ?case using IH by (simp add: algebra_simps)
qed auto

lemma cart_digits_value: "in_grid ds cs \<Longrightarrow> cart_digits ds (cart_value ds cs) = cs"
proof (induction ds cs rule: cart_value.induct)
  case (1 d ds c cs)
  then have "0 \<le> cart_value ds cs" "cart_value ds cs < prod_list ds" using cart_value_bounds [of ds cs] by auto
  then show ?case using 1 by (simp add: div_pos_pos_trivial)
qed auto

lemma cart_digits_grid:
  "pos_dims ds \<Longrightarrow> 0 \<le> r \<Longrightarrow> r < prod_list ds \<Longrightarrow> in_grid ds (cart_digits ds r) \<and> cart_value ds (cart_digits ds r) = r"
proof (induction ds arbitrary: r)
  case (Cons d ds)
  have p: "0 < prod_list ds" using Cons.prems(1) prod_list_pos by simp
  have "r div prod_list ds < d" 
  proof (rule ccontr)
    assume "\<not> r div prod_list ds < d"
    then have "d * prod_list ds \<le> r div prod_list ds * prod_list ds" using p by (intro mult_right_mono) auto
    moreover have "r div prod_list ds * prod_list ds \<le> r" using p by (simp flip: minus_mod_eq_div_mult)
    ultimately show False using Cons.prems(3) by simp
  qed
  moreover have "0 \<le> r div prod_list ds" using Cons.prems(2) p by (simp add: pos_imp_zdiv_nonneg_iff)
  moreover have "in_grid ds (cart_digits ds (r mod prod_list ds)) \<and> cart_value ds (cart_digits ds (r mod prod_list ds)) = r mod prod_list ds"
    using Cons.IH [of "r mod prod_list ds"] Cons.prems(1) p by simp
  ultimately show ?case by simp
qed simp


lemma prod_list_drop: "i < length ds \<Longrightarrow> prod_list (drop i ds) = ds ! i * (prod_list (drop (Suc i) ds) :: int)"
  by (simp flip: Cons_nth_drop_Suc)

lemma prod_list_drop_dvd: "i \<le> j \<Longrightarrow> prod_list (drop j ds) dvd (prod_list (drop i ds) :: int)"
proof (induction j rule: dec_induct)
  case (step j)
  have "prod_list (drop (Suc j) ds) dvd prod_list (drop j ds)"
    by (cases "j < length ds") (simp_all add: prod_list_drop)
  then show ?case using step.IH by (rule dvd_trans)
qed simp

lemma mod_prod_drop: "r mod prod_list (drop i ds) mod prod_list (drop (Suc i) ds) = (r :: int) mod prod_list (drop (Suc i) ds)"
  by (rule mod_mod_cancel) (rule prod_list_drop_dvd, simp)

lemma pos_dims_drop: "pos_dims ds \<Longrightarrow> pos_dims (drop i ds)"
  by (auto simp: pos_dims_def dest: in_set_dropD)

lemma nth_cart_digits:
  "pos_dims ds \<Longrightarrow> 0 \<le> r \<Longrightarrow> r < prod_list ds \<Longrightarrow> i < length ds \<Longrightarrow>
   cart_digits ds r ! i = r mod prod_list (drop i ds) div prod_list (drop (Suc i) ds)"
proof (induction ds arbitrary: r i)
  case (Cons d ds)
  show ?case
  proof (cases i)
    case 0
    then show ?thesis using Cons.prems by (simp add: mod_pos_pos_trivial)
  next
    case (Suc k)
    have p: "0 < prod_list ds" using Cons.prems(1) prod_list_pos by simp
    have "r mod prod_list ds mod prod_list (drop k ds) = r mod prod_list (drop k ds)"
      by (rule mod_mod_cancel) (use prod_list_drop_dvd [of 0 k ds] in simp)
    then show ?thesis using Cons.IH [of "r mod prod_list ds" k] Cons.prems p Suc by simp
  qed
qed simp

lemma cart_value_update:
  "i < length ds \<Longrightarrow> length cs = length ds \<Longrightarrow>
   cart_value ds (cs[i := v]) = cart_value ds cs + (v - cs ! i) * prod_list (drop (Suc i) ds)"
proof (induction ds cs arbitrary: i rule: cart_value.induct)
  case (1 d ds c cs)
  then show ?case by (cases i) (auto simp: algebra_simps)
qed auto

lemma in_grid_nth: "in_grid ds cs \<Longrightarrow> i < length ds \<Longrightarrow> 0 \<le> cs ! i \<and> cs ! i < ds ! i"
  by (simp add: in_grid_def list_all2_conv_all_nth)

lemma in_grid_update: "in_grid ds cs \<Longrightarrow> 0 \<le> v \<Longrightarrow> v < ds ! i \<Longrightarrow> in_grid ds (cs[i := v])"
  by (cases "i < length ds") (auto simp: in_grid_def list_all2_conv_all_nth nth_list_update)

section \<open>What the loops compute\<close>

lemma coords_loop_ok:
  assumes "pos_dims ds" and "0 \<le> r" and "r < prod_list ds" and "m \<le> length ds" and "m \<le> length cs"
  shows "\<exists>rem rk. for_loop 0 (int m) (coords_step ds) (prod_list ds, r, cs) = Some (rem, rk, take m (cart_digits ds r) @ drop m cs)"
proof -
  let ?P = "\<lambda>i (rem, rk, cs'). rem = prod_list (drop (nat i) ds) \<and> rk = r mod prod_list (drop (nat i) ds) \<and>
              cs' = take (nat i) (cart_digits ds r) @ drop (nat i) cs"
  have "\<exists>s. for_loop 0 (int m) (coords_step ds) (prod_list ds, r, cs) = Some s \<and> ?P (int m) s"
  proof (rule for_loop_rule [where P = ?P])
    show "?P 0 (prod_list ds, r, cs)" using assms by simp
  next
    fix k s assume k: "0 \<le> k" "k < int m" and P: "?P k s"
    obtain rem rk cs' where s: "s = (rem, rk, cs')" by (cases s)
    define i where "i = nat k"
    have i: "k = int i" "i < m" "i < length ds" "i < length cs" "nat (k + 1) = Suc i" using k assms by (auto simp: i_def)
    define p where "p = prod_list (drop (Suc i) ds)"
    have p: "0 < p" using prod_list_pos [OF pos_dims_drop [OF assms(1)]] by (simp add: p_def)
    have d: "0 < ds ! i" using assms(1) i by (simp add: pos_dims_def)
    have P': "rem = ds ! i * p" "rk = r mod (ds ! i * p)" "cs' = take i (cart_digits ds r) @ drop i cs"
      using P s i by (simp_all add: prod_list_drop p_def)
    have rk: "0 \<le> rk" using P' d p by simp
    have dig: "rk div p = cart_digits ds r ! i"
      using nth_cart_digits [OF assms(1-3) i(3)] P'(2) i(3) by (simp add: prod_list_drop p_def)
    have upd: "cs'[i := cart_digits ds r ! i] = take (Suc i) (cart_digits ds r) @ drop (Suc i) cs"
      using P'(3) i by (simp add: list_update_append take_Suc_conv_app_nth Cons_nth_drop_Suc [symmetric])
    have "coords_step ds k s = Some (p, rk mod p, cs'[i := rk div p])"
      using s i P' p d rk by (simp add: coords_step_def cdiv_def cmod_def aget_def aset_def)
    moreover have "rk mod p = r mod p" using mod_prod_drop [of r i ds] P'(2) i by (simp add: prod_list_drop p_def)
    ultimately show "\<exists>s'. coords_step ds k s = Some s' \<and> ?P (k + 1) s'"
      using dig upd i by (simp add: p_def)
  qed simp
  then show ?thesis by auto
qed

lemma normalize_ord_ok: "0 < d \<Longrightarrow> normalize_ord c d = Some (c mod d)"
proof -
  assume d: "0 < d"
  have "c smod d = - ((- c) mod d)" if "c < 0"
    using that d by (simp add: signed_modulo_int_def sgn_if minus_div_mult_eq_mod algebra_simps flip: minus_div_mult_eq_mod)
  then have "c smod d = (if c mod d = 0 then 0 else c mod d - d)" if "c < 0" using that d by (simp add: zmod_zminus1_eq_if)
  moreover have "(c mod d < 0) = False" "c mod d < d" using d by (simp_all add: not_less)
  ultimately show ?thesis
    using d by (cases "c < 0") (simp_all add: normalize_ord_def cmod_def mod_pos_pos_trivial)
qed


section \<open>Cartesian communicators\<close>

text \<open>The state every operation leaves a Cartesian communicator in: the grid is the communicator, and the
  stored coordinates are those of the own rank.\<close>

definition cart_wf :: "cart_comm \<Rightarrow> bool" where
  "cart_wf comm \<longleftrightarrow>
     ndims (cart comm) = int (length (dims (cart comm))) \<and> pos_dims (dims (cart comm)) \<and>
     length (periods (cart comm)) = length (dims (cart comm)) \<and>
     comm_size comm = prod_list (dims (cart comm)) \<and> 0 \<le> comm_rank comm \<and> comm_rank comm < comm_size comm \<and>
     coords (cart comm) = cart_digits (dims (cart comm)) (comm_rank comm)"

text \<open>The communicator as the process of rank \<open>r\<close> has it.\<close>

definition at_rank :: "cart_comm \<Rightarrow> int \<Rightarrow> cart_comm" where
  "at_rank comm r = comm\<lparr>comm_rank := r, cart := (cart comm)\<lparr>coords := cart_digits (dims (cart comm)) r\<rparr>\<rparr>"

lemma cart_coords_ok:
  assumes "cart_wf comm" and "0 \<le> rank" and "rank < comm_size comm" and "0 \<le> maxdims" and "maxdims \<le> int (length cs)"
  shows "mca_topo_base_cart_coords comm rank maxdims cs =
         Some (take (nat (min (ndims (cart comm)) maxdims)) (cart_digits (dims (cart comm)) rank) @
               drop (nat (min (ndims (cart comm)) maxdims)) cs)"
proof -
  define m where "m = nat (min (ndims (cart comm)) maxdims)"
  have m: "min (ndims (cart comm)) maxdims = int m" "m \<le> length (dims (cart comm))" "m \<le> length cs"
    using assms by (auto simp: m_def cart_wf_def)
  obtain rem rk where "for_loop 0 (int m) (coords_step (dims (cart comm))) (prod_list (dims (cart comm)), rank, cs) =
      Some (rem, rk, take m (cart_digits (dims (cart comm)) rank) @ drop m cs)"
    using coords_loop_ok [of "dims (cart comm)" rank m cs] assms m by (auto simp: cart_wf_def)
  then show ?thesis using assms(1) m by (simp add: mca_topo_base_cart_coords_def cart_wf_def)
qed

lemma cart_rank_ok:
  assumes "cart_wf comm" and "length cs = length (dims (cart comm))"
  shows "mca_topo_base_cart_rank comm cs = Some (cart_value (dims (cart comm)) (map2 (mod) cs (dims (cart comm))))"
proof -
  define ds where "ds = dims (cart comm)"
  define n where "n = length ds"
  define os where "os = map2 (mod) cs ds"
  have n: "ndims (cart comm) = int n" "length cs = n" "length os = n" and pos: "pos_dims ds"
    using assms by (simp_all add: cart_wf_def ds_def n_def os_def)
  let ?body = "\<lambda>j (factor, prank). do {
      dim \<leftarrow> aget ds (int n - 1 - j);
      c \<leftarrow> aget cs (int n - 1 - j);
      ord \<leftarrow> normalize_ord c dim;
      Some (factor * dim, prank + factor * ord) }"
  let ?P = "\<lambda>j (factor, prank). factor = prod_list (drop (n - nat j) ds) \<and> prank = cart_value (drop (n - nat j) ds) (drop (n - nat j) os)"
  have "\<exists>s. for_loop 0 (int n) ?body (1, 0) = Some s \<and> ?P (int n) s"
  proof (rule for_loop_rule [where P = ?P])
    fix j s assume j: "0 \<le> j" "j < int n" and P: "?P j s"
    define i where "i = n - 1 - nat j"
    have i: "int n - 1 - j = int i" "i < n" "n - nat j = Suc i" "n - nat (j + 1) = i" using j by (auto simp: i_def)
    have d: "0 < ds ! i" using pos i by (simp add: pos_dims_def n_def)
    have dr: "drop i ds = ds ! i # drop (Suc i) ds" "drop i os = os ! i # drop (Suc i) os"
      using i n by (simp_all add: Cons_nth_drop_Suc n_def)
    have "os ! i = cs ! i mod ds ! i" using i n by (simp add: os_def n_def)
    then show "\<exists>s'. ?body j s = Some s' \<and> ?P (j + 1) s'"
      using P i n d dr by (cases s) (simp add: aget_def normalize_ord_ok n_def algebra_simps)
  qed (use n in \<open>simp_all add: n_def\<close>)
  then show ?thesis by (auto simp: mca_topo_base_cart_rank_def n simp flip: ds_def os_def)
qed

text \<open>The rank reached by moving \<open>disp\<close> along a dimension.\<close>

definition neighbour :: "cart_comm \<Rightarrow> nat \<Rightarrow> int \<Rightarrow> int" where
  "neighbour comm i disp =
     (let d = dims (cart comm) ! i; c = cart_digits (dims (cart comm)) (comm_rank comm) ! i + disp in
      if (c < 0 \<or> c \<ge> d) \<and> periods (cart comm) ! i = 0 then MPI_PROC_NULL
      else cart_value (dims (cart comm)) ((cart_digits (dims (cart comm)) (comm_rank comm))[i := c mod d]))"

lemma shifted_rank_ok:
  assumes "cart_wf comm" and "i < length (dims (cart comm))"
  shows "shifted_rank (comm_rank comm) (dims (cart comm) ! i) (periods (cart comm) ! i) (prod_list (drop (Suc i) (dims (cart comm))))
           (cart_digits (dims (cart comm)) (comm_rank comm) ! i) (cart_digits (dims (cart comm)) (comm_rank comm) ! i + disp) =
         Some (neighbour comm i disp)"
proof -
  define ds where "ds = dims (cart comm)"
  define r where "r = comm_rank comm"
  define c where "c = cart_digits ds r ! i + disp"
  have wf: "pos_dims ds" "0 \<le> r" "r < prod_list ds" using assms by (auto simp: cart_wf_def ds_def r_def)
  have d: "0 < ds ! i" using wf(1) assms(2) by (simp add: pos_dims_def ds_def)
  have "(do { o' \<leftarrow> cmod c (ds ! i); Some (if o' < 0 then o' + ds ! i else o') }) = Some (c mod ds ! i)"
    using normalize_ord_ok [OF d, of c] d by (cases "c < 0 \<or> c \<ge> ds ! i") (auto simp: normalize_ord_def cmod_def)
  then have n: "(if c smod ds ! i < 0 then c smod ds ! i + ds ! i else c smod ds ! i) = c mod ds ! i" using d by (simp add: cmod_def)
  have "cart_value ds ((cart_digits ds r)[i := c mod ds ! i]) = r + (c mod ds ! i - cart_digits ds r ! i) * prod_list (drop (Suc i) ds)"
    using cart_value_update [of i ds "cart_digits ds r"] assms(2) cart_digits_grid [OF wf] by (simp add: ds_def)
  then show ?thesis
    using d n unfolding neighbour_def shifted_rank_def ds_def [symmetric] r_def [symmetric] c_def [symmetric]
    by (cases "c < 0 \<or> ds ! i \<le> c") (auto simp: cmod_def)
qed

lemma cart_shift_ok:
  assumes wf: "cart_wf comm" and dir: "0 \<le> direction" "direction < ndims (cart comm)"
  shows "mca_topo_base_cart_shift comm direction disp =
         (if disp = 0 \<or> is_cint (coords (cart comm) ! nat direction - disp) \<and> is_cint (coords (cart comm) ! nat direction + disp)
          then Some (neighbour comm (nat direction) (- disp), neighbour comm (nat direction) disp) else None)"
proof -
  define ds where "ds = dims (cart comm)"
  define ps where "ps = periods (cart comm)"
  define r where "r = comm_rank comm"
  define i where "i = nat direction"
  have w: "pos_dims ds" "0 \<le> r" "r < prod_list ds" "comm_size comm = prod_list ds" "length ps = length ds" "ndims (cart comm) = int (length ds)"
    "coords (cart comm) = cart_digits ds r"
    using wf by (auto simp: cart_wf_def ds_def r_def ps_def)
  have i: "direction = int i" "i < length ds" "min (ndims (cart comm)) (direction + 1) = int (Suc i)" using dir w(6) by (auto simp: i_def)
  let ?body = "\<lambda>k (ord, factor, _, _). do {
               d \<leftarrow> aget ds k;
               q \<leftarrow> aget ps k;
               ord \<leftarrow> cmod ord factor;
               factor \<leftarrow> cdiv factor d;
               Some (ord, factor, d, q) }"
  let ?P = "\<lambda>k (ord, factor, d, q). factor = prod_list (drop (nat k) ds) \<and>
      (if k = 0 then ord = r else ord = r mod prod_list (drop (nat k - 1) ds) \<and> d = ds ! (nat k - 1) \<and> q = ps ! (nat k - 1))"
  have "\<exists>s. for_loop 0 (int (Suc i)) ?body (r, prod_list ds, 0, 0) = Some s \<and> ?P (int (Suc i)) s"
  proof (rule for_loop_rule [where P = ?P])
    fix k s assume k: "0 \<le> k" "k < int (Suc i)" and P: "?P k s"
    define j where "j = nat k"
    have j: "k = int j" "j < length ds" "nat (k + 1) = Suc j" "nat k = j" "k = 0 \<longleftrightarrow> j = 0" using k i by (auto simp: j_def)
    define p where "p = prod_list (drop (Suc j) ds)"
    have pos: "0 < p" "0 < ds ! j" using prod_list_pos [OF pos_dims_drop [OF w(1)]] w(1) j by (auto simp: p_def pos_dims_def)
    obtain ord factor d q where s: "s = (ord, factor, d, q)" by (cases s)
    have f: "factor = ds ! j * p" using P s j by (simp add: prod_list_drop p_def)
    have "0 \<le> ord \<and> ord mod factor = r mod factor"
    proof (cases j)
      case 0
      then show ?thesis using P s j w(2) by simp
    next
      case (Suc l)
      have "0 < prod_list (drop l ds)" using prod_list_pos [OF pos_dims_drop [OF w(1)]] .
      moreover have "ord = r mod prod_list (drop l ds)" "factor = prod_list (drop (Suc l) ds)"
        using P s Suc unfolding j(4,5) by auto
      ultimately show ?thesis using mod_prod_drop by simp
    qed
    then show "\<exists>s'. ?body k s = Some s' \<and> ?P (k + 1) s'"
      using s j f pos w(5) by (simp add: aget_def cmod_def cdiv_def p_def prod_list_drop)
  qed simp_all
  then have loop: "for_loop 0 (int (Suc i)) ?body (r, prod_list ds, 0, 0) =
      Some (r mod prod_list (drop i ds), prod_list (drop (Suc i) ds), ds ! i, ps ! i)" by (auto simp: nat_add_distrib)
  have pos: "0 < prod_list (drop (Suc i) ds)" "0 < prod_list (drop i ds)" using prod_list_pos [OF pos_dims_drop [OF w(1)]] by auto
  have dig: "cdiv (r mod prod_list (drop i ds)) (prod_list (drop (Suc i) ds)) = Some (cart_digits ds r ! i)"
    using nth_cart_digits [OF w(1-3) i(2)] pos by (simp add: cdiv_def)
  note sh = shifted_rank_ok [OF wf, folded ds_def ps_def r_def, OF i(2)]
  have zero: "neighbour comm i 0 = r"
    using cart_digits_grid [OF w(1-3)] in_grid_nth [of ds "cart_digits ds r" i] i(2)
    by (simp add: neighbour_def Let_def mod_pos_pos_trivial flip: ds_def r_def)
  show ?thesis
  proof (cases "disp = 0")
    case True
    then show ?thesis using zero i(1) by (simp add: mca_topo_base_cart_shift_def r_def)
  next
    case False
    then show ?thesis
      using loop dig sh [of disp] sh [of "- disp"] i w(4,7)
      by (simp add: mca_topo_base_cart_shift_def cint_def flip: ds_def ps_def r_def)
  qed
qed


section \<open>Creation\<close>

lemma grid_size_ok:
  "grid_size ds n = Some (Inr k) \<Longrightarrow> pos_dims ds \<and> k = n * prod_list ds"
proof (induction ds arbitrary: n)
  case (Cons d ds)
  then have d: "0 < d" "grid_size ds (n * d) = Some (Inr k)" by (auto simp: bind_eq_Some_conv cint_eq_Some_iff split: if_splits)
  show ?case using d(1) Cons.IH [OF d(2)] by (simp add: mult.assoc)
qed simp

lemma grid_size_total: "pos_dims ds \<Longrightarrow> 1 \<le> n \<Longrightarrow> n * prod_list ds \<le> INT_MAX \<Longrightarrow> grid_size ds n = Some (Inr (n * prod_list ds))"
proof (induction ds arbitrary: n)
  case (Cons d ds)
  have p: "1 \<le> prod_list ds" using prod_list_pos [of ds] Cons.prems(1) by simp
  have nd: "1 \<le> n * d" using Cons.prems mult_mono [of 1 n 1 d] by simp
  have "n * d * 1 \<le> n * d * prod_list ds" using p nd by (intro mult_left_mono) auto
  then have "n * d \<le> INT_MAX" using Cons.prems(3) by (simp add: mult.assoc)
  then have "cint (n * d) = Some (n * d)" using nd is_cintI [of "n * d"] by simp
  then show ?case using Cons.IH [of "n * d"] Cons.prems nd by (simp add: mult.assoc)
qed simp

lemma cart_fill_ok:
  assumes "pos_dims ds" and "0 \<le> r" and "r < prod_list ds"
    and "cart_fill al ds ps (int (length ds)) (prod_list ds) r = Some (Inr c)" and "length ps = length ds"
  shows "c = \<lparr>ndims = int (length ds), dims = ds, periods = ps, coords = cart_digits ds r\<rparr>"
proof (cases "ds = []")
  case False
  obtain rem rk where "for_loop 0 (int (length ds)) (coords_step ds) (prod_list ds, r, replicate (length ds) 0) =
      Some (rem, rk, cart_digits ds r)" using coords_loop_ok [OF assms(1-3), of "length ds" "replicate (length ds) 0"] by auto
  then show ?thesis using assms(4) False by (auto simp: cart_fill_def split: if_splits)
qed (use assms(4,5) in \<open>simp add: cart_fill_def\<close>)

definition no_failure :: cart_alloc where
  "no_failure = \<lparr>al_cart = True, al_dims = True, al_periods = True, al_coords = True, al_procs = True\<rparr>"

lemma cart_create_member:
  assumes "pos_dims ds" and "prod_list ds \<le> num_procs" and "num_procs \<le> INT_MAX" and "0 \<le> r" and "r < prod_list ds"
    and "length ps = length ds"
  shows "mca_topo_base_cart_create no_failure True OPAL_SUCCESS num_procs r ds ps =
           Some (Inr (Ptr \<lparr>comm_size = prod_list ds, comm_rank = r,
             cart = \<lparr>ndims = int (length ds), dims = ds, periods = ps, coords = cart_digits ds r\<rparr>\<rparr>))"
proof -
  have g: "grid_size ds 1 = Some (Inr (prod_list ds))" using grid_size_total [of ds 1] assms by simp
  obtain rem rk where "for_loop 0 (int (length ds)) (coords_step ds) (prod_list ds, r, replicate (length ds) 0) =
      Some (rem, rk, cart_digits ds r)" using coords_loop_ok [OF assms(1,4,5), of "length ds" "replicate (length ds) 0"] by auto
  then have "cart_fill no_failure ds ps (int (length ds)) (prod_list ds) r =
      Some (Inr \<lparr>ndims = int (length ds), dims = ds, periods = ps, coords = cart_digits ds r\<rparr>)"
    using assms(6) by (cases "ds = []") (simp_all add: cart_fill_def no_failure_def)
  moreover have "r \<noteq> MPI_UNDEFINED" using assms(4) by (auto simp: MPI_UNDEFINED_def)
  ultimately show ?thesis using g assms
    by (auto simp: mca_topo_base_cart_create_def Let_def no_failure_def)
qed

section \<open>Sub-grids\<close>

definition dropped :: "int list \<Rightarrow> 'a list \<Rightarrow> 'a list" where
  "dropped remain_dims xs = map snd (filter (\<lambda>(r, _). r = 0) (zip remain_dims xs))"

lemma kept_dropped_Cons [simp]:
  "kept (r # rs) (x # xs) = (if r \<noteq> 0 then x # kept rs xs else kept rs xs)" "kept [] xs = []"
  "dropped (r # rs) (x # xs) = (if r = 0 then x # dropped rs xs else dropped rs xs)" "dropped [] xs = []"
  by (simp_all add: kept_def dropped_def)

lemma length_kept: "length xs = length rs \<Longrightarrow> length ys = length rs \<Longrightarrow> length (kept rs xs) = length (kept rs ys)"
proof (induction rs arbitrary: xs ys)
  case (Cons r rs)
  then show ?case by (cases xs; cases ys) auto
qed simp

lemma in_grid_kept:
  "in_grid ds cs \<Longrightarrow> length rs = length ds \<Longrightarrow> in_grid (kept rs ds) (kept rs cs) \<and> in_grid (dropped rs ds) (dropped rs cs)"
proof (induction rs arbitrary: ds cs)
  case (Cons r rs)
  then show ?case by (cases ds; cases cs) auto
qed simp

lemma pos_dims_kept: "pos_dims ds \<Longrightarrow> pos_dims (kept rs ds)"
  by (auto simp: pos_dims_def kept_def dest: set_zip_rightD)

lemma sub_colour_key_ok:
  assumes "cart_wf comm" and "length rs = length (dims (cart comm))"
  shows "sub_colour_key comm rs =
         Some (if kept rs (dims (cart comm)) = [] then comm_rank comm
               else cart_value (dropped rs (dims (cart comm))) (dropped rs (coords (cart comm))),
               cart_value (kept rs (dims (cart comm))) (kept rs (coords (cart comm))),
               int (length (kept rs (dims (cart comm)))))"
proof -
  define ds where "ds = dims (cart comm)"
  define cs where "cs = coords (cart comm)"
  define n where "n = length ds"
  have n: "ndims (cart comm) = int n" "length cs = n" "length rs = n"
    using assms by (simp_all add: cart_wf_def ds_def cs_def n_def)
  let ?k = "\<lambda>j xs. kept (drop j rs) (drop j xs)" and ?d = "\<lambda>j xs. dropped (drop j rs) (drop j xs)"
  let ?P = "\<lambda>j s. s = (let i = n - nat j in
      (cart_value (?d i ds) (?d i cs), prod_list (?d i ds), cart_value (?k i ds) (?k i cs), prod_list (?k i ds), int (length (?k i ds))))"
  let ?body = "\<lambda>j (colour, colfactor, key, keyfactor, ndim). do {
            dim \<leftarrow> aget ds (int n - 1 - j);
            r \<leftarrow> aget rs (int n - 1 - j);
            c \<leftarrow> aget cs (int n - 1 - j);
            Some (if r = 0 then (colour + colfactor * c, colfactor * dim, key, keyfactor, ndim)
                  else (colour, colfactor, key + keyfactor * c, keyfactor * dim, ndim + 1)) }"
  have "\<exists>s. for_loop 0 (int n) ?body (0, 1, 0, 1, 0) = Some s \<and> ?P (int n) s"
  proof (rule for_loop_rule [where P = ?P])
    fix j s assume j: "0 \<le> j" "j < int n" and P: "?P j s"
    define i where "i = n - 1 - nat j"
    have i: "int n - 1 - j = int i" "i < n" "n - nat j = Suc i" "n - nat (j + 1) = i" using j by (auto simp: i_def)
    have dr: "drop i ds = ds ! i # drop (Suc i) ds" "drop i cs = cs ! i # drop (Suc i) cs" "drop i rs = rs ! i # drop (Suc i) rs"
      using i n by (simp_all add: Cons_nth_drop_Suc n_def)
    show "\<exists>s'. ?body j s = Some s' \<and> ?P (j + 1) s'"
      using P i n dr by (simp add: aget_def n_def Let_def algebra_simps)
  qed (use n in \<open>simp_all add: n_def Let_def\<close>)
  then show ?thesis by (auto simp: sub_colour_key_def n Let_def simp flip: ds_def cs_def)
qed

text \<open>
  What the processes of a communicator get from \<^verbatim>\<open>ompi_comm_split\<close>: \<open>ck\<close> is the colour and
  the key each rank below \<open>n\<close> passes; the processes of one colour form a communicator, ordered by
  their keys and, where these are equal, by their old ranks.
\<close>

definition split_members :: "(int \<Rightarrow> int \<times> int) \<Rightarrow> int \<Rightarrow> int \<Rightarrow> int list" where
  "split_members ck n r = filter (\<lambda>q. fst (ck q) = fst (ck r)) [0..n - 1]"

definition split_size :: "(int \<Rightarrow> int \<times> int) \<Rightarrow> int \<Rightarrow> int \<Rightarrow> int" where
  "split_size ck n r = int (length (split_members ck n r))"

definition split_rank :: "(int \<Rightarrow> int \<times> int) \<Rightarrow> int \<Rightarrow> int \<Rightarrow> int" where
  "split_rank ck n r =
     int (length (filter (\<lambda>q. snd (ck q) < snd (ck r) \<or> snd (ck q) = snd (ck r) \<and> q < r) (split_members ck n r)))"

definition sub_request :: "cart_comm \<Rightarrow> int list \<Rightarrow> int \<Rightarrow> int \<times> int" where
  "sub_request comm rs r = (case sub_colour_key (at_rank comm r) rs of Some (colour, key, _) \<Rightarrow> (colour, key) | None \<Rightarrow> (0, 0))"

fun merge :: "int list \<Rightarrow> 'a list \<Rightarrow> 'a list \<Rightarrow> 'a list" where
  "merge [] ks dr = []"
| "merge (r # rs) ks dr = (if r \<noteq> 0 then hd ks # merge rs (tl ks) dr else hd dr # merge rs ks (tl dr))"

lemma merge_kept_dropped: "length xs = length rs \<Longrightarrow> merge rs (kept rs xs) (dropped rs xs) = xs"
proof (induction rs arbitrary: xs)
  case (Cons r rs)
  then show ?case by (cases xs) auto
qed simp

lemma in_grid_merge:
  "in_grid (kept rs ds) ks \<Longrightarrow> in_grid (dropped rs ds) dr \<Longrightarrow> length rs = length ds \<Longrightarrow>
   in_grid ds (merge rs ks dr) \<and> kept rs (merge rs ks dr) = ks \<and> dropped rs (merge rs ks dr) = dr"
proof (induction rs arbitrary: ds ks dr)
  case (Cons r rs)
  then obtain d ds' where ds: "ds = d # ds'" by (cases ds) auto
  show ?case
  proof (cases "r = 0")
    case True
    then obtain x dr' where "dr = x # dr'" using Cons.prems(2) ds by (cases dr) auto
    then show ?thesis using Cons ds True by auto
  next
    case False
    then obtain k ks' where "ks = k # ks'" using Cons.prems(1) ds by (cases ks) auto
    then show ?thesis using Cons ds False by auto
  qed
qed auto

lemma at_rank_wf: "cart_wf comm \<Longrightarrow> 0 \<le> r \<Longrightarrow> r < comm_size comm \<Longrightarrow> cart_wf (at_rank comm r)"
  by (simp add: cart_wf_def at_rank_def)

lemma at_rank_own: "cart_wf comm \<Longrightarrow> at_rank comm (comm_rank comm) = comm"
  by (simp add: cart_wf_def at_rank_def)

text \<open>The processes of one colour are numbered by their keys.\<close>

lemma kept_value_bij:
  assumes ds: "pos_dims ds" and rs: "length rs = length ds" and r: "0 \<le> r" "r < prod_list ds"
  defines "K \<equiv> \<lambda>q. cart_value (kept rs ds) (kept rs (cart_digits ds q))"
    and "D \<equiv> \<lambda>q. cart_value (dropped rs ds) (dropped rs (cart_digits ds q))"
  shows "bij_betw K {q. 0 \<le> q \<and> q < prod_list ds \<and> D q = D r} {0..<prod_list (kept rs ds)}"
proof -
  let ?S = "{q. 0 \<le> q \<and> q < prod_list ds \<and> D q = D r}"
  have g: "in_grid ds (cart_digits ds q)" "cart_value ds (cart_digits ds q) = q" "in_grid (kept rs ds) (kept rs (cart_digits ds q))"
    "in_grid (dropped rs ds) (dropped rs (cart_digits ds q))" if "0 \<le> q" "q < prod_list ds" for q
    using cart_digits_grid [OF ds that] in_grid_kept [of ds "cart_digits ds q" rs] rs by auto
  have kd: "cart_digits (kept rs ds) (K q) = kept rs (cart_digits ds q)" "cart_digits (dropped rs ds) (D q) = dropped rs (cart_digits ds q)"
    if "0 \<le> q" "q < prod_list ds" for q
    using cart_digits_value [OF g(3) [OF that]] cart_digits_value [OF g(4) [OF that]] by (simp_all add: K_def D_def)
  have dr: "dropped rs (cart_digits ds q) = dropped rs (cart_digits ds r)" if "q \<in> ?S" for q
    using that kd(2) [of q] kd(2) [OF r] by simp
  have "inj_on K ?S"
  proof (rule inj_onI)
    fix p q assume pq: "p \<in> ?S" "q \<in> ?S" "K p = K q"
    have "kept rs (cart_digits ds p) = kept rs (cart_digits ds q)"
      using pq kd(1) [of p] kd(1) [of q] by simp
    moreover have "dropped rs (cart_digits ds p) = dropped rs (cart_digits ds q)" using dr [OF pq(1)] dr [OF pq(2)] by (rule trans [OF _ sym])
    ultimately have "merge rs (kept rs (cart_digits ds p)) (dropped rs (cart_digits ds p)) =
        merge rs (kept rs (cart_digits ds q)) (dropped rs (cart_digits ds q))" by (simp only:)
    then have "cart_digits ds p = cart_digits ds q" using rs by (simp only: merge_kept_dropped length_cart_digits)
    moreover have "cart_value ds (cart_digits ds p) = p" "cart_value ds (cart_digits ds q) = q" using g(2) pq(1,2) by blast+
    ultimately show "p = q" by metis
  qed
  moreover have "K ` ?S = {0..<prod_list (kept rs ds)}"
  proof
    show "K ` ?S \<subseteq> {0..<prod_list (kept rs ds)}" using cart_value_bounds [OF g(3)] by (auto simp: K_def)
    show "{0..<prod_list (kept rs ds)} \<subseteq> K ` ?S"
    proof
      fix v assume v: "v \<in> {0..<prod_list (kept rs ds)}"
      let ?ks = "cart_digits (kept rs ds) v"
      have k: "in_grid (kept rs ds) ?ks" "cart_value (kept rs ds) ?ks = v"
        using cart_digits_grid [OF pos_dims_kept [OF ds], of v rs] v by auto
      define q where "q = cart_value ds (merge rs ?ks (dropped rs (cart_digits ds r)))"
      have m: "in_grid ds (merge rs ?ks (dropped rs (cart_digits ds r)))" "kept rs (merge rs ?ks (dropped rs (cart_digits ds r))) = ?ks"
        "dropped rs (merge rs ?ks (dropped rs (cart_digits ds r))) = dropped rs (cart_digits ds r)"
        using in_grid_merge [OF k(1) g(4) [OF r] rs] by auto
      have "q \<in> ?S" "K q = v"
        using cart_value_bounds [OF m(1)] cart_digits_value [OF m(1)] m(2,3) k(2) by (auto simp: q_def K_def D_def)
      then show "v \<in> K ` ?S" by blast
    qed
  qed
  ultimately show ?thesis by (simp add: bij_betw_def)
qed

lemma sub_request_ok:
  assumes "cart_wf comm" and "length rs = length (dims (cart comm))" and "0 \<le> r" and "r < comm_size comm"
  shows "sub_request comm rs r =
         (if kept rs (dims (cart comm)) = [] then r
          else cart_value (dropped rs (dims (cart comm))) (dropped rs (cart_digits (dims (cart comm)) r)),
          cart_value (kept rs (dims (cart comm))) (kept rs (cart_digits (dims (cart comm)) r)))"
proof -
  have rs: "length rs = length (dims (cart (at_rank comm r)))" using assms(2) by (simp add: at_rank_def)
  show ?thesis using sub_colour_key_ok [OF at_rank_wf [OF assms(1,3,4)] rs] by (simp add: sub_request_def at_rank_def)
qed

lemma length_filter_card: "length (filter P [0..n - 1]) = card {q. 0 \<le> q \<and> q < n \<and> P (q :: int)}"
proof -
  have "length (filter P [0..n - 1]) = card (set (filter P [0..n - 1]))" by (rule distinct_card [symmetric]) simp
  also have "set (filter P [0..n - 1]) = {q. 0 \<le> q \<and> q < n \<and> P q}" by auto
  finally show ?thesis .
qed

lemma sub_split_ok:
  assumes wf: "cart_wf comm" and rs: "length rs = length (dims (cart comm))"
  shows "split_size (sub_request comm rs) (comm_size comm) (comm_rank comm) = prod_list (kept rs (dims (cart comm)))"
    and "split_rank (sub_request comm rs) (comm_size comm) (comm_rank comm) = snd (sub_request comm rs (comm_rank comm))"
proof -
  define ds where "ds = dims (cart comm)"
  define n where "n = comm_size comm"
  define r where "r = comm_rank comm"
  define K where "K = (\<lambda>q. cart_value (kept rs ds) (kept rs (cart_digits ds q)))"
  define S where "S = {q. 0 \<le> q \<and> q < n \<and> fst (sub_request comm rs q) = fst (sub_request comm rs r)}"
  have w: "pos_dims ds" "n = prod_list ds" "0 \<le> r" "r < n" using wf by (auto simp: cart_wf_def ds_def n_def r_def)
  note req = sub_request_ok [OF wf rs, folded ds_def n_def, folded K_def]
  have K: "snd (sub_request comm rs q) = K q" if "q \<in> S" for q using req [of q] that by (simp add: S_def K_def)
  have rS: "r \<in> S" using w by (simp add: S_def)
  have bij: "bij_betw K S {0..<prod_list (kept rs ds)}"
  proof (cases "kept rs ds = []")
    case True
    then have "S = {r}" using req w by (auto simp: S_def)
    then show ?thesis using True by (auto simp: K_def bij_betw_def)
  next
    case False
    have "S = {q. 0 \<le> q \<and> q < prod_list ds \<and> cart_value (dropped rs ds) (dropped rs (cart_digits ds q)) =
        cart_value (dropped rs ds) (dropped rs (cart_digits ds r))}" using False req w by (auto simp: S_def)
    then show ?thesis using kept_value_bij [OF w(1), of rs r] rs w by (simp add: K_def ds_def)
  qed
  have "card S = nat (prod_list (kept rs ds))" using bij_betw_same_card [OF bij] by simp
  moreover have "0 < prod_list (kept rs ds)" using prod_list_pos [OF pos_dims_kept [OF w(1)]] .
  moreover have "length (split_members (sub_request comm rs) n r) = card S" by (simp add: split_members_def length_filter_card S_def)
  ultimately show "split_size (sub_request comm rs) (comm_size comm) (comm_rank comm) = prod_list (kept rs (dims (cart comm)))"
    by (simp add: split_size_def flip: ds_def n_def r_def)
  let ?L = "{q \<in> S. K q < K r}"
  have "length (filter (\<lambda>q. snd (sub_request comm rs q) < K r \<or> snd (sub_request comm rs q) = K r \<and> q < r) (split_members (sub_request comm rs) n r)) =
      card {q \<in> S. K q < K r \<or> K q = K r \<and> q < r}"
    unfolding split_members_def filter_filter length_filter_card by (rule arg_cong [where f = card]) (use K in \<open>auto simp: S_def\<close>)
  also have "{q \<in> S. K q < K r \<or> K q = K r \<and> q < r} = ?L"
    using bij_betw_imp_inj_on [OF bij] rS by (auto dest: inj_onD)
  also have "card ?L = card {0..<K r}"
  proof (rule bij_betw_same_card [of K])
    have "K r \<in> {0..<prod_list (kept rs ds)}" using bij_betw_apply [OF bij rS] .
    then have img: "K ` ?L = {0..<K r}" using bij_betw_imp_surj_on [OF bij] by (auto simp: image_iff set_eq_iff) (metis order_less_trans)+
    show "bij_betw K ?L {0..<K r}" using img bij_betw_imp_inj_on [OF bij] by (auto simp: bij_betw_def intro: inj_on_subset)
  qed
  finally show "split_rank (sub_request comm rs) (comm_size comm) (comm_rank comm) = snd (sub_request comm rs (comm_rank comm))"
    using K [OF rS] bij_betw_apply [OF bij rS] by (simp add: split_rank_def flip: n_def r_def)
qed

section \<open>Properties\<close>

text \<open>C20: On a Cartesian communicator, the coordinates of every rank lie in the grid and their rank is that
  rank again, the rank of every point of the grid has these coordinates, and coordinates outside the grid
  stand for the point they wrap around to, in every dimension, periodic or not: the comment in the function
  and the manual page of MPI_Cart_rank call such coordinates an error where the dimension is not periodic.\<close>

theorem cart_coords_rank_roundtrip:
  assumes "cart_wf comm" and "length old = length (dims (cart comm))"
  shows "(\<forall>r. 0 \<le> r \<and> r < comm_size comm \<longrightarrow>
            (\<exists>cs. mca_topo_base_cart_coords comm r (ndims (cart comm)) old = Some cs \<and> in_grid (dims (cart comm)) cs \<and>
                  mca_topo_base_cart_rank comm cs = Some r)) \<and>
         (\<forall>cs. in_grid (dims (cart comm)) cs \<longrightarrow>
            (\<exists>r. mca_topo_base_cart_rank comm cs = Some r \<and> 0 \<le> r \<and> r < comm_size comm \<and>
                 mca_topo_base_cart_coords comm r (ndims (cart comm)) old = Some cs)) \<and>
         (\<forall>cs. length cs = length (dims (cart comm)) \<longrightarrow>
            mca_topo_base_cart_rank comm cs = mca_topo_base_cart_rank comm (map2 (mod) cs (dims (cart comm))) \<and>
            in_grid (dims (cart comm)) (map2 (mod) cs (dims (cart comm))))"
proof -
  define ds where "ds = dims (cart comm)"
  have w: "pos_dims ds" "comm_size comm = prod_list ds" "ndims (cart comm) = int (length ds)"
    using assms by (simp_all add: cart_wf_def ds_def)
  have c: "mca_topo_base_cart_coords comm r (ndims (cart comm)) old = Some (cart_digits ds r)"
    if "0 \<le> r" "r < comm_size comm" for r
    using cart_coords_ok [OF assms(1) that, of "ndims (cart comm)" old] assms(2) w(3) by (simp add: ds_def)
  have len: "length cs = length ds" if "in_grid ds cs" for cs using that by (auto simp: in_grid_def dest: list_all2_lengthD)
  have m: "map2 (mod) cs ds = cs" if g: "in_grid ds cs" for cs
    using in_grid_nth [OF g] len [OF g] by (intro nth_equalityI) (auto simp: mod_pos_pos_trivial)
  have wrap: "in_grid ds (map2 (mod) cs ds)" if "length cs = length ds" for cs
    using that w(1) by (auto simp: in_grid_def list_all2_conv_all_nth pos_dims_def)
  note rk = cart_rank_ok [OF assms(1), folded ds_def]
  have rkg: "mca_topo_base_cart_rank comm cs = Some (cart_value ds cs)" if "in_grid ds cs" for cs
    using rk [OF len [OF that]] m [OF that] by simp
  have "\<exists>cs. mca_topo_base_cart_coords comm r (ndims (cart comm)) old = Some cs \<and> in_grid ds cs \<and> mca_topo_base_cart_rank comm cs = Some r"
    if "0 \<le> r \<and> r < comm_size comm" for r
    using c [of r] that w(2) cart_digits_grid [OF w(1), of r] rkg [of "cart_digits ds r"] by simp
  moreover have "\<exists>r. mca_topo_base_cart_rank comm cs = Some r \<and> 0 \<le> r \<and> r < comm_size comm \<and>
      mca_topo_base_cart_coords comm r (ndims (cart comm)) old = Some cs" if "in_grid ds cs" for cs
    using rkg [OF that] cart_value_bounds [OF that] cart_digits_value [OF that] c [of "cart_value ds cs"] w(2) by simp
  moreover have "mca_topo_base_cart_rank comm cs = mca_topo_base_cart_rank comm (map2 (mod) cs ds) \<and> in_grid ds (map2 (mod) cs ds)"
    if "length cs = length ds" for cs
    using rk [OF that] rkg [OF wrap [OF that]] wrap [OF that] by simp
  ultimately show ?thesis unfolding ds_def [symmetric] by blast
qed

theorem cart_coords_rank_roundtrip_witness:
  "(\<exists>cs. mca_topo_base_cart_coords \<lparr>comm_size = 6, comm_rank = 4, cart = \<lparr>ndims = 2, dims = [2, 3], periods = [0, 1], coords = [1, 1]\<rparr>\<rparr> 5 2 [0, 0] = Some cs \<and>
      mca_topo_base_cart_rank \<lparr>comm_size = 6, comm_rank = 4, cart = \<lparr>ndims = 2, dims = [2, 3], periods = [0, 1], coords = [1, 1]\<rparr>\<rparr> cs = Some 5)"
proof -
  let ?c = "\<lparr>comm_size = 6, comm_rank = 4, cart = \<lparr>ndims = 2, dims = [2, 3], periods = [0, 1], coords = [1, 1]\<rparr>\<rparr>"
  have wf: "cart_wf ?c" "length [0, 0 :: int] = length (dims (cart ?c))" by (simp_all add: cart_wf_def)
  from cart_coords_rank_roundtrip [OF wf, THEN conjunct1, rule_format, of 5] show ?thesis by auto
qed

text \<open>C10: A shift along a dimension changes exactly the coordinate of that dimension: the destination and the
  source are the ranks of the points displaced up and down, wrapped around in a periodic dimension and
  MPI_PROC_NULL beyond the border of a non-periodic one. This needs that the own coordinate plus and minus the
  displacement fit an int; for any other displacement the shift overflows, however it wraps. And source and
  destination are inverse: the process that is my destination has me as its source, where no coordinate of
  the dimension can overflow with the displacement.\<close>

theorem cart_shift_moves_one_coordinate:
  assumes "cart_wf comm" and "0 \<le> direction" and "direction < ndims (cart comm)"
  shows "mca_topo_base_cart_shift comm direction disp =
           (if disp = 0 \<or> is_cint (coords (cart comm) ! nat direction - disp) \<and> is_cint (coords (cart comm) ! nat direction + disp)
            then Some (neighbour comm (nat direction) (- disp), neighbour comm (nat direction) disp) else None) \<and>
         (\<forall>src dest. mca_topo_base_cart_shift comm direction disp = Some (src, dest) \<and> dest \<noteq> MPI_PROC_NULL \<and>
              dims (cart comm) ! nat direction + \<bar>disp\<bar> \<le> INT_MAX \<longrightarrow>
            (\<exists>dest'. mca_topo_base_cart_shift (at_rank comm dest) direction disp = Some (comm_rank comm, dest')))"
proof -
  define ds where "ds = dims (cart comm)"
  define i where "i = nat direction"
  define r where "r = comm_rank comm"
  define x where "x = cart_digits ds r ! i"
  have w: "pos_dims ds" "0 \<le> r" "r < prod_list ds" "comm_size comm = prod_list ds" "i < length ds"
    using assms by (auto simp: cart_wf_def ds_def r_def i_def)
  have g: "in_grid ds (cart_digits ds r)" "cart_value ds (cart_digits ds r) = r" using cart_digits_grid [OF w(1-3)] by auto
  have x: "0 \<le> x" "x < ds ! i" using in_grid_nth [OF g(1) w(5)] by (auto simp: x_def)
  have inverse: "\<exists>dest'. mca_topo_base_cart_shift comm' direction disp = Some (r, dest')"
    if d: "neighbour comm i disp = dest" "dest \<noteq> MPI_PROC_NULL" and fit: "ds ! i + \<bar>disp\<bar> \<le> INT_MAX"
      and c': "comm' = at_rank comm dest" for dest comm'
  proof -
    have dest: "dest = cart_value ds ((cart_digits ds r)[i := (x + disp) mod ds ! i])"
      using d by (auto simp: neighbour_def Let_def ds_def r_def x_def split: if_splits)
    have g': "in_grid ds ((cart_digits ds r)[i := (x + disp) mod ds ! i])" using g(1) x by (intro in_grid_update) auto
    have dig: "cart_digits ds dest = (cart_digits ds r)[i := (x + disp) mod ds ! i]" unfolding dest by (rule cart_digits_value [OF g'])
    have wf': "cart_wf comm'" using assms(1) cart_value_bounds [OF g'] w(4) by (simp add: c' at_rank_def cart_wf_def dest ds_def)
    have bk: "((x + disp) mod ds ! i - disp) mod ds ! i = x" using x by (simp add: mod_diff_left_eq mod_pos_pos_trivial)
    have "neighbour comm' i (- disp) = r"
    proof (cases "(x + disp < 0 \<or> x + disp \<ge> ds ! i) \<and> periods (cart comm) ! i = 0")
      case True
      then show ?thesis using d by (auto simp: neighbour_def Let_def ds_def r_def x_def)
    next
      case False
      then have "\<not> (((x + disp) mod ds ! i - disp < 0 \<or> (x + disp) mod ds ! i - disp \<ge> ds ! i) \<and> periods (cart comm) ! i = 0)"
        using x by (auto simp: mod_pos_pos_trivial)
      then show ?thesis using w(5) bk g(2) dig by (auto simp: neighbour_def Let_def c' at_rank_def x_def simp flip: ds_def)
    qed
    moreover have "coords (cart comm') ! i = (x + disp) mod ds ! i" using dig w(5) by (simp add: c' at_rank_def ds_def)
    moreover have "is_cint ((x + disp) mod ds ! i - disp)" "is_cint ((x + disp) mod ds ! i + disp)"
    proof -
      have "0 \<le> (x + disp) mod ds ! i" "(x + disp) mod ds ! i < ds ! i" using x by simp_all
      then show "is_cint ((x + disp) mod ds ! i - disp)" "is_cint ((x + disp) mod ds ! i + disp)"
        using fit abs_ge_self [of disp] abs_ge_minus_self [of disp] unfolding is_cint_def INT_MIN_def INT_MAX_def by linarith+
    qed
    ultimately show ?thesis using cart_shift_ok [OF wf', of direction disp] assms(2,3) by (simp add: i_def c' at_rank_def)
  qed
  then show ?thesis using cart_shift_ok [OF assms, of disp] by (auto simp: i_def r_def ds_def split: if_splits)
qed


theorem cart_shift_moves_one_coordinate_witness:
  "mca_topo_base_cart_shift \<lparr>comm_size = 6, comm_rank = 5, cart = \<lparr>ndims = 2, dims = [2, 3], periods = [0, 1], coords = [1, 2]\<rparr>\<rparr> 1 1 = Some (4, 3)"
proof -
  let ?c = "\<lparr>comm_size = 6, comm_rank = 5, cart = \<lparr>ndims = 2, dims = [2, 3], periods = [0, 1], coords = [1, 2]\<rparr>\<rparr>"
  have wf: "cart_wf ?c" "0 \<le> (1 :: int)" "1 < ndims (cart ?c)" by (simp_all add: cart_wf_def)
  show ?thesis using cart_shift_moves_one_coordinate [OF wf, of 1, THEN conjunct1] by (simp add: neighbour_def is_cint_def INT_MIN_def INT_MAX_def)
qed



text \<open>When the processes of a Cartesian communicator split it into sub-grids, the colours and keys they
  compute put every process, by the rule of MPI_Comm_split, into a communicator with exactly one process per
  point of the sub-grid, and the topology it gets there is well-formed and has the kept dimensions, periods
  and coordinates. A failed allocation of the dimensions, the periods or the coordinates is not survived.\<close>

theorem cart_sub_keeps_coordinates:
  assumes "cart_wf comm" and "length rs = length (dims (cart comm))" and "al_cart al" and "al_dims al" and "al_periods al" and "al_coords al"
    and "split = (\<lambda>colour key. Some (Inr (split_size (sub_request comm rs) (comm_size comm) (comm_rank comm),
                                  split_rank (sub_request comm rs) (comm_size comm) (comm_rank comm))))"
  shows "\<exists>sub. mca_topo_base_cart_sub al split OPAL_SUCCESS comm rs = Some (Inr sub) \<and> cart_wf sub \<and>
           dims (cart sub) = kept rs (dims (cart comm)) \<and> periods (cart sub) = kept rs (periods (cart comm)) \<and>
           coords (cart sub) = kept rs (coords (cart comm))"
    and "\<And>al'. kept rs (dims (cart comm)) \<noteq> [] \<Longrightarrow> \<not> al_dims al' \<or> \<not> al_periods al' \<or> al_cart al' \<and> \<not> al_coords al' \<Longrightarrow>
      mca_topo_base_cart_sub al' split OPAL_SUCCESS comm rs = None"
proof -
  define ds where "ds = dims (cart comm)"
  define cs where "cs = coords (cart comm)"
  have w: "pos_dims ds" "in_grid ds cs" "length (periods (cart comm)) = length ds" "cs = cart_digits ds (comm_rank comm)"
    using assms(1) cart_digits_grid [of ds] by (auto simp: cart_wf_def ds_def cs_def)
  define key where "key = cart_value (kept rs ds) (kept rs cs)"
  have gk: "in_grid (kept rs ds) (kept rs cs)" using in_grid_kept [OF w(2)] assms(2) by (simp add: ds_def)
  have key: "0 \<le> key" "key < prod_list (kept rs ds)" "cart_digits (kept rs ds) key = kept rs cs"
    using cart_value_bounds [OF gk] cart_digits_value [OF gk] by (auto simp: key_def)
  obtain colour where k1: "sub_colour_key comm rs = Some (colour, key, int (length (kept rs ds)))"
    using sub_colour_key_ok [OF assms(1,2)] by (simp add: ds_def cs_def key_def)
  have rank: "0 \<le> comm_rank comm" "comm_rank comm < comm_size comm" using assms(1) by (auto simp: cart_wf_def)
  have sp: "split colour key = Some (Inr (prod_list (kept rs ds), key))"
    using sub_split_ok [OF assms(1,2)] sub_request_ok [OF assms(1,2) rank] w(4) by (simp add: assms(7) key_def ds_def)
  obtain rem rk where loop: "for_loop 0 (int (length (kept rs ds))) (coords_step (kept rs ds)) (prod_list (kept rs ds), key, replicate (length (kept rs ds)) 0) =
      Some (rem, rk, kept rs cs)"
    using coords_loop_ok [OF pos_dims_kept [OF w(1)] key(1,2), of "length (kept rs ds)" "replicate (length (kept rs ds)) 0"]
      key(3) length_cart_digits [of "kept rs ds" key] by auto
  show "\<And>al'. kept rs (dims (cart comm)) \<noteq> [] \<Longrightarrow> \<not> al_dims al' \<or> \<not> al_periods al' \<or> al_cart al' \<and> \<not> al_coords al' \<Longrightarrow>
      mca_topo_base_cart_sub al' split OPAL_SUCCESS comm rs = None"
    using sp k1 by (auto simp: mca_topo_base_cart_sub_def Let_def Suc_le_eq simp flip: ds_def)
  show "\<exists>sub. mca_topo_base_cart_sub al split OPAL_SUCCESS comm rs = Some (Inr sub) \<and> cart_wf sub \<and>
           dims (cart sub) = kept rs (dims (cart comm)) \<and> periods (cart sub) = kept rs (periods (cart comm)) \<and>
           coords (cart sub) = kept rs (coords (cart comm))"
    using sp k1 loop assms(2-6) key pos_dims_kept [OF w(1)] length_kept [of ds rs "periods (cart comm)"] w(3)
    by (simp add: mca_topo_base_cart_sub_def cart_wf_def Let_def flip: ds_def cs_def)
qed

theorem cart_sub_keeps_coordinates_witness:
  "\<exists>al split sub. mca_topo_base_cart_sub al split OPAL_SUCCESS
     \<lparr>comm_size = 6, comm_rank = 5, cart = \<lparr>ndims = 2, dims = [2, 3], periods = [0, 1], coords = [1, 2]\<rparr>\<rparr> [0, 1] = Some (Inr sub) \<and>
     dims (cart sub) = [3] \<and> coords (cart sub) = [2]"
proof -
  let ?c = "\<lparr>comm_size = 6, comm_rank = 5, cart = \<lparr>ndims = 2, dims = [2, 3], periods = [0, 1], coords = [1, 2]\<rparr>\<rparr>"
  let ?al = "\<lparr>al_cart = True, al_dims = True, al_periods = True, al_coords = True, al_procs = True\<rparr>"
  have wf: "cart_wf ?c" "length [0, 1 :: int] = length (dims (cart ?c))" "al_cart ?al" "al_dims ?al" "al_periods ?al" "al_coords ?al" by (simp_all add: cart_wf_def)
  have "kept [0, 1] (dims (cart ?c)) = [3]" "kept [0, 1] (coords (cart ?c)) = [2]" by simp_all
  then show ?thesis using cart_sub_keeps_coordinates(1) [OF wf refl] by metis
qed


end
