(* ===== verification/Dims_Create.thy ===== *)
theory Dims_Create
  imports Opal_Prelude "HOL-Library.Multiset"
begin

text \<open>
  MPI_Dims_create (\<^verbatim>\<open>ompi/mpi/c/dims_create.c\<close>): the dimensions that the caller left at zero
  are chosen so that the product is the number of nodes. The number of free nodes is factored
  (\<open>getfactors\<close>), the factors go one by one into the smallest of the bins and the bins are sorted
  (\<open>assignnodes\<close>).

  \<open>size\<close> in the code is \<open>ceil(log(num) / log(2))\<close>; its value is the argument \<open>sz\<close>
  and all that the proofs use of it is \<open>num \<le> 2 ^ sz\<close>. The square root is exact for every
  \<open>int\<close>: \<open>ceil_sqrt\<close>. An error goes through the error handler and is returned; \<open>mem\<close> is
  the outcome of the allocation of the array of factors, which the code does not test.
\<close>

definition MPI_ERR_ARG :: int where [opal_rc]: "MPI_ERR_ARG = 13"
definition MPI_ERR_NO_MEM :: int where [opal_rc]: "MPI_ERR_NO_MEM = 39"

section \<open>Factoring\<close>

function ceil_sqrt_from :: "int \<Rightarrow> int \<Rightarrow> int" where
  "ceil_sqrt_from s num = (if s * s < num \<and> 0 \<le> s then ceil_sqrt_from (s + 1) num else s)"
  by pat_completeness auto
termination
proof (relation "measure (\<lambda>(s, num). nat (num - s))", goal_cases)
  case (2 s num)
  then have "s \<le> s * s" by (cases "s = 0") (auto simp: mult_le_cancel_left1)
  with 2 show ?case by simp
qed simp

definition ceil_sqrt :: "int \<Rightarrow> int" where
  "ceil_sqrt num = ceil_sqrt_from 0 num"

text \<open>\<open>while ((num % d) == 0) { num /= d; factors[i++] = d; }\<close>: it ends, at the latest where the array does.\<close>

function divide_out :: "int \<Rightarrow> int \<times> int list \<times> int \<Rightarrow> (int \<times> int list \<times> int) option" where
  "divide_out d (num, factors, i) =
     (if num smod d = 0 then
        (case aset factors i d of
           None \<Rightarrow> None
         | Some factors \<Rightarrow> divide_out d (num sdiv d, factors, i + 1))
      else Some (num, factors, i))"
  by pat_completeness auto
termination
  by (relation "measure (\<lambda>(d, num, factors, i). nat (int (length factors) - i))") (auto simp: aset_eq_Some_iff)

function odd_loop :: "int \<Rightarrow> int \<Rightarrow> int \<times> int list \<times> int \<Rightarrow> (int \<times> int list \<times> int) option" where
  "odd_loop sqrtnum d (num, factors, i) =
     (if num > 1 \<and> d < sqrtnum then
        (case divide_out d (num, factors, i) of None \<Rightarrow> None | Some s \<Rightarrow> odd_loop sqrtnum (d + 2) s)
      else Some (num, factors, i))"
  by pat_completeness auto
termination by (relation "measure (\<lambda>(sqrtnum, d, _). nat (sqrtnum - d))") auto

declare ceil_sqrt_from.simps [simp del] divide_out.simps [simp del] odd_loop.simps [simp del]

text \<open>The result is the array and the number of factors in it.\<close>

definition getfactors :: "nat \<Rightarrow> int ptr \<Rightarrow> int \<Rightarrow> (int list \<times> int) option" where
  "getfactors sz mem num =
     (if num < 2 then Some ([], 0)
      else do {
        let sqrtnum = ceil_sqrt num;
        let factors = (case mem of Null \<Rightarrow> [] | Ptr junk \<Rightarrow> replicate sz junk);
        s \<leftarrow> divide_out 2 (num, factors, 0);
        (num, factors, i) \<leftarrow> odd_loop sqrtnum 3 s;
        if num \<noteq> 1 then do { factors \<leftarrow> aset factors i num; Some (factors, i + 1) }
        else Some (factors, i) })"

section \<open>Bins\<close>

definition smallest_bin :: "int \<Rightarrow> int list \<Rightarrow> int option" where
  "smallest_bin ndim bins =
     for_loop 1 ndim
       (\<lambda>i pmin. do { x \<leftarrow> aget bins i; m \<leftarrow> aget bins pmin; Some (if x < m then i else pmin) }) 0"

definition fill_bins :: "int \<Rightarrow> int \<Rightarrow> int list \<Rightarrow> int list \<Rightarrow> int list option" where
  "fill_bins ndim nfactor pfacts bins =
     for_loop 0 nfactor
       (\<lambda>k bins. do {
          f \<leftarrow> aget pfacts (nfactor - 1 - k);
          pmin \<leftarrow> smallest_bin ndim bins;
          m \<leftarrow> aget bins pmin;
          aset bins pmin (m * f) }) bins"

definition exchange :: "int \<Rightarrow> int \<Rightarrow> int list \<Rightarrow> int list option" where
  "exchange i j bins = do {
     p \<leftarrow> aget bins j;
     m \<leftarrow> aget bins i;
     if p > m then do { bins \<leftarrow> aset bins j m; aset bins i p } else Some bins }"

definition sort_bins :: "int \<Rightarrow> int list \<Rightarrow> int list option" where
  "sort_bins ndim bins = for_loop 0 (ndim - 1) (\<lambda>i bins. for_loop (i + 1) ndim (\<lambda>j bins. exchange i j bins) bins) bins"

text \<open>\<open>alloc\<close> is whether the bins can be allocated; \<open>Inl\<close> is the error code.\<close>

definition assignnodes :: "bool \<Rightarrow> int \<Rightarrow> int \<Rightarrow> int list \<Rightarrow> (int + int list) option" where
  "assignnodes alloc ndim nfactor pfacts =
     (if 0 \<ge> ndim then Some (Inl MPI_ERR_DIMS)
      else if \<not> alloc then Some (Inl MPI_ERR_NO_MEM)
      else do {
        bins \<leftarrow> fill_bins ndim nfactor pfacts (replicate (nat ndim) 1);
        bins \<leftarrow> sort_bins ndim bins;
        Some (Inr bins) })"

section \<open>MPI_Dims_create\<close>

fun free_procs :: "int \<Rightarrow> int list \<Rightarrow> int \<Rightarrow> int \<Rightarrow> (int \<times> int) option" where
  "free_procs nnodes [] freeprocs freedims = Some (freeprocs, freedims)"
| "free_procs nnodes (p # ps) freeprocs freedims =
     (if p = 0 then free_procs nnodes ps freeprocs (freedims + 1)
      else if p < 0 \<or> nnodes smod p \<noteq> 0 then None
      else free_procs nnodes ps (freeprocs sdiv p) freedims)"

text \<open>The last loop: each free dimension takes the next of \<open>procs\<close>.\<close>

fun fill_dims :: "int list \<Rightarrow> int list \<Rightarrow> int list option" where
  "fill_dims [] procs = Some []"
| "fill_dims (d # ds) procs =
     (if d = 0 then (case procs of [] \<Rightarrow> None | p # ps \<Rightarrow> map_option (Cons p) (fill_dims ds ps))
      else map_option (Cons d) (fill_dims ds procs))"

text \<open>The result is the return code and the array of dimensions, \<open>ndims\<close> long.\<close>

definition MPI_Dims_create ::
    "bool \<Rightarrow> nat \<Rightarrow> int ptr \<Rightarrow> bool \<Rightarrow> int \<Rightarrow> int \<Rightarrow> int list ptr \<Rightarrow> (int \<times> int list ptr) option" where
  "MPI_Dims_create param_check sz mem alloc nnodes ndims dims =
     (if param_check \<and> dims = Null then Some (MPI_ERR_ARG, dims)
      else if param_check \<and> 1 > ndims then Some (MPI_ERR_DIMS, dims)
      else if param_check \<and> 1 > nnodes then Some (MPI_ERR_DIMS, dims)
      else case dims of
        Null \<Rightarrow> if ndims \<le> 0 then Some (if nnodes = 1 then MPI_SUCCESS else MPI_ERR_DIMS, Null) else None
      | Ptr ds \<Rightarrow>
          (case free_procs nnodes ds nnodes 0 of
             None \<Rightarrow> Some (MPI_ERR_DIMS, dims)
           | Some (freeprocs, freedims) \<Rightarrow>
               if freedims = 0 then Some (if freeprocs = 1 then MPI_SUCCESS else MPI_ERR_DIMS, dims)
               else if freeprocs = 1 then Some (MPI_SUCCESS, Ptr (map (\<lambda>d. if d = 0 then 1 else d) ds))
               else do {
                 (factors, nfactors) \<leftarrow> getfactors sz mem freeprocs;
                 r \<leftarrow> assignnodes alloc freedims nfactors factors;
                 case r of
                   Inl err \<Rightarrow> Some (err, dims)
                 | Inr procs \<Rightarrow> do { ds \<leftarrow> fill_dims ds procs; Some (MPI_SUCCESS, Ptr ds) } }))"

section \<open>The factors\<close>

definition facts_inv :: "int \<Rightarrow> nat \<Rightarrow> int \<times> int list \<times> int \<Rightarrow> bool" where
  "facts_inv N sz = (\<lambda>(num, factors, i).
     1 \<le> num \<and> 0 \<le> i \<and> i \<le> int (length factors) \<and> length factors = sz \<and>
     num * prod_list (take (nat i) factors) = N \<and> (\<forall>f \<in> set (take (nat i) factors). 2 \<le> f))"

lemma two_power_le_prod: "\<forall>f \<in> set fs. 2 \<le> (f :: int) \<Longrightarrow> 2 ^ length fs \<le> prod_list fs"
proof (induction fs)
  case (Cons f fs)
  then have "2 * 2 ^ length fs \<le> f * prod_list fs" by (intro mult_mono) auto
  then show ?case by simp
qed simp

text \<open>A factor always finds a free cell, because \<open>i\<close> factors make up at least \<open>2 ^ i\<close>.\<close>

lemma facts_inv_room:
  assumes "facts_inv N sz (num, factors, i)" and "N \<le> 2 ^ sz" and "2 \<le> num"
  shows "i < int (length factors)"
proof (rule ccontr)
  assume "\<not> i < int (length factors)"
  then have "take (nat i) factors = factors" "length factors = sz" using assms(1) by (auto simp: facts_inv_def)
  then have f: "num * prod_list factors = N" "\<forall>f \<in> set factors. 2 \<le> f" using assms(1) by (auto simp: facts_inv_def)
  have p: "2 ^ sz \<le> prod_list factors" using two_power_le_prod [OF f(2)] \<open>length factors = sz\<close> by simp
  have "(0 :: int) < 2 ^ sz" by simp
  then have "0 \<le> prod_list factors" using p by linarith
  then have "2 * prod_list factors \<le> num * prod_list factors" using assms(3) by (intro mult_right_mono) auto
  then show False using f(1) p assms(2) \<open>(0 :: int) < 2 ^ sz\<close> by linarith
qed

lemma facts_inv_step:
  assumes "facts_inv N sz (d * num, factors, i)" and "N \<le> 2 ^ sz" and "2 \<le> d" and "1 \<le> num"
  shows "\<exists>factors'. aset factors i d = Some factors' \<and> facts_inv N sz (num, factors', i + 1)"
proof -
  have "2 * 1 \<le> d * num" using assms by (intro mult_mono) auto
  then have i: "i < int (length factors)" "0 \<le> i" using facts_inv_room [OF assms(1,2)] assms(1) by (auto simp: facts_inv_def)
  define k where "k = nat i"
  have k: "i = int k" "k < length factors" "nat (i + 1) = Suc k" using i by (auto simp: k_def)
  then show ?thesis using assms(1,3,4)
    by (auto simp: facts_inv_def aset_def take_Suc_update mult_ac)
qed

lemma divide_out_ok:
  "facts_inv N sz s \<Longrightarrow> N \<le> 2 ^ sz \<Longrightarrow> 2 \<le> d \<Longrightarrow> \<exists>s'. divide_out d s = Some s' \<and> facts_inv N sz s'"
proof (induction d s rule: divide_out.induct)
  case (1 d num factors i)
  show ?case
  proof (cases "num smod d = 0")
    case True
    have n: "1 \<le> num" using "1.prems"(1) by (simp add: facts_inv_def)
    then have dv: "num mod d = 0" using True "1.prems"(3) by simp
    then obtain q where q: "num = d * q" by (auto simp: mod_eq_0_iff_dvd)
    have q1: "1 \<le> q" using q n "1.prems"(3) by (auto simp: zero_less_mult_iff int_one_le_iff_zero_less)
    obtain factors' where f: "aset factors i d = Some factors'" "facts_inv N sz (q, factors', i + 1)"
      using facts_inv_step [of N sz d q factors i] "1.prems" q q1 by auto
    have e: "num sdiv d = q" using q q1 "1.prems"(3) by simp
    show ?thesis using "1.IH" [OF True f(1)] f True "1.prems" e by (simp add: divide_out.simps)
  next
    case False
    then show ?thesis using "1.prems" by (simp add: divide_out.simps)
  qed
qed

lemma odd_loop_ok:
  "facts_inv N sz s \<Longrightarrow> N \<le> 2 ^ sz \<Longrightarrow> 2 \<le> d \<Longrightarrow> \<exists>s'. odd_loop sq d s = Some s' \<and> facts_inv N sz s'"
proof (induction sq d s rule: odd_loop.induct)
  case (1 sq d num factors i)
  show ?case
  proof (cases "num > 1 \<and> d < sq")
    case True
    obtain s' where s': "divide_out d (num, factors, i) = Some s'" "facts_inv N sz s'"
      using divide_out_ok [OF "1.prems"] by blast
    show ?thesis using "1.IH" [OF True s'(1) s'(2)] "1.prems" True s'(1) by (simp add: odd_loop.simps)
  next
    case False
    then show ?thesis using "1.prems" by (auto simp: odd_loop.simps)
  qed
qed

lemma getfactors_ok:
  assumes "2 \<le> num" and "num \<le> 2 ^ sz"
  shows "\<exists>factors k. getfactors sz (Ptr junk) num = Some (factors, int k) \<and> k \<le> length factors \<and>
           prod_list (take k factors) = num \<and> (\<forall>f \<in> set (take k factors). 2 \<le> f)"
proof -
  have "facts_inv num sz (num, replicate sz junk, 0)" using assms by (simp add: facts_inv_def)
  then obtain s where s: "divide_out 2 (num, replicate sz junk, 0) = Some s" "facts_inv num sz s"
    using divide_out_ok [of num sz "(num, replicate sz junk, 0)" 2] assms by auto
  obtain n fs i where o: "odd_loop (ceil_sqrt num) 3 s = Some (n, fs, i)" "facts_inv num sz (n, fs, i)"
    using odd_loop_ok [OF s(2) assms(2), of 3 "ceil_sqrt num"] by auto
  have pos: "0 \<le> i" "1 \<le> n" using o(2) by (auto simp: facts_inv_def)
  show ?thesis
  proof (cases "n = 1")
    case True
    then show ?thesis using assms s(1) o pos
      by (intro exI [of _ fs] exI [of _ "nat i"]) (auto simp: getfactors_def facts_inv_def)
  next
    case False
    then obtain fs' where f: "aset fs i n = Some fs'" "facts_inv num sz (1, fs', i + 1)"
      using facts_inv_step [of num sz n 1 fs i] o(2) assms(2) pos by auto
    then show ?thesis using False assms s(1) o(1) pos
      by (intro exI [of _ fs'] exI [of _ "nat (i + 1)"]) (auto simp: getfactors_def facts_inv_def)
  qed
qed

section \<open>The bins\<close>

lemma prod_list_update: "p < length xs \<Longrightarrow> prod_list (xs[p := xs ! p * (f :: int)]) = prod_list xs * f"
proof (induction xs arbitrary: p)
  case (Cons x xs)
  then show ?case by (cases p) (auto simp: mult_ac)
qed simp

lemma smallest_bin_ok:
  assumes "bins \<noteq> []"
  shows "\<exists>p. smallest_bin (int (length bins)) bins = Some (int p) \<and> p < length bins \<and> (\<forall>j < length bins. bins ! p \<le> bins ! j)"
proof -
  let ?n = "length bins"
  let ?P = "\<lambda>i pmin. 0 \<le> pmin \<and> pmin < int ?n \<and> (\<forall>j < nat i. bins ! nat pmin \<le> bins ! j)"
  have "\<exists>p. smallest_bin (int ?n) bins = Some p \<and> ?P (int ?n) p"
    unfolding smallest_bin_def
  proof (rule for_loop_rule [where P = ?P])
    fix k p assume k: "1 \<le> k" "k < int ?n" and P: "?P k p"
    have "nat (k + 1) = Suc (nat k)" using k by simp
    then show "\<exists>p'. (do { x \<leftarrow> aget bins k; m \<leftarrow> aget bins p; Some (if x < m then k else p) }) = Some p' \<and> ?P (k + 1) p'"
      using k P by (fastforce simp: aget_def less_Suc_eq)
  qed (use assms in \<open>cases bins; auto\<close>)+
  then obtain p where "smallest_bin (int ?n) bins = Some p" "?P (int ?n) p" by blast
  then show ?thesis by (intro exI [of _ "nat p"]) auto
qed

lemma fill_bins_ok:
  assumes "0 < n" and "k \<le> length fs" and "\<forall>f \<in> set (take k fs). 1 \<le> f"
  shows "\<exists>bins. fill_bins (int n) (int k) fs (replicate n 1) = Some bins \<and> length bins = n \<and>
           prod_list bins = prod_list (take k fs) \<and> (\<forall>b \<in> set bins. 1 \<le> b)"
proof -
  let ?P = "\<lambda>i bins. length bins = n \<and> prod_list bins = prod_list (drop (k - nat i) (take k fs)) \<and> (\<forall>b \<in> set bins. 1 \<le> b)"
  have "\<exists>bins. fill_bins (int n) (int k) fs (replicate n 1) = Some bins \<and> ?P (int k) bins"
    unfolding fill_bins_def
  proof (rule for_loop_rule [where P = ?P])
    fix i bins assume i: "0 \<le> i" "i < int k" and P: "?P i bins"
    define j where "j = k - 1 - nat i"
    have j: "int k - 1 - i = int j" "j < k" "k - nat i = Suc j" "k - nat (i + 1) = j" using i by (auto simp: j_def)
    obtain p where p: "smallest_bin (int n) bins = Some (int p)" "p < n" using smallest_bin_ok [of bins] P assms(1) by auto
    have dr: "drop j (take k fs) = fs ! j # drop (Suc j) (take k fs)"
      using j assms(2) by (subst Cons_nth_drop_Suc [symmetric]) auto
    have "take k fs ! j \<in> set (take k fs)" using assms(2) j by (intro nth_mem) simp
    then have f: "1 \<le> fs ! j" using assms(3) j by simp
    have "1 \<le> bins ! p" using P p by simp
    then have "1 * 1 \<le> bins ! p * fs ! j" using f by (intro mult_mono) auto
    then have "\<forall>b \<in> set (bins[p := bins ! p * fs ! j]). 1 \<le> b" using P set_update_subset_insert by fastforce
    then show "\<exists>bins'. (do { f \<leftarrow> aget fs (int k - 1 - i); pmin \<leftarrow> smallest_bin (int n) bins; m \<leftarrow> aget bins pmin; aset bins pmin (m * f) }) =
        Some bins' \<and> ?P (i + 1) bins'"
      using P p j dr assms(2) prod_list_update [of p bins "fs ! j"]
      by (simp add: aget_def aset_def mult.commute)
  qed (use assms in auto)
  then show ?thesis by simp
qed


text \<open>The exchange sort: all positions before \<open>i\<close> hold nothing smaller than what follows them.\<close>

definition front_sorted :: "int list \<Rightarrow> nat \<Rightarrow> int list \<Rightarrow> bool" where
  "front_sorted bins i b \<longleftrightarrow> mset b = mset bins \<and> (\<forall>k l. k < i \<and> k < l \<and> l < length b \<longrightarrow> b ! l \<le> b ! k)"

lemma exchange_ok:
  assumes "front_sorted bins i b" and "i < j" and "j < length b" and "\<forall>l. i < l \<and> l < j \<longrightarrow> b ! l \<le> b ! i"
  shows "\<exists>b'. exchange (int i) (int j) b = Some b' \<and> front_sorted bins i b' \<and> (\<forall>l. i < l \<and> l < Suc j \<longrightarrow> b' ! l \<le> b' ! i)"
proof (cases "b ! j > b ! i")
  case True
  let ?b = "b[j := b ! i, i := b ! j]"
  have ex: "exchange (int i) (int j) b = Some ?b" using True assms by (simp add: exchange_def aget_def aset_def)
  have nth: "?b ! l = (if l = i then b ! j else if l = j then b ! i else b ! l)" if "l < length b" for l
    using that assms by (auto simp: nth_list_update)
  have "mset ?b = mset b" using assms(2,3) by (intro mset_swap) auto
  moreover have "?b ! l \<le> ?b ! k" if k: "k < i" "k < l" "l < length b" for k l
  proof -
    have "b ! m \<le> b ! k" if "k < m" "m < length b" for m using assms(1) k(1) that by (simp add: front_sorted_def)
    then show ?thesis using k assms(2,3) nth [of l] nth [of k] by auto
  qed
  ultimately have "front_sorted bins i ?b" using assms(1) by (auto simp: front_sorted_def)
  moreover have "?b ! l \<le> ?b ! i" if l: "i < l" "l < Suc j" for l
    using l nth [of l] nth [of i] True assms(2,3,4) by (cases "l = j") (auto intro: order.trans less_imp_le)
  ultimately show ?thesis using ex by blast
next
  case False
  have "exchange (int i) (int j) b = Some b" using False assms by (simp add: exchange_def aget_def)
  then show ?thesis using assms False by (auto simp: less_Suc_eq)
qed

lemma sort_bins_ok:
  assumes "bins \<noteq> []"
  shows "\<exists>b. sort_bins (int (length bins)) bins = Some b \<and> mset b = mset bins \<and> sorted_wrt (\<ge>) b"
proof -
  let ?n = "length bins"
  let ?P = "\<lambda>i b. front_sorted bins (nat i) b"
  have "\<exists>b. sort_bins (int ?n) bins = Some b \<and> ?P (int ?n - 1) b"
    unfolding sort_bins_def
  proof (rule for_loop_rule [where P = ?P])
    fix k b assume k: "0 \<le> k" "k < int ?n - 1" and P: "?P k b"
    define i where "i = nat k"
    have i: "k = int i" "Suc i \<le> ?n" using k by (auto simp: i_def)
    have len: "length x = ?n" if "mset x = mset bins" for x using that by (metis size_mset)
    let ?R = "\<lambda>j b. front_sorted bins i b \<and> (\<forall>l. i < l \<and> l < nat j \<longrightarrow> b ! l \<le> b ! i)"
    have "\<exists>b'. for_loop (int i + 1) (int ?n) (\<lambda>j bins. exchange (int i) j bins) b = Some b' \<and> ?R (int ?n) b'"
    proof (rule for_loop_rule [where P = ?R])
      show "?R (int i + 1) b" using P i by (auto simp: nat_add_distrib)
    next
      fix m b assume m: "int i + 1 \<le> m" "m < int ?n" and R: "?R m b"
      define j where "j = nat m"
      have j: "m = int j" "i < j" "nat (m + 1) = Suc j" "j < length b" using m len [of b] R by (auto simp: j_def front_sorted_def)
      show "\<exists>b'. exchange (int i) m b = Some b' \<and> ?R (m + 1) b'"
        using exchange_ok [of bins i b j] R j by auto
    qed (use i in simp)
    then obtain b' where b': "for_loop (k + 1) (int ?n) (\<lambda>j bins. exchange k j bins) b = Some b'" "?R (int ?n) b'" using i by auto
    then have "front_sorted bins (Suc i) b'" using len [of b'] by (auto simp: front_sorted_def less_Suc_eq)
    moreover have "nat (k + 1) = Suc i" using i by simp
    ultimately show "\<exists>b'. for_loop (k + 1) (int ?n) (\<lambda>j bins. exchange k j bins) b = Some b' \<and> ?P (k + 1) b'" using b' by auto
  qed (use assms in \<open>cases bins; auto simp: front_sorted_def\<close>)+
  moreover have "nat (int ?n - 1) = ?n - 1" by simp
  ultimately obtain b where b: "sort_bins (int ?n) bins = Some b" "front_sorted bins (?n - 1) b" by auto
  then have m: "mset b = mset bins" by (simp add: front_sorted_def)
  then have "length b = ?n" by (metis size_mset)
  then have "sorted_wrt (\<ge>) b" using b(2) by (auto simp: front_sorted_def sorted_wrt_iff_nth_less)
  then show ?thesis using b(1) m by blast
qed

lemma assignnodes_ok:
  assumes "0 < n" and "k \<le> length fs" and "\<forall>f \<in> set (take k fs). 2 \<le> f"
  shows "\<exists>procs. assignnodes True (int n) (int k) fs = Some (Inr procs) \<and> length procs = n \<and>
           prod_list procs = prod_list (take k fs) \<and> sorted_wrt (\<ge>) procs \<and> (\<forall>p \<in> set procs. 1 \<le> p)"
proof -
  have "\<forall>f \<in> set (take k fs). 1 \<le> f" using assms(3) by fastforce
  from fill_bins_ok [OF assms(1,2) this]
  obtain bins where bins: "fill_bins (int n) (int k) fs (replicate n 1) = Some bins" "length bins = n"
    "prod_list bins = prod_list (take k fs)" "\<forall>b \<in> set bins. 1 \<le> b" by blast
  obtain b where b: "sort_bins (int n) bins = Some b" "mset b = mset bins" "sorted_wrt (\<ge>) b"
    using sort_bins_ok [of bins] bins(2) assms(1) by auto
  have "prod_list b = prod_list bins" by (metis b(2) prod_mset_prod_list)
  moreover have "set b = set bins" "length b = length bins" using b(2) by (metis set_mset_mset, metis size_mset)
  ultimately show ?thesis using bins b assms(1) by (simp add: assignnodes_def)
qed


section \<open>The dimensions\<close>

definition fixed_prod :: "int list \<Rightarrow> int" where
  "fixed_prod ds = prod_list (filter (\<lambda>d. d \<noteq> 0) ds)"

definition free_part :: "int list \<Rightarrow> int list \<Rightarrow> int list" where
  "free_part ds ds' = map snd (filter (\<lambda>(d, _). d = 0) (zip ds ds'))"

lemma fixed_prod_simps [simp]:
  "fixed_prod [] = 1" "fixed_prod (d # ds) = (if d = 0 then fixed_prod ds else d * fixed_prod ds)"
  by (simp_all add: fixed_prod_def)

lemma fixed_prod_pos: "\<forall>d \<in> set ds. 0 \<le> d \<Longrightarrow> 0 < fixed_prod ds"
  by (induction ds) auto

lemma free_procs_ok:
  "\<forall>d \<in> set ds. 0 \<le> d \<and> d dvd nnodes \<or> d = 0 \<Longrightarrow> fixed_prod ds dvd fp \<Longrightarrow> 0 < fp \<Longrightarrow> 0 < nnodes \<Longrightarrow>
   free_procs nnodes ds fp k = Some (fp div fixed_prod ds, k + int (length (filter (\<lambda>d. d = 0) ds)))"
proof (induction ds arbitrary: fp k)
  case (Cons d ds)
  show ?case
  proof (cases "d = 0")
    case False
    then have d: "0 < d" "d dvd nnodes" using Cons.prems(1) by auto
    then have m: "nnodes smod d = 0" using Cons.prems(4) by simp
    obtain q where q: "fp = d * fixed_prod ds * q" using Cons.prems(2) False by (auto simp: dvd_def)
    have e: "fp sdiv d = fp div d" using d(1) Cons.prems(3) by simp
    have dv: "fixed_prod ds dvd fp div d" "0 < fp div d"
      using q d(1) Cons.prems(3) by (auto simp: mult.assoc zero_less_mult_iff)
    have "fixed_prod ds \<noteq> 0" using q Cons.prems(3) by auto
    then have "fp div d div fixed_prod ds = fp div (d * fixed_prod ds)" using q d(1) by (simp add: mult.assoc)
    then show ?thesis using Cons.IH [OF _ dv(1,2), of k] Cons.prems(1,4) d m e False by simp
  qed (use Cons in simp)
qed simp

lemma fill_dims_ok:
  "length procs = length (filter (\<lambda>d. d = 0) ds) \<Longrightarrow>
   \<exists>ds'. fill_dims ds procs = Some ds' \<and> length ds' = length ds \<and> prod_list ds' = fixed_prod ds * prod_list procs \<and>
         (\<forall>i < length ds. ds ! i \<noteq> 0 \<longrightarrow> ds' ! i = ds ! i) \<and> free_part ds ds' = procs"
proof (induction ds arbitrary: procs)
  case (Cons d ds)
  show ?case
  proof (cases "d = 0")
    case True
    then obtain p ps where procs: "procs = p # ps" using Cons.prems by (cases procs) auto
    from Cons.IH [of ps] Cons.prems True procs show ?thesis
      by (force simp: free_part_def nth_Cons mult_ac split: nat.splits)
  next
    case False
    from Cons.IH [of procs] Cons.prems False show ?thesis
      by (force simp: free_part_def nth_Cons mult_ac split: nat.splits)
  qed
qed (simp add: free_part_def)

lemma fill_dims_pos:
  "fill_dims ds procs = Some ds' \<Longrightarrow> \<forall>d \<in> set ds. 0 \<le> d \<Longrightarrow> \<forall>p \<in> set procs. 1 \<le> p \<Longrightarrow> \<forall>d \<in> set ds'. 1 \<le> d"
  by (induction ds procs arbitrary: ds' rule: fill_dims.induct) (auto split: if_splits list.splits)

lemma ones_dims_ok:
  "(let ds' = map (\<lambda>d. if d = 0 then 1 else d) ds in
    prod_list ds' = fixed_prod ds \<and> (\<forall>i < length ds. ds ! i \<noteq> 0 \<longrightarrow> ds' ! i = ds ! i) \<and> sorted_wrt (\<ge>) (free_part ds ds'))"
proof -
  have "free_part ds (map (\<lambda>d. if d = 0 then 1 else d) ds) = replicate (length (filter (\<lambda>d. d = 0) ds)) 1"
    by (induction ds) (auto simp: free_part_def)
  moreover have "prod_list (map (\<lambda>d. if d = 0 then 1 else d) ds) = fixed_prod ds" by (induction ds) auto
  moreover have "sorted_wrt (\<ge>) (replicate n (1 :: int))" for n by (induction n) auto
  ultimately show ?thesis by (simp add: Let_def)
qed

lemma dims_create_ok:
  assumes "1 \<le> nnodes" and "ds \<noteq> []" and "\<forall>d \<in> set ds. 0 \<le> d" and "fixed_prod ds dvd nnodes"
    and "0 \<in> set ds \<or> fixed_prod ds = nnodes" and "nnodes div fixed_prod ds \<le> 2 ^ sz"
  shows "\<exists>ds'. MPI_Dims_create param_check sz (Ptr junk) True nnodes (int (length ds)) (Ptr ds) = Some (MPI_SUCCESS, Ptr ds') \<and>
           length ds' = length ds \<and> prod_list ds' = nnodes \<and>
           (\<forall>i < length ds. ds ! i \<noteq> 0 \<longrightarrow> ds' ! i = ds ! i) \<and> sorted_wrt (\<ge>) (free_part ds ds') \<and> (\<forall>d \<in> set ds'. 1 \<le> d)"
proof -
  define fp where "fp = nnodes div fixed_prod ds"
  define z where "z = length (filter (\<lambda>d. d = 0) ds)"
  have P: "0 < fixed_prod ds" by (rule fixed_prod_pos [OF assms(3)])
  have fp: "nnodes = fixed_prod ds * fp" "1 \<le> fp"
    using assms(1,4) P by (auto simp: fp_def zero_less_mult_iff int_one_le_iff_zero_less elim!: dvdE)
  have "d dvd fixed_prod ds" if "d \<in> set ds" "d \<noteq> 0" for d
    using that by (induction ds) auto
  then have fr: "free_procs nnodes ds nnodes 0 = Some (fp, int z)"
    using free_procs_ok [of ds nnodes nnodes 0] assms(1,3,4) by (auto simp: fp_def z_def intro: dvd_trans)
  have nd: "1 \<le> int (length ds)" using assms(2) by (cases ds) auto
  have z: "z = 0 \<longleftrightarrow> 0 \<notin> set ds" by (auto simp: z_def filter_empty_conv)
  note run = MPI_Dims_create_def [of param_check sz "Ptr junk" True nnodes "int (length ds)" "Ptr ds"]
  show ?thesis
  proof (cases "z = 0 \<or> fp = 1")
    case True
    have fp1: "fp = 1" using True z assms(1,5) fp P by auto
    let ?ds = "map (\<lambda>d. if d = 0 then 1 else d) ds"
    have "0 \<notin> set ds \<Longrightarrow> ?ds = ds" by (rule map_idI) auto
    then have "MPI_Dims_create param_check sz (Ptr junk) True nnodes (int (length ds)) (Ptr ds) = Some (MPI_SUCCESS, Ptr ?ds)"
      using fr fp1 nd assms(1,2) z by (cases "z = 0") (simp_all add: run)
    then show ?thesis using ones_dims_ok [of ds] fp1 fp(1) assms(3) by (intro exI [of _ ?ds]) (auto simp: Let_def)
  next
    case False
    then have fp2: "2 \<le> fp" using fp(2) by simp
    obtain fs k where f: "getfactors sz (Ptr junk) fp = Some (fs, int k)" "k \<le> length fs" "prod_list (take k fs) = fp"
      "\<forall>f \<in> set (take k fs). 2 \<le> f" using getfactors_ok [OF fp2, of sz junk] assms(6) by (auto simp: fp_def)
    obtain procs where a: "assignnodes True (int z) (int k) fs = Some (Inr procs)" "length procs = z" "prod_list procs = fp" "sorted_wrt (\<ge>) procs"
      "\<forall>p \<in> set procs. 1 \<le> p"
      using assignnodes_ok [OF _ f(2,4), of z] False f(3) by auto
    obtain ds' where d: "fill_dims ds procs = Some ds'" "length ds' = length ds" "prod_list ds' = fixed_prod ds * prod_list procs"
      "\<forall>i < length ds. ds ! i \<noteq> 0 \<longrightarrow> ds' ! i = ds ! i" "free_part ds ds' = procs"
      using fill_dims_ok [of procs ds] a(2) by (auto simp: z_def)
    then have "MPI_Dims_create param_check sz (Ptr junk) True nnodes (int (length ds)) (Ptr ds) = Some (MPI_SUCCESS, Ptr ds')"
      using fr f(1) a(1) False nd assms(1,2) by (simp add: run)
    then show ?thesis using d(2-5) a(3,4) fp(1) fill_dims_pos [OF d(1) assms(3) a(5)] by (intro exI [of _ ds']) simp
  qed
qed

section \<open>Properties\<close>

text \<open>C22: When the dimensions given by the caller divide the number of nodes and at least one is free (or they
  make up all nodes), MPI_Dims_create succeeds, keeps the given dimensions, fills the free ones in decreasing
  order, and the product of all dimensions is the number of nodes. The array of factors is allocated and large
  enough, and so is the array of bins.\<close>

theorem dims_create_product:
  assumes "1 \<le> nnodes" and "ds \<noteq> []" and "\<forall>d \<in> set ds. 0 \<le> d" and "fixed_prod ds dvd nnodes"
    and "0 \<in> set ds \<or> fixed_prod ds = nnodes" and "nnodes div fixed_prod ds \<le> 2 ^ sz"
  shows "\<exists>ds'. MPI_Dims_create param_check sz (Ptr junk) True nnodes (int (length ds)) (Ptr ds) = Some (MPI_SUCCESS, Ptr ds') \<and>
           length ds' = length ds \<and> prod_list ds' = nnodes \<and>
           (\<forall>i < length ds. ds ! i \<noteq> 0 \<longrightarrow> ds' ! i = ds ! i) \<and> sorted_wrt (\<ge>) (free_part ds ds')"
  using dims_create_ok [OF assms, of param_check junk] by blast

theorem dims_create_product_witness:
  "\<exists>ds'. MPI_Dims_create True 4 (Ptr 0) True 24 3 (Ptr [0, 2, 0]) = Some (MPI_SUCCESS, Ptr ds') \<and> prod_list ds' = 24 \<and> ds' ! 1 = 2"
  using dims_create_product [of 24 "[0, 2, 0]" 4 True 0] by (auto simp: less_Suc_eq)

text \<open>Dimensions that each divide the number of nodes but whose product does not are accepted: for two
  dimensions of \<open>n\<close> and a free one over \<open>n \<ge> 2\<close> nodes the call succeeds and returns a grid
  of \<open>n * n\<close> nodes.\<close>

theorem dims_create_accepts_too_large_grid:
  assumes "2 \<le> n"
  shows "MPI_Dims_create param_check sz (Ptr junk) True n 3 (Ptr [n, n, 0]) = Some (MPI_SUCCESS, Ptr [n, n, 1]) \<and>
         prod_list [n, n, 1] \<noteq> n"
proof -
  have "n smod n = 0" "n sdiv n = 1" "1 sdiv n = 0" using assms by simp_all
  moreover have "fill_bins 1 0 [] [1] = Some [1]" "sort_bins 1 [1] = Some [1]" by (simp_all add: fill_bins_def sort_bins_def)
  moreover have "n * n \<noteq> n" using assms by simp
  ultimately show ?thesis using assms by (simp add: MPI_Dims_create_def getfactors_def assignnodes_def)
qed

theorem dims_create_accepts_too_large_grid_witness:
  "MPI_Dims_create True 2 (Ptr 0) True 4 3 (Ptr [4, 4, 0]) = Some (MPI_SUCCESS, Ptr [4, 4, 1])"
  using dims_create_accepts_too_large_grid [of 4 True 2 0] by simp


lemma ceil_sqrt_from_square: "0 \<le> s \<Longrightarrow> s \<le> p \<Longrightarrow> ceil_sqrt_from s (p * p) = p"
proof (induction "nat (p - s)" arbitrary: s)
  case 0
  then show ?case by (simp add: ceil_sqrt_from.simps)
next
  case (Suc m)
  then have "s < p" by simp
  then have "s * s < p * p" using Suc.prems(1) by (intro mult_strict_mono) auto
  then show ?case using Suc \<open>s < p\<close> by (subst ceil_sqrt_from.simps) simp
qed

lemma prime_square_no_divisor:
  assumes "\<forall>d. 1 < d \<and> d < p \<longrightarrow> \<not> d dvd (p :: int)" and "1 < d" and "d < p"
  shows "\<not> d dvd p * p"
proof
  assume "d dvd p * p"
  have "gcd d p dvd p" "gcd d p \<le> d" using assms(2) by (auto intro: zdvd_imp_le)
  then have "\<not> 1 < gcd d p" using assms(1,3) by fastforce
  moreover have "0 < gcd d p" using assms(2) by simp
  ultimately have "gcd d p = 1" by linarith
  then have "coprime d p" by (simp add: coprime_iff_gcd_eq_1)
  then have "d dvd p" using \<open>d dvd p * p\<close> by (simp add: coprime_dvd_mult_left_iff)
  then show False using assms by blast
qed

lemma odd_loop_skip:
  "\<forall>d'. d \<le> d' \<and> d' < sq \<longrightarrow> \<not> d' dvd num \<Longrightarrow> 0 < d \<Longrightarrow> 0 \<le> num \<Longrightarrow> odd_loop sq d (num, fs, i) = Some (num, fs, i)"
proof (induction sq d "(num, fs, i)" rule: odd_loop.induct)
  case (1 sq d)
  show ?case
  proof (cases "num > 1 \<and> d < sq")
    case True
    then have "num smod d \<noteq> 0" using "1.prems" by (auto simp: dvd_eq_mod_eq_0)
    then have "divide_out d (num, fs, i) = Some (num, fs, i)" by (simp add: divide_out.simps)
    then show ?thesis using True "1.hyps" [OF True] "1.prems" by (subst odd_loop.simps) auto
  next
    case False
    then show ?thesis by (auto simp: odd_loop.simps)
  qed
qed

text \<open>The square of an odd prime is not factored: the search for factors stops before the square root, so
  MPI_Dims_create lays out \<open>p * p\<close> nodes in two free dimensions as \<open>p * p\<close> by 1.\<close>

theorem dims_create_prime_square_unbalanced:
  assumes "3 \<le> p" and "\<forall>d. 1 < d \<and> d < p \<longrightarrow> \<not> d dvd p" and "0 < sz"
  shows "MPI_Dims_create param_check sz (Ptr junk) True (p * p) 2 (Ptr [0, 0]) = Some (MPI_SUCCESS, Ptr [p * p, 1])"
proof -
  have pp: "9 \<le> p * p" using mult_mono [of 3 p 3 p] assms(1) by simp
  have nd: "\<not> d dvd p * p" if "1 < d" "d < p" for d using prime_square_no_divisor [OF assms(2) that] .
  have two: "divide_out 2 (p * p, replicate sz junk, 0) = Some (p * p, replicate sz junk, 0)"
    using nd [of 2] assms(1) pp by (auto simp: divide_out.simps dvd_eq_mod_eq_0)
  have "odd_loop p 3 (p * p, replicate sz junk, 0) = Some (p * p, replicate sz junk, 0)"
    by (rule odd_loop_skip) (use nd pp in auto)
  moreover have "ceil_sqrt (p * p) = p" using ceil_sqrt_from_square [of 0 p] assms(1) by (simp add: ceil_sqrt_def)
  ultimately have g: "getfactors sz (Ptr junk) (p * p) = Some ((replicate sz junk)[0 := p * p], 1)"
    using two pp assms(3) by (simp add: getfactors_def aset_def)
  have "smallest_bin 2 [1, 1] = Some 0" by (simp add: smallest_bin_def for_loop_step aget_def)
  then have f: "fill_bins 2 1 ((replicate sz junk)[0 := p * p]) [1, 1] = Some [p * p, 1]"
    using assms(3) by (simp add: fill_bins_def for_loop_step aget_def aset_def)
  have "sort_bins 2 [p * p, 1] = Some [p * p, 1]" using pp by (simp add: sort_bins_def for_loop_step exchange_def aget_def)
  with g f pp show ?thesis
    by (simp add: MPI_Dims_create_def assignnodes_def numeral_2_eq_2)
qed

theorem dims_create_prime_square_unbalanced_witness:
  "MPI_Dims_create True 4 (Ptr 0) True 9 2 (Ptr [0, 0]) = Some (MPI_SUCCESS, Ptr [9, 1])"
proof -
  have "\<not> d dvd (3 :: int)" if "1 < d" "d < 3" for d
  proof -
    have "d = 2" using that by simp
    then show ?thesis by simp
  qed
  then show ?thesis using dims_create_prime_square_unbalanced [of 3 4 True 0] by simp
qed


end
