(* ===== verification/Spanning_Tree.thy ===== *)
theory Spanning_Tree
  imports Main
begin

text \<open>
  What a collective operation needs of a communication tree. Every process computes its own view of
  the tree, a parent and a list of children, without talking to the others; the views must fit
  together: a process is in the list of children of exactly the process it takes for its parent, and
  from every process the parents lead to the root.

  \<open>tree_laws\<close> states this with a depth that falls towards the root, for the ranks
  \<open>0 ..< n\<close>; \<open>coll_family\<close> is the interface of a family of trees, one for every valid
  configuration; and its client lemma is what a broadcast relies on: a message sent down the tree
  reaches every process, and each process but the root exactly once.
\<close>

definition tree_laws :: "int \<Rightarrow> int \<Rightarrow> (int \<Rightarrow> int) \<Rightarrow> (int \<Rightarrow> int list) \<Rightarrow> (int \<Rightarrow> nat) \<Rightarrow> bool" where
  "tree_laws n root parent children depth \<longleftrightarrow> root \<in> {0..<n} \<and>
     (\<forall>r \<in> {0..<n}. distinct (children r) \<and> set (children r) = {k \<in> {0..<n}. k \<noteq> root \<and> parent k = r}) \<and>
     (\<forall>k \<in> {0..<n}. k \<noteq> root \<longrightarrow> parent k \<in> {0..<n} \<and> depth (parent k) < depth k)"

text \<open>The processes a message from the root reaches along the lists of children.\<close>

inductive informed :: "(int \<Rightarrow> int list) \<Rightarrow> int \<Rightarrow> int \<Rightarrow> bool" for children root where
  start: "informed children root root"
| forward: "informed children root r \<Longrightarrow> k \<in> set (children r) \<Longrightarrow> informed children root k"

definition all_sends :: "int \<Rightarrow> (int \<Rightarrow> int list) \<Rightarrow> int list" where
  "all_sends n children = concat (map children [0..n - 1])"

text \<open>
  A spanning tree: the message reaches exactly the processes of the communicator, the sends of all
  processes together name every process but the root exactly once, and the receiver of a send expects
  it from its sender.
\<close>

definition spanning_tree :: "int \<Rightarrow> int \<Rightarrow> (int \<Rightarrow> int) \<Rightarrow> (int \<Rightarrow> int list) \<Rightarrow> bool" where
  "spanning_tree n root parent children \<longleftrightarrow>
     (\<forall>r. informed children root r \<longleftrightarrow> r \<in> {0..<n}) \<and>
     distinct (all_sends n children) \<and> set (all_sends n children) = {0..<n} - {root} \<and>
     (\<forall>r \<in> {0..<n}. \<forall>k \<in> set (children r). parent k = r)"

lemma tree_laws_informed:
  assumes "tree_laws n root parent children depth"
  shows "informed children root r \<longleftrightarrow> r \<in> {0..<n}"
proof
  assume "informed children root r"
  then show "r \<in> {0..<n}" using assms by (induction rule: informed.induct) (auto simp: tree_laws_def)
next
  assume "r \<in> {0..<n}"
  then show "informed children root r"
  proof (induction "depth r" arbitrary: r rule: less_induct)
    case less
    show ?case
    proof (cases "r = root")
      case True
      then show ?thesis by (simp add: informed.start)
    next
      case False
      then have "parent r \<in> {0..<n}" "depth (parent r) < depth r" "r \<in> set (children (parent r))"
        using assms less.prems by (auto simp: tree_laws_def)
      then show ?thesis using less.hyps informed.forward by blast
    qed
  qed
qed

lemma tree_laws_spanning:
  assumes "tree_laws n root parent children depth"
  shows "spanning_tree n root parent children"
proof -
  have ch: "distinct (children r)" "set (children r) = {k \<in> {0..<n}. k \<noteq> root \<and> parent k = r}" if "r \<in> {0..<n}" for r
    using assms that by (auto simp: tree_laws_def)
  have ranks: "set [0..n - 1] = {0..<n}" by auto
  have "distinct (concat (map children rs))" if "distinct rs" "set rs \<subseteq> {0..<n}" for rs
    using that by (induction rs) (auto simp: ch)
  then have "distinct (all_sends n children)" using ranks by (simp add: all_sends_def)
  moreover have "set (all_sends n children) = {0..<n} - {root}"
    using assms by (auto simp: all_sends_def ranks ch tree_laws_def)
  ultimately show ?thesis
    using tree_laws_informed [OF assms] ch by (auto simp: spanning_tree_def)
qed

text \<open>
  Most trees are designed for root 0 and moved to another root by a rotation of the ranks: the virtual
  rank of \<open>r\<close> is \<open>(r - root) mod n\<close>.
\<close>

definition vrank :: "int \<Rightarrow> int \<Rightarrow> int \<Rightarrow> int" where
  "vrank n root r = (r - root) mod n"

definition real_rank :: "int \<Rightarrow> int \<Rightarrow> int \<Rightarrow> int" where
  "real_rank n root v = (v + root) mod n"

lemma vrank_range: "0 < n \<Longrightarrow> vrank n root r \<in> {0..<n}"
  by (simp add: vrank_def)

lemma real_rank_range: "0 < n \<Longrightarrow> real_rank n root v \<in> {0..<n}"
  by (simp add: real_rank_def)

lemma vrank_real [simp]: "v \<in> {0..<n} \<Longrightarrow> vrank n root (real_rank n root v) = v"
  by (simp add: vrank_def real_rank_def mod_diff_left_eq)

lemma real_vrank [simp]: "r \<in> {0..<n} \<Longrightarrow> real_rank n root (vrank n root r) = r"
  by (simp add: vrank_def real_rank_def mod_add_left_eq)

lemma vrank_0_iff: "r \<in> {0..<n} \<Longrightarrow> root \<in> {0..<n} \<Longrightarrow> vrank n root r = 0 \<longleftrightarrow> r = root"
  by (metis vrank_real real_vrank vrank_def diff_self mod_0)

lemma tree_laws_rotate:
  assumes laws: "tree_laws n 0 vparent vchildren depth" and root: "root \<in> {0..<n}"
    and parent: "\<And>r. r \<in> {0..<n} \<Longrightarrow> r \<noteq> root \<Longrightarrow> parent r = real_rank n root (vparent (vrank n root r))"
    and children: "\<And>r. r \<in> {0..<n} \<Longrightarrow> children r = map (real_rank n root) (vchildren (vrank n root r))"
  shows "tree_laws n root parent children (\<lambda>r. depth (vrank n root r))"
proof -
  have n: "0 < n" using root by simp
  have vch: "distinct (vchildren v)" "set (vchildren v) = {k \<in> {0..<n}. k \<noteq> 0 \<and> vparent k = v}" if "v \<in> {0..<n}" for v
    using laws that by (auto simp: tree_laws_def)
  have vpar: "vparent k \<in> {0..<n}" "depth (vparent k) < depth k" if "k \<in> {0..<n}" "k \<noteq> 0" for k
    using laws that by (auto simp: tree_laws_def)
  have inj: "inj_on (real_rank n root) {0..<n}" by (rule inj_onI) (metis vrank_real)
  have mem: "k \<in> set (children r) \<longleftrightarrow> k \<in> {0..<n} \<and> k \<noteq> root \<and> parent k = r" if r: "r \<in> {0..<n}" for r k
  proof -
    let ?v = "vrank n root"
    have "k \<in> set (children r) \<longleftrightarrow> k \<in> {0..<n} \<and> ?v k \<in> set (vchildren (?v r))"
      using r children vch(2) [OF vrank_range [OF n]] real_rank_range [OF n] real_vrank vrank_real
      by (auto simp: image_iff)
    also have "\<dots> \<longleftrightarrow> k \<in> {0..<n} \<and> k \<noteq> root \<and> vparent (?v k) = ?v r"
      using vch(2) [OF vrank_range [OF n]] vrank_range [OF n, of root k] vrank_0_iff [OF _ root, of k] by auto
    also have "\<dots> \<longleftrightarrow> k \<in> {0..<n} \<and> k \<noteq> root \<and> parent k = r"
      using parent r vpar(1) vrank_range [OF n, of root k] vrank_0_iff [OF _ root, of k] real_vrank vrank_real by metis
    finally show ?thesis .
  qed
  moreover have "distinct (children r)" if "r \<in> {0..<n}" for r
  proof -
    have "inj_on (real_rank n root) (set (vchildren (vrank n root r)))"
      by (rule inj_on_subset [OF inj]) (use vch(2) [OF vrank_range [OF n]] in auto)
    then show ?thesis using that children vch(1) [OF vrank_range [OF n]] by (simp add: distinct_map)
  qed
  moreover have "parent k \<in> {0..<n} \<and> depth (vrank n root (parent k)) < depth (vrank n root k)" if k: "k \<in> {0..<n}" "k \<noteq> root" for k
    using parent [OF k] vpar [OF vrank_range [OF n], of root k] vrank_0_iff [OF k(1) root] k real_rank_range [OF n] by simp
  ultimately show ?thesis using root by (auto simp: tree_laws_def)
qed

lemma tree_laws_cong:
  assumes "tree_laws n root parent children depth"
    and "\<And>r. r \<in> {0..<n} \<Longrightarrow> r \<noteq> root \<Longrightarrow> parent' r = parent r" and "\<And>r. r \<in> {0..<n} \<Longrightarrow> children' r = children r"
  shows "tree_laws n root parent' children' depth"
proof -
  have "{k \<in> {0..<n}. k \<noteq> root \<and> parent' k = r} = {k \<in> {0..<n}. k \<noteq> root \<and> parent k = r}" for r
    using assms(2) by auto
  then show ?thesis using assms by (simp add: tree_laws_def)
qed

section \<open>Families of trees\<close>

locale coll_family =
  fixes valid :: "'c \<Rightarrow> bool" and nprocs :: "'c \<Rightarrow> int" and root_of :: "'c \<Rightarrow> int"
    and parent_of :: "'c \<Rightarrow> int \<Rightarrow> int" and children_of :: "'c \<Rightarrow> int \<Rightarrow> int list" and depth :: "'c \<Rightarrow> int \<Rightarrow> nat"
  assumes laws: "valid c \<Longrightarrow> tree_laws (nprocs c) (root_of c) (parent_of c) (children_of c) (depth c)"
begin

lemma broadcast_reaches_all: "valid c \<Longrightarrow> spanning_tree (nprocs c) (root_of c) (parent_of c) (children_of c)"
  by (rule tree_laws_spanning [OF laws])

end

end
