(* ===== verification/Coll_Tree.thy ===== *)
theory Coll_Tree
  imports Bit_Ops Group Spanning_Tree
begin

text \<open>
  \<^verbatim>\<open>ompi/mca/coll/tuned/coll_tuned_topo.c\<close>, first part: the structure all builders
  fill, and \<open>ompi_coll_tuned_topo_build_tree\<close>, the tree with a given fan-out. Each process
  calls the builder with its own rank; size, rank and root are the arguments taken from the
  communicator. The outcome of \<open>malloc\<close> is an argument: \<open>Null\<close>, or a structure with
  indeterminate content. Overflow and division by zero are undefined; loops without an evident
  bound are partial functions.
\<close>

section \<open>The structure\<close>

definition MAXTREEFANOUT :: int where [opal_rc]: "MAXTREEFANOUT = 32"

record coll_tree =
  tree_root :: int
  tree_fanout :: int
  tree_bmtree :: int
  tree_prev :: int
  tree_next :: "int list"
  tree_nextsize :: int

text \<open>The children a process sends to: the first \<open>tree_nextsize\<close> cells.\<close>

definition tree_children :: "coll_tree \<Rightarrow> int list" where
  "tree_children t = take (nat (tree_nextsize t)) (tree_next t)"

definition tree_block :: "coll_tree \<Rightarrow> bool" where
  "tree_block t \<longleftrightarrow> length (tree_next t) = nat MAXTREEFANOUT"

definition tree_of :: "coll_tree ptr option \<Rightarrow> coll_tree" where
  "tree_of r = (case r of Some (Ptr t) \<Rightarrow> t | _ \<Rightarrow> undefined)"

definition ompi_coll_tuned_topo_destroy_tree :: "coll_tree ptr ptr \<Rightarrow> int \<times> coll_tree ptr ptr" where
  "ompi_coll_tuned_topo_destroy_tree tree =
     (case tree of Null \<Rightarrow> (OPAL_SUCCESS, tree) | Ptr Null \<Rightarrow> (OPAL_SUCCESS, tree) | Ptr (Ptr _) \<Rightarrow> (OPAL_SUCCESS, Ptr Null))"

section \<open>Levels of a tree\<close>

definition pown :: "int \<Rightarrow> int \<Rightarrow> int option" where
  "pown fanout num =
     (if num < 0 then Some 0
      else if 1 = num then Some fanout
      else if 2 = fanout then shl1 num
      else for_loop 0 num (\<lambda>j p. cint (p * fanout)) 1)"

partial_function (option) level_loop :: "int \<Rightarrow> int \<Rightarrow> int \<Rightarrow> int \<Rightarrow> int option" where
  "level_loop fanout rank level num =
     (if num \<le> rank then do {
        p \<leftarrow> pown fanout level;
        num \<leftarrow> cint (num + p);
        level_loop fanout rank (level + 1) num }
      else Some level)"

definition calculate_level :: "int \<Rightarrow> int \<Rightarrow> int option" where
  "calculate_level fanout rank =
     (if rank < 0 then Some (- 1) else do { level \<leftarrow> level_loop fanout rank 0 0; Some (level - 1) })"

definition calculate_num_nodes_up_to_level :: "int \<Rightarrow> int \<Rightarrow> int option" where
  "calculate_num_nodes_up_to_level fanout level = do { p \<leftarrow> pown fanout level; cdiv (p - 1) (fanout - 1) }"

section \<open>The tree with a given fan-out\<close>

text \<open>The loop over the children, which stops at the first one beyond the communicator.\<close>

function fill_children :: "int \<Rightarrow> int \<Rightarrow> int \<Rightarrow> int \<Rightarrow> int \<Rightarrow> int \<Rightarrow> coll_tree \<Rightarrow> coll_tree option" where
  "fill_children fanout sz root shiftedrank delta i tree =
     (if i < fanout then do {
        d \<leftarrow> cint (delta * (i + 1));
        schild \<leftarrow> cint (shiftedrank + d);
        if schild < sz then do {
          s \<leftarrow> cint (schild + root);
          c \<leftarrow> cmod s sz;
          nxt \<leftarrow> aset (tree_next tree) i c;
          fill_children fanout sz root shiftedrank delta (i + 1)
            (tree\<lparr>tree_next := nxt, tree_nextsize := tree_nextsize tree + 1\<rparr>) }
        else Some tree }
      else Some tree)"
  by pat_completeness auto
termination
  by (relation "measure (\<lambda>(fanout, sz, root, shiftedrank, delta, i, tree). nat (fanout - i))") auto

partial_function (option) parent_loop :: "int \<Rightarrow> int \<Rightarrow> int \<Rightarrow> int option" where
  "parent_loop slimit step sparent =
     (if sparent \<ge> slimit then parent_loop slimit step (sparent - step) else Some sparent)"

definition ompi_coll_tuned_topo_build_tree :: "coll_tree ptr \<Rightarrow> int \<Rightarrow> int \<Rightarrow> int \<Rightarrow> int \<Rightarrow> coll_tree ptr option" where
  "ompi_coll_tuned_topo_build_tree mem fanout sz rank root =
     (if fanout < 1 then Some Null
      else if fanout > MAXTREEFANOUT then Some Null
      else case mem of
        Null \<Rightarrow> Some Null
      | Ptr junk \<Rightarrow> do {
          nxt \<leftarrow> for_loop 0 fanout (\<lambda>i a. aset a i (- 1)) (tree_next junk);
          let tree = junk\<lparr>tree_fanout := fanout, tree_bmtree := 0, tree_root := root, tree_prev := - 1,
                          tree_nextsize := 0, tree_next := nxt\<rparr> in
          if sz < 2 then Some (Ptr tree)
          else do {
            let shiftedrank = (if rank - root < 0 then rank - root + sz else rank - root);
            level \<leftarrow> calculate_level fanout shiftedrank;
            delta \<leftarrow> pown fanout level;
            tree \<leftarrow> fill_children fanout sz root shiftedrank delta 0 tree;
            slimit \<leftarrow> calculate_num_nodes_up_to_level fanout level;
            step \<leftarrow> cdiv delta fanout;
            sparent \<leftarrow> (if shiftedrank < fanout then Some 0 else parent_loop slimit step shiftedrank);
            s \<leftarrow> cint (sparent + root);
            prev \<leftarrow> cmod s sz;
            Some (Ptr (tree\<lparr>tree_prev := prev\<rparr>)) } })"

declare fill_children.simps [simp del]

section \<open>Levels: the arithmetic\<close>

text \<open>The number of nodes on the first \<open>k\<close> levels, and the level of a virtual rank.\<close>

primrec tree_nodes :: "int \<Rightarrow> nat \<Rightarrow> int" where
  "tree_nodes f 0 = 0"
| "tree_nodes f (Suc k) = tree_nodes f k + f ^ k"

lemma tree_nodes_geometric: "(f - 1) * tree_nodes f k = f ^ k - 1"
  by (induction k) (simp_all add: algebra_simps)

lemma tree_nodes_Suc: "tree_nodes f (Suc k) = f * tree_nodes f k + 1"
  using tree_nodes_geometric [of f k] by (simp add: algebra_simps)

lemma tree_nodes_mono: "1 \<le> f \<Longrightarrow> i \<le> j \<Longrightarrow> tree_nodes f i \<le> tree_nodes f j"
proof (induction j)
  case (Suc j)
  have "0 \<le> f ^ j" using Suc.prems(1) by simp
  with Suc show ?case by (cases "i = Suc j") (simp_all del: zero_le_power)
qed simp

lemma tree_nodes_ge: "1 \<le> f \<Longrightarrow> int k \<le> tree_nodes f k"
proof (induction k)
  case (Suc k)
  have "1 \<le> f ^ k" using Suc.prems by simp
  then show ?case using Suc by (simp del: one_le_power)
qed simp

definition tree_level :: "int \<Rightarrow> int \<Rightarrow> nat" where
  "tree_level f s = (LEAST k. s < tree_nodes f (Suc k))"

lemma tree_level_bounds:
  assumes "1 \<le> f" and "0 \<le> s"
  shows "tree_nodes f (tree_level f s) \<le> s" and "s < tree_nodes f (Suc (tree_level f s))"
proof -
  have "s < tree_nodes f (Suc (nat s))" using tree_nodes_ge [OF assms(1), of "Suc (nat s)"] assms(2) by linarith
  then show "s < tree_nodes f (Suc (tree_level f s))" unfolding tree_level_def by (rule LeastI)
  show "tree_nodes f (tree_level f s) \<le> s"
  proof (cases "tree_level f s")
    case (Suc k)
    then have "\<not> s < tree_nodes f (Suc k)" unfolding tree_level_def by (metis lessI not_less_Least)
    with Suc show ?thesis by simp
  qed (simp add: assms(2))
qed

lemma tree_level_unique:
  assumes "1 \<le> f" and "tree_nodes f k \<le> s" and "s < tree_nodes f (Suc k)"
  shows "tree_level f s = k"
proof -
  have "0 \<le> s" using tree_nodes_ge [OF assms(1), of k] assms(2) by linarith
  note b = tree_level_bounds [OF assms(1) this]
  show ?thesis
  proof (rule ccontr)
    assume "tree_level f s \<noteq> k"
    then consider "Suc (tree_level f s) \<le> k" | "Suc k \<le> tree_level f s" by linarith
    then show False
      using tree_nodes_mono [OF assms(1), of "Suc (tree_level f s)" k] tree_nodes_mono [OF assms(1), of "Suc k" "tree_level f s"]
        b assms(2,3) by cases linarith+
  qed
qed

lemma pown_ok:
  assumes "1 \<le> f" and "f ^ k \<le> INT_MAX"
  shows "pown f (int k) = Some (f ^ k)"
proof -
  have lim: "f ^ j \<le> INT_MAX" if "j \<le> k" for j
    using power_increasing [OF that, of f] assms by simp
  have loop: "for_loop 0 (int k) (\<lambda>j p. cint (p * f)) 1 = Some (f ^ k)"
  proof -
    have "\<exists>p. for_loop 0 (int k) (\<lambda>j p. cint (p * f)) 1 = Some p \<and> p = f ^ nat (int k)"
    proof (rule for_loop_rule [where P = "\<lambda>j p. p = f ^ nat j"])
      fix j p assume j: "0 \<le> j" "j < int k" "p = f ^ nat j"
      then have n: "nat (j + 1) = Suc (nat j)" "Suc (nat j) \<le> k" by linarith+
      have "p * f = f ^ Suc (nat j)" using j(3) by simp
      then have "cint (p * f) = Some (f ^ Suc (nat j))"
        using lim [OF n(2)] assms(1) by (simp add: is_cintI del: power_Suc)
      with n show "\<exists>p'. cint (p * f) = Some p' \<and> p' = f ^ nat (j + 1)" by simp
    qed simp_all
    then show ?thesis by simp
  qed
  have shl: "shl1 (int k) = Some (2 ^ k)" if "f = 2"
  proof -
    have "k < 31"
    proof (rule ccontr)
      assume "\<not> k < 31"
      then have "(2 :: int) ^ 31 \<le> 2 ^ k" by (intro power_increasing) auto
      with assms(2) that show False by (simp add: INT_MAX_def)
    qed
    then show ?thesis by (intro shl1_ok [of "int k", simplified]) simp
  qed
  show ?thesis using loop shl by (auto simp: pown_def)
qed

lemma level_loop_ok:
  assumes "1 \<le> f" and "tree_nodes f (Suc L) \<le> INT_MAX" and "tree_nodes f L \<le> s" and "s < tree_nodes f (Suc L)" and "k \<le> Suc L"
  shows "level_loop f s (int k) (tree_nodes f k) = Some (int (Suc L))"
  using assms(5)
proof (induction "Suc L - k" arbitrary: k)
  case 0
  then have "k = Suc L" by simp
  then show ?case using assms(4) by (subst level_loop.simps) simp
next
  case (Suc d)
  then have k: "k \<le> L" by simp
  have le: "tree_nodes f k \<le> s" using tree_nodes_mono [OF assms(1) k] assms(3) by linarith
  have lim: "tree_nodes f (Suc k) \<le> INT_MAX" using tree_nodes_mono [OF assms(1), of "Suc k" "Suc L"] k assms(2) by linarith
  moreover have pos: "0 \<le> tree_nodes f k" "0 \<le> f ^ k" using tree_nodes_ge [OF assms(1), of k] assms(1) by simp_all
  ultimately have "pown f (int k) = Some (f ^ k)" by (intro pown_ok [OF assms(1)]) simp
  moreover have "cint (tree_nodes f k + f ^ k) = Some (tree_nodes f (Suc k))" using lim pos by (simp add: is_cintI)
  moreover have "level_loop f s (int k + 1) (tree_nodes f (Suc k)) = Some (int (Suc L))"
    using Suc.hyps(1) [of "Suc k"] Suc.hyps(2) k by (simp add: add.commute)
  ultimately show ?case using le by (subst level_loop.simps) simp
qed

lemma parent_loop_ok:
  assumes "0 < step" and "v < slimit" and "slimit \<le> v + step"
  shows "parent_loop slimit step (v + step * int j) = Some v"
proof (induction j)
  case 0
  then show ?case using assms(2) by (subst parent_loop.simps) simp
next
  case (Suc j)
  have "0 \<le> step * int j" using assms(1) by simp
  then have "slimit \<le> v + step * int (Suc j)" using assms(3) by (simp add: algebra_simps del: zero_le_mult_iff)
  moreover have "v + step * int (Suc j) - step = v + step * int j" by (simp add: algebra_simps)
  ultimately show ?case using Suc by (subst parent_loop.simps) (simp only: if_True)
qed

section \<open>The tree on virtual ranks\<close>

definition fan_parent :: "int \<Rightarrow> int \<Rightarrow> int" where
  "fan_parent f s = (let M = tree_level f s - 1 in tree_nodes f M + (s - tree_nodes f M) mod f ^ M)"

definition fan_children :: "int \<Rightarrow> int \<Rightarrow> int \<Rightarrow> int list" where
  "fan_children f n s = takeWhile (\<lambda>c. c < n) (map (\<lambda>i. s + f ^ tree_level f s * (int i + 1)) [0..<nat f])"

lemma takeWhile_less_sorted: "sorted xs \<Longrightarrow> takeWhile (\<lambda>x. x < n) xs = filter (\<lambda>x. x < (n :: int)) xs"
proof (induction xs)
  case (Cons x xs)
  then have "filter (\<lambda>y. y < n) xs = []" if "\<not> x < n" using that by (force simp: filter_empty_conv)
  with Cons show ?case by auto
qed simp

lemma fan_children_set:
  assumes "1 \<le> f"
  shows "set (fan_children f n s) = {s + f ^ tree_level f s * (i + 1) | i. 0 \<le> i \<and> i < f \<and> s + f ^ tree_level f s * (i + 1) < n}"
    and "distinct (fan_children f n s)"
proof -
  let ?c = "\<lambda>i. s + f ^ tree_level f s * (int i + 1)"
  have lt: "?c i < ?c j" if "i < j" for i j using that assms by simp
  have "sorted_wrt (<) (map ?c [0..<nat f])"
    by (simp only: sorted_wrt_map) (rule sorted_wrt_mono_rel [OF lt sorted_wrt_upt])
  then have s: "sorted (map ?c [0..<nat f])" "distinct (map ?c [0..<nat f])" by (auto simp: strict_sorted_iff)
  then show "distinct (fan_children f n s)" by (simp only: fan_children_def distinct_takeWhile)
  have "set (fan_children f n s) = {c \<in> set (map ?c [0..<nat f]). c < n}"
    by (simp only: fan_children_def takeWhile_less_sorted [OF s(1)] set_filter)
  also have "\<dots> = {s + f ^ tree_level f s * (i + 1) | i. 0 \<le> i \<and> i < f \<and> s + f ^ tree_level f s * (i + 1) < n}"
    by (auto simp: image_iff) (metis atLeastLessThan_iff zero_le zless_nat_eq_int_zless nat_eq_iff)
  finally show "set (fan_children f n s) = {s + f ^ tree_level f s * (i + 1) | i. 0 \<le> i \<and> i < f \<and> s + f ^ tree_level f s * (i + 1) < n}" .
qed

lemma tree_level_0 [simp]: "1 \<le> f \<Longrightarrow> tree_level f 0 = 0"
  by (rule tree_level_unique) simp_all

lemma tree_level_pos:
  assumes "1 \<le> f" and "0 < s"
  obtains M where "tree_level f s = Suc M" "tree_nodes f M + f ^ M \<le> s" "s < tree_nodes f M + f ^ M + f ^ M * f"
proof -
  note b = tree_level_bounds [OF assms(1), of s]
  have "tree_level f s \<noteq> 0" using b(2) assms(2) by (cases "tree_level f s") auto
  then obtain M where "tree_level f s = Suc M" by (cases "tree_level f s") auto
  with b assms(2) that show ?thesis by (simp add: mult.commute)
qed

text \<open>A child lies one level below its parent, at a multiple of the size of the parent's level.\<close>

lemma fan_parent_props:
  assumes "1 \<le> f" and "0 < s"
  defines "M \<equiv> tree_level f s - 1"
  shows "tree_level f (fan_parent f s) = M" and "0 \<le> fan_parent f s" and "fan_parent f s < s"
    and "\<exists>i. 0 \<le> i \<and> i < f \<and> s = fan_parent f s + f ^ M * (i + 1)"
proof -
  obtain K where K: "tree_level f s = Suc K" "tree_nodes f K + f ^ K \<le> s" "s < tree_nodes f K + f ^ K + f ^ K * f"
    by (rule tree_level_pos [OF assms(1,2)])
  have M: "M = K" using K(1) by (simp add: M_def)
  let ?P = "f ^ K" and ?q = "s - tree_nodes f K"
  have P: "0 < ?P" using assms(1) by simp
  have p: "fan_parent f s = tree_nodes f K + ?q mod ?P" using K(1) by (simp add: fan_parent_def)
  have m: "0 \<le> ?q mod ?P" "?q mod ?P < ?P" using P by simp_all
  show "tree_level f (fan_parent f s) = M" unfolding M by (rule tree_level_unique [OF assms(1)]) (use p m in simp_all)
  show "0 \<le> fan_parent f s" using p m tree_nodes_ge [OF assms(1), of K] by linarith
  show "fan_parent f s < s" using p m K(2) by linarith
  have e: "?q = ?q mod ?P + ?P * (?q div ?P)" by simp
  have "?P div ?P \<le> ?q div ?P" using K(2) P by (intro zdiv_mono1) simp_all
  then have "1 \<le> ?q div ?P" using assms(1) by simp
  moreover have "?q div ?P < f + 1"
  proof (rule ccontr)
    assume "\<not> ?q div ?P < f + 1"
    then have "?P * (f + 1) \<le> ?P * (?q div ?P)" using P by simp
    then have "?P + ?P * f \<le> ?P * (?q div ?P)" by (simp only: distrib_left mult_1_right)
    with e m(1) K(3) show False by linarith
  qed
  ultimately show "\<exists>i. 0 \<le> i \<and> i < f \<and> s = fan_parent f s + f ^ M * (i + 1)"
    using e p M by (intro exI [of _ "?q div ?P - 1"]) simp
qed

lemma fan_child_props:
  assumes "1 \<le> f" and "0 \<le> s" and "0 \<le> i" and "i < f" and "k = s + f ^ tree_level f s * (i + 1)"
  shows "fan_parent f k = s" and "0 < k"
proof -
  let ?M = "tree_level f s" and ?P = "f ^ tree_level f s"
  note b = tree_level_bounds [OF assms(1,2)]
  have P: "0 < ?P" using assms(1) by simp
  have "?P * 1 \<le> ?P * (i + 1)" "?P * (i + 1) \<le> ?P * f" using P assms(3,4) by (intro mult_left_mono; simp)+
  then have k: "tree_nodes f (Suc ?M) \<le> k" "k < tree_nodes f (Suc (Suc ?M))" using b assms(5) by (simp_all only: tree_nodes.simps power_Suc2 mult_1_right)
  then have "tree_level f k = Suc ?M" by (rule tree_level_unique [OF assms(1)])
  moreover have "(k - tree_nodes f ?M) mod ?P = (s - tree_nodes f ?M) mod ?P"
    using assms(5) by (metis add.commute add_diff_eq mod_mult_self4)
  moreover have "(s - tree_nodes f ?M) mod ?P = s - tree_nodes f ?M" using b by (intro mod_pos_pos_trivial) simp_all
  ultimately show "fan_parent f k = s" by (simp add: fan_parent_def)
  show "0 < k" using assms(2,5) P \<open>?P * 1 \<le> ?P * (i + 1)\<close> by linarith
qed

lemma fan_tree_laws:
  assumes "1 \<le> f" and "0 < n"
  shows "tree_laws n 0 (fan_parent f) (fan_children f n) nat"
proof -
  have "set (fan_children f n r) = {k \<in> {0..<n}. k \<noteq> 0 \<and> fan_parent f k = r}" if r: "r \<in> {0..<n}" for r
  proof (intro set_eqI iffI)
    fix k assume "k \<in> set (fan_children f n r)"
    then obtain i where "0 \<le> i" "i < f" "k = r + f ^ tree_level f r * (i + 1)" "k < n"
      using fan_children_set(1) [OF assms(1)] by auto
    then show "k \<in> {k \<in> {0..<n}. k \<noteq> 0 \<and> fan_parent f k = r}" using fan_child_props [OF assms(1), of r i k] r by auto
  next
    fix k assume k: "k \<in> {k \<in> {0..<n}. k \<noteq> 0 \<and> fan_parent f k = r}"
    then have "0 < k" by auto
    note p = fan_parent_props [OF assms(1) this]
    then obtain i where "0 \<le> i" "i < f" "k = r + f ^ tree_level f r * (i + 1)" using k by auto
    then show "k \<in> set (fan_children f n r)" using k fan_children_set(1) [OF assms(1)] by auto
  qed
  moreover have "fan_parent f k \<in> {0..<n} \<and> nat (fan_parent f k) < nat k" if "k \<in> {0..<n}" "k \<noteq> 0" for k
    using fan_parent_props(2,3) [OF assms(1), of k] that by auto
  ultimately show ?thesis using assms(2) fan_children_set(2) [OF assms(1)] by (simp add: tree_laws_def)
qed

section \<open>What the builder computes\<close>

text \<open>The ranks that the builders shift with a conditional addition are the virtual ranks.\<close>

lemma shifted_rank_eq:
  assumes "rank \<in> {0..<n}" and "root \<in> {0..<n}"
  shows "(if rank - root < 0 then rank - root + n else rank - root) = vrank n root rank"
proof (cases "rank - root < 0")
  case True
  then have "(rank - root + n) mod n = rank - root + n" using assms by (intro mod_pos_pos_trivial) auto
  with True show ?thesis by (simp add: vrank_def)
next
  case False
  then show ?thesis using assms by (simp add: vrank_def mod_pos_pos_trivial)
qed

lemma cmod_real_rank: "0 \<le> v \<Longrightarrow> 0 \<le> root \<Longrightarrow> 0 < n \<Longrightarrow> cmod (v + root) n = Some (real_rank n root v)"
  by (simp add: cmod_def real_rank_def)

lemma fill_children_ok:
  assumes "\<And>j. int j < f \<Longrightarrow> s + delta * (int j + 1) < n \<longleftrightarrow> j < K" and "int K \<le> f" and "K \<le> length (tree_next t)" and "i \<le> K"
    and "0 \<le> s" and "0 \<le> delta" and "0 \<le> root" and "root < n" and "s < n"
    and "s + delta \<le> INT_MAX" and "2 * n \<le> INT_MAX"
  shows "fill_children f n root s delta (int i) t =
    Some (t\<lparr>tree_next := take i (tree_next t) @ map (\<lambda>j. real_rank n root (s + delta * (int j + 1))) [i..<K] @ drop K (tree_next t),
            tree_nextsize := tree_nextsize t + int (K - i)\<rparr>)"
  using assms(3,4)
proof (induction "K - i" arbitrary: i t)
  case 0
  then have i: "i = K" by simp
  have lim: "is_cint (delta * (int K + 1))" "is_cint (s + delta * (int K + 1))" if "int K < f"
  proof -
    have "s + delta * (int K + 1) \<le> INT_MAX"
    proof (cases K)
      case (Suc j)
      then have "s + delta * (int j + 1) < n" using assms(1) [of j] that by simp
      moreover have "delta * 1 \<le> delta * (int j + 1)" using assms(6) by (intro mult_left_mono) simp_all
      ultimately have "s + delta * (int j + 1) < n" "delta \<le> delta * (int j + 1)" by simp_all
      then show ?thesis using Suc assms(5,11) by (simp add: distrib_left)
    qed (use assms(10) in simp)
    moreover have "0 \<le> delta * (int K + 1)" using assms(6) by simp
    ultimately show "is_cint (delta * (int K + 1))" "is_cint (s + delta * (int K + 1))"
      using assms(5) by (auto intro!: is_cintI)
  qed
  show ?case using i lim assms(1) [of K] by (simp add: fill_children.simps add.commute)
next
  case (Suc d)
  then have i: "i < K" "int i < f" using assms(2) by auto
  then have c: "s + delta * (int i + 1) < n" using assms(1) by blast
  let ?c = "real_rank n root (s + delta * (int i + 1))"
  have pos: "0 \<le> delta * (int i + 1)" using assms(6) by simp
  then have lim: "is_cint (delta * (int i + 1))" "is_cint (s + delta * (int i + 1))" "is_cint (s + delta * (int i + 1) + root)"
    using c assms(5,7,8,11) by (auto intro!: is_cintI)
  let ?t = "t\<lparr>tree_next := (tree_next t)[i := ?c], tree_nextsize := tree_nextsize t + 1\<rparr>"
  have "fill_children f n root s delta (int i) t = fill_children f n root s delta (int (Suc i)) ?t"
    using i c lim pos assms(5,7,8,9) Suc.prems cmod_real_rank [of "s + delta * (int i + 1)" root n]
    by (subst fill_children.simps) (simp add: aset_def add.commute)
  also have "\<dots> = Some (?t\<lparr>tree_next := take (Suc i) (tree_next ?t) @ map (\<lambda>j. real_rank n root (s + delta * (int j + 1))) [Suc i..<K] @ drop K (tree_next ?t),
            tree_nextsize := tree_nextsize ?t + int (K - Suc i)\<rparr>)"
    by (rule Suc.hyps(1)) (use Suc.hyps(2) Suc.prems i in auto)
  finally show ?case using i Suc.prems by (simp add: take_Suc_update upt_conv_Cons)
qed

lemma fan_level_bounds:
  assumes "1 \<le> f" and "f \<le> 32" and "0 \<le> s" and "s < n" and "n \<le> 2 ^ 25"
  shows "f ^ tree_level f s \<le> 31 * n + 1" and "tree_nodes f (Suc (tree_level f s)) \<le> 32 * n + 1"
proof -
  note b = tree_level_bounds(1) [OF assms(1,3)]
  have "(f - 1) * tree_nodes f (tree_level f s) \<le> 31 * n"
    using b assms tree_nodes_ge [OF assms(1), of "tree_level f s"] by (intro mult_mono) auto
  then show p: "f ^ tree_level f s \<le> 31 * n + 1" using tree_nodes_geometric [of f "tree_level f s"] by simp
  then show "tree_nodes f (Suc (tree_level f s)) \<le> 32 * n + 1" using b assms(4) by simp
qed

lemma fan_children_prefix:
  assumes "1 \<le> f" and "int j < f"
  shows "s + f ^ tree_level f s * (int j + 1) < n \<longleftrightarrow> j < length (fan_children f n s)"
proof -
  let ?c = "\<lambda>i. s + f ^ tree_level f s * (int i + 1)" and ?K = "length (fan_children f n s)"
  have nth: "fan_children f n s ! i = ?c i" if "i < ?K" for i
    using that by (simp add: fan_children_def takeWhile_nth) (metis (no_types, lifting) add_cancel_left_left
      length_map length_takeWhile_le length_upt less_le_trans minus_nat.diff_0 nth_map nth_upt)
  have in_set: "c < n" if "c \<in> set (fan_children f n s)" for c using that by (auto simp: fan_children_def dest: set_takeWhileD)
  show ?thesis
  proof
    assume "j < ?K"
    then show "?c j < n" using nth in_set nth_mem by metis
  next
    assume c: "?c j < n"
    show "j < ?K"
    proof (rule ccontr)
      assume "\<not> j < ?K"
      then have K: "?K \<le> j" by simp
      then have "?K < length (map ?c [0..<nat f])" using assms(2) by simp
      then have "\<not> ?c ?K < n" using nth_length_takeWhile [of "\<lambda>c. c < n" "map ?c [0..<nat f]"]
        by (simp only: fan_children_def) simp
      moreover have "?c ?K \<le> ?c j" using K assms(1) by simp
      ultimately show False using c by linarith
    qed
  qed
qed

lemma fan_children_map:
  assumes "1 \<le> f"
  shows "fan_children f n s = map (\<lambda>j. s + f ^ tree_level f s * (int j + 1)) [0..<length (fan_children f n s)]"
proof -
  have "fan_children f n s = take (length (fan_children f n s)) (map (\<lambda>i. s + f ^ tree_level f s * (int i + 1)) [0..<nat f])"
    unfolding fan_children_def by (rule takeWhile_eq_take)
  moreover have "length (fan_children f n s) \<le> nat f"
    using length_takeWhile_le [of "\<lambda>c. c < n" "map (\<lambda>i. s + f ^ tree_level f s * (int i + 1)) [0..<nat f]"]
    by (simp only: fan_children_def) simp
  ultimately show ?thesis by (simp add: take_map)
qed

lemma length_fan_children: "length (fan_children f n s) \<le> nat f"
  using length_takeWhile_le [of "\<lambda>c. c < n" "map (\<lambda>i. s + f ^ tree_level f s * (int i + 1)) [0..<nat f]"]
  by (simp only: fan_children_def) simp

lemma calculate_level_ok:
  assumes "1 \<le> f" and "f \<le> 32" and "0 \<le> s" and "s < n" and "n \<le> 2 ^ 25"
  shows "calculate_level f s = Some (int (tree_level f s))" and "pown f (int (tree_level f s)) = Some (f ^ tree_level f s)"
proof -
  note b = fan_level_bounds [OF assms]
  note l = tree_level_bounds [OF assms(1,3)]
  have "tree_nodes f (Suc (tree_level f s)) \<le> INT_MAX" using b(2) assms(5) by (simp add: INT_MAX_def)
  from level_loop_ok [OF assms(1) this l, of 0] show "calculate_level f s = Some (int (tree_level f s))"
    using assms(3) by (simp add: calculate_level_def)
  show "pown f (int (tree_level f s)) = Some (f ^ tree_level f s)"
    using b(1) assms(5) by (intro pown_ok [OF assms(1)]) (simp add: INT_MAX_def)
qed

lemma fan_parent_loop:
  assumes "2 \<le> f" and "0 \<le> s"
  shows "(if s < f then Some 0 else parent_loop (tree_nodes f (tree_level f s)) (f ^ tree_level f s sdiv f) s) = Some (fan_parent f s)"
proof -
  have f: "1 \<le> f" using assms by simp
  show ?thesis
  proof (cases "s < f")
    case True
    have "tree_level f s \<le> 1"
    proof (cases "s = 0")
      case False
      then have "tree_level f s = 1" using True assms by (intro tree_level_unique) simp_all
      then show ?thesis by simp
    qed (use f in simp)
    then show ?thesis using True by (simp add: fan_parent_def)
  next
    case False
    then have s: "0 < s" using assms by simp
    obtain M where M: "tree_level f s = Suc M" "tree_nodes f M + f ^ M \<le> s" by (rule tree_level_pos [OF f s])
    have P: "0 < f ^ M" using f by simp
    let ?v = "fan_parent f s"
    have v: "?v = tree_nodes f M + (s - tree_nodes f M) mod f ^ M" using M(1) by (simp add: fan_parent_def)
    have "s = ?v + f ^ M * ((s - tree_nodes f M) div f ^ M)" unfolding v by simp
    moreover have "0 \<le> (s - tree_nodes f M) div f ^ M" using M(2) P by (simp add: pos_imp_zdiv_nonneg_iff)
    ultimately obtain j where j: "s = ?v + f ^ M * int j" by (metis nonneg_int_cases)
    have "0 \<le> (s - tree_nodes f M) mod f ^ M" "(s - tree_nodes f M) mod f ^ M < f ^ M" using P by simp_all
    then have "parent_loop (tree_nodes f (Suc M)) (f ^ M) (?v + f ^ M * int j) = Some ?v"
      using P v by (intro parent_loop_ok) simp_all
    moreover have "f ^ Suc M sdiv f = f ^ M" using f by simp
    ultimately show ?thesis using False M(1) j by (simp del: tree_nodes.simps power_Suc)
  qed
qed

definition fan_valid :: "coll_tree \<times> int \<times> int \<times> int \<Rightarrow> bool" where
  "fan_valid = (\<lambda>(junk, f, n, root). tree_block junk \<and> 1 \<le> f \<and> f \<le> MAXTREEFANOUT \<and> (2 \<le> f \<or> n = 1) \<and>
     0 \<le> root \<and> root < n \<and> n \<le> 2 ^ 25)"

lemma build_tree_ok:
  assumes "fan_valid (junk, f, n, root)" and "rank \<in> {0..<n}"
  shows "\<exists>t. ompi_coll_tuned_topo_build_tree (Ptr junk) f n rank root = Some (Ptr t) \<and> tree_root t = root \<and>
    tree_children t = map (real_rank n root) (fan_children f n (vrank n root rank)) \<and>
    (2 \<le> n \<longrightarrow> tree_prev t = real_rank n root (fan_parent f (vrank n root rank)))"
proof -
  have v: "tree_block junk" "1 \<le> f" "f \<le> 32" "2 \<le> f \<or> n = 1" "0 \<le> root" "root < n" "n \<le> 2 ^ 25"
    using assms(1) by (auto simp: fan_valid_def MAXTREEFANOUT_def)
  have len: "length (tree_next junk) = 32" using v(1) by (simp add: tree_block_def MAXTREEFANOUT_def)
  let ?nxt = "replicate (nat f) (- 1) @ drop (nat f) (tree_next junk)"
  have fill: "for_loop 0 f (\<lambda>i a. aset a i (- 1)) (tree_next junk) = Some ?nxt"
    using for_loop_array_fill [of "replicate (nat f) (- 1)" "\<lambda>i. Some (- 1)" "tree_next junk"] v(2,3) len by simp
  let ?t = "junk\<lparr>tree_fanout := f, tree_bmtree := 0, tree_root := root, tree_prev := - 1, tree_nextsize := 0, tree_next := ?nxt\<rparr>"
  let ?s = "vrank n root rank"
  have s: "0 \<le> ?s" "?s < n" using vrank_range [of n root rank] v(5,6) by simp_all
  show ?thesis
  proof (cases "n = 1")
    case True
    then have "?s = 0" using s by simp
    then have "fan_children f n ?s = []" using True v(2) by (simp add: fan_children_def upt_conv_Cons)
    moreover have "ompi_coll_tuned_topo_build_tree (Ptr junk) f n rank root = Some (Ptr ?t)"
      using True v(2,3) fill by (simp add: ompi_coll_tuned_topo_build_tree_def MAXTREEFANOUT_def)
    ultimately show ?thesis using True by (simp add: tree_children_def)
  next
    case False
    then have f: "2 \<le> f" and n: "\<not> n < 2" using v(4-6) by auto
    let ?K = "length (fan_children f n ?s)" and ?d = "f ^ tree_level f ?s"
    note lev = calculate_level_ok [OF v(2,3) s v(7)]
    have K: "?K \<le> nat f" by (rule length_fan_children)
    have "?s + ?d \<le> INT_MAX" using fan_level_bounds(1) [OF v(2,3) s v(7)] s v(7) by (simp add: INT_MAX_def)
    then have fc: "fill_children f n root ?s ?d 0 ?t =
        Some (?t\<lparr>tree_next := map (real_rank n root) (fan_children f n ?s) @ drop ?K ?nxt, tree_nextsize := int ?K\<rparr>)"
      using fill_children_ok [OF fan_children_prefix [OF v(2), where s = ?s and n = n], where t = ?t and i = 0 and root = root] K len v s
        arg_cong [OF fan_children_map [OF v(2), of n ?s], of "map (real_rank n root)"]
      by (simp add: INT_MAX_def comp_def)
    have slim: "calculate_num_nodes_up_to_level f (int (tree_level f ?s)) = Some (tree_nodes f (tree_level f ?s))"
      using lev(2) f tree_nodes_ge [OF v(2), of "tree_level f ?s"]
      by (simp add: calculate_num_nodes_up_to_level_def cdiv_def tree_nodes_geometric [symmetric])
    have pr: "0 \<le> fan_parent f ?s" "fan_parent f ?s < n"
      using fan_parent_props(2,3) [OF v(2), of ?s] s v(2,5,6) by (cases "?s = 0"; simp add: fan_parent_def)+
    have "ompi_coll_tuned_topo_build_tree (Ptr junk) f n rank root =
        Some (Ptr (?t\<lparr>tree_next := map (real_rank n root) (fan_children f n ?s) @ drop ?K ?nxt, tree_nextsize := int ?K,
                      tree_prev := real_rank n root (fan_parent f ?s)\<rparr>))"
      using v f n fill lev fc slim fan_parent_loop [OF f s(1)] shifted_rank_eq [OF assms(2), of root] pr
        cmod_real_rank [OF pr(1) v(5), of n]
      by (simp add: ompi_coll_tuned_topo_build_tree_def MAXTREEFANOUT_def cdiv_def is_cintI INT_MAX_def Let_def)
    then show ?thesis by (simp add: tree_children_def)
  qed
qed

interpretation fan: coll_family fan_valid "\<lambda>(junk, f, n, root). n" "\<lambda>(junk, f, n, root). root"
  "\<lambda>(junk, f, n, root) r. tree_prev (tree_of (ompi_coll_tuned_topo_build_tree (Ptr junk) f n r root))"
  "\<lambda>(junk, f, n, root) r. tree_children (tree_of (ompi_coll_tuned_topo_build_tree (Ptr junk) f n r root))"
  "\<lambda>(junk, f, n, root) r. nat (vrank n root r)"
proof
  fix c :: "coll_tree \<times> int \<times> int \<times> int" assume valid: "fan_valid c"
  obtain junk f n root where c: "c = (junk, f, n, root)" by (cases c)
  let ?B = "\<lambda>r. tree_of (ompi_coll_tuned_topo_build_tree (Ptr junk) f n r root)"
  have v: "1 \<le> f" "0 < n" "root \<in> {0..<n}" using valid c by (auto simp: fan_valid_def)
  have t: "tree_children (?B r) = map (real_rank n root) (fan_children f n (vrank n root r))"
    "2 \<le> n \<longrightarrow> tree_prev (?B r) = real_rank n root (fan_parent f (vrank n root r))" if "r \<in> {0..<n}" for r
    using build_tree_ok [of junk f n root r] valid c that by (auto simp: tree_of_def)
  have "tree_laws n root (\<lambda>r. tree_prev (?B r)) (\<lambda>r. tree_children (?B r)) (\<lambda>r. nat (vrank n root r))"
    by (rule tree_laws_rotate [OF fan_tree_laws [OF v(1,2)] v(3)]) (use t v(3) in auto)
  then show "tree_laws (case c of (junk, f, n, root) \<Rightarrow> n) (case c of (junk, f, n, root) \<Rightarrow> root)
     ((\<lambda>(junk, f, n, root) r. tree_prev (tree_of (ompi_coll_tuned_topo_build_tree (Ptr junk) f n r root))) c)
     ((\<lambda>(junk, f, n, root) r. tree_children (tree_of (ompi_coll_tuned_topo_build_tree (Ptr junk) f n r root))) c)
     ((\<lambda>(junk, f, n, root) r. nat (vrank n root r)) c)"
    using c by simp
qed

section \<open>Properties\<close>

text \<open>
  The form of the theorems on all builders: every process gets a tree, and the parents and children in
  the trees of all processes form a spanning tree of the communicator.
\<close>

definition views_span :: "int \<Rightarrow> int \<Rightarrow> (int \<Rightarrow> coll_tree ptr option) \<Rightarrow> bool" where
  "views_span n root build \<longleftrightarrow>
     (\<forall>r \<in> {0..<n}. \<exists>t. build r = Some (Ptr t) \<and> tree_root t = root) \<and>
     spanning_tree n root (\<lambda>r. tree_prev (tree_of (build r))) (\<lambda>r. tree_children (tree_of (build r)))"

text \<open>C15: The trees that the processes of a communicator build with ompi_coll_tuned_topo_build_tree for a
  fan-out between 2 and MAXTREEFANOUT fit together for every root: no builder runs into undefined behaviour
  or an endless loop, a message sent down the tree reaches every process, each process but the root is named
  exactly once as a child, and it takes the process that names it for its parent.\<close>

theorem build_tree_spans:
  assumes "2 \<le> f" and "f \<le> MAXTREEFANOUT" and "0 \<le> root" and "root < n" and "n \<le> 2 ^ 25" and "tree_block junk"
  shows "views_span n root (\<lambda>r. ompi_coll_tuned_topo_build_tree (Ptr junk) f n r root)"
proof -
  have valid: "fan_valid (junk, f, n, root)" using assms by (simp add: fan_valid_def)
  then have "\<forall>r \<in> {0..<n}. \<exists>t. ompi_coll_tuned_topo_build_tree (Ptr junk) f n r root = Some (Ptr t) \<and> tree_root t = root"
    using build_tree_ok by blast
  then show ?thesis using fan.broadcast_reaches_all [OF valid] by (simp add: views_span_def)
qed

theorem build_tree_spans_witness:
  "views_span 7 3 (\<lambda>r. ompi_coll_tuned_topo_build_tree
     (Ptr \<lparr>tree_root = 0, tree_fanout = 0, tree_bmtree = 0, tree_prev = 0, tree_next = replicate 32 5, tree_nextsize = 0\<rparr>) 2 7 r 3)"
  by (rule build_tree_spans) (simp_all add: MAXTREEFANOUT_def tree_block_def)

text \<open>A fan-out of 1 passes the tests of ompi_coll_tuned_topo_build_tree, but in a communicator of two or
  more processes the formula for the number of nodes above a level then divides by zero in every process.\<close>

theorem build_tree_fanout_one_divides_by_zero:
  assumes "2 \<le> n" and "n \<le> 2 ^ 25" and "0 \<le> root" and "root < n" and "0 \<le> rank" and "rank < n" and "tree_block junk"
  shows "ompi_coll_tuned_topo_build_tree (Ptr junk) 1 n rank root = None"
proof -
  have v: "vrank n root rank \<in> {0..<n}" using assms by (intro vrank_range) simp
  then have s: "0 \<le> vrank n root rank" "vrank n root rank < n" by simp_all
  note lev = calculate_level_ok [of 1, OF _ _ s assms(2), simplified]
  then have "calculate_num_nodes_up_to_level 1 (int (tree_level 1 (vrank n root rank))) = None"
    by (simp add: calculate_num_nodes_up_to_level_def cdiv_def)
  then show ?thesis using assms lev shifted_rank_eq [of rank n root]
    by (simp add: ompi_coll_tuned_topo_build_tree_def MAXTREEFANOUT_def Let_def split: bind_split)
qed

theorem build_tree_fanout_one_divides_by_zero_witness:
  "ompi_coll_tuned_topo_build_tree
     (Ptr \<lparr>tree_root = 0, tree_fanout = 0, tree_bmtree = 0, tree_prev = 0, tree_next = replicate 32 5, tree_nextsize = 0\<rparr>) 1 4 2 0 = None"
  by (rule build_tree_fanout_one_divides_by_zero) (simp_all add: MAXTREEFANOUT_def tree_block_def)

end
