(* ===== verification/Coll_Bmtree.thy ===== *)
theory Coll_Bmtree
  imports Coll_Tree
begin

text \<open>
  \<^verbatim>\<open>ompi/mca/coll/tuned/coll_tuned_topo.c\<close>, second part: the two binomial trees. In
  \<open>build_bmtree\<close> the parent of a virtual rank is the rank without its highest bit, in
  \<open>build_in_order_bmtree\<close> without its lowest bit; the children are found by setting bits above
  the highest and below the lowest one. The loops double a mask until it reaches the size.
\<close>

unbundle bit_operations_syntax

section \<open>The builders\<close>

text \<open>The loop over the children of \<open>build_bmtree\<close>: \<open>Null\<close> is the early return when the array is full.\<close>

partial_function (option) bm_children :: "int \<Rightarrow> int \<Rightarrow> int \<Rightarrow> int \<Rightarrow> int \<Rightarrow> int list \<Rightarrow> (int \<times> int list) ptr option" where
  "bm_children sz root index childs msk nxt =
     (if msk < sz then
        if index XOR msk \<ge> sz then Some (Ptr (childs, nxt))
        else do {
          remote \<leftarrow> cint ((index XOR msk) + root);
          let remote = (if remote \<ge> sz then remote - sz else remote);
          if childs = MAXTREEFANOUT then Some Null
          else do {
            nxt \<leftarrow> aset nxt childs remote;
            msk \<leftarrow> cint (msk * 2);
            bm_children sz root index (childs + 1) msk nxt } }
      else Some (Ptr (childs, nxt)))"

definition ompi_coll_tuned_topo_build_bmtree :: "bool \<Rightarrow> coll_tree ptr \<Rightarrow> int \<Rightarrow> int \<Rightarrow> int \<Rightarrow> coll_tree ptr option" where
  "ompi_coll_tuned_topo_build_bmtree have_clz mem sz rank root =
     (case mem of
        Null \<Rightarrow> Some Null
      | Ptr junk \<Rightarrow> do {
          nxt \<leftarrow> for_loop 0 MAXTREEFANOUT (\<lambda>i a. aset a i (- 1)) (tree_next junk);
          let bmtree = junk\<lparr>tree_bmtree := 1, tree_root := MPI_UNDEFINED, tree_nextsize := MPI_UNDEFINED, tree_next := nxt\<rparr>;
          let index = (if rank - root < 0 then rank - root + sz else rank - root);
          msk \<leftarrow> opal_next_poweroftwo have_clz index;
          prev \<leftarrow> (if root = rank then Some root
                  else do { remote \<leftarrow> cint ((index XOR drop_bit 1 msk) + root);
                            Some (if remote \<ge> sz then remote - sz else remote) });
          r \<leftarrow> bm_children sz root index 0 msk (tree_next bmtree);
          case r of
            Null \<Rightarrow> Some Null
          | Ptr (childs, nxt) \<Rightarrow>
              Some (Ptr (bmtree\<lparr>tree_prev := prev, tree_next := nxt, tree_nextsize := childs, tree_root := root\<rparr>)) })"

text \<open>The loop of \<open>build_in_order_bmtree\<close>: parent, number of children and children.\<close>

partial_function (option) io_bm_loop ::
    "int \<Rightarrow> int \<Rightarrow> int \<Rightarrow> int \<Rightarrow> int \<Rightarrow> int \<Rightarrow> int list \<Rightarrow> (int \<times> int \<times> int list) ptr option" where
  "io_bm_loop sz root vrnk childs msk prev nxt =
     (if msk < sz then
        let remote = vrnk XOR msk in
        if remote < vrnk then do {
          s \<leftarrow> cint (remote + root);
          prev \<leftarrow> cmod s sz;
          Some (Ptr (prev, childs, nxt)) }
        else if remote < sz then do {
          s \<leftarrow> cint (remote + root);
          c \<leftarrow> cmod s sz;
          nxt \<leftarrow> aset nxt childs c;
          if childs + 1 = MAXTREEFANOUT then Some Null
          else do {
            msk \<leftarrow> cint (msk * 2);
            io_bm_loop sz root vrnk (childs + 1) msk prev nxt } }
        else do {
          msk \<leftarrow> cint (msk * 2);
          io_bm_loop sz root vrnk childs msk prev nxt }
      else Some (Ptr (prev, childs, nxt)))"

definition ompi_coll_tuned_topo_build_in_order_bmtree :: "coll_tree ptr \<Rightarrow> int \<Rightarrow> int \<Rightarrow> int \<Rightarrow> coll_tree ptr option" where
  "ompi_coll_tuned_topo_build_in_order_bmtree mem sz rank root = do {
     s \<leftarrow> cint (rank - root + sz);
     vrnk \<leftarrow> cmod s sz;
     case mem of
       Null \<Rightarrow> Some Null
     | Ptr junk \<Rightarrow> do {
         nxt \<leftarrow> for_loop 0 MAXTREEFANOUT (\<lambda>i a. aset a i (- 1)) (tree_next junk);
         let bmtree = junk\<lparr>tree_bmtree := 1, tree_root := MPI_UNDEFINED, tree_nextsize := MPI_UNDEFINED, tree_next := nxt,
                           tree_prev := (if root = rank then root else tree_prev junk)\<rparr>;
         r \<leftarrow> io_bm_loop sz root vrnk 0 1 (tree_prev bmtree) (tree_next bmtree);
         case r of
           Null \<Rightarrow> Some Null
         | Ptr (prev, childs, nxt) \<Rightarrow>
             Some (Ptr (bmtree\<lparr>tree_prev := prev, tree_next := nxt, tree_nextsize := childs, tree_root := root\<rparr>)) } }"

section \<open>Bits of a rank\<close>

lemma xor_power: "(a :: int) XOR 2 ^ k = (if bit a k then a - 2 ^ k else a + 2 ^ k)"
proof -
  have "a XOR 2 ^ k = flip_bit k a" by (simp add: flip_bit_eq_xor push_bit_eq_mult)
  then show ?thesis by (simp add: flip_bit_eq_if set_bit_eq unset_bit_eq)
qed

lemma bit_small: "0 \<le> (a :: int) \<Longrightarrow> a < 2 ^ k \<Longrightarrow> \<not> bit a k"
  by (simp add: bit_iff_odd)

lemma bit_top: "(2 :: int) ^ k \<le> a \<Longrightarrow> a < 2 ^ Suc k \<Longrightarrow> bit a k"
proof -
  assume a: "2 ^ k \<le> a" "a < 2 ^ Suc k"
  have "a div 2 ^ k = 1" using a by (intro int_div_pos_eq [of a "2 ^ k" 1 "a - 2 ^ k"]) simp_all
  then show ?thesis by (simp add: bit_iff_odd)
qed

lemma nbits_int_bounds:
  assumes "0 < v"
  shows "2 ^ (nbits (nat v) - 1) \<le> v" and "v < 2 ^ nbits (nat v)" and "0 < nbits (nat v)"
proof -
  have "int (2 ^ (nbits (nat v) - 1)) \<le> int (nat v)" using nbits_lower [of "nat v"] assms by (simp only: of_nat_le_iff)
  then show "2 ^ (nbits (nat v) - 1) \<le> v" using assms by simp
  show "v < 2 ^ nbits (nat v)" using next_poweroftwo_bounds(1) [of v] assms by simp
  then show "0 < nbits (nat v)" using assms by (cases "nbits (nat v)") auto
qed

lemma cond_real_rank:
  assumes "0 \<le> v" and "v < n" and "0 \<le> root" and "root < n"
  shows "(if v + root \<ge> n then v + root - n else v + root) = real_rank n root v"
proof (cases "v + root \<ge> n")
  case True
  then have "(v + root - n) mod n = v + root - n" using assms by (intro mod_pos_pos_trivial) auto
  with True show ?thesis by (simp add: real_rank_def)
next
  case False
  then show ?thesis using assms by (simp add: real_rank_def mod_pos_pos_trivial)
qed

lemma init_next:
  "tree_block junk \<Longrightarrow> for_loop 0 MAXTREEFANOUT (\<lambda>i a. aset a i (- 1)) (tree_next junk) = Some (replicate 32 (- 1))"
  using for_loop_array_fill [of "replicate 32 (- 1)" "\<lambda>i. Some (- 1)" "tree_next junk"]
  by (simp add: tree_block_def MAXTREEFANOUT_def)

lemma power_int_mono: "j \<le> k \<Longrightarrow> (2 :: int) ^ j \<le> 2 ^ k"
  by (rule power_increasing) simp_all

section \<open>The binomial tree\<close>

definition bm_parent :: "int \<Rightarrow> int" where
  "bm_parent v = v - 2 ^ (nbits (nat v) - 1)"

definition bm_rest :: "int \<Rightarrow> int \<Rightarrow> nat \<Rightarrow> int list" where
  "bm_rest n v k = takeWhile (\<lambda>c. c < n) (map (\<lambda>j. v + 2 ^ j) [k..<30])"

definition bm_kids :: "int \<Rightarrow> int \<Rightarrow> int list" where
  "bm_kids n v = bm_rest n v (nbits (nat v))"

lemma bm_rest_step: "k < 30 \<Longrightarrow> bm_rest n v k = (if v + 2 ^ k < n then (v + 2 ^ k) # bm_rest n v (Suc k) else [])"
  by (simp add: bm_rest_def upt_conv_Cons)

lemma bm_children_ok:
  assumes "0 \<le> v" and "v < n" and "n \<le> 2 ^ 30" and "0 \<le> root" and "root < n" and "v < 2 ^ k" and "k \<le> 30"
    and "c \<le> k" and "length nxt = 32"
  shows "bm_children n root v (int c) (2 ^ k) nxt =
    Some (Ptr (int (c + length (bm_rest n v k)),
      take c nxt @ map (real_rank n root) (bm_rest n v k) @ drop (c + length (bm_rest n v k)) nxt))"
  using assms(6-9)
proof (induction "30 - k" arbitrary: k c nxt)
  case 0
  then have "k = 30" by simp
  then show ?case using assms(3) by (subst bm_children.simps) (simp add: bm_rest_def)
next
  case (Suc d)
  then have k: "k < 30" by simp
  have x: "v XOR 2 ^ k = v + 2 ^ k" using bit_small [OF assms(1) Suc.prems(1)] by (simp add: xor_power)
  show ?case
  proof (cases "v + 2 ^ k < n")
    case False
    then show ?thesis using x k by (subst bm_children.simps) (simp add: bm_rest_step)
  next
    case True
    let ?c = "real_rank n root (v + 2 ^ k)" and ?R = "bm_rest n v (Suc k)"
    have mem: "cint (2 ^ k * 2) = Some (2 ^ Suc k)" "cint (v + 2 ^ k + root) = Some (v + 2 ^ k + root)"
      using power_int_mono [of "Suc k" 30] k True assms(1,3-5) by (simp_all add: is_cintI INT_MAX_def)
    have "v < 2 ^ Suc k" using Suc.prems(1) power_int_mono [of k "Suc k"] by linarith
    then have IH: "bm_children n root v (int (Suc c)) (2 ^ Suc k) (nxt[c := ?c]) =
        Some (Ptr (int (Suc c + length ?R), take (Suc c) (nxt[c := ?c]) @ map (real_rank n root) ?R @ drop (Suc c + length ?R) (nxt[c := ?c])))"
      using Suc.hyps(2) Suc.prems k by (intro Suc.hyps(1)) simp_all
    have "bm_children n root v (int c) (2 ^ k) nxt = bm_children n root v (int (Suc c)) (2 ^ Suc k) (nxt[c := ?c])"
      using x True mem k Suc.prems assms cond_real_rank [of "v + 2 ^ k" n root]
      by (subst bm_children.simps) (simp add: aset_def MAXTREEFANOUT_def Let_def add.commute [of 1 "int c"])
    then show ?thesis using IH True k Suc.prems by (simp add: bm_rest_step take_Suc_update)
  qed
qed

lemma bm_kids_set:
  shows "set (bm_kids n v) = {v + 2 ^ j | j. nbits (nat v) \<le> j \<and> j < 30 \<and> v + 2 ^ j < n}" and "distinct (bm_kids n v)"
proof -
  let ?L = "map (\<lambda>j. v + 2 ^ j) [nbits (nat v)..<30]"
  have lt: "v + 2 ^ i < v + 2 ^ j" if "i < j" for i j :: nat using that by simp
  have "sorted_wrt (<) ?L" by (simp only: sorted_wrt_map) (rule sorted_wrt_mono_rel [OF lt sorted_wrt_upt])
  then have s: "sorted ?L" "distinct ?L" by (simp_all only: strict_sorted_iff)
  show "set (bm_kids n v) = {v + 2 ^ j | j. nbits (nat v) \<le> j \<and> j < 30 \<and> v + 2 ^ j < n}"
    by (simp only: bm_kids_def bm_rest_def takeWhile_less_sorted [OF s(1)]) auto
  show "distinct (bm_kids n v)" using s(2) by (simp only: bm_kids_def bm_rest_def distinct_takeWhile)
qed

lemma bm_parent_props:
  assumes "0 < v"
  shows "0 \<le> bm_parent v" and "bm_parent v < v" and "nbits (nat (bm_parent v)) \<le> nbits (nat v) - 1"
    and "v = bm_parent v + 2 ^ (nbits (nat v) - 1)"
proof -
  note b = nbits_int_bounds [OF assms]
  show "0 \<le> bm_parent v" "bm_parent v < v" "v = bm_parent v + 2 ^ (nbits (nat v) - 1)" using b(1) by (simp_all add: bm_parent_def)
  have "bm_parent v < 2 ^ (nbits (nat v) - 1)" using b(2,3) by (cases "nbits (nat v)") (simp_all add: bm_parent_def)
  then have "nat (bm_parent v) < 2 ^ (nbits (nat v) - 1)" using \<open>0 \<le> bm_parent v\<close> by (simp add: nat_less_iff)
  then show "nbits (nat (bm_parent v)) \<le> nbits (nat v) - 1" by (rule nbits_le)
qed

lemma nbits_child:
  assumes "0 \<le> v" and "nbits (nat v) \<le> j"
  shows "nbits (nat (v + 2 ^ j)) = Suc j"
proof (rule nbits_unique)
  have "v < 2 ^ j" using next_poweroftwo_bounds(1) [OF assms(1)] power_int_mono [OF assms(2)] by linarith
  then have "int (2 ^ j) \<le> v + 2 ^ j" "v + 2 ^ j < int (2 ^ Suc j)" using assms(1) by simp_all
  then show "2 ^ j \<le> nat (v + 2 ^ j)" "nat (v + 2 ^ j) < 2 ^ Suc j" using assms(1) by (simp_all add: le_nat_iff nat_less_iff)
qed

lemma bm_tree_laws:
  assumes "0 < n" and "n \<le> 2 ^ 30"
  shows "tree_laws n 0 bm_parent (bm_kids n) nat"
proof -
  have "set (bm_kids n r) = {k \<in> {0..<n}. k \<noteq> 0 \<and> bm_parent k = r}" if r: "r \<in> {0..<n}" for r
  proof (intro set_eqI iffI)
    fix k assume "k \<in> set (bm_kids n r)"
    then obtain j where "nbits (nat r) \<le> j" "k = r + 2 ^ j" "k < n" by (auto simp: bm_kids_set(1))
    then show "k \<in> {k \<in> {0..<n}. k \<noteq> 0 \<and> bm_parent k = r}"
      using r nbits_child [of r j] zero_less_power [of "2 :: int" j] by (auto simp: bm_parent_def simp del: zero_less_power)
  next
    fix k assume k: "k \<in> {k \<in> {0..<n}. k \<noteq> 0 \<and> bm_parent k = r}"
    then have "0 < k" by auto
    note p = bm_parent_props [OF this]
    have "(2 :: int) ^ (nbits (nat k) - 1) < 2 ^ 30" using p(1,4) k assms(2) by auto
    then have "nbits (nat k) - 1 < 30" by (rule power_less_imp_less_exp [rotated]) simp
    then show "k \<in> set (bm_kids n r)" using p(3,4) k by (auto simp: bm_kids_set(1))
  qed
  moreover have "bm_parent k \<in> {0..<n} \<and> nat (bm_parent k) < nat k" if "k \<in> {0..<n}" "k \<noteq> 0" for k
    using bm_parent_props(1,2) [of k] that by auto
  ultimately show ?thesis using assms(1) by (simp add: tree_laws_def bm_kids_set(2))
qed

definition bm_valid :: "bool \<times> coll_tree \<times> int \<times> int \<Rightarrow> bool" where
  "bm_valid = (\<lambda>(have_clz, junk, n, root). tree_block junk \<and> 0 \<le> root \<and> root < n \<and> n \<le> 2 ^ 30)"

lemma build_bmtree_ok:
  assumes "bm_valid (have_clz, junk, n, root)" and "rank \<in> {0..<n}"
  shows "\<exists>t. ompi_coll_tuned_topo_build_bmtree have_clz (Ptr junk) n rank root = Some (Ptr t) \<and> tree_root t = root \<and>
    tree_children t = map (real_rank n root) (bm_kids n (vrank n root rank)) \<and>
    (rank \<noteq> root \<longrightarrow> tree_prev t = real_rank n root (bm_parent (vrank n root rank)))"
proof -
  have v: "tree_block junk" "0 \<le> root" "root < n" "n \<le> 2 ^ 30" using assms(1) by (auto simp: bm_valid_def)
  let ?v = "vrank n root rank" and ?b = "nbits (nat (vrank n root rank))"
  have s: "0 \<le> ?v" "?v < n" using vrank_range [of n root rank] v(2,3) by simp_all
  have b: "?v < 2 ^ ?b" using next_poweroftwo_bounds(1) [OF s(1)] .
  have "nat ?v < 2 ^ 30" using s v(4) by simp
  then have b30: "?b \<le> 30" by (rule nbits_le)
  have msk: "opal_next_poweroftwo have_clz ?v = Some (2 ^ ?b)" using next_poweroftwo_ok [OF s(1)] s(2) v(4) by simp
  have prev: "cint ((?v XOR drop_bit 1 (2 ^ ?b)) + root) = Some (bm_parent ?v + root)"
    "(if bm_parent ?v + root \<ge> n then bm_parent ?v + root - n else bm_parent ?v + root) = real_rank n root (bm_parent ?v)" if "rank \<noteq> root"
  proof -
    have "0 < ?v" using that vrank_0_iff [OF assms(2), of root] v s by auto
    note p = bm_parent_props [OF this] and nb = nbits_int_bounds [OF this]
    have half: "drop_bit 1 (2 ^ ?b) = (2 :: int) ^ (?b - 1)" using nb(3) by (cases ?b) (simp_all add: drop_bit_Suc)
    have "bit ?v (?b - 1)" using nb by (intro bit_top) simp_all
    then have "?v XOR drop_bit 1 (2 ^ ?b) = bm_parent ?v" by (simp only: half xor_power if_True bm_parent_def)
    then show "cint ((?v XOR drop_bit 1 (2 ^ ?b)) + root) = Some (bm_parent ?v + root)"
      using p s v by (simp add: is_cintI INT_MAX_def)
    show "(if bm_parent ?v + root \<ge> n then bm_parent ?v + root - n else bm_parent ?v + root) = real_rank n root (bm_parent ?v)"
      using p s v by (intro cond_real_rank) simp_all
  qed
  let ?K = "length (bm_kids n ?v)"
  have ch: "bm_children n root ?v 0 (2 ^ ?b) (replicate 32 (- 1)) =
      Some (Ptr (int ?K, map (real_rank n root) (bm_kids n ?v) @ drop ?K (replicate 32 (- 1))))"
    using bm_children_ok [OF s v(4,2,3) b b30, of 0 "replicate 32 (- 1)"] by (simp add: bm_kids_def del: drop_replicate)
  show ?thesis
    using shifted_rank_eq [OF assms(2), of root] v msk prev [simplified] ch init_next [OF v(1)]
    by (cases "rank = root") (simp_all add: ompi_coll_tuned_topo_build_bmtree_def Let_def tree_children_def)
qed

interpretation bm: coll_family bm_valid "\<lambda>(have_clz, junk, n, root). n" "\<lambda>(have_clz, junk, n, root). root"
  "\<lambda>(have_clz, junk, n, root) r. tree_prev (tree_of (ompi_coll_tuned_topo_build_bmtree have_clz (Ptr junk) n r root))"
  "\<lambda>(have_clz, junk, n, root) r. tree_children (tree_of (ompi_coll_tuned_topo_build_bmtree have_clz (Ptr junk) n r root))"
  "\<lambda>(have_clz, junk, n, root) r. nat (vrank n root r)"
proof
  fix c :: "bool \<times> coll_tree \<times> int \<times> int" assume valid: "bm_valid c"
  obtain have_clz junk n root where c: "c = (have_clz, junk, n, root)" by (cases c)
  let ?B = "\<lambda>r. tree_of (ompi_coll_tuned_topo_build_bmtree have_clz (Ptr junk) n r root)"
  have v: "0 < n" "n \<le> 2 ^ 30" "root \<in> {0..<n}" using valid c by (auto simp: bm_valid_def)
  have t: "tree_children (?B r) = map (real_rank n root) (bm_kids n (vrank n root r))"
    "r \<noteq> root \<longrightarrow> tree_prev (?B r) = real_rank n root (bm_parent (vrank n root r))" if "r \<in> {0..<n}" for r
    using build_bmtree_ok [of have_clz junk n root r] valid c that by (auto simp: tree_of_def)
  have "tree_laws n root (\<lambda>r. tree_prev (?B r)) (\<lambda>r. tree_children (?B r)) (\<lambda>r. nat (vrank n root r))"
    by (rule tree_laws_rotate [OF bm_tree_laws [OF v(1,2)] v(3)]) (use t v(3) in auto)
  then show "tree_laws (case c of (have_clz, junk, n, root) \<Rightarrow> n) (case c of (have_clz, junk, n, root) \<Rightarrow> root)
     ((\<lambda>(have_clz, junk, n, root) r. tree_prev (tree_of (ompi_coll_tuned_topo_build_bmtree have_clz (Ptr junk) n r root))) c)
     ((\<lambda>(have_clz, junk, n, root) r. tree_children (tree_of (ompi_coll_tuned_topo_build_bmtree have_clz (Ptr junk) n r root))) c)
     ((\<lambda>(have_clz, junk, n, root) r. nat (vrank n root r)) c)"
    using c by simp
qed

section \<open>The in-order binomial tree\<close>

text \<open>The lowest bit of a virtual rank; 30 stands for the bits of 0, which has none.\<close>

definition low_bit :: "int \<Rightarrow> nat" where
  "low_bit v = (if v = 0 then 30 else LEAST k. bit v k)"

definition io_parent :: "int \<Rightarrow> int" where
  "io_parent v = v - 2 ^ low_bit v"

definition io_rest :: "int \<Rightarrow> int \<Rightarrow> nat \<Rightarrow> int list" where
  "io_rest n v k = filter (\<lambda>c. c < n) (map (\<lambda>j. v + 2 ^ j) [k..<low_bit v])"

lemma low_bit_props:
  assumes "0 < v"
  shows "bit v (low_bit v)" and "\<And>k. k < low_bit v \<Longrightarrow> \<not> bit v k" and "2 ^ low_bit v \<le> v"
proof -
  have "\<exists>k. bit v k" using assms by (metis bit_0_eq bot_apply bot_bool_def bit_eq_iff less_irrefl)
  then show b: "bit v (low_bit v)" using assms by (simp add: low_bit_def LeastI_ex)
  show "\<not> bit v k" if "k < low_bit v" for k using that assms not_less_Least by (auto simp: low_bit_def)
  show "2 ^ low_bit v \<le> v" using bit_small [of v "low_bit v"] b assms by force
qed

lemma low_bit_zero_below: "0 \<le> v \<Longrightarrow> k < low_bit v \<Longrightarrow> \<not> bit v k"
  using low_bit_props(2) [of v k] by (cases "v = 0") auto

lemma low_bit_unique: "bit v k \<Longrightarrow> (\<And>j. j < k \<Longrightarrow> \<not> bit v j) \<Longrightarrow> low_bit v = k"
  by (auto simp: low_bit_def intro!: Least_equality) (metis not_less)

lemma low_bit_30: "0 \<le> v \<Longrightarrow> v < 2 ^ 30 \<Longrightarrow> low_bit v \<le> 30"
  using low_bit_props(3) [of v] power_less_imp_less_exp [of "2 :: int" "low_bit v" 30]
  by (cases "v = 0") (simp_all add: low_bit_def)

lemma io_rest_step:
  "k < low_bit v \<Longrightarrow> io_rest n v k = (if v + 2 ^ k < n then (v + 2 ^ k) # io_rest n v (Suc k) else io_rest n v (Suc k))"
  by (simp add: io_rest_def upt_conv_Cons)

lemma io_bm_loop_low_bit:
  assumes "0 \<le> v" and "v < n" and "n \<le> 2 ^ 30" and "0 \<le> root" and "root < n"
  shows "io_bm_loop n root v c (2 ^ low_bit v) prev nxt =
    Some (Ptr (if v = 0 then prev else real_rank n root (io_parent v), c, nxt))"
proof (cases "v = 0")
  case True
  then show ?thesis using assms(3) by (subst io_bm_loop.simps) (simp add: low_bit_def)
next
  case False
  then have v: "0 < v" using assms(1) by simp
  note l = low_bit_props [OF v]
  have x: "v XOR 2 ^ low_bit v = io_parent v" using l(1) by (simp add: xor_power io_parent_def)
  have p: "0 \<le> io_parent v" "io_parent v < v" using l(3) by (simp_all add: io_parent_def)
  then show ?thesis using x l(3) assms cmod_real_rank [OF p(1) assms(4), of n] False
    by (subst io_bm_loop.simps) (simp add: is_cintI INT_MAX_def)
qed

lemma io_rest_big:
  assumes "0 \<le> v" and "v < n" and "k < low_bit v" and "\<not> 2 ^ k < n"
  shows "v = 0" and "io_rest n v k = []"
proof -
  show "v = 0"
  proof (rule ccontr)
    assume "v \<noteq> 0"
    then have "2 ^ low_bit v < n" using low_bit_props(3) [of v] assms(1,2) by linarith
    then show False using assms(3,4) power_int_mono [of k "low_bit v"] by linarith
  qed
  have "\<not> v + 2 ^ j < n" if "k \<le> j" for j using assms(1,4) power_int_mono [OF that] by linarith
  then show "io_rest n v k = []" by (simp add: io_rest_def filter_empty_conv)
qed

lemma io_bm_loop_ok:
  assumes "0 \<le> v" and "v < n" and "n \<le> 2 ^ 30" and "0 \<le> root" and "root < n" and "k \<le> low_bit v" and "c \<le> k" and "length nxt = 32"
  shows "io_bm_loop n root v (int c) (2 ^ k) prev nxt =
    Some (Ptr (if v = 0 then prev else real_rank n root (io_parent v), int (c + length (io_rest n v k)),
      take c nxt @ map (real_rank n root) (io_rest n v k) @ drop (c + length (io_rest n v k)) nxt))"
  using assms(6-8)
proof (induction "low_bit v - k" arbitrary: k c nxt)
  case 0
  then have "k = low_bit v" by simp
  then show ?case using io_bm_loop_low_bit [OF assms(1-5)] by (simp add: io_rest_def)
next
  case (Suc d)
  then have k: "k < low_bit v" by simp
  then have nb: "\<not> bit v k" using low_bit_zero_below assms(1) by blast
  then have x: "v XOR 2 ^ k = v + 2 ^ k" by (simp add: xor_power)
  have k30: "k < 30" using k low_bit_30 [OF assms(1)] assms(2,3) by simp
  have m2: "cint (2 ^ k * 2) = Some (2 ^ Suc k)"
    using power_int_mono [of "Suc k" 30] k30 by (simp add: is_cintI INT_MAX_def)
  show ?case
  proof (cases "v + 2 ^ k < n")
    case True
    let ?c = "real_rank n root (v + 2 ^ k)" and ?R = "io_rest n v (Suc k)"
    have IH: "io_bm_loop n root v (int (Suc c)) (2 ^ Suc k) prev (nxt[c := ?c]) =
      Some (Ptr (if v = 0 then prev else real_rank n root (io_parent v), int (Suc c + length ?R),
        take (Suc c) (nxt[c := ?c]) @ map (real_rank n root) ?R @ drop (Suc c + length ?R) (nxt[c := ?c])))"
      using Suc.hyps(2) Suc.prems k by (intro Suc.hyps(1)) simp_all
    have "io_bm_loop n root v (int c) (2 ^ k) prev nxt = io_bm_loop n root v (int (Suc c)) (2 ^ Suc k) prev (nxt[c := ?c])"
      using x True m2 k30 Suc.prems assms cmod_real_rank [of "v + 2 ^ k" root n]
      by (subst io_bm_loop.simps) (simp add: aset_def MAXTREEFANOUT_def Let_def is_cintI INT_MAX_def add.commute [of 1 "int c"] mult.commute [of 2 "2 ^ k"])
    then show ?thesis using IH True k k30 Suc.prems by (simp add: io_rest_step take_Suc_update)
  next
    case False
    have IH: "io_bm_loop n root v (int c) (2 ^ Suc k) prev nxt =
      Some (Ptr (if v = 0 then prev else real_rank n root (io_parent v), int (c + length (io_rest n v (Suc k))),
        take c nxt @ map (real_rank n root) (io_rest n v (Suc k)) @ drop (c + length (io_rest n v (Suc k))) nxt))"
      using Suc.hyps(2) Suc.prems k by (intro Suc.hyps(1)) simp_all
    show ?thesis
    proof (cases "2 ^ k < n")
      case True
      have "io_bm_loop n root v (int c) (2 ^ k) prev nxt = io_bm_loop n root v (int c) (2 ^ Suc k) prev nxt"
        using x True False m2 by (subst io_bm_loop.simps) simp
      then show ?thesis using IH False k by (simp add: io_rest_step)
    next
      case big: False
      then show ?thesis using io_rest_big [OF assms(1,2) k] by (subst io_bm_loop.simps) simp
    qed
  qed
qed

definition io_kids :: "int \<Rightarrow> int \<Rightarrow> int list" where
  "io_kids n v = io_rest n v 0"

lemma io_kids_set:
  shows "set (io_kids n v) = {v + 2 ^ j | j. j < low_bit v \<and> v + 2 ^ j < n}" and "distinct (io_kids n v)"
proof -
  show "set (io_kids n v) = {v + 2 ^ j | j. j < low_bit v \<and> v + 2 ^ j < n}" by (auto simp: io_kids_def io_rest_def)
  have "inj_on (\<lambda>j. v + 2 ^ j) {0..<low_bit v}" by (auto simp: inj_on_def)
  then show "distinct (io_kids n v)" by (simp add: io_kids_def io_rest_def distinct_map distinct_filter)
qed

text \<open>Setting a bit below the lowest one and clearing the lowest bit are inverse to each other.\<close>

lemma low_bit_child:
  assumes "0 \<le> v" and "j < low_bit v"
  shows "low_bit (v + 2 ^ j) = j"
proof -
  have x: "v + 2 ^ j = v XOR 2 ^ j" using low_bit_zero_below [OF assms] by (simp add: xor_power)
  show ?thesis unfolding x using low_bit_zero_below [OF assms(1)] assms(2)
    by (intro low_bit_unique) (auto simp: bit_xor_iff bit_exp_iff)
qed

lemma io_parent_props:
  assumes "0 < v" and "v < 2 ^ 30"
  shows "0 \<le> io_parent v" and "io_parent v < v" and "low_bit v < low_bit (io_parent v)" and "v = io_parent v + 2 ^ low_bit v"
proof -
  note l = low_bit_props [OF assms(1)]
  show p: "0 \<le> io_parent v" "io_parent v < v" "v = io_parent v + 2 ^ low_bit v" using l(3) by (simp_all add: io_parent_def)
  have x: "io_parent v = v XOR 2 ^ low_bit v" using l(1) by (simp add: io_parent_def xor_power)
  show "low_bit v < low_bit (io_parent v)"
  proof (cases "io_parent v = 0")
    case True
    have "2 ^ low_bit v < (2 :: int) ^ 30" using l(3) assms(2) by linarith
    then have "low_bit v < 30" by (rule power_less_imp_less_exp [rotated]) simp
    with True show ?thesis by (simp add: low_bit_def)
  next
    case False
    then have "bit (io_parent v) (low_bit (io_parent v))" using p(1) by (intro low_bit_props(1)) simp
    then show ?thesis using l(1,2) unfolding x by (auto simp: bit_xor_iff bit_exp_iff intro: linorder_neqE_nat)
  qed
qed

lemma io_tree_laws:
  assumes "0 < n" and "n \<le> 2 ^ 30"
  shows "tree_laws n 0 io_parent (io_kids n) nat"
proof -
  have "set (io_kids n r) = {k \<in> {0..<n}. k \<noteq> 0 \<and> io_parent k = r}" if r: "r \<in> {0..<n}" for r
  proof (intro set_eqI iffI)
    fix k assume "k \<in> set (io_kids n r)"
    then obtain j where "j < low_bit r" "k = r + 2 ^ j" "k < n" by (auto simp: io_kids_set(1))
    then show "k \<in> {k \<in> {0..<n}. k \<noteq> 0 \<and> io_parent k = r}"
      using r low_bit_child [of r j] zero_less_power [of "2 :: int" j] by (auto simp: io_parent_def simp del: zero_less_power)
  next
    fix k assume k: "k \<in> {k \<in> {0..<n}. k \<noteq> 0 \<and> io_parent k = r}"
    then have "0 < k" "k < 2 ^ 30" using assms(2) by auto
    note p = io_parent_props [OF this]
    then show "k \<in> set (io_kids n r)" using k by (auto simp: io_kids_set(1))
  qed
  moreover have "io_parent k \<in> {0..<n} \<and> nat (io_parent k) < nat k" if "k \<in> {0..<n}" "k \<noteq> 0" for k
    using io_parent_props(1,2) [of k] that assms(2) by auto
  ultimately show ?thesis using assms(1) by (simp add: tree_laws_def io_kids_set(2))
qed

lemma build_in_order_bmtree_ok:
  assumes "tree_block junk" and "0 \<le> root" and "root < n" and "n \<le> 2 ^ 30" and "rank \<in> {0..<n}"
  shows "\<exists>t. ompi_coll_tuned_topo_build_in_order_bmtree (Ptr junk) n rank root = Some (Ptr t) \<and> tree_root t = root \<and>
    tree_children t = map (real_rank n root) (io_kids n (vrank n root rank)) \<and>
    (rank \<noteq> root \<longrightarrow> tree_prev t = real_rank n root (io_parent (vrank n root rank)))"
proof -
  let ?v = "vrank n root rank" and ?prev = "if root = rank then root else tree_prev junk"
  let ?K = "length (io_kids n (vrank n root rank))"
  have s: "0 \<le> ?v" "?v < n" using vrank_range [of n root rank] assms by simp_all
  have sh: "cint (rank - root + n) = Some (rank - root + n)" "cmod (rank - root + n) n = Some ?v"
    using assms by (simp_all add: is_cintI INT_MAX_def cmod_def vrank_def)
  have lp: "io_bm_loop n root ?v 0 1 ?prev (replicate 32 (- 1)) =
      Some (Ptr (if ?v = 0 then ?prev else real_rank n root (io_parent ?v), int ?K,
                 map (real_rank n root) (io_kids n ?v) @ drop ?K (replicate 32 (- 1))))"
    using io_bm_loop_ok [OF s assms(4,2,3), of 0 0 "replicate 32 (- 1)" ?prev] by (simp add: io_kids_def del: drop_replicate)
  have z: "?v = 0 \<longleftrightarrow> rank = root" using vrank_0_iff [OF assms(5), of root] assms by simp
  show ?thesis
    using sh lp z init_next [OF assms(1)]
    by (cases "rank = root") (simp_all add: ompi_coll_tuned_topo_build_in_order_bmtree_def Let_def tree_children_def)
qed

interpretation io: coll_family bm_valid "\<lambda>(have_clz, junk, n, root). n" "\<lambda>(have_clz, junk, n, root). root"
  "\<lambda>(have_clz, junk, n, root) r. tree_prev (tree_of (ompi_coll_tuned_topo_build_in_order_bmtree (Ptr junk) n r root))"
  "\<lambda>(have_clz, junk, n, root) r. tree_children (tree_of (ompi_coll_tuned_topo_build_in_order_bmtree (Ptr junk) n r root))"
  "\<lambda>(have_clz, junk, n, root) r. nat (vrank n root r)"
proof
  fix c :: "bool \<times> coll_tree \<times> int \<times> int" assume valid: "bm_valid c"
  obtain have_clz junk n root where c: "c = (have_clz, junk, n, root)" by (cases c)
  let ?B = "\<lambda>r. tree_of (ompi_coll_tuned_topo_build_in_order_bmtree (Ptr junk) n r root)"
  have v: "0 < n" "n \<le> 2 ^ 30" "root \<in> {0..<n}" using valid c by (auto simp: bm_valid_def)
  have t: "tree_children (?B r) = map (real_rank n root) (io_kids n (vrank n root r))"
    "r \<noteq> root \<longrightarrow> tree_prev (?B r) = real_rank n root (io_parent (vrank n root r))" if "r \<in> {0..<n}" for r
    using build_in_order_bmtree_ok [of junk root n r] valid c that by (auto simp: tree_of_def bm_valid_def)
  have "tree_laws n root (\<lambda>r. tree_prev (?B r)) (\<lambda>r. tree_children (?B r)) (\<lambda>r. nat (vrank n root r))"
    by (rule tree_laws_rotate [OF io_tree_laws [OF v(1,2)] v(3)]) (use t v(3) in auto)
  then show "tree_laws (case c of (have_clz, junk, n, root) \<Rightarrow> n) (case c of (have_clz, junk, n, root) \<Rightarrow> root)
     ((\<lambda>(have_clz, junk, n, root) r. tree_prev (tree_of (ompi_coll_tuned_topo_build_in_order_bmtree (Ptr junk) n r root))) c)
     ((\<lambda>(have_clz, junk, n, root) r. tree_children (tree_of (ompi_coll_tuned_topo_build_in_order_bmtree (Ptr junk) n r root))) c)
     ((\<lambda>(have_clz, junk, n, root) r. nat (vrank n root r)) c)"
    using c by simp
qed

section \<open>Properties\<close>

text \<open>C14: The binomial trees that the processes of a communicator build for any root, with
  ompi_coll_tuned_topo_build_bmtree as with ompi_coll_tuned_topo_build_in_order_bmtree, are spanning trees of
  the communicator: every builder returns, a message sent down the tree reaches every process, each but the
  root exactly once and from the process it takes for its parent; the array of children is never too small.
  The number of processes is at most 2^30, so that doubling the mask does not overflow.\<close>

theorem binomial_trees_span:
  assumes "0 \<le> root" and "root < n" and "n \<le> 2 ^ 30" and "tree_block junk"
  shows "views_span n root (\<lambda>r. ompi_coll_tuned_topo_build_bmtree have_clz (Ptr junk) n r root) \<and>
         views_span n root (\<lambda>r. ompi_coll_tuned_topo_build_in_order_bmtree (Ptr junk) n r root)"
proof -
  have valid: "bm_valid (have_clz, junk, n, root)" using assms by (simp add: bm_valid_def)
  have "\<forall>r \<in> {0..<n}. \<exists>t. ompi_coll_tuned_topo_build_bmtree have_clz (Ptr junk) n r root = Some (Ptr t) \<and> tree_root t = root"
    using build_bmtree_ok [OF valid] by blast
  moreover have "\<forall>r \<in> {0..<n}. \<exists>t. ompi_coll_tuned_topo_build_in_order_bmtree (Ptr junk) n r root = Some (Ptr t) \<and> tree_root t = root"
    using build_in_order_bmtree_ok [OF assms(4,1-3)] by blast
  ultimately show ?thesis
    using bm.broadcast_reaches_all [OF valid] io.broadcast_reaches_all [OF valid] by (simp add: views_span_def)
qed

theorem binomial_trees_span_witness:
  "views_span 6 2 (\<lambda>r. ompi_coll_tuned_topo_build_bmtree False
     (Ptr \<lparr>tree_root = 0, tree_fanout = 0, tree_bmtree = 0, tree_prev = 0, tree_next = replicate 32 5, tree_nextsize = 0\<rparr>) 6 r 2)"
  using binomial_trees_span [of 2 6
      "\<lparr>tree_root = 0, tree_fanout = 0, tree_bmtree = 0, tree_prev = 0, tree_next = replicate 32 5, tree_nextsize = 0\<rparr>" False]
  by (simp add: MAXTREEFANOUT_def tree_block_def)

end
