(* ===== verification/Coll_Chain.thy ===== *)
theory Coll_Chain
  imports Coll_Bmtree
begin

text \<open>
  \<^verbatim>\<open>ompi/mca/coll/tuned/coll_tuned_topo.c\<close>, third part:
  \<open>ompi_coll_tuned_topo_build_chain\<close>. The processes other than the root are cut into
  \<open>fanout\<close> chains whose lengths differ by at most one; the root sends to the heads of the
  chains and every other process to its successor.
\<close>

section \<open>The builder\<close>

text \<open>Head and length of the chain of a process, for its shifted rank.\<close>

definition chain_place :: "int \<Rightarrow> int \<Rightarrow> int \<Rightarrow> (int \<times> int) option" where
  "chain_place srank mark maxchainlen = do {
     full \<leftarrow> cint (mark * maxchainlen);
     if srank - 1 < full then do {
       column \<leftarrow> cdiv (srank - 1) maxchainlen;
       Some (1 + column * maxchainlen, maxchainlen) }
     else do {
       c \<leftarrow> cdiv (srank - 1 - full) (maxchainlen - 1);
       let column = mark + c;
       Some (full + 1 + (column - mark) * (maxchainlen - 1), maxchainlen - 1) } }"

text \<open>The special case of a single chain.\<close>

definition chain_pipeline :: "int \<Rightarrow> int \<Rightarrow> int \<Rightarrow> coll_tree \<Rightarrow> coll_tree option" where
  "chain_pipeline sz root srank chain = do {
     prev \<leftarrow> (if srank = 0 then Some (- 1) else do { s \<leftarrow> cint (srank - 1 + root); cmod s sz });
     (if srank + 1 \<ge> sz then do {
        nxt \<leftarrow> aset (tree_next chain) 0 (- 1);
        Some (chain\<lparr>tree_prev := prev, tree_next := nxt, tree_nextsize := 0\<rparr>) }
      else do {
        s \<leftarrow> cint (srank + 1 + root);
        c \<leftarrow> cmod s sz;
        nxt \<leftarrow> aset (tree_next chain) 0 c;
        Some (chain\<lparr>tree_prev := prev, tree_next := nxt, tree_nextsize := 1\<rparr>) }) }"

text \<open>Parent and child of a process in the middle, still as shifted ranks.\<close>

definition chain_middle :: "int \<Rightarrow> int \<Rightarrow> int \<Rightarrow> int \<Rightarrow> coll_tree \<Rightarrow> coll_tree option" where
  "chain_middle sz srank mark maxchainlen chain = do {
     (head, len) \<leftarrow> chain_place srank mark maxchainlen;
     let prev = (if srank = head then 0 else srank - 1);
     (if srank = head + len - 1 then do {
        nxt \<leftarrow> aset (tree_next chain) 0 (- 1);
        Some (chain\<lparr>tree_prev := prev, tree_next := nxt, tree_nextsize := 0\<rparr>) }
      else if srank + 1 < sz then do {
        nxt \<leftarrow> aset (tree_next chain) 0 (srank + 1);
        Some (chain\<lparr>tree_prev := prev, tree_next := nxt, tree_nextsize := 1\<rparr>) }
      else do {
        nxt \<leftarrow> aset (tree_next chain) 0 (- 1);
        Some (chain\<lparr>tree_prev := prev, tree_next := nxt, tree_nextsize := 0\<rparr>) }) }"

text \<open>The children of the root: the heads of the chains.\<close>

definition chain_root :: "int \<Rightarrow> int \<Rightarrow> int \<Rightarrow> int \<Rightarrow> int \<Rightarrow> coll_tree \<Rightarrow> coll_tree option" where
  "chain_root sz root fanout mark maxchainlen chain = do {
     c \<leftarrow> cmod (root + 1) sz;
     nxt \<leftarrow> aset (tree_next chain) 0 c;
     nxt \<leftarrow> for_loop 1 fanout (\<lambda>i nxt. do {
              p \<leftarrow> aget nxt (i - 1);
              s \<leftarrow> cint (p + maxchainlen);
              c \<leftarrow> cmod (if i > mark then s - 1 else s) sz;
              aset nxt i c }) nxt;
     Some (chain\<lparr>tree_prev := - 1, tree_next := nxt, tree_nextsize := fanout\<rparr>) }"

text \<open>Back to real ranks in the other processes.\<close>

definition chain_unshift :: "int \<Rightarrow> int \<Rightarrow> coll_tree \<Rightarrow> coll_tree option" where
  "chain_unshift sz root chain = do {
     s \<leftarrow> cint (tree_prev chain + root);
     prev \<leftarrow> cmod s sz;
     n0 \<leftarrow> aget (tree_next chain) 0;
     nxt \<leftarrow> (if n0 \<noteq> - 1 then do { s \<leftarrow> cint (n0 + root); c \<leftarrow> cmod s sz; aset (tree_next chain) 0 c }
             else Some (tree_next chain));
     Some (chain\<lparr>tree_prev := prev, tree_next := nxt\<rparr>) }"

definition ompi_coll_tuned_topo_build_chain :: "coll_tree ptr \<Rightarrow> int \<Rightarrow> int \<Rightarrow> int \<Rightarrow> int \<Rightarrow> coll_tree ptr option" where
  "ompi_coll_tuned_topo_build_chain mem fanout sz rank root =
     (let fanout = (if fanout < 1 then 1 else fanout);
          fanout = (if fanout > MAXTREEFANOUT then MAXTREEFANOUT else fanout) in
      case mem of
        Null \<Rightarrow> Some Null
      | Ptr junk \<Rightarrow> do {
          nxt \<leftarrow> for_loop 0 fanout (\<lambda>i a. aset a i (- 1)) (tree_next junk);
          let fanout = (if sz - 1 < fanout then sz - 1 else fanout);
          let chain = junk\<lparr>tree_root := root, tree_next := nxt, tree_nextsize := fanout\<rparr>;
          let srank = (if rank - root < 0 then rank - root + sz else rank - root);
          if fanout = 1 then do {
            chain \<leftarrow> chain_pipeline sz root srank chain;
            Some (Ptr chain) }
          else if sz = 1 then do {
            nxt \<leftarrow> aset (tree_next chain) 0 (- 1);
            Some (Ptr (chain\<lparr>tree_next := nxt, tree_nextsize := 0, tree_prev := - 1\<rparr>)) }
          else do {
            q \<leftarrow> cdiv (sz - 1) fanout;
            m \<leftarrow> cmod (sz - 1) fanout;
            let maxchainlen = (if m \<noteq> 0 then q + 1 else q);
            let mark = (if m \<noteq> 0 then m else fanout + 1);
            chain \<leftarrow> (if srank \<noteq> 0 then chain_middle sz srank mark maxchainlen chain else Some chain);
            chain \<leftarrow> (if rank = root then chain_root sz root fanout mark maxchainlen chain else chain_unshift sz root chain);
            Some (Ptr chain) } })"

section \<open>The chains on virtual ranks\<close>

text \<open>The heads: \<open>f\<close> chains over \<open>n - 1\<close> processes, the first ones longer by one.\<close>

definition chain_head :: "int \<Rightarrow> int \<Rightarrow> int \<Rightarrow> int" where
  "chain_head f n j = 1 + j * ((n - 1) div f) + min j ((n - 1) mod f)"

definition is_head :: "int \<Rightarrow> int \<Rightarrow> int \<Rightarrow> bool" where
  "is_head f n s \<longleftrightarrow> (\<exists>j. 0 \<le> j \<and> j < f \<and> s = chain_head f n j)"

definition chain_parent :: "int \<Rightarrow> int \<Rightarrow> int \<Rightarrow> int" where
  "chain_parent f n s = (if is_head f n s then 0 else s - 1)"

definition chain_kids :: "int \<Rightarrow> int \<Rightarrow> int \<Rightarrow> int list" where
  "chain_kids f n s =
     (if s = 0 then map (chain_head f n) [0..f - 1]
      else if s + 1 < n \<and> \<not> is_head f n (s + 1) then [s + 1] else [])"

text \<open>The number of chains, after the limits of the code.\<close>

definition chain_fanout :: "int \<Rightarrow> int \<Rightarrow> int" where
  "chain_fanout f n = min (max 1 (min f MAXTREEFANOUT)) (n - 1)"

lemma chain_head_mono:
  assumes "1 \<le> f" and "f < n" and "i < j"
  shows "chain_head f n i < chain_head f n j"
proof -
  have "1 \<le> (n - 1) div f" using assms(1,2) by (simp add: pos_imp_zdiv_pos_iff int_one_le_iff_zero_less)
  then have "i * ((n - 1) div f) < j * ((n - 1) div f)" using assms(3) by (intro mult_strict_right_mono) simp_all
  moreover have "min i ((n - 1) mod f) \<le> min j ((n - 1) mod f)" using assms(3) by simp
  ultimately show ?thesis by (simp add: chain_head_def)
qed

lemma chain_head_0 [simp]: "1 \<le> f \<Longrightarrow> chain_head f n 0 = 1"
  by (simp add: chain_head_def)

lemma chain_head_end:
  assumes "1 \<le> f"
  shows "chain_head f n f = n"
proof -
  have "f * ((n - 1) div f) + (n - 1) mod f = n - 1" by simp
  moreover have "min f ((n - 1) mod f) = (n - 1) mod f" using assms by (simp add: min_absorb2)
  ultimately show ?thesis unfolding chain_head_def by linarith
qed

lemma is_head_bounds:
  assumes "1 \<le> f" and "f < n" and "is_head f n s"
  shows "1 \<le> s" and "s < n"
proof -
  obtain j where j: "0 \<le> j" "j < f" "s = chain_head f n j" using assms(3) by (auto simp: is_head_def)
  show "s < n" using chain_head_mono [OF assms(1,2) j(2)] chain_head_end [OF assms(1)] j(3) by simp
  show "1 \<le> s" using chain_head_mono [OF assms(1,2), of 0 j] j assms(1) by (cases "j = 0") simp_all
qed

lemma chain_tree_laws:
  assumes "1 \<le> f \<and> f < n \<or> f = 0 \<and> n = 1"
  shows "tree_laws n 0 (chain_parent f n) (chain_kids f n) nat"
proof (cases "f = 0")
  case True
  then show ?thesis using assms by (auto simp: tree_laws_def chain_kids_def)
next
  case False
  then have f: "1 \<le> f" "f < n" using assms by auto
  have one: "is_head f n 1" using f by (auto simp: is_head_def intro!: exI [of _ 0])
  have heads: "set (map (chain_head f n) [0..f - 1]) = {k. is_head f n k}" by (auto simp: is_head_def)
  have "inj_on (chain_head f n) {0..f - 1}"
    by (rule inj_onI) (metis chain_head_mono [OF f] linorder_neqE less_irrefl)
  then have dist: "distinct (chain_kids f n r)" for r by (simp add: chain_kids_def distinct_map)
  have kids: "set (chain_kids f n r) = {k \<in> {0..<n}. k \<noteq> 0 \<and> chain_parent f n k = r}" if "r \<in> {0..<n}" for r
  proof (cases "r = 0")
    case True
    then have "set (chain_kids f n r) = {k. is_head f n k}" using heads by (simp add: chain_kids_def)
    also have "\<dots> = {k \<in> {0..<n}. k \<noteq> 0 \<and> chain_parent f n k = r}"
      using True one is_head_bounds [OF f] by (force simp: chain_parent_def)
    finally show ?thesis .
  next
    case False
    then show ?thesis using that by (auto simp: chain_kids_def chain_parent_def)
  qed
  have par: "chain_parent f n k \<in> {0..<n} \<and> nat (chain_parent f n k) < nat k" if "k \<in> {0..<n}" "k \<noteq> 0" for k
    using that by (auto simp: chain_parent_def)
  show ?thesis using f dist kids par by (simp add: tree_laws_def)
qed

section \<open>What the builder computes\<close>

definition chain_len :: "int \<Rightarrow> int \<Rightarrow> int" where
  "chain_len f n = (if (n - 1) mod f \<noteq> 0 then (n - 1) div f + 1 else (n - 1) div f)"

definition chain_mark :: "int \<Rightarrow> int \<Rightarrow> int" where
  "chain_mark f n = (if (n - 1) mod f \<noteq> 0 then (n - 1) mod f else f + 1)"

text \<open>The lengths of the chains: long ones up to the mark.\<close>

lemma chain_head_step:
  assumes "1 \<le> f" and "0 \<le> i" and "i < f"
  shows "chain_head f n (i + 1) = chain_head f n i + (if i + 1 > chain_mark f n then chain_len f n - 1 else chain_len f n)"
  using assms pos_mod_sign [of f "n - 1"] pos_mod_bound [of f "n - 1"]
  by (auto simp: chain_head_def chain_mark_def chain_len_def algebra_simps min_def)

lemma chain_head_long:
  "1 \<le> f \<Longrightarrow> 0 \<le> j \<Longrightarrow> j < f \<Longrightarrow> j \<le> chain_mark f n \<Longrightarrow> chain_head f n j = 1 + j * chain_len f n"
  using pos_mod_sign [of f "n - 1"]
  by (auto simp: chain_head_def chain_mark_def chain_len_def algebra_simps min_def split: if_splits)

lemma chain_head_short:
  "1 \<le> f \<Longrightarrow> chain_mark f n \<le> j \<Longrightarrow> j < f \<Longrightarrow>
   chain_head f n j = chain_mark f n * chain_len f n + 1 + (j - chain_mark f n) * (chain_len f n - 1)"
  by (auto simp: chain_head_def chain_mark_def chain_len_def algebra_simps min_def split: if_splits)

lemma chain_mark_bounds:
  assumes "1 \<le> f" and "f < n"
  shows "1 \<le> chain_len f n" and "1 \<le> chain_mark f n" and "chain_mark f n < f \<Longrightarrow> 2 \<le> chain_len f n"
    and "chain_mark f n * chain_len f n \<le> 2 * n - 2"
proof -
  let ?q = "(n - 1) div f" and ?r = "(n - 1) mod f"
  have q: "1 \<le> ?q" using assms by (simp add: pos_imp_zdiv_pos_iff int_one_le_iff_zero_less)
  have r: "0 \<le> ?r" "?r < f" using assms(1) by simp_all
  have r1: "?r \<noteq> 0 \<longrightarrow> 1 \<le> ?r" using r(1) by linarith
  have e: "f * ?q + ?r = n - 1" by simp
  have "?q \<le> f * ?q" using q assms(1) mult_right_mono [of 1 f ?q] by simp
  moreover have "?r * ?q \<le> f * ?q" using q r by (intro mult_right_mono) simp_all
  moreover have "?r * (?q + 1) = ?r * ?q + ?r" "(f + 1) * ?q = f * ?q + ?q" by (simp_all add: algebra_simps)
  ultimately have "?r * (?q + 1) \<le> 2 * n - 2" "(f + 1) * ?q \<le> 2 * n - 2" using e r assms by linarith+
  then show "chain_mark f n * chain_len f n \<le> 2 * n - 2" by (simp add: chain_mark_def chain_len_def)
  show "1 \<le> chain_len f n" "1 \<le> chain_mark f n" "chain_mark f n < f \<Longrightarrow> 2 \<le> chain_len f n"
    using q r1 assms(1) by (auto simp: chain_mark_def chain_len_def)
qed

lemma div_bounds:
  assumes "0 < (d :: int)"
  shows "d * (a div d) \<le> a" and "a < d * (a div d + 1)"
proof -
  have "d * (a div d) + a mod d = a" "d * (a div d + 1) = d * (a div d) + d" by (simp_all add: distrib_left)
  then show "d * (a div d) \<le> a" "a < d * (a div d + 1)"
    using pos_mod_sign [OF assms, of a] pos_mod_bound [OF assms, of a] by linarith+
qed

lemma chain_place_ok:
  assumes "1 \<le> f" and "f < n" and "n \<le> 2 ^ 30" and "0 < s" and "s < n"
  shows "\<exists>j. 0 \<le> j \<and> j < f \<and> chain_head f n j \<le> s \<and> s < chain_head f n (j + 1) \<and>
    chain_place s (chain_mark f n) (chain_len f n) = Some (chain_head f n j, chain_head f n (j + 1) - chain_head f n j)"
proof -
  let ?m = "chain_mark f n" and ?l = "chain_len f n"
  note b = chain_mark_bounds [OF assms(1,2)]
  have "0 \<le> ?m * ?l" using b(1,2) by simp
  then have full: "cint (?m * ?l) = Some (?m * ?l)" using b(4) assms(3) by (simp add: is_cintI INT_MAX_def)
  show ?thesis
  proof (cases "s - 1 < ?m * ?l")
    case True
    let ?j = "(s - 1) div ?l"
    have d: "?l * ?j \<le> s - 1" "s - 1 < ?l * (?j + 1)" using div_bounds [of ?l "s - 1"] b(1) by simp_all
    have j0: "0 \<le> ?j" using assms(4) b(1) by (simp add: pos_imp_zdiv_nonneg_iff)
    have jm: "?j < ?m"
    proof (rule ccontr)
      assume "\<not> ?j < ?m"
      then have "?l * ?m \<le> ?l * ?j" using b(1) by (intro mult_left_mono) simp_all
      with d(1) True show False by (simp add: mult.commute)
    qed
    have jf: "?j < f"
    proof (rule ccontr)
      assume "\<not> ?j < f"
      then have "chain_head f n f = 1 + f * ?l"
        using jm chain_head_step [OF assms(1), of "f - 1" n] chain_head_long [OF assms(1), of "f - 1" n] assms(1)
        by (simp add: algebra_simps)
      moreover have "?l * f \<le> ?l * ?j" using \<open>\<not> ?j < f\<close> b(1) by (intro mult_left_mono) simp_all
      ultimately show False using d(1) chain_head_end [OF assms(1), of n] assms(5) by (simp add: mult.commute)
    qed
    have h: "chain_head f n ?j = 1 + ?j * ?l" using jm by (intro chain_head_long [OF assms(1) j0 jf]) simp
    have h': "chain_head f n (?j + 1) = 1 + ?j * ?l + ?l" using h jm chain_head_step [OF assms(1) j0 jf] by simp
    have "chain_place s ?m ?l = Some (1 + ?j * ?l, ?l)"
      using True full b(1) assms(4) by (simp add: chain_place_def cdiv_def)
    then show ?thesis using j0 jf h h' d by (intro exI [of _ ?j]) (simp add: algebra_simps)
  next
    case False
    have mf: "?m < f"
    proof (rule ccontr)
      assume "\<not> ?m < f"
      then have "chain_head f n f = 1 + f * ?l"
        using chain_head_step [OF assms(1), of "f - 1" n] chain_head_long [OF assms(1), of "f - 1" n] assms(1)
        by (simp add: algebra_simps)
      moreover have "f * ?l \<le> ?m * ?l" using \<open>\<not> ?m < f\<close> b(1) by (intro mult_right_mono) simp_all
      ultimately show False using False chain_head_end [OF assms(1), of n] assms(5) by simp
    qed
    let ?c = "(s - 1 - ?m * ?l) div (?l - 1)"
    let ?j = "?m + ?c"
    have l: "0 < ?l - 1" using b(3) [OF mf] by simp
    have d: "(?l - 1) * ?c \<le> s - 1 - ?m * ?l" "s - 1 - ?m * ?l < (?l - 1) * (?c + 1)" using div_bounds [OF l] by blast+
    have c0: "0 \<le> ?c" using False l by (simp add: pos_imp_zdiv_nonneg_iff)
    have "f * ((n - 1) div f) + (n - 1) mod f = n - 1" by simp
    then have tot: "n = ?m * ?l + 1 + (f - ?m) * (?l - 1)"
      using mf by (auto simp: chain_mark_def chain_len_def algebra_simps split: if_splits)
    have jf: "?j < f"
    proof (rule ccontr)
      assume "\<not> ?j < f"
      then have "(?l - 1) * (f - ?m) \<le> (?l - 1) * ?c" using l by (intro mult_left_mono) simp_all
      then show False using d(1) tot assms(5) by (simp add: mult.commute)
    qed
    have h: "chain_head f n ?j = ?m * ?l + 1 + ?c * (?l - 1)" using chain_head_short [OF assms(1) _ jf] c0 by simp
    have h': "chain_head f n (?j + 1) = ?m * ?l + 1 + ?c * (?l - 1) + (?l - 1)"
      using h chain_head_step [OF assms(1) _ jf] c0 b(2) by simp
    have "chain_place s ?m ?l = Some (?m * ?l + 1 + ?c * (?l - 1), ?l - 1)"
      using False full l by (simp add: chain_place_def cdiv_def)
    then show ?thesis using c0 b(2) jf h h' d by (intro exI [of _ ?j]) (simp add: algebra_simps)
  qed
qed

lemma chain_middle_ok:
  assumes "1 \<le> f" and "f < n" and "n \<le> 2 ^ 30" and "0 < s" and "s < n" and "0 < length (tree_next t)"
  shows "chain_middle n s (chain_mark f n) (chain_len f n) t =
    Some (if chain_kids f n s = [] then t\<lparr>tree_prev := chain_parent f n s, tree_next := (tree_next t)[0 := - 1], tree_nextsize := 0\<rparr>
          else t\<lparr>tree_prev := chain_parent f n s, tree_next := (tree_next t)[0 := s + 1], tree_nextsize := 1\<rparr>)"
proof -
  obtain j where j: "0 \<le> j" "j < f" "chain_head f n j \<le> s" "s < chain_head f n (j + 1)"
    and place: "chain_place s (chain_mark f n) (chain_len f n) = Some (chain_head f n j, chain_head f n (j + 1) - chain_head f n j)"
    using chain_place_ok [OF assms(1-5)] by blast
  have mono: "chain_head f n a \<le> chain_head f n b \<longleftrightarrow> a \<le> b" for a b
    using chain_head_mono [OF assms(1,2), of a b] chain_head_mono [OF assms(1,2), of b a] by (cases a b rule: linorder_cases) auto
  have hd: "is_head f n s \<longleftrightarrow> s = chain_head f n j"
  proof
    assume "is_head f n s"
    then obtain i where i: "s = chain_head f n i" by (auto simp: is_head_def)
    then have "j \<le> i" "\<not> j + 1 \<le> i" using j(3,4) mono by (metis, metis leD)
    then have "i = j" by linarith
    with i show "s = chain_head f n j" by simp
  qed (use j in \<open>auto simp: is_head_def\<close>)
  have tl: "s + 1 = chain_head f n (j + 1) \<longleftrightarrow> s + 1 = n \<or> is_head f n (s + 1)"
  proof
    assume s: "s + 1 = chain_head f n (j + 1)"
    have "is_head f n (s + 1)" if "j + 1 \<noteq> f"
      unfolding is_head_def using that j(1,2) s by (intro exI [of _ "j + 1"]) simp
    then show "s + 1 = n \<or> is_head f n (s + 1)" using s chain_head_end [OF assms(1), of n] by auto
  next
    assume "s + 1 = n \<or> is_head f n (s + 1)"
    then obtain i where i: "s + 1 = chain_head f n i" using chain_head_end [OF assms(1), of n] by (metis is_head_def)
    then have "chain_head f n i \<le> chain_head f n (j + 1)" "\<not> chain_head f n i \<le> chain_head f n j" using j(3,4) by linarith+
    then have "i = j + 1" by (simp add: mono)
    with i show "s + 1 = chain_head f n (j + 1)" by simp
  qed
  have kids: "chain_kids f n s = [] \<longleftrightarrow> s + 1 = chain_head f n (j + 1)" using tl assms(4,5) by (auto simp: chain_kids_def)
  have last: "s = chain_head f n j + (chain_head f n (j + 1) - chain_head f n j) - 1 \<longleftrightarrow> s + 1 = chain_head f n (j + 1)" by linarith
  have par: "chain_parent f n s = (if s = chain_head f n j then 0 else s - 1)" by (simp add: chain_parent_def hd)
  have room: "s + 1 < n" if "s + 1 \<noteq> chain_head f n (j + 1)" using that tl assms(5) by linarith
  show ?thesis
    by (simp only: chain_middle_def place par kids last bind.bind_lunit prod.case Let_def)
      (use room assms(6) in \<open>simp add: aset_def\<close>)
qed

lemma cmod_real_rank_add:
  assumes "0 < n" and "0 \<le> d"
  shows "cmod (real_rank n root a + d) n = Some (real_rank n root (a + d))"
proof -
  have "((a + root) mod n + d) mod n = (a + root + d) mod n" by (rule mod_add_left_eq)
  then have "((a + root) mod n + d) mod n = (a + d + root) mod n" by (simp only: add_ac)
  moreover have "0 \<le> (a + root) mod n + d" using assms by simp
  ultimately show ?thesis using assms by (simp add: cmod_def real_rank_def)
qed

lemma chain_root_ok:
  assumes "1 \<le> f" and "f < n" and "n \<le> 2 ^ 30" and "0 \<le> root" and "root < n" and "nat f \<le> length (tree_next t)"
  shows "chain_root n root f (chain_mark f n) (chain_len f n) t =
    Some (t\<lparr>tree_prev := - 1, tree_next := map (real_rank n root) (map (chain_head f n) [0..f - 1]) @ drop (nat f) (tree_next t), tree_nextsize := f\<rparr>)"
proof -
  let ?h = "\<lambda>i. real_rank n root (chain_head f n i)"
  let ?body = "\<lambda>i nxt. do { p \<leftarrow> aget nxt (i - 1); s \<leftarrow> cint (p + chain_len f n);
     c \<leftarrow> cmod (if i > chain_mark f n then s - 1 else s) n; aset nxt i c }"
  let ?P = "\<lambda>i nxt. nxt = map ?h [0..i - 1] @ drop (nat i) (tree_next t)"
  have len: "1 \<le> chain_len f n" "chain_len f n \<le> n"
  proof -
    show "1 \<le> chain_len f n" using chain_mark_bounds(1) [OF assms(1,2)] .
    have "chain_head f n 1 \<le> n" using chain_head_mono [OF assms(1,2), of 1 f] chain_head_end [OF assms(1), of n] assms(1)
      by (cases "f = 1") simp_all
    moreover have "chain_head f n 1 = 1 + chain_len f n"
      using chain_head_step [OF assms(1), of 0 n] chain_mark_bounds(2) [OF assms(1,2)] assms(1) by simp
    ultimately show "chain_len f n \<le> n" by simp
  qed
  have first: "cmod (root + 1) n = Some (?h 0)" using assms by (simp add: cmod_def real_rank_def add.commute)
  have "\<exists>nxt. for_loop 1 f ?body ((tree_next t)[0 := ?h 0]) = Some nxt \<and> ?P f nxt"
  proof (rule for_loop_rule [where P = ?P])
    show "?P 1 ((tree_next t)[0 := ?h 0])" using assms(1,6) by (cases "tree_next t") (auto simp: upto.simps)
    fix i nxt assume i: "1 \<le> i" "i < f" and P: "?P i nxt"
    have ln: "length nxt = length (tree_next t)" using P i assms(6) by simp
    have "[0..i - 1] ! nat (i - 1) = i - 1" using i by (simp add: nth_upto)
    then have get: "aget nxt (i - 1) = Some (?h (i - 1))" using P i assms(6) ln by (simp add: aget_def nth_append nat_less_iff)
    have r: "0 \<le> ?h (i - 1)" "?h (i - 1) < n" using real_rank_range [of n root] assms(4,5) by auto
    have "cint (?h (i - 1) + chain_len f n) = Some (?h (i - 1) + chain_len f n)"
      using r len assms(3) by (simp add: is_cintI INT_MAX_def)
    moreover have "cmod (if i > chain_mark f n then ?h (i - 1) + chain_len f n - 1 else ?h (i - 1) + chain_len f n) n = Some (?h i)"
      using chain_head_step [OF assms(1), of "i - 1" n] i len assms(4,5)
        cmod_real_rank_add [of n "chain_len f n" root "chain_head f n (i - 1)"]
        cmod_real_rank_add [of n "chain_len f n - 1" root "chain_head f n (i - 1)"]
      by (simp add: add_diff_eq split: if_splits)
    moreover have "aset nxt i (?h i) = Some (map ?h [0..i] @ drop (nat (i + 1)) (tree_next t))"
    proof -
      have "drop (nat i) (tree_next t) = tree_next t ! nat i # drop (nat (i + 1)) (tree_next t)"
        using i assms(6) by (simp add: Cons_nth_drop_Suc nat_add_distrib)
      moreover have "length (map ?h [0..i - 1]) = nat i" using i by simp
      moreover have "[0..i] = [0..i - 1] @ [i]" using i upto_rec2 [of 0 i] by simp
      ultimately show ?thesis using P i ln assms(6) by (simp add: aset_def list_update_append)
    qed
    ultimately show "\<exists>nxt'. ?body i nxt = Some nxt' \<and> ?P (i + 1) nxt'" using get by simp
  qed (use assms in simp)
  then show ?thesis using first assms(1,6) by (auto simp: chain_root_def aset_def comp_def)
qed

text \<open>What the rest of the proof needs of a finished tree.\<close>

definition chain_done :: "int \<Rightarrow> int \<Rightarrow> int \<Rightarrow> int \<Rightarrow> coll_tree \<Rightarrow> bool" where
  "chain_done f n root v t \<longleftrightarrow> tree_root t = root \<and> tree_children t = map (real_rank n root) (chain_kids f n v) \<and>
     (v \<noteq> 0 \<longrightarrow> tree_prev t = real_rank n root (chain_parent f n v))"

lemma is_head_one: "is_head 1 n s \<longleftrightarrow> s = 1"
proof -
  have "0 \<le> j \<and> j < 1 \<longleftrightarrow> j = 0" for j :: int by auto
  then show ?thesis by (simp add: is_head_def conj_assoc [symmetric])
qed

lemma chain_pipeline_done:
  assumes "2 \<le> n" and "n \<le> 2 ^ 30" and "0 \<le> root" and "root < n" and "0 \<le> v" and "v < n"
    and "0 < length (tree_next t)" and "tree_root t = root"
  shows "\<exists>t'. chain_pipeline n root v t = Some t' \<and> chain_done 1 n root v t'"
proof -
  have prev: "(if v = 0 then Some (- 1) else do { s \<leftarrow> cint (v - 1 + root); cmod s n }) =
      Some (if v = 0 then - 1 else real_rank n root (v - 1))"
    using assms cmod_real_rank [of "v - 1" root n] by (simp add: is_cintI INT_MAX_def)
  have par: "chain_parent 1 n v = v - 1" if "v \<noteq> 0" using that by (auto simp: chain_parent_def is_head_one)
  have kids: "chain_kids 1 n v = (if v + 1 < n then [v + 1] else [])"
    using assms(1,5) by (auto simp: chain_kids_def is_head_one)
  have nxt: "cint (v + 1 + root) = Some (v + 1 + root)" "cmod (v + 1 + root) n = Some (real_rank n root (v + 1))" if "v + 1 < n"
    using that assms cmod_real_rank [of "v + 1" root n] by (simp_all add: is_cintI INT_MAX_def)
  show ?thesis
  proof (cases "v + 1 < n")
    case True
    then show ?thesis unfolding chain_pipeline_def prev using nxt par kids assms(7,8)
      by (cases "tree_next t") (simp_all add: aset_def chain_done_def tree_children_def)
  next
    case False
    then show ?thesis unfolding chain_pipeline_def prev using par kids assms(7,8)
      by (simp add: aset_def chain_done_def tree_children_def)
  qed
qed

lemma chain_other_done:
  assumes "1 \<le> f" and "f < n" and "n \<le> 2 ^ 30" and "0 \<le> root" and "root < n" and "0 < v" and "v < n"
    and "0 < length (tree_next t)" and "tree_root t = root"
  shows "\<exists>t1 t'. chain_middle n v (chain_mark f n) (chain_len f n) t = Some t1 \<and> chain_unshift n root t1 = Some t' \<and> chain_done f n root v t'"
proof -
  obtain t1 where t1: "chain_middle n v (chain_mark f n) (chain_len f n) t = Some t1"
    "tree_prev t1 = chain_parent f n v" "tree_root t1 = root" "0 < length (tree_next t1)"
    "if chain_kids f n v = [] then tree_next t1 ! 0 = - 1 \<and> tree_nextsize t1 = 0 else tree_next t1 ! 0 = v + 1 \<and> tree_nextsize t1 = 1"
    using chain_middle_ok [OF assms(1-3,6-8)] assms(8,9) by (cases "chain_kids f n v = []") auto
  have p: "0 \<le> chain_parent f n v" "chain_parent f n v < n" using assms(6,7) by (auto simp: chain_parent_def)
  have prev: "cint (chain_parent f n v + root) = Some (chain_parent f n v + root)"
    "cmod (chain_parent f n v + root) n = Some (real_rank n root (chain_parent f n v))"
    using p assms(3-5) cmod_real_rank [OF p(1), of root n] by (simp_all add: is_cintI INT_MAX_def)
  have kids: "chain_kids f n v = [] \<or> chain_kids f n v = [v + 1] \<and> v + 1 < n" using assms(6) by (simp add: chain_kids_def)
  have "\<exists>t'. chain_unshift n root t1 = Some t' \<and> chain_done f n root v t'"
  proof (cases "chain_kids f n v = []")
    case True
    then show ?thesis using t1 prev assms(6)
      by (simp add: chain_unshift_def aget_def chain_done_def tree_children_def)
  next
    case False
    then have "v + 1 < n" "chain_kids f n v = [v + 1]" using kids by auto
    moreover have "cint (v + 1 + root) = Some (v + 1 + root)" "cmod (v + 1 + root) n = Some (real_rank n root (v + 1))"
      using \<open>v + 1 < n\<close> assms(3-6) cmod_real_rank [of "v + 1" root n] by (simp_all add: is_cintI INT_MAX_def)
    ultimately show ?thesis using t1 prev assms(6) False
      by (cases "tree_next t1") (simp_all add: chain_unshift_def aget_def aset_def chain_done_def tree_children_def)
  qed
  with t1(1) show ?thesis by blast
qed

lemma build_chain_ok:
  assumes "tree_block junk" and "0 \<le> root" and "root < n" and "n \<le> 2 ^ 30" and "rank \<in> {0..<n}"
  shows "\<exists>t. ompi_coll_tuned_topo_build_chain (Ptr junk) f n rank root = Some (Ptr t) \<and>
    chain_done (chain_fanout f n) n root (vrank n root rank) t"
proof -
  let ?f = "max 1 (min f MAXTREEFANOUT)" and ?F = "chain_fanout f n" and ?v = "vrank n root rank"
  have v: "0 \<le> ?v" "?v < n" "?v = 0 \<longleftrightarrow> rank = root"
    using vrank_range [of n root rank] vrank_0_iff [OF assms(5), of root] assms(2,3) by simp_all
  have fb: "1 \<le> ?f" "?f \<le> 32" by (simp_all add: MAXTREEFANOUT_def)
  have clamp: "(if (if f < 1 then 1 else f) > MAXTREEFANOUT then MAXTREEFANOUT else (if f < 1 then 1 else f)) = ?f"
    by (auto simp: MAXTREEFANOUT_def)
  have lim: "(if n - 1 < ?f then n - 1 else ?f) = ?F" by (auto simp: chain_fanout_def)
  have len: "length (tree_next junk) = 32" using assms(1) by (simp add: tree_block_def MAXTREEFANOUT_def)
  obtain nxt where nxt: "for_loop 0 ?f (\<lambda>i a. aset a i (- 1)) (tree_next junk) = Some nxt" "length nxt = 32"
    using for_loop_array_fill [of "replicate (nat ?f) (- 1)" "\<lambda>i. Some (- 1)" "tree_next junk"] fb len by force
  let ?t = "junk\<lparr>tree_root := root, tree_next := nxt, tree_nextsize := ?F\<rparr>"
  have sh: "(if rank - root < 0 then rank - root + n else rank - root) = ?v" using shifted_rank_eq [OF assms(5), of root] assms by simp
  have start: "ompi_coll_tuned_topo_build_chain (Ptr junk) f n rank root =
     (if ?F = 1 then map_option Ptr (chain_pipeline n root ?v ?t)
      else if n = 1 then Some (Ptr (?t\<lparr>tree_next := nxt[0 := - 1], tree_nextsize := 0, tree_prev := - 1\<rparr>))
      else do {
        chain \<leftarrow> (if ?v \<noteq> 0 then chain_middle n ?v (chain_mark ?F n) (chain_len ?F n) ?t else Some ?t);
        chain \<leftarrow> (if rank = root then chain_root n root ?F (chain_mark ?F n) (chain_len ?F n) chain else chain_unshift n root chain);
        Some (Ptr chain) })"
  proof -
    have Fpos: "0 < ?F" "?F \<noteq> 0" "0 \<le> n - 1" if "n \<noteq> 1" using that assms(2,3) fb by (auto simp: chain_fanout_def)
    have dv: "cdiv (n - 1) ?F = Some ((n - 1) div ?F)" "cmod (n - 1) ?F = Some ((n - 1) mod ?F)" if "n \<noteq> 1"
      using Fpos [OF that] by (simp_all add: cdiv_def cmod_def)
    have "nxt \<noteq> []" using nxt(2) by auto
    then show ?thesis
      unfolding ompi_coll_tuned_topo_build_chain_def Let_def clamp lim sh chain_mark_def chain_len_def
      using nxt dv by (cases "?F = 1"; cases "n = 1") (simp_all add: map_conv_bind_option aset_def comp_def)
  qed
  consider (one) "n = 1" | (pipe) "2 \<le> n" "?F = 1" | (chains) "2 \<le> n" "2 \<le> ?F" "?F < n"
  proof -
    have "?F \<le> n - 1" "2 \<le> n \<longrightarrow> 1 \<le> ?F" by (auto simp: chain_fanout_def)
    then show thesis using assms(2,3) that by linarith
  qed
  then show ?thesis
  proof cases
    case one
    then have "?F = 0" "?v = 0" using v fb by (simp_all add: chain_fanout_def)
    then show ?thesis using start one by (simp add: chain_done_def tree_children_def chain_kids_def)
  next
    case pipe
    then show ?thesis using start chain_pipeline_done [of n root ?v ?t] assms v nxt(2) by auto
  next
    case chains
    then have F: "1 \<le> ?F" "nat ?F \<le> 32" using fb by (auto simp: chain_fanout_def)
    show ?thesis
    proof (cases "rank = root")
      case True
      then show ?thesis using start chains v(3) F chain_root_ok [OF F(1) chains(3) assms(4,2,3), of ?t] nxt(2)
        by (simp add: chain_done_def tree_children_def chain_kids_def)
    next
      case False
      then have "0 < ?v" using v by simp
      then show ?thesis using start chains False v chain_other_done [OF F(1) chains(3) assms(4,2,3) _ v(2), of ?t] nxt(2) by auto
    qed
  qed
qed

definition chain_valid :: "coll_tree \<times> int \<times> int \<times> int \<Rightarrow> bool" where
  "chain_valid = (\<lambda>(junk, f, n, root). tree_block junk \<and> 0 \<le> root \<and> root < n \<and> n \<le> 2 ^ 30)"

interpretation chn: coll_family chain_valid "\<lambda>(junk, f, n, root). n" "\<lambda>(junk, f, n, root). root"
  "\<lambda>(junk, f, n, root) r. tree_prev (tree_of (ompi_coll_tuned_topo_build_chain (Ptr junk) f n r root))"
  "\<lambda>(junk, f, n, root) r. tree_children (tree_of (ompi_coll_tuned_topo_build_chain (Ptr junk) f n r root))"
  "\<lambda>(junk, f, n, root) r. nat (vrank n root r)"
proof
  fix c :: "coll_tree \<times> int \<times> int \<times> int" assume valid: "chain_valid c"
  obtain junk f n root where c: "c = (junk, f, n, root)" by (cases c)
  let ?B = "\<lambda>r. tree_of (ompi_coll_tuned_topo_build_chain (Ptr junk) f n r root)" and ?F = "chain_fanout f n"
  have v: "root \<in> {0..<n}" using valid c by (auto simp: chain_valid_def)
  then have F: "1 \<le> ?F \<and> ?F < n \<or> ?F = 0 \<and> n = 1" by (auto simp: chain_fanout_def MAXTREEFANOUT_def)
  have t: "chain_done ?F n root (vrank n root r) (?B r)" if "r \<in> {0..<n}" for r
    using build_chain_ok [of junk root n r f] valid c that by (auto simp: tree_of_def chain_valid_def)
  have "tree_laws n root (\<lambda>r. tree_prev (?B r)) (\<lambda>r. tree_children (?B r)) (\<lambda>r. nat (vrank n root r))"
    by (rule tree_laws_rotate [OF chain_tree_laws [OF F] v]) (use t v vrank_0_iff in \<open>auto simp: chain_done_def\<close>)
  then show "tree_laws (case c of (junk, f, n, root) \<Rightarrow> n) (case c of (junk, f, n, root) \<Rightarrow> root)
     ((\<lambda>(junk, f, n, root) r. tree_prev (tree_of (ompi_coll_tuned_topo_build_chain (Ptr junk) f n r root))) c)
     ((\<lambda>(junk, f, n, root) r. tree_children (tree_of (ompi_coll_tuned_topo_build_chain (Ptr junk) f n r root))) c)
     ((\<lambda>(junk, f, n, root) r. nat (vrank n root r)) c)"
    using c by simp
qed

section \<open>Properties\<close>

text \<open>C17: The chains of ompi_coll_tuned_topo_build_chain, for any requested number of chains, any root and up
  to 2^30 processes, form a spanning tree: every builder returns, a message sent from the root down the chains
  reaches every process, each but the root exactly once and from the process it takes for its parent.\<close>

theorem build_chain_spans:
  assumes "0 \<le> root" and "root < n" and "n \<le> 2 ^ 30" and "tree_block junk"
  shows "views_span n root (\<lambda>r. ompi_coll_tuned_topo_build_chain (Ptr junk) f n r root)"
proof -
  have valid: "chain_valid (junk, f, n, root)" using assms by (simp add: chain_valid_def)
  have "\<forall>r \<in> {0..<n}. \<exists>t. ompi_coll_tuned_topo_build_chain (Ptr junk) f n r root = Some (Ptr t) \<and> tree_root t = root"
    using build_chain_ok [OF assms(4,1-3)] by (meson chain_done_def)
  then show ?thesis using chn.broadcast_reaches_all [OF valid] by (simp add: views_span_def)
qed

theorem build_chain_spans_witness:
  "views_span 11 4 (\<lambda>r. ompi_coll_tuned_topo_build_chain
     (Ptr \<lparr>tree_root = 0, tree_fanout = 0, tree_bmtree = 0, tree_prev = 0, tree_next = replicate 32 5, tree_nextsize = 0\<rparr>) 3 11 r 4)"
  by (rule build_chain_spans) (simp_all add: MAXTREEFANOUT_def tree_block_def)

end
