(* ===== verification/Coll_Bintree.thy ===== *)
theory Coll_Bintree
  imports Coll_Tree
begin

text \<open>
  \<^verbatim>\<open>ompi/mca/coll/tuned/coll_tuned_topo.c\<close>, fourth part:
  \<open>ompi_coll_tuned_topo_build_in_order_bintree\<close>, the binary tree for reductions with an
  operation that does not commute. Every process walks down from the root, the last rank, to its own
  place, halving the part of the ranks that it looks at.
\<close>

section \<open>The builder\<close>

text \<open>
  The loop: \<open>sz\<close>, \<open>myrank\<close> and \<open>parent\<close> are relative to the part that starts at
  \<open>delta\<close>. The result is the parent and the two children.
\<close>

partial_function (option) io_bin_loop :: "int \<Rightarrow> int \<Rightarrow> int \<Rightarrow> int \<Rightarrow> int \<Rightarrow> int list \<Rightarrow> (int \<times> int list) option" where
  "io_bin_loop sz myrank parent delta prev nxt =
     (let rightsize = drop_bit 1 sz;
          lchild = (if sz - 1 > 0 then parent - 1 else - 1);
          rchild = (if sz - 1 > 0 \<and> lchild > 0 then rightsize - 1 else - 1) in
      if myrank = parent then do {
        nxt \<leftarrow> (if lchild \<ge> 0 then aset nxt 0 (lchild + delta) else Some nxt);
        nxt \<leftarrow> (if rchild \<ge> 0 then aset nxt 1 (rchild + delta) else Some nxt);
        Some (prev, nxt) }
      else if myrank > rchild then
        io_bin_loop (sz - rightsize - 1) (myrank - rightsize) (sz - rightsize - 1 - 1) (delta + rightsize)
          (if myrank = lchild then parent + delta else prev) nxt
      else
        io_bin_loop rightsize myrank rchild delta (if myrank = rchild then parent + delta else prev) nxt)"

definition ompi_coll_tuned_topo_build_in_order_bintree :: "coll_tree ptr \<Rightarrow> int \<Rightarrow> int \<Rightarrow> coll_tree ptr option" where
  "ompi_coll_tuned_topo_build_in_order_bintree mem sz rank =
     (case mem of
        Null \<Rightarrow> Some Null
      | Ptr junk \<Rightarrow> do {
          nxt \<leftarrow> aset (tree_next junk) 0 (- 1);
          nxt \<leftarrow> aset nxt 1 (- 1);
          (prev, nxt) \<leftarrow> io_bin_loop sz rank (sz - 1) 0 (- 1) nxt;
          n0 \<leftarrow> aget nxt 0;
          n1 \<leftarrow> aget nxt 1;
          Some (Ptr (junk\<lparr>tree_fanout := 2, tree_bmtree := 0, tree_root := sz - 1, tree_prev := prev, tree_next := nxt,
                          tree_nextsize := (if n0 \<ge> 0 then 1 else 0) + (if n1 \<ge> 0 then 1 else 0)\<rparr>)) })"

section \<open>The tree\<close>

text \<open>
  The tree over the ranks \<open>0 ..< m\<close> with root \<open>m - 1\<close>: the right subtree takes the first
  half, the left one the rest.
\<close>

function bin_parent :: "int \<Rightarrow> int \<Rightarrow> int" where
  "bin_parent m x =
     (if m \<le> 1 \<or> x \<ge> m - 1 then - 1
      else if x \<ge> m div 2 then (if x = m - 2 then m - 1 else m div 2 + bin_parent (m - m div 2 - 1) (x - m div 2))
      else (if x = m div 2 - 1 then m - 1 else bin_parent (m div 2) x))"
  by pat_completeness auto
termination by (relation "measure (\<lambda>(m, x). nat m)") auto

function bin_kids :: "int \<Rightarrow> int \<Rightarrow> int list" where
  "bin_kids m x =
     (if m \<le> 1 then []
      else if x = m - 1 then (if m = 2 then [0] else [m - 2, m div 2 - 1])
      else if x \<ge> m div 2 then map (\<lambda>k. k + m div 2) (bin_kids (m - m div 2 - 1) (x - m div 2))
      else bin_kids (m div 2) x)"
  by pat_completeness auto
termination by (relation "measure (\<lambda>(m, x). nat m)") auto

declare bin_parent.simps [simp del] bin_kids.simps [simp del]

lemma half_bounds:
  assumes "3 \<le> (m :: int)"
  shows "1 \<le> m div 2" and "m div 2 \<le> m - 2" and "1 \<le> m - m div 2 - 1"
  using assms by presburger+

lemma bin_parent_range:
  "0 \<le> x \<Longrightarrow> x < m - 1 \<Longrightarrow> x < bin_parent m x \<and> bin_parent m x < m"
proof (induction m x rule: bin_parent.induct)
  case (1 m x)
  let ?r = "m div 2"
  have r: "1 \<le> ?r" "?r \<le> m - 1" using 1 by presburger+
  consider (left) "x \<ge> ?r" "x \<noteq> m - 2" | (right) "x < ?r - 1" | (top) "x \<ge> ?r" "x = m - 2" | (top') "x = ?r - 1" by linarith
  then show ?case
  proof cases
    case left
    then have "x - ?r < bin_parent (m - ?r - 1) (x - ?r) \<and> bin_parent (m - ?r - 1) (x - ?r) < m - ?r - 1"
      using 1 by (intro "1.IH"(1)) auto
    then show ?thesis using left "1.prems" by (simp add: bin_parent.simps [of m x])
  next
    case right
    then have "x < bin_parent ?r x \<and> bin_parent ?r x < ?r" using 1 by (intro "1.IH"(2)) auto
    then show ?thesis using right "1.prems" r by (simp add: bin_parent.simps [of m x])
  next
    case top
    then have "bin_parent m x = m - 1" using "1.prems" by (subst bin_parent.simps) simp
    then show ?thesis using "1.prems" by simp
  next
    case top'
    then have "bin_parent m x = m - 1" using "1.prems" by (subst bin_parent.simps) simp
    then show ?thesis using "1.prems" by simp
  qed
qed

lemma bin_kids_small: "bin_kids 1 x = []" "bin_kids 2 1 = [0]" "bin_kids 2 0 = []" "bin_parent 2 0 = 1"
  by (simp_all add: bin_kids.simps bin_parent.simps)

text \<open>Which ranks have a given parent: the root, a rank of the left and a rank of the right half.\<close>

lemma bin_parent_cases:
  assumes "3 \<le> m" and "0 \<le> k" and "k < m - 1"
  shows "bin_parent m k = m - 1 \<longleftrightarrow> k = m - 2 \<or> k = m div 2 - 1"
    and "m div 2 \<le> x \<Longrightarrow> x < m - 1 \<Longrightarrow>
      bin_parent m k = x \<longleftrightarrow> m div 2 \<le> k \<and> k < m - 2 \<and> bin_parent (m - m div 2 - 1) (k - m div 2) = x - m div 2"
    and "x < m div 2 \<Longrightarrow> bin_parent m k = x \<longleftrightarrow> k < m div 2 - 1 \<and> bin_parent (m div 2) k = x"
proof -
  define r where "r = m div 2"
  note h = half_bounds [OF assms(1), folded r_def]
  consider (left) "r \<le> k" "k < m - 2" "bin_parent m k = r + bin_parent (m - r - 1) (k - r)" "r \<le> bin_parent m k" "bin_parent m k < m - 1"
    | (right) "k < r - 1" "bin_parent m k = bin_parent r k" "bin_parent m k < r"
    | (top) "k = m - 2 \<or> k = r - 1" "bin_parent m k = m - 1"
  proof -
    have step: "bin_parent m k = (if k \<ge> r then (if k = m - 2 then m - 1 else r + bin_parent (m - r - 1) (k - r))
        else (if k = r - 1 then m - 1 else bin_parent r k))"
      using assms by (simp add: bin_parent.simps [of m k] r_def)
    consider (l) "r \<le> k" "k < m - 2" | (r) "k < r - 1" | (t) "k = m - 2 \<or> k = r - 1" using assms(3) by linarith
    then show thesis
    proof cases
      case l
      then have "bin_parent m k = r + bin_parent (m - r - 1) (k - r)" using step by simp
      then show thesis using that(1) l bin_parent_range [of "k - r" "m - r - 1"] assms(2) by auto
    next
      case r
      then have "bin_parent m k = bin_parent r k" using step by simp
      then show thesis using that(2) r bin_parent_range [of k r] assms(2) by auto
    next
      case t
      then show thesis using that(3) step h by (metis diff_add_cancel leD less_add_one not_le)
    qed
  qed
  then show "bin_parent m k = m - 1 \<longleftrightarrow> k = m - 2 \<or> k = m div 2 - 1"
    and "m div 2 \<le> x \<Longrightarrow> x < m - 1 \<Longrightarrow>
      bin_parent m k = x \<longleftrightarrow> m div 2 \<le> k \<and> k < m - 2 \<and> bin_parent (m - m div 2 - 1) (k - m div 2) = x - m div 2"
    and "x < m div 2 \<Longrightarrow> bin_parent m k = x \<longleftrightarrow> k < m div 2 - 1 \<and> bin_parent (m div 2) k = x"
    unfolding r_def [symmetric] using h by (cases; auto)+
qed

lemma top_pair:
  "(\<And>k. 0 \<le> k \<Longrightarrow> k < m - 1 \<Longrightarrow> P k \<longleftrightarrow> k = m - 2 \<or> k = r - 1) \<Longrightarrow> 1 \<le> r \<Longrightarrow> r \<le> m - 2 \<Longrightarrow>
   {k. 0 \<le> k \<and> k < m - 1 \<and> P k} = {m - 2, r - 1 :: int}"
  by auto

lemma bin_kids_set:
  "1 \<le> m \<Longrightarrow> 0 \<le> x \<Longrightarrow> x < m \<Longrightarrow> distinct (bin_kids m x) \<and> set (bin_kids m x) = {k. 0 \<le> k \<and> k < m - 1 \<and> bin_parent m k = x}"
proof (induction m x rule: bin_kids.induct)
  case (1 m x)
  let ?r = "m div 2" and ?l = "m - m div 2 - 1"
  consider (one) "m = 1" | (two) "m = 2" | (more) "3 \<le> m" using "1.prems"(1) by linarith
  then show ?case
  proof cases
    case two
    then have x: "x = 0 \<or> x = 1" using "1.prems" by linarith
    have "0 \<le> k \<and> k < 1 \<longleftrightarrow> k = 0" for k :: int by linarith
    then have "{k. 0 \<le> k \<and> k < m - 1 \<and> bin_parent m k = x} = {k. k = 0 \<and> x = 1}"
      using two bin_kids_small(4) by (auto simp: conj_assoc [symmetric])
    then show ?thesis using two x bin_kids_small by auto
  next
    case more
    note h = half_bounds [OF more]
    note par = bin_parent_cases [OF more]
    consider (root) "x = m - 1" | (left) "?r \<le> x" "x < m - 1" | (right) "x < ?r" using "1.prems" by linarith
    then show ?thesis
    proof cases
      case root
      have "{k. 0 \<le> k \<and> k < m - 1 \<and> bin_parent m k = x} = {m - 2, ?r - 1}"
        unfolding root by (rule top_pair [OF par(1) h(1,2)])
      moreover have "bin_kids m x = [m - 2, ?r - 1]" using root more by (subst bin_kids.simps) simp
      ultimately show ?thesis using h(2) by simp
    next
      case left
      have IH: "distinct (bin_kids ?l (x - ?r)) \<and> set (bin_kids ?l (x - ?r)) = {k. 0 \<le> k \<and> k < ?l - 1 \<and> bin_parent ?l k = x - ?r}"
        using more left h "1.prems" by (intro "1.IH"(1)) auto
      have "k \<in> (\<lambda>k. k + ?r) ` {k. 0 \<le> k \<and> k < ?l - 1 \<and> bin_parent ?l k = x - ?r} \<longleftrightarrow> 0 \<le> k \<and> k < m - 1 \<and> bin_parent m k = x" for k
      proof -
        have "k \<in> (\<lambda>k. k + ?r) ` {k. 0 \<le> k \<and> k < ?l - 1 \<and> bin_parent ?l k = x - ?r} \<longleftrightarrow> ?r \<le> k \<and> k < m - 2 \<and> bin_parent ?l (k - ?r) = x - ?r"
          by (auto simp: image_iff intro!: exI [of _ "k - ?r"])
        also have "\<dots> \<longleftrightarrow> 0 \<le> k \<and> k < m - 1 \<and> bin_parent m k = x" using par(2) [of k x] left h by auto
        finally show ?thesis .
      qed
      then show ?thesis using IH left more by (auto simp: bin_kids.simps [of m x] distinct_map inj_on_def)
    next
      case right
      have "distinct (bin_kids ?r x) \<and> set (bin_kids ?r x) = {k. 0 \<le> k \<and> k < ?r - 1 \<and> bin_parent ?r k = x}"
        using more right h "1.prems" by (intro "1.IH"(2)) auto
      moreover have "0 \<le> k \<and> k < ?r - 1 \<and> bin_parent ?r k = x \<longleftrightarrow> 0 \<le> k \<and> k < m - 1 \<and> bin_parent m k = x" for k
        using par(3) [of k x] right h by auto
      ultimately show ?thesis using right more h by (simp add: bin_kids.simps [of m x])
    qed
  qed (simp add: bin_kids_small)
qed

lemma bin_tree_laws:
  assumes "1 \<le> n"
  shows "tree_laws n (n - 1) (bin_parent n) (bin_kids n) (\<lambda>x. nat (n - 1 - x))"
proof -
  have "distinct (bin_kids n r) \<and> set (bin_kids n r) = {k \<in> {0..<n}. k \<noteq> n - 1 \<and> bin_parent n k = r}" if "r \<in> {0..<n}" for r
  proof -
    have "{k. 0 \<le> k \<and> k < n - 1 \<and> P k} = {k \<in> {0..<n}. k \<noteq> n - 1 \<and> P k}" for P by auto
    then show ?thesis using bin_kids_set [OF assms, of r] that by simp
  qed
  moreover have "bin_parent n k \<in> {0..<n} \<and> nat (n - 1 - bin_parent n k) < nat (n - 1 - k)" if "k \<in> {0..<n}" "k \<noteq> n - 1" for k
    using bin_parent_range [of k n] that by auto
  ultimately show ?thesis using assms by (simp add: tree_laws_def)
qed

section \<open>What the builder computes\<close>

fun put_kids :: "int list \<Rightarrow> int list \<Rightarrow> int list" where
  "put_kids [] nxt = nxt"
| "put_kids [a] nxt = nxt[0 := a]"
| "put_kids (a # b # _) nxt = nxt[0 := a, 1 := b]"

lemma io_bin_loop_ok:
  assumes "1 \<le> m" and "0 \<le> x" and "x < m" and "2 \<le> length nxt"
  shows "io_bin_loop m x (m - 1) delta prev nxt =
    Some (if x = m - 1 then prev else bin_parent m x + delta, put_kids (map (\<lambda>k. k + delta) (bin_kids m x)) nxt)"
  using assms
proof (induction m x arbitrary: delta prev rule: bin_kids.induct)
  case (1 m x)
  define r where "r = m div 2"
  note loop = io_bin_loop.simps [of m x "m - 1" delta prev nxt, unfolded Let_def]
  have ne: "nxt \<noteq> []" using "1.prems"(4) by auto
  consider (one) "m = 1" | (two) "m = 2" "x = 0" | (two') "m = 2" "x = 1" | (more) "3 \<le> m" using "1.prems" by linarith
  then show ?case
  proof cases
    case one
    then have "x = 0" using "1.prems" by simp
    then show ?thesis using loop one by (simp add: bin_kids_small)
  next
    case two
    have "io_bin_loop 0 (- 1) (- 1) (delta + 1) (1 + delta) nxt = Some (1 + delta, nxt)" by (subst io_bin_loop.simps) simp
    then show ?thesis using loop two by (simp add: bin_kids_small)
  next
    case two'
    then show ?thesis using loop ne by (simp add: bin_kids_small aset_def)
  next
    case more
    note h = half_bounds [OF more, folded r_def]
    have half: "drop_bit (Suc 0) m = r" by (simp add: r_def drop_bit_eq_div)
    consider (root) "x = m - 1" | (left) "r \<le> x" "x < m - 1" | (right) "x < r" using "1.prems" by linarith
    then show ?thesis
    proof cases
      case root
      then have "bin_kids m x = [m - 2, r - 1]" using more by (subst bin_kids.simps) (simp add: r_def)
      then show ?thesis using loop root more h "1.prems"(4) ne by (simp add: half aset_def)
    next
      case left
      have IH: "io_bin_loop (m - r - 1) (x - r) (m - r - 1 - 1) (delta + r) p nxt =
          Some (if x - r = m - r - 1 - 1 then p else bin_parent (m - r - 1) (x - r) + (delta + r),
                put_kids (map (\<lambda>k. k + (delta + r)) (bin_kids (m - r - 1) (x - r))) nxt)" for p
        unfolding r_def by (rule "1.IH"(1)) (use more left h "1.prems"(4) in \<open>auto simp: r_def\<close>)
      have k: "bin_kids m x = map (\<lambda>k. k + r) (bin_kids (m - r - 1) (x - r))"
        using more left by (simp add: bin_kids.simps [of m x] r_def)
      have p: "bin_parent m x = (if x = m - 2 then m - 1 else r + bin_parent (m - r - 1) (x - r))"
        using more left by (simp add: bin_parent.simps [of m x] r_def)
      show ?thesis using loop left more h IH by (simp add: half k p comp_def add_ac)
    next
      case right
      have IH: "io_bin_loop r x (r - 1) delta p nxt =
          Some (if x = r - 1 then p else bin_parent r x + delta, put_kids (map (\<lambda>k. k + delta) (bin_kids r x)) nxt)" for p
        unfolding r_def by (rule "1.IH"(2)) (use more right h "1.prems" in \<open>auto simp: r_def\<close>)
      have k: "bin_kids m x = bin_kids r x" using more right h by (simp add: bin_kids.simps [of m x] r_def)
      have p: "bin_parent m x = (if x = r - 1 then m - 1 else bin_parent r x)"
        using more right h by (simp add: bin_parent.simps [of m x] r_def)
      show ?thesis using loop right more h IH by (simp add: half k p)
    qed
  qed
qed

lemma bin_kids_shape:
  assumes "1 \<le> m" and "0 \<le> x" and "x < m"
  shows "length (bin_kids m x) \<le> 2" and "\<forall>k \<in> set (bin_kids m x). 0 \<le> k"
proof -
  show "length (bin_kids m x) \<le> 2" by (induction m x rule: bin_kids.induct) (subst bin_kids.simps, auto)
  show "\<forall>k \<in> set (bin_kids m x). 0 \<le> k" using bin_kids_set [OF assms] by auto
qed

lemma build_in_order_bintree_ok:
  assumes "tree_block junk" and "rank \<in> {0..<n}"
  shows "\<exists>t. ompi_coll_tuned_topo_build_in_order_bintree (Ptr junk) n rank = Some (Ptr t) \<and> tree_root t = n - 1 \<and>
    tree_children t = bin_kids n rank \<and> (rank \<noteq> n - 1 \<longrightarrow> tree_prev t = bin_parent n rank)"
proof -
  have len: "length (tree_next junk) = 32" using assms(1) by (simp add: tree_block_def MAXTREEFANOUT_def)
  then obtain a b rest where junk: "tree_next junk = a # b # rest" by (cases "tree_next junk" rule: remdups_adj.cases) auto
  let ?K = "bin_kids n rank" and ?nxt = "- 1 # - 1 # rest"
  have sh: "length ?K \<le> 2" "\<forall>k \<in> set ?K. 0 \<le> k" using bin_kids_shape [of n rank] assms(2) by simp_all
  have loop: "io_bin_loop n rank (n - 1) 0 (- 1) ?nxt = Some (if rank = n - 1 then - 1 else bin_parent n rank, put_kids ?K ?nxt)"
    using io_bin_loop_ok [of n rank ?nxt 0 "- 1"] assms(2) by simp
  from sh consider "?K = []" | k where "?K = [k]" "0 \<le> k" | k l where "?K = [k, l]" "0 \<le> k" "0 \<le> l"
    by (auto simp: numeral_2_eq_2 le_Suc_eq length_Suc_conv)
  then show ?thesis
    by cases (simp_all add: ompi_coll_tuned_topo_build_in_order_bintree_def junk aset_def aget_def loop tree_children_def)
qed

definition bin_valid :: "coll_tree \<times> int \<Rightarrow> bool" where
  "bin_valid = (\<lambda>(junk, n). tree_block junk \<and> 1 \<le> n)"

interpretation bin: coll_family bin_valid snd "\<lambda>(junk, n). n - 1"
  "\<lambda>(junk, n) r. tree_prev (tree_of (ompi_coll_tuned_topo_build_in_order_bintree (Ptr junk) n r))"
  "\<lambda>(junk, n) r. tree_children (tree_of (ompi_coll_tuned_topo_build_in_order_bintree (Ptr junk) n r))"
  "\<lambda>(junk, n) r. nat (n - 1 - r)"
proof
  fix c :: "coll_tree \<times> int" assume valid: "bin_valid c"
  obtain junk n where c: "c = (junk, n)" by (cases c)
  have v: "1 \<le> n" "tree_block junk" using valid c by (auto simp: bin_valid_def)
  let ?B = "\<lambda>r. tree_of (ompi_coll_tuned_topo_build_in_order_bintree (Ptr junk) n r)"
  have t: "tree_children (?B r) = bin_kids n r" "r \<noteq> n - 1 \<longrightarrow> tree_prev (?B r) = bin_parent n r" if "r \<in> {0..<n}" for r
    using build_in_order_bintree_ok [OF v(2) that] by (auto simp: tree_of_def)
  have "tree_laws n (n - 1) (\<lambda>r. tree_prev (?B r)) (\<lambda>r. tree_children (?B r)) (\<lambda>r. nat (n - 1 - r))"
    by (rule tree_laws_cong [OF bin_tree_laws [OF v(1)]]) (use t in auto)
  then show "tree_laws (snd c) (case c of (junk, n) \<Rightarrow> n - 1)
     ((\<lambda>(junk, n) r. tree_prev (tree_of (ompi_coll_tuned_topo_build_in_order_bintree (Ptr junk) n r))) c)
     ((\<lambda>(junk, n) r. tree_children (tree_of (ompi_coll_tuned_topo_build_in_order_bintree (Ptr junk) n r))) c)
     ((\<lambda>(junk, n) r. nat (n - 1 - r)) c)"
    using c by simp
qed

section \<open>The order of a reduction\<close>

text \<open>
  In a reduction a process combines the result of a child from the left with what it has so far,
  starting from its own value with the first child. So the operands of a subtree come in the order of
  the last child's subtree, then the ones before it, then the process itself.
\<close>

inductive reduce_order :: "(int \<Rightarrow> int list) \<Rightarrow> int \<Rightarrow> int list \<Rightarrow> bool" for children where
  combine: "list_all2 (reduce_order children) (rev (children r)) yss \<Longrightarrow> reduce_order children r (concat yss @ [r])"

lemma reduce_order_leaf: "children r = [] \<Longrightarrow> reduce_order children r [r]"
  using reduce_order.combine [of children r "[]"] by simp

lemma reduce_order_one: "children r = [a] \<Longrightarrow> reduce_order children a xs \<Longrightarrow> reduce_order children r (xs @ [r])"
  using reduce_order.combine [of children r "[xs]"] by simp

lemma reduce_order_two:
  "children r = [a, b] \<Longrightarrow> reduce_order children a xs \<Longrightarrow> reduce_order children b ys \<Longrightarrow> reduce_order children r (ys @ xs @ [r])"
  using reduce_order.combine [of children r "[ys, xs]"] by simp

lemma bin_reduce_order:
  assumes "1 \<le> m" and "\<And>x. 0 \<le> x \<Longrightarrow> x < m \<Longrightarrow> children (x + delta) = map (\<lambda>k. k + delta) (bin_kids m x)"
  shows "reduce_order children (m - 1 + delta) [delta..m - 1 + delta]"
  using assms
proof (induction "nat m" arbitrary: m delta rule: less_induct)
  case less
  consider (one) "m = 1" | (two) "m = 2" | (more) "3 \<le> m" using less.prems(1) by linarith
  then show ?case
  proof cases
    case one
    then show ?thesis using less.prems(2) [of 0] reduce_order_leaf by (simp add: bin_kids_small)
  next
    case two
    then have "children delta = []" "children (1 + delta) = [delta]"
      using less.prems(2) [of 0] less.prems(2) [of 1] by (simp_all add: bin_kids_small)
    then have "reduce_order children (1 + delta) ([delta] @ [1 + delta])" using reduce_order_one [of children "1 + delta" delta "[delta]"] reduce_order_leaf [of children delta] by simp
    moreover have "[delta..1 + delta] = [delta, 1 + delta]" by (simp add: upto.simps)
    ultimately show ?thesis using two by simp
  next
    case more
    define r where "r = m div 2"
    note h = half_bounds [OF more, folded r_def]
    have right: "reduce_order children (r - 1 + delta) [delta..r - 1 + delta]"
    proof (rule less.hyps)
      show "nat r < nat m" "1 \<le> r" using h by auto
      show "children (x + delta) = map (\<lambda>k. k + delta) (bin_kids r x)" if "0 \<le> x" "x < r" for x
        using less.prems(2) [of x] that h more by (simp add: bin_kids.simps [of m x] r_def)
    qed
    have left: "reduce_order children (m - r - 1 - 1 + (delta + r)) [delta + r..m - r - 1 - 1 + (delta + r)]"
    proof (rule less.hyps)
      show "nat (m - r - 1) < nat m" "1 \<le> m - r - 1" using h by auto
      show "children (x + (delta + r)) = map (\<lambda>k. k + (delta + r)) (bin_kids (m - r - 1) x)" if "0 \<le> x" "x < m - r - 1" for x
      proof -
        have "bin_kids m (x + r) = map (\<lambda>k. k + r) (bin_kids (m - r - 1) x)"
          using that h more by (subst bin_kids.simps) (simp add: r_def)
        then show ?thesis using less.prems(2) [of "x + r"] that h by (simp add: comp_def add_ac)
      qed
    qed
    have "bin_kids m (m - 1) = [m - 2, r - 1]" using more by (subst bin_kids.simps) (simp add: r_def)
    then have "children (m - 1 + delta) = [m - 2 + delta, r - 1 + delta]" using less.prems(2) [of "m - 1"] more by simp
    from reduce_order_two [OF this _ right, of "[delta + r..m - 2 + delta]"] left
    have "reduce_order children (m - 1 + delta) ([delta..r - 1 + delta] @ [delta + r..m - 2 + delta] @ [m - 1 + delta])"
      by (simp add: algebra_simps)
    moreover have "[delta..m - 1 + delta] = [delta..r - 1 + delta] @ [delta + r..m - 2 + delta] @ [m - 1 + delta]"
      using h upto_split1 [of delta "delta + r" "m - 1 + delta"] upto_rec2 [of "delta + r" "m - 1 + delta"] by (simp add: algebra_simps)
    ultimately show ?thesis by simp
  qed
qed

section \<open>Properties\<close>

text \<open>C16: The in-order binary trees that the processes of a communicator build with
  ompi_coll_tuned_topo_build_in_order_bintree form a spanning tree with the last rank as root, and the tree is
  in order: a reduction that combines the operands up this tree takes them in the order of the ranks, as an
  operation that is not commutative requires.\<close>

theorem in_order_bintree_spans_in_order:
  assumes "1 \<le> n" and "tree_block junk"
  shows "views_span n (n - 1) (ompi_coll_tuned_topo_build_in_order_bintree (Ptr junk) n) \<and>
         reduce_order (\<lambda>r. tree_children (tree_of (ompi_coll_tuned_topo_build_in_order_bintree (Ptr junk) n r))) (n - 1) [0..n - 1]"
proof -
  have valid: "bin_valid (junk, n)" using assms by (simp add: bin_valid_def)
  note ok = build_in_order_bintree_ok [OF assms(2)]
  have "\<forall>r \<in> {0..<n}. \<exists>t. ompi_coll_tuned_topo_build_in_order_bintree (Ptr junk) n r = Some (Ptr t) \<and> tree_root t = n - 1"
    using ok by blast
  then have "views_span n (n - 1) (ompi_coll_tuned_topo_build_in_order_bintree (Ptr junk) n)"
    using bin.broadcast_reaches_all [OF valid] by (simp add: views_span_def)
  moreover have "tree_children (tree_of (ompi_coll_tuned_topo_build_in_order_bintree (Ptr junk) n x)) = bin_kids n x" if "0 \<le> x" "x < n" for x
    using ok [of x n] that by (auto simp: tree_of_def)
  then have "reduce_order (\<lambda>r. tree_children (tree_of (ompi_coll_tuned_topo_build_in_order_bintree (Ptr junk) n r))) (n - 1) [0..n - 1]"
    using bin_reduce_order [OF assms(1), of _ 0] by simp
  ultimately show ?thesis ..
qed

theorem in_order_bintree_spans_in_order_witness:
  "views_span 9 8 (ompi_coll_tuned_topo_build_in_order_bintree
     (Ptr \<lparr>tree_root = 0, tree_fanout = 0, tree_bmtree = 0, tree_prev = 0, tree_next = replicate 32 5, tree_nextsize = 0\<rparr>) 9)"
  using in_order_bintree_spans_in_order [of 9
      "\<lparr>tree_root = 0, tree_fanout = 0, tree_bmtree = 0, tree_prev = 0, tree_next = replicate 32 5, tree_nextsize = 0\<rparr>"]
  by (simp add: MAXTREEFANOUT_def tree_block_def)

end
