(* ===== verification/Ob1_Comm.thy ===== *)
theory Ob1_Comm
  imports Opal_Prelude
begin

text \<open>
  The matching engine of the point-to-point layer \<^verbatim>\<open>ompi/mca/pml/ob1\<close>: the state a
  communicator keeps (\<^verbatim>\<open>pml_ob1_comm.c\<close>), the arrival of fragments
  (\<^verbatim>\<open>pml_ob1_recvfrag.c\<close>), the posting and cancelling of receives
  (\<^verbatim>\<open>pml_ob1_recvreq.c\<close>) and the creation of the state of a communicator with the
  fragments that came too early (\<^verbatim>\<open>pml_ob1.c\<close>).

  Fragments may arrive out of order, over several networks. A 16-bit sequence number per sender puts
  them in order; in order, a fragment is matched with the oldest posted receive that accepts its
  source and tag, or kept as unexpected. What happens with a matched pair, the transfer of the data,
  is the event an operation emits. The operations hold the matching lock, so they are taken to run
  one at a time. A communicator is visible to arriving fragments from the end of its creation on.
\<close>

section \<open>Data\<close>

definition OMPI_ANY_SOURCE :: int where [opal_rc]: "OMPI_ANY_SOURCE = - 1"
definition OMPI_ANY_TAG :: int where [opal_rc]: "OMPI_ANY_TAG = - 1"

datatype hdr_kind = HDR_TYPE_MATCH | HDR_TYPE_RNDV | HDR_TYPE_RGET

text \<open>A fragment: the fields of the matching header; the segments and the transport it came from are opaque.\<close>

record 'm recv_frag =
  hdr_type :: hdr_kind
  hdr_ctx :: "16 word"
  hdr_src :: int
  hdr_tag :: int
  hdr_seq :: "16 word"
  frag_segments :: 'm

datatype req_kind = REQUEST_RECV | REQUEST_IPROBE | REQUEST_PROBE | REQUEST_IMPROBE | REQUEST_MPROBE

text \<open>A receive request; its address is \<open>req_id\<close>, its sequence number is set when it is started.\<close>

record recv_request =
  req_id :: nat
  req_type :: req_kind
  req_peer :: int
  req_tag :: int
  req_sequence :: "64 word"

record 'm comm_proc =
  expected_sequence :: "16 word"
  send_sequence :: "32 word"
  frags_cant_match :: "'m recv_frag list"
  specific_receives :: "recv_request list"
  unexpected_frags :: "'m recv_frag list"

record 'm pml_comm =
  recv_sequence :: "32 word"
  wild_receives :: "recv_request list"
  procs :: "'m comm_proc list"
  num_procs :: nat
  last_probed :: nat

text \<open>The layer: the communicators by context, and the fragments that came before their communicator.\<close>

record 'm pml_ob1 =
  comms :: "nat \<rightharpoonup> 'm pml_comm"
  non_existing_communicator_pending :: "'m recv_frag list"

definition OMPI_PML_OB1_MATCH_HDR_LEN :: nat where "OMPI_PML_OB1_MATCH_HDR_LEN = 14"
definition sizeof_common_hdr :: nat where "sizeof_common_hdr = 2"

text \<open>
  What an operation hands on: the progress of a receive with the fragment it matched, the completion of a
  probe, and the completion of a matched probe, which takes the fragment with it.
\<close>

datatype 'm match_event =
    Progress hdr_kind recv_request "'m recv_frag"
  | Matched_probe recv_request "'m recv_frag"
  | Matched_message recv_request "'m recv_frag"

section \<open>Construction\<close>

definition mca_pml_ob1_comm_proc_construct :: "'m comm_proc" where
  "mca_pml_ob1_comm_proc_construct =
     \<lparr>expected_sequence = 1, send_sequence = 0, frags_cant_match = [], specific_receives = [], unexpected_frags = []\<rparr>"

definition mca_pml_ob1_comm_construct :: "'m pml_comm" where
  "mca_pml_ob1_comm_construct = \<lparr>recv_sequence = 0, wild_receives = [], procs = [], num_procs = 0, last_probed = 0\<rparr>"

text \<open>\<open>malloc_ok\<close> is the outcome of the allocation of the array of processes.\<close>

definition mca_pml_ob1_comm_init_size :: "bool \<Rightarrow> 'm pml_comm \<Rightarrow> nat \<Rightarrow> int \<times> 'm pml_comm" where
  "mca_pml_ob1_comm_init_size malloc_ok comm sz =
     (if \<not> malloc_ok then (OPAL_ERR_OUT_OF_RESOURCE, comm)
      else (OPAL_SUCCESS, comm\<lparr>procs := replicate sz mca_pml_ob1_comm_proc_construct, num_procs := sz\<rparr>))"

text \<open>The sequence number of the next message to a process, in the sender.\<close>

definition next_send_sequence :: "'m pml_comm \<Rightarrow> int \<Rightarrow> (16 word \<times> 'm pml_comm) option" where
  "next_send_sequence comm dst = do {
     proc \<leftarrow> aget (procs comm) dst;
     ps \<leftarrow> aset (procs comm) dst (proc\<lparr>send_sequence := send_sequence proc + 1\<rparr>);
     Some (ucast (send_sequence proc + 1), comm\<lparr>procs := ps\<rparr>) }"

section \<open>Matching a fragment with the posted receives\<close>

definition PML_MAX_SEQ :: "64 word" where "PML_MAX_SEQ = - 1"

text \<open>A pointer into a queue of receives is the part of the queue from it on.\<close>

definition posted_seq :: "recv_request list \<Rightarrow> 64 word" where
  "posted_seq queue = (case queue of [] \<Rightarrow> PML_MAX_SEQ | req # _ \<Rightarrow> req_sequence req)"

definition tag_matches :: "int \<Rightarrow> int \<Rightarrow> bool" where
  "tag_matches rtag tag \<longleftrightarrow> rtag = tag \<or> (rtag = OMPI_ANY_TAG \<and> tag \<ge> 0)"

text \<open>
  The loop of \<open>match_incomming\<close> over the two queues, \<open>wdone @ wild\<close> and
  \<open>sdone @ specific\<close>, always at the older of the two receives. The result is the match, if any,
  and the two queues without it.
\<close>

function match_loop ::
    "int \<Rightarrow> recv_request list \<Rightarrow> recv_request list \<Rightarrow> recv_request list \<Rightarrow> recv_request list
     \<Rightarrow> (recv_request option \<times> recv_request list \<times> recv_request list) option" where
  "match_loop tag wdone wild sdone specific =
     (if posted_seq wild = posted_seq specific then Some (None, wdone @ wild, sdone @ specific)
      else if posted_seq wild < posted_seq specific then
        (case wild of
           [] \<Rightarrow> None
         | req # rest \<Rightarrow>
             if tag_matches (req_tag req) tag then Some (Some req, wdone @ rest, sdone @ specific)
             else match_loop tag (wdone @ [req]) rest sdone specific)
      else
        (case specific of
           [] \<Rightarrow> None
         | req # rest \<Rightarrow>
             if tag_matches (req_tag req) tag then Some (Some req, wdone @ wild, sdone @ rest)
             else match_loop tag wdone wild (sdone @ [req]) rest))"
  by pat_completeness auto
termination
  by (relation "measure (\<lambda>(tag, wdone, wild, sdone, specific). length wild + length specific)") auto

declare match_loop.simps [simp del]

definition match_incomming :: "'m recv_frag \<Rightarrow> 'm pml_comm \<Rightarrow> (recv_request option \<times> 'm pml_comm) option" where
  "match_incomming frag comm = do {
     proc \<leftarrow> aget (procs comm) (hdr_src frag);
     (match, wild, specific) \<leftarrow> match_loop (hdr_tag frag) [] (wild_receives comm) [] (specific_receives proc);
     ps \<leftarrow> aset (procs comm) (hdr_src frag) (proc\<lparr>specific_receives := specific\<rparr>);
     Some (match, comm\<lparr>wild_receives := wild, procs := ps\<rparr>) }"

definition append_unexpected :: "'m recv_frag \<Rightarrow> 'm pml_comm \<Rightarrow> 'm pml_comm option" where
  "append_unexpected frag comm = do {
     proc \<leftarrow> aget (procs comm) (hdr_src frag);
     ps \<leftarrow> aset (procs comm) (hdr_src frag) (proc\<lparr>unexpected_frags := unexpected_frags proc @ [frag]\<rparr>);
     Some (comm\<lparr>procs := ps\<rparr>) }"

text \<open>The loop of \<open>match_one\<close>: probes are completed until a receive takes the fragment.\<close>

partial_function (option) match_one ::
    "'m recv_frag \<Rightarrow> 'm pml_comm \<Rightarrow> 'm match_event list \<Rightarrow> (recv_request option \<times> 'm pml_comm \<times> 'm match_event list) option" where
  "match_one frag comm evs = do {
     (match, comm) \<leftarrow> match_incomming frag comm;
     (case match of
        Some req \<Rightarrow>
          if req_type req = REQUEST_PROBE then match_one frag comm (evs @ [Matched_probe req frag])
          else if req_type req = REQUEST_MPROBE then Some (None, comm, evs @ [Matched_message req frag])
          else Some (Some req, comm, evs)
      | None \<Rightarrow> do {
          comm \<leftarrow> append_unexpected frag comm;
          Some (None, comm, evs) }) }"

section \<open>Arrival of a fragment\<close>

text \<open>The first fragment of the out-of-order queue with the expected number, and the queue without it.\<close>

fun take_expected :: "16 word \<Rightarrow> 'm recv_frag list \<Rightarrow> ('m recv_frag \<times> 'm recv_frag list) option" where
  "take_expected expected [] = None"
| "take_expected expected (frag # frags) =
     (if hdr_seq frag \<noteq> expected then map_option (\<lambda>(f, fs). (f, frag # fs)) (take_expected expected frags)
      else Some (frag, frags))"

definition check_cantmatch_for_match :: "'m comm_proc \<Rightarrow> ('m recv_frag \<times> 'm comm_proc) option" where
  "check_cantmatch_for_match proc =
     map_option (\<lambda>(frag, frags). (frag, proc\<lparr>frags_cant_match := frags\<rparr>)) (take_expected (expected_sequence proc) (frags_cant_match proc))"

definition expect_next :: "int \<Rightarrow> 'm pml_comm \<Rightarrow> 'm pml_comm option" where
  "expect_next src comm = do {
     proc \<leftarrow> aget (procs comm) src;
     ps \<leftarrow> aset (procs comm) src (proc\<lparr>expected_sequence := expected_sequence proc + 1\<rparr>);
     Some (comm\<lparr>procs := ps\<rparr>) }"

text \<open>From the label \<open>out_of_order_match\<close> on: match the fragment, then the ones that waited for it.\<close>

partial_function (option) out_of_order_match ::
    "hdr_kind \<Rightarrow> 'm recv_frag \<Rightarrow> 'm pml_comm \<Rightarrow> 'm match_event list \<Rightarrow> ('m pml_comm \<times> 'm match_event list) option" where
  "out_of_order_match type frag comm evs = do {
     comm \<leftarrow> expect_next (hdr_src frag) comm;
     (match, comm, evs) \<leftarrow> match_one frag comm evs;
     let evs = (case match of Some req \<Rightarrow> evs @ [Progress type req frag] | None \<Rightarrow> evs);
     proc \<leftarrow> aget (procs comm) (hdr_src frag);
     (if length (frags_cant_match proc) > 0 then
        (case check_cantmatch_for_match proc of
           Some (frag', proc) \<Rightarrow> do {
             ps \<leftarrow> aset (procs comm) (hdr_src frag) proc;
             out_of_order_match (hdr_type frag') frag' (comm\<lparr>procs := ps\<rparr>) evs }
         | None \<Rightarrow> Some (comm, evs))
      else Some (comm, evs)) }"

definition append_cant_match :: "'m recv_frag \<Rightarrow> 'm pml_comm \<Rightarrow> 'm pml_comm option" where
  "append_cant_match frag comm = do {
     proc \<leftarrow> aget (procs comm) (hdr_src frag);
     ps \<leftarrow> aset (procs comm) (hdr_src frag) (proc\<lparr>frags_cant_match := frags_cant_match proc @ [frag]\<rparr>);
     Some (comm\<lparr>procs := ps\<rparr>) }"

text \<open>The part of \<open>recv_frag_match\<close> after the look-up of the communicator.\<close>

definition match_in_comm :: "hdr_kind \<Rightarrow> 'm recv_frag \<Rightarrow> 'm pml_comm \<Rightarrow> ('m pml_comm \<times> 'm match_event list) option" where
  "match_in_comm type frag comm = do {
     proc \<leftarrow> aget (procs comm) (hdr_src frag);
     (if hdr_seq frag \<noteq> expected_sequence proc
      then do { comm \<leftarrow> append_cant_match frag comm; Some (comm, []) }
      else out_of_order_match type frag comm []) }"

definition append_pending :: "'m recv_frag \<Rightarrow> 'm pml_ob1 \<Rightarrow> 'm pml_ob1" where
  "append_pending frag pml =
     pml\<lparr>non_existing_communicator_pending := non_existing_communicator_pending pml @ [frag]\<rparr>"

definition set_comm :: "nat \<Rightarrow> 'm pml_comm \<Rightarrow> 'm pml_ob1 \<Rightarrow> 'm pml_ob1" where
  "set_comm ctx comm pml = pml\<lparr>comms := (comms pml)(ctx \<mapsto> comm)\<rparr>"

definition mca_pml_ob1_recv_frag_match :: "hdr_kind \<Rightarrow> 'm recv_frag \<Rightarrow> 'm pml_ob1 \<Rightarrow> ('m pml_ob1 \<times> 'm match_event list) option" where
  "mca_pml_ob1_recv_frag_match type frag pml =
     (case comms pml (unat (hdr_ctx frag)) of
        None \<Rightarrow> Some (append_pending frag pml, [])
      | Some comm \<Rightarrow> do {
          (comm, evs) \<leftarrow> match_in_comm type frag comm;
          Some (set_comm (unat (hdr_ctx frag)) comm pml, evs) })"

section \<open>Completion of a short message, and the callback for short messages\<close>

text \<open>
  A short message is all in its fragment: \<open>segments\<close> gives the bytes of the segments, the header first.
  \<open>bytes_expected\<close> is the size of the receive buffer, prepared when the request was started (as in a
  build without heterogeneous support), and
  \<open>unpack\<close> is \<^verbatim>\<open>opal_convertor_unpack\<close>: for a request and the pieces of the message, the
  number of bytes unpacked and the bytes that went to the user's buffer. A request is completed with a
  status and these bytes; the user has not freed it before.
\<close>

definition MPI_ERR_TRUNCATE :: int where [opal_rc]: "MPI_ERR_TRUNCATE = 15"

record recv_status =
  status_source :: int
  status_tag :: int
  status_ucount :: nat
  status_error :: int

datatype 'm outcome = Handed "'m match_event" | Completed recv_request recv_status "8 word list"

definition recv_request_pml_complete :: "nat \<Rightarrow> nat \<Rightarrow> nat \<Rightarrow> 'm recv_frag \<Rightarrow> recv_status" where
  "recv_request_pml_complete bytes_expected bytes_packed bytes_received frag =
     (let status = \<lparr>status_source = hdr_src frag, status_tag = hdr_tag frag, status_ucount = bytes_received, status_error = MPI_SUCCESS\<rparr> in
      if bytes_packed > bytes_expected then status\<lparr>status_ucount := bytes_packed, status_error := MPI_ERR_TRUNCATE\<rparr> else status)"

definition mca_pml_ob1_compute_segment_length_base :: "8 word list list \<Rightarrow> nat \<Rightarrow> nat" where
  "mca_pml_ob1_compute_segment_length_base segs hdrlen = sum_list (map length segs) - hdrlen"

text \<open>The pieces that \<^verbatim>\<open>MCA_PML_OB1_RECV_REQUEST_UNPACK\<close> hands to the convertor.\<close>

fun unpack_iov :: "nat \<Rightarrow> 8 word list list \<Rightarrow> 8 word list list" where
  "unpack_iov offset [] = []"
| "unpack_iov offset (seg # segs) =
     (if offset \<ge> length seg then unpack_iov (offset - length seg) segs else drop offset seg # unpack_iov 0 segs)"

definition mca_pml_ob1_recv_request_progress_match ::
    "(recv_request \<Rightarrow> nat) \<Rightarrow> (recv_request \<Rightarrow> 8 word list list \<Rightarrow> nat \<times> 8 word list) \<Rightarrow> 8 word list list \<Rightarrow> recv_request \<Rightarrow> 'm recv_frag \<Rightarrow> 'm outcome" where
  "mca_pml_ob1_recv_request_progress_match bytes_expected unpack segs recvreq frag =
     (let bytes_received = mca_pml_ob1_compute_segment_length_base segs OMPI_PML_OB1_MATCH_HDR_LEN;
          bytes_packed = bytes_received;
          delivered = (if bytes_packed > 0 then snd (unpack recvreq (unpack_iov OMPI_PML_OB1_MATCH_HDR_LEN segs)) else [])
      in Completed recvreq (recv_request_pml_complete (bytes_expected recvreq) bytes_packed (0 + bytes_received) frag) delivered)"

text \<open>The general routine completes the receives of short messages with it; other events are handed on.\<close>

fun progress_event ::
    "(recv_request \<Rightarrow> nat) \<Rightarrow> (recv_request \<Rightarrow> 8 word list list \<Rightarrow> nat \<times> 8 word list) \<Rightarrow> ('m \<Rightarrow> 8 word list list) \<Rightarrow> 'm match_event \<Rightarrow> 'm outcome" where
  "progress_event bytes_expected unpack segments (Progress HDR_TYPE_MATCH req frag) =
     mca_pml_ob1_recv_request_progress_match bytes_expected unpack (segments (frag_segments frag)) req frag"
| "progress_event bytes_expected unpack segments ev = Handed ev"

text \<open>The fast path has a completion of its own: the length of the first segment counts as the length of the message.\<close>

definition complete_inline ::
    "(recv_request \<Rightarrow> nat) \<Rightarrow> (recv_request \<Rightarrow> 8 word list list \<Rightarrow> nat \<times> 8 word list) \<Rightarrow> 8 word list \<Rightarrow> 8 word list list \<Rightarrow> recv_request \<Rightarrow> 'm recv_frag \<Rightarrow> 'm outcome" where
  "complete_inline bytes_expected unpack seg segs match frag =
     (let bytes_packed = length seg - OMPI_PML_OB1_MATCH_HDR_LEN;
          (bytes_received, delivered) =
            (if bytes_expected match > 0 then unpack match (drop OMPI_PML_OB1_MATCH_HDR_LEN seg # segs) else (0, []))
      in Completed match (recv_request_pml_complete (bytes_expected match) bytes_packed bytes_received frag) delivered)"

text \<open>The callback: a fast path when nothing is out of order. A descriptor has at least one segment.\<close>

definition mca_pml_ob1_recv_frag_callback_match ::
    "(recv_request \<Rightarrow> nat) \<Rightarrow> (recv_request \<Rightarrow> 8 word list list \<Rightarrow> nat \<times> 8 word list) \<Rightarrow> ('m \<Rightarrow> 8 word list list)
     \<Rightarrow> 'm recv_frag \<Rightarrow> 'm pml_ob1 \<Rightarrow> ('m pml_ob1 \<times> 'm outcome list) option" where
  "mca_pml_ob1_recv_frag_callback_match bytes_expected unpack segments frag pml =
     (case segments (frag_segments frag) of
        [] \<Rightarrow> None
      | seg # segs \<Rightarrow>
          if length seg < OMPI_PML_OB1_MATCH_HDR_LEN then Some (pml, [])
          else
            (case comms pml (unat (hdr_ctx frag)) of
               None \<Rightarrow> Some (append_pending frag pml, [])
             | Some comm \<Rightarrow> do {
                 proc \<leftarrow> aget (procs comm) (hdr_src frag);
                 (if hdr_seq frag \<noteq> expected_sequence proc \<or> length (frags_cant_match proc) > 0
                  then do {
                    (pml, evs) \<leftarrow> mca_pml_ob1_recv_frag_match HDR_TYPE_MATCH frag pml;
                    Some (pml, map (progress_event bytes_expected unpack segments) evs) }
                  else do {
                    comm \<leftarrow> expect_next (hdr_src frag) comm;
                    (match, comm, evs) \<leftarrow> match_one frag comm [];
                    Some (set_comm (unat (hdr_ctx frag)) comm pml,
                      map Handed evs @ (case match of Some req \<Rightarrow> [complete_inline bytes_expected unpack seg segs req frag] | None \<Rightarrow> [])) }) }))"

definition mca_pml_ob1_recv_frag_callback_rndv :: "nat \<Rightarrow> 'm recv_frag \<Rightarrow> 'm pml_ob1 \<Rightarrow> ('m pml_ob1 \<times> 'm match_event list) option" where
  "mca_pml_ob1_recv_frag_callback_rndv seg_len frag pml =
     (if seg_len < sizeof_common_hdr then Some (pml, []) else mca_pml_ob1_recv_frag_match HDR_TYPE_RNDV frag pml)"

definition mca_pml_ob1_recv_frag_callback_rget :: "nat \<Rightarrow> 'm recv_frag \<Rightarrow> 'm pml_ob1 \<Rightarrow> ('m pml_ob1 \<times> 'm match_event list) option" where
  "mca_pml_ob1_recv_frag_callback_rget seg_len frag pml =
     (if seg_len < sizeof_common_hdr then Some (pml, []) else mca_pml_ob1_recv_frag_match HDR_TYPE_RGET frag pml)"

section \<open>Posting a receive\<close>

text \<open>The oldest unexpected fragment of a process with a tag the request takes, as its position in the queue.\<close>

definition frag_tag_ok :: "recv_request \<Rightarrow> 'm recv_frag \<Rightarrow> bool" where
  "frag_tag_ok req frag \<longleftrightarrow> (if OMPI_ANY_TAG = req_tag req then hdr_tag frag \<ge> 0 else hdr_tag frag = req_tag req)"

fun search_frags :: "recv_request \<Rightarrow> 'm recv_frag list \<Rightarrow> nat \<Rightarrow> nat option" where
  "search_frags req [] i = None"
| "search_frags req (frag # frags) i = (if frag_tag_ok req frag then Some i else search_frags req frags (Suc i))"

definition recv_req_match_specific_proc :: "recv_request \<Rightarrow> 'm comm_proc \<Rightarrow> nat option" where
  "recv_req_match_specific_proc req proc =
     (if length (unexpected_frags proc) = 0 then None else search_frags req (unexpected_frags proc) 0)"

text \<open>A loop over the processes with the given ranks: the first one with a fragment for the request.\<close>

primrec match_any_proc :: "recv_request \<Rightarrow> 'm comm_proc list \<Rightarrow> nat list \<Rightarrow> (nat \<times> nat) option option" where
  "match_any_proc req ps [] = Some None"
| "match_any_proc req ps (i # is) = do {
     proc \<leftarrow> aget ps (int i);
     (case recv_req_match_specific_proc req proc of
        Some j \<Rightarrow> Some (Some (i, j))
      | None \<Rightarrow> match_any_proc req ps is) }"

text \<open>Round robin, from the process after the last one that had a match; also the new \<open>last_probed\<close>.\<close>

definition recv_req_match_wild :: "recv_request \<Rightarrow> 'm pml_comm \<Rightarrow> ((nat \<times> nat) option \<times> 'm pml_comm) option" where
  "recv_req_match_wild req comm = do {
     r \<leftarrow> match_any_proc req (procs comm) [last_probed comm + 1..<num_procs comm];
     (case r of
        Some (i, j) \<Rightarrow> Some (Some (i, j), comm\<lparr>last_probed := i\<rparr>)
      | None \<Rightarrow> do {
          r \<leftarrow> match_any_proc req (procs comm) [0..<last_probed comm + 1];
          (case r of
             Some (i, j) \<Rightarrow> Some (Some (i, j), comm\<lparr>last_probed := i\<rparr>)
           | None \<Rightarrow> Some (None, comm)) }) }"

definition find_unexpected :: "recv_request \<Rightarrow> 'm pml_comm \<Rightarrow> ((nat \<times> nat) option \<times> 'm pml_comm) option" where
  "find_unexpected req comm =
     (if req_peer req = OMPI_ANY_SOURCE then recv_req_match_wild req comm
      else do {
        proc \<leftarrow> aget (procs comm) (req_peer req);
        Some (map_option (\<lambda>j. (nat (req_peer req), j)) (recv_req_match_specific_proc req proc), comm) })"

definition IS_PROB_REQ :: "recv_request \<Rightarrow> bool" where
  "IS_PROB_REQ req \<longleftrightarrow> req_type req \<in> {REQUEST_IPROBE, REQUEST_PROBE, REQUEST_IMPROBE, REQUEST_MPROBE}"

definition IS_MPROB_REQ :: "recv_request \<Rightarrow> bool" where
  "IS_MPROB_REQ req \<longleftrightarrow> req_type req \<in> {REQUEST_IMPROBE, REQUEST_MPROBE}"

definition append_recv_req_to_queue :: "recv_request list \<Rightarrow> recv_request \<Rightarrow> recv_request list" where
  "append_recv_req_to_queue queue req =
     (if req_type req = REQUEST_IPROBE \<or> req_type req = REQUEST_IMPROBE then queue else queue @ [req])"

text \<open>No match: the request is recorded in the queue of its peer or in the queue of wild receives.\<close>

definition post_request :: "recv_request \<Rightarrow> 'm pml_comm \<Rightarrow> 'm pml_comm option" where
  "post_request req comm =
     (if req_peer req = OMPI_ANY_SOURCE then Some (comm\<lparr>wild_receives := append_recv_req_to_queue (wild_receives comm) req\<rparr>)
      else do {
        proc \<leftarrow> aget (procs comm) (req_peer req);
        ps \<leftarrow> aset (procs comm) (req_peer req) (proc\<lparr>specific_receives := append_recv_req_to_queue (specific_receives proc) req\<rparr>);
        Some (comm\<lparr>procs := ps\<rparr>) })"

text \<open>A match with fragment \<open>j\<close> of process \<open>i\<close>: a probe leaves it in the queue.\<close>

definition take_unexpected :: "recv_request \<Rightarrow> nat \<Rightarrow> nat \<Rightarrow> 'm pml_comm \<Rightarrow> ('m pml_comm \<times> 'm match_event list) option" where
  "take_unexpected req i j comm = do {
     proc \<leftarrow> aget (procs comm) (int i);
     frag \<leftarrow> aget (unexpected_frags proc) (int j);
     ps \<leftarrow> aset (procs comm) (int i)
             (proc\<lparr>unexpected_frags := take j (unexpected_frags proc) @ drop (Suc j) (unexpected_frags proc)\<rparr>);
     Some (if \<not> IS_PROB_REQ req then (comm\<lparr>procs := ps\<rparr>, [Progress (hdr_type frag) req frag])
           else if IS_MPROB_REQ req then (comm\<lparr>procs := ps\<rparr>, [Matched_message req frag])
           else (comm, [Matched_probe req frag])) }"

definition mca_pml_ob1_recv_req_start :: "recv_request \<Rightarrow> 'm pml_comm \<Rightarrow> ('m pml_comm \<times> 'm match_event list) option" where
  "mca_pml_ob1_recv_req_start req comm = do {
     let req = req\<lparr>req_sequence := ucast (recv_sequence comm)\<rparr>;
     let comm = comm\<lparr>recv_sequence := recv_sequence comm + 1\<rparr>;
     (found, comm) \<leftarrow> find_unexpected req comm;
     (case found of
        None \<Rightarrow> do { comm \<leftarrow> post_request req comm; Some (comm, []) }
      | Some (i, j) \<Rightarrow> take_unexpected req i j comm) }"

text \<open>
  \<open>opal_list_remove_item\<close> unlinks the item it is given and decrements the length of the list, whether
  the item is on the list or not (in a build without debugging). It removes the request from a queue that holds it; on another queue the
  length no longer agrees with the links, which has no meaning here.
\<close>

fun opal_list_remove_item :: "recv_request list \<Rightarrow> recv_request \<Rightarrow> recv_request list option" where
  "opal_list_remove_item [] item = None"
| "opal_list_remove_item (req # reqs) item =
     (if req_id req = req_id item then Some reqs else map_option ((#) req) (opal_list_remove_item reqs item))"

text \<open>
  Cancelling a receive: whether its status says cancelled, and the communicator without it.
  \<open>match_received\<close> is the flag \<^verbatim>\<open>req_match_received\<close> of the request, set when it is matched.
\<close>

definition mca_pml_ob1_recv_request_cancel :: "bool \<Rightarrow> recv_request \<Rightarrow> 'm pml_comm \<Rightarrow> (bool \<times> 'm pml_comm) option" where
  "mca_pml_ob1_recv_request_cancel match_received req comm =
     (if match_received then Some (False, comm)
      else if req_peer req = OMPI_ANY_SOURCE then do {
        wild \<leftarrow> opal_list_remove_item (wild_receives comm) req;
        Some (True, comm\<lparr>wild_receives := wild\<rparr>) }
      else do {
        proc \<leftarrow> aget (procs comm) (req_peer req);
        specific \<leftarrow> opal_list_remove_item (specific_receives proc) req;
        ps \<leftarrow> aset (procs comm) (req_peer req) (proc\<lparr>specific_receives := specific\<rparr>);
        Some (True, comm\<lparr>procs := ps\<rparr>) })"

section \<open>A new communicator\<close>

text \<open>
  \<open>add_comm\<close> after the allocation: the fragments for the communicator leave the pending queue of the
  layer and go to the unexpected or the out-of-order queue of their sender.
\<close>

partial_function (option) add_fragment_to_unexpected :: "'m recv_frag \<Rightarrow> 'm pml_comm \<Rightarrow> 'm pml_comm option" where
  "add_fragment_to_unexpected frag comm = do {
     proc \<leftarrow> aget (procs comm) (hdr_src frag);
     (if hdr_seq frag = expected_sequence proc then do {
        let proc = proc\<lparr>expected_sequence := expected_sequence proc + 1, unexpected_frags := unexpected_frags proc @ [frag]\<rparr>;
        (case check_cantmatch_for_match proc of
           Some (frag', proc) \<Rightarrow> do {
             ps \<leftarrow> aset (procs comm) (hdr_src frag) proc;
             add_fragment_to_unexpected frag' (comm\<lparr>procs := ps\<rparr>) }
         | None \<Rightarrow> do {
             ps \<leftarrow> aset (procs comm) (hdr_src frag) proc;
             Some (comm\<lparr>procs := ps\<rparr>) }) }
      else append_cant_match frag comm) }"

text \<open>
  The whole function: \<open>new_ok\<close> and \<open>malloc_ok\<close> are the outcomes of the allocations. The result
  of \<open>init_size\<close> is not tested, so after a failed allocation the loop over the processes follows the
  null pointer.
\<close>

definition mca_pml_ob1_add_comm ::
    "bool \<Rightarrow> bool \<Rightarrow> nat \<Rightarrow> nat \<Rightarrow> nat \<Rightarrow> 'm pml_ob1 \<Rightarrow> (int \<times> 'm pml_ob1) option" where
  "mca_pml_ob1_add_comm new_ok malloc_ok max_contextid contextid proc_count pml =
     (if \<not> new_ok \<or> contextid > max_contextid then Some (OPAL_ERR_OUT_OF_RESOURCE, pml)
      else do {
        let comm = snd (mca_pml_ob1_comm_init_size malloc_ok mca_pml_ob1_comm_construct proc_count);
        let pending = non_existing_communicator_pending pml;
        (if proc_count > length (procs comm) then None
         else do {
           comm \<leftarrow> mfold add_fragment_to_unexpected (filter (\<lambda>f. unat (hdr_ctx f) = contextid) pending) comm;
           Some (OPAL_SUCCESS, (set_comm contextid comm pml)
             \<lparr>non_existing_communicator_pending := filter (\<lambda>f. unat (hdr_ctx f) \<noteq> contextid) pending\<rparr>) }) })"

text \<open>Releasing the processes follows the pointers of the array; the queues go with the communicator.\<close>

definition mca_pml_ob1_del_comm :: "nat \<Rightarrow> nat \<Rightarrow> 'm pml_ob1 \<Rightarrow> (int \<times> 'm pml_ob1) option" where
  "mca_pml_ob1_del_comm contextid proc_count pml = do {
     comm \<leftarrow> comms pml contextid;
     (if proc_count > length (procs comm) then None
      else Some (OPAL_SUCCESS, pml\<lparr>comms := (comms pml)(contextid := None)\<rparr>)) }"

end
