(* ===== verification/Ob1_Match.thy ===== *)
theory Ob1_Match
  imports Ob1_Comm
begin

text \<open>
  Matching against a single queue. The engine keeps the posted receives in one queue per sender and
  one for the wild receives, and finds the oldest match by comparing sequence numbers. Here this is
  shown to be matching against one queue in the order of posting: \<open>set_queues posted c\<close> is the
  state \<open>c\<close> with the queues that represent \<open>posted\<close>, and \<open>spec_offer\<close> offers a
  fragment to the receives of the single queue, one after the other.
\<close>

definition accepts :: "recv_request \<Rightarrow> 'm recv_frag \<Rightarrow> bool" where
  "accepts req frag \<longleftrightarrow> (req_peer req = OMPI_ANY_SOURCE \<or> req_peer req = hdr_src frag) \<and> tag_matches (req_tag req) (hdr_tag frag)"

text \<open>What is left of the queue, the completed probes, the receive that takes the fragment, and whether it stays unexpected.\<close>

fun spec_offer ::
    "'m recv_frag \<Rightarrow> recv_request list \<Rightarrow> recv_request list \<times> 'm match_event list \<times> recv_request option \<times> bool" where
  "spec_offer frag [] = ([], [], None, True)"
| "spec_offer frag (req # reqs) =
     (if accepts req frag then
        if req_type req = REQUEST_PROBE then
          (case spec_offer frag reqs of (q, evs, m, u) \<Rightarrow> (q, Matched_probe req frag # evs, m, u))
        else if req_type req = REQUEST_MPROBE then (reqs, [Matched_message req frag], None, False)
        else (reqs, [], Some req, False)
      else (case spec_offer frag reqs of (q, evs, m, u) \<Rightarrow> (req # q, evs, m, u)))"

fun take_first :: "('a \<Rightarrow> bool) \<Rightarrow> 'a list \<Rightarrow> ('a \<times> 'a list) option" where
  "take_first P [] = None"
| "take_first P (x # xs) = (if P x then Some (x, xs) else map_option (\<lambda>(y, ys). (y, x # ys)) (take_first P xs))"

lemma take_first_Some:
  "take_first P xs = Some (y, ys) \<Longrightarrow> \<exists>us vs. xs = us @ y # vs \<and> ys = us @ vs \<and> P y \<and> (\<forall>u \<in> set us. \<not> P u)"
proof (induction xs arbitrary: ys)
  case (Cons x xs)
  show ?case
  proof (cases "P x")
    case True
    with Cons.prems show ?thesis by (intro exI [of _ "[]"] exI [of _ xs]) auto
  next
    case False
    then obtain zs where z: "take_first P xs = Some (y, zs)" "ys = x # zs" using Cons.prems by auto
    then obtain us vs where "xs = us @ y # vs \<and> zs = us @ vs \<and> P y \<and> (\<forall>u \<in> set us. \<not> P u)" using Cons.IH by blast
    with z False show ?thesis by (intro exI [of _ "x # us"] exI [of _ vs]) auto
  qed
qed simp

lemma take_first_None: "take_first P xs = None \<longleftrightarrow> (\<forall>x \<in> set xs. \<not> P x)"
  by (induction xs) auto

section \<open>The two queues\<close>

definition posted_ok :: "nat \<Rightarrow> recv_request list \<Rightarrow> bool" where
  "posted_ok n posted \<longleftrightarrow> sorted_wrt (\<lambda>a b. req_sequence a < req_sequence b) posted \<and>
     (\<forall>r \<in> set posted. req_sequence r < PML_MAX_SEQ \<and> (req_peer r = OMPI_ANY_SOURCE \<or> 0 \<le> req_peer r \<and> req_peer r < int n) \<and>
        req_type r \<in> {REQUEST_RECV, REQUEST_PROBE, REQUEST_MPROBE})"

definition wild_of :: "recv_request list \<Rightarrow> recv_request list" where
  "wild_of posted = filter (\<lambda>r. req_peer r = OMPI_ANY_SOURCE) posted"

definition specific_of :: "nat \<Rightarrow> recv_request list \<Rightarrow> recv_request list" where
  "specific_of i posted = filter (\<lambda>r. req_peer r = int i) posted"

definition set_queues :: "recv_request list \<Rightarrow> 'm pml_comm \<Rightarrow> 'm pml_comm" where
  "set_queues posted c = c\<lparr>wild_receives := wild_of posted,
     procs := map (\<lambda>i. (procs c ! i)\<lparr>specific_receives := specific_of i posted\<rparr>) [0..<length (procs c)]\<rparr>"

lemma posted_seq_filter:
  assumes "\<forall>r \<in> set rs. s < req_sequence r" and "s < PML_MAX_SEQ"
  shows "s < posted_seq (filter P rs)"
proof (cases "filter P rs")
  case (Cons r rest)
  then have "r \<in> set (filter P rs)" by simp
  then have "r \<in> set rs" by simp
  with assms(1) Cons show ?thesis by (simp add: posted_seq_def)
qed (use assms(2) in \<open>simp add: posted_seq_def\<close>)

lemma match_loop_wild:
  "posted_seq (r # W) < posted_seq S \<Longrightarrow> match_loop tag wd (r # W) sd S =
     (if tag_matches (req_tag r) tag then Some (Some r, wd @ W, sd @ S) else match_loop tag (wd @ [r]) W sd S)"
  by (auto simp: match_loop.simps [of tag wd "r # W"])

lemma match_loop_specific:
  "posted_seq (r # S) < posted_seq W \<Longrightarrow> match_loop tag wd W sd (r # S) =
     (if tag_matches (req_tag r) tag then Some (Some r, wd @ W, sd @ S) else match_loop tag wd W (sd @ [r]) S)"
  by (auto simp: match_loop.simps [of tag wd W sd "r # S"])

text \<open>The loop visits the receives of both queues in the order of posting.\<close>

lemma match_loop_spec:
  assumes "sorted_wrt (\<lambda>a b. req_sequence a < req_sequence b) ps" and "\<forall>r \<in> set ps. req_sequence r < PML_MAX_SEQ"
  shows "match_loop tag wd (wild_of ps) sd (specific_of i ps) =
    Some (case take_first (\<lambda>r. (req_peer r = OMPI_ANY_SOURCE \<or> req_peer r = int i) \<and> tag_matches (req_tag r) tag) ps of
            None \<Rightarrow> (None, wd @ wild_of ps, sd @ specific_of i ps)
          | Some (r, ps') \<Rightarrow> (Some r, wd @ wild_of ps', sd @ specific_of i ps'))"
  using assms
proof (induction ps arbitrary: wd sd)
  case Nil
  then show ?case by (simp add: match_loop.simps wild_of_def specific_of_def)
next
  case (Cons r ps)
  have later: "req_sequence r < posted_seq (filter P ps)" for P
    using posted_seq_filter [of ps "req_sequence r" P] Cons.prems by auto
  have IH: "match_loop tag wd' (wild_of ps) sd' (specific_of i ps) =
    Some (case take_first (\<lambda>r. (req_peer r = OMPI_ANY_SOURCE \<or> req_peer r = int i) \<and> tag_matches (req_tag r) tag) ps of
            None \<Rightarrow> (None, wd' @ wild_of ps, sd' @ specific_of i ps)
          | Some (r, ps') \<Rightarrow> (Some r, wd' @ wild_of ps', sd' @ specific_of i ps'))" for wd' sd'
    using Cons.IH Cons.prems by simp
  consider (wild) "req_peer r = OMPI_ANY_SOURCE" | (spec) "req_peer r = int i" | (other) "req_peer r \<noteq> OMPI_ANY_SOURCE" "req_peer r \<noteq> int i"
    by blast
  then show ?case
  proof cases
    case wild
    then have ne: "req_peer r \<noteq> int i" by (simp add: OMPI_ANY_SOURCE_def)
    then have q: "wild_of (r # qs) = r # wild_of qs" "specific_of i (r # qs) = specific_of i qs" for qs
      using wild by (simp_all add: wild_of_def specific_of_def)
    have "posted_seq (r # wild_of ps) < posted_seq (specific_of i ps)" using later by (simp add: posted_seq_def specific_of_def)
    from match_loop_wild [OF this] show ?thesis using wild IH by (auto simp: q split: option.splits)
  next
    case spec
    then have ne: "req_peer r \<noteq> OMPI_ANY_SOURCE" by (simp add: OMPI_ANY_SOURCE_def)
    then have q: "wild_of (r # qs) = wild_of qs" "specific_of i (r # qs) = r # specific_of i qs" for qs
      using spec by (simp_all add: wild_of_def specific_of_def)
    have "posted_seq (r # specific_of i ps) < posted_seq (wild_of ps)" using later by (simp add: posted_seq_def wild_of_def)
    from match_loop_specific [OF this] show ?thesis using spec IH by (auto simp: q split: option.splits)
  next
    case other
    then have "wild_of (r # qs) = wild_of qs" "specific_of i (r # qs) = specific_of i qs" for qs
      by (simp_all add: wild_of_def specific_of_def)
    with other IH show ?thesis by (auto split: option.splits)
  qed
qed

section \<open>Changing one process of the state\<close>

definition upd_proc :: "nat \<Rightarrow> ('m comm_proc \<Rightarrow> 'm comm_proc) \<Rightarrow> 'm pml_comm \<Rightarrow> 'm pml_comm" where
  "upd_proc p g c = c\<lparr>procs := (procs c)[p := g (procs c ! p)]\<rparr>"

lemma upd_proc_sel [simp]:
  "procs (upd_proc p g c) = (procs c)[p := g (procs c ! p)]" "wild_receives (upd_proc p g c) = wild_receives c"
  "recv_sequence (upd_proc p g c) = recv_sequence c" "num_procs (upd_proc p g c) = num_procs c" "last_probed (upd_proc p g c) = last_probed c"
  by (simp_all add: upd_proc_def)

lemma set_queues_sel [simp]:
  "wild_receives (set_queues posted c) = wild_of posted" "recv_sequence (set_queues posted c) = recv_sequence c"
  "num_procs (set_queues posted c) = num_procs c" "last_probed (set_queues posted c) = last_probed c"
  "length (procs (set_queues posted c)) = length (procs c)"
  "i < length (procs c) \<Longrightarrow> procs (set_queues posted c) ! i = (procs c ! i)\<lparr>specific_receives := specific_of i posted\<rparr>"
  by (simp_all add: set_queues_def)

lemma pml_comm_eqI:
  fixes a b :: "'m pml_comm"
  assumes "recv_sequence a = recv_sequence b" and "wild_receives a = wild_receives b" and "num_procs a = num_procs b"
    and "last_probed a = last_probed b" and "length (procs a) = length (procs b)"
    and "\<And>i. i < length (procs a) \<Longrightarrow> procs a ! i = procs b ! i"
  shows "a = b"
proof -
  have "procs a = procs b" using assms(5,6) by (intro nth_equalityI) simp_all
  with assms(1-4) show ?thesis by simp
qed

lemma set_queues_upd:
  assumes "\<And>x s. g (x\<lparr>specific_receives := s\<rparr>) = (g x)\<lparr>specific_receives := s\<rparr>"
  shows "upd_proc p g (set_queues posted c) = set_queues posted (upd_proc p g c)"
proof (rule pml_comm_eqI)
  fix i assume "i < length (procs (upd_proc p g (set_queues posted c)))"
  then show "procs (upd_proc p g (set_queues posted c)) ! i = procs (set_queues posted (upd_proc p g c)) ! i"
    using assms by (cases "i = p") simp_all
qed simp_all

lemma set_queues_idem [simp]: "set_queues q (set_queues q' c) = set_queues q c"
  by (rule pml_comm_eqI) simp_all

section \<open>One fragment\<close>

lemma match_incomming_spec:
  assumes "posted_ok n posted" and "hdr_src frag = int p" and "p < length (procs c)"
  shows "match_incomming frag (set_queues posted c) =
    Some (case take_first (\<lambda>r. accepts r frag) posted of
            None \<Rightarrow> (None, set_queues posted c)
          | Some (r, posted') \<Rightarrow> (Some r, set_queues posted' c))"
proof -
  let ?c = "set_queues posted c"
  have acc: "(\<lambda>r. (req_peer r = OMPI_ANY_SOURCE \<or> req_peer r = int p) \<and> tag_matches (req_tag r) (hdr_tag frag)) = (\<lambda>r. accepts r frag)"
    using assms(2) by (simp add: accepts_def)
  have loop: "match_loop (hdr_tag frag) [] (wild_of posted) [] (specific_of p posted) =
    Some (case take_first (\<lambda>r. accepts r frag) posted of
            None \<Rightarrow> (None, wild_of posted, specific_of p posted) | Some (r, ps) \<Rightarrow> (Some r, wild_of ps, specific_of p ps))"
    using match_loop_spec [of posted "hdr_tag frag" "[]" "[]" p] assms(1) by (simp add: acc posted_ok_def split: option.splits)
  have run: "match_incomming frag ?c =
    Some (case take_first (\<lambda>r. accepts r frag) posted of
            None \<Rightarrow> (None, upd_proc p (\<lambda>x. x\<lparr>specific_receives := specific_of p posted\<rparr>) (?c\<lparr>wild_receives := wild_of posted\<rparr>))
          | Some (r, ps) \<Rightarrow> (Some r, upd_proc p (\<lambda>x. x\<lparr>specific_receives := specific_of p ps\<rparr>) (?c\<lparr>wild_receives := wild_of ps\<rparr>)))"
    using loop assms(2,3) by (simp add: match_incomming_def aget_def aset_def upd_proc_def split: option.splits)
  have same: "upd_proc p (\<lambda>x. x\<lparr>specific_receives := specific_of p ps\<rparr>) (?c\<lparr>wild_receives := wild_of ps\<rparr>) = set_queues ps c"
    if "\<And>i. i \<noteq> p \<Longrightarrow> specific_of i ps = specific_of i posted" for ps
  proof (rule pml_comm_eqI)
    fix i assume "i < length (procs (upd_proc p (\<lambda>x. x\<lparr>specific_receives := specific_of p ps\<rparr>) (?c\<lparr>wild_receives := wild_of ps\<rparr>)))"
    then show "procs (upd_proc p (\<lambda>x. x\<lparr>specific_receives := specific_of p ps\<rparr>) (?c\<lparr>wild_receives := wild_of ps\<rparr>)) ! i = procs (set_queues ps c) ! i"
      using that by (cases "i = p") simp_all
  qed simp_all
  show ?thesis
  proof (cases "take_first (\<lambda>r. accepts r frag) posted")
    case None
    with run same [of posted] show ?thesis by simp
  next
    case (Some rp)
    obtain r ps where rp: "rp = (r, ps)" by (cases rp)
    obtain us vs where uv: "posted = us @ r # vs" "ps = us @ vs" "accepts r frag" using take_first_Some Some rp by metis
    have "specific_of i ps = specific_of i posted" if "i \<noteq> p" for i
      using uv that assms(2) by (auto simp: specific_of_def accepts_def OMPI_ANY_SOURCE_def)
    with run same [of ps] Some rp show ?thesis by simp
  qed
qed

lemma posted_ok_sub: "posted_ok n (us @ r # vs) \<Longrightarrow> posted_ok n (us @ vs)"
  by (auto simp: posted_ok_def sorted_wrt_append)

lemma spec_offer_skip: "\<forall>u \<in> set us. \<not> accepts u frag \<Longrightarrow>
    spec_offer frag (us @ vs) = (case spec_offer frag vs of (q, evs, m, u) \<Rightarrow> (us @ q, evs, m, u))"
  by (induction us) (auto split: prod.splits)

definition keep_unexpected :: "'m recv_frag \<Rightarrow> bool \<Rightarrow> 'm pml_comm \<Rightarrow> 'm pml_comm" where
  "keep_unexpected frag u c =
     (if u then upd_proc (nat (hdr_src frag)) (\<lambda>x. x\<lparr>unexpected_frags := unexpected_frags x @ [frag]\<rparr>) c else c)"

lemma match_one_spec:
  assumes "posted_ok n posted" and "hdr_src frag = int p" and "p < length (procs c)"
  shows "match_one frag (set_queues posted c) evs =
    (case spec_offer frag posted of (q, es, m, u) \<Rightarrow> Some (m, set_queues q (keep_unexpected frag u c), evs @ es))"
  using assms(1)
proof (induction "length posted" arbitrary: posted evs rule: less_induct)
  case less
  note run = match_incomming_spec [OF less.prems assms(2,3)]
  show ?case
  proof (cases "take_first (\<lambda>r. accepts r frag) posted")
    case None
    then have "spec_offer frag posted = (posted, [], None, True)"
      using spec_offer_skip [of posted frag "[]"] by (simp add: take_first_None)
    moreover have "append_unexpected frag (set_queues posted c) = Some (set_queues posted (keep_unexpected frag True c))"
      using set_queues_upd [of "\<lambda>x. x\<lparr>unexpected_frags := unexpected_frags x @ [frag]\<rparr>" p posted c] assms(2,3)
      by (simp add: append_unexpected_def aget_def aset_def keep_unexpected_def upd_proc_def)
    ultimately show ?thesis using run None by (subst match_one.simps) simp
  next
    case (Some rp)
    obtain r ps where rp: "rp = (r, ps)" by (cases rp)
    obtain us vs where uv: "posted = us @ r # vs" "ps = us @ vs" "accepts r frag" "\<forall>u \<in> set us. \<not> accepts u frag"
      using take_first_Some Some rp by metis
    have offer: "spec_offer frag posted = (case spec_offer frag (r # vs) of (q, es, m, u) \<Rightarrow> (us @ q, es, m, u))"
      "spec_offer frag ps = (case spec_offer frag vs of (q, es, m, u) \<Rightarrow> (us @ q, es, m, u))"
      unfolding uv(1,2) by (rule spec_offer_skip [OF uv(4)])+
    show ?thesis
    proof (cases "req_type r = REQUEST_PROBE")
      case True
      have "posted_ok n ps" using less.prems posted_ok_sub uv(1,2) by blast
      moreover have "length ps < length posted" using uv(1,2) by simp
      ultimately have "match_one frag (set_queues ps c) (evs @ [Matched_probe r frag]) =
          (case spec_offer frag ps of (q, es, m, u) \<Rightarrow> Some (m, set_queues q (keep_unexpected frag u c), (evs @ [Matched_probe r frag]) @ es))"
        by (rule less.hyps [rotated])
      then show ?thesis using run Some rp True offer uv(3) by (subst match_one.simps) (simp split: prod.splits)
    next
      case False
      then show ?thesis using run Some rp offer uv(2,3) by (subst match_one.simps) (simp add: keep_unexpected_def)
    qed
  qed
qed

text \<open>C5: One arriving fragment. The two queues of posted receives, wild and of the sender, behave as the
  single queue in the order of posting: the probes ahead of the match are completed, the oldest receive
  that accepts the fragment takes it and leaves the queue, and without one the fragment is unexpected.\<close>

theorem match_one_refines:
  assumes "posted_ok n posted" and "hdr_src frag = int p" and "p < length (procs c)"
  shows "match_one frag (set_queues posted c) evs =
    (case spec_offer frag posted of (q, es, m, u) \<Rightarrow> Some (m, set_queues q (keep_unexpected frag u c), evs @ es))"
  by (rule match_one_spec [OF assms])

definition example_posted :: "recv_request list" where
  "example_posted = map (\<lambda>(i, t, peer). \<lparr>req_id = i, req_type = t, req_peer = peer, req_tag = 5, req_sequence = of_nat i\<rparr>)
     [(0, REQUEST_PROBE, OMPI_ANY_SOURCE), (1, REQUEST_RECV, 0), (2, REQUEST_RECV, OMPI_ANY_SOURCE)]"

definition example_frag :: "unit recv_frag" where
  "example_frag = \<lparr>hdr_type = HDR_TYPE_MATCH, hdr_ctx = 0, hdr_src = 0, hdr_tag = 5, hdr_seq = 1, frag_segments = ()\<rparr>"

theorem match_one_refines_witness:
  "let c = snd (mca_pml_ob1_comm_init_size True mca_pml_ob1_comm_construct 1) in
   match_one example_frag (set_queues example_posted c) [] =
     Some (Some (example_posted ! 1), set_queues [example_posted ! 2] c, [Matched_probe (example_posted ! 0) example_frag])"
proof -
  have "(0 :: 64 word) < - 1" "(1 :: 64 word) < - 1" by (simp_all add: word_less_nat_alt unsigned_minus_1_eq_mask mask_eq_exp_minus_1)
  then show ?thesis
    using match_one_refines [of 1 example_posted example_frag 0 "snd (mca_pml_ob1_comm_init_size True mca_pml_ob1_comm_construct 1)" "[]"]
    by (simp add: Let_def example_posted_def example_frag_def posted_ok_def PML_MAX_SEQ_def accepts_def tag_matches_def OMPI_ANY_SOURCE_def
        mca_pml_ob1_comm_init_size_def keep_unexpected_def)
qed

end
