(* ===== verification/Ob1_Order.thy ===== *)
theory Ob1_Order
  imports Ob1_Match
begin

text \<open>
  Runs of the matching engine. \<open>sent p k\<close> is the \<open>k\<close>-th message of process \<open>p\<close> to
  this communicator. A run interleaves, in any order, the arrival of messages, the posting and the
  cancelling of receives. The messages of a process may arrive in any order as long as none overtakes
  one that is \<open>2 ^ 16\<close> or more behind it, so that the 16-bit sequence numbers suffice.

  The invariant has two parts. \<open>order_inv\<close> says that the first \<open>h p\<close> messages of a process
  have been taken in order and the ones that came early wait. \<open>match_inv\<close> says that the messages taken
  in order are either matched or unexpected, and no posted receive accepts an unexpected message.
\<close>

section \<open>Messages and what was taken\<close>

definition sent_ok :: "(nat \<Rightarrow> nat \<Rightarrow> 'm recv_frag) \<Rightarrow> bool" where
  "sent_ok sent \<longleftrightarrow> (\<forall>p k. hdr_src (sent p k) = int p \<and> hdr_seq (sent p k) = of_nat k \<and> hdr_tag (sent p k) \<noteq> OMPI_ANY_TAG) \<and>
     (\<forall>p k k'. sent p k = sent p k' \<longrightarrow> k = k')"

fun taken_by :: "'m match_event \<Rightarrow> (recv_request \<times> 'm recv_frag) option" where
  "taken_by (Progress t r f) = Some (r, f)"
| "taken_by (Matched_message r f) = Some (r, f)"
| "taken_by (Matched_probe r f) = None"

definition taken :: "'m match_event list \<Rightarrow> 'm recv_frag list" where
  "taken evs = map snd (List.map_filter taken_by evs)"

text \<open>
  A receive takes a message that it accepts, that nobody took before, and not before an earlier
  message of the same sender that it would have accepted too.
\<close>

definition fair_take :: "(nat \<Rightarrow> nat \<Rightarrow> 'm recv_frag) \<Rightarrow> 'm recv_frag list \<Rightarrow> recv_request \<Rightarrow> 'm recv_frag \<Rightarrow> bool" where
  "fair_take sent before r f \<longleftrightarrow> accepts r f \<and> f \<notin> set before \<and>
     (\<forall>p j k. f = sent p k \<and> 1 \<le> j \<and> j < k \<and> accepts r (sent p j) \<longrightarrow> sent p j \<in> set before)"

fun fair_events :: "(nat \<Rightarrow> nat \<Rightarrow> 'm recv_frag) \<Rightarrow> 'm recv_frag list \<Rightarrow> 'm match_event list \<Rightarrow> bool" where
  "fair_events sent before [] = True"
| "fair_events sent before (e # es) =
     (case taken_by e of
        None \<Rightarrow> fair_events sent before es
      | Some (r, f) \<Rightarrow> fair_take sent before r f \<and> fair_events sent (before @ [f]) es)"

lemma taken_simps [simp]:
  "taken [] = []" "taken (xs @ ys) = taken xs @ taken ys"
  "taken (Progress t r f # es) = f # taken es" "taken (Matched_message r f # es) = f # taken es"
  "taken (Matched_probe r f # es) = taken es"
  by (simp_all add: taken_def List.map_filter_def)

lemma fair_events_append:
  "fair_events sent before (xs @ ys) \<longleftrightarrow> fair_events sent before xs \<and> fair_events sent (before @ taken xs) ys"
proof (induction xs arbitrary: before)
  case (Cons e xs)
  then show ?case by (cases e) simp_all
qed simp

section \<open>What a fragment offered to the posted receives does\<close>

text \<open>The events of an offer, with the progress of the receive that takes the fragment.\<close>

definition offer_events :: "hdr_kind \<Rightarrow> 'm recv_frag \<Rightarrow> 'm match_event list \<Rightarrow> recv_request option \<Rightarrow> 'm match_event list" where
  "offer_events t f es m = es @ (case m of Some r \<Rightarrow> [Progress t r f] | None \<Rightarrow> [])"

lemma spec_offer_cases:
  assumes "spec_offer f (r # posted) = (q, es, m, u)" and "spec_offer f posted = (q', es', m', u')"
  obtains "q = posted" | "q = q'" | "q = r # q'"
proof (cases "accepts r f")
  case True
  then show thesis using assms that(1,2) by (simp split: if_splits)
next
  case False
  then show thesis using assms that(3) by simp
qed

lemma spec_offer_subset: "spec_offer f posted = (q, es, m, u) \<Longrightarrow> set q \<subseteq> set posted"
proof (induction posted arbitrary: q es m u)
  case (Cons r posted)
  obtain q' es' m' u' where o: "spec_offer f posted = (q', es', m', u')" by (cases "spec_offer f posted")
  have "set q' \<subseteq> set posted" using Cons.IH [OF o] .
  with spec_offer_cases [OF Cons.prems o] show ?case by (metis dual_order.trans insert_mono list.simps(15) subset_insertI)
qed simp

lemma posted_ok_Cons:
  "posted_ok n (r # q) \<longleftrightarrow> (\<forall>s \<in> set q. req_sequence r < req_sequence s) \<and> posted_ok n [r] \<and> posted_ok n q"
  by (simp only: posted_ok_def sorted_wrt.simps list.set ball_simps) blast

lemma spec_offer_posted_ok: "spec_offer f posted = (q, es, m, u) \<Longrightarrow> posted_ok n posted \<Longrightarrow> posted_ok n q"
proof (induction posted arbitrary: q es m u)
  case (Cons r posted)
  obtain q' es' m' u' where o: "spec_offer f posted = (q', es', m', u')" by (cases "spec_offer f posted")
  have ok: "posted_ok n posted" using Cons.prems(2) posted_ok_Cons by blast
  then have "posted_ok n q'" using Cons.IH [OF o] by simp
  moreover have "posted_ok n (r # q')" using calculation Cons.prems(2) spec_offer_subset [OF o] posted_ok_Cons by (metis subsetD)
  ultimately show ?case using ok spec_offer_cases [OF Cons.prems(1) o] by metis
qed simp

lemma spec_offer_taken: "spec_offer f posted = (q, es, m, u) \<Longrightarrow> taken (offer_events t f es m) = (if u then [] else [f])"
proof (induction posted arbitrary: q es m u)
  case (Cons r posted)
  obtain q' es' m' u' where o: "spec_offer f posted = (q', es', m', u')" by (cases "spec_offer f posted")
  then show ?case using Cons.prems Cons.IH [OF o] by (auto simp: offer_events_def split: if_splits)
qed (simp add: offer_events_def)

lemma spec_offer_unexpected: "spec_offer f posted = (q, es, m, True) \<Longrightarrow> \<forall>r \<in> set q. \<not> accepts r f"
proof (induction posted arbitrary: q es m)
  case (Cons r posted)
  obtain q' es' m' u' where o: "spec_offer f posted = (q', es', m', u')" by (cases "spec_offer f posted")
  then show ?case using Cons.prems Cons.IH by (auto split: if_splits)
qed simp

lemma spec_offer_fair:
  assumes "spec_offer f posted = (q, es, m, u)" and "\<And>r. r \<in> set posted \<Longrightarrow> accepts r f \<Longrightarrow> fair_take sent before r f"
  shows "fair_events sent before (offer_events t f es m)"
  using assms
proof (induction posted arbitrary: q es m u)
  case (Cons r posted)
  obtain q' es' m' u' where o: "spec_offer f posted = (q', es', m', u')" by (cases "spec_offer f posted")
  then have "fair_events sent before (offer_events t f es' m')" using Cons.IH [OF o] Cons.prems(2) by simp
  then show ?case using Cons.prems o by (auto simp: offer_events_def split: if_splits)
qed (simp add: offer_events_def)

section \<open>The invariants\<close>

definition match_inv ::
    "(nat \<Rightarrow> nat \<Rightarrow> 'm recv_frag) \<Rightarrow> nat \<Rightarrow> 'm pml_comm \<Rightarrow> recv_request list \<Rightarrow> (nat \<Rightarrow> nat) \<Rightarrow> 'm match_event list \<Rightarrow> bool" where
  "match_inv sent n c posted h evs \<longleftrightarrow>
     posted_ok n posted \<and> set_queues posted c = c \<and> length (procs c) = n \<and> num_procs c = n \<and> last_probed c < n \<and>
     (\<forall>r \<in> set posted. req_sequence r < ucast (recv_sequence c)) \<and>
     (\<forall>p < n. \<exists>us. unexpected_frags (procs c ! p) = map (sent p) us \<and> sorted_wrt (<) us \<and>
        set us = {k. 1 \<le> k \<and> k \<le> h p \<and> sent p k \<notin> set (taken evs)}) \<and>
     (\<forall>p < n. \<forall>f \<in> set (unexpected_frags (procs c ! p)). \<forall>r \<in> set posted. \<not> accepts r f) \<and>
     (\<forall>f \<in> set (taken evs). \<exists>p k. p < n \<and> 1 \<le> k \<and> k \<le> h p \<and> f = sent p k) \<and>
     fair_events sent [] evs"

text \<open>One process: \<open>hp\<close> messages in order, of the arrived ones \<open>Ap\<close>; the others wait.\<close>

definition order_proc :: "(nat \<Rightarrow> nat \<Rightarrow> 'm recv_frag) \<Rightarrow> nat \<Rightarrow> 'm comm_proc \<Rightarrow> nat \<Rightarrow> nat set \<Rightarrow> bool" where
  "order_proc sent p x hp Ap \<longleftrightarrow> expected_sequence x = of_nat (Suc hp) \<and> {1..hp} \<subseteq> Ap \<and> 0 \<notin> Ap \<and>
     (\<exists>ks. frags_cant_match x = map (sent p) ks \<and> distinct ks \<and> set ks = Ap - {1..hp} \<and> (\<forall>k \<in> set ks. k \<le> hp + 2 ^ 16))"

definition order_inv :: "(nat \<Rightarrow> nat \<Rightarrow> 'm recv_frag) \<Rightarrow> nat \<Rightarrow> 'm pml_comm \<Rightarrow> (nat \<times> nat) set \<Rightarrow> (nat \<Rightarrow> nat) \<Rightarrow> bool" where
  "order_inv sent n c A h \<longleftrightarrow> (\<forall>p < n. order_proc sent p (procs c ! p) (h p) {k. (p, k) \<in> A})"

text \<open>No message that could be taken in order is left waiting.\<close>

definition settled :: "nat \<Rightarrow> (nat \<times> nat) set \<Rightarrow> (nat \<Rightarrow> nat) \<Rightarrow> bool" where
  "settled n A h \<longleftrightarrow> (\<forall>p < n. (p, Suc (h p)) \<notin> A)"

section \<open>Offering the next message\<close>

lemma sent_eq_iff:
  assumes "sent_ok sent"
  shows "sent p k = sent p' k' \<longleftrightarrow> p = p' \<and> k = k'"
proof
  assume e: "sent p k = sent p' k'"
  then have "int p = int p'" using assms by (metis sent_ok_def)
  then show "p = p' \<and> k = k'" using e assms by (auto simp: sent_ok_def)
qed simp

lemma unexpected_keep:
  assumes "p < length (procs c)" and "i < length (procs c)" and "hdr_src f = int p"
  shows "unexpected_frags (procs (set_queues q (keep_unexpected f u c)) ! i) =
    unexpected_frags (procs c ! i) @ (if u \<and> i = p then [f] else [])"
  using assms by (simp add: keep_unexpected_def)

lemma match_inv_offer:
  assumes inv: "match_inv sent n c posted h evs" and sent: "sent_ok sent" and p: "p < n"
    and o: "spec_offer (sent p (Suc (h p))) posted = (q, es, m, u)"
  defines "f \<equiv> sent p (Suc (h p))"
  shows "match_inv sent n (set_queues q (keep_unexpected f u c)) q (h(p := Suc (h p))) (evs @ offer_events t f es m)"
proof -
  let ?c = "set_queues q (keep_unexpected f u c)" and ?h = "h(p := Suc (h p))" and ?es = "offer_events t f es m"
  have src: "hdr_src f = int p" using sent by (simp add: f_def sent_ok_def)
  have len: "length (procs c) = n" using inv by (simp add: match_inv_def)
  have tk: "taken ?es = (if u then [] else [f])" using spec_offer_taken [OF o] by (simp add: f_def)
  have sub: "set q \<subseteq> set posted" using spec_offer_subset [OF o] .
  have new: "f \<notin> set (taken evs)" using inv sent_eq_iff [OF sent] by (fastforce simp: match_inv_def f_def)
  have unexp: "\<exists>us. unexpected_frags (procs ?c ! i) = map (sent i) us \<and> sorted_wrt (<) us \<and>
      set us = {k. 1 \<le> k \<and> k \<le> ?h i \<and> sent i k \<notin> set (taken (evs @ ?es))}" if i: "i < n" for i
  proof -
    obtain us where us: "unexpected_frags (procs c ! i) = map (sent i) us" "sorted_wrt (<) us"
      "set us = {k. 1 \<le> k \<and> k \<le> h i \<and> sent i k \<notin> set (taken evs)}" using inv i by (auto simp: match_inv_def)
    have un: "unexpected_frags (procs ?c ! i) = map (sent i) (us @ (if u \<and> i = p then [Suc (h p)] else []))"
      using unexpected_keep [of p c i f q u] src len p i us(1) by (simp add: f_def)
    have "sent i k \<in> set (taken (evs @ ?es)) \<longleftrightarrow> sent i k \<in> set (taken evs) \<or> (\<not> u \<and> i = p \<and> k = Suc (h p))" for k
      using tk sent_eq_iff [OF sent, of i k p "Suc (h p)"] by (auto simp: f_def)
    then have "set (us @ (if u \<and> i = p then [Suc (h p)] else [])) = {k. 1 \<le> k \<and> k \<le> ?h i \<and> sent i k \<notin> set (taken (evs @ ?es))}"
      using us(3) new by (auto simp: f_def le_Suc_eq)
    moreover have "sorted_wrt (<) (us @ (if u \<and> i = p then [Suc (h p)] else []))"
      using us(2,3) by (auto simp: sorted_wrt_append less_Suc_eq_le)
    ultimately show ?thesis using un by blast
  qed
  have quiet: "\<not> accepts r g" if i: "i < n" and g: "g \<in> set (unexpected_frags (procs ?c ! i))" and r: "r \<in> set q" for i g r
  proof (cases "g \<in> set (unexpected_frags (procs c ! i))")
    case True
    then show ?thesis using inv i r sub by (auto simp: match_inv_def)
  next
    case False
    then have "u" "g = f" using g unexpected_keep [of p c i f q u] src len p i by (auto split: if_splits)
    then show ?thesis using spec_offer_unexpected [of f posted q es m] o r by (simp add: f_def)
  qed
  have "fair_take sent (taken evs) r f" if "r \<in> set posted" "accepts r f" for r
  proof -
    have "sent p j \<in> set (taken evs)" if j: "1 \<le> j" "j < Suc (h p)" "accepts r (sent p j)" for j
    proof (rule ccontr)
      assume "sent p j \<notin> set (taken evs)"
      then have "sent p j \<in> set (unexpected_frags (procs c ! p))" using inv p j by (auto simp: match_inv_def)
      then show False using inv p j(3) \<open>r \<in> set posted\<close> by (auto simp: match_inv_def)
    qed
    then show ?thesis using that(2) new sent_eq_iff [OF sent] by (auto simp: fair_take_def f_def)
  qed
  then have fair: "fair_events sent (taken evs) ?es" using spec_offer_fair [OF o] by (simp add: f_def)
  have seq: "\<forall>r \<in> set q. req_sequence r < ucast (recv_sequence ?c)" using inv sub by (auto simp: match_inv_def keep_unexpected_def)
  have dom: "\<forall>g \<in> set (taken (evs @ ?es)). \<exists>i k. i < n \<and> 1 \<le> k \<and> k \<le> ?h i \<and> g = sent i k"
  proof
    fix g assume "g \<in> set (taken (evs @ ?es))"
    then consider "g \<in> set (taken evs)" | "g = f" using tk by (auto split: if_splits)
    then show "\<exists>i k. i < n \<and> 1 \<le> k \<and> k \<le> ?h i \<and> g = sent i k"
    proof cases
      case 1
      then obtain i k where "i < n" "1 \<le> k" "k \<le> h i" "g = sent i k" using inv by (auto simp: match_inv_def)
      then show ?thesis by (intro exI [of _ i] exI [of _ k]) auto
    next
      case 2
      then show ?thesis using p by (intro exI [of _ p] exI [of _ "Suc (h p)"]) (auto simp: f_def)
    qed
  qed
  have ok: "posted_ok n q" using spec_offer_posted_ok [OF o] inv by (simp add: match_inv_def)
  have base: "length (procs ?c) = n" "num_procs ?c = n" "last_probed ?c < n" using inv by (auto simp: match_inv_def keep_unexpected_def)
  show ?thesis unfolding match_inv_def
    using ok base seq unexp quiet dom fair inv by (auto simp: match_inv_def fair_events_append)
qed

end
