(* ===== verification/Ob1_Arrive.thy ===== *)
theory Ob1_Arrive
  imports Ob1_Order
begin

text \<open>
  The arrival of a message: it waits, or it is matched together with the ones that waited for it.
  The window of \<open>2 ^ 16\<close> messages makes the 16-bit sequence number identify the next message.
\<close>

section \<open>The next message among the waiting ones\<close>

lemma seq_in_window:
  assumes "hp < k" and "k \<le> hp + 2 ^ 16"
  shows "(of_nat k :: 16 word) = of_nat (Suc hp) \<longleftrightarrow> k = Suc hp"
proof
  assume "(of_nat k :: 16 word) = of_nat (Suc hp)"
  then have "k mod 2 ^ 16 = Suc hp mod 2 ^ 16" by (simp add: word_of_nat_eq_iff take_bit_eq_mod del: of_nat_Suc)
  then have "(2 ^ 16) dvd (k - Suc hp)" using assms(1) by (metis mod_eq_dvd_iff_nat Suc_leI)
  moreover have "k - Suc hp < 2 ^ 16" using assms by simp
  ultimately have "k - Suc hp = 0" by (metis dvd_imp_le not_less zero_less_iff_neq_zero)
  then show "k = Suc hp" using assms(1) by simp
qed simp

lemma take_expected_sent:
  assumes "sent_ok sent" and "\<forall>k \<in> set ks. hp < k \<and> k \<le> hp + 2 ^ 16" and "distinct ks"
  shows "take_expected (of_nat (Suc hp)) (map (sent p) ks) =
    (if Suc hp \<in> set ks then Some (sent p (Suc hp), map (sent p) (remove1 (Suc hp) ks)) else None)"
  using assms(2,3)
proof (induction ks)
  case (Cons k ks)
  have "hdr_seq (sent p k) = of_nat (Suc hp) \<longleftrightarrow> k = Suc hp"
    using seq_in_window [of hp k] Cons.prems(1) assms(1) by (simp only: sent_ok_def) simp
  then show ?case using Cons by (simp del: of_nat_Suc)
qed simp

section \<open>The invariants and the fields of a process\<close>

lemma order_proc_fields:
  "expected_sequence y = expected_sequence x \<Longrightarrow> frags_cant_match y = frags_cant_match x \<Longrightarrow>
     order_proc sent p y hp Ap = order_proc sent p x hp Ap"
  by (simp add: order_proc_def)

lemma order_procI:
  assumes "expected_sequence x = of_nat (Suc hp)" and "{1..hp} \<subseteq> Ap" and "0 \<notin> Ap" and "frags_cant_match x = map (sent p) ks"
    and "distinct ks" and "set ks = Ap - {1..hp}" and "\<forall>k \<in> set ks. k \<le> hp + 2 ^ 16"
  shows "order_proc sent p x hp Ap"
  using assms unfolding order_proc_def by blast

lemma match_inv_upd:
  assumes inv: "match_inv sent n c posted h evs" and "p < n"
    and q: "\<And>x s. g (x\<lparr>specific_receives := s\<rparr>) = (g x)\<lparr>specific_receives := s\<rparr>"
    and u: "\<And>x. unexpected_frags (g x) = unexpected_frags x"
  shows "match_inv sent n (upd_proc p g c) posted h evs"
proof -
  have un: "unexpected_frags (procs (upd_proc p g c) ! i) = unexpected_frags (procs c ! i)" if "i < n" for i
    using u inv that by (cases "i = p") (simp_all add: match_inv_def)
  have "set_queues posted (upd_proc p g c) = upd_proc p g c"
    using set_queues_upd [of g p posted c, OF q] inv by (simp add: match_inv_def)
  then show ?thesis using inv un by (simp add: match_inv_def)
qed

lemma kept_fields:
  assumes "i < length (procs c)" and "hdr_src f = int p"
  shows "expected_sequence (procs (set_queues q (keep_unexpected f u c)) ! i) = expected_sequence (procs c ! i)"
    and "frags_cant_match (procs (set_queues q (keep_unexpected f u c)) ! i) = frags_cant_match (procs c ! i)"
  using assms by (cases "i = p"; simp add: keep_unexpected_def)+

text \<open>The next message is among the waiting ones exactly when it has arrived; it is taken out of them.\<close>

lemma check_cantmatch_ok:
  assumes order: "order_inv sent n c A h" and sent: "sent_ok sent" and p: "p < n" and len: "length (procs c) = n"
  shows check_cantmatch_None: "(p, Suc (h p)) \<notin> A \<Longrightarrow> check_cantmatch_for_match (procs c ! p) = None"
    and check_cantmatch_Some: "(p, Suc (h p)) \<in> A \<Longrightarrow>
      \<exists>fs. check_cantmatch_for_match (procs c ! p) = Some (sent p (Suc (h p)), (procs c ! p)\<lparr>frags_cant_match := fs\<rparr>) \<and>
        length fs < length (frags_cant_match (procs c ! p)) \<and>
        order_inv sent n (upd_proc p (\<lambda>x. x\<lparr>frags_cant_match := fs\<rparr>) c) (A - {(p, Suc (h p))}) h"
proof -
  let ?x = "procs c ! p"
  have x: "order_proc sent p ?x (h p) {k. (p, k) \<in> A}" using order p by (simp add: order_inv_def)
  then obtain ks where ks: "frags_cant_match ?x = map (sent p) ks" "distinct ks" "set ks = {k. (p, k) \<in> A} - {1..h p}"
      "\<forall>k \<in> set ks. k \<le> h p + 2 ^ 16" unfolding order_proc_def by blast
  have e: "expected_sequence ?x = of_nat (Suc (h p))" "(p, 0) \<notin> A" "{1..h p} \<subseteq> {k. (p, k) \<in> A}" using x unfolding order_proc_def by blast+
  have above: "h p < k" if "k \<in> set ks" for k
  proof (rule ccontr)
    assume "\<not> h p < k"
    moreover have "k \<notin> {1..h p}" using that ks(3) by blast
    ultimately have "k = 0" by simp
    then show False using that ks(3) e(2) by simp
  qed
  have mem: "Suc (h p) \<in> set ks \<longleftrightarrow> (p, Suc (h p)) \<in> A" using ks(3) by simp
  have "take_expected (expected_sequence ?x) (frags_cant_match ?x) =
      (if Suc (h p) \<in> set ks then Some (sent p (Suc (h p)), map (sent p) (remove1 (Suc (h p)) ks)) else None)"
    unfolding e(1) ks(1) using above ks(2,4) by (intro take_expected_sent [OF sent]) simp_all
  then have chk: "check_cantmatch_for_match ?x = (if (p, Suc (h p)) \<in> A
      then Some (sent p (Suc (h p)), ?x\<lparr>frags_cant_match := map (sent p) (remove1 (Suc (h p)) ks)\<rparr>) else None)"
    using mem by (simp add: check_cantmatch_for_match_def)
  then show "(p, Suc (h p)) \<notin> A \<Longrightarrow> check_cantmatch_for_match ?x = None" by simp
  assume A: "(p, Suc (h p)) \<in> A"
  let ?ks = "remove1 (Suc (h p)) ks"
  have "length ?ks < length ks" using A mem length_pos_if_in_set [of "Suc (h p)" ks] by (simp add: length_remove1)
  moreover have "set ?ks = {k. (p, k) \<in> A - {(p, Suc (h p))}} - {1..h p}" using ks(2,3) by (auto simp: set_remove1_eq)
  moreover have "{1..h p} \<subseteq> {k. (p, k) \<in> A - {(p, Suc (h p))}}" using e(3) by auto
  ultimately have "order_proc sent p (?x\<lparr>frags_cant_match := map (sent p) ?ks\<rparr>) (h p) {k. (p, k) \<in> A - {(p, Suc (h p))}}"
    using ks(2,4) e(1,2) by (intro order_procI [of _ "h p" _ _ _ ?ks]) (auto dest: notin_set_remove1)
  then have "order_inv sent n (upd_proc p (\<lambda>x. x\<lparr>frags_cant_match := map (sent p) ?ks\<rparr>) c) (A - {(p, Suc (h p))}) h"
    using order len p by (auto simp: order_inv_def nth_list_update)
  with chk A \<open>length ?ks < length ks\<close> ks(1) show "\<exists>fs. check_cantmatch_for_match ?x = Some (sent p (Suc (h p)), ?x\<lparr>frags_cant_match := fs\<rparr>) \<and>
        length fs < length (frags_cant_match ?x) \<and>
        order_inv sent n (upd_proc p (\<lambda>x. x\<lparr>frags_cant_match := fs\<rparr>) c) (A - {(p, Suc (h p))}) h"
    by (intro exI [of _ "map (sent p) ?ks"]) simp
qed

section \<open>Matching in order\<close>

text \<open>One round of the label \<open>out_of_order_match\<close>: the next message is offered and counted.\<close>

lemma offer_next:
  assumes inv: "match_inv sent n c posted h evs" and sent: "sent_ok sent" and p: "p < n"
    and order: "order_inv sent n c (A - {(p, Suc (h p))}) h" and A: "(p, Suc (h p)) \<in> A"
  defines "f \<equiv> sent p (Suc (h p))" and "h' \<equiv> h(p := Suc (h p))"
  obtains c1 c2 m es q where "expect_next (hdr_src f) c = Some c1" and "match_one f c1 ev0 = Some (m, c2, ev0 @ es)"
    and "match_inv sent n c2 q h' (evs @ offer_events t f es m)" and "order_inv sent n c2 A h'"
    and "length (frags_cant_match (procs c2 ! p)) = length (frags_cant_match (procs c ! p))"
proof -
  define g :: "'a comm_proc \<Rightarrow> 'a comm_proc" where "g = (\<lambda>x. x\<lparr>expected_sequence := expected_sequence x + 1\<rparr>)"
  have g: "g (x\<lparr>specific_receives := s\<rparr>) = (g x)\<lparr>specific_receives := s\<rparr>" "unexpected_frags (g x) = unexpected_frags x"
    "frags_cant_match (g x) = frags_cant_match x" "expected_sequence (g x) = expected_sequence x + 1" for x s by (simp_all add: g_def)
  let ?c1 = "upd_proc p g c"
  have src: "hdr_src f = int p" using sent by (simp add: f_def sent_ok_def)
  have len: "length (procs c) = n" using inv by (simp add: match_inv_def)
  have 1: "expect_next (hdr_src f) c = Some ?c1" using src p len by (simp add: expect_next_def aget_def aset_def upd_proc_def g_def)
  have inv1: "match_inv sent n ?c1 posted h evs" using match_inv_upd [OF inv p] g(1,2) by blast
  then have c1: "set_queues posted ?c1 = ?c1" "posted_ok n posted" "p < length (procs ?c1)" using p by (simp_all add: match_inv_def)
  obtain q es m u where o: "spec_offer f posted = (q, es, m, u)" by (cases "spec_offer f posted")
  let ?c2 = "set_queues q (keep_unexpected f u ?c1)"
  have 2: "match_one f ?c1 ev0 = Some (m, ?c2, ev0 @ es)" using match_one_spec [OF c1(2) src c1(3), of ev0] c1(1) o by simp
  have 3: "match_inv sent n ?c2 q h' (evs @ offer_events t f es m)"
    unfolding f_def h'_def by (rule match_inv_offer [OF inv1 sent p o [unfolded f_def]])
  have "order_proc sent i (procs ?c2 ! i) (h' i) {k. (i, k) \<in> A}" if i: "i < n" for i
  proof -
    have fields: "expected_sequence (procs ?c2 ! i) = expected_sequence (procs ?c1 ! i)" "frags_cant_match (procs ?c2 ! i) = frags_cant_match (procs c ! i)"
      using kept_fields [of i ?c1 f p q u] src len i g(3) by (cases "i = p"; simp)+
    have old: "order_proc sent i (procs c ! i) (h i) {k. (i, k) \<in> A - {(p, Suc (h p))}}" using order i by (simp add: order_inv_def)
    show ?thesis
    proof (cases "i = p")
      case True
      obtain ks where ks: "frags_cant_match (procs c ! p) = map (sent p) ks" "distinct ks"
        "set ks = {k. (p, k) \<in> A - {(p, Suc (h p))}} - {1..h p}" "\<forall>k \<in> set ks. k \<le> h p + 2 ^ 16"
        using old True by (auto simp: order_proc_def)
      have "set ks = {k. (p, k) \<in> A} - {1..Suc (h p)}" unfolding ks(3) by (auto simp: atLeastAtMostSuc_conv)
      moreover have "{1..Suc (h p)} \<subseteq> {k. (p, k) \<in> A}" "0 \<notin> {k. (p, k) \<in> A}" using old True A by (auto simp: order_proc_def atLeastAtMostSuc_conv)
      moreover have "expected_sequence (procs ?c2 ! p) = of_nat (Suc (Suc (h p)))"
        using fields(1) old True p len g(4) by (simp add: order_proc_def)
      moreover have "\<forall>k \<in> set ks. k \<le> Suc (h p) + 2 ^ 16" using ks(4) by auto
      moreover have "frags_cant_match (procs ?c2 ! p) = map (sent p) ks" using ks(1) fields(2) True by simp
      ultimately show ?thesis using ks(2) unfolding h'_def True fun_upd_same by (intro order_procI [of _ "Suc (h p)" _ _ _ ks])
    next
      case False
      then have "expected_sequence (procs ?c2 ! i) = expected_sequence (procs c ! i)" using fields(1) by simp
      then show ?thesis using old False fields(2) order_proc_fields by (simp add: h'_def) blast
    qed
  qed
  then have 4: "order_inv sent n ?c2 A h'" by (simp add: order_inv_def)
  have "frags_cant_match (procs ?c2 ! p) = frags_cant_match (procs c ! p)" using kept_fields(2) [of p ?c1 f p q u] src p len g(3) by simp
  then show thesis using that 1 2 3 4 by simp
qed

text \<open>
  All messages that can be taken in order are taken, whatever number of them waited: the loop ends with
  the invariant, and no message that could be taken is left.
\<close>

lemma out_of_order_match_ok:
  assumes "match_inv sent n c posted h evs" and sent: "sent_ok sent" and p: "p < n"
    and "order_inv sent n c (A - {(p, Suc (h p))}) h" and "(p, Suc (h p)) \<in> A"
    and "\<forall>i < n. i \<noteq> p \<longrightarrow> (i, Suc (h i)) \<notin> A"
  shows "\<exists>c' posted' h' es. out_of_order_match t (sent p (Suc (h p))) c ev0 = Some (c', ev0 @ es) \<and>
    match_inv sent n c' posted' h' (evs @ es) \<and> order_inv sent n c' A h' \<and> settled n A h'"
  using assms(1,4-)
proof (induction "length (frags_cant_match (procs c ! p))" arbitrary: t c posted h evs ev0 rule: less_induct)
  case less
  define f where "f = sent p (Suc (h p))"
  define h' where "h' = h(p := Suc (h p))"
  obtain c1 c2 m es q where one: "expect_next (hdr_src f) c = Some c1" "match_one f c1 ev0 = Some (m, c2, ev0 @ es)"
    and inv: "match_inv sent n c2 q h' (evs @ offer_events t f es m)" and order: "order_inv sent n c2 A h'"
    and len': "length (frags_cant_match (procs c2 ! p)) = length (frags_cant_match (procs c ! p))"
    by (rule offer_next [OF less.prems(1) sent p less.prems(2,3), folded f_def h'_def])
  have src: "hdr_src f = int p" using sent by (simp add: f_def sent_ok_def)
  have len: "length (procs c2) = n" using inv by (simp add: match_inv_def)
  let ?es = "offer_events t f es m" and ?x = "procs c2 ! p"
  have evs: "(case m of Some req \<Rightarrow> (ev0 @ es) @ [Progress t req f] | None \<Rightarrow> ev0 @ es) = ev0 @ ?es"
    by (simp add: offer_events_def split: option.split)
  show ?case
  proof (cases "(p, Suc (h' p)) \<in> A")
    case False
    then have "settled n A h'" using less.prems(4) by (simp add: settled_def h'_def)
    moreover have "out_of_order_match t f c ev0 = Some (c2, ev0 @ ?es)"
      using one evs src p len check_cantmatch_None [OF order sent p len False] by (subst out_of_order_match.simps) (simp add: aget_def Let_def)
    ultimately show ?thesis using inv order unfolding f_def by blast
  next
    case True
    then obtain fs where fs: "check_cantmatch_for_match ?x = Some (sent p (Suc (h' p)), ?x\<lparr>frags_cant_match := fs\<rparr>)"
      "length fs < length (frags_cant_match ?x)" "order_inv sent n (upd_proc p (\<lambda>x. x\<lparr>frags_cant_match := fs\<rparr>) c2) (A - {(p, Suc (h' p))}) h'"
      using check_cantmatch_Some [OF order sent p len] by blast
    let ?c3 = "upd_proc p (\<lambda>x. x\<lparr>frags_cant_match := fs\<rparr>) c2" and ?f = "sent p (Suc (h' p))"
    have nonempty: "0 < length (frags_cant_match ?x)" using fs(2) by linarith
    have run: "out_of_order_match t f c ev0 = out_of_order_match (hdr_type ?f) ?f ?c3 (ev0 @ ?es)"
      using one evs src p len fs(1) nonempty by (subst out_of_order_match.simps) (simp add: aget_def aset_def upd_proc_def Let_def)
    have "match_inv sent n ?c3 q h' (evs @ ?es)" by (rule match_inv_upd [OF inv p]) simp_all
    moreover have "length (frags_cant_match (procs ?c3 ! p)) < length (frags_cant_match (procs c ! p))" using fs(2) len' p len by simp
    moreover have "\<forall>i < n. i \<noteq> p \<longrightarrow> (i, Suc (h' i)) \<notin> A" using less.prems(4) by (simp add: h'_def)
    ultimately obtain c' posted' h'' es' where "out_of_order_match (hdr_type ?f) ?f ?c3 (ev0 @ ?es) = Some (c', (ev0 @ ?es) @ es')"
      "match_inv sent n c' posted' h'' ((evs @ ?es) @ es')" "order_inv sent n c' A h''" "settled n A h''"
      using less.hyps [of ?c3 q h' "evs @ ?es" "hdr_type ?f" "ev0 @ ?es"] fs(3) True by blast
    then show ?thesis using run unfolding f_def append_assoc by (intro exI [of _ c'] exI [of _ posted'] exI [of _ h'']) auto
  qed
qed

section \<open>The invariant of the engine\<close>

definition engine_inv :: "(nat \<Rightarrow> nat \<Rightarrow> 'm recv_frag) \<Rightarrow> nat \<Rightarrow> 'm pml_comm \<Rightarrow> (nat \<times> nat) set \<Rightarrow> 'm match_event list \<Rightarrow> bool" where
  "engine_inv sent n c A evs \<longleftrightarrow> (\<exists>posted h. match_inv sent n c posted h evs \<and> order_inv sent n c A h \<and> settled n A h)"

definition in_window :: "(nat \<times> nat) set \<Rightarrow> nat \<Rightarrow> nat \<Rightarrow> bool" where
  "in_window A p k \<longleftrightarrow> 1 \<le> k \<and> (p, k) \<notin> A \<and> (\<forall>j \<in> {1..k - 2 ^ 16}. (p, j) \<in> A)"

lemma window_bounds:
  assumes "order_inv sent n c A h" and "settled n A h" and "p < n" and "in_window A p k"
  shows "h p < k" and "k \<le> h p + 2 ^ 16"
proof -
  have sub: "{1..h p} \<subseteq> {k. (p, k) \<in> A}" using assms(1,3) by (simp add: order_inv_def order_proc_def)
  show "h p < k"
  proof (rule ccontr)
    assume "\<not> h p < k"
    then have "k \<in> {1..h p}" using assms(4) by (simp add: in_window_def)
    then show False using sub assms(4) by (auto simp: in_window_def)
  qed
  show "k \<le> h p + 2 ^ 16"
  proof (rule ccontr)
    assume "\<not> k \<le> h p + 2 ^ 16"
    then have "Suc (h p) \<in> {1..k - 2 ^ 16}" by simp
    then have "(p, Suc (h p)) \<in> A" using assms(4) unfolding in_window_def by blast
    then show False using assms(2,3) by (simp add: settled_def)
  qed
qed

lemma order_proc_wait:
  assumes "order_proc sent p x hp Ap" and "hp < k" and "k \<le> hp + 2 ^ 16" and "k \<notin> Ap"
  shows "order_proc sent p (x\<lparr>frags_cant_match := frags_cant_match x @ [sent p k]\<rparr>) hp (insert k Ap)"
proof -
  obtain ks where ks: "frags_cant_match x = map (sent p) ks" "distinct ks" "set ks = Ap - {1..hp}" "\<forall>k \<in> set ks. k \<le> hp + 2 ^ 16"
    using assms(1) unfolding order_proc_def by blast
  have "k \<notin> {1..hp}" using assms(2) by simp
  then have "set (ks @ [k]) = insert k Ap - {1..hp}" unfolding set_append ks(3) list.set by blast
  moreover have "expected_sequence x = of_nat (Suc hp)" "{1..hp} \<subseteq> Ap" "0 \<notin> Ap" using assms(1) unfolding order_proc_def by blast+
  moreover have "distinct (ks @ [k])" using ks(2,3) assms(4) by simp
  moreover have "\<forall>j \<in> set (ks @ [k]). j \<le> hp + 2 ^ 16" using ks(4) assms(3) by simp
  moreover have "{1..hp} \<subseteq> insert k Ap" "0 \<notin> insert k Ap" using calculation(3,4) assms(2) by auto
  ultimately show ?thesis using ks(1) by (intro order_procI [of _ _ _ _ _ "ks @ [k]"]) simp_all
qed

theorem recv_frag_match_ok:
  assumes inv: "engine_inv sent n c A evs" and sent: "sent_ok sent" and p: "p < n" and win: "in_window A p k"
  shows "\<exists>c' es. match_in_comm t (sent p k) c = Some (c', es) \<and> engine_inv sent n c' (insert (p, k) A) (evs @ es)"
proof -
  obtain posted h where m: "match_inv sent n c posted h evs" and o: "order_inv sent n c A h" and s: "settled n A h"
    using inv unfolding engine_inv_def by blast
  have len: "length (procs c) = n" using m by (simp add: match_inv_def)
  have src: "hdr_src (sent p k) = int p" "hdr_seq (sent p k) = of_nat k" using sent by (simp_all add: sent_ok_def)
  have op: "order_proc sent p (procs c ! p) (h p) {j. (p, j) \<in> A}" using o p by (simp add: order_inv_def)
  note b = window_bounds [OF o s p win]
  have new: "(p, k) \<notin> A" using win by (simp add: in_window_def)
  have seq: "hdr_seq (sent p k) = expected_sequence (procs c ! p) \<longleftrightarrow> k = Suc (h p)"
    using seq_in_window [OF b] op src(2) unfolding order_proc_def by metis
  show ?thesis
  proof (cases "k = Suc (h p)")
    case True
    then have "(A' - {(p, Suc (h p))}) = A" "(p, Suc (h p)) \<in> A'" "\<forall>i < n. i \<noteq> p \<longrightarrow> (i, Suc (h i)) \<notin> A'" if "A' = insert (p, k) A" for A'
      using new s that by (auto simp: settled_def)
    then obtain c' posted' h' es where "out_of_order_match t (sent p (Suc (h p))) c [] = Some (c', [] @ es)"
      "match_inv sent n c' posted' h' (evs @ es)" "order_inv sent n c' (insert (p, k) A) h'" "settled n (insert (p, k) A) h'"
      using out_of_order_match_ok [OF m sent p, of "insert (p, k) A" t "[]"] o by auto
    moreover have "match_in_comm t (sent p k) c = out_of_order_match t (sent p k) c []"
      using seq True src p len by (simp add: match_in_comm_def aget_def)
    ultimately show ?thesis using True unfolding engine_inv_def by auto
  next
    case False
    let ?c = "upd_proc p (\<lambda>x. x\<lparr>frags_cant_match := frags_cant_match x @ [sent p k]\<rparr>) c"
    have run: "match_in_comm t (sent p k) c = Some (?c, [])"
      using seq False src p len by (simp add: match_in_comm_def append_cant_match_def aget_def aset_def upd_proc_def)
    have "match_inv sent n ?c posted h evs" by (rule match_inv_upd [OF m p]) simp_all
    moreover have "{j. (i, j) \<in> insert (p, k) A} = (if i = p then insert k {j. (p, j) \<in> A} else {j. (i, j) \<in> A})" for i by auto
    then have "order_inv sent n ?c (insert (p, k) A) h"
      using o len p order_proc_wait [OF op b] new by (simp add: order_inv_def nth_list_update)
    moreover have "settled n (insert (p, k) A) h" using s False by (auto simp: settled_def)
    ultimately show ?thesis using run unfolding engine_inv_def by auto
  qed
qed

end
