(* ===== verification/Ob1_Post.thy ===== *)
theory Ob1_Post
  imports Ob1_Arrive
begin

text \<open>
  Posting receives: a receive takes the oldest unexpected message that it accepts from
  the process found, or is queued behind the receives posted before.
\<close>

section \<open>Searching the unexpected messages\<close>

definition oldest_for :: "recv_request \<Rightarrow> 'm recv_frag list \<Rightarrow> nat \<Rightarrow> bool" where
  "oldest_for r fs j \<longleftrightarrow> j < length fs \<and> frag_tag_ok r (fs ! j) \<and> (\<forall>k < j. \<not> frag_tag_ok r (fs ! k))"

definition none_for :: "recv_request \<Rightarrow> 'm recv_frag list \<Rightarrow> bool" where
  "none_for r fs \<longleftrightarrow> (\<forall>f \<in> set fs. \<not> frag_tag_ok r f)"

lemma search_frags_spec:
  "(case search_frags r fs i of None \<Rightarrow> none_for r fs | Some j \<Rightarrow> i \<le> j \<and> oldest_for r fs (j - i))"
proof (induction fs arbitrary: i)
  case Nil
  then show ?case by (simp add: none_for_def)
next
  case (Cons f fs)
  show ?case
  proof (cases "frag_tag_ok r f")
    case True
    then show ?thesis by (simp add: oldest_for_def)
  next
    case False
    show ?thesis
    proof (cases "search_frags r fs (Suc i)")
      case None
      then show ?thesis using Cons [of "Suc i"] False by (simp add: none_for_def)
    next
      case (Some j)
      then have j: "Suc i \<le> j" "oldest_for r fs (j - Suc i)" using Cons [of "Suc i"] by simp_all
      then have "oldest_for r (f # fs) (Suc (j - Suc i))" using False unfolding oldest_for_def by (auto simp: less_Suc_eq_0_disj)
      moreover have "Suc (j - Suc i) = j - i" using j(1) by simp
      ultimately show ?thesis using Some False j(1) by simp
    qed
  qed
qed

lemma match_specific_spec:
  "(case recv_req_match_specific_proc r x of None \<Rightarrow> none_for r (unexpected_frags x) | Some j \<Rightarrow> oldest_for r (unexpected_frags x) j)"
  using search_frags_spec [of r "unexpected_frags x" 0] by (auto simp: recv_req_match_specific_proc_def none_for_def split: option.splits)

lemma match_any_proc_spec:
  assumes "\<forall>i \<in> set is. i < length ps"
  shows "\<exists>res. match_any_proc r ps is = Some res \<and>
    (case res of None \<Rightarrow> \<forall>i \<in> set is. none_for r (unexpected_frags (ps ! i))
     | Some (i, j) \<Rightarrow> i \<in> set is \<and> oldest_for r (unexpected_frags (ps ! i)) j)"
  using assms
proof (induction "is")
  case (Cons i "is")
  then obtain res where res: "match_any_proc r ps is = Some res"
    "case res of None \<Rightarrow> \<forall>i \<in> set is. none_for r (unexpected_frags (ps ! i))
     | Some (i, j) \<Rightarrow> i \<in> set is \<and> oldest_for r (unexpected_frags (ps ! i)) j" by auto
  show ?case
  proof (cases "recv_req_match_specific_proc r (ps ! i)")
    case None
    then show ?thesis using Cons.prems res match_specific_spec [of r "ps ! i"] by (auto simp: aget_def split: option.splits)
  next
    case (Some j)
    then show ?thesis using Cons.prems match_specific_spec [of r "ps ! i"] by (simp add: aget_def)
  qed
qed simp

text \<open>What is searched: every process the receive may take from; what is found: the oldest message there.\<close>

lemma find_unexpected_spec:
  assumes len: "length (procs c) = n" "num_procs c = n" and last: "last_probed c < n"
    and peer: "req_peer r = OMPI_ANY_SOURCE \<or> 0 \<le> req_peer r \<and> req_peer r < int n"
  obtains (none) "find_unexpected r c = Some (None, c)"
      "\<And>p. p < n \<Longrightarrow> req_peer r = OMPI_ANY_SOURCE \<or> req_peer r = int p \<Longrightarrow> none_for r (unexpected_frags (procs c ! p))"
    | (found) i j l where "find_unexpected r c = Some (Some (i, j), c\<lparr>last_probed := l\<rparr>)" "i < n" "l < n"
      "req_peer r = OMPI_ANY_SOURCE \<or> req_peer r = int i" "oldest_for r (unexpected_frags (procs c ! i)) j"
proof (cases "req_peer r = OMPI_ANY_SOURCE")
  case False
  then obtain p where p: "req_peer r = int p" "p < n" using peer by (metis int_nat_eq nat_less_iff zero_le_imp_eq_int)
  show thesis
  proof (cases "recv_req_match_specific_proc r (procs c ! p)")
    case None
    then show thesis using none False p len match_specific_spec [of r "procs c ! p"] by (auto simp: find_unexpected_def aget_def)
  next
    case (Some j)
    then show thesis using found [of p j "last_probed c"] False p len last match_specific_spec [of r "procs c ! p"]
      by (auto simp: find_unexpected_def aget_def)
  qed
next
  case True
  let ?a = "[last_probed c + 1..<num_procs c]" and ?b = "[0..<last_probed c + 1]"
  obtain ra where ra: "match_any_proc r (procs c) ?a = Some ra"
    "case ra of None \<Rightarrow> \<forall>i \<in> set ?a. none_for r (unexpected_frags (procs c ! i)) | Some (i, j) \<Rightarrow> i \<in> set ?a \<and> oldest_for r (unexpected_frags (procs c ! i)) j"
    using match_any_proc_spec [of ?a "procs c" r] len by auto
  obtain rb where rb: "match_any_proc r (procs c) ?b = Some rb"
    "case rb of None \<Rightarrow> \<forall>i \<in> set ?b. none_for r (unexpected_frags (procs c ! i)) | Some (i, j) \<Rightarrow> i \<in> set ?b \<and> oldest_for r (unexpected_frags (procs c ! i)) j"
    using match_any_proc_spec [of ?b "procs c" r] len last by auto
  consider (no) "ra = None" "rb = None" | (b) i j where "ra = None" "rb = Some (i, j)" | (a) i j where "ra = Some (i, j)"
    by (metis not_Some_eq surj_pair)
  then show thesis
  proof cases
    case no
    have "none_for r (unexpected_frags (procs c ! p))" if "p < n" for p
    proof -
      have "p \<in> set ?a \<or> p \<in> set ?b" using that len by auto
      then show ?thesis using ra(2) rb(2) no by fastforce
    qed
    then show thesis using none no True ra rb by (simp add: find_unexpected_def recv_req_match_wild_def)
  next
    case b
    then have "i < n" using rb(2) last by auto
    then show thesis using found [of i j i] b True ra rb by (simp add: find_unexpected_def recv_req_match_wild_def)
  next
    case a
    then show thesis using found [of i j i] True ra len by (simp add: find_unexpected_def recv_req_match_wild_def)
  qed
qed

section \<open>Starting a receive\<close>

lemma accepts_sent:
  assumes "sent_ok sent"
  shows "accepts r (sent p k) \<longleftrightarrow> (req_peer r = OMPI_ANY_SOURCE \<or> req_peer r = int p) \<and> frag_tag_ok r (sent p k)"
proof -
  have "hdr_src (sent p k) = int p" "hdr_tag (sent p k) \<noteq> OMPI_ANY_TAG" using assms by (simp_all add: sent_ok_def)
  then show ?thesis unfolding accepts_def frag_tag_ok_def tag_matches_def by metis
qed

lemma unat_ucast_32_64: "unat (ucast (x :: 32 word) :: 64 word) = unat x"
proof -
  have "unat x < 2 ^ 64" using unsigned_less [of x, where ?'a = nat] by simp
  then show ?thesis by (simp add: unsigned_ucast_eq take_bit_nat_eq_self)
qed

lemma next_sequence:
  assumes "(x :: 32 word) \<noteq> - 1"
  shows "(ucast x :: 64 word) < ucast (x + 1)" and "(ucast x :: 64 word) < PML_MAX_SEQ"
proof -
  have "1 + x \<noteq> 0" using assms by (metis add.commute eq_neg_iff_add_eq_0)
  then have "unat (x + 1) = Suc (unat x)" by (simp add: unatSuc add.commute)
  then show "(ucast x :: 64 word) < ucast (x + 1)" by (simp add: word_less_nat_alt unat_ucast_32_64)
  have "unat x < 2 ^ 32" using unsigned_less [of x, where ?'a = nat] by simp
  moreover have "unat (- 1 :: 64 word) = 2 ^ 64 - 1" by (simp add: unsigned_minus_1_eq_mask mask_eq_exp_minus_1)
  ultimately show "(ucast x :: 64 word) < PML_MAX_SEQ" by (simp add: word_less_nat_alt PML_MAX_SEQ_def unat_ucast_32_64)
qed

lemma match_inv_bump:
  assumes inv: "match_inv sent n c posted h evs" and "recv_sequence c \<noteq> - 1" and "l < n"
  shows "match_inv sent n (c\<lparr>recv_sequence := recv_sequence c + 1, last_probed := l\<rparr>) posted h evs"
proof -
  have "set_queues posted c = c" using inv by (simp add: match_inv_def)
  then have "set_queues posted (c\<lparr>recv_sequence := recv_sequence c + 1, last_probed := l\<rparr>) = c\<lparr>recv_sequence := recv_sequence c + 1, last_probed := l\<rparr>"
    unfolding set_queues_def by (cases c) simp
  moreover have "\<forall>r \<in> set posted. req_sequence r < ucast (recv_sequence c + 1)"
    using inv next_sequence(1) [OF assms(2)] unfolding match_inv_def by (metis order.strict_trans)
  ultimately show ?thesis using inv assms(3) by (simp add: match_inv_def)
qed

text \<open>A change of the posted receives that leaves no acceptable unexpected message behind.\<close>

lemma match_inv_requeue:
  assumes inv: "match_inv sent n c posted h evs" and ok: "posted_ok n q" and seq: "\<forall>r \<in> set q. req_sequence r < ucast (recv_sequence c)"
    and quiet: "\<And>p f r. p < n \<Longrightarrow> f \<in> set (unexpected_frags (procs c ! p)) \<Longrightarrow> r \<in> set q \<Longrightarrow> \<not> accepts r f"
  shows "match_inv sent n (set_queues q c) q h evs"
proof -
  have "unexpected_frags (procs (set_queues q c) ! p) = unexpected_frags (procs c ! p)" if "p < n" for p
    using inv that by (simp add: match_inv_def)
  then show ?thesis using inv ok seq quiet by (simp add: match_inv_def)
qed

text \<open>Appending to the queue of a peer, or to the wild queue, is appending to the single queue.\<close>

lemma set_queues_change:
  assumes len: "length (procs c) = n" and rep: "set_queues posted c = c"
    and peer: "x = OMPI_ANY_SOURCE \<or> 0 \<le> x \<and> x < int n"
    and wild: "wild_of q = (if x = OMPI_ANY_SOURCE then g (wild_of posted) else wild_of posted)"
    and spec: "\<And>p. specific_of p q = (if x = int p then g (specific_of p posted) else specific_of p posted)"
  shows "(if x = OMPI_ANY_SOURCE then Some (c\<lparr>wild_receives := g (wild_receives c)\<rparr>)
      else do {
        proc \<leftarrow> aget (procs c) x;
        ps \<leftarrow> aset (procs c) x (proc\<lparr>specific_receives := g (specific_receives proc)\<rparr>);
        Some (c\<lparr>procs := ps\<rparr>) }) = Some (set_queues q c)"
proof -
  have w: "wild_receives c = wild_of posted" using rep by (metis set_queues_sel(1))
  have s: "specific_receives (procs c ! p) = specific_of p posted" if "p < n" for p
    using rep that len set_queues_sel(6) [of p c posted] by (metis comm_proc.select_convs(4) comm_proc.surjective comm_proc.update_convs(4))
  show ?thesis
  proof (cases "x = OMPI_ANY_SOURCE")
    case True
    then have "x \<noteq> int p" for p by (simp add: OMPI_ANY_SOURCE_def)
    then have "c\<lparr>wild_receives := g (wild_receives c)\<rparr> = set_queues q c"
      using True wild spec w s len by (intro pml_comm_eqI) simp_all
    then show ?thesis using True by simp
  next
    case False
    then obtain p where p: "x = int p" "p < n" using peer by (metis int_nat_eq nat_less_iff zero_le_imp_eq_int)
    have "c\<lparr>procs := (procs c)[p := (procs c ! p)\<lparr>specific_receives := g (specific_receives (procs c ! p))\<rparr>]\<rparr> = set_queues q c"
      using False wild spec w s len p by (intro pml_comm_eqI) (simp_all add: nth_list_update)
    then show ?thesis using False p len by (simp add: aget_def aset_def)
  qed
qed

lemma post_request_ok:
  assumes inv: "match_inv sent n c posted h evs" and peer: "req_peer r = OMPI_ANY_SOURCE \<or> 0 \<le> req_peer r \<and> req_peer r < int n"
    and seq: "req_sequence r < ucast (recv_sequence c)" "req_sequence r < PML_MAX_SEQ" "\<forall>s \<in> set posted. req_sequence s < req_sequence r"
    and quiet: "\<And>p f. p < n \<Longrightarrow> f \<in> set (unexpected_frags (procs c ! p)) \<Longrightarrow> \<not> accepts r f"
  shows "\<exists>c' q. post_request r c = Some c' \<and> match_inv sent n c' q h evs \<and> (\<exists>q'. c' = set_queues q' c)"
proof -
  let ?q = "append_recv_req_to_queue posted r"
  have base: "length (procs c) = n" "set_queues posted c = c" "posted_ok n posted" using inv by (simp_all add: match_inv_def)
  have "post_request r c = Some (set_queues ?q c)"
    unfolding post_request_def
    by (rule set_queues_change [OF base(1,2) peer, of ?q "\<lambda>q. append_recv_req_to_queue q r"])
      (simp_all add: append_recv_req_to_queue_def wild_of_def specific_of_def)
  moreover have "match_inv sent n (set_queues ?q c) ?q h evs"
  proof (rule match_inv_requeue [OF inv])
    show "posted_ok n ?q"
      using base(3) peer seq(2,3) req_kind.exhaust [of "req_type r"] by (auto simp: append_recv_req_to_queue_def posted_ok_def sorted_wrt_append)
    show "\<forall>s \<in> set ?q. req_sequence s < ucast (recv_sequence c)"
      using inv seq(1) by (auto simp: append_recv_req_to_queue_def match_inv_def)
    fix p f s assume "p < n" "f \<in> set (unexpected_frags (procs c ! p))" "s \<in> set ?q"
    then show "\<not> accepts s f" using inv quiet by (auto simp: append_recv_req_to_queue_def match_inv_def split: if_splits)
  qed
  ultimately show ?thesis by blast
qed

lemma drop_nth:
  assumes "sorted_wrt (<) us" and "j < length (us :: nat list)"
  shows "set (take j us @ drop (Suc j) us) = set us - {us ! j}" and "sorted_wrt (<) (take j us @ drop (Suc j) us)"
    and "k \<in> set us \<Longrightarrow> k < us ! j \<Longrightarrow> \<exists>i < j. us ! i = k"
proof -
  obtain a b where u: "us = a @ us ! j # b" "a = take j us" "b = drop (Suc j) us" using id_take_nth_drop [OF assms(2)] by blast
  have "sorted_wrt (<) (a @ us ! j # b)" using assms(1) u(1) by simp
  then have s: "\<forall>x \<in> set a. x < us ! j" "\<forall>x \<in> set b. us ! j < x" "sorted_wrt (<) (a @ b)"
    by (auto simp: sorted_wrt_append)
  have "set us = insert (us ! j) (set (a @ b))" by (subst u(1)) simp
  moreover have "us ! j \<notin> set (a @ b)" using s(1,2) by auto
  ultimately show "set (take j us @ drop (Suc j) us) = set us - {us ! j}" unfolding u(2,3) by simp
  show "sorted_wrt (<) (take j us @ drop (Suc j) us)" using s(3) unfolding u(2,3) .
  assume "k \<in> set us" "k < us ! j"
  then obtain i where i: "i < length us" "us ! i = k" by (metis in_set_conv_nth)
  have "\<not> j \<le> i"
  proof
    assume "j \<le> i"
    then have "us ! j \<le> us ! i" using assms(1) i(1) sorted_wrt_nth_less [OF assms(1), of j i] by (cases "j = i") simp_all
    then show False using i(2) \<open>k < us ! j\<close> by simp
  qed
  then show "\<exists>i < j. us ! i = k" using i(2) not_le by blast
qed

lemma match_inv_remove:
  assumes inv: "match_inv sent n c posted h evs" and sent: "sent_ok sent" and i: "i < n" and j: "j < length (unexpected_frags (procs c ! i))"
    and tk: "taken es = [unexpected_frags (procs c ! i) ! j]" and fair: "fair_events sent (taken evs) es"
  shows "match_inv sent n (upd_proc i (\<lambda>x. x\<lparr>unexpected_frags := take j (unexpected_frags x) @ drop (Suc j) (unexpected_frags x)\<rparr>) c) posted h (evs @ es)"
    (is "match_inv _ _ ?c _ _ _")
proof -
  let ?f = "unexpected_frags (procs c ! i) ! j"
  have base: "length (procs c) = n" "set_queues posted c = c" using inv by (simp_all add: match_inv_def)
  have sub: "set (unexpected_frags (procs ?c ! p)) \<subseteq> set (unexpected_frags (procs c ! p))" if "p < n" for p
    using that base(1) set_take_subset set_drop_subset by (cases "p = i") fastforce+
  have unexp: "\<exists>us. unexpected_frags (procs ?c ! p) = map (sent p) us \<and> sorted_wrt (<) us \<and>
      set us = {k. 1 \<le> k \<and> k \<le> h p \<and> sent p k \<notin> set (taken (evs @ es))}" if p: "p < n" for p
  proof -
    obtain us where us: "unexpected_frags (procs c ! p) = map (sent p) us" "sorted_wrt (<) us"
      "set us = {k. 1 \<le> k \<and> k \<le> h p \<and> sent p k \<notin> set (taken evs)}" using inv p by (auto simp: match_inv_def)
    obtain vs where vs: "unexpected_frags (procs c ! i) = map (sent i) vs" using inv i by (auto simp: match_inv_def)
    have f: "?f = sent i (vs ! j)" using vs j by simp
    show ?thesis
    proof (cases "p = i")
      case False
      then have "sent p k \<noteq> ?f" for k using f sent_eq_iff [OF sent] by simp
      then show ?thesis using us tk False by (intro exI [of _ us]) auto
    next
      case True
      have ju: "j < length us" using us(1) True j by simp
      have f': "?f = sent p (us ! j)" using us(1) True ju by simp
      have "set (take j us @ drop (Suc j) us) = {k. 1 \<le> k \<and> k \<le> h p \<and> sent p k \<notin> set (taken (evs @ es))}"
        unfolding drop_nth(1) [OF us(2) ju] us(3) using tk f' sent_eq_iff [OF sent] by auto
      moreover have "unexpected_frags (procs ?c ! p) = map (sent p) (take j us @ drop (Suc j) us)"
        using us(1) True i base(1) by (simp add: take_map drop_map)
      ultimately show ?thesis using drop_nth(2) [OF us(2) ju] by blast
    qed
  qed
  have "?f \<in> set (unexpected_frags (procs c ! i))" using j by simp
  then have mine: "\<exists>p k. p < n \<and> 1 \<le> k \<and> k \<le> h p \<and> ?f = sent p k" using inv i unfolding match_inv_def by fastforce
  have q: "set_queues posted ?c = ?c" using set_queues_upd base(2) by (metis (no_types, lifting) comm_proc.select_convs(5) comm_proc.surjective comm_proc.update_convs(4,5))
  have dom: "\<forall>g \<in> set (taken (evs @ es)). \<exists>p k. p < n \<and> 1 \<le> k \<and> k \<le> h p \<and> g = sent p k"
    using inv mine tk unfolding match_inv_def taken_simps set_append by auto
  have quiet: "\<forall>p < n. \<forall>f \<in> set (unexpected_frags (procs ?c ! p)). \<forall>r \<in> set posted. \<not> accepts r f"
    using sub inv unfolding match_inv_def by blast
  show ?thesis unfolding match_inv_def using q dom quiet unexp fair inv by (simp add: match_inv_def fair_events_append)
qed

text \<open>A receive that takes the oldest unexpected message it accepts overtakes nothing.\<close>

lemma oldest_fair:
  assumes inv: "match_inv sent n c posted h evs" and sent: "sent_ok sent" and i: "i < n"
    and peer: "req_peer r = OMPI_ANY_SOURCE \<or> req_peer r = int i" and old: "oldest_for r (unexpected_frags (procs c ! i)) j"
  shows "fair_take sent (taken evs) r (unexpected_frags (procs c ! i) ! j)"
proof -
  obtain us where us: "unexpected_frags (procs c ! i) = map (sent i) us" "sorted_wrt (<) us"
    "set us = {k. 1 \<le> k \<and> k \<le> h i \<and> sent i k \<notin> set (taken evs)}" using inv i by (auto simp: match_inv_def)
  have j: "j < length us" using old us(1) by (simp add: oldest_for_def)
  then have f: "unexpected_frags (procs c ! i) ! j = sent i (us ! j)" using us(1) by simp
  have mem: "us ! j \<in> set us" using j by simp
  have "sent i k \<in> set (taken evs)" if k: "1 \<le> k" "k < us ! j" "accepts r (sent i k)" for k
  proof (rule ccontr)
    assume "sent i k \<notin> set (taken evs)"
    then have "k \<in> set us" using k mem us(3) by auto
    then obtain l where l: "l < j" "us ! l = k" using drop_nth(3) [OF us(2) j] k(2) by blast
    then have "\<not> frag_tag_ok r (sent i k)" using old us(1) j unfolding oldest_for_def by (metis nth_map order.strict_trans)
    then show False using k(3) accepts_sent [OF sent] by blast
  qed
  moreover have "accepts r (sent i (us ! j))" using accepts_sent [OF sent] peer old f by (auto simp: oldest_for_def)
  ultimately show ?thesis using mem us(3) sent_eq_iff [OF sent] unfolding fair_take_def f by auto
qed

lemma take_unexpected_ok:
  assumes inv: "match_inv sent n c posted h evs" and sent: "sent_ok sent" and i: "i < n"
    and peer: "req_peer r = OMPI_ANY_SOURCE \<or> req_peer r = int i" and old: "oldest_for r (unexpected_frags (procs c ! i)) j"
  shows "\<exists>c' es. take_unexpected r i j c = Some (c', es) \<and> match_inv sent n c' posted h (evs @ es) \<and>
    (\<forall>p < n. expected_sequence (procs c' ! p) = expected_sequence (procs c ! p) \<and> frags_cant_match (procs c' ! p) = frags_cant_match (procs c ! p))"
proof -
  let ?f = "unexpected_frags (procs c ! i) ! j"
  let ?c = "upd_proc i (\<lambda>x. x\<lparr>unexpected_frags := take j (unexpected_frags x) @ drop (Suc j) (unexpected_frags x)\<rparr>) c"
  have j: "j < length (unexpected_frags (procs c ! i))" using old by (simp add: oldest_for_def)
  have len: "length (procs c) = n" using inv by (simp add: match_inv_def)
  have run: "take_unexpected r i j c =
      Some (if \<not> IS_PROB_REQ r then (?c, [Progress (hdr_type ?f) r ?f]) else if IS_MPROB_REQ r then (?c, [Matched_message r ?f]) else (c, [Matched_probe r ?f]))"
    using i j len by (simp add: take_unexpected_def aget_def aset_def upd_proc_def)
  have fields: "\<forall>p < n. expected_sequence (procs ?c ! p) = expected_sequence (procs c ! p) \<and> frags_cant_match (procs ?c ! p) = frags_cant_match (procs c ! p)"
  proof (intro allI impI)
    fix p assume "p < n"
    then show "expected_sequence (procs ?c ! p) = expected_sequence (procs c ! p) \<and> frags_cant_match (procs ?c ! p) = frags_cant_match (procs c ! p)"
      using len by (cases "p = i") simp_all
  qed
  note fair = oldest_fair [OF assms]
  have "match_inv sent n ?c posted h (evs @ [Progress (hdr_type ?f) r ?f])" by (rule match_inv_remove [OF inv sent i j]) (simp_all add: fair)
  moreover have "match_inv sent n ?c posted h (evs @ [Matched_message r ?f])" by (rule match_inv_remove [OF inv sent i j]) (simp_all add: fair)
  moreover have "match_inv sent n c posted h (evs @ [Matched_probe r ?f])" using inv by (simp add: match_inv_def fair_events_append)
  ultimately show ?thesis using run fields by auto
qed

section \<open>The operations on receives keep the invariant\<close>

lemma order_inv_fields:
  assumes "order_inv sent n c A h" and "\<And>p. p < n \<Longrightarrow> expected_sequence (procs c' ! p) = expected_sequence (procs c ! p)"
    and "\<And>p. p < n \<Longrightarrow> frags_cant_match (procs c' ! p) = frags_cant_match (procs c ! p)"
  shows "order_inv sent n c' A h"
  using assms unfolding order_inv_def order_proc_def by simp

definition peer_ok :: "nat \<Rightarrow> recv_request \<Rightarrow> bool" where
  "peer_ok n r \<longleftrightarrow> req_peer r = OMPI_ANY_SOURCE \<or> 0 \<le> req_peer r \<and> req_peer r < int n"

theorem recv_req_start_ok:
  assumes inv: "engine_inv sent n c A evs" and sent: "sent_ok sent" and peer: "peer_ok n req" and seq: "recv_sequence c \<noteq> - 1"
  shows "\<exists>c' es. mca_pml_ob1_recv_req_start req c = Some (c', es) \<and> engine_inv sent n c' A (evs @ es)"
proof -
  obtain posted h where m: "match_inv sent n c posted h evs" and o: "order_inv sent n c A h" and s: "settled n A h"
    using inv unfolding engine_inv_def by blast
  define r where "r = req\<lparr>req_sequence := ucast (recv_sequence c)\<rparr>"
  define c0 where "c0 = c\<lparr>recv_sequence := recv_sequence c + 1\<rparr>"
  have start: "mca_pml_ob1_recv_req_start req c = do { (found, comm) \<leftarrow> find_unexpected r c0;
      (case found of None \<Rightarrow> do { comm \<leftarrow> post_request r comm; Some (comm, []) } | Some (i, j) \<Rightarrow> take_unexpected r i j comm) }"
    by (simp only: mca_pml_ob1_recv_req_start_def Let_def r_def c0_def)
  have base: "length (procs c0) = n" "num_procs c0 = n" "last_probed c0 < n" using m by (simp_all add: c0_def match_inv_def)
  have bump: "match_inv sent n (c0\<lparr>last_probed := l\<rparr>) posted h evs" if "l < n" for l
    using match_inv_bump [OF m seq that] by (simp add: c0_def)
  have order: "order_inv sent n c' A h" if "\<And>p. p < n \<Longrightarrow> expected_sequence (procs c' ! p) = expected_sequence (procs c ! p)"
    "\<And>p. p < n \<Longrightarrow> frags_cant_match (procs c' ! p) = frags_cant_match (procs c ! p)" for c' :: "'a pml_comm"
    using order_inv_fields [OF o that] .
  have pr: "req_peer r = OMPI_ANY_SOURCE \<or> 0 \<le> req_peer r \<and> req_peer r < int n" using peer by (simp add: peer_ok_def r_def)
  show ?thesis
  proof (rule find_unexpected_spec [OF base pr])
    assume none: "find_unexpected r c0 = Some (None, c0)"
      "\<And>p. p < n \<Longrightarrow> req_peer r = OMPI_ANY_SOURCE \<or> req_peer r = int p \<Longrightarrow> none_for r (unexpected_frags (procs c0 ! p))"
    have m0: "match_inv sent n c0 posted h evs" using bump [of "last_probed c0"] base(3) by simp
    have quiet: "\<not> accepts r f" if p: "p < n" "f \<in> set (unexpected_frags (procs c0 ! p))" for p f
    proof
      assume a: "accepts r f"
      obtain k where "f = sent p k" using m0 p unfolding match_inv_def by fastforce
      then show False using a none(2) [OF p(1)] p(2) accepts_sent [OF sent] by (auto simp: none_for_def)
    qed
    have "\<exists>c' q. post_request r c0 = Some c' \<and> match_inv sent n c' q h evs \<and> (\<exists>q'. c' = set_queues q' c0)"
      using m next_sequence [OF seq] by (intro post_request_ok [OF m0 pr _ _ _ quiet]) (simp_all add: r_def c0_def match_inv_def)
    then obtain q q' where q: "post_request r c0 = Some (set_queues q' c0)" "match_inv sent n (set_queues q' c0) q h evs" by blast
    have "order_inv sent n (set_queues q' c0) A h" using base(1) by (intro order) (simp_all add: c0_def)
    then show ?thesis using start none(1) q s unfolding engine_inv_def by auto
  next
    fix i j l assume found: "find_unexpected r c0 = Some (Some (i, j), c0\<lparr>last_probed := l\<rparr>)" "i < n" "l < n"
      "req_peer r = OMPI_ANY_SOURCE \<or> req_peer r = int i" "oldest_for r (unexpected_frags (procs c0 ! i)) j"
    then obtain c' es where t: "take_unexpected r i j (c0\<lparr>last_probed := l\<rparr>) = Some (c', es)" "match_inv sent n c' posted h (evs @ es)"
      "\<forall>p < n. expected_sequence (procs c' ! p) = expected_sequence (procs c ! p) \<and> frags_cant_match (procs c' ! p) = frags_cant_match (procs c ! p)"
      using take_unexpected_ok [OF bump [of l] sent, of i r j] by (auto simp: c0_def)
    have "order_inv sent n c' A h" using t(3) by (intro order) simp_all
    then show ?thesis using start found(1) t(1,2) s unfolding engine_inv_def by auto
  qed
qed

end
