(* ===== verification/Ob1_Ledger.thy ===== *)
theory Ob1_Ledger
  imports Ob1_Post "HOL-Library.Multiset"
begin

text \<open>
  Where a started request is: in a queue of the communicator or in an event. The operations on
  fragments move requests from the queues to the events and lose none; a receive that is started
  goes to one of the two. The induction rules for the two loops over fragments are here too.
\<close>

section \<open>Induction over the loops\<close>

lemma match_one_induct [consumes 1, case_names unexpected probe mprobe recv]:
  assumes run: "match_one f c es = Some y"
    and unexpected: "\<And>c es c1 c2. match_incomming f c = Some (None, c1) \<Longrightarrow> append_unexpected f c1 = Some c2 \<Longrightarrow> P c es (None, c2, es)"
    and probe: "\<And>c es r c1 y. match_incomming f c = Some (Some r, c1) \<Longrightarrow> req_type r = REQUEST_PROBE \<Longrightarrow>
      P c1 (es @ [Matched_probe r f]) y \<Longrightarrow> P c es y"
    and mprobe: "\<And>c es r c1. match_incomming f c = Some (Some r, c1) \<Longrightarrow> req_type r = REQUEST_MPROBE \<Longrightarrow>
      P c es (None, c1, es @ [Matched_message r f])"
    and recv: "\<And>c es r c1. match_incomming f c = Some (Some r, c1) \<Longrightarrow> req_type r \<noteq> REQUEST_PROBE \<Longrightarrow> req_type r \<noteq> REQUEST_MPROBE \<Longrightarrow>
      P c es (Some r, c1, es)"
  shows "P c es y"
proof -
  have "g = f \<longrightarrow> P c es y" if "match_one g c es = Some y" for g
  proof (rule match_one.raw_induct [where P = "\<lambda>g c es y. g = f \<longrightarrow> P c es y", OF _ that])
    fix loop :: "'a recv_frag \<Rightarrow> 'a pml_comm \<Rightarrow> 'a match_event list \<Rightarrow> (recv_request option \<times> 'a pml_comm \<times> 'a match_event list) option"
      and g c es y
    assume IH: "\<And>g c es y. loop g c es = Some y \<Longrightarrow> g = f \<longrightarrow> P c es y"
      and body: "do {
       (match, comm) \<leftarrow> match_incomming g c;
       (case match of
          None \<Rightarrow> do { comm \<leftarrow> append_unexpected g comm; Some (None, comm, es) }
        | Some req \<Rightarrow>
            if req_type req = REQUEST_PROBE then loop g comm (es @ [Matched_probe req g])
            else if req_type req = REQUEST_MPROBE then Some (None, comm, es @ [Matched_message req g])
            else Some (Some req, comm, es)) } = Some y"
    then obtain m c1 where i: "match_incomming g c = Some (m, c1)"
      and b: "(case m of
          None \<Rightarrow> do { comm \<leftarrow> append_unexpected g c1; Some (None, comm, es) }
        | Some req \<Rightarrow>
            if req_type req = REQUEST_PROBE then loop g c1 (es @ [Matched_probe req g])
            else if req_type req = REQUEST_MPROBE then Some (None, c1, es @ [Matched_message req g])
            else Some (Some req, c1, es)) = Some y"
      by (auto simp: bind_eq_Some_conv)
    show "g = f \<longrightarrow> P c es y"
    proof (cases m)
      case None
      then show ?thesis using b i unexpected [of c c1 _ es] by (auto simp: bind_eq_Some_conv)
    next
      case (Some req)
      then show ?thesis using b i probe [of c req c1 es y] mprobe [of c req c1 es] recv [of c req c1 es]
          IH [of g c1 "es @ [Matched_probe req g]" y] by (auto split: if_splits)
    qed
  qed
  then show ?thesis using run by blast
qed

definition progressed :: "hdr_kind \<Rightarrow> 'm recv_frag \<Rightarrow> recv_request option \<Rightarrow> 'm match_event list \<Rightarrow> 'm match_event list" where
  "progressed t f m es = (case m of None \<Rightarrow> es | Some r \<Rightarrow> es @ [Progress t r f])"

lemma out_of_order_match_induct [consumes 1, case_names stop more]:
  assumes run: "out_of_order_match t f c es = Some y"
    and stop: "\<And>t f c es c1 m c2 es2. expect_next (hdr_src f) c = Some c1 \<Longrightarrow> match_one f c1 es = Some (m, c2, es2) \<Longrightarrow>
      P t f c es (c2, progressed t f m es2)"
    and more: "\<And>t f c es c1 m c2 es2 proc frag proc' ps y. expect_next (hdr_src f) c = Some c1 \<Longrightarrow> match_one f c1 es = Some (m, c2, es2) \<Longrightarrow>
      aget (procs c2) (hdr_src f) = Some proc \<Longrightarrow> check_cantmatch_for_match proc = Some (frag, proc') \<Longrightarrow> aset (procs c2) (hdr_src f) proc' = Some ps \<Longrightarrow>
      P (hdr_type frag) frag (c2\<lparr>procs := ps\<rparr>) (progressed t f m es2) y \<Longrightarrow> P t f c es y"
  shows "P t f c es y"
proof (rule out_of_order_match.raw_induct [where P = P, OF _ run])
  fix loop :: "hdr_kind \<Rightarrow> 'a recv_frag \<Rightarrow> 'a pml_comm \<Rightarrow> 'a match_event list \<Rightarrow> ('a pml_comm \<times> 'a match_event list) option"
    and t f c es y
  assume IH: "\<And>t f c es y. loop t f c es = Some y \<Longrightarrow> P t f c es y"
    and body: "do {
     comm \<leftarrow> expect_next (hdr_src f) c;
     (match, comm, evs) \<leftarrow> match_one f comm es;
     let evs = (case match of None \<Rightarrow> evs | Some req \<Rightarrow> evs @ [Progress t req f]);
     proc \<leftarrow> aget (procs comm) (hdr_src f);
     (if length (frags_cant_match proc) > 0 then
        (case check_cantmatch_for_match proc of
           None \<Rightarrow> Some (comm, evs)
         | Some (frag', proc) \<Rightarrow> do {
             ps \<leftarrow> aset (procs comm) (hdr_src f) proc;
             loop (hdr_type frag') frag' (comm\<lparr>procs := ps\<rparr>) evs })
      else Some (comm, evs)) } = Some y"
  then obtain c1 m c2 es2 proc where 1: "expect_next (hdr_src f) c = Some c1" "match_one f c1 es = Some (m, c2, es2)"
    and p: "aget (procs c2) (hdr_src f) = Some proc"
    and 2: "let evs = (case m of None \<Rightarrow> es2 | Some req \<Rightarrow> es2 @ [Progress t req f]) in
      (if length (frags_cant_match proc) > 0 then
        (case check_cantmatch_for_match proc of
           None \<Rightarrow> Some (c2, evs)
         | Some (frag', proc) \<Rightarrow> do {
             ps \<leftarrow> aset (procs c2) (hdr_src f) proc;
             loop (hdr_type frag') frag' (c2\<lparr>procs := ps\<rparr>) evs })
      else Some (c2, evs)) = Some y"
    by (auto simp: bind_eq_Some_conv Let_def)
  show "P t f c es y"
  proof (cases "y = (c2, progressed t f m es2)")
    case True
    then show ?thesis using stop [OF 1] by simp
  next
    case False
    then obtain frag proc' ps where "check_cantmatch_for_match proc = Some (frag, proc')" "aset (procs c2) (hdr_src f) proc' = Some ps"
      "loop (hdr_type frag) frag (c2\<lparr>procs := ps\<rparr>) (progressed t f m es2) = Some y"
      using 2 unfolding progressed_def by (auto simp: bind_eq_Some_conv Let_def split: if_splits option.splits)
    then show ?thesis using more [OF 1 p] IH by blast
  qed
qed

section \<open>The ledger\<close>

fun event_request :: "'m match_event \<Rightarrow> recv_request" where
  "event_request (Progress t r f) = r"
| "event_request (Matched_probe r f) = r"
| "event_request (Matched_message r f) = r"

text \<open>The requests in the queues of a communicator, and with them those that were matched.\<close>

definition queued :: "'m pml_comm \<Rightarrow> recv_request multiset" where
  "queued c = mset (wild_receives c) + sum_list (map (\<lambda>x. mset (specific_receives x)) (procs c))"

definition ledger :: "'m pml_comm \<Rightarrow> 'm match_event list \<Rightarrow> recv_request multiset" where
  "ledger c es = queued c + mset (map event_request es)"

lemma ledger_append: "ledger c (es @ es') = ledger c es + mset (map event_request es')"
  by (simp add: ledger_def)

lemma queued_update:
  assumes "aget (procs c) x = Some proc" and "aset (procs c) x proc' = Some ps"
  shows "queued (c\<lparr>wild_receives := w, procs := ps\<rparr>) + mset (specific_receives proc) + mset (wild_receives c) =
    queued c + mset (specific_receives proc') + mset w"
proof -
  let ?p = "nat x"
  have p: "?p < length (procs c)" "proc = procs c ! ?p" "ps = (procs c)[?p := proc']"
    using assms by (auto simp: aget_eq_Some_iff aset_eq_Some_iff nat_less_iff)
  have "sum_list (map g (xs[p := z])) + g (xs ! p) = sum_list (map g xs) + g z" if "p < length xs" for g :: "'a comm_proc \<Rightarrow> recv_request multiset" and xs z p
    using that
  proof (induction xs arbitrary: p)
    case (Cons a xs)
    then show ?case by (cases p) (simp_all add: ac_simps)
  qed simp
  from this [OF p(1), of "\<lambda>x. mset (specific_receives x)" proc'] show ?thesis using p(2,3) by (simp add: queued_def ac_simps)
qed

lemma queued_same:
  assumes "aget (procs c) x = Some proc" and "aset (procs c) x proc' = Some ps" and "specific_receives proc' = specific_receives proc"
  shows "queued (c\<lparr>procs := ps\<rparr>) = queued c"
  using queued_update [OF assms(1,2), of "wild_receives c"] assms(3) by simp

lemma match_loop_conserves:
  "match_loop tag wd w sd s = Some (m, w', s') \<Longrightarrow> mset wd + mset w + mset sd + mset s = mset w' + mset s' + mset_set (set_option m)"
proof (induction tag wd w sd s rule: match_loop.induct)
  case (1 tag wd w sd s)
  then show ?case by (subst (asm) (3) match_loop.simps) (auto split: if_splits list.splits)
qed

lemma match_incomming_conserves:
  assumes "match_incomming f c = Some (m, c')"
  shows "queued c = queued c' + mset_set (set_option m)"
proof -
  obtain proc w s ps where p: "aget (procs c) (hdr_src f) = Some proc" "match_loop (hdr_tag f) [] (wild_receives c) [] (specific_receives proc) = Some (m, w, s)"
    "aset (procs c) (hdr_src f) (proc\<lparr>specific_receives := s\<rparr>) = Some ps" "c' = c\<lparr>wild_receives := w, procs := ps\<rparr>"
    using assms by (auto simp: match_incomming_def bind_eq_Some_conv)
  have cancel: "q = q' + d" if "q' + a + b = q + a' + b'" "b + a = b' + a' + d" for q q' a b a' b' d :: "recv_request multiset"
  proof (rule multiset_eqI)
    fix x
    show "count q x = count (q' + d) x" using arg_cong [OF that(1), of "\<lambda>m. count m x"] arg_cong [OF that(2), of "\<lambda>m. count m x"] by simp
  qed
  show ?thesis using cancel [OF queued_update [OF p(1,3), of w]] match_loop_conserves [OF p(2)] p(4) by simp
qed


lemma append_unexpected_conserves: "append_unexpected f c = Some c' \<Longrightarrow> queued c' = queued c"
  using queued_same by (fastforce simp: append_unexpected_def bind_eq_Some_conv)

lemma append_cant_match_conserves: "append_cant_match f c = Some c' \<Longrightarrow> queued c' = queued c"
  using queued_same by (fastforce simp: append_cant_match_def bind_eq_Some_conv)

lemma expect_next_conserves: "expect_next src c = Some c' \<Longrightarrow> ledger c' es = ledger c es"
  using queued_same by (fastforce simp: expect_next_def bind_eq_Some_conv ledger_def)

text \<open>A receive is matched only by its progress, which sets \<^verbatim>\<open>req_match_received\<close>.\<close>

fun is_progress :: "'m match_event \<Rightarrow> bool" where
  "is_progress (Progress t r f) = True"
| "is_progress _ = False"

definition receives_progress :: "'m match_event list \<Rightarrow> bool" where
  "receives_progress es \<longleftrightarrow> (\<forall>e \<in> set es. req_type (event_request e) = REQUEST_RECV \<longrightarrow> is_progress e)"

lemma receives_progress_append [simp]: "receives_progress (es @ es') \<longleftrightarrow> receives_progress es \<and> receives_progress es'"
  by (auto simp: receives_progress_def)

lemma receives_progress_simps [simp]:
  "receives_progress []" "receives_progress [Progress t r f]"
  "receives_progress [Matched_probe r f] \<longleftrightarrow> req_type r \<noteq> REQUEST_RECV" "receives_progress [Matched_message r f] \<longleftrightarrow> req_type r \<noteq> REQUEST_RECV"
  by (simp_all add: receives_progress_def)

lemma match_one_conserves:
  assumes "match_one f c es = Some (m, c', es')"
  shows "ledger c es = ledger c' es' + mset_set (set_option m)" and "receives_progress es \<Longrightarrow> receives_progress es'"
proof -
  have "ledger c es = ledger (fst (snd y)) (snd (snd y)) + mset_set (set_option (fst y)) \<and> (receives_progress es \<longrightarrow> receives_progress (snd (snd y)))"
    if "match_one f c es = Some y" for y
    using that
  proof (induction rule: match_one_induct)
    case (unexpected c es c1 c2)
    then show ?case using match_incomming_conserves append_unexpected_conserves by (fastforce simp: ledger_def)
  next
    case (probe c es r c1 y)
    then show ?case using match_incomming_conserves [OF probe(1)] by (simp add: ledger_def)
  next
    case (mprobe c es r c1)
    then show ?case using match_incomming_conserves [OF mprobe(1)] by (auto simp: ledger_def)
  next
    case (recv c es r c1)
    then show ?case using match_incomming_conserves [OF recv(1)] by (auto simp: ledger_def)
  qed
  from this [OF assms] show "ledger c es = ledger c' es' + mset_set (set_option m)" and "receives_progress es \<Longrightarrow> receives_progress es'" by simp_all
qed

lemma progressed_ledger:
  "ledger c (progressed t f m es) = ledger c es + mset_set (set_option m)" "receives_progress (progressed t f m es) \<longleftrightarrow> receives_progress es"
  by (cases m; simp add: progressed_def ledger_append)+

lemma check_cantmatch_receives: "check_cantmatch_for_match proc = Some (f, proc') \<Longrightarrow> specific_receives proc' = specific_receives proc"
  by (auto simp: check_cantmatch_for_match_def)

lemma out_of_order_match_conserves:
  assumes "out_of_order_match t f c es = Some y"
  shows "ledger (fst y) (snd y) = ledger c es \<and> (receives_progress es \<longrightarrow> receives_progress (snd y))"
  using assms
proof (induction rule: out_of_order_match_induct)
  case (stop t f c es c1 m c2 es2)
  then show ?case using expect_next_conserves [OF stop(1)] match_one_conserves [OF stop(2)] by (simp add: progressed_ledger)
next
  case (more t f c es c1 m c2 es2 proc frag proc' ps y)
  have "queued (c2\<lparr>procs := ps\<rparr>) = queued c2" using queued_same [OF more(3,5)] check_cantmatch_receives [OF more(4)] by simp
  then have "ledger (c2\<lparr>procs := ps\<rparr>) e = ledger c2 e" for e by (simp add: ledger_def)
  then show ?case using more(6) expect_next_conserves [OF more(1)] match_one_conserves [OF more(2)] by (simp add: progressed_ledger)
qed

lemma match_in_comm_conserves:
  assumes "match_in_comm t f c = Some (c', es)"
  shows "ledger c' es = queued c" and "receives_progress es"
  using assms append_cant_match_conserves [of f c c'] out_of_order_match_conserves [of t f c "[]" "(c', es)"]
  by (auto simp: match_in_comm_def bind_eq_Some_conv ledger_def split: if_splits)

section \<open>Starting a receive\<close>

lemma take_unexpected_ledger:
  assumes "take_unexpected r i j c = Some (c', es)"
  shows "ledger c' es = queued c + {#r#}" and "receives_progress es"
proof -
  obtain proc frag ps where p: "aget (procs c) (int i) = Some proc" "aget (unexpected_frags proc) (int j) = Some frag"
    "aset (procs c) (int i) (proc\<lparr>unexpected_frags := take j (unexpected_frags proc) @ drop (Suc j) (unexpected_frags proc)\<rparr>) = Some ps"
    "(c', es) = (if \<not> IS_PROB_REQ r then (c\<lparr>procs := ps\<rparr>, [Progress (hdr_type frag) r frag])
           else if IS_MPROB_REQ r then (c\<lparr>procs := ps\<rparr>, [Matched_message r frag])
           else (c, [Matched_probe r frag]))"
    using assms unfolding take_unexpected_def by (fastforce simp: bind_eq_Some_conv)
  have "queued (c\<lparr>procs := ps\<rparr>) = queued c" using queued_same [OF p(1,3)] by simp
  then show "ledger c' es = queued c + {#r#}" using p(4) by (auto simp: ledger_def split: if_splits)
  show "receives_progress es" using p(4) by (auto simp: IS_PROB_REQ_def split: if_splits)
qed

lemma post_request_ledger:
  assumes "post_request r c = Some c'"
  shows "queued c' = queued c + (if req_type r = REQUEST_IPROBE \<or> req_type r = REQUEST_IMPROBE then {#} else {#r#})"
proof (cases "req_peer r = OMPI_ANY_SOURCE")
  case True
  then show ?thesis using assms by (auto simp: post_request_def append_recv_req_to_queue_def queued_def)
next
  case False
  then obtain proc ps where p: "aget (procs c) (req_peer r) = Some proc"
    "aset (procs c) (req_peer r) (proc\<lparr>specific_receives := append_recv_req_to_queue (specific_receives proc) r\<rparr>) = Some ps" "c' = c\<lparr>procs := ps\<rparr>"
    using assms by (auto simp: post_request_def bind_eq_Some_conv)
  then show ?thesis using queued_update [OF p(1,2), of "wild_receives c"] by (auto simp: append_recv_req_to_queue_def)
qed

lemma find_unexpected_queued: "find_unexpected r c = Some (found, c') \<Longrightarrow> queued c' = queued c"
  by (auto simp: find_unexpected_def recv_req_match_wild_def queued_def bind_eq_Some_conv split: if_splits option.splits)

text \<open>A request that is started is queued or matched; one that only polls may be neither.\<close>

lemma recv_req_start_ledger:
  assumes "mca_pml_ob1_recv_req_start req c = Some (c', es)"
  defines "r \<equiv> req\<lparr>req_sequence := ucast (recv_sequence c)\<rparr>"
  shows "ledger c' es = queued c + {#r#} \<or> req_type req \<noteq> REQUEST_RECV \<and> ledger c' es = queued c" and "receives_progress es"
proof -
  let ?c = "c\<lparr>recv_sequence := recv_sequence c + 1\<rparr>"
  obtain found c1 where f: "find_unexpected r ?c = Some (found, c1)"
    and rest: "(case found of None \<Rightarrow> do { comm \<leftarrow> post_request r c1; Some (comm, []) } | Some (i, j) \<Rightarrow> take_unexpected r i j c1) = Some (c', es)"
    using assms(1) unfolding mca_pml_ob1_recv_req_start_def Let_def r_def by (auto simp: bind_eq_Some_conv)
  have q: "queued c1 = queued c" using find_unexpected_queued [OF f] by (simp add: queued_def)
  show "ledger c' es = queued c + {#r#} \<or> req_type req \<noteq> REQUEST_RECV \<and> ledger c' es = queued c"
    using rest q post_request_ledger [of r c1 c'] take_unexpected_ledger(1) [of r _ _ c1 c' es]
    by (cases found) (auto simp: ledger_def r_def bind_eq_Some_conv split: if_splits)
  show "receives_progress es" using rest take_unexpected_ledger(2) [of r _ _ c1 c' es] by (cases found) (auto simp: bind_eq_Some_conv)
qed

section \<open>Cancelling a receive\<close>

definition unique_ids :: "recv_request multiset \<Rightarrow> bool" where
  "unique_ids rs \<longleftrightarrow> (\<forall>i. count (image_mset req_id rs) i \<le> 1)"

lemma unique_ids_mset: "unique_ids (mset q) \<longleftrightarrow> distinct (map req_id q)"
proof -
  have "distinct (map req_id q) \<longleftrightarrow> (\<forall>i. count (mset (map req_id q)) i = (if i \<in> set (map req_id q) then 1 else 0))"
    by (rule distinct_count_atmost_1)
  also have "\<dots> \<longleftrightarrow> (\<forall>i. count (mset (map req_id q)) i \<le> 1)" by (metis count_greater_eq_one_iff le_antisym not_in_iff order_refl set_mset_mset zero_le_one)
  finally show ?thesis by (simp add: unique_ids_def)
qed

lemma queued_set_queues:
  assumes "\<forall>r \<in> set q. req_peer r = OMPI_ANY_SOURCE \<or> 0 \<le> req_peer r \<and> req_peer r < int (length (procs c))"
  shows "queued (set_queues q c) = mset q"
proof -
  let ?n = "length (procs c)"
  have "mset (wild_of q) + (\<Sum>i < ?n. mset (specific_of i q)) = mset q"
    using assms
  proof (induction q)
    case (Cons r q)
    have spec: "mset (specific_of i (r # q)) = (if req_peer r = int i then {#r#} else {#}) + mset (specific_of i q)" for i
      by (simp add: specific_of_def)
    have "(if req_peer r = OMPI_ANY_SOURCE then {#r#} else {#}) + (\<Sum>i < ?n. if req_peer r = int i then {#r#} else {#}) = {#r#}"
    proof (cases "req_peer r = OMPI_ANY_SOURCE")
      case True
      then show ?thesis by (simp add: OMPI_ANY_SOURCE_def)
    next
      case False
      then obtain p where "req_peer r = int p" "p < ?n" using Cons.prems by (metis list.set_intros(1) int_nat_eq nat_less_iff zero_le_imp_eq_int)
      then show ?thesis using False by (simp add: sum.delta)
    qed
    moreover have "mset (wild_of (r # q)) = (if req_peer r = OMPI_ANY_SOURCE then {#r#} else {#}) + mset (wild_of q)" by (simp add: wild_of_def)
    ultimately show ?case using Cons by (simp add: spec sum.distrib ac_simps)
  qed (simp add: wild_of_def specific_of_def)
  moreover have "sum_list (map (\<lambda>x. mset (specific_receives x)) (procs (set_queues q c))) = (\<Sum>i < ?n. mset (specific_of i q))"
    by (simp add: set_queues_def comp_def interv_sum_list_conv_sum_set_nat atLeast0LessThan)
  ultimately show ?thesis by (simp add: queued_def)
qed

lemma remove_item_filter:
  assumes "distinct (map req_id q)" and "r \<in> set q" and "req_id r = req_id req"
  shows "opal_list_remove_item q req = Some (filter (\<lambda>x. req_id x \<noteq> req_id req) q)" and "mset q = add_mset r (mset (filter (\<lambda>x. req_id x \<noteq> req_id req) q))"
proof -
  have "opal_list_remove_item q req = Some (filter (\<lambda>x. req_id x \<noteq> req_id req) q) \<and> mset q = add_mset r (mset (filter (\<lambda>x. req_id x \<noteq> req_id req) q))"
    using assms
  proof (induction q)
    case (Cons a q)
    show ?case
    proof (cases "req_id a = req_id req")
      case True
      then have "req_id x \<noteq> req_id req" if "x \<in> set q" for x using Cons.prems(1) that by (auto simp: image_iff)
      then have "filter (\<lambda>x. req_id x \<noteq> req_id req) q = q" by (simp add: filter_id_conv)
      moreover have "a = r" using True Cons.prems by (auto simp: image_iff)
      ultimately show ?thesis using True by simp
    next
      case False
      then show ?thesis using Cons by auto
    qed
  qed simp
  then show "opal_list_remove_item q req = Some (filter (\<lambda>x. req_id x \<noteq> req_id req) q)"
    and "mset q = add_mset r (mset (filter (\<lambda>x. req_id x \<noteq> req_id req) q))" by blast+
qed

text \<open>Taking a request out of its queue is taking it out of the single queue of posted requests.\<close>

lemma cancel_set_queues:
  assumes len: "length (procs c) = n" and rep: "set_queues posted c = c" and ids: "distinct (map req_id posted)"
    and r: "r \<in> set posted" "req_id r = req_id req" "req_peer r = req_peer req"
    and peer: "req_peer req = OMPI_ANY_SOURCE \<or> 0 \<le> req_peer req \<and> req_peer req < int n"
  shows "mca_pml_ob1_recv_request_cancel False req c = Some (True, set_queues (filter (\<lambda>x. req_id x \<noteq> req_id req) posted) c)"
proof -
  let ?f = "filter (\<lambda>x. req_id x \<noteq> req_id req)"
  have own: "x = r" if "x \<in> set posted" "req_id x = req_id req" for x
    using that r(1,2) ids by (metis distinct_map inj_onD)
  have wild: "wild_receives c = wild_of posted" using rep by (metis set_queues_sel(1))
  have spec: "specific_receives (procs c ! p) = specific_of p posted" if "p < n" for p
    using len rep that set_queues_sel(6) [of p c posted] by (metis comm_proc.select_convs(4) comm_proc.surjective comm_proc.update_convs(4))
  have remove: "opal_list_remove_item (filter P posted) req = Some (?f (filter P posted))" if "P r" for P
    using ids r(1,2) that by (intro remove_item_filter(1) [of _ r]) (auto simp: distinct_map inj_on_def)
  have "mca_pml_ob1_recv_request_cancel False req c = map_option (Pair True)
     (if req_peer req = OMPI_ANY_SOURCE then Some (c\<lparr>wild_receives := ?f (wild_receives c)\<rparr>)
      else do {
        proc \<leftarrow> aget (procs c) (req_peer req);
        ps \<leftarrow> aset (procs c) (req_peer req) (proc\<lparr>specific_receives := ?f (specific_receives proc)\<rparr>);
        Some (c\<lparr>procs := ps\<rparr>) })"
  proof (cases "req_peer req = OMPI_ANY_SOURCE")
    case True
    then show ?thesis using remove [of "\<lambda>r. req_peer r = OMPI_ANY_SOURCE"] r(3) wild
      by (simp add: mca_pml_ob1_recv_request_cancel_def wild_of_def)
  next
    case False
    then obtain p where p: "req_peer req = int p" "p < n" using peer by (metis int_nat_eq nat_less_iff zero_le_imp_eq_int)
    then show ?thesis using remove [of "\<lambda>r. req_peer r = int p"] r(3) spec [of p] len False
      by (simp add: mca_pml_ob1_recv_request_cancel_def specific_of_def aget_def aset_def)
  qed
  moreover have keep: "?f (filter P posted) = filter P posted" if "\<not> P r" for P
    unfolding filter_filter using own that by (intro filter_cong) auto
  have "wild_of (?f posted) = (if req_peer req = OMPI_ANY_SOURCE then ?f (wild_of posted) else wild_of posted)"
    using keep [of "\<lambda>r. req_peer r = OMPI_ANY_SOURCE"] r(3) by (simp add: wild_of_def filter_filter conj_commute cong: conj_cong)
  moreover have "specific_of p (?f posted) = (if req_peer req = int p then ?f (specific_of p posted) else specific_of p posted)" for p
    using keep [of "\<lambda>r. req_peer r = int p"] r(3) by (simp add: specific_of_def filter_filter conj_commute cong: conj_cong)
  ultimately show ?thesis using set_queues_change [OF len rep peer, of "?f posted" ?f] by simp
qed

text \<open>A queued request with its own number is taken out of its queue, and nothing else changes.\<close>

theorem recv_request_cancel_ok:
  assumes inv: "engine_inv sent n c A evs" and r: "r \<in># queued c" "req_id r = req_id req" "req_peer r = req_peer req"
    and unique: "unique_ids (queued c)"
  shows "\<exists>c'. mca_pml_ob1_recv_request_cancel False req c = Some (True, c') \<and> engine_inv sent n c' A evs \<and>
    queued c = add_mset r (queued c') \<and> recv_sequence c' = recv_sequence c"
proof -
  obtain posted h where m: "match_inv sent n c posted h evs" and o: "order_inv sent n c A h" and s: "settled n A h"
    using inv unfolding engine_inv_def by blast
  have base: "length (procs c) = n" "set_queues posted c = c" "posted_ok n posted" using m by (simp_all add: match_inv_def)
  have peers: "\<forall>r \<in> set posted. req_peer r = OMPI_ANY_SOURCE \<or> 0 \<le> req_peer r \<and> req_peer r < int (length (procs c))"
    using base by (simp add: posted_ok_def)
  have q: "queued c = mset posted" using queued_set_queues [OF peers] base(2) by simp
  have dp: "distinct (map req_id posted)" and rp: "r \<in> set posted" using unique r(1) q unique_ids_mset by simp_all
  define q' where "q' = filter (\<lambda>x. req_id x \<noteq> req_id req) posted"
  have "req_peer req = OMPI_ANY_SOURCE \<or> 0 \<le> req_peer req \<and> req_peer req < int n" using peers rp r(3) base(1) by metis
  then have "mca_pml_ob1_recv_request_cancel False req c = Some (True, set_queues q' c)"
    unfolding q'_def by (rule cancel_set_queues [OF base(1,2) dp rp r(2,3)])
  moreover have "engine_inv sent n (set_queues q' c) A evs"
  proof -
    have "match_inv sent n (set_queues q' c) q' h evs"
      using base(3) m by (intro match_inv_requeue [OF m]) (auto simp: q'_def posted_ok_def match_inv_def sorted_wrt_filter)
    moreover have "order_inv sent n (set_queues q' c) A h" using base(1) by (intro order_inv_fields [OF o]) simp_all
    ultimately show ?thesis using s unfolding engine_inv_def by blast
  qed
  moreover have "queued c = add_mset r (queued (set_queues q' c))"
  proof -
    have "queued (set_queues q' c) = mset q'" using peers by (intro queued_set_queues) (simp add: q'_def)
    then show ?thesis using remove_item_filter(2) [OF dp rp r(2)] by (simp only: q q'_def)
  qed
  ultimately show ?thesis by (intro exI [of _ "set_queues q' c"]) simp
qed

text \<open>Cancelling the receive once more: it is in no queue, and the removal unlinks it all the same.\<close>

lemma remove_item_missing: "req_id req \<notin> req_id ` set q \<Longrightarrow> opal_list_remove_item q req = None"
  by (induction q) auto

lemma recv_request_cancel_missing:
  assumes "req_id req \<notin> req_id ` set_mset (queued c)"
  shows "mca_pml_ob1_recv_request_cancel False req c = None"
proof (cases "req_peer req = OMPI_ANY_SOURCE")
  case True
  have "req_id req \<notin> req_id ` set (wild_receives c)" using assms by (auto simp: queued_def)
  then show ?thesis using True by (simp add: mca_pml_ob1_recv_request_cancel_def remove_item_missing)
next
  case False
  have "set_mset (sum_list (map (\<lambda>x. mset (specific_receives x)) xs)) = (\<Union>x \<in> set xs. set (specific_receives x))" for xs :: "'a comm_proc list"
    by (induction xs) simp_all
  then have "opal_list_remove_item (specific_receives x) req = None" if "x \<in> set (procs c)" for x
    using that assms by (intro remove_item_missing) (auto simp: queued_def)
  then show ?thesis using False by (simp add: mca_pml_ob1_recv_request_cancel_def aget_def nat_less_iff)
qed

end
