(* ===== verification/Message_Matching.thy ===== *)
theory Message_Matching
  imports Main
begin

text \<open>
  The interface between a matching engine and the program that uses it: messages arrive, receives are
  posted and cancelled, in any interleaving. What may happen next depends on what happened before, so
  every condition and the invariant refer to the history of operations. \<open>matching_engine\<close> states
  what every operation promises, \<open>run_total\<close> what follows for whole runs: none gets stuck, and the
  invariant relates the final state to the history and to all the events.
\<close>

datatype ('id, 'r) match_op = Arrive 'id | Post 'r | Cancel 'r

fun run_ops ::
    "('id \<Rightarrow> 's \<Rightarrow> ('s \<times> 'e list) option) \<Rightarrow> ('r \<Rightarrow> 's \<Rightarrow> ('s \<times> 'e list) option) \<Rightarrow> ('r \<Rightarrow> 's \<Rightarrow> 's option)
     \<Rightarrow> ('id, 'r) match_op list \<Rightarrow> 's \<Rightarrow> ('s \<times> 'e list) option" where
  "run_ops arrive post cancel [] s = Some (s, [])"
| "run_ops arrive post cancel (op # ops) s =
     (case (case op of Arrive m \<Rightarrow> arrive m s | Post r \<Rightarrow> post r s | Cancel r \<Rightarrow> map_option (\<lambda>s. (s, [])) (cancel r s)) of
        None \<Rightarrow> None
      | Some (s, es) \<Rightarrow> map_option (\<lambda>(s, es'). (s, es @ es')) (run_ops arrive post cancel ops s))"

fun arrivals :: "('id, 'r) match_op list \<Rightarrow> 'id list" where
  "arrivals [] = []"
| "arrivals (Arrive m # ops) = m # arrivals ops"
| "arrivals (_ # ops) = arrivals ops"

fun posted_requests :: "('id, 'r) match_op list \<Rightarrow> 'r list" where
  "posted_requests [] = []"
| "posted_requests (Post r # ops) = r # posted_requests ops"
| "posted_requests (_ # ops) = posted_requests ops"

definition posts :: "('id, 'r) match_op list \<Rightarrow> nat" where
  "posts ops = length (posted_requests ops)"

lemma arrivals_append [simp]: "arrivals (ops @ ops') = arrivals ops @ arrivals ops'"
  by (induction ops rule: arrivals.induct) simp_all

lemma posted_requests_append [simp]: "posted_requests (ops @ ops') = posted_requests ops @ posted_requests ops'"
  by (induction ops rule: posted_requests.induct) simp_all

lemma posts_simps [simp]:
  "posts [] = 0" "posts (Arrive m # ops) = posts ops" "posts (Post r # ops) = Suc (posts ops)" "posts (Cancel r # ops) = posts ops"
  "posts (ops @ ops') = posts ops + posts ops'"
  by (simp_all add: posts_def)

lemma set_posted_requests: "set (posted_requests ops) = {r. Post r \<in> set ops}"
  by (induction ops rule: posted_requests.induct) auto

text \<open>The operations a program and a network may perform after the operations \<open>h\<close>.\<close>

fun op_ok ::
    "(('id, 'r) match_op list \<Rightarrow> 'id \<Rightarrow> bool) \<Rightarrow> (('id, 'r) match_op list \<Rightarrow> 'r \<Rightarrow> bool) \<Rightarrow> (('id, 'r) match_op list \<Rightarrow> 'r \<Rightarrow> bool)
     \<Rightarrow> ('id, 'r) match_op list \<Rightarrow> ('id, 'r) match_op \<Rightarrow> bool" where
  "op_ok may_arrive may_post may_cancel h (Arrive m) = may_arrive h m"
| "op_ok may_arrive may_post may_cancel h (Post r) = may_post h r"
| "op_ok may_arrive may_post may_cancel h (Cancel r) = may_cancel h r"

fun ops_ok :: "(('id, 'r) match_op list \<Rightarrow> ('id, 'r) match_op \<Rightarrow> bool) \<Rightarrow> ('id, 'r) match_op list \<Rightarrow> ('id, 'r) match_op list \<Rightarrow> bool" where
  "ops_ok ok h [] \<longleftrightarrow> True"
| "ops_ok ok h (op # ops) \<longleftrightarrow> ok h op \<and> ops_ok ok (h @ [op]) ops"

locale matching_engine =
  fixes arrive :: "'id \<Rightarrow> 's \<Rightarrow> ('s \<times> 'e list) option"
    and post :: "'r \<Rightarrow> 's \<Rightarrow> ('s \<times> 'e list) option"
    and cancel :: "'r \<Rightarrow> 's \<Rightarrow> 's option"
    and inv :: "'s \<Rightarrow> ('id, 'r) match_op list \<Rightarrow> 'e list \<Rightarrow> bool"
    and may_arrive :: "('id, 'r) match_op list \<Rightarrow> 'id \<Rightarrow> bool"
    and may_post :: "('id, 'r) match_op list \<Rightarrow> 'r \<Rightarrow> bool"
    and may_cancel :: "('id, 'r) match_op list \<Rightarrow> 'r \<Rightarrow> bool"
    and limit :: nat
  assumes arrive_law: "inv s h es \<Longrightarrow> may_arrive h m \<Longrightarrow> \<exists>s' es'. arrive m s = Some (s', es') \<and> inv s' (h @ [Arrive m]) (es @ es')"
    and post_law: "inv s h es \<Longrightarrow> may_post h r \<Longrightarrow> posts h < limit \<Longrightarrow> \<exists>s' es'. post r s = Some (s', es') \<and> inv s' (h @ [Post r]) (es @ es')"
    and cancel_law: "inv s h es \<Longrightarrow> may_cancel h r \<Longrightarrow> \<exists>s'. cancel r s = Some s' \<and> inv s' (h @ [Cancel r]) es"
begin

lemma op_total:
  assumes "inv s h es" and "op_ok may_arrive may_post may_cancel h op" and "posts (h @ [op]) \<le> limit"
  shows "\<exists>s' es'. (case op of Arrive m \<Rightarrow> arrive m s | Post r \<Rightarrow> post r s | Cancel r \<Rightarrow> map_option (\<lambda>s. (s, [])) (cancel r s)) = Some (s', es') \<and>
    inv s' (h @ [op]) (es @ es')"
proof (cases op)
  case (Arrive m)
  then show ?thesis using arrive_law [OF assms(1), of m] assms(2) by simp
next
  case (Post r)
  then show ?thesis using post_law [OF assms(1), of r] assms(2,3) by simp
next
  case (Cancel r)
  then show ?thesis using cancel_law [OF assms(1), of r] assms(2) by auto
qed

lemma run_total:
  assumes "inv s h es" and "ops_ok (op_ok may_arrive may_post may_cancel) h ops" and "posts (h @ ops) \<le> limit"
  shows "\<exists>s' es'. run_ops arrive post cancel ops s = Some (s', es') \<and> inv s' (h @ ops) (es @ es')"
  using assms
proof (induction ops arbitrary: s h es)
  case (Cons op ops)
  obtain s1 es1 where 1: "(case op of Arrive m \<Rightarrow> arrive m s | Post r \<Rightarrow> post r s | Cancel r \<Rightarrow> map_option (\<lambda>s. (s, [])) (cancel r s)) = Some (s1, es1)"
    "inv s1 (h @ [op]) (es @ es1)"
    using op_total [OF Cons.prems(1), of op] Cons.prems(2,3) by (cases op) auto
  have "ops_ok (op_ok may_arrive may_post may_cancel) (h @ [op]) ops" "posts ((h @ [op]) @ ops) \<le> limit" using Cons.prems(2,3) by simp_all
  from Cons.IH [OF 1(2) this] obtain s2 es2 where "run_ops arrive post cancel ops s1 = Some (s2, es2)" "inv s2 (h @ op # ops) (es @ es1 @ es2)" by auto
  then show ?case using 1(1) by (intro exI [of _ s2] exI [of _ "es1 @ es2"]) simp
qed simp

end

end
