(* ===== verification/Ob1_Run.thy ===== *)
theory Ob1_Run
  imports Ob1_Ledger Message_Matching
begin

text \<open>
  Whole runs of the matching engine of a communicator, from its creation, as an instance of the
  interface \<open>matching_engine\<close>: which operations may follow which, the bookkeeping of the
  requests, and the safety and liveness of the runs.
\<close>

section \<open>What an operation leaves alone\<close>

definition same_frame :: "'m pml_comm \<Rightarrow> 'm pml_comm \<Rightarrow> bool" where
  "same_frame c c' \<longleftrightarrow> recv_sequence c' = recv_sequence c \<and> length (procs c') = length (procs c) \<and>
     (\<forall>i < length (procs c). frags_cant_match (procs c' ! i) = frags_cant_match (procs c ! i))"

lemma same_frame_refl [simp]: "same_frame c c"
  by (simp add: same_frame_def)

lemma same_frame_trans: "same_frame a b \<Longrightarrow> same_frame b c \<Longrightarrow> same_frame a c"
  by (simp add: same_frame_def)

lemma match_incomming_frame: "match_incomming f c = Some (m, c') \<Longrightarrow> same_frame c c'"
  by (auto simp: match_incomming_def same_frame_def aget_eq_Some_iff aset_eq_Some_iff nth_list_update bind_eq_Some_conv)

lemma append_unexpected_frame: "append_unexpected f c = Some c' \<Longrightarrow> same_frame c c'"
  by (auto simp: append_unexpected_def same_frame_def aget_eq_Some_iff aset_eq_Some_iff nth_list_update bind_eq_Some_conv)

lemma match_one_frame:
  assumes "match_one f c es = Some y"
  shows "same_frame c (fst (snd y))"
  using assms
proof (induction rule: match_one_induct)
  case (unexpected c es c1 c2)
  then show ?case using match_incomming_frame append_unexpected_frame same_frame_trans by fastforce
next
  case (probe c es r c1 y)
  then show ?case using match_incomming_frame same_frame_trans by blast
qed (simp_all add: match_incomming_frame)

lemma expect_next_sequence: "expect_next src c = Some c' \<Longrightarrow> recv_sequence c' = recv_sequence c"
  by (auto simp: expect_next_def bind_eq_Some_conv)

lemma out_of_order_match_sequence:
  assumes "out_of_order_match t f c es = Some y"
  shows "recv_sequence (fst y) = recv_sequence c"
  using assms
proof (induction rule: out_of_order_match_induct)
  case (stop t f c es c1 m c2 es2)
  then show ?case using expect_next_sequence match_one_frame [OF stop(2)] by (simp add: same_frame_def)
next
  case (more t f c es c1 m c2 es2 proc frag proc' ps y)
  then show ?case using expect_next_sequence match_one_frame [OF more(2)] by (simp add: same_frame_def)
qed

section \<open>Runs\<close>

definition fresh_comm :: "nat \<Rightarrow> 'm pml_comm" where
  "fresh_comm n = snd (mca_pml_ob1_comm_init_size True mca_pml_ob1_comm_construct n)"

text \<open>
  The state of a run: the communicator and the requests whose flag \<^verbatim>\<open>req_match_received\<close> is set. It
  is set by the progress of a receive with the fragment it matched, and it decides what cancelling does.
\<close>

definition matched_ids :: "'m match_event list \<Rightarrow> nat set" where
  "matched_ids es = {req_id (event_request e) |e. e \<in> set es \<and> is_progress e}"

definition ob1_arrive :: "(nat \<Rightarrow> nat \<Rightarrow> 'm recv_frag) \<Rightarrow> nat \<times> nat \<Rightarrow> 'm pml_comm \<times> nat set \<Rightarrow> (('m pml_comm \<times> nat set) \<times> 'm match_event list) option" where
  "ob1_arrive sent m s = do {
     (c, es) \<leftarrow> match_in_comm (hdr_type (sent (fst m) (snd m))) (sent (fst m) (snd m)) (fst s);
     Some ((c, snd s \<union> matched_ids es), es) }"

definition ob1_post :: "recv_request \<Rightarrow> 'm pml_comm \<times> nat set \<Rightarrow> (('m pml_comm \<times> nat set) \<times> 'm match_event list) option" where
  "ob1_post req s = do {
     (c, es) \<leftarrow> mca_pml_ob1_recv_req_start req (fst s);
     Some ((c, snd s \<union> matched_ids es), es) }"

definition ob1_cancel :: "recv_request \<Rightarrow> 'm pml_comm \<times> nat set \<Rightarrow> ('m pml_comm \<times> nat set) option" where
  "ob1_cancel req s = do {
     (cancelled, c) \<leftarrow> mca_pml_ob1_recv_request_cancel (req_id req \<in> snd s) req (fst s);
     Some (c, snd s) }"

definition ob1_run ::
    "(nat \<Rightarrow> nat \<Rightarrow> 'm recv_frag) \<Rightarrow> (nat \<times> nat, recv_request) match_op list \<Rightarrow> 'm pml_comm \<times> nat set
     \<Rightarrow> (('m pml_comm \<times> nat set) \<times> 'm match_event list) option" where
  "ob1_run sent = run_ops (ob1_arrive sent) ob1_post ob1_cancel"

text \<open>
  What the network and the program may do. Messages arrive within the window of the sequence numbers. A
  request is started with a number of its own (one that is started again counts as a new one), for any
  source or a process of the communicator. A receive is cancelled after it was started, and only once:
  matched or not, but not after it was cancelled before.
\<close>

definition ob1_may_arrive :: "nat \<Rightarrow> (nat \<times> nat, recv_request) match_op list \<Rightarrow> nat \<times> nat \<Rightarrow> bool" where
  "ob1_may_arrive n h m \<longleftrightarrow> fst m < n \<and> in_window (set (arrivals h)) (fst m) (snd m)"

definition ob1_may_post :: "nat \<Rightarrow> (nat \<times> nat, recv_request) match_op list \<Rightarrow> recv_request \<Rightarrow> bool" where
  "ob1_may_post n h req \<longleftrightarrow> peer_ok n req \<and> req_id req \<notin> req_id ` set (posted_requests h)"

definition ob1_may_cancel :: "(nat \<times> nat, recv_request) match_op list \<Rightarrow> recv_request \<Rightarrow> bool" where
  "ob1_may_cancel h req \<longleftrightarrow> req_type req = REQUEST_RECV \<and> Post req \<in> set h \<and> Cancel req \<notin> set h"

definition ob1_ops_ok :: "nat \<Rightarrow> (nat \<times> nat, recv_request) match_op list \<Rightarrow> bool" where
  "ob1_ops_ok n ops \<longleftrightarrow> ops_ok (op_ok (ob1_may_arrive n) (ob1_may_post n) ob1_may_cancel) [] ops"

text \<open>Every request that was started is known by its number, and a receive not cancelled is queued or was matched.\<close>

definition requests_inv :: "'m pml_comm \<Rightarrow> (nat \<times> nat, recv_request) match_op list \<Rightarrow> 'm match_event list \<Rightarrow> bool" where
  "requests_inv c h es \<longleftrightarrow> distinct (map req_id (posted_requests h)) \<and> unique_ids (ledger c es) \<and>
     req_id ` set_mset (ledger c es) \<subseteq> req_id ` set (posted_requests h) \<and> receives_progress es \<and>
     (\<forall>r. req_type r = REQUEST_RECV \<and> Post r \<in> set h \<and> Cancel r \<notin> set h \<longrightarrow> (\<exists>q. r\<lparr>req_sequence := q\<rparr> \<in># ledger c es))"

definition ob1_inv ::
    "(nat \<Rightarrow> nat \<Rightarrow> 'm recv_frag) \<Rightarrow> nat \<Rightarrow> 'm pml_comm \<times> nat set \<Rightarrow> (nat \<times> nat, recv_request) match_op list \<Rightarrow> 'm match_event list \<Rightarrow> bool" where
  "ob1_inv sent n s h es \<longleftrightarrow> sent_ok sent \<and> engine_inv sent n (fst s) (set (arrivals h)) es \<and> recv_sequence (fst s) = of_nat (posts h) \<and>
     snd s = matched_ids es \<and> requests_inv (fst s) h es"

lemma matched_ids_append [simp]: "matched_ids (es @ es') = matched_ids es \<union> matched_ids es'" "matched_ids [] = {}"
  by (auto simp: matched_ids_def)

lemma requests_inv_arrive:
  assumes "requests_inv c h es" and "ledger c' es' = queued c" and "receives_progress es'"
  shows "requests_inv c' (h @ [Arrive m]) (es @ es')"
proof -
  have "ledger c' (es @ es') = ledger c es" using assms(2) by (simp add: ledger_def ac_simps)
  then show ?thesis using assms(1,3) by (simp add: requests_inv_def)
qed

lemma requests_inv_post:
  assumes inv: "requests_inv c h es" and new: "req_id r \<notin> req_id ` set (posted_requests h)"
    and ledger: "ledger c' es' = queued c + {#r\<lparr>req_sequence := q\<rparr>#} \<or> req_type r \<noteq> REQUEST_RECV \<and> ledger c' es' = queued c" and "receives_progress es'"
  shows "requests_inv c' (h @ [Post r]) (es @ es')"
proof -
  let ?r = "r\<lparr>req_sequence := q\<rparr>"
  consider (kept) "ledger c' (es @ es') = add_mset ?r (ledger c es)" | (out) "req_type r \<noteq> REQUEST_RECV" "ledger c' (es @ es') = ledger c es"
    using ledger by (auto simp: ledger_def ac_simps)
  then show ?thesis
  proof cases
    case kept
    have "req_id r \<notin># image_mset req_id (ledger c es)" using inv new by (auto simp: requests_inv_def)
    then have "count (image_mset req_id (ledger c es)) (req_id r) = 0" unfolding not_in_iff .
    then have "unique_ids (add_mset ?r (ledger c es))" using inv by (auto simp: requests_inv_def unique_ids_def)
    then show ?thesis using inv new assms(4) kept by (auto simp: requests_inv_def)
  next
    case out
    then show ?thesis using inv new assms(4) by (auto simp: requests_inv_def)
  qed
qed

lemma requests_inv_cancel:
  assumes inv: "requests_inv c h es" and r: "Post r \<in> set h" and ledger: "ledger c es = add_mset (r\<lparr>req_sequence := q\<rparr>) (ledger c' es)"
  shows "requests_inv c' (h @ [Cancel r]) es"
proof -
  have inj: "s = r" if "Post s \<in> set h" "req_id s = req_id r" for s
  proof -
    have "s \<in> set (posted_requests h)" "r \<in> set (posted_requests h)" using that r by (simp_all add: set_posted_requests)
    then show ?thesis using that(2) inv by (metis distinct_map inj_onD requests_inv_def)
  qed
  have u: "unique_ids (ledger c' es)"
    unfolding unique_ids_def
  proof
    fix i
    have "count (image_mset req_id (ledger c es)) i \<le> 1" using inv by (simp add: requests_inv_def unique_ids_def)
    then show "count (image_mset req_id (ledger c' es)) i \<le> 1" using ledger by (simp split: if_splits)
  qed
  have "\<exists>q. s\<lparr>req_sequence := q\<rparr> \<in># ledger c' es" if s: "req_type s = REQUEST_RECV" "Post s \<in> set h" "Cancel s \<notin> set h" "s \<noteq> r" for s
  proof -
    obtain q' where "s\<lparr>req_sequence := q'\<rparr> \<in># ledger c es" using inv s(1-3) unfolding requests_inv_def by blast
    moreover have "s\<lparr>req_sequence := q'\<rparr> \<noteq> r\<lparr>req_sequence := q\<rparr>"
    proof
      assume "s\<lparr>req_sequence := q'\<rparr> = r\<lparr>req_sequence := q\<rparr>"
      then have "req_id s = req_id r" by (metis recv_request.select_convs(1) recv_request.surjective recv_request.update_convs(5))
      then show False using inj s(2,4) by blast
    qed
    ultimately show ?thesis using ledger by auto
  qed
  then show ?thesis using inv u ledger by (auto simp: requests_inv_def)
qed

text \<open>A receive that was not cancelled and not matched is in the queue of its source, so it can be cancelled.\<close>

lemma ob1_cancel_ok:
  assumes inv: "ob1_inv sent n s h es" and may: "ob1_may_cancel h r"
  shows "\<exists>s'. ob1_cancel r s = Some s' \<and> ob1_inv sent n s' (h @ [Cancel r]) es"
proof (cases "req_id r \<in> snd s")
  case True
  then show ?thesis using inv by (auto simp: ob1_cancel_def mca_pml_ob1_recv_request_cancel_def ob1_inv_def requests_inv_def)
next
  case False
  have rq: "requests_inv (fst s) h es" "snd s = matched_ids es" using inv by (simp_all add: ob1_inv_def)
  have r: "req_type r = REQUEST_RECV" "Post r \<in> set h" "Cancel r \<notin> set h" using may by (simp_all add: ob1_may_cancel_def)
  obtain q where q: "r\<lparr>req_sequence := q\<rparr> \<in># ledger (fst s) es" using rq(1) r unfolding requests_inv_def by blast
  let ?r = "r\<lparr>req_sequence := q\<rparr>"
  have "?r \<notin> event_request ` set es"
  proof
    assume "?r \<in> event_request ` set es"
    then obtain e where e: "e \<in> set es" "event_request e = ?r" by auto
    then have "is_progress e" using rq(1) r(1) by (simp add: requests_inv_def receives_progress_def)
    then show False using e False rq(2) by (force simp: matched_ids_def)
  qed
  then have "?r \<in># queued (fst s)" using q by (auto simp: ledger_def)
  moreover have "unique_ids (queued (fst s))"
  proof -
    have "\<forall>i. count (image_mset req_id (ledger (fst s) es)) i \<le> 1" using rq(1) by (simp add: requests_inv_def unique_ids_def)
    then show ?thesis by (simp add: unique_ids_def ledger_def) (meson add_leD1)
  qed
  ultimately obtain c' where c': "mca_pml_ob1_recv_request_cancel False r (fst s) = Some (True, c')"
    "engine_inv sent n c' (set (arrivals h)) es" "queued (fst s) = add_mset ?r (queued c')" "recv_sequence c' = recv_sequence (fst s)"
    using recv_request_cancel_ok [of sent n "fst s" "set (arrivals h)" es ?r r] inv by (auto simp: ob1_inv_def)
  have "requests_inv c' (h @ [Cancel r]) es" using c'(3) by (intro requests_inv_cancel [OF rq(1) r(2), of q]) (simp add: ledger_def)
  then show ?thesis using c' False inv by (auto simp: ob1_cancel_def ob1_inv_def)
qed

lemma match_in_comm_sequence:
  assumes "match_in_comm t f c = Some (c', es)"
  shows "recv_sequence c' = recv_sequence c"
  using assms out_of_order_match_sequence
  by (fastforce simp: match_in_comm_def append_cant_match_def bind_eq_Some_conv split: if_splits)

lemma recv_req_start_sequence:
  assumes "mca_pml_ob1_recv_req_start r c = Some (c', es)"
  shows "recv_sequence c' = recv_sequence c + 1"
  using assms
  by (auto simp: mca_pml_ob1_recv_req_start_def find_unexpected_def recv_req_match_wild_def post_request_def take_unexpected_def Let_def
      bind_eq_Some_conv split: if_splits option.splits)

lemma last_sequence: "k < 2 ^ 32 - 1 \<Longrightarrow> (of_nat k :: 32 word) \<noteq> - 1"
proof
  assume k: "k < 2 ^ 32 - 1" and e: "(of_nat k :: 32 word) = - 1"
  have "unat (of_nat k :: 32 word) = k" using k by (simp add: unsigned_of_nat take_bit_nat_eq_self)
  moreover have "unat (- 1 :: 32 word) = 2 ^ 32 - 1" by (simp add: unsigned_minus_1_eq_mask mask_eq_exp_minus_1)
  ultimately show False using k e by simp
qed

interpretation ob1: matching_engine "ob1_arrive sent" ob1_post ob1_cancel
    "ob1_inv sent n" "ob1_may_arrive n" "ob1_may_post n" ob1_may_cancel "2 ^ 32 - 1" for sent n
proof unfold_locales
  fix s h es m assume inv: "ob1_inv sent n s h es" and m: "ob1_may_arrive n h m"
  obtain c' es' where c': "match_in_comm (hdr_type (sent (fst m) (snd m))) (sent (fst m) (snd m)) (fst s) = Some (c', es')"
    "engine_inv sent n c' (insert m (set (arrivals h))) (es @ es')"
    using recv_frag_match_ok [of sent n "fst s" "set (arrivals h)" es "fst m" "snd m" "hdr_type (sent (fst m) (snd m))"] inv m
    by (auto simp: ob1_inv_def ob1_may_arrive_def)
  have "requests_inv c' (h @ [Arrive m]) (es @ es')"
    using inv match_in_comm_conserves [OF c'(1)] by (intro requests_inv_arrive) (simp_all add: ob1_inv_def)
  then show "\<exists>s' es'. ob1_arrive sent m s = Some (s', es') \<and> ob1_inv sent n s' (h @ [Arrive m]) (es @ es')"
    using c' inv match_in_comm_sequence [OF c'(1)] by (simp add: ob1_arrive_def ob1_inv_def)
next
  fix s h es r assume inv: "ob1_inv sent n s h es" and r: "ob1_may_post n h r" and "posts h < 2 ^ 32 - 1"
  then have "recv_sequence (fst s) \<noteq> - 1" using last_sequence by (simp add: ob1_inv_def)
  then obtain c' es' where c': "mca_pml_ob1_recv_req_start r (fst s) = Some (c', es')" "engine_inv sent n c' (set (arrivals h)) (es @ es')"
    using recv_req_start_ok [of sent n "fst s" "set (arrivals h)" es r] inv r by (auto simp: ob1_inv_def ob1_may_post_def)
  have "requests_inv c' (h @ [Post r]) (es @ es')"
    using inv r recv_req_start_ledger [OF c'(1)] by (intro requests_inv_post) (simp_all add: ob1_inv_def ob1_may_post_def)
  then show "\<exists>s' es'. ob1_post r s = Some (s', es') \<and> ob1_inv sent n s' (h @ [Post r]) (es @ es')"
    using c' inv recv_req_start_sequence [OF c'(1)] by (simp add: ob1_post_def ob1_inv_def add.commute)
next
  fix s h es r assume "ob1_inv sent n s h es" "ob1_may_cancel h r"
  then show "\<exists>s'. ob1_cancel r s = Some s' \<and> ob1_inv sent n s' (h @ [Cancel r]) es" by (rule ob1_cancel_ok)
qed

lemma fresh_inv:
  assumes "sent_ok sent" and "1 \<le> n"
  shows "ob1_inv sent n (fresh_comm n, {}) [] []"
proof -
  let ?c = "fresh_comm n :: 'a pml_comm"
  have f: "procs ?c = replicate n mca_pml_ob1_comm_proc_construct" "num_procs ?c = n" "last_probed ?c = 0" "recv_sequence ?c = 0" "wild_receives ?c = []"
    by (simp_all add: fresh_comm_def mca_pml_ob1_comm_init_size_def mca_pml_ob1_comm_construct_def)
  have "set_queues [] ?c = ?c" using f by (intro pml_comm_eqI) (simp_all add: wild_of_def specific_of_def mca_pml_ob1_comm_proc_construct_def)
  moreover have "posted_ok n []" by (simp add: posted_ok_def)
  ultimately have "match_inv sent n ?c [] (\<lambda>_. 0) []"
    using f assms(2) unfolding match_inv_def by (auto simp: mca_pml_ob1_comm_proc_construct_def)
  moreover have "order_inv sent n ?c {} (\<lambda>_. 0)" using f(1)
    by (auto simp: order_inv_def mca_pml_ob1_comm_proc_construct_def intro!: order_procI [of _ _ _ _ _ "[]"])
  moreover have "queued ?c = {#}" 
  proof -
    have "sum_list (replicate n {#}) = ({#} :: recv_request multiset)" by (induction n) simp_all
    then show ?thesis using f by (simp add: queued_def mca_pml_ob1_comm_proc_construct_def)
  qed
  ultimately show ?thesis using assms(1) f(4) by (auto simp: ob1_inv_def engine_inv_def settled_def requests_inv_def ledger_def unique_ids_def)
qed

lemma ob1_run_ok:
  assumes "sent_ok sent" and "1 \<le> n" and "ob1_ops_ok n ops" and "posts ops < 2 ^ 32"
  obtains c M es posted h where "ob1_run sent ops (fresh_comm n, {}) = Some ((c, M), es)" and "match_inv sent n c posted h es"
    and "order_inv sent n c (set (arrivals ops)) h" and "settled n (set (arrivals ops)) h"
proof -
  have "posts ([] @ ops) \<le> 2 ^ 32 - 1" using assms(4) by simp
  from ob1.run_total [OF fresh_inv [OF assms(1,2)] assms(3) [unfolded ob1_ops_ok_def] this] show thesis
    using that by (auto simp: ob1_run_def ob1_inv_def engine_inv_def)
qed

text \<open>C1: Safety of matching. Messages arrive in any order within the window of the 16-bit sequence numbers,
  fewer than \<open>2 ^ 32\<close> requests are started, each under a number of its own, and each receive is
  cancelled at most once, after it was started, before or after it is matched. Whatever the interleaving,
  the engine never gets stuck (in particular a receive that is cancelled before it is matched is in the
  queue it is removed from), and every message that is taken by a receive or a matched probe is one it
  accepts, was not taken before, and does not overtake an earlier message of the same sender that the
  receive would have accepted as well. Cancelling a receive twice is excluded: the flag that stops a
  late cancel is not set by the first one, and the second unlinks the request again.
\<close>

theorem ob1_non_overtaking:
  assumes "sent_ok sent" and "1 \<le> n" and "ob1_ops_ok n ops" and "posts ops < 2 ^ 32"
  shows "\<exists>c M es. ob1_run sent ops (fresh_comm n, {}) = Some ((c, M), es) \<and> fair_events sent [] es"
proof -
  obtain c M es posted h where "ob1_run sent ops (fresh_comm n, {}) = Some ((c, M), es)" and "match_inv sent n c posted h es"
    by (rule ob1_run_ok [OF assms])
  then show ?thesis by (auto simp: match_inv_def)
qed

definition example_sent :: "nat \<Rightarrow> nat \<Rightarrow> (nat \<times> nat) recv_frag" where
  "example_sent p k = \<lparr>hdr_type = HDR_TYPE_MATCH, hdr_ctx = 0, hdr_src = int p, hdr_tag = 7, hdr_seq = of_nat k, frag_segments = (p, k)\<rparr>"

definition example_recv :: "nat \<Rightarrow> int \<Rightarrow> recv_request" where
  "example_recv i peer = \<lparr>req_id = i, req_type = REQUEST_RECV, req_peer = peer, req_tag = 7, req_sequence = 0\<rparr>"

definition example_ops :: "(nat \<times> nat, recv_request) match_op list" where
  "example_ops = [Arrive (1, 2), Post (example_recv 0 OMPI_ANY_SOURCE), Post (example_recv 2 1), Cancel (example_recv 2 1),
     Arrive (1, 1), Post (example_recv 1 1), Cancel (example_recv 0 OMPI_ANY_SOURCE)]"

lemma example_sent_ok: "sent_ok example_sent"
  by (simp add: sent_ok_def example_sent_def OMPI_ANY_TAG_def)

lemma example_ops_ok: "ob1_ops_ok 2 example_ops" "posts example_ops < 2 ^ 32"
  by (simp_all add: ob1_ops_ok_def example_ops_def ob1_may_arrive_def ob1_may_post_def ob1_may_cancel_def in_window_def peer_ok_def example_recv_def)

theorem ob1_non_overtaking_witness:
  "\<exists>c M es. ob1_run example_sent example_ops (fresh_comm 2, {}) = Some ((c, M), es) \<and> fair_events example_sent [] es"
  using ob1_non_overtaking [OF example_sent_ok _ example_ops_ok] by simp

text \<open>C2: Liveness of matching, under the same conditions on the run (each receive is cancelled at most once).
  Once the first \<open>m\<close> messages of a process have all arrived, in whatever order, none of them waits any
  more: each has been taken, or it lies among the unexpected messages and no posted receive, specific or
  wild, accepts it.
\<close>

theorem ob1_no_lost_match:
  assumes "sent_ok sent" and "1 \<le> n" and "ob1_ops_ok n ops" and "posts ops < 2 ^ 32"
    and "p < n" and "\<forall>k \<in> {1..m}. (p, k) \<in> set (arrivals ops)"
  shows "\<exists>c M es. ob1_run sent ops (fresh_comm n, {}) = Some ((c, M), es) \<and>
    (\<forall>k \<in> {1..m}. sent p k \<notin> set (frags_cant_match (procs c ! p)) \<and>
       (sent p k \<in> set (taken es) \<or>
        sent p k \<in> set (unexpected_frags (procs c ! p)) \<and>
        (\<forall>r \<in> set (wild_receives c) \<union> set (specific_receives (procs c ! p)). \<not> accepts r (sent p k))))"
proof -
  obtain c M es posted h where run: "ob1_run sent ops (fresh_comm n, {}) = Some ((c, M), es)" and inv: "match_inv sent n c posted h es"
    and ord: "order_inv sent n c (set (arrivals ops)) h" and s: "settled n (set (arrivals ops)) h" by (rule ob1_run_ok [OF assms(1-4)])
  have below: "m \<le> h p"
  proof (rule ccontr)
    assume "\<not> m \<le> h p"
    then have "(p, Suc (h p)) \<in> set (arrivals ops)" using assms(6) by simp
    then show False using s assms(5) by (simp add: settled_def)
  qed
  have "sent p k \<notin> set (frags_cant_match (procs c ! p))" if "k \<in> {1..m}" for k
  proof -
    obtain ks where "frags_cant_match (procs c ! p) = map (sent p) ks" "set ks \<inter> {1..h p} = {}"
      using ord assms(5) unfolding order_inv_def order_proc_def by blast
    then show ?thesis using that below sent_eq_iff [OF assms(1)] by auto
  qed
  moreover have "sent p k \<in> set (unexpected_frags (procs c ! p))" if k: "k \<in> {1..m}" "sent p k \<notin> set (taken es)" for k
  proof -
    obtain us where "unexpected_frags (procs c ! p) = map (sent p) us" "set us = {k. 1 \<le> k \<and> k \<le> h p \<and> sent p k \<notin> set (taken es)}"
      using inv assms(5) by (auto simp: match_inv_def)
    then show ?thesis using k below by auto
  qed
  moreover have "set (wild_receives c) \<union> set (specific_receives (procs c ! p)) \<subseteq> set posted"
  proof -
    have q: "set_queues posted c = c" "p < length (procs c)" using inv assms(5) by (simp_all add: match_inv_def)
    have "wild_receives c = wild_of posted" using q(1) by (metis set_queues_sel(1))
    moreover have "specific_receives (procs c ! p) = specific_of p posted"
      using q set_queues_sel(6) [of p c posted] by (metis comm_proc.select_convs(4) comm_proc.surjective comm_proc.update_convs(4))
    ultimately show ?thesis by (auto simp: wild_of_def specific_of_def)
  qed
  moreover have "\<not> accepts r f" if "r \<in> set posted" "f \<in> set (unexpected_frags (procs c ! p))" for r f
    using inv assms(5) that by (simp add: match_inv_def)
  ultimately show ?thesis using run by blast
qed

theorem ob1_no_lost_match_witness:
  "\<exists>c M es. ob1_run example_sent example_ops (fresh_comm 2, {}) = Some ((c, M), es) \<and>
    (\<forall>k \<in> {1..2}. example_sent 1 k \<notin> set (frags_cant_match (procs c ! 1)) \<and>
       (example_sent 1 k \<in> set (taken es) \<or>
        example_sent 1 k \<in> set (unexpected_frags (procs c ! 1)) \<and>
        (\<forall>r \<in> set (wild_receives c) \<union> set (specific_receives (procs c ! 1)). \<not> accepts r (example_sent 1 k))))"
proof (rule ob1_no_lost_match [OF example_sent_ok _ example_ops_ok])
  show "\<forall>k \<in> {1..2}. (1, k) \<in> set (arrivals example_ops)" by (auto simp: example_ops_def)
qed simp_all

section \<open>The number of receives is bounded\<close>

text \<open>C37: The sequence number of the receives has 32 bits and the order of posting is decided by comparing the
  numbers: after \<open>2 ^ 32 - 1\<close> receives, a wild receive posted after a specific one gets number 0 and takes
  the message that both accept.\<close>

theorem recv_sequence_wrap_reorders:
  assumes "recv_sequence c = - 1" and "wild_receives c = []" and "procs c = [x]" and "specific_receives x = []"
    and "unexpected_frags x = []" and "frags_cant_match x = []" and "num_procs c = 1" and "last_probed c = 0"
    and "req_peer r = 0" and "req_peer w = OMPI_ANY_SOURCE" and "req_type r = REQUEST_RECV" and "req_type w = REQUEST_RECV"
    and "req_tag r = tag" and "req_tag w = tag" and "0 \<le> tag"
    and "hdr_src f = 0" and "hdr_tag f = tag" and "hdr_seq f = expected_sequence x"
  shows "\<exists>c1 c2 c3. mca_pml_ob1_recv_req_start r c = Some (c1, []) \<and> mca_pml_ob1_recv_req_start w c1 = Some (c2, []) \<and>
    match_in_comm (hdr_type f) f c2 = Some (c3, [Progress (hdr_type f) (w\<lparr>req_sequence := 0\<rparr>) f])"
proof -
  let ?r = "r\<lparr>req_sequence := ucast (- 1 :: 32 word)\<rparr>" and ?w = "w\<lparr>req_sequence := 0\<rparr>"
  let ?c1 = "c\<lparr>recv_sequence := 0, procs := [x\<lparr>specific_receives := [?r]\<rparr>]\<rparr>"
  let ?c2 = "?c1\<lparr>recv_sequence := 1, wild_receives := [?w]\<rparr>"
  have 1: "mca_pml_ob1_recv_req_start r c = Some (?c1, [])"
    using assms by (simp add: mca_pml_ob1_recv_req_start_def find_unexpected_def recv_req_match_specific_proc_def post_request_def
        append_recv_req_to_queue_def aget_def aset_def OMPI_ANY_SOURCE_def Let_def)
  have 2: "mca_pml_ob1_recv_req_start w ?c1 = Some (?c2, [])"
    using assms by (simp add: mca_pml_ob1_recv_req_start_def find_unexpected_def recv_req_match_wild_def recv_req_match_specific_proc_def
        post_request_def append_recv_req_to_queue_def aget_def Let_def)
  have "(0 :: 64 word) < ucast (- 1 :: 32 word)"
    by (simp add: word_less_nat_alt unat_ucast_32_64 unsigned_minus_1_eq_mask mask_eq_exp_minus_1)
  then have "match_loop tag [] [?w] [] [?r] = Some (Some ?w, [], [?r])"
    using assms(12,14,15) by (subst match_loop_wild) (simp_all add: posted_seq_def tag_matches_def)
  then have "\<exists>c3. match_in_comm (hdr_type f) f ?c2 = Some (c3, [Progress (hdr_type f) ?w f])"
    using assms by (simp add: match_in_comm_def aget_def out_of_order_match.simps expect_next_def aset_def match_one.simps match_incomming_def)
  then show ?thesis using 1 2 by blast
qed

theorem recv_sequence_wrap_reorders_witness:
  "\<exists>c1 c2 c3. mca_pml_ob1_recv_req_start (example_recv 0 0) ((fresh_comm 1)\<lparr>recv_sequence := - 1\<rparr>) = Some (c1, []) \<and>
    mca_pml_ob1_recv_req_start (example_recv 1 OMPI_ANY_SOURCE) c1 = Some (c2, []) \<and>
    match_in_comm HDR_TYPE_MATCH (example_sent 0 1) c2 = Some (c3, [Progress HDR_TYPE_MATCH (example_recv 1 OMPI_ANY_SOURCE) (example_sent 0 1)])"
  using recv_sequence_wrap_reorders [of "(fresh_comm 1)\<lparr>recv_sequence := - 1\<rparr>" mca_pml_ob1_comm_proc_construct
      "example_recv 0 0" "example_recv 1 OMPI_ANY_SOURCE" 7 "example_sent 0 1"]
  by (simp add: fresh_comm_def mca_pml_ob1_comm_init_size_def mca_pml_ob1_comm_construct_def mca_pml_ob1_comm_proc_construct_def
      example_recv_def example_sent_def)

end
