(* ===== verification/Ob1_Early.thy ===== *)
theory Ob1_Early
  imports Ob1_Run
begin

text \<open>
  The layer around the communicators: the fast path of the callback for short messages, and the
  fragments that arrive before their communicator exists.
\<close>

section \<open>The fast path\<close>

lemma fast_path:
  assumes "aget (procs c) (hdr_src f) = Some x" and "frags_cant_match x = []"
  shows "out_of_order_match t f c [] = do {
     comm \<leftarrow> expect_next (hdr_src f) c;
     (match, comm, evs) \<leftarrow> match_one f comm [];
     Some (comm, case match of Some req \<Rightarrow> evs @ [Progress t req f] | None \<Rightarrow> evs) }"
proof -
  let ?p = "nat (hdr_src f)"
  have p: "0 \<le> hdr_src f" "hdr_src f < int (length (procs c))" "procs c ! ?p = x" using assms(1) by (auto simp: aget_eq_Some_iff)
  let ?c1 = "c\<lparr>procs := (procs c)[?p := x\<lparr>expected_sequence := expected_sequence x + 1\<rparr>]\<rparr>"
  have c1: "expect_next (hdr_src f) c = Some ?c1" using p by (simp add: expect_next_def aget_def aset_def)
  show ?thesis
  proof (cases "match_one f ?c1 []")
    case None
    then show ?thesis using c1 by (subst out_of_order_match.simps) simp
  next
    case (Some y)
    obtain m c2 es where y: "y = (m, c2, es)" by (cases y)
    have "frags_cant_match (procs c2 ! ?p) = []" "length (procs c2) = length (procs c)"
      using match_one_frame [OF Some] y p assms(2) by (auto simp: same_frame_def nat_less_iff)
    then show ?thesis using c1 Some y p by (subst out_of_order_match.simps) (simp add: aget_def)
  qed
qed

text \<open>The completions: the same for a message in one segment, and for one that fits the receive buffer.\<close>

lemma unpack_iov_concat: "concat (unpack_iov offset segs) = drop offset (concat segs)"
  by (induction offset segs rule: unpack_iov.induct) simp_all

text \<open>
  What \<^verbatim>\<open>opal_convertor_unpack\<close> does: it takes the bytes of the pieces in order, as many as the receive
  buffer holds, and returns their number.
\<close>

definition convertor_ok :: "(recv_request \<Rightarrow> nat) \<Rightarrow> (recv_request \<Rightarrow> 8 word list list \<Rightarrow> nat \<times> 8 word list) \<Rightarrow> bool" where
  "convertor_ok bytes_expected unpack \<longleftrightarrow>
     (\<forall>r iov. unpack r iov = (min (bytes_expected r) (length (concat iov)), take (bytes_expected r) (concat iov)))"

lemma complete_inline_status:
  fixes segs :: "8 word list list"
  assumes "convertor_ok bytes_expected unpack" and "OMPI_PML_OB1_MATCH_HDR_LEN \<le> length seg"
  defines "payload \<equiv> drop OMPI_PML_OB1_MATCH_HDR_LEN (concat (seg # segs))"
  shows "complete_inline bytes_expected unpack seg segs r f =
    Completed r (recv_request_pml_complete (bytes_expected r) (length seg - OMPI_PML_OB1_MATCH_HDR_LEN) (min (bytes_expected r) (length payload)) f)
      (take (bytes_expected r) payload)"
  using assms by (simp add: complete_inline_def convertor_ok_def Let_def)

lemma progress_match_status:
  fixes segs :: "8 word list list"
  assumes "convertor_ok bytes_expected unpack"
  defines "payload \<equiv> drop OMPI_PML_OB1_MATCH_HDR_LEN (concat segs)"
  shows "mca_pml_ob1_recv_request_progress_match bytes_expected unpack segs r f =
    Completed r (recv_request_pml_complete (bytes_expected r) (length payload) (length payload) f) (take (bytes_expected r) payload)"
  using assms
  by (simp add: mca_pml_ob1_recv_request_progress_match_def mca_pml_ob1_compute_segment_length_base_def convertor_ok_def Let_def unpack_iov_concat length_concat)

lemma completions_agree:
  assumes "convertor_ok bytes_expected unpack" and "OMPI_PML_OB1_MATCH_HDR_LEN \<le> length seg"
    and "segs = [] \<or> length (concat (seg # segs)) - OMPI_PML_OB1_MATCH_HDR_LEN \<le> bytes_expected r"
  shows "complete_inline bytes_expected unpack seg segs r f = mca_pml_ob1_recv_request_progress_match bytes_expected unpack (seg # segs) r f"
proof -
  let ?h = OMPI_PML_OB1_MATCH_HDR_LEN and ?all = "concat (seg # segs)" and ?n = "bytes_expected r"
  have "recv_request_pml_complete ?n (length seg - ?h) (min ?n (length ?all - ?h)) f = recv_request_pml_complete ?n (length ?all - ?h) (length ?all - ?h) f"
  proof (cases "length ?all - ?h \<le> ?n")
    case True
    then have "\<not> ?n < length seg - ?h" by simp
    then show ?thesis using True by (simp add: recv_request_pml_complete_def Let_def min_absorb2)
  next
    case False
    then have "segs = []" using assms(3) by blast
    then show ?thesis using False by (simp add: recv_request_pml_complete_def)
  qed
  then show ?thesis unfolding complete_inline_status [OF assms(1,2)] progress_match_status [OF assms(1)] length_drop by (simp only:)
qed

text \<open>The probes that \<open>match_one\<close> completes are the same events on both paths.\<close>

lemma match_one_no_progress:
  assumes "match_one f c es = Some y"
  shows "\<exists>es'. snd (snd y) = es @ es' \<and> (\<forall>e \<in> set es'. \<not> is_progress e)"
  using assms by (induction rule: match_one_induct) fastforce+

lemma progress_event_other: "\<not> is_progress e \<Longrightarrow> progress_event bytes_expected unpack segments e = Handed e"
  by (cases e) simp_all

lemma callback_paths:
  assumes conv: "convertor_ok bytes_expected unpack" and segs: "segments (frag_segments frag) = seg # segs" and long: "OMPI_PML_OB1_MATCH_HDR_LEN \<le> length seg"
  shows "case mca_pml_ob1_recv_frag_match HDR_TYPE_MATCH frag pml of
         None \<Rightarrow> mca_pml_ob1_recv_frag_callback_match bytes_expected unpack segments frag pml = None
       | Some (pml', evs) \<Rightarrow> \<exists>outs. mca_pml_ob1_recv_frag_callback_match bytes_expected unpack segments frag pml = Some (pml', outs) \<and>
           (segs = [] \<or> (\<forall>r. Progress HDR_TYPE_MATCH r frag \<in> set evs \<longrightarrow> length (concat (seg # segs)) - OMPI_PML_OB1_MATCH_HDR_LEN \<le> bytes_expected r) \<longrightarrow>
            outs = map (progress_event bytes_expected unpack segments) evs)"
proof (cases "comms pml (unat (hdr_ctx frag))")
  case None
  then show ?thesis using segs long by (simp add: mca_pml_ob1_recv_frag_callback_match_def mca_pml_ob1_recv_frag_match_def)
next
  case c: (Some c)
  show ?thesis
  proof (cases "aget (procs c) (hdr_src frag)")
    case None
    then show ?thesis using c segs long by (simp add: mca_pml_ob1_recv_frag_callback_match_def mca_pml_ob1_recv_frag_match_def match_in_comm_def)
  next
    case x: (Some x)
    show ?thesis
    proof (cases "hdr_seq frag \<noteq> expected_sequence x \<or> length (frags_cant_match x) > 0")
      case True
      then show ?thesis using c x segs long by (auto simp: mca_pml_ob1_recv_frag_callback_match_def split: option.splits)
    next
      case False
      then have slow: "match_in_comm HDR_TYPE_MATCH frag c = do {
         comm \<leftarrow> expect_next (hdr_src frag) c;
         (match, comm, evs) \<leftarrow> match_one frag comm [];
         Some (comm, case match of Some req \<Rightarrow> evs @ [Progress HDR_TYPE_MATCH req frag] | None \<Rightarrow> evs) }"
        using fast_path [OF x] x by (simp add: match_in_comm_def)
      show ?thesis
      proof (cases "\<exists>c1. expect_next (hdr_src frag) c = Some c1 \<and> match_one frag c1 [] \<noteq> None")
        case no: False
        then consider "expect_next (hdr_src frag) c = None" | c1 where "expect_next (hdr_src frag) c = Some c1" "match_one frag c1 [] = None"
          by blast
        then show ?thesis using c x False segs long slow
          by cases (simp_all add: mca_pml_ob1_recv_frag_callback_match_def mca_pml_ob1_recv_frag_match_def)
      next
        case True
        then obtain c1 m c2 es where c1: "expect_next (hdr_src frag) c = Some c1" "match_one frag c1 [] = Some (m, c2, es)" by auto
        have "map (progress_event bytes_expected unpack segments) es = map Handed es"
          using match_one_no_progress [OF c1(2)] by (intro map_cong) (auto simp: progress_event_other)
        then show ?thesis using c x False segs long slow c1 completions_agree [OF conv long, of segs]
          by (cases m) (auto simp: mca_pml_ob1_recv_frag_callback_match_def mca_pml_ob1_recv_frag_match_def)
      qed
    qed
  qed
qed

text \<open>C7: The callback for short messages, with its fast path for messages in order and the completion of
  its own there, against the general matching routine followed by
  \<open>mca_pml_ob1_recv_request_progress_match\<close>. A first segment too short for the header is dropped.
  Otherwise both succeed together and leave the same state, and they complete the same requests with the
  same status (source, tag, byte count, error) and the same bytes in the user's buffer, whenever the
  message has one segment or fits the receive that takes it. The convertor is assumed to unpack what the
  buffer holds. For a message in several segments whose first segment fits the receive and which as a whole
  does not, the fast path reports success with the size of the buffer; the general routine reports the
  truncation.
\<close>

theorem callback_match_is_recv_frag_match:
  assumes conv: "convertor_ok bytes_expected unpack" and segs: "segments (frag_segments frag) = seg # segs"
  shows "let callback = mca_pml_ob1_recv_frag_callback_match bytes_expected unpack segments frag pml;
      payload = length (concat (seg # segs)) - OMPI_PML_OB1_MATCH_HDR_LEN in
    if length seg < OMPI_PML_OB1_MATCH_HDR_LEN then callback = Some (pml, [])
    else
      (case mca_pml_ob1_recv_frag_match HDR_TYPE_MATCH frag pml of
         None \<Rightarrow> callback = None
       | Some (pml', evs) \<Rightarrow> \<exists>outs. callback = Some (pml', outs) \<and>
           (segs = [] \<or> (\<forall>r. Progress HDR_TYPE_MATCH r frag \<in> set evs \<longrightarrow> payload \<le> bytes_expected r) \<longrightarrow>
            outs = map (progress_event bytes_expected unpack segments) evs)) \<and>
      (\<forall>r. length seg - OMPI_PML_OB1_MATCH_HDR_LEN \<le> bytes_expected r \<and> bytes_expected r < payload \<longrightarrow>
         (\<exists>bytes. complete_inline bytes_expected unpack seg segs r frag = Completed r
             \<lparr>status_source = hdr_src frag, status_tag = hdr_tag frag, status_ucount = bytes_expected r, status_error = MPI_SUCCESS\<rparr> bytes \<and>
           mca_pml_ob1_recv_request_progress_match bytes_expected unpack (seg # segs) r frag = Completed r
             \<lparr>status_source = hdr_src frag, status_tag = hdr_tag frag, status_ucount = payload, status_error = MPI_ERR_TRUNCATE\<rparr> bytes))"
proof (cases "length seg < OMPI_PML_OB1_MATCH_HDR_LEN")
  case True
  then show ?thesis using segs by (simp add: mca_pml_ob1_recv_frag_callback_match_def)
next
  case False
  have "complete_inline bytes_expected unpack seg segs r frag = Completed r
        \<lparr>status_source = hdr_src frag, status_tag = hdr_tag frag, status_ucount = bytes_expected r, status_error = MPI_SUCCESS\<rparr>
        (take (bytes_expected r) (drop OMPI_PML_OB1_MATCH_HDR_LEN (concat (seg # segs)))) \<and>
      mca_pml_ob1_recv_request_progress_match bytes_expected unpack (seg # segs) r frag = Completed r
        \<lparr>status_source = hdr_src frag, status_tag = hdr_tag frag, status_ucount = length (concat (seg # segs)) - OMPI_PML_OB1_MATCH_HDR_LEN,
          status_error = MPI_ERR_TRUNCATE\<rparr> (take (bytes_expected r) (drop OMPI_PML_OB1_MATCH_HDR_LEN (concat (seg # segs))))"
    if "length seg - OMPI_PML_OB1_MATCH_HDR_LEN \<le> bytes_expected r" "bytes_expected r < length (concat (seg # segs)) - OMPI_PML_OB1_MATCH_HDR_LEN" for r
    using that False complete_inline_status [OF conv, of seg segs r frag] progress_match_status [OF conv, of "seg # segs" r frag]
    by (simp add: recv_request_pml_complete_def Let_def)
  moreover note callback_paths [of bytes_expected unpack segments frag seg segs pml, OF conv segs leI [OF False]]
  ultimately show ?thesis unfolding Let_def if_not_P [OF False] by blast
qed

definition example_segments :: "nat \<times> nat \<Rightarrow> 8 word list list" where
  "example_segments = (\<lambda>(p, k). [replicate 16 0])"

definition example_unpack :: "recv_request \<Rightarrow> 8 word list list \<Rightarrow> nat \<times> 8 word list" where
  "example_unpack r iov = (min 4 (length (concat iov)), take 4 (concat iov))"

theorem callback_match_is_recv_frag_match_witness:
  "let pml = \<lparr>comms = Map.empty(0 \<mapsto> fresh_comm 1), non_existing_communicator_pending = []\<rparr>;
       evs = mca_pml_ob1_recv_frag_match HDR_TYPE_MATCH (example_sent 0 1) pml in
   mca_pml_ob1_recv_frag_callback_match (\<lambda>r. 4) example_unpack example_segments (example_sent 0 1) pml =
     map_option (\<lambda>(pml, evs). (pml, map (progress_event (\<lambda>r. 4) example_unpack example_segments) evs)) evs"
  using callback_match_is_recv_frag_match [of "\<lambda>r. 4" example_unpack example_segments "example_sent 0 1" "replicate 16 0" "[]"
      "\<lparr>comms = Map.empty(0 \<mapsto> fresh_comm 1), non_existing_communicator_pending = []\<rparr>"]
  by (auto simp: convertor_ok_def example_unpack_def example_segments_def example_sent_def OMPI_PML_OB1_MATCH_HDR_LEN_def Let_def split: option.splits)

section \<open>Fragments that came before the communicator\<close>

text \<open>A communicator with no posted receive, whose waiting fragments are at the right process.\<close>

definition unposted :: "nat \<Rightarrow> 'm pml_comm \<Rightarrow> bool" where
  "unposted n c \<longleftrightarrow> set_queues [] c = c \<and> length (procs c) = n \<and>
     (\<forall>p < n. \<forall>f \<in> set (frags_cant_match (procs c ! p)). hdr_src f = int p)"

lemma take_expected_Some:
  "take_expected e fs = Some (f, fs') \<Longrightarrow> hdr_seq f = e \<and> f \<in> set fs \<and> set fs' \<subseteq> set fs \<and> length fs' < length fs"
proof (induction fs arbitrary: fs')
  case (Cons g fs)
  then show ?case by (cases "hdr_seq g = e") auto
qed simp

lemma unposted_upd:
  assumes "unposted n c" and "p < n" and "\<And>x s. g (x\<lparr>specific_receives := s\<rparr>) = (g x)\<lparr>specific_receives := s\<rparr>"
    and "\<And>f. f \<in> set (frags_cant_match (g (procs c ! p))) \<Longrightarrow> hdr_src f = int p"
  shows "unposted n (upd_proc p g c)"
proof -
  have "set_queues [] (upd_proc p g c) = upd_proc p g c"
    using set_queues_upd [of g p "[]" c, OF assms(3)] assms(1) by (simp add: unposted_def)
  then show ?thesis using assms by (auto simp: unposted_def nth_list_update)
qed

lemma early_expected:
  assumes "unposted n c" and "hdr_src f = int p" and p: "p < n" and "hdr_seq f = expected_sequence (procs c ! p)"
  shows "\<exists>c'. add_fragment_to_unexpected f c = Some c' \<and> unposted n c' \<and> (\<forall>t es. out_of_order_match t f c es = Some (c', es))"
  using assms(1,2,4)
proof (induction "length (frags_cant_match (procs c ! p))" arbitrary: c f rule: less_induct)
  case less
  let ?e = "\<lambda>x. x\<lparr>expected_sequence := expected_sequence x + 1\<rparr>"
  let ?u = "\<lambda>x. x\<lparr>expected_sequence := expected_sequence x + 1, unexpected_frags := unexpected_frags x @ [f]\<rparr>"
  let ?c1 = "upd_proc p ?e c" and ?c2 = "upd_proc p ?u c" and ?x = "?u (procs c ! p)"
  have len: "length (procs c) = n" using less.prems(1) by (simp add: unposted_def)
  have src: "\<And>g. g \<in> set (frags_cant_match (procs c ! p)) \<Longrightarrow> hdr_src g = int p" using less.prems(1) p by (simp add: unposted_def)
  have u1: "unposted n ?c1" and u2: "unposted n ?c2" using src by (auto intro!: unposted_upd [OF less.prems(1) p])
  have 1: "expect_next (hdr_src f) c = Some ?c1" using less.prems(2) p len by (simp add: expect_next_def aget_def aset_def upd_proc_def)
  have c2: "keep_unexpected f True ?c1 = ?c2" using less.prems(2) p len by (simp add: keep_unexpected_def upd_proc_def)
  have 2: "match_one f ?c1 es = Some (None, ?c2, es)" for es
    using match_one_spec [of n "[]" f p ?c1 es] u1 u2 c2 less.prems(2) p len by (simp add: posted_ok_def unposted_def)
  have x: "procs ?c2 ! p = ?x" using p len by simp
  show ?case
  proof (cases "check_cantmatch_for_match ?x")
    case None
    then have "out_of_order_match t f c es = Some (?c2, es)" for t es
      using 1 2 x less.prems(2) p len by (subst out_of_order_match.simps) (simp add: aget_def)
    moreover have "add_fragment_to_unexpected f c = Some ?c2"
      using None less.prems(2,3) p len by (subst add_fragment_to_unexpected.simps) (simp add: aget_def aset_def upd_proc_def)
    ultimately show ?thesis using u2 by blast
  next
    case (Some r)
    obtain g fs where g: "take_expected (expected_sequence ?x) (frags_cant_match ?x) = Some (g, fs)" and r: "r = (g, ?x\<lparr>frags_cant_match := fs\<rparr>)"
      using Some by (auto simp: check_cantmatch_for_match_def)
    note te = take_expected_Some [OF g]
    let ?c3 = "upd_proc p (\<lambda>y. y\<lparr>frags_cant_match := fs\<rparr>) ?c2"
    have c3: "?c3 = c\<lparr>procs := (procs c)[p := ?x\<lparr>frags_cant_match := fs\<rparr>]\<rparr>" using p len by (simp add: upd_proc_def)
    have "unposted n ?c3" using te src by (intro unposted_upd [OF u2 p]) auto
    moreover have "hdr_src g = int p" "hdr_seq g = expected_sequence (procs ?c3 ! p)" using te src p len by auto
    moreover have "length (frags_cant_match (procs ?c3 ! p)) < length (frags_cant_match (procs c ! p))" using te p len by simp
    ultimately obtain c' where c': "add_fragment_to_unexpected g ?c3 = Some c'" "unposted n c'" "\<forall>t es. out_of_order_match t g ?c3 es = Some (c', es)"
      using less.hyps [of ?c3 g] by blast
    have ne: "frags_cant_match (procs c ! p) \<noteq> []" using te by auto
    have "out_of_order_match t f c es = out_of_order_match (hdr_type g) g ?c3 es" for t es
      using 1 2 x Some r ne less.prems(2) p len by (subst out_of_order_match.simps) (simp add: aget_def aset_def upd_proc_def)
    moreover have "add_fragment_to_unexpected f c = add_fragment_to_unexpected g ?c3"
      using Some r less.prems(2,3) p len by (subst add_fragment_to_unexpected.simps) (simp add: aget_def aset_def upd_proc_def)
    ultimately show ?thesis using c' by auto
  qed
qed

lemma early_fragment:
  assumes "unposted n c" and "0 \<le> hdr_src f" and "hdr_src f < int n"
  shows "\<exists>c'. add_fragment_to_unexpected f c = Some c' \<and> unposted n c' \<and> (\<forall>t. match_in_comm t f c = Some (c', []))"
proof -
  define p where "p = nat (hdr_src f)"
  have p: "p < n" "hdr_src f = int p" using assms(2,3) by (simp_all add: p_def nat_less_iff)
  have len: "length (procs c) = n" using assms(1) by (simp add: unposted_def)
  show ?thesis
  proof (cases "hdr_seq f = expected_sequence (procs c ! p)")
    case True
    then obtain c' where "add_fragment_to_unexpected f c = Some c'" "unposted n c'" "\<forall>t es. out_of_order_match t f c es = Some (c', es)"
      using early_expected [OF assms(1) p(2,1)] by blast
    then show ?thesis using True p len by (simp add: match_in_comm_def aget_def)
  next
    case False
    let ?g = "\<lambda>x. x\<lparr>frags_cant_match := frags_cant_match x @ [f]\<rparr>"
    have "append_cant_match f c = Some (upd_proc p ?g c)" using p len by (simp add: append_cant_match_def aget_def aset_def upd_proc_def)
    moreover have "unposted n (upd_proc p ?g c)" using assms(1) p by (intro unposted_upd [OF assms(1) p(1)]) (auto simp: unposted_def)
    ultimately show ?thesis using False p len
      by (subst add_fragment_to_unexpected.simps) (simp add: match_in_comm_def aget_def)
  qed
qed

lemma early_fragments:
  assumes "unposted n c" and "\<forall>f \<in> set fs. 0 \<le> hdr_src f \<and> hdr_src f < int n"
  shows "\<exists>c'. mfold add_fragment_to_unexpected fs c = Some c' \<and> unposted n c'"
  using assms
proof (induction fs arbitrary: c)
  case (Cons f fs)
  then show ?case using early_fragment [of n c f] by fastforce
qed simp

text \<open>The arrival of several fragments, each as a message of some kind.\<close>

fun deliver_all :: "(hdr_kind \<times> 'm recv_frag) list \<Rightarrow> 'm pml_ob1 \<Rightarrow> ('m pml_ob1 \<times> 'm match_event list) option" where
  "deliver_all [] pml = Some (pml, [])"
| "deliver_all ((t, f) # tfs) pml = do {
     (pml, es) \<leftarrow> mca_pml_ob1_recv_frag_match t f pml;
     (pml, es') \<leftarrow> deliver_all tfs pml;
     Some (pml, es @ es') }"

lemma deliver_pending:
  assumes "\<forall>(t, f) \<in> set tfs. comms pml (unat (hdr_ctx f)) = None"
  shows "deliver_all tfs pml = Some (pml\<lparr>non_existing_communicator_pending := non_existing_communicator_pending pml @ map snd tfs\<rparr>, [])"
  using assms
proof (induction tfs arbitrary: pml)
  case (Cons tf tfs)
  then show ?case using Cons.IH [of "append_pending (snd tf) pml"]
    by (cases tf) (simp add: mca_pml_ob1_recv_frag_match_def append_pending_def)
qed simp

lemma deliver_unposted:
  assumes "unposted n c" and "comms pml ctx = Some c" and "\<forall>(t, f) \<in> set tfs. unat (hdr_ctx f) = ctx \<and> 0 \<le> hdr_src f \<and> hdr_src f < int n"
    and "mfold add_fragment_to_unexpected (map snd tfs) c = Some c'"
  shows "deliver_all tfs pml = Some (set_comm ctx c' pml, [])"
  using assms
proof (induction tfs arbitrary: c pml)
  case Nil
  then show ?case by (simp add: set_comm_def map_upd_triv)
next
  case (Cons tf tfs)
  obtain t f where tf: "tf = (t, f)" by (cases tf)
  obtain c1 where c1: "add_fragment_to_unexpected f c = Some c1" "unposted n c1" "match_in_comm t f c = Some (c1, [])"
    using early_fragment [OF Cons.prems(1), of f] Cons.prems(3) tf by auto
  have "mca_pml_ob1_recv_frag_match t f pml = Some (set_comm ctx c1 pml, [])"
    using Cons.prems(2,3) tf c1(3) by (simp add: mca_pml_ob1_recv_frag_match_def)
  moreover have "deliver_all tfs (set_comm ctx c1 pml) = Some (set_comm ctx c' (set_comm ctx c1 pml), [])"
    using Cons.prems(3,4) tf c1(1,2) by (intro Cons.IH [of c1]) (simp_all add: set_comm_def)
  ultimately show ?case using tf by (simp add: set_comm_def)
qed

lemma fresh_unposted: "unposted n (fresh_comm n)"
  by (auto simp: unposted_def fresh_comm_def mca_pml_ob1_comm_init_size_def mca_pml_ob1_comm_construct_def
      mca_pml_ob1_comm_proc_construct_def wild_of_def specific_of_def intro!: pml_comm_eqI)

text \<open>C6: Fragments that arrive before their communicator is created are not lost: they wait in the layer, and
  the creation leads to the same state as if the communicator had been created first and the fragments
  had arrived then; no receive can have taken one.
\<close>

theorem early_arrivals:
  assumes "comms pml ctx = None" and "ctx \<le> max_contextid"
    and "\<forall>(t, f) \<in> set tfs. unat (hdr_ctx f) = ctx \<and> 0 \<le> hdr_src f \<and> hdr_src f < int n"
    and "\<forall>f \<in> set (non_existing_communicator_pending pml). unat (hdr_ctx f) = ctx \<longrightarrow> 0 \<le> hdr_src f \<and> hdr_src f < int n"
  shows "\<exists>early pml' late.
    deliver_all tfs pml = Some (early, []) \<and> mca_pml_ob1_add_comm True True max_contextid ctx n early = Some (OPAL_SUCCESS, pml') \<and>
    mca_pml_ob1_add_comm True True max_contextid ctx n pml = Some (OPAL_SUCCESS, late) \<and> deliver_all tfs late = Some (pml', [])"
proof -
  let ?mine = "filter (\<lambda>f. unat (hdr_ctx f) = ctx)" and ?other = "filter (\<lambda>f. unat (hdr_ctx f) \<noteq> ctx)"
  let ?pend = "non_existing_communicator_pending pml" and ?fs = "map snd tfs"
  obtain c1 where c1: "mfold add_fragment_to_unexpected (?mine ?pend) (fresh_comm n) = Some c1" "unposted n c1"
    using early_fragments [OF fresh_unposted, of "?mine ?pend"] assms(4) by auto
  obtain c2 where c2: "mfold add_fragment_to_unexpected ?fs c1 = Some c2" using early_fragments [OF c1(2), of ?fs] assms(3) by fastforce
  have own: "?mine ?fs = ?fs" "?other ?fs = []" using assms(3) by (auto simp: filter_id_conv filter_empty_conv)
  have add: "mca_pml_ob1_add_comm True True max_contextid ctx n q =
      do { comm \<leftarrow> mfold add_fragment_to_unexpected (?mine (non_existing_communicator_pending q)) (fresh_comm n);
           Some (OPAL_SUCCESS, (set_comm ctx comm q)\<lparr>non_existing_communicator_pending := ?other (non_existing_communicator_pending q)\<rparr>) }" for q :: "'a pml_ob1"
    using assms(2) by (simp add: mca_pml_ob1_add_comm_def fresh_comm_def mca_pml_ob1_comm_init_size_def Let_def)
  let ?early = "pml\<lparr>non_existing_communicator_pending := ?pend @ ?fs\<rparr>"
  let ?late = "(set_comm ctx c1 pml)\<lparr>non_existing_communicator_pending := ?other ?pend\<rparr>"
  let ?fin = "(set_comm ctx c2 pml)\<lparr>non_existing_communicator_pending := ?other ?pend\<rparr>"
  have "deliver_all tfs pml = Some (?early, [])" using assms(1,3) by (intro deliver_pending) auto
  moreover have "mca_pml_ob1_add_comm True True max_contextid ctx n ?early = Some (OPAL_SUCCESS, ?fin)"
    using c1(1) c2 own by (simp add: add set_comm_def)
  moreover have "mca_pml_ob1_add_comm True True max_contextid ctx n pml = Some (OPAL_SUCCESS, ?late)" using c1(1) by (simp add: add)
  moreover have "deliver_all tfs ?late = Some (?fin, [])"
    using deliver_unposted [OF c1(2) _ assms(3) c2, of ?late] by (simp add: set_comm_def)
  ultimately show ?thesis by blast
qed

definition example_layer :: "(nat \<times> nat) pml_ob1" where
  "example_layer = \<lparr>comms = Map.empty, non_existing_communicator_pending = [example_sent 1 2]\<rparr>"

theorem early_arrivals_witness:
  "\<exists>early pml' late.
    deliver_all [(HDR_TYPE_MATCH, example_sent 1 1)] example_layer = Some (early, []) \<and> mca_pml_ob1_add_comm True True 9 0 2 early = Some (OPAL_SUCCESS, pml') \<and>
    mca_pml_ob1_add_comm True True 9 0 2 example_layer = Some (OPAL_SUCCESS, late) \<and> deliver_all [(HDR_TYPE_MATCH, example_sent 1 1)] late = Some (pml', [])"
  by (rule early_arrivals) (simp_all add: example_layer_def example_sent_def)

end
