(* ===== verification/Dss_Buffer.thy ===== *)
theory Dss_Buffer
  imports Byte_Memory
begin

text \<open>
  The buffers of the data-packing library \<^verbatim>\<open>opal/dss\<close>
  (\<^verbatim>\<open>dss_internal_functions.c\<close>, \<^verbatim>\<open>dss_load_unload.c\<close>): a block that grows, with
  one pointer where the next data are packed and one where the next data are unpacked. The pointers
  are offsets into the block. A buffer stands for the queue \<open>unread\<close> of the bytes between the two
  pointers; \<open>puts\<close> and \<open>gets\<close> say that an operation appends bytes to this queue or takes them
  from its front, and are composed along the sequencing of the operations.
\<close>

section \<open>Data\<close>

definition OPAL_ERR_PACK_MISMATCH :: int where [opal_rc]: "OPAL_ERR_PACK_MISMATCH = - 22"
definition OPAL_ERR_PACK_FAILURE :: int where [opal_rc]: "OPAL_ERR_PACK_FAILURE = - 23"
definition OPAL_ERR_UNPACK_FAILURE :: int where [opal_rc]: "OPAL_ERR_UNPACK_FAILURE = - 24"
definition OPAL_ERR_UNPACK_INADEQUATE_SPACE :: int where [opal_rc]: "OPAL_ERR_UNPACK_INADEQUATE_SPACE = - 25"
definition OPAL_ERR_UNPACK_READ_PAST_END_OF_BUFFER :: int where [opal_rc]: "OPAL_ERR_UNPACK_READ_PAST_END_OF_BUFFER = - 26"
definition OPAL_ERR_UNKNOWN_DATA_TYPE :: int where [opal_rc]: "OPAL_ERR_UNKNOWN_DATA_TYPE = - 29"
definition OPAL_ERR_BUFFER :: int where [opal_rc]: "OPAL_ERR_BUFFER = - 30"

datatype dss_buffer_type = DSS_BUFFER_NON_DESC | DSS_BUFFER_FULLY_DESC

record opal_buffer =
  buf_type :: dss_buffer_type
  base_ptr :: "byte list ptr"
  pack_ptr :: nat
  unpack_ptr :: nat
  bytes_allocated :: nat
  bytes_used :: nat

text \<open>
  The machine and the settings: the two tunable sizes, the largest block the allocator provides and the
  content of fresh memory, the sizes of the C types whose size varies, the default buffer type, and the
  conversions of floating-point numbers by \<^verbatim>\<open>asprintf\<close> and \<^verbatim>\<open>strtof\<close>/\<^verbatim>\<open>strtod\<close>.
\<close>

record 'f dss_cfg =
  opal_dss_initial_size :: nat
  opal_dss_threshold_size :: nat
  heap_limit :: nat
  heap_junk :: byte
  SIZEOF_SIZE_T :: nat
  SIZEOF_BOOL :: nat
  SIZEOF_INT :: nat
  SIZEOF_PID_T :: nat
  default_buf_type :: dss_buffer_type
  asprintf_f :: "'f \<Rightarrow> byte list"
  strtof :: "byte list \<Rightarrow> 'f"
  strtod :: "byte list \<Rightarrow> 'f"

definition opal_buffer_construct :: "'f dss_cfg \<Rightarrow> opal_buffer" where
  "opal_buffer_construct cfg = \<lparr>buf_type = default_buf_type cfg, base_ptr = Null, pack_ptr = 0, unpack_ptr = 0,
     bytes_allocated = 0, bytes_used = 0\<rparr>"

section \<open>Growth\<close>

partial_function (option) double_until :: "nat \<Rightarrow> nat \<Rightarrow> nat option" where
  "double_until required to_alloc = (if to_alloc < required then double_until required (2 * to_alloc) else Some to_alloc)"

declare double_until.simps [code]

definition dss_to_alloc :: "'f dss_cfg \<Rightarrow> opal_buffer \<Rightarrow> nat \<Rightarrow> nat option" where
  "dss_to_alloc cfg buffer required =
     (if required \<ge> opal_dss_threshold_size cfg then
        if opal_dss_threshold_size cfg = 0 then None
        else Some ((required + opal_dss_threshold_size cfg - 1) div opal_dss_threshold_size cfg * opal_dss_threshold_size cfg)
      else double_until required (if bytes_allocated buffer = 0 then opal_dss_initial_size cfg else bytes_allocated buffer))"

text \<open>The result is where to pack to, \<open>Null\<close> when there is no memory (or no block yet).\<close>

definition opal_dss_buffer_extend :: "'f dss_cfg \<Rightarrow> nat \<Rightarrow> opal_buffer \<Rightarrow> (nat ptr \<times> opal_buffer) option" where
  "opal_dss_buffer_extend cfg bytes_to_add buffer =
     (if szsub (bytes_allocated buffer) (bytes_used buffer) \<ge> bytes_to_add
      then Some (case base_ptr buffer of Null \<Rightarrow> Null | Ptr _ \<Rightarrow> Ptr (pack_ptr buffer), buffer)
      else do {
        to_alloc \<leftarrow> dss_to_alloc cfg buffer (bytes_used buffer + bytes_to_add);
        let buffer = (case base_ptr buffer of
            Null \<Rightarrow> buffer\<lparr>pack_ptr := 0, unpack_ptr := 0, bytes_used := 0\<rparr>
          | Ptr _ \<Rightarrow> buffer);
        Some (if to_alloc > heap_limit cfg then (Null, buffer\<lparr>base_ptr := Null\<rparr>)
          else (Ptr (pack_ptr buffer),
            buffer\<lparr>base_ptr := Ptr (realloc_cells (heap_junk cfg) (int to_alloc) (cells (base_ptr buffer))), bytes_allocated := to_alloc\<rparr>)) })"

definition opal_dss_too_small :: "opal_buffer \<Rightarrow> nat \<Rightarrow> bool" where
  "opal_dss_too_small buffer bytes_reqd =
     (if pack_ptr buffer < unpack_ptr buffer then True
      else pack_ptr buffer - unpack_ptr buffer < bytes_reqd)"

section \<open>Sequencing\<close>

text \<open>
  \<open>if (OPAL_SUCCESS != (rc = f(...))) return rc;\<close> followed by the rest, for packing functions (a return
  code) and for unpacking functions (an error code or the value).
\<close>

type_synonym packer = "opal_buffer \<Rightarrow> (int \<times> opal_buffer) option"
type_synonym 'v unpacker = "opal_buffer \<Rightarrow> ((int + 'v) \<times> opal_buffer) option"

definition pack_then :: "packer \<Rightarrow> packer \<Rightarrow> packer" where
  "pack_then f g = (\<lambda>b. do { (rc, b) \<leftarrow> f b; if rc \<noteq> OPAL_SUCCESS then Some (rc, b) else g b })"

definition pack_done :: packer where
  "pack_done = (\<lambda>b. Some (OPAL_SUCCESS, b))"

primrec pack_each :: "('a \<Rightarrow> packer) \<Rightarrow> 'a list \<Rightarrow> packer" where
  "pack_each f [] = pack_done"
| "pack_each f (x # xs) = pack_then (f x) (pack_each f xs)"

definition unpack_then :: "'a unpacker \<Rightarrow> ('a \<Rightarrow> 'b unpacker) \<Rightarrow> 'b unpacker" where
  "unpack_then f g = (\<lambda>b. do { (r, b) \<leftarrow> f b; case r of Inl rc \<Rightarrow> Some (Inl rc, b) | Inr x \<Rightarrow> g x b })"

definition unpack_done :: "'v \<Rightarrow> 'v unpacker" where
  "unpack_done v = (\<lambda>b. Some (Inr v, b))"

definition unpack_fail :: "int \<Rightarrow> 'v unpacker" where
  "unpack_fail rc = (\<lambda>b. Some (Inl rc, b))"

primrec unpack_times :: "nat \<Rightarrow> 'a unpacker \<Rightarrow> 'a list unpacker" where
  "unpack_times 0 f = unpack_done []"
| "unpack_times (Suc n) f = unpack_then f (\<lambda>x. unpack_then (unpack_times n f) (\<lambda>xs. unpack_done (x # xs)))"

section \<open>Moving bytes\<close>

text \<open>Room for \<open>length (concat chunks)\<close> bytes, the chunks copied one after the other, the pointers moved.\<close>

primrec store_chunks :: "byte list list \<Rightarrow> nat \<Rightarrow> byte list \<Rightarrow> byte list option" where
  "store_chunks [] p mem = Some mem"
| "store_chunks (c # cs) p mem = Option.bind (mem_put mem p c) (store_chunks cs (p + length c))"

definition pack_chunks :: "'f dss_cfg \<Rightarrow> byte list list \<Rightarrow> packer" where
  "pack_chunks cfg chunks b = do {
     let n = length (concat chunks);
     (dst, b) \<leftarrow> opal_dss_buffer_extend cfg n b;
     (case dst of
        Null \<Rightarrow> Some (OPAL_ERR_OUT_OF_RESOURCE, b)
      | Ptr p \<Rightarrow> do {
          mem \<leftarrow> store_chunks chunks p (cells (base_ptr b));
          Some (OPAL_SUCCESS, b\<lparr>base_ptr := Ptr mem, pack_ptr := pack_ptr b + n, bytes_used := bytes_used b + n\<rparr>) }) }"

text \<open>A C multiplication of a signed count with a size, as a \<^verbatim>\<open>size_t\<close>.\<close>

definition szmul :: "int \<Rightarrow> nat \<Rightarrow> nat" where
  "szmul n k = nat ((n * int k) mod 2 ^ 64)"

text \<open>One \<^verbatim>\<open>memcpy\<close> from the unpack pointer on; the test for enough data comes before the loop.\<close>

definition fetch_bytes :: "nat \<Rightarrow> byte list unpacker" where
  "fetch_bytes k b = do {
     bs \<leftarrow> mem_get (cells (base_ptr b)) (unpack_ptr b) k;
     Some (Inr bs, b\<lparr>unpack_ptr := unpack_ptr b + k\<rparr>) }"

definition unpack_chunks :: "int \<Rightarrow> nat \<Rightarrow> byte list list unpacker" where
  "unpack_chunks n k b =
     (if opal_dss_too_small b (szmul n k) then Some (Inl OPAL_ERR_UNPACK_READ_PAST_END_OF_BUFFER, b)
      else unpack_times (nat n) (fetch_bytes k) b)"

section \<open>Payloads\<close>

text \<open>The sizes pass through an \<^verbatim>\<open>int32_t\<close>; a negative one has no result.\<close>

definition opal_dss_unload :: "opal_buffer \<Rightarrow> byte list ptr \<times> int \<times> opal_buffer" where
  "opal_dss_unload buffer =
     (if base_ptr buffer = Null \<or> bytes_used buffer = 0 then (Null, 0, buffer)
      else (base_ptr buffer, int_of_size_t (int (bytes_used buffer)),
        buffer\<lparr>base_ptr := Null, pack_ptr := 0, unpack_ptr := 0, bytes_allocated := 0, bytes_used := 0\<rparr>))"

definition opal_dss_load :: "byte list ptr \<Rightarrow> int \<Rightarrow> opal_buffer \<Rightarrow> opal_buffer option" where
  "opal_dss_load payload n buffer =
     (if payload = Null
      then Some (buffer\<lparr>base_ptr := Null, pack_ptr := 0, unpack_ptr := 0, bytes_used := 0, bytes_allocated := 0\<rparr>)
      else if n < 0 then None
      else Some (buffer\<lparr>base_ptr := payload, pack_ptr := nat n, unpack_ptr := 0, bytes_allocated := nat n, bytes_used := nat n\<rparr>))"

definition opal_dss_copy_payload :: "'f dss_cfg \<Rightarrow> opal_buffer \<Rightarrow> opal_buffer \<Rightarrow> (int \<times> opal_buffer) option" where
  "opal_dss_copy_payload cfg src dest =
     (if bytes_used dest \<noteq> 0 \<and> buf_type dest \<noteq> buf_type src then Some (OPAL_ERR_BUFFER, dest)
      else do {
        let dest = dest\<lparr>buf_type := buf_type src\<rparr>;
        let bytes_left = int_of_size_t (int (szsub (bytes_used src) (unpack_ptr src)));
        (if bytes_left = 0 then Some (OPAL_SUCCESS, dest)
         else if bytes_left < 0 then None
         else do {
           bytes \<leftarrow> mem_get (cells (base_ptr src)) (unpack_ptr src) (nat bytes_left);
           pack_chunks cfg [bytes] dest }) })"

section \<open>The queue a buffer stands for\<close>

definition cfg_ok :: "'f dss_cfg \<Rightarrow> bool" where
  "cfg_ok cfg \<longleftrightarrow> 0 < opal_dss_initial_size cfg \<and> 0 < opal_dss_threshold_size cfg \<and> heap_limit cfg < 2 ^ 63"

definition buf_ok :: "opal_buffer \<Rightarrow> bool" where
  "buf_ok b \<longleftrightarrow> bytes_allocated b \<le> length (cells (base_ptr b)) \<and> pack_ptr b = bytes_used b \<and>
     unpack_ptr b \<le> pack_ptr b \<and> bytes_used b \<le> bytes_allocated b \<and> bytes_allocated b < 2 ^ 63"

definition unread :: "opal_buffer \<Rightarrow> byte list" where
  "unread b = take (pack_ptr b - unpack_ptr b) (drop (unpack_ptr b) (cells (base_ptr b)))"

lemma length_unread: "buf_ok b \<Longrightarrow> length (unread b) = pack_ptr b - unpack_ptr b"
  by (auto simp: buf_ok_def unread_def)

lemma double_until_ok:
  assumes "0 < a"
  shows "\<exists>t \<ge> r. double_until r a = Some t"
  using assms
proof (induction "r - a" arbitrary: a rule: less_induct)
  case less
  show ?case
  proof (cases "a < r")
    case True
    then have "r - 2 * a < r - a" using less.prems by simp
    then obtain t where "r \<le> t" "double_until r (2 * a) = Some t" using less.hyps [of "2 * a"] less.prems by auto
    then show ?thesis using True by (subst double_until.simps) auto
  next
    case False
    then show ?thesis by (subst double_until.simps) auto
  qed
qed

lemma dss_to_alloc_ok:
  assumes "cfg_ok cfg"
  shows "\<exists>t \<ge> r. dss_to_alloc cfg b r = Some t"
proof (cases "r \<ge> opal_dss_threshold_size cfg")
  case True
  define k where "k = opal_dss_threshold_size cfg"
  have k: "0 < k" using assms by (simp add: cfg_ok_def k_def)
  have "r + k - 1 < ((r + k - 1) div k + 1) * k" using k by (metis add.commute div_less_iff_less_mult less_add_one)
  then have "r \<le> (r + k - 1) div k * k" using k by (simp add: algebra_simps)
  then show ?thesis using True k by (simp add: dss_to_alloc_def k_def)
next
  case False
  then show ?thesis using assms double_until_ok [of _ r] by (auto simp: dss_to_alloc_def cfg_ok_def)
qed

text \<open>The queue is not touched by growing the block; afterwards there is room, or no memory.\<close>

lemma buffer_extend_ok:
  assumes "cfg_ok cfg" and "buf_ok b"
  obtains (full) b' where "opal_dss_buffer_extend cfg n b = Some (Null, b')"
  | (room) b' where "opal_dss_buffer_extend cfg n b = Some (Ptr (pack_ptr b'), b')" "buf_ok b'" "unread b' = unread b"
      "buf_type b' = buf_type b" "unpack_ptr b' = unpack_ptr b" "bytes_used b' + n \<le> bytes_allocated b'"
proof (cases "szsub (bytes_allocated b) (bytes_used b) \<ge> n")
  case True
  show thesis
  proof (cases "base_ptr b")
    case Null
    then show thesis using full True by (simp add: opal_dss_buffer_extend_def)
  next
    case (Ptr xs)
    then show thesis using room [of b] True assms(2) by (auto simp: opal_dss_buffer_extend_def buf_ok_def)
  qed
next
  case False
  obtain t where t: "bytes_used b + n \<le> t" "dss_to_alloc cfg b (bytes_used b + n) = Some t" using dss_to_alloc_ok [OF assms(1)] by blast
  show thesis
  proof (cases "t > heap_limit cfg")
    case True
    then show thesis using full False t by (auto simp: opal_dss_buffer_extend_def)
  next
    case fits: False
    let ?b = "b\<lparr>base_ptr := Ptr (realloc_cells (heap_junk cfg) (int t) (cells (base_ptr b))), bytes_allocated := t\<rparr>"
    have null: "pack_ptr b = 0 \<and> unpack_ptr b = 0 \<and> bytes_used b = 0" if "base_ptr b = Null"
      using that assms(2) by (simp add: buf_ok_def cells_def)
    then have run: "opal_dss_buffer_extend cfg n b = Some (Ptr (pack_ptr ?b), ?b)"
      using False fits t by (cases "base_ptr b"; cases b) (auto simp: opal_dss_buffer_extend_def)
    have used: "bytes_used b \<le> t" "bytes_used b \<le> length (cells (base_ptr b))" using t(1) assms(2) by (auto simp: buf_ok_def)
    then have "take (pack_ptr b) (realloc_cells (heap_junk cfg) (int t) (cells (base_ptr b))) = take (pack_ptr b) (cells (base_ptr b))"
      using assms(2) by (simp add: realloc_cells_def buf_ok_def min_absorb1)
    then have "unread ?b = unread b" unfolding unread_def by (simp add: cells_def) (metis drop_take)
    moreover have "t < 2 ^ 63" using fits assms(1) unfolding cfg_ok_def by linarith
    ultimately show thesis using room [OF run] used t(1) assms(2) by (auto simp: buf_ok_def cells_def)
  qed
qed

lemma store_chunks_concat: "store_chunks cs p mem = (if p \<le> length mem then mem_put mem p (concat cs) else store_chunks cs p mem)"
proof (induction cs arbitrary: p mem)
  case (Cons c cs)
  show ?case
  proof (cases "p + length c \<le> length mem")
    case True
    then obtain m where m: "mem_put mem p c = Some m" by (simp add: mem_put_def)
    then have "store_chunks (c # cs) p mem = mem_put m (p + length c) (concat cs)"
      using Cons.IH [of "p + length c" m] mem_put_length [OF m] True by simp
    then show ?thesis using mem_put_append [OF m, of "concat cs"] by simp
  next
    case False
    then show ?thesis by (simp add: mem_put_def)
  qed
qed simp

section \<open>Appending to the queue and taking from it\<close>

named_theorems dss_puts
named_theorems dss_gets
named_theorems dss_safe

definition puts :: "dss_buffer_type \<Rightarrow> packer \<Rightarrow> byte list \<Rightarrow> bool" where
  "puts d f bs \<longleftrightarrow> (\<forall>b. buf_ok b \<and> buf_type b = d \<longrightarrow>
     (\<exists>rc b'. f b = Some (rc, b') \<and> (rc \<noteq> OPAL_SUCCESS \<longrightarrow> rc = OPAL_ERR_OUT_OF_RESOURCE) \<and>
        (rc = OPAL_SUCCESS \<longrightarrow> buf_ok b' \<and> buf_type b' = d \<and> unread b' = unread b @ bs \<and> unpack_ptr b' = unpack_ptr b)))"

definition gets :: "dss_buffer_type \<Rightarrow> 'v unpacker \<Rightarrow> 'v \<Rightarrow> byte list \<Rightarrow> bool" where
  "gets d f x bs \<longleftrightarrow> (\<forall>b rest. buf_ok b \<and> buf_type b = d \<and> unread b = bs @ rest \<longrightarrow>
     (\<exists>b'. f b = Some (Inr x, b') \<and> buf_ok b' \<and> buf_type b' = d \<and> unread b' = rest))"

text \<open>Unpacking from a buffer with any content stays inside the block.\<close>

definition safe :: "dss_buffer_type \<Rightarrow> 'v unpacker \<Rightarrow> bool" where
  "safe d f \<longleftrightarrow> (\<forall>b. buf_ok b \<and> buf_type b = d \<longrightarrow> (\<exists>r b'. f b = Some (r, b') \<and> buf_ok b' \<and> buf_type b' = d \<and> length (unread b') \<le> length (unread b)))"

lemma putsD:
  assumes "puts d f bs" and "buf_ok b" and "buf_type b = d"
  obtains b' where "f b = Some (OPAL_SUCCESS, b')" "buf_ok b'" "buf_type b' = d" "unread b' = unread b @ bs" "unpack_ptr b' = unpack_ptr b"
  | b' where "f b = Some (OPAL_ERR_OUT_OF_RESOURCE, b')"
  using assms unfolding puts_def by metis

lemma getsD:
  assumes "gets d f x bs" and "buf_ok b" and "buf_type b = d" and "unread b = bs @ rest"
  obtains b' where "f b = Some (Inr x, b')" "buf_ok b'" "buf_type b' = d" "unread b' = rest"
  using assms unfolding gets_def by blast

lemma puts_done [dss_puts]: "puts d pack_done []"
  by (simp add: puts_def pack_done_def)

lemma puts_then [dss_puts]:
  assumes "puts d f bs" and "puts d g cs"
  shows "puts d (pack_then f g) (bs @ cs)"
  unfolding puts_def
proof (intro allI impI)
  fix b assume b: "buf_ok b \<and> buf_type b = d"
  show "\<exists>rc b'. pack_then f g b = Some (rc, b') \<and> (rc \<noteq> OPAL_SUCCESS \<longrightarrow> rc = OPAL_ERR_OUT_OF_RESOURCE) \<and>
        (rc = OPAL_SUCCESS \<longrightarrow> buf_ok b' \<and> buf_type b' = d \<and> unread b' = unread b @ bs @ cs \<and> unpack_ptr b' = unpack_ptr b)"
  proof (rule putsD [OF assms(1)])
    fix b1 assume 1: "f b = Some (OPAL_SUCCESS, b1)" "buf_ok b1" "buf_type b1 = d" "unread b1 = unread b @ bs" "unpack_ptr b1 = unpack_ptr b"
    show ?thesis by (rule putsD [OF assms(2) 1(2,3)]) (use 1 in \<open>simp_all add: pack_then_def opal_rc\<close>)
  qed (use b in \<open>simp_all add: pack_then_def opal_rc\<close>)
qed

lemma puts_each [dss_puts]:
  assumes "\<And>x. x \<in> set xs \<Longrightarrow> puts d (f x) (enc x)"
  shows "puts d (pack_each f xs) (concat (map enc xs))"
  using assms by (induction xs) (simp_all add: puts_done puts_then)

lemma gets_done [dss_gets]: "gets d (unpack_done x) x []"
  by (simp add: gets_def unpack_done_def)

lemma gets_then [dss_gets]:
  assumes "gets d f x bs" and "gets d (g x) y cs"
  shows "gets d (unpack_then f g) y (bs @ cs)"
  unfolding gets_def
proof (intro allI impI)
  fix b rest assume b: "buf_ok b \<and> buf_type b = d \<and> unread b = (bs @ cs) @ rest"
  obtain b1 where 1: "f b = Some (Inr x, b1)" "buf_ok b1" "buf_type b1 = d" "unread b1 = cs @ rest"
    using b by (auto elim: getsD [OF assms(1), of b "cs @ rest"])
  obtain b2 where 2: "g x b1 = Some (Inr y, b2)" "buf_ok b2" "buf_type b2 = d" "unread b2 = rest" by (rule getsD [OF assms(2) 1(2-4)])
  show "\<exists>b'. unpack_then f g b = Some (Inr y, b') \<and> buf_ok b' \<and> buf_type b' = d \<and> unread b' = rest"
    using 1(1) 2 by (simp add: unpack_then_def)
qed

lemma gets_times [dss_gets]:
  assumes "\<And>x. x \<in> set xs \<Longrightarrow> gets d f x (enc x)"
  shows "gets d (unpack_times (length xs) f) xs (concat (map enc xs))"
  using assms
proof (induction xs)
  case (Cons x xs)
  have "gets d (unpack_then (unpack_times (length xs) f) (\<lambda>xs. unpack_done (x # xs))) (x # xs) (concat (map enc xs) @ [])"
    using Cons by (intro gets_then [where x = xs] gets_done) simp_all
  then show ?case using gets_then [OF Cons.prems [of x]] by simp
qed (simp add: gets_done)

lemma safe_done [dss_safe]: "safe d (unpack_done x)" and safe_fail [dss_safe]: "safe d (unpack_fail rc)"
  by (simp_all add: safe_def unpack_done_def unpack_fail_def)

lemma safe_then [dss_safe]:
  assumes "safe d f" and "\<And>x. safe d (g x)"
  shows "safe d (unpack_then f g)"
  unfolding safe_def
proof (intro allI impI)
  fix b assume "buf_ok b \<and> buf_type b = d"
  then obtain r b1 where 1: "f b = Some (r, b1)" "buf_ok b1 \<and> buf_type b1 = d" "length (unread b1) \<le> length (unread b)"
    using assms(1) unfolding safe_def by blast
  show "\<exists>r b'. unpack_then f g b = Some (r, b') \<and> buf_ok b' \<and> buf_type b' = d \<and> length (unread b') \<le> length (unread b)"
  proof (cases r)
    case (Inl rc)
    then show ?thesis using 1 by (simp add: unpack_then_def)
  next
    case (Inr x)
    obtain r2 b2 where "g x b1 = Some (r2, b2)" "buf_ok b2 \<and> buf_type b2 = d" "length (unread b2) \<le> length (unread b1)"
      using assms(2) [of x] 1(2) unfolding safe_def by blast
    then show ?thesis using 1 Inr by (simp add: unpack_then_def)
  qed
qed

lemma safe_times [dss_safe]: "safe d f \<Longrightarrow> safe d (unpack_times n f)"
  by (induction n) (auto intro!: safe_done safe_then)

section \<open>Bytes\<close>

lemma puts_chunks [dss_puts]:
  assumes "cfg_ok cfg"
  shows "puts d (pack_chunks cfg cs) (concat cs)"
  unfolding puts_def
proof (intro allI impI)
  fix b assume b: "buf_ok b \<and> buf_type b = d"
  let ?n = "length (concat cs)"
  show "\<exists>rc b'. pack_chunks cfg cs b = Some (rc, b') \<and> (rc \<noteq> OPAL_SUCCESS \<longrightarrow> rc = OPAL_ERR_OUT_OF_RESOURCE) \<and>
        (rc = OPAL_SUCCESS \<longrightarrow> buf_ok b' \<and> buf_type b' = d \<and> unread b' = unread b @ concat cs \<and> unpack_ptr b' = unpack_ptr b)"
  proof (rule buffer_extend_ok [OF assms, of b ?n])
    fix b1 assume "opal_dss_buffer_extend cfg ?n b = Some (Null, b1)"
    then show ?thesis by (simp add: pack_chunks_def opal_rc)
  next
    fix b1 assume 1: "opal_dss_buffer_extend cfg ?n b = Some (Ptr (pack_ptr b1), b1)" "buf_ok b1" "unread b1 = unread b"
      "buf_type b1 = buf_type b" "unpack_ptr b1 = unpack_ptr b" "bytes_used b1 + ?n \<le> bytes_allocated b1"
    let ?p = "pack_ptr b1" and ?m = "cells (base_ptr b1)"
    have room: "?p + ?n \<le> length ?m" "unpack_ptr b1 \<le> ?p" using 1(2,6) by (auto simp: buf_ok_def)
    let ?m' = "take ?p ?m @ concat cs @ drop (?p + ?n) ?m"
    have "store_chunks cs ?p ?m = Some ?m'" using room store_chunks_concat [of cs ?p ?m] by (simp add: mem_put_def)
    then have run: "pack_chunks cfg cs b = Some (OPAL_SUCCESS, b1\<lparr>base_ptr := Ptr ?m', pack_ptr := ?p + ?n, bytes_used := bytes_used b1 + ?n\<rparr>)"
      using 1(1) by (simp add: pack_chunks_def Let_def)
    have "take (?p + ?n - unpack_ptr b1) (drop (unpack_ptr b1) ?m') = take (?p - unpack_ptr b1) (drop (unpack_ptr b1) ?m) @ concat cs"
      using room by (simp add: drop_take)
    then have "unread (b1\<lparr>base_ptr := Ptr ?m', pack_ptr := ?p + ?n, bytes_used := bytes_used b1 + ?n\<rparr>) = unread b @ concat cs"
      using 1(3) by (simp add: unread_def cells_def)
    moreover have "buf_ok (b1\<lparr>base_ptr := Ptr ?m', pack_ptr := ?p + ?n, bytes_used := bytes_used b1 + ?n\<rparr>)"
      using 1(2,6) by (auto simp: buf_ok_def cells_def)
    ultimately show ?thesis using run 1(4,5) b by simp
  qed (use b in simp)
qed

lemma gets_fetch:
  assumes "length c = k"
  shows "gets d (fetch_bytes k) c c"
  unfolding gets_def
proof (intro allI impI)
  fix b rest assume b: "buf_ok b \<and> buf_type b = d \<and> unread b = c @ rest"
  let ?m = "cells (base_ptr b)" and ?u = "unpack_ptr b" and ?p = "pack_ptr b"
  have len: "?p - ?u = k + length rest" using b length_unread [of b] assms by simp
  have fit: "?u \<le> ?p" "?p \<le> length ?m" using b by (auto simp: buf_ok_def)
  have "take k (take (?p - ?u) (drop ?u ?m)) = c" using b assms by (simp add: unread_def)
  then have c: "take k (drop ?u ?m) = c" using len by (simp add: min_absorb1)
  have "drop k (take (?p - ?u) (drop ?u ?m)) = rest" using b assms by (simp add: unread_def)
  then have "take (?p - (?u + k)) (drop (?u + k) ?m) = rest" by (simp add: drop_take add.commute)
  then have "unread (b\<lparr>unpack_ptr := ?u + k\<rparr>) = rest" by (simp add: unread_def)
  moreover have "buf_ok (b\<lparr>unpack_ptr := ?u + k\<rparr>)" using b len fit by (simp add: buf_ok_def)
  moreover have "fetch_bytes k b = Some (Inr c, b\<lparr>unpack_ptr := ?u + k\<rparr>)" using c len fit by (simp add: fetch_bytes_def mem_get_def)
  ultimately show "\<exists>b'. fetch_bytes k b = Some (Inr c, b') \<and> buf_ok b' \<and> buf_type b' = d \<and> unread b' = rest" using b by simp
qed

lemma gets_chunks [dss_gets]:
  assumes "n = int (length cs)" and "\<And>c. c \<in> set cs \<Longrightarrow> length c = k" and "length cs * k < 2 ^ 64"
  shows "gets d (unpack_chunks n k) cs (concat cs)"
  unfolding gets_def
proof (intro allI impI)
  fix b rest assume b: "buf_ok b \<and> buf_type b = d \<and> unread b = concat cs @ rest"
  have len: "length (concat cs) = length cs * k" using assms(2) by (induction cs) simp_all
  have "int (length cs) * int k < 2 ^ 64" using assms(3) by (metis of_nat_less_numeral_power_cancel_iff of_nat_mult)
  then have "szmul n k = length cs * k" using assms(1) by (simp add: szmul_def nat_mult_distrib)
  then have "\<not> opal_dss_too_small b (szmul n k)" using b len length_unread [of b] by (auto simp: opal_dss_too_small_def buf_ok_def)
  moreover have g: "gets d (unpack_times (length cs) (fetch_bytes k)) cs (concat (map id cs))"
    by (rule gets_times) (use assms(2) gets_fetch in auto)
  obtain b' where "unpack_times (length cs) (fetch_bytes k) b = Some (Inr cs, b')" "buf_ok b'" "buf_type b' = d" "unread b' = rest"
    by (rule getsD [OF g, of b rest]) (use b in simp_all)
  ultimately show "\<exists>b'. unpack_chunks n k b = Some (Inr cs, b') \<and> buf_ok b' \<and> buf_type b' = d \<and> unread b' = rest"
    using assms(1) by (simp add: unpack_chunks_def)
qed

text \<open>The test before the loop covers the whole loop, for every count that can be read from a buffer.\<close>

lemma szmul_big:
  assumes "n < 0" and "- (2 ^ 31) \<le> n" and "1 \<le> k" and "k \<le> 16"
  shows "2 ^ 63 \<le> szmul n k"
proof -
  have "- (2 ^ 36) \<le> n * int k"
  proof -
    have "(- n) * int k \<le> 2 ^ 31 * 16" using assms by (intro mult_mono) simp_all
    then show ?thesis by simp
  qed
  moreover have "n * int k < 0" using assms by (simp add: mult_neg_pos)
  ultimately have "(n * int k) mod 2 ^ 64 = n * int k + 2 ^ 64" using mod_pos_pos_trivial [of "n * int k + 2 ^ 64" "2 ^ 64"] by simp
  then show ?thesis using \<open>- (2 ^ 36) \<le> n * int k\<close> by (simp add: szmul_def nat_le_eq_zle)
qed

lemma unpack_times_fetch_safe:
  assumes "buf_ok b" and "m * k \<le> length (unread b)"
  shows "\<exists>cs b'. unpack_times m (fetch_bytes k) b = Some (Inr cs, b') \<and> buf_ok b' \<and> buf_type b' = buf_type b \<and>
    length (unread b') \<le> length (unread b) \<and> length cs = m \<and> (\<forall>c \<in> set cs. length c = k)"
  using assms
proof (induction m arbitrary: b)
  case (Suc m)
  have g: "gets (buf_type b) (fetch_bytes k) (take k (unread b)) (take k (unread b))" using Suc.prems(2) by (intro gets_fetch) simp
  obtain b1 where 1: "fetch_bytes k b = Some (Inr (take k (unread b)), b1)" "buf_ok b1" "buf_type b1 = buf_type b" "unread b1 = drop k (unread b)"
    by (rule getsD [OF g, of b "drop k (unread b)"]) (use Suc.prems(1) in simp_all)
  have "m * k \<le> length (unread b1)" using Suc.prems(2) 1(4) by simp
  then obtain cs b2 where 2: "unpack_times m (fetch_bytes k) b1 = Some (Inr cs, b2)" "buf_ok b2" "buf_type b2 = buf_type b1"
    "length (unread b2) \<le> length (unread b1)" "length cs = m" "\<forall>c \<in> set cs. length c = k" using Suc.IH [OF 1(2)] by blast
  have "length (take k (unread b)) = k" using Suc.prems(2) by simp
  then show ?case using 1 2 by (simp add: unpack_then_def unpack_done_def)
qed (simp add: unpack_done_def)

lemma safe_chunks [dss_safe]:
  assumes "- (2 ^ 31) \<le> n" and "n < 2 ^ 31" and "1 \<le> k" and "k \<le> 16"
  shows "safe d (unpack_chunks n k)"
  unfolding safe_def
proof (intro allI impI)
  fix b assume b: "buf_ok b \<and> buf_type b = d"
  show "\<exists>r b'. unpack_chunks n k b = Some (r, b') \<and> buf_ok b' \<and> buf_type b' = d \<and> length (unread b') \<le> length (unread b)"
  proof (cases "opal_dss_too_small b (szmul n k)")
    case True
    then show ?thesis using b by (simp add: unpack_chunks_def)
  next
    case False
    have len: "szmul n k \<le> length (unread b)" using False b length_unread [of b] by (auto simp: opal_dss_too_small_def split: if_splits)
    moreover have "length (unread b) < 2 ^ 63" using b length_unread [of b] unfolding buf_ok_def by linarith
    ultimately have "0 \<le> n" using szmul_big [OF _ assms(1,3,4)] by linarith
    moreover have "n * int k < 2 ^ 64"
    proof -
      have "n * int k \<le> 2 ^ 31 * 16" using assms \<open>0 \<le> n\<close> by (intro mult_mono) simp_all
      then show ?thesis by simp
    qed
    ultimately have "szmul n k = nat n * k" by (simp add: szmul_def nat_mult_distrib)
    then show ?thesis using unpack_times_fetch_safe [of b "nat n" k] len b False by (auto simp: unpack_chunks_def)
  qed
qed


text \<open>Copying a payload appends what is not yet unpacked in the source.\<close>

lemma copy_payload_appends:
  assumes "cfg_ok cfg" and "buf_ok src" and "buf_ok dest" and "buf_type dest = buf_type src \<or> bytes_used dest = 0" and "length (unread src) < 2 ^ 31"
    and "opal_dss_copy_payload cfg src dest = Some (OPAL_SUCCESS, dest')"
  shows "buf_ok dest' \<and> buf_type dest' = buf_type src \<and> unread dest' = unread dest @ unread src"
proof -
  let ?dest = "dest\<lparr>buf_type := buf_type src\<rparr>"
  have dest: "buf_ok ?dest" "buf_type ?dest = buf_type src" "unread ?dest = unread dest" using assms(3) by (simp_all add: buf_ok_def unread_def)
  have len: "length (unread src) = pack_ptr src - unpack_ptr src" by (rule length_unread [OF assms(2)])
  have left: "int_of_size_t (int (szsub (bytes_used src) (unpack_ptr src))) = int (length (unread src))"
    using assms(2,5) len by (simp add: buf_ok_def szsub_def INT_MAX_def)
  show ?thesis
  proof (cases "unread src = []")
    case True
    then show ?thesis using assms(4,6) left dest by (auto simp: opal_dss_copy_payload_def Let_def opal_rc)
  next
    case False
    have "mem_get (cells (base_ptr src)) (unpack_ptr src) (length (unread src)) = Some (unread src)"
      using assms(2) len False by (auto simp: buf_ok_def mem_get_def unread_def)
    then have "pack_chunks cfg [unread src] ?dest = Some (OPAL_SUCCESS, dest')"
      using assms(4,6) left False by (auto simp: opal_dss_copy_payload_def Let_def opal_rc)
    then show ?thesis using puts_chunks [OF assms(1), of "buf_type src" "[unread src]"] dest unfolding puts_def by fastforce
  qed
qed

end
