(* ===== verification/Dss_Types.thy ===== *)
theory Dss_Types
  imports Dss_Buffer
begin

text \<open>
  The types and values of the data-packing library (\<^verbatim>\<open>dss_types.h\<close>). The memory a caller
  passes as \<^verbatim>\<open>void *\<close> is a typed array; a function that is handed an array of another type has no
  result.
\<close>

section \<open>Types and values\<close>

named_theorems dss_type

type_synonym opal_data_type = byte

definition OPAL_UNDEF :: opal_data_type where [dss_type]: "OPAL_UNDEF = 0"
definition OPAL_BYTE :: opal_data_type where [dss_type]: "OPAL_BYTE = 1"
definition OPAL_BOOL :: opal_data_type where [dss_type]: "OPAL_BOOL = 2"
definition OPAL_STRING :: opal_data_type where [dss_type]: "OPAL_STRING = 3"
definition OPAL_SIZE :: opal_data_type where [dss_type]: "OPAL_SIZE = 4"
definition OPAL_PID :: opal_data_type where [dss_type]: "OPAL_PID = 5"
definition OPAL_INT :: opal_data_type where [dss_type]: "OPAL_INT = 6"
definition OPAL_INT8 :: opal_data_type where [dss_type]: "OPAL_INT8 = 7"
definition OPAL_INT16 :: opal_data_type where [dss_type]: "OPAL_INT16 = 8"
definition OPAL_INT32 :: opal_data_type where [dss_type]: "OPAL_INT32 = 9"
definition OPAL_INT64 :: opal_data_type where [dss_type]: "OPAL_INT64 = 10"
definition OPAL_UINT :: opal_data_type where [dss_type]: "OPAL_UINT = 11"
definition OPAL_UINT8 :: opal_data_type where [dss_type]: "OPAL_UINT8 = 12"
definition OPAL_UINT16 :: opal_data_type where [dss_type]: "OPAL_UINT16 = 13"
definition OPAL_UINT32 :: opal_data_type where [dss_type]: "OPAL_UINT32 = 14"
definition OPAL_UINT64 :: opal_data_type where [dss_type]: "OPAL_UINT64 = 15"
definition OPAL_FLOAT :: opal_data_type where [dss_type]: "OPAL_FLOAT = 16"
definition OPAL_DOUBLE :: opal_data_type where [dss_type]: "OPAL_DOUBLE = 17"
definition OPAL_TIMEVAL :: opal_data_type where [dss_type]: "OPAL_TIMEVAL = 18"
definition OPAL_TIME :: opal_data_type where [dss_type]: "OPAL_TIME = 19"
definition OPAL_BYTE_OBJECT :: opal_data_type where [dss_type]: "OPAL_BYTE_OBJECT = 20"
definition OPAL_DATA_TYPE :: opal_data_type where [dss_type]: "OPAL_DATA_TYPE = 21"
definition OPAL_NULL :: opal_data_type where [dss_type]: "OPAL_NULL = 22"
definition OPAL_VALUE :: opal_data_type where [dss_type]: "OPAL_VALUE = 26"
definition OPAL_BUFFER :: opal_data_type where [dss_type]: "OPAL_BUFFER = 27"
definition OPAL_PTR :: opal_data_type where [dss_type]: "OPAL_PTR = 28"
definition OPAL_DATA_TYPE_T :: opal_data_type where [dss_type]: "OPAL_DATA_TYPE_T = OPAL_UINT8"

text \<open>A string is the block that holds it, with the terminating zero; a byte object is its size and its block.\<close>

datatype 'f dss_array =
    A8 "byte list" | A16 "16 word list" | A32 "32 word list" | A64 "64 word list"
  | AStr "byte list ptr list" | AFloat "'f list" | ADouble "'f list" | ATimeval "(64 word \<times> 64 word) list"
  | AByteObj "(32 word \<times> byte list ptr) list" | AVal "(byte list ptr \<times> opal_data_type \<times> 'f dss_array) list"
  | ABuf "opal_buffer list"

primrec alen :: "'f dss_array \<Rightarrow> nat" where
  "alen (A8 xs) = length xs" | "alen (A16 xs) = length xs" | "alen (A32 xs) = length xs" | "alen (A64 xs) = length xs"
| "alen (AStr xs) = length xs" | "alen (AFloat xs) = length xs" | "alen (ADouble xs) = length xs" | "alen (ATimeval xs) = length xs"
| "alen (AByteObj xs) = length xs" | "alen (AVal xs) = length xs" | "alen (ABuf xs) = length xs"

type_synonym 'f dss_pack_fn = "'f dss_array \<Rightarrow> nat \<Rightarrow> packer"
type_synonym 'f dss_unpack_fn = "int \<Rightarrow> 'f dss_array unpacker"

text \<open>An access outside an array, through a null pointer, or to memory of another type.\<close>

definition bad_access :: "opal_buffer \<Rightarrow> 'r option" where
  "bad_access = (\<lambda>b. None)"

definition first_of :: "'a list \<Rightarrow> nat \<Rightarrow> ('a list \<Rightarrow> packer) \<Rightarrow> packer" where
  "first_of xs n f = (if n \<le> length xs then f (take n xs) else bad_access)"

section \<open>Byte order\<close>

text \<open>On a little-endian machine; \<^verbatim>\<open>hton64\<close> swaps the halves and the bytes of each half.\<close>

definition htons :: "16 word \<Rightarrow> 16 word" where "htons x = le_word (rev (le_bytes 2 x))"
definition htonl :: "32 word \<Rightarrow> 32 word" where "htonl x = le_word (rev (le_bytes 4 x))"

definition hton64 :: "64 word \<Rightarrow> 64 word" where
  "hton64 x = (let w0 = le_word (take 4 (le_bytes 8 x)); w1 = le_word (drop 4 (le_bytes 8 x))
     in le_word (le_bytes 4 (htonl w1) @ le_bytes 4 (htonl w0)))"

definition ntohs :: "16 word \<Rightarrow> 16 word" where "ntohs x = le_word (rev (le_bytes 2 x))"
definition ntohl :: "32 word \<Rightarrow> 32 word" where "ntohl x = le_word (rev (le_bytes 4 x))"

definition ntoh64 :: "64 word \<Rightarrow> 64 word" where
  "ntoh64 x = (let w0 = le_word (take 4 (le_bytes 8 x)); w1 = le_word (drop 4 (le_bytes 8 x))
     in le_word (le_bytes 4 (ntohl w1) @ le_bytes 4 (ntohl w0)))"

end
