(* ===== verification/Dss_Pack.thy ===== *)
theory Dss_Pack
  imports Dss_Types
begin

text \<open>
  Packing typed values (\<^verbatim>\<open>dss_pack.c\<close>, the registrations of \<^verbatim>\<open>dss_open_close.c\<close>).
  In a fully described buffer every value is preceded by its type. The statistics of processes and nodes
  and the types of other libraries are not in the table here.

  The functions call each other through the table of registered types. The table is built in three
  layers: the types packed directly, the generic types packed as one of those, and the structures
  packed field by field.
\<close>

section \<open>The functions and their table\<close>

fun c_strlen :: "byte list \<Rightarrow> nat option" where
  "c_strlen [] = None"
| "c_strlen (c # cs) = (if c = 0 then Some 0 else map_option Suc (c_strlen cs))"

definition opal_dss_pack_null :: "'f dss_cfg \<Rightarrow> 'f dss_pack_fn" where
  "opal_dss_pack_null cfg src num_vals = pack_chunks cfg [replicate num_vals 0]"

definition opal_dss_pack_byte :: "'f dss_cfg \<Rightarrow> 'f dss_pack_fn" where
  "opal_dss_pack_byte cfg src num_vals =
     (case src of A8 xs \<Rightarrow> first_of xs num_vals (\<lambda>ys. pack_chunks cfg [ys]) | _ \<Rightarrow> bad_access)"

definition opal_dss_pack_int16 :: "'f dss_cfg \<Rightarrow> 'f dss_pack_fn" where
  "opal_dss_pack_int16 cfg src num_vals =
     (case src of A16 xs \<Rightarrow> first_of xs num_vals (\<lambda>ys. pack_chunks cfg (map (\<lambda>x. le_bytes 2 (htons x)) ys)) | _ \<Rightarrow> bad_access)"

definition opal_dss_pack_int32 :: "'f dss_cfg \<Rightarrow> 'f dss_pack_fn" where
  "opal_dss_pack_int32 cfg src num_vals =
     (case src of A32 xs \<Rightarrow> first_of xs num_vals (\<lambda>ys. pack_chunks cfg (map (\<lambda>x. le_bytes 4 (htonl x)) ys)) | _ \<Rightarrow> bad_access)"

definition opal_dss_pack_int64 :: "'f dss_cfg \<Rightarrow> 'f dss_pack_fn" where
  "opal_dss_pack_int64 cfg src num_vals =
     (case src of A64 xs \<Rightarrow> first_of xs num_vals (\<lambda>ys. pack_chunks cfg (map (\<lambda>x. le_bytes 8 (hton64 x)) ys)) | _ \<Rightarrow> bad_access)"

text \<open>The length of a string is kept in an \<^verbatim>\<open>int32_t\<close>.\<close>

definition pack_one_string :: "'f dss_cfg \<Rightarrow> byte list ptr \<Rightarrow> packer" where
  "pack_one_string cfg s =
     (case s of
        Null \<Rightarrow> opal_dss_pack_int32 cfg (A32 [0]) 1
      | Ptr block \<Rightarrow>
          (case c_strlen block of
             None \<Rightarrow> bad_access
           | Some l \<Rightarrow>
               if int l + 1 > INT_MAX then bad_access
               else pack_then (opal_dss_pack_int32 cfg (A32 [of_nat (l + 1)]) 1) (opal_dss_pack_byte cfg (A8 block) (l + 1))))"

definition opal_dss_pack_string :: "'f dss_cfg \<Rightarrow> 'f dss_pack_fn" where
  "opal_dss_pack_string cfg src num_vals =
     (case src of AStr ss \<Rightarrow> first_of ss num_vals (pack_each (pack_one_string cfg)) | _ \<Rightarrow> bad_access)"

definition opal_dss_pack_float :: "'f dss_cfg \<Rightarrow> 'f dss_pack_fn" where
  "opal_dss_pack_float cfg src num_vals =
     (case src of AFloat xs \<Rightarrow> first_of xs num_vals (pack_each (\<lambda>x. opal_dss_pack_string cfg (AStr [Ptr (asprintf_f cfg x @ [0])]) 1)) | _ \<Rightarrow> bad_access)"

definition opal_dss_pack_double :: "'f dss_cfg \<Rightarrow> 'f dss_pack_fn" where
  "opal_dss_pack_double cfg src num_vals =
     (case src of ADouble xs \<Rightarrow> first_of xs num_vals (pack_each (\<lambda>x. opal_dss_pack_string cfg (AStr [Ptr (asprintf_f cfg x @ [0])]) 1)) | _ \<Rightarrow> bad_access)"

definition opal_dss_pack_timeval :: "'f dss_cfg \<Rightarrow> 'f dss_pack_fn" where
  "opal_dss_pack_timeval cfg src num_vals =
     (case src of ATimeval xs \<Rightarrow> first_of xs num_vals (pack_each (\<lambda>(sec, usec). opal_dss_pack_int64 cfg (A64 [sec, usec]) 2)) | _ \<Rightarrow> bad_access)"

definition opal_dss_pack_time :: "'f dss_cfg \<Rightarrow> 'f dss_pack_fn" where
  "opal_dss_pack_time cfg src num_vals =
     (case src of A64 xs \<Rightarrow> first_of xs num_vals (pack_each (\<lambda>x. opal_dss_pack_int64 cfg (A64 [x]) 1)) | _ \<Rightarrow> bad_access)"

definition pack_one_object :: "'f dss_cfg \<Rightarrow> 32 word \<times> byte list ptr \<Rightarrow> packer" where
  "pack_one_object cfg = (\<lambda>(n, bytes).
     pack_then (opal_dss_pack_int32 cfg (A32 [n]) 1)
       (if 0 < sint n then (case bytes of Null \<Rightarrow> bad_access | Ptr xs \<Rightarrow> opal_dss_pack_byte cfg (A8 xs) (nat (sint n)))
        else pack_done))"

definition opal_dss_pack_byte_object :: "'f dss_cfg \<Rightarrow> 'f dss_pack_fn" where
  "opal_dss_pack_byte_object cfg src num_vals =
     (case src of AByteObj xs \<Rightarrow> first_of xs num_vals (pack_each (pack_one_object cfg)) | _ \<Rightarrow> bad_access)"

text \<open>The table, first layer.\<close>

definition pack_fn0 :: "'f dss_cfg \<Rightarrow> opal_data_type \<Rightarrow> 'f dss_pack_fn option" where
  "pack_fn0 cfg type =
     (if type = OPAL_NULL then Some (opal_dss_pack_null cfg)
      else if type \<in> {OPAL_BYTE, OPAL_INT8, OPAL_UINT8} then Some (opal_dss_pack_byte cfg)
      else if type \<in> {OPAL_INT16, OPAL_UINT16} then Some (opal_dss_pack_int16 cfg)
      else if type \<in> {OPAL_INT32, OPAL_UINT32} then Some (opal_dss_pack_int32 cfg)
      else if type \<in> {OPAL_INT64, OPAL_UINT64} then Some (opal_dss_pack_int64 cfg)
      else if type = OPAL_STRING then Some (opal_dss_pack_string cfg)
      else if type = OPAL_BYTE_OBJECT then Some (opal_dss_pack_byte_object cfg)
      else if type = OPAL_FLOAT then Some (opal_dss_pack_float cfg)
      else if type = OPAL_DOUBLE then Some (opal_dss_pack_double cfg)
      else if type = OPAL_TIMEVAL then Some (opal_dss_pack_timeval cfg)
      else if type = OPAL_TIME then Some (opal_dss_pack_time cfg)
      else None)"

definition opal_dss_store_data_type :: "'f dss_cfg \<Rightarrow> opal_data_type \<Rightarrow> packer" where
  "opal_dss_store_data_type cfg type =
     (case pack_fn0 cfg OPAL_DATA_TYPE_T of
        None \<Rightarrow> (\<lambda>b. Some (OPAL_ERR_PACK_FAILURE, b))
      | Some f \<Rightarrow> f (A8 [type]) 1)"

definition store_type_if :: "dss_buffer_type \<Rightarrow> 'f dss_cfg \<Rightarrow> opal_data_type \<Rightarrow> packer" where
  "store_type_if d cfg type = (\<lambda>b. if buf_type b = d then opal_dss_store_data_type cfg type b else Some (OPAL_SUCCESS, b))"

text \<open>\<open>opal_dss_pack_buffer\<close> over a layer of the table.\<close>

definition pack_buffer_via ::
    "'f dss_cfg \<Rightarrow> (opal_data_type \<Rightarrow> 'f dss_pack_fn option) \<Rightarrow> 'f dss_array \<Rightarrow> nat \<Rightarrow> opal_data_type \<Rightarrow> packer" where
  "pack_buffer_via cfg fns src num_vals type =
     pack_then (store_type_if DSS_BUFFER_FULLY_DESC cfg type)
       (case fns type of
          None \<Rightarrow> (\<lambda>b. Some (OPAL_ERR_PACK_FAILURE, b))
        | Some f \<Rightarrow> f src num_vals)"

definition uint_type_of_size :: "nat \<Rightarrow> opal_data_type" where
  "uint_type_of_size k = (if k = 1 then OPAL_UINT8 else if k = 2 then OPAL_UINT16 else if k = 4 then OPAL_UINT32 else OPAL_UINT64)"

definition int_type_of_size :: "nat \<Rightarrow> opal_data_type" where
  "int_type_of_size k = (if k = 1 then OPAL_INT8 else if k = 2 then OPAL_INT16 else if k = 4 then OPAL_INT32 else OPAL_INT64)"

definition DSS_TYPE_SIZE_T :: "'f dss_cfg \<Rightarrow> opal_data_type" where "DSS_TYPE_SIZE_T cfg = uint_type_of_size (SIZEOF_SIZE_T cfg)"
definition DSS_TYPE_BOOL :: "'f dss_cfg \<Rightarrow> opal_data_type" where "DSS_TYPE_BOOL cfg = uint_type_of_size (SIZEOF_BOOL cfg)"
definition DSS_TYPE_INT :: "'f dss_cfg \<Rightarrow> opal_data_type" where "DSS_TYPE_INT cfg = int_type_of_size (SIZEOF_INT cfg)"
definition DSS_TYPE_PID_T :: "'f dss_cfg \<Rightarrow> opal_data_type" where "DSS_TYPE_PID_T cfg = uint_type_of_size (SIZEOF_PID_T cfg)"

definition pack_system_type :: "'f dss_cfg \<Rightarrow> opal_data_type \<Rightarrow> 'f dss_pack_fn" where
  "pack_system_type cfg type src num_vals =
     pack_then (store_type_if DSS_BUFFER_NON_DESC cfg type) (pack_buffer_via cfg (pack_fn0 cfg) src num_vals type)"

definition opal_dss_pack_bool :: "'f dss_cfg \<Rightarrow> 'f dss_pack_fn" where
  "opal_dss_pack_bool cfg = pack_system_type cfg (DSS_TYPE_BOOL cfg)"
definition opal_dss_pack_int :: "'f dss_cfg \<Rightarrow> 'f dss_pack_fn" where
  "opal_dss_pack_int cfg = pack_system_type cfg (DSS_TYPE_INT cfg)"
definition opal_dss_pack_sizet :: "'f dss_cfg \<Rightarrow> 'f dss_pack_fn" where
  "opal_dss_pack_sizet cfg = pack_system_type cfg (DSS_TYPE_SIZE_T cfg)"
definition opal_dss_pack_pid :: "'f dss_cfg \<Rightarrow> 'f dss_pack_fn" where
  "opal_dss_pack_pid cfg = pack_system_type cfg (DSS_TYPE_PID_T cfg)"
definition opal_dss_pack_data_type :: "'f dss_cfg \<Rightarrow> 'f dss_pack_fn" where
  "opal_dss_pack_data_type cfg src num_vals = pack_buffer_via cfg (pack_fn0 cfg) src num_vals OPAL_DATA_TYPE_T"

definition pack_fn1 :: "'f dss_cfg \<Rightarrow> opal_data_type \<Rightarrow> 'f dss_pack_fn option" where
  "pack_fn1 cfg type =
     (if type = OPAL_BOOL then Some (opal_dss_pack_bool cfg)
      else if type \<in> {OPAL_INT, OPAL_UINT} then Some (opal_dss_pack_int cfg)
      else if type = OPAL_SIZE then Some (opal_dss_pack_sizet cfg)
      else if type = OPAL_PID then Some (opal_dss_pack_pid cfg)
      else if type = OPAL_DATA_TYPE then Some (opal_dss_pack_data_type cfg)
      else pack_fn0 cfg type)"

text \<open>
  The switch of \<open>opal_dss_pack_value\<close> over the type of a value: the fields packed as one element of the
  type, the types of the arrays \<^verbatim>\<open>OPAL_FLOAT_ARRAY\<close> to \<^verbatim>\<open>OPAL_TIMEVAL_ARRAY\<close> with
  the type of their elements. An array is its size and its elements.
\<close>

definition value_scalars :: "opal_data_type set" where
  "value_scalars = {OPAL_BOOL, OPAL_BYTE, OPAL_STRING, OPAL_SIZE, OPAL_PID, OPAL_INT, OPAL_INT8, OPAL_INT16, OPAL_INT32, OPAL_INT64,
     OPAL_UINT, OPAL_UINT8, OPAL_UINT16, OPAL_UINT32, OPAL_UINT64, OPAL_FLOAT, OPAL_DOUBLE, OPAL_TIMEVAL}"

definition value_arrays :: "opal_data_type \<rightharpoonup> opal_data_type" where
  "value_arrays = map_of [(31, OPAL_FLOAT), (32, OPAL_DOUBLE), (33, OPAL_STRING), (34, OPAL_BOOL), (35, OPAL_SIZE), (36, OPAL_BYTE),
     (37, OPAL_INT), (38, OPAL_INT8), (39, OPAL_INT16), (40, OPAL_INT32), (41, OPAL_INT64), (42, OPAL_UINT), (43, OPAL_UINT8),
     (44, OPAL_UINT16), (45, OPAL_UINT32), (46, OPAL_UINT64), (48, OPAL_PID), (49, OPAL_TIMEVAL)]"

definition pack_value_field :: "'f dss_cfg \<Rightarrow> opal_data_type \<Rightarrow> 'f dss_array \<Rightarrow> packer" where
  "pack_value_field cfg type data =
     (if type \<in> value_scalars then pack_buffer_via cfg (pack_fn1 cfg) data 1 type
      else if type = OPAL_BYTE_OBJECT then (case data of AByteObj (x # _) \<Rightarrow> pack_one_object cfg x | _ \<Rightarrow> bad_access)
      else if type = OPAL_PTR then pack_done
      else
        (case value_arrays type of
           Some elem \<Rightarrow>
             pack_then (pack_buffer_via cfg (pack_fn1 cfg) (A32 [of_nat (alen data)]) 1 OPAL_INT32)
               (pack_buffer_via cfg (pack_fn1 cfg) data (alen data) elem)
         | None \<Rightarrow> (\<lambda>b. Some (OPAL_ERROR, b))))"

definition pack_one_value :: "'f dss_cfg \<Rightarrow> byte list ptr \<times> opal_data_type \<times> 'f dss_array \<Rightarrow> packer" where
  "pack_one_value cfg = (\<lambda>(key, type, data).
     pack_then (opal_dss_pack_string cfg (AStr [key]) 1)
       (pack_then (opal_dss_pack_data_type cfg (A8 [type]) 1) (pack_value_field cfg type data)))"

definition opal_dss_pack_value :: "'f dss_cfg \<Rightarrow> 'f dss_pack_fn" where
  "opal_dss_pack_value cfg src num_vals =
     (case src of AVal vs \<Rightarrow> first_of vs num_vals (pack_each (pack_one_value cfg)) | _ \<Rightarrow> bad_access)"

text \<open>An integer stored with a size of 1, 2, 4 or 8 bytes.\<close>

definition ints_array :: "nat \<Rightarrow> int list \<Rightarrow> 'f dss_array" where
  "ints_array k xs = (if k = 1 then A8 (map word_of_int xs) else if k = 2 then A16 (map word_of_int xs)
     else if k = 4 then A32 (map word_of_int xs) else A64 (map word_of_int xs))"

text \<open>
  The whole content of each buffer. (The function also forgets the block of an empty source buffer, which
  stays with the caller here.)
\<close>

definition pack_one_buffer :: "'f dss_cfg \<Rightarrow> opal_buffer \<Rightarrow> packer" where
  "pack_one_buffer cfg nb =
     pack_then (opal_dss_pack_sizet cfg (ints_array (SIZEOF_SIZE_T cfg) [int (bytes_used nb)]) 1)
       (if 0 < bytes_used nb then
          (case base_ptr nb of Null \<Rightarrow> bad_access | Ptr mem \<Rightarrow> opal_dss_pack_byte cfg (A8 mem) (bytes_used nb))
        else pack_done)"

definition opal_dss_pack_buffer_contents :: "'f dss_cfg \<Rightarrow> 'f dss_pack_fn" where
  "opal_dss_pack_buffer_contents cfg src num_vals =
     (case src of ABuf bs \<Rightarrow> first_of bs num_vals (pack_each (pack_one_buffer cfg)) | _ \<Rightarrow> bad_access)"

definition pack_fn2 :: "'f dss_cfg \<Rightarrow> opal_data_type \<Rightarrow> 'f dss_pack_fn option" where
  "pack_fn2 cfg type =
     (if type = OPAL_VALUE then Some (opal_dss_pack_value cfg)
      else if type = OPAL_BUFFER then Some (opal_dss_pack_buffer_contents cfg)
      else pack_fn1 cfg type)"

definition opal_dss_pack_buffer :: "'f dss_cfg \<Rightarrow> 'f dss_array \<Rightarrow> nat \<Rightarrow> opal_data_type \<Rightarrow> packer" where
  "opal_dss_pack_buffer cfg = pack_buffer_via cfg (pack_fn2 cfg)"

definition opal_dss_pack :: "'f dss_cfg \<Rightarrow> 'f dss_array \<Rightarrow> nat \<Rightarrow> opal_data_type \<Rightarrow> packer" where
  "opal_dss_pack cfg src num_vals type =
     pack_then (store_type_if DSS_BUFFER_FULLY_DESC cfg OPAL_INT32)
       (pack_then (opal_dss_pack_int32 cfg (A32 [of_nat num_vals]) 1)
         (opal_dss_pack_buffer cfg src num_vals type))"

end
