(* ===== verification/Dss_Unpack.thy ===== *)
theory Dss_Unpack
  imports Dss_Pack
begin

text \<open>
  Unpacking typed values (\<^verbatim>\<open>dss_unpack.c\<close>, \<^verbatim>\<open>dss_peek.c\<close>,
  the conversions of \<^verbatim>\<open>dss_internal.h\<close>), with the table in the same three layers as for
  packing. Counts and lengths come from the buffer.
\<close>

section \<open>The functions and their table\<close>

definition unpack_block :: "int \<Rightarrow> byte list unpacker" where
  "unpack_block n b =
     (if opal_dss_too_small b (szmul n 1) then Some (Inl OPAL_ERR_UNPACK_READ_PAST_END_OF_BUFFER, b)
      else fetch_bytes (nat n) b)"

definition enough_for :: "int \<Rightarrow> nat \<Rightarrow> 'v unpacker \<Rightarrow> 'v unpacker" where
  "enough_for n k f b =
     (if opal_dss_too_small b (szmul n k) then Some (Inl OPAL_ERR_UNPACK_READ_PAST_END_OF_BUFFER, b) else f b)"

definition opal_dss_unpack_null :: "'f dss_unpack_fn" where
  "opal_dss_unpack_null num_vals = unpack_then (unpack_block num_vals) (\<lambda>bs. unpack_done (A8 bs))"

definition opal_dss_unpack_byte :: "'f dss_unpack_fn" where
  "opal_dss_unpack_byte num_vals = unpack_then (unpack_block num_vals) (\<lambda>bs. unpack_done (A8 bs))"

definition opal_dss_unpack_int16 :: "'f dss_unpack_fn" where
  "opal_dss_unpack_int16 num_vals = unpack_then (unpack_chunks num_vals 2) (\<lambda>cs. unpack_done (A16 (map (\<lambda>c. ntohs (le_word c)) cs)))"

definition unpack_int32s :: "int \<Rightarrow> 32 word list unpacker" where
  "unpack_int32s num_vals = unpack_then (unpack_chunks num_vals 4) (\<lambda>cs. unpack_done (map (\<lambda>c. ntohl (le_word c)) cs))"

definition opal_dss_unpack_int32 :: "'f dss_unpack_fn" where
  "opal_dss_unpack_int32 num_vals = unpack_then (unpack_int32s num_vals) (\<lambda>xs. unpack_done (A32 xs))"

definition unpack_int64s :: "int \<Rightarrow> 64 word list unpacker" where
  "unpack_int64s num_vals = unpack_then (unpack_chunks num_vals 8) (\<lambda>cs. unpack_done (map (\<lambda>c. ntoh64 (le_word c)) cs))"

definition opal_dss_unpack_int64 :: "'f dss_unpack_fn" where
  "opal_dss_unpack_int64 num_vals = unpack_then (unpack_int64s num_vals) (\<lambda>xs. unpack_done (A64 xs))"

text \<open>\<^verbatim>\<open>malloc\<close> of a signed size: a negative one is a huge \<^verbatim>\<open>size_t\<close>.\<close>

definition malloc_fails :: "'f dss_cfg \<Rightarrow> int \<Rightarrow> bool" where
  "malloc_fails cfg n \<longleftrightarrow> szmul n 1 > heap_limit cfg"

definition unpack_one_string :: "'f dss_cfg \<Rightarrow> byte list ptr unpacker" where
  "unpack_one_string cfg = unpack_then (unpack_int32s 1) (\<lambda>xs. let len = sint (hd xs) in
     if len = 0 then unpack_done Null
     else if malloc_fails cfg len then unpack_fail OPAL_ERR_OUT_OF_RESOURCE
     else unpack_then (unpack_block len) (\<lambda>bs. unpack_done (Ptr bs)))"

definition opal_dss_unpack_string :: "'f dss_cfg \<Rightarrow> 'f dss_unpack_fn" where
  "opal_dss_unpack_string cfg num_vals = unpack_then (unpack_times (nat num_vals) (unpack_one_string cfg)) (\<lambda>ss. unpack_done (AStr ss))"

text \<open>The conversion reads the string up to its end.\<close>

definition converted :: "(byte list \<Rightarrow> 'v) \<Rightarrow> byte list ptr \<Rightarrow> 'v unpacker" where
  "converted conv s = (case s of
      Null \<Rightarrow> bad_access
    | Ptr block \<Rightarrow> (case c_strlen block of None \<Rightarrow> bad_access | Some l \<Rightarrow> unpack_done (conv (take l block))))"

definition opal_dss_unpack_float :: "'f dss_cfg \<Rightarrow> 'f dss_unpack_fn" where
  "opal_dss_unpack_float cfg num_vals = enough_for num_vals 4
     (unpack_then (unpack_times (nat num_vals) (unpack_then (unpack_one_string cfg) (converted (strtof cfg)))) (\<lambda>xs. unpack_done (AFloat xs)))"

definition opal_dss_unpack_double :: "'f dss_cfg \<Rightarrow> 'f dss_unpack_fn" where
  "opal_dss_unpack_double cfg num_vals = enough_for num_vals 8
     (unpack_then (unpack_times (nat num_vals) (unpack_then (unpack_one_string cfg) (converted (strtod cfg)))) (\<lambda>xs. unpack_done (ADouble xs)))"

definition opal_dss_unpack_timeval :: "'f dss_unpack_fn" where
  "opal_dss_unpack_timeval num_vals = enough_for num_vals 16
     (unpack_then (unpack_times (nat num_vals) (unpack_then (unpack_int64s 2) (\<lambda>xs. unpack_done (xs ! 0, xs ! 1)))) (\<lambda>xs. unpack_done (ATimeval xs)))"

definition opal_dss_unpack_time :: "'f dss_unpack_fn" where
  "opal_dss_unpack_time num_vals = enough_for num_vals 8
     (unpack_then (unpack_times (nat num_vals) (unpack_then (unpack_int64s 1) (\<lambda>xs. unpack_done (hd xs)))) (\<lambda>xs. unpack_done (A64 xs)))"

definition unpack_one_object :: "'f dss_cfg \<Rightarrow> (32 word \<times> byte list ptr) unpacker" where
  "unpack_one_object cfg = unpack_then (unpack_int32s 1) (\<lambda>xs. let n = hd xs in
     if 0 < sint n then
       if malloc_fails cfg (sint n) then unpack_fail OPAL_ERR_OUT_OF_RESOURCE
       else unpack_then (unpack_block (sint n)) (\<lambda>bs. unpack_done (n, Ptr bs))
     else unpack_done (n, Null))"

definition opal_dss_unpack_byte_object :: "'f dss_cfg \<Rightarrow> 'f dss_unpack_fn" where
  "opal_dss_unpack_byte_object cfg num_vals =
     unpack_then (unpack_times (nat num_vals) (unpack_one_object cfg)) (\<lambda>xs. unpack_done (AByteObj xs))"

definition unpack_fn0 :: "'f dss_cfg \<Rightarrow> opal_data_type \<Rightarrow> 'f dss_unpack_fn option" where
  "unpack_fn0 cfg type =
     (if type = OPAL_NULL then Some opal_dss_unpack_null
      else if type \<in> {OPAL_BYTE, OPAL_INT8, OPAL_UINT8} then Some opal_dss_unpack_byte
      else if type \<in> {OPAL_INT16, OPAL_UINT16} then Some opal_dss_unpack_int16
      else if type \<in> {OPAL_INT32, OPAL_UINT32} then Some opal_dss_unpack_int32
      else if type \<in> {OPAL_INT64, OPAL_UINT64} then Some opal_dss_unpack_int64
      else if type = OPAL_STRING then Some (opal_dss_unpack_string cfg)
      else if type = OPAL_BYTE_OBJECT then Some (opal_dss_unpack_byte_object cfg)
      else if type = OPAL_FLOAT then Some (opal_dss_unpack_float cfg)
      else if type = OPAL_DOUBLE then Some (opal_dss_unpack_double cfg)
      else if type = OPAL_TIMEVAL then Some opal_dss_unpack_timeval
      else if type = OPAL_TIME then Some opal_dss_unpack_time
      else None)"

definition opal_dss_get_data_type :: "opal_data_type unpacker" where
  "opal_dss_get_data_type = unpack_then (unpack_block 1) (\<lambda>bs. unpack_done (hd bs))"

text \<open>Looking at the type of the next value, in a copy of the buffer.\<close>

definition opal_dss_peek_type :: "opal_data_type unpacker" where
  "opal_dss_peek_type b =
     (if buf_type b \<noteq> DSS_BUFFER_FULLY_DESC then Some (Inl OPAL_ERR_UNKNOWN_DATA_TYPE, b)
      else if unpack_ptr b \<ge> bytes_used b then Some (Inl OPAL_ERR_UNPACK_READ_PAST_END_OF_BUFFER, b)
      else do { (r, tmp) \<leftarrow> opal_dss_get_data_type b; Some (r, b) })"

definition opal_dss_peek :: "(opal_data_type \<times> int) unpacker" where
  "opal_dss_peek b =
     (if unpack_ptr b \<ge> bytes_used b then Some (Inl OPAL_ERR_UNPACK_READ_PAST_END_OF_BUFFER, b)
      else if buf_type b \<noteq> DSS_BUFFER_FULLY_DESC then Some (Inl OPAL_ERR_UNKNOWN_DATA_TYPE, b)
      else do {
        (r, tmp) \<leftarrow> unpack_then opal_dss_get_data_type (\<lambda>t.
          if t \<noteq> OPAL_INT32 then unpack_fail OPAL_ERR_UNPACK_FAILURE
          else unpack_then (unpack_int32s 1) (\<lambda>xs. unpack_then opal_dss_get_data_type (\<lambda>type. unpack_done (type, sint (hd xs))))) b;
        Some (r, b) })"

definition check_type :: "opal_data_type \<Rightarrow> unit unpacker" where
  "check_type type b =
     (if buf_type b = DSS_BUFFER_FULLY_DESC
      then unpack_then opal_dss_get_data_type (\<lambda>t. if type \<noteq> t then unpack_fail OPAL_ERR_PACK_MISMATCH else unpack_done ()) b
      else Some (Inr (), b))"

definition unpack_buffer_via ::
    "(opal_data_type \<Rightarrow> 'f dss_unpack_fn option) \<Rightarrow> int \<Rightarrow> opal_data_type \<Rightarrow> 'f dss_array unpacker" where
  "unpack_buffer_via fns num_vals type =
     unpack_then (check_type type) (\<lambda>_. case fns type of None \<Rightarrow> unpack_fail OPAL_ERR_UNPACK_FAILURE | Some f \<Rightarrow> f num_vals)"

text \<open>
  The generic types: the sender's type is in the buffer. When it is not the receiver's, the numbers are
  converted one by one (\<^verbatim>\<open>UNPACK_SIZE_MISMATCH\<close>).
\<close>

definition array_ints :: "opal_data_type \<Rightarrow> 'f dss_array \<Rightarrow> int list" where
  "array_ints type a = (let signed = type \<in> {OPAL_INT8, OPAL_INT16, OPAL_INT32, OPAL_INT64} in
     (case a of
        A8 xs \<Rightarrow> map (\<lambda>x. if signed then sint x else uint x) xs
      | A16 xs \<Rightarrow> map (\<lambda>x. if signed then sint x else uint x) xs
      | A32 xs \<Rightarrow> map (\<lambda>x. if signed then sint x else uint x) xs
      | A64 xs \<Rightarrow> map (\<lambda>x. if signed then sint x else uint x) xs
      | _ \<Rightarrow> []))"

definition sender_type :: "opal_data_type unpacker" where
  "sender_type b = (if buf_type b = DSS_BUFFER_FULLY_DESC then opal_dss_peek_type b else opal_dss_get_data_type b)"

definition number_types :: "opal_data_type set" where
  "number_types = {OPAL_UINT8, OPAL_INT8, OPAL_UINT16, OPAL_INT16, OPAL_UINT32, OPAL_INT32, OPAL_UINT64, OPAL_INT64}"

definition number_size :: "opal_data_type \<Rightarrow> nat" where
  "number_size type = (if type \<in> {OPAL_UINT8, OPAL_INT8} then 1 else if type \<in> {OPAL_UINT16, OPAL_INT16} then 2
     else if type \<in> {OPAL_UINT32, OPAL_INT32} then 4 else 8)"

text \<open>The loop over the temporary array runs without a test whether the array was allocated.\<close>

definition unpack_system_type :: "'f dss_cfg \<Rightarrow> opal_data_type \<Rightarrow> (int list \<Rightarrow> 'f dss_array) \<Rightarrow> 'f dss_unpack_fn" where
  "unpack_system_type cfg type conv num_vals = unpack_then sender_type (\<lambda>remote_type.
     if remote_type = type then unpack_buffer_via (unpack_fn0 cfg) num_vals type
     else if remote_type \<in> number_types then
       if 0 < num_vals \<and> szmul num_vals (number_size remote_type) > heap_limit cfg then bad_access
       else unpack_then (unpack_buffer_via (unpack_fn0 cfg) num_vals remote_type) (\<lambda>a. unpack_done (conv (array_ints remote_type a)))
     else unpack_fail OPAL_ERR_NOT_FOUND)"

definition opal_dss_unpack_bool :: "'f dss_cfg \<Rightarrow> 'f dss_unpack_fn" where
  "opal_dss_unpack_bool cfg = unpack_system_type cfg (DSS_TYPE_BOOL cfg)
     (\<lambda>xs. ints_array (SIZEOF_BOOL cfg) (map (\<lambda>x. if x \<noteq> 0 then 1 else 0) xs))"
definition opal_dss_unpack_int :: "'f dss_cfg \<Rightarrow> 'f dss_unpack_fn" where
  "opal_dss_unpack_int cfg = unpack_system_type cfg (DSS_TYPE_INT cfg) (ints_array (SIZEOF_INT cfg))"
definition opal_dss_unpack_sizet :: "'f dss_cfg \<Rightarrow> 'f dss_unpack_fn" where
  "opal_dss_unpack_sizet cfg = unpack_system_type cfg (DSS_TYPE_SIZE_T cfg) (ints_array (SIZEOF_SIZE_T cfg))"
definition opal_dss_unpack_pid :: "'f dss_cfg \<Rightarrow> 'f dss_unpack_fn" where
  "opal_dss_unpack_pid cfg = unpack_system_type cfg (DSS_TYPE_PID_T cfg) (ints_array (SIZEOF_PID_T cfg))"
definition opal_dss_unpack_data_type :: "'f dss_cfg \<Rightarrow> 'f dss_unpack_fn" where
  "opal_dss_unpack_data_type cfg num_vals = unpack_buffer_via (unpack_fn0 cfg) num_vals OPAL_DATA_TYPE_T"

definition unpack_fn1 :: "'f dss_cfg \<Rightarrow> opal_data_type \<Rightarrow> 'f dss_unpack_fn option" where
  "unpack_fn1 cfg type =
     (if type = OPAL_BOOL then Some (opal_dss_unpack_bool cfg)
      else if type \<in> {OPAL_INT, OPAL_UINT} then Some (opal_dss_unpack_int cfg)
      else if type = OPAL_SIZE then Some (opal_dss_unpack_sizet cfg)
      else if type = OPAL_PID then Some (opal_dss_unpack_pid cfg)
      else if type = OPAL_DATA_TYPE then Some (opal_dss_unpack_data_type cfg)
      else unpack_fn0 cfg type)"

text \<open>
  A value is a new object whose fields are zero. For the array types nothing is allocated: the elements are
  unpacked through the null pointer of the new object, which only an empty array survives. A failure after
  the first element counts as a write, too, and so does the loop of a conversion from another size.
\<close>

definition local_type :: "'f dss_cfg \<Rightarrow> opal_data_type \<Rightarrow> opal_data_type option" where
  "local_type cfg type =
     (if type = OPAL_BOOL then Some (DSS_TYPE_BOOL cfg)
      else if type \<in> {OPAL_INT, OPAL_UINT} then Some (DSS_TYPE_INT cfg)
      else if type = OPAL_SIZE then Some (DSS_TYPE_SIZE_T cfg)
      else if type = OPAL_PID then Some (DSS_TYPE_PID_T cfg)
      else None)"

definition writes_before_error :: "'f dss_cfg \<Rightarrow> opal_data_type \<Rightarrow> opal_buffer \<Rightarrow> bool" where
  "writes_before_error cfg elem b =
     (if elem \<in> {OPAL_STRING, OPAL_FLOAT, OPAL_DOUBLE} then
        (case unpack_buffer_via (unpack_fn1 cfg) 1 elem b of Some (Inl _, _) \<Rightarrow> False | _ \<Rightarrow> True)
      else
        (case (local_type cfg elem, unpack_then (check_type elem) (\<lambda>_. sender_type) b) of
           (Some own, Some (Inr remote, _)) \<Rightarrow> remote \<noteq> own \<and> remote \<in> number_types
         | _ \<Rightarrow> False))"

definition unpack_to_null :: "'f dss_cfg \<Rightarrow> int \<Rightarrow> opal_data_type \<Rightarrow> 'f dss_array unpacker" where
  "unpack_to_null cfg n elem b = do {
     (r, b') \<leftarrow> unpack_buffer_via (unpack_fn1 cfg) n elem b;
     (if n \<le> 0 then Some (r, b')
      else
        (case r of
           Inr _ \<Rightarrow> None
         | Inl rc \<Rightarrow> if writes_before_error cfg elem b then None else Some (Inl rc, b'))) }"

definition first_int32 :: "'f dss_array \<Rightarrow> int" where
  "first_int32 a = (case a of A32 (x # _) \<Rightarrow> sint x | _ \<Rightarrow> 0)"

definition unpack_value_field :: "'f dss_cfg \<Rightarrow> opal_data_type \<Rightarrow> 'f dss_array unpacker" where
  "unpack_value_field cfg type =
     (if type \<in> value_scalars then unpack_buffer_via (unpack_fn1 cfg) 1 type
      else if type = OPAL_BYTE_OBJECT then unpack_then (unpack_one_object cfg) (\<lambda>x. unpack_done (AByteObj [x]))
      else
        (case value_arrays type of
           Some elem \<Rightarrow>
             unpack_then (unpack_buffer_via (unpack_fn1 cfg) 1 OPAL_INT32) (\<lambda>a. unpack_to_null cfg (first_int32 a) elem)
         | None \<Rightarrow> unpack_fail OPAL_ERROR))"

definition first_byte :: "'f dss_array \<Rightarrow> byte" where
  "first_byte a = (case a of A8 (x # _) \<Rightarrow> x | _ \<Rightarrow> 0)"

definition unpack_one_value :: "'f dss_cfg \<Rightarrow> (byte list ptr \<times> opal_data_type \<times> 'f dss_array) unpacker" where
  "unpack_one_value cfg =
     unpack_then (unpack_one_string cfg) (\<lambda>key.
       unpack_then (opal_dss_unpack_data_type cfg 1) (\<lambda>t.
         unpack_then (unpack_value_field cfg (first_byte t)) (\<lambda>data. unpack_done (key, first_byte t, data))))"

definition opal_dss_unpack_value :: "'f dss_cfg \<Rightarrow> 'f dss_unpack_fn" where
  "opal_dss_unpack_value cfg num_vals =
     unpack_then (unpack_times (nat num_vals) (unpack_one_value cfg)) (\<lambda>vs. unpack_done (AVal vs))"

text \<open>A nested buffer gets the default type; its size passes through an \<^verbatim>\<open>int32_t\<close>.\<close>

definition first_nat :: "'f dss_array \<Rightarrow> nat" where
  "first_nat a = (case array_ints OPAL_UINT64 a of x # _ \<Rightarrow> nat x | [] \<Rightarrow> 0)"

definition unpack_one_buffer :: "'f dss_cfg \<Rightarrow> opal_buffer unpacker" where
  "unpack_one_buffer cfg =
     unpack_then (opal_dss_unpack_sizet cfg 1) (\<lambda>a. let nbytes = first_nat a; m = int_of_size_t (int nbytes) in
       if nbytes = 0 then unpack_done (opal_buffer_construct cfg)
       else unpack_then (unpack_block m) (\<lambda>bs.
         if nbytes > heap_limit cfg then bad_access
         else unpack_done ((opal_buffer_construct cfg)\<lparr>base_ptr := Ptr (realloc_cells (heap_junk cfg) (int nbytes) bs),
           pack_ptr := nat m, bytes_allocated := nbytes, bytes_used := nat m\<rparr>)))"

definition opal_dss_unpack_buffer_contents :: "'f dss_cfg \<Rightarrow> 'f dss_unpack_fn" where
  "opal_dss_unpack_buffer_contents cfg num_vals =
     unpack_then (unpack_times (nat num_vals) (unpack_one_buffer cfg)) (\<lambda>bs. unpack_done (ABuf bs))"

definition unpack_fn2 :: "'f dss_cfg \<Rightarrow> opal_data_type \<Rightarrow> 'f dss_unpack_fn option" where
  "unpack_fn2 cfg type =
     (if type = OPAL_VALUE then Some (opal_dss_unpack_value cfg)
      else if type = OPAL_BUFFER then Some (opal_dss_unpack_buffer_contents cfg)
      else unpack_fn1 cfg type)"

definition opal_dss_unpack_buffer :: "'f dss_cfg \<Rightarrow> int \<Rightarrow> opal_data_type \<Rightarrow> 'f dss_array unpacker" where
  "opal_dss_unpack_buffer cfg = unpack_buffer_via (unpack_fn2 cfg)"

text \<open>
  The whole function: the number of values the caller has room for in, the return code, the number of
  values and the values out.
\<close>

definition unpack_count :: "int unpacker" where
  "unpack_count b =
     unpack_then (\<lambda>b. if buf_type b = DSS_BUFFER_FULLY_DESC
        then unpack_then opal_dss_get_data_type (\<lambda>t. if t \<noteq> OPAL_INT32 then unpack_fail OPAL_ERR_UNPACK_FAILURE else unpack_done ()) b
        else Some (Inr (), b))
       (\<lambda>_. unpack_then (unpack_int32s 1) (\<lambda>xs. unpack_done (sint (hd xs)))) b"

definition opal_dss_unpack :: "'f dss_cfg \<Rightarrow> int \<Rightarrow> opal_data_type \<Rightarrow> opal_buffer \<Rightarrow> ((int \<times> int \<times> 'f dss_array option) \<times> opal_buffer) option" where
  "opal_dss_unpack cfg num_vals type b =
     (if num_vals = 0 then Some ((OPAL_ERR_UNPACK_INADEQUATE_SPACE, 0, None), b)
      else do {
        (r, b) \<leftarrow> unpack_count b;
        (case r of
           Inl rc \<Rightarrow> Some ((rc, 0, None), b)
         | Inr local_num \<Rightarrow> do {
             let (local_num, ret) = (if local_num > num_vals then (num_vals, OPAL_ERR_UNPACK_INADEQUATE_SPACE) else (local_num, OPAL_SUCCESS));
             (r, b) \<leftarrow> opal_dss_unpack_buffer cfg local_num type b;
             (case r of
                Inl rc \<Rightarrow> Some ((rc, 0, None), b)
              | Inr v \<Rightarrow> Some ((ret, local_num, Some v), b)) }) })"

end
