(* ===== verification/Dss_Codec.thy ===== *)
theory Dss_Codec
  imports Dss_Unpack
begin

text \<open>
  Every packing function and its unpacking function fit together: \<open>codec d m f g x\<close> says that in
  buffers of type \<open>d\<close> the packer \<open>f\<close> appends some bytes, at least \<open>m\<close>, from which the
  unpacker \<open>g\<close> gets \<open>x\<close>. The rules follow the sequencing of the functions.
\<close>

definition codec :: "dss_buffer_type \<Rightarrow> nat \<Rightarrow> packer \<Rightarrow> 'v unpacker \<Rightarrow> 'v \<Rightarrow> bool" where
  "codec d m f g x \<longleftrightarrow> (\<exists>bs. m \<le> length bs \<and> puts d f bs \<and> gets d g x bs)"

named_theorems codecs

lemma codec_mono: "codec d m f g x \<Longrightarrow> k \<le> m \<Longrightarrow> codec d k f g x"
  unfolding codec_def using le_trans by blast

lemma codec_done [codecs]: "codec d 0 pack_done (unpack_done x) x"
  unfolding codec_def using puts_done gets_done by fastforce

lemma codec_then:
  assumes "codec d m f g x" and "codec d k f' (h x) y"
  shows "codec d (m + k) (pack_then f f') (unpack_then g h) y"
proof -
  obtain bs cs where "m \<le> length bs" "puts d f bs" "gets d g x bs" "k \<le> length cs" "puts d f' cs" "gets d (h x) y cs"
    using assms unfolding codec_def by blast
  then show ?thesis unfolding codec_def by (intro exI [of _ "bs @ cs"]) (simp add: puts_then gets_then)
qed

lemma codec_map:
  assumes "codec d m f g x"
  shows "codec d m f (unpack_then g (\<lambda>x. unpack_done (h x))) (h x)"
proof -
  obtain bs where "m \<le> length bs" "puts d f bs" "gets d g x bs" using assms unfolding codec_def by blast
  moreover have "gets d (unpack_then g (\<lambda>x. unpack_done (h x))) (h x) (bs @ [])" using calculation(3) by (intro gets_then [where x = x] gets_done)
  ultimately show ?thesis unfolding codec_def by (intro exI [of _ bs]) simp
qed

lemma unpack_then_assoc: "unpack_then (unpack_then f g) h = unpack_then f (\<lambda>x. unpack_then (g x) h)"
  unfolding unpack_then_def by (rule ext) (auto split: Option.bind_split sum.splits)

lemma unpack_then_done_left: "unpack_then (unpack_done x) h = h x"
  unfolding unpack_then_def unpack_done_def by (rule ext) simp

lemma codec_each:
  assumes "\<And>x. x \<in> set xs \<Longrightarrow> codec d m (f x) g x"
  shows "codec d (length xs * m) (pack_each f xs) (unpack_times (length xs) g) xs"
proof -
  have "\<exists>enc. \<forall>x \<in> set xs. m \<le> length (enc x) \<and> puts d (f x) (enc x) \<and> gets d g x (enc x)"
    using assms unfolding codec_def by (intro bchoice) blast
  then obtain enc where enc: "\<And>x. x \<in> set xs \<Longrightarrow> m \<le> length (enc x) \<and> puts d (f x) (enc x) \<and> gets d g x (enc x)" by blast
  have "length xs * m \<le> length (concat (map enc xs))" using enc by (induction xs) (auto intro: add_mono)
  then show ?thesis unfolding codec_def using enc puts_each [of xs d f enc] gets_times [of xs d g enc] by blast
qed

section \<open>Numbers and bytes\<close>

lemma ntoh_hton: "ntohs (le_word (le_bytes 2 (htons x))) = x" "ntohl (le_word (le_bytes 4 (htonl y))) = y"
  by (simp_all add: htons_def ntohs_def htonl_def ntohl_def le_word_le_bytes le_bytes_le_word)

lemma le_bytes_htonl: "le_bytes 4 (htonl y) = rev (le_bytes 4 y)" "le_bytes 4 (ntohl y) = rev (le_bytes 4 y)"
  by (simp_all add: htonl_def ntohl_def le_bytes_le_word)

lemma hton64_rev: "hton64 z = le_word (rev (le_bytes 8 z))" "ntoh64 z = le_word (rev (le_bytes 8 z))"
proof -
  have "le_bytes 4 (le_word (drop 4 (le_bytes 8 z)) :: 32 word) = drop 4 (le_bytes 8 z)"
    "le_bytes 4 (le_word (take 4 (le_bytes 8 z)) :: 32 word) = take 4 (le_bytes 8 z)" by (simp_all add: le_bytes_le_word)
  moreover have "rev (drop 4 xs) @ rev (take 4 xs) = rev xs" for xs :: "byte list" by (metis append_take_drop_id rev_append)
  ultimately show "hton64 z = le_word (rev (le_bytes 8 z))" "ntoh64 z = le_word (rev (le_bytes 8 z))"
    by (simp_all add: hton64_def ntoh64_def Let_def le_bytes_htonl)
qed

lemma ntoh_hton64: "ntoh64 (le_word (le_bytes 8 (hton64 z))) = z"
  by (simp add: hton64_rev le_word_le_bytes le_bytes_le_word)

lemma gets_block:
  assumes "n = int (length bs)" and "length bs < 2 ^ 64"
  shows "gets d (unpack_block n) bs bs"
  unfolding gets_def
proof (intro allI impI)
  fix b rest assume b: "buf_ok b \<and> buf_type b = d \<and> unread b = bs @ rest"
  have "szmul n 1 = length bs" using assms by (simp add: szmul_def)
  then have "unpack_block n b = fetch_bytes (length bs) b"
    using b length_unread [of b] assms(1) by (auto simp: unpack_block_def opal_dss_too_small_def buf_ok_def)
  then show "\<exists>b'. unpack_block n b = Some (Inr bs, b') \<and> buf_ok b' \<and> buf_type b' = d \<and> unread b' = rest"
    using gets_fetch [OF refl, of d bs] b unfolding gets_def by simp
qed

lemma codec_bytes:
  assumes "cfg_ok cfg" and "length bs < 2 ^ 31"
  shows "codec d (length bs) (pack_chunks cfg [bs]) (unpack_block (int (length bs))) bs"
proof -
  have "puts d (pack_chunks cfg [bs]) bs" using puts_chunks [OF assms(1), of d "[bs]"] by simp
  then show ?thesis unfolding codec_def using gets_block [of _ bs d] assms(2) by auto
qed

lemma codec_chunks:
  assumes "cfg_ok cfg" and "\<And>x. length (enc x) = k" and "\<And>x. dec (enc x) = x" and "length xs < 2 ^ 31" and "k \<le> 16"
  shows "codec d (length xs * k) (pack_chunks cfg (map enc xs)) (unpack_then (unpack_chunks (int (length xs)) k) (\<lambda>cs. unpack_done (map dec cs))) xs"
proof -
  have "length xs * k \<le> 2 ^ 31 * 16" using assms(4,5) by (intro mult_mono) simp_all
  then have "gets d (unpack_chunks (int (length xs)) k) (map enc xs) (concat (map enc xs))" using assms(2) by (intro gets_chunks) auto
  moreover have "length (concat (map enc xs)) = length xs * k" using assms(2) by (induction xs) simp_all
  ultimately have "codec d (length xs * k) (pack_chunks cfg (map enc xs)) (unpack_chunks (int (length xs)) k) (map enc xs)"
    using puts_chunks [OF assms(1), of d "map enc xs"] unfolding codec_def by (metis order_refl)
  from codec_map [OF this, of "map dec"] show ?thesis using assms(3) by (simp add: comp_def)
qed

lemma codec_int32s:
  assumes "cfg_ok cfg" and "length xs < 2 ^ 31" and "n = length xs" and "k = int n"
  shows "codec d (length xs * 4) (opal_dss_pack_int32 cfg (A32 xs) n) (unpack_int32s k) xs"
  using codec_chunks [OF assms(1), where enc = "\<lambda>x. le_bytes 4 (htonl x)" and dec = "\<lambda>c. ntohl (le_word c)" and xs = xs and k = 4 and d = d] assms(2-)
  by (simp add: opal_dss_pack_int32_def first_of_def unpack_int32s_def ntoh_hton)

lemma codec_int64s:
  assumes "cfg_ok cfg" and "length xs < 2 ^ 31" and "n = length xs" and "k = int n"
  shows "codec d (length xs * 8) (opal_dss_pack_int64 cfg (A64 xs) n) (unpack_int64s k) xs"
  using codec_chunks [OF assms(1), where enc = "\<lambda>x. le_bytes 8 (hton64 x)" and dec = "\<lambda>c. ntoh64 (le_word c)" and xs = xs and k = 8 and d = d] assms(2-)
  by (simp add: opal_dss_pack_int64_def first_of_def unpack_int64s_def ntoh_hton64)

section \<open>Strings, objects and floating-point numbers\<close>

definition str_ok :: "'f dss_cfg \<Rightarrow> byte list ptr \<Rightarrow> bool" where
  "str_ok cfg s \<longleftrightarrow> (case s of Null \<Rightarrow> True
     | Ptr block \<Rightarrow> block \<noteq> [] \<and> last block = 0 \<and> 0 \<notin> set (butlast block) \<and> length block < 2 ^ 31 \<and> length block \<le> heap_limit cfg)"

definition float_ok :: "'f dss_cfg \<Rightarrow> 'f dss_cfg \<Rightarrow> (byte list \<Rightarrow> 'f) \<Rightarrow> 'f \<Rightarrow> bool" where
  "float_ok cfg cfg' conv x \<longleftrightarrow> 3 \<le> length (asprintf_f cfg x) \<and> str_ok cfg' (Ptr (asprintf_f cfg x @ [0])) \<and> conv (asprintf_f cfg x) = x"

definition obj_ok :: "'f dss_cfg \<Rightarrow> 32 word \<times> byte list ptr \<Rightarrow> bool" where
  "obj_ok cfg = (\<lambda>(n, p). case p of Null \<Rightarrow> sint n \<le> 0
     | Ptr xs \<Rightarrow> 0 < sint n \<and> sint n = int (length xs) \<and> length xs \<le> heap_limit cfg)"

lemma c_strlen_append: "0 \<notin> set t \<Longrightarrow> c_strlen (t @ 0 # u) = Some (length t)"
  by (induction t) auto

lemma str_okE:
  assumes "str_ok cfg (Ptr block)"
  obtains t where "block = t @ [0]" "0 \<notin> set t" "length t + 1 < 2 ^ 31" "length t + 1 \<le> heap_limit cfg" "c_strlen block = Some (length t)"
proof
  show b: "block = butlast block @ [0]" and "0 \<notin> set (butlast block)" using assms by (auto simp: str_ok_def) (metis append_butlast_last_id)
  show "length (butlast block) + 1 < 2 ^ 31" "length (butlast block) + 1 \<le> heap_limit cfg" using assms by (auto simp: str_ok_def)
  show "c_strlen block = Some (length (butlast block))" using c_strlen_append [of "butlast block" "[]"] assms b by (simp add: str_ok_def)
qed

lemma sint_of_nat_32: "n < 2 ^ 31 \<Longrightarrow> sint (of_nat n :: 32 word) = int n"
  by (simp add: signed_of_nat signed_take_bit_int_eq_self)

lemma malloc_small: "0 \<le> n \<Longrightarrow> nat n \<le> heap_limit cfg \<Longrightarrow> n < 2 ^ 31 \<Longrightarrow> \<not> malloc_fails cfg n"
  by (simp add: malloc_fails_def szmul_def)

lemma codec_one_string:
  assumes "cfg_ok cfg" and "str_ok cfg' s"
  shows "codec d (4 + (case s of Null \<Rightarrow> 0 | Ptr block \<Rightarrow> length block)) (pack_one_string cfg s) (unpack_one_string cfg') s"
proof (cases s)
  case Null
  have "codec d 4 (opal_dss_pack_int32 cfg (A32 [0]) 1) (unpack_int32s 1) [0]" using codec_int32s [OF assms(1), of "[0]" 1 1 d] by simp
  then obtain bs where bs: "4 \<le> length bs" "puts d (opal_dss_pack_int32 cfg (A32 [0]) 1) bs" "gets d (unpack_int32s 1) [0] bs" unfolding codec_def by blast
  have "gets d (unpack_one_string cfg') Null (bs @ [])"
    unfolding unpack_one_string_def by (rule gets_then [OF bs(3)]) (simp add: gets_done)
  then show ?thesis using bs Null unfolding codec_def pack_one_string_def by (intro exI [of _ bs]) simp
next
  case (Ptr block)
  obtain t where t: "block = t @ [0]" "0 \<notin> set t" "length t + 1 < 2 ^ 31" "length t + 1 \<le> heap_limit cfg'" "c_strlen block = Some (length t)"
    using assms(2) Ptr str_okE by blast
  let ?n = "of_nat (length t + 1) :: 32 word"
  have n: "sint ?n = int (length block)" using sint_of_nat_32 [of "length t + 1"] t(1,3) by simp
  have 1: "codec d 4 (opal_dss_pack_int32 cfg (A32 [?n]) 1) (unpack_int32s 1) [?n]" using codec_int32s [OF assms(1), of "[?n]" 1 1 d] by simp
  have "codec d (length block) (pack_chunks cfg [block]) (unpack_block (int (length block))) block" using t(1,3) by (intro codec_bytes [OF assms(1)]) simp
  from codec_map [OF this, of Ptr]
  have 2: "codec d (length block) (opal_dss_pack_byte cfg (A8 block) (length t + 1))
      (unpack_then (unpack_block (sint ?n)) (\<lambda>bs. unpack_done (Ptr bs))) (Ptr block)"
    using n t(1) by (simp add: opal_dss_pack_byte_def first_of_def)
  have fits: "\<not> malloc_fails cfg' (sint ?n)" "sint ?n \<noteq> 0" using n t(1,3,4) malloc_small [of "sint ?n" cfg'] by simp_all
  have "codec d (4 + length block)
      (pack_then (opal_dss_pack_int32 cfg (A32 [?n]) 1) (opal_dss_pack_byte cfg (A8 block) (length t + 1))) (unpack_one_string cfg') (Ptr block)"
    unfolding unpack_one_string_def by (rule codec_then [OF 1]) (use 2 fits in \<open>simp del: of_nat_add of_nat_Suc add: Let_def\<close>)
  moreover have "\<not> int (length t) + 1 > INT_MAX" using t(3) by (simp add: INT_MAX_def)
  ultimately show ?thesis using Ptr t(5) unfolding pack_one_string_def by simp
qed

lemma codec_one_object:
  assumes "cfg_ok cfg" and "obj_ok cfg' x"
  shows "codec d 4 (pack_one_object cfg x) (unpack_one_object cfg') x"
proof -
  obtain n p where x: "x = (n, p)" by (cases x)
  have 1: "codec d 4 (opal_dss_pack_int32 cfg (A32 [n]) 1) (unpack_int32s 1) [n]" using codec_int32s [OF assms(1), of "[n]" 1 1 d] by simp
  have le: "sint n < 2 ^ 31" using sint_lt [of n] by simp
  have 2: "codec d 0 (if 0 < sint n then (case p of Null \<Rightarrow> bad_access | Ptr xs \<Rightarrow> opal_dss_pack_byte cfg (A8 xs) (nat (sint n))) else pack_done)
     (if 0 < sint n then
       if malloc_fails cfg' (sint n) then unpack_fail OPAL_ERR_OUT_OF_RESOURCE
       else unpack_then (unpack_block (sint n)) (\<lambda>bs. unpack_done (n, Ptr bs))
     else unpack_done (n, Null)) (n, p)"
  proof (cases p)
    case Null
    then show ?thesis using assms(2) x codec_done by (simp add: obj_ok_def)
  next
    case (Ptr xs)
    then have xs: "0 < sint n" "sint n = int (length xs)" "length xs \<le> heap_limit cfg'" using assms(2) unfolding x obj_ok_def prod.case Ptr ptr.case by blast+
    have "codec d (length xs) (pack_chunks cfg [xs]) (unpack_block (int (length xs))) xs" using xs le by (intro codec_bytes [OF assms(1)]) simp
    from codec_mono [OF codec_map [OF this, of "\<lambda>bs. (n, Ptr bs)"], of 0]
    have "codec d 0 (pack_chunks cfg [xs]) (unpack_then (unpack_block (int (length xs))) (\<lambda>bs. unpack_done (n, Ptr bs))) (n, Ptr xs)" by simp
    then show ?thesis using xs Ptr malloc_small [of "sint n" cfg'] le by (simp add: opal_dss_pack_byte_def first_of_def)
  qed
  show ?thesis
    using codec_then [OF 1, of 0 _ "\<lambda>xs. let n = hd xs in
     if 0 < sint n then
       if malloc_fails cfg' (sint n) then unpack_fail OPAL_ERR_OUT_OF_RESOURCE
       else unpack_then (unpack_block (sint n)) (\<lambda>bs. unpack_done (n, Ptr bs))
     else unpack_done (n, Null)" "(n, p)"] 2 x
    by (simp add: pack_one_object_def unpack_one_object_def Let_def)
qed


lemma pack_then_done [simp]: "pack_then f pack_done = f"
  unfolding pack_then_def pack_done_def by (rule ext) (auto split: Option.bind_split)

lemma codec_enough:
  assumes "codec d m f g x" and "szmul n k \<le> m"
  shows "codec d m f (enough_for n k g) x"
proof -
  obtain bs where bs: "m \<le> length bs" "puts d f bs" "gets d g x bs" using assms(1) unfolding codec_def by blast
  have "enough_for n k g b = g b" if "buf_ok b" "unread b = bs @ rest" for b rest
    using that bs(1) assms(2) length_unread [of b] by (auto simp: enough_for_def opal_dss_too_small_def buf_ok_def)
  then have "gets d (enough_for n k g) x bs" using bs(3) unfolding gets_def by (metis (no_types, lifting))
  then show ?thesis using bs unfolding codec_def by blast
qed

lemma szmul_le: "szmul (int n) k \<le> n * k"
  by (simp add: szmul_def zmod_le_nonneg_dividend nat_le_iff flip: of_nat_mult)

lemma codec_many:
  assumes "\<And>x. x \<in> set xs \<Longrightarrow> codec d m (f x) g x" and "k \<le> m"
  shows "codec d 0 (pack_each f xs) (enough_for (int (length xs)) k (unpack_then (unpack_times (length xs) g) (\<lambda>xs. unpack_done (h xs)))) (h xs)"
proof -
  have "szmul (int (length xs)) k \<le> length xs * m" using szmul_le [of "length xs" k] assms(2) by (meson le_trans mult_le_mono2)
  from codec_mono [OF codec_enough [OF codec_map [OF codec_each [OF assms(1)]] this], of 0] show ?thesis by simp
qed

lemma codec_list:
  assumes "\<And>x. x \<in> set xs \<Longrightarrow> codec d m (f x) g x"
  shows "codec d 0 (pack_each f xs) (unpack_then (unpack_times (length xs) g) (\<lambda>xs. unpack_done (h xs))) (h xs)"
  using codec_mono [OF codec_map [OF codec_each [OF assms]], where k = 0] by simp

lemma codec_one_float:
  assumes "cfg_ok cfg" and "float_ok cfg cfg' conv x"
  shows "codec d 8 (opal_dss_pack_string cfg (AStr [Ptr (asprintf_f cfg x @ [0])]) 1) (unpack_then (unpack_one_string cfg') (converted conv)) x"
proof -
  let ?t = "asprintf_f cfg x"
  have ok: "3 \<le> length ?t" "str_ok cfg' (Ptr (?t @ [0]))" "conv ?t = x" using assms(2) by (simp_all add: float_ok_def)
  obtain bs where bs: "4 + length (?t @ [0]) \<le> length bs" "puts d (pack_one_string cfg (Ptr (?t @ [0]))) bs"
    "gets d (unpack_one_string cfg') (Ptr (?t @ [0])) bs"
    using codec_one_string [OF assms(1) ok(2), of d] unfolding codec_def ptr.case by blast
  have "c_strlen (?t @ [0]) = Some (length ?t)" using ok(2) by (simp add: str_ok_def c_strlen_append)
  then have "gets d (converted conv (Ptr (?t @ [0]))) x []" using ok(3) by (simp add: converted_def gets_done)
  from gets_then [OF bs(3), where g = "converted conv", OF this] show ?thesis
    unfolding codec_def using bs(1,2) ok(1) by (intro exI [of _ bs]) (simp add: opal_dss_pack_string_def first_of_def)
qed

lemma codec_timeval:
  assumes "cfg_ok cfg"
  shows "codec d 16 (opal_dss_pack_int64 cfg (A64 [sec, usec]) 2) (unpack_then (unpack_int64s 2) (\<lambda>xs. unpack_done (xs ! 0, xs ! 1))) (sec, usec)"
proof -
  have "length [sec, usec] < 2 ^ 31" by (rule order.strict_trans1 [of _ 2]) simp_all
  then have "codec d (length [sec, usec] * 8) (opal_dss_pack_int64 cfg (A64 [sec, usec]) 2) (unpack_int64s 2) [sec, usec]"
    by (rule codec_int64s [OF assms]) simp_all
  from codec_map [OF this, of "\<lambda>xs. (xs ! 0, xs ! 1)"] show ?thesis by simp
qed

lemma codec_time:
  assumes "cfg_ok cfg"
  shows "codec d 8 (opal_dss_pack_int64 cfg (A64 [x]) 1) (unpack_then (unpack_int64s 1) (\<lambda>xs. unpack_done (hd xs))) x"
  using codec_map [OF codec_int64s [OF assms, of "[x]" 1 1 d], of hd] by simp

section \<open>The first layer of the table\<close>

text \<open>
  What can be sent as a value of each type: texts and objects the receiver has memory for, and
  floating-point numbers that survive being printed and read.
\<close>

definition wt0 :: "'f dss_cfg \<Rightarrow> 'f dss_cfg \<Rightarrow> opal_data_type \<Rightarrow> 'f dss_array \<Rightarrow> bool" where
  "wt0 cfg cfg' type a \<longleftrightarrow> alen a < 2 ^ 31 \<and> (case a of
       A8 xs \<Rightarrow> type \<in> {OPAL_BYTE, OPAL_INT8, OPAL_UINT8} \<or> type = OPAL_NULL \<and> set xs \<subseteq> {0}
     | A16 xs \<Rightarrow> type \<in> {OPAL_INT16, OPAL_UINT16}
     | A32 xs \<Rightarrow> type \<in> {OPAL_INT32, OPAL_UINT32}
     | A64 xs \<Rightarrow> type \<in> {OPAL_INT64, OPAL_UINT64, OPAL_TIME}
     | AStr ss \<Rightarrow> type = OPAL_STRING \<and> (\<forall>s \<in> set ss. str_ok cfg' s)
     | AFloat xs \<Rightarrow> type = OPAL_FLOAT \<and> (\<forall>x \<in> set xs. float_ok cfg cfg' (strtof cfg') x)
     | ADouble xs \<Rightarrow> type = OPAL_DOUBLE \<and> (\<forall>x \<in> set xs. float_ok cfg cfg' (strtod cfg') x)
     | ATimeval xs \<Rightarrow> type = OPAL_TIMEVAL
     | AByteObj xs \<Rightarrow> type = OPAL_BYTE_OBJECT \<and> (\<forall>x \<in> set xs. obj_ok cfg' x)
     | AVal vs \<Rightarrow> False
     | ABuf bs \<Rightarrow> False)"

definition fn_codec :: "dss_buffer_type \<Rightarrow> (opal_data_type \<Rightarrow> 'f dss_pack_fn option) \<Rightarrow> (opal_data_type \<Rightarrow> 'f dss_unpack_fn option) \<Rightarrow>
    opal_data_type \<Rightarrow> 'f dss_array \<Rightarrow> 'f dss_array \<Rightarrow> bool" where
  "fn_codec d fns fns' type a a' \<longleftrightarrow>
     (\<exists>f g. fns type = Some f \<and> fns' type = Some g \<and> codec d 0 (f a (alen a)) (g (int (alen a))) a')"

lemma codec0_bytes:
  assumes "cfg_ok cfg" and "wt0 cfg cfg' type (A8 xs)"
  shows "fn_codec d (pack_fn0 cfg) (unpack_fn0 cfg') type (A8 xs) (A8 xs)"
proof -
  have len: "length xs < 2 ^ 31" using assms(2) by (simp add: wt0_def)
  have c: "codec d 0 (pack_chunks cfg [xs]) (unpack_then (unpack_block (int (length xs))) (\<lambda>bs. unpack_done (A8 bs))) (A8 xs)"
    using codec_mono [OF codec_map [OF codec_bytes [OF assms(1) len, of d]], of 0] by simp
  consider "type \<in> {OPAL_BYTE, OPAL_INT8, OPAL_UINT8}" | "type = OPAL_NULL" "replicate (length xs) 0 = xs"
    using assms(2) by (auto simp: wt0_def subset_eq intro: replicate_length_same)
  then show ?thesis
  proof cases
    case 1
    then show ?thesis using c unfolding fn_codec_def
      by (intro exI [of _ "opal_dss_pack_byte cfg"] exI [of _ opal_dss_unpack_byte])
        (auto simp: pack_fn0_def unpack_fn0_def dss_type opal_dss_pack_byte_def first_of_def opal_dss_unpack_byte_def)
  next
    case 2
    then show ?thesis using c unfolding fn_codec_def
      by (intro exI [of _ "opal_dss_pack_null cfg"] exI [of _ opal_dss_unpack_null])
        (auto simp: pack_fn0_def unpack_fn0_def opal_dss_pack_null_def opal_dss_unpack_null_def)
  qed
qed

lemma codec0_numbers:
  assumes "cfg_ok cfg"
  shows "wt0 cfg cfg' type (A16 xs) \<Longrightarrow> fn_codec d (pack_fn0 cfg) (unpack_fn0 cfg') type (A16 xs) (A16 xs)"
    and "wt0 cfg cfg' type (A32 ys) \<Longrightarrow> fn_codec d (pack_fn0 cfg) (unpack_fn0 cfg') type (A32 ys) (A32 ys)"
    and "wt0 cfg cfg' type (A64 zs) \<Longrightarrow> type \<noteq> OPAL_TIME \<Longrightarrow> fn_codec d (pack_fn0 cfg) (unpack_fn0 cfg') type (A64 zs) (A64 zs)"
proof -
  assume wt: "wt0 cfg cfg' type (A16 xs)"
  have "codec d (length xs * 2) (pack_chunks cfg (map (\<lambda>x. le_bytes 2 (htons x)) xs)) (unpack_then (unpack_chunks (int (length xs)) 2)
      (\<lambda>cs. unpack_done (map (\<lambda>c. ntohs (le_word c)) cs))) xs"
    using wt by (intro codec_chunks [OF assms]) (simp_all add: ntoh_hton wt0_def)
  from codec_mono [OF codec_map [OF this, of A16], of 0]
  have "codec d 0 (pack_chunks cfg (map (\<lambda>x. le_bytes 2 (htons x)) xs)) (unpack_then (unpack_chunks (int (length xs)) 2)
      (\<lambda>cs. unpack_done (A16 (map (\<lambda>c. ntohs (le_word c)) cs)))) (A16 xs)" by (simp add: unpack_then_assoc unpack_then_done_left)
  then show "fn_codec d (pack_fn0 cfg) (unpack_fn0 cfg') type (A16 xs) (A16 xs)" using wt unfolding fn_codec_def
    by (intro exI [of _ "opal_dss_pack_int16 cfg"] exI [of _ opal_dss_unpack_int16])
      (auto simp: wt0_def pack_fn0_def unpack_fn0_def dss_type opal_dss_pack_int16_def first_of_def opal_dss_unpack_int16_def)
next
  assume wt: "wt0 cfg cfg' type (A32 ys)"
  have "codec d (length ys * 4) (opal_dss_pack_int32 cfg (A32 ys) (length ys)) (unpack_int32s (int (length ys))) ys"
    using wt by (intro codec_int32s [OF assms]) (simp_all add: wt0_def)
  from codec_mono [OF codec_map [OF this, of A32], of 0]
  show "fn_codec d (pack_fn0 cfg) (unpack_fn0 cfg') type (A32 ys) (A32 ys)" using wt unfolding fn_codec_def
    by (intro exI [of _ "opal_dss_pack_int32 cfg"] exI [of _ opal_dss_unpack_int32])
      (auto simp: wt0_def pack_fn0_def unpack_fn0_def dss_type opal_dss_unpack_int32_def)
next
  assume wt: "wt0 cfg cfg' type (A64 zs)" and "type \<noteq> OPAL_TIME"
  have "codec d (length zs * 8) (opal_dss_pack_int64 cfg (A64 zs) (length zs)) (unpack_int64s (int (length zs))) zs"
    using wt by (intro codec_int64s [OF assms]) (simp_all add: wt0_def)
  from codec_mono [OF codec_map [OF this, of A64], of 0]
  show "fn_codec d (pack_fn0 cfg) (unpack_fn0 cfg') type (A64 zs) (A64 zs)" using wt \<open>type \<noteq> OPAL_TIME\<close> unfolding fn_codec_def
    by (intro exI [of _ "opal_dss_pack_int64 cfg"] exI [of _ opal_dss_unpack_int64])
      (auto simp: wt0_def pack_fn0_def unpack_fn0_def dss_type opal_dss_unpack_int64_def)
qed


lemma codec0_lists:
  assumes "cfg_ok cfg"
  shows "wt0 cfg cfg' type (AStr ss) \<Longrightarrow> fn_codec d (pack_fn0 cfg) (unpack_fn0 cfg') type (AStr ss) (AStr ss)"
    and "wt0 cfg cfg' type (AByteObj os) \<Longrightarrow> fn_codec d (pack_fn0 cfg) (unpack_fn0 cfg') type (AByteObj os) (AByteObj os)"
proof -
  assume wt: "wt0 cfg cfg' type (AStr ss)"
  have "codec d 4 (pack_one_string cfg s) (unpack_one_string cfg') s" if "s \<in> set ss" for s
    using codec_mono [OF codec_one_string [OF assms], of cfg' s 4 d] wt that by (simp add: wt0_def)
  from codec_list [of ss, OF this, of AStr]
  show "fn_codec d (pack_fn0 cfg) (unpack_fn0 cfg') type (AStr ss) (AStr ss)" using wt unfolding fn_codec_def
    by (intro exI [of _ "opal_dss_pack_string cfg"] exI [of _ "opal_dss_unpack_string cfg'"])
      (simp add: wt0_def pack_fn0_def unpack_fn0_def dss_type opal_dss_pack_string_def first_of_def opal_dss_unpack_string_def)
next
  assume wt: "wt0 cfg cfg' type (AByteObj os)"
  have "codec d 4 (pack_one_object cfg x) (unpack_one_object cfg') x" if "x \<in> set os" for x
    using codec_one_object [OF assms] wt that unfolding wt0_def dss_array.case by blast
  from codec_list [of os, OF this, of AByteObj]
  show "fn_codec d (pack_fn0 cfg) (unpack_fn0 cfg') type (AByteObj os) (AByteObj os)" using wt unfolding fn_codec_def
    by (intro exI [of _ "opal_dss_pack_byte_object cfg"] exI [of _ "opal_dss_unpack_byte_object cfg'"])
      (simp add: wt0_def pack_fn0_def unpack_fn0_def dss_type opal_dss_pack_byte_object_def first_of_def opal_dss_unpack_byte_object_def)
qed

lemma codec0_texts:
  assumes "cfg_ok cfg"
  shows "wt0 cfg cfg' type (AFloat xs) \<Longrightarrow> fn_codec d (pack_fn0 cfg) (unpack_fn0 cfg') type (AFloat xs) (AFloat xs)"
    and "wt0 cfg cfg' type (ADouble ys) \<Longrightarrow> fn_codec d (pack_fn0 cfg) (unpack_fn0 cfg') type (ADouble ys) (ADouble ys)"
proof -
  assume wt: "wt0 cfg cfg' type (AFloat xs)"
  have "codec d 8 (opal_dss_pack_string cfg (AStr [Ptr (asprintf_f cfg x @ [0])]) 1) (unpack_then (unpack_one_string cfg') (converted (strtof cfg'))) x"
    if "x \<in> set xs" for x using codec_one_float [OF assms] wt that by (simp add: wt0_def)
  from codec_many [of xs, OF this, of 4 AFloat]
  show "fn_codec d (pack_fn0 cfg) (unpack_fn0 cfg') type (AFloat xs) (AFloat xs)" using wt unfolding fn_codec_def
    by (intro exI [of _ "opal_dss_pack_float cfg"] exI [of _ "opal_dss_unpack_float cfg'"])
      (simp add: wt0_def pack_fn0_def unpack_fn0_def dss_type opal_dss_pack_float_def first_of_def opal_dss_unpack_float_def)
next
  assume wt: "wt0 cfg cfg' type (ADouble ys)"
  have "codec d 8 (opal_dss_pack_string cfg (AStr [Ptr (asprintf_f cfg x @ [0])]) 1) (unpack_then (unpack_one_string cfg') (converted (strtod cfg'))) x"
    if "x \<in> set ys" for x using codec_one_float [OF assms] wt that by (simp add: wt0_def)
  from codec_many [of ys, OF this, of 8 ADouble]
  show "fn_codec d (pack_fn0 cfg) (unpack_fn0 cfg') type (ADouble ys) (ADouble ys)" using wt unfolding fn_codec_def
    by (intro exI [of _ "opal_dss_pack_double cfg"] exI [of _ "opal_dss_unpack_double cfg'"])
      (simp add: wt0_def pack_fn0_def unpack_fn0_def dss_type opal_dss_pack_double_def first_of_def opal_dss_unpack_double_def)
qed

lemma codec0_times:
  assumes "cfg_ok cfg"
  shows "fn_codec d (pack_fn0 cfg) (unpack_fn0 cfg') OPAL_TIMEVAL (ATimeval xs) (ATimeval xs)"
    and "fn_codec d (pack_fn0 cfg) (unpack_fn0 cfg') OPAL_TIME (A64 ys) (A64 ys)"
proof -
  have "codec d 16 (case x of (sec, usec) \<Rightarrow> opal_dss_pack_int64 cfg (A64 [sec, usec]) 2)
    (unpack_then (unpack_int64s 2) (\<lambda>xs. unpack_done (xs ! 0, xs ! 1))) x" for x
    using codec_timeval [OF assms, of d "fst x" "snd x"] by (simp add: split_beta)
  from codec_many [of xs, OF this, of 16 ATimeval]
  show "fn_codec d (pack_fn0 cfg) (unpack_fn0 cfg') OPAL_TIMEVAL (ATimeval xs) (ATimeval xs)" unfolding fn_codec_def
    by (intro exI [of _ "opal_dss_pack_timeval cfg"] exI [of _ opal_dss_unpack_timeval])
      (simp add: pack_fn0_def unpack_fn0_def dss_type opal_dss_pack_timeval_def first_of_def opal_dss_unpack_timeval_def)
  from codec_many [of ys, OF codec_time [OF assms], where k = 8 and h = A64]
  show "fn_codec d (pack_fn0 cfg) (unpack_fn0 cfg') OPAL_TIME (A64 ys) (A64 ys)" unfolding fn_codec_def
    by (intro exI [of _ "opal_dss_pack_time cfg"] exI [of _ opal_dss_unpack_time])
      (simp add: pack_fn0_def unpack_fn0_def dss_type opal_dss_pack_time_def first_of_def opal_dss_unpack_time_def)
qed

lemma codec0:
  assumes "cfg_ok cfg" and "wt0 cfg cfg' type a"
  shows "fn_codec d (pack_fn0 cfg) (unpack_fn0 cfg') type a a"
proof (cases a)
  case (A64 zs)
  then show ?thesis using assms codec0_numbers(3) [OF assms(1)] codec0_times(2) [OF assms(1)] by (cases "type = OPAL_TIME") auto
next
  case (ATimeval xs)
  then show ?thesis using assms(2) codec0_times(1) [OF assms(1)] by (simp add: wt0_def)
next
  case (AVal x)
  then show ?thesis using assms(2) by (simp add: wt0_def)
next
  case (ABuf x)
  then show ?thesis using assms(2) by (simp add: wt0_def)
qed (use assms codec0_bytes codec0_numbers(1,2) codec0_lists codec0_texts in auto)

section \<open>Types in the buffer\<close>

lemma codec_type:
  assumes "cfg_ok cfg"
  shows "codec d 1 (opal_dss_store_data_type cfg t) opal_dss_get_data_type t"
proof -
  have "codec d 1 (pack_chunks cfg [[t]]) (unpack_block 1) [t]" using codec_bytes [OF assms, of "[t]" d] by simp
  from codec_map [OF this, of hd] show ?thesis
    by (simp add: opal_dss_get_data_type_def opal_dss_store_data_type_def pack_fn0_def dss_type opal_dss_pack_byte_def first_of_def)
qed

text \<open>In a buffer of one type the test of the type is decided once.\<close>

lemma codec_cong:
  assumes "\<And>b. buf_type b = d \<Longrightarrow> f b = f' b" and "\<And>b. buf_type b = d \<Longrightarrow> g b = g' b"
  shows "codec d m f g x \<longleftrightarrow> codec d m f' g' x"
  unfolding codec_def puts_def gets_def by (simp add: assms cong: conj_cong imp_cong)

lemma puts_type: "cfg_ok cfg \<Longrightarrow> puts d (opal_dss_store_data_type cfg t) [t]"
  using puts_chunks [of cfg d "[[t]]"]
  by (simp add: opal_dss_store_data_type_def pack_fn0_def dss_type opal_dss_pack_byte_def first_of_def)

lemma gets_type: "gets d opal_dss_get_data_type t [t]"
  using gets_then [OF gets_block [of 1 "[t]" d], of "\<lambda>bs. unpack_done (hd bs)" t "[]"]
  by (simp add: opal_dss_get_data_type_def gets_done)

text \<open>In a fully described buffer the type comes first.\<close>

definition tag :: "dss_buffer_type \<Rightarrow> opal_data_type \<Rightarrow> byte list" where
  "tag d t = (if d = DSS_BUFFER_FULLY_DESC then [t] else [])"

lemma puts_tag:
  assumes "cfg_ok cfg"
  shows "puts d (store_type_if DSS_BUFFER_FULLY_DESC cfg t) (tag d t)"
proof (cases "d = DSS_BUFFER_FULLY_DESC")
  case True
  then show ?thesis using puts_type [OF assms, of d t] unfolding puts_def by (simp add: store_type_if_def tag_def)
next
  case False
  then show ?thesis using puts_done [of d] unfolding puts_def by (simp add: store_type_if_def tag_def pack_done_def)
qed

lemma gets_tag: "gets d (check_type t) () (tag d t)"
proof (cases "d = DSS_BUFFER_FULLY_DESC")
  case True
  have "gets d (unpack_then opal_dss_get_data_type (\<lambda>u. if t \<noteq> u then unpack_fail OPAL_ERR_PACK_MISMATCH else unpack_done ())) () ([t] @ [])"
    by (rule gets_then [OF gets_type]) (simp add: gets_done)
  then show ?thesis using True unfolding gets_def by (simp add: check_type_def tag_def)
next
  case False
  then show ?thesis unfolding gets_def by (simp add: check_type_def tag_def)
qed

lemma via_layout:
  assumes "cfg_ok cfg" and "fn_codec d fns fns' t a a'"
  obtains vs where "puts d (pack_buffer_via cfg fns a (alen a) t) (tag d t @ vs)" "gets d (unpack_buffer_via fns' (int (alen a)) t) a' (tag d t @ vs)"
proof -
  obtain f g vs where fg: "fns t = Some f" "fns' t = Some g" "puts d (f a (alen a)) vs" "gets d (g (int (alen a))) a' vs"
    using assms(2) unfolding fn_codec_def codec_def by blast
  show thesis
  proof (rule that)
    show "puts d (pack_buffer_via cfg fns a (alen a) t) (tag d t @ vs)"
      unfolding pack_buffer_via_def by (rule puts_then [OF puts_tag [OF assms(1)]]) (simp add: fg)
    show "gets d (unpack_buffer_via fns' (int (alen a)) t) a' (tag d t @ vs)"
      unfolding unpack_buffer_via_def by (rule gets_then [OF gets_tag]) (simp add: fg)
  qed
qed

lemma codec_via:
  assumes "cfg_ok cfg" and "fn_codec d fns fns' t a a'"
  shows "codec d 0 (pack_buffer_via cfg fns a (alen a) t) (unpack_buffer_via fns' (int (alen a)) t) a'"
  using via_layout [OF assms] unfolding codec_def by blast

section \<open>The generic types\<close>

lemma peek_next:
  assumes "buf_ok b" and "buf_type b = DSS_BUFFER_FULLY_DESC" and "unread b = t # rest"
  shows "opal_dss_peek_type b = Some (Inr t, b)"
proof -
  have "unpack_ptr b < bytes_used b" using assms length_unread [of b] by (auto simp: buf_ok_def)
  moreover obtain b' where "opal_dss_get_data_type b = Some (Inr t, b')"
    by (rule getsD [OF gets_type [of "buf_type b" t], of b rest]) (use assms in simp_all)
  ultimately show ?thesis using assms(2) by (simp add: opal_dss_peek_type_def)
qed

lemma gets_peek:
  assumes "gets DSS_BUFFER_FULLY_DESC (h t) x (t # bs)"
  shows "gets DSS_BUFFER_FULLY_DESC (unpack_then opal_dss_peek_type h) x (t # bs)"
  unfolding gets_def
proof (intro allI impI)
  fix b rest assume b: "buf_ok b \<and> buf_type b = DSS_BUFFER_FULLY_DESC \<and> unread b = (t # bs) @ rest"
  then have "unpack_then opal_dss_peek_type h b = h t b" using peek_next [of b t "bs @ rest"] by (simp add: unpack_then_def)
  then show "\<exists>b'. unpack_then opal_dss_peek_type h b = Some (Inr x, b') \<and> buf_ok b' \<and> buf_type b' = DSS_BUFFER_FULLY_DESC \<and> unread b' = rest"
    using assms b unfolding gets_def by simp
qed

text \<open>What the receiver sees of an array of numbers of another size.\<close>

definition seen_as :: "opal_data_type \<Rightarrow> opal_data_type \<Rightarrow> (int list \<Rightarrow> 'f dss_array) \<Rightarrow> 'f dss_array \<Rightarrow> 'f dss_array" where
  "seen_as S R conv a = (if S = R then a else conv (array_ints S a))"

lemma sender_type_cases:
  "buf_type b = DSS_BUFFER_FULLY_DESC \<Longrightarrow> unpack_then sender_type h b = unpack_then opal_dss_peek_type h b"
  "buf_type b \<noteq> DSS_BUFFER_FULLY_DESC \<Longrightarrow> unpack_then sender_type h b = unpack_then opal_dss_get_data_type h b"
  by (simp_all add: sender_type_def unpack_then_def)

text \<open>The receiver's memory for an array of numbers it has to convert.\<close>

definition tmp_ok :: "'f dss_cfg \<Rightarrow> opal_data_type \<Rightarrow> opal_data_type \<Rightarrow> nat \<Rightarrow> bool" where
  "tmp_ok cfg' S R n \<longleftrightarrow> S = R \<or> n * number_size S \<le> heap_limit cfg'"

lemma codec_system:
  assumes cfg: "cfg_ok cfg" and "wt0 cfg cfg' S a" and "S \<in> number_types" and "tmp_ok cfg' S R (alen a)"
  shows "codec d 0 (pack_system_type cfg S a (alen a)) (unpack_system_type cfg' R conv (int (alen a))) (seen_as S R conv a)"
proof -
  define h where "h r = (if r = R then unpack_buffer_via (unpack_fn0 cfg') (int (alen a)) R
    else if r \<in> number_types then
      if 0 < int (alen a) \<and> szmul (int (alen a)) (number_size r) > heap_limit cfg' then bad_access
      else unpack_then (unpack_buffer_via (unpack_fn0 cfg') (int (alen a)) r) (\<lambda>a. unpack_done (conv (array_ints r a)))
    else unpack_fail OPAL_ERR_NOT_FOUND)" for r
  have unpack: "unpack_system_type cfg' R conv (int (alen a)) = unpack_then sender_type h"
    unfolding unpack_system_type_def by (rule arg_cong [where f = "unpack_then _"]) (rule ext, simp only: h_def)
  have tmp: "\<not> szmul (int (alen a)) (number_size S) > heap_limit cfg'" if "S \<noteq> R"
    using assms(4) that szmul_le [of "alen a" "number_size S"] by (simp add: tmp_ok_def)
  have fn: "fn_codec d (pack_fn0 cfg) (unpack_fn0 cfg') S a a" by (rule codec0 [OF assms(1,2)])
  have 1: "codec d 0 (pack_buffer_via cfg (pack_fn0 cfg) a (alen a) S) (h S) (seen_as S R conv a)"
    using codec_via [OF cfg fn] codec_map [OF codec_via [OF cfg fn], of "\<lambda>a. conv (array_ints S a)"] assms(3) tmp
    by (auto simp: h_def seen_as_def)
  show ?thesis
  proof (cases "d = DSS_BUFFER_FULLY_DESC")
    case False
    then have d: "d = DSS_BUFFER_NON_DESC" by (cases d) simp_all
    have "codec d (1 + 0) (pack_then (opal_dss_store_data_type cfg S) (pack_buffer_via cfg (pack_fn0 cfg) a (alen a) S))
      (unpack_then opal_dss_get_data_type h) (seen_as S R conv a)" by (rule codec_then [where h = h, OF codec_type [OF cfg, of d S] 1])
    then have "codec d 0 (pack_then (opal_dss_store_data_type cfg S) (pack_buffer_via cfg (pack_fn0 cfg) a (alen a) S))
      (unpack_then opal_dss_get_data_type h) (seen_as S R conv a)" by (rule codec_mono) simp
    then show ?thesis
      by (rule codec_cong [THEN iffD1, rotated -1])
        (simp_all add: d pack_system_type_def unpack sender_type_cases store_type_if_def pack_then_def)
  next
    case True
    obtain bs where bs: "puts d (pack_buffer_via cfg (pack_fn0 cfg) a (alen a) S) (S # bs)"
      "gets DSS_BUFFER_FULLY_DESC (unpack_buffer_via (unpack_fn0 cfg') (int (alen a)) S) a (S # bs)"
      using via_layout [OF cfg fn] True by (auto simp: tag_def)
    then have puts: "puts d (pack_system_type cfg S a (alen a)) (S # bs)"
      unfolding puts_def by (simp add: True pack_system_type_def store_type_if_def pack_then_def)
    have "gets DSS_BUFFER_FULLY_DESC (h S) (seen_as S R conv a) (S # bs)"
      using bs(2) gets_then [OF bs(2), of "\<lambda>a. unpack_done (conv (array_ints S a))" "conv (array_ints S a)" "[]"] assms(3) tmp
      by (auto simp: h_def seen_as_def gets_done)
    from gets_peek [of h, OF this]
    have "gets d (unpack_system_type cfg' R conv (int (alen a))) (seen_as S R conv a) (S # bs)"
      unfolding gets_def by (simp add: True unpack sender_type_cases)
    then show ?thesis using puts unfolding codec_def by blast
  qed
qed

end
