(* ===== verification/Dss_Stream.thy ===== *)
theory Dss_Stream
  imports Dss_Codec
begin

text \<open>
  The generic types, the structures, and whole calls of \<open>opal_dss_pack\<close> and \<open>opal_dss_unpack\<close>: what is
  packed in one buffer is unpacked from it, or from the buffer its payload is loaded into on another
  machine, in the same order.
\<close>

section \<open>The second layer of the table\<close>

definition local_conv :: "'f dss_cfg \<Rightarrow> opal_data_type \<Rightarrow> int list \<Rightarrow> 'f dss_array" where
  "local_conv cfg type xs =
     (if type = OPAL_BOOL then ints_array (SIZEOF_BOOL cfg) (map (\<lambda>x. if x \<noteq> 0 then 1 else 0) xs)
      else if type \<in> {OPAL_INT, OPAL_UINT} then ints_array (SIZEOF_INT cfg) xs
      else if type = OPAL_SIZE then ints_array (SIZEOF_SIZE_T cfg) xs
      else ints_array (SIZEOF_PID_T cfg) xs)"

definition wt1 :: "'f dss_cfg \<Rightarrow> 'f dss_cfg \<Rightarrow> opal_data_type \<Rightarrow> 'f dss_array \<Rightarrow> bool" where
  "wt1 cfg cfg' type a \<longleftrightarrow> (case local_type cfg type of
       Some S \<Rightarrow> wt0 cfg cfg' S a \<and> tmp_ok cfg' S (the (local_type cfg' type)) (alen a)
     | None \<Rightarrow> wt0 cfg cfg' (if type = OPAL_DATA_TYPE then OPAL_DATA_TYPE_T else type) a)"

definition recv1 :: "'f dss_cfg \<Rightarrow> 'f dss_cfg \<Rightarrow> opal_data_type \<Rightarrow> 'f dss_array \<Rightarrow> 'f dss_array" where
  "recv1 cfg cfg' type a = (case local_type cfg type of
       Some S \<Rightarrow> seen_as S (the (local_type cfg' type)) (local_conv cfg' type) a
     | None \<Rightarrow> a)"

lemma local_type_number: "local_type cfg type = Some S \<Longrightarrow> S \<in> number_types"
  by (auto simp: local_type_def DSS_TYPE_BOOL_def DSS_TYPE_INT_def DSS_TYPE_SIZE_T_def DSS_TYPE_PID_T_def
      uint_type_of_size_def int_type_of_size_def number_types_def split: if_splits)

lemma pack_fn1_system:
  assumes "local_type cfg type = Some S"
  shows "pack_fn1 cfg type = Some (pack_system_type cfg S)"
  using assms
  by (auto simp: local_type_def pack_fn1_def opal_dss_pack_bool_def opal_dss_pack_int_def opal_dss_pack_sizet_def opal_dss_pack_pid_def split: if_splits)

lemma unpack_fn1_system:
  assumes "local_type cfg type = Some S"
  shows "\<exists>R. local_type cfg' type = Some R \<and> unpack_fn1 cfg' type = Some (unpack_system_type cfg' R (local_conv cfg' type))"
  using assms
  by (auto simp: local_type_def unpack_fn1_def opal_dss_unpack_bool_def opal_dss_unpack_int_def opal_dss_unpack_sizet_def opal_dss_unpack_pid_def
      local_conv_def [abs_def] dss_type split: if_splits)

lemma codec1:
  assumes "cfg_ok cfg" and "wt1 cfg cfg' type a"
  shows "fn_codec d (pack_fn1 cfg) (unpack_fn1 cfg') type a (recv1 cfg cfg' type a)"
proof (cases "local_type cfg type")
  case (Some S)
  obtain R where R: "local_type cfg' type = Some R" "unpack_fn1 cfg' type = Some (unpack_system_type cfg' R (local_conv cfg' type))"
    using unpack_fn1_system [OF Some] by blast
  have "codec d 0 (pack_system_type cfg S a (alen a)) (unpack_system_type cfg' R (local_conv cfg' type) (int (alen a))) (seen_as S R (local_conv cfg' type) a)"
    using assms Some R(1) by (intro codec_system local_type_number) (simp_all add: wt1_def)
  then show ?thesis using pack_fn1_system [OF Some] R Some by (simp add: fn_codec_def recv1_def)
next
  case None
  then have 0: "fn_codec d (pack_fn0 cfg) (unpack_fn0 cfg') (if type = OPAL_DATA_TYPE then OPAL_DATA_TYPE_T else type) a a"
    using assms codec0 by (auto simp: wt1_def)
  show ?thesis
  proof (cases "type = OPAL_DATA_TYPE")
    case True
    then have "codec d 0 (opal_dss_pack_data_type cfg a (alen a)) (opal_dss_unpack_data_type cfg' (int (alen a))) a"
      unfolding opal_dss_pack_data_type_def opal_dss_unpack_data_type_def using codec_via [OF assms(1)] 0 by auto
    then show ?thesis using None True by (simp add: fn_codec_def recv1_def pack_fn1_def unpack_fn1_def dss_type)
  next
    case False
    then have "pack_fn1 cfg type = pack_fn0 cfg type" "unpack_fn1 cfg' type = unpack_fn0 cfg' type"
      using None by (auto simp: local_type_def pack_fn1_def unpack_fn1_def split: if_splits)
    then show ?thesis using 0 None False by (simp add: fn_codec_def recv1_def)
  qed
qed

section \<open>Values and buffers\<close>

text \<open>A value: a key, a type, and one element of this type, an object, or an empty array.\<close>

definition value_ok :: "'f dss_cfg \<Rightarrow> 'f dss_cfg \<Rightarrow> byte list ptr \<times> opal_data_type \<times> 'f dss_array \<Rightarrow> bool" where
  "value_ok cfg cfg' = (\<lambda>(key, type, data). str_ok cfg' key \<and>
     (if type \<in> value_scalars then alen data = 1 \<and> wt1 cfg cfg' type data
      else if type = OPAL_BYTE_OBJECT then (\<exists>x. data = AByteObj [x] \<and> obj_ok cfg' x)
      else (\<exists>elem. value_arrays type = Some elem \<and> alen data = 0 \<and> wt1 cfg cfg' elem data)))"

definition recv_value :: "'f dss_cfg \<Rightarrow> 'f dss_cfg \<Rightarrow> byte list ptr \<times> opal_data_type \<times> 'f dss_array \<Rightarrow> byte list ptr \<times> opal_data_type \<times> 'f dss_array" where
  "recv_value cfg cfg' = (\<lambda>(key, type, data). (key, type, recv1 cfg cfg' (case value_arrays type of None \<Rightarrow> type | Some elem \<Rightarrow> elem) data))"

lemma value_arrays_scalars: "type \<in> value_scalars \<Longrightarrow> value_arrays type = None" "value_arrays OPAL_BYTE_OBJECT = None" "value_arrays OPAL_PTR = None"
  by (auto simp: value_scalars_def value_arrays_def dss_type)

lemma codec_key:
  assumes "cfg_ok cfg" and "str_ok cfg' key"
  shows "codec d 0 (opal_dss_pack_string cfg (AStr [key]) 1) (unpack_one_string cfg') key"
  using codec_mono [OF codec_one_string [OF assms, of d], of 0] by (simp add: opal_dss_pack_string_def first_of_def)

lemma codec_value_type:
  fixes cfg cfg' :: "'f dss_cfg"
  assumes "cfg_ok cfg"
  shows "codec d 0 (opal_dss_pack_data_type cfg (A8 [type]) 1) (opal_dss_unpack_data_type cfg' 1) (A8 [type])"
proof -
  have "wt1 cfg cfg' OPAL_DATA_TYPE (A8 [type])" by (simp add: wt1_def local_type_def wt0_def dss_type)
  from codec1 [OF assms this, of d] show ?thesis
    by (simp add: fn_codec_def pack_fn1_def unpack_fn1_def recv1_def local_type_def dss_type)
qed

lemma codec_array_size:
  fixes cfg cfg' :: "'f dss_cfg"
  assumes "cfg_ok cfg"
  shows "codec d 0 (pack_buffer_via cfg (pack_fn1 cfg) (A32 [n]) 1 OPAL_INT32) (unpack_buffer_via (unpack_fn1 cfg') 1 OPAL_INT32) (A32 [n])"
proof -
  have "wt1 cfg cfg' OPAL_INT32 (A32 [n])" by (simp add: wt1_def local_type_def wt0_def dss_type)
  from codec_via [OF assms codec1 [OF assms this, of d]] show ?thesis by (simp add: recv1_def local_type_def dss_type)
qed

lemma codec_value_field:
  assumes "cfg_ok cfg" and "value_ok cfg cfg' (key, type, data)"
  shows "codec d 0 (pack_value_field cfg type data) (unpack_value_field cfg' type) (snd (snd (recv_value cfg cfg' (key, type, data))))"
proof (cases "type \<in> value_scalars")
  case True
  then have "alen data = 1" "wt1 cfg cfg' type data" using assms(2) by (simp_all add: value_ok_def)
  then show ?thesis using codec_via [OF assms(1) codec1 [OF assms(1), of cfg' type data d]] True value_arrays_scalars(1) [OF True]
    by (simp add: pack_value_field_def unpack_value_field_def recv_value_def)
next
  case False
  show ?thesis
  proof (cases "type = OPAL_BYTE_OBJECT")
    case True
    obtain x where x: "data = AByteObj [x]" "obj_ok cfg' x" using assms(2) True False unfolding value_ok_def by auto
    have "recv1 cfg cfg' OPAL_BYTE_OBJECT data = data" by (simp add: recv1_def local_type_def dss_type)
    then show ?thesis
      using codec_mono [OF codec_map [OF codec_one_object [OF assms(1) x(2), of d], of "\<lambda>x. AByteObj [x]"], of 0] x(1) True False
      by (simp add: pack_value_field_def unpack_value_field_def recv_value_def value_arrays_scalars)
  next
    case obj: False
    then obtain elem where e: "value_arrays type = Some elem" "alen data = 0" "wt1 cfg cfg' elem data"
      using assms(2) False unfolding value_ok_def by auto
    then have ptr: "type \<noteq> OPAL_PTR" using value_arrays_scalars(3) by auto
    note 1 = codec_array_size [OF assms(1), of d 0 cfg']
    have null: "unpack_to_null cfg' 0 elem = unpack_buffer_via (unpack_fn1 cfg') 0 elem"
      by (rule ext) (auto simp: unpack_to_null_def split: Option.bind_split)
    have 2: "codec d 0 (pack_buffer_via cfg (pack_fn1 cfg) data 0 elem) (unpack_to_null cfg' (first_int32 (A32 [0] :: 'a dss_array)) elem) (recv1 cfg cfg' elem data)"
      using codec_via [OF assms(1) codec1 [OF assms(1) e(3), of d]] e(2) by (simp add: first_int32_def null)
    from codec_then [where h = "\<lambda>a. unpack_to_null cfg' (first_int32 a) elem", OF 1 2]
    show ?thesis using e False obj ptr by (simp add: pack_value_field_def unpack_value_field_def recv_value_def)
  qed
qed


lemma codec_one_value:
  assumes "cfg_ok cfg" and "value_ok cfg cfg' (key, type, data)"
  shows "codec d 0 (pack_one_value cfg (key, type, data)) (unpack_one_value cfg') (recv_value cfg cfg' (key, type, data))"
proof -
  have 1: "codec d 0 (opal_dss_pack_string cfg (AStr [key]) 1) (unpack_one_string cfg') key"
    using assms by (intro codec_key) (simp_all add: value_ok_def)
  note 2 = codec_value_type [OF assms(1), of d type cfg']
  let ?v = "snd (snd (recv_value cfg cfg' (key, type, data)))"
  have 3: "codec d 0 (pack_value_field cfg type data)
      (unpack_then (unpack_value_field cfg' (first_byte (A8 [type] :: 'a dss_array))) (\<lambda>data. unpack_done (key, first_byte (A8 [type] :: 'a dss_array), data))) (key, type, ?v)"
    using codec_map [OF codec_value_field [OF assms, of d], of "\<lambda>v. (key, type, v)"] by (simp add: first_byte_def)
  have 4: "codec d 0 (pack_then (opal_dss_pack_data_type cfg (A8 [type]) 1) (pack_value_field cfg type data))
      (unpack_then (opal_dss_unpack_data_type cfg' 1) (\<lambda>t. unpack_then (unpack_value_field cfg' (first_byte t)) (\<lambda>data. unpack_done (key, first_byte t, data)))) (key, type, ?v)"
    using codec_then [where h = "\<lambda>t. unpack_then (unpack_value_field cfg' (first_byte t)) (\<lambda>data. unpack_done (key, first_byte t, data))", OF 2 3] by simp
  show ?thesis
    using codec_then [where h = "\<lambda>key. unpack_then (opal_dss_unpack_data_type cfg' 1)
      (\<lambda>t. unpack_then (unpack_value_field cfg' (first_byte t)) (\<lambda>data. unpack_done (key, first_byte t, data)))", OF 1 4]
    by (simp add: pack_one_value_def unpack_one_value_def recv_value_def)
qed

text \<open>A buffer arrives as a fresh one with the same content.\<close>

definition contents_ok :: "'f dss_cfg \<Rightarrow> 'f dss_cfg \<Rightarrow> opal_buffer \<Rightarrow> bool" where
  "contents_ok cfg cfg' nb \<longleftrightarrow> buf_ok nb \<and> bytes_used nb < 2 ^ 31 \<and> bytes_used nb \<le> heap_limit cfg' \<and> 8 \<le> heap_limit cfg' \<and>
     SIZEOF_SIZE_T cfg \<in> {4, 8} \<and> SIZEOF_SIZE_T cfg' \<in> {4, 8}"

definition recv_buffer :: "'f dss_cfg \<Rightarrow> opal_buffer \<Rightarrow> opal_buffer" where
  "recv_buffer cfg' nb = (if bytes_used nb = 0 then opal_buffer_construct cfg'
     else (opal_buffer_construct cfg')\<lparr>base_ptr := Ptr (take (bytes_used nb) (cells (base_ptr nb))),
       pack_ptr := bytes_used nb, bytes_allocated := bytes_used nb, bytes_used := bytes_used nb\<rparr>)"

lemma unat_small:
  assumes "n < 2 ^ 31"
  shows "unat (word_of_nat n :: 32 word) = n" and "unat (word_of_nat n :: 64 word) = n"
    and "unat (ucast (word_of_nat n :: 32 word) :: 64 word) = n" and "unat (ucast (word_of_nat n :: 64 word) :: 32 word) = n"
  using assms by (simp_all add: unsigned_of_nat unsigned_ucast_eq take_bit_nat_eq_self)

lemma codec_length:
  assumes "cfg_ok cfg" and "contents_ok cfg cfg' nb"
  shows "\<exists>a. first_nat a = bytes_used nb \<and>
    codec d 0 (opal_dss_pack_sizet cfg (ints_array (SIZEOF_SIZE_T cfg) [int (bytes_used nb)]) 1) (opal_dss_unpack_sizet cfg' 1) (a :: 'f dss_array)"
proof -
  let ?a = "ints_array (SIZEOF_SIZE_T cfg) [int (bytes_used nb)] :: 'f dss_array"
  have sz: "bytes_used nb < 2 ^ 31" "SIZEOF_SIZE_T cfg \<in> {4, 8}" "SIZEOF_SIZE_T cfg' \<in> {4, 8}" using assms(2) by (auto simp: contents_ok_def)
  have len: "alen ?a = 1" by (simp add: ints_array_def)
  have "8 \<le> heap_limit cfg'" using assms(2) by (simp add: contents_ok_def)
  then have "wt1 cfg cfg' OPAL_SIZE ?a" using sz(2)
    by (auto simp: tmp_ok_def number_size_def wt1_def local_type_def wt0_def ints_array_def DSS_TYPE_SIZE_T_def uint_type_of_size_def dss_type)
  from codec1 [OF assms(1) this, of d]
  have 1: "codec d 0 (opal_dss_pack_sizet cfg ?a 1) (opal_dss_unpack_sizet cfg' 1) (recv1 cfg cfg' OPAL_SIZE ?a)"
    using len by (simp add: fn_codec_def pack_fn1_def unpack_fn1_def dss_type)
  have "first_nat (recv1 cfg cfg' OPAL_SIZE ?a) = bytes_used nb" using sz
    by (auto simp: recv1_def local_type_def first_nat_def array_ints_def seen_as_def local_conv_def ints_array_def unat_small
        DSS_TYPE_SIZE_T_def uint_type_of_size_def dss_type)
  then show ?thesis using 1 by blast
qed

lemma codec_one_buffer:
  assumes "cfg_ok cfg" and "contents_ok cfg cfg' nb"
  shows "codec d 0 (pack_one_buffer cfg nb) (unpack_one_buffer cfg') (recv_buffer cfg' nb)"
proof -
  define h where "h a = (let nbytes = first_nat a; m = int_of_size_t (int nbytes) in
       if nbytes = 0 then unpack_done (opal_buffer_construct cfg')
       else unpack_then (unpack_block m) (\<lambda>bs.
         if nbytes > heap_limit cfg' then bad_access
         else unpack_done ((opal_buffer_construct cfg')\<lparr>base_ptr := Ptr (realloc_cells (heap_junk cfg') (int nbytes) bs),
           pack_ptr := nat m, bytes_allocated := nbytes, bytes_used := nat m\<rparr>)))" for a :: "'a dss_array"
  obtain a where a: "first_nat a = bytes_used nb"
    "codec d 0 (opal_dss_pack_sizet cfg (ints_array (SIZEOF_SIZE_T cfg) [int (bytes_used nb)]) 1) (opal_dss_unpack_sizet cfg' 1) (a :: 'a dss_array)"
    using codec_length [OF assms] by blast
  have nb: "buf_ok nb" "bytes_used nb < 2 ^ 31" "bytes_used nb \<le> heap_limit cfg'" using assms(2) by (simp_all add: contents_ok_def)
  have 2: "codec d 0 (if 0 < bytes_used nb then (case base_ptr nb of Null \<Rightarrow> bad_access | Ptr mem \<Rightarrow> opal_dss_pack_byte cfg (A8 mem) (bytes_used nb)) else pack_done)
    (h a) (recv_buffer cfg' nb)"
  proof (cases "bytes_used nb = 0")
    case True
    then show ?thesis using a(1) by (simp add: h_def recv_buffer_def codec_done)
  next
    case False
    then obtain mem where mem: "base_ptr nb = Ptr mem" using nb(1) by (cases "base_ptr nb") (auto simp: buf_ok_def cells_def)
    let ?bs = "take (bytes_used nb) mem"
    have len: "bytes_used nb \<le> length mem" "length ?bs = bytes_used nb" using nb(1) mem by (auto simp: buf_ok_def cells_def)
    have "codec d (length ?bs) (pack_chunks cfg [?bs]) (unpack_block (int (length ?bs))) ?bs" using len nb(2) by (intro codec_bytes [OF assms(1)]) simp
    from codec_mono [OF codec_map [OF this, of "\<lambda>bs. (opal_buffer_construct cfg')\<lparr>base_ptr := Ptr (realloc_cells (heap_junk cfg') (int (bytes_used nb)) bs),
           pack_ptr := bytes_used nb, bytes_allocated := bytes_used nb, bytes_used := bytes_used nb\<rparr>"], of 0]
    show ?thesis using False a(1) mem len nb(2,3)
      by (simp add: h_def recv_buffer_def opal_dss_pack_byte_def first_of_def Let_def INT_MAX_def realloc_cells_def cells_def)
  qed
  have unpack: "unpack_one_buffer cfg' = unpack_then (opal_dss_unpack_sizet cfg' 1) h"
    unfolding unpack_one_buffer_def by (rule arg_cong [where f = "unpack_then _"]) (rule ext, simp only: h_def)
  show ?thesis unfolding pack_one_buffer_def unpack using codec_then [where h = h, OF a(2) 2] by simp
qed


section \<open>Whole calls\<close>

definition wt2 :: "'f dss_cfg \<Rightarrow> 'f dss_cfg \<Rightarrow> opal_data_type \<Rightarrow> 'f dss_array \<Rightarrow> bool" where
  "wt2 cfg cfg' type a \<longleftrightarrow> alen a < 2 ^ 31 \<and>
     (if type = OPAL_VALUE then (case a of AVal vs \<Rightarrow> \<forall>v \<in> set vs. value_ok cfg cfg' v | _ \<Rightarrow> False)
      else if type = OPAL_BUFFER then (case a of ABuf bs \<Rightarrow> \<forall>b \<in> set bs. contents_ok cfg cfg' b | _ \<Rightarrow> False)
      else wt1 cfg cfg' type a)"

definition recv2 :: "'f dss_cfg \<Rightarrow> 'f dss_cfg \<Rightarrow> opal_data_type \<Rightarrow> 'f dss_array \<Rightarrow> 'f dss_array" where
  "recv2 cfg cfg' type a = (case a of
       AVal vs \<Rightarrow> AVal (map (recv_value cfg cfg') vs)
     | ABuf bs \<Rightarrow> ABuf (map (recv_buffer cfg') bs)
     | _ \<Rightarrow> recv1 cfg cfg' type a)"

lemma codec_each_to:
  assumes "\<And>x. x \<in> set xs \<Longrightarrow> codec d m (f x) g (r x)"
  shows "codec d 0 (pack_each f xs) (unpack_then (unpack_times (length xs) g) (\<lambda>ys. unpack_done (h ys))) (h (map r xs))"
proof -
  have "\<exists>enc. \<forall>x \<in> set xs. puts d (f x) (enc x) \<and> gets d g (r x) (enc x)"
    using assms unfolding codec_def by (intro bchoice) blast
  then obtain enc where enc: "\<And>x. x \<in> set xs \<Longrightarrow> puts d (f x) (enc x) \<and> gets d g (r x) (enc x)" by blast
  have "gets d (unpack_times (length xs) g) (map r xs) (concat (map enc xs))"
    using enc
  proof (induction xs)
    case (Cons x xs)
    have "gets d (unpack_then (unpack_times (length xs) g) (\<lambda>ys. unpack_done (r x # ys))) (r x # map r xs) (concat (map enc xs) @ [])"
      using Cons by (intro gets_then [where x = "map r xs"] gets_done) simp_all
    then show ?case using gets_then [of d g "r x" "enc x"] Cons.prems [of x] by simp
  qed (simp add: gets_done)
  moreover have "puts d (pack_each f xs) (concat (map enc xs))" using enc by (intro puts_each) simp
  ultimately have "codec d 0 (pack_each f xs) (unpack_times (length xs) g) (map r xs)" unfolding codec_def by blast
  then show ?thesis by (rule codec_map)
qed

lemma wt1_shape: "wt1 cfg cfg' type a \<Longrightarrow> (case a of AVal vs \<Rightarrow> False | ABuf bs \<Rightarrow> False | _ \<Rightarrow> True)"
  by (auto simp: wt1_def wt0_def split: dss_array.splits option.splits)

lemma codec2:
  assumes "cfg_ok cfg" and "wt2 cfg cfg' type a"
  shows "fn_codec d (pack_fn2 cfg) (unpack_fn2 cfg') type a (recv2 cfg cfg' type a)"
proof -
  consider (val) vs where "type = OPAL_VALUE" "a = AVal vs" "\<forall>v \<in> set vs. value_ok cfg cfg' v"
    | (buf) bs where "type = OPAL_BUFFER" "a = ABuf bs" "\<forall>b \<in> set bs. contents_ok cfg cfg' b"
    | (other) "type \<noteq> OPAL_VALUE" "type \<noteq> OPAL_BUFFER" "wt1 cfg cfg' type a"
    using assms(2) unfolding wt2_def by (cases a) (auto split: if_splits)
  then show ?thesis
  proof cases
    case val
    have "codec d 0 (pack_one_value cfg v) (unpack_one_value cfg') (recv_value cfg cfg' v)"
      if "v \<in> set vs" for v
      using codec_one_value [OF assms(1), of cfg' "fst v" "fst (snd v)" "snd (snd v)" d] val(3) that by (simp add: split_beta)
    from codec_each_to [of vs, OF this, where h = AVal]
    show ?thesis using val by (simp add: fn_codec_def pack_fn2_def unpack_fn2_def recv2_def opal_dss_pack_value_def opal_dss_unpack_value_def first_of_def)
  next
    case buf
    have "codec d 0 (pack_one_buffer cfg nb) (unpack_one_buffer cfg') (recv_buffer cfg' nb)" if "nb \<in> set bs" for nb
      using codec_one_buffer [OF assms(1)] buf(3) that by blast
    from codec_each_to [of bs, OF this, where h = ABuf]
    show ?thesis using buf
      by (simp add: fn_codec_def pack_fn2_def unpack_fn2_def recv2_def opal_dss_pack_buffer_contents_def opal_dss_unpack_buffer_contents_def first_of_def dss_type)
  next
    case other
    then have "recv2 cfg cfg' type a = recv1 cfg cfg' type a" using wt1_shape [of cfg cfg' type a] by (cases a) (simp_all add: recv2_def)
    then show ?thesis using codec1 [OF assms(1) other(3), of d] other by (simp add: fn_codec_def pack_fn2_def unpack_fn2_def)
  qed
qed

lemma codec_count:
  assumes "cfg_ok cfg" and "n < 2 ^ 31"
  shows "codec d 0 (pack_then (store_type_if DSS_BUFFER_FULLY_DESC cfg OPAL_INT32) (opal_dss_pack_int32 cfg (A32 [of_nat n]) 1)) unpack_count (int n)"
proof -
  let ?n = "of_nat n :: 32 word"
  define g where "g = unpack_then (unpack_int32s 1) (\<lambda>xs. unpack_done (sint (hd xs)))"
  have 2: "codec d 0 (opal_dss_pack_int32 cfg (A32 [?n]) 1) g (int n)"
    using codec_mono [OF codec_map [OF codec_int32s [OF assms(1), of "[?n]" 1 1 d], of "\<lambda>xs. sint (hd xs)"], of 0] sint_of_nat_32 [OF assms(2)]
    by (simp add: g_def)
  have 1: "codec d 0 (store_type_if DSS_BUFFER_FULLY_DESC cfg OPAL_INT32) (\<lambda>b. if buf_type b = DSS_BUFFER_FULLY_DESC
        then unpack_then opal_dss_get_data_type (\<lambda>t. if t \<noteq> OPAL_INT32 then unpack_fail OPAL_ERR_UNPACK_FAILURE else unpack_done ()) b
        else Some (Inr (), b)) ()"
  proof (cases "d = DSS_BUFFER_FULLY_DESC")
    case True
    have "gets d (unpack_then opal_dss_get_data_type (\<lambda>t. if t \<noteq> OPAL_INT32 then unpack_fail OPAL_ERR_UNPACK_FAILURE else unpack_done ())) () ([OPAL_INT32] @ [])"
      by (rule gets_then [OF gets_type]) (simp add: gets_done)
    then have "codec d 0 (opal_dss_store_data_type cfg OPAL_INT32)
      (unpack_then opal_dss_get_data_type (\<lambda>t. if t \<noteq> OPAL_INT32 then unpack_fail OPAL_ERR_UNPACK_FAILURE else unpack_done ())) ()"
      unfolding codec_def using puts_type [OF assms(1)] by auto
    then show ?thesis by (rule codec_cong [THEN iffD1, rotated -1]) (simp_all add: True store_type_if_def)
  next
    case False
    show ?thesis by (rule codec_cong [THEN iffD1, OF _ _ codec_done]) (use False in \<open>auto simp: store_type_if_def pack_done_def unpack_done_def\<close>)
  qed
  have "unpack_count = unpack_then (\<lambda>b. if buf_type b = DSS_BUFFER_FULLY_DESC
        then unpack_then opal_dss_get_data_type (\<lambda>t. if t \<noteq> OPAL_INT32 then unpack_fail OPAL_ERR_UNPACK_FAILURE else unpack_done ()) b
        else Some (Inr (), b)) (\<lambda>_. g)" by (rule ext) (simp add: unpack_count_def g_def)
  then show ?thesis using codec_then [where h = "\<lambda>_. g", OF 1 2] by simp
qed

lemma puts_dss_pack:
  assumes "puts d (pack_then (store_type_if DSS_BUFFER_FULLY_DESC cfg OPAL_INT32) (opal_dss_pack_int32 cfg (A32 [of_nat n]) 1)) cs"
    and "puts d (opal_dss_pack_buffer cfg a n type) vs"
  shows "puts d (opal_dss_pack cfg a n type) (cs @ vs)"
proof -
  have "opal_dss_pack cfg a n type = pack_then (pack_then (store_type_if DSS_BUFFER_FULLY_DESC cfg OPAL_INT32) (opal_dss_pack_int32 cfg (A32 [of_nat n]) 1))
      (opal_dss_pack_buffer cfg a n type)"
    unfolding opal_dss_pack_def pack_then_def by (rule ext) (auto split: Option.bind_split)
  then show ?thesis using puts_then [OF assms] by simp
qed

lemma dss_pack_layout:
  assumes "cfg_ok cfg" and "wt2 cfg cfg' type a"
  obtains cs vs where "gets d unpack_count (int (alen a)) cs" "puts d (opal_dss_pack cfg a (alen a) type) (cs @ tag d type @ vs)"
    "gets d (opal_dss_unpack_buffer cfg' (int (alen a)) type) (recv2 cfg cfg' type a) (tag d type @ vs)"
proof -
  have "alen a < 2 ^ 31" using assms(2) by (simp add: wt2_def)
  then obtain cs where 1: "puts d (pack_then (store_type_if DSS_BUFFER_FULLY_DESC cfg OPAL_INT32) (opal_dss_pack_int32 cfg (A32 [of_nat (alen a)]) 1)) cs"
    "gets d unpack_count (int (alen a)) cs" using codec_count [OF assms(1)] unfolding codec_def by blast
  obtain vs where 2: "puts d (opal_dss_pack_buffer cfg a (alen a) type) (tag d type @ vs)"
    "gets d (opal_dss_unpack_buffer cfg' (int (alen a)) type) (recv2 cfg cfg' type a) (tag d type @ vs)"
    using via_layout [OF assms(1) codec2 [OF assms], of d] unfolding opal_dss_pack_buffer_def opal_dss_unpack_buffer_def by blast
  show thesis by (rule that [OF 1(2) puts_dss_pack [OF 1(1) 2(1)] 2(2)])
qed

lemma dss_item:
  assumes "cfg_ok cfg" and "wt2 cfg cfg' type a" and "int (alen a) \<le> room" and "room \<noteq> 0"
  shows "\<exists>bs. puts d (opal_dss_pack cfg a (alen a) type) bs \<and>
    (\<forall>b rest. buf_ok b \<and> buf_type b = d \<and> unread b = bs @ rest \<longrightarrow>
      (\<exists>b'. opal_dss_unpack cfg' room type b = Some ((OPAL_SUCCESS, int (alen a), Some (recv2 cfg cfg' type a)), b') \<and>
        buf_ok b' \<and> buf_type b' = d \<and> unread b' = rest))"
proof -
  obtain cs vs where 1: "gets d unpack_count (int (alen a)) cs" "puts d (opal_dss_pack cfg a (alen a) type) (cs @ vs)"
    "gets d (opal_dss_unpack_buffer cfg' (int (alen a)) type) (recv2 cfg cfg' type a) vs"
    using dss_pack_layout [OF assms(1,2)] by metis
  have "\<exists>b'. opal_dss_unpack cfg' room type b = Some ((OPAL_SUCCESS, int (alen a), Some (recv2 cfg cfg' type a)), b') \<and>
        buf_ok b' \<and> buf_type b' = d \<and> unread b' = rest" if b: "buf_ok b" "buf_type b = d" "unread b = (cs @ vs) @ rest" for b rest
  proof -
    obtain b1 where b1: "unpack_count b = Some (Inr (int (alen a)), b1)" "buf_ok b1" "buf_type b1 = d" "unread b1 = vs @ rest"
      by (rule getsD [OF 1(1), of b "vs @ rest"]) (use b in simp_all)
    obtain b2 where "opal_dss_unpack_buffer cfg' (int (alen a)) type b1 = Some (Inr (recv2 cfg cfg' type a), b2)" "buf_ok b2" "buf_type b2 = d" "unread b2 = rest"
      by (rule getsD [OF 1(3) b1(2-4)])
    then show ?thesis using b1(1) assms(3,4) by (simp add: opal_dss_unpack_def)
  qed
  then show ?thesis using 1(2) by blast
qed

end
