(* ===== verification/Dss_Roundtrip.thy ===== *)
theory Dss_Roundtrip
  imports Dss_Stream
begin

text \<open>
  Sequences of packing calls followed by unpacking calls. The contract of a packing library is the locale
  \<open>byte_stream\<close>; it is interpreted on \<open>opal_dss_pack\<close> and \<open>opal_dss_unpack\<close>.
\<close>

section \<open>First in, first out\<close>

primrec put_all :: "('i \<Rightarrow> 'b \<Rightarrow> (int \<times> 'b) option) \<Rightarrow> 'i list \<Rightarrow> 'b \<Rightarrow> (int \<times> 'b) option" where
  "put_all put [] b = Some (OPAL_SUCCESS, b)"
| "put_all put (i # is) b = do { (rc, b) \<leftarrow> put i b; if rc \<noteq> OPAL_SUCCESS then Some (rc, b) else put_all put is b }"

primrec get_all :: "('i \<Rightarrow> 'b \<Rightarrow> ('v \<times> 'b) option) \<Rightarrow> 'i list \<Rightarrow> 'b \<Rightarrow> ('v list \<times> 'b) option" where
  "get_all get [] b = Some ([], b)"
| "get_all get (i # is) b = do { (v, b) \<leftarrow> get i b; (vs, b) \<leftarrow> get_all get is b; Some (v # vs, b) }"

locale byte_stream =
  fixes good :: "'i \<Rightarrow> bool" and inv :: "'b \<Rightarrow> bool" and queue :: "'b \<Rightarrow> 'c list" and front :: "'b \<Rightarrow> nat"
    and put :: "'i \<Rightarrow> 'b \<Rightarrow> (int \<times> 'b) option" and get :: "'i \<Rightarrow> 'b \<Rightarrow> ('v \<times> 'b) option" and val :: "'i \<Rightarrow> 'v"
  assumes item: "good i \<Longrightarrow> \<exists>bs.
      (\<forall>b. inv b \<longrightarrow> (\<exists>rc b'. put i b = Some (rc, b') \<and> (rc \<noteq> OPAL_SUCCESS \<longrightarrow> rc = OPAL_ERR_OUT_OF_RESOURCE) \<and>
        (rc = OPAL_SUCCESS \<longrightarrow> inv b' \<and> queue b' = queue b @ bs \<and> front b' = front b))) \<and>
      (\<forall>b rest. inv b \<and> queue b = bs @ rest \<longrightarrow> (\<exists>b'. get i b = Some (val i, b') \<and> inv b' \<and> queue b' = rest))"
begin

lemma itemE:
  assumes "good i"
  obtains bs where "\<And>b rc b'. inv b \<Longrightarrow> put i b = Some (rc, b') \<Longrightarrow> rc = OPAL_SUCCESS \<Longrightarrow> inv b' \<and> queue b' = queue b @ bs \<and> front b' = front b"
    and "\<And>b rest. inv b \<Longrightarrow> queue b = bs @ rest \<Longrightarrow> \<exists>b'. get i b = Some (val i, b') \<and> inv b' \<and> queue b' = rest"
proof -
  obtain bs where bs: "\<forall>b. inv b \<longrightarrow> (\<exists>rc b'. put i b = Some (rc, b') \<and> (rc \<noteq> OPAL_SUCCESS \<longrightarrow> rc = OPAL_ERR_OUT_OF_RESOURCE) \<and>
        (rc = OPAL_SUCCESS \<longrightarrow> inv b' \<and> queue b' = queue b @ bs \<and> front b' = front b))"
    "\<forall>b rest. inv b \<and> queue b = bs @ rest \<longrightarrow> (\<exists>b'. get i b = Some (val i, b') \<and> inv b' \<and> queue b' = rest)"
    using item [OF assms] by blast
  show thesis
  proof (rule that)
    fix b rc b' assume "inv b" "put i b = Some (rc, b')" "rc = OPAL_SUCCESS"
    then show "inv b' \<and> queue b' = queue b @ bs \<and> front b' = front b" using bs(1) by force
  next
    fix b rest assume "inv b" "queue b = bs @ rest"
    then show "\<exists>b'. get i b = Some (val i, b') \<and> inv b' \<and> queue b' = rest" using bs(2) by blast
  qed
qed

lemma put_all_total:
  assumes "\<forall>i \<in> set is. good i" and "inv b"
  shows "\<exists>rc b'. put_all put is b = Some (rc, b') \<and> (rc \<noteq> OPAL_SUCCESS \<longrightarrow> rc = OPAL_ERR_OUT_OF_RESOURCE)"
  using assms
proof (induction "is" arbitrary: b)
  case (Cons i "is")
  obtain rc b1 where 1: "put i b = Some (rc, b1)" "rc \<noteq> OPAL_SUCCESS \<longrightarrow> rc = OPAL_ERR_OUT_OF_RESOURCE" "rc = OPAL_SUCCESS \<longrightarrow> inv b1"
    using item [of i] Cons.prems by (metis list.set_intros(1))
  then show ?case using Cons.IH [of b1] Cons.prems(1) by (cases "rc = OPAL_SUCCESS") simp_all
qed simp

lemma fifo:
  assumes "\<forall>i \<in> set is. good i" and "inv b" and "put_all put is b = Some (OPAL_SUCCESS, b')"
  shows "inv b' \<and> front b' = front b \<and> (\<exists>bs. queue b' = queue b @ bs \<and>
    (\<forall>c rest. inv c \<and> queue c = bs @ rest \<longrightarrow> (\<exists>c'. get_all get is c = Some (map val is, c') \<and> inv c' \<and> queue c' = rest)))"
  using assms
proof (induction "is" arbitrary: b)
  case (Cons i "is")
  obtain bs where bs: "\<And>b rc b'. inv b \<Longrightarrow> put i b = Some (rc, b') \<Longrightarrow> rc = OPAL_SUCCESS \<Longrightarrow> inv b' \<and> queue b' = queue b @ bs \<and> front b' = front b"
    "\<And>b rest. inv b \<Longrightarrow> queue b = bs @ rest \<Longrightarrow> \<exists>b'. get i b = Some (val i, b') \<and> inv b' \<and> queue b' = rest"
    using itemE [of i] Cons.prems(1) by (metis list.set_intros(1))
  obtain b1 where b1: "put i b = Some (OPAL_SUCCESS, b1)" "put_all put is b1 = Some (OPAL_SUCCESS, b')"
    using Cons.prems(3) by (auto simp: Option.bind_eq_Some_conv split: if_splits)
  have inv1: "inv b1" "queue b1 = queue b @ bs" "front b1 = front b" using bs(1) [OF Cons.prems(2) b1(1)] by simp_all
  obtain cs where cs: "inv b'" "front b' = front b1" "queue b' = queue b1 @ cs"
    "\<And>c rest. inv c \<Longrightarrow> queue c = cs @ rest \<Longrightarrow> \<exists>c'. get_all get is c = Some (map val is, c') \<and> inv c' \<and> queue c' = rest"
    using Cons.IH [OF _ inv1(1) b1(2)] Cons.prems(1) by (metis list.set_intros(2))
  have "\<exists>c'. get_all get (i # is) c = Some (map val (i # is), c') \<and> inv c' \<and> queue c' = rest" if c: "inv c" "queue c = (bs @ cs) @ rest" for c rest
  proof -
    obtain c1 where c1: "get i c = Some (val i, c1)" "inv c1" "queue c1 = cs @ rest" using bs(2) [of c "cs @ rest"] c by auto
    then show ?thesis using cs(4) [of c1 rest] by auto
  qed
  then show ?case using cs(1-3) inv1(2,3) by (intro conjI exI [of _ "bs @ cs"]) simp_all
qed simp

end

text \<open>One call: the type, the array, and the number of values the receiver has room for.\<close>

type_synonym 'f dss_item = "opal_data_type \<times> 'f dss_array \<times> int"

text \<open>
  What can be sent: well-typed arrays of any type the library unpacks. Of an OPAL_VALUE the data is one
  element, an object or an empty array: a value that holds an array with elements cannot be unpacked
  (\<open>Dss_Faults\<close>), and a value of type OPAL_PTR is refused by the receiver.
\<close>

definition sendable :: "'f dss_cfg \<Rightarrow> 'f dss_cfg \<Rightarrow> 'f dss_item \<Rightarrow> bool" where
  "sendable cfg cfg' = (\<lambda>(type, a, room). cfg_ok cfg \<and> wt2 cfg cfg' type a \<and> int (alen a) \<le> room \<and> room \<noteq> 0)"

definition dss_put :: "'f dss_cfg \<Rightarrow> 'f dss_item \<Rightarrow> packer" where
  "dss_put cfg = (\<lambda>(type, a, room). opal_dss_pack cfg a (alen a) type)"

definition dss_get :: "'f dss_cfg \<Rightarrow> 'f dss_item \<Rightarrow> opal_buffer \<Rightarrow> ((int \<times> int \<times> 'f dss_array option) \<times> opal_buffer) option" where
  "dss_get cfg' = (\<lambda>(type, a, room). opal_dss_unpack cfg' room type)"

definition dss_seen :: "'f dss_cfg \<Rightarrow> 'f dss_cfg \<Rightarrow> 'f dss_item \<Rightarrow> int \<times> int \<times> 'f dss_array option" where
  "dss_seen cfg cfg' = (\<lambda>(type, a, room). (OPAL_SUCCESS, int (alen a), Some (recv2 cfg cfg' type a)))"

interpretation dss: byte_stream "sendable cfg cfg'" "\<lambda>b. buf_ok b \<and> buf_type b = d" unread unpack_ptr "dss_put cfg" "dss_get cfg'" "dss_seen cfg cfg'"
  for cfg :: "'f dss_cfg" and cfg' d
proof
  fix i :: "'f dss_item" assume good: "sendable cfg cfg' i"
  obtain type a room where i: "i = (type, a, room)" by (cases i)
  show "\<exists>bs. (\<forall>b. buf_ok b \<and> buf_type b = d \<longrightarrow> (\<exists>rc b'. dss_put cfg i b = Some (rc, b') \<and> (rc \<noteq> OPAL_SUCCESS \<longrightarrow> rc = OPAL_ERR_OUT_OF_RESOURCE) \<and>
        (rc = OPAL_SUCCESS \<longrightarrow> (buf_ok b' \<and> buf_type b' = d) \<and> unread b' = unread b @ bs \<and> unpack_ptr b' = unpack_ptr b))) \<and>
      (\<forall>b rest. (buf_ok b \<and> buf_type b = d) \<and> unread b = bs @ rest \<longrightarrow>
        (\<exists>b'. dss_get cfg' i b = Some (dss_seen cfg cfg' i, b') \<and> (buf_ok b' \<and> buf_type b' = d) \<and> unread b' = rest))"
    using dss_item [of cfg cfg' type a room d] good unfolding i sendable_def dss_put_def dss_get_def dss_seen_def puts_def prod.case
    by (simp only: conj_assoc) blast
qed

section \<open>Across machines\<close>

lemma new_buffer_ok: "buf_ok ((opal_buffer_construct cfg)\<lparr>buf_type := d\<rparr>)" "unread ((opal_buffer_construct cfg)\<lparr>buf_type := d\<rparr>) = []"
  by (simp_all add: buf_ok_def unread_def opal_buffer_construct_def cells_def)

lemma load_unload:
  assumes "buf_ok b" and "unpack_ptr b = 0" and "opal_dss_unload b = (payload, n, b0)" and "bytes_used b < 2 ^ 31"
  obtains c where "opal_dss_load payload n ((opal_buffer_construct cfg')\<lparr>buf_type := d\<rparr>) = Some c" "buf_ok c" "unread c = unread b" "buf_type c = d"
proof (cases "base_ptr b = Null \<or> bytes_used b = 0")
  case True
  then have "unread b = []" using assms(1) by (auto simp: buf_ok_def unread_def cells_def)
  moreover have "payload = Null" using True assms(3) by (simp add: opal_dss_unload_def)
  ultimately show thesis using that new_buffer_ok [where cfg = cfg' and d = d] by (simp add: opal_dss_load_def opal_buffer_construct_def)
next
  case False
  then have p: "payload = base_ptr b" "n = int (bytes_used b)" using assms(3,4) by (simp_all add: opal_dss_unload_def INT_MAX_def)
  then show thesis
    using that assms(1,2) False by (simp add: opal_dss_load_def buf_ok_def unread_def opal_buffer_construct_def)
qed


definition sample_cfg :: "unit dss_cfg" where
  "sample_cfg = \<lparr>opal_dss_initial_size = 128, opal_dss_threshold_size = 1024, heap_limit = 4096, heap_junk = 0, SIZEOF_SIZE_T = 8,
     SIZEOF_BOOL = 1, SIZEOF_INT = 4, SIZEOF_PID_T = 4, default_buf_type = DSS_BUFFER_FULLY_DESC,
     asprintf_f = \<lambda>_. [48, 46, 48], strtof = \<lambda>_. (), strtod = \<lambda>_. ()\<rparr>"

definition sample_items :: "unit dss_item list" where
  "sample_items = [(OPAL_INT, A32 [7, -1], 2), (OPAL_STRING, AStr [Ptr [104, 105, 0], Null], 3), (OPAL_FLOAT, AFloat [()], 1)]"

lemma sample_sendable: "\<forall>i \<in> set sample_items. sendable sample_cfg sample_cfg i"
  by (simp add: sample_items_def sendable_def sample_cfg_def cfg_ok_def wt2_def wt1_def wt0_def local_type_def DSS_TYPE_INT_def
      int_type_of_size_def dss_type str_ok_def float_ok_def tmp_ok_def)


end
