(* ===== verification/Dss_Faults.thy ===== *)
theory Dss_Faults
  imports Dss_Roundtrip
begin

text \<open>
  What the library does outside the round trip: integers of different sizes, contents that nobody packed,
  values of another type than the receiver expects, and the values whose unpacking fails.
\<close>

section \<open>Integers of different sizes\<close>

definition fits_signed :: "nat \<Rightarrow> int \<Rightarrow> bool" where
  "fits_signed k x \<longleftrightarrow> - (2 ^ (8 * k - 1)) \<le> x \<and> x < 2 ^ (8 * k - 1)"

lemma sint_fits:
  "fits_signed 1 x \<Longrightarrow> sint (word_of_int x :: 8 word) = x" "fits_signed 2 x \<Longrightarrow> sint (word_of_int x :: 16 word) = x"
  "fits_signed 4 x \<Longrightarrow> sint (word_of_int x :: 32 word) = x" "fits_signed 8 x \<Longrightarrow> sint (word_of_int x :: 64 word) = x"
  by (simp_all add: fits_signed_def signed_of_int signed_take_bit_int_eq_self)

lemma array_ints_fits:
  assumes "k \<in> {1, 2, 4, 8}" and "\<forall>x \<in> set xs. fits_signed k x"
  shows "array_ints (int_type_of_size k) (ints_array k xs) = xs"
  using assms by (auto simp: array_ints_def int_type_of_size_def ints_array_def dss_type sint_fits intro!: map_idI)

lemma recv1_int:
  assumes "SIZEOF_INT cfg \<in> {1, 2, 4, 8}" and "SIZEOF_INT cfg' \<in> {1, 2, 4, 8}" and "\<forall>x \<in> set xs. fits_signed (SIZEOF_INT cfg) x"
  shows "recv1 cfg cfg' OPAL_INT (ints_array (SIZEOF_INT cfg) xs) = ints_array (SIZEOF_INT cfg') xs"
proof (cases "DSS_TYPE_INT cfg = DSS_TYPE_INT cfg'")
  case True
  then have "SIZEOF_INT cfg = SIZEOF_INT cfg'" using assms(1,2) by (auto simp: DSS_TYPE_INT_def int_type_of_size_def dss_type split: if_splits)
  then show ?thesis using True by (simp add: recv1_def seen_as_def local_type_def dss_type)
next
  case False
  then show ?thesis by (simp add: array_ints_fits [OF assms(1,3)] recv1_def seen_as_def local_type_def local_conv_def DSS_TYPE_INT_def dss_type)
qed

lemma recv2_ints: "recv2 cfg cfg' type (ints_array k xs) = recv1 cfg cfg' type (ints_array k xs)"
  by (simp add: recv2_def ints_array_def)

lemma ints_sendable:
  assumes "cfg_ok cfg" and "SIZEOF_INT cfg \<in> {1, 2, 4, 8}" and "length xs < 2 ^ 31" and "8 * length xs \<le> heap_limit cfg'"
  shows "wt2 cfg cfg' OPAL_INT (ints_array (SIZEOF_INT cfg) xs)"
  using assms by (auto simp: tmp_ok_def number_size_def wt2_def wt1_def local_type_def wt0_def DSS_TYPE_INT_def int_type_of_size_def ints_array_def dss_type)

lemma alen_ints [simp]: "alen (ints_array k xs) = length xs"
  by (simp add: ints_array_def)

text \<open>C38: Between machines whose \<^verbatim>\<open>int\<close> has different sizes, integers packed as \<^verbatim>\<open>OPAL_INT\<close> are unpacked with the
  receiver's size and the same values when they fit in both and the receiver has memory to convert them.\<close>
theorem dss_int_between_machines:
  fixes cfg cfg' :: "'f dss_cfg"
  assumes "cfg_ok cfg" and "SIZEOF_INT cfg \<in> {1, 2, 4, 8}" and "SIZEOF_INT cfg' \<in> {1, 2, 4, 8}"
    and "\<forall>x \<in> set xs. fits_signed (SIZEOF_INT cfg) x \<and> fits_signed (SIZEOF_INT cfg') x" and "xs \<noteq> []" and "length xs < 2 ^ 31"
    and "8 * length xs \<le> heap_limit cfg'" and "buf_ok b" and "unread b = []"
    and "opal_dss_pack cfg (ints_array (SIZEOF_INT cfg) xs) (length xs) OPAL_INT b = Some (OPAL_SUCCESS, b')"
  shows "\<exists>b'' a. opal_dss_unpack cfg' (int (length xs)) OPAL_INT b' = Some ((OPAL_SUCCESS, int (length xs), Some a), b'') \<and>
    a = ints_array (SIZEOF_INT cfg') xs \<and> array_ints (DSS_TYPE_INT cfg') a = xs"
proof -
  let ?a = "ints_array (SIZEOF_INT cfg) xs"
  have seen: "recv2 cfg cfg' OPAL_INT ?a = ints_array (SIZEOF_INT cfg') xs"
    using recv1_int [OF assms(2,3), of xs] recv2_ints [of cfg cfg' OPAL_INT] assms(4) by simp
  obtain bs where bs: "puts (buf_type b) (opal_dss_pack cfg ?a (length xs) OPAL_INT) bs"
    "\<And>b1 rest. buf_ok b1 \<and> buf_type b1 = buf_type b \<and> unread b1 = bs @ rest \<Longrightarrow>
      \<exists>b2. opal_dss_unpack cfg' (int (length xs)) OPAL_INT b1 = Some ((OPAL_SUCCESS, int (length xs), Some (ints_array (SIZEOF_INT cfg') xs)), b2)"
    using dss_item [OF assms(1) ints_sendable [OF assms(1,2,6,7)], of "int (length xs)" "buf_type b"] assms(5) seen by fastforce
  have "buf_ok b' \<and> buf_type b' = buf_type b \<and> unread b' = bs @ []" using bs(1) assms(8-10) unfolding puts_def by fastforce
  from bs(2) [OF this] show ?thesis using assms(4) by (auto simp: DSS_TYPE_INT_def array_ints_fits [OF assms(3)])
qed

section \<open>Any content\<close>

lemma safe_block [dss_safe]:
  assumes "- (2 ^ 31) \<le> n" and "n < 2 ^ 31"
  shows "safe d (unpack_block n)"
  unfolding safe_def
proof (intro allI impI)
  fix b assume b: "buf_ok b \<and> buf_type b = d"
  show "\<exists>r b'. unpack_block n b = Some (r, b') \<and> buf_ok b' \<and> buf_type b' = d \<and> length (unread b') \<le> length (unread b)"
  proof (cases "opal_dss_too_small b (szmul n 1)")
    case True
    then show ?thesis using b by (simp add: unpack_block_def)
  next
    case False
    have len: "szmul n 1 \<le> length (unread b)" using False b length_unread [of b] by (auto simp: opal_dss_too_small_def split: if_splits)
    moreover have "length (unread b) < 2 ^ 63" using b length_unread [of b] unfolding buf_ok_def by linarith
    ultimately have "0 \<le> n" using szmul_big [OF _ assms(1), of 1] by linarith
    then have k: "nat n \<le> length (unread b)" using len assms(2) by (simp add: szmul_def)
    have g: "gets d (fetch_bytes (nat n)) (take (nat n) (unread b)) (take (nat n) (unread b))" using k by (intro gets_fetch) simp
    obtain b' where "fetch_bytes (nat n) b = Some (Inr (take (nat n) (unread b)), b')" "buf_ok b'" "buf_type b' = d" "unread b' = drop (nat n) (unread b)"
      by (rule getsD [OF g, of b "drop (nat n) (unread b)"]) (use b in simp_all)
    then show ?thesis using False by (simp add: unpack_block_def)
  qed
qed

lemma safe_enough [dss_safe]: "safe d f \<Longrightarrow> safe d (enough_for n k f)"
  unfolding safe_def enough_for_def by simp

lemma sint_32_bounds: "- (2 ^ 31) \<le> sint (x :: 32 word)" "sint (x :: 32 word) < 2 ^ 31"
  using sint_ge [of x] sint_lt [of x] by simp_all

lemma safe_block_sint: "safe d (unpack_block (sint (x :: 32 word)))"
  by (rule safe_block [OF sint_32_bounds])

lemma safe_int32s [dss_safe]: "- (2 ^ 31) \<le> n \<Longrightarrow> n < 2 ^ 31 \<Longrightarrow> safe d (unpack_int32s n)"
  and safe_int64s [dss_safe]: "- (2 ^ 31) \<le> n \<Longrightarrow> n < 2 ^ 31 \<Longrightarrow> safe d (unpack_int64s n)"
  unfolding unpack_int32s_def unpack_int64s_def by (intro safe_then safe_chunks safe_done; simp)+

lemma safe_one_string [dss_safe]: "safe d (unpack_one_string cfg)"
proof -
  have "safe d (let len = sint (hd xs) in if len = 0 then unpack_done Null
     else if malloc_fails cfg len then unpack_fail OPAL_ERR_OUT_OF_RESOURCE
     else unpack_then (unpack_block len) (\<lambda>bs. unpack_done (Ptr bs)))" for xs :: "32 word list"
    by (simp add: Let_def safe_done safe_fail safe_then safe_block_sint)
  then show ?thesis unfolding unpack_one_string_def by (intro safe_then safe_int32s) simp_all
qed

lemma safe_one_object [dss_safe]: "safe d (unpack_one_object cfg)"
proof -
  have "safe d (let n = hd xs in
     if 0 < sint n then
       if malloc_fails cfg (sint n) then unpack_fail OPAL_ERR_OUT_OF_RESOURCE
       else unpack_then (unpack_block (sint n)) (\<lambda>bs. unpack_done (n, Ptr bs))
     else unpack_done (n, Null))" for xs :: "32 word list"
    by (simp add: Let_def safe_done safe_fail safe_then safe_block_sint)
  then show ?thesis unfolding unpack_one_object_def by (intro safe_then safe_int32s) simp_all
qed

text \<open>All the types packed directly, except the floating-point ones.\<close>

lemma safe_fn0:
  assumes "unpack_fn0 cfg type = Some g" and "type \<notin> {OPAL_FLOAT, OPAL_DOUBLE}" and "- (2 ^ 31) \<le> n" and "n < 2 ^ 31"
  shows "safe d (g n)"
proof -
  note small = safe_block [OF assms(3,4)] safe_chunks [OF assms(3,4)] safe_int32s [OF assms(3,4)] safe_int64s [OF assms(3,4)]
  have "safe d (opal_dss_unpack_null n)" "safe d (opal_dss_unpack_byte n)" "safe d (opal_dss_unpack_int16 n)" "safe d (opal_dss_unpack_int32 n)"
    "safe d (opal_dss_unpack_int64 n)"
    unfolding opal_dss_unpack_null_def opal_dss_unpack_byte_def opal_dss_unpack_int16_def opal_dss_unpack_int32_def opal_dss_unpack_int64_def
    by (intro safe_then small safe_done; simp)+
  moreover have "safe d (opal_dss_unpack_string cfg n)" "safe d (opal_dss_unpack_byte_object cfg n)"
    unfolding opal_dss_unpack_string_def opal_dss_unpack_byte_object_def by (intro safe_then safe_times safe_one_string safe_one_object safe_done)+
  moreover have "safe d (opal_dss_unpack_timeval n)" "safe d (opal_dss_unpack_time n)"
    unfolding opal_dss_unpack_timeval_def opal_dss_unpack_time_def by (intro safe_enough safe_then safe_times safe_int64s safe_done; simp)+
  ultimately show ?thesis using assms(1,2) by (auto simp: unpack_fn0_def split: if_splits)
qed


lemma safe_get_type [dss_safe]: "safe d opal_dss_get_data_type"
  unfolding opal_dss_get_data_type_def by (intro safe_then safe_block safe_done) simp_all

lemma safe_cong:
  assumes "safe d f" and "\<And>b. buf_type b = d \<Longrightarrow> f' b = f b"
  shows "safe d f'"
  using assms unfolding safe_def by simp

lemma safe_peek [dss_safe]: "safe d opal_dss_peek_type"
  unfolding safe_def
proof (intro allI impI)
  fix b assume b: "buf_ok b \<and> buf_type b = d"
  then obtain r b' where "opal_dss_get_data_type b = Some (r, b')" using safe_get_type [of d] unfolding safe_def by blast
  then show "\<exists>r b'. opal_dss_peek_type b = Some (r, b') \<and> buf_ok b' \<and> buf_type b' = d \<and> length (unread b') \<le> length (unread b)"
    using b by (simp add: opal_dss_peek_type_def)
qed

lemma safe_check_type [dss_safe]: "safe d (check_type t)"
proof -
  have "safe d (unpack_then opal_dss_get_data_type (\<lambda>u. if t \<noteq> u then unpack_fail OPAL_ERR_PACK_MISMATCH else unpack_done ()))"
    by (intro safe_then safe_get_type) (simp add: safe_done safe_fail)
  then show ?thesis unfolding safe_def check_type_def by auto
qed

lemma safe_via [dss_safe]:
  assumes "\<And>g. fns t = Some g \<Longrightarrow> safe d (g n)"
  shows "safe d (unpack_buffer_via fns n t)"
  unfolding unpack_buffer_via_def using assms by (intro safe_then safe_check_type) (auto simp: safe_fail split: option.splits)

lemma number_types_no_float: "t \<in> number_types \<Longrightarrow> t \<notin> {OPAL_FLOAT, OPAL_DOUBLE}"
  by (auto simp: number_types_def dss_type)

lemma safe_system:
  assumes "R \<in> number_types" and "- (2 ^ 31) \<le> n" and "n < 2 ^ 31" and "8 * n \<le> int (heap_limit cfg)"
  shows "safe d (unpack_system_type cfg R conv n)"
proof -
  have via: "safe d (unpack_buffer_via (unpack_fn0 cfg) n t)" if "t \<in> number_types" for t
    using safe_fn0 [OF _ number_types_no_float [OF that] assms(2,3)] by (intro safe_via) blast
  have tmp: "\<not> (0 < n \<and> szmul n (number_size t) > heap_limit cfg)" for t
  proof (cases "0 < n")
    case True
    have "szmul n (number_size t) \<le> nat n * number_size t" using szmul_le [of "nat n" "number_size t"] True by simp
    also have "\<dots> \<le> nat n * 8" by (intro mult_le_mono2) (simp add: number_size_def)
    finally show ?thesis using assms(4) by linarith
  qed simp
  have "safe d sender_type"
    using safe_peek [of d] safe_get_type [of d] by (cases "d = DSS_BUFFER_FULLY_DESC") (auto elim: safe_cong simp: sender_type_def)
  then show ?thesis unfolding unpack_system_type_def
    by (rule safe_then) (use via assms(1) in \<open>simp only: tmp if_False, simp add: safe_then safe_done safe_fail\<close>)
qed

lemma safe_fn1:
  assumes "unpack_fn1 cfg type = Some g" and "type \<notin> {OPAL_FLOAT, OPAL_DOUBLE}" and "- (2 ^ 31) \<le> n" and "n < 2 ^ 31"
    and "8 * n \<le> int (heap_limit cfg)"
  shows "safe d (g n)"
proof (cases "local_type cfg type")
  case (Some S)
  obtain R where R: "local_type cfg type = Some R" "unpack_fn1 cfg type = Some (unpack_system_type cfg R (local_conv cfg type))"
    using unpack_fn1_system [OF Some] by blast
  then show ?thesis using safe_system [OF local_type_number [OF R(1)] assms(3-5)] assms(1) by simp
next
  case None
  show ?thesis
  proof (cases "type = OPAL_DATA_TYPE")
    case True
    have "OPAL_DATA_TYPE_T \<notin> {OPAL_FLOAT, OPAL_DOUBLE}" by (simp add: dss_type)
    then have "safe d (opal_dss_unpack_data_type cfg n)" unfolding opal_dss_unpack_data_type_def
      using safe_fn0 [OF _ _ assms(3,4)] by (intro safe_via) blast
    then show ?thesis using assms(1) True by (simp add: unpack_fn1_def dss_type)
  next
    case False
    then have "unpack_fn0 cfg type = Some g" using None assms(1) by (auto simp: local_type_def unpack_fn1_def split: if_splits)
    then show ?thesis using safe_fn0 assms(2-4) by blast
  qed
qed

text \<open>The count that stands before the values is any 32-bit number.\<close>

lemma unpack_count_safe:
  assumes "buf_ok b"
  obtains (error) rc b' where "unpack_count b = Some (Inl rc, b')" "buf_ok b'" "buf_type b' = buf_type b"
  | (count) n b' where "unpack_count b = Some (Inr n, b')" "buf_ok b'" "buf_type b' = buf_type b" "- (2 ^ 31) \<le> n" "n < 2 ^ 31"
proof -
  let ?head = "\<lambda>b. if buf_type b = DSS_BUFFER_FULLY_DESC
        then unpack_then opal_dss_get_data_type (\<lambda>t. if t \<noteq> OPAL_INT32 then unpack_fail OPAL_ERR_UNPACK_FAILURE else unpack_done ()) b
        else Some (Inr (), b)"
  have "safe (buf_type b) (unpack_then opal_dss_get_data_type (\<lambda>t. if t \<noteq> OPAL_INT32 then unpack_fail OPAL_ERR_UNPACK_FAILURE else unpack_done ()))"
    by (intro safe_then safe_get_type) (simp add: safe_done safe_fail)
  then obtain r1 b1 where 1: "?head b = Some (r1, b1)" "buf_ok b1" "buf_type b1 = buf_type b" using assms unfolding safe_def by (metis (no_types, lifting))
  have "safe (buf_type b) (unpack_int32s 1)" by (intro safe_int32s) simp_all
  then obtain r2 b2 where 2: "unpack_int32s 1 b1 = Some (r2, b2)" "buf_ok b2" "buf_type b2 = buf_type b" using 1(2,3) unfolding safe_def by blast
  show thesis
  proof (cases r1)
    case (Inl rc)
    then show thesis using error [of rc b1] 1 by (simp add: unpack_count_def unpack_then_def split: if_splits)
  next
    case r1: (Inr u)
    have run: "unpack_count b = (case r2 of Inl rc \<Rightarrow> Some (Inl rc, b2) | Inr xs \<Rightarrow> Some (Inr (sint (hd xs)), b2))"
      using 1(1) r1 2(1) by (simp add: unpack_count_def unpack_then_def unpack_done_def split: if_splits sum.splits)
    show thesis
    proof (cases r2)
      case (Inl rc)
      then show thesis using error [of rc b2] run 2 by simp
    next
      case (Inr xs)
      then show thesis using count [of "sint (hd xs)" b2] run 2 sint_32_bounds by simp
    qed
  qed
qed

text \<open>The types without floating-point numbers and without structures other than byte objects.\<close>

definition plain_types :: "opal_data_type set" where
  "plain_types = {OPAL_NULL, OPAL_BYTE, OPAL_BOOL, OPAL_INT, OPAL_UINT, OPAL_INT8, OPAL_UINT8, OPAL_INT16, OPAL_UINT16, OPAL_INT32, OPAL_UINT32,
     OPAL_INT64, OPAL_UINT64, OPAL_SIZE, OPAL_PID, OPAL_STRING, OPAL_DATA_TYPE, OPAL_BYTE_OBJECT, OPAL_TIMEVAL, OPAL_TIME}"

lemma plain_typesD: "type \<in> plain_types \<Longrightarrow> type \<notin> {OPAL_FLOAT, OPAL_DOUBLE, OPAL_VALUE, OPAL_BUFFER}"
  by (auto simp: plain_types_def dss_type)



section \<open>The wrong type\<close>

text \<open>C39: In a fully described buffer a value cannot be unpacked as another type: the call fails with
  \<^verbatim>\<open>OPAL_ERR_PACK_MISMATCH\<close> and gives no value.\<close>
theorem dss_type_mismatch:
  assumes "cfg_ok cfg" and "wt2 cfg cfg' type a" and "buf_ok b" and "buf_type b = DSS_BUFFER_FULLY_DESC" and "unread b = []"
    and "opal_dss_pack cfg a (alen a) type b = Some (OPAL_SUCCESS, b')" and "other \<noteq> type" and "room \<noteq> 0"
  shows "\<exists>b''. opal_dss_unpack cfg' room other b' = Some ((OPAL_ERR_PACK_MISMATCH, 0, None), b'')"
proof -
  let ?d = DSS_BUFFER_FULLY_DESC
  obtain cs vs where 1: "gets ?d unpack_count (int (alen a)) cs" "puts ?d (opal_dss_pack cfg a (alen a) type) (cs @ type # vs)"
    by (rule dss_pack_layout [OF assms(1,2), of ?d]) (simp add: tag_def)
  have b': "buf_ok b'" "buf_type b' = ?d" "unread b' = cs @ type # vs" using 1(2) assms(3-6) unfolding puts_def by fastforce+
  obtain b1 where b1: "unpack_count b' = Some (Inr (int (alen a)), b1)" "buf_ok b1" "buf_type b1 = ?d" "unread b1 = type # vs"
    by (rule getsD [OF 1(1) b'])
  obtain b2 where "opal_dss_get_data_type b1 = Some (Inr type, b2)"
    by (rule getsD [OF gets_type [of ?d type], of b1 vs]) (use b1 in simp_all)
  then have "opal_dss_unpack_buffer cfg' n other b1 = Some (Inl OPAL_ERR_PACK_MISMATCH, b2)" for n
    using assms(7) b1(3) by (simp add: opal_dss_unpack_buffer_def unpack_buffer_via_def check_type_def unpack_then_def unpack_fail_def)
  then show ?thesis using b1(1) assms(8) by (simp add: opal_dss_unpack_def)
qed


section \<open>Arrays in values\<close>

definition crashes :: "dss_buffer_type \<Rightarrow> 'v unpacker \<Rightarrow> byte list \<Rightarrow> bool" where
  "crashes d f bs \<longleftrightarrow> (\<forall>b rest. buf_ok b \<and> buf_type b = d \<and> unread b = bs @ rest \<longrightarrow> f b = None)"

lemma crashes_after:
  assumes "gets d f x bs" and "crashes d (g x) cs"
  shows "crashes d (unpack_then f g) (bs @ cs)"
  unfolding crashes_def
proof (intro allI impI)
  fix b rest assume b: "buf_ok b \<and> buf_type b = d \<and> unread b = (bs @ cs) @ rest"
  obtain b1 where "f b = Some (Inr x, b1)" "buf_ok b1" "buf_type b1 = d" "unread b1 = cs @ rest"
    by (rule getsD [OF assms(1), of b "cs @ rest"]) (use b in simp_all)
  then show "unpack_then f g b = None" using assms(2) unfolding crashes_def by (simp add: unpack_then_def)
qed

lemma crashes_first: "crashes d f bs \<Longrightarrow> crashes d (unpack_then f g) bs"
  unfolding crashes_def by (simp add: unpack_then_def)

lemma array_field_crashes:
  assumes "cfg_ok cfg" and "value_arrays type = Some elem" and "type \<notin> value_scalars \<union> {OPAL_BYTE_OBJECT, OPAL_PTR}"
    and "wt1 cfg cfg' elem data" and "0 < alen data" and "alen data < 2 ^ 31"
  obtains bs where "puts d (pack_value_field cfg type data) bs" "crashes d (unpack_value_field cfg' type) bs"
proof -
  let ?n = "of_nat (alen data) :: 32 word"
  obtain cs where cs: "puts d (pack_buffer_via cfg (pack_fn1 cfg) (A32 [?n]) 1 OPAL_INT32) cs"
    "gets d (unpack_buffer_via (unpack_fn1 cfg') 1 OPAL_INT32) (A32 [?n]) cs"
    using codec_array_size [OF assms(1), of d ?n cfg'] unfolding codec_def by blast
  obtain vs where vs: "puts d (pack_buffer_via cfg (pack_fn1 cfg) data (alen data) elem) vs"
    "gets d (unpack_buffer_via (unpack_fn1 cfg') (int (alen data)) elem) (recv1 cfg cfg' elem data) vs"
    using codec_via [OF assms(1) codec1 [OF assms(1,4)], of d] unfolding codec_def by blast
  have "crashes d (unpack_to_null cfg' (int (alen data)) elem) vs"
    unfolding crashes_def
  proof (intro allI impI)
    fix b rest assume b: "buf_ok b \<and> buf_type b = d \<and> unread b = vs @ rest"
    obtain b1 where "unpack_buffer_via (unpack_fn1 cfg') (int (alen data)) elem b = Some (Inr (recv1 cfg cfg' elem data), b1)"
      by (rule getsD [OF vs(2), of b rest]) (use b in simp_all)
    then show "unpack_to_null cfg' (int (alen data)) elem b = None" using assms(5) by (simp add: unpack_to_null_def)
  qed
  then have "crashes d (unpack_to_null cfg' (first_int32 (A32 [?n] :: 'a dss_array)) elem) vs"
    using sint_of_nat_32 [OF assms(6)] by (simp add: first_int32_def)
  then have "crashes d (unpack_value_field cfg' type) (cs @ vs)"
    using crashes_after [where g = "\<lambda>a. unpack_to_null cfg' (first_int32 a) elem", OF cs(2)] assms(2,3) by (simp add: unpack_value_field_def)
  moreover have "puts d (pack_value_field cfg type data) (cs @ vs)" using puts_then [OF cs(1) vs(1)] assms(2,3) by (simp add: pack_value_field_def)
  ultimately show thesis using that by blast
qed

lemma value_arrays_not_scalar: "value_arrays type = Some elem \<Longrightarrow> type \<notin> value_scalars \<union> {OPAL_BYTE_OBJECT, OPAL_PTR}"
  using value_arrays_scalars by auto

text \<open>C40: A value that holds an array can be packed, but not unpacked: the elements are written through the null pointer of the new value
  (no result), for every array type and every array that is not empty.\<close>
theorem dss_array_value_lost:
  assumes "cfg_ok cfg" and "str_ok cfg' key" and "value_arrays type = Some elem" and "wt1 cfg cfg' elem data"
    and "0 < alen data" and "alen data < 2 ^ 31" and "buf_ok b" and "unread b = []"
    and "opal_dss_pack cfg (AVal [(key, type, data)]) 1 OPAL_VALUE b = Some (OPAL_SUCCESS, b')" and "0 < room"
  shows "opal_dss_unpack cfg' room OPAL_VALUE b' = None"
proof -
  let ?d = "buf_type b"
  obtain ks where ks: "puts ?d (opal_dss_pack_string cfg (AStr [key]) 1) ks" "gets ?d (unpack_one_string cfg') key ks"
    using codec_key [OF assms(1,2)] unfolding codec_def by blast
  obtain ts where ts: "puts ?d (opal_dss_pack_data_type cfg (A8 [type]) 1) ts" "gets ?d (opal_dss_unpack_data_type cfg' 1) (A8 [type]) ts"
    using codec_value_type [OF assms(1)] unfolding codec_def by blast
  obtain fs where fs: "puts ?d (pack_value_field cfg type data) fs" "crashes ?d (unpack_value_field cfg' type) fs"
    by (rule array_field_crashes [OF assms(1,3) value_arrays_not_scalar [OF assms(3)] assms(4-6)])
  obtain cs where cs: "puts ?d (pack_then (store_type_if DSS_BUFFER_FULLY_DESC cfg OPAL_INT32) (opal_dss_pack_int32 cfg (A32 [of_nat 1]) 1)) cs"
    "gets ?d unpack_count (int 1) cs" using codec_count [OF assms(1), of 1] unfolding codec_def by auto
  have one: "puts ?d (pack_one_value cfg (key, type, data)) (ks @ ts @ fs)" unfolding pack_one_value_def prod.case by (intro puts_then ks(1) ts(1) fs(1))
  have "crashes ?d (unpack_one_value cfg') (ks @ ts @ fs)" unfolding unpack_one_value_def
    by (rule crashes_after [OF ks(2)], rule crashes_after [OF ts(2)], rule crashes_first) (use fs(2) in \<open>simp add: first_byte_def\<close>)
  then have "crashes ?d (unpack_buffer_via (unpack_fn2 cfg') 1 OPAL_VALUE) (tag ?d OPAL_VALUE @ ks @ ts @ fs)" unfolding unpack_buffer_via_def
    by (intro crashes_after [OF gets_tag]) (simp add: unpack_fn2_def opal_dss_unpack_value_def crashes_first)
  then have crash: "crashes ?d (opal_dss_unpack_buffer cfg' 1 OPAL_VALUE) (tag ?d OPAL_VALUE @ ks @ ts @ fs)" by (simp add: opal_dss_unpack_buffer_def)
  have "puts ?d (opal_dss_pack_buffer cfg (AVal [(key, type, data)]) 1 OPAL_VALUE) (tag ?d OPAL_VALUE @ ks @ ts @ fs)"
    unfolding opal_dss_pack_buffer_def pack_buffer_via_def
    by (rule puts_then [OF puts_tag [OF assms(1)]]) (use one in \<open>simp add: pack_fn2_def opal_dss_pack_value_def first_of_def\<close>)
  note packed = puts_dss_pack [OF cs(1) this]
  have b': "buf_ok b'" "buf_type b' = ?d" "unread b' = cs @ tag ?d OPAL_VALUE @ ks @ ts @ fs" using packed assms(7-9) unfolding puts_def by fastforce+
  obtain b1 where b1: "unpack_count b' = Some (Inr (int 1), b1)" "buf_ok b1" "buf_type b1 = ?d" "unread b1 = tag ?d OPAL_VALUE @ ks @ ts @ fs"
    by (rule getsD [OF cs(2) b'])
  then have "opal_dss_unpack_buffer cfg' 1 OPAL_VALUE b1 = None" using crash unfolding crashes_def by simp
  then show ?thesis using b1(1) assms(10) by (simp add: opal_dss_unpack_def)
qed


section \<open>Growing\<close>

lemma double_until_bound:
  assumes "double_until r a = Some t" and "0 < a"
  shows "t = a \<or> t < 2 * r"
  using assms
proof (induction "r - a" arbitrary: a rule: less_induct)
  case less
  show ?case
  proof (cases "a < r")
    case True
    then have step: "double_until r (2 * a) = Some t" using less.prems(1) by (simp add: double_until.simps [of r a])
    have "r - 2 * a < r - a" using True less.prems(2) by simp
    then have "t = 2 * a \<or> t < 2 * r" using less.hyps [OF _ step] less.prems(2) by simp
    then show ?thesis using True by auto
  next
    case False
    then show ?thesis using less.prems(1) by (simp add: double_until.simps [of r a])
  qed
qed

lemma dss_to_alloc_bound:
  assumes "cfg_ok cfg" and "dss_to_alloc cfg b r = Some t" and "bytes_allocated b < r"
  shows "t \<le> 2 * r + opal_dss_initial_size cfg + opal_dss_threshold_size cfg"
proof (cases "r \<ge> opal_dss_threshold_size cfg")
  case True
  let ?k = "opal_dss_threshold_size cfg"
  have "t = (r + ?k - 1) div ?k * ?k" using True assms(1,2) by (simp add: dss_to_alloc_def cfg_ok_def)
  then have "t \<le> r + ?k - 1" by simp
  then show ?thesis by linarith
next
  case False
  let ?a = "if bytes_allocated b = 0 then opal_dss_initial_size cfg else bytes_allocated b"
  have "t = ?a \<or> t < 2 * r" using double_until_bound [of r ?a t] False assms(1,2) by (auto simp: dss_to_alloc_def cfg_ok_def)
  then show ?thesis using assms(3) by (auto split: if_splits)
qed

text \<open>Growing a buffer: there is room for the requested bytes afterwards and the data in the buffer are untouched, unless memory is short: the
  block asked for is never larger than twice the data plus the two tunable sizes. (A request for nothing on a buffer that has no block gives no pointer.)\<close>
theorem dss_buffer_extend_room:
  assumes "cfg_ok cfg" and "buf_ok b"
  shows "\<exists>dst b'. opal_dss_buffer_extend cfg n b = Some (dst, b') \<and>
    (case dst of
       Ptr p \<Rightarrow> p = pack_ptr b' \<and> buf_ok b' \<and> unread b' = unread b \<and> bytes_used b' + n \<le> bytes_allocated b'
     | Null \<Rightarrow> n = 0 \<and> base_ptr b = Null \<or>
         heap_limit cfg < 2 * (bytes_used b + n) + opal_dss_initial_size cfg + opal_dss_threshold_size cfg)"
  using assms
proof (cases rule: buffer_extend_ok [of cfg b n])
  case (full b')
  show ?thesis
  proof (cases "szsub (bytes_allocated b) (bytes_used b) \<ge> n")
    case True
    then have "base_ptr b = Null" using full by (cases "base_ptr b") (simp_all add: opal_dss_buffer_extend_def)
    moreover from this have "n = 0" using True assms(2) by (simp add: buf_ok_def cells_def szsub_def)
    ultimately show ?thesis using full by simp
  next
    case False
    then have small: "bytes_allocated b < bytes_used b + n" using assms(2) by (simp add: buf_ok_def szsub_def)
    obtain t where t: "dss_to_alloc cfg b (bytes_used b + n) = Some t" "heap_limit cfg < t"
      using full False by (auto simp: opal_dss_buffer_extend_def Let_def Option.bind_eq_Some_conv split: if_splits ptr.splits)
    show ?thesis using dss_to_alloc_bound [OF assms(1) t(1) small] t(2) full by auto
  qed
next
  case (room b')
  then show ?thesis by simp
qed

text \<open>With an initial size of zero the doubling never ends.\<close>

lemma double_until_zero:
  assumes "0 < r"
  shows "double_until r 0 = None"
proof -
  have "double_until r a = Some t \<Longrightarrow> a = 0 \<longrightarrow> r = 0" for a t
    by (erule double_until.raw_induct [rotated, where P = "\<lambda>r a t. a = 0 \<longrightarrow> r = 0"]) (auto split: if_splits)
  then show ?thesis using assms by (cases "double_until r 0") auto
qed

section \<open>Instances\<close>

definition sample_long :: "unit dss_cfg" where
  "sample_long = sample_cfg\<lparr>SIZEOF_INT := 8\<rparr>"

definition sample_fresh :: opal_buffer where
  "sample_fresh = opal_buffer_construct sample_cfg"

lemma sample_fresh_ok: "buf_ok sample_fresh" "unread sample_fresh = []" "buf_type sample_fresh = DSS_BUFFER_FULLY_DESC" "cfg_ok sample_cfg"
  by (simp_all add: sample_fresh_def buf_ok_def unread_def opal_buffer_construct_def cells_def sample_cfg_def cfg_ok_def)

lemma packed_result: "map_option fst r = Some OPAL_SUCCESS \<Longrightarrow> \<exists>b. r = Some (OPAL_SUCCESS, b)"
  by auto

theorem dss_int_between_machines_witness:
  "\<exists>b b'. opal_dss_pack sample_cfg (A32 [-5, 7]) 2 OPAL_INT sample_fresh = Some (OPAL_SUCCESS, b) \<and>
     opal_dss_unpack sample_long 2 OPAL_INT b = Some ((OPAL_SUCCESS, 2, Some (A64 [-5, 7])), b')"
proof -
  have a: "ints_array (SIZEOF_INT sample_cfg) [-5, 7] = (A32 [-5, 7] :: unit dss_array)"
    "ints_array (SIZEOF_INT sample_long) [-5, 7] = (A64 [-5, 7] :: unit dss_array)" "length [-5, 7 :: int] = 2"
    by (simp_all add: ints_array_def sample_cfg_def sample_long_def)
  have "map_option fst (opal_dss_pack sample_cfg (A32 [-5, 7]) 2 OPAL_INT sample_fresh) = Some OPAL_SUCCESS" by code_simp
  then obtain b where b: "opal_dss_pack sample_cfg (A32 [-5, 7]) 2 OPAL_INT sample_fresh = Some (OPAL_SUCCESS, b)" using packed_result by blast
  have "SIZEOF_INT sample_cfg \<in> {1, 2, 4, 8}" "SIZEOF_INT sample_long \<in> {1, 2, 4, 8}"
    "\<forall>x \<in> set [-5, 7]. fits_signed (SIZEOF_INT sample_cfg) x \<and> fits_signed (SIZEOF_INT sample_long) x" "[-5, 7 :: int] \<noteq> []" "2 < (2 :: nat) ^ 31"
    "8 * 2 \<le> heap_limit sample_long" by (simp_all add: sample_cfg_def sample_long_def fits_signed_def)
  from dss_int_between_machines [of sample_cfg sample_long "[-5, 7]" sample_fresh b, unfolded a, OF sample_fresh_ok(4) this sample_fresh_ok(1,2) b]
  show ?thesis using b by auto
qed

definition sample_junk :: opal_buffer where
  "sample_junk = the (opal_dss_load (Ptr [9, 255, 255, 255, 255, 3, 127, 0, 0, 0]) 10 sample_fresh)"


theorem dss_type_mismatch_witness:
  "\<exists>b b'. opal_dss_pack sample_cfg (A32 [1]) 1 OPAL_INT32 sample_fresh = Some (OPAL_SUCCESS, b) \<and>
     opal_dss_unpack sample_cfg 1 OPAL_STRING b = Some ((OPAL_ERR_PACK_MISMATCH, 0, None), b')"
proof -
  have "map_option fst (opal_dss_pack sample_cfg (A32 [1]) 1 OPAL_INT32 sample_fresh) = Some OPAL_SUCCESS" by code_simp
  then obtain b where b: "opal_dss_pack sample_cfg (A32 [1]) 1 OPAL_INT32 sample_fresh = Some (OPAL_SUCCESS, b)" using packed_result by blast
  have "wt2 sample_cfg sample_cfg OPAL_INT32 (A32 [1])" by (simp add: wt2_def wt1_def wt0_def local_type_def dss_type)
  then show ?thesis using dss_type_mismatch [of sample_cfg sample_cfg OPAL_INT32 "A32 [1]" sample_fresh b OPAL_STRING 1] sample_fresh_ok b
    by (simp add: dss_type)
qed

theorem dss_array_value_lost_witness:
  "\<exists>b. opal_dss_pack sample_cfg (AVal [(Ptr [107, 0], 40, A32 [1, 2])]) 1 OPAL_VALUE sample_fresh = Some (OPAL_SUCCESS, b) \<and>
     opal_dss_unpack sample_cfg 1 OPAL_VALUE b = None"
proof -
  have "map_option fst (opal_dss_pack sample_cfg (AVal [(Ptr [107, 0], 40, A32 [1, 2])]) 1 OPAL_VALUE sample_fresh) = Some OPAL_SUCCESS" by code_simp
  then obtain b where b: "opal_dss_pack sample_cfg (AVal [(Ptr [107, 0], 40, A32 [1, 2])]) 1 OPAL_VALUE sample_fresh = Some (OPAL_SUCCESS, b)"
    using packed_result by blast
  have "wt1 sample_cfg sample_cfg OPAL_INT32 (A32 [1, 2])" by (simp add: wt1_def wt0_def local_type_def dss_type)
  moreover have "str_ok sample_cfg (Ptr [107, 0])" by (simp add: str_ok_def sample_cfg_def)
  moreover have "value_arrays 40 = Some OPAL_INT32" by (simp add: value_arrays_def)
  ultimately show ?thesis using dss_array_value_lost [of sample_cfg sample_cfg "Ptr [107, 0]" 40 OPAL_INT32 "A32 [1, 2]" sample_fresh b 1] sample_fresh_ok b
    by simp
qed

theorem dss_buffer_extend_room_witness:
  "\<exists>dst b'. opal_dss_buffer_extend sample_cfg 300 sample_fresh = Some (dst, b') \<and> dst = Ptr (pack_ptr b') \<and> bytes_used b' + 300 \<le> bytes_allocated b'"
proof -
  have fits: "\<not> heap_limit sample_cfg < 2 * (bytes_used sample_fresh + 300) + opal_dss_initial_size sample_cfg + opal_dss_threshold_size sample_cfg"
    by (simp add: sample_fresh_def opal_buffer_construct_def sample_cfg_def)
  obtain dst b' where r: "opal_dss_buffer_extend sample_cfg 300 sample_fresh = Some (dst, b')" "case dst of
       Ptr p \<Rightarrow> p = pack_ptr b' \<and> buf_ok b' \<and> unread b' = unread sample_fresh \<and> bytes_used b' + 300 \<le> bytes_allocated b'
     | Null \<Rightarrow> 300 = (0 :: nat) \<and> base_ptr sample_fresh = Null \<or>
         heap_limit sample_cfg < 2 * (bytes_used sample_fresh + 300) + opal_dss_initial_size sample_cfg + opal_dss_threshold_size sample_cfg"
    using dss_buffer_extend_room [OF sample_fresh_ok(4,1), of 300] by blast
  then show ?thesis using fits by (cases dst) simp_all
qed

end
