(* ===== verification/Qsort_Swap.thy ===== *)
theory Qsort_Swap
  imports Byte_Memory "HOL-Library.Multiset"
begin

text \<open>
  The exchange of memory blocks in \<^verbatim>\<open>opal/util/qsort.c\<close>: by machine words when the address of the
  array and the size of its elements allow it, by bytes otherwise. The array is a block of bytes at the
  address \<open>addr\<close>; pointers into it are offsets. What an exchange does to the list of elements
  (\<open>elems\<close>) does not depend on the kind of exchange.
\<close>

section \<open>The macros\<close>

text \<open>The loop of \<open>swapcode\<close>, with its count: the body runs before the first test.\<close>

primrec swap_units :: "nat \<Rightarrow> nat \<Rightarrow> nat \<Rightarrow> nat \<Rightarrow> byte list \<Rightarrow> byte list option" where
  "swap_units w 0 pi pj mem = Some mem"
| "swap_units w (Suc i) pi pj mem = do {
     t \<leftarrow> mem_get mem pi w;
     u \<leftarrow> mem_get mem pj w;
     mem \<leftarrow> mem_put mem pi u;
     mem \<leftarrow> mem_put mem pj t;
     swap_units w i (pi + w) (pj + w) mem }"

definition swapcode :: "nat \<Rightarrow> nat \<Rightarrow> nat \<Rightarrow> nat \<Rightarrow> byte list \<Rightarrow> byte list option" where
  "swapcode w parmi parmj n mem = swap_units w (max 1 (n div w)) parmi parmj mem"

definition SWAPINIT :: "nat \<Rightarrow> nat \<Rightarrow> nat" where
  "SWAPINIT addr es = (if addr mod 8 \<noteq> 0 \<or> es mod 8 \<noteq> 0 then 2 else if es = 8 then 0 else 1)"

definition swapfunc :: "nat \<Rightarrow> nat \<Rightarrow> nat \<Rightarrow> nat \<Rightarrow> byte list \<Rightarrow> byte list option" where
  "swapfunc a b n swaptype mem = (if swaptype \<le> 1 then swapcode 8 a b n mem else swapcode 1 a b n mem)"

text \<open>\<open>swap\<close> at the elements \<open>i\<close> and \<open>j\<close>; \<open>vecswap\<close> at two byte offsets.\<close>

definition swap_at :: "nat \<Rightarrow> nat \<Rightarrow> nat \<Rightarrow> nat \<Rightarrow> byte list \<Rightarrow> byte list option" where
  "swap_at swaptype es i j mem =
     (if swaptype = 0 then do {
        t \<leftarrow> mem_get mem (i * es) 8;
        u \<leftarrow> mem_get mem (j * es) 8;
        mem \<leftarrow> mem_put mem (i * es) u;
        mem_put mem (j * es) t }
      else swapfunc (i * es) (j * es) es swaptype mem)"

definition vecswap :: "nat \<Rightarrow> nat \<Rightarrow> nat \<Rightarrow> int \<Rightarrow> byte list \<Rightarrow> byte list option" where
  "vecswap swaptype a b n mem = (if n > 0 then swapfunc a b (nat n) swaptype mem else Some mem)"

section \<open>Exchanging blocks\<close>

definition exchanged :: "nat \<Rightarrow> nat \<Rightarrow> nat \<Rightarrow> 'a list \<Rightarrow> 'a list" where
  "exchanged p q n xs = map (\<lambda>i. if p \<le> i \<and> i < p + n then xs ! (q + (i - p)) else if q \<le> i \<and> i < q + n then xs ! (p + (i - q)) else xs ! i)
     [0..<length xs]"

lemma length_exchanged [simp]: "length (exchanged p q n xs) = length xs"
  by (simp add: exchanged_def)

lemma nth_exchanged: "i < length xs \<Longrightarrow> exchanged p q n xs ! i =
    (if p \<le> i \<and> i < p + n then xs ! (q + (i - p)) else if q \<le> i \<and> i < q + n then xs ! (p + (i - q)) else xs ! i)"
  by (simp add: exchanged_def)

text \<open>Blocks that may be exchanged: the same or apart.\<close>

definition apart :: "nat \<Rightarrow> nat \<Rightarrow> nat \<Rightarrow> bool" where
  "apart p q n \<longleftrightarrow> p = q \<or> p + n \<le> q \<or> q + n \<le> p"

lemma exchanged_0 [simp]: "exchanged p q 0 xs = xs"
  by (rule nth_equalityI) (auto simp: nth_exchanged)

lemma exchanged_self [simp]: "exchanged p p n xs = xs"
  by (rule nth_equalityI) (auto simp: nth_exchanged)

lemma exchanged_sym: "apart p q n \<Longrightarrow> exchanged p q n xs = exchanged q p n xs"
  by (rule nth_equalityI) (auto simp: nth_exchanged apart_def)

lemma nth_block: "j < length X \<Longrightarrow> (A @ X @ Z) ! (length A + j) = X ! j"
  by (simp add: nth_append)

lemma nth_exchanged_left: "j < n \<Longrightarrow> p + j < length xs \<Longrightarrow> exchanged p q n xs ! (p + j) = xs ! (q + j)"
  by (simp add: nth_exchanged)

lemma nth_exchanged_right: "j < n \<Longrightarrow> p + n \<le> q \<Longrightarrow> q + j < length xs \<Longrightarrow> exchanged p q n xs ! (q + j) = xs ! (p + j)"
  by (simp add: nth_exchanged)

lemma nth_exchanged_outside:
  "i < length xs \<Longrightarrow> i < p \<or> p + n \<le> i \<Longrightarrow> i < q \<or> q + n \<le> i \<Longrightarrow> exchanged p q n xs ! i = xs ! i"
  by (auto simp: nth_exchanged)

text \<open>The places of a list, seen from two blocks of \<open>n\<close> cells.\<close>

lemma two_block_cases:
  assumes "p + n \<le> (q :: nat)"
  obtains (left) j where "i = p + j" "j < n" | (right) j where "i = q + j" "j < n"
    | (outside) "i < p \<or> p + n \<le> i" "i < q \<or> q + n \<le> i"
proof -
  consider "p \<le> i" "i < p + n" | "q \<le> i" "i < q + n" | "i < p \<or> p + n \<le> i" "i < q \<or> q + n \<le> i" by linarith
  then show thesis
  proof cases
    case 1
    then show ?thesis using left [of "i - p"] by simp
  next
    case 2
    then show ?thesis using right [of "i - q"] by simp
  qed (rule outside)
qed

lemma exchanged_blocks:
  assumes X: "length X = w" and Y: "length Y = w"
  shows "exchanged (length A) (length A + w + length B) w (A @ X @ B @ Y @ C) = A @ Y @ B @ X @ C" (is "exchanged ?p ?q w ?m = ?m'")
proof (rule nth_equalityI)
  fix i assume "i < length (exchanged ?p ?q w ?m)"
  then have i: "i < length ?m" by simp
  have q: "?m ! (?q + j) = Y ! j" "?m' ! (?q + j) = X ! j" if "j < w" for j
    using that X Y nth_block [of j Y "A @ X @ B" C] nth_block [of j X "A @ Y @ B" C] by (simp_all add: add.assoc)
  have le: "?p + w \<le> ?q" by simp
  from le show "exchanged ?p ?q w ?m ! i = ?m' ! i"
  proof (cases rule: two_block_cases [where i = i])
    case (left j)
    then show ?thesis using i X Y q(1) nth_block [of j Y A "B @ X @ C"] by (simp add: nth_exchanged_left)
  next
    case (right j)
    then show ?thesis using i X q(2) nth_block [of j X A "B @ Y @ C"] le by (simp add: nth_exchanged_right)
  next
    case outside
    then have "exchanged ?p ?q w ?m ! i = ?m ! i" using i by (intro nth_exchanged_outside)
    also have "\<dots> = ?m' ! i"
    proof -
      consider "i < ?p" | k where "i = ?p + w + k" "k < length B" | k where "i = ?q + w + k"
        using outside that(2) [of "i - (?p + w)"] that(3) [of "i - (?q + w)"] by force
      then show ?thesis
      proof cases
        case (2 k)
        then show ?thesis using X Y nth_block [of k B "A @ X" "Y @ C"] nth_block [of k B "A @ Y" "X @ C"] by (simp add: add.assoc)
      next
        case (3 k)
        then show ?thesis
          using X Y nth_append_length_plus [of "A @ X @ B @ Y" C k] nth_append_length_plus [of "A @ Y @ B @ X" C k] by (simp add: ac_simps)
      qed (simp add: nth_append)
    qed
    finally show ?thesis .
  qed
qed (use X Y in simp)

lemma two_blocks:
  assumes "p + w \<le> q" and "q + w \<le> length mem"
  obtains A X B Y C where "mem = A @ X @ B @ Y @ C" "length A = p" "length X = w" "length Y = w" "q = p + w + length B"
proof
  let ?B = "take (q - (p + w)) (drop (p + w) mem)"
  show "mem = take p mem @ take w (drop p mem) @ ?B @ take w (drop q mem) @ drop (q + w) mem"
    using assms by (metis add.commute append_take_drop_id drop_drop le_add_diff_inverse2)
qed (use assms in simp_all)

lemma exchange_unit:
  assumes "p + w \<le> length mem" and "q + w \<le> length mem" and "apart p q w"
  shows "(do { t \<leftarrow> mem_get mem p w; u \<leftarrow> mem_get mem q w; m \<leftarrow> mem_put mem p u; mem_put m q t }) = Some (exchanged p q w mem)"
proof -
  consider "p = q" | "p + w \<le> q" | "q + w \<le> p" using assms(3) by (auto simp: apart_def)
  then show ?thesis
  proof cases
    case 1
    have "take q mem @ take w (drop q mem) @ drop (q + w) mem = mem" by (metis add.commute append_take_drop_id drop_drop)
    then show ?thesis using 1 assms by (simp add: mem_get_def mem_put_def)
  next
    case 2
    obtain A X B Y C where m: "mem = A @ X @ B @ Y @ C" "length A = p" "length X = w" "length Y = w" "q = p + w + length B"
      by (rule two_blocks [OF 2 assms(2)])
    then show ?thesis using exchanged_blocks [of X w Y A B C] by (simp add: mem_get_def mem_put_def)
  next
    case 3
    obtain A X B Y C where m: "mem = A @ X @ B @ Y @ C" "length A = q" "length X = w" "length Y = w" "p = q + w + length B"
      by (rule two_blocks [OF 3 assms(1)])
    then show ?thesis using exchanged_blocks [of X w Y A B C] exchanged_sym [OF assms(3), of mem] by (simp add: mem_get_def mem_put_def)
  qed
qed

lemma exchanged_step_less:
  assumes "p + (w + n) \<le> q" and "q + (w + n) \<le> length mem"
  shows "exchanged (p + w) (q + w) n (exchanged p q w mem) = exchanged p q (w + n) mem"
proof (rule nth_equalityI)
  fix i assume "i < length (exchanged (p + w) (q + w) n (exchanged p q w mem))"
  then have i: "i < length mem" by simp
  have inner: "p + w \<le> q" "p + w + n \<le> q + w" using assms(1) by simp_all
  have far: "exchanged p q w mem ! (q + w + j) = mem ! (q + w + j)" "exchanged p q w mem ! (p + w + j) = mem ! (p + w + j)" if "j < n" for j
    using that assms by (auto intro!: nth_exchanged_outside)
  from assms(1) show "exchanged (p + w) (q + w) n (exchanged p q w mem) ! i = exchanged p q (w + n) mem ! i"
  proof (cases rule: two_block_cases [where i = i])
    case (left j)
    show ?thesis
    proof (cases "j < w")
      case True
      then show ?thesis using left i assms by (simp add: nth_exchanged_left nth_exchanged_outside)
    next
      case False
      then obtain k where k: "j = w + k" using le_Suc_ex not_less by blast
      then show ?thesis using left i far(1) [of k] nth_exchanged_left [of k n "p + w" "exchanged p q w mem" "q + w"] nth_exchanged_left [of j "w + n" p mem q]
        by (simp add: add.assoc)
    qed
  next
    case (right j)
    show ?thesis
    proof (cases "j < w")
      case True
      then show ?thesis using right i assms inner by (simp add: nth_exchanged_right nth_exchanged_outside)
    next
      case False
      then obtain k where k: "j = w + k" using le_Suc_ex not_less by blast
      then show ?thesis using right i inner(2) assms far(2) [of k] nth_exchanged_right [of k n "p + w" "q + w" "exchanged p q w mem"] nth_exchanged_right [of j "w + n" p q mem]
        by (simp add: add.assoc)
    qed
  next
    case outside
    then have "i < p + w \<or> p + w + n \<le> i" "i < q + w \<or> q + w + n \<le> i" "i < p \<or> p + w \<le> i" "i < q \<or> q + w \<le> i" by linarith+
    then show ?thesis using i outside by (simp add: nth_exchanged_outside)
  qed
qed simp

lemma exchanged_step:
  assumes "p + (w + n) \<le> length mem" and "q + (w + n) \<le> length mem" and "apart p q (w + n)"
  shows "exchanged (p + w) (q + w) n (exchanged p q w mem) = exchanged p q (w + n) mem"
proof -
  consider "p = q" | "p + (w + n) \<le> q" | "q + (w + n) \<le> p" using assms(3) by (auto simp: apart_def)
  then show ?thesis
  proof cases
    case 2
    then show ?thesis using assms(2) by (rule exchanged_step_less)
  next
    case 3
    then have "apart (p + w) (q + w) n" "apart p q w" "apart p q (w + n)" by (auto simp: apart_def)
    then show ?thesis using exchanged_step_less [OF 3 assms(1)] by (simp add: exchanged_sym [of p] exchanged_sym [of "p + w"])
  qed simp
qed

lemma swap_units_ok:
  assumes "p + k * w \<le> length mem" and "q + k * w \<le> length mem" and "apart p q (k * w)"
  shows "swap_units w k p q mem = Some (exchanged p q (k * w) mem)"
  using assms
proof (induction k arbitrary: p q mem)
  case (Suc k)
  have u: "p + w \<le> length mem" "q + w \<le> length mem" "apart p q w" using Suc.prems unfolding apart_def by auto
  have "swap_units w (Suc k) p q mem = swap_units w k (p + w) (q + w) (exchanged p q w mem)"
    using exchange_unit [OF u] by (auto simp: Option.bind_eq_Some_conv)
  also have "\<dots> = Some (exchanged (p + w) (q + w) (k * w) (exchanged p q w mem))"
    using Suc.prems unfolding apart_def by (intro Suc.IH) (auto simp: apart_def)
  finally show ?case using exchanged_step [of p w "k * w" mem q] Suc.prems by simp
qed simp

text \<open>Words are used only where they fit.\<close>

definition swaptype_ok :: "nat \<Rightarrow> nat \<Rightarrow> bool" where
  "swaptype_ok swaptype es \<longleftrightarrow> 0 < es \<and> (swaptype \<le> 1 \<longrightarrow> 8 dvd es) \<and> (swaptype = 0 \<longrightarrow> es = 8)"

lemma SWAPINIT_ok: "0 < es \<Longrightarrow> swaptype_ok (SWAPINIT addr es) es"
  by (auto simp: swaptype_ok_def SWAPINIT_def)

lemma swapfunc_ok:
  assumes "swaptype_ok st es" and "0 < n" and "es dvd n" and "p + n \<le> length mem" and "q + n \<le> length mem" and "apart p q n"
  shows "swapfunc p q n st mem = Some (exchanged p q n mem)"
proof (cases "st \<le> 1")
  case True
  then have "8 dvd n" using assms(1,3) dvd_trans unfolding swaptype_ok_def by blast
  then obtain m where m: "n = m * 8" by (auto elim!: dvdE)
  then have "max 1 (n div 8) = m" using assms(2) by simp
  then show ?thesis using True m assms(4-) swap_units_ok [of p m 8 mem q] by (simp add: swapfunc_def swapcode_def)
next
  case False
  have "max 1 n = n" using assms(2) by simp
  then show ?thesis using False assms(4-) swap_units_ok [of p n 1 mem q] by (simp add: swapfunc_def swapcode_def)
qed

section \<open>The elements\<close>

definition elems :: "nat \<Rightarrow> byte list \<Rightarrow> byte list list" where
  "elems es mem = map (\<lambda>i. take es (drop (i * es) mem)) [0..<length mem div es]"

lemma length_elems [simp]: "length (elems es mem) = length mem div es"
  by (simp add: elems_def)

lemma nth_elems: "i < length mem div es \<Longrightarrow> elems es mem ! i = take es (drop (i * es) mem)"
  by (simp add: elems_def)

lemma elem_end: "i < length mem div es \<Longrightarrow> i * es + es \<le> length (mem :: 'b list)"
  by (metis Suc_leI add.commute div_times_less_eq_dividend le_trans mult_Suc mult_le_mono1)

lemma block_end: "i + r \<le> length mem div es \<Longrightarrow> i * es + r * es \<le> length (mem :: 'b list)"
  by (metis add_mult_distrib div_times_less_eq_dividend le_trans mult_le_mono1)

lemma index_block: "b < (es :: nat) \<Longrightarrow> (i * es \<le> k * es + b \<longleftrightarrow> i \<le> k) \<and> (k * es + b < i * es + r * es \<longleftrightarrow> k < i + r)"
proof -
  assume b: "b < es"
  have 1: "i * es \<le> k * es + b \<longleftrightarrow> i \<le> k" for i
  proof
    assume "i * es \<le> k * es + b"
    then have "i * es < Suc k * es" using b by simp
    then show "i \<le> k" unfolding mult_less_cancel2 by simp
  qed (simp add: trans_le_add1)
  have "k * es + b < i * es + r * es \<longleftrightarrow> \<not> (i + r) * es \<le> k * es + b" by (simp add: add_mult_distrib not_le)
  then show ?thesis using 1 [of i] 1 [of "i + r"] by auto
qed

lemma nth_nth_elems:
  "k < length mem div es \<Longrightarrow> b < es \<Longrightarrow> elems es mem ! k ! b = mem ! (k * es + b)"
  using elem_end [of k mem es] by (simp add: nth_elems)

lemma length_nth_elems [simp]: "k < length mem div es \<Longrightarrow> length (elems es mem ! k) = es"
  using elem_end [of k mem es] by (simp add: nth_elems)

lemma elems_eqI:
  assumes "length m' = length mem" and "length xs = length mem div es" and "\<And>k. k < length xs \<Longrightarrow> length (xs ! k) = es"
    and "\<And>k b. k < length mem div es \<Longrightarrow> b < es \<Longrightarrow> m' ! (k * es + b) = xs ! k ! b"
  shows "elems es m' = xs"
  by (intro nth_equalityI) (use assms in \<open>simp_all add: nth_nth_elems\<close>)

lemma elems_exchanged_less:
  assumes "i + r \<le> j" and "j + r \<le> length mem div es"
  shows "elems es (exchanged (i * es) (j * es) (r * es) mem) = exchanged i j r (elems es mem)"
proof (rule elems_eqI)
  fix k b assume k: "k < length mem div es" and b: "b < es"
  have in': "k * es + b < length mem" using elem_end [OF k] b by linarith
  have le: "i * es + r * es \<le> j * es" using mult_le_mono1 [OF assms(1), of es] by (simp add: add_mult_distrib)
  have r: "h * es + b < r * es" if "h < r" for h using index_block [OF b, of 0 h r] that by simp
  from assms(1) show "exchanged (i * es) (j * es) (r * es) mem ! (k * es + b) = exchanged i j r (elems es mem) ! k ! b"
  proof (cases rule: two_block_cases [where i = k])
    case (left h)
    then show ?thesis using r [of h] in' k b assms nth_exchanged_left [of "h * es + b" "r * es" "i * es" mem "j * es"] nth_nth_elems [of "j + h" mem es b]
      by (simp add: nth_exchanged_left add_mult_distrib add.assoc)
  next
    case (right h)
    then show ?thesis using r [of h] in' le k b assms nth_exchanged_right [of "h * es + b" "r * es" "i * es" "j * es" mem] nth_nth_elems [of "i + h" mem es b]
      by (simp add: nth_exchanged_right add_mult_distrib add.assoc)
  next
    case outside
    have "exchanged (i * es) (j * es) (r * es) mem ! (k * es + b) = mem ! (k * es + b)"
      by (rule nth_exchanged_outside [OF in'])
        (use outside index_block [OF b, of i k r] index_block [OF b, of j k r] in linarith)+
    then show ?thesis using outside k b by (simp add: nth_exchanged_outside nth_nth_elems)
  qed
next
  fix k assume "k < length (exchanged i j r (elems es mem))"
  then have k: "k < length mem div es" by simp
  from assms(1) show "length (exchanged i j r (elems es mem) ! k) = es"
    by (cases rule: two_block_cases [where i = k])
      (use k assms in \<open>simp_all add: nth_exchanged_left nth_exchanged_right nth_exchanged_outside\<close>)
qed simp_all

lemma apart_elems: "apart i j r \<Longrightarrow> apart (i * es) (j * es) (r * es)"
  unfolding apart_def by (metis add_mult_distrib mult_le_mono1)

lemma elems_exchanged:
  assumes "apart i j r" and "i + r \<le> length mem div es" and "j + r \<le> length mem div es"
  shows "elems es (exchanged (i * es) (j * es) (r * es) mem) = exchanged i j r (elems es mem)"
proof -
  consider "i = j" | "i + r \<le> j" | "j + r \<le> i" using assms(1) by (auto simp: apart_def)
  then show ?thesis
  proof cases
    case 3
    then show ?thesis using elems_exchanged_less [OF 3 assms(2)] exchanged_sym [OF assms(1), of "elems es mem"] exchanged_sym [OF apart_elems [OF assms(1)], of es mem] by (simp only:)
  qed (use elems_exchanged_less [OF _ assms(3)] in simp_all)
qed

text \<open>What the two macros do to the elements.\<close>

lemma swap_at_elems:
  assumes "swaptype_ok st es" and "i < length mem div es" and "j < length mem div es"
  shows "\<exists>mem'. swap_at st es i j mem = Some mem' \<and> length mem' = length mem \<and> elems es mem' = exchanged i j 1 (elems es mem)"
proof -
  have es: "0 < es" using assms(1) by (simp add: swaptype_ok_def)
  have p: "i * es + es \<le> length mem" "j * es + es \<le> length mem" using assms(2,3) elem_end by blast+
  have ij: "apart i j 1" by (auto simp: apart_def)
  have ap: "apart (i * es) (j * es) es" using apart_elems [OF ij, of es] by simp
  have "swap_at st es i j mem = Some (exchanged (i * es) (j * es) es mem)"
  proof (cases "st = 0")
    case True
    then have "es = 8" using assms(1) by (simp add: swaptype_ok_def)
    then show ?thesis using True exchange_unit [OF p ap] by (simp add: swap_at_def)
  next
    case False
    then show ?thesis using swapfunc_ok [OF assms(1) es dvd_refl p ap] by (simp add: swap_at_def)
  qed
  moreover have "elems es (exchanged (i * es) (j * es) (1 * es) mem) = exchanged i j 1 (elems es mem)"
    by (rule elems_exchanged [OF ij]) (use assms(2,3) in simp_all)
  ultimately show ?thesis by simp
qed

lemma vecswap_elems:
  assumes "swaptype_ok st es" and "apart i j r" and "i + r \<le> length mem div es" and "j + r \<le> length mem div es"
  shows "\<exists>mem'. vecswap st (i * es) (j * es) (int (r * es)) mem = Some mem' \<and> length mem' = length mem \<and> elems es mem' = exchanged i j r (elems es mem)"
proof (cases "r = 0")
  case False
  then have n: "0 < r * es" using assms(1) by (simp add: swaptype_ok_def)
  have p: "i * es + r * es \<le> length mem" "j * es + r * es \<le> length mem" using assms(3,4) block_end by blast+
  have "swapfunc (i * es) (j * es) (r * es) st mem = Some (exchanged (i * es) (j * es) (r * es) mem)"
    by (rule swapfunc_ok [OF assms(1) n dvd_triv_right p apart_elems [OF assms(2)]])
  then have "vecswap st (i * es) (j * es) (int (r * es)) mem = Some (exchanged (i * es) (j * es) (r * es) mem)"
    using n unfolding vecswap_def nat_int by (simp only: of_nat_0_less_iff if_True)
  then show ?thesis using elems_exchanged [OF assms(2,3,4)] by simp
qed (simp add: vecswap_def)

end
