(* ===== verification/Qsort.thy ===== *)
theory Qsort
  imports Qsort_Swap
begin

text \<open>
  The sort of \<^verbatim>\<open>opal/util/qsort.c\<close>, which replaces the C library's \<^verbatim>\<open>qsort\<close> on the platforms where
  that one is broken (\<^verbatim>\<open>opal/include/opal_config_bottom.h\<close>). The array is a block of bytes at the address
  \<open>addr\<close>, its elements have \<open>es\<close> bytes; a pointer into it is the number of the element it
  points to, and \<open>a\<close> is the first of the \<open>n\<close> elements to sort. The comparison is an argument.
  The byte distances \<open>d\<close> and \<open>r\<close>, which the code keeps in an \<^verbatim>\<open>int\<close>, go through \<open>cint\<close>: the
  model says nothing on parts of the array that are larger.
\<close>

type_synonym cmp_t = "byte list \<Rightarrow> byte list \<Rightarrow> int"

section \<open>The code\<close>

definition CMP :: "cmp_t \<Rightarrow> nat \<Rightarrow> byte list \<Rightarrow> nat \<Rightarrow> nat \<Rightarrow> int option" where
  "CMP cmp es mem x y = do {
     u \<leftarrow> mem_get mem (x * es) es;
     v \<leftarrow> mem_get mem (y * es) es;
     Some (cmp u v) }"

definition med3 :: "cmp_t \<Rightarrow> nat \<Rightarrow> byte list \<Rightarrow> nat \<Rightarrow> nat \<Rightarrow> nat \<Rightarrow> nat option" where
  "med3 cmp es mem a b c = do {
     ab \<leftarrow> CMP cmp es mem a b;
     bc \<leftarrow> CMP cmp es mem b c;
     if ab < 0 then
       (if bc < 0 then Some b else do { ac \<leftarrow> CMP cmp es mem a c; Some (if ac < 0 then c else a) })
     else
       (if bc > 0 then Some b else do { ac \<leftarrow> CMP cmp es mem a c; Some (if ac < 0 then a else c) }) }"

text \<open>The two nested loops of the insertion sort.\<close>

function insert_down :: "cmp_t \<Rightarrow> nat \<Rightarrow> nat \<Rightarrow> nat \<Rightarrow> nat \<Rightarrow> byte list \<Rightarrow> byte list option" where
  "insert_down cmp swaptype es a pl mem =
     (if pl > a then do {
        c \<leftarrow> CMP cmp es mem (pl - 1) pl;
        if c > 0 then do {
          mem \<leftarrow> swap_at swaptype es pl (pl - 1) mem;
          insert_down cmp swaptype es a (pl - 1) mem }
        else Some mem }
      else Some mem)"
  by pat_completeness auto
termination
  by (relation "measure (\<lambda>(cmp, st, es, a, pl, mem). pl)") auto

function insert_up :: "cmp_t \<Rightarrow> nat \<Rightarrow> nat \<Rightarrow> nat \<Rightarrow> nat \<Rightarrow> nat \<Rightarrow> byte list \<Rightarrow> byte list option" where
  "insert_up cmp swaptype es a n pm mem =
     (if pm < a + n then do {
        mem \<leftarrow> insert_down cmp swaptype es a pm mem;
        insert_up cmp swaptype es a n (pm + 1) mem }
      else Some mem)"
  by pat_completeness auto
termination
  by (relation "measure (\<lambda>(cmp, st, es, a, n, pm, mem). a + n - pm)") auto

definition insertion_sort :: "cmp_t \<Rightarrow> nat \<Rightarrow> nat \<Rightarrow> nat \<Rightarrow> nat \<Rightarrow> byte list \<Rightarrow> byte list option" where
  "insertion_sort cmp swaptype es a n mem = insert_up cmp swaptype es a n (a + 1) mem"

text \<open>The choice of the element to partition by.\<close>

definition choose_pm :: "cmp_t \<Rightarrow> nat \<Rightarrow> nat \<Rightarrow> nat \<Rightarrow> byte list \<Rightarrow> nat option" where
  "choose_pm cmp es a n mem =
     (let pm = a + n div 2 in
      if n > 7 then do {
        let pl = a; let pn = a + (n - 1);
        (pl, pm, pn) \<leftarrow>
          (if n > 40 then do {
             d \<leftarrow> cint (int ((n div 8) * es));
             d2 \<leftarrow> cint (2 * d);
             let d = nat d div es; let d2 = nat d2 div es;
             pl \<leftarrow> med3 cmp es mem pl (pl + d) (pl + d2);
             pm \<leftarrow> med3 cmp es mem (pm - d) pm (pm + d);
             pn \<leftarrow> med3 cmp es mem (pn - d2) (pn - d) pn;
             Some (pl, pm, pn) }
           else Some (pl, pm, pn));
        med3 cmp es mem pl pm pn }
      else Some pm)"

text \<open>
  The two inner loops of the partition and the loop around them. \<open>pb\<close> is above the first element, so
  \<open>pc\<close> is positive wherever the second loop runs.
\<close>

function scan_up :: "cmp_t \<Rightarrow> nat \<Rightarrow> nat \<Rightarrow> nat \<Rightarrow> nat \<Rightarrow> nat \<Rightarrow> nat \<Rightarrow> int \<Rightarrow> byte list \<Rightarrow> (nat \<times> nat \<times> int \<times> byte list) option" where
  "scan_up cmp swaptype es a pc pa pb swap_cnt mem =
     (if pb \<le> pc then do {
        r \<leftarrow> CMP cmp es mem pb a;
        if r \<le> 0 then
          (if r = 0 then do {
             mem \<leftarrow> swap_at swaptype es pa pb mem;
             scan_up cmp swaptype es a pc (pa + 1) (pb + 1) 1 mem }
           else scan_up cmp swaptype es a pc pa (pb + 1) swap_cnt mem)
        else Some (pa, pb, swap_cnt, mem) }
      else Some (pa, pb, swap_cnt, mem))"
  by pat_completeness auto
termination
  by (relation "measure (\<lambda>(cmp, st, es, a, pc, pa, pb, s, mem). Suc pc - pb)") auto

function scan_down :: "cmp_t \<Rightarrow> nat \<Rightarrow> nat \<Rightarrow> nat \<Rightarrow> nat \<Rightarrow> nat \<Rightarrow> nat \<Rightarrow> int \<Rightarrow> byte list \<Rightarrow> (nat \<times> nat \<times> int \<times> byte list) option" where
  "scan_down cmp swaptype es a pb pc pd swap_cnt mem =
     (if pb \<le> pc \<and> 0 < pc then do {
        r \<leftarrow> CMP cmp es mem pc a;
        if r \<ge> 0 then
          (if r = 0 then do {
             mem \<leftarrow> swap_at swaptype es pc pd mem;
             scan_down cmp swaptype es a pb (pc - 1) (pd - 1) 1 mem }
           else scan_down cmp swaptype es a pb (pc - 1) pd swap_cnt mem)
        else Some (pc, pd, swap_cnt, mem) }
      else Some (pc, pd, swap_cnt, mem))"
  by pat_completeness auto
termination
  by (relation "measure (\<lambda>(cmp, st, es, a, pb, pc, pd, s, mem). pc)") auto

partial_function (option) partition_loop ::
  "cmp_t \<Rightarrow> nat \<Rightarrow> nat \<Rightarrow> nat \<Rightarrow> nat \<Rightarrow> nat \<Rightarrow> nat \<Rightarrow> nat \<Rightarrow> int \<Rightarrow> byte list \<Rightarrow> (nat \<times> nat \<times> nat \<times> nat \<times> int \<times> byte list) option" where
  "partition_loop cmp swaptype es a pa pb pc pd swap_cnt mem = do {
     (pa, pb, swap_cnt, mem) \<leftarrow> scan_up cmp swaptype es a pc pa pb swap_cnt mem;
     (pc, pd, swap_cnt, mem) \<leftarrow> scan_down cmp swaptype es a pb pc pd swap_cnt mem;
     if pb > pc then Some (pa, pb, pc, pd, swap_cnt, mem)
     else do {
       mem \<leftarrow> swap_at swaptype es pb pc mem;
       partition_loop cmp swaptype es a pa (pb + 1) (pc - 1) pd 1 mem } }"

text \<open>\<open>opal_qsort\<close>: the jump back to \<open>loop\<close> is a call in tail position.\<close>

partial_function (option) opal_qsort :: "cmp_t \<Rightarrow> nat \<Rightarrow> nat \<Rightarrow> nat \<Rightarrow> nat \<Rightarrow> byte list \<Rightarrow> byte list option" where
  "opal_qsort cmp addr es a n mem =
     (let swaptype = SWAPINIT (addr + a * es) es in
      if n < 7 then insertion_sort cmp swaptype es a n mem
      else do {
        pm \<leftarrow> choose_pm cmp es a n mem;
        mem \<leftarrow> swap_at swaptype es a pm mem;
        (pa, pb, pc, pd, swap_cnt, mem) \<leftarrow>
          partition_loop cmp swaptype es a (a + 1) (a + 1) (a + (n - 1)) (a + (n - 1)) 0 mem;
        if swap_cnt = 0 then insertion_sort cmp swaptype es a n mem
        else do {
          let pn = a + n;
          r \<leftarrow> cint (min (int ((pa - a) * es)) (int ((pb - pa) * es)));
          mem \<leftarrow> vecswap swaptype (a * es) (pb * es - nat r) r mem;
          r \<leftarrow> cint (min (int ((pd - pc) * es)) (int ((pn - pd - 1) * es)));
          mem \<leftarrow> vecswap swaptype (pb * es) (pn * es - nat r) r mem;
          r \<leftarrow> cint (int ((pb - pa) * es));
          mem \<leftarrow> (if nat r > es then opal_qsort cmp addr es a (nat r div es) mem else Some mem);
          r \<leftarrow> cint (int ((pd - pc) * es));
          if nat r > es then opal_qsort cmp addr es (pn - nat r div es) (nat r div es) mem else Some mem } })"

declare insert_down.simps [simp del]
declare insert_up.simps [simp del]
declare scan_up.simps [simp del]
declare scan_down.simps [simp del]

end
