(* ===== verification/Qsort_Sorted.thy ===== *)
theory Qsort_Sorted
  imports Qsort
begin

text \<open>
  Total correctness of \<open>opal_qsort\<close>: for a comparison that orders the elements (\<open>c_order\<close>) it
  returns, the \<open>n\<close> elements are in order and a permutation of what they were, and the rest of the
  array is untouched.
\<close>

section \<open>Permutations inside a part of a list\<close>

definition perm_in :: "nat \<Rightarrow> nat \<Rightarrow> 'a list \<Rightarrow> 'a list \<Rightarrow> bool" where
  "perm_in a b xs ys \<longleftrightarrow> length ys = length xs \<and> mset ys = mset xs \<and> take a ys = take a xs \<and> drop b ys = drop b xs"

lemma perm_in_refl [simp]: "perm_in a b xs xs"
  by (simp add: perm_in_def)

lemma perm_in_trans [trans]: "perm_in a b xs ys \<Longrightarrow> perm_in a b ys zs \<Longrightarrow> perm_in a b xs zs"
  by (simp add: perm_in_def)

lemma perm_in_mono:
  assumes "perm_in a b xs ys" and "a' \<le> a" and "b \<le> b'"
  shows "perm_in a' b' xs ys"
proof -
  have "take a' ys = take a' xs" by (metis assms(1,2) min.absorb1 perm_in_def take_take)
  moreover have "drop b' ys = drop b' xs" by (metis assms(1,3) drop_drop le_add_diff_inverse2 perm_in_def)
  ultimately show ?thesis using assms(1) by (simp add: perm_in_def)
qed

lemma perm_in_outside: "perm_in a b xs ys \<Longrightarrow> i < a \<or> b \<le> i \<Longrightarrow> i < length xs \<Longrightarrow> ys ! i = xs ! i"
proof -
  assume p: "perm_in a b xs ys" and i: "i < a \<or> b \<le> i" "i < length xs"
  from i(1) show "ys ! i = xs ! i"
  proof
    assume "i < a"
    then have "ys ! i = take a ys ! i" "xs ! i = take a xs ! i" by simp_all
    then show ?thesis using p by (simp add: perm_in_def)
  next
    assume "b \<le> i"
    moreover have "length ys = length xs" using p by (simp add: perm_in_def)
    ultimately have "ys ! i = drop b ys ! (i - b)" "xs ! i = drop b xs ! (i - b)" using i(2) by simp_all
    then show ?thesis using p by (simp add: perm_in_def)
  qed
qed

text \<open>The part itself is permuted, so what holds of all its elements still does.\<close>

lemma perm_in_slice:
  assumes "perm_in a b xs ys" and "a \<le> b" and "b \<le> length xs"
  shows "mset (take (b - a) (drop a ys)) = mset (take (b - a) (drop a xs))"
proof -
  have split: "mset zs = mset (take a zs) + mset (take (b - a) (drop a zs)) + mset (drop b zs)" if "length zs = length xs" for zs :: "'a list"
  proof -
    have "zs = take a zs @ take (b - a) (drop a zs) @ drop b zs"
      using assms(2) by (metis append_take_drop_id drop_drop le_add_diff_inverse2)
    then show ?thesis by (metis add.assoc mset_append)
  qed
  show ?thesis using split [of xs] split [of ys] assms(1) by (simp add: perm_in_def)
qed

lemma perm_in_all:
  assumes "perm_in a b xs ys" and "b \<le> length xs" and "\<And>i. a \<le> i \<Longrightarrow> i < b \<Longrightarrow> P (xs ! i)" and "a \<le> i" and "i < b"
  shows "P (ys ! i)"
proof -
  have ab: "a \<le> b" using assms(4,5) by simp
  have len: "length ys = length xs" using assms(1) by (simp add: perm_in_def)
  have "set (take (b - a) (drop a ys)) = set (take (b - a) (drop a xs))" using perm_in_slice [OF assms(1) ab assms(2)] by (rule mset_eq_setD)
  moreover have "ys ! i \<in> set (take (b - a) (drop a ys))"
    unfolding in_set_conv_nth using assms(2,4,5) len by (intro exI [of _ "i - a"]) simp
  ultimately have "ys ! i \<in> set (take (b - a) (drop a xs))" by simp
  then obtain j where "j < b - a" "ys ! i = xs ! (a + j)" using assms(2) ab unfolding in_set_conv_nth by auto
  then show ?thesis using assms(3) [of "a + j"] by simp
qed

lemma exchanged_one: "i < length xs \<Longrightarrow> j < length xs \<Longrightarrow> exchanged i j 1 xs = xs[i := xs ! j, j := xs ! i]"
  by (rule nth_equalityI) (auto simp: nth_exchanged nth_list_update)

lemma mset_exchanged:
  assumes "apart i j r" and "i + r \<le> length xs" and "j + r \<le> length xs"
  shows "mset (exchanged i j r xs) = mset xs"
  using assms
proof (induction r arbitrary: i j xs)
  case (Suc r)
  have "exchanged i j (Suc r) xs = exchanged (i + 1) (j + 1) r (exchanged i j 1 xs)"
    using exchanged_step [of i 1 r xs j] Suc.prems by simp
  moreover have "apart (i + 1) (j + 1) r" using Suc.prems(1) by (auto simp: apart_def)
  ultimately have "mset (exchanged i j (Suc r) xs) = mset (exchanged i j 1 xs)" using Suc.IH [of "i + 1" "j + 1" "exchanged i j 1 xs"] Suc.prems by simp
  also have "\<dots> = mset xs" using Suc.prems exchanged_one [of i xs j] mset_swap [of j xs i] by simp
  finally show ?case .
qed simp

lemma perm_in_exchanged:
  assumes "apart i j r" and "a \<le> i" and "a \<le> j" and "i + r \<le> b" and "j + r \<le> b" and "b \<le> length xs"
  shows "perm_in a b xs (exchanged i j r xs)"
proof -
  have "take a (exchanged i j r xs) = take a xs" by (rule nth_equalityI) (use assms in \<open>simp_all add: nth_exchanged_outside\<close>)
  moreover have "drop b (exchanged i j r xs) = drop b xs" by (rule nth_equalityI) (use assms in \<open>simp_all add: nth_exchanged_outside\<close>)
  ultimately show ?thesis using mset_exchanged [OF assms(1), of xs] assms(4-6) by (simp add: perm_in_def)
qed

text \<open>
  The exchange after the partition: a part \<open>[s, m)\<close> with \<open>P\<close> and a part \<open>[m, t)\<close> with \<open>Q\<close> change
  places.
\<close>

lemma exchanged_parts:
  assumes "s \<le> m" and "m \<le> t" and "t \<le> length xs" and r: "r = min (m - s) (t - m)"
    and P: "\<And>i. s \<le> i \<Longrightarrow> i < m \<Longrightarrow> P (xs ! i)" and Q: "\<And>i. m \<le> i \<Longrightarrow> i < t \<Longrightarrow> Q (xs ! i)"
    and i: "s \<le> i" "i < t"
  shows "(i < s + (t - m) \<longrightarrow> Q (exchanged s (t - r) r xs ! i)) \<and> (s + (t - m) \<le> i \<longrightarrow> P (exchanged s (t - r) r xs ! i))"
proof -
  have le: "s + r \<le> t - r" "m \<le> t - r" "s + r \<le> m" "r \<le> m - s" "r \<le> t - m" "r = m - s \<or> r = t - m" "r \<le> t" using assms(1,2) r unfolding min_def by (simp_all split: if_splits)
  from le(1) show ?thesis
  proof (cases rule: two_block_cases [where i = i])
    case (left j)
    then have "exchanged s (t - r) r xs ! i = xs ! (t - r + j)" using i assms(3) by (simp add: nth_exchanged_left)
    moreover have "Q (xs ! (t - r + j))" by (rule Q) (use left le in linarith)+
    moreover have "i < s + (t - m)" using left le by linarith
    ultimately show ?thesis by simp
  next
    case (right j)
    then have "exchanged s (t - r) r xs ! i = xs ! (s + j)" using i assms(3) le(1) nth_exchanged_right [of j r s "t - r" xs] by (simp only: )
    moreover have "P (xs ! (s + j))" by (rule P) (use right le in linarith)+
    moreover have "s + (t - m) \<le> i" using right le assms(1,2) by linarith
    ultimately show ?thesis by simp
  next
    case outside
    then have e: "exchanged s (t - r) r xs ! i = xs ! i" using i assms(3) by (intro nth_exchanged_outside) auto
    have b: "s + r \<le> i" "i < t - r" using outside i le by linarith+
    show ?thesis
    proof (cases "r = m - s")
      case True
      then have "Q (xs ! i)" "i < s + (t - m)" using b le i assms(1,2) by (auto intro!: Q)
      then show ?thesis using e by simp
    next
      case False
      then have "P (xs ! i)" "s + (t - m) \<le> i" using b le i assms(1,2) by (auto intro!: P)
      then show ?thesis using e by simp
    qed
  qed
qed

section \<open>Elements and comparisons\<close>

lemma CMP_elems:
  assumes "x < length mem div es" and "y < length mem div es"
  shows "CMP cmp es mem x y = Some (cmp (elems es mem ! x) (elems es mem ! y))"
  using assms elem_end [of x mem es] elem_end [of y mem es] by (simp add: CMP_def mem_get_def nth_elems)

lemma med3_in:
  assumes "a < length mem div es" and "b < length mem div es" and "c < length mem div es"
  shows "\<exists>m. med3 cmp es mem a b c = Some m \<and> m \<in> {a, b, c}"
  using assms by (auto simp: med3_def CMP_elems)

lemma cint_nat: "int x \<le> INT_MAX \<Longrightarrow> cint (int x) = Some (int x)"
  by (simp add: cint_def is_cint_def INT_MIN_def)

lemma choose_pm_in:
  assumes es: "0 < es" and n: "7 \<le> n" and len: "a + n \<le> length mem div es" and fits: "int (n * es) \<le> INT_MAX"
  shows "\<exists>pm. choose_pm cmp es a n mem = Some pm \<and> a \<le> pm \<and> pm < a + n"
proof -
  let ?in = "\<lambda>x. a \<le> x \<and> x < a + n"
  have m3: "\<exists>m. med3 cmp es mem x y z = Some m \<and> ?in m" if "?in x" "?in y" "?in z" for x y z
    using med3_in [of x mem es y z cmp] that len by fastforce
  define k where "k = n div 8"
  have k: "2 * k < n" "k \<le> n div 2" "n div 2 + k < n" using n by (auto simp: k_def)
  have "k * es \<le> n * es" "2 * k * es \<le> n * es" using mult_le_mono1 [of "2 * k" n es] mult_le_mono1 [of k n es] k(1) by simp_all
  then have "int (k * es) \<le> INT_MAX" "int (2 * k * es) \<le> INT_MAX" using fits by linarith+
  from this [THEN cint_nat] have ci: "cint (int (k * es)) = Some (int (k * es))" "cint (2 * int (k * es)) = Some (int (2 * k * es))"
    by (simp_all add: mult.assoc)
  have dv: "nat (int (k * es)) div es = k" "nat (int (2 * k * es)) div es = 2 * k" unfolding nat_int using es by simp_all
  have mid: "?in (a + n div 2 - k)" "?in (a + n div 2)" "?in (a + n div 2 + k)" using k n by linarith+
  have top: "?in (a + (n - 1) - 2 * k)" "?in (a + (n - 1) - k)" "?in (a + (n - 1))" using k n by linarith+
  obtain pl where pl: "med3 cmp es mem a (a + k) (a + 2 * k) = Some pl" "?in pl" using m3 [of a "a + k" "a + 2 * k"] k n by auto
  obtain pm where pm: "med3 cmp es mem (a + n div 2 - k) (a + n div 2) (a + n div 2 + k) = Some pm" "?in pm"
    using m3 [of "a + n div 2 - k" "a + n div 2" "a + n div 2 + k"] mid by blast
  obtain pn where pn: "med3 cmp es mem (a + (n - 1) - 2 * k) (a + (n - 1) - k) (a + (n - 1)) = Some pn" "?in pn"
    using m3 [of "a + (n - 1) - 2 * k" "a + (n - 1) - k" "a + (n - 1)"] top by blast
  have "?in a" "?in (a + n div 2)" "?in (a + (n - 1))" using n by auto
  note small = m3 [OF this] and large = m3 [OF pl(2) pm(2) pn(2)]
  consider "n = 7" | "7 < n" "n \<le> 40" | "40 < n" using n by linarith
  then show ?thesis
  proof cases
    case 3
    then have "choose_pm cmp es a n mem = med3 cmp es mem pl pm pn"
      unfolding choose_pm_def k_def [symmetric] ci(1) by (simp only: Let_def ci dv bind.bind_lunit pl(1) pm(1) pn(1) if_True prod.case)
        simp
    then show ?thesis using large by simp
  qed (use small in \<open>simp_all add: choose_pm_def Let_def\<close>)
qed

text \<open>What every step does to the array: elements move inside \<open>[a, b)\<close>.\<close>

definition rearr :: "nat \<Rightarrow> nat \<Rightarrow> nat \<Rightarrow> byte list \<Rightarrow> byte list \<Rightarrow> bool" where
  "rearr es a b mem mem' \<longleftrightarrow> length mem' = length mem \<and> perm_in a b (elems es mem) (elems es mem')"

lemma rearr_refl [simp]: "rearr es a b mem mem"
  by (simp add: rearr_def)

lemma rearr_trans: "rearr es a b m1 m2 \<Longrightarrow> rearr es a b m2 m3 \<Longrightarrow> rearr es a b m1 m3"
  by (auto simp: rearr_def intro: perm_in_trans)

lemma rearr_mono: "rearr es a b m1 m2 \<Longrightarrow> a' \<le> a \<Longrightarrow> b \<le> b' \<Longrightarrow> rearr es a' b' m1 m2"
  by (auto simp: rearr_def intro: perm_in_mono)

lemma rearr_length: "rearr es a b m1 m2 \<Longrightarrow> length m2 = length m1"
  by (simp add: rearr_def)

lemma rearr_outside: "rearr es a b m1 m2 \<Longrightarrow> i < a \<or> b \<le> i \<Longrightarrow> i < length m1 div es \<Longrightarrow> elems es m2 ! i = elems es m1 ! i"
  unfolding rearr_def by (rule perm_in_outside [of a b]) auto

lemma rearr_all:
  "rearr es a b m1 m2 \<Longrightarrow> b \<le> length m1 div es \<Longrightarrow> (\<And>i. a \<le> i \<Longrightarrow> i < b \<Longrightarrow> P (elems es m1 ! i)) \<Longrightarrow> a \<le> i \<Longrightarrow> i < b \<Longrightarrow> P (elems es m2 ! i)"
  unfolding rearr_def by (rule perm_in_all [of a b "elems es m1"]) auto

lemma swap_at_rearr:
  assumes "swaptype_ok st es" and "a \<le> i" and "i < b" and "a \<le> j" and "j < b" and "b \<le> length mem div es"
  obtains mem' where "swap_at st es i j mem = Some mem'" "rearr es a b mem mem'"
    "elems es mem' = (elems es mem)[i := elems es mem ! j, j := elems es mem ! i]"
proof -
  obtain mem' where m: "swap_at st es i j mem = Some mem'" "length mem' = length mem" "elems es mem' = exchanged i j 1 (elems es mem)"
    using swap_at_elems [OF assms(1), of i mem j] assms by auto
  moreover have "apart i j 1" by (auto simp: apart_def)
  ultimately have "rearr es a b mem mem'" using perm_in_exchanged [of i j 1 a b "elems es mem"] assms by (simp add: rearr_def)
  moreover have "elems es mem' = (elems es mem)[i := elems es mem ! j, j := elems es mem ! i]" using m(3) exchanged_one [of i "elems es mem" j] assms by simp
  ultimately show thesis using that m(1) by blast
qed

lemma vecswap_rearr:
  assumes "swaptype_ok st es" and "apart i j r" and "a \<le> i" and "i + r \<le> b" and "a \<le> j" and "j + r \<le> b" and "b \<le> length mem div es"
  obtains mem' where "vecswap st (i * es) (j * es) (int (r * es)) mem = Some mem'" "rearr es a b mem mem'"
    "elems es mem' = exchanged i j r (elems es mem)"
proof -
  obtain mem' where "vecswap st (i * es) (j * es) (int (r * es)) mem = Some mem'" "length mem' = length mem" "elems es mem' = exchanged i j r (elems es mem)"
    using vecswap_elems [OF assms(1,2), of mem] assms by auto
  then show thesis using that perm_in_exchanged [of i j r a b "elems es mem"] assms by (simp add: rearr_def)
qed

section \<open>The order\<close>

definition sorted_in :: "cmp_t \<Rightarrow> nat \<Rightarrow> nat \<Rightarrow> byte list list \<Rightarrow> bool" where
  "sorted_in cmp a b xs \<longleftrightarrow> (\<forall>i j. a \<le> i \<and> i < j \<and> j < b \<longrightarrow> cmp (xs ! i) (xs ! j) \<le> 0)"

text \<open>The insertion sort leaves the element at \<open>pl\<close> out of the order it has built up to \<open>pm\<close>.\<close>

definition gap_sorted :: "cmp_t \<Rightarrow> nat \<Rightarrow> nat \<Rightarrow> nat \<Rightarrow> byte list list \<Rightarrow> bool" where
  "gap_sorted cmp a pl pm xs \<longleftrightarrow>
     (\<forall>i j. a \<le> i \<and> i < j \<and> j \<le> pm \<and> i \<noteq> pl \<and> j \<noteq> pl \<longrightarrow> cmp (xs ! i) (xs ! j) \<le> 0) \<and>
     (\<forall>j. pl < j \<and> j \<le> pm \<longrightarrow> cmp (xs ! pl) (xs ! j) \<le> 0)"

locale c_order =
  fixes cmp :: cmp_t
  assumes cmp_flip: "cmp y x > 0 \<longleftrightarrow> cmp x y < 0"
    and cmp_trans: "cmp x y \<le> 0 \<Longrightarrow> cmp y z \<le> 0 \<Longrightarrow> cmp x z \<le> 0"
begin

lemma cmp_refl [simp]: "cmp x x = 0"
  using cmp_flip [of x x] by linarith

lemma cmp_zero: "cmp x y = 0 \<longleftrightarrow> cmp y x = 0"
  using cmp_flip [of x y] cmp_flip [of y x] by linarith

lemma gap_sorted_done:
  assumes "gap_sorted cmp a pl pm xs" and "a < pl \<Longrightarrow> cmp (xs ! (pl - 1)) (xs ! pl) \<le> 0" and "a \<le> pl" and "pl \<le> pm"
  shows "sorted_in cmp a (Suc pm) xs"
  unfolding sorted_in_def
proof (intro allI impI)
  fix i j assume ij: "a \<le> i \<and> i < j \<and> j < Suc pm"
  have g: "cmp (xs ! i) (xs ! j) \<le> 0" if "a \<le> i" "i < j" "j \<le> pm" "i \<noteq> pl" "j \<noteq> pl" for i j using assms(1) that unfolding gap_sorted_def by blast
  consider "i = pl" | "j = pl" | "i \<noteq> pl" "j \<noteq> pl" by blast
  then show "cmp (xs ! i) (xs ! j) \<le> 0"
  proof cases
    case 1
    then show ?thesis using assms(1) ij unfolding gap_sorted_def by auto
  next
    case 2
    have "cmp (xs ! i) (xs ! (pl - 1)) \<le> 0"
    proof (cases "i = pl - 1")
      case False
      then show ?thesis using 2 ij assms(4) by (intro g) auto
    qed simp
    moreover have "cmp (xs ! (pl - 1)) (xs ! pl) \<le> 0" using 2 ij by (intro assms(2)) linarith
    ultimately show ?thesis using 2 cmp_trans by blast
  next
    case 3
    then show ?thesis using ij by (intro g) auto
  qed
qed

lemma gap_sorted_step:
  assumes g: "gap_sorted cmp a pl pm xs" and c: "cmp (xs ! (pl - 1)) (xs ! pl) > 0" and "a < pl" and "pl \<le> pm" and "pm < length xs"
  shows "gap_sorted cmp a (pl - 1) pm (xs[pl := xs ! (pl - 1), pl - 1 := xs ! pl])" (is "gap_sorted _ _ _ _ ?ys")
proof -
  have y: "?ys ! pl = xs ! (pl - 1)" "?ys ! (pl - 1) = xs ! pl" "\<And>i. i \<noteq> pl \<Longrightarrow> i \<noteq> pl - 1 \<Longrightarrow> ?ys ! i = xs ! i"
    using assms(3-5) by (auto simp: nth_list_update)
  have g1: "cmp (xs ! i) (xs ! j) \<le> 0" if "a \<le> i" "i < j" "j \<le> pm" "i \<noteq> pl" "j \<noteq> pl" for i j using g that unfolding gap_sorted_def by blast
  have g2: "cmp (xs ! pl) (xs ! j) \<le> 0" if "pl < j" "j \<le> pm" for j using g that unfolding gap_sorted_def by blast
  show ?thesis
    unfolding gap_sorted_def
  proof (intro conjI allI impI)
    fix i j assume "a \<le> i \<and> i < j \<and> j \<le> pm \<and> i \<noteq> pl - 1 \<and> j \<noteq> pl - 1"
    then have ij: "a \<le> i" "i < j" "j \<le> pm" "i \<noteq> pl - 1" "j \<noteq> pl - 1" by auto
    consider "i = pl" | "j = pl" | "i \<noteq> pl" "j \<noteq> pl" by blast
    then show "cmp (?ys ! i) (?ys ! j) \<le> 0"
    proof cases
      case 1
      then have "cmp (xs ! (pl - 1)) (xs ! j) \<le> 0" using ij assms(3) by (intro g1) auto
      then show ?thesis using 1 ij y(1) y(3) [of j] by simp
    next
      case 2
      then have "cmp (xs ! i) (xs ! (pl - 1)) \<le> 0" using ij assms(3,4) by (intro g1) auto
      then show ?thesis using 2 ij y(1) y(3) [of i] by simp
    next
      case 3
      then show ?thesis using ij y(3) [of i] y(3) [of j] g1 [of i j] by simp
    qed
  next
    fix j assume j: "pl - 1 < j \<and> j \<le> pm"
    show "cmp (?ys ! (pl - 1)) (?ys ! j) \<le> 0"
    proof (cases "j = pl")
      case True
      then show ?thesis using y(1,2) c cmp_flip [of "xs ! (pl - 1)" "xs ! pl"] by simp
    next
      case False
      then have "pl < j" using j by linarith
      then show ?thesis using y(2) y(3) [of j] g2 [of j] j by simp
    qed
  qed
qed

lemma insert_down_ok:
  assumes "swaptype_ok st es" and "a \<le> pl" and "pl \<le> pm" and "pm < length mem div es" and "gap_sorted cmp a pl pm (elems es mem)"
  shows "\<exists>mem'. insert_down cmp st es a pl mem = Some mem' \<and> rearr es a (Suc pm) mem mem' \<and> sorted_in cmp a (Suc pm) (elems es mem')"
  using assms
proof (induction pl arbitrary: mem rule: less_induct)
  case (less pl)
  let ?xs = "elems es mem"
  have c: "CMP cmp es mem (pl - 1) pl = Some (cmp (?xs ! (pl - 1)) (?xs ! pl))" using less.prems by (intro CMP_elems) auto
  show ?case
  proof (cases "a < pl \<and> cmp (?xs ! (pl - 1)) (?xs ! pl) > 0")
    case True
    obtain m1 where m1: "swap_at st es pl (pl - 1) mem = Some m1" "rearr es a (Suc pm) mem m1" "elems es m1 = ?xs[pl := ?xs ! (pl - 1), pl - 1 := ?xs ! pl]"
      by (rule swap_at_rearr [OF less.prems(1), of a pl "Suc pm" "pl - 1" mem]) (use True less.prems in auto)
    have below: "a \<le> pl - 1" "pl - 1 \<le> pm" using True less.prems(3) by linarith+
    have "gap_sorted cmp a (pl - 1) pm (elems es m1)"
      unfolding m1(3) by (rule gap_sorted_step) (use True less.prems in auto)
    then obtain m2 where m2: "insert_down cmp st es a (pl - 1) m1 = Some m2" "rearr es a (Suc pm) m1 m2" "sorted_in cmp a (Suc pm) (elems es m2)"
      using less.IH [OF _ less.prems(1) below, of m1] True less.prems(4) rearr_length [OF m1(2)] by auto
    have "insert_down cmp st es a pl mem = Some m2" using True c m1(1) m2(1) by (simp add: insert_down.simps [of cmp st es a pl])
    then show ?thesis using m2 rearr_trans [OF m1(2) m2(2)] by blast
  next
    case False
    then have "insert_down cmp st es a pl mem = Some mem" using c by (auto simp: insert_down.simps [of cmp st es a pl])
    moreover have "sorted_in cmp a (Suc pm) ?xs" by (rule gap_sorted_done [OF less.prems(5)]) (use False less.prems in auto)
    ultimately show ?thesis by simp
  qed
qed

lemma insert_up_ok:
  assumes "swaptype_ok st es" and "a < pm" and "pm \<le> a + n" and "a + n \<le> length mem div es" and "sorted_in cmp a pm (elems es mem)"
  shows "\<exists>mem'. insert_up cmp st es a n pm mem = Some mem' \<and> rearr es a (a + n) mem mem' \<and> sorted_in cmp a (a + n) (elems es mem')"
  using assms
proof (induction "a + n - pm" arbitrary: pm mem)
  case 0
  then show ?case by (simp add: insert_up.simps [of cmp st es a n pm])
next
  case (Suc k)
  have pm: "pm < a + n" "pm < length mem div es" using Suc.hyps(2) Suc.prems(4) by linarith+
  have "gap_sorted cmp a pm pm (elems es mem)" using Suc.prems(5) by (auto simp: gap_sorted_def sorted_in_def)
  then obtain m1 where m1: "insert_down cmp st es a pm mem = Some m1" "rearr es a (Suc pm) mem m1" "sorted_in cmp a (Suc pm) (elems es m1)"
    using insert_down_ok [OF Suc.prems(1) _ order_refl, of a pm mem] pm Suc.prems(2) by auto
  have k: "k = a + n - (pm + 1)" using Suc.hyps(2) by linarith
  obtain m2 where m2: "insert_up cmp st es a n (pm + 1) m1 = Some m2" "rearr es a (a + n) m1 m2" "sorted_in cmp a (a + n) (elems es m2)"
    using Suc.hyps(1) [OF k, of m1] Suc.prems(1-4) pm m1 rearr_length [OF m1(2)] by auto
  have "rearr es a (a + n) mem m1" using m1(2) by (rule rearr_mono) (use Suc.hyps(2) in auto)
  then have "rearr es a (a + n) mem m2" using m2(2) by (rule rearr_trans)
  moreover have "insert_up cmp st es a n pm mem = Some m2" using m1(1) m2(1) pm(1) by (simp add: insert_up.simps [of cmp st es a n pm])
  ultimately show ?case using m2(3) by blast
qed

lemma insertion_sort_ok:
  assumes "swaptype_ok st es" and "a + n \<le> length mem div es"
  shows "\<exists>mem'. insertion_sort cmp st es a n mem = Some mem' \<and> rearr es a (a + n) mem mem' \<and> sorted_in cmp a (a + n) (elems es mem')"
proof (cases "n = 0")
  case True
  then show ?thesis by (simp add: insertion_sort_def insert_up.simps sorted_in_def)
next
  case False
  then show ?thesis unfolding insertion_sort_def by (intro insert_up_ok) (use assms in \<open>auto simp: sorted_in_def\<close>)
qed

end

end
