(* ===== verification/Qsort_Partition.thy ===== *)
theory Qsort_Partition
  imports Qsort_Sorted
begin

text \<open>
  The partition of \<open>opal_qsort\<close> by its first element \<open>v\<close>: equal elements gather at both ends, smaller
  ones before \<open>pb\<close>, greater ones after \<open>pc\<close>.
\<close>

definition parted :: "cmp_t \<Rightarrow> byte list \<Rightarrow> nat \<Rightarrow> nat \<Rightarrow> nat \<Rightarrow> nat \<Rightarrow> nat \<Rightarrow> nat \<Rightarrow> byte list list \<Rightarrow> bool" where
  "parted cmp v a n pa pb pc pd xs \<longleftrightarrow>
     (a < pa \<and> pa \<le> pb \<and> pb \<le> Suc pc \<and> pc \<le> pd \<and> pd < a + n \<and> a + n \<le> length xs) \<and> xs ! a = v \<and>
     (\<forall>i. a \<le> i \<and> i < pa \<longrightarrow> cmp (xs ! i) v = 0) \<and> (\<forall>i. pa \<le> i \<and> i < pb \<longrightarrow> cmp (xs ! i) v < 0) \<and>
     (\<forall>i. pc < i \<and> i \<le> pd \<longrightarrow> cmp (xs ! i) v > 0) \<and> (\<forall>i. pd < i \<and> i < a + n \<longrightarrow> cmp (xs ! i) v = 0)"

lemma parted_bounds:
  "parted cmp v a n pa pb pc pd xs \<Longrightarrow> a < pa \<and> pa \<le> pb \<and> pb \<le> Suc pc \<and> pc \<le> pd \<and> pd < a + n \<and> a + n \<le> length xs"
  by (simp add: parted_def)

lemma parted_pivot: "parted cmp v a n pa pb pc pd xs \<Longrightarrow> xs ! a = v"
  by (simp add: parted_def)

lemma partedI:
  assumes "a < pa" "pa \<le> pb" "pb \<le> Suc pc" "pc \<le> pd" "pd < a + n" "a + n \<le> length xs" "xs ! a = v"
    and "\<And>i. a \<le> i \<Longrightarrow> i < pa \<Longrightarrow> cmp (xs ! i) v = 0" and "\<And>i. pa \<le> i \<Longrightarrow> i < pb \<Longrightarrow> cmp (xs ! i) v < 0"
    and "\<And>i. pc < i \<Longrightarrow> i \<le> pd \<Longrightarrow> cmp (xs ! i) v > 0" and "\<And>i. pd < i \<Longrightarrow> i < a + n \<Longrightarrow> cmp (xs ! i) v = 0"
  shows "parted cmp v a n pa pb pc pd xs"
  using assms by (simp add: parted_def)

lemma partedD:
  assumes "parted cmp v a n pa pb pc pd xs"
  shows "a \<le> i \<Longrightarrow> i < pa \<Longrightarrow> cmp (xs ! i) v = 0" and "pa \<le> i \<Longrightarrow> i < pb \<Longrightarrow> cmp (xs ! i) v < 0"
    and "pc < i \<Longrightarrow> i \<le> pd \<Longrightarrow> cmp (xs ! i) v > 0" and "pd < i \<Longrightarrow> i < a + n \<Longrightarrow> cmp (xs ! i) v = 0"
  using assms by (simp_all add: parted_def)

text \<open>The five moves of the loop.\<close>

lemma parted_up_less:
  assumes p: "parted cmp v a n pa pb pc pd xs" and "pb \<le> pc" and c: "cmp (xs ! pb) v < 0"
  shows "parted cmp v a n pa (pb + 1) pc pd xs"
proof (rule partedI)
  fix i assume "pa \<le> i" "i < pb + 1"
  then show "cmp (xs ! i) v < 0" using partedD(2) [OF p] c by (cases "i = pb") auto
qed (use assms parted_bounds [OF p] partedD [OF p] parted_pivot [OF p] in auto)

lemma parted_down_greater:
  assumes p: "parted cmp v a n pa pb pc pd xs" and "pb \<le> pc" and c: "cmp (xs ! pc) v > 0"
  shows "parted cmp v a n pa pb (pc - 1) pd xs"
proof (rule partedI)
  fix i assume i: "pc - 1 < i" "i \<le> pd"
  show "cmp (xs ! i) v > 0"
  proof (cases "i = pc")
    case False
    then have "pc < i" using i parted_bounds [OF p] by linarith
    then show ?thesis using partedD(3) [OF p] i by blast
  qed (simp add: c)
qed (use assms parted_bounds [OF p] partedD [OF p] parted_pivot [OF p] in auto)

lemma parted_up_equal:
  assumes p: "parted cmp v a n pa pb pc pd xs" and "pb \<le> pc" and c: "cmp (xs ! pb) v = 0"
  shows "parted cmp v a n (pa + 1) (pb + 1) pc pd (xs[pa := xs ! pb, pb := xs ! pa])" (is "parted _ _ _ _ _ _ _ _ ?ys")
proof -
  note b = parted_bounds [OF p]
  have y: "?ys ! pa = xs ! pb" "?ys ! pb = xs ! pa" "\<And>i. i \<noteq> pa \<Longrightarrow> i \<noteq> pb \<Longrightarrow> ?ys ! i = xs ! i" using b assms(2) by (auto simp: nth_list_update)
  show ?thesis
  proof (rule partedI)
    fix i assume "a \<le> i" "i < pa + 1"
    then show "cmp (?ys ! i) v = 0" using partedD(1) [OF p] c y(1) y(3) [of i] b by (cases "i = pa") auto
  next
    fix i assume "pa + 1 \<le> i" "i < pb + 1"
    then show "cmp (?ys ! i) v < 0" using partedD(2) [OF p] y(2) y(3) [of i] b by (cases "i = pb") auto
  next
    show "?ys ! a = v" using b parted_pivot [OF p] y(3) [of a] by simp
  qed (use assms(2) b partedD(3,4) [OF p] y(3) in auto)
qed

lemma parted_down_equal:
  assumes p: "parted cmp v a n pa pb pc pd xs" and "pb \<le> pc" and c: "cmp (xs ! pc) v = 0"
  shows "parted cmp v a n pa pb (pc - 1) (pd - 1) (xs[pc := xs ! pd, pd := xs ! pc])" (is "parted _ _ _ _ _ _ _ _ ?ys")
proof -
  note b = parted_bounds [OF p]
  have y: "?ys ! pd = xs ! pc" "?ys ! pc = xs ! pd" "\<And>i. i \<noteq> pc \<Longrightarrow> i \<noteq> pd \<Longrightarrow> ?ys ! i = xs ! i" using b assms(2) by (auto simp: nth_list_update)
  have pos: "0 < pc" using b assms(2) by linarith
  show ?thesis
  proof (rule partedI)
    fix i assume i: "pc - 1 < i" "i \<le> pd - 1"
    show "cmp (?ys ! i) v > 0"
    proof (cases "i = pc")
      case True
      then have "pc < pd" using i pos by linarith
      then show ?thesis using True y(2) partedD(3) [OF p, of pd] by simp
    next
      case False
      then have "pc < i" "i < pd" using i pos b by linarith+
      then show ?thesis using y(3) [of i] partedD(3) [OF p, of i] by simp
    qed
  next
    fix i assume i: "pd - 1 < i" "i < a + n"
    show "cmp (?ys ! i) v = 0"
    proof (cases "i = pd")
      case False
      then have "pd < i" using i pos b by linarith
      then show ?thesis using y(3) [of i] partedD(4) [OF p, of i] b i by simp
    qed (simp only: y(1) c)
  next
    show "?ys ! a = v" using b assms(2) parted_pivot [OF p] y(3) [of a] by simp
  qed (use assms(2) b pos partedD(1,2) [OF p] y(3) in auto)
qed

lemma parted_cross:
  assumes p: "parted cmp v a n pa pb pc pd xs" and "pb < pc" and c: "cmp (xs ! pb) v > 0" "cmp (xs ! pc) v < 0"
  shows "parted cmp v a n pa (pb + 1) (pc - 1) pd (xs[pb := xs ! pc, pc := xs ! pb])" (is "parted _ _ _ _ _ _ _ _ ?ys")
proof -
  note b = parted_bounds [OF p]
  have y: "?ys ! pb = xs ! pc" "?ys ! pc = xs ! pb" "\<And>i. i \<noteq> pb \<Longrightarrow> i \<noteq> pc \<Longrightarrow> ?ys ! i = xs ! i" using b assms(2) by (auto simp: nth_list_update)
  show ?thesis
  proof (rule partedI)
    fix i assume "pa \<le> i" "i < pb + 1"
    then show "cmp (?ys ! i) v < 0" using partedD(2) [OF p] c y(1) y(3) [of i] assms(2) by (cases "i = pb") auto
  next
    fix i assume i: "pc - 1 < i" "i \<le> pd"
    show "cmp (?ys ! i) v > 0"
    proof (cases "i = pc")
      case False
      then have "pc < i" using i assms(2) by linarith
      then show ?thesis using y(3) [of i] partedD(3) [OF p, of i] i assms(2) by simp
    qed (simp only: y(2) c)
  next
    show "?ys ! a = v" using b assms(2) parted_pivot [OF p] y(3) [of a] by simp
  qed (use assms(2) b partedD(1,4) [OF p] y(3) in auto)
qed

section \<open>The loops\<close>

lemma scan_up_ok:
  assumes "swaptype_ok st es" and "parted cmp v a n pa pb pc pd (elems es mem)"
  shows "\<exists>pa' pb' s' mem'. scan_up cmp st es a pc pa pb s mem = Some (pa', pb', s', mem') \<and> rearr es a (a + n) mem mem' \<and>
    parted cmp v a n pa' pb' pc pd (elems es mem') \<and> pb \<le> pb' \<and> (pb' \<le> pc \<longrightarrow> cmp (elems es mem' ! pb') v > 0)"
  using assms
proof (induction "Suc pc - pb" arbitrary: pa pb s mem rule: less_induct)
  case less
  let ?xs = "elems es mem"
  note p = less.prems(2) and b = parted_bounds [OF less.prems(2)]
  have c: "CMP cmp es mem pb a = Some (cmp (?xs ! pb) v)" if "pb \<le> pc"
    using CMP_elems [of pb mem es a cmp] b that parted_pivot [OF p] by simp
  note unf = scan_up.simps [of cmp st es a pc pa pb s mem]
  consider "pc < pb \<or> cmp (?xs ! pb) v > 0" | "pb \<le> pc" "cmp (?xs ! pb) v < 0" | "pb \<le> pc" "cmp (?xs ! pb) v = 0" by linarith
  then show ?case
  proof cases
    case 1
    then have "scan_up cmp st es a pc pa pb s mem = Some (pa, pb, s, mem)" using c by (auto simp: unf)
    then show ?thesis using p 1 by auto
  next
    case 2
    have "scan_up cmp st es a pc pa pb s mem = scan_up cmp st es a pc pa (pb + 1) s mem" using 2 c by (simp add: unf)
    then show ?thesis using less.hyps [OF _ less.prems(1) parted_up_less [OF p 2], of s] 2(1) by fastforce
  next
    case 3
    obtain m1 where m1: "swap_at st es pa pb mem = Some m1" "rearr es a (a + n) mem m1" "elems es m1 = ?xs[pa := ?xs ! pb, pb := ?xs ! pa]"
      by (rule swap_at_rearr [OF less.prems(1), of a pa "a + n" pb mem]) (use 3 b in auto)
    have "scan_up cmp st es a pc pa pb s mem = scan_up cmp st es a pc (pa + 1) (pb + 1) 1 m1" using 3 c m1(1) by (simp add: unf)
    moreover have "parted cmp v a n (pa + 1) (pb + 1) pc pd (elems es m1)" unfolding m1(3) by (rule parted_up_equal [OF p 3])
    ultimately show ?thesis using less.hyps [OF _ less.prems(1), of "pb + 1" "pa + 1" m1 1] 3(1) rearr_trans [OF m1(2)] by fastforce
  qed
qed

lemma scan_down_ok:
  assumes "swaptype_ok st es" and "parted cmp v a n pa pb pc pd (elems es mem)"
  shows "\<exists>pc' pd' s' mem'. scan_down cmp st es a pb pc pd s mem = Some (pc', pd', s', mem') \<and> rearr es a (a + n) mem mem' \<and>
    parted cmp v a n pa pb pc' pd' (elems es mem') \<and> pc' \<le> pc \<and>
    (pb \<le> pc' \<longrightarrow> cmp (elems es mem' ! pc') v < 0 \<and> elems es mem' ! pb = elems es mem ! pb)"
  using assms
proof (induction pc arbitrary: pd s mem rule: less_induct)
  case (less pc)
  let ?xs = "elems es mem"
  note p = less.prems(2) and b = parted_bounds [OF less.prems(2)]
  have c: "CMP cmp es mem pc a = Some (cmp (?xs ! pc) v)" if "pb \<le> pc"
    using CMP_elems [of pc mem es a cmp] b that parted_pivot [OF p] by simp
  have pos: "pc - 1 < pc" "0 < pc" if "pb \<le> pc" using b that by linarith+
  note unf = scan_down.simps [of cmp st es a pb pc pd s mem]
  consider "pc < pb \<or> cmp (?xs ! pc) v < 0" | "pb \<le> pc" "cmp (?xs ! pc) v > 0" | "pb \<le> pc" "cmp (?xs ! pc) v = 0" by linarith
  then show ?case
  proof cases
    case 1
    then have "scan_down cmp st es a pb pc pd s mem = Some (pc, pd, s, mem)" using c by (auto simp: unf)
    then show ?thesis using p 1 by auto
  next
    case 2
    have "scan_down cmp st es a pb pc pd s mem = scan_down cmp st es a pb (pc - 1) pd s mem" using 2 c pos by (simp add: unf)
    then show ?thesis using less.IH [OF pos(1) [OF 2(1)] less.prems(1) parted_down_greater [OF p 2], of s] by fastforce
  next
    case 3
    obtain m1 where m1: "swap_at st es pc pd mem = Some m1" "rearr es a (a + n) mem m1" "elems es m1 = ?xs[pc := ?xs ! pd, pd := ?xs ! pc]"
      by (rule swap_at_rearr [OF less.prems(1), of a pc "a + n" pd mem]) (use 3 b in auto)
    have eq: "scan_down cmp st es a pb pc pd s mem = scan_down cmp st es a pb (pc - 1) (pd - 1) 1 m1" using 3 c pos m1(1) by (simp add: unf)
    have "parted cmp v a n pa pb (pc - 1) (pd - 1) (elems es m1)" unfolding m1(3) by (rule parted_down_equal [OF p 3])
    from less.IH [OF pos(1) [OF 3(1)] less.prems(1) this, of 1]
    obtain pc' pd' s' m2 where m2: "scan_down cmp st es a pb (pc - 1) (pd - 1) 1 m1 = Some (pc', pd', s', m2)" "rearr es a (a + n) m1 m2"
      "parted cmp v a n pa pb pc' pd' (elems es m2)" "pc' \<le> pc - 1"
      "pb \<le> pc' \<longrightarrow> cmp (elems es m2 ! pc') v < 0 \<and> elems es m2 ! pb = elems es m1 ! pb" by blast
    have "elems es m1 ! pb = ?xs ! pb" if "pb \<le> pc'"
    proof -
      have "pb \<noteq> pc" "pb \<noteq> pd" using that m2(4) pos(2) [OF 3(1)] b by linarith+
      then show ?thesis unfolding m1(3) by simp
    qed
    then show ?thesis using eq m2 rearr_trans [OF m1(2) m2(2)] by fastforce
  qed
qed

lemma partition_loop_ok:
  assumes "swaptype_ok st es" and "parted cmp v a n pa pb pc pd (elems es mem)"
  shows "\<exists>pa' pb' pc' pd' s' mem'. partition_loop cmp st es a pa pb pc pd s mem = Some (pa', pb', pc', pd', s', mem') \<and>
    rearr es a (a + n) mem mem' \<and> parted cmp v a n pa' pb' pc' pd' (elems es mem') \<and> pb' = Suc pc'"
  using assms
proof (induction "Suc pc - pb" arbitrary: pa pb pc pd s mem rule: less_induct)
  case less
  obtain pa1 pb1 s1 m1 where 1: "scan_up cmp st es a pc pa pb s mem = Some (pa1, pb1, s1, m1)" "rearr es a (a + n) mem m1"
    "parted cmp v a n pa1 pb1 pc pd (elems es m1)" "pb \<le> pb1" "pb1 \<le> pc \<longrightarrow> cmp (elems es m1 ! pb1) v > 0"
    using scan_up_ok [OF less.prems, of s] by blast
  obtain pc2 pd2 s2 m2 where 2: "scan_down cmp st es a pb1 pc pd s1 m1 = Some (pc2, pd2, s2, m2)" "rearr es a (a + n) m1 m2"
    "parted cmp v a n pa1 pb1 pc2 pd2 (elems es m2)" "pc2 \<le> pc"
    "pb1 \<le> pc2 \<longrightarrow> cmp (elems es m2 ! pc2) v < 0 \<and> elems es m2 ! pb1 = elems es m1 ! pb1"
    using scan_down_ok [OF less.prems(1) 1(3), of s1] by blast
  note b = parted_bounds [OF 2(3)] and m = rearr_trans [OF 1(2) 2(2)]
  show ?case
  proof (cases "pc2 < pb1")
    case True
    then show ?thesis using 1(1) 2(1,3) m b by (subst partition_loop.simps) auto
  next
    case False
    then have c: "cmp (elems es m2 ! pb1) v > 0" "cmp (elems es m2 ! pc2) v < 0" using 1(5) 2(4,5) by auto
    then have lt: "pb1 < pc2" using False by (cases "pb1 = pc2") auto
    obtain m3 where m3: "swap_at st es pb1 pc2 m2 = Some m3" "rearr es a (a + n) m2 m3"
      "elems es m3 = (elems es m2)[pb1 := elems es m2 ! pc2, pc2 := elems es m2 ! pb1]"
      by (rule swap_at_rearr [OF less.prems(1), of a pb1 "a + n" pc2 m2]) (use lt b in auto)
    have pt: "parted cmp v a n pa1 (pb1 + 1) (pc2 - 1) pd2 (elems es m3)" unfolding m3(3) by (rule parted_cross [OF 2(3) lt c])
    have sm: "Suc (pc2 - 1) - (pb1 + 1) < Suc pc - pb" using lt 1(4) 2(4) by linarith
    have "partition_loop cmp st es a pa pb pc pd s mem = partition_loop cmp st es a pa1 (pb1 + 1) (pc2 - 1) pd2 1 m3"
      using 1(1) 2(1) m3(1) lt by (subst partition_loop.simps) simp
    then show ?thesis using less.hyps [OF sm less.prems(1) pt, of 1] rearr_trans [OF rearr_trans [OF m m3(2)]] by fastforce
  qed
qed

text \<open>
  The exchanges at the ends of the array bring the equal elements to the middle: \<open>k\<close> smaller ones are left
  before them, \<open>l\<close> greater ones after.
\<close>

definition three_way :: "cmp_t \<Rightarrow> byte list \<Rightarrow> nat \<Rightarrow> nat \<Rightarrow> nat \<Rightarrow> nat \<Rightarrow> byte list list \<Rightarrow> bool" where
  "three_way cmp v a n k l xs \<longleftrightarrow> a + k + l \<le> a + n \<and>
     (\<forall>i. a \<le> i \<and> i < a + k \<longrightarrow> cmp (xs ! i) v < 0) \<and> (\<forall>i. a + k \<le> i \<and> i < a + n - l \<longrightarrow> cmp (xs ! i) v = 0) \<and>
     (\<forall>i. a + n - l \<le> i \<and> i < a + n \<longrightarrow> cmp (xs ! i) v > 0)"

lemma exchanged_ends:
  assumes p: "parted cmp v a n pa pb pc pd xs" and pb: "pb = Suc pc"
    and r1: "r1 = min (pa - a) (pb - pa)" and r2: "r2 = min (pd - pc) (a + n - pd - 1)"
  shows "three_way cmp v a n (pb - pa) (pd - pc) (exchanged pb (a + n - r2) r2 (exchanged a (pb - r1) r1 xs))"
proof -
  note b = parted_bounds [OF p]
  let ?ys = "exchanged a (pb - r1) r1 xs" and ?zs = "exchanged pb (a + n - r2) r2 (exchanged a (pb - r1) r1 xs)"
  have y: "(i < a + (pb - pa) \<longrightarrow> cmp (?ys ! i) v < 0) \<and> (a + (pb - pa) \<le> i \<longrightarrow> cmp (?ys ! i) v = 0)" if "a \<le> i" "i < pb" for i
    by (rule exchanged_parts [where P = "\<lambda>x. cmp x v = 0" and Q = "\<lambda>x. cmp x v < 0", OF _ _ _ r1]) (use b pb that partedD [OF p] in auto)
  have le1: "a + r1 \<le> pb" "r1 \<le> pb" using r1 b by auto
  have y': "?ys ! i = xs ! i" if "pb \<le> i" "i < a + n" for i by (rule nth_exchanged_outside) (use that b le1 in auto)
  have r2': "r2 = min (Suc pd - pb) (a + n - Suc pd)" using r2 pb by simp
  have z: "(i < pb + (a + n - Suc pd) \<longrightarrow> cmp (?zs ! i) v = 0) \<and> (pb + (a + n - Suc pd) \<le> i \<longrightarrow> cmp (?zs ! i) v > 0)" if "pb \<le> i" "i < a + n" for i
    by (rule exchanged_parts [where P = "\<lambda>x. cmp x v > 0" and Q = "\<lambda>x. cmp x v = 0", OF _ _ _ r2']) (use b pb that y' partedD [OF p] in auto)
  have z': "?zs ! i = ?ys ! i" if "i < pb" for i by (rule nth_exchanged_outside) (use that b pb r2 in auto)
  have ar: "pb + (a + n - Suc pd) = a + n - (pd - pc)" "a + (pb - pa) \<le> pb" "pb \<le> a + n - (pd - pc)" "a + (pb - pa) + (pd - pc) \<le> a + n" using b pb by linarith+
  show ?thesis
    unfolding three_way_def
  proof (intro conjI allI impI)
    fix i assume i: "a \<le> i \<and> i < a + (pb - pa)"
    then show "cmp (?zs ! i) v < 0" using y [of i] z' [of i] ar by simp
  next
    fix i assume i: "a + (pb - pa) \<le> i \<and> i < a + n - (pd - pc)"
    then show "cmp (?zs ! i) v = 0" using y [of i] z' [of i] z [of i] ar by (cases "i < pb") auto
  next
    fix i assume i: "a + n - (pd - pc) \<le> i \<and> i < a + n"
    then have "pb \<le> i" using ar(3) by linarith
    then show "cmp (?zs ! i) v > 0" using z [of i] i ar(1) by simp
  qed (rule ar(4))
qed

text \<open>The two \<open>vecswap\<close>s carry this out.\<close>

lemma vecswap_ends:
  assumes ok: "swaptype_ok st es" and p: "parted cmp v a n pa pb pc pd (elems es mem)" and pb: "pb = Suc pc" and fits: "int (n * es) \<le> INT_MAX"
  obtains r1 r2 m1 m2 where "cint (min (int ((pa - a) * es)) (int ((pb - pa) * es))) = Some r1" "vecswap st (a * es) (pb * es - nat r1) r1 mem = Some m1"
    "cint (min (int ((pd - pc) * es)) (int ((a + n - pd - 1) * es))) = Some r2" "vecswap st (pb * es) ((a + n) * es - nat r2) r2 m1 = Some m2"
    "rearr es a (a + n) mem m2" "three_way cmp v a n (pb - pa) (pd - pc) (elems es m2)"
proof -
  note b = parted_bounds [OF p]
  define k1 where "k1 = min (pa - a) (pb - pa)"
  define k2 where "k2 = min (pd - pc) (a + n - pd - 1)"
  have len: "a + n \<le> length mem div es" using b by simp
  have mn: "min (int (x * es)) (int (y * es)) = int (min x y * es)" for x y
  proof (cases "x \<le> y")
    case True
    then have "x * es \<le> y * es" by (rule mult_le_mono1)
    then show ?thesis using True by (simp only: min_absorb1 of_nat_le_iff)
  next
    case False
    then have "y * es \<le> x * es" by (intro mult_le_mono1) simp
    then show ?thesis using False by (simp only: min_absorb2 of_nat_le_iff nat_le_linear)
  qed
  have k: "k1 \<le> n" "k2 \<le> n" "a + k1 \<le> pb - k1" "pb + k2 \<le> a + n - k2" "k1 \<le> pb" "k2 \<le> a + n" using b pb unfolding k1_def k2_def by linarith+
  have c: "cint (int (x * es)) = Some (int (x * es))" if "x \<le> n" for x
    by (rule cint_nat) (use fits mult_le_mono1 [OF that, of es] in linarith)
  obtain m1 where m1: "vecswap st (a * es) ((pb - k1) * es) (int (k1 * es)) mem = Some m1" "rearr es a (a + n) mem m1" "elems es m1 = exchanged a (pb - k1) k1 (elems es mem)"
    by (rule vecswap_rearr [OF ok, of a "pb - k1" k1 a "a + n" mem]) (use k b pb len in \<open>auto simp: apart_def\<close>)
  obtain m2 where m2: "vecswap st (pb * es) ((a + n - k2) * es) (int (k2 * es)) m1 = Some m2" "rearr es a (a + n) m1 m2" "elems es m2 = exchanged pb (a + n - k2) k2 (elems es m1)"
    by (rule vecswap_rearr [OF ok, of pb "a + n - k2" k2 a "a + n" m1]) (use k b pb len rearr_length [OF m1(2)] in \<open>auto simp: apart_def\<close>)
  have off: "pb * es - nat (int (k1 * es)) = (pb - k1) * es" "(a + n) * es - nat (int (k2 * es)) = (a + n - k2) * es"
    unfolding nat_int by (simp_all only: diff_mult_distrib)
  have tw: "three_way cmp v a n (pb - pa) (pd - pc) (elems es m2)"
    unfolding m2(3) m1(3) by (rule exchanged_ends [OF p pb k1_def k2_def])
  show thesis
  proof (rule that)
    show "cint (min (int ((pa - a) * es)) (int ((pb - pa) * es))) = Some (int (k1 * es))" unfolding mn k1_def [symmetric] by (rule c [OF k(1)])
    show "cint (min (int ((pd - pc) * es)) (int ((a + n - pd - 1) * es))) = Some (int (k2 * es))" unfolding mn k2_def [symmetric] by (rule c [OF k(2)])
    show "vecswap st (a * es) (pb * es - nat (int (k1 * es))) (int (k1 * es)) mem = Some m1" unfolding off by (rule m1(1))
    show "vecswap st (pb * es) ((a + n) * es - nat (int (k2 * es))) (int (k2 * es)) m1 = Some m2" unfolding off by (rule m2(1))
  qed (use rearr_trans [OF m1(2) m2(2)] tw in auto)
qed

section \<open>The sort\<close>

context c_order
begin

lemma three_way_sorted:
  assumes t: "three_way cmp v a n k l (elems es m)" and len: "a + n \<le> length m div es"
    and m1: "rearr es a (a + k) m m1" "sorted_in cmp a (a + k) (elems es m1)"
    and m2: "rearr es (a + n - l) (a + n) m1 m2" "sorted_in cmp (a + n - l) (a + n) (elems es m2)"
  shows "sorted_in cmp a (a + n) (elems es m2)"
  unfolding sorted_in_def
proof (intro allI impI)
  have kl: "a + k \<le> a + n - l" "a + n - l \<le> a + n" using t by (auto simp: three_way_def)
  have len': "length m1 = length m" using rearr_length [OF m1(1)] .
  let ?x = "\<lambda>i. elems es m2 ! i"
  have lo: "cmp (?x i) v < 0" if "a \<le> i" "i < a + k" for i
  proof -
    have "cmp (elems es m1 ! i) v < 0" by (rule rearr_all [OF m1(1), where P = "\<lambda>x. cmp x v < 0"]) (use that t len kl in \<open>auto simp: three_way_def\<close>)
    then show ?thesis using rearr_outside [OF m2(1), of i] that kl len len' by simp
  qed
  have mid: "cmp (?x i) v = 0" if "a + k \<le> i" "i < a + n - l" for i
    using rearr_outside [OF m2(1), of i] rearr_outside [OF m1(1), of i] that t kl len len' by (simp add: three_way_def)
  have m1hi: "cmp (elems es m1 ! i) v > 0" if "a + n - l \<le> i" "i < a + n" for i
    using rearr_outside [OF m1(1), of i] that t kl len by (simp add: three_way_def)
  have hi: "cmp (?x i) v > 0" if "a + n - l \<le> i" "i < a + n" for i
    by (rule rearr_all [OF m2(1), where P = "\<lambda>x. cmp x v > 0"]) (use that m1hi len len' in auto)
  fix i j assume ij: "a \<le> i \<and> i < j \<and> j < a + n"
  have le: "cmp (?x i) v \<le> 0" if "i < a + n - l" using that lo [of i] mid [of i] ij by (cases "i < a + k") auto
  have ge: "cmp v (?x j) \<le> 0" if "a + k \<le> j"
    using that mid [of j] hi [of j] ij cmp_flip [of "?x j" v] cmp_zero [of "?x j" v] by (cases "j < a + n - l") auto
  consider "j < a + k" | "a + n - l \<le> i" | "a + k \<le> j" "i < a + n - l" by linarith
  then show "cmp (?x i) (?x j) \<le> 0"
  proof cases
    case 1
    have "elems es m2 ! h = elems es m1 ! h" if "h < a + k" for h using rearr_outside [OF m2(1), of h] that kl len len' by simp
    then show ?thesis using 1 ij m1(2) by (simp add: sorted_in_def)
  next
    case 2
    then show ?thesis using ij m2(2) by (simp add: sorted_in_def)
  next
    case 3
    then show ?thesis using cmp_trans [OF le ge] by blast
  qed
qed

lemma opal_qsort_ok:
  assumes es: "0 < es" and "a + n \<le> length mem div es" and "int (n * es) \<le> INT_MAX"
  shows "\<exists>mem'. opal_qsort cmp addr es a n mem = Some mem' \<and> rearr es a (a + n) mem mem' \<and> sorted_in cmp a (a + n) (elems es mem')"
  using assms(2-)
proof (induction n arbitrary: a mem rule: less_induct)
  case (less n)
  define st where "st = SWAPINIT (addr + a * es) es"
  have ok: "swaptype_ok st es" unfolding st_def using es by (rule SWAPINIT_ok)
  note unf = opal_qsort.simps [of cmp addr es a n mem, folded st_def]
  show ?case
  proof (cases "n < 7")
    case True
    then show ?thesis using insertion_sort_ok [OF ok less.prems(1)] by (simp add: unf st_def [symmetric] Let_def)
  next
    case False
    obtain pm where pm: "choose_pm cmp es a n mem = Some pm" "a \<le> pm" "pm < a + n"
      using choose_pm_in [OF es _ less.prems, of cmp] False by auto
    obtain m1 where m1: "swap_at st es a pm mem = Some m1" "rearr es a (a + n) mem m1"
      by (rule swap_at_rearr [OF ok, of a a "a + n" pm mem]) (use pm less.prems in auto)
    have len: "length m1 = length mem" using rearr_length [OF m1(2)] .
    define v where "v = elems es m1 ! a"
    have "parted cmp v a n (a + 1) (a + 1) (a + (n - 1)) (a + (n - 1)) (elems es m1)"
      by (rule partedI) (use False less.prems(1) len v_def in \<open>auto dest: le_antisym\<close>)
    from partition_loop_ok [OF ok this, of 0] obtain pa pb pc pd s m2 where
      m2: "partition_loop cmp st es a (a + 1) (a + 1) (a + (n - 1)) (a + (n - 1)) 0 m1 = Some (pa, pb, pc, pd, s, m2)"
      "rearr es a (a + n) m1 m2" "parted cmp v a n pa pb pc pd (elems es m2)" "pb = Suc pc" by blast
    note b = parted_bounds [OF m2(3)] and r12 = rearr_trans [OF m1(2) m2(2)]
    show ?thesis
    proof (cases "s = 0")
      case True
      obtain m3 where "insertion_sort cmp st es a n m2 = Some m3" "rearr es a (a + n) m2 m3" "sorted_in cmp a (a + n) (elems es m3)"
        using insertion_sort_ok [OF ok, of a n m2] less.prems(1) len rearr_length [OF m2(2)] by auto
      then show ?thesis using False True pm(1) m1(1) m2(1) rearr_trans [OF r12] by (auto simp: unf st_def [symmetric] Let_def)
    next
      case s: False
      obtain r1 r2 m3 m4 where m4: "cint (min (int ((pa - a) * es)) (int ((pb - pa) * es))) = Some r1" "vecswap st (a * es) (pb * es - nat r1) r1 m2 = Some m3"
        "cint (min (int ((pd - pc) * es)) (int ((a + n - pd - 1) * es))) = Some r2" "vecswap st (pb * es) ((a + n) * es - nat r2) r2 m3 = Some m4"
        "rearr es a (a + n) m2 m4" "three_way cmp v a n (pb - pa) (pd - pc) (elems es m4)"
        by (rule vecswap_ends [OF ok m2(3,4) less.prems(2)])
      define k l where "k = pb - pa" and "l = pd - pc"
      have kl: "k < n" "l < n" "a + k + l \<le> a + n" using b m2(4) by (auto simp: k_def l_def)
      have r4: "rearr es a (a + n) mem m4" using r12 m4(5) by (rule rearr_trans)
      have sub: "\<exists>m'. cint (int (x * es)) = Some (int (x * es)) \<and>
          (if nat (int (x * es)) > es then opal_qsort cmp addr es c (nat (int (x * es)) div es) m else Some m) = Some m' \<and>
          rearr es c (c + x) m m' \<and> sorted_in cmp c (c + x) (elems es m')"
        if "x < n" "c + x \<le> length m div es" for c x m
      proof -
        have fits: "int (x * es) \<le> INT_MAX" using less.prems(2) mult_le_mono1 [of x n es] that(1) by linarith
        have dv: "nat (int (x * es)) div es = x" "nat (int (x * es)) > es \<longleftrightarrow> 1 < x" unfolding nat_int using es by simp_all
        show ?thesis
        proof (cases "1 < x")
          case True
          then show ?thesis using less.IH [OF that fits] cint_nat [OF fits] unfolding dv by simp
        next
          case False
          then have "sorted_in cmp c (c + x) (elems es m)" by (auto simp: sorted_in_def)
          then show ?thesis using cint_nat [OF fits] False unfolding dv by simp
        qed
      qed
      obtain m5 where m5: "cint (int (k * es)) = Some (int (k * es))"
        "(if nat (int (k * es)) > es then opal_qsort cmp addr es a (nat (int (k * es)) div es) m4 else Some m4) = Some m5"
        "rearr es a (a + k) m4 m5" "sorted_in cmp a (a + k) (elems es m5)"
        using sub [OF kl(1), of a m4] kl(3) less.prems(1) rearr_length [OF r4] by auto
      have lx: "a + n - l + l = a + n" using kl by simp
      have dl: "nat (int (l * es)) div es = l" unfolding nat_int using es by simp
      obtain m6 where m6: "cint (int (l * es)) = Some (int (l * es))"
        "(if nat (int (l * es)) > es then opal_qsort cmp addr es (a + n - l) (nat (int (l * es)) div es) m5 else Some m5) = Some m6"
        "rearr es (a + n - l) (a + n) m5 m6" "sorted_in cmp (a + n - l) (a + n) (elems es m6)"
        using sub [OF kl(2), of "a + n - l" m5] less.prems(1) rearr_length [OF r4] rearr_length [OF m5(3)] unfolding lx by auto
      have "sorted_in cmp a (a + n) (elems es m6)"
        by (rule three_way_sorted [OF m4(6) [folded k_def l_def] _ m5(3,4) m6(3,4)]) (use less.prems(1) rearr_length [OF r4] in simp)
      moreover have "rearr es a (a + n) m4 m5" "rearr es a (a + n) m5 m6" using rearr_mono [OF m5(3)] rearr_mono [OF m6(3)] kl by auto
      then have "rearr es a (a + n) mem m6" using r4 rearr_trans by blast
      moreover have "opal_qsort cmp addr es a n mem = Some m6"
        using False s m4(1-4) m5(1,2) m6(1,2)
        by (simp only: unf Let_def pm(1) m1(1) m2(1) bind.bind_lunit prod.case if_False k_def [symmetric] l_def [symmetric] dl)
      ultimately show ?thesis by blast
    qed
  qed
qed

end

end
