(* ===== verification/Comm_Split.thy ===== *)
theory Comm_Split
  imports Qsort_Partition Cart_Topology Group_Incl "HOL-Library.Product_Lexorder"
begin

text \<open>
  Splitting a communicator (\<^verbatim>\<open>ompi_comm_split\<close> in \<^verbatim>\<open>ompi/communicator/comm.c\<close>): which processes the new
  groups hold and in which order. What the allgather over the old communicator delivers is an argument, the
  colour and the key of every rank or its error code, and so is \<open>qsort\<close>: the C library's, or
  \<open>opal_qsort\<close> where that one is broken. \<^verbatim>\<open>sorted\<close> (\<open>blk\<close>) is a block of bytes with two
  \<^verbatim>\<open>int\<close>s per process, its old rank and its key. The allocations succeed as \<open>split_alloc\<close> says.
  The context identifier, the activation and the name of the new communicator are not modelled.
\<close>

section \<open>The code\<close>

definition int_at :: "byte list \<Rightarrow> nat \<Rightarrow> int" where
  "int_at p i = sint (le_word (take 4 (drop (4 * i) p)) :: 32 word)"

definition get_int :: "byte list \<Rightarrow> int \<Rightarrow> int option" where
  "get_int mem i = (if 0 \<le> i then do { b \<leftarrow> mem_get mem (4 * nat i) 4; Some (int_at b 0) } else None)"

definition put_int :: "byte list \<Rightarrow> int \<Rightarrow> int \<Rightarrow> byte list option" where
  "put_int mem i x = (if 0 \<le> i then mem_put mem (4 * nat i) (le_bytes 4 (word_of_int x :: 32 word)) else None)"

text \<open>Ranks at [0], key at [1].\<close>

definition rankkeycompare :: cmp_t where
  "rankkeycompare a b =
     (if int_at a 1 < int_at b 1 then - 1
      else if int_at a 1 > int_at b 1 then 1
      else if int_at a 1 = int_at b 1 then
        (if int_at a 0 < int_at b 0 then - 1
         else if int_at a 0 = int_at b 0 then 0
         else if int_at a 0 > int_at b 0 then 1
         else 0)
      else 0)"

text \<open>How many have the same colour as the caller, their ranks and keys, and the ranks once they are sorted.\<close>

definition count_colour :: "int \<Rightarrow> int \<Rightarrow> int list \<Rightarrow> int option" where
  "count_colour csize color results =
     for_loop 0 csize (\<lambda>i my_size. do { c \<leftarrow> aget results (2 * i + 0); Some (if c = color then my_size + 1 else my_size) }) 0"

definition fill_sorted :: "int \<Rightarrow> int \<Rightarrow> int list \<Rightarrow> byte list \<Rightarrow> (int \<times> byte list) option" where
  "fill_sorted csize color results blk =
     for_loop 0 csize (\<lambda>i (loc, blk). do {
       c \<leftarrow> aget results (2 * i + 0);
       if c = color then do {
         blk \<leftarrow> put_int blk (2 * loc + 0) i;
         key \<leftarrow> aget results (2 * i + 1);
         blk \<leftarrow> put_int blk (2 * loc + 1) key;
         Some (loc + 1, blk) }
       else Some (loc, blk) }) (0, blk)"

definition read_ranks :: "int \<Rightarrow> int \<Rightarrow> byte list \<Rightarrow> int list option" where
  "read_ranks junk my_size blk =
     for_loop 0 my_size (\<lambda>i lranks. do { x \<leftarrow> get_int blk (i * 2); aset lranks i x }) (replicate (nat my_size) junk)"

record split_alloc =
  al_results :: bool
  al_sorted :: bool
  al_ranks :: bool

text \<open>Step 1, the local group, and step 2, the remote group of an inter-communicator.\<close>

definition split_local ::
    "(nat \<Rightarrow> byte list \<Rightarrow> byte list option) \<Rightarrow> split_alloc \<Rightarrow> int \<Rightarrow> int \<Rightarrow> int \<Rightarrow> int + int list \<Rightarrow> (int + int list) option" where
  "split_local qsort al junk color csize allgather =
     (if \<not> al_results al then Some (Inl OPAL_ERR_OUT_OF_RESOURCE)
      else case allgather of Inl rc \<Rightarrow> Some (Inl rc)
      | Inr results \<Rightarrow> do {
          my_size \<leftarrow> count_colour csize color results;
          if my_size = 0 then Some (Inl OPAL_ERR_BAD_PARAM)
          else if \<not> al_sorted al then Some (Inl OPAL_ERR_OUT_OF_RESOURCE)
          else do {
            (loc, blk) \<leftarrow> fill_sorted csize color results (replicate (nat (my_size * 2) * 4) 0);
            blk \<leftarrow> (if my_size > 1 then qsort (nat my_size) blk else Some blk);
            if \<not> al_ranks al then Some (Inl OPAL_ERR_OUT_OF_RESOURCE)
            else do { lranks \<leftarrow> read_ranks junk my_size blk; Some (Inr lranks) } } })"

definition split_remote ::
    "(nat \<Rightarrow> byte list \<Rightarrow> byte list option) \<Rightarrow> split_alloc \<Rightarrow> int \<Rightarrow> int \<Rightarrow> int \<Rightarrow> int + int list \<Rightarrow> (int + int list) option" where
  "split_remote qsort al junk color rsize allgather =
     (if \<not> al_results al then Some (Inl OPAL_ERR_OUT_OF_RESOURCE)
      else case allgather of Inl rc \<Rightarrow> Some (Inl rc)
      | Inr rresults \<Rightarrow> do {
          my_rsize \<leftarrow> count_colour rsize color rresults;
          if my_rsize > 0 then
            (if \<not> al_sorted al then Some (Inl OPAL_ERR_OUT_OF_RESOURCE)
             else do {
               (loc, rsorted) \<leftarrow> fill_sorted rsize color rresults (replicate (nat (my_rsize * 2) * 4) 0);
               rsorted \<leftarrow> (if my_rsize > 1 then qsort (nat my_rsize) rsorted else Some rsorted);
               if \<not> al_ranks al then Some (Inl OPAL_ERR_OUT_OF_RESOURCE)
               else do { rranks \<leftarrow> read_ranks junk my_rsize rsorted; Some (Inr rranks) } })
          else Some (Inr []) })"

text \<open>
  The split of an intra-communicator with the group \<open>grp\<close>: the group of the new communicator, made by
  \<^verbatim>\<open>ompi_comm_set\<close> from the ranks. When that fails there is no communicator and the code returned is
  MPI_ERR_INTERN. A process that passes MPI_UNDEFINED is not a member.
\<close>

definition ompi_comm_split ::
    "(nat \<Rightarrow> byte list \<Rightarrow> byte list option) \<Rightarrow> split_alloc \<Rightarrow> bool \<Rightarrow> int option \<Rightarrow> int \<Rightarrow> 'p \<Rightarrow> 8 word \<Rightarrow> nat ptr \<Rightarrow>
     'p ompi_group \<Rightarrow> int \<Rightarrow> int + int list \<Rightarrow> 'p refcounts \<Rightarrow> 'p new_group" where
  "ompi_comm_split qsort al sparse before junk junkp junkb addr grp color allgather rc = do {
     r \<leftarrow> split_local qsort al junk color (grp_proc_count grp) allgather;
     case r of Inl e \<Rightarrow> Some (rc, Inl e)
     | Inr lranks \<Rightarrow> do {
         (rc, r) \<leftarrow> ompi_group_incl sparse before junk junkp junkb addr grp (int (length lranks)) lranks rc;
         case r of Inl e \<Rightarrow> Some (rc, Inl MPI_ERR_INTERN)
         | Inr new \<Rightarrow> Some (rc, Inr (if color = MPI_UNDEFINED then set_my_rank new MPI_UNDEFINED else new)) } }"

section \<open>Pairs of a key and a rank\<close>

definition pair_of :: "byte list \<Rightarrow> int \<times> int" where
  "pair_of e = (int_at e 1, int_at e 0)"

definition pair_bytes :: "int \<Rightarrow> int \<Rightarrow> byte list" where
  "pair_bytes i k = le_bytes 4 (word_of_int i :: 32 word) @ le_bytes 4 (word_of_int k :: 32 word)"

lemma length_pair_bytes [simp]: "length (pair_bytes i k) = 8"
  by (simp add: pair_bytes_def)

lemma sint_word_of_int_32: "is_cint x \<Longrightarrow> sint (word_of_int x :: 32 word) = x"
  by (simp add: signed_of_int signed_take_bit_int_eq_self is_cint_def INT_MIN_def INT_MAX_def)

lemma pair_of_bytes: "is_cint i \<Longrightarrow> is_cint k \<Longrightarrow> pair_of (pair_bytes i k) = (k, i)"
  by (simp add: pair_of_def pair_bytes_def int_at_def le_word_le_bytes sint_word_of_int_32)

lemma rankkeycompare_le: "rankkeycompare a b \<le> 0 \<longleftrightarrow> pair_of a \<le> pair_of b"
  by (auto simp: rankkeycompare_def pair_of_def less_eq_prod_def)

lemma rankkeycompare_less: "rankkeycompare a b < 0 \<longleftrightarrow> pair_of a < pair_of b"
  by (auto simp: rankkeycompare_def pair_of_def less_prod_def)

interpretation rank_key: c_order rankkeycompare
proof
  show "rankkeycompare y x > 0 \<longleftrightarrow> rankkeycompare x y < 0" for x y
    using rankkeycompare_le [of y x] rankkeycompare_less [of x y] by (auto simp: not_le)
  show "rankkeycompare x y \<le> 0 \<Longrightarrow> rankkeycompare y z \<le> 0 \<Longrightarrow> rankkeycompare x z \<le> 0" for x y z
    by (simp add: rankkeycompare_le)
qed

lemma elems_Nil [simp]: "elems es [] = []"
  by (simp add: elems_def)

lemma elems_block: "length x = es \<Longrightarrow> 0 < es \<Longrightarrow> elems es (x @ ys) = x # elems es ys"
proof (rule nth_equalityI)
  fix i assume es: "length x = es" "0 < es" and i: "i < length (elems es (x @ ys))"
  then show "elems es (x @ ys) ! i = (x # elems es ys) ! i"
    by (cases i) (simp_all add: nth_elems div_add_self1)
qed (simp add: div_add_self1)

lemma elems_concat: "0 < es \<Longrightarrow> \<forall>x \<in> set xs. length x = es \<Longrightarrow> elems es (concat xs) = xs"
  by (induction xs) (auto simp: elems_block)

section \<open>The ranks of one colour\<close>

text \<open>What the allgather delivers when rank \<open>q\<close> passes the colour and the key \<open>ck q\<close>.\<close>

definition gathered :: "(int \<Rightarrow> int \<times> int) \<Rightarrow> int \<Rightarrow> int list" where
  "gathered ck n = concat (map (\<lambda>q. [fst (ck q), snd (ck q)]) [0..n - 1])"

lemma aget_gathered:
  assumes "0 \<le> i" and "i < n"
  shows "aget (gathered ck n) (2 * i) = Some (fst (ck i))" and "aget (gathered ck n) (2 * i + 1) = Some (snd (ck i))"
proof -
  have len: "length (concat (map (\<lambda>q. [f q, g q]) qs)) = 2 * length qs" for f g :: "int \<Rightarrow> int" and qs by (induction qs) auto
  have nth: "concat (map (\<lambda>q. [f q, g q]) qs) ! (2 * k) = f (qs ! k) \<and> concat (map (\<lambda>q. [f q, g q]) qs) ! (2 * k + 1) = g (qs ! k)"
    if "k < length qs" for f g :: "int \<Rightarrow> int" and qs k
    using that
  proof (induction qs arbitrary: k)
    case (Cons q qs)
    then show ?case by (cases k) auto
  qed simp
  have n: "nat i < length [0..n - 1]" "[0..n - 1] ! nat i = i" using assms by auto
  have ix: "nat (2 * i) = 2 * nat i" "nat (2 * i + 1) = 2 * nat i + 1" using assms(1) by auto
  show "aget (gathered ck n) (2 * i) = Some (fst (ck i))" "aget (gathered ck n) (2 * i + 1) = Some (snd (ck i))"
    using nth [OF n(1), of "\<lambda>q. fst (ck q)" "\<lambda>q. snd (ck q)"] n(2) assms by (auto simp: gathered_def aget_def len ix)
qed

definition coloured :: "(int \<Rightarrow> int \<times> int) \<Rightarrow> int \<Rightarrow> int \<Rightarrow> int list" where
  "coloured ck color i = filter (\<lambda>q. fst (ck q) = color) [0..i - 1]"

lemma coloured_0 [simp]: "coloured ck color 0 = []"
  by (simp add: coloured_def)

lemma coloured_step: "0 \<le> i \<Longrightarrow> coloured ck color (i + 1) = coloured ck color i @ (if fst (ck i) = color then [i] else [])"
  by (simp add: coloured_def upto_rec2)

lemma length_coloured_mono:
  assumes "0 \<le> i" and "i \<le> j"
  shows "length (coloured ck color i) \<le> length (coloured ck color j)"
  using assms(2) by (induction rule: int_ge_induct) (use assms(1) in \<open>auto simp: coloured_step\<close>)

lemma count_colour_ok:
  assumes "0 \<le> n"
  shows "count_colour n color (gathered ck n) = Some (int (length (coloured ck color n)))"
proof -
  have "\<exists>s. count_colour n color (gathered ck n) = Some s \<and> s = int (length (coloured ck color n))"
    unfolding count_colour_def
    by (rule for_loop_rule [where P = "\<lambda>i s. s = int (length (coloured ck color i))"]) (use assms in \<open>auto simp: aget_gathered coloured_step\<close>)
  then show ?thesis by simp
qed

text \<open>Two \<^verbatim>\<open>int\<close>s next to each other.\<close>

lemma put_pair:
  assumes "mem = A @ replicate (8 * Suc k) 0" and "length A = 8 * l"
  shows "\<exists>m. put_int mem (2 * int l) i = Some m \<and> put_int m (2 * int l + 1) x = Some (A @ pair_bytes i x @ replicate (8 * k) 0)"
proof -
  have ix: "4 * nat (2 * int l) = 8 * l" "4 * nat (2 * int l + 1) = 8 * l + 4" by auto
  have "mem_put mem (8 * l) (pair_bytes i x) = Some (A @ pair_bytes i x @ replicate (8 * k) 0)"
    using assms by (simp add: mem_put_def)
  moreover obtain m where m: "put_int mem (2 * int l) i = Some m" using assms by (simp add: put_int_def ix mem_put_def)
  then have "mem_put mem (8 * l) (le_bytes 4 (word_of_int i :: 32 word)) = Some m" by (simp add: put_int_def ix)
  from mem_put_append [OF this, of "le_bytes 4 (word_of_int x :: 32 word)"]
  have "put_int m (2 * int l + 1) x = mem_put mem (8 * l) (pair_bytes i x)" by (simp add: put_int_def ix pair_bytes_def)
  ultimately show ?thesis using m by simp
qed

definition pairs :: "(int \<Rightarrow> int \<times> int) \<Rightarrow> int list \<Rightarrow> byte list" where
  "pairs ck qs = concat (map (\<lambda>q. pair_bytes q (snd (ck q))) qs)"

lemma pairs_simps [simp]: "pairs ck [] = []" "pairs ck (qs @ [q]) = pairs ck qs @ pair_bytes q (snd (ck q))"
  by (simp_all add: pairs_def)

lemma length_pairs [simp]: "length (pairs ck qs) = 8 * length qs"
  by (induction qs) (auto simp: pairs_def)

lemma elems_pairs: "elems 8 (pairs ck qs) = map (\<lambda>q. pair_bytes q (snd (ck q))) qs"
  unfolding pairs_def by (rule elems_concat) auto

lemma fill_sorted_ok:
  fixes ck color n
  assumes "0 \<le> n"
  defines "m \<equiv> length (coloured ck color n)"
  shows "fill_sorted n color (gathered ck n) (replicate (8 * m) 0) = Some (int m, pairs ck (coloured ck color n))"
proof -
  let ?c = "coloured ck color"
  have "\<exists>s. fill_sorted n color (gathered ck n) (replicate (8 * m) 0) = Some s \<and>
      s = (int (length (?c n)), pairs ck (?c n) @ replicate (8 * (m - length (?c n))) 0)"
    unfolding fill_sorted_def
  proof (rule for_loop_rule [where P = "\<lambda>i s. s = (int (length (?c i)), pairs ck (?c i) @ replicate (8 * (m - length (?c i))) 0)"])
    fix i s
    assume i: "0 \<le> i" "i < n" and s: "s = (int (length (?c i)), pairs ck (?c i) @ replicate (8 * (m - length (?c i))) 0)"
    show "\<exists>s'. (case s of (loc, blk) \<Rightarrow> do {
         c \<leftarrow> aget (gathered ck n) (2 * i + 0);
         if c = color then do {
           blk \<leftarrow> put_int blk (2 * loc + 0) i;
           key \<leftarrow> aget (gathered ck n) (2 * i + 1);
           blk \<leftarrow> put_int blk (2 * loc + 1) key;
           Some (loc + 1, blk) }
         else Some (loc, blk) }) = Some s' \<and> s' = (int (length (?c (i + 1))), pairs ck (?c (i + 1)) @ replicate (8 * (m - length (?c (i + 1)))) 0)"
    proof (cases "fst (ck i) = color")
      case True
      then have "Suc (length (?c i)) \<le> m" using length_coloured_mono [of "i + 1" n ck color] i by (simp add: m_def coloured_step)
      then have "m - length (?c i) = Suc (m - Suc (length (?c i)))" by simp
      then obtain b where b: "put_int (pairs ck (?c i) @ replicate (8 * (m - length (?c i))) 0) (2 * int (length (?c i))) i = Some b"
        "put_int b (2 * int (length (?c i)) + 1) (snd (ck i)) =
           Some (pairs ck (?c i) @ pair_bytes i (snd (ck i)) @ replicate (8 * (m - Suc (length (?c i)))) 0)"
        using put_pair [where A = "pairs ck (?c i)" and l = "length (?c i)" and i = i and x = "snd (ck i)"] by (metis length_pairs)
      then show ?thesis using True s i by (simp add: aget_gathered coloured_step)
    next
      case False
      then show ?thesis using s i by (simp add: aget_gathered coloured_step)
    qed
  qed (use assms(1) in auto)
  then show ?thesis by (simp add: m_def)
qed

lemma read_ranks_ok:
  assumes "length blk = 8 * m"
  shows "read_ranks junk (int m) blk = Some (map (\<lambda>e. int_at e 0) (elems 8 blk))"
proof -
  have len: "length (elems 8 blk) = m" using assms by simp
  have g: "get_int blk (i * 2) = Some (int_at (elems 8 blk ! nat i) 0)" if "0 \<le> i" "i < int m" for i
  proof -
    have "4 * nat (i * 2) = nat i * 8" "nat i < m" using that by auto
    then show ?thesis using that assms elem_end [of "nat i" blk 8] by (simp add: get_int_def int_at_def mem_get_def nth_elems min_def mult.commute)
  qed
  have "\<exists>s. read_ranks junk (int m) blk = Some s \<and> length s = m \<and> (\<forall>k < nat (int m). s ! k = int_at (elems 8 blk ! k) 0)"
    unfolding read_ranks_def
    by (rule for_loop_rule [where P = "\<lambda>i s. length s = m \<and> (\<forall>k < nat i. s ! k = int_at (elems 8 blk ! k) 0)"])
      (auto simp: g aset_def nth_list_update nat_add_distrib less_Suc_eq)
  then obtain s where s: "read_ranks junk (int m) blk = Some s" "length s = m" "\<forall>k < m. s ! k = int_at (elems 8 blk ! k) 0" by auto
  then have "s = map (\<lambda>e. int_at e 0) (elems 8 blk)" using len by (intro nth_equalityI) auto
  then show ?thesis using s(1) by simp
qed

section \<open>What the sort owes\<close>

text \<open>
  The contract of the C library's \<^verbatim>\<open>qsort\<close> on an array of the \<open>n\<close> pairs: the elements come back
  in the order of the comparison.
\<close>

locale pair_sorter =
  fixes qsort :: "nat \<Rightarrow> byte list \<Rightarrow> byte list option"
  assumes qsort_sorts: "length mem = 8 * n \<Longrightarrow> int (8 * n) \<le> INT_MAX \<Longrightarrow>
    \<exists>mem'. qsort n mem = Some mem' \<and> length mem' = length mem \<and> mset (elems 8 mem') = mset (elems 8 mem) \<and>
      sorted_wrt (\<lambda>x y. rankkeycompare x y \<le> 0) (elems 8 mem')"
begin

lemma sorted_ranks:
  assumes len: "length mem = 8 * n" and fits: "int (8 * n) \<le> INT_MAX"
  obtains mem' where "(if int n > 1 then qsort (nat (int n)) mem else Some mem) = Some mem'" "length mem' = 8 * n"
    "map pair_of (elems 8 mem') = sort (map pair_of (elems 8 mem))"
proof (cases "1 < n")
  case True
  obtain m where m: "qsort n mem = Some m" "length m = length mem" "mset (elems 8 m) = mset (elems 8 mem)"
    "sorted_wrt (\<lambda>x y. rankkeycompare x y \<le> 0) (elems 8 m)" using qsort_sorts [OF len fits] by blast
  have "sorted (map pair_of (elems 8 m))" using m(4) by (simp add: sorted_wrt_map rankkeycompare_le)
  moreover have "mset (map pair_of (elems 8 m)) = mset (map pair_of (elems 8 mem))" using m(3) by simp
  ultimately have "map pair_of (elems 8 m) = sort (map pair_of (elems 8 mem))" by (metis properties_for_sort)
  then show thesis using that [of m] True m(1,2) len by simp
next
  case False
  then have "length (map pair_of (elems 8 mem)) \<le> 1" using len by simp
  then have "sorted (map pair_of (elems 8 mem))" by (rule sorted01)
  then show thesis using that [of mem] False len by (simp add: sorted_sort_id)
qed

lemma split_ranks:
  assumes n: "0 \<le> n" "8 * n \<le> INT_MAX" and ck: "\<forall>q. 0 \<le> q \<and> q < n \<longrightarrow> is_cint (snd (ck q))"
  obtains blk where "fill_sorted n color (gathered ck n) (replicate (nat (int (length (coloured ck color n)) * 2) * 4) 0) =
      Some (int (length (coloured ck color n)), pairs ck (coloured ck color n))"
    "(if int (length (coloured ck color n)) > 1 then qsort (nat (int (length (coloured ck color n)))) (pairs ck (coloured ck color n))
      else Some (pairs ck (coloured ck color n))) = Some blk"
    "read_ranks junk (int (length (coloured ck color n))) blk = Some (sort_key (\<lambda>q. (snd (ck q), q)) (coloured ck color n))"
proof -
  let ?c = "coloured ck color n"
  have "length ?c \<le> nat n" unfolding coloured_def using length_filter_le [of _ "[0..n - 1]"] by simp
  then have fits: "int (8 * length ?c) \<le> INT_MAX" using n by linarith
  have q: "is_cint q" "is_cint (snd (ck q))" if "q \<in> set ?c" for q
    using that ck n by (auto simp: coloured_def is_cint_def INT_MIN_def INT_MAX_def)
  obtain blk where blk: "(if int (length ?c) > 1 then qsort (nat (int (length ?c))) (pairs ck ?c) else Some (pairs ck ?c)) = Some blk"
    "length blk = 8 * length ?c" "map pair_of (elems 8 blk) = sort (map pair_of (elems 8 (pairs ck ?c)))"
    by (rule sorted_ranks [OF length_pairs fits])
  have "map pair_of (elems 8 (pairs ck ?c)) = map (\<lambda>q. (snd (ck q), q)) ?c" using q by (simp add: elems_pairs pair_of_bytes)
  then have "map pair_of (elems 8 blk) = sort (map (\<lambda>q. (snd (ck q), q)) ?c)" using blk(3) by simp
  also have "\<dots> = map (\<lambda>q. (snd (ck q), q)) (sort_key (\<lambda>q. (snd (ck q), q)) ?c)"
    by (rule properties_for_sort) simp_all
  finally have "map snd (map pair_of (elems 8 blk)) = map snd (map (\<lambda>q. (snd (ck q), q)) (sort_key (\<lambda>q. (snd (ck q), q)) ?c))" by (simp only:)
  then have "map (\<lambda>e. int_at e 0) (elems 8 blk) = sort_key (\<lambda>q. (snd (ck q), q)) ?c" by (simp add: pair_of_def comp_def)
  then have r: "read_ranks junk (int (length ?c)) blk = Some (sort_key (\<lambda>q. (snd (ck q), q)) ?c)" using read_ranks_ok [OF blk(2)] by simp
  have "nat (int (length ?c) * 2) * 4 = 8 * length ?c" by simp
  then have "fill_sorted n color (gathered ck n) (replicate (nat (int (length ?c) * 2) * 4) 0) = Some (int (length ?c), pairs ck ?c)"
    using fill_sorted_ok [OF n(1), of color ck] by simp
  then show thesis using that blk(1) r by blast
qed

lemma split_local_ok:
  assumes n: "0 \<le> n" "8 * n \<le> INT_MAX" and ck: "\<forall>q. 0 \<le> q \<and> q < n \<longrightarrow> is_cint (snd (ck q))"
    and al: "al_results al" "al_sorted al" "al_ranks al" and ne: "coloured ck color n \<noteq> []"
  shows "split_local qsort al junk color n (Inr (gathered ck n)) = Some (Inr (sort_key (\<lambda>q. (snd (ck q), q)) (coloured ck color n)))"
proof -
  obtain blk where b: "fill_sorted n color (gathered ck n) (replicate (nat (int (length (coloured ck color n)) * 2) * 4) 0) =
      Some (int (length (coloured ck color n)), pairs ck (coloured ck color n))"
    "(if int (length (coloured ck color n)) > 1 then qsort (nat (int (length (coloured ck color n)))) (pairs ck (coloured ck color n))
      else Some (pairs ck (coloured ck color n))) = Some blk"
    "read_ranks junk (int (length (coloured ck color n))) blk = Some (sort_key (\<lambda>q. (snd (ck q), q)) (coloured ck color n))"
    by (rule split_ranks [OF n ck])
  show ?thesis unfolding split_local_def by (simp only: al count_colour_ok [OF n(1)] b sum.case bind.bind_lunit prod.case not_True_eq_False if_False of_nat_eq_0_iff length_0_conv ne)
qed

lemma split_remote_ok:
  assumes n: "0 \<le> n" "8 * n \<le> INT_MAX" and ck: "\<forall>q. 0 \<le> q \<and> q < n \<longrightarrow> is_cint (snd (ck q))"
    and al: "al_results al" "al_sorted al" "al_ranks al"
  shows "split_remote qsort al junk color n (Inr (gathered ck n)) = Some (Inr (sort_key (\<lambda>q. (snd (ck q), q)) (coloured ck color n)))"
proof -
  obtain blk where b: "fill_sorted n color (gathered ck n) (replicate (nat (int (length (coloured ck color n)) * 2) * 4) 0) =
      Some (int (length (coloured ck color n)), pairs ck (coloured ck color n))"
    "(if int (length (coloured ck color n)) > 1 then qsort (nat (int (length (coloured ck color n)))) (pairs ck (coloured ck color n))
      else Some (pairs ck (coloured ck color n))) = Some blk"
    "read_ranks junk (int (length (coloured ck color n))) blk = Some (sort_key (\<lambda>q. (snd (ck q), q)) (coloured ck color n))"
    by (rule split_ranks [OF n ck])
  show ?thesis
  proof (cases "coloured ck color n = []")
    case True
    then show ?thesis unfolding split_remote_def by (simp add: al count_colour_ok [OF n(1)])
  next
    case False
    then show ?thesis unfolding split_remote_def
      by (simp only: al count_colour_ok [OF n(1)] b sum.case bind.bind_lunit prod.case not_True_eq_False if_False of_nat_0_less_iff length_greater_0_conv) simp
  qed
qed

end

text \<open>\<open>opal_qsort\<close> keeps the contract, wherever the array lies.\<close>

interpretation opal_sorter: pair_sorter "opal_qsort rankkeycompare addr 8 0" for addr
proof
  fix mem :: "byte list" and n assume len: "length mem = 8 * n" and fits: "int (8 * n) \<le> INT_MAX"
  obtain m where m: "opal_qsort rankkeycompare addr 8 0 n mem = Some m" "rearr 8 0 (0 + n) mem m" "sorted_in rankkeycompare 0 (0 + n) (elems 8 m)"
    using rank_key.opal_qsort_ok [of 8 0 n mem addr] len fits by (auto simp: mult.commute)
  have "length m = length mem" "mset (elems 8 m) = mset (elems 8 mem)" using m(2) by (simp_all add: rearr_def perm_in_def)
  moreover have "sorted_wrt (\<lambda>x y. rankkeycompare x y \<le> 0) (elems 8 m)"
    using m(3) len calculation(1) by (auto simp: sorted_wrt_iff_nth_less sorted_in_def)
  ultimately show "\<exists>mem'. opal_qsort rankkeycompare addr 8 0 n mem = Some mem' \<and> length mem' = length mem \<and>
      mset (elems 8 mem') = mset (elems 8 mem) \<and> sorted_wrt (\<lambda>x y. rankkeycompare x y \<le> 0) (elems 8 mem')" using m(1) by blast
qed

section \<open>The new group\<close>

lemma sort_key_position:
  fixes f :: "'a \<Rightarrow> 'b :: linorder"
  assumes "r \<in> set xs" and "distinct xs" and "inj f"
  shows "length (filter (\<lambda>q. f q < f r) xs) < length xs" and "sort_key f xs ! length (filter (\<lambda>q. f q < f r) xs) = r"
proof -
  define ys where "ys = sort_key f xs"
  have ys: "distinct ys" "sorted (map f ys)" "length ys = length xs" "mset ys = mset xs" using assms(2) by (simp_all add: ys_def)
  obtain i where i: "i < length ys" "ys ! i = r" using assms(1) by (metis in_set_conv_nth set_sort ys_def)
  have "f (ys ! j) < f r \<longleftrightarrow> j < i" if j: "j < length ys" for j
  proof -
    have ne: "f (ys ! j) \<noteq> f r" if "j \<noteq> i" using nth_eq_iff_index_eq [OF ys(1) j i(1)] i(2) that assms(3) by (auto dest: injD)
    have "j \<le> i \<Longrightarrow> f (ys ! j) \<le> f r" "i \<le> j \<Longrightarrow> f r \<le> f (ys ! j)"
      using sorted_nth_mono [OF ys(2), of j i] sorted_nth_mono [OF ys(2), of i j] i j by simp_all
    then show ?thesis using ne by (cases j i rule: linorder_cases) (auto simp: i(2))
  qed
  then have "{j. j < length ys \<and> f (ys ! j) < f r} = {..<i}" using i(1) by auto
  then have "length (filter (\<lambda>q. f q < f r) ys) = i" by (simp add: length_filter_conv_card)
  moreover have "length (filter (\<lambda>q. f q < f r) ys) = length (filter (\<lambda>q. f q < f r) xs)" by (metis ys(4) mset_filter size_mset)
  ultimately show "length (filter (\<lambda>q. f q < f r) xs) < length xs" "sort_key f xs ! length (filter (\<lambda>q. f q < f r) xs) = r"
    using i ys(3) by (simp_all add: ys_def)
qed

lemma split_rank_position:
  fixes ck n r
  assumes "0 \<le> r" and "r < n"
  defines "ranks \<equiv> sort_key (\<lambda>q. (snd (ck q), q)) (split_members ck n r)"
  shows "0 \<le> split_rank ck n r" and "split_rank ck n r < split_size ck n r" and "ranks ! nat (split_rank ck n r) = r"
proof -
  have m: "r \<in> set (split_members ck n r)" "distinct (split_members ck n r)" using assms(1,2) by (auto simp: split_members_def)
  have inj: "inj (\<lambda>q. (snd (ck q), q))" by (rule injI) simp
  have "split_rank ck n r = int (length (filter (\<lambda>q. (snd (ck q), q) < (snd (ck r), r)) (split_members ck n r)))"
    unfolding split_rank_def less_prod_simp by (rule arg_cong [where f = int], rule arg_cong [where f = length], rule filter_cong) auto
  then show "0 \<le> split_rank ck n r" "split_rank ck n r < split_size ck n r" "ranks ! nat (split_rank ck n r) = r"
    using sort_key_position [OF m inj] by (simp_all add: ranks_def split_size_def)
qed

context pair_sorter
begin

lemma comm_split_group:
  assumes g: "grp_ok me g" "me \<in> set (grp_procs g)" "fresh_addr a g" and n: "8 * grp_proc_count g \<le> INT_MAX"
    and ck: "\<forall>q. 0 \<le> q \<and> q < grp_proc_count g \<longrightarrow> is_cint (snd (ck q))"
    and al: "al_results al" "al_sorted al" "al_ranks al" and col: "fst (ck (grp_my_rank g)) \<noteq> MPI_UNDEFINED"
  shows "\<exists>rc' new. ompi_comm_split qsort al sparse (Some before) junk junkp junkb (Ptr a) g (fst (ck (grp_my_rank g)))
      (Inr (gathered ck (grp_proc_count g))) rc = Some (rc', Inr new) \<and> grp_ok me new \<and>
    grp_procs new = map (\<lambda>q. grp_procs g ! nat q) (sort_key (\<lambda>q. (snd (ck q), q)) (split_members ck (grp_proc_count g) (grp_my_rank g))) \<and>
    grp_proc_count new = split_size ck (grp_proc_count g) (grp_my_rank g) \<and> grp_my_rank new = split_rank ck (grp_proc_count g) (grp_my_rank g)"
proof -
  let ?r = "grp_my_rank g" and ?n = "grp_proc_count g"
  let ?m = "split_members ck ?n ?r"
  define ranks where "ranks = sort_key (\<lambda>q. (snd (ck q), q)) ?m"
  have r: "0 \<le> ?r" "?r < ?n" "grp_procs g ! nat ?r = me" using g(1,2) by (simp_all add: grp_ok_def my_rank_ok_def)
  have mem: "coloured ck (fst (ck ?r)) ?n = ?m" by (simp add: coloured_def split_members_def)
  have "?r \<in> set ?m" using r by (simp add: split_members_def)
  then have ne: "coloured ck (fst (ck ?r)) ?n \<noteq> []" unfolding mem by auto
  have sl: "split_local qsort al junk (fst (ck ?r)) ?n (Inr (gathered ck ?n)) = Some (Inr ranks)"
    using split_local_ok [OF _ n ck al ne, of junk] r unfolding mem ranks_def by simp
  have pre: "incl_pre me a g ranks" using g by (auto simp: incl_pre_def ranks_def split_members_def)
  obtain rc' new where new: "ompi_group_incl sparse (Some before) junk junkp junkb (Ptr a) g (int (length ranks)) ranks rc = Some (rc', Inr new)"
    "grp_ok me new" "grp_procs new = map (\<lambda>q. grp_procs g ! nat q) ranks"
    using incl_ok [OF pre, of sparse before junk junkp junkb rc] g(2) by (auto simp: incl_post_iff)
  have len: "grp_proc_count new = int (length ranks)" using new(2,3) length_grp_procs [of new] by (simp add: grp_ok_def)
  have pos: "0 \<le> split_rank ck ?n ?r" "split_rank ck ?n ?r < split_size ck ?n ?r" "ranks ! nat (split_rank ck ?n ?r) = ?r"
    using split_rank_position [OF r(1,2), of ck] by (simp_all add: ranks_def)
  have ss: "split_size ck ?n ?r = int (length ranks)" by (simp add: split_size_def ranks_def)
  have at: "grp_procs new ! nat (split_rank ck ?n ?r) = me" "nat (split_rank ck ?n ?r) < length (grp_procs new)" using pos r(3) new(3) ss by (simp_all add: nat_less_iff)
  then have "me \<in> set (grp_procs new)" by (metis nth_mem)
  then have my: "0 \<le> grp_my_rank new" "grp_my_rank new < grp_proc_count new" "grp_procs new ! nat (grp_my_rank new) = me" "distinct (grp_procs new)"
    using new(2) by (simp_all add: grp_ok_def my_rank_ok_def)
  have "nat (grp_my_rank new) = nat (split_rank ck ?n ?r)"
    using nth_eq_iff_index_eq [OF my(4), of "nat (grp_my_rank new)" "nat (split_rank ck ?n ?r)"] at my len new(3) by (simp add: nat_less_iff)
  then have "grp_my_rank new = split_rank ck ?n ?r" using my(1) pos(1) by simp
  then show ?thesis using sl new len ss col by (simp add: ompi_comm_split_def ranks_def)
qed

end

section \<open>Sub-grids\<close>

text \<open>The split as \<open>mca_topo_base_cart_sub\<close> calls it: the size of the new communicator and the rank in it.\<close>

definition split_by ::
    "(nat \<Rightarrow> byte list \<Rightarrow> byte list option) \<Rightarrow> split_alloc \<Rightarrow> bool \<Rightarrow> int option \<Rightarrow> int \<Rightarrow> 'p \<Rightarrow> 8 word \<Rightarrow> nat ptr \<Rightarrow>
     'p ompi_group \<Rightarrow> int + int list \<Rightarrow> 'p refcounts \<Rightarrow> int \<Rightarrow> int \<Rightarrow> (int + (int \<times> int)) option" where
  "split_by qsort al sparse before junk junkp junkb addr grp allgather rc color key =
     map_option (\<lambda>(_, result). map_sum id (\<lambda>new. (grp_proc_count new, grp_my_rank new)) result)
       (ompi_comm_split qsort al sparse before junk junkp junkb addr grp color allgather rc)"

lemma cart_sub_asks_once:
  "sub_colour_key comm rs = Some (colour, key, ndim) \<Longrightarrow>
   mca_topo_base_cart_sub al split sel comm rs = mca_topo_base_cart_sub al (\<lambda>_ _. split colour key) sel comm rs"
  by (simp add: mca_topo_base_cart_sub_def)

lemma prod_kept_le: "pos_dims ds \<Longrightarrow> length rs = length ds \<Longrightarrow> 0 < prod_list (kept rs ds) \<and> prod_list (kept rs ds) \<le> prod_list ds"
proof (induction rs arbitrary: ds)
  case (Cons r rs)
  then obtain d ds' where ds: "ds = d # ds'" by (cases ds) auto
  have d: "0 < d" "pos_dims ds'" using Cons.prems(1) ds by (auto simp: pos_dims_def)
  have IH: "0 < prod_list (kept rs ds')" "prod_list (kept rs ds') \<le> prod_list ds'" using Cons.IH [OF d(2)] Cons.prems(2) ds by auto
  have "prod_list ds' \<le> d * prod_list ds'" using d(1) IH by (simp add: mult_le_cancel_right1)
  then show ?case using ds d(1) IH by (auto intro: order_trans)
qed simp

lemma sub_request_bounds:
  assumes wf: "cart_wf comm" and rs: "length rs = length (dims (cart comm))" and q: "0 \<le> q" "q < comm_size comm"
  shows "0 \<le> fst (sub_request comm rs q)" and "0 \<le> snd (sub_request comm rs q)" and "snd (sub_request comm rs q) < comm_size comm"
proof -
  let ?ds = "dims (cart comm)"
  have ds: "pos_dims ?ds" "comm_size comm = prod_list ?ds" using wf by (simp_all add: cart_wf_def)
  have g: "in_grid ?ds (cart_digits ?ds q)" using cart_digits_grid [OF ds(1)] q ds(2) by simp
  note b = in_grid_kept [OF g rs]
  show "0 \<le> fst (sub_request comm rs q)" "0 \<le> snd (sub_request comm rs q)" "snd (sub_request comm rs q) < comm_size comm"
    using cart_value_bounds [OF b [THEN conjunct1]] cart_value_bounds [OF b [THEN conjunct2]] prod_kept_le [OF ds(1) rs] q ds(2)
    by (auto simp: sub_request_ok [OF wf rs q])
qed

section \<open>Properties\<close>

text \<open>C35: opal_qsort, called with a comparison that orders the elements, returns whatever the size and the
  alignment of the elements: the \<open>n\<close> elements from element \<open>a\<close> on are then in order, they are a permutation
  of what they were, and every other element of the array is where it was. The part to sort must not be
  larger than an int can count.\<close>

theorem opal_qsort_sorts:
  assumes "c_order cmp" and "0 < es" and "a + n \<le> length mem div es" and "int (n * es) \<le> INT_MAX"
  shows "\<exists>mem'. opal_qsort cmp addr es a n mem = Some mem' \<and> length mem' = length mem \<and>
           sorted_wrt (\<lambda>x y. cmp x y \<le> 0) (take n (drop a (elems es mem'))) \<and>
           mset (take n (drop a (elems es mem'))) = mset (take n (drop a (elems es mem))) \<and>
           take a (elems es mem') = take a (elems es mem) \<and> drop (a + n) (elems es mem') = drop (a + n) (elems es mem)"
proof -
  obtain m where m: "opal_qsort cmp addr es a n mem = Some m" "rearr es a (a + n) mem m" "sorted_in cmp a (a + n) (elems es m)"
    using c_order.opal_qsort_ok [OF assms, of addr] by blast
  have p: "length m = length mem" "perm_in a (a + n) (elems es mem) (elems es m)" using m(2) by (simp_all add: rearr_def)
  have "sorted_wrt (\<lambda>x y. cmp x y \<le> 0) (take n (drop a (elems es m)))"
    using m(3) p(1) assms(3) by (auto simp: sorted_wrt_iff_nth_less sorted_in_def)
  moreover have "mset (take n (drop a (elems es m))) = mset (take n (drop a (elems es mem)))"
    using perm_in_slice [OF p(2)] assms(3) by simp
  ultimately show ?thesis using m(1) p by (simp add: perm_in_def)
qed

theorem opal_qsort_sorts_witness:
  "\<exists>mem'. opal_qsort rankkeycompare 3 8 0 2 [1, 0, 0, 0, 5, 0, 0, 0, 0, 0, 0, 0, 4, 0, 0, 0] = Some mem' \<and>
     sorted_wrt (\<lambda>x y. rankkeycompare x y \<le> 0) (elems 8 mem')"
proof -
  let ?mem = "[1, 0, 0, 0, 5, 0, 0, 0, 0, 0, 0, 0, 4, 0, 0, 0] :: byte list"
  obtain m where m: "opal_qsort rankkeycompare 3 8 0 2 ?mem = Some m" "length m = length ?mem"
    "sorted_wrt (\<lambda>x y. rankkeycompare x y \<le> 0) (take 2 (drop 0 (elems 8 m)))"
    using opal_qsort_sorts [OF rank_key.c_order_axioms, of 8 0 2 ?mem 3] by (auto simp: INT_MAX_def)
  then show ?thesis by simp
qed

text \<open>C36: MPI_Comm_split on an intra-communicator: with any qsort that keeps its contract, a process gets a
  group that holds exactly the processes which passed its colour, ordered by key and, where keys are equal, by
  old rank, whichever storage format the group takes (the word in front of the list of ranks is readable); its size and the caller's rank in it are those of that
  order.\<close>

theorem comm_split_members:
  assumes "pair_sorter qsort" and "grp_ok me g" and "me \<in> set (grp_procs g)" and "fresh_addr a g" and "8 * grp_proc_count g \<le> INT_MAX"
    and "\<forall>q. 0 \<le> q \<and> q < grp_proc_count g \<longrightarrow> is_cint (snd (ck q))"
    and "al_results al" and "al_sorted al" and "al_ranks al" and "color = fst (ck (grp_my_rank g))" and "color \<noteq> MPI_UNDEFINED"
  shows "\<exists>rc' new. ompi_comm_split qsort al sparse (Some before) junk junkp junkb (Ptr a) g color (Inr (gathered ck (grp_proc_count g))) rc = Some (rc', Inr new) \<and>
    grp_ok me new \<and>
    grp_procs new = map (\<lambda>q. grp_procs g ! nat q) (sort_key (\<lambda>q. (snd (ck q), q)) (split_members ck (grp_proc_count g) (grp_my_rank g))) \<and>
    grp_proc_count new = split_size ck (grp_proc_count g) (grp_my_rank g) \<and> grp_my_rank new = split_rank ck (grp_proc_count g) (grp_my_rank g)"
  using pair_sorter.comm_split_group [OF assms(1-9)] assms(10,11) by simp

theorem comm_split_members_witness:
  "\<exists>rc' new. ompi_comm_split (opal_qsort rankkeycompare 0 8 0) \<lparr>al_results = True, al_sorted = True, al_ranks = True\<rparr> False (Some 0) 0 9 0 (Ptr 2)
       (Group 1 4 3 (Dense [3, 4, 5, 6 :: nat])) 1 (Inr [1, 7, 0, 5, 1, 7, 1, 2]) (\<lambda>_. 1) = Some (rc', Inr new) \<and>
     grp_procs new = [6, 3, 5] \<and> grp_my_rank new = 0"
proof -
  let ?g = "Group 1 4 3 (Dense [3, 4, 5, 6 :: nat])" and ?al = "\<lparr>al_results = True, al_sorted = True, al_ranks = True\<rparr>"
  let ?ck = "\<lambda>q :: int. if q = 0 then (1, 7) else if q = 1 then (0, 5) else if q = 2 then (1, 7) else (1 :: int, 2 :: int)"
  have g: "grp_ok 6 ?g" "6 \<in> set (grp_procs ?g)" "fresh_addr 2 ?g" by (simp_all add: grp_ok_def my_rank_ok_def fresh_addr_def grp_parent_group_ptr_def)
  have up: "[0..3] = [0, 1, 2, 3 :: int]" by (simp add: upto_rec1)
  have c: "8 * grp_proc_count ?g \<le> INT_MAX" "\<forall>q. 0 \<le> q \<and> q < grp_proc_count ?g \<longrightarrow> is_cint (snd (?ck q))" "al_results ?al" "al_sorted ?al" "al_ranks ?al"
    "1 = fst (?ck (grp_my_rank ?g))" "1 \<noteq> MPI_UNDEFINED" by (simp_all add: INT_MAX_def INT_MIN_def is_cint_def MPI_UNDEFINED_def)
  have e: "gathered ?ck (grp_proc_count ?g) = [1, 7, 0, 5, 1, 7, 1, 2]" "split_members ?ck (grp_proc_count ?g) (grp_my_rank ?g) = [0, 2, 3]"
    "split_rank ?ck (grp_proc_count ?g) (grp_my_rank ?g) = 0" by (simp_all add: gathered_def split_members_def split_rank_def up)
  have s: "sort_key (\<lambda>q. (snd (?ck q), q)) [0, 2, 3] = [3, 0, 2]" by (simp add: insort_key.simps)
  from comm_split_members [OF opal_sorter.pair_sorter_axioms [of 0] g c, of False 0 0 9 0 "\<lambda>_. 1"] show ?thesis
    unfolding e s by auto
qed

text \<open>C21: Splitting a Cartesian communicator into sub-grids (MPI_Cart_sub over MPI_Comm_split): the colours and
  keys the processes compute, gathered and sorted by the split, put every process into a communicator with exactly
  one process per point of its sub-grid, and the topology it gets there is well-formed and has the kept
  dimensions, periods and coordinates. This is with the allocations of the topology succeeding: where a dimension
  is kept, a failed allocation of the dimensions or periods ends in a write through NULL and one of the coordinates
  in a double free.\<close>

theorem cart_sub_over_comm_split:
  assumes "cart_wf comm" and "length rs = length (dims (cart comm))" and "al_cart alc" and "al_dims alc" and "al_periods alc" and "al_coords alc"
    and "pair_sorter qsort" and "grp_ok me g" and "me \<in> set (grp_procs g)" and "fresh_addr a g"
    and "grp_proc_count g = comm_size comm" and "grp_my_rank g = comm_rank comm" and "8 * comm_size comm \<le> INT_MAX"
    and "al_results al" and "al_sorted al" and "al_ranks al"
    and "split = split_by qsort al sparse (Some before) junk junkp junkb (Ptr a) g (Inr (gathered (sub_request comm rs) (comm_size comm))) rc"
  shows "(\<exists>sub. mca_topo_base_cart_sub alc split OPAL_SUCCESS comm rs = Some (Inr sub) \<and>
    cart_wf sub \<and> dims (cart sub) = kept rs (dims (cart comm)) \<and> periods (cart sub) = kept rs (periods (cart comm)) \<and>
    coords (cart sub) = kept rs (coords (cart comm))) \<and>
    (\<forall>alc'. kept rs (dims (cart comm)) \<noteq> [] \<and> (\<not> al_dims alc' \<or> \<not> al_periods alc' \<or> al_cart alc' \<and> \<not> al_coords alc') \<longrightarrow>
       mca_topo_base_cart_sub alc' split OPAL_SUCCESS comm rs = None)"
proof -
  let ?ck = "sub_request comm rs" and ?n = "comm_size comm" and ?r = "comm_rank comm"
  have r: "0 \<le> ?r" "?r < ?n" using assms(1) by (simp_all add: cart_wf_def)
  note b = sub_request_bounds [OF assms(1,2)]
  have keys: "\<forall>q. 0 \<le> q \<and> q < grp_proc_count g \<longrightarrow> is_cint (snd (?ck q))" using b(2,3) assms(11,13) by (fastforce simp: is_cint_def INT_MIN_def INT_MAX_def)
  have und: "fst (?ck ?r) \<noteq> MPI_UNDEFINED" using b(1) [OF r] by (simp add: MPI_UNDEFINED_def)
  obtain key ndim where k: "sub_colour_key comm rs = Some (fst (?ck ?r), key, ndim)"
    using sub_colour_key_ok [OF assms(1,2)] at_rank_own [OF assms(1)] by (simp add: sub_request_def)
  have "split (fst (?ck ?r)) key = Some (Inr (split_size ?ck ?n ?r, split_rank ?ck ?n ?r))"
    using pair_sorter.comm_split_group [OF assms(7-10) _ keys assms(14-16), of sparse before junk junkp junkb rc] und assms(11-13)
    by (auto simp: split_by_def assms(17))
  then show ?thesis
    using cart_sub_asks_once [OF k, of _ split OPAL_SUCCESS] cart_sub_keeps_coordinates [OF assms(1-6) refl] by simp
qed

theorem cart_sub_over_comm_split_witness:
  "\<exists>al split sub. mca_topo_base_cart_sub al split OPAL_SUCCESS
     \<lparr>comm_size = 6, comm_rank = 5, cart = \<lparr>ndims = 2, dims = [2, 3], periods = [0, 1], coords = [1, 2]\<rparr>\<rparr> [0, 1] = Some (Inr sub) \<and>
     dims (cart sub) = [3] \<and> coords (cart sub) = [2]"
proof -
  let ?c = "\<lparr>comm_size = 6, comm_rank = 5, cart = \<lparr>ndims = 2, dims = [2, 3], periods = [0, 1], coords = [1, 2]\<rparr>\<rparr>"
  let ?alc = "\<lparr>al_cart = True, al_dims = True, al_periods = True, al_coords = True, al_procs = True\<rparr>"
  let ?al = "\<lparr>al_results = True, al_sorted = True, al_ranks = True\<rparr>"
  let ?g = "Group 1 6 5 (Dense [3, 4, 5, 6, 7, 8 :: nat])"
  have g: "grp_ok 8 ?g" "8 \<in> set (grp_procs ?g)" "fresh_addr 2 ?g" by (simp_all add: grp_ok_def my_rank_ok_def fresh_addr_def grp_parent_group_ptr_def)
  have wf: "cart_wf ?c" "length [0, 1 :: int] = length (dims (cart ?c))" "al_cart ?alc" "al_dims ?alc" "al_periods ?alc" "al_coords ?alc" by (simp_all add: cart_wf_def)
  have c: "grp_proc_count ?g = comm_size ?c" "grp_my_rank ?g = comm_rank ?c" "8 * comm_size ?c \<le> INT_MAX" "al_results ?al" "al_sorted ?al" "al_ranks ?al"
    by (simp_all add: INT_MAX_def)
  have "kept [0, 1] (dims (cart ?c)) = [3]" "kept [0, 1] (coords (cart ?c)) = [2]" by simp_all
  then show ?thesis
    using cart_sub_over_comm_split [OF wf opal_sorter.pair_sorter_axioms [of 0] g c refl, of False 0 0 9 0 "\<lambda>_. 1"] by metis
qed

end
