(* ===== verification/Argv.thy ===== *)
theory Argv
  imports Opal_Prelude
begin

text \<open>
  Argument vectors (\<^verbatim>\<open>opal/util/argv.c\<close>): a block of pointers to strings that ends with a null pointer.
  A string is the list of its characters before the terminating zero; every vector owns copies of its
  strings, so a pointer to a string is its content or \<open>Null\<close>. \<open>al\<close> holds the outcomes of the
  allocations to come (\<^verbatim>\<open>malloc\<close>, \<^verbatim>\<open>realloc\<close>, \<^verbatim>\<open>strdup\<close>), which all succeed once the
  list is empty; \<open>j\<close> is what fresh cells hold. A delimiter is a character.
\<close>

type_synonym cstring = string
type_synonym argv = "cstring ptr list ptr"

definition ARGSIZE :: nat where "ARGSIZE = 128"

section \<open>Allocation\<close>

definition alloc_ok :: "bool list \<Rightarrow> bool" where
  "alloc_ok al = (case al of [] \<Rightarrow> True | ok # _ \<Rightarrow> ok)"

definition strdup :: "bool list \<Rightarrow> cstring \<Rightarrow> cstring ptr" where
  "strdup al s = (if alloc_ok al then Ptr s else Null)"

section \<open>Counting and walking\<close>

text \<open>The number of pointers before the null pointer; \<open>None\<close> when there is none in the block.\<close>

fun cells_count :: "cstring ptr list \<Rightarrow> int option" where
  "cells_count [] = None"
| "cells_count (Null # _) = Some 0"
| "cells_count (Ptr _ # ps) = map_option (\<lambda>i. i + 1) (cells_count ps)"

definition opal_argv_count :: "argv \<Rightarrow> int option" where
  "opal_argv_count argv = (case argv of Null \<Rightarrow> Some 0 | Ptr cs \<Rightarrow> cells_count cs)"

fun cells_free :: "cstring ptr list \<Rightarrow> unit option" where
  "cells_free [] = None"
| "cells_free (Null # _) = Some ()"
| "cells_free (Ptr _ # ps) = cells_free ps"

definition opal_argv_free :: "argv \<Rightarrow> unit option" where
  "opal_argv_free argv = (case argv of Null \<Rightarrow> Some () | Ptr cs \<Rightarrow> cells_free cs)"

text \<open>The pointer cells have 8 bytes.\<close>

fun cells_len :: "cstring ptr list \<Rightarrow> nat \<Rightarrow> nat option" where
  "cells_len [] n = None"
| "cells_len (Null # _) n = Some n"
| "cells_len (Ptr s # ps) n = cells_len ps (n + (length s + 1 + 8))"

definition opal_argv_len :: "argv \<Rightarrow> nat option" where
  "opal_argv_len argv = (case argv of Null \<Rightarrow> Some 0 | Ptr cs \<Rightarrow> cells_len cs 8)"

section \<open>Adding\<close>

definition opal_argv_append_nosize :: "cstring ptr \<Rightarrow> bool list \<Rightarrow> argv \<Rightarrow> cstring \<Rightarrow> (int \<times> argv \<times> bool list) option" where
  "opal_argv_append_nosize j al argv arg =
     (if \<not> alloc_ok al then
        (case argv of Null \<Rightarrow> Some (OPAL_ERR_OUT_OF_RESOURCE, Null, tl al)
         | Ptr cs \<Rightarrow> do { argc \<leftarrow> opal_argv_count argv; Some (OPAL_ERR_OUT_OF_RESOURCE, Null, tl al) })
      else do {
        (argc, cs) \<leftarrow>
          (case argv of Null \<Rightarrow> Some (0, [Null, Null])
           | Ptr cs \<Rightarrow> do { argc \<leftarrow> opal_argv_count argv; Some (argc, realloc_cells j (argc + 2) cs) });
        let al = tl al; let copy = strdup al arg;
        cs \<leftarrow> aset cs argc copy;
        if copy = Null then Some (OPAL_ERR_OUT_OF_RESOURCE, Ptr cs, tl al)
        else do {
          cs \<leftarrow> aset cs (argc + 1) Null;
          Some (OPAL_SUCCESS, Ptr cs, tl al) } })"

text \<open>The result has the new \<open>argc\<close>.\<close>

definition opal_argv_append :: "cstring ptr \<Rightarrow> bool list \<Rightarrow> int \<Rightarrow> argv \<Rightarrow> cstring \<Rightarrow> (int \<times> int \<times> argv \<times> bool list) option" where
  "opal_argv_append j al argc argv arg = do {
     (rc, argv, al) \<leftarrow> opal_argv_append_nosize j al argv arg;
     if rc \<noteq> OPAL_SUCCESS then Some (rc, argc, argv, al)
     else do { argc \<leftarrow> opal_argv_count argv; Some (OPAL_SUCCESS, argc, argv, al) } }"

text \<open>Loops that run downwards count their passes \<open>k\<close>.\<close>

definition opal_argv_prepend_nosize :: "cstring ptr \<Rightarrow> bool list \<Rightarrow> argv \<Rightarrow> cstring \<Rightarrow> (int \<times> argv \<times> bool list) option" where
  "opal_argv_prepend_nosize j al argv arg =
     (case argv of
        Null \<Rightarrow>
          if \<not> alloc_ok al then Some (OPAL_ERR_OUT_OF_RESOURCE, Null, tl al)
          else Some (OPAL_SUCCESS, Ptr [strdup (tl al) arg, Null], tl (tl al))
      | Ptr cs \<Rightarrow> do {
          argc \<leftarrow> opal_argv_count argv;
          if \<not> alloc_ok al then Some (OPAL_ERR_OUT_OF_RESOURCE, Null, tl al)
          else do {
            cs \<leftarrow> aset (realloc_cells j (argc + 2) cs) (argc + 1) Null;
            cs \<leftarrow> for_loop 0 argc (\<lambda>k cs. do { let i = argc - k; p \<leftarrow> aget cs (i - 1); aset cs i p }) cs;
            cs \<leftarrow> aset cs 0 (strdup (tl al) arg);
            Some (OPAL_SUCCESS, Ptr cs, tl (tl al)) } })"

text \<open>The search of \<open>opal_argv_append_unique_nosize\<close>: the index of the string, or that of the null pointer.\<close>

fun find_arg :: "cstring \<Rightarrow> cstring ptr list \<Rightarrow> int \<Rightarrow> (bool \<times> int) option" where
  "find_arg arg [] i = None"
| "find_arg arg (Null # _) i = Some (False, i)"
| "find_arg arg (Ptr s # ps) i = (if arg = s then Some (True, i) else find_arg arg ps (i + 1))"

definition opal_argv_append_unique_nosize ::
    "cstring ptr \<Rightarrow> bool list \<Rightarrow> argv \<Rightarrow> cstring \<Rightarrow> bool \<Rightarrow> (int \<times> argv \<times> bool list) option" where
  "opal_argv_append_unique_nosize j al argv arg overwrite =
     (case argv of Null \<Rightarrow> opal_argv_append_nosize j al argv arg
      | Ptr cs \<Rightarrow> do {
          (found, i) \<leftarrow> find_arg arg cs 0;
          if found then
            (if overwrite then do {
               cs \<leftarrow> aset cs i (strdup al arg);
               Some (OPAL_SUCCESS, Ptr cs, tl al) }
             else Some (OPAL_SUCCESS, argv, al))
          else opal_argv_append_nosize j al argv arg })"

section \<open>Copying, deleting, inserting\<close>

text \<open>The first \<^verbatim>\<open>malloc\<close> of \<open>opal_argv_copy\<close> is not tested: the store through a null pointer is undefined.\<close>

fun copy_cells :: "cstring ptr \<Rightarrow> cstring ptr list \<Rightarrow> bool list \<Rightarrow> int \<Rightarrow> argv \<Rightarrow> (argv \<times> bool list) option" where
  "copy_cells j [] al dupc dupv = None"
| "copy_cells j (Null # _) al dupc dupv = Some (dupv, al)"
| "copy_cells j (Ptr s # ps) al dupc dupv = do {
     (rc, dupc, dupv, al) \<leftarrow> opal_argv_append j al dupc dupv s;
     if rc \<noteq> OPAL_SUCCESS then do { _ \<leftarrow> opal_argv_free dupv; Some (Null, al) }
     else copy_cells j ps al dupc dupv }"

definition opal_argv_copy :: "cstring ptr \<Rightarrow> bool list \<Rightarrow> argv \<Rightarrow> (argv \<times> bool list) option" where
  "opal_argv_copy j al argv =
     (case argv of Null \<Rightarrow> Some (Null, al)
      | Ptr cs \<Rightarrow> if \<not> alloc_ok al then None else copy_cells j cs (tl al) 0 (Ptr [Null]))"

definition opal_argv_delete ::
    "cstring ptr \<Rightarrow> bool list \<Rightarrow> int \<Rightarrow> argv ptr \<Rightarrow> int \<Rightarrow> int \<Rightarrow> (int \<times> int \<times> argv ptr \<times> bool list) option" where
  "opal_argv_delete j al argc argv start num_to_delete =
     (case argv of Null \<Rightarrow> Some (OPAL_SUCCESS, argc, argv, al)
      | Ptr Null \<Rightarrow> Some (OPAL_SUCCESS, argc, argv, al)
      | Ptr (Ptr cs) \<Rightarrow>
          if num_to_delete = 0 then Some (OPAL_SUCCESS, argc, argv, al)
          else do {
            count \<leftarrow> opal_argv_count (Ptr cs);
            if start > count then Some (OPAL_SUCCESS, argc, argv, al)
            else if start < 0 \<or> num_to_delete < 0 then Some (OPAL_ERR_BAD_PARAM, argc, argv, al)
            else do {
              stop \<leftarrow> cint (start + num_to_delete);
              let suffix_count = (if count - stop < 0 then 0 else count - stop);
              cs \<leftarrow> for_loop start (start + suffix_count) (\<lambda>i cs. do { p \<leftarrow> aget cs (i + num_to_delete); aset cs i p }) cs;
              let i = start + suffix_count;
              cs \<leftarrow> aset cs i Null;
              let cs = (if alloc_ok al then realloc_cells j (i + 1) cs else cs);
              argc \<leftarrow> cint (argc - num_to_delete);
              Some (OPAL_SUCCESS, argc, Ptr (Ptr cs), tl al) } })"

text \<open>The results of the calls of \<open>opal_argv_append\<close> and of \<^verbatim>\<open>realloc\<close> are not tested in the insertions.\<close>

definition append_all :: "cstring ptr \<Rightarrow> bool list \<Rightarrow> int \<Rightarrow> argv \<Rightarrow> int \<Rightarrow> cstring ptr list \<Rightarrow> (int \<times> argv \<times> bool list) option" where
  "append_all j al target_count target source_count source =
     for_loop 0 source_count
       (\<lambda>i (target_count, target, al). do {
          p \<leftarrow> aget source i;
          case p of Null \<Rightarrow> None
          | Ptr s \<Rightarrow> do { (rc, target_count, target, al) \<leftarrow> opal_argv_append j al target_count target s; Some (target_count, target, al) } })
       (target_count, target, al)"

definition move_suffix :: "int \<Rightarrow> int \<Rightarrow> int \<Rightarrow> cstring ptr list \<Rightarrow> cstring ptr list option" where
  "move_suffix start source_count suffix_count cs =
     for_loop 0 suffix_count (\<lambda>k cs. do {
       let i = suffix_count - 1 - k;
       p \<leftarrow> aget cs (start + i);
       aset cs (start + source_count + i) p }) cs"

definition opal_argv_insert :: "cstring ptr \<Rightarrow> bool list \<Rightarrow> argv ptr \<Rightarrow> int \<Rightarrow> argv \<Rightarrow> (int \<times> argv ptr \<times> bool list) option" where
  "opal_argv_insert j al target start source =
     (case target of Null \<Rightarrow> Some (OPAL_ERR_BAD_PARAM, target, al)
      | Ptr Null \<Rightarrow> Some (OPAL_ERR_BAD_PARAM, target, al)
      | Ptr (Ptr cs) \<Rightarrow>
          if start < 0 then Some (OPAL_ERR_BAD_PARAM, target, al)
          else case source of Null \<Rightarrow> Some (OPAL_SUCCESS, target, al)
          | Ptr ss \<Rightarrow> do {
              target_count \<leftarrow> opal_argv_count (Ptr cs);
              source_count \<leftarrow> opal_argv_count (Ptr ss);
              if start > target_count then do {
                (_, argv, al) \<leftarrow> append_all j al target_count (Ptr cs) source_count ss;
                Some (OPAL_SUCCESS, Ptr argv, al) }
              else if \<not> alloc_ok al then None
              else do {
                let cs = realloc_cells j (target_count + source_count + 1) cs;
                let suffix_count = target_count - start;
                cs \<leftarrow> move_suffix start source_count suffix_count cs;
                cs \<leftarrow> aset cs (start + suffix_count + source_count) Null;
                (cs, al) \<leftarrow> for_loop start (start + source_count)
                  (\<lambda>i (cs, al). do {
                     p \<leftarrow> aget ss (i - start);
                     case p of Null \<Rightarrow> None
                     | Ptr s \<Rightarrow> do { cs \<leftarrow> aset cs i (strdup al s); Some (cs, tl al) } }) (cs, tl al);
                Some (OPAL_SUCCESS, Ptr (Ptr cs), al) } })"

definition opal_argv_insert_element :: "cstring ptr \<Rightarrow> bool list \<Rightarrow> argv ptr \<Rightarrow> int \<Rightarrow> cstring ptr \<Rightarrow> (int \<times> argv ptr \<times> bool list) option" where
  "opal_argv_insert_element j al target location source =
     (case target of Null \<Rightarrow> Some (OPAL_ERR_BAD_PARAM, target, al)
      | Ptr Null \<Rightarrow> Some (OPAL_ERR_BAD_PARAM, target, al)
      | Ptr (Ptr cs) \<Rightarrow>
          if location < 0 then Some (OPAL_ERR_BAD_PARAM, target, al)
          else case source of Null \<Rightarrow> Some (OPAL_SUCCESS, target, al)
          | Ptr s \<Rightarrow> do {
              target_count \<leftarrow> opal_argv_count (Ptr cs);
              if location > target_count then do {
                (_, _, argv, al) \<leftarrow> opal_argv_append j al target_count (Ptr cs) s;
                Some (OPAL_SUCCESS, Ptr argv, al) }
              else if \<not> alloc_ok al then None
              else do {
                let cs = realloc_cells j (target_count + 2) cs;
                let suffix_count = target_count - location;
                cs \<leftarrow> move_suffix location 1 suffix_count cs;
                cs \<leftarrow> aset cs (location + suffix_count + 1) Null;
                cs \<leftarrow> aset cs location (strdup (tl al) s);
                Some (OPAL_SUCCESS, Ptr (Ptr cs), tl (tl al)) } })"

section \<open>Splitting and joining\<close>

text \<open>
  One pass takes the characters before the next delimiter. Short arguments go through the buffer \<open>arg\<close> of
  ARGSIZE characters, long ones through an allocated one, the last one is taken from the string itself.
\<close>

definition split_add :: "cstring ptr \<Rightarrow> bool list \<Rightarrow> int \<Rightarrow> argv \<Rightarrow> bool \<Rightarrow> cstring \<Rightarrow> cstring \<Rightarrow> (bool \<times> int \<times> argv \<times> bool list) option" where
  "split_add j al argc argv include_empty fld rest =
     (if fld = [] then
        (if include_empty then do {
           (rc, argc, argv, al) \<leftarrow> opal_argv_append j al argc argv [];
           Some (rc = OPAL_SUCCESS, argc, argv, al) }
         else Some (True, argc, argv, al))
      else if rest = [] then do {
        (rc, argc, argv, al) \<leftarrow> opal_argv_append j al argc argv fld;
        Some (rc = OPAL_SUCCESS, argc, argv, al) }
      else if length fld > ARGSIZE - 1 then
        (if \<not> alloc_ok al then Some (False, argc, argv, tl al)
         else do {
           (rc, argc, argv, al) \<leftarrow> opal_argv_append j (tl al) argc argv fld;
           Some (rc = OPAL_SUCCESS, argc, argv, al) })
      else if length fld < ARGSIZE then do {
        (rc, argc, argv, al) \<leftarrow> opal_argv_append j al argc argv fld;
        Some (rc = OPAL_SUCCESS, argc, argv, al) }
      else None)"

lemma tl_dropWhile_shorter: "src \<noteq> [] \<Longrightarrow> length (dropWhile P src) - Suc 0 < length src"
  using length_dropWhile_le [of P src] by (cases src) (auto simp: less_Suc_eq_le)

function split_loop :: "cstring ptr \<Rightarrow> bool list \<Rightarrow> int \<Rightarrow> argv \<Rightarrow> bool \<Rightarrow> char \<Rightarrow> cstring \<Rightarrow> (argv \<times> bool list) option" where
  "split_loop j al argc argv include_empty delimiter src =
     (if src = [] then Some (argv, al)
      else do {
        let fld = takeWhile (\<lambda>c. c \<noteq> delimiter) src; let rest = dropWhile (\<lambda>c. c \<noteq> delimiter) src;
        (ok, argc, argv, al) \<leftarrow> split_add j al argc argv include_empty fld rest;
        if \<not> ok then Some (Null, al)
        else split_loop j al argc argv include_empty delimiter (tl rest) })"
  by pat_completeness auto
termination
  by (relation "measure (\<lambda>(j, al, argc, argv, e, d, src). length src)") (auto simp: tl_dropWhile_shorter)

definition opal_argv_split_inter :: "cstring ptr \<Rightarrow> bool list \<Rightarrow> cstring ptr \<Rightarrow> char \<Rightarrow> bool \<Rightarrow> (argv \<times> bool list) option" where
  "opal_argv_split_inter j al src_string delimiter include_empty =
     (case src_string of Null \<Rightarrow> Some (Null, al) | Ptr src \<Rightarrow> split_loop j al 0 Null include_empty delimiter src)"

definition opal_argv_split :: "cstring ptr \<Rightarrow> bool list \<Rightarrow> cstring ptr \<Rightarrow> char \<Rightarrow> (argv \<times> bool list) option" where
  "opal_argv_split j al src_string delimiter = opal_argv_split_inter j al src_string delimiter False"

definition opal_argv_split_with_empty :: "cstring ptr \<Rightarrow> bool list \<Rightarrow> cstring ptr \<Rightarrow> char \<Rightarrow> (argv \<times> bool list) option" where
  "opal_argv_split_with_empty j al src_string delimiter = opal_argv_split_inter j al src_string delimiter True"

text \<open>
  Joining writes a block of \<open>str_len\<close> characters whose content is first \<open>c0\<close>. \<open>pp\<close> is what is left of the
  string it points into.
\<close>

fun joined_len :: "cstring ptr list \<Rightarrow> nat \<Rightarrow> nat option" where
  "joined_len [] n = None"
| "joined_len (Null # _) n = Some n"
| "joined_len (Ptr s # ps) n = joined_len ps (n + (length s + 1))"

fun joined_len_range :: "cstring ptr list \<Rightarrow> nat \<Rightarrow> nat \<Rightarrow> nat \<Rightarrow> nat option" where
  "joined_len_range [] i end' n = None"
| "joined_len_range (Null # _) i end' n = Some n"
| "joined_len_range (Ptr s # ps) i end' n = (if i < end' then joined_len_range ps (i + 1) end' (n + (length s + 1)) else Some n)"

definition join_fill :: "char \<Rightarrow> cstring ptr list \<Rightarrow> int \<Rightarrow> char list \<Rightarrow> int \<Rightarrow> char list option" where
  "join_fill delimiter cs start str str_len = do {
     pp \<leftarrow> aget cs start;
     (p, pp, str) \<leftarrow> for_loop 0 str_len
       (\<lambda>i (p, pp, str).
          case pp of Null \<Rightarrow> None
          | Ptr [] \<Rightarrow> do { str \<leftarrow> aset str i delimiter; pp \<leftarrow> aget cs (p + 1); Some (p + 1, pp, str) }
          | Ptr (c # r) \<Rightarrow> do { str \<leftarrow> aset str i c; Some (p, Ptr r, str) }) (start, pp, str);
     Some str }"

text \<open>The new string of \<open>str_len\<close> characters, the last of which is zero; \<open>str[--str_len]\<close> is outside it when it is empty.\<close>

definition join_block :: "char \<Rightarrow> bool list \<Rightarrow> char \<Rightarrow> cstring ptr list \<Rightarrow> nat \<Rightarrow> nat \<Rightarrow> (char list ptr \<times> bool list) option" where
  "join_block c0 al delimiter cs start str_len =
     (if \<not> alloc_ok al then Some (Null, tl al)
      else do {
        str \<leftarrow> aset (replicate str_len c0) (int str_len - 1) CHR 0x00;
        str \<leftarrow> join_fill delimiter cs (int start) str (int str_len - 1);
        Some (Ptr str, tl al) })"

definition opal_argv_join :: "char \<Rightarrow> bool list \<Rightarrow> argv \<Rightarrow> char \<Rightarrow> (char list ptr \<times> bool list) option" where
  "opal_argv_join c0 al argv delimiter =
     (let bozo = Some (if alloc_ok al then Ptr [CHR 0x00] else Null, tl al) in
      case argv of Null \<Rightarrow> bozo
      | Ptr cs \<Rightarrow> do {
          p \<leftarrow> aget cs 0;
          if p = Null then bozo
          else do {
            str_len \<leftarrow> joined_len cs 0;
            join_block c0 al delimiter cs 0 str_len } })"

definition opal_argv_join_range :: "char \<Rightarrow> bool list \<Rightarrow> argv \<Rightarrow> nat \<Rightarrow> nat \<Rightarrow> char \<Rightarrow> (char list ptr \<times> bool list) option" where
  "opal_argv_join_range c0 al argv start end' delimiter =
     (let bozo = Some (if alloc_ok al then Ptr [CHR 0x00] else Null, tl al) in
      case argv of Null \<Rightarrow> bozo
      | Ptr cs \<Rightarrow> do {
          p \<leftarrow> aget cs 0;
          count \<leftarrow> opal_argv_count argv;
          if p = Null \<or> int_of_size_t (int start) > count then bozo
          else do {
            str_len \<leftarrow> (if start \<le> length cs then joined_len_range (drop start cs) start end' 0 else None);
            join_block c0 al delimiter cs start str_len } })"

declare split_loop.simps [simp del]

end
