(* ===== verification/Argv_Lists.thy ===== *)
theory Argv_Lists
  imports Argv
begin

text \<open>
  Argument vectors as lists of strings: what each operation of \<^verbatim>\<open>opal/util/argv.c\<close> does to the list.
\<close>

definition holds :: "argv \<Rightarrow> cstring list \<Rightarrow> bool" where
  "holds a ss \<longleftrightarrow> (case a of Null \<Rightarrow> ss = [] | Ptr cs \<Rightarrow> \<exists>r. cs = map Ptr ss @ Null # r)"

lemma holds_simps [simp]:
  "holds Null ss \<longleftrightarrow> ss = []" "holds (Ptr (map Ptr ss @ Null # r)) ss"
  by (auto simp: holds_def)

lemma holds_PtrE:
  assumes "holds (Ptr cs) ss"
  obtains r where "cs = map Ptr ss @ Null # r"
  using assms by (auto simp: holds_def)

text \<open>No allocation fails.\<close>

lemma alloc_Nil [simp]: "alloc_ok []" "strdup [] s = Ptr s"
  by (simp_all add: alloc_ok_def strdup_def)

lemma cells_count_ok [simp]: "cells_count (map Ptr ss @ Null # r) = Some (int (length ss))"
  by (induction ss) auto

lemma argv_count_ok: "holds a ss \<Longrightarrow> opal_argv_count a = Some (int (length ss))"
  by (cases a) (auto simp: opal_argv_count_def elim!: holds_PtrE)

lemma argv_free_ok: "holds a ss \<Longrightarrow> opal_argv_free a = Some ()"
proof -
  have "cells_free (map Ptr ss @ Null # r) = Some ()" for r by (induction ss) auto
  then show "holds a ss \<Longrightarrow> ?thesis" by (cases a) (auto simp: opal_argv_free_def elim!: holds_PtrE)
qed

lemma cells_len_ok: "cells_len (map Ptr ss @ Null # r) n = Some (n + sum_list (map (\<lambda>s. length s + 9) ss))"
  by (induction ss arbitrary: n) auto

section \<open>Cells\<close>

lemma realloc_exact: "realloc_cells j (int n) (map Ptr ss @ Null # r) = map Ptr ss @ take (n - length ss) (Null # r) @ replicate (n - (length ss + 1 + length r)) j" if "length ss \<le> n"
  using that by (simp add: realloc_cells_def)

lemma aset_at: "aset (xs @ p # ys) (int (length xs)) v = Some (xs @ v # ys)"
  by (simp add: aset_def)

lemma aget_at: "aget (xs @ p # ys) (int (length xs)) = Some p"
  by (simp add: aget_def)

lemma realloc_two: "\<exists>x y. realloc_cells j (int (length ss) + 2) (map Ptr ss @ Null # r) = map Ptr ss @ [x, y]"
  by (cases r) (auto simp: realloc_cells_def nat_add_distrib)

section \<open>Appending\<close>

text \<open>Whatever the allocations do, appending is safe; on failure the list is unchanged or given up.\<close>

lemma append_nosize_any:
  assumes "holds a ss"
  shows "\<exists>rc a' al'. opal_argv_append_nosize j al a s = Some (rc, a', al') \<and>
    (rc = OPAL_SUCCESS \<and> holds a' (ss @ [s]) \<or> rc = OPAL_ERR_OUT_OF_RESOURCE \<and> (a' = Null \<or> holds a' ss)) \<and>
    (al = [] \<longrightarrow> rc = OPAL_SUCCESS \<and> al' = [])"
proof (cases "alloc_ok al")
  case False
  then show ?thesis using argv_count_ok [OF assms] by (cases a) (auto simp: opal_argv_append_nosize_def)
next
  case True
  obtain argc cs x y where cs: "(case a of Null \<Rightarrow> Some (0, [Null, Null])
           | Ptr cs \<Rightarrow> do { argc \<leftarrow> opal_argv_count a; Some (argc, realloc_cells j (argc + 2) cs) }) = Some (argc, cs)"
    "argc = int (length ss)" "cs = map Ptr ss @ [x, y]"
  proof (cases a)
    case Null
    then show ?thesis using that [of 0 "[Null, Null]" Null Null] assms by simp
  next
    case (Ptr ds)
    then obtain r where r: "ds = map Ptr ss @ Null # r" using assms by (auto elim: holds_PtrE)
    obtain x y where "realloc_cells j (int (length ss) + 2) ds = map Ptr ss @ [x, y]" using realloc_two [of j ss r] r by blast
    then show ?thesis using that [of "int (length ss)"] Ptr argv_count_ok [OF assms] by simp
  qed
  have s1: "aset cs argc p = Some (map Ptr ss @ [p, y])" for p using aset_at [of "map Ptr ss" x "[y]" p] cs by simp
  have s2: "aset (map Ptr ss @ [p, y]) (argc + 1) Null = Some (map Ptr ss @ [p, Null])" for p
    using aset_at [of "map Ptr ss @ [p]" y "[]" Null] cs by (simp add: add.commute)
  have ok: "holds (Ptr (map Ptr ss @ [Ptr s, Null])) (ss @ [s])" using holds_simps(2) [of "ss @ [s]" "[]"] by simp
  have ff: "holds (Ptr (map Ptr ss @ [Null, y])) ss" by simp
  show ?thesis
    unfolding opal_argv_append_nosize_def cs(1) Let_def using True ok ff
    by (auto simp: s1 s2 strdup_def alloc_ok_def)
qed

lemma append_nosize_ok:
  assumes "holds a ss"
  obtains a' where "opal_argv_append_nosize j [] a s = Some (OPAL_SUCCESS, a', [])" "holds a' (ss @ [s])"
  using append_nosize_any [OF assms, of j "[]" s] by (auto simp: OPAL_SUCCESS_def OPAL_ERR_OUT_OF_RESOURCE_def)

lemma append_ok:
  assumes "holds a ss"
  obtains a' where "opal_argv_append j [] argc a s = Some (OPAL_SUCCESS, int (length ss) + 1, a', [])" "holds a' (ss @ [s])"
proof -
  obtain a' where a': "opal_argv_append_nosize j [] a s = Some (OPAL_SUCCESS, a', [])" "holds a' (ss @ [s])" by (rule append_nosize_ok [OF assms])
  then show thesis using that argv_count_ok [OF a'(2)] by (simp add: opal_argv_append_def add.commute)
qed

lemma append_nonnull: "opal_argv_append j al argc a s = Some (OPAL_SUCCESS, argc', a', al') \<Longrightarrow> a' \<noteq> Null"
  by (auto simp: opal_argv_append_def opal_argv_append_nosize_def OPAL_SUCCESS_def OPAL_ERR_OUT_OF_RESOURCE_def Let_def
      split: if_splits Option.bind_splits ptr.splits)

section \<open>Moving cells\<close>

text \<open>A block moved up, from its last cell on.\<close>

lemma move_suffix_ok:
  assumes "cs = A @ S @ T" and "d \<le> length T"
  shows "move_suffix (int (length A)) (int d) (int (length S)) cs = Some (take (length A + d) cs @ S @ drop (length A + d + length S) cs)"
proof -
  let ?a = "length A" and ?m = "length S"
  let ?P = "\<lambda>k c. c = take (?a + d + ?m - k) cs @ drop (?m - k) S @ drop (?a + d + ?m) cs"
  let ?f = "\<lambda>k cs. do { let i = int ?m - 1 - k; p \<leftarrow> aget cs (int ?a + i); aset cs (int ?a + int d + i) p }"
  have len: "?a + d + ?m \<le> length cs" using assms by simp
  have "\<exists>s'. for_loop (int 0) (int 0 + int ?m) ?f cs = Some s' \<and> ?P ?m s'"
  proof (rule for_loop_nat [where P = ?P])
    fix k c assume k: "k < ?m" and c: "?P k c"
    define i where "i = ?m - Suc k"
    have i: "int ?m - 1 - (int 0 + int k) = int i" "i < ?m" "?a + d + ?m - k = Suc (?a + d + i)" "?m - k = Suc i" "?a + d + ?m - Suc k = ?a + d + i" "?m - Suc k = i"
      using k by (auto simp: i_def)
    have "cs ! (?a + i) = S ! i" using i(2) assms(1) by (simp add: nth_append)
    then have get: "aget c (int ?a + int i) = Some (S ! i)" using c i(2,3) len by (simp add: aget_def nth_append nat_add_distrib)
    have c': "c = take (?a + d + i) cs @ cs ! (?a + d + i) # drop (Suc i) S @ drop (?a + d + ?m) cs"
      using c i len by (simp add: take_Suc_conv_app_nth)
    have ix: "int ?a + int d + int i = int (length (take (?a + d + i) cs))" using i(2) len by simp
    have "aset c (int ?a + int d + int i) (S ! i) = Some (take (?a + d + i) cs @ S ! i # drop (Suc i) S @ drop (?a + d + ?m) cs)"
      unfolding ix by (subst c') (rule aset_at)
    moreover have "S ! i # drop (Suc i) S = drop i S" using i(2) by (rule Cons_nth_drop_Suc)
    ultimately show "\<exists>s'. ?f (int 0 + int k) c = Some s' \<and> ?P (Suc k) s'" unfolding i(1) using get i(5,6) by (simp add: Let_def flip: append_Cons)
  qed (use len in simp)
  then show ?thesis by (simp add: move_suffix_def)
qed

text \<open>A block moved down, from its first cell on.\<close>

lemma move_down_ok:
  assumes "cs = A @ D @ S @ T"
  shows "for_loop (int (length A)) (int (length A) + int (length S)) (\<lambda>i cs. do { p \<leftarrow> aget cs (i + int (length D)); aset cs i p }) cs =
    Some (A @ S @ drop (length A + length S) cs)"
proof -
  let ?a = "length A" and ?f = "\<lambda>i cs. do { p \<leftarrow> aget cs (i + int (length D)); aset cs i p }"
  let ?P = "\<lambda>k c. c = A @ take k S @ drop (?a + k) cs"
  have "\<exists>s'. for_loop (int ?a) (int ?a + int (length S)) ?f cs = Some s' \<and> ?P (length S) s'"
  proof (rule for_loop_nat [where P = ?P])
    fix k c assume k: "k < length S" and c: "?P k c"
    have in': "?a + k < length cs" "?a + k + length D < length cs" using k assms by auto
    have "cs ! (?a + k + length D) = S ! k" using k assms by (simp add: nth_append)
    moreover have "c ! (?a + k + length D) = cs ! (?a + k + length D)" using c k in' by (simp add: nth_append)
    moreover have len: "length c = length cs" using c k in' by simp
    ultimately have get: "aget c (int ?a + int k + int (length D)) = Some (S ! k)" using in' by (simp add: aget_def nat_add_distrib)
    have c': "c = (A @ take k S) @ cs ! (?a + k) # drop (Suc (?a + k)) cs" using c in' by (simp add: Cons_nth_drop_Suc)
    have ix: "int ?a + int k = int (length (A @ take k S))" using k by simp
    have "aset c (int ?a + int k) (S ! k) = Some ((A @ take k S) @ S ! k # drop (Suc (?a + k)) cs)" unfolding ix by (subst c') (rule aset_at)
    then show "\<exists>s'. ?f (int ?a + int k) c = Some s' \<and> ?P (Suc k) s'" using get k by (simp add: take_Suc_conv_app_nth)
  qed (use assms in simp)
  then show ?thesis by simp
qed

section \<open>The other operations\<close>

lemma prepend_ok:
  assumes "holds a ss"
  obtains a' where "opal_argv_prepend_nosize j [] a s = Some (OPAL_SUCCESS, a', [])" "holds a' (s # ss)"
proof (cases a)
  case Null
  then show thesis using that [of "Ptr [Ptr s, Null]"] assms holds_simps(2) [of "[s]" "[]"] by (simp add: opal_argv_prepend_nosize_def)
next
  case (Ptr cs)
  then obtain r where r: "cs = map Ptr ss @ Null # r" using assms by (auto elim: holds_PtrE)
  obtain x y where xy: "realloc_cells j (int (length ss) + 2) cs = map Ptr ss @ [x, y]" using realloc_two [of j ss r] r by blast
  have s1: "aset (map Ptr ss @ [x, y]) (int (length ss) + 1) Null = Some (map Ptr ss @ [x, Null])"
    using aset_at [of "map Ptr ss @ [x]" y "[]" Null] by (simp add: add.commute)
  have 1: "move_suffix 0 1 (int (length ss)) (map Ptr ss @ [x, Null]) = Some (take 1 (map Ptr ss @ [x, Null]) @ map Ptr ss @ [Null])"
    using move_suffix_ok [of "map Ptr ss @ [x, Null]" "[]" "map Ptr ss" "[x, Null]" 1] by simp
  have 2: "(\<lambda>k cs. do { let i = int (length ss) - k; p \<leftarrow> aget cs (i - 1); aset cs i p }) =
      (\<lambda>k cs. do { let i = int (length ss) - 1 - k; p \<leftarrow> aget cs (0 + i); aset cs (0 + 1 + i) p })" by (simp add: Let_def algebra_simps)
  have mv: "for_loop 0 (int (length ss)) (\<lambda>k cs. do { let i = int (length ss) - k; p \<leftarrow> aget cs (i - 1); aset cs i p }) (map Ptr ss @ [x, Null]) =
      Some (take 1 (map Ptr ss @ [x, Null]) @ map Ptr ss @ [Null])"
    by (rule trans [OF arg_cong [OF 2, where f = "\<lambda>f. for_loop 0 (int (length ss)) f (map Ptr ss @ [x, Null])"] 1 [unfolded move_suffix_def]])
  have "length (take 1 (map Ptr ss @ [x, Null])) = 1" by simp
  then obtain z where z: "take 1 (map Ptr ss @ [x, Null]) = [z]" by (cases "map Ptr ss @ [x, Null]") auto
  have "opal_argv_prepend_nosize j [] a s = Some (OPAL_SUCCESS, Ptr (Ptr s # map Ptr ss @ [Null]), [])"
    using argv_count_ok [OF assms] Ptr xy s1 mv [unfolded z] aset_at [of "[]" z "map Ptr ss @ [Null]" "Ptr s"] by (simp add: opal_argv_prepend_nosize_def)
  then show thesis using that holds_simps(2) [of "s # ss" "[]"] by simp
qed

lemma find_arg_ok:
  "find_arg s (map Ptr ss @ Null # r) i =
     (if s \<in> set ss then Some (True, i + int (length (takeWhile (\<lambda>t. t \<noteq> s) ss))) else Some (False, i + int (length ss)))"
  by (induction ss arbitrary: i) auto

lemma append_unique_ok:
  assumes "holds a ss"
  obtains a' where "opal_argv_append_unique_nosize j [] a s ow = Some (OPAL_SUCCESS, a', [])" "holds a' (if s \<in> set ss then ss else ss @ [s])"
proof (cases "s \<in> set ss")
  case False
  have "opal_argv_append_unique_nosize j [] a s ow = opal_argv_append_nosize j [] a s"
    using assms False by (cases a) (auto simp: opal_argv_append_unique_nosize_def find_arg_ok elim!: holds_PtrE)
  then show thesis using that False append_nosize_ok [OF assms, of j s] by auto
next
  case True
  then obtain cs r where cs: "a = Ptr cs" "cs = map Ptr ss @ Null # r" using assms by (cases a) (auto elim!: holds_PtrE)
  define k where "k = length (takeWhile (\<lambda>t. t \<noteq> s) ss)"
  obtain xs ys where "ss = xs @ s # ys" "s \<notin> set xs" using split_list_first [OF True] by blast
  moreover from this(2) have "takeWhile (\<lambda>t. t \<noteq> s) xs = xs" by (auto simp: takeWhile_eq_all_conv)
  ultimately have k: "k < length ss" "ss ! k = s" by (simp_all add: k_def takeWhile_tail)
  have "ss[k := s] = ss" using k(2) by (metis list_update_id)
  then have "aset cs (int k) (Ptr s) = Some cs" using k(1) cs(2) by (simp add: aset_def list_update_append map_update [symmetric])
  then have "opal_argv_append_unique_nosize j [] a s ow = Some (OPAL_SUCCESS, a, [])"
    using True cs by (auto simp: opal_argv_append_unique_nosize_def find_arg_ok k_def)
  then show thesis using that True assms by simp
qed

lemma copy_ok:
  assumes "holds a ss"
  obtains a' where "opal_argv_copy j [] a = Some (a', [])" "holds a' ss" "a' = Null \<longleftrightarrow> a = Null"
proof (cases a)
  case Null
  then show thesis using that [of Null] assms by (simp add: opal_argv_copy_def)
next
  case (Ptr cs)
  then obtain r where r: "cs = map Ptr ss @ Null # r" using assms by (auto elim: holds_PtrE)
  have "\<exists>d'. copy_cells j (map Ptr ss @ Null # r) [] c d = Some (d', []) \<and> holds d' (ds @ ss) \<and> d' \<noteq> Null" if "holds d ds" "d \<noteq> Null" for c d ds
    using that
  proof (induction ss arbitrary: c d ds)
    case (Cons s ss)
    obtain d' where d': "opal_argv_append j [] c d s = Some (OPAL_SUCCESS, int (length ds) + 1, d', [])" "holds d' (ds @ [s])" by (rule append_ok [OF Cons.prems(1)])
    then show ?case using Cons.IH [OF d'(2)] append_nonnull [OF d'(1)] by simp
  qed simp
  from this [of "Ptr [Null]" "[]" 0] show thesis using that Ptr r holds_simps(2) [of "[]" "[]"] by (auto simp: opal_argv_copy_def)
qed

text \<open>Deleting: \<open>argc\<close> goes down by the number asked for, even when fewer strings are left.\<close>

lemma delete_ok:
  assumes a: "holds (Ptr cs) ss" and st: "0 \<le> start" "start \<le> int (length ss)" and num: "0 < num" "start + num \<le> INT_MAX" and argc: "is_cint (argc - num)"
  obtains a' where "opal_argv_delete j al argc (Ptr (Ptr cs)) start num = Some (OPAL_SUCCESS, argc - num, Ptr a', tl al)"
    "holds a' (take (nat start) ss @ drop (nat (start + num)) ss)"
proof -
  obtain r where r: "cs = map Ptr ss @ Null # r" using a by (rule holds_PtrE)
  have ci: "cint (start + num) = Some (start + num)" using st num by (simp add: cint_def is_cint_def INT_MIN_def)
  define sfx where "sfx = map Ptr (drop (nat (start + num)) ss)"
  define pre where "pre = map Ptr (take (nat start) ss)"
  have lp: "length pre = nat start" using st by (simp add: pre_def)
  have ls: "(if int (length ss) - (start + num) < 0 then 0 else int (length ss) - (start + num)) = int (length sfx)" using st num by (auto simp: sfx_def)
  obtain X where X: "for_loop start (start + int (length sfx)) (\<lambda>i cs. do { p \<leftarrow> aget cs (i + num); aset cs i p }) cs = Some (pre @ sfx @ X)" "X \<noteq> []"
  proof (cases "sfx = []")
    case True
    have "cs = pre @ drop (nat start) cs" using st r by (simp add: pre_def drop_map flip: map_append)
    moreover have "drop (nat start) cs \<noteq> []" using r st by simp
    ultimately show ?thesis using that [of "drop (nat start) cs"] True by simp
  next
    case False
    then have lt: "nat (start + num) < length ss" by (simp add: sfx_def)
    define del where "del = map Ptr (take (nat num) (drop (nat start) ss))"
    have ld: "length del = nat num" using lt st num by (auto simp: del_def)
    have "ss = take (nat start) ss @ take (nat num) (drop (nat start) ss) @ drop (nat (start + num)) ss"
      using st num by (metis append_take_drop_id drop_drop add.commute nat_add_distrib order.strict_implies_order)
    then have "map Ptr ss = pre @ del @ sfx" unfolding pre_def del_def sfx_def by (metis map_append)
    then have "cs = pre @ del @ sfx @ Null # r" using r by simp
    from move_down_ok [OF this] have "for_loop start (start + int (length sfx)) (\<lambda>i cs. do { p \<leftarrow> aget cs (i + num); aset cs i p }) cs =
        Some (pre @ sfx @ drop (length pre + length sfx) cs)" using lp ld st num by simp
    moreover have "drop (length pre + length sfx) cs \<noteq> []" using lp ld r lt st num by (simp add: sfx_def)
    ultimately show ?thesis using that by blast
  qed
  obtain x X' where x: "X = x # X'" using X(2) by (cases X) auto
  have i: "start + int (length sfx) = int (length (pre @ sfx))" using lp st by simp
  have set: "aset (pre @ sfx @ X) (start + int (length sfx)) Null = Some ((pre @ sfx) @ Null # X')"
    using aset_at [of "pre @ sfx" x X' Null] unfolding i x by simp
  let ?cs = "if alloc_ok al then realloc_cells j (start + int (length sfx) + 1) ((pre @ sfx) @ Null # X') else (pre @ sfx) @ Null # X'"
  have "realloc_cells j (start + int (length sfx) + 1) ((pre @ sfx) @ Null # X') = (pre @ sfx) @ [Null]"
    unfolding i by (simp add: realloc_cells_def nat_add_distrib)
  moreover have eq: "pre @ sfx = map Ptr (take (nat start) ss @ drop (nat (start + num)) ss)" by (simp add: pre_def sfx_def)
  have "holds (Ptr ((pre @ sfx) @ Null # Z)) (take (nat start) ss @ drop (nat (start + num)) ss)" for Z unfolding eq by (rule holds_simps(2))
  ultimately have h: "holds (Ptr ?cs) (take (nat start) ss @ drop (nat (start + num)) ss)" by (cases "alloc_ok al") (simp_all only: if_True if_False)
  have "opal_argv_delete j al argc (Ptr (Ptr cs)) start num = Some (OPAL_SUCCESS, argc - num, Ptr (Ptr ?cs), tl al)"
    unfolding opal_argv_delete_def ptr.case argv_count_ok [OF a] bind.bind_lunit ci Let_def ls X(1) set using st num argc by simp
  then show thesis using that h by blast
qed

lemma realloc_grow: "\<exists>X. realloc_cells j (int (length ss) + int n) (map Ptr ss @ Null # r) = map Ptr ss @ X \<and> length X = n"
  by (rule exI [of _ "take n (Null # r) @ replicate (n - (1 + length r)) j"]) (auto simp: realloc_cells_def nat_add_distrib)

lemma append_all_ok:
  assumes "holds a ts" and "ps = map Ptr ss @ Null # r"
  obtains a' c where "append_all j [] tc a (int (length ss)) ps = Some (c, a', [])" "holds a' (ts @ ss)"
proof -
  let ?P = "\<lambda>k s. \<exists>c a'. s = (c :: int, a', [] :: bool list) \<and> holds a' (ts @ take k ss)"
  have "\<exists>s'. append_all j [] tc a (int (length ss)) ps = Some s' \<and> ?P (length ss) s'"
    unfolding append_all_def
  proof (rule for_loop_nat0 [where P = ?P])
    fix k s assume k: "k < length ss" and "?P k s"
    then obtain c b where s: "s = (c, b, [])" "holds b (ts @ take k ss)" by blast
    obtain b' where b': "opal_argv_append j [] c b (ss ! k) = Some (OPAL_SUCCESS, int (length (ts @ take k ss)) + 1, b', [])" "holds b' ((ts @ take k ss) @ [ss ! k])"
      by (rule append_ok [OF s(2)])
    have "aget ps (int k) = Some (Ptr (ss ! k))" using k assms(2) by (simp add: aget_def nth_append)
    then show "\<exists>s'. (case s of (target_count, target, al) \<Rightarrow> do { p \<leftarrow> aget ps (int k);
          case p of Null \<Rightarrow> None
          | Ptr s \<Rightarrow> do { (rc, target_count, target, al) \<leftarrow> opal_argv_append j al target_count target s; Some (target_count, target, al) } }) = Some s' \<and> ?P (Suc k) s'"
      using b' s(1) k by (simp add: take_Suc_conv_app_nth)
  qed (use assms(1) in auto)
  then show thesis using that by auto
qed

text \<open>Room for \<open>n\<close> strings in the middle, at \<open>start\<close>.\<close>

lemma make_room_ok:
  assumes cs: "cs = map Ptr ts @ Null # r" and st: "start \<le> length ts"
  obtains X where "do { c \<leftarrow> move_suffix (int start) (int n) (int (length ts) - int start) (realloc_cells j (int (length ts) + int n + 1) cs);
      aset c (int start + (int (length ts) - int start) + int n) Null } = Some (map Ptr (take start ts) @ X @ map Ptr (drop start ts) @ [Null])" "length X = n"
proof -
  let ?A = "map Ptr (take start ts)" and ?S = "map Ptr (drop start ts)"
  obtain Y where Y: "realloc_cells j (int (length ts) + int (n + 1)) cs = map Ptr ts @ Y" "length Y = n + 1" using realloc_grow [of j ts "n + 1" r] cs by blast
  have ts: "map Ptr ts = ?A @ ?S" by (simp flip: map_append)
  define c where "c = map Ptr ts @ Y"
  have "move_suffix (int (length ?A)) (int n) (int (length ?S)) c = Some (take (length ?A + n) c @ ?S @ drop (length ?A + n + length ?S) c)"
    by (rule move_suffix_ok [of _ _ _ Y]) (use ts Y(2) in \<open>simp_all add: c_def\<close>)
  moreover define X where "X = drop start (take (start + n) c)"
  moreover have "take (length ?A + n) c = ?A @ X"
  proof -
    have "take start (take (start + n) c) = ?A" using st by (simp add: c_def take_map)
    then show ?thesis using st unfolding X_def by (metis append_take_drop_id length_map length_take min.absorb2)
  qed
  moreover have lX: "length X = n" using st Y(2) by (simp add: X_def c_def)
  moreover have "length (drop (length ?A + n + length ?S) c) = 1" using st Y(2) by (simp add: c_def)
  then obtain z where "drop (length ?A + n + length ?S) c = [z]" by (metis One_nat_def length_0_conv length_Suc_conv)
  ultimately have mv: "move_suffix (int start) (int n) (int (length ts) - int start) c = Some ((?A @ X @ ?S) @ [z])" using st by (simp add: of_nat_diff)
  have "int start + (int (length ts) - int start) + int n = int (length (?A @ X @ ?S))" using st lX by simp
  then have "aset ((?A @ X @ ?S) @ [z]) (int start + (int (length ts) - int start) + int n) Null = Some ((?A @ X @ ?S) @ [Null])"
    using aset_at [of "?A @ X @ ?S" z "[]" Null] by (simp only:)
  moreover have "int (length ts) + int n + 1 = int (length ts) + int (n + 1)" by simp
  then have "realloc_cells j (int (length ts) + int n + 1) cs = c" unfolding c_def using Y(1) by (simp only:)
  ultimately show thesis using that [of X] mv lX by simp
qed

lemma insert_ok:
  assumes "holds (Ptr cs) ts" and "holds (Ptr ps) ss" and st: "0 \<le> start"
  obtains a' where "opal_argv_insert j [] (Ptr (Ptr cs)) start (Ptr ps) = Some (OPAL_SUCCESS, Ptr a', [])" "holds a' (take (nat start) ts @ ss @ drop (nat start) ts)"
proof (cases "start > int (length ts)")
  case True
  obtain q where q: "ps = map Ptr ss @ Null # q" using assms(2) by (rule holds_PtrE)
  obtain a' c where "append_all j [] (int (length ts)) (Ptr cs) (int (length ss)) ps = Some (c, a', [])" "holds a' (ts @ ss)"
    by (rule append_all_ok [OF assms(1) q])
  then show thesis using that True argv_count_ok [OF assms(1)] argv_count_ok [OF assms(2)] st by (simp add: opal_argv_insert_def)
next
  case False
  define n where "n = nat start"
  have n: "start = int n" "n \<le> length ts" using False st by (auto simp: n_def)
  obtain r where r: "cs = map Ptr ts @ Null # r" using assms(1) by (rule holds_PtrE)
  obtain q where q: "ps = map Ptr ss @ Null # q" using assms(2) by (rule holds_PtrE)
  let ?A = "map Ptr (take n ts)" and ?S = "map Ptr (drop n ts) @ [Null]"
  obtain X where X: "do { c \<leftarrow> move_suffix (int n) (int (length ss)) (int (length ts) - int n) (realloc_cells j (int (length ts) + int (length ss) + 1) cs);
      aset c (int n + (int (length ts) - int n) + int (length ss)) Null } = Some (?A @ X @ ?S)" "length X = length ss"
    by (rule make_room_ok [OF r n(2)])
  let ?f = "\<lambda>i (cs, al). do { p \<leftarrow> aget ps (i - int n); case p of Null \<Rightarrow> None | Ptr s \<Rightarrow> do { cs \<leftarrow> aset cs i (strdup al s); Some (cs, tl al) } }"
  let ?P = "\<lambda>k s. s = (?A @ map Ptr (take k ss) @ drop k X @ ?S, [] :: bool list)"
  have "\<exists>s'. for_loop (int n) (int n + int (length ss)) ?f (?A @ X @ ?S, []) = Some s' \<and> ?P (length ss) s'"
  proof (rule for_loop_nat [where P = ?P])
    fix k s assume k: "k < length ss" and s: "?P k s"
    have get: "aget ps (int n + int k - int n) = Some (Ptr (ss ! k))" using k q by (simp add: aget_def nth_append)
    have eq: "?A @ map Ptr (take k ss) @ drop k X @ ?S = (?A @ map Ptr (take k ss)) @ X ! k # drop (Suc k) X @ ?S" using k X(2) by (simp add: Cons_nth_drop_Suc)
    have ix: "int n + int k = int (length (?A @ map Ptr (take k ss)))" using k n(2) by simp
    have "aset (?A @ map Ptr (take k ss) @ drop k X @ ?S) (int n + int k) (Ptr (ss ! k)) = Some ((?A @ map Ptr (take k ss)) @ Ptr (ss ! k) # drop (Suc k) X @ ?S)"
      unfolding eq ix by (rule aset_at)
    then show "\<exists>s'. ?f (int n + int k) s = Some s' \<and> ?P (Suc k) s'" using get s k by (simp add: take_Suc_conv_app_nth)
  qed simp
  then have loop: "for_loop (int n) (int n + int (length ss)) ?f (?A @ X @ ?S, []) = Some (map Ptr (take n ts @ ss @ drop n ts) @ [Null], [])" using X(2) by simp
  obtain c where c: "move_suffix (int n) (int (length ss)) (int (length ts) - int n) (realloc_cells j (int (length ts) + int (length ss) + 1) cs) = Some c"
    "aset c (int n + (int (length ts) - int n) + int (length ss)) Null = Some (?A @ X @ ?S)" using X(1) by (auto simp: Option.bind_eq_Some_conv)
  have "opal_argv_insert j [] (Ptr (Ptr cs)) start (Ptr ps) = Some (OPAL_SUCCESS, Ptr (Ptr (map Ptr (take n ts @ ss @ drop n ts) @ [Null])), [])"
    unfolding opal_argv_insert_def ptr.case argv_count_ok [OF assms(1)] argv_count_ok [OF assms(2)] bind.bind_lunit Let_def n(1) c list.sel alloc_Nil loop prod.case
    using n(2) by simp
  then show thesis using that holds_simps(2) [of "take n ts @ ss @ drop n ts" "[]"] by (simp add: n_def)
qed

lemma insert_element_ok:
  assumes "holds (Ptr cs) ts" and st: "0 \<le> location"
  obtains a' where "opal_argv_insert_element j [] (Ptr (Ptr cs)) location (Ptr s) = Some (OPAL_SUCCESS, Ptr a', [])" "holds a' (take (nat location) ts @ s # drop (nat location) ts)"
proof (cases "location > int (length ts)")
  case True
  obtain a' where "opal_argv_append j [] (int (length ts)) (Ptr cs) s = Some (OPAL_SUCCESS, int (length ts) + 1, a', [])" "holds a' (ts @ [s])"
    by (rule append_ok [OF assms(1)])
  then show thesis using that True argv_count_ok [OF assms(1)] st by (simp add: opal_argv_insert_element_def)
next
  case False
  define n where "n = nat location"
  have n: "location = int n" "n \<le> length ts" using False st by (auto simp: n_def)
  obtain r where r: "cs = map Ptr ts @ Null # r" using assms(1) by (rule holds_PtrE)
  let ?A = "map Ptr (take n ts)" and ?S = "map Ptr (drop n ts) @ [Null]"
  obtain X where X: "do { c \<leftarrow> move_suffix (int n) (int 1) (int (length ts) - int n) (realloc_cells j (int (length ts) + int 1 + 1) cs);
      aset c (int n + (int (length ts) - int n) + int 1) Null } = Some (?A @ X @ ?S)" "length X = 1"
    by (rule make_room_ok [OF r n(2)])
  then obtain x where x: "X = [x]" by (auto simp: length_Suc_conv)
  obtain c where c: "move_suffix (int n) 1 (int (length ts) - int n) (realloc_cells j (int (length ts) + 2) cs) = Some c"
    "aset c (int n + (int (length ts) - int n) + 1) Null = Some (?A @ x # ?S)" using X(1) x by (auto simp: Option.bind_eq_Some_conv add.assoc)
  have "int n = int (length ?A)" using n(2) by simp
  then have "aset (?A @ x # ?S) (int n) (Ptr s) = Some (?A @ Ptr s # ?S)" using aset_at [of ?A x ?S "Ptr s"] by (simp only:)
  then have "opal_argv_insert_element j [] (Ptr (Ptr cs)) location (Ptr s) = Some (OPAL_SUCCESS, Ptr (Ptr (?A @ Ptr s # ?S)), [])"
    unfolding opal_argv_insert_element_def ptr.case argv_count_ok [OF assms(1)] bind.bind_lunit Let_def n(1) c list.sel alloc_Nil using n(2) by simp
  then show thesis using that holds_simps(2) [of "take n ts @ s # drop n ts" "[]"] by (simp add: n_def)
qed

end
