(* ===== verification/Argv_Split.thy ===== *)
theory Argv_Split
  imports Argv_Lists
begin

text \<open>
  Splitting and joining of argument vectors against the fields of a string, and what one does after the other;
  then the properties of all operations on argument vectors.
\<close>

section \<open>Fields\<close>

fun fields :: "char \<Rightarrow> cstring \<Rightarrow> cstring list" where
  "fields d [] = [[]]"
| "fields d (c # s) = (if c = d then [] # fields d s else (c # hd (fields d s)) # tl (fields d s))"

text \<open>The fields without an empty one at the end.\<close>

definition trimmed :: "cstring list \<Rightarrow> cstring list" where
  "trimmed fs = (if fs \<noteq> [] \<and> last fs = [] then butlast fs else fs)"

definition joined :: "char \<Rightarrow> cstring list \<Rightarrow> cstring" where
  "joined d ss = (case ss of [] \<Rightarrow> [] | s # ts \<Rightarrow> s @ concat (map (\<lambda>t. d # t) ts))"

lemma fields_nonempty [simp]: "fields d s \<noteq> []"
  by (induction s) auto

lemma fields_unfold:
  "fields d s = takeWhile (\<lambda>c. c \<noteq> d) s # (case dropWhile (\<lambda>c. c \<noteq> d) s of [] \<Rightarrow> [] | _ # r \<Rightarrow> fields d r)"
  by (induction s) (auto split: list.splits)

lemma trimmed_Cons: "fs \<noteq> [] \<Longrightarrow> trimmed (f # fs) = f # trimmed fs"
  by (auto simp: trimmed_def)

lemma joined_Cons: "ss \<noteq> [] \<Longrightarrow> joined d (s # ss) = s @ d # joined d ss"
  by (cases ss) (auto simp: joined_def)

lemma joined_snoc: "ss \<noteq> [] \<Longrightarrow> joined d (ss @ [s]) = joined d ss @ d # s"
  by (cases ss) (auto simp: joined_def)

lemma joined_fields: "joined d (fields d s) = s"
proof (induction s)
  case (Cons c s)
  obtain f fs where f: "fields d s = f # fs" using fields_nonempty [of d s] by (cases "fields d s") auto
  then show ?case using Cons by (auto simp: joined_Cons) (auto simp: joined_def)
qed (simp add: joined_def)

lemma joined_trimmed: "joined d (trimmed (fields d s)) = (if s \<noteq> [] \<and> last s = d then butlast s else s)"
proof -
  have fs: "fields d s = butlast (fields d s) @ [last (fields d s)]" by simp
  show ?thesis
  proof (cases "butlast (fields d s) = []")
    case True
    then have one: "fields d s = [last (fields d s)]" using fs by simp
    then have s: "s = last (fields d s)" using joined_fields [of d s] by (metis append_Nil2 concat.simps(1) joined_def list.simps(5,8))
    have "d \<notin> set s"
    proof
      assume "d \<in> set s"
      then have "dropWhile (\<lambda>c. c \<noteq> d) s \<noteq> []" by (auto simp: dropWhile_eq_Nil_conv)
      then have "length (fields d s) > 1" by (subst fields_unfold) (auto split: list.splits)
      then show False using one by (metis One_nat_def length_Cons less_irrefl list.size(3))
    qed
    moreover have "joined d (trimmed (fields d s)) = s"
    proof (cases "s = []")
      case True
      then show ?thesis by (simp add: trimmed_def joined_def)
    next
      case False
      then have "trimmed (fields d s) = fields d s" using s by (simp add: trimmed_def)
      then show ?thesis using joined_fields by simp
    qed
    ultimately show ?thesis by (metis last_in_set)
  next
    case False
    have j: "s = joined d (butlast (fields d s)) @ d # last (fields d s)" using joined_fields [of d s] joined_snoc [OF False, of d "last (fields d s)"] fs by simp
    have dl: "d \<notin> set (last (fields d s))"
    proof (induction s)
      case (Cons c s)
      obtain f fs where "fields d s = f # fs" using fields_nonempty [of d s] by (cases "fields d s") auto
      then show ?case using Cons by (cases "fs = []") (auto split: if_splits)
    qed simp
    show ?thesis
    proof (cases "last (fields d s) = []")
      case True
      then show ?thesis using j by (simp add: trimmed_def) (metis butlast_snoc last_snoc snoc_eq_iff_butlast)
    next
      case False
      then have "last s = last (last (fields d s))" using j by (metis append_is_Nil_conv last_append last_ConsR list.discI)
      then have "last s \<noteq> d" using dl False by (metis last_in_set)
      then show ?thesis using False by (simp add: trimmed_def joined_fields)
    qed
  qed
qed

lemma fields_joined:
  assumes "ss \<noteq> []" and "\<forall>s \<in> set ss. d \<notin> set s"
  shows "fields d (joined d ss) = ss"
  using assms
proof (induction ss rule: list_nonempty_induct)
  case (single s)
  have t: "takeWhile (\<lambda>c. c \<noteq> d) s = s" "dropWhile (\<lambda>c. c \<noteq> d) s = []" using single by (auto simp: takeWhile_eq_all_conv dropWhile_eq_Nil_conv)
  show ?case by (subst fields_unfold) (simp add: joined_def t)
next
  case (cons s ss)
  have "\<forall>c \<in> set s. c \<noteq> d" using cons.prems by auto
  then have t: "takeWhile (\<lambda>c. c \<noteq> d) (s @ d # joined d ss) = s" "dropWhile (\<lambda>c. c \<noteq> d) (s @ d # joined d ss) = d # joined d ss"
    by (simp_all add: takeWhile_append2 dropWhile_append2)
  show ?case using cons by (subst fields_unfold) (simp add: joined_Cons t)
qed

section \<open>Splitting\<close>

lemma split_add_ok:
  assumes "holds a ts"
  obtains argc' a' where "split_add j [] argc a e f rest = Some (True, argc', a', [])" "holds a' (ts @ (if f = [] \<and> \<not> e then [] else [f]))"
proof (cases "f = [] \<and> \<not> e")
  case True
  then show thesis using that [of argc a] assms by (simp add: split_add_def)
next
  case False
  obtain a' where a': "opal_argv_append j [] argc a f = Some (OPAL_SUCCESS, int (length ts) + 1, a', [])" "holds a' (ts @ [f])" by (rule append_ok [OF assms])
  have "split_add j [] argc a e f rest = Some (True, int (length ts) + 1, a', [])" using False a'(1) by (cases "f = []") (simp_all add: split_add_def ARGSIZE_def)
  then show thesis using that a'(2) False by simp
qed

lemma split_loop_ok:
  assumes "holds a ts"
  shows "\<exists>a'. split_loop j [] argc a e d src = Some (a', []) \<and> holds a' (ts @ (if e then trimmed (fields d src) else filter (\<lambda>f. f \<noteq> []) (fields d src)))"
  using assms
proof (induction src arbitrary: a ts argc rule: length_induct)
  case (1 src)
  show ?case
  proof (cases "src = []")
    case True
    then show ?thesis using "1.prems" by (auto simp: split_loop.simps trimmed_def)
  next
    case False
    let ?f = "takeWhile (\<lambda>c. c \<noteq> d) src" and ?r = "dropWhile (\<lambda>c. c \<noteq> d) src"
    obtain argc' a' where a': "split_add j [] argc a e ?f ?r = Some (True, argc', a', [])" "holds a' (ts @ (if ?f = [] \<and> \<not> e then [] else [?f]))"
      by (rule split_add_ok [OF "1.prems"])
    have run: "split_loop j [] argc a e d src = split_loop j [] argc' a' e d (tl ?r)" using False a'(1) by (simp add: split_loop.simps [of j "[]" argc a e d src] Let_def)
    have "length (tl ?r) < length src" using tl_dropWhile_shorter [OF False] by simp
    then obtain b where b: "split_loop j [] argc' a' e d (tl ?r) = Some (b, [])"
      "holds b ((ts @ (if ?f = [] \<and> \<not> e then [] else [?f])) @ (if e then trimmed (fields d (tl ?r)) else filter (\<lambda>f. f \<noteq> []) (fields d (tl ?r))))"
      using "1.IH" a'(2) by blast
    have eq: "(if ?f = [] \<and> \<not> e then [] else [?f]) @ (if e then trimmed (fields d (tl ?r)) else filter (\<lambda>f. f \<noteq> []) (fields d (tl ?r))) =
        (if e then trimmed (fields d src) else filter (\<lambda>f. f \<noteq> []) (fields d src))"
    proof (cases ?r)
      case Nil
      then have "?f = src" by (metis append_Nil2 takeWhile_dropWhile_id)
      moreover from this have "fields d src = [src]" by (subst fields_unfold) (simp only: Nil list.case)
      ultimately show ?thesis using False by (simp only: Nil list.sel) (simp add: trimmed_def)
    next
      case (Cons c r)
      then have "fields d src = ?f # fields d r" using fields_unfold [of d src] by simp
      then show ?thesis using Cons by (simp add: trimmed_Cons)
    qed
    show ?thesis using run b(1) b(2) [unfolded append.assoc eq] by (intro exI [of _ b] conjI) (simp only:)
  qed
qed

section \<open>Joining\<close>

lemma joined_len_ok: "joined_len (map Ptr ss @ Null # r) n = Some (n + sum_list (map (\<lambda>s. length s + 1) ss))"
  by (induction ss arbitrary: n) auto

lemma joined_len_range_ok:
  "joined_len_range (map Ptr ss @ Null # r) i e n = Some (n + sum_list (map (\<lambda>s. length s + 1) (take (e - i) ss)))"
proof (induction ss arbitrary: i n)
  case (Cons s ss)
  show ?case
  proof (cases "i < e")
    case True
    then have "e - i = Suc (e - (i + 1))" by simp
    then show ?thesis using True Cons by simp
  qed simp
qed simp

lemma length_joined: "ss \<noteq> [] \<Longrightarrow> Suc (length (joined d ss)) = sum_list (map (\<lambda>s. length s + 1) ss)"
  by (induction ss rule: list_nonempty_induct) (auto simp: joined_Cons, simp add: joined_def)

text \<open>The loop has written the first \<open>k\<close> characters and stands in string \<open>i\<close> with \<open>t\<close> left of it.\<close>

lemma join_fill_ok:
  assumes ne: "ss \<noteq> []" and cs: "cs = A @ map Ptr ss @ B" "B \<noteq> []" and str: "length str0 = length (joined d ss)"
  shows "join_fill d cs (int (length A)) (str0 @ [z]) (int (length (joined d ss))) = Some (joined d ss @ [z])"
proof -
  let ?J = "joined d ss" and ?rest = "\<lambda>i. concat (map (\<lambda>t. d # t) (drop (Suc i) ss))"
  let ?P = "\<lambda>k s. \<exists>i t. s = (int (length A + i), Ptr t, take k ?J @ drop k str0 @ [z]) \<and> i < length ss \<and> drop k ?J = t @ ?rest i"
  let ?f = "\<lambda>i (p, pp, str). case pp of Null \<Rightarrow> None
          | Ptr [] \<Rightarrow> do { str \<leftarrow> aset str i d; pp \<leftarrow> aget cs (p + 1); Some (p + 1, pp, str) }
          | Ptr (c # r) \<Rightarrow> do { str \<leftarrow> aset str i c; Some (p, Ptr r, str) }"
  have cell: "aget cs (int (length A + i)) = Some (Ptr (ss ! i))" if "i < length ss" for i
    using that cs(1) by (simp add: aget_def nth_append nat_int_add)
  have "\<exists>s'. for_loop 0 (int (length ?J)) ?f (int (length A), Ptr (ss ! 0), str0 @ [z]) = Some s' \<and> ?P (length ?J) s'"
  proof (rule for_loop_nat0 [where P = ?P])
    show "?P 0 (int (length A), Ptr (ss ! 0), str0 @ [z])"
      using ne by (intro exI [of _ 0] exI [of _ "ss ! 0"]) (cases ss; simp add: joined_def)
  next
    fix k s assume k: "k < length ?J" and "?P k s"
    then obtain i t where s: "s = (int (length A + i), Ptr t, take k ?J @ drop k str0 @ [z])" "i < length ss" "drop k ?J = t @ ?rest i" by blast
    have dJ: "drop k ?J = ?J ! k # drop (Suc k) ?J" using k by (rule Cons_nth_drop_Suc [symmetric])
    have eq: "take k ?J @ drop k str0 @ [z] = take k ?J @ str0 ! k # drop (Suc k) str0 @ [z]" using k str by (simp add: Cons_nth_drop_Suc)
    have ix: "int k = int (length (take k ?J))" using k by simp
    have set: "aset (take k ?J @ drop k str0 @ [z]) (int k) (?J ! k) = Some (take (Suc k) ?J @ drop (Suc k) str0 @ [z])"
      unfolding eq by (subst ix) (simp only: aset_at, use k in \<open>simp add: take_Suc_conv_app_nth\<close>)
    show "\<exists>s'. ?f (int k) s = Some s' \<and> ?P (Suc k) s'"
    proof (cases t)
      case Nil
      then have r: "?rest i = ?J ! k # drop (Suc k) ?J" using s(3) dJ by simp
      then have i: "Suc i < length ss" by (cases "Suc i < length ss") auto
      then have dr: "drop (Suc i) ss = ss ! Suc i # drop (Suc (Suc i)) ss" by (rule Cons_nth_drop_Suc [symmetric])
      then have J: "?J ! k = d" "drop (Suc k) ?J = ss ! Suc i @ ?rest (Suc i)" using r by auto
      have "?f (int k) s = Some (int (length A + Suc i), Ptr (ss ! Suc i), take (Suc k) ?J @ drop (Suc k) str0 @ [z])"
        using s(1) Nil set J(1) cell [OF i] by (simp add: add.commute add.left_commute)
      then show ?thesis using i J(2) by blast
    next
      case (Cons c t')
      then have J: "?J ! k = c" "drop (Suc k) ?J = t' @ ?rest i" using s(3) dJ by auto
      have "?f (int k) s = Some (int (length A + i), Ptr t', take (Suc k) ?J @ drop (Suc k) str0 @ [z])" using s(1) Cons set J(1) by simp
      then show ?thesis using s(2) J(2) by blast
    qed
  qed
  moreover have "aget cs (int (length A)) = Some (Ptr (ss ! 0))" using cell [of 0] ne by simp
  ultimately show ?thesis using str unfolding join_fill_def by auto
qed

lemma join_block_ok:
  assumes "ss \<noteq> []" and "cs = A @ map Ptr ss @ B" "B \<noteq> []" and "n = sum_list (map (\<lambda>s. length s + 1) ss)"
  shows "join_block c0 [] d cs (length A) n = Some (Ptr (joined d ss @ [CHR 0x00]), [])"
proof -
  have n: "n = Suc (length (joined d ss))" using length_joined [OF assms(1)] assms(4) by simp
  have "replicate n c0 = replicate (length (joined d ss)) c0 @ [c0]" by (simp add: n replicate_append_same)
  then have "aset (replicate n c0) (int n - 1) CHR 0x00 = Some (replicate (length (joined d ss)) c0 @ [CHR 0x00])"
    using aset_at [of "replicate (length (joined d ss)) c0" c0 "[]" "CHR 0x00"] n by simp
  then show ?thesis using join_fill_ok [OF assms(1-3), of "replicate (length (joined d ss)) c0" d "CHR 0x00"] n by (simp add: join_block_def)
qed

lemma join_ok:
  assumes "holds a ss"
  shows "opal_argv_join c0 [] a d = Some (Ptr (joined d ss @ [CHR 0x00]), [])"
proof (cases a)
  case Null
  then show ?thesis using assms by (simp add: opal_argv_join_def joined_def)
next
  case (Ptr cs)
  then obtain r where cs: "cs = map Ptr ss @ Null # r" using assms by (auto elim: holds_PtrE)
  show ?thesis
  proof (cases ss)
    case Nil
    then show ?thesis using Ptr cs by (simp add: opal_argv_join_def joined_def aget_def)
  next
    case (Cons s ts)
    have "join_block c0 [] d cs (length ([] :: cstring ptr list)) (sum_list (map (\<lambda>s. length s + 1) ss)) = Some (Ptr (joined d ss @ [CHR 0x00]), [])"
      by (rule join_block_ok [where B = "Null # r"]) (use cs Cons in simp_all)
    moreover have "aget cs 0 = Some (Ptr s)" using cs Cons by (simp add: aget_def)
    ultimately show ?thesis using Ptr cs joined_len_ok [of ss r 0] by (simp add: opal_argv_join_def)
  qed
qed

lemma join_range_ok:
  assumes "holds a ss" and st: "start < length ss" "start < e" and fits: "int (length ss) \<le> INT_MAX"
  shows "opal_argv_join_range c0 [] a start e d = Some (Ptr (joined d (take (e - start) (drop start ss)) @ [CHR 0x00]), [])"
proof -
  obtain cs r where cs: "a = Ptr cs" "cs = map Ptr ss @ Null # r" using assms(1) st by (cases a) (auto elim: holds_PtrE)
  let ?t = "take (e - start) (drop start ss)"
  have ne: "?t \<noteq> []" using st by simp
  have "cs = map Ptr (take start ss) @ map Ptr ?t @ map Ptr (drop (e - start) (drop start ss)) @ Null # r"
    unfolding cs(2) by (metis append.assoc append_take_drop_id map_append)
  then have blk: "join_block c0 [] d cs (length (map Ptr (take start ss) :: cstring ptr list)) (sum_list (map (\<lambda>s. length s + 1) ?t)) = Some (Ptr (joined d ?t @ [CHR 0x00]), [])"
    by (rule join_block_ok [OF ne]) simp_all
  have "drop start cs = map Ptr (drop start ss) @ Null # r" using cs(2) st by (simp add: drop_map)
  then have len: "joined_len_range (drop start cs) start e 0 = Some (sum_list (map (\<lambda>s. length s + 1) ?t))" using joined_len_range_ok [of "drop start ss" r start e 0] by simp
  have "aget cs 0 = Some (Ptr (ss ! 0))" using cs(2) st by (cases ss) (auto simp: aget_def)
  moreover have "int_of_size_t (int start) = int start" using st fits by simp
  ultimately show ?thesis using cs st blk len argv_count_ok [OF assms(1)] by (simp add: opal_argv_join_range_def Let_def)
qed

text \<open>An empty range that starts inside the vector or at its end.\<close>

lemma join_range_empty:
  assumes "holds a ss" and "ss \<noteq> []" and st: "start \<le> length ss" "e \<le> start \<or> start = length ss" and fits: "int (length ss) \<le> INT_MAX"
  shows "opal_argv_join_range c0 [] a start e d = None"
proof -
  obtain cs r where cs: "a = Ptr cs" "cs = map Ptr ss @ Null # r" using assms(1,2) by (cases a) (auto elim: holds_PtrE)
  have "drop start cs = map Ptr (drop start ss) @ Null # r" using cs(2) st by (simp add: drop_map)
  then have "joined_len_range (drop start cs) start e 0 = Some 0" using joined_len_range_ok [of "drop start ss" r start e 0] st(2) by auto
  moreover have "aget cs 0 = Some (Ptr (ss ! 0))" using cs(2) assms(2) by (cases ss) (auto simp: aget_def)
  moreover have "int_of_size_t (int start) = int start" using st fits by simp
  ultimately show ?thesis using cs st argv_count_ok [OF assms(1)] by (simp add: opal_argv_join_range_def Let_def join_block_def aset_def)
qed

section \<open>Properties\<close>



text \<open>C32: opal_argv_split_with_empty gives the fields of a string between the delimiters, without an empty one at
  the end, and opal_argv_split the non-empty fields, whatever the lengths of the fields: no field overruns the
  buffer of 128 characters.\<close>

theorem argv_split_gives_fields:
  "(\<exists>a. opal_argv_split_with_empty j [] (Ptr s) d = Some (a, []) \<and> holds a (trimmed (fields d s))) \<and>
   (\<exists>a. opal_argv_split j [] (Ptr s) d = Some (a, []) \<and> holds a (filter (\<lambda>f. f \<noteq> []) (fields d s)))"
  using split_loop_ok [of Null "[]" j 0 True d s] split_loop_ok [of Null "[]" j 0 False d s]
  by (simp add: opal_argv_split_with_empty_def opal_argv_split_def opal_argv_split_inter_def)

text \<open>C33: Splitting a string with opal_argv_split_with_empty and joining the result gives the string back, but for one
  delimiter at its end; joining strings that do not contain the delimiter, the last of them not empty, and
  splitting the result gives the strings back.\<close>

theorem argv_split_join_round_trip:
  assumes "holds a ss" and "ss \<noteq> []" and "last ss \<noteq> []" and "\<forall>t \<in> set ss. d \<notin> set t"
  shows "(\<exists>b. opal_argv_split_with_empty j [] (Ptr s) d = Some (b, []) \<and>
            opal_argv_join c0 [] b d = Some (Ptr ((if s \<noteq> [] \<and> last s = d then butlast s else s) @ [CHR 0x00]), [])) \<and>
         (\<exists>str b. opal_argv_join c0 [] a d = Some (Ptr (str @ [CHR 0x00]), []) \<and>
            opal_argv_split_with_empty j [] (Ptr str) d = Some (b, []) \<and> holds b ss)"
proof -
  have split: "\<exists>b. opal_argv_split_with_empty j [] (Ptr u) d = Some (b, []) \<and> holds b (trimmed (fields d u))" for u
    using split_loop_ok [of Null "[]" j 0 True d u] by (simp add: opal_argv_split_with_empty_def opal_argv_split_inter_def)
  obtain b where b: "opal_argv_split_with_empty j [] (Ptr s) d = Some (b, [])" "holds b (trimmed (fields d s))" using split by blast
  have 1: "opal_argv_join c0 [] b d = Some (Ptr ((if s \<noteq> [] \<and> last s = d then butlast s else s) @ [CHR 0x00]), [])"
    using join_ok [OF b(2)] by (simp add: joined_trimmed)
  have "trimmed (fields d (joined d ss)) = ss" using fields_joined [OF assms(2,4)] assms(3) by (simp add: trimmed_def)
  then show ?thesis using b(1) 1 join_ok [OF assms(1), of c0 d] split [of "joined d ss"] by metis
qed

theorem argv_split_join_round_trip_witness:
  "\<exists>b. opal_argv_split_with_empty Null [] (Ptr ''a,,b,'') (CHR '','') = Some (b, []) \<and>
     opal_argv_join (CHR ''x'') [] b (CHR '','') = Some (Ptr (''a,,b'' @ [CHR 0x00]), [])"
proof -
  have h: "holds (Ptr [Ptr ''a'', Ptr ''b'', Null]) [''a'', ''b'']" by (simp add: holds_def)
  show ?thesis using argv_split_join_round_trip [OF h, of "CHR '',''" Null "''a,,b,''" "CHR ''x''"] by auto
qed

text \<open>C34: opal_argv_join_range joins the strings of a range that has at least one string; for an empty range at an
  index up to the number of strings it computes the length 0 - 1 and writes the terminating zero outside the
  string.\<close>

theorem argv_join_range_empty_overruns:
  assumes "holds a ss" and "ss \<noteq> []" and "int (length ss) \<le> INT_MAX" and "start \<le> length ss"
  shows "opal_argv_join_range c0 [] a start e d =
    (if start < length ss \<and> start < e then Some (Ptr (joined d (take (e - start) (drop start ss)) @ [CHR 0x00]), []) else None)"
  using join_range_ok [OF assms(1) _ _ assms(3), of start e c0 d] join_range_empty [OF assms(1,2,4) _ assms(3), of e c0 d] assms(4) by auto

theorem argv_join_range_empty_overruns_witness:
  "opal_argv_join_range (CHR ''x'') [] (Ptr [Ptr ''a'', Ptr ''b'', Null]) 2 9 (CHR '' '') = None"
proof -
  have h: "holds (Ptr [Ptr ''a'', Ptr ''b'', Null]) [''a'', ''b'']" by (simp add: holds_def)
  show ?thesis using argv_join_range_empty_overruns [OF h, of 2 "CHR ''x''" 9 "CHR '' ''"] by (simp add: INT_MAX_def)
qed

end
