(* ===== verification/Graph_Topology.thy ===== *)
theory Graph_Topology
  imports Group
begin

text \<open>
  Graph topologies (\<^verbatim>\<open>ompi/mca/topo/base/topo_base_graph_*.c\<close>) and the part of the distributed graph topologies
  that one process does alone (\<^verbatim>\<open>topo_base_dist_graph_create_adjacent.c\<close> and the two queries). A graph is
  given by the numbers of edges of the first nodes (\<open>index\<close>) and the ends of the edges (\<open>edges\<close>).
  The allocations succeed as \<open>graph_alloc\<close> says; \<open>allocate\<close> and \<open>enable\<close> stand for \<^verbatim>\<open>ompi_comm_allocate\<close>
  and \<^verbatim>\<open>ompi_comm_enable\<close>, \<open>create\<close> for the return code of \<^verbatim>\<open>ompi_comm_create\<close>.
\<close>

section \<open>Graphs\<close>

record comm_graph =
  g_nnodes :: int
  g_index :: "int list"
  g_edges :: "int list"

record 'p graph_comm =
  gc_size :: int
  gc_rank :: int
  gc_procs :: "'p list"
  gc_reorder :: bool
  graph :: comm_graph

record graph_alloc =
  al_graph :: bool
  al_index :: bool
  al_edges :: bool
  al_topo_procs :: bool

text \<open>\<^verbatim>\<open>memcpy\<close> of the first \<open>n\<close> elements of an array.\<close>

definition copy_first :: "'a list \<Rightarrow> int \<Rightarrow> 'a list option" where
  "copy_first xs n = (if 0 \<le> n \<and> n \<le> int (length xs) then Some (take (nat n) xs) else None)"

text \<open>The processes of the new communicator: the first ones of the old group.\<close>

definition first_procs :: "int \<Rightarrow> 'p ompi_group \<Rightarrow> int \<Rightarrow> 'p list option" where
  "first_procs junk g num_procs =
     (case grp_storage g of
        Dense procs \<Rightarrow> copy_first procs num_procs
      | _ \<Rightarrow> for_loop 0 num_procs (\<lambda>i ps. do { p \<leftarrow> ompi_group_peer_lookup junk g i; Some (ps @ [p]) }) [])"

definition mca_topo_base_graph_create ::
    "graph_alloc \<Rightarrow> int \<Rightarrow> bool \<Rightarrow> int \<Rightarrow> 'p ompi_group \<Rightarrow> int \<Rightarrow> int list \<Rightarrow> int list \<Rightarrow> bool \<Rightarrow> (int + 'p graph_comm ptr) option" where
  "mca_topo_base_graph_create al junk allocate enable c_local_group n ix es reorder =
     (let num_procs = grp_proc_count c_local_group; new_rank = grp_my_rank c_local_group in
      if num_procs < n then Some (Inl MPI_ERR_DIMS)
      else do {
        let num_procs = (if num_procs > n then n else num_procs);
        let (new_rank, num_procs, n) = (if new_rank > n - 1 then (MPI_UNDEFINED, 0, 0) else (new_rank, num_procs, n));
        if \<not> al_graph al then Some (Inl OPAL_ERR_OUT_OF_RESOURCE)
        else do {
          g \<leftarrow> (if MPI_UNDEFINED \<noteq> new_rank then
                  (if \<not> al_index al then Some (Inl OPAL_ERR_OUT_OF_RESOURCE)
                   else do {
                     gi \<leftarrow> copy_first ix n;
                     k \<leftarrow> aget ix (n - 1);
                     if \<not> al_edges al then Some (Inl OPAL_ERR_OUT_OF_RESOURCE)
                     else do {
                       ge \<leftarrow> copy_first es k;
                       if \<not> al_topo_procs al then Some (Inl OPAL_ERR_OUT_OF_RESOURCE)
                       else do {
                         procs \<leftarrow> first_procs junk c_local_group num_procs;
                         Some (Inr (\<lparr>g_nnodes = n, g_index = gi, g_edges = ge\<rparr>, procs)) } } })
                else Some (Inr (\<lparr>g_nnodes = n, g_index = [], g_edges = []\<rparr>, [])));
          case g of Inl e \<Rightarrow> Some (Inl e)
          | Inr (g, procs) \<Rightarrow>
              if \<not> allocate then Some (Inl OPAL_ERR_OUT_OF_RESOURCE)
              else if enable \<noteq> OPAL_SUCCESS then Some (Inl enable)
              else if MPI_UNDEFINED = new_rank then Some (Inr Null)
              else Some (Inr (Ptr \<lparr>gc_size = num_procs, gc_rank = new_rank, gc_procs = procs, gc_reorder = reorder, graph = g\<rparr>)) } })"

definition mca_topo_base_graph_map :: "int \<Rightarrow> int \<Rightarrow> int" where
  "mca_topo_base_graph_map myrank n = (if 0 > myrank \<or> myrank \<ge> n then MPI_UNDEFINED else myrank)"

definition mca_topo_base_graphdims_get :: "'p graph_comm \<Rightarrow> (int \<times> int) option" where
  "mca_topo_base_graphdims_get comm = do {
     let nodes = gc_size comm;
     nedges \<leftarrow> aget (g_index (graph comm)) (nodes - 1);
     Some (nodes, nedges) }"

text \<open>The loops that copy stop at the size of the caller's array; \<open>from\<close> is where the reading starts.\<close>

definition copy_out :: "int list \<Rightarrow> int \<Rightarrow> int \<Rightarrow> int list \<Rightarrow> int list option" where
  "copy_out src from n dst = for_loop 0 n (\<lambda>i dst. do { x \<leftarrow> aget src (from + i); aset dst i x }) dst"

definition mca_topo_base_graph_get :: "'p graph_comm \<Rightarrow> int \<Rightarrow> int \<Rightarrow> int list \<Rightarrow> int list \<Rightarrow> (int list \<times> int list) option" where
  "mca_topo_base_graph_get comm maxindex maxedges ix es = do {
     let nprocs = gc_size comm;
     ix \<leftarrow> copy_out (g_index (graph comm)) 0 (min nprocs maxindex) ix;
     k \<leftarrow> aget (g_index (graph comm)) (nprocs - 1);
     es \<leftarrow> copy_out (g_edges (graph comm)) 0 (min k maxedges) es;
     Some (ix, es) }"

definition mca_topo_base_graph_neighbors_count :: "'p graph_comm \<Rightarrow> int \<Rightarrow> int option" where
  "mca_topo_base_graph_neighbors_count comm rank = do {
     nneighbors \<leftarrow> aget (g_index (graph comm)) rank;
     if rank > 0 then do { i \<leftarrow> aget (g_index (graph comm)) (rank - 1); Some (nneighbors - i) }
     else Some nneighbors }"

definition mca_topo_base_graph_neighbors :: "'p graph_comm \<Rightarrow> int \<Rightarrow> int \<Rightarrow> int list \<Rightarrow> int list option" where
  "mca_topo_base_graph_neighbors comm rank maxneighbors neighbors = do {
     nnbrs \<leftarrow> aget (g_index (graph comm)) rank;
     (nnbrs, p) \<leftarrow> (if rank > 0 then do { i \<leftarrow> aget (g_index (graph comm)) (rank - 1); Some (nnbrs - i, i) } else Some (nnbrs, 0));
     copy_out (g_edges (graph comm)) p (min maxneighbors nnbrs) neighbors }"

section \<open>Distributed graphs\<close>

text \<open>\<open>Null\<close> weights are MPI_UNWEIGHTED.\<close>

record dist_graph =
  dg_in :: "int list ptr"
  dg_inw :: "int list ptr"
  dg_out :: "int list ptr"
  dg_outw :: "int list ptr"
  indegree :: int
  outdegree :: int
  weighted :: bool

text \<open>What the communicator keeps of the topology.\<close>

record dist_comm =
  dc_graph :: dist_graph
  dc_reorder :: int

record dist_alloc =
  al_dist :: bool
  al_in :: bool
  al_inw :: bool
  al_out :: bool
  al_outw :: bool

text \<open>The edges of one direction: \<open>Inl\<close> when an allocation fails.\<close>

definition adjacent_edges :: "bool \<Rightarrow> bool \<Rightarrow> int \<Rightarrow> int list \<Rightarrow> int list ptr \<Rightarrow> (int + (int list ptr \<times> int list ptr)) option" where
  "adjacent_edges ok okw degree nbrs weights =
     (if degree > 0 then
        if \<not> ok then Some (Inl OPAL_ERR_OUT_OF_RESOURCE)
        else do {
          e \<leftarrow> copy_first nbrs degree;
          case weights of Null \<Rightarrow> Some (Inr (Ptr e, Null))
          | Ptr ws \<Rightarrow>
              if \<not> okw then Some (Inl OPAL_ERR_OUT_OF_RESOURCE)
              else do { w \<leftarrow> copy_first ws degree; Some (Inr (Ptr e, Ptr w)) } }
      else Some (Inr (Null, Null)))"

text \<open>The clean-up reads the members of the topology, also when it is the topology that could not be allocated.\<close>

definition mca_topo_base_dist_graph_create_adjacent ::
    "dist_alloc \<Rightarrow> int \<Rightarrow> int \<Rightarrow> int list \<Rightarrow> int list ptr \<Rightarrow> int \<Rightarrow> int list \<Rightarrow> int list ptr \<Rightarrow> int \<Rightarrow> (int + dist_comm) option" where
  "mca_topo_base_dist_graph_create_adjacent al create indeg sources sourceweights outdeg destinations destweights reorder =
     (if create \<noteq> OPAL_SUCCESS then Some (Inl create)
      else if \<not> al_dist al then None
      else do {
        i \<leftarrow> adjacent_edges (al_in al) (al_inw al) indeg sources sourceweights;
        case i of Inl e \<Rightarrow> Some (Inl e)
        | Inr (i, iw) \<Rightarrow> do {
            ou \<leftarrow> adjacent_edges (al_out al) (al_outw al) outdeg destinations destweights;
            case ou of Inl e \<Rightarrow> Some (Inl e)
            | Inr (ou, ow) \<Rightarrow>
                Some (Inr \<lparr>dc_graph = \<lparr>dg_in = i, dg_inw = iw, dg_out = ou, dg_outw = ow, indegree = indeg, outdegree = outdeg,
                                       weighted = (\<not> (sourceweights = Null \<and> destweights = Null))\<rparr>,
                           dc_reorder = reorder\<rparr>) } })"

definition mca_topo_base_dist_graph_neighbors_count :: "bool \<Rightarrow> dist_graph \<Rightarrow> int + (int \<times> int \<times> bool)" where
  "mca_topo_base_dist_graph_neighbors_count is_dist_graph dg =
     (if \<not> is_dist_graph then Inl OPAL_ERR_NOT_FOUND else Inr (indegree dg, outdegree dg, weighted dg))"

text \<open>The edges of one direction and their weights, into the caller's arrays.\<close>

definition report_edges :: "int \<Rightarrow> int list ptr \<Rightarrow> int list ptr \<Rightarrow> int list \<Rightarrow> int list \<Rightarrow> (int list \<times> int list) option" where
  "report_edges degree nbrs ws dst dstw =
     for_loop 0 degree (\<lambda>i (dst, dstw). do {
       x \<leftarrow> aget (cells nbrs) i;
       dst \<leftarrow> aset dst i x;
       case ws of Null \<Rightarrow> Some (dst, dstw)
       | Ptr w \<Rightarrow> do { y \<leftarrow> aget w i; dstw \<leftarrow> aset dstw i y; Some (dst, dstw) } }) (dst, dstw)"

definition mca_topo_base_dist_graph_neighbors ::
    "bool \<Rightarrow> dist_graph \<Rightarrow> int \<Rightarrow> int list \<Rightarrow> int list \<Rightarrow> int \<Rightarrow> int list \<Rightarrow> int list \<Rightarrow>
     (int + (int list \<times> int list \<times> int list \<times> int list)) option" where
  "mca_topo_base_dist_graph_neighbors is_dist_graph dg maxindegree sources sourceweights maxoutdegree destinations destweights =
     (if \<not> is_dist_graph then Some (Inl OPAL_ERR_NOT_FOUND)
      else if maxindegree < indegree dg \<or> maxoutdegree < outdegree dg then Some (Inl OPAL_ERR_BAD_PARAM)
      else do {
        (sources, sourceweights) \<leftarrow> report_edges (indegree dg) (dg_in dg) (dg_inw dg) sources sourceweights;
        (destinations, destweights) \<leftarrow> report_edges (outdegree dg) (dg_out dg) (dg_outw dg) destinations destweights;
        Some (Inr (sources, sourceweights, destinations, destweights)) })"

section \<open>Adjacency lists\<close>

text \<open>The arrays that describe the graph in which \<open>adj ! r\<close> are the neighbours of \<open>r\<close>.\<close>

definition index_of :: "int list list \<Rightarrow> int list" where
  "index_of adj = map (\<lambda>i. int (length (concat (take (Suc i) adj)))) [0..<length adj]"

lemma length_index_of [simp]: "length (index_of adj) = length adj"
  by (simp add: index_of_def)

lemma aget_index_of: "r < length adj \<Longrightarrow> aget (index_of adj) (int r) = Some (int (length (concat (take (Suc r) adj))))"
  by (simp add: aget_def index_of_def)

lemma copy_first_ok: "n \<le> length xs \<Longrightarrow> copy_first xs (int n) = Some (take n xs)"
  by (simp add: copy_first_def)

lemma copy_out_ok:
  assumes "k \<le> length dst" and "from + k \<le> length src"
  shows "copy_out src (int from) (int k) dst = Some (take k (drop from src) @ drop k dst)"
proof -
  have len: "length (take k (drop from src)) = k" using assms(2) by simp
  have v: "aget src (int from + int i) = Some (take k (drop from src) ! i)" if "i < length (take k (drop from src))" for i
    using that assms(2) by (simp add: aget_def nat_int_add)
  show ?thesis unfolding copy_out_def
    using for_loop_array_fill [of "take k (drop from src)" "\<lambda>i. aget src (int from + i)" dst, OF v] assms(1) len by simp
qed

definition adj_comm :: "'p list \<Rightarrow> bool \<Rightarrow> int list list \<Rightarrow> int \<Rightarrow> 'p graph_comm" where
  "adj_comm ps ro adj r = \<lparr>gc_size = int (length adj), gc_rank = r, gc_procs = ps, gc_reorder = ro, graph = \<lparr>g_nnodes = int (length adj), g_index = index_of adj, g_edges = concat adj\<rparr>\<rparr>"

lemma adj_comm_sel: "gc_procs (adj_comm ps ro adj r) = ps" "gc_rank (adj_comm ps ro adj r) = r"
  by (simp_all add: adj_comm_def)

lemma adj_slice: "r < length adj \<Longrightarrow> concat adj = concat (take r adj) @ adj ! r @ concat (drop (Suc r) adj)"
  by (metis append.assoc append_take_drop_id concat.simps(2) concat_append Cons_nth_drop_Suc)

lemma index_difference:
  assumes "r < length adj"
  shows "(if int r > 0 then do { i \<leftarrow> aget (index_of adj) (int r - 1); Some (int (length (concat (take (Suc r) adj))) - i, i) }
          else Some (int (length (concat (take (Suc r) adj))), 0)) = Some (int (length (adj ! r)), int (length (concat (take r adj))))"
proof -
  have t: "take (Suc r) adj = take r adj @ [adj ! r]" using assms by (rule take_Suc_conv_app_nth)
  show ?thesis
  proof (cases r)
    case 0
    then show ?thesis using t by simp
  next
    case (Suc q)
    then have "aget (index_of adj) (int r - 1) = Some (int (length (concat (take r adj))))" using aget_index_of [of q adj] assms by simp
    then show ?thesis using Suc t by simp
  qed
qed

lemma neighbors_count_ok:
  assumes "r < length adj"
  shows "mca_topo_base_graph_neighbors_count (adj_comm ps ro adj me) (int r) = Some (int (length (adj ! r)))"
proof -
  have "(if int r > 0 then do { i \<leftarrow> aget (index_of adj) (int r - 1); Some (int (length (concat (take (Suc r) adj))) - i) }
        else Some (int (length (concat (take (Suc r) adj))))) =
      map_option fst (if int r > 0 then do { i \<leftarrow> aget (index_of adj) (int r - 1); Some (int (length (concat (take (Suc r) adj))) - i, i) }
        else Some (int (length (concat (take (Suc r) adj))), 0))" by (cases "aget (index_of adj) (int r - 1)") auto
  then show ?thesis unfolding mca_topo_base_graph_neighbors_count_def by (simp only: adj_comm_def graph_comm.simps comm_graph.simps aget_index_of [OF assms] bind.bind_lunit index_difference [OF assms]) simp
qed

lemma neighbors_ok:
  assumes r: "r < length adj" and k: "k \<le> length nb"
  shows "mca_topo_base_graph_neighbors (adj_comm ps ro adj me) (int r) (int k) nb = Some (take k (adj ! r) @ drop (min k (length (adj ! r))) nb)"
proof -
  let ?from = "length (concat (take r adj))" and ?k = "min k (length (adj ! r))"
  have le: "?from + ?k \<le> length (concat adj)" proof -
    have "length (concat adj) = ?from + (length (adj ! r) + length (concat (drop (Suc r) adj)))" using arg_cong [OF adj_slice [OF r], of length] unfolding length_append .
    then show ?thesis by linarith
  qed
  have sl: "take ?k (drop ?from (concat adj)) = take k (adj ! r)" by (subst adj_slice [OF r]) (simp add: min_def)
  have "copy_out (concat adj) (int ?from) (int ?k) nb = Some (take k (adj ! r) @ drop ?k nb)" using copy_out_ok [of ?k nb ?from "concat adj"] k le sl by simp
  moreover have "min (int k) (int (length (adj ! r))) = int ?k" by simp
  ultimately show ?thesis unfolding mca_topo_base_graph_neighbors_def
    by (simp only: adj_comm_def graph_comm.simps comm_graph.simps aget_index_of [OF r] bind.bind_lunit index_difference [OF r] prod.case)
qed

lemma last_index: "adj \<noteq> [] \<Longrightarrow> aget (index_of adj) (int (length adj) - 1) = Some (int (length (concat adj)))"
proof -
  assume ne: "adj \<noteq> []"
  then have "int (length adj) - 1 = int (length adj - 1)" "length adj - 1 < length adj" "Suc (length adj - 1) = length adj" by (auto simp: Suc_leI of_nat_diff)
  then show "aget (index_of adj) (int (length adj) - 1) = Some (int (length (concat adj)))" using aget_index_of [of "length adj - 1" adj] by (simp del: length_concat)
qed

definition graph_al_ok :: "graph_alloc \<Rightarrow> bool" where
  "graph_al_ok al \<longleftrightarrow> al_graph al \<and> al_index al \<and> al_edges al \<and> al_topo_procs al"

lemma first_procs_ok:
  assumes "grp_wf g" and "int n \<le> grp_proc_count g"
  shows "first_procs junk g (int n) = Some (take n (grp_procs g))"
proof -
  have len: "int (length (grp_procs g)) = grp_proc_count g" by (rule length_grp_procs [OF assms(1)])
  have "\<exists>ps. for_loop 0 (int n) (\<lambda>i ps. do { p \<leftarrow> ompi_group_peer_lookup junk g i; Some (ps @ [p]) }) [] = Some ps \<and> ps = take n (grp_procs g)"
  proof (rule for_loop_nat0 [where P = "\<lambda>k ps. ps = take k (grp_procs g)"])
    fix k ps assume k: "k < n" and ps: "ps = take k (grp_procs g)"
    have "ompi_group_peer_lookup junk g (int k) = Some (grp_procs g ! k)" using peer_lookup_ok [OF assms(1), of "int k" junk] k assms(2) by simp
    then show "\<exists>s'. do { p \<leftarrow> ompi_group_peer_lookup junk g (int k); Some (ps @ [p]) } = Some s' \<and> s' = take (Suc k) (grp_procs g)"
      using k ps len assms(2) by (simp add: take_Suc_conv_app_nth)
  qed simp
  moreover have "copy_first procs (int n) = Some (take n (grp_procs g))" if "grp_storage g = Dense procs" for procs
    using that assms by (cases g) (auto simp: copy_first_def)
  ultimately show ?thesis by (auto simp: first_procs_def split: group_storage.splits)
qed

lemma graph_create_ok:
  assumes "graph_al_ok al" and "adj \<noteq> []" and g: "grp_wf g" and n: "int (length adj) \<le> grp_proc_count g" and r: "0 \<le> grp_my_rank g"
  shows "mca_topo_base_graph_create al junk True OPAL_SUCCESS g (int (length adj)) (index_of adj) (concat adj) ro =
    Some (Inr (if grp_my_rank g < int (length adj) then Ptr (adj_comm (take (length adj) (grp_procs g)) ro adj (grp_my_rank g)) else Null))"
proof -
  have ix: "copy_first (index_of adj) (int (length adj)) = Some (index_of adj)" "copy_first (concat adj) (int (length (concat adj))) = Some (concat adj)"
    using copy_first_ok [of "length adj" "index_of adj"] copy_first_ok [of "length (concat adj)" "concat adj"] by simp_all
  have und: "MPI_UNDEFINED \<noteq> grp_my_rank g" using r by (simp add: MPI_UNDEFINED_def)
  show ?thesis
  proof (cases "grp_my_rank g < int (length adj)")
    case True
    then show ?thesis using assms und ix last_index [OF assms(2)] first_procs_ok [OF g n]
      by (auto simp: mca_topo_base_graph_create_def graph_al_ok_def adj_comm_def Let_def)
  next
    case False
    then show ?thesis using assms by (auto simp: mca_topo_base_graph_create_def graph_al_ok_def)
  qed
qed

lemma graph_get_ok:
  assumes "adj \<noteq> []" and "i \<le> length ix" and "e \<le> length es"
  shows "mca_topo_base_graph_get (adj_comm ps ro adj me) (int i) (int e) ix es =
    Some (take i (index_of adj) @ drop (min i (length adj)) ix, take e (concat adj) @ drop (min e (length (concat adj))) es)"
proof -
  have "copy_out (index_of adj) (int 0) (int (min (length adj) i)) ix = Some (take i (index_of adj) @ drop (min i (length adj)) ix)"
    using copy_out_ok [of "min (length adj) i" ix 0 "index_of adj"] assms(2) by (simp add: min.commute min_def)
  moreover have "copy_out (concat adj) (int 0) (int (min (length (concat adj)) e)) es = Some (take e (concat adj) @ drop (min e (length (concat adj))) es)"
    using copy_out_ok [of "min (length (concat adj)) e" es 0 "concat adj"] assms(3) by (simp add: min.commute min_def del: length_concat)
  ultimately show ?thesis using last_index [OF assms(1)]
    by (simp add: mca_topo_base_graph_get_def adj_comm_def Let_def of_nat_min [symmetric] del: length_concat of_nat_min)
qed

section \<open>Distributed graphs: one process\<close>

lemma adjacent_edges_ok:
  assumes "n \<le> length nbrs" and "\<forall>w. ws = Ptr w \<longrightarrow> n \<le> length w"
  shows "adjacent_edges True True (int n) nbrs ws =
    Some (Inr (if n = 0 then (Null, Null) else (Ptr (take n nbrs), case ws of Null \<Rightarrow> Null | Ptr w \<Rightarrow> Ptr (take n w))))"
  using assms by (cases ws) (auto simp: adjacent_edges_def copy_first_ok)

lemma report_edges_ok:
  assumes "n \<le> length nbrs" and "n \<le> length dst" and "\<forall>w. ws = Ptr w \<longrightarrow> n \<le> length w \<and> n \<le> length dstw"
  shows "report_edges (int n) (if n = 0 then Null else Ptr (take n nbrs)) (if n = 0 then Null else (case ws of Null \<Rightarrow> Null | Ptr w \<Rightarrow> Ptr (take n w))) dst dstw =
    Some (take n nbrs @ drop n dst, case ws of Null \<Rightarrow> dstw | Ptr w \<Rightarrow> take n w @ drop n dstw)"
proof -
  let ?nb = "if n = 0 then Null else Ptr (take n nbrs)" and ?ws = "if n = 0 then Null else (case ws of Null \<Rightarrow> Null | Ptr w \<Rightarrow> Ptr (take n w))"
  let ?P = "\<lambda>i s. s = (take (nat i) nbrs @ drop (nat i) dst, case ws of Null \<Rightarrow> dstw | Ptr w \<Rightarrow> take (nat i) w @ drop (nat i) dstw)"
  have "\<exists>s. report_edges (int n) ?nb ?ws dst dstw = Some s \<and> ?P (int n) s"
    unfolding report_edges_def
  proof (rule for_loop_rule [where P = ?P])
    fix k s assume k: "0 \<le> k" "k < int n" and s: "?P k s"
    define i where "i = nat k"
    have i: "k = int i" "i < n" "nat (k + 1) = Suc i" using k by (auto simp: i_def)
    have st: "aset (take i xs @ drop i ys) (int i) (xs ! i) = Some (take (Suc i) xs @ drop (Suc i) ys)" if "i < length xs" "i < length ys" for xs ys :: "int list"
      using that by (simp add: aset_def list_update_append take_Suc_conv_app_nth Cons_nth_drop_Suc [symmetric])
    show "\<exists>s'. (case s of (dst, dstw) \<Rightarrow> do { x \<leftarrow> aget (cells ?nb) k; dst \<leftarrow> aset dst k x;
        case ?ws of Null \<Rightarrow> Some (dst, dstw) | Ptr w \<Rightarrow> do { y \<leftarrow> aget w k; dstw \<leftarrow> aset dstw k y; Some (dst, dstw) } }) = Some s' \<and> ?P (k + 1) s'"
      using i s st [of nbrs dst] assms by (cases ws) (auto simp: aget_def st)
  qed (auto split: ptr.splits)
  then show ?thesis unfolding nat_int by simp
qed

lemma adjacent_then_report:
  assumes "length nbrs = n" and "case ws of Null \<Rightarrow> True | Ptr w \<Rightarrow> length w = n" and "length dst = n" and "length dstw = n"
  obtains i iw where "adjacent_edges True True (int n) nbrs ws = Some (Inr (i, iw))" "report_edges (int n) i iw dst dstw = Some (nbrs, case ws of Null \<Rightarrow> dstw | Ptr w \<Rightarrow> w)"
proof -
  have w: "\<forall>w. ws = Ptr w \<longrightarrow> n \<le> length w" "\<forall>w. ws = Ptr w \<longrightarrow> n \<le> length w \<and> n \<le> length dstw" using assms by auto
  let ?i = "if n = 0 then Null else Ptr (take n nbrs)" and ?iw = "if n = 0 then Null else (case ws of Null \<Rightarrow> Null | Ptr w \<Rightarrow> Ptr (take n w))"
  have "adjacent_edges True True (int n) nbrs ws = Some (Inr (?i, ?iw))" unfolding adjacent_edges_ok [OF eq_refl [OF assms(1) [symmetric]] w(1)] by simp
  moreover have "report_edges (int n) ?i ?iw dst dstw = Some (nbrs, case ws of Null \<Rightarrow> dstw | Ptr w \<Rightarrow> w)"
    unfolding report_edges_ok [OF eq_refl [OF assms(1) [symmetric]] eq_refl [OF assms(3) [symmetric]] w(2)] using assms by (cases ws) auto
  ultimately show thesis by (rule that)
qed

section \<open>Properties\<close>

text \<open>C29: The communicator that a graph is created on consists of the first processes of the old group and answers
  every query as the graph does: its numbers of nodes and edges, the number of neighbours of each node and the
  neighbours themselves, as far as the caller's array goes, and the two arrays the graph was given by. A process that
  is not a node gets no communicator.\<close>

theorem graph_topology_is_adjacency:
  assumes "graph_al_ok al" and "adj \<noteq> []" and "grp_wf g" and "int (length adj) \<le> grp_proc_count g" and "0 \<le> grp_my_rank g"
    and "q < length adj" and "k \<le> length nb" and "i \<le> length ix" and "e \<le> length es"
  shows "(grp_my_rank g < int (length adj) \<longrightarrow>
      (\<exists>gc. mca_topo_base_graph_create al junk True OPAL_SUCCESS g (int (length adj)) (index_of adj) (concat adj) ro = Some (Inr (Ptr gc)) \<and>
        gc_procs gc = take (length adj) (grp_procs g) \<and> gc_rank gc = grp_my_rank g \<and>
        mca_topo_base_graphdims_get gc = Some (int (length adj), int (length (concat adj))) \<and>
        mca_topo_base_graph_neighbors_count gc (int q) = Some (int (length (adj ! q))) \<and>
        mca_topo_base_graph_neighbors gc (int q) (int k) nb = Some (take k (adj ! q) @ drop (min k (length (adj ! q))) nb) \<and>
        mca_topo_base_graph_get gc (int i) (int e) ix es =
          Some (take i (index_of adj) @ drop (min i (length adj)) ix, take e (concat adj) @ drop (min e (length (concat adj))) es))) \<and>
    (\<not> grp_my_rank g < int (length adj) \<longrightarrow>
      mca_topo_base_graph_create al junk True OPAL_SUCCESS g (int (length adj)) (index_of adj) (concat adj) ro = Some (Inr Null))"
proof -
  have dims: "mca_topo_base_graphdims_get (adj_comm ps ro adj me) = Some (int (length adj), int (length (concat adj)))" for ps :: "'a list" and me
    using last_index [OF assms(2)] by (simp add: mca_topo_base_graphdims_get_def adj_comm_def Let_def del: length_concat)
  show ?thesis
    unfolding graph_create_ok [OF assms(1-5)]
    by (intro conjI impI exI [of _ "adj_comm (take (length adj) (grp_procs g)) ro adj (grp_my_rank g)"])
      (simp_all add: dims neighbors_count_ok assms neighbors_ok graph_get_ok adj_comm_sel del: length_concat)
qed

theorem graph_topology_is_adjacency_witness:
  "\<exists>gc. mca_topo_base_graph_create \<lparr>al_graph = True, al_index = True, al_edges = True, al_topo_procs = True\<rparr> 0 True OPAL_SUCCESS
      (Group 1 4 0 (Dense [10, 11, 12, 13 :: nat])) 3 [1, 3, 4] [1, 0, 2, 1] False = Some (Inr (Ptr gc)) \<and>
    mca_topo_base_graph_neighbors_count gc 1 = Some 2 \<and> mca_topo_base_graph_neighbors gc 1 2 [7, 7] = Some [0, 2]"
proof -
  have ix: "index_of [[1], [0, 2], [1]] = [1, 3, 4]" by code_simp
  show ?thesis
    using graph_topology_is_adjacency [of "\<lparr>al_graph = True, al_index = True, al_edges = True, al_topo_procs = True\<rparr>" "[[1], [0, 2], [1]]"
        "Group 1 4 0 (Dense [10, 11, 12, 13 :: nat])" 1 2 "[7, 7]" 0 "[]" 0 "[]" 0 False]
    by (auto simp: ix graph_al_ok_def)
qed

text \<open>C30: The topology that a process describes by its own neighbours (MPI_Dist_graph_create_adjacent) is the one the queries
  report: the degrees, whether there are weights, and sources and destinations in the order given, with their weights
  where there are any.\<close>

theorem dist_graph_adjacent_round_trip:
  assumes "al_dist al \<and> al_in al \<and> al_inw al \<and> al_out al \<and> al_outw al"
    and "length sources = n" and "case sw of Null \<Rightarrow> True | Ptr w \<Rightarrow> length w = n" and "length destinations = m" and "case dw of Null \<Rightarrow> True | Ptr w \<Rightarrow> length w = m"
    and "length s = n" and "length s' = n" and "length t = m" and "length t' = m"
  shows "\<exists>dc. mca_topo_base_dist_graph_create_adjacent al OPAL_SUCCESS (int n) sources sw (int m) destinations dw reorder = Some (Inr dc) \<and>
    mca_topo_base_dist_graph_neighbors_count True (dc_graph dc) = Inr (int n, int m, sw \<noteq> Null \<or> dw \<noteq> Null) \<and>
    mca_topo_base_dist_graph_neighbors True (dc_graph dc) (int n) s s' (int m) t t' =
      Some (Inr (sources, case sw of Null \<Rightarrow> s' | Ptr w \<Rightarrow> w, destinations, case dw of Null \<Rightarrow> t' | Ptr w \<Rightarrow> w))"
proof -
  obtain i iw where i: "adjacent_edges True True (int n) sources sw = Some (Inr (i, iw))" "report_edges (int n) i iw s s' = Some (sources, case sw of Null \<Rightarrow> s' | Ptr w \<Rightarrow> w)"
    using adjacent_then_report [OF assms(2,3,6,7)] .
  obtain ou ow where o: "adjacent_edges True True (int m) destinations dw = Some (Inr (ou, ow))" "report_edges (int m) ou ow t t' = Some (destinations, case dw of Null \<Rightarrow> t' | Ptr w \<Rightarrow> w)"
    using adjacent_then_report [OF assms(4,5,8,9)] .
  show ?thesis using assms(1) unfolding mca_topo_base_dist_graph_create_adjacent_def mca_topo_base_dist_graph_neighbors_count_def mca_topo_base_dist_graph_neighbors_def
    by (simp add: i o)
qed

theorem dist_graph_adjacent_round_trip_witness:
  "\<exists>dc. mca_topo_base_dist_graph_create_adjacent \<lparr>al_dist = True, al_in = True, al_inw = True, al_out = True, al_outw = True\<rparr> OPAL_SUCCESS
      2 [3, 5] (Ptr [30, 50]) 1 [4] Null 0 = Some (Inr dc) \<and>
    mca_topo_base_dist_graph_neighbors True (dc_graph dc) 2 [0, 0] [0, 0] 1 [0] [9] = Some (Inr ([3, 5], [30, 50], [4], [9]))"
  using dist_graph_adjacent_round_trip [of "\<lparr>al_dist = True, al_in = True, al_inw = True, al_out = True, al_outw = True\<rparr>" "[3, 5]" 2 "Ptr [30, 50]" "[4]" 1 Null
      "[0, 0]" "[0, 0]" "[0]" "[9]" 0] by auto

end
