(* ===== verification/Dist_Graph.thy ===== *)
theory Dist_Graph
  imports Graph_Topology "HOL-Library.Multiset"
begin

text \<open>
  Distributed graph topologies: \<^verbatim>\<open>ompi/mca/topo/base/topo_base_dist_graph_create.c\<close>. Every process names some nodes
  and the edges that leave them; the processes sort their edges by the peer they concern, add up the numbers
  of edges per process (a reduce-scatter), send each peer its edges and receive their own from any source.
  \<open>tot\<close> is what the reduce-scatter gives, \<open>msgs_in\<close> and \<open>msgs_out\<close> are the messages with the two
  tags in the order in which they arrive; the messages sent are part of the result. The numbers of edges fit an
  \<^verbatim>\<open>int\<close>.
\<close>

section \<open>The code\<close>

record dg_elem =
  el_in :: int
  el_out :: int

definition zero_elem :: dg_elem where "zero_elem = \<lparr>el_in = 0, el_out = 0\<rparr>"

record distribute_alloc =
  al_cnt :: bool
  al_rin :: bool
  al_dist_topo :: bool
  al_edges_in :: bool
  al_edges_out :: bool
  al_reqs :: bool
  al_temp_in :: bool
  al_temp_out :: bool

text \<open>
  The loops over the nodes and the edges of each: \<open>pre\<close> is done once per node with its degree, \<open>f\<close> for
  every edge with its number.
\<close>

definition for_edges :: "int \<Rightarrow> int list \<Rightarrow> int list \<Rightarrow> (int \<Rightarrow> int \<Rightarrow> 's \<Rightarrow> 's option) \<Rightarrow> (int \<Rightarrow> int \<Rightarrow> 's \<Rightarrow> 's option) \<Rightarrow> 's \<Rightarrow> 's option" where
  "for_edges n nodes degrees pre f s = do {
     (ix, s) \<leftarrow> for_loop 0 n (\<lambda>i (ix, s). do {
       v \<leftarrow> aget nodes i;
       d \<leftarrow> aget degrees i;
       s \<leftarrow> pre v d s;
       for_loop 0 d (\<lambda>j (ix, s). do { s \<leftarrow> f v ix s; Some (ix + 1, s) }) (ix, s) }) (0, s);
     Some s }"

definition count_edges :: "int \<Rightarrow> int list \<Rightarrow> int list \<Rightarrow> int list \<Rightarrow> dg_elem list \<Rightarrow> dg_elem list option" where
  "count_edges n nodes degrees targets cnt =
     for_edges n nodes degrees
       (\<lambda>v d cnt. do { c \<leftarrow> aget cnt v; aset cnt v (c\<lparr>el_out := el_out c + d\<rparr>) })
       (\<lambda>v ix cnt. do { t \<leftarrow> aget targets ix; c \<leftarrow> aget cnt t; aset cnt t (c\<lparr>el_in := el_in c + 1\<rparr>) }) cnt"

definition edge_positions :: "int \<Rightarrow> dg_elem list \<Rightarrow> dg_elem list \<Rightarrow> dg_elem list option" where
  "edge_positions csize cnt pos = do {
     pos \<leftarrow> aset pos 0 zero_elem;
     for_loop 0 (csize - 1) (\<lambda>i pos. do {
       p \<leftarrow> aget pos i;
       c \<leftarrow> aget cnt i;
       aset pos (i + 1) \<lparr>el_in = el_in p + el_in c, el_out = el_out p + el_out c\<rparr> }) pos }"

text \<open>One end of an edge, with the weight behind it unless the graph is unweighted.\<close>

definition store_edge :: "int list ptr \<Rightarrow> int \<Rightarrow> int \<Rightarrow> int \<Rightarrow> int \<Rightarrow> int list \<Rightarrow> int list option" where
  "store_edge weights ix base position x blk =
     (case weights of
        Null \<Rightarrow> aset blk (base + (position + 0)) x
      | Ptr ws \<Rightarrow> do {
          let position = position * 2;
          w \<leftarrow> aget ws ix;
          blk \<leftarrow> aset blk (base + (position + 1)) w;
          aset blk (base + (position + 0)) x })"

text \<open>\<open>rout\<close> is \<open>rin\<close> from \<open>ro\<close> on.\<close>

definition fill_edges ::
    "int \<Rightarrow> int list \<Rightarrow> int list \<Rightarrow> int list \<Rightarrow> int list ptr \<Rightarrow> dg_elem list \<Rightarrow> int \<Rightarrow> dg_elem list \<times> int list \<Rightarrow> (dg_elem list \<times> int list) option" where
  "fill_edges n nodes degrees targets weights pos ro s =
     for_edges n nodes degrees (\<lambda>v d s. Some s)
       (\<lambda>v ix (idx, rin). do {
          t \<leftarrow> aget targets ix;
          p \<leftarrow> aget pos v;
          x \<leftarrow> aget idx v;
          rin \<leftarrow> store_edge weights ix ro (el_out p + el_out x) t rin;
          idx \<leftarrow> aset idx v (x\<lparr>el_out := el_out x + 1\<rparr>);
          p \<leftarrow> aget pos t;
          x \<leftarrow> aget idx t;
          rin \<leftarrow> store_edge weights ix 0 (el_in p + el_in x) v rin;
          idx \<leftarrow> aset idx t (x\<lparr>el_in := el_in x + 1\<rparr>);
          Some (idx, rin) }) s"

text \<open>Counts, positions, indices, the offset of \<open>rout\<close> and the sorted edges.\<close>

definition sort_edges ::
    "bool \<Rightarrow> int \<Rightarrow> int \<Rightarrow> int list \<Rightarrow> int list \<Rightarrow> int list \<Rightarrow> int list ptr \<Rightarrow>
     (int + (dg_elem list \<times> dg_elem list \<times> dg_elem list \<times> int \<times> int list)) option" where
  "sort_edges ok csize n nodes degrees targets weights = do {
     let zeros = replicate (nat csize) zero_elem;
     cnt \<leftarrow> count_edges n nodes degrees targets zeros;
     pos \<leftarrow> edge_positions csize cnt zeros;
     p \<leftarrow> aget pos (csize - 1);
     c \<leftarrow> aget cnt (csize - 1);
     if \<not> ok then Some (Inl OPAL_ERR_OUT_OF_RESOURCE)
     else do {
       let rin = replicate (nat (2 * (el_in p + el_in c + el_out p + el_out c))) 0;
       let ro = 2 * (el_in p + el_in c);
       (idx, rin) \<leftarrow> fill_edges n nodes degrees targets weights pos ro (zeros, rin);
       Some (Inr (cnt, pos, idx, ro, rin)) } }"

text \<open>The messages: the peer, whether the tag is that of the incoming edges, and the data.\<close>

definition part_of :: "int list \<Rightarrow> int \<Rightarrow> int \<Rightarrow> int list option" where
  "part_of blk from n = (if 0 \<le> from \<and> 0 \<le> n \<and> from + n \<le> int (length blk) then Some (take (nat n) (drop (nat from) blk)) else None)"

definition edge_message :: "bool \<Rightarrow> int list \<Rightarrow> int \<Rightarrow> int \<Rightarrow> int \<Rightarrow> int \<Rightarrow> bool \<Rightarrow> (int \<times> bool \<times> int list) list option" where
  "edge_message wtd rin base position num i tag =
     (if num \<noteq> 0 then do {
        let (num, position) = (if wtd then (num * 2, position * 2) else (num, position));
        m \<leftarrow> part_of rin (base + position) num;
        Some [(i, tag, m)] }
      else Some [])"

definition send_edges :: "int \<Rightarrow> bool \<Rightarrow> dg_elem list \<Rightarrow> dg_elem list \<Rightarrow> int \<Rightarrow> int list \<Rightarrow> (int \<times> bool \<times> int list) list option" where
  "send_edges csize wtd cnt pos ro rin =
     for_loop 0 csize (\<lambda>i sent. do {
       c \<leftarrow> aget cnt i;
       p \<leftarrow> aget pos i;
       m \<leftarrow> edge_message wtd rin 0 (el_in p) (el_in c) i True;
       m' \<leftarrow> edge_message wtd rin ro (el_out p) (el_out c) i False;
       Some (sent @ m @ m') }) []"

text \<open>
  The receiving loop. A message longer than what is left does not fit the buffer; with no message left to
  come the process waits for ever. \<open>None\<close> stands for both.
\<close>

fun recv_edges :: "bool \<Rightarrow> int \<Rightarrow> int list list \<Rightarrow> int \<Rightarrow> int \<Rightarrow> int list \<Rightarrow> int list \<Rightarrow> int list \<Rightarrow> (int list \<times> int list \<times> int list) option" where
  "recv_edges wtd num [] left_over current_pos temp nb nbw = (if left_over > 0 then None else Some (temp, nb, nbw))"
| "recv_edges wtd num (m # ms) left_over current_pos temp nb nbw =
     (if left_over > 0 then
        if int (length m) > left_over then None
        else do {
          temp \<leftarrow> (if 0 \<le> num - left_over \<and> num - left_over + int (length m) \<le> int (length temp)
                   then Some (take (nat (num - left_over)) temp @ m @ drop (nat (num - left_over) + length m) temp) else None);
          (current_pos, nb, nbw) \<leftarrow>
            (if wtd then
               for_loop 0 (int (length m) div 2) (\<lambda>j (current_pos, nb, nbw). do {
                 x \<leftarrow> aget temp (2 * j + 0 + (num - left_over));
                 nb \<leftarrow> aset nb current_pos x;
                 w \<leftarrow> aget temp (2 * j + 1 + (num - left_over));
                 nbw \<leftarrow> aset nbw current_pos w;
                 Some (current_pos + 1, nb, nbw) }) (current_pos, nb, nbw)
             else Some (current_pos, nb, nbw));
          recv_edges wtd num ms (left_over - int (length m)) current_pos temp nb nbw }
      else Some (temp, nb, nbw))"

text \<open>One direction: the arrays of the topology, from fresh blocks that hold \<open>junk\<close>.\<close>

definition receive_all :: "int \<Rightarrow> bool \<Rightarrow> int \<Rightarrow> int list list \<Rightarrow> (int list ptr \<times> int list ptr) option" where
  "receive_all junk wtd degree msgs =
     (if wtd then do {
        (temp, nb, nbw) \<leftarrow> recv_edges True (degree * 2) msgs (degree * 2) 0
          (replicate (nat (degree * 2)) junk) (replicate (nat degree) junk) (replicate (nat degree) junk);
        Some (if degree > 0 then (Ptr nb, Ptr nbw) else (Null, Null)) }
      else do {
        (temp, nb, nbw) \<leftarrow> recv_edges False degree msgs degree 0 (replicate (nat degree) junk) [] [];
        Some (if degree > 0 then (Ptr temp, Null) else (Null, Null)) })"

definition mca_topo_base_dist_graph_distribute ::
    "distribute_alloc \<Rightarrow> int \<Rightarrow> int \<Rightarrow> int \<Rightarrow> int list \<Rightarrow> int list \<Rightarrow> int list \<Rightarrow> int list ptr \<Rightarrow> dg_elem \<Rightarrow> int list list \<Rightarrow> int list list \<Rightarrow>
     (int + ((int \<times> bool \<times> int list) list \<times> dist_graph)) option" where
  "mca_topo_base_dist_graph_distribute al junk csize n nodes degrees targets weights tot msgs_in msgs_out =
     (if \<not> al_cnt al then Some (Inl OPAL_ERR_OUT_OF_RESOURCE)
      else do {
        let wtd = (weights \<noteq> Null);
        r \<leftarrow> sort_edges (al_rin al) csize n nodes degrees targets weights;
        case r of Inl e \<Rightarrow> Some (Inl e)
        | Inr (cnt, pos, idx, ro, rin) \<Rightarrow>
            if \<not> al_dist_topo al then Some (Inl OPAL_ERR_OUT_OF_RESOURCE)
            else if el_in tot > 0 \<and> \<not> al_edges_in al then Some (Inl OPAL_ERR_OUT_OF_RESOURCE)
            else if el_out tot > 0 \<and> \<not> al_edges_out al then Some (Inl OPAL_ERR_OUT_OF_RESOURCE)
            else if \<not> al_reqs al then None
            else do {
              sent \<leftarrow> send_edges csize wtd cnt pos ro rin;
              if wtd \<and> el_in tot > 0 \<and> \<not> al_temp_in al then Some (Inl OPAL_ERR_OUT_OF_RESOURCE)
              else do {
                (i, iw) \<leftarrow> receive_all junk wtd (el_in tot) msgs_in;
                if wtd \<and> el_out tot > 0 \<and> \<not> al_temp_out al then Some (Inl OPAL_ERR_OUT_OF_RESOURCE)
                else do {
                  (ou, ow) \<leftarrow> receive_all junk wtd (el_out tot) msgs_out;
                  Some (Inr (sent, \<lparr>dg_in = i, dg_inw = iw, dg_out = ou, dg_outw = ow, indegree = el_in tot,
                                    outdegree = el_out tot, weighted = wtd\<rparr>)) } } } })"

text \<open>\<open>create\<close> is the return code of \<^verbatim>\<open>ompi_comm_create\<close>; when the distribution fails, the new communicator is freed.\<close>

definition mca_topo_base_dist_graph_create ::
    "int \<Rightarrow> distribute_alloc \<Rightarrow> int \<Rightarrow> int \<Rightarrow> int \<Rightarrow> int list \<Rightarrow> int list \<Rightarrow> int list \<Rightarrow> int list ptr \<Rightarrow> int \<Rightarrow> dg_elem \<Rightarrow> int list list \<Rightarrow> int list list \<Rightarrow>
     (int + ((int \<times> bool \<times> int list) list \<times> dist_comm)) option" where
  "mca_topo_base_dist_graph_create create al junk csize n nodes degrees targets weights reorder tot msgs_in msgs_out =
     (if create \<noteq> OPAL_SUCCESS then Some (Inl create)
      else do {
        r \<leftarrow> mca_topo_base_dist_graph_distribute al junk csize n nodes degrees targets weights tot msgs_in msgs_out;
        case r of Inl err \<Rightarrow> Some (Inl err)
        | Inr (sent, dg) \<Rightarrow> Some (Inr (sent, \<lparr>dc_graph = dg, dc_reorder = reorder\<rparr>)) })"

declare recv_edges.simps [simp del]

end
