(* ===== verification/Dist_Graph_Sort.thy ===== *)
theory Dist_Graph_Sort
  imports Dist_Graph
begin

text \<open>
  What one process of \<open>mca_topo_base_dist_graph_distribute\<close> does before the exchange: its edges, sorted by the peer
  they concern, lie in the blocks it sends.
\<close>

section \<open>The edges of a process\<close>

record dist_input =
  di_nodes :: "int list"
  di_degrees :: "int list"
  di_targets :: "int list"
  di_weights :: "int list ptr"

definition node_blocks :: "dist_input \<Rightarrow> int list list" where
  "node_blocks d = map (\<lambda>(v, k). replicate (nat k) v) (zip (di_nodes d) (di_degrees d))"

definition medges :: "dist_input \<Rightarrow> nat" where
  "medges d = length (concat (node_blocks d))"

definition src :: "dist_input \<Rightarrow> nat \<Rightarrow> int" where
  "src d e = concat (node_blocks d) ! e"

definition tgt :: "dist_input \<Rightarrow> nat \<Rightarrow> int" where
  "tgt d e = di_targets d ! e"

definition wgt :: "dist_input \<Rightarrow> nat \<Rightarrow> int" where
  "wgt d e = (case di_weights d of Null \<Rightarrow> 0 | Ptr ws \<Rightarrow> ws ! e)"

definition dist_ok :: "nat \<Rightarrow> dist_input \<Rightarrow> bool" where
  "dist_ok c d \<longleftrightarrow> length (di_degrees d) = length (di_nodes d) \<and> (\<forall>k \<in> set (di_degrees d). 0 \<le> k) \<and>
     medges d \<le> length (di_targets d) \<and> (case di_weights d of Null \<Rightarrow> True | Ptr ws \<Rightarrow> medges d \<le> length ws) \<and>
     (\<forall>v \<in> set (di_nodes d). 0 \<le> v \<and> v < int c) \<and> (\<forall>t \<in> set (take (medges d) (di_targets d)). 0 \<le> t \<and> t < int c)"

definition noff :: "dist_input \<Rightarrow> nat \<Rightarrow> nat" where
  "noff d i = length (concat (take i (node_blocks d)))"

lemma length_node_blocks: "dist_ok c d \<Longrightarrow> length (node_blocks d) = length (di_nodes d)"
  by (simp add: dist_ok_def node_blocks_def)

lemma nth_node_blocks: "dist_ok c d \<Longrightarrow> i < length (di_nodes d) \<Longrightarrow> node_blocks d ! i = replicate (nat (di_degrees d ! i)) (di_nodes d ! i)"
  by (simp add: dist_ok_def node_blocks_def)

lemma noff_Suc:
  assumes "dist_ok c d" and "i < length (di_nodes d)"
  shows "noff d (Suc i) = noff d i + nat (di_degrees d ! i)"
proof -
  have "take (Suc i) (node_blocks d) = take i (node_blocks d) @ [node_blocks d ! i]"
    by (rule take_Suc_conv_app_nth) (use assms length_node_blocks in simp)
  then show ?thesis by (simp add: noff_def nth_node_blocks [OF assms])
qed

lemma noff_all: "dist_ok c d \<Longrightarrow> noff d (length (di_nodes d)) = medges d"
  using length_node_blocks [of c d] by (simp add: noff_def medges_def)

lemma src_in_block:
  assumes "dist_ok c d" and "i < length (di_nodes d)" and "j < nat (di_degrees d ! i)"
  shows "src d (noff d i + j) = di_nodes d ! i" and "noff d i + j < medges d"
proof -
  have i: "i < length (node_blocks d)" using assms(1,2) length_node_blocks by simp
  show "src d (noff d i + j) = di_nodes d ! i"
    unfolding src_def adj_slice [OF i] noff_def using assms(3) nth_node_blocks [OF assms(1,2)] by (simp add: nth_append)
  have "medges d = noff d i + (length (node_blocks d ! i) + length (concat (drop (Suc i) (node_blocks d))))"
    unfolding medges_def noff_def using arg_cong [OF adj_slice [OF i], of length] unfolding length_append .
  then show "noff d i + j < medges d" using assms(3) nth_node_blocks [OF assms(1,2)] by simp
qed

text \<open>The loops over all edges: an invariant \<open>R\<close> between the nodes and \<open>S\<close> between the edges of a node.\<close>

lemma for_edges_rule:
  assumes ok: "dist_ok c d" and R0: "R 0 s"
    and pre: "\<And>i s. i < length (di_nodes d) \<Longrightarrow> R i s \<Longrightarrow> \<exists>s'. pr (di_nodes d ! i) (di_degrees d ! i) s = Some s' \<and> S i 0 s'"
    and body: "\<And>i j s. i < length (di_nodes d) \<Longrightarrow> j < nat (di_degrees d ! i) \<Longrightarrow> S i j s \<Longrightarrow> \<exists>s'. f (di_nodes d ! i) (int (noff d i + j)) s = Some s' \<and> S i (Suc j) s'"
    and nxt: "\<And>i s. i < length (di_nodes d) \<Longrightarrow> S i (nat (di_degrees d ! i)) s \<Longrightarrow> R (Suc i) s"
  shows "\<exists>s'. for_edges (int (length (di_nodes d))) (di_nodes d) (di_degrees d) pr f s = Some s' \<and> R (length (di_nodes d)) s'"
proof -
  let ?n = "length (di_nodes d)"
  let ?body = "\<lambda>i (ix, s). do { v \<leftarrow> aget (di_nodes d) i; k \<leftarrow> aget (di_degrees d) i; s \<leftarrow> pr v k s;
       for_loop 0 k (\<lambda>j (ix, s). do { s \<leftarrow> f v ix s; Some (ix + 1, s) }) (ix, s) }"
  let ?P = "\<lambda>i t. \<exists>s. t = (int (noff d i), s) \<and> R i s"
  have "\<exists>t. for_loop 0 (int ?n) ?body (0, s) = Some t \<and> ?P ?n t"
  proof (rule for_loop_nat0 [where P = ?P])
    fix i t assume i: "i < ?n" and "?P i t"
    then obtain u where t: "t = (int (noff d i), u)" "R i u" by blast
    have get: "aget (di_nodes d) (int i) = Some (di_nodes d ! i)" "aget (di_degrees d) (int i) = Some (di_degrees d ! i)"
      using i ok by (simp_all add: aget_def dist_ok_def)
    have deg: "di_degrees d ! i = int (nat (di_degrees d ! i))" using i ok by (simp add: dist_ok_def)
    obtain u' where u': "pr (di_nodes d ! i) (di_degrees d ! i) u = Some u'" "S i 0 u'" using pre [OF i t(2)] by blast
    let ?Q = "\<lambda>j t. \<exists>s. t = (int (noff d i + j), s) \<and> S i j s"
    let ?in = "\<lambda>j (ix, s). do { s \<leftarrow> f (di_nodes d ! i) ix s; Some (ix + 1, s) }"
    have "\<exists>t. for_loop 0 (int (nat (di_degrees d ! i))) ?in (int (noff d i), u') = Some t \<and> ?Q (nat (di_degrees d ! i)) t"
    proof (rule for_loop_nat0 [where P = ?Q])
      fix j t assume j: "j < nat (di_degrees d ! i)" and "?Q j t"
      then obtain s where s: "t = (int (noff d i + j), s)" "S i j s" by blast
      obtain s' where "f (di_nodes d ! i) (int (noff d i + j)) s = Some s'" "S i (Suc j) s'" using body [OF i j s(2)] by blast
      then show "\<exists>t'. ?in (int j) t = Some t' \<and> ?Q (Suc j) t'" using s(1) by simp
    qed (use u'(2) in simp)
    then obtain s where s: "for_loop 0 (int (nat (di_degrees d ! i))) ?in (int (noff d i), u') = Some (int (noff d i + nat (di_degrees d ! i)), s)" "S i (nat (di_degrees d ! i)) s" by blast
    then show "\<exists>t'. ?body (int i) t = Some t' \<and> ?P (Suc i) t'"
      using t(1) get u'(1) deg nxt [OF i s(2)] noff_Suc [OF ok i] by simp
  qed (use R0 in \<open>simp add: noff_def\<close>)
  then show ?thesis unfolding for_edges_def by auto
qed

section \<open>Counting\<close>

definition ins :: "dist_input \<Rightarrow> nat \<Rightarrow> nat \<Rightarrow> nat list" where
  "ins d k v = filter (\<lambda>e. tgt d e = int v) [0..<k]"

definition outs :: "dist_input \<Rightarrow> nat \<Rightarrow> nat \<Rightarrow> nat list" where
  "outs d k v = filter (\<lambda>e. src d e = int v) [0..<k]"

lemma ins_outs_Suc:
  "ins d (Suc k) v = ins d k v @ (if tgt d k = int v then [k] else [])" "outs d (Suc k) v = outs d k v @ (if src d k = int v then [k] else [])"
  by (simp_all add: ins_def outs_def)

lemma ins_outs_0 [simp]: "ins d 0 v = []" "outs d 0 v = []"
  by (simp_all add: ins_def outs_def)

lemma ins_mono: "k \<le> m \<Longrightarrow> length (ins d k v) \<le> length (ins d m v)"
  by (induction m) (auto simp: le_Suc_eq ins_outs_Suc)

lemma outs_mono: "k \<le> m \<Longrightarrow> length (outs d k v) \<le> length (outs d m v)"
  by (induction m) (auto simp: le_Suc_eq ins_outs_Suc)

text \<open>A table of elements.\<close>

definition tab :: "nat \<Rightarrow> (nat \<Rightarrow> nat) \<Rightarrow> (nat \<Rightarrow> nat) \<Rightarrow> dg_elem list" where
  "tab c a b = map (\<lambda>v. \<lparr>el_in = int (a v), el_out = int (b v)\<rparr>) [0..<c]"

lemma length_tab [simp]: "length (tab c a b) = c"
  by (simp add: tab_def)

lemma aget_tab: "v < c \<Longrightarrow> aget (tab c a b) (int v) = Some \<lparr>el_in = int (a v), el_out = int (b v)\<rparr>"
  by (simp add: aget_def tab_def)

lemma aset_tab:
  "v < c \<Longrightarrow> a' = a(v := x) \<Longrightarrow> b' = b(v := y) \<Longrightarrow> aset (tab c a b) (int v) \<lparr>el_in = int x, el_out = int y\<rparr> = Some (tab c a' b')"
  by (auto simp: aset_def tab_def nth_list_update intro!: nth_equalityI)

lemma tab_zero: "replicate c zero_elem = tab c (\<lambda>_. 0) (\<lambda>_. 0)"
  by (simp add: tab_def zero_elem_def map_replicate_const)

lemma ends_in_range:
  assumes "dist_ok c d"
  shows "i < length (di_nodes d) \<Longrightarrow> \<exists>v < c. di_nodes d ! i = int v" and "e < medges d \<Longrightarrow> \<exists>v < c. tgt d e = int v \<and> aget (di_targets d) (int e) = Some (int v)"
proof -
  show "\<exists>v < c. di_nodes d ! i = int v" if "i < length (di_nodes d)"
  proof -
    have "0 \<le> di_nodes d ! i \<and> di_nodes d ! i < int c" using assms that nth_mem [OF that] unfolding dist_ok_def by blast
    then show ?thesis by (intro exI [of _ "nat (di_nodes d ! i)"]) auto
  qed
  show "\<exists>v < c. tgt d e = int v \<and> aget (di_targets d) (int e) = Some (int v)" if e: "e < medges d"
  proof -
    have len: "e < length (di_targets d)" using assms e by (simp add: dist_ok_def)
    then have "tgt d e \<in> set (take (medges d) (di_targets d))" using e by (auto simp: tgt_def in_set_conv_nth intro!: exI [of _ e])
    then have "0 \<le> tgt d e \<and> tgt d e < int c" using assms unfolding dist_ok_def by blast
    then show ?thesis using len by (intro exI [of _ "nat (tgt d e)"]) (auto simp: aget_def tgt_def)
  qed
qed

lemma outs_block:
  assumes "dist_ok c d" and "i < length (di_nodes d)" and "j \<le> nat (di_degrees d ! i)"
  shows "length (outs d (noff d i + j) v) = length (outs d (noff d i) v) + (if di_nodes d ! i = int v then j else 0)"
  using assms(3)
proof (induction j)
  case (Suc j)
  then show ?case using src_in_block(1) [OF assms(1,2), of j] by (simp add: ins_outs_Suc)
qed simp

lemma count_edges_ok:
  assumes ok: "dist_ok c d"
  shows "count_edges (int (length (di_nodes d))) (di_nodes d) (di_degrees d) (di_targets d) (replicate c zero_elem) =
    Some (tab c (\<lambda>v. length (ins d (medges d) v)) (\<lambda>v. length (outs d (medges d) v)))"
proof -
  let ?R = "\<lambda>i s. s = tab c (\<lambda>v. length (ins d (noff d i) v)) (\<lambda>v. length (outs d (noff d i) v))"
  let ?S = "\<lambda>i j s. s = tab c (\<lambda>v. length (ins d (noff d i + j) v)) (\<lambda>v. length (outs d (noff d (Suc i)) v))"
  have "\<exists>s. count_edges (int (length (di_nodes d))) (di_nodes d) (di_degrees d) (di_targets d) (replicate c zero_elem) = Some s \<and> ?R (length (di_nodes d)) s"
    unfolding count_edges_def
  proof (rule for_edges_rule [OF ok, where R = ?R and S = ?S])
    fix i s assume i: "i < length (di_nodes d)" and s: "?R i s"
    obtain v where v: "v < c" "di_nodes d ! i = int v" using ends_in_range(1) [OF ok i] by blast
    have deg: "di_degrees d ! i = int (nat (di_degrees d ! i))" using i ok by (simp add: dist_ok_def)
    have up: "(\<lambda>v. length (outs d (noff d (Suc i)) v)) = (\<lambda>v. length (outs d (noff d i) v))(v := length (outs d (noff d i) v) + nat (di_degrees d ! i))"
      using outs_block [OF ok i order_refl] v(2) by (auto simp: noff_Suc [OF ok i])
    have "aset s (int v) \<lparr>el_in = int (length (ins d (noff d i) v)), el_out = int (length (outs d (noff d i) v) + nat (di_degrees d ! i))\<rparr> =
        Some (tab c (\<lambda>v. length (ins d (noff d i) v)) (\<lambda>v. length (outs d (noff d (Suc i)) v)))"
      unfolding s by (rule aset_tab [OF v(1) _ up]) (simp add: fun_eq_iff)
    then show "\<exists>s'. (do { c \<leftarrow> aget s (di_nodes d ! i); aset s (di_nodes d ! i) (c\<lparr>el_out := el_out c + di_degrees d ! i\<rparr>) }) = Some s' \<and> ?S i 0 s'"
      using s v deg by (simp add: aget_tab)
  next
    fix i j s assume i: "i < length (di_nodes d)" and j: "j < nat (di_degrees d ! i)" and s: "?S i j s"
    obtain v where v: "v < c" "tgt d (noff d i + j) = int v" "aget (di_targets d) (int (noff d i + j)) = Some (int v)"
      using ends_in_range(2) [OF ok src_in_block(2) [OF ok i j]] by blast
    have up: "(\<lambda>v. length (ins d (noff d i + Suc j) v)) = (\<lambda>v. length (ins d (noff d i + j) v))(v := length (ins d (noff d i + j) v) + 1)"
      using v(2) by (auto simp: ins_outs_Suc)
    have "aset s (int v) \<lparr>el_in = int (length (ins d (noff d i + j) v) + 1), el_out = int (length (outs d (noff d (Suc i)) v))\<rparr> =
        Some (tab c (\<lambda>v. length (ins d (noff d i + Suc j) v)) (\<lambda>v. length (outs d (noff d (Suc i)) v)))"
      unfolding s by (rule aset_tab [OF v(1) up]) (simp add: fun_eq_iff)
    then show "\<exists>s'. (do { t \<leftarrow> aget (di_targets d) (int (noff d i + j)); c \<leftarrow> aget s t; aset s t (c\<lparr>el_in := el_in c + 1\<rparr>) }) = Some s' \<and> ?S i (Suc j) s'"
      using s v by (simp add: aget_tab add.commute)
  qed (simp_all add: noff_Suc [OF ok] tab_zero, simp add: noff_def)
  then show ?thesis by (simp add: noff_all [OF ok])
qed

section \<open>Positions\<close>

definition psum :: "(nat \<Rightarrow> nat) \<Rightarrow> nat \<Rightarrow> nat" where
  "psum a v = (\<Sum>u < v. a u)"

lemma psum_simps [simp]: "psum a 0 = 0" "psum a (Suc v) = psum a v + a v"
  by (simp_all add: psum_def)

lemma psum_step: "u < v \<Longrightarrow> psum a u + a u \<le> psum a v"
  by (induction v) (auto simp: less_Suc_eq)

lemma edge_positions_ok:
  assumes "0 < c"
  shows "edge_positions (int c) (tab c a b) (replicate c zero_elem) = Some (tab c (psum a) (psum b))"
proof -
  let ?v = "\<lambda>v. \<lparr>el_in = int (psum a v), el_out = int (psum b v)\<rparr>"
  let ?P = "\<lambda>k s. length s = c \<and> (\<forall>v \<le> k. s ! v = ?v v)"
  let ?f = "\<lambda>i pos. do { p \<leftarrow> aget pos i; q \<leftarrow> aget (tab c a b) i; aset pos (i + 1) \<lparr>el_in = el_in p + el_in q, el_out = el_out p + el_out q\<rparr> }"
  have "\<exists>s. for_loop 0 (int (c - 1)) ?f ((replicate c zero_elem)[0 := zero_elem]) = Some s \<and> ?P (c - 1) s"
  proof (rule for_loop_nat0 [where P = ?P])
    fix k s assume k: "k < c - 1" and s: "?P k s"
    have "aget s (int k) = Some (?v k)" using k s by (simp add: aget_def)
    moreover have "aget (tab c a b) (int k) = Some \<lparr>el_in = int (a k), el_out = int (b k)\<rparr>" using k by (simp add: aget_tab)
    moreover have "aset s (int k + 1) (?v (Suc k)) = Some (s[Suc k := ?v (Suc k)])" using k s by (simp add: aset_def nat_add_distrib)
    moreover have "?P (Suc k) (s[Suc k := ?v (Suc k)])" using s k by (auto simp: nth_list_update)
    ultimately show "\<exists>s'. ?f (int k) s = Some s' \<and> ?P (Suc k) s'" by simp
  qed (use assms in \<open>simp add: zero_elem_def\<close>)
  then obtain s where s: "for_loop 0 (int (c - 1)) ?f ((replicate c zero_elem)[0 := zero_elem]) = Some s" "?P (c - 1) s" by blast
  have "s = tab c (psum a) (psum b)" by (rule nth_equalityI) (use s(2) assms in \<open>auto simp: tab_def\<close>)
  moreover have "int (c - 1) = int c - 1" using assms by simp
  ultimately show ?thesis using s(1) assms by (simp add: edge_positions_def aset_def)
qed

section \<open>Buckets\<close>

text \<open>The block holds \<open>msg K\<close> from \<open>st K\<close> on, for every key \<open>K\<close>.\<close>

definition buckets :: "('k \<Rightarrow> nat) \<Rightarrow> 'k set \<Rightarrow> ('k \<Rightarrow> int list) \<Rightarrow> int list \<Rightarrow> bool" where
  "buckets st Ks msg blk \<longleftrightarrow> (\<forall>K \<in> Ks. take (length (msg K)) (drop (st K) blk) = msg K)"

definition put :: "int list \<Rightarrow> nat \<Rightarrow> int list \<Rightarrow> int list" where
  "put blk a pay = take a blk @ pay @ drop (a + length pay) blk"

lemma length_put [simp]: "a + length pay \<le> length blk \<Longrightarrow> length (put blk a pay) = length blk"
  by (simp add: put_def)

lemma buckets_put:
  assumes b: "buckets st Ks msg blk" and K: "K \<in> Ks" and a: "a = st K + length (msg K)" "a + length pay \<le> length blk"
    and dis: "\<And>K'. K' \<in> Ks \<Longrightarrow> K' \<noteq> K \<Longrightarrow> st K' + length (msg K') \<le> a \<or> a + length pay \<le> st K'"
  shows "buckets st Ks (msg(K := msg K @ pay)) (put blk a pay)"
  unfolding buckets_def
proof
  fix K' assume K': "K' \<in> Ks"
  have m: "take (length (msg K')) (drop (st K') blk) = msg K'" using b K' by (simp add: buckets_def)
  show "take (length ((msg(K := msg K @ pay)) K')) (drop (st K') (put blk a pay)) = (msg(K := msg K @ pay)) K'"
  proof (cases "K' = K")
    case True
    have "drop (st K) (take a blk) = msg K" using m True a(1) by (simp add: take_drop add.commute)
    then show ?thesis using True a by (simp add: put_def)
  next
    case False
    from dis [OF K' False] show ?thesis
    proof
      assume le: "st K' + length (msg K') \<le> a"
      then have "length (msg K') \<le> a - st K'" by linarith
      then have "take (length (msg K')) (drop (st K') (take a blk)) = msg K'" using m by (simp add: drop_take min_def)
      then show ?thesis using False le a(2) by (simp add: put_def)
    next
      assume le: "a + length pay \<le> st K'"
      then have "drop (st K') (put blk a pay) = drop (st K') blk" using a(2) by (simp add: put_def)
      then show ?thesis using False m by simp
    qed
  qed
qed

text \<open>What is stored for an edge, and how wide it is.\<close>

definition pay :: "bool \<Rightarrow> int \<times> int \<Rightarrow> int list" where
  "pay wtd = (\<lambda>(x, w). if wtd then [x, w] else [x])"

definition width :: "bool \<Rightarrow> nat" where
  "width wtd = (if wtd then 2 else 1)"

lemma length_pay [simp]: "length (pay wtd p) = width wtd"
  by (cases p) (simp add: pay_def width_def)

lemma length_pays [simp]: "length (concat (map (pay wtd) ps)) = width wtd * length ps"
  by (induction ps) auto

lemma store_edge_ok:
  assumes "dist_ok c d" and "e < medges d" and a: "a = b + width (di_weights d \<noteq> Null) * q" and len: "a + width (di_weights d \<noteq> Null) \<le> length blk"
  shows "store_edge (di_weights d) (int e) (int b) (int q) x blk = Some (put blk a (pay (di_weights d \<noteq> Null) (x, wgt d e)))"
proof (cases "di_weights d")
  case Null
  then show ?thesis using a len by (simp add: store_edge_def put_def pay_def width_def aset_def nat_int_add upd_conv_take_nth_drop)
next
  case (Ptr ws)
  have a': "a = b + 2 * q" "a + 1 < length blk" using a len Ptr by (simp_all add: width_def)
  have w: "aget ws (int e) = Some (wgt d e)" using assms(1,2) Ptr by (simp add: dist_ok_def aget_def wgt_def)
  have ix: "int b + (int q * 2 + 1) = int (a + 1)" "int b + int q * 2 = int a" using a'(1) by simp_all
  have "blk[a + 1 := wgt d e, a := x] = take a blk @ [x, wgt d e] @ drop (a + 2) blk"
  proof -
    have blk: "blk = take a blk @ blk ! a # blk ! Suc a # drop (Suc (Suc a)) blk" using a'(2) by (simp add: Cons_nth_drop_Suc)
    have "(take a blk @ p # q # r)[a + 1 := wgt d e, a := x] = take a blk @ x # wgt d e # r" for p q r using a'(2) by (simp add: list_update_append)
    then show ?thesis using blk by (metis append_Cons append_Nil add_2_eq_Suc')
  qed
  then show ?thesis using a'(2) w by (simp add: store_edge_def Let_def Ptr ix aset_def put_def pay_def nat_add_distrib)
qed

section \<open>Sorting\<close>

text \<open>
  The keys: \<open>(True, v)\<close> for the edges that enter \<open>v\<close>, \<open>(False, v)\<close> for those that leave it. The edges of a
  key among the first \<open>k\<close> edges, with the other end and the weight of each.
\<close>

definition wtd :: "dist_input \<Rightarrow> bool" where
  "wtd d \<longleftrightarrow> di_weights d \<noteq> Null"

definition edge_pairs :: "dist_input \<Rightarrow> nat \<Rightarrow> bool \<times> nat \<Rightarrow> (int \<times> int) list" where
  "edge_pairs d k = (\<lambda>(inward, v).
     if inward then map (\<lambda>e. (src d e, wgt d e)) (ins d k v) else map (\<lambda>e. (tgt d e, wgt d e)) (outs d k v))"

definition cap :: "dist_input \<Rightarrow> bool \<times> nat \<Rightarrow> nat" where
  "cap d K = length (edge_pairs d (medges d) K)"

definition start :: "nat \<Rightarrow> dist_input \<Rightarrow> bool \<times> nat \<Rightarrow> nat" where
  "start c d = (\<lambda>(inward, v).
     if inward then width (wtd d) * psum (\<lambda>u. cap d (True, u)) v
     else 2 * psum (\<lambda>u. cap d (True, u)) c + width (wtd d) * psum (\<lambda>u. cap d (False, u)) v)"

definition blk_len :: "nat \<Rightarrow> dist_input \<Rightarrow> nat" where
  "blk_len c d = 2 * (psum (\<lambda>u. cap d (True, u)) c + psum (\<lambda>u. cap d (False, u)) c)"

lemma width_le: "width b \<le> 2"
  by (simp add: width_def)

lemma psum_mono: "u \<le> v \<Longrightarrow> psum a u \<le> psum a v"
  by (induction v) (auto simp: le_Suc_eq)

lemma region_bounds:
  assumes "v < c"
  shows "start c d (True, v) + width (wtd d) * cap d (True, v) \<le> 2 * psum (\<lambda>u. cap d (True, u)) c"
    and "start c d (False, v) + width (wtd d) * cap d (False, v) \<le> blk_len c d"
    and "start c d (K, v) + width (wtd d) * cap d (K, v) \<le> blk_len c d"
proof -
  have le: "psum a v + a v \<le> psum a c" for a using psum_step [OF assms] .
  have w: "width (wtd d) * psum a v + width (wtd d) * a v \<le> 2 * psum a c" for a
    using mult_le_mono [OF width_le le, of "wtd d" a] by (simp add: add_mult_distrib2)
  show 1: "start c d (True, v) + width (wtd d) * cap d (True, v) \<le> 2 * psum (\<lambda>u. cap d (True, u)) c" using w [of "\<lambda>u. cap d (True, u)"] by (simp add: start_def)
  show 2: "start c d (False, v) + width (wtd d) * cap d (False, v) \<le> blk_len c d" using w [of "\<lambda>u. cap d (False, u)"] by (simp add: start_def blk_len_def)
  show "start c d (K, v) + width (wtd d) * cap d (K, v) \<le> blk_len c d" using 1 2 by (cases K) (auto simp: blk_len_def)
qed

lemma regions_apart:
  assumes "snd K < c" and "snd K' < c" and "K \<noteq> K'"
  shows "start c d K + width (wtd d) * cap d K \<le> start c d K' \<or> start c d K' + width (wtd d) * cap d K' \<le> start c d K"
proof -
  obtain b v b' v' where K: "K = (b, v)" "K' = (b', v')" by fastforce
  have same: "width (wtd d) * psum a u + width (wtd d) * a u \<le> width (wtd d) * psum a u'" if "u < u'" for a u u'
    using mult_le_mono2 [OF psum_step [OF that], of "width (wtd d)" a] by (simp add: add_mult_distrib2)
  consider "b = b'" "v < v'" | "b = b'" "v' < v" | "b" "\<not> b'" | "\<not> b" "b'" using assms(3) K by fastforce
  then show ?thesis
  proof cases
    case 1
    then show ?thesis using same [OF 1(2), of "\<lambda>u. cap d (b, u)"] K by (cases b) (auto simp: start_def)
  next
    case 2
    then show ?thesis using same [OF 2(2), of "\<lambda>u. cap d (b, u)"] K by (cases b) (auto simp: start_def)
  next
    case 3
    then show ?thesis using region_bounds(1) [of v c d] assms(1) K by (auto simp: start_def)
  next
    case 4
    then show ?thesis using region_bounds(1) [of v' c d] assms(2) K by (auto simp: start_def)
  qed
qed

definition bmsg :: "dist_input \<Rightarrow> nat \<Rightarrow> bool \<times> nat \<Rightarrow> int list" where
  "bmsg d k K = concat (map (pay (wtd d)) (edge_pairs d k K))"

lemma length_bmsg [simp]: "length (bmsg d k K) = width (wtd d) * length (edge_pairs d k K)"
  by (simp add: bmsg_def)

lemma edge_pairs_mono: "k \<le> m \<Longrightarrow> length (edge_pairs d k K) \<le> length (edge_pairs d m K)"
  using ins_mono [of k m d "snd K"] outs_mono [of k m d "snd K"] by (cases K) (simp add: edge_pairs_def)

lemma edge_pairs_Suc:
  "edge_pairs d (Suc k) (True, v) = edge_pairs d k (True, v) @ (if tgt d k = int v then [(src d k, wgt d k)] else [])"
  "edge_pairs d (Suc k) (False, v) = edge_pairs d k (False, v) @ (if src d k = int v then [(tgt d k, wgt d k)] else [])"
  by (simp_all add: edge_pairs_def ins_outs_Suc)

text \<open>One more edge: at its source and at its target.\<close>

lemma bmsg_Suc:
  assumes "src d k = int v" and "tgt d k = int t"
  shows "bmsg d (Suc k) = ((bmsg d k)((False, v) := bmsg d k (False, v) @ pay (wtd d) (int t, wgt d k)))((True, t) := bmsg d k (True, t) @ pay (wtd d) (int v, wgt d k))"
proof
  fix K :: "bool \<times> nat"
  obtain b u where "K = (b, u)" by fastforce
  then show "bmsg d (Suc k) K = (((bmsg d k)((False, v) := bmsg d k (False, v) @ pay (wtd d) (int t, wgt d k)))((True, t) := bmsg d k (True, t) @ pay (wtd d) (int v, wgt d k))) K"
    using assms by (cases b) (auto simp: bmsg_def edge_pairs_Suc)
qed

lemma store_in_region:
  assumes ok: "dist_ok c d" and e: "e < medges d" and v: "v < c" and len: "length blk = blk_len c d"
    and b: "buckets (start c d) (UNIV \<times> {..<c}) msg blk" and room: "length (msg (K, v)) + width (wtd d) \<le> width (wtd d) * cap d (K, v)"
    and fit: "\<And>K'. K' \<in> UNIV \<times> {..<c} \<Longrightarrow> length (msg K') \<le> width (wtd d) * cap d K'"
    and a: "start c d (K, v) + length (msg (K, v)) = base + width (wtd d) * q"
  shows "\<exists>blk'. store_edge (di_weights d) (int e) (int base) (int q) x blk = Some blk' \<and> length blk' = blk_len c d \<and>
    buckets (start c d) (UNIV \<times> {..<c}) (msg((K, v) := msg (K, v) @ pay (wtd d) (x, wgt d e))) blk'"
proof -
  let ?a = "start c d (K, v) + length (msg (K, v))" and ?p = "pay (wtd d) (x, wgt d e)"
  have in': "?a + width (wtd d) \<le> blk_len c d" using region_bounds(3) [OF v, of d K] room by simp
  have st: "store_edge (di_weights d) (int e) (int base) (int q) x blk = Some (put blk ?a ?p)"
    using store_edge_ok [OF ok e, of ?a base q blk x] a in' len by (simp add: wtd_def)
  have "buckets (start c d) (UNIV \<times> {..<c}) (msg((K, v) := msg (K, v) @ ?p)) (put blk ?a ?p)"
  proof (rule buckets_put [OF b])
    fix K' assume K': "K' \<in> UNIV \<times> {..<c}" "K' \<noteq> (K, v)"
    then have "start c d K' + width (wtd d) * cap d K' \<le> start c d (K, v) \<or> start c d (K, v) + width (wtd d) * cap d (K, v) \<le> start c d K'"
      using regions_apart [where K = K' and K' = "(K, v)" and c = c and d = d] v by auto
    then show "start c d K' + length (msg K') \<le> ?a \<or> ?a + length ?p \<le> start c d K'" using fit [OF K'(1)] room by auto
  qed (use v in' len in auto)
  then show ?thesis using st in' len by simp
qed

definition sorted_upto :: "nat \<Rightarrow> dist_input \<Rightarrow> nat \<Rightarrow> dg_elem list \<times> int list \<Rightarrow> bool" where
  "sorted_upto c d k = (\<lambda>(idx, rin). idx = tab c (\<lambda>v. length (edge_pairs d k (True, v))) (\<lambda>v. length (edge_pairs d k (False, v))) \<and>
     length rin = blk_len c d \<and> buckets (start c d) (UNIV \<times> {..<c}) (bmsg d k) rin)"

lemma pairs_fit: "k \<le> medges d \<Longrightarrow> length (bmsg d k K) \<le> width (wtd d) * cap d K"
  using edge_pairs_mono [of k "medges d" d K] by (simp add: cap_def)

lemma pairs_room:
  assumes "k < medges d"
  shows "src d k = int v \<Longrightarrow> length (bmsg d k (False, v)) + width (wtd d) \<le> width (wtd d) * cap d (False, v)"
    and "tgt d k = int v \<Longrightarrow> length (bmsg d k (True, v)) + width (wtd d) \<le> width (wtd d) * cap d (True, v)"
proof -
  have "length (bmsg d (Suc k) K) \<le> width (wtd d) * cap d K" for K using assms by (intro pairs_fit) simp
  from this [of "(False, v)"] this [of "(True, v)"]
  show "src d k = int v \<Longrightarrow> length (bmsg d k (False, v)) + width (wtd d) \<le> width (wtd d) * cap d (False, v)"
    "tgt d k = int v \<Longrightarrow> length (bmsg d k (True, v)) + width (wtd d) \<le> width (wtd d) * cap d (True, v)"
    by (simp_all add: edge_pairs_Suc)
qed

lemma fill_step_ok:
  assumes ok: "dist_ok c d" and k: "k < medges d" and v: "v < c" "src d k = int v" and s: "sorted_upto c d k (idx, rin)"
    and pos: "pos = tab c (psum (\<lambda>u. cap d (True, u))) (psum (\<lambda>u. cap d (False, u)))" and ro: "ro = int (2 * psum (\<lambda>u. cap d (True, u)) c)"
  shows "\<exists>s'. (do {
          t \<leftarrow> aget (di_targets d) (int k);
          p \<leftarrow> aget pos (int v);
          x \<leftarrow> aget idx (int v);
          rin \<leftarrow> store_edge (di_weights d) (int k) ro (el_out p + el_out x) t rin;
          idx \<leftarrow> aset idx (int v) (x\<lparr>el_out := el_out x + 1\<rparr>);
          p \<leftarrow> aget pos t;
          x \<leftarrow> aget idx t;
          rin \<leftarrow> store_edge (di_weights d) (int k) 0 (el_in p + el_in x) (int v) rin;
          idx \<leftarrow> aset idx t (x\<lparr>el_in := el_in x + 1\<rparr>);
          Some (idx, rin) }) = Some s' \<and> sorted_upto c d (Suc k) s'"
proof -
  obtain t where t: "t < c" "tgt d k = int t" "aget (di_targets d) (int k) = Some (int t)" using ends_in_range(2) [OF ok k] by blast
  let ?I = "\<lambda>v. length (edge_pairs d k (True, v))" and ?O = "\<lambda>v. length (edge_pairs d k (False, v))"
  let ?PI = "psum (\<lambda>u. cap d (True, u))" and ?PO = "psum (\<lambda>u. cap d (False, u))"
  have s1: "idx = tab c ?I ?O" "length rin = blk_len c d" "buckets (start c d) (UNIV \<times> {..<c}) (bmsg d k) rin" using s by (simp_all add: sorted_upto_def)
  let ?m1 = "(bmsg d k)((False, v) := bmsg d k (False, v) @ pay (wtd d) (int t, wgt d k))"
  have fit: "length (bmsg d k K') \<le> width (wtd d) * cap d K'" for K' using k by (intro pairs_fit) simp
  have st1: "start c d (False, v) + length (bmsg d k (False, v)) = 2 * ?PI c + width (wtd d) * (?PO v + ?O v)" by (simp add: start_def add_mult_distrib2)
  obtain r1 where r1: "store_edge (di_weights d) (int k) (int (2 * ?PI c)) (int (?PO v + ?O v)) (int t) rin = Some r1" "length r1 = blk_len c d"
    "buckets (start c d) (UNIV \<times> {..<c}) ?m1 r1"
    using store_in_region [where msg = "bmsg d k" and K = False and x = "int t", OF ok k v(1) s1(2,3) pairs_room(1) [OF k v(2)] fit st1] by blast
  let ?O' = "\<lambda>u. length (edge_pairs d (Suc k) (False, u))"
  have up1: "?O' = ?O(v := ?O v + 1)" using v(2) by (auto simp: edge_pairs_Suc)
  have idx1: "aset (tab c ?I ?O) (int v) \<lparr>el_in = int (?I v), el_out = int (?O v + 1)\<rparr> = Some (tab c ?I ?O')"
    by (rule aset_tab [OF v(1) _ up1]) (simp add: fun_eq_iff)
  have fit1: "length (?m1 K') \<le> width (wtd d) * cap d K'" for K' using fit [of K'] pairs_room(1) [OF k v(2)] by auto
  have room1: "length (?m1 (True, t)) + width (wtd d) \<le> width (wtd d) * cap d (True, t)" using pairs_room(2) [OF k t(2)] by simp
  have st2: "start c d (True, t) + length (?m1 (True, t)) = 0 + width (wtd d) * (?PI t + ?I t)" by (simp add: start_def add_mult_distrib2)
  obtain r2 where r2: "store_edge (di_weights d) (int k) (int 0) (int (?PI t + ?I t)) (int v) r1 = Some r2" "length r2 = blk_len c d"
    "buckets (start c d) (UNIV \<times> {..<c}) (?m1((True, t) := ?m1 (True, t) @ pay (wtd d) (int v, wgt d k))) r2"
    using store_in_region [where msg = ?m1 and K = True and x = "int v", OF ok k t(1) r1(2,3) room1 fit1 st2] by blast
  let ?I' = "\<lambda>u. length (edge_pairs d (Suc k) (True, u))"
  have up2: "?I' = ?I(t := ?I t + 1)" using t(2) by (auto simp: edge_pairs_Suc)
  have idx2: "aset (tab c ?I ?O') (int t) \<lparr>el_in = int (?I t + 1), el_out = int (?O' t)\<rparr> = Some (tab c ?I' ?O')"
    by (rule aset_tab [OF t(1) up2]) (simp add: fun_eq_iff)
  have b2: "buckets (start c d) (UNIV \<times> {..<c}) (bmsg d (Suc k)) r2" using r2(3) unfolding bmsg_Suc [OF v(2) t(2)] by simp
  have "(do {
          t \<leftarrow> aget (di_targets d) (int k); p \<leftarrow> aget pos (int v); x \<leftarrow> aget idx (int v);
          rin \<leftarrow> store_edge (di_weights d) (int k) ro (el_out p + el_out x) t rin;
          idx \<leftarrow> aset idx (int v) (x\<lparr>el_out := el_out x + 1\<rparr>); p \<leftarrow> aget pos t; x \<leftarrow> aget idx t;
          rin \<leftarrow> store_edge (di_weights d) (int k) 0 (el_in p + el_in x) (int v) rin;
          idx \<leftarrow> aset idx t (x\<lparr>el_in := el_in x + 1\<rparr>);
          Some (idx, rin) }) = Some (tab c ?I' ?O', r2)"
    using t v(1) r1(1) r2(1) idx1 idx2 by (simp add: s1(1) pos ro aget_tab add.commute)
  then show ?thesis using r2(2) b2 by (simp add: sorted_upto_def)
qed

lemma sort_edges_ok:
  assumes ok: "dist_ok c d" and c: "0 < c"
  obtains rin where "sort_edges True (int c) (int (length (di_nodes d))) (di_nodes d) (di_degrees d) (di_targets d) (di_weights d) =
      Some (Inr (tab c (\<lambda>v. cap d (True, v)) (\<lambda>v. cap d (False, v)), tab c (psum (\<lambda>v. cap d (True, v))) (psum (\<lambda>v. cap d (False, v))),
        tab c (\<lambda>v. cap d (True, v)) (\<lambda>v. cap d (False, v)), int (2 * psum (\<lambda>v. cap d (True, v)) c), rin))"
    "length rin = blk_len c d" "buckets (start c d) (UNIV \<times> {..<c}) (bmsg d (medges d)) rin"
proof -
  let ?cnt = "tab c (\<lambda>v. cap d (True, v)) (\<lambda>v. cap d (False, v))" and ?PI = "psum (\<lambda>v. cap d (True, v))" and ?PO = "psum (\<lambda>v. cap d (False, v))"
  have cnt: "count_edges (int (length (di_nodes d))) (di_nodes d) (di_degrees d) (di_targets d) (replicate c zero_elem) = Some ?cnt"
    using count_edges_ok [OF ok] by (simp add: cap_def edge_pairs_def)
  have pos: "edge_positions (int c) ?cnt (replicate c zero_elem) = Some (tab c ?PI ?PO)" by (rule edge_positions_ok [OF c])
  let ?ro = "int (2 * ?PI c)"
  have "\<exists>s. fill_edges (int (length (di_nodes d))) (di_nodes d) (di_degrees d) (di_targets d) (di_weights d) (tab c ?PI ?PO) ?ro (replicate c zero_elem, replicate (blk_len c d) 0) = Some s \<and>
      sorted_upto c d (noff d (length (di_nodes d))) s"
    unfolding fill_edges_def
  proof (rule for_edges_rule [OF ok, where R = "\<lambda>i. sorted_upto c d (noff d i)" and S = "\<lambda>i j. sorted_upto c d (noff d i + j)"])
    show "sorted_upto c d (noff d 0) (replicate c zero_elem, replicate (blk_len c d) 0)"
      by (simp add: sorted_upto_def noff_def edge_pairs_def tab_zero buckets_def bmsg_def case_prod_beta)
  next
    fix i j s assume i: "i < length (di_nodes d)" and j: "j < nat (di_degrees d ! i)" and s: "sorted_upto c d (noff d i + j) s"
    obtain v where v: "v < c" "di_nodes d ! i = int v" using ends_in_range(1) [OF ok i] by blast
    have sv: "src d (noff d i + j) = int v" using src_in_block(1) [OF ok i j] v(2) by simp
    obtain idx rin where s': "s = (idx, rin)" by fastforce
    show "\<exists>s'. (case s of (idx, rin) \<Rightarrow> do {
          t \<leftarrow> aget (di_targets d) (int (noff d i + j)); p \<leftarrow> aget (tab c ?PI ?PO) (di_nodes d ! i); x \<leftarrow> aget idx (di_nodes d ! i);
          rin \<leftarrow> store_edge (di_weights d) (int (noff d i + j)) ?ro (el_out p + el_out x) t rin;
          idx \<leftarrow> aset idx (di_nodes d ! i) (x\<lparr>el_out := el_out x + 1\<rparr>); p \<leftarrow> aget (tab c ?PI ?PO) t; x \<leftarrow> aget idx t;
          rin \<leftarrow> store_edge (di_weights d) (int (noff d i + j)) 0 (el_in p + el_in x) (di_nodes d ! i) rin;
          idx \<leftarrow> aset idx t (x\<lparr>el_in := el_in x + 1\<rparr>);
          Some (idx, rin) }) = Some s' \<and> sorted_upto c d (noff d i + Suc j) s'"
      unfolding s' prod.case v(2) add_Suc_right
      by (rule fill_step_ok [OF ok src_in_block(2) [OF ok i j] v(1) sv s [unfolded s'] refl refl])
  qed (simp_all add: noff_Suc [OF ok])
  then obtain idx rin where f: "fill_edges (int (length (di_nodes d))) (di_nodes d) (di_degrees d) (di_targets d) (di_weights d) (tab c ?PI ?PO) ?ro
      (replicate c zero_elem, replicate (blk_len c d) 0) = Some (idx, rin)" "sorted_upto c d (medges d) (idx, rin)" unfolding noff_all [OF ok] by auto
  have idx: "idx = ?cnt" "length rin = blk_len c d" "buckets (start c d) (UNIV \<times> {..<c}) (bmsg d (medges d)) rin" using f(2) by (simp_all add: sorted_upto_def cap_def)
  have c1: "int c - 1 = int (c - 1)" "c - 1 < c" "Suc (c - 1) = c" using c by auto
  have top: "psum a (c - 1) + a (c - 1) = psum a c" for a using psum_simps(2) [of a "c - 1"] c1(3) by simp
  have len: "nat (2 * (int (?PI (c - 1)) + int (cap d (True, c - 1)) + int (?PO (c - 1)) + int (cap d (False, c - 1)))) = blk_len c d"
  proof -
    have "2 * (int (?PI (c - 1)) + int (cap d (True, c - 1)) + int (?PO (c - 1)) + int (cap d (False, c - 1))) =
        int (2 * ((?PI (c - 1) + cap d (True, c - 1)) + (?PO (c - 1) + cap d (False, c - 1))))" by simp
    then show ?thesis unfolding blk_len_def using top [of "\<lambda>v. cap d (True, v)"] top [of "\<lambda>v. cap d (False, v)"] by (simp only: nat_int)
  qed
  have ro: "2 * (int (?PI (c - 1)) + int (cap d (True, c - 1))) = ?ro"
    unfolding top [of "\<lambda>v. cap d (True, v)", symmetric] by simp
  have "sort_edges True (int c) (int (length (di_nodes d))) (di_nodes d) (di_degrees d) (di_targets d) (di_weights d) =
      Some (Inr (?cnt, tab c ?PI ?PO, ?cnt, ?ro, rin))"
    unfolding sort_edges_def Let_def nat_int cnt bind.bind_lunit pos c1(1) aget_tab [OF c1(2)] dg_elem.simps len ro f(1) idx(1) by simp
  then show thesis using that idx by blast
qed

end
