(* ===== verification/Dist_Graph_Exchange.thy ===== *)
theory Dist_Graph_Exchange
  imports Dist_Graph_Sort
begin

text \<open>
  The exchange of edges in \<open>mca_topo_base_dist_graph_distribute\<close>, for all processes together: whatever the order in
  which the messages arrive, every process ends with exactly the edges that enter and leave it.
\<close>

section \<open>Sending\<close>

definition msg_to :: "dist_input \<Rightarrow> bool \<times> nat \<Rightarrow> (int \<times> bool \<times> int list) list" where
  "msg_to d K = (if cap d K = 0 then [] else [(int (snd K), fst K, bmsg d (medges d) K)])"

lemma edge_message_ok:
  assumes b: "buckets (start c d) (UNIV \<times> {..<c}) (bmsg d (medges d)) rin" and len: "length rin = blk_len c d" and v: "v < c"
    and st: "start c d (tag, v) = base + width (wtd d) * q"
  shows "edge_message (di_weights d \<noteq> Null) rin (int base) (int q) (int (cap d (tag, v))) (int v) tag = Some (msg_to d (tag, v))"
proof -
  let ?K = "(tag, v)" and ?w = "width (wtd d)"
  have l: "length (bmsg d (medges d) ?K) = ?w * cap d ?K" by (simp add: cap_def)
  have "take (length (bmsg d (medges d) ?K)) (drop (start c d ?K) rin) = bmsg d (medges d) ?K"
    using b v unfolding buckets_def by blast
  then have "take (?w * cap d ?K) (drop (start c d ?K) rin) = bmsg d (medges d) ?K" unfolding l .
  moreover have "start c d ?K + ?w * cap d ?K \<le> length rin" using region_bounds(3) [OF v] len by simp
  ultimately have p: "part_of rin (int (start c d ?K)) (int (?w * cap d ?K)) = Some (bmsg d (medges d) ?K)"
    unfolding part_of_def by (simp only: nat_int of_nat_0_le_iff of_nat_add [symmetric] of_nat_le_iff if_True simp_thms)
  have "(if di_weights d \<noteq> Null then (int (cap d ?K) * 2, int q * 2) else (int (cap d ?K), int q)) = (int (?w * cap d ?K), int (?w * q))"
    by (simp add: width_def wtd_def)
  moreover have "int base + int (?w * q) = int (start c d ?K)" using st by simp
  ultimately show ?thesis using p unfolding edge_message_def msg_to_def by (simp only: prod.case Let_def of_nat_eq_0_iff bind.bind_lunit fst_conv snd_conv) simp
qed

lemma send_edges_ok:
  assumes b: "buckets (start c d) (UNIV \<times> {..<c}) (bmsg d (medges d)) rin" and len: "length rin = blk_len c d"
  shows "send_edges (int c) (di_weights d \<noteq> Null) (tab c (\<lambda>v. cap d (True, v)) (\<lambda>v. cap d (False, v)))
      (tab c (psum (\<lambda>v. cap d (True, v))) (psum (\<lambda>v. cap d (False, v)))) (int (2 * psum (\<lambda>v. cap d (True, v)) c)) rin =
    Some (concat (map (\<lambda>v. msg_to d (True, v) @ msg_to d (False, v)) [0..<c]))"
proof -
  let ?PI = "psum (\<lambda>v. cap d (True, v))" and ?PO = "psum (\<lambda>v. cap d (False, v))"
  let ?P = "\<lambda>k s. s = concat (map (\<lambda>v. msg_to d (True, v) @ msg_to d (False, v)) [0..<k])"
  have "\<exists>s. send_edges (int c) (di_weights d \<noteq> Null) (tab c (\<lambda>v. cap d (True, v)) (\<lambda>v. cap d (False, v)))
      (tab c ?PI ?PO) (int (2 * ?PI c)) rin = Some s \<and> ?P c s"
    unfolding send_edges_def
  proof (rule for_loop_nat0 [where P = ?P])
    fix k s assume k: "k < c" and s: "?P k s"
    have "edge_message (di_weights d \<noteq> Null) rin (int 0) (int (?PI k)) (int (cap d (True, k))) (int k) True = Some (msg_to d (True, k))"
      by (rule edge_message_ok [OF b len k]) (simp add: start_def)
    moreover have "edge_message (di_weights d \<noteq> Null) rin (int (2 * ?PI c)) (int (?PO k)) (int (cap d (False, k))) (int k) False = Some (msg_to d (False, k))"
      by (rule edge_message_ok [OF b len k]) (simp add: start_def)
    ultimately show "\<exists>s'. (do { q \<leftarrow> aget (tab c (\<lambda>v. cap d (True, v)) (\<lambda>v. cap d (False, v))) (int k); p \<leftarrow> aget (tab c ?PI ?PO) (int k);
        m \<leftarrow> edge_message (di_weights d \<noteq> Null) rin 0 (el_in p) (el_in q) (int k) True;
        m' \<leftarrow> edge_message (di_weights d \<noteq> Null) rin (int (2 * ?PI c)) (el_out p) (el_out q) (int k) False;
        Some (s @ m @ m') }) = Some s' \<and> ?P (Suc k) s'"
      using s k by (simp add: aget_tab)
  qed simp
  then show ?thesis by simp
qed

section \<open>Receiving\<close>

definition enc :: "bool \<Rightarrow> (int \<times> int) list \<Rightarrow> int list" where
  "enc w ps = concat (map (pay w) ps)"

lemma length_enc [simp]: "length (enc w ps) = width w * length ps"
  by (simp add: enc_def)

lemma enc_False: "enc False ps = map fst ps"
  by (induction ps) (auto simp: enc_def pay_def)

lemma nth_enc_True: "j < length ps \<Longrightarrow> enc True ps ! (2 * j) = fst (ps ! j) \<and> enc True ps ! (2 * j + 1) = snd (ps ! j)"
proof (induction ps arbitrary: j)
  case (Cons p ps)
  then show ?case by (cases j; cases p) (auto simp: enc_def pay_def)
qed simp

lemma recv_plain:
  assumes "\<forall>m \<in> set ms. m \<noteq> []" and "length rest = length (concat ms)"
  shows "recv_edges False (int (length dn + length rest)) ms (int (length rest)) cp (dn @ rest) nb nbw = Some (dn @ concat ms, nb, nbw)"
  using assms
proof (induction ms arbitrary: dn rest)
  case (Cons m ms)
  have m: "0 < length m" "length m \<le> length rest" "length (drop (length m) rest) = length (concat ms)" using Cons.prems by simp_all
  have left: "int (length rest) - int (length m) = int (length (drop (length m) rest))" using m(2) by (simp add: of_nat_diff)
  have off: "int (length dn + length rest) - int (length rest) = int (length dn)" by simp
  have ne: "rest \<noteq> []" using m(1,2) by auto
  have all: "int (length dn + length rest) = int (length (dn @ m) + length (drop (length m) rest))" using m(2) by simp
  have "recv_edges False (int (length dn + length rest)) (m # ms) (int (length rest)) cp (dn @ rest) nb nbw =
      recv_edges False (int (length (dn @ m) + length (drop (length m) rest))) ms (int (length (drop (length m) rest))) cp ((dn @ m) @ drop (length m) rest) nb nbw"
    unfolding recv_edges.simps(2) off left all [symmetric] using m(1,2) ne by simp
  then show ?case using Cons.IH [of "drop (length m) rest" "dn @ m"] Cons.prems(1) m(3) by simp
qed (simp add: recv_edges.simps)

lemma unpack_pairs:
  assumes len: "length ps \<le> length rnb" "length ps \<le> length rnbw"
  shows "for_loop 0 (int (length ps)) (\<lambda>j (current_pos, nb, nbw). do {
           x \<leftarrow> aget (dn @ enc True ps @ rest) (2 * j + 0 + int (length dn));
           nb \<leftarrow> aset nb current_pos x;
           w \<leftarrow> aget (dn @ enc True ps @ rest) (2 * j + 1 + int (length dn));
           nbw \<leftarrow> aset nbw current_pos w;
           Some (current_pos + 1, nb, nbw) }) (int (length xs), map fst xs @ rnb, map snd xs @ rnbw) =
    Some (int (length (xs @ ps)), map fst (xs @ ps) @ drop (length ps) rnb, map snd (xs @ ps) @ drop (length ps) rnbw)"
proof -
  let ?P = "\<lambda>k s. s = (int (length xs + k), map fst (xs @ take k ps) @ drop k rnb, map snd (xs @ take k ps) @ drop k rnbw)"
  let ?f = "\<lambda>j (current_pos, nb, nbw). do {
           x \<leftarrow> aget (dn @ enc True ps @ rest) (2 * j + 0 + int (length dn));
           nb \<leftarrow> aset nb current_pos x;
           w \<leftarrow> aget (dn @ enc True ps @ rest) (2 * j + 1 + int (length dn));
           nbw \<leftarrow> aset nbw current_pos w;
           Some (current_pos + 1, nb, nbw) }"
  have "\<exists>s. for_loop 0 (int (length ps)) ?f (int (length xs), map fst xs @ rnb, map snd xs @ rnbw) = Some s \<and> ?P (length ps) s"
  proof (rule for_loop_nat0 [where P = ?P])
    fix k s assume k: "k < length ps" and s: "?P k s"
    have ix: "2 * int k + 0 + int (length dn) = int (length dn + 2 * k)" "2 * int k + 1 + int (length dn) = int (length dn + (2 * k + 1))" by simp_all
    have get: "aget (dn @ enc True ps @ rest) (int (length dn + i)) = Some (enc True ps ! i)" if "i < 2 * length ps" for i
      using that by (simp add: aget_def nth_append width_def nat_int_add)
    have st: "aset (map f (xs @ take k ps) @ drop k r) (int (length xs + k)) (f (ps ! k)) = Some (map f (xs @ take (Suc k) ps) @ drop (Suc k) r)"
      if "length ps \<le> length r" for f :: "int \<times> int \<Rightarrow> int" and r
    proof -
      have "map f (xs @ take k ps) @ drop k r = map f (xs @ take k ps) @ r ! k # drop (Suc k) r" using that k by (simp add: Cons_nth_drop_Suc)
      moreover have "int (length xs + k) = int (length (map f (xs @ take k ps)))" using k by simp
      ultimately show ?thesis using k by (simp add: aset_def list_update_append take_Suc_conv_app_nth nat_int_add)
    qed
    show "\<exists>s'. ?f (int k) s = Some s' \<and> ?P (Suc k) s'"
    proof -
      have g: "aget (dn @ enc True ps @ rest) (int (length dn + 2 * k)) = Some (fst (ps ! k))"
        "aget (dn @ enc True ps @ rest) (int (length dn + (2 * k + 1))) = Some (snd (ps ! k))"
        using get [of "2 * k"] get [of "2 * k + 1"] k nth_enc_True [OF k] by (simp_all del: of_nat_add)
      show ?thesis unfolding s prod.case ix g bind.bind_lunit st [OF len(1)] st [OF len(2)] by simp
    qed
  qed simp
  then show ?thesis by simp
qed

lemma recv_weighted:
  assumes "\<forall>ps \<in> set pss. ps \<noteq> []" and "length rest = 2 * length (concat pss)" and "length rnb = length (concat pss)" and "length rnbw = length (concat pss)"
  shows "\<exists>t. recv_edges True (int (length dn + length rest)) (map (enc True) pss) (int (length rest)) (int (length xs)) (dn @ rest) (map fst xs @ rnb) (map snd xs @ rnbw) =
    Some (t, map fst (xs @ concat pss), map snd (xs @ concat pss))"
  using assms
proof (induction pss arbitrary: dn rest xs rnb rnbw)
  case (Cons ps pss)
  let ?m = "enc True ps" and ?rest = "drop (length (enc True ps)) rest"
  have m: "length ?m = 2 * length ps" "0 < length ps" "length ?m \<le> length rest" "length ?rest = 2 * length (concat pss)" using Cons.prems by (simp_all add: width_def)
  have le: "length ps \<le> length rnb" "length ps \<le> length rnbw" using Cons.prems(3,4) by simp_all
  have off: "int (length dn + length rest) - int (length rest) = int (length dn)" by simp
  have hf: "int (length ?m) div 2 = int (length ps)" unfolding m(1) by simp
  have left: "int (length rest) - int (length ?m) = int (length ?rest)" using m(3) by (simp add: of_nat_diff)
  have all: "int (length dn + length rest) = int (length (dn @ ?m) + length ?rest)" using m(3) by simp
  have put: "take (nat (int (length dn))) (dn @ rest) @ ?m @ drop (nat (int (length dn)) + length ?m) (dn @ rest) = dn @ ?m @ ?rest" by simp
  have fits: "0 \<le> int (length dn) \<and> int (length dn) + int (length ?m) \<le> int (length (dn @ rest))" "\<not> int (length rest) < int (length ?m)" "0 < int (length rest)"
    using m by auto
  have "recv_edges True (int (length dn + length rest)) (?m # map (enc True) pss) (int (length rest)) (int (length xs)) (dn @ rest) (map fst xs @ rnb) (map snd xs @ rnbw) =
      recv_edges True (int (length (dn @ ?m) + length ?rest)) (map (enc True) pss) (int (length ?rest)) (int (length (xs @ ps))) ((dn @ ?m) @ ?rest)
        (map fst (xs @ ps) @ drop (length ps) rnb) (map snd (xs @ ps) @ drop (length ps) rnbw)"
    unfolding recv_edges.simps(2) off hf left put all [symmetric] using fits unpack_pairs [OF le, of dn ?rest xs]
    by (simp only: if_True if_False bind.bind_lunit prod.case simp_thms append_assoc)
  then show ?case
    using Cons.IH [of ?rest "drop (length ps) rnb" "drop (length ps) rnbw" "dn @ ?m" "xs @ ps"] Cons.prems m(4) by simp
qed (simp add: recv_edges.simps)

lemma receive_all_ok:
  assumes ne: "\<forall>ps \<in> set pss. ps \<noteq> []"
  shows "receive_all junk w (int (length (concat pss))) (map (enc w) pss) =
    Some (if concat pss = [] then (Null, Null) else (Ptr (map fst (concat pss)), if w then Ptr (map snd (concat pss)) else Null))"
proof (cases w)
  case True
  let ?n = "length (concat pss)"
  obtain t where "recv_edges True (int (length ([] :: int list) + length (replicate (2 * ?n) junk))) (map (enc True) pss) (int (length (replicate (2 * ?n) junk))) (int (length ([] :: (int \<times> int) list)))
      ([] @ replicate (2 * ?n) junk) (map fst [] @ replicate ?n junk) (map snd [] @ replicate ?n junk) = Some (t, map fst ([] @ concat pss), map snd ([] @ concat pss))"
    using recv_weighted [OF ne, of "replicate (2 * ?n) junk" "replicate ?n junk" "replicate ?n junk" "[]" "[]"] by auto
  then have "recv_edges True (int ?n * 2) (map (enc True) pss) (int ?n * 2) 0 (replicate (nat (int ?n * 2)) junk) (replicate ?n junk) (replicate ?n junk) =
      Some (t, map fst (concat pss), map snd (concat pss))" by (simp add: mult.commute nat_mult_distrib del: length_concat)
  then show ?thesis using True by (simp add: receive_all_def del: length_concat)
next
  case False
  let ?n = "length (concat pss)"
  have "concat (map (enc False) pss) = map fst (concat pss)" by (induction pss) (auto simp: enc_False)
  then have "recv_edges False (int ?n) (map (enc False) pss) (int ?n) 0 (replicate ?n junk) [] [] = Some (map fst (concat pss), [], [])"
    using recv_plain [of "map (enc False) pss" "replicate ?n junk" "[]" 0 "[]" "[]"] ne by (simp add: enc_False del: length_concat)
  then show ?thesis using False by (simp add: receive_all_def del: length_concat)
qed

section \<open>All processes\<close>

text \<open>What a process contributes: its numbers of edges per peer and its messages.\<close>

definition process_step :: "nat \<Rightarrow> dist_input \<Rightarrow> (dg_elem list \<times> (int \<times> bool \<times> int list) list) option" where
  "process_step c d = do {
     r \<leftarrow> sort_edges True (int c) (int (length (di_nodes d))) (di_nodes d) (di_degrees d) (di_targets d) (di_weights d);
     case r of Inl e \<Rightarrow> None
     | Inr (cnt, pos, idx, ro, rin) \<Rightarrow> do { sent \<leftarrow> send_edges (int c) (di_weights d \<noteq> Null) cnt pos ro rin; Some (idx, sent) } }"

text \<open>What the others have sent to a process with a tag, and its share of the reduce-scatter.\<close>

definition inbox :: "(dg_elem list \<times> (int \<times> bool \<times> int list) list) list \<Rightarrow> bool \<Rightarrow> nat \<Rightarrow> int list list" where
  "inbox steps tag p = concat (map (\<lambda>(idx, sent). map (snd \<circ> snd) (filter (\<lambda>(q, t, m). q = int p \<and> t = tag) sent)) steps)"

definition reduced :: "(dg_elem list \<times> (int \<times> bool \<times> int list) list) list \<Rightarrow> nat \<Rightarrow> dg_elem" where
  "reduced steps p = \<lparr>el_in = sum_list (map (\<lambda>(idx, sent). el_in (idx ! p)) steps), el_out = sum_list (map (\<lambda>(idx, sent). el_out (idx ! p)) steps)\<rparr>"

text \<open>The graph: source, target and weight of all edges, and those that enter and leave a node.\<close>

definition all_edges :: "dist_input list \<Rightarrow> (int \<times> int \<times> int) list" where
  "all_edges P = concat (map (\<lambda>d. map (\<lambda>e. (src d e, tgt d e, wgt d e)) [0..<medges d]) P)"

definition in_edges :: "dist_input list \<Rightarrow> nat \<Rightarrow> (int \<times> int) list" where
  "in_edges P p = map (\<lambda>(s, t, w). (s, w)) (filter (\<lambda>(s, t, w). t = int p) (all_edges P))"

definition out_edges :: "dist_input list \<Rightarrow> nat \<Rightarrow> (int \<times> int) list" where
  "out_edges P p = map (\<lambda>(s, t, w). (t, w)) (filter (\<lambda>(s, t, w). s = int p) (all_edges P))"

definition edge_list :: "int list ptr \<Rightarrow> int list ptr \<Rightarrow> (int \<times> int) list" where
  "edge_list nb ws = (case ws of Null \<Rightarrow> map (\<lambda>x. (x, 0)) (cells nb) | Ptr w \<Rightarrow> zip (cells nb) w)"

lemma process_step_ok:
  assumes "dist_ok c d" and "0 < c"
  shows "process_step c d = Some (tab c (\<lambda>v. cap d (True, v)) (\<lambda>v. cap d (False, v)), concat (map (\<lambda>v. msg_to d (True, v) @ msg_to d (False, v)) [0..<c]))"
proof -
  obtain rin where r: "sort_edges True (int c) (int (length (di_nodes d))) (di_nodes d) (di_degrees d) (di_targets d) (di_weights d) =
      Some (Inr (tab c (\<lambda>v. cap d (True, v)) (\<lambda>v. cap d (False, v)), tab c (psum (\<lambda>v. cap d (True, v))) (psum (\<lambda>v. cap d (False, v))),
        tab c (\<lambda>v. cap d (True, v)) (\<lambda>v. cap d (False, v)), int (2 * psum (\<lambda>v. cap d (True, v)) c), rin))"
    "length rin = blk_len c d" "buckets (start c d) (UNIV \<times> {..<c}) (bmsg d (medges d)) rin" using sort_edges_ok [OF assms] .
  show ?thesis unfolding process_step_def r(1) bind.bind_lunit sum.case prod.case send_edges_ok [OF r(3,2)] ..
qed

lemma filter_one: "p < c \<Longrightarrow> (\<And>v. v < c \<Longrightarrow> v \<noteq> p \<Longrightarrow> filter Q (g v) = []) \<Longrightarrow> filter Q (concat (map g [0..<c])) = filter Q (g p)"
proof (induction c)
  case (Suc c)
  then show ?case by (cases "p = c") (auto simp: filter_empty_conv less_Suc_eq)
qed simp

lemma msgs_to_one:
  assumes "p < c"
  shows "map (snd \<circ> snd) (filter (\<lambda>(q, t, m). q = int p \<and> t = tag) (concat (map (\<lambda>v. msg_to d (True, v) @ msg_to d (False, v)) [0..<c]))) =
    map (enc (wtd d)) (filter (\<lambda>ps. ps \<noteq> []) [edge_pairs d (medges d) (tag, p)])"
proof -
  have "filter (\<lambda>(q, t, m). q = int p \<and> t = tag) (concat (map (\<lambda>v. msg_to d (True, v) @ msg_to d (False, v)) [0..<c])) =
      filter (\<lambda>(q, t, m). q = int p \<and> t = tag) (msg_to d (True, p) @ msg_to d (False, p))"
    by (rule filter_one [OF assms]) (auto simp: msg_to_def)
  then show ?thesis by (cases tag) (auto simp: msg_to_def cap_def bmsg_def enc_def)
qed

text \<open>The blocks a process receives, one for each process that has edges for it.\<close>

definition incoming :: "dist_input list \<Rightarrow> bool \<times> nat \<Rightarrow> (int \<times> int) list list" where
  "incoming P K = filter (\<lambda>ps. ps \<noteq> []) (map (\<lambda>d. edge_pairs d (medges d) K) P)"

lemma concat_nonempty: "concat (filter (\<lambda>ps. ps \<noteq> []) xss) = concat xss"
  by (induction xss) auto

lemma concat_incoming: "concat (incoming P (True, p)) = in_edges P p" "concat (incoming P (False, p)) = out_edges P p"
proof -
  have "concat (map (\<lambda>d. edge_pairs d (medges d) (True, p)) P) = in_edges P p"
    by (induction P) (auto simp: in_edges_def all_edges_def edge_pairs_def ins_def filter_map o_def)
  moreover have "concat (map (\<lambda>d. edge_pairs d (medges d) (False, p)) P) = out_edges P p"
    by (induction P) (auto simp: out_edges_def all_edges_def edge_pairs_def outs_def filter_map o_def)
  ultimately show "concat (incoming P (True, p)) = in_edges P p" "concat (incoming P (False, p)) = out_edges P p"
    unfolding incoming_def concat_nonempty by simp_all
qed

lemma mset_map_lift:
  assumes "mset xs = mset (map f ys)"
  obtains zs where "xs = map f zs" "mset zs = mset ys"
proof -
  have "\<exists>zs. xs = map f zs \<and> mset zs = mset ys" using assms
  proof (induction xs arbitrary: ys)
    case (Cons x xs)
    have "x \<in> set (map f ys)" using Cons.prems mset_eq_setD [OF Cons.prems] by auto
    then obtain y where y: "y \<in> set ys" "x = f y" by auto
    have "mset xs = mset (map f (remove1 y ys))" using arg_cong [OF Cons.prems, of "\<lambda>M. M - {#x#}"] y by (simp add: image_mset_Diff)
    then obtain zs where "xs = map f zs" "mset zs = mset (remove1 y ys)" using Cons.IH by blast
    then have "x # xs = map f (y # zs)" "mset (y # zs) = mset ys" using y by simp_all
    then show ?case by (intro exI conjI)
  qed simp
  then show thesis using that by blast
qed

lemma receive_in_any_order:
  assumes ms: "mset msgs = mset (map (enc w) (incoming P K))" and z: "\<not> w \<Longrightarrow> \<forall>e \<in> set (concat (incoming P K)). snd e = 0"
  obtains nb ws where "receive_all j w (int (length (concat (incoming P K)))) msgs = Some (nb, ws)"
    "mset (edge_list nb ws) = mset (concat (incoming P K))"
proof -
  obtain pss where pss: "msgs = map (enc w) pss" "mset pss = mset (incoming P K)" using mset_map_lift [OF ms] .
  have m: "mset (concat pss) = mset (concat (incoming P K))" using pss(2) unfolding mset_concat sum_mset_sum_list [symmetric] mset_map by simp
  have ne: "\<forall>ps \<in> set pss. ps \<noteq> []" using mset_eq_setD [OF pss(2)] by (auto simp: incoming_def)
  have len: "length (concat (incoming P K)) = length (concat pss)" using mset_eq_length [OF m] by simp
  let ?nb = "if concat pss = [] then Null else Ptr (map fst (concat pss))" and ?ws = "if concat pss = [] \<or> \<not> w then Null else Ptr (map snd (concat pss))"
  have r: "receive_all j w (int (length (concat (incoming P K)))) msgs = Some (?nb, ?ws)" unfolding len pss(1) receive_all_ok [OF ne] by simp
  have "edge_list ?nb ?ws = concat pss"
  proof (cases w)
    case True
    then show ?thesis by (simp add: edge_list_def zip_map_fst_snd)
  next
    case False
    then have "\<forall>e \<in> set (concat pss). snd e = 0" using z mset_eq_setD [OF m] by simp
    then have "map (\<lambda>x. (x, 0)) (map fst (concat pss)) = concat pss" by (simp only: map_map) (rule map_idI, fastforce)
    then show ?thesis using False by (simp add: edge_list_def del: map_concat map_map)
  qed
  then show thesis by (intro that [OF r]) (simp only: m)
qed

text \<open>What all processes contribute.\<close>

definition outgoing :: "dist_input list \<Rightarrow> (dg_elem list \<times> (int \<times> bool \<times> int list) list) list" where
  "outgoing P = map (\<lambda>d. case process_step (length P) d of Some st \<Rightarrow> st | None \<Rightarrow> ([], [])) P"

lemma outgoing_ok: "\<forall>d \<in> set P. dist_ok (length P) d \<Longrightarrow> map (process_step (length P)) P = map Some (outgoing P)"
proof -
  assume ok: "\<forall>d \<in> set P. dist_ok (length P) d"
  have "process_step (length P) d = Some (case process_step (length P) d of Some st \<Rightarrow> st | None \<Rightarrow> ([], []))" if "d \<in> set P" for d
    using process_step_ok [of "length P" d] ok that by (cases P) auto
  then show ?thesis by (simp add: outgoing_def)
qed

lemma steps_ok:
  assumes ok: "\<forall>d \<in> set P. dist_ok (length P) d \<and> wtd d = w" and p: "p < length P"
    and steps: "map (process_step (length P)) P = map Some steps"
  shows "inbox steps tag p = map (enc w) (incoming P (tag, p))"
    and "reduced steps p = \<lparr>el_in = int (length (in_edges P p)), el_out = int (length (out_edges P p))\<rparr>"
proof -
  let ?f = "\<lambda>d. (tab (length P) (\<lambda>v. cap d (True, v)) (\<lambda>v. cap d (False, v)), concat (map (\<lambda>v. msg_to d (True, v) @ msg_to d (False, v)) [0..<length P]))"
  have "map Some steps = map Some (map ?f P)" using process_step_ok ok p unfolding steps [symmetric] by (auto intro!: process_step_ok)
  then have st: "steps = map ?f P" by (rule injD [OF inj_mapI [OF inj_Some]])
  have "concat (map (\<lambda>d. map (enc (wtd d)) (filter (\<lambda>ps. ps \<noteq> []) [edge_pairs d (medges d) (tag, p)])) Q) = map (enc w) (incoming Q (tag, p))"
    if "\<forall>d \<in> set Q. wtd d = w" for Q using that by (induction Q) (auto simp: incoming_def)
  then show "inbox steps tag p = map (enc w) (incoming P (tag, p))"
    using ok unfolding inbox_def st map_map o_def prod.case msgs_to_one [OF p, unfolded o_def] by blast
  have "sum_list (map (\<lambda>d. int (cap d (tag, p))) Q) = int (length (concat (incoming Q (tag, p))))" for tag Q
    unfolding incoming_def concat_nonempty by (induction Q) (auto simp: cap_def)
  then show "reduced steps p = \<lparr>el_in = int (length (in_edges P p)), el_out = int (length (out_edges P p))\<rparr>"
    unfolding reduced_def st map_map o_def prod.case concat_incoming [symmetric] using p by (simp add: tab_def)
qed

lemma unweighted_edges: "\<forall>d \<in> set P. \<not> wtd d \<Longrightarrow> \<forall>e \<in> set (concat (incoming P K)). snd e = 0"
  by (cases K) (auto simp: incoming_def edge_pairs_def wtd_def wgt_def split: if_splits)

definition all_allocated :: "distribute_alloc \<Rightarrow> bool" where
  "all_allocated al \<longleftrightarrow> al_cnt al \<and> al_rin al \<and> al_dist_topo al \<and> al_edges_in al \<and> al_edges_out al \<and> al_reqs al \<and> al_temp_in al \<and> al_temp_out al"

lemma distribute_ok:
  assumes ok: "\<forall>d \<in> set P. dist_ok (length P) d \<and> wtd d = w" and p: "p < length P" and d: "d = P ! p"
    and steps: "map (process_step (length P)) P = map Some steps" and al: "all_allocated al"
    and inb: "mset msgs_in = mset (inbox steps True p)" and outb: "mset msgs_out = mset (inbox steps False p)"
  shows "\<exists>dg. mca_topo_base_dist_graph_distribute al j (int (length P)) (int (length (di_nodes d))) (di_nodes d) (di_degrees d) (di_targets d)
        (di_weights d) (reduced steps p) msgs_in msgs_out = Some (Inr (snd (steps ! p), dg)) \<and>
      indegree dg = int (length (in_edges P p)) \<and> outdegree dg = int (length (out_edges P p)) \<and> weighted dg = w \<and>
      mset (edge_list (dg_in dg) (dg_inw dg)) = mset (in_edges P p) \<and> mset (edge_list (dg_out dg) (dg_outw dg)) = mset (out_edges P p)"
proof -
  have dw: "dist_ok (length P) d" "wtd d = w" "0 < length P" using ok p d by auto
  obtain cnt pos idx ro rin sent where
    so: "sort_edges True (int (length P)) (int (length (di_nodes d))) (di_nodes d) (di_degrees d) (di_targets d) (di_weights d) = Some (Inr (cnt, pos, idx, ro, rin))"
      "send_edges (int (length P)) (di_weights d \<noteq> Null) cnt pos ro rin = Some sent" "steps ! p = (idx, sent)"
  proof -
    have "length steps = length P" using arg_cong [OF steps, of length] by simp
    then have "process_step (length P) d = Some (steps ! p)" using arg_cong [OF steps, of "\<lambda>xs. xs ! p"] p d by simp
    then show thesis using that unfolding process_step_def by (auto split: bind_splits sum.splits prod.splits)
  qed
  have w: "(di_weights d \<noteq> Null) = w" using dw(2) by (simp add: wtd_def)
  have z: "\<not> w \<Longrightarrow> \<forall>e \<in> set (concat (incoming P K)). snd e = 0" for K using ok unweighted_edges by blast
  obtain nb ws where i: "receive_all j w (int (length (in_edges P p))) msgs_in = Some (nb, ws)" "mset (edge_list nb ws) = mset (in_edges P p)"
    using receive_in_any_order [OF inb [unfolded steps_ok(1) [OF ok p steps]] z] unfolding concat_incoming by blast
  obtain nb' ws' where ou: "receive_all j w (int (length (out_edges P p))) msgs_out = Some (nb', ws')" "mset (edge_list nb' ws') = mset (out_edges P p)"
    using receive_in_any_order [OF outb [unfolded steps_ok(1) [OF ok p steps]] z] unfolding concat_incoming by blast
  show ?thesis using al i ou so
    unfolding mca_topo_base_dist_graph_distribute_def all_allocated_def steps_ok(2) [OF ok p steps] by (simp add: w)
qed

section \<open>Properties\<close>

text \<open>C28: The distributed construction of a graph, over all processes. Every process names edges between arbitrary nodes,
  weighted on all processes or on none; with the sums of the edge counts from the reduce-scatter and the messages
  of all processes delivered in whatever order, the construction returns on every process: it has sent what the other
  processes wait for, and the topology of process \<open>p\<close> has exactly the edges into \<open>p\<close> and out of \<open>p\<close> that any process
  has named, as often as they were named and each with its weight, and reports their numbers.\<close>

theorem dist_graph_distributes_edges:
  assumes "\<forall>d \<in> set P. dist_ok (length P) d \<and> (di_weights d \<noteq> Null) = w" and "p < length P" and "all_allocated al" and "d = P ! p"
    and "mset msgs_in = mset (inbox (outgoing P) True p)" and "mset msgs_out = mset (inbox (outgoing P) False p)"
  shows "map (process_step (length P)) P = map Some (outgoing P) \<and>
    (\<exists>dc. mca_topo_base_dist_graph_create OPAL_SUCCESS al junk (int (length P)) (int (length (di_nodes d))) (di_nodes d) (di_degrees d) (di_targets d)
        (di_weights d) reorder (reduced (outgoing P) p) msgs_in msgs_out = Some (Inr (snd (outgoing P ! p), dc)) \<and>
      mca_topo_base_dist_graph_neighbors_count True (dc_graph dc) = Inr (int (length (in_edges P p)), int (length (out_edges P p)), w) \<and>
      mset (edge_list (dg_in (dc_graph dc)) (dg_inw (dc_graph dc))) = mset (in_edges P p) \<and>
      mset (edge_list (dg_out (dc_graph dc)) (dg_outw (dc_graph dc))) = mset (out_edges P p))"
proof -
  have steps: "map (process_step (length P)) P = map Some (outgoing P)" using assms(1) by (intro outgoing_ok) blast
  obtain dg where "mca_topo_base_dist_graph_distribute al junk (int (length P)) (int (length (di_nodes d))) (di_nodes d) (di_degrees d) (di_targets d)
        (di_weights d) (reduced (outgoing P) p) msgs_in msgs_out = Some (Inr (snd (outgoing P ! p), dg))"
      "indegree dg = int (length (in_edges P p))" "outdegree dg = int (length (out_edges P p))" "weighted dg = w"
      "mset (edge_list (dg_in dg) (dg_inw dg)) = mset (in_edges P p)" "mset (edge_list (dg_out dg) (dg_outw dg)) = mset (out_edges P p)"
    using distribute_ok [OF assms(1) [folded wtd_def] assms(2,4) steps assms(3,5,6)] by blast
  then show ?thesis using steps by (simp add: mca_topo_base_dist_graph_create_def mca_topo_base_dist_graph_neighbors_count_def)
qed

definition example_graph :: "dist_input list" where
  "example_graph =
     [\<lparr>di_nodes = [0, 1], di_degrees = [2, 1], di_targets = [1, 0, 0], di_weights = Ptr [7, 8, 9]\<rparr>,
      \<lparr>di_nodes = [1], di_degrees = [1], di_targets = [1], di_weights = Ptr [5]\<rparr>]"

definition no_failures :: distribute_alloc where
  "no_failures = \<lparr>al_cnt = True, al_rin = True, al_dist_topo = True, al_edges_in = True, al_edges_out = True, al_reqs = True, al_temp_in = True, al_temp_out = True\<rparr>"

lemma example_inbox:
  "inbox (outgoing example_graph) True 1 = [[0, 7], [1, 5]]" "inbox (outgoing example_graph) False 1 = [[0, 9], [1, 5]]"
  "in_edges example_graph 1 = [(0, 7), (1, 5)]" "out_edges example_graph 1 = [(0, 9), (1, 5)]" "reduced (outgoing example_graph) 1 = \<lparr>el_in = 2, el_out = 2\<rparr>"
  by code_simp+

theorem dist_graph_distributes_edges_witness:
  "\<exists>sent dc. mca_topo_base_dist_graph_create OPAL_SUCCESS no_failures 0 2 1 [1] [1] [1] (Ptr [5]) 0 \<lparr>el_in = 2, el_out = 2\<rparr> [[1, 5], [0, 7]] [[0, 9], [1, 5]] = Some (Inr (sent, dc)) \<and>
    mca_topo_base_dist_graph_neighbors_count True (dc_graph dc) = Inr (2, 2, True) \<and>
    mset (edge_list (dg_in (dc_graph dc)) (dg_inw (dc_graph dc))) = {#(0, 7), (1, 5)#}"
proof -
  have ok: "\<forall>d \<in> set example_graph. dist_ok (length example_graph) d \<and> (di_weights d \<noteq> Null) = True" by code_simp
  have ex: "length example_graph = 2" "example_graph ! 1 = \<lparr>di_nodes = [1], di_degrees = [1], di_targets = [1], di_weights = Ptr [5]\<rparr>"
    by (simp_all add: example_graph_def)
  have al: "all_allocated no_failures" by (simp add: all_allocated_def no_failures_def)
  have p: "1 < length example_graph" by (simp add: ex)
  show ?thesis
    using dist_graph_distributes_edges [OF ok p al ex(2) [symmetric], of "[[1, 5], [0, 7]]" "[[0, 9], [1, 5]]" 0 0]
    unfolding example_inbox ex by auto
qed

end
