(* ===== verification/Spec2Isabelle.thy ===== *)
theory Spec2Isabelle
  imports Bitmap Pointer_Array Hotel Ring_Buffer Hash_Table Seq_Tracker Group_Ops Cart_Topology Dims_Create
    Coll_Chain Coll_Bintree Ob1_Early Dss_Faults Comm_Split Argv_Split Dist_Graph_Exchange
begin

text \<open>
  A verification library for the C core of the Open MPI tree under
  \<^verbatim>\<open>src/openmpi/ompi-trunk\<close>: the containers and utilities of the portability layer
  (\<^verbatim>\<open>opal/\<close>) with its library for packing data, and, from the MPI layer (\<^verbatim>\<open>ompi/\<close>), the process
  groups, the Cartesian and graph topologies, the sequence tracker, the communication trees of the collectives and the
  matching of messages with receives.

  \<^bold>\<open>How C is read.\<close> \<^verbatim>\<open>Opal_Prelude\<close> fixes the reading: a C \<open>int\<close> is a HOL
  integer, with overflow checked by \<open>cint\<close> where the arguments can lead to it; sums and products that stay
  below a size that is itself an \<open>int\<close> (a number of processes, the length of an array) are left
  unchecked, and so are the numbers of edges of a distributed graph, which are taken to fit; \<open>unsigned\<close> values on which
  the code works bitwise are machine words; an array is the list of its cells, read and written only through
  \<open>aget\<close> and \<open>aset\<close>; a pointer compared with NULL is an \<open>'a ptr\<close>; the outcome of an
  allocation and the content of uninitialised memory are arguments (the arrays of ranks in \<^verbatim>\<open>Group_Ops\<close>,
  whose allocation the code does not check, are taken to be allocated). \<open>None\<close> is undefined behaviour (an
  access outside a block, signed overflow, division by zero, a negative shift) or, for the loops that are
  \<open>partial_function\<close>s, a loop that does not end; so a theorem that an operation returns \<open>Some\<close> is
  at the same time a memory-safety and a termination theorem. Counting loops are \<open>for_loop\<close> and
  \<open>find_loop\<close> with one total-correctness rule each; no fuel is used anywhere: every other loop is a
  \<open>fun\<close> or a \<open>function\<close> with a measure.

  \<^bold>\<open>The parts.\<close>
  \<^item> \<^verbatim>\<open>Bitmap\<close>: \<^verbatim>\<open>opal/class/opal_bitmap.c\<close>, growable bitmaps of 64-bit words.
    Set-theoretic specification; find-first-unset is the least unset position; what the size limit and the bit
    count really do.
  \<^item> \<^verbatim>\<open>Slot_Table\<close>, \<^verbatim>\<open>Pointer_Array\<close>, \<^verbatim>\<open>Hotel\<close>:
    \<^verbatim>\<open>opal_pointer_array.c\<close> and \<^verbatim>\<open>opal_hotel.c\<close>, two tables that hand out free
    slots. The locales of \<^verbatim>\<open>Slot_Table\<close> state what handing out a slot promises; both
    components are interpretations of it.
  \<^item> \<^verbatim>\<open>Ring_Buffer\<close>: \<^verbatim>\<open>opal_ring_buffer.c\<close> as the queue of the most recent entries.
  \<^item> \<^verbatim>\<open>Byte_Memory\<close>, \<^verbatim>\<open>Stream_Digest\<close>, \<^verbatim>\<open>Checksum\<close>,
    \<^verbatim>\<open>Crc\<close>: \<^verbatim>\<open>opal/util/crc.c\<close>. The additive checksums and the CRC at every
    alignment, with and without copying; the locale of \<^verbatim>\<open>Stream_Digest\<close> carries the fact that a
    stream may be cut anywhere, and all digests interpret it.
  \<^item> \<^verbatim>\<open>Bit_Ops\<close>: \<^verbatim>\<open>opal/util/bit_ops.h\<close>, both the builtin and the portable body of
    every function.
  \<^item> \<^verbatim>\<open>Keyed_Store\<close>, \<^verbatim>\<open>Hash_Table\<close>: \<^verbatim>\<open>opal_hash_table.c\<close> with 32-bit,
    64-bit and byte-block keys, hashed with the power-of-two mask of \<^verbatim>\<open>Bit_Ops\<close> and, for blocks,
    with the CRC of \<^verbatim>\<open>Crc\<close>. Each key type is an interpretation of the hash-table locale and of the
    map contract in \<^verbatim>\<open>Keyed_Store\<close>.
  \<^item> \<^verbatim>\<open>Seen_Set\<close>, \<^verbatim>\<open>Seq_Tracker\<close>: \<^verbatim>\<open>ompi/class/ompi_seq_tracker.c\<close>,
    the sequence numbers received so far as a list of ranges with a cursor. An interpretation of the contract in
    \<^verbatim>\<open>Seen_Set\<close>: a set of numbers, as long as both ends of the 32-bit counter are not in it.
  \<^item> \<^verbatim>\<open>Rank_Translation\<close>, \<^verbatim>\<open>Group\<close>, \<^verbatim>\<open>Group_Incl\<close>,
    \<^verbatim>\<open>Group_Ops\<close>: \<^verbatim>\<open>ompi/group\<close>. A group is a dense array of processes or a stride,
    a list of ranges or a bitmap over a parent group. \<^verbatim>\<open>Group\<close> has the data and the translation of
    ranks, an interpretation of the locale of \<^verbatim>\<open>Rank_Translation\<close>; \<^verbatim>\<open>Group_Incl\<close> the
    choice of the smallest format and the four constructors; \<^verbatim>\<open>Group_Ops\<close> the operations of the MPI
    interface: exclusion, ranges, union, intersection, difference, comparison. \<open>grp_procs\<close> is the list of
    processes a group stands for, \<open>grp_ok\<close> the invariant; every operation is compared with the operation
    on lists it implements.
  \<^item> \<^verbatim>\<open>Cart_Topology\<close>: \<^verbatim>\<open>ompi/mca/topo/base/topo_base_cart_*.c\<close>. Ranks and
    coordinates as mixed-radix numbers; shifts; creation and sub-grids.
  \<^item> \<^verbatim>\<open>Dims_Create\<close>: \<^verbatim>\<open>ompi/mpi/c/dims_create.c\<close>, the choice of balanced
    dimensions.

  \<^item> \<^verbatim>\<open>Spanning_Tree\<close>, \<^verbatim>\<open>Coll_Tree\<close>, \<^verbatim>\<open>Coll_Bmtree\<close>,
    \<^verbatim>\<open>Coll_Chain\<close>, \<^verbatim>\<open>Coll_Bintree\<close>:
    \<^verbatim>\<open>ompi/mca/coll/tuned/coll_tuned_topo.c\<close>, the trees along which the collective operations send.
    Every process computes its own parent and children; \<^verbatim>\<open>Spanning_Tree\<close> states what it means that
    the views of all processes fit together, as the locale of which the fan-out tree, both binomial trees, the
    chains and the in-order binary tree are interpretations.

  \<^item> \<^verbatim>\<open>Message_Matching\<close>, \<^verbatim>\<open>Ob1_Comm\<close>, \<^verbatim>\<open>Ob1_Match\<close>,
    \<^verbatim>\<open>Ob1_Order\<close>, \<^verbatim>\<open>Ob1_Arrive\<close>, \<^verbatim>\<open>Ob1_Post\<close>, \<^verbatim>\<open>Ob1_Ledger\<close>,
    \<^verbatim>\<open>Ob1_Run\<close>, \<^verbatim>\<open>Ob1_Early\<close>: the matching engine of \<^verbatim>\<open>ompi/mca/pml/ob1\<close>
    (\<^verbatim>\<open>pml_ob1_recvfrag.c\<close>, \<^verbatim>\<open>pml_ob1_recvreq.c\<close>, \<^verbatim>\<open>pml_ob1_comm.c\<close>,
    \<^verbatim>\<open>pml_ob1.c\<close>). \<^verbatim>\<open>Ob1_Comm\<close> has the state and all operations;
    \<^verbatim>\<open>Ob1_Match\<close> shows that the queue per sender and the wild queue are one queue in the order of
    posting; \<^verbatim>\<open>Ob1_Order\<close> has the invariants, \<^verbatim>\<open>Ob1_Arrive\<close> and
    \<^verbatim>\<open>Ob1_Post\<close> that the operations keep them; \<^verbatim>\<open>Ob1_Ledger\<close> that no started request
    is lost between the queues and the matches, so that a receive can be cancelled; \<^verbatim>\<open>Ob1_Run\<close> interprets the
    interface of \<^verbatim>\<open>Message_Matching\<close> and draws the conclusions for whole runs;
    \<^verbatim>\<open>Ob1_Early\<close> is about the fast path of the callback for short messages, with the two ways in
    which such a message is completed, and the fragments that come before their communicator. Two
    bounds enter: a message may overtake at most \<open>2 ^ 16\<close> others (16-bit sequence numbers), and fewer than
    \<open>2 ^ 32\<close> receives are posted (\<open>recv_sequence_wrap_reorders\<close> shows why). A receive is cancelled
    at most once: the code unlinks it a second time.

  \<^item> \<^verbatim>\<open>Dss_Buffer\<close>, \<^verbatim>\<open>Dss_Types\<close>, \<^verbatim>\<open>Dss_Pack\<close>,
    \<^verbatim>\<open>Dss_Unpack\<close>, \<^verbatim>\<open>Dss_Codec\<close>, \<^verbatim>\<open>Dss_Stream\<close>,
    \<^verbatim>\<open>Dss_Roundtrip\<close>, \<^verbatim>\<open>Dss_Faults\<close>: the packing library
    \<^verbatim>\<open>opal/dss\<close>. \<^verbatim>\<open>Dss_Buffer\<close> has the buffers and the queue of bytes a buffer
    stands for (\<open>unread\<close>), with composition rules for operations that append to it (\<open>puts\<close>) and
    take from it (\<open>gets\<close>, and \<open>safe\<close> for arbitrary content); \<^verbatim>\<open>Dss_Pack\<close> and
    \<^verbatim>\<open>Dss_Unpack\<close> the functions and the table through which they call each other;
    \<^verbatim>\<open>Dss_Codec\<close> and \<^verbatim>\<open>Dss_Stream\<close> show that each packing function and its
    unpacking function fit together (\<open>codec\<close>), layer by layer; \<^verbatim>\<open>Dss_Roundtrip\<close> has the
    contract of a packing library as the locale \<open>byte_stream\<close>, interpreted on \<open>opal_dss_pack\<close> and
    \<open>opal_dss_unpack\<close>, and the round trip between two machines; \<^verbatim>\<open>Dss_Faults\<close> integers of
    different sizes, unpacking of arbitrary bytes, wrong types, and the array values that cannot be unpacked.

  \<^item> \<^verbatim>\<open>Qsort_Swap\<close>, \<^verbatim>\<open>Qsort\<close>, \<^verbatim>\<open>Qsort_Sorted\<close>,
    \<^verbatim>\<open>Qsort_Partition\<close>: the sort of \<^verbatim>\<open>opal/util/qsort.c\<close>, which stands in for the C
    library's on some platforms, on a block of bytes. \<^verbatim>\<open>Qsort_Swap\<close> shows that the exchanges by
    words and by bytes exchange elements; \<^verbatim>\<open>Qsort_Sorted\<close> has the contract of a comparison
    (\<open>c_order\<close>) and the insertion sort, \<^verbatim>\<open>Qsort_Partition\<close> the invariant of the three-way
    partition and the total correctness of the sort.

  \<^item> \<^verbatim>\<open>Comm_Split\<close>: the members and their order in \<^verbatim>\<open>ompi_comm_split\<close>
    (\<^verbatim>\<open>ompi/communicator/comm.c\<close>), with the comparison of ranks and keys. The contract of
    \<^verbatim>\<open>qsort\<close> is the locale \<open>pair_sorter\<close>, interpreted on \<open>opal_qsort\<close>; the group is made
    by \<open>ompi_group_incl\<close>, and \<open>mca_topo_base_cart_sub\<close> is taken over it.

  \<^item> \<^verbatim>\<open>Argv\<close>, \<^verbatim>\<open>Argv_Lists\<close>, \<^verbatim>\<open>Argv_Split\<close>: the argument
    vectors of \<^verbatim>\<open>opal/util/argv.c\<close>. \<open>holds\<close> relates a vector to the list of its strings; the
    operations are shown to be list operations, splitting to give the fields of a string, joining to be its inverse.

  \<^item> \<^verbatim>\<open>Graph_Topology\<close>, \<^verbatim>\<open>Dist_Graph\<close>, \<^verbatim>\<open>Dist_Graph_Sort\<close>,
    \<^verbatim>\<open>Dist_Graph_Exchange\<close>: the graph topologies of \<^verbatim>\<open>ompi/mca/topo/base\<close>.
    \<^verbatim>\<open>Graph_Topology\<close> has graphs, the distributed graphs a process describes by its own neighbours, and
    all queries; \<^verbatim>\<open>Dist_Graph\<close> the construction in which any process may name any edge;
    \<^verbatim>\<open>Dist_Graph_Sort\<close> shows that a process has its edges sorted by peer in the blocks it sends, and
    \<^verbatim>\<open>Dist_Graph_Exchange\<close> puts all processes together, for every order in which the messages arrive.

  This theory holds the properties that span components.

  \<^bold>\<open>Arguments that stand for other code.\<close> \<^verbatim>\<open>ompi_comm_allocate\<close>,
  \<^verbatim>\<open>ompi_comm_enable\<close> and \<^verbatim>\<open>mca_topo_base_comm_select\<close> enter as their return
  codes; \<^verbatim>\<open>ompi_comm_split\<close>, a collective operation, enters \<open>mca_topo_base_cart_sub\<close> as an argument, for which
  \<^verbatim>\<open>Comm_Split\<close> gives the code: there the allgather enters as what it delivers, the colours and keys of all ranks; the distributed graphs take the result of a reduce-scatter and the messages they receive, which the property about them computes from what all processes contribute and send; the event library of the hotel as the delivery of timer events; the convertor that unpacks a short message into the user's buffer (\<^verbatim>\<open>opal_convertor_unpack\<close>) as a function that takes the bytes in order, as many as the buffer holds (\<open>convertor_ok\<close>); the conversions of floating-point numbers to text and back enter the packing library as
  functions, with the assumption (\<open>float_ok\<close>) that the numbers sent survive them and their text has at least three characters.
  Machine assumptions: LP64, little-endian words in the checksums and the packing library (on whose receiving machine the sizes of
  \<^verbatim>\<open>int\<close>, \<^verbatim>\<open>bool\<close>, \<^verbatim>\<open>size_t\<close> and \<^verbatim>\<open>pid_t\<close> may differ).

  \<^bold>\<open>Not modelled.\<close> Reference counts of objects other than processes, the object system and the locks
  (the operations are taken to run one at a time); printing and debugging output; the transports
  (\<^verbatim>\<open>opal/mca/btl\<close>, \<^verbatim>\<open>ompi/mca/mtl\<close>) and the protocols that move the data of
  a longer message after it is matched (the rest of \<^verbatim>\<open>ompi/mca/pml\<close>), the exchange of messages in the collectives, one-sided and file operations, the run-time environment (\<^verbatim>\<open>orte/\<close>) and OpenSHMEM,
  which need a model of the network and of several processes; the data-type engine
  (\<^verbatim>\<open>opal/datatype\<close>); of the packing library the statistics of processes and nodes and the copying, comparing and
  printing of values; command lines, red-black trees and the other
  containers of \<^verbatim>\<open>opal/class\<close>; the third-party libraries in the tree (libevent, hwloc, ROMIO,
  VampirTrace, ptmalloc); the Java and Scala benchmarks and the Python scripts around Open MPI.
\<close>

section \<open>Dimensions and topologies\<close>

text \<open>C23: When the product of the dimensions the caller fixed divides the number of processes of a communicator and
  at least one dimension is free (or the fixed ones make up all processes), the dimensions MPI_Dims_create chooses
  are accepted by the creation of a Cartesian communicator: every process becomes a member, the grid has exactly one
  point per process, the dimensions the caller fixed are kept, and the topology is well-formed. Nothing fails to be
  allocated. Without the divisibility a grid larger than the communicator can come out, which the creation refuses.\<close>

theorem dims_create_then_cart_create:
  assumes "1 \<le> nnodes" and "nnodes \<le> INT_MAX" and "ds \<noteq> []" and "\<forall>d \<in> set ds. 0 \<le> d"
    and "fixed_prod ds dvd nnodes" and "0 \<in> set ds \<or> fixed_prod ds = nnodes" and "nnodes div fixed_prod ds \<le> 2 ^ sz"
    and "length ps = length ds" and "0 \<le> rank" and "rank < nnodes"
  shows "\<exists>ds' c. MPI_Dims_create param_check sz (Ptr junk) True nnodes (int (length ds)) (Ptr ds) = Some (MPI_SUCCESS, Ptr ds') \<and>
           mca_topo_base_cart_create no_failure True OPAL_SUCCESS nnodes rank ds' ps = Some (Inr (Ptr c)) \<and>
           cart_wf c \<and> dims (cart c) = ds' \<and> comm_size c = nnodes \<and> comm_rank c = rank \<and>
           (\<forall>i < length ds. ds ! i \<noteq> 0 \<longrightarrow> ds' ! i = ds ! i)"
proof -
  obtain ds' where d: "MPI_Dims_create param_check sz (Ptr junk) True nnodes (int (length ds)) (Ptr ds) = Some (MPI_SUCCESS, Ptr ds')"
    "length ds' = length ds" "prod_list ds' = nnodes" "\<forall>i < length ds. ds ! i \<noteq> 0 \<longrightarrow> ds' ! i = ds ! i" "\<forall>d \<in> set ds'. 1 \<le> d"
    using dims_create_ok [OF assms(1,3-7), of param_check junk] by blast
  have pos: "pos_dims ds'" using d(5) by (auto simp: pos_dims_def)
  have run: "mca_topo_base_cart_create no_failure True OPAL_SUCCESS nnodes rank ds' ps =
      Some (Inr (Ptr \<lparr>comm_size = prod_list ds', comm_rank = rank,
        cart = \<lparr>ndims = int (length ds'), dims = ds', periods = ps, coords = cart_digits ds' rank\<rparr>\<rparr>))"
    by (rule cart_create_member [OF pos]) (use assms d in simp_all)
  then show ?thesis using d pos assms(8-10) by (auto simp: cart_wf_def)
qed

theorem dims_create_then_cart_create_witness:
  "\<exists>ds' c. MPI_Dims_create True 3 (Ptr 0) True 6 2 (Ptr [0, 0]) = Some (MPI_SUCCESS, Ptr ds') \<and>
     mca_topo_base_cart_create no_failure True OPAL_SUCCESS 6 4 ds' [0, 1] = Some (Inr (Ptr c)) \<and> cart_wf c"
  using dims_create_then_cart_create [of 6 "[0, 0]" 3 "[0, 1]" 4 True 0] by (auto simp: INT_MAX_def)

end
